(* ===== verification/FLPrelude.thy ===== *)
theory FLPrelude
  imports Complex_Main "HOL-Library.Word"
begin

text \<open>
  Shared vocabulary of the development: the machine-integer types of the C++ and CUDA sources,
  the fact collections the component theories extend, and the generic lemmas on words,
  remainders, primes and lists that several components rely on.
\<close>

section \<open>Machine integers\<close>

type_synonym u32 = "32 word"
type_synonym u64 = "64 word"
type_synonym u128 = "128 word"

text \<open>
  \<open>fl_unat\<close> collects the equations that read a machine operation as an operation on natural
  numbers; \<open>fl_defs\<close> collects definitions that are unfolded on concrete inputs.
\<close>

named_theorems fl_unat
named_theorems fl_defs

lemma unat_less_2p64 [simp]: "unat (a::u64) < 18446744073709551616"
  using unsigned_less [of a, where ?'a = nat] by simp

lemma unat_less_2p32 [simp]: "unat (a::u32) < 4294967296"
  using unsigned_less [of a, where ?'a = nat] by simp

lemma unat_less_2p128 [simp]: "unat (a::u128) < 340282366920938463463374607431768211456"
  using unsigned_less [of a, where ?'a = nat] by simp

lemma unat_ucast_mod: "unat (ucast (a::'a::len word) :: 'b::len word) = unat a mod 2 ^ LENGTH('b)"
  by (simp add: unsigned_ucast_eq take_bit_eq_mod)

lemma unat_ucast_u64_u128 [fl_unat]: "unat (ucast (a::u64) :: u128) = unat a"
  using unat_less_2p64 [of a] by (simp add: unat_ucast_mod del: unat_less_2p64)

lemma unat_ucast_u32_u64 [fl_unat]: "unat (ucast (a::u32) :: u64) = unat a"
  using unat_less_2p32 [of a] by (simp add: unat_ucast_mod del: unat_less_2p32)

lemma unat_ucast_u128_u64 [fl_unat]: "unat (ucast (a::u128) :: u64) = unat a mod 2 ^ 64"
  by (simp add: unat_ucast_mod)

lemma unat_ucast_u64_u32 [fl_unat]: "unat (ucast (a::u64) :: u32) = unat a mod 2 ^ 32"
  by (simp add: unat_ucast_mod)

lemma unat_drop_bit_div [fl_unat]: "unat (drop_bit n (a::'a::len word)) = unat a div 2 ^ n"
  by (simp only: unat_drop_bit_eq) (simp only: drop_bit_eq_div)

lemma unat_push_bit_mult [fl_unat]:
  "unat (push_bit n (a::'a::len word)) = unat a * 2 ^ n mod 2 ^ LENGTH('a)"
  by (simp only: unsigned_push_bit_eq) (simp only: push_bit_eq_mult take_bit_eq_mod)

lemma pow2_split: "m + n = k \<Longrightarrow> (2::nat) ^ k = 2 ^ m * 2 ^ n"
  by (simp only: power_add [symmetric])

lemma mult_less_pow:
  assumes "(a::nat) < 2 ^ m" and "b < 2 ^ n"
  shows "a * b < 2 ^ (m + n)"
  using assms by (simp add: power_add mult_strict_mono)

lemma mult_u64_less [simp]: "unat (a::u64) * unat (b::u64) < 340282366920938463463374607431768211456"
  using mult_less_pow [of "unat a" 64 "unat b" 64] by simp

lemma unat_mult_u128 [fl_unat]:
  "unat ((ucast (a::u64) :: u128) * ucast (b::u64)) = unat a * unat b"
  by (simp add: unat_word_ariths fl_unat)

lemma mult_u32_less [simp]: "unat (a::u32) * unat (b::u32) < 18446744073709551616"
  using mult_less_pow [of "unat a" 32 "unat b" 32] by simp

lemma unat_mult_u64 [fl_unat]:
  "unat ((ucast (a::u32) :: u64) * ucast (b::u32)) = unat a * unat b"
  by (simp add: unat_word_ariths fl_unat)

lemma unat_add_small:
  assumes "unat (a::'a::len word) + unat b < 2 ^ LENGTH('a)"
  shows "unat (a + b) = unat a + unat b"
  using assms by (simp add: unat_word_ariths)

text \<open>
  A wrapped difference of two products: where the true difference is a natural number below
  the word size, the wrap-around is invisible.
\<close>

lemma unat_diff_of_nat:
  assumes "b \<le> a" and "a - b < 2 ^ LENGTH('a)"
  shows "unat ((of_nat a :: 'a::len word) - of_nat b) = a - b"
proof -
  have "(of_nat a :: 'a word) - of_nat b = of_nat (a - b)"
    using assms(1) by (simp add: of_nat_diff)
  then show ?thesis using assms(2) by (simp add: unat_of_nat)
qed

lemma word_mult_of_nat: "(a::'a::len word) * b = of_nat (unat a * unat b)"
  by simp

section \<open>Remainders\<close>

lemma cond_sub_mod:
  assumes "(r::nat) < 2 * p" and "r mod p = x mod p"
  shows "(if p \<le> r then r - p else r) = x mod p"
proof (cases "p \<le> r")
  case True
  with assms(1) have "r - p < p" by arith
  moreover have "(r - p) mod p = r mod p" using True by (simp add: le_mod_geq)
  ultimately show ?thesis using True assms(2) by simp
next
  case False
  with assms(2) show ?thesis by simp
qed

lemma cond_sub_word:
  assumes "unat (r::'a::len word) < 2 * unat p" and "unat r mod unat p = x mod unat p"
  shows "unat (if r \<ge> p then r - p else r) = x mod unat p"
  using cond_sub_mod [OF assms] by (auto simp: word_le_nat_alt unat_sub split: if_splits)

lemma diff_mult_mod:
  assumes "k * p \<le> (x::nat)"
  shows "(x - k * p) mod p = x mod p"
  using assms by (metis le_add_diff_inverse2 mod_mult_self1)

section \<open>Prime numbers and Fermat's theorem\<close>

text \<open>
  The moduli of the scheme are primes. The allowed library theories have no notion of a prime
  number, so the little that the arithmetic needs is developed here.
\<close>

definition prime_nat :: "nat \<Rightarrow> bool" where
  "prime_nat p \<longleftrightarrow> 1 < p \<and> (\<forall>d. d dvd p \<longrightarrow> d = 1 \<or> d = p)"

lemma prime_nat_code [code]:
  "prime_nat p \<longleftrightarrow> 1 < p \<and> (\<forall>d \<in> {2..<p}. p mod d \<noteq> 0)"
proof
  assume "prime_nat p"
  then show "1 < p \<and> (\<forall>d \<in> {2..<p}. p mod d \<noteq> 0)"
    by (auto simp: prime_nat_def mod_eq_0_iff_dvd)
next
  assume h: "1 < p \<and> (\<forall>d \<in> {2..<p}. p mod d \<noteq> 0)"
  show "prime_nat p"
    unfolding prime_nat_def
  proof (intro conjI allI impI)
    show "1 < p" using h by simp
    fix d assume d: "d dvd p"
    have "d \<noteq> 0" using d h by (metis dvd_0_left not_one_less_zero)
    moreover have "d \<le> p" using d h by (simp add: dvd_imp_le)
    moreover have "\<not> (2 \<le> d \<and> d < p)" using d h by (auto simp: mod_eq_0_iff_dvd)
    ultimately show "d = 1 \<or> d = p" by arith
  qed
qed

lemma prime_nat_gt1: "prime_nat p \<Longrightarrow> 1 < p"
  by (simp add: prime_nat_def)

lemma prime_nat_coprime:
  assumes "prime_nat p" and "\<not> p dvd a"
  shows "coprime p a"
proof -
  have "gcd p a dvd p" by simp
  then have "gcd p a = 1 \<or> gcd p a = p" using assms(1) unfolding prime_nat_def by blast
  moreover have "gcd p a \<noteq> p" using assms(2) by (metis gcd_dvd2)
  ultimately show ?thesis by (simp add: coprime_iff_gcd_eq_1)
qed

lemma prime_nat_dvd_mult:
  assumes "prime_nat p" and "p dvd a * b"
  shows "p dvd a \<or> p dvd b"
proof (cases "p dvd a")
  case False
  then have "coprime p a" using assms(1) by (rule prime_nat_coprime [rotated])
  then show ?thesis using assms(2) by (simp add: coprime_dvd_mult_right_iff)
qed simp

lemma prime_nat_dvd_power: "prime_nat p \<Longrightarrow> p dvd a ^ n \<Longrightarrow> p dvd a"
proof (induction n)
  case 0
  then show ?case by (simp add: prime_nat_def)
next
  case (Suc n)
  then show ?case using prime_nat_dvd_mult [of p a "a ^ n"] by auto
qed

lemma prime_nat_dvd_prod:
  assumes "prime_nat p" and "finite A" and "p dvd (\<Prod>k\<in>A. f k)"
  shows "\<exists>k\<in>A. p dvd f k"
  using assms(2,3)
proof (induction A rule: finite_induct)
  case empty
  then show ?case using assms(1) by (simp add: prime_nat_def)
next
  case (insert x F)
  then have "p dvd f x \<or> p dvd (\<Prod>k\<in>F. f k)"
    using prime_nat_dvd_mult [OF assms(1), of "f x"] by simp
  then show ?case using insert.IH by auto
qed

lemma prime_nat_dvd_prime: "prime_nat p \<Longrightarrow> prime_nat q \<Longrightarrow> p dvd q \<Longrightarrow> p = q"
  unfolding prime_nat_def by (metis less_irrefl)

lemma prime_nat_dvd_choose:
  assumes "prime_nat p" and "0 < k" and "k < p"
  shows "p dvd (p choose k)"
proof -
  have "k * (p choose k) = p * (p - 1 choose (k - 1))"
    using assms(2) by (rule times_binomial_minus1_eq)
  then have "p dvd k * (p choose k)" by simp
  moreover have "\<not> p dvd k" using assms(2,3) by (auto dest: dvd_imp_le)
  ultimately show ?thesis using assms(1) prime_nat_dvd_mult by blast
qed

lemma freshman_dream:
  assumes "prime_nat p"
  shows "(a + 1) ^ p mod p = (a ^ p + 1) mod (p::nat)"
proof -
  have p: "0 < p" "p \<noteq> 0" using assms by (auto simp: prime_nat_def)
  let ?t = "\<lambda>k. (p choose k) * a ^ k"
  have "(a + 1) ^ p = (\<Sum>k\<le>p. ?t k)"
    using binomial [of a 1 p] by simp
  also have "{..p} = insert 0 (insert p {1..<p})" using p by auto
  also have "(\<Sum>k\<in>insert 0 (insert p {1..<p}). ?t k) = 1 + (a ^ p + (\<Sum>k\<in>{1..<p}. ?t k))"
    using p by simp
  finally have eq: "(a + 1) ^ p = (a ^ p + 1) + (\<Sum>k\<in>{1..<p}. ?t k)" by simp
  have "p dvd (\<Sum>k\<in>{1..<p}. ?t k)"
    by (rule dvd_sum) (simp add: prime_nat_dvd_choose [OF assms])
  then obtain m where "(\<Sum>k\<in>{1..<p}. ?t k) = p * m" by (auto simp: dvd_def)
  with eq show ?thesis by simp
qed

lemma fermat_all:
  assumes "prime_nat p"
  shows "a ^ p mod p = a mod (p::nat)"
proof (induction a)
  case 0
  then show ?case using assms by (simp add: prime_nat_def power_0_left)
next
  case (Suc a)
  have "Suc a ^ p mod p = (a ^ p + 1) mod p"
    using freshman_dream [OF assms, of a] by simp
  also have "\<dots> = (a mod p + 1) mod p"
    using Suc.IH by (metis mod_add_left_eq)
  finally show ?case by (simp add: mod_simps)
qed

lemma coprime_mult_cancel_mod:
  assumes "coprime (p::nat) a" and "a * x mod p = a * y mod p"
  shows "x mod p = y mod p"
proof (cases "x \<le> y")
  case True
  have "p dvd a * y - a * x" using assms(2) True by (metis mod_eq_dvd_iff_nat mult_le_mono2)
  then have "p dvd a * (y - x)" by (simp add: diff_mult_distrib2)
  then have "p dvd y - x" using assms(1) by (simp add: coprime_dvd_mult_right_iff)
  then show ?thesis using True by (metis mod_eq_dvd_iff_nat)
next
  case False
  then have le: "y \<le> x" by simp
  have "p dvd a * x - a * y" using assms(2) le by (metis mod_eq_dvd_iff_nat mult_le_mono2)
  then have "p dvd a * (x - y)" by (simp add: diff_mult_distrib2)
  then have "p dvd x - y" using assms(1) by (simp add: coprime_dvd_mult_right_iff)
  then show ?thesis using le by (metis mod_eq_dvd_iff_nat)
qed

theorem fermat_little:
  assumes "prime_nat p" and "\<not> p dvd a"
  shows "a ^ (p - 1) mod p = 1"
proof -
  have p: "1 < p" using assms(1) by (rule prime_nat_gt1)
  then have "a * a ^ (p - 1) = a ^ p" by (metis less_one nat_less_le power_eq_if not_less_zero)
  then have "a * a ^ (p - 1) mod p = a * 1 mod p" using fermat_all [OF assms(1)] by simp
  then have "a ^ (p - 1) mod p = 1 mod p"
    by (rule coprime_mult_cancel_mod [OF prime_nat_coprime [OF assms]])
  then show ?thesis using p by simp
qed

lemma prime_square_one:
  assumes "prime_nat p" and "x * x mod p = 1"
  shows "x mod p = 1 \<or> x mod p = p - 1"
proof -
  have p: "1 < p" using assms(1) by (rule prime_nat_gt1)
  have x0: "x \<noteq> 0" using assms(2) by (cases x) auto
  have "1 \<le> x * x" using x0 by simp
  moreover have "x * x mod p = 1 mod p" using assms(2) p by simp
  ultimately have "p dvd x * x - 1" using mod_eq_dvd_iff_nat by blast
  moreover have "x * x - 1 = (x - 1) * (x + 1)" using x0 by (cases x) (auto simp: algebra_simps)
  ultimately have "p dvd x - 1 \<or> p dvd x + 1" using assms(1) prime_nat_dvd_mult by metis
  then show ?thesis
  proof
    assume "p dvd x - 1"
    moreover have "1 \<le> x" using x0 by simp
    ultimately have "x mod p = 1 mod p" using mod_eq_dvd_iff_nat by blast
    then show ?thesis using p by simp
  next
    assume "p dvd x + 1"
    then obtain m where m: "x + 1 = p * m" by (auto simp: dvd_def)
    then have "m \<noteq> 0" by (cases m) auto
    then obtain m' where "m = Suc m'" by (cases m) auto
    with m have "x + 1 = (p - 1) + p * m' + 1" using p by simp
    then have "x = (p - 1) + p * m'" by simp
    then have "x mod p = (p - 1) mod p" by (simp only: mod_mult_self2)
    then have "x mod p = p - 1" using p by simp
    then show ?thesis ..
  qed
qed

section \<open>Lists\<close>

lemma those_map_Some:
  "(\<And>x. x \<in> set xs \<Longrightarrow> f x = Some (g x)) \<Longrightarrow> those (map f xs) = Some (map g xs)"
  by (induction xs) auto

lemma those_Some_length: "those xs = Some ys \<Longrightarrow> length ys = length xs"
  by (induction xs arbitrary: ys) (auto split: option.splits)

lemma those_Some_nth: "those xs = Some ys \<Longrightarrow> i < length xs \<Longrightarrow> xs ! i = Some (ys ! i)"
proof (induction xs arbitrary: ys i)
  case (Cons x xs)
  then show ?case by (cases i) (auto split: option.splits)
qed simp

lemma nth_update_upd: "i < length xs \<Longrightarrow> (xs[i := v]) ! j = (if i = j then v else xs ! j)"
  by simp

lemma sum_list_map_remove:
  assumes "x \<in> set xs" and "distinct xs"
  shows "sum_list (map f xs) = (f x :: nat) + sum_list (map f (remove1 x xs))"
  using assms by (induction xs) auto

end
