(* ===== verification/StdMap.thy ===== *)
theory StdMap
  imports FLPrelude
begin

text \<open>
  What the sources use of the C++ library's ordered containers: \<open>std::map\<close> as the list of its
  pairs in ascending key order (its iteration order), with \<open>operator[]\<close>-style assignment,
  \<open>emplace\<close>, \<open>erase\<close> and lookups through \<^const>\<open>map_of\<close>; and the exceptions the sources throw.
\<close>

section \<open>Exceptions\<close>

datatype cpp_error = Runtime_error | Invalid_argument | Out_of_range | Assert_failed | Undefined_behaviour

lemma map_sum_eq_Inr [simp]: "map_sum f g r = Inr x \<longleftrightarrow> (\<exists>y. r = Inr y \<and> x = g y)"
  by (cases r) auto

text \<open>Sequencing of calls that may throw, and loops whose body may.\<close>

fun bindE :: "cpp_error + 'a \<Rightarrow> ('a \<Rightarrow> cpp_error + 'b) \<Rightarrow> cpp_error + 'b" where
  "bindE (Inl e) f = Inl e"
| "bindE (Inr x) f = f x"

fun foldE :: "('s \<Rightarrow> 'a \<Rightarrow> cpp_error + 's) \<Rightarrow> 's \<Rightarrow> 'a list \<Rightarrow> cpp_error + 's" where
  "foldE f s [] = Inr s"
| "foldE f s (x # xs) = bindE (f s x) (\<lambda>s'. foldE f s' xs)"

fun mapE :: "('a \<Rightarrow> cpp_error + 'b) \<Rightarrow> 'a list \<Rightarrow> cpp_error + 'b list" where
  "mapE f [] = Inr []"
| "mapE f (x # xs) = bindE (f x) (\<lambda>y. bindE (mapE f xs) (\<lambda>ys. Inr (y # ys)))"

definition guardE :: "cpp_error \<Rightarrow> bool \<Rightarrow> cpp_error + unit" where
  "guardE e b = (if b then Inr () else Inl e)"

text \<open>\<open>vector::at\<close>.\<close>

definition list_at :: "'a list \<Rightarrow> nat \<Rightarrow> cpp_error + 'a" where
  "list_at xs i = (if i < length xs then Inr (xs ! i) else Inl Out_of_range)"

lemma bindE_eq_Inr: "bindE r f = Inr y \<longleftrightarrow> (\<exists>x. r = Inr x \<and> f x = Inr y)"
  by (cases r) auto

lemma bindE_eq_Inl: "bindE r f = Inl e \<longleftrightarrow> r = Inl e \<or> (\<exists>x. r = Inr x \<and> f x = Inl e)"
  by (cases r) auto

lemma guardE_simps [simp]: "guardE e True = Inr ()" "guardE e False = Inl e"
  by (simp_all add: guardE_def)

lemma guardE_eq [simp]: "guardE e b = Inr u \<longleftrightarrow> b" "guardE e b = Inl e' \<longleftrightarrow> \<not> b \<and> e = e'"
  by (auto simp: guardE_def)

lemma list_at_nth [simp]: "i < length xs \<Longrightarrow> list_at xs i = Inr (xs ! i)"
  by (simp add: list_at_def)

lemma foldE_append: "foldE f s (xs @ ys) = bindE (foldE f s xs) (\<lambda>s'. foldE f s' ys)"
proof (induction xs arbitrary: s)
  case (Cons x xs)
  then show ?case by (cases "f s x") simp_all
qed simp

lemma mapE_ok: "(\<And>x. x \<in> set xs \<Longrightarrow> f x = Inr (g x)) \<Longrightarrow> mapE f xs = Inr (map g xs)"
  by (induction xs) simp_all

text \<open>Sequencing of steps that may fail or not end.\<close>

definition thenO :: "(cpp_error + 'a) option \<Rightarrow> ('a \<Rightarrow> (cpp_error + 'b) option) \<Rightarrow> (cpp_error + 'b) option" where
  "thenO r f = (case r of None \<Rightarrow> None | Some (Inl e) \<Rightarrow> Some (Inl e) | Some (Inr x) \<Rightarrow> f x)"

lemma thenO_simps [simp]:
  "thenO None f = None" "thenO (Some (Inl e)) f = Some (Inl e)" "thenO (Some (Inr x)) f = f x"
  by (simp_all add: thenO_def)

lemma thenO_assoc: "thenO (thenO m f) g = thenO m (\<lambda>x. thenO (f x) g)"
  by (simp add: thenO_def split: option.split sum.split)

lemma thenO_return [simp]: "thenO m (\<lambda>c. Some (Inr c)) = m"
  by (auto simp: thenO_def split: option.splits sum.splits)

text \<open>A loop over a vector whose body may fail or not end.\<close>

fun foldO :: "('s \<Rightarrow> 'a \<Rightarrow> (cpp_error + 's) option) \<Rightarrow> 's \<Rightarrow> 'a list \<Rightarrow> (cpp_error + 's) option" where
  "foldO f s [] = Some (Inr s)"
| "foldO f s (x # xs) = thenO (f s x) (\<lambda>s'. foldO f s' xs)"

text \<open>A call returns normally, with a result that satisfies \<open>Q\<close>.\<close>

definition returns :: "(cpp_error + 'a) option \<Rightarrow> ('a \<Rightarrow> bool) \<Rightarrow> bool" where
  "returns m Q \<longleftrightarrow> (\<exists>r. m = Some (Inr r) \<and> Q r)"

lemma returns_Some [simp]: "returns (Some (Inr r)) Q \<longleftrightarrow> Q r"
  by (simp add: returns_def)

lemma returns_thenO: "returns m Q \<Longrightarrow> (\<And>r. Q r \<Longrightarrow> returns (f r) R) \<Longrightarrow> returns (thenO m f) R"
  by (auto simp: returns_def)

lemma returns_weaken: "returns m Q \<Longrightarrow> (\<And>r. Q r \<Longrightarrow> R r) \<Longrightarrow> returns m R"
  by (auto simp: returns_def)

text \<open>The invariant rule of a loop over an index range.\<close>

lemma returns_foldO_upt:
  assumes "m \<le> n" and "I m s" and "\<And>i s. m \<le> i \<Longrightarrow> i < n \<Longrightarrow> I i s \<Longrightarrow> returns (f s i) (I (Suc i))"
  shows "returns (foldO f s [m..<n]) (I n)"
  using assms
proof (induction "n - m" arbitrary: m s)
  case (Suc d)
  then have "[m..<n] = m # [Suc m..<n]" by (simp add: upt_conv_Cons)
  moreover have "returns (foldO f s' [Suc m..<n]) (I n)" if "I (Suc m) s'" for s'
    using Suc.hyps(1) [of "Suc m" s'] Suc.hyps(2) Suc.prems that by simp
  moreover have "returns (f s m) (I (Suc m))" using Suc.prems(2,3) Suc.hyps(2) by simp
  ultimately show ?case by (simp add: returns_thenO)
qed simp

lemma foldE_range:
  assumes "m \<le> n" and "I m s" and "\<And>i s. m \<le> i \<Longrightarrow> i < n \<Longrightarrow> I i s \<Longrightarrow> \<exists>s'. f s i = Inr s' \<and> I (Suc i) s'"
  shows "\<exists>s'. foldE f s [m..<n] = Inr s' \<and> I n s'"
  using assms
proof (induction "n - m" arbitrary: m s)
  case (Suc d)
  then have "[m..<n] = m # [Suc m..<n]" by (simp add: upt_conv_Cons)
  moreover obtain s' where "f s m = Inr s'" "I (Suc m) s'" using Suc.prems Suc.hyps(2) by fastforce
  ultimately show ?case using Suc.hyps(1) [of "Suc m" s'] Suc.hyps(2) Suc.prems by simp
qed simp

section \<open>Ordered maps\<close>

fun map_put :: "'k::linorder \<Rightarrow> 'v \<Rightarrow> ('k \<times> 'v) list \<Rightarrow> ('k \<times> 'v) list" where
  "map_put k v [] = [(k, v)]"
| "map_put k v ((k', v') # m) =
     (if k < k' then (k, v) # (k', v') # m
      else if k = k' then (k, v) # m
      else (k', v') # map_put k v m)"

definition map_emplace :: "'k::linorder \<Rightarrow> 'v \<Rightarrow> ('k \<times> 'v) list \<Rightarrow> ('k \<times> 'v) list" where
  "map_emplace k v m = (case map_of m k of None \<Rightarrow> map_put k v m | Some _ \<Rightarrow> m)"

definition map_erase :: "'k \<Rightarrow> ('k \<times> 'v) list \<Rightarrow> ('k \<times> 'v) list" where
  "map_erase k m = filter (\<lambda>kv. fst kv \<noteq> k) m"

definition map_contains :: "'k \<Rightarrow> ('k \<times> 'v) list \<Rightarrow> bool" where
  "map_contains k m \<longleftrightarrow> map_of m k \<noteq> None"

definition ordered_map :: "('k::linorder \<times> 'v) list \<Rightarrow> bool" where
  "ordered_map m \<longleftrightarrow> sorted_wrt (<) (map fst m)"

lemma map_of_put [simp]: "map_of (map_put k v m) = (map_of m)(k \<mapsto> v)"
  by (induction k v m rule: map_put.induct) auto

lemma set_map_put: "fst ` set (map_put k v m) = insert k (fst ` set m)"
  by (induction k v m rule: map_put.induct) auto

lemma ordered_map_put [intro]: "ordered_map m \<Longrightarrow> ordered_map (map_put k v m)"
proof (induction k v m rule: map_put.induct)
  case (2 k v k' v' m)
  have "sorted_wrt (<) (map fst (map_put k v m))" if "\<not> k < k'" "k \<noteq> k'"
    using 2 that by (simp add: ordered_map_def)
  moreover have "fst ` set (map_put k v m) = insert k (fst ` set m)" by (rule set_map_put)
  ultimately show ?case using 2(2) by (auto simp: ordered_map_def)
qed (simp add: ordered_map_def)

lemma map_of_emplace:
  "map_of (map_emplace k v m) = (case map_of m k of None \<Rightarrow> (map_of m)(k \<mapsto> v) | Some _ \<Rightarrow> map_of m)"
  by (simp add: map_emplace_def split: option.split)

lemma ordered_map_emplace [intro]: "ordered_map m \<Longrightarrow> ordered_map (map_emplace k v m)"
  by (auto simp: map_emplace_def split: option.split)

lemma map_of_erase [simp]: "map_of (map_erase k m) = (map_of m)(k := None)"
  by (induction m) (auto simp: map_erase_def)

lemma ordered_map_erase [intro]: "ordered_map m \<Longrightarrow> ordered_map (map_erase k m)"
  by (auto simp: ordered_map_def map_erase_def sorted_wrt_map intro: sorted_wrt_filter)

lemma ordered_map_distinct: "ordered_map m \<Longrightarrow> distinct (map fst m)"
  unfolding ordered_map_def by (simp add: strict_sorted_iff)

lemma ordered_map_Nil [simp]: "ordered_map []"
  by (simp add: ordered_map_def)

lemma ordered_map_map [simp]: "ordered_map (map (\<lambda>(k, v). (k, f k v)) m) = ordered_map m"
  by (simp add: ordered_map_def comp_def case_prod_beta)

lemma map_of_map_values: "map_of (map (\<lambda>(k, v). (k, f k v)) m) k = map_option (f k) (map_of m k)"
  by (induction m) auto

subsection \<open>Weighted sums over the values\<close>

definition weight :: "('v \<Rightarrow> 'a::ab_group_add) \<Rightarrow> ('k \<times> 'v) list \<Rightarrow> 'a" where
  "weight w m = sum_list (map (\<lambda>kv. w (snd kv)) m)"

lemma weight_simps [simp]: "weight w [] = 0" "weight w (kv # m) = w (snd kv) + weight w m"
  by (simp_all add: weight_def)

lemma weight_put_new: "map_of m k = None \<Longrightarrow> weight w (map_put k v m) = weight w m + w v"
  by (induction k v m rule: map_put.induct) (auto simp: algebra_simps)

lemma weight_put:
  assumes "ordered_map m" and "map_of m k = Some v0"
  shows "weight w (map_put k v m) = weight w m - w v0 + w v"
  using assms
proof (induction k v m rule: map_put.induct)
  case (2 k v k' v' m)
  have "\<not> k < k'" using 2 by (fastforce simp: ordered_map_def dest: map_of_SomeD split: if_splits)
  then show ?case using 2 by (auto simp: ordered_map_def algebra_simps split: if_splits)
qed simp

end
