(* ===== verification/KeyCache.thy ===== *)
theory KeyCache
  imports StdMap
begin

text \<open>
  The VRAM cache of rotation keys: \<open>Precomputations::KeyPrecomputations\<close>
  (\<open>src/src/CKKS/Context.cuh\<close>, \<open>src/src/CKKS/Context.cu\<close>) over the residency state of a
  \<open>KeySwitchingKey\<close> (\<open>src/src/CKKS/KeySwitchingKey.cu\<close>). The key material itself is abstracted to
  its size; byte counts are 64-bit words, as \<open>size_t\<close>. A \<open>std::list\<close> iterator stored in
  \<open>lru_pos\<close> is represented by the element it points to. The eviction loop is a partial
  function: a loop that runs forever is the value \<^term>\<open>None\<close>.
\<close>

section \<open>State\<close>

record KeySwitchingKey =
  ksk_keyID :: string
  ksk_resident :: bool
  ksk_has_snapshot :: bool
  ksk_limb_bytes :: u64

record KeyPrecomputations =
  kp_eval_key :: "KeySwitchingKey option"
  kp_rot_keys :: "(int \<times> KeySwitchingKey) list"
  kp_resident_bytes :: u64
  kp_lru_order :: "int list"
  kp_lru_pos :: "int set"
  kp_pinned :: "int set"

definition empty_precomputations :: KeyPrecomputations where
  "empty_precomputations = \<lparr>kp_eval_key = None, kp_rot_keys = [], kp_resident_bytes = 0,
     kp_lru_order = [], kp_lru_pos = {}, kp_pinned = {}\<rparr>"

section \<open>Operations\<close>

definition ksk_offload :: "KeySwitchingKey \<Rightarrow> KeySwitchingKey" where
  "ksk_offload k = (if \<not> ksk_resident k then k else k\<lparr>ksk_resident := False\<rparr>)"

definition ksk_ensureResident :: "KeySwitchingKey \<Rightarrow> cpp_error + KeySwitchingKey" where
  "ksk_ensureResident k =
     (if ksk_resident k then Inr k
      else if \<not> ksk_has_snapshot k then Inl Assert_failed
      else Inr (k\<lparr>ksk_resident := True\<rparr>))"

definition touch :: "int \<Rightarrow> KeyPrecomputations \<Rightarrow> KeyPrecomputations" where
  "touch index kp =
     (if index \<in> kp_lru_pos kp
      then kp\<lparr>kp_lru_order := index # remove1 index (kp_lru_order kp)\<rparr>
      else kp\<lparr>kp_lru_order := index # kp_lru_order kp,
               kp_lru_pos := insert index (kp_lru_pos kp)\<rparr>)"

definition offloadKey :: "int \<Rightarrow> KeyPrecomputations \<Rightarrow> bool \<times> KeyPrecomputations" where
  "offloadKey index kp =
     (case map_of (kp_rot_keys kp) index of
        None \<Rightarrow> (False, kp)
      | Some k \<Rightarrow>
          if \<not> ksk_resident k \<or> \<not> ksk_has_snapshot k then (False, kp)
          else
            let kp1 = kp\<lparr>kp_rot_keys := map_put index (ksk_offload k) (kp_rot_keys kp),
                         kp_resident_bytes := kp_resident_bytes kp - ksk_limb_bytes k\<rparr>
            in (True,
                if index \<in> kp_lru_pos kp1
                then kp1\<lparr>kp_lru_order := remove1 index (kp_lru_order kp1),
                          kp_lru_pos := kp_lru_pos kp1 - {index}\<rparr>
                else kp1))"

text \<open>The inner \<open>for\<close> loop of \<open>evictToFit\<close>: the first unpinned key from the back of the list.\<close>

definition victim :: "KeyPrecomputations \<Rightarrow> int option" where
  "victim kp = find (\<lambda>i. i \<notin> kp_pinned kp) (rev (kp_lru_order kp))"

partial_function (option) evictToFit ::
  "u64 \<Rightarrow> u64 \<Rightarrow> KeyPrecomputations \<Rightarrow> KeyPrecomputations option" where
  "evictToFit budget incoming kp =
     (if kp_resident_bytes kp + incoming > budget
      then (case victim kp of
              None \<Rightarrow> Some kp
            | Some i \<Rightarrow> evictToFit budget incoming (snd (offloadKey i kp)))
      else Some kp)"

definition ensureResident ::
  "int \<Rightarrow> u64 \<Rightarrow> bool \<Rightarrow> KeyPrecomputations \<Rightarrow> (cpp_error + KeyPrecomputations) option" where
  "ensureResident index budget may_evict kp =
     (case map_of (kp_rot_keys kp) index of
        None \<Rightarrow> Some (Inl Runtime_error)
      | Some k \<Rightarrow>
          if ksk_resident k then Some (Inr (touch index kp))
          else Option.bind (if may_evict then evictToFit budget (ksk_limb_bytes k) kp else Some kp)
            (\<lambda>kp1. case ksk_ensureResident k of
                Inl e \<Rightarrow> Some (Inl e)
              | Inr k' \<Rightarrow> Some (Inr (touch index
                  (kp1\<lparr>kp_rot_keys := map_put index k' (kp_rot_keys kp1),
                       kp_resident_bytes := kp_resident_bytes kp1 + ksk_limb_bytes k'\<rparr>)))))"

definition registerKey :: "KeySwitchingKey \<Rightarrow> KeyPrecomputations \<Rightarrow> KeyPrecomputations" where
  "registerKey k kp =
     (if ksk_resident k
      then kp\<lparr>kp_resident_bytes := kp_resident_bytes kp + ksk_limb_bytes k\<rparr> else kp)"

definition resetCacheBookkeeping :: "KeyPrecomputations \<Rightarrow> KeyPrecomputations" where
  "resetCacheBookkeeping kp =
     kp\<lparr>kp_resident_bytes := 0, kp_lru_order := [], kp_lru_pos := {}, kp_pinned := {}\<rparr>"

definition enforceBudget :: "u64 \<Rightarrow> KeyPrecomputations \<Rightarrow> KeyPrecomputations option" where
  "enforceBudget budget kp = evictToFit budget 0 kp"

section \<open>The invariant\<close>

definition resident_weight :: "KeySwitchingKey \<Rightarrow> u64" where
  "resident_weight k = (if ksk_resident k then ksk_limb_bytes k else 0)"

text \<open>
  \<open>cache_ok\<close>: the keys are ordered, \<open>lru_order\<close> holds each of its keys once, \<open>lru_pos\<close> indexes
  exactly its elements, all of them are resident keys, and \<open>resident_bytes\<close> is the size of all
  resident keys. \<open>evictable_ok\<close>: every key of \<open>lru_order\<close> can be offloaded or is pinned.
\<close>

definition cache_ok :: "KeyPrecomputations \<Rightarrow> bool" where
  "cache_ok kp \<longleftrightarrow> ordered_map (kp_rot_keys kp) \<and> distinct (kp_lru_order kp)
     \<and> kp_lru_pos kp = set (kp_lru_order kp)
     \<and> (\<forall>i \<in> set (kp_lru_order kp). \<exists>k. map_of (kp_rot_keys kp) i = Some k \<and> ksk_resident k)
     \<and> kp_resident_bytes kp = weight resident_weight (kp_rot_keys kp)"

definition evictable_ok :: "KeyPrecomputations \<Rightarrow> bool" where
  "evictable_ok kp \<longleftrightarrow> (\<forall>i \<in> set (kp_lru_order kp) - kp_pinned kp.
     \<forall>k. map_of (kp_rot_keys kp) i = Some k \<longrightarrow> ksk_has_snapshot k)"

section \<open>Single operations keep the invariant\<close>

lemma cache_ok_empty [simp]: "cache_ok empty_precomputations"
  by (simp add: cache_ok_def empty_precomputations_def)

lemma cache_okD:
  assumes "cache_ok kp"
  shows "ordered_map (kp_rot_keys kp)" "distinct (kp_lru_order kp)"
    "kp_lru_pos kp = set (kp_lru_order kp)"
    "kp_resident_bytes kp = weight resident_weight (kp_rot_keys kp)"
    "i \<in> set (kp_lru_order kp) \<Longrightarrow> \<exists>k. map_of (kp_rot_keys kp) i = Some k \<and> ksk_resident k"
  using assms by (simp_all add: cache_ok_def)

lemma touch_fields [simp]:
  "kp_rot_keys (touch i kp) = kp_rot_keys kp"
  "kp_resident_bytes (touch i kp) = kp_resident_bytes kp"
  "kp_pinned (touch i kp) = kp_pinned kp"
  "kp_eval_key (touch i kp) = kp_eval_key kp"
  by (simp_all add: touch_def)

lemma touch_lru:
  assumes "cache_ok kp"
  shows "kp_lru_order (touch i kp) = i # remove1 i (kp_lru_order kp)"
  using cache_okD(3) [OF assms] by (auto simp: touch_def remove1_idem)

lemma touch_ok:
  assumes "cache_ok kp" and "map_of (kp_rot_keys kp) i = Some k" and "ksk_resident k"
  shows "cache_ok (touch i kp)"
proof -
  note ok = cache_okD [OF assms(1)]
  have "kp_lru_pos (touch i kp) = set (kp_lru_order (touch i kp))"
    using ok(2,3) by (auto simp: touch_def)
  then show ?thesis
    using assms ok(2) by (auto simp: cache_ok_def touch_lru)
qed

lemma offload_fields [simp]:
  "kp_pinned (snd (offloadKey i kp)) = kp_pinned kp"
  "kp_eval_key (snd (offloadKey i kp)) = kp_eval_key kp"
  by (simp_all add: offloadKey_def Let_def split: option.split)

lemma offload_offloadable:
  assumes "map_of (kp_rot_keys kp) i = Some k" and "ksk_resident k" and "ksk_has_snapshot k"
    and "kp_lru_pos kp = set (kp_lru_order kp)"
  shows "kp_rot_keys (snd (offloadKey i kp)) = map_put i (k\<lparr>ksk_resident := False\<rparr>) (kp_rot_keys kp)"
    and "kp_resident_bytes (snd (offloadKey i kp)) = kp_resident_bytes kp - ksk_limb_bytes k"
    and "kp_lru_order (snd (offloadKey i kp)) = remove1 i (kp_lru_order kp)"
    and "kp_lru_pos (snd (offloadKey i kp)) = kp_lru_pos kp - {i}"
  using assms by (auto simp: offloadKey_def ksk_offload_def Let_def remove1_idem)

lemma offload_not_offloadable:
  assumes "\<And>k. map_of (kp_rot_keys kp) i = Some k \<Longrightarrow> \<not> ksk_resident k \<or> \<not> ksk_has_snapshot k"
  shows "offloadKey i kp = (False, kp)"
  using assms by (auto simp: offloadKey_def split: option.split)

lemma offload_ok:
  assumes "cache_ok kp"
  shows "cache_ok (snd (offloadKey i kp))"
proof (cases "\<exists>k. map_of (kp_rot_keys kp) i = Some k \<and> ksk_resident k \<and> ksk_has_snapshot k")
  case True
  then obtain k where k: "map_of (kp_rot_keys kp) i = Some k" "ksk_resident k" "ksk_has_snapshot k"
    by blast
  note ok = cache_okD [OF assms] and off = offload_offloadable [OF k cache_okD(3) [OF assms]]
  have "weight resident_weight (kp_rot_keys (snd (offloadKey i kp))) = kp_resident_bytes kp - ksk_limb_bytes k"
    using k(2) ok(4) by (simp add: off(1) weight_put [OF ok(1) k(1)] resident_weight_def)
  moreover have "\<exists>k. map_of (kp_rot_keys (snd (offloadKey i kp))) j = Some k \<and> ksk_resident k"
    if "j \<in> set (remove1 i (kp_lru_order kp))" for j
    using that ok(2) ok(5) [of j] by (auto simp: off(1))
  ultimately show ?thesis
    using ok by (auto simp: cache_ok_def off(2-4)) (auto simp: off(1))
next
  case False
  then show ?thesis using assms by (subst offload_not_offloadable) auto
qed

lemma offload_evictable:
  assumes "cache_ok kp" and "evictable_ok kp"
  shows "evictable_ok (snd (offloadKey i kp))"
proof (cases "\<exists>k. map_of (kp_rot_keys kp) i = Some k \<and> ksk_resident k \<and> ksk_has_snapshot k")
  case True
  then obtain k where k: "map_of (kp_rot_keys kp) i = Some k" "ksk_resident k" "ksk_has_snapshot k"
    by blast
  note off = offload_offloadable [OF k cache_okD(3) [OF assms(1)]]
  show ?thesis
    using assms(2) cache_okD(2) [OF assms(1)] by (auto simp: evictable_ok_def off(1,3))
next
  case False
  then show ?thesis using assms by (subst offload_not_offloadable) auto
qed

lemma registerKey_fields [simp]:
  "kp_rot_keys (registerKey k kp) = kp_rot_keys kp"
  "kp_lru_order (registerKey k kp) = kp_lru_order kp"
  "kp_lru_pos (registerKey k kp) = kp_lru_pos kp"
  "kp_pinned (registerKey k kp) = kp_pinned kp"
  by (simp_all add: registerKey_def)

lemma registerKey_bytes:
  "kp_resident_bytes (registerKey k kp) = kp_resident_bytes kp + resident_weight k"
  by (simp add: registerKey_def resident_weight_def)

section \<open>The eviction loop\<close>

definition victims :: "KeyPrecomputations \<Rightarrow> int list" where
  "victims kp = filter (\<lambda>i. i \<notin> kp_pinned kp) (rev (kp_lru_order kp))"

text \<open>The reference: offload the unpinned keys, least recently used first, while over budget.\<close>

fun evict_list :: "u64 \<Rightarrow> u64 \<Rightarrow> int list \<Rightarrow> KeyPrecomputations \<Rightarrow> KeyPrecomputations" where
  "evict_list budget incoming [] kp = kp"
| "evict_list budget incoming (i # is) kp =
     (if kp_resident_bytes kp + incoming > budget
      then evict_list budget incoming is (snd (offloadKey i kp)) else kp)"

lemma find_filter: "find P xs = (case filter P xs of [] \<Rightarrow> None | x # _ \<Rightarrow> Some x)"
  by (induction xs) auto

lemma victim_victims: "victim kp = (case victims kp of [] \<Rightarrow> None | i # _ \<Rightarrow> Some i)"
  by (simp only: victim_def victims_def find_filter)

lemma victims_subset: "set (victims kp) = set (kp_lru_order kp) - kp_pinned kp"
  by (auto simp: victims_def)

lemma victims_offload:
  assumes "cache_ok kp" and "evictable_ok kp" and "victims kp = i # is"
  shows "victims (snd (offloadKey i kp)) = is"
proof -
  note ok = cache_okD [OF assms(1)]
  have i: "i \<in> set (kp_lru_order kp) - kp_pinned kp"
    using assms(3) victims_subset [of kp] by auto
  then obtain k where k: "map_of (kp_rot_keys kp) i = Some k" "ksk_resident k" "ksk_has_snapshot k"
    using ok(5) [of i] assms(2) by (fastforce simp: evictable_ok_def)
  have "victims (snd (offloadKey i kp)) = filter (\<lambda>j. j \<notin> kp_pinned kp) (rev (removeAll i (kp_lru_order kp)))"
    using ok(2) by (simp add: victims_def offload_offloadable(3) [OF k ok(3)] distinct_remove1_removeAll)
  also have "\<dots> = removeAll i (victims kp)"
    by (simp add: victims_def removeAll_filter_not_eq rev_filter conj_commute)
  also have "\<dots> = is"
  proof -
    have "distinct (victims kp)" using ok(2) by (simp add: victims_def)
    then show ?thesis using assms(3) by (simp add: removeAll_id)
  qed
  finally show ?thesis .
qed

lemma evictToFit_evict_list:
  assumes "cache_ok kp" and "evictable_ok kp"
  shows "evictToFit budget incoming kp = Some (evict_list budget incoming (victims kp) kp)"
  using assms
proof (induction "victims kp" arbitrary: kp)
  case Nil
  then show ?case by (subst evictToFit.simps) (simp add: victim_victims flip: Nil.hyps)
next
  case (Cons i "is")
  have next_victims: "victims (snd (offloadKey i kp)) = is"
    using Cons.prems by (rule victims_offload) (simp add: Cons.hyps)
  have "evictToFit budget incoming (snd (offloadKey i kp))
      = Some (evict_list budget incoming is (snd (offloadKey i kp)))"
    using Cons.hyps(1) [of "snd (offloadKey i kp)"] Cons.prems next_victims
    by (simp add: offload_ok offload_evictable)
  then show ?case
    using Cons.hyps(2) [symmetric] by (subst evictToFit.simps) (simp add: victim_victims)
qed

lemma evict_list_ok: "cache_ok kp \<Longrightarrow> cache_ok (evict_list b inc is kp)"
  by (induction b inc "is" kp rule: evict_list.induct) (simp_all add: offload_ok)

lemma evict_list_evictable:
  "cache_ok kp \<Longrightarrow> evictable_ok kp \<Longrightarrow> evictable_ok (evict_list b inc is kp)"
  by (induction b inc "is" kp rule: evict_list.induct) (simp_all add: offload_ok offload_evictable)

lemma evict_list_pinned [simp]: "kp_pinned (evict_list b inc is kp) = kp_pinned kp"
  by (induction b inc "is" kp rule: evict_list.induct) simp_all

lemma evict_list_eval [simp]: "kp_eval_key (evict_list b inc is kp) = kp_eval_key kp"
  by (induction b inc "is" kp rule: evict_list.induct) simp_all

lemma evict_list_fits:
  assumes "cache_ok kp" and "evictable_ok kp" and "kp' = evict_list b inc (victims kp) kp"
  shows "kp_resident_bytes kp' + inc \<le> b \<or> set (kp_lru_order kp') \<subseteq> kp_pinned kp'"
  using assms
proof (induction "victims kp" arbitrary: kp)
  case Nil
  then show ?case using victims_subset [of kp] by (simp flip: Nil.hyps)
next
  case (Cons i "is")
  have v: "victims (snd (offloadKey i kp)) = is"
    using Cons.prems(1,2) Cons.hyps(2) by (intro victims_offload) simp_all
  show ?case
  proof (cases "kp_resident_bytes kp + inc > b")
    case True
    then have "kp' = evict_list b inc is (snd (offloadKey i kp))"
      using Cons.prems(3) by (simp flip: Cons.hyps(2))
    then show ?thesis
      using Cons.hyps(1) [of "snd (offloadKey i kp)"] Cons.prems(1,2) v
      by (simp add: offload_ok offload_evictable)
  next
    case False
    then have "kp' = kp" using Cons.prems(3) by (simp flip: Cons.hyps(2))
    with False show ?thesis by (simp add: not_less)
  qed
qed

text \<open>What eviction does to the keys: their contents, key set and snapshots stay; only residency
  is lost, and only by unpinned keys of the list.\<close>

definition same_keys :: "KeyPrecomputations \<Rightarrow> KeyPrecomputations \<Rightarrow> bool" where
  "same_keys kp kp' \<longleftrightarrow> (\<forall>i. map_option (\<lambda>k. k\<lparr>ksk_resident := True\<rparr>) (map_of (kp_rot_keys kp') i)
     = map_option (\<lambda>k. k\<lparr>ksk_resident := True\<rparr>) (map_of (kp_rot_keys kp) i))"

lemma same_keys_refl [simp]: "same_keys kp kp"
  by (simp add: same_keys_def)

lemma same_keys_trans: "same_keys a b \<Longrightarrow> same_keys b c \<Longrightarrow> same_keys a c"
  by (simp add: same_keys_def)

lemma offload_same_keys: "same_keys kp (snd (offloadKey i kp))"
  by (auto simp: same_keys_def offloadKey_def ksk_offload_def Let_def split: option.split)

lemma evict_list_same_keys: "same_keys kp (evict_list b inc is kp)"
  by (induction b inc "is" kp rule: evict_list.induct)
    (auto intro: same_keys_trans offload_same_keys)

lemma offload_other: "j \<noteq> i \<Longrightarrow> map_of (kp_rot_keys (snd (offloadKey i kp))) j = map_of (kp_rot_keys kp) j"
  by (auto simp: offloadKey_def Let_def split: option.split)

lemma evict_list_other:
  "j \<notin> set is \<Longrightarrow> map_of (kp_rot_keys (evict_list b inc is kp)) j = map_of (kp_rot_keys kp) j"
  by (induction b inc "is" kp rule: evict_list.induct) (auto simp: offload_other)

section \<open>Fetching a key\<close>

lemma evictable_touch:
  assumes "cache_ok kp" and "evictable_ok kp" and "map_of (kp_rot_keys kp) i = Some k"
    and "ksk_has_snapshot k"
  shows "evictable_ok (touch i kp)"
  using assms cache_okD(2) [OF assms(1)]
  by (auto simp: evictable_ok_def touch_lru)

lemma load_ok:
  assumes "cache_ok kp" and "map_of (kp_rot_keys kp) i = Some k" and "\<not> ksk_resident k"
    and "kp' = kp\<lparr>kp_rot_keys := map_put i (k\<lparr>ksk_resident := True\<rparr>) (kp_rot_keys kp),
                kp_resident_bytes := kp_resident_bytes kp + ksk_limb_bytes k\<rparr>"
  shows "cache_ok kp'"
proof -
  note ok = cache_okD [OF assms(1)]
  have "weight resident_weight (kp_rot_keys kp') = kp_resident_bytes kp'"
    using assms(3,4) ok(4) by (simp add: weight_put [OF ok(1) assms(2)] resident_weight_def)
  then show ?thesis using ok assms(4) by (auto simp: cache_ok_def)
qed

lemma fetch_loaded:
  assumes "cache_ok kp1" and "map_of (kp_rot_keys kp1) i = Some k" and "\<not> ksk_resident k"
    and "kp2 = touch i (kp1\<lparr>kp_rot_keys := map_put i (k\<lparr>ksk_resident := True\<rparr>) (kp_rot_keys kp1),
                kp_resident_bytes := kp_resident_bytes kp1 + ksk_limb_bytes k\<rparr>)"
  shows "cache_ok kp2" and "kp_lru_order kp2 = i # remove1 i (kp_lru_order kp1)"
    and "map_of (kp_rot_keys kp2) i = Some (k\<lparr>ksk_resident := True\<rparr>)"
    and "same_keys kp1 kp2"
proof -
  let ?kp = "kp1\<lparr>kp_rot_keys := map_put i (k\<lparr>ksk_resident := True\<rparr>) (kp_rot_keys kp1),
                kp_resident_bytes := kp_resident_bytes kp1 + ksk_limb_bytes k\<rparr>"
  have ok: "cache_ok ?kp" using assms(1-3) by (rule load_ok) simp
  show "cache_ok kp2" unfolding assms(4) by (rule touch_ok [OF ok, of i "k\<lparr>ksk_resident := True\<rparr>"]) simp_all
  show "kp_lru_order kp2 = i # remove1 i (kp_lru_order kp1)"
    unfolding assms(4) by (simp add: touch_lru [OF ok])
  show "map_of (kp_rot_keys kp2) i = Some (k\<lparr>ksk_resident := True\<rparr>)" "same_keys kp1 kp2"
    unfolding assms(4) using assms(2) by (simp_all add: same_keys_def)
qed

lemma evictable_load:
  assumes "evictable_ok kp1" and "cache_ok kp2" and "kp_lru_order kp2 = i # remove1 i (kp_lru_order kp1)"
    and "same_keys kp1 kp2" and "kp_pinned kp2 = kp_pinned kp1"
    and "map_of (kp_rot_keys kp1) i = Some k" and "ksk_has_snapshot k"
  shows "evictable_ok kp2"
  unfolding evictable_ok_def
proof (intro ballI allI impI)
  fix j k2 assume j: "j \<in> set (kp_lru_order kp2) - kp_pinned kp2" "map_of (kp_rot_keys kp2) j = Some k2"
  have "map_option (\<lambda>k. k\<lparr>ksk_resident := True\<rparr>) (map_of (kp_rot_keys kp1) j)
      = Some (k2\<lparr>ksk_resident := True\<rparr>)"
    using assms(4) j(2) by (metis same_keys_def option.map(2))
  then obtain k1 where k1: "map_of (kp_rot_keys kp1) j = Some k1"
      "k1\<lparr>ksk_resident := True\<rparr> = k2\<lparr>ksk_resident := True\<rparr>" by auto
  then have snap: "ksk_has_snapshot k2 = ksk_has_snapshot k1"
    by (metis KeySwitchingKey.ext_inject KeySwitchingKey.surjective KeySwitchingKey.update_convs(2))
  show "ksk_has_snapshot k2"
  proof (cases "j = i")
    case True
    then show ?thesis using snap k1(1) assms(6,7) by simp
  next
    case False
    then have "j \<in> set (kp_lru_order kp1) - kp_pinned kp1"
      using j(1) assms(3,5) notin_set_remove1 [of j "kp_lru_order kp1" i] by auto
    then show ?thesis using snap k1(1) assms(1) by (auto simp: evictable_ok_def)
  qed
qed

text \<open>The main lemma: a fetch of a key that is resident or has a snapshot always returns.\<close>

lemma ensureResident_fetch:
  assumes ok: "cache_ok kp" and ev: "may_evict \<Longrightarrow> evictable_ok kp"
    and k: "map_of (kp_rot_keys kp) i = Some k" and av: "ksk_resident k \<or> ksk_has_snapshot k"
  obtains kp1 kp2 where "ensureResident i budget may_evict kp = Some (Inr kp2)"
    and "kp1 = (if ksk_resident k \<or> \<not> may_evict then kp
                else evict_list budget (ksk_limb_bytes k) (victims kp) kp)"
    and "cache_ok kp2" and "kp_lru_order kp2 = i # remove1 i (kp_lru_order kp1)"
    and "map_of (kp_rot_keys kp2) i = Some (k\<lparr>ksk_resident := True\<rparr>)"
    and "same_keys kp kp2" and "kp_pinned kp2 = kp_pinned kp"
    and "kp_resident_bytes kp2 = kp_resident_bytes kp1 + (if ksk_resident k then 0 else ksk_limb_bytes k)"
    and "\<forall>j. j \<noteq> i \<longrightarrow> map_of (kp_rot_keys kp2) j = map_of (kp_rot_keys kp1) j"
proof (cases "ksk_resident k")
  case True
  show ?thesis
    using True k ok touch_ok [OF ok k True] touch_lru [OF ok, of i]
    by (intro that [of "touch i kp" kp]) (simp_all add: ensureResident_def same_keys_def)
next
  case False
  define kp1 where
    "kp1 = (if may_evict then evict_list budget (ksk_limb_bytes k) (victims kp) kp else kp)"
  define kp2 where
    "kp2 = touch i (kp1\<lparr>kp_rot_keys := map_put i (k\<lparr>ksk_resident := True\<rparr>) (kp_rot_keys kp1),
       kp_resident_bytes := kp_resident_bytes kp1 + ksk_limb_bytes k\<rparr>)"
  have ev1: "(if may_evict then evictToFit budget (ksk_limb_bytes k) kp else Some kp) = Some kp1"
    using evictToFit_evict_list [OF ok ev] by (simp add: kp1_def)
  have ok1: "cache_ok kp1" using ok by (simp add: evict_list_ok kp1_def)
  have "i \<notin> set (victims kp)"
    using cache_okD(5) [OF ok, of i] k False by (auto simp: victims_subset)
  then have k1: "map_of (kp_rot_keys kp1) i = Some k" using k by (simp add: evict_list_other kp1_def)
  have keys: "same_keys kp kp1" "kp_pinned kp1 = kp_pinned kp"
    by (simp_all add: evict_list_same_keys kp1_def)
  note l = fetch_loaded [OF ok1 k1 False kp2_def]
  show ?thesis
  proof (rule that [of kp2 kp1])
    show "ensureResident i budget may_evict kp = Some (Inr kp2)"
      unfolding ensureResident_def k option.case using False av
      by (simp only: if_False ev1 bind.bind_lunit) (simp add: ksk_ensureResident_def kp2_def)
    show "kp1 = (if ksk_resident k \<or> \<not> may_evict then kp
                else evict_list budget (ksk_limb_bytes k) (victims kp) kp)"
      using False by (simp add: kp1_def)
    show "same_keys kp kp2" using keys(1) l(4) by (rule same_keys_trans)
    show "kp_pinned kp2 = kp_pinned kp" by (simp add: kp2_def keys(2))
  qed (use l False in \<open>simp_all add: kp2_def\<close>)
qed

section \<open>The loop that does not end\<close>

lemma evictToFit_stuck:
  assumes "victim kp = Some i" and "offloadKey i kp = (False, kp)"
    and "kp_resident_bytes kp + incoming > budget"
  shows "evictToFit budget incoming kp = None"
proof -
  have "\<not> (kp' = kp \<and> b = budget \<and> inc = incoming)" if "evictToFit b inc kp' = Some r" for b inc kp' r
  proof (rule evictToFit.raw_induct [OF _ that])
    fix f :: "u64 \<Rightarrow> u64 \<Rightarrow> KeyPrecomputations \<Rightarrow> KeyPrecomputations option" and b inc kp' r
    assume IH: "\<And>b inc kp' r. f b inc kp' = Some r \<Longrightarrow> \<not> (kp' = kp \<and> b = budget \<and> inc = incoming)"
      and body: "(if kp_resident_bytes kp' + inc > b
          then case victim kp' of None \<Rightarrow> Some kp' | Some i \<Rightarrow> f b inc (snd (offloadKey i kp'))
          else Some kp') = Some r"
    show "\<not> (kp' = kp \<and> b = budget \<and> inc = incoming)"
    proof (rule notI, elim conjE)
      assume eq: "kp' = kp" "b = budget" "inc = incoming"
      with body assms have "f budget incoming kp = Some r" by simp
      then show False using IH by blast
    qed
  qed
  then show ?thesis by (cases "evictToFit budget incoming kp") auto
qed

section \<open>Properties\<close>

definition example_key :: "bool \<Rightarrow> bool \<Rightarrow> u64 \<Rightarrow> KeySwitchingKey" where
  "example_key resident snapshot bytes = \<lparr>ksk_keyID = [], ksk_resident = resident,
     ksk_has_snapshot = snapshot, ksk_limb_bytes = bytes\<rparr>"

text \<open>Three resident keys with snapshots, the first pinned, used in the order 3, 2, 1.\<close>

definition example_cache :: KeyPrecomputations where
  "example_cache = \<lparr>kp_eval_key = None,
     kp_rot_keys = [(1, example_key True True 10), (2, example_key True True 20), (3, example_key True True 30)],
     kp_resident_bytes = 60, kp_lru_order = [1, 2, 3], kp_lru_pos = {1, 2, 3}, kp_pinned = {1}\<rparr>"

lemma example_cache_ok: "cache_ok example_cache" "evictable_ok example_cache"
  by (auto simp: cache_ok_def evictable_ok_def example_cache_def example_key_def ordered_map_def
      resident_weight_def)

text \<open>C21: On a consistent cache whose unpinned keys have snapshots the eviction loop ends, and it
  does what the reference does: offload the unpinned keys from the least recently used on, only
  while the bytes exceed the budget.\<close>

theorem evictToFit_reference:
  assumes "cache_ok kp" and "evictable_ok kp"
  shows "evictToFit budget incoming kp = Some (evict_list budget incoming (victims kp) kp)"
  using assms by (rule evictToFit_evict_list)

theorem evictToFit_reference_witness:
  "evictToFit 45 0 example_cache = Some (evict_list 45 0 [3, 2] example_cache)"
proof -
  have "victims example_cache = [3, 2]" by (simp add: victims_def example_cache_def)
  then show ?thesis using evictToFit_reference [OF example_cache_ok, of 45 0] by simp
qed

text \<open>C22: On such a cache eviction returns a consistent cache with the same keys, in which the
  incoming bytes fit the budget or every key left in the list is pinned; no pinned key loses its
  residency.\<close>

theorem evictToFit_fits:
  assumes "cache_ok kp" and "evictable_ok kp"
  shows "\<exists>kp'. evictToFit budget incoming kp = Some kp' \<and> cache_ok kp' \<and> same_keys kp kp'
    \<and> (kp_resident_bytes kp' + incoming \<le> budget \<or> set (kp_lru_order kp') \<subseteq> kp_pinned kp')
    \<and> (\<forall>i \<in> kp_pinned kp. map_of (kp_rot_keys kp') i = map_of (kp_rot_keys kp) i)"
  using evictToFit_evict_list [OF assms] evict_list_ok [OF assms(1)] evict_list_same_keys
    evict_list_fits [OF assms refl] evict_list_other [of _ "victims kp"] victims_subset [of kp]
  by auto

theorem evictToFit_fits_witness:
  "\<exists>kp'. evictToFit 5 0 example_cache = Some kp' \<and> cache_ok kp' \<and>
     map_of (kp_rot_keys kp') 1 = Some (example_key True True 10)"
  using evictToFit_fits [OF example_cache_ok, of 5 0] by (auto simp: example_cache_def)

text \<open>When the least recently used unpinned key has no host snapshot and the cache is over its
  budget, \<open>evictToFit\<close> never returns: the offload is refused, yet the loop counts it as done.\<close>

theorem evictToFit_diverges:
  assumes "victim kp = Some i" and "map_of (kp_rot_keys kp) i = Some k" and "\<not> ksk_has_snapshot k"
    and "kp_resident_bytes kp + incoming > budget"
  shows "evictToFit budget incoming kp = None"
  using assms by (intro evictToFit_stuck [of kp i] offload_not_offloadable) auto

theorem evictToFit_diverges_witness:
  "evictToFit 5 0 (empty_precomputations\<lparr>kp_rot_keys := [(7, example_key True False 10)],
     kp_resident_bytes := 10, kp_lru_order := [7], kp_lru_pos := {7}\<rparr>) = None"
  by (rule evictToFit_diverges [of _ 7 "example_key True False 10"])
    (simp_all add: victim_def empty_precomputations_def example_key_def)

end
