(* ===== verification/KeyContext.thy ===== *)
theory KeyContext
  imports KeyCache "HOL-Library.Char_ord" "HOL-Library.List_Lexorder" "HOL-Library.Signed_Division"
begin

text \<open>
  The keys of a context: the operations of \<open>ContextData\<close> (\<open>src/src/CKKS/Context.cu\<close>) on
  \<open>precom.keys\<close>, the map from key hashes to the caches of theory KeyCache, with the cache budget
  and the depth of the active \<open>RotationKeyEvictionHold\<close> scopes. An exception is \<^const>\<open>Inl\<close>;
  a call that does not return is \<^const>\<open>None\<close>.
\<close>

section \<open>State\<close>

record KeyContext =
  kc_N :: int
  kc_keys :: "(string \<times> KeyPrecomputations) list"
  kc_rotation_key_cache_bytes :: u64
  kc_eviction_hold :: int

section \<open>Operations\<close>

text \<open>The loop over \<open>precom.keys\<close> when its body may fail to return.\<close>

fun map_valuesM :: "('k \<Rightarrow> 'v \<Rightarrow> 'v option) \<Rightarrow> ('k \<times> 'v) list \<Rightarrow> ('k \<times> 'v) list option" where
  "map_valuesM f [] = Some []"
| "map_valuesM f ((k, v) # m) =
     Option.bind (f k v) (\<lambda>v'. map_option ((#) (k, v')) (map_valuesM f m))"

definition SetRotationKeyCache :: "u64 \<Rightarrow> KeyContext \<Rightarrow> KeyContext option" where
  "SetRotationKeyCache bytes c =
     map_option (\<lambda>ks. c\<lparr>kc_rotation_key_cache_bytes := bytes, kc_keys := ks\<rparr>)
       (map_valuesM (\<lambda>_. enforceBudget bytes) (kc_keys c))"

definition offload_keys :: "int list \<Rightarrow> KeyPrecomputations \<Rightarrow> KeyPrecomputations" where
  "offload_keys indexes kp =
     foldl (\<lambda>kp idx. snd (offloadKey idx kp)) kp
       (filter (\<lambda>idx. indexes = [] \<or> idx \<in> set indexes) (map fst (kp_rot_keys kp)))"

definition OffloadRotationKeys :: "int list \<Rightarrow> string \<Rightarrow> KeyContext \<Rightarrow> KeyContext" where
  "OffloadRotationKeys indexes keyID c =
     c\<lparr>kc_keys := map (\<lambda>(kid, kp).
       (kid, if keyID \<noteq> [] \<and> kid \<noteq> keyID then kp else offload_keys indexes kp)) (kc_keys c)\<rparr>"

definition pin_key :: "int \<Rightarrow> bool \<Rightarrow> KeyPrecomputations \<Rightarrow> KeyPrecomputations" where
  "pin_key index pin kp =
     (if \<not> map_contains index (kp_rot_keys kp) then kp
      else if pin then kp\<lparr>kp_pinned := insert index (kp_pinned kp)\<rparr>
      else kp\<lparr>kp_pinned := kp_pinned kp - {index}\<rparr>)"

definition PinRotationKey :: "int \<Rightarrow> bool \<Rightarrow> string \<Rightarrow> KeyContext \<Rightarrow> KeyContext" where
  "PinRotationKey index pin keyID c =
     c\<lparr>kc_keys := map (\<lambda>(kid, kp).
       (kid, if keyID \<noteq> [] \<and> kid \<noteq> keyID then kp else pin_key index pin kp)) (kc_keys c)\<rparr>"

fun is_resident_in :: "int \<Rightarrow> string \<Rightarrow> (string \<times> KeyPrecomputations) list \<Rightarrow> bool" where
  "is_resident_in index keyID [] = False"
| "is_resident_in index keyID ((kid, kp) # m) =
     (if keyID \<noteq> [] \<and> kid \<noteq> keyID then is_resident_in index keyID m
      else case map_of (kp_rot_keys kp) index of
             Some k \<Rightarrow> ksk_resident k
           | None \<Rightarrow> is_resident_in index keyID m)"

definition IsRotationKeyResident :: "int \<Rightarrow> string \<Rightarrow> KeyContext \<Rightarrow> bool" where
  "IsRotationKeyResident index keyID c = is_resident_in index keyID (kc_keys c)"

definition RotationKeyCacheResidentBytes :: "KeyContext \<Rightarrow> u64" where
  "RotationKeyCacheResidentBytes c = foldl (\<lambda>b kv. b + kp_resident_bytes (snd kv)) 0 (kc_keys c)"

text \<open>The common tail of the two \<open>GetRotationKey\<close>s: \<open>precom.keys.at(keyID).ensureResident\<close>.\<close>

definition fetch_in :: "int \<Rightarrow> string \<Rightarrow> KeyPrecomputations \<Rightarrow> KeyContext
    \<Rightarrow> (cpp_error + KeyContext) option" where
  "fetch_in index keyID kp c =
     map_option (map_sum id (\<lambda>kp'. c\<lparr>kc_keys := map_put keyID kp' (kc_keys c)\<rparr>))
       (ensureResident index (kc_rotation_key_cache_bytes c) (kc_eviction_hold c = 0) kp)"

definition GetRotationKey :: "int \<Rightarrow> string \<Rightarrow> KeyContext \<Rightarrow> (cpp_error + KeyContext) option" where
  "GetRotationKey index keyID c =
     (case map_of (kc_keys c) keyID of
        None \<Rightarrow> Some (Inl Out_of_range)
      | Some kp \<Rightarrow>
          if \<not> map_contains index (kp_rot_keys kp) then Some (Inl Runtime_error)
          else fetch_in index keyID kp c)"

text \<open>The search of the second \<open>GetRotationKey\<close>: the index, or one congruent to it modulo the
  slot count, for which a key is present.\<close>

definition resolve_index :: "int \<Rightarrow> int \<Rightarrow> int \<Rightarrow> KeyPrecomputations \<Rightarrow> cpp_error + int" where
  "resolve_index n index slots kp =
     (if index = 2 * n - 1 then Inr index
      else
        let half = n sdiv 2;
            index = index smod half;
            index = (if index < 0 then index + half else index)
        in if map_contains index (kp_rot_keys kp) then Inr index
           else if slots \<noteq> -1 \<and> slots \<noteq> half \<and> slots = 0 then Inl Undefined_behaviour
           else
             let alternatives = (if slots \<noteq> -1 \<and> slots \<noteq> half
                   then map (\<lambda>i. (index + i * slots) smod half) [1..half sdiv slots - 1] else []);
                 index = (case find (\<lambda>i. map_contains i (kp_rot_keys kp)) alternatives of
                            Some i \<Rightarrow> i | None \<Rightarrow> index)
             in if map_contains index (kp_rot_keys kp) then Inr index else Inl Runtime_error)"

definition GetRotationKeySlots :: "int \<Rightarrow> string \<Rightarrow> int \<Rightarrow> KeyContext
    \<Rightarrow> (cpp_error + int \<times> KeyContext) option" where
  "GetRotationKeySlots index keyID slots c =
     (case map_of (kc_keys c) keyID of
        None \<Rightarrow> Some (Inl Out_of_range)
      | Some kp \<Rightarrow>
          (case resolve_index (kc_N c) index slots kp of
             Inl e \<Rightarrow> Some (Inl e)
           | Inr i \<Rightarrow> map_option (map_sum id (Pair i)) (fetch_in i keyID kp c)))"

text \<open>\<open>while (index < 0) index += N / 2\<close>.\<close>

partial_function (option) wrap_index :: "int \<Rightarrow> int \<Rightarrow> int option" where
  "wrap_index half index = (if index < 0 then wrap_index half (index + half) else Some index)"

definition ensure_keyset :: "string \<Rightarrow> KeyContext \<Rightarrow> KeyContext" where
  "ensure_keyset keyID c =
     (if map_contains keyID (kc_keys c) then c
      else c\<lparr>kc_keys := map_put keyID empty_precomputations (kc_keys c)\<rparr>)"

definition keyset_of :: "string \<Rightarrow> KeyContext \<Rightarrow> KeyPrecomputations" where
  "keyset_of keyID c = (case map_of (kc_keys c) keyID of Some kp \<Rightarrow> kp | None \<Rightarrow> empty_precomputations)"

definition AddRotationKey :: "int \<Rightarrow> KeySwitchingKey \<Rightarrow> KeyContext \<Rightarrow> KeyContext option" where
  "AddRotationKey index ksk c =
     map_option (\<lambda>index.
       let c1 = ensure_keyset (ksk_keyID ksk) c;
           kp = keyset_of (ksk_keyID ksk) c1;
           kp1 = kp\<lparr>kp_rot_keys := map_emplace index ksk (kp_rot_keys kp)\<rparr>;
           kp2 = (case map_of (kp_rot_keys kp1) index of Some k \<Rightarrow> registerKey k kp1 | None \<Rightarrow> kp1)
       in c1\<lparr>kc_keys := map_put (ksk_keyID ksk) kp2 (kc_keys c1)\<rparr>)
       (wrap_index (kc_N c sdiv 2) index)"

definition HasRotationKey :: "int \<Rightarrow> string \<Rightarrow> KeyContext \<Rightarrow> (bool \<times> KeyContext) option" where
  "HasRotationKey index keyID c =
     map_option (\<lambda>index.
       let c1 = ensure_keyset keyID c
       in (map_contains index (kp_rot_keys (keyset_of keyID c1)), c1))
       (wrap_index (kc_N c sdiv 2) index)"

definition AddEvalKey :: "KeySwitchingKey \<Rightarrow> KeyContext \<Rightarrow> KeyContext" where
  "AddEvalKey ksk c =
     (let c1 = ensure_keyset (ksk_keyID ksk) c;
          kp = keyset_of (ksk_keyID ksk) c1
      in c1\<lparr>kc_keys := map_put (ksk_keyID ksk) (kp\<lparr>kp_eval_key := Some ksk\<rparr>) (kc_keys c1)\<rparr>)"

definition GetEvalKey :: "string \<Rightarrow> KeyContext \<Rightarrow> cpp_error + KeySwitchingKey" where
  "GetEvalKey keyID c =
     (case map_of (kc_keys c) keyID of
        None \<Rightarrow> Inl Runtime_error
      | Some kp \<Rightarrow> (case kp_eval_key kp of None \<Rightarrow> Inl Runtime_error | Some k \<Rightarrow> Inr k))"

definition clearAutomorphismKeys :: "string \<Rightarrow> KeyContext \<Rightarrow> KeyContext" where
  "clearAutomorphismKeys keyID c =
     c\<lparr>kc_keys := map (\<lambda>(kid, kp).
       (kid, if keyID = [] \<or> keyID = kid
             then resetCacheBookkeeping (kp\<lparr>kp_rot_keys := []\<rparr>) else kp)) (kc_keys c)\<rparr>"

definition clearEvalMultKeys :: "string \<Rightarrow> KeyContext \<Rightarrow> KeyContext" where
  "clearEvalMultKeys keyID c =
     c\<lparr>kc_keys := map (\<lambda>(kid, kp).
       (kid, if keyID = [] \<or> keyID = kid then kp\<lparr>kp_eval_key := None\<rparr> else kp)) (kc_keys c)\<rparr>"

text \<open>Constructor and destructor of \<open>RotationKeyEvictionHold\<close>.\<close>

definition hold_begin :: "KeyContext \<Rightarrow> KeyContext" where
  "hold_begin c = c\<lparr>kc_eviction_hold := kc_eviction_hold c + 1\<rparr>"

definition hold_end :: "KeyContext \<Rightarrow> KeyContext" where
  "hold_end c = c\<lparr>kc_eviction_hold := kc_eviction_hold c - 1\<rparr>"

section \<open>Index arithmetic\<close>

lemma wrap_index_mod:
  assumes "0 < half"
  shows "wrap_index half index = Some (if index < 0 then index mod half else index)"
proof (induction "nat (- index)" arbitrary: index rule: less_induct)
  case less
  show ?case
  proof (cases "index < 0")
    case True
    have "wrap_index half (index + half) = Some (if index + half < 0 then (index + half) mod half else index + half)"
      using True assms by (intro less) simp
    moreover have "(index + half) mod half = index mod half" by simp
    moreover have "index mod half = index + half" if "0 \<le> index + half"
      using that True by (metis mod_add_self2 mod_pos_pos_trivial add_less_same_cancel2)
    ultimately show ?thesis using True by (subst wrap_index.simps) auto
  next
    case False
    then show ?thesis by (subst wrap_index.simps) simp
  qed
qed

section \<open>The interface of a key store\<close>

text \<open>
  What the homomorphic operations rely on when they fetch the keys they need: a fetch of a key
  that is present returns, makes it resident and loses no key; and while eviction is on hold
  (the second argument of \<open>fetch\<close> is false) no key that is resident stops being so.
\<close>

locale rotation_key_store =
  fixes store_ok :: "'s \<Rightarrow> bool"
    and present :: "'s \<Rightarrow> int \<Rightarrow> bool"
    and resident :: "'s \<Rightarrow> int \<Rightarrow> bool"
    and fetch :: "int \<Rightarrow> bool \<Rightarrow> 's \<Rightarrow> (cpp_error + 's) option"
  assumes fetch_present: "store_ok s \<Longrightarrow> present s i \<Longrightarrow> \<exists>s'. fetch i ev s = Some (Inr s')
      \<and> store_ok s' \<and> resident s' i \<and> present s' = present s"
    and fetch_absent: "store_ok s \<Longrightarrow> \<not> present s i \<Longrightarrow> fetch i ev s = Some (Inl Runtime_error)"
    and fetch_hold: "store_ok s \<Longrightarrow> fetch i False s = Some (Inr s') \<Longrightarrow> resident s j \<Longrightarrow> resident s' j"

text \<open>The keys fetched one after the other, as the hoisted rotations do before they launch.\<close>

fun fetch_seq :: "(int \<Rightarrow> 's \<Rightarrow> (cpp_error + 's) option) \<Rightarrow> int list \<Rightarrow> 's \<Rightarrow> (cpp_error + 's) option" where
  "fetch_seq fetch [] s = Some (Inr s)"
| "fetch_seq fetch (i # is) s =
     (case fetch i s of
        None \<Rightarrow> None
      | Some (Inl e) \<Rightarrow> Some (Inl e)
      | Some (Inr s') \<Rightarrow> fetch_seq fetch is s')"

context rotation_key_store begin

lemma fetch_seq_returns:
  assumes "store_ok s" and "\<forall>i \<in> set is. present s i"
  shows "\<exists>s'. fetch_seq (\<lambda>i. fetch i ev) is s = Some (Inr s') \<and> store_ok s' \<and> present s' = present s"
  using assms
proof (induction "is" arbitrary: s)
  case (Cons i "is")
  then obtain s1 where "fetch i ev s = Some (Inr s1)" "store_ok s1" "present s1 = present s"
    using fetch_present [of s i ev] by auto
  then show ?case using Cons.IH [of s1] Cons.prems(2) by simp
qed simp

lemma fetch_seq_hold_keeps:
  assumes "store_ok s" and "\<forall>i \<in> set is. present s i" and "resident s j"
    and "fetch_seq (\<lambda>i. fetch i False) is s = Some (Inr s')"
  shows "resident s' j"
  using assms
proof (induction "is" arbitrary: s)
  case (Cons i "is")
  obtain s1 where s1: "fetch i False s = Some (Inr s1)" "store_ok s1" "present s1 = present s"
    using fetch_present [of s i False] Cons.prems(1,2) by auto
  have "resident s1 j" using fetch_hold [OF Cons.prems(1) s1(1) Cons.prems(3)] .
  then show ?case using Cons.IH [of s1] Cons.prems s1 by simp
qed simp

lemma fetch_seq_hold_resident:
  assumes "store_ok s" and "\<forall>i \<in> set is. present s i"
  shows "\<exists>s'. fetch_seq (\<lambda>i. fetch i False) is s = Some (Inr s') \<and> store_ok s'
    \<and> (\<forall>i \<in> set is. resident s' i) \<and> (\<forall>j. resident s j \<longrightarrow> resident s' j)"
  using assms
proof (induction "is" arbitrary: s)
  case (Cons i "is")
  obtain s1 where s1: "fetch i False s = Some (Inr s1)" "store_ok s1" "resident s1 i"
      "present s1 = present s"
    using fetch_present [of s i False] Cons.prems by auto
  obtain s' where s': "fetch_seq (\<lambda>i. fetch i False) is s1 = Some (Inr s')" "store_ok s'"
      "\<forall>i \<in> set is. resident s' i" "\<forall>j. resident s1 j \<longrightarrow> resident s' j"
    using Cons.IH [of s1] s1 Cons.prems(2) by auto
  then show ?case using s1 fetch_hold [OF Cons.prems(1) s1(1)] by auto
qed simp

lemma fetch_seq_stops:
  assumes "store_ok s" and "\<forall>i \<in> set is. present s i" and "\<not> present s i"
  shows "fetch_seq (\<lambda>i. fetch i ev) (is @ i # js) s = Some (Inl Runtime_error)"
  using assms
proof (induction "is" arbitrary: s)
  case Nil
  then show ?case using fetch_absent [of s i ev] by simp
next
  case (Cons j "is")
  obtain s1 where "fetch j ev s = Some (Inr s1)" "store_ok s1" "present s1 = present s"
    using fetch_present [of s j ev] Cons.prems by auto
  then show ?case using Cons.IH [of s1] Cons.prems by simp
qed

end

section \<open>The cache of one key set provides it\<close>

definition lazy_keys :: "KeyPrecomputations \<Rightarrow> bool" where
  "lazy_keys kp \<longleftrightarrow> (\<forall>i k. map_of (kp_rot_keys kp) i = Some k \<longrightarrow> ksk_has_snapshot k)"

definition key_resident :: "KeyPrecomputations \<Rightarrow> int \<Rightarrow> bool" where
  "key_resident kp i = (case map_of (kp_rot_keys kp) i of Some k \<Rightarrow> ksk_resident k | None \<Rightarrow> False)"

lemma lazy_evictable: "lazy_keys kp \<Longrightarrow> evictable_ok kp"
  by (auto simp: lazy_keys_def evictable_ok_def)

lemma same_keys_contains: "same_keys kp kp' \<Longrightarrow> map_contains i (kp_rot_keys kp') = map_contains i (kp_rot_keys kp)"
  unfolding same_keys_def map_contains_def by (metis map_option_is_None)

lemma same_keys_lazy:
  assumes "same_keys kp kp'" and "lazy_keys kp"
  shows "lazy_keys kp'"
  unfolding lazy_keys_def
proof (intro allI impI)
  fix i k' assume "map_of (kp_rot_keys kp') i = Some k'"
  then have "map_option (\<lambda>k. k\<lparr>ksk_resident := True\<rparr>) (map_of (kp_rot_keys kp) i)
      = Some (k'\<lparr>ksk_resident := True\<rparr>)"
    using assms(1) by (metis same_keys_def option.map(2))
  then obtain k where k: "map_of (kp_rot_keys kp) i = Some k"
      "k\<lparr>ksk_resident := True\<rparr> = k'\<lparr>ksk_resident := True\<rparr>" by auto
  then have "ksk_has_snapshot k' = ksk_has_snapshot k"
    by (metis KeySwitchingKey.ext_inject KeySwitchingKey.surjective KeySwitchingKey.update_convs(2))
  then show "ksk_has_snapshot k'" using assms(2) k(1) by (simp add: lazy_keys_def)
qed

lemma lazy_fetch:
  assumes "cache_ok kp \<and> lazy_keys kp" and "map_contains i (kp_rot_keys kp)"
  obtains kp' where "ensureResident i budget ev kp = Some (Inr kp')" and "cache_ok kp' \<and> lazy_keys kp'"
    and "key_resident kp' i"
    and "(\<lambda>j. map_contains j (kp_rot_keys kp')) = (\<lambda>j. map_contains j (kp_rot_keys kp))"
    and "\<not> ev \<Longrightarrow> (\<forall>j. key_resident kp j \<longrightarrow> key_resident kp' j)"
proof -
  obtain k where k: "map_of (kp_rot_keys kp) i = Some k" using assms(2) by (auto simp: map_contains_def)
  have av: "ksk_resident k \<or> ksk_has_snapshot k" using assms(1) k by (auto simp: lazy_keys_def)
  have ok: "cache_ok kp" and ev': "ev \<Longrightarrow> evictable_ok kp" using assms(1) by (auto intro: lazy_evictable)
  obtain kp1 kp' where f: "ensureResident i budget ev kp = Some (Inr kp')"
    and kp1: "kp1 = (if ksk_resident k \<or> \<not> ev then kp
                else evict_list budget (ksk_limb_bytes k) (victims kp) kp)"
    and r: "cache_ok kp'" "map_of (kp_rot_keys kp') i = Some (k\<lparr>ksk_resident := True\<rparr>)" "same_keys kp kp'"
    and other: "\<forall>j. j \<noteq> i \<longrightarrow> map_of (kp_rot_keys kp') j = map_of (kp_rot_keys kp1) j"
    by (rule ensureResident_fetch [OF ok ev' k av])
  have res: "key_resident kp' i" using r(2) by (simp add: key_resident_def)
  show ?thesis
  proof (rule that [OF f _ res])
    show "cache_ok kp' \<and> lazy_keys kp'" using r(1,3) assms(1) by (auto intro: same_keys_lazy)
    show "(\<lambda>j. map_contains j (kp_rot_keys kp')) = (\<lambda>j. map_contains j (kp_rot_keys kp))"
      using same_keys_contains [OF r(3)] by auto
    show "\<forall>j. key_resident kp j \<longrightarrow> key_resident kp' j" if "\<not> ev"
      using that res other kp1 by (auto simp: key_resident_def)
  qed
qed

interpretation kp_store: rotation_key_store "\<lambda>kp. cache_ok kp \<and> lazy_keys kp"
  "\<lambda>kp i. map_contains i (kp_rot_keys kp)" key_resident "\<lambda>i ev kp. ensureResident i budget ev kp" for budget
proof (unfold_locales, goal_cases)
  case (1 s i ev)
  then show ?case by (metis lazy_fetch)
next
  case (2 s i ev)
  then show ?case by (simp add: ensureResident_def map_contains_def)
next
  case (3 s i s' j)
  then have c: "map_contains i (kp_rot_keys s)"
    by (auto simp: ensureResident_def map_contains_def split: option.splits)
  obtain kp' where "ensureResident i budget False s = Some (Inr kp')"
      "\<forall>j. key_resident s j \<longrightarrow> key_resident kp' j"
    using lazy_fetch [OF 3(1) c, of budget False] by metis
  with 3 show ?case by simp
qed

section \<open>Every operation keeps the accounting\<close>

subsection \<open>Within a key set\<close>

lemma evictToFit_partial:
  assumes "evictToFit b inc kp = Some kp'"
  shows "cache_ok kp \<longrightarrow> cache_ok kp'
    \<and> (\<forall>i k. map_of (kp_rot_keys kp) i = Some k \<and> \<not> ksk_resident k \<longrightarrow> map_of (kp_rot_keys kp') i = Some k)"
proof (rule evictToFit.raw_induct [OF _ assms])
  fix f :: "u64 \<Rightarrow> u64 \<Rightarrow> KeyPrecomputations \<Rightarrow> KeyPrecomputations option" and b inc kp kp'
  let ?P = "\<lambda>kp kp'. cache_ok kp \<longrightarrow> cache_ok kp'
    \<and> (\<forall>i k. map_of (kp_rot_keys kp) i = Some k \<and> \<not> ksk_resident k \<longrightarrow> map_of (kp_rot_keys kp') i = Some k)"
  assume IH: "\<And>b inc kp kp'. f b inc kp = Some kp' \<Longrightarrow> ?P kp kp'"
    and body: "(if kp_resident_bytes kp + inc > b
        then case victim kp of None \<Rightarrow> Some kp | Some i \<Rightarrow> f b inc (snd (offloadKey i kp))
        else Some kp) = Some kp'"
  show "?P kp kp'"
  proof (cases "kp_resident_bytes kp + inc > b \<and> victim kp \<noteq> None")
    case True
    then obtain i where "f b inc (snd (offloadKey i kp)) = Some kp'" using body by auto
    then have "?P (snd (offloadKey i kp)) kp'" by (rule IH)
    moreover have "map_of (kp_rot_keys (snd (offloadKey i kp))) j = Some k"
      if "map_of (kp_rot_keys kp) j = Some k" "\<not> ksk_resident k" for j k
    proof (cases "j = i")
      case True
      then have "offloadKey i kp = (False, kp)" using that by (intro offload_not_offloadable) simp
      then show ?thesis using that by simp
    qed (use that in \<open>simp add: offload_other\<close>)
    ultimately show ?thesis using offload_ok by blast
  next
    case False
    then have "kp' = kp" using body by (auto split: if_splits)
    then show ?thesis by simp
  qed
qed

lemma ensureResident_cache_ok:
  assumes "cache_ok kp" and "ensureResident i b ev kp = Some (Inr kp')"
  shows "cache_ok kp'"
proof -
  obtain k where k: "map_of (kp_rot_keys kp) i = Some k"
    using assms(2) by (auto simp: ensureResident_def split: option.splits)
  show ?thesis
  proof (cases "ksk_resident k")
    case True
    then show ?thesis using assms k touch_ok [OF assms(1) k True] by (simp add: ensureResident_def)
  next
    case False
    let ?load = "\<lambda>kp1. touch i (kp1\<lparr>kp_rot_keys := map_put i (k\<lparr>ksk_resident := True\<rparr>) (kp_rot_keys kp1),
                kp_resident_bytes := kp_resident_bytes kp1 + ksk_limb_bytes k\<rparr>)"
    obtain kp1 where kp1: "(if ev then evictToFit b (ksk_limb_bytes k) kp else Some kp) = Some kp1"
      and kp': "kp' = ?load kp1"
      using assms(2) k False unfolding ensureResident_def
      by (auto simp: ksk_ensureResident_def bind_eq_Some_conv split: if_splits)
    have "cache_ok kp1 \<and> map_of (kp_rot_keys kp1) i = Some k"
      using kp1 k False assms(1) evictToFit_partial [of b "ksk_limb_bytes k" kp kp1]
      by (auto split: if_splits)
    then show ?thesis using fetch_loaded(1) [of kp1 i k kp'] False kp' by simp
  qed
qed

lemma enforceBudget_cache_ok: "cache_ok kp \<Longrightarrow> enforceBudget b kp = Some kp' \<Longrightarrow> cache_ok kp'"
  using evictToFit_partial [of b 0 kp kp'] by (simp add: enforceBudget_def)

lemma offload_keys_ok:
  assumes "cache_ok kp"
  shows "cache_ok (offload_keys indexes kp)"
proof -
  have "cache_ok (foldl (\<lambda>kp idx. snd (offloadKey idx kp)) kp xs)" if "cache_ok kp" for kp xs
    using that by (induction xs arbitrary: kp) (simp_all add: offload_ok)
  then show ?thesis using assms by (simp add: offload_keys_def)
qed

lemma pin_key_ok: "cache_ok kp \<Longrightarrow> cache_ok (pin_key i pin kp)"
  by (simp add: pin_key_def cache_ok_def)

lemma cleared_ok: "cache_ok (resetCacheBookkeeping (kp\<lparr>kp_rot_keys := []\<rparr>))"
  by (simp add: resetCacheBookkeeping_def cache_ok_def)

lemma add_new_key_ok:
  assumes "cache_ok kp" and "map_of (kp_rot_keys kp) i = None"
  shows "cache_ok (registerKey k (kp\<lparr>kp_rot_keys := map_emplace i k (kp_rot_keys kp)\<rparr>))"
proof -
  note ok = cache_okD [OF assms(1)]
  have "i \<notin> set (kp_lru_order kp)" using ok(5) [of i] assms(2) by auto
  then show ?thesis
    using ok assms(2)
    by (auto simp: cache_ok_def registerKey_bytes map_emplace_def weight_put_new)
qed

subsection \<open>Over the whole context\<close>

definition context_ok :: "KeyContext \<Rightarrow> bool" where
  "context_ok c \<longleftrightarrow> ordered_map (kc_keys c) \<and> (\<forall>kp \<in> snd ` set (kc_keys c). cache_ok kp)"

lemma context_okD: "context_ok c \<Longrightarrow> map_of (kc_keys c) kid = Some kp \<Longrightarrow> cache_ok kp"
  by (force simp: context_ok_def dest: map_of_SomeD)

lemma set_put_subset: "snd ` set (map_put k v m) \<subseteq> insert v (snd ` set m)"
  by (induction k v m rule: map_put.induct) auto

lemma context_put:
  assumes "context_ok c" and "cache_ok kp"
  shows "context_ok (c\<lparr>kc_keys := map_put kid kp (kc_keys c)\<rparr>)"
  using assms set_put_subset [of kid kp "kc_keys c"] unfolding context_ok_def by fastforce

lemma context_map:
  assumes "context_ok c" and "\<And>kid kp. cache_ok kp \<Longrightarrow> cache_ok (f kid kp)"
  shows "context_ok (c\<lparr>kc_keys := map (\<lambda>(kid, kp). (kid, f kid kp)) (kc_keys c)\<rparr>)"
  using assms by (force simp: context_ok_def)

lemma map_valuesM_ok:
  assumes "map_valuesM f m = Some m'" and "\<And>k v v'. f k v = Some v' \<Longrightarrow> P v \<Longrightarrow> P v'"
    and "\<forall>v \<in> snd ` set m. P v"
  shows "map fst m' = map fst m \<and> (\<forall>v \<in> snd ` set m'. P v)"
  using assms(1,3)
proof (induction m arbitrary: m')
  case (Cons kv m)
  obtain k v where kv: "kv = (k, v)" by (cases kv)
  obtain v1 m1 where "f k v = Some v1" "map_valuesM f m = Some m1" "m' = (k, v1) # m1"
    using Cons.prems(1) kv by (auto simp: bind_eq_Some_conv)
  then show ?case using Cons.IH [of m1] Cons.prems(2) assms(2) [of k v v1] kv by simp
qed simp

lemma context_fetch:
  assumes "context_ok c" and "map_of (kc_keys c) keyID = Some kp" and "fetch_in i keyID kp c = Some (Inr c')"
  shows "context_ok c'"
proof -
  obtain kp' where "ensureResident i (kc_rotation_key_cache_bytes c) (kc_eviction_hold c = 0) kp = Some (Inr kp')"
    and c': "c' = c\<lparr>kc_keys := map_put keyID kp' (kc_keys c)\<rparr>"
    using assms(3) by (auto simp: fetch_in_def)
  then have "cache_ok kp'" using context_okD [OF assms(1,2)] ensureResident_cache_ok by blast
  then show ?thesis unfolding c' using assms(1) by (intro context_put)
qed

lemma context_ensure: "context_ok c \<Longrightarrow> context_ok (ensure_keyset kid c)"
  by (simp add: ensure_keyset_def context_put)

lemma keyset_ok: "context_ok c \<Longrightarrow> cache_ok (keyset_of kid c)"
  by (auto simp: keyset_of_def dest: context_okD split: option.split)

lemma keyset_ensure [simp]: "keyset_of kid (ensure_keyset kid' c) = keyset_of kid c"
  by (auto simp: keyset_of_def ensure_keyset_def map_contains_def split: option.split)

text \<open>The key operations as steps of the context; a new rotation key has a fresh index.\<close>

inductive key_step :: "KeyContext \<Rightarrow> KeyContext \<Rightarrow> bool" where
  step_set_cache: "SetRotationKeyCache bytes c = Some c' \<Longrightarrow> key_step c c'"
| step_offload: "key_step c (OffloadRotationKeys indexes keyID c)"
| step_pin: "key_step c (PinRotationKey index pin keyID c)"
| step_get: "GetRotationKey index keyID c = Some (Inr c') \<Longrightarrow> key_step c c'"
| step_get_slots: "GetRotationKeySlots index keyID slots c = Some (Inr (actual, c')) \<Longrightarrow> key_step c c'"
| step_add: "AddRotationKey index ksk c = Some c' \<Longrightarrow> wrap_index (kc_N c sdiv 2) index = Some i
    \<Longrightarrow> map_of (kp_rot_keys (keyset_of (ksk_keyID ksk) c)) i = None \<Longrightarrow> key_step c c'"
| step_has: "HasRotationKey index keyID c = Some (present, c') \<Longrightarrow> key_step c c'"
| step_add_eval: "key_step c (AddEvalKey ksk c)"
| step_clear: "key_step c (clearAutomorphismKeys keyID c)"
| step_clear_eval: "key_step c (clearEvalMultKeys keyID c)"
| step_hold: "key_step c (hold_begin c)"
| step_release: "key_step c (hold_end c)"

inductive_cases key_stepE: "key_step c c'"

inductive key_reachable :: "KeyContext \<Rightarrow> bool" where
  reach_init: "kc_keys c = [] \<Longrightarrow> key_reachable c"
| reach_step: "key_reachable c \<Longrightarrow> key_step c c' \<Longrightarrow> key_reachable c'"

lemma AddRotationKey_ok:
  assumes "context_ok c" and "AddRotationKey index ksk c = Some c'"
    and "wrap_index (kc_N c sdiv 2) index = Some i"
    and "map_of (kp_rot_keys (keyset_of (ksk_keyID ksk) c)) i = None"
  shows "context_ok c'"
proof -
  let ?kp = "keyset_of (ksk_keyID ksk) c"
  let ?kp2 = "registerKey ksk (?kp\<lparr>kp_rot_keys := map_emplace i ksk (kp_rot_keys ?kp)\<rparr>)"
  have "cache_ok ?kp2" using keyset_ok [OF assms(1)] assms(4) by (rule add_new_key_ok)
  moreover have "c' = (ensure_keyset (ksk_keyID ksk) c)
      \<lparr>kc_keys := map_put (ksk_keyID ksk) ?kp2 (kc_keys (ensure_keyset (ksk_keyID ksk) c))\<rparr>"
    using assms(2-4) by (simp add: AddRotationKey_def Let_def map_of_emplace)
  ultimately show ?thesis using assms(1) by (simp add: context_put context_ensure)
qed

lemma key_step_ok:
  assumes "context_ok c" and "key_step c c'"
  shows "context_ok c'"
  using assms(2)
proof cases
  case (step_set_cache bytes)
  then obtain ks where ks: "map_valuesM (\<lambda>_. enforceBudget bytes) (kc_keys c) = Some ks"
      and c': "c' = c\<lparr>kc_rotation_key_cache_bytes := bytes, kc_keys := ks\<rparr>"
    by (auto simp: SetRotationKeyCache_def)
  have "map fst ks = map fst (kc_keys c) \<and> (\<forall>kp \<in> snd ` set ks. cache_ok kp)"
    using assms(1) by (intro map_valuesM_ok [OF ks]) (auto simp: context_ok_def intro: enforceBudget_cache_ok)
  then show ?thesis using assms(1) c' by (simp add: context_ok_def ordered_map_def)
next
  case step_offload
  then show ?thesis
    unfolding OffloadRotationKeys_def by (auto intro!: context_map [OF assms(1)] simp: offload_keys_ok)
next
  case step_pin
  then show ?thesis
    unfolding PinRotationKey_def by (auto intro!: context_map [OF assms(1)] simp: pin_key_ok)
next
  case step_get
  then show ?thesis
    unfolding GetRotationKey_def by (simp split: option.splits if_splits) (rule context_fetch [OF assms(1)])
next
  case (step_get_slots index keyID slots actual)
  then obtain kp i where "map_of (kc_keys c) keyID = Some kp"
      "map_option (map_sum id (Pair i)) (fetch_in i keyID kp c) = Some (Inr (actual, c'))"
    unfolding GetRotationKeySlots_def
    by (cases "map_of (kc_keys c) keyID"; cases "resolve_index (kc_N c) index slots (the (map_of (kc_keys c) keyID))") simp_all
  then obtain "fetch_in i keyID kp c = Some (Inr c')" by auto
  with \<open>map_of (kc_keys c) keyID = Some kp\<close> show ?thesis by (rule context_fetch [OF assms(1)])
next
  case step_add
  with assms(1) show ?thesis by (rule AddRotationKey_ok)
next
  case step_has
  then show ?thesis by (auto simp: HasRotationKey_def Let_def intro: context_ensure [OF assms(1)])
next
  case (step_add_eval ksk)
  have "cache_ok ((keyset_of (ksk_keyID ksk) c)\<lparr>kp_eval_key := Some ksk\<rparr>)"
    using keyset_ok [OF assms(1), of "ksk_keyID ksk"] by (simp add: cache_ok_def)
  then show ?thesis
    unfolding step_add_eval AddEvalKey_def Let_def
    using context_ensure [OF assms(1)] by (simp add: context_put)
next
  case step_clear
  then show ?thesis
    unfolding clearAutomorphismKeys_def by (auto intro!: context_map [OF assms(1)] simp: cleared_ok)
next
  case step_clear_eval
  then show ?thesis
    unfolding clearEvalMultKeys_def by (auto intro!: context_map [OF assms(1)] simp: cache_ok_def)
qed (use assms(1) in \<open>simp_all add: hold_begin_def hold_end_def context_ok_def\<close>)

lemma key_reachable_ok: "key_reachable c \<Longrightarrow> context_ok c"
proof (induction rule: key_reachable.induct)
  case (reach_init c)
  then show ?case by (simp add: context_ok_def)
qed (rule key_step_ok)

section \<open>Properties\<close>

text \<open>C23: After any sequence of key operations on a fresh context (adding each rotation key at a
  new index) the resident bytes it reports are exactly the sizes of its resident keys, and in
  every key set the recency list holds each of its keys once, all of them resident.\<close>

theorem key_accounting:
  assumes "key_reachable c"
  shows "RotationKeyCacheResidentBytes c = weight (\<lambda>kp. weight resident_weight (kp_rot_keys kp)) (kc_keys c)
    \<and> (\<forall>kid kp. map_of (kc_keys c) kid = Some kp \<longrightarrow> cache_ok kp)"
proof -
  have ok: "context_ok c" using assms by (rule key_reachable_ok)
  have "foldl (\<lambda>b kv. b + kp_resident_bytes (snd kv)) b ks
      = b + weight (\<lambda>kp. weight resident_weight (kp_rot_keys kp)) ks"
    if "\<forall>kp \<in> snd ` set ks. cache_ok kp" for b and ks :: "(string \<times> KeyPrecomputations) list"
    using that by (induction ks arbitrary: b) (auto simp: cache_okD(4) algebra_simps)
  then show ?thesis
    using ok context_okD [OF ok] by (simp add: RotationKeyCacheResidentBytes_def context_ok_def)
qed

definition example_context :: KeyContext where
  "example_context = \<lparr>kc_N = 16, kc_keys = [], kc_rotation_key_cache_bytes = - 1, kc_eviction_hold = 0\<rparr>"

theorem key_accounting_witness:
  "RotationKeyCacheResidentBytes (AddEvalKey (example_key True False 9) example_context) = 0"
proof -
  have "key_reachable (AddEvalKey (example_key True False 9) example_context)"
    by (rule reach_step [OF reach_init step_add_eval]) (simp add: example_context_def)
  from key_accounting [OF this] show ?thesis
    by (simp add: AddEvalKey_def ensure_keyset_def keyset_of_def Let_def example_context_def
        map_contains_def empty_precomputations_def example_key_def)
qed

text \<open>C24: On a consistent cache of keys that all have snapshots, fetching any sequence of present
  keys under an eviction hold returns, whatever the budget, and afterwards all of them are resident
  at once, with every key that was resident before.\<close>

theorem hold_keeps_fetched:
  assumes "cache_ok kp" and "lazy_keys kp" and "\<forall>i \<in> set is. map_contains i (kp_rot_keys kp)"
  shows "\<exists>kp'. fetch_seq (\<lambda>i. ensureResident i budget False) is kp = Some (Inr kp') \<and> cache_ok kp'
    \<and> (\<forall>i \<in> set is. key_resident kp' i) \<and> (\<forall>j. key_resident kp j \<longrightarrow> key_resident kp' j)"
  using kp_store.fetch_seq_hold_resident [of kp "is" budget] assms by auto

definition lazy_cache :: KeyPrecomputations where
  "lazy_cache = empty_precomputations\<lparr>kp_rot_keys :=
     [(1, example_key False True 10), (2, example_key False True 20)]\<rparr>"

lemma lazy_cache_ok: "cache_ok lazy_cache" "lazy_keys lazy_cache"
  by (simp_all add: cache_ok_def lazy_keys_def lazy_cache_def empty_precomputations_def ordered_map_def
      resident_weight_def example_key_def)

theorem hold_keeps_fetched_witness:
  "\<exists>kp'. fetch_seq (\<lambda>i. ensureResident i 0 False) [1, 2] lazy_cache = Some (Inr kp') \<and> cache_ok kp'
    \<and> key_resident kp' 1 \<and> key_resident kp' 2"
  using hold_keeps_fetched [OF lazy_cache_ok, of "[1, 2]" 0]
  by (auto simp: map_contains_def lazy_cache_def empty_precomputations_def)

text \<open>C25: Outside a hold the fetches still all return, in any order and with repetitions, and keep
  the cache consistent: the budget may push keys out, but never loses one.\<close>

theorem fetches_return:
  assumes "cache_ok kp" and "lazy_keys kp" and "\<forall>i \<in> set is. map_contains i (kp_rot_keys kp)"
  shows "\<exists>kp'. fetch_seq (\<lambda>i. ensureResident i budget True) is kp = Some (Inr kp') \<and> cache_ok kp'
    \<and> (\<forall>i. map_contains i (kp_rot_keys kp') = map_contains i (kp_rot_keys kp))"
  using kp_store.fetch_seq_returns [of kp "is" budget True] assms by metis

theorem fetches_return_witness:
  "\<exists>kp'. fetch_seq (\<lambda>i. ensureResident i 5 True) [1, 2, 1] lazy_cache = Some (Inr kp') \<and> cache_ok kp'"
  using fetches_return [OF lazy_cache_ok, of "[1, 2, 1]" 5]
  by (auto simp: map_contains_def lazy_cache_def empty_precomputations_def)

text \<open>C26: A key created without a snapshot, added and fetched once, makes a later
  \<open>SetRotationKeyCache\<close> with a budget below its size run forever.\<close>

theorem SetRotationKeyCache_diverges:
  assumes "kc_keys c = []" and "0 \<le> index" and "ksk_resident k" and "\<not> ksk_has_snapshot k"
    and "bytes < ksk_limb_bytes k"
  shows "\<exists>c1 c2. AddRotationKey index k c = Some c1 \<and> GetRotationKey index (ksk_keyID k) c1 = Some (Inr c2)
    \<and> SetRotationKeyCache bytes c2 = None"
proof -
  let ?kp = "empty_precomputations\<lparr>kp_rot_keys := [(index, k)], kp_resident_bytes := ksk_limb_bytes k\<rparr>"
  let ?kp2 = "touch index ?kp"
  let ?c1 = "c\<lparr>kc_keys := [(ksk_keyID k, ?kp)]\<rparr>" and ?c2 = "c\<lparr>kc_keys := [(ksk_keyID k, ?kp2)]\<rparr>"
  have "wrap_index (kc_N c sdiv 2) index = Some index"
    using assms(2) by (subst wrap_index.simps) simp
  then have "AddRotationKey index k c = Some ?c1"
    using assms(1,3) by (simp add: AddRotationKey_def Let_def ensure_keyset_def map_contains_def
        keyset_of_def map_emplace_def registerKey_def empty_precomputations_def)
  moreover have "GetRotationKey index (ksk_keyID k) ?c1 = Some (Inr ?c2)"
    using assms(3) by (simp add: GetRotationKey_def map_contains_def fetch_in_def ensureResident_def)
  moreover have "evictToFit bytes 0 ?kp2 = None"
  proof (rule evictToFit_stuck)
    show "victim ?kp2 = Some index" by (simp add: victim_def touch_def empty_precomputations_def)
    show "offloadKey index ?kp2 = (False, ?kp2)" using assms(4) by (intro offload_not_offloadable) simp
    show "kp_resident_bytes ?kp2 + 0 > bytes" using assms(5) by simp
  qed
  then have "SetRotationKeyCache bytes ?c2 = None" by (simp add: SetRotationKeyCache_def enforceBudget_def)
  ultimately show ?thesis by blast
qed

theorem SetRotationKeyCache_diverges_witness:
  "\<exists>c1 c2. AddRotationKey 3 (example_key True False 100) example_context = Some c1
    \<and> GetRotationKey 3 [] c1 = Some (Inr c2) \<and> SetRotationKeyCache 50 c2 = None"
  using SetRotationKeyCache_diverges [of example_context 3 "example_key True False 100" 50]
  by (simp add: example_context_def example_key_def)

text \<open>Adding a rotation key at an index that already holds a resident key keeps the old key but
  adds its size to the resident bytes a second time.\<close>

theorem AddRotationKey_duplicate:
  assumes "0 \<le> index" and "map_of (kc_keys c) (ksk_keyID k) = Some kp"
    and "map_of (kp_rot_keys kp) index = Some k0" and "ksk_resident k0"
  shows "\<exists>c' kp'. AddRotationKey index k c = Some c' \<and> map_of (kc_keys c') (ksk_keyID k) = Some kp'
    \<and> kp_rot_keys kp' = kp_rot_keys kp \<and> kp_resident_bytes kp' = kp_resident_bytes kp + ksk_limb_bytes k0"
proof -
  have "wrap_index (kc_N c sdiv 2) index = Some index"
    using assms(1) by (subst wrap_index.simps) simp
  then show ?thesis
    using assms(2-4) by (simp add: AddRotationKey_def Let_def ensure_keyset_def map_contains_def
        keyset_of_def map_emplace_def registerKey_def)
qed

theorem AddRotationKey_duplicate_witness:
  "\<exists>c' kp'. AddRotationKey 1 (example_key True False 99) (example_context\<lparr>kc_keys := [([], example_cache)]\<rparr>) = Some c'
    \<and> map_of (kc_keys c') [] = Some kp' \<and> kp_resident_bytes kp' = 70"
  using AddRotationKey_duplicate [of 1 "example_context\<lparr>kc_keys := [([], example_cache)]\<rparr>"
      "example_key True False 99" example_cache "example_key True True 10"]
  by (simp add: example_key_def example_cache_def) blast

text \<open>When the second \<open>GetRotationKey\<close> settles on an index for a packing of \<open>slots\<close> slots, a
  power-of-two divisor of \<open>N / 2\<close>, it is the one of a key that is present, in the range
  \<open>[0, N / 2)\<close> and congruent to the requested rotation modulo the slot count.\<close>

theorem resolve_index_sound:
  assumes "resolve_index n index slots kp = Inr i" and "index \<noteq> 2 * n - 1"
    and "0 < slots" and "slots dvd n sdiv 2" and "0 < n sdiv 2"
  shows "map_contains i (kp_rot_keys kp) \<and> 0 \<le> i \<and> i < n sdiv 2 \<and> i mod slots = index mod slots"
proof -
  let ?half = "n sdiv 2" and ?P = "\<lambda>i. map_contains i (kp_rot_keys kp)"
  let ?i0 = "let j = index smod ?half in if j < 0 then j + ?half else j"
  let ?alts = "if slots \<noteq> -1 \<and> slots \<noteq> ?half
    then map (\<lambda>i. (?i0 + i * slots) smod ?half) [1..?half sdiv slots - 1] else []"
  have i0: "?i0 = index mod ?half"
    using assms(5) pos_mod_sign [OF assms(5), of index] pos_mod_bound [OF assms(5), of index]
    by (auto simp: Let_def smod_int_alt_def sgn_if zmod_zminus1_eq_if)
  have alt: "0 \<le> j \<and> j < ?half \<and> j mod slots = index mod slots" if "j \<in> set ?alts" for j
  proof -
    from that obtain m where m: "1 \<le> m" "j = (?i0 + m * slots) smod ?half" by (auto split: if_splits)
    have "0 \<le> ?i0 + m * slots" using assms(3,5) m(1) by (simp add: i0)
    then have "j = (?i0 + m * slots) mod ?half"
      using assms(5) m(2) by (auto simp: smod_int_alt_def sgn_if)
    moreover have "(index mod ?half + m * slots) mod ?half mod slots = index mod slots"
      by (simp only: mod_mod_cancel [OF assms(4)] mod_mult_self1)
    ultimately show ?thesis using assms(5) by (simp add: i0)
  qed
  have i: "?P i \<and> (i = ?i0 \<or> i \<in> set ?alts)"
    using assms(1-3) by (auto simp: resolve_index_def Let_def find_Some_iff in_set_conv_nth split: if_splits option.splits)
  then show ?thesis
    using alt [of i] assms(4,5) i0 by (auto simp: mod_mod_cancel)
qed

theorem resolve_index_sound_witness:
  "resolve_index 16 3 2 example_cache = Inr 3 \<and> (3::int) mod 2 = 3 mod 2"
proof -
  have "resolve_index 16 3 2 example_cache = Inr 3"
    by (simp add: resolve_index_def example_cache_def map_contains_def Let_def)
  then show ?thesis using resolve_index_sound [of 16 3 2 example_cache 3] by simp
qed

end
