(* ===== verification/CkksState.thy ===== *)
theory CkksState
  imports KeyContext
begin

text \<open>
  The state of CKKS ciphertexts and plaintexts (\<open>src/src/CKKS/Ciphertext.cuh\<close>,
  \<open>src/src/CKKS/Plaintext.cuh\<close>): the level, the noise-scale degree (\<open>NoiseLevel\<close>), the scale
  (\<open>NoiseFactor\<close>), slots and key tag that the library tracks, and the operations that only read
  or move them.

  The two RNS polynomials are represented by what they encrypt: the slot vector times the true
  scale, exact and without noise, so that an addition of polynomials adds messages, a rescale
  divides by the dropped prime, and a multiplication by the integer constant for a real \<open>c\<close>
  multiplies by \<open>c\<close> times the factor it was scaled with. Doubles are real numbers. An \<open>assert\<close>
  that fails is the error \<^const>\<open>Assert_failed\<close>; an \<open>operator[]\<close> out of range is
  \<^const>\<open>Undefined_behaviour\<close>, an \<open>at\<close> out of range \<^const>\<open>Out_of_range\<close>.
\<close>

section \<open>The context\<close>

datatype rescale_technique = NO_RESCALE | FIXEDMANUAL | FIXEDAUTO | FLEXIBLEAUTO | FLEXIBLEAUTOEXT

type_synonym msg = "nat \<Rightarrow> complex"

record CkksContext =
  cc_technique :: rescale_technique
  cc_L :: int
  cc_N :: int
  cc_prime :: "nat list"
  cc_specialPrime :: "nat list"
  cc_ModReduceFactor :: "real list"
  cc_ScalingFactorReal :: "real list"
  cc_ScalingFactorRealBig :: "real list"
  cc_keys :: KeyContext

definition real_at :: "cpp_error \<Rightarrow> real list \<Rightarrow> int \<Rightarrow> cpp_error + real" where
  "real_at e xs i = (if 0 \<le> i \<and> i < int (length xs) then Inr (xs ! nat i) else Inl e)"

abbreviation SF_at :: "CkksContext \<Rightarrow> int \<Rightarrow> cpp_error + real" where
  "SF_at cc l \<equiv> real_at Undefined_behaviour (cc_ScalingFactorReal cc) l"

abbreviation SFBig_at :: "CkksContext \<Rightarrow> int \<Rightarrow> cpp_error + real" where
  "SFBig_at cc l \<equiv> real_at Undefined_behaviour (cc_ScalingFactorRealBig cc) l"

abbreviation MR_at :: "CkksContext \<Rightarrow> int \<Rightarrow> cpp_error + real" where
  "MR_at cc l \<equiv> real_at Undefined_behaviour (cc_ModReduceFactor cc) l"

definition flexible :: "CkksContext \<Rightarrow> bool" where
  "flexible cc \<longleftrightarrow> cc_technique cc = FLEXIBLEAUTO \<or> cc_technique cc = FLEXIBLEAUTOEXT"

definition auto_rescale :: "CkksContext \<Rightarrow> bool" where
  "auto_rescale cc \<longleftrightarrow> cc_technique cc = FIXEDAUTO \<or> cc_technique cc = FLEXIBLEAUTO \<or> cc_technique cc = FLEXIBLEAUTOEXT"

text \<open>The modulus with index \<open>i\<close> in the order \<open>Q\<close>, then the special primes.\<close>

definition modulus_at :: "CkksContext \<Rightarrow> int \<Rightarrow> cpp_error + nat" where
  "modulus_at cc i =
     (if 0 \<le> i \<and> nat i < length (cc_prime cc) then Inr (cc_prime cc ! nat i)
      else if 0 \<le> i \<and> nat i - length (cc_prime cc) < length (cc_specialPrime cc)
           then Inr (cc_specialPrime cc ! (nat i - length (cc_prime cc)))
      else Inl Undefined_behaviour)"

section \<open>Ciphertexts\<close>

text \<open>The host copy that an offloaded ciphertext keeps.\<close>

record RawCipherText =
  raw_numRes :: int
  raw_moduli :: "nat list"
  raw_Noise :: real
  raw_NoiseLevel :: int
  raw_keyid :: string
  raw_slots :: int
  raw_msg :: msg

record Ciphertext =
  ct_keyID :: string
  ct_level :: int
  ct_up0 :: bool
  ct_up1 :: bool
  ct_factor :: real
  ct_noise :: int
  ct_slots :: int
  ct_msg :: msg
  ct_state :: "RawCipherText option"

record Plaintext =
  pt_level :: int
  pt_up :: bool
  pt_factor :: real
  pt_noise :: int
  pt_slots :: int
  pt_msg :: msg

definition fresh_ciphertext :: Ciphertext where
  "fresh_ciphertext = \<lparr>ct_keyID = [], ct_level = -1, ct_up0 = False, ct_up1 = False, ct_factor = 0,
     ct_noise = 1, ct_slots = 0, ct_msg = (\<lambda>_. 0), ct_state = None\<rparr>"

definition getLevel :: "Ciphertext \<Rightarrow> int" where
  "getLevel ct = (case ct_state ct of Some raw \<Rightarrow> raw_numRes raw - 1 | None \<Rightarrow> ct_level ct)"

subsection \<open>Offload and reload\<close>

text \<open>\<open>Ciphertext::load\<close> and \<open>store\<close>: \<open>load\<close> counts the leading limbs whose moduli are the primes
  of \<open>Q\<close>; the extended limbs of \<open>store\<close> are there only when \<open>c0\<close> is extended.\<close>

fun count_matching :: "nat list \<Rightarrow> nat list \<Rightarrow> int" where
  "count_matching (m # ms) (p # ps) = (if m = p then 1 else 0) + count_matching ms ps"
| "count_matching _ _ = 0"

definition load_ct :: "CkksContext \<Rightarrow> RawCipherText \<Rightarrow> Ciphertext \<Rightarrow> cpp_error + Ciphertext" where
  "load_ct cc raw ct =
     (let limbsize = count_matching (raw_moduli raw) (take (nat (cc_L cc + 1)) (cc_prime cc));
          Slimbsize = int (length (raw_moduli raw)) - limbsize;
          level = limbsize - 1 + (if Slimbsize = 1 then 1 else 0)
      in bindE (guardE Assert_failed (limbsize - 1 \<le> cc_L cc \<and> level \<le> cc_L cc
           \<and> take (nat limbsize) (raw_moduli raw) = take (nat limbsize) (cc_prime cc)
           \<and> drop (nat limbsize) (raw_moduli raw) = take (nat Slimbsize) (cc_specialPrime cc))) (\<lambda>_.
           Inr (ct\<lparr>ct_keyID := raw_keyid raw, ct_level := level, ct_msg := raw_msg raw,
                  ct_noise := raw_NoiseLevel raw, ct_factor := raw_Noise raw, ct_slots := raw_slots raw\<rparr>)))"

definition store_ct :: "CkksContext \<Rightarrow> Ciphertext \<Rightarrow> RawCipherText \<Rightarrow> RawCipherText" where
  "store_ct cc ct raw =
     raw\<lparr>raw_numRes := ct_level ct + 1 + (if ct_up0 ct then int (length (cc_specialPrime cc)) else 0),
         raw_msg := ct_msg ct, raw_NoiseLevel := ct_noise ct, raw_Noise := ct_factor ct,
         raw_keyid := ct_keyID ct, raw_slots := ct_slots ct\<rparr>"

definition empty_raw :: RawCipherText where
  "empty_raw = \<lparr>raw_numRes = 0, raw_moduli = [], raw_Noise = 0, raw_NoiseLevel = 1, raw_keyid = [],
     raw_slots = 0, raw_msg = (\<lambda>_. 0)\<rparr>"

definition freeGPU :: "Ciphertext \<Rightarrow> Ciphertext" where
  "freeGPU ct = ct\<lparr>ct_level := -1, ct_msg := (\<lambda>_. 0)\<rparr>"

definition ct_offload :: "CkksContext \<Rightarrow> Ciphertext \<Rightarrow> cpp_error + Ciphertext" where
  "ct_offload cc ct =
     (if ct_state ct \<noteq> None then Inr ct
      else if ct_up0 ct \<or> ct_up1 ct then Inl Assert_failed
      else
        let raw = store_ct cc ct empty_raw
        in bindE (guardE Out_of_range (raw_numRes raw \<le> int (length (cc_prime cc)))) (\<lambda>_.
           Inr ((freeGPU ct)\<lparr>ct_state :=
             Some (raw\<lparr>raw_moduli := take (nat (raw_numRes raw)) (cc_prime cc)\<rparr>)\<rparr>)))"

definition ct_reload :: "CkksContext \<Rightarrow> Ciphertext \<Rightarrow> cpp_error + Ciphertext" where
  "ct_reload cc ct =
     (case ct_state ct of None \<Rightarrow> Inr ct | Some raw \<Rightarrow> load_ct cc raw (ct\<lparr>ct_state := None\<rparr>))"

definition ensure_ct :: "CkksContext \<Rightarrow> Ciphertext \<Rightarrow> cpp_error + Ciphertext" where
  "ensure_ct cc ct = (if ct_state ct \<noteq> None then ct_reload cc ct else Inr ct)"

subsection \<open>Copies and metadata\<close>

definition copyMetadata :: "Ciphertext \<Rightarrow> Ciphertext \<Rightarrow> cpp_error + Ciphertext" where
  "copyMetadata a ct =
     bindE (guardE Assert_failed (getLevel ct = getLevel a)) (\<lambda>_.
       Inr (ct\<lparr>ct_slots := ct_slots a, ct_keyID := ct_keyID a, ct_noise := ct_noise a, ct_factor := ct_factor a\<rparr>))"

text \<open>\<open>this->copy(src)\<close> for two different objects.\<close>

definition copy_ct :: "CkksContext \<Rightarrow> Ciphertext \<Rightarrow> Ciphertext \<Rightarrow> cpp_error + Ciphertext" where
  "copy_ct cc src ct =
     bindE (ensure_ct cc ct) (\<lambda>ct.
       copyMetadata src (ct\<lparr>ct_level := ct_level src, ct_up0 := ct_up0 src, ct_up1 := ct_up1 src, ct_msg := ct_msg src\<rparr>))"

definition addMetadata :: "CkksContext \<Rightarrow> Ciphertext \<Rightarrow> Ciphertext \<Rightarrow> Ciphertext \<Rightarrow> cpp_error + Ciphertext" where
  "addMetadata cc a b ct =
     bindE (guardE Assert_failed (getLevel ct = getLevel a)) (\<lambda>_.
     bindE (guardE Assert_failed (flexible cc \<longrightarrow> getLevel a = getLevel b)) (\<lambda>_.
     bindE (guardE Assert_failed (ct_keyID a = ct_keyID b \<and> ct_noise a = ct_noise b)) (\<lambda>_.
       Inr (ct\<lparr>ct_slots := max (ct_slots a) (ct_slots b), ct_keyID := ct_keyID a,
              ct_noise := ct_noise a, ct_factor := ct_factor a\<rparr>))))"

definition addMetadataPt :: "CkksContext \<Rightarrow> Ciphertext \<Rightarrow> Plaintext \<Rightarrow> Ciphertext \<Rightarrow> cpp_error + Ciphertext" where
  "addMetadataPt cc a b ct =
     bindE (guardE Assert_failed (getLevel ct = getLevel a)) (\<lambda>_.
     bindE (guardE Assert_failed (flexible cc \<longrightarrow> getLevel a = pt_level b)) (\<lambda>_.
     bindE (guardE Assert_failed (ct_noise a = pt_noise b)) (\<lambda>_.
       Inr (ct\<lparr>ct_slots := max (ct_slots a) (pt_slots b), ct_keyID := ct_keyID a,
              ct_noise := ct_noise a, ct_factor := ct_factor a\<rparr>))))"

definition multMetadata :: "CkksContext \<Rightarrow> Ciphertext \<Rightarrow> Ciphertext \<Rightarrow> Ciphertext \<Rightarrow> cpp_error + Ciphertext" where
  "multMetadata cc a b ct =
     bindE (guardE Assert_failed (getLevel ct = getLevel a)) (\<lambda>_.
     bindE (guardE Assert_failed (flexible cc \<longrightarrow> getLevel a = getLevel b)) (\<lambda>_.
     bindE (guardE Assert_failed (ct_keyID a = ct_keyID b)) (\<lambda>_.
       Inr (ct\<lparr>ct_slots := max (ct_slots a) (ct_slots b), ct_keyID := ct_keyID a,
              ct_noise := ct_noise a + ct_noise b, ct_factor := ct_factor a * ct_factor b\<rparr>))))"

definition multMetadataPt :: "Ciphertext \<Rightarrow> Plaintext \<Rightarrow> Ciphertext \<Rightarrow> cpp_error + Ciphertext" where
  "multMetadataPt a b ct =
     bindE (guardE Assert_failed (getLevel ct = getLevel a)) (\<lambda>_.
       Inr (ct\<lparr>ct_slots := max (ct_slots a) (pt_slots b), ct_keyID := ct_keyID a,
              ct_noise := ct_noise a + pt_noise b, ct_factor := ct_factor a * pt_factor b\<rparr>))"

definition AdjustForAddOrSubIsNoOp :: "Ciphertext \<Rightarrow> Ciphertext \<Rightarrow> bool" where
  "AdjustForAddOrSubIsNoOp a b \<longleftrightarrow> getLevel a = getLevel b \<and> ct_noise a = ct_noise b"

definition AdjustForAddOrSubIsNoOpPt :: "Ciphertext \<Rightarrow> Plaintext \<Rightarrow> bool" where
  "AdjustForAddOrSubIsNoOpPt ct pt \<longleftrightarrow> pt_level pt = getLevel ct \<and> pt_noise pt = ct_noise ct"

definition AdjustForMultIsNoOp :: "Ciphertext \<Rightarrow> Ciphertext \<Rightarrow> rescale_technique \<Rightarrow> bool" where
  "AdjustForMultIsNoOp a b st \<longleftrightarrow>
     getLevel a = getLevel b \<and> (st = FIXEDMANUAL \<or> (ct_noise a = 1 \<and> ct_noise b = 1))"

definition AdjustForMultIsNoOpPt :: "Ciphertext \<Rightarrow> Plaintext \<Rightarrow> rescale_technique \<Rightarrow> bool" where
  "AdjustForMultIsNoOpPt ct pt st \<longleftrightarrow>
     getLevel ct = pt_level pt \<and> (st = FIXEDMANUAL \<or> (ct_noise ct = 1 \<and> pt_noise pt = 1))"

text \<open>\<open>growToLevel\<close> only ever raises the level; the content of the added limbs is not initialised,
  so the message is meaningless until the polynomials are written.\<close>

definition growToLevel :: "CkksContext \<Rightarrow> int \<Rightarrow> Ciphertext \<Rightarrow> cpp_error + Ciphertext" where
  "growToLevel cc level ct =
     bindE (ensure_ct cc ct) (\<lambda>ct. Inr (if ct_level ct \<ge> level then ct else ct\<lparr>ct_level := level\<rparr>))"

definition normalyzeIndex :: "int \<Rightarrow> int \<Rightarrow> int \<Rightarrow> cpp_error + int" where
  "normalyzeIndex index slots n =
     (if slots = 0 then Inl Undefined_behaviour
      else let index = index smod slots;
               index = (if index < 0 then index + slots else index)
           in Inr (if index > slots sdiv 2 then index + (n sdiv 2 - slots) else index))"

end
