(* ===== verification/CkksAdjust.thy ===== *)
theory CkksAdjust
  imports CkksState
begin

text \<open>
  Level and scale management (\<open>src/src/CKKS/Ciphertext.cpp\<close>): rescaling, multiplication by
  scalars, dropping levels, and the adjustment that brings an operand to another's level and
  noise-scale degree, with the branches of OpenFHE's \<open>AdjustLevelsAndDepthInPlace\<close>. The level
  comparisons of \<open>adjustScaleAndLevel\<close> are on \<open>uint32_t\<close> copies of the levels.
\<close>

section \<open>Messages\<close>

definition msg_scale :: "real \<Rightarrow> msg \<Rightarrow> msg" where
  "msg_scale c m = (\<lambda>j. of_real c * m j)"

definition msg_cscale :: "complex \<Rightarrow> msg \<Rightarrow> msg" where
  "msg_cscale c m = (\<lambda>j. c * m j)"

definition msg_add :: "msg \<Rightarrow> msg \<Rightarrow> msg" where
  "msg_add m m' = (\<lambda>j. m j + m' j)"

definition msg_sub :: "msg \<Rightarrow> msg \<Rightarrow> msg" where
  "msg_sub m m' = (\<lambda>j. m j - m' j)"

definition msg_mult :: "msg \<Rightarrow> msg \<Rightarrow> msg" where
  "msg_mult m m' = (\<lambda>j. m j * m' j)"

section \<open>Rescaling and scalars\<close>

definition drop_raw :: "int \<Rightarrow> Ciphertext \<Rightarrow> Ciphertext" where
  "drop_raw level ct = (if ct_level ct > level then ct\<lparr>ct_level := level\<rparr> else ct)"

definition rescale_poly :: "CkksContext \<Rightarrow> Ciphertext \<Rightarrow> cpp_error + Ciphertext" where
  "rescale_poly cc ct =
     bindE (if ct_level ct = cc_L cc + 1 then modulus_at cc (int (length (cc_prime cc))) else modulus_at cc (ct_level ct))
       (\<lambda>q. Inr (ct\<lparr>ct_msg := msg_scale (1 / real q) (ct_msg ct),
          ct_level := ct_level ct - (1 + (if ct_level ct = cc_L cc + 1 \<and> cc_technique cc = FLEXIBLEAUTOEXT then 1 else 0))\<rparr>))"

definition rescaleInternal :: "CkksContext \<Rightarrow> Ciphertext \<Rightarrow> cpp_error + Ciphertext" where
  "rescaleInternal cc ct =
     bindE (ensure_ct cc ct) (\<lambda>ct.
     bindE (if ct_level ct = cc_L cc + 1
            then bindE (modulus_at cc (int (length (cc_prime cc)))) (\<lambda>q. Inr (real q))
            else real_at Out_of_range (cc_ModReduceFactor cc) (ct_level ct)) (\<lambda>q.
     bindE (rescale_poly cc (ct\<lparr>ct_factor := ct_factor ct / q\<rparr>)) (\<lambda>ct.
     let ct = ct\<lparr>ct_noise := ct_noise ct - 1\<rparr> in
     bindE (if ct_noise ct = 1 then SF_at cc (ct_level ct) else SFBig_at cc (ct_level ct)) (\<lambda>expected.
     bindE (guardE Assert_failed (ct_factor ct = expected)) (\<lambda>_. Inr ct)))))"

definition rescale :: "CkksContext \<Rightarrow> Ciphertext \<Rightarrow> cpp_error + Ciphertext" where
  "rescale cc ct = (if cc_technique cc \<noteq> FIXEDMANUAL then Inr ct else rescaleInternal cc ct)"

text \<open>The factor that \<open>ElemForEvalMult(level, c)\<close> scales its constant with.\<close>

definition mult_factor :: "CkksContext \<Rightarrow> int \<Rightarrow> cpp_error + real" where
  "mult_factor cc level =
     (if nat level < length (cc_ScalingFactorReal cc) \<and> 0 \<le> level
      then Inr (cc_ScalingFactorReal cc ! nat level)
      else bindE (modulus_at cc level) (\<lambda>q. Inr (real q)))"

definition multScalarNoPrecheck :: "CkksContext \<Rightarrow> real \<Rightarrow> bool \<Rightarrow> Ciphertext \<Rightarrow> cpp_error + Ciphertext" where
  "multScalarNoPrecheck cc c resc ct =
     bindE (ensure_ct cc ct) (\<lambda>ct.
     bindE (mult_factor cc (ct_level ct)) (\<lambda>scFactor.
     bindE (if ct_level ct = cc_L cc + 1
            then bindE (modulus_at cc (int (length (cc_prime cc)))) (\<lambda>q. Inr (real q))
            else real_at Out_of_range (cc_ScalingFactorReal cc) (ct_level ct)) (\<lambda>f.
     let ct = ct\<lparr>ct_msg := msg_scale (c * scFactor) (ct_msg ct), ct_noise := ct_noise ct + 1,
                ct_factor := ct_factor ct * f\<rparr>
     in if resc \<and> cc_technique cc = FIXEDAUTO then rescaleInternal cc ct else Inr ct)))"

text \<open>The guard and pre-rescale at the head of \<open>multScalar\<close> and \<open>square\<close>.\<close>

definition pre_reduce :: "CkksContext \<Rightarrow> Ciphertext \<Rightarrow> cpp_error + Ciphertext" where
  "pre_reduce cc ct =
     (if auto_rescale cc
      then bindE (guardE Assert_failed (ct_up0 ct \<or> ct_up1 ct \<longrightarrow> ct_noise ct = 1)) (\<lambda>_.
             if ct_noise ct = 2 then rescaleInternal cc ct else Inr ct)
      else Inr ct)"

definition multScalar :: "CkksContext \<Rightarrow> real \<Rightarrow> bool \<Rightarrow> Ciphertext \<Rightarrow> cpp_error + Ciphertext" where
  "multScalar cc c resc ct =
     bindE (ensure_ct cc ct) (\<lambda>ct.
     bindE (pre_reduce cc ct) (\<lambda>ct.
     bindE (guardE Assert_failed (ct_noise ct = 1)) (\<lambda>_.
       multScalarNoPrecheck cc c (resc \<and> cc_technique cc = FIXEDMANUAL) ct)))"

definition raiseDegreeToLevel :: "CkksContext \<Rightarrow> int \<Rightarrow> Ciphertext \<Rightarrow> cpp_error + Ciphertext" where
  "raiseDegreeToLevel cc targetLevel ct =
     bindE (modulus_at cc targetLevel) (\<lambda>q.
     bindE (real_at Out_of_range (cc_ScalingFactorReal cc) (getLevel ct)) (\<lambda>f.
       Inr (ct\<lparr>ct_msg := msg_scale (real q) (ct_msg ct), ct_noise := ct_noise ct + 1,
              ct_factor := ct_factor ct * f\<rparr>)))"

section \<open>Adjusting level and scale\<close>

definition u32 :: "int \<Rightarrow> int" where
  "u32 x = x mod 2 ^ 32"

definition close_to :: "real \<Rightarrow> real \<Rightarrow> bool" where
  "close_to x y \<longleftrightarrow> \<bar>x - y\<bar> / (x + y) < 1 / 10 ^ 11"

text \<open>The two assertions at the head of \<open>adjustScaleAndLevel\<close>.\<close>

definition adjust_asserts :: "CkksContext \<Rightarrow> int \<Rightarrow> int \<Rightarrow> real \<Rightarrow> cpp_error + unit" where
  "adjust_asserts cc scaleDegree level scaling_factor =
     bindE (if scaleDegree = 2
            then bindE (SF_at cc (level - 1)) (\<lambda>s. bindE (MR_at cc level) (\<lambda>q. bindE (SFBig_at cc level) (\<lambda>b.
                   guardE Assert_failed (close_to (s * q) b))))
            else Inr ()) (\<lambda>_.
     if scaleDegree < 3
     then bindE (if scaleDegree = 1 then SF_at cc level else SFBig_at cc level) (\<lambda>x.
            guardE Assert_failed (scaling_factor = x))
     else Inr ())"

text \<open>The four cases of an operand with more towers than the target under a flexible technique,
  by the noise-scale degree of the operand and of the target.\<close>

definition adjust_2_2 :: "CkksContext \<Rightarrow> int \<Rightarrow> real \<Rightarrow> Ciphertext \<Rightarrow> cpp_error + Ciphertext" where
  "adjust_2_2 cc level scaling_factor ct =
     (let lvl = getLevel ct; scf1 = ct_factor ct; scf2 = scaling_factor in
      bindE (SF_at cc lvl) (\<lambda>scf. bindE (MR_at cc lvl) (\<lambda>q1.
      bindE (multScalarNoPrecheck cc (scf2 / scf1 * q1 / scf) False ct) (\<lambda>ct.
      bindE (SFBig_at cc (getLevel ct - 1)) (\<lambda>b. bindE (MR_at cc (getLevel ct)) (\<lambda>q.
      bindE (rescaleInternal cc (ct\<lparr>ct_factor := b * q\<rparr>)) (\<lambda>ct.
      let ct = (if getLevel ct > level then drop_raw level ct else ct)
      in Inr (ct\<lparr>ct_factor := scaling_factor\<rparr>))))))))"

definition adjust_2_1 :: "CkksContext \<Rightarrow> int \<Rightarrow> real \<Rightarrow> Ciphertext \<Rightarrow> cpp_error + Ciphertext" where
  "adjust_2_1 cc level scaling_factor ct =
     (let lvl = getLevel ct in
      if lvl - 1 = level then rescaleInternal cc ct
      else
        let scf1 = ct_factor ct in
        bindE (SFBig_at cc (level + 1)) (\<lambda>scf2. bindE (SF_at cc lvl) (\<lambda>scf. bindE (MR_at cc lvl) (\<lambda>q1.
        bindE (multScalarNoPrecheck cc (scf2 / scf1 * q1 / scf) False ct) (\<lambda>ct.
        bindE (SFBig_at cc (getLevel ct - 1)) (\<lambda>b. bindE (MR_at cc lvl) (\<lambda>q.
        bindE (rescaleInternal cc (ct\<lparr>ct_factor := b * q\<rparr>)) (\<lambda>ct.
        let ct = (if getLevel ct - 1 > level then drop_raw (level + 1) ct else ct)
        in bindE (SFBig_at cc (getLevel ct)) (\<lambda>b.
           bindE (rescaleInternal cc (ct\<lparr>ct_factor := b\<rparr>)) (\<lambda>ct.
             Inr (ct\<lparr>ct_factor := scaling_factor\<rparr>)))))))))))"

definition adjust_1_2 :: "CkksContext \<Rightarrow> int \<Rightarrow> real \<Rightarrow> Ciphertext \<Rightarrow> cpp_error + Ciphertext" where
  "adjust_1_2 cc level scaling_factor ct =
     (let lvl = getLevel ct; scf1 = ct_factor ct; scf2 = scaling_factor in
      bindE (SF_at cc lvl) (\<lambda>scf.
      bindE (multScalarNoPrecheck cc (scf2 / scf1 / scf) False ct) (\<lambda>ct.
      let ct = drop_raw level ct
      in bindE (guardE Assert_failed
           (\<bar>(ct_factor ct * scf2 / scf1 / scf - scaling_factor) / scaling_factor\<bar> < 1 / 1000)) (\<lambda>_.
           Inr (ct\<lparr>ct_factor := scf2\<rparr>)))))"

definition adjust_1_1 :: "CkksContext \<Rightarrow> int \<Rightarrow> real \<Rightarrow> Ciphertext \<Rightarrow> cpp_error + Ciphertext" where
  "adjust_1_1 cc level scaling_factor ct =
     (let lvl = getLevel ct; scf1 = ct_factor ct in
      bindE (SFBig_at cc (level + 1)) (\<lambda>scf2. bindE (SF_at cc lvl) (\<lambda>scf.
      bindE (multScalarNoPrecheck cc (scf2 / scf1 / scf) False ct) (\<lambda>ct.
      let ct = (if lvl - 1 > level then drop_raw (level + 1) ct else ct)
      in bindE (rescaleInternal cc (ct\<lparr>ct_factor := ct_factor ct * (scf2 / scf1 / scf)\<rparr>)) (\<lambda>ct.
           Inr (ct\<lparr>ct_factor := scaling_factor\<rparr>))))))"

definition final_assert :: "CkksContext \<Rightarrow> int \<Rightarrow> int \<Rightarrow> Ciphertext \<Rightarrow> cpp_error + unit" where
  "final_assert cc scaleDegree level ct =
     (if scaleDegree < 3
      then bindE (if ct_noise ct = 1 then SF_at cc level else SFBig_at cc level) (\<lambda>x.
             guardE Assert_failed (ct_factor ct = x))
      else Inr ())"

definition adjustScaleAndLevel :: "CkksContext \<Rightarrow> int \<Rightarrow> int \<Rightarrow> real \<Rightarrow> Ciphertext
    \<Rightarrow> cpp_error + bool \<times> Ciphertext" where
  "adjustScaleAndLevel cc scaleDegree level scaling_factor ct =
     bindE (adjust_asserts cc scaleDegree level scaling_factor) (\<lambda>_.
     let c1lvl = u32 (getLevel ct); c2lvl = u32 level; c1depth = ct_noise ct; c2depth = scaleDegree in
     if (cc_technique cc = FIXEDMANUAL \<or> cc_technique cc = FIXEDAUTO) \<and> c1depth = c2depth then
       (if c1lvl > c2lvl then Inr (True, drop_raw level ct)
        else if c1lvl < c2lvl then Inr (False, ct)
        else Inr (True, ct))
     else if cc_technique cc = FIXEDAUTO then
       (if c1lvl = c2lvl then
          (if c1depth < c2depth then bindE (raiseDegreeToLevel cc level ct) (\<lambda>ct. Inr (True, ct))
           else Inr (False, ct))
        else if c1lvl > c2lvl then
          bindE (if ct_noise ct = 2 then rescaleInternal cc ct else raiseDegreeToLevel cc level ct) (\<lambda>ct.
            Inr (True, if getLevel ct > level then drop_raw level ct else ct))
        else Inr (False, ct))
     else if c1lvl > c2lvl then
       bindE (if c1depth = 2
              then (if c2depth = 2 then adjust_2_2 cc level scaling_factor ct else adjust_2_1 cc level scaling_factor ct)
              else (if c2depth = 2 then adjust_1_2 cc level scaling_factor ct else adjust_1_1 cc level scaling_factor ct))
         (\<lambda>ct. bindE (final_assert cc scaleDegree level ct) (\<lambda>_. Inr (True, ct)))
     else if c1lvl < c2lvl then Inr (False, ct)
     else if c1depth < c2depth then bindE (multScalar cc 1 False ct) (\<lambda>ct. Inr (True, ct))
     else if c2depth < c1depth then Inr (False, ct)
     else Inr (True, ct))"

definition dropToLevel :: "CkksContext \<Rightarrow> int \<Rightarrow> bool \<Rightarrow> Ciphertext \<Rightarrow> cpp_error + Ciphertext" where
  "dropToLevel cc level skip_adjust ct =
     bindE (ensure_ct cc ct) (\<lambda>ct.
     if ct_level ct > level then
       (if \<not> skip_adjust \<and> flexible cc then
          bindE (guardE Assert_failed (ct_noise ct = 1 \<or> ct_noise ct = 2)) (\<lambda>_.
          bindE (if ct_noise ct = 1 then SF_at cc level else SFBig_at cc level) (\<lambda>f.
          bindE (adjustScaleAndLevel cc (ct_noise ct) level f ct) (\<lambda>(ok, ct).
          bindE (guardE Assert_failed ok) (\<lambda>_. Inr ct))))
        else Inr (drop_raw level ct))
     else Inr ct)"

definition adjustForAddOrSub :: "CkksContext \<Rightarrow> Ciphertext \<Rightarrow> Ciphertext \<Rightarrow> cpp_error + bool \<times> Ciphertext" where
  "adjustForAddOrSub cc b ct =
     (if cc_technique cc = FIXEDMANUAL then
        (if getLevel ct - ct_noise ct > getLevel b - ct_noise b then
           bindE (if ct_noise b = 1 \<and> ct_noise ct = 2 then rescaleInternal cc ct
                  else if ct_noise b = 2 \<and> ct_noise ct = 1 then multScalar cc 1 False ct
                  else Inr ct) (\<lambda>ct. Inr (True, ct))
         else if ct_noise b = 1 \<and> ct_noise ct = 2 then bindE (rescaleInternal cc ct) (\<lambda>ct. Inr (True, ct))
         else if ct_noise ct = 1 \<and> ct_noise b = 2 then Inr (False, ct)
         else Inr (True, ct))
      else if auto_rescale cc then adjustScaleAndLevel cc (ct_noise b) (getLevel b) (ct_factor b) ct
      else Inl Assert_failed)"

definition adjustForMult :: "CkksContext \<Rightarrow> Ciphertext \<Rightarrow> Ciphertext \<Rightarrow> cpp_error + bool \<times> Ciphertext" where
  "adjustForMult cc b ct =
     bindE (adjustForAddOrSub cc b ct) (\<lambda>(ok, ct).
     bindE (if ct_noise ct = 2 then rescaleInternal cc ct else Inr ct) (\<lambda>ct.
       Inr (ok \<and> ct_noise b \<noteq> 2, ct)))"

definition adjustCiphertextToPlaintext :: "CkksContext \<Rightarrow> Plaintext \<Rightarrow> Ciphertext \<Rightarrow> cpp_error + bool \<times> Ciphertext" where
  "adjustCiphertextToPlaintext cc b ct =
     (if auto_rescale cc then adjustScaleAndLevel cc (pt_noise b) (pt_level b) (pt_factor b) ct
      else Inl Assert_failed)"

definition hasSameScalingFactor :: "Plaintext \<Rightarrow> Ciphertext \<Rightarrow> bool" where
  "hasSameScalingFactor b ct \<longleftrightarrow> ct_factor ct > pt_factor b * (1 - 1 / 10 ^ 9) \<and> ct_factor ct < pt_factor b * (1 + 1 / 10 ^ 9)"

end
