(* ===== verification/CkksScale.thy ===== *)
theory CkksScale
  imports CkksAdjust
begin

text \<open>
  Correctness of the level and scale management of theory CkksAdjust: on ciphertexts whose scale is
  the table's value for their level and degree, the adjustment reaches the target's level, degree
  and scale and keeps the encrypted values.
\<close>

section \<open>Well-formed contexts and ciphertexts\<close>

abbreviation sf :: "CkksContext \<Rightarrow> int \<Rightarrow> real" where
  "sf cc l \<equiv> cc_ScalingFactorReal cc ! nat l"

abbreviation sfb :: "CkksContext \<Rightarrow> int \<Rightarrow> real" where
  "sfb cc l \<equiv> cc_ScalingFactorRealBig cc ! nat l"

abbreviation mr :: "CkksContext \<Rightarrow> int \<Rightarrow> real" where
  "mr cc l \<equiv> cc_ModReduceFactor cc ! nat l"

text \<open>
  The tables OpenFHE provides, one entry per level: positive scales, \<open>ScalingFactorRealBig\<close> their
  squares, and \<open>SF[l - 1] * ModReduceFactor[l] = SF[l]^2\<close>. Under the flexible techniques the
  reduction factor is the prime that the rescale drops.
\<close>

definition tables_ok :: "CkksContext \<Rightarrow> bool" where
  "tables_ok cc \<longleftrightarrow> 0 \<le> cc_L cc \<and> cc_L cc < 2 ^ 31
     \<and> int (length (cc_prime cc)) = cc_L cc + 1
     \<and> int (length (cc_ScalingFactorReal cc)) = cc_L cc + 1
     \<and> int (length (cc_ScalingFactorRealBig cc)) = cc_L cc + 1
     \<and> int (length (cc_ModReduceFactor cc)) = cc_L cc + 1
     \<and> (\<forall>l. 0 \<le> l \<and> l \<le> cc_L cc \<longrightarrow> 0 < sf cc l \<and> sfb cc l = sf cc l * sf cc l \<and> 0 < mr cc l
          \<and> 0 < cc_prime cc ! nat l)
     \<and> (\<forall>l. 1 \<le> l \<and> l \<le> cc_L cc \<longrightarrow> sf cc (l - 1) * mr cc l = sfb cc l)"

definition exact_primes :: "CkksContext \<Rightarrow> bool" where
  "exact_primes cc \<longleftrightarrow> (\<forall>l. 0 \<le> l \<and> l \<le> cc_L cc \<longrightarrow> mr cc l = real (cc_prime cc ! nat l))"

definition scale_of :: "CkksContext \<Rightarrow> int \<Rightarrow> int \<Rightarrow> real" where
  "scale_of cc noise l = (if noise = 1 then sf cc l else sfb cc l)"

definition ct_ok :: "CkksContext \<Rightarrow> Ciphertext \<Rightarrow> bool" where
  "ct_ok cc ct \<longleftrightarrow> ct_state ct = None \<and> 0 \<le> ct_level ct \<and> ct_level ct \<le> cc_L cc
     \<and> (ct_noise ct = 1 \<or> ct_noise ct = 2) \<and> ct_factor ct = scale_of cc (ct_noise ct) (ct_level ct)"

text \<open>The slot values a ciphertext stands for.\<close>

definition decode :: "Ciphertext \<Rightarrow> msg" where
  "decode ct = (\<lambda>j. ct_msg ct j / of_real (ct_factor ct))"

lemma tables_length:
  assumes "tables_ok cc" and "0 \<le> l" and "l \<le> cc_L cc"
  shows "SF_at cc l = Inr (sf cc l)" "SFBig_at cc l = Inr (sfb cc l)" "MR_at cc l = Inr (mr cc l)"
    "real_at e (cc_ScalingFactorReal cc) l = Inr (sf cc l)"
    "real_at e (cc_ModReduceFactor cc) l = Inr (mr cc l)"
    "modulus_at cc l = Inr (cc_prime cc ! nat l)" "mult_factor cc l = Inr (sf cc l)"
  using assms by (auto simp: tables_ok_def real_at_def modulus_at_def mult_factor_def)

lemma tables_pos:
  assumes "tables_ok cc" and "0 \<le> l" and "l \<le> cc_L cc"
  shows "0 < sf cc l" "sfb cc l = sf cc l * sf cc l" "0 < mr cc l" "0 < cc_prime cc ! nat l" "0 < sfb cc l"
  using assms by (auto simp: tables_ok_def)

lemma tables_step:
  assumes "tables_ok cc" and "1 \<le> l" and "l \<le> cc_L cc"
  shows "sf cc (l - 1) * mr cc l = sfb cc l" "sfb cc l / mr cc l = sf cc (l - 1)"
proof -
  show 1: "sf cc (l - 1) * mr cc l = sfb cc l" using assms by (auto simp: tables_ok_def)
  have "mr cc l \<noteq> 0" using tables_pos(3) [OF assms(1), of l] assms(2,3) by simp
  then show "sfb cc l / mr cc l = sf cc (l - 1)" using 1 by (simp add: nonzero_divide_eq_eq)
qed

lemma scale_of_pos: "tables_ok cc \<Longrightarrow> 0 \<le> l \<Longrightarrow> l \<le> cc_L cc \<Longrightarrow> 0 < scale_of cc n l"
  using tables_pos [of cc l] by (simp add: scale_of_def)

lemma u32_small: "0 \<le> l \<Longrightarrow> l < 2 ^ 31 \<Longrightarrow> u32 l = l"
  by (simp add: u32_def)

lemma level_u32: "tables_ok cc \<Longrightarrow> 0 \<le> l \<Longrightarrow> l \<le> cc_L cc \<Longrightarrow> u32 l = l"
  by (intro u32_small) (auto simp: tables_ok_def)

lemma getLevel_resident [simp]: "ct_state ct = None \<Longrightarrow> getLevel ct = ct_level ct"
  by (simp add: getLevel_def)

lemma ensure_resident [simp]: "ct_state ct = None \<Longrightarrow> ensure_ct cc ct = Inr ct"
  by (simp add: ensure_ct_def)

lemma drop_raw_fields [simp]:
  "ct_state (drop_raw l ct) = ct_state ct" "ct_noise (drop_raw l ct) = ct_noise ct"
  "ct_factor (drop_raw l ct) = ct_factor ct" "ct_msg (drop_raw l ct) = ct_msg ct"
  "ct_keyID (drop_raw l ct) = ct_keyID ct" "ct_slots (drop_raw l ct) = ct_slots ct"
  "ct_up0 (drop_raw l ct) = ct_up0 ct" "ct_up1 (drop_raw l ct) = ct_up1 ct"
  "ct_level (drop_raw l ct) = min l (ct_level ct)"
  by (auto simp: drop_raw_def)

section \<open>The building blocks\<close>

lemma rescaleInternal_step:
  assumes "tables_ok cc" and "ct_state ct = None" and "1 \<le> ct_level ct" and "ct_level ct \<le> cc_L cc"
    and "ct_factor ct / mr cc (ct_level ct) = scale_of cc (ct_noise ct - 1) (ct_level ct - 1)"
  shows "rescaleInternal cc ct = Inr (ct\<lparr>ct_factor := ct_factor ct / mr cc (ct_level ct),
    ct_msg := msg_scale (1 / real (cc_prime cc ! nat (ct_level ct))) (ct_msg ct),
    ct_level := ct_level ct - 1, ct_noise := ct_noise ct - 1\<rparr>)"
  using assms tables_length [OF assms(1), of "ct_level ct"] tables_length [OF assms(1), of "ct_level ct - 1"]
  by (simp add: rescaleInternal_def rescale_poly_def scale_of_def Let_def)

lemma multScalarNoPrecheck_step:
  assumes "tables_ok cc" and "ct_state ct = None" and "0 \<le> ct_level ct" and "ct_level ct \<le> cc_L cc"
  shows "multScalarNoPrecheck cc c False ct = Inr (ct\<lparr>ct_msg := msg_scale (c * sf cc (ct_level ct)) (ct_msg ct),
    ct_noise := ct_noise ct + 1, ct_factor := ct_factor ct * sf cc (ct_level ct)\<rparr>)"
  using assms tables_length [OF assms(1), of "ct_level ct"]
  by (simp add: multScalarNoPrecheck_def Let_def)

text \<open>One rescale of a degree-2 ciphertext keeps its values under the flexible techniques.\<close>

lemma rescale_degree2:
  assumes "tables_ok cc" and "ct_ok cc ct" and "ct_noise ct = 2" and "1 \<le> ct_level ct"
  obtains ct' where "rescaleInternal cc ct = Inr ct'" and "ct_ok cc ct'" and "ct_noise ct' = 1"
    and "ct_level ct' = ct_level ct - 1" and "ct_keyID ct' = ct_keyID ct" and "ct_slots ct' = ct_slots ct"
    and "ct_up0 ct' = ct_up0 ct" and "ct_up1 ct' = ct_up1 ct"
    and "exact_primes cc \<Longrightarrow> decode ct' = decode ct"
proof -
  let ?l = "ct_level ct"
  have l: "0 \<le> ?l" "?l \<le> cc_L cc" "ct_state ct = None" and f: "ct_factor ct = sfb cc ?l"
    using assms(2,3) by (auto simp: ct_ok_def scale_of_def)
  have s: "ct_factor ct / mr cc ?l = sf cc (?l - 1)" using tables_step [OF assms(1,4) l(2)] f by simp
  have r: "rescaleInternal cc ct = Inr (ct\<lparr>ct_factor := ct_factor ct / mr cc ?l,
      ct_msg := msg_scale (1 / real (cc_prime cc ! nat ?l)) (ct_msg ct), ct_level := ?l - 1, ct_noise := 1\<rparr>)"
    using rescaleInternal_step [OF assms(1) l(3) assms(4) l(2)] s assms(3) by (simp add: scale_of_def)
  have pos: "0 < mr cc ?l" "0 < ct_factor ct" using tables_pos [OF assms(1) l(1,2)] f by simp_all
  show ?thesis
  proof (rule that [OF r])
    show "ct_ok cc (ct\<lparr>ct_factor := ct_factor ct / mr cc ?l,
      ct_msg := msg_scale (1 / real (cc_prime cc ! nat ?l)) (ct_msg ct), ct_level := ?l - 1, ct_noise := 1\<rparr>)"
      using l assms(4) s by (simp add: ct_ok_def scale_of_def)
    assume "exact_primes cc"
    then have "mr cc ?l = real (cc_prime cc ! nat ?l)" using l by (simp add: exact_primes_def)
    then show "decode (ct\<lparr>ct_factor := ct_factor ct / mr cc ?l,
      ct_msg := msg_scale (1 / real (cc_prime cc ! nat ?l)) (ct_msg ct), ct_level := ?l - 1, ct_noise := 1\<rparr>) = decode ct"
      using pos by (simp add: decode_def msg_scale_def fun_eq_iff field_simps)
  qed simp_all
qed

section \<open>The four flexible cases\<close>

text \<open>A result of the adjustment: the target's level, degree and scale, the same tag, slots and
  values.\<close>

definition adjusted :: "CkksContext \<Rightarrow> int \<Rightarrow> int \<Rightarrow> Ciphertext \<Rightarrow> Ciphertext \<Rightarrow> bool" where
  "adjusted cc noise level ct ct' \<longleftrightarrow> ct_ok cc ct' \<and> ct_noise ct' = noise \<and> ct_level ct' = level
     \<and> ct_keyID ct' = ct_keyID ct \<and> ct_slots ct' = ct_slots ct \<and> ct_up0 ct' = ct_up0 ct \<and> ct_up1 ct' = ct_up1 ct
     \<and> decode ct' = decode ct"

lemma decode_scaled:
  assumes "a / of_real f' = 1 / (of_real f :: complex)" and "ct_factor ct = f" and "ct_factor ct' = f'"
    and "\<And>j. ct_msg ct' j = a * ct_msg ct j"
  shows "decode ct' = decode ct"
  using assms by (simp add: decode_def fun_eq_iff) (metis mult.commute mult_1 times_divide_eq_left)

lemma adjust_2_2_ok:
  assumes t: "tables_ok cc" and e: "exact_primes cc" and c: "ct_ok cc ct" "ct_noise ct = 2"
    and l: "0 \<le> level" "level < ct_level ct"
  shows "\<exists>ct'. adjust_2_2 cc level (sfb cc level) ct = Inr ct' \<and> adjusted cc 2 level ct ct'"
proof -
  let ?l = "ct_level ct"
  have lv: "0 \<le> ?l" "1 \<le> ?l" "?l \<le> cc_L cc" "ct_state ct = None" and f: "ct_factor ct = sfb cc ?l"
    using c l by (auto simp: ct_ok_def scale_of_def)
  note tl = tables_length [OF t lv(1,3)] tables_length [OF t, of "?l - 1"]
  note pos = tables_pos [OF t lv(1,3)] tables_pos [OF t l(1)]
  let ?k = "sfb cc level / sfb cc ?l * mr cc ?l / sf cc ?l"
  let ?ct1 = "ct\<lparr>ct_msg := msg_scale (?k * sf cc ?l) (ct_msg ct), ct_noise := 3,
    ct_factor := sfb cc (?l - 1) * mr cc ?l\<rparr>"
  have r: "rescaleInternal cc ?ct1 = Inr (?ct1\<lparr>ct_factor := sfb cc (?l - 1),
      ct_msg := msg_scale (1 / real (cc_prime cc ! nat ?l)) (ct_msg ?ct1), ct_level := ?l - 1, ct_noise := 2\<rparr>)"
    using rescaleInternal_step [OF t, of ?ct1] lv pos by (simp add: scale_of_def)
  let ?ct' = "(drop_raw level (?ct1\<lparr>ct_factor := sfb cc (?l - 1),
      ct_msg := msg_scale (1 / real (cc_prime cc ! nat ?l)) (ct_msg ?ct1), ct_level := ?l - 1, ct_noise := 2\<rparr>))
      \<lparr>ct_factor := sfb cc level\<rparr>"
  have "adjust_2_2 cc level (sfb cc level) ct = Inr ?ct'"
    using lv l r tl f multScalarNoPrecheck_step [OF t lv(4,1,3)] c(2)
    by (simp add: adjust_2_2_def Let_def drop_raw_def)
  moreover have "decode ?ct' = decode ct"
  proof (rule decode_scaled [OF _ f])
    show "\<And>j. ct_msg ?ct' j = of_real (1 / real (cc_prime cc ! nat ?l) * (?k * sf cc ?l)) * ct_msg ct j"
      by (simp add: msg_scale_def)
    show "complex_of_real (1 / real (cc_prime cc ! nat ?l) * (?k * sf cc ?l)) / of_real (sfb cc level)
        = 1 / of_real (sfb cc ?l)"
    proof -
      have "mr cc ?l = real (cc_prime cc ! nat ?l)" using e lv by (simp add: exact_primes_def)
      then have "1 / real (cc_prime cc ! nat ?l) * (?k * sf cc ?l) / sfb cc level = 1 / sfb cc ?l"
        using pos lv l by (simp add: field_simps)
      then show ?thesis by (metis of_real_1 of_real_divide)
    qed
  qed simp
  ultimately show ?thesis
    using lv l c by (auto simp: adjusted_def ct_ok_def scale_of_def intro!: exI [of _ ?ct'])
qed

lemma adjust_1_2_ok:
  assumes t: "tables_ok cc" and c: "ct_ok cc ct" "ct_noise ct = 1"
    and l: "0 \<le> level" "level < ct_level ct"
  shows "\<exists>ct'. adjust_1_2 cc level (sfb cc level) ct = Inr ct' \<and> adjusted cc 2 level ct ct'"
proof -
  let ?l = "ct_level ct"
  have lv: "0 \<le> ?l" "?l \<le> cc_L cc" "ct_state ct = None" "level \<le> cc_L cc" and f: "ct_factor ct = sf cc ?l"
    using c l by (auto simp: ct_ok_def scale_of_def)
  note pos = tables_pos [OF t lv(1,2)] tables_pos [OF t l(1) lv(4)]
  let ?k = "sfb cc level / sf cc ?l / sf cc ?l"
  let ?ct' = "(drop_raw level (ct\<lparr>ct_msg := msg_scale (?k * sf cc ?l) (ct_msg ct), ct_noise := 2,
    ct_factor := sf cc ?l * sf cc ?l\<rparr>))\<lparr>ct_factor := sfb cc level\<rparr>"
  have a: "sf cc ?l * sf cc ?l * sfb cc level / sf cc ?l / sf cc ?l = sfb cc level"
    using pos(1) by simp
  have "adjust_1_2 cc level (sfb cc level) ct = Inr ?ct'"
    using multScalarNoPrecheck_step [OF t lv(3,1,2), of ?k] tables_length(1) [OF t lv(1,2)] lv(3) f c(2) a pos(1)
    by (simp add: adjust_1_2_def Let_def)
  moreover have "decode ?ct' = decode ct"
  proof (rule decode_scaled [OF _ f])
    show "\<And>j. ct_msg ?ct' j = of_real (?k * sf cc ?l) * ct_msg ct j" by (simp add: msg_scale_def)
    have "sfb cc level \<noteq> 0" "sf cc ?l \<noteq> 0" using pos by simp_all
    then have "?k * sf cc ?l / sfb cc level = 1 / sf cc ?l" by simp
    then show "complex_of_real (?k * sf cc ?l) / of_real (sfb cc level) = 1 / of_real (sf cc ?l)"
      by (metis of_real_1 of_real_divide)
  qed simp
  ultimately show ?thesis
    using lv l c by (auto simp: adjusted_def ct_ok_def scale_of_def intro!: exI [of _ ?ct'])
qed

lemma adjust_1_1_ok:
  assumes t: "tables_ok cc" and e: "exact_primes cc" and c: "ct_ok cc ct" "ct_noise ct = 1"
    and l: "0 \<le> level" "level < ct_level ct"
  shows "\<exists>ct'. adjust_1_1 cc level (sf cc level) ct = Inr ct' \<and> adjusted cc 1 level ct ct'"
proof -
  let ?l = "ct_level ct" and ?m = "level + 1"
  have lv: "0 \<le> ?l" "?l \<le> cc_L cc" "ct_state ct = None" "0 \<le> ?m" "1 \<le> ?m" "?m \<le> cc_L cc" "level \<le> cc_L cc"
    and f: "ct_factor ct = sf cc ?l"
    using c l by (auto simp: ct_ok_def scale_of_def)
  note pos = tables_pos [OF t lv(1,2)] and posm = tables_pos [OF t lv(4,6)] and posl = tables_pos [OF t l(1) lv(7)]
  have step: "sfb cc ?m / mr cc ?m = sf cc level" using tables_step(2) [OF t lv(5,6)] by simp
  let ?k = "sfb cc ?m / sf cc ?l / sf cc ?l" and ?q = "real (cc_prime cc ! nat ?m)"
  let ?ct1 = "ct\<lparr>ct_msg := msg_scale (?k * sf cc ?l) (ct_msg ct), ct_noise := 2, ct_level := ?m, ct_factor := sfb cc ?m\<rparr>"
  let ?ct' = "?ct1\<lparr>ct_factor := sf cc level, ct_msg := msg_scale (1 / ?q) (ct_msg ?ct1), ct_level := level, ct_noise := 1\<rparr>"
  have r: "rescaleInternal cc ?ct1 = Inr ?ct'"
    using rescaleInternal_step [OF t, of ?ct1] lv step by (simp add: scale_of_def)
  have fac: "sf cc ?l * sf cc ?l * (sfb cc ?m / sf cc ?l / sf cc ?l) = sfb cc ?m" using pos(1) by simp
  have "adjust_1_1 cc level (sf cc level) ct = Inr ?ct'"
  proof (cases "level + 1 < ?l")
    case True
    then show ?thesis
      using multScalarNoPrecheck_step [OF t lv(3,1,2), of ?k] tables_length [OF t lv(1,2)] tables_length(2) [OF t lv(4,6)] lv(3) f c(2) r fac pos(1)
      by (simp add: adjust_1_1_def Let_def drop_raw_def)
  next
    case False
    then have lm: "?l = ?m" using l by simp
    then have "?ct1 = ct\<lparr>ct_msg := msg_scale (?k * sf cc ?l) (ct_msg ct), ct_noise := 2, ct_factor := sfb cc ?m\<rparr>"
      by (cases ct) simp
    then have r': "rescaleInternal cc (ct\<lparr>ct_msg := msg_scale (?k * sf cc ?l) (ct_msg ct), ct_noise := 2,
        ct_factor := sfb cc ?m\<rparr>) = Inr ?ct'"
      using r by (simp only:)
    show ?thesis
      using multScalarNoPrecheck_step [OF t lv(3,1,2), of ?k] tables_length [OF t lv(1,2)] lv(3) f c(2) r' fac pos(1) lm
      by (simp add: adjust_1_1_def Let_def)
  qed
  moreover have "decode ?ct' = decode ct"
  proof (rule decode_scaled [OF _ f])
    show "\<And>j. ct_msg ?ct' j = of_real (1 / ?q * (?k * sf cc ?l)) * ct_msg ct j" by (simp add: msg_scale_def)
    have "mr cc ?m = ?q" using e lv by (simp add: exact_primes_def)
    then have "1 / ?q * (?k * sf cc ?l) / sf cc level = 1 / sf cc ?l"
      using pos(1) posm posl(1) step by (simp add: field_simps)
    then show "complex_of_real (1 / ?q * (?k * sf cc ?l)) / of_real (sf cc level) = 1 / of_real (sf cc ?l)"
      by (metis of_real_1 of_real_divide)
  qed simp
  ultimately show ?thesis
    using lv l c by (auto simp: adjusted_def ct_ok_def scale_of_def intro!: exI [of _ ?ct'])
qed

lemma adjust_2_1_ok:
  assumes t: "tables_ok cc" and e: "exact_primes cc" and c: "ct_ok cc ct" "ct_noise ct = 2"
    and l: "0 \<le> level" "level < ct_level ct"
  shows "\<exists>ct'. adjust_2_1 cc level (sf cc level) ct = Inr ct' \<and> adjusted cc 1 level ct ct'"
proof (cases "ct_level ct - 1 = level")
  case True
  have "1 \<le> ct_level ct" "ct_state ct = None" using c l by (auto simp: ct_ok_def)
  then obtain ct' where "rescaleInternal cc ct = Inr ct'" and "adjusted cc 1 level ct ct'"
    using rescale_degree2 [OF t c] e True by (auto simp: adjusted_def)
  then show ?thesis using True \<open>ct_state ct = None\<close> by (simp add: adjust_2_1_def)
next
  case False
  let ?l = "ct_level ct" and ?m = "level + 1"
  have lv: "0 \<le> ?l" "?l \<le> cc_L cc" "ct_state ct = None" "0 \<le> ?m" "1 \<le> ?m" "?m \<le> cc_L cc" "level \<le> cc_L cc"
      "1 \<le> ?l" "0 \<le> ?l - 1" "?l - 1 \<le> cc_L cc" "?m \<le> ?l - 1"
    and f: "ct_factor ct = sfb cc ?l"
    using c l False by (auto simp: ct_ok_def scale_of_def)
  note pos = tables_pos [OF t lv(1,2)] and posm = tables_pos [OF t lv(4,6)] and posl = tables_pos [OF t l(1) lv(7)]
  note tl = tables_length [OF t lv(1,2)] tables_length(2) [OF t lv(4,6)] tables_length(2) [OF t lv(9,10)]
  have step: "sfb cc ?m / mr cc ?m = sf cc level" using tables_step(2) [OF t lv(5,6)] by simp
  define k where "k = sfb cc ?m / sfb cc ?l * mr cc ?l / sf cc ?l"
  let ?q = "real (cc_prime cc ! nat ?m)" and ?p = "real (cc_prime cc ! nat ?l)"
  define ct1 where "ct1 = ct\<lparr>ct_msg := msg_scale (k * sf cc ?l) (ct_msg ct), ct_noise := 3,
    ct_factor := sfb cc (?l - 1) * mr cc ?l\<rparr>"
  define ct2 where "ct2 = ct1\<lparr>ct_factor := sfb cc (?l - 1), ct_msg := msg_scale (1 / ?p) (ct_msg ct1),
    ct_level := ?l - 1, ct_noise := 2\<rparr>"
  define ct3 where "ct3 = ct2\<lparr>ct_level := ?m, ct_factor := sfb cc ?m\<rparr>"
  define ct4 where "ct4 = ct3\<lparr>ct_factor := sf cc level, ct_msg := msg_scale (1 / ?q) (ct_msg ct3),
    ct_level := level, ct_noise := 1\<rparr>"
  define ct0 where "ct0 = ct\<lparr>ct_msg := msg_scale (k * sf cc ?l) (ct_msg ct),
      ct_noise := 3, ct_factor := ct_factor ct * sf cc ?l\<rparr>"
  have r1: "multScalarNoPrecheck cc k False ct = Inr ct0"
    using multScalarNoPrecheck_step [OF t lv(3,1,2), of k] c(2) by (simp add: ct0_def)
  have c0: "getLevel ct0 = ?l" "ct0\<lparr>ct_factor := sfb cc (?l - 1) * mr cc ?l\<rparr> = ct1" "getLevel ct = ?l"
      "ct3\<lparr>ct_factor := sfb cc ?m\<rparr> = ct3" "ct4\<lparr>ct_factor := sf cc level\<rparr> = ct4"
    using lv(3) by (simp_all add: ct0_def ct1_def ct3_def ct4_def)
  have r2: "rescaleInternal cc ct1 = Inr ct2"
    using rescaleInternal_step [OF t, of ct1] lv pos(3) by (simp add: scale_of_def ct1_def ct2_def)
  have d: "(if getLevel ct2 - 1 > level then drop_raw ?m ct2 else ct2)\<lparr>ct_factor := sfb cc ?m\<rparr> = ct3"
      "getLevel (if getLevel ct2 - 1 > level then drop_raw ?m ct2 else ct2) = ?m"
    using lv l False by (auto simp: ct3_def ct2_def ct1_def drop_raw_def getLevel_def)
  have r3: "rescaleInternal cc ct3 = Inr ct4"
    using rescaleInternal_step [OF t, of ct3] lv step by (simp add: scale_of_def ct1_def ct2_def ct3_def ct4_def)
  have "adjust_2_1 cc level (sf cc level) ct = Inr ct4"
    using False by (simp only: adjust_2_1_def Let_def c0 f tl bindE.simps k_def [symmetric] r1 r2 r3 d if_False)
  moreover have "decode ct4 = decode ct"
  proof (rule decode_scaled [OF _ f])
    show "\<And>j. ct_msg ct4 j = of_real (1 / ?q * (1 / ?p * (k * sf cc ?l))) * ct_msg ct j"
      by (simp add: msg_scale_def ct4_def ct3_def ct2_def ct1_def)
    show "ct_factor ct4 = sf cc level" by (simp add: ct4_def)
    have "mr cc ?m = ?q" "mr cc ?l = ?p" using e lv by (auto simp: exact_primes_def)
    then have "1 / ?q * (1 / ?p * (k * sf cc ?l)) / sf cc level = 1 / sfb cc ?l"
      using pos posm posl(1) step by (simp add: k_def field_simps)
    then show "complex_of_real (1 / ?q * (1 / ?p * (k * sf cc ?l))) / of_real (sf cc level) = 1 / of_real (sfb cc ?l)"
      by (metis of_real_1 of_real_divide)
  qed
  ultimately show ?thesis
    using lv l c by (auto simp: adjusted_def ct_ok_def scale_of_def ct4_def ct3_def ct2_def ct1_def)
qed

section \<open>The whole adjustment\<close>

text \<open>A target the adjustment can be asked for: degree 2 needs a level below it for the assertion on
  the tables.\<close>

definition target_ok :: "CkksContext \<Rightarrow> int \<Rightarrow> int \<Rightarrow> bool" where
  "target_ok cc noise level \<longleftrightarrow> 0 \<le> level \<and> level \<le> cc_L cc \<and> (noise = 1 \<or> noise = 2 \<and> 1 \<le> level)"

definition adjustable :: "Ciphertext \<Rightarrow> int \<Rightarrow> int \<Rightarrow> bool" where
  "adjustable ct noise level \<longleftrightarrow> level < ct_level ct \<or> level = ct_level ct \<and> ct_noise ct \<le> noise"

lemma target_ok_ct: "ct_ok cc ct \<Longrightarrow> ct_noise ct = 2 \<longrightarrow> 1 \<le> ct_level ct \<Longrightarrow> target_ok cc (ct_noise ct) (ct_level ct)"
  by (auto simp: target_ok_def ct_ok_def)

lemma adjust_asserts_pass:
  assumes "tables_ok cc" and "target_ok cc n l"
  shows "adjust_asserts cc n l (scale_of cc n l) = Inr ()"
proof -
  have l: "0 \<le> l" "l \<le> cc_L cc" using assms(2) by (auto simp: target_ok_def)
  consider "n = 1" | "n = 2" "1 \<le> l" using assms(2) by (auto simp: target_ok_def)
  then show ?thesis
  proof cases
    case 1
    then show ?thesis using tables_length [OF assms(1) l] by (simp add: adjust_asserts_def scale_of_def)
  next
    case 2
    then show ?thesis
      using tables_length [OF assms(1) l] tables_length(1) [OF assms(1), of "l - 1"] tables_step(1) [OF assms(1) 2(2) l(2)] l
      by (simp add: adjust_asserts_def scale_of_def close_to_def)
  qed
qed

lemma multScalar_raises:
  assumes t: "tables_ok cc" and f: "flexible cc" and c: "ct_ok cc ct" "ct_noise ct = 1"
  shows "\<exists>ct'. multScalar cc 1 False ct = Inr ct' \<and> adjusted cc 2 (ct_level ct) ct ct'"
proof -
  let ?l = "ct_level ct"
  have lv: "0 \<le> ?l" "?l \<le> cc_L cc" "ct_state ct = None" and fa: "ct_factor ct = sf cc ?l"
    using c by (auto simp: ct_ok_def scale_of_def)
  note pos = tables_pos [OF t lv(1,2)]
  let ?ct' = "ct\<lparr>ct_msg := msg_scale (1 * sf cc ?l) (ct_msg ct), ct_noise := 2, ct_factor := sf cc ?l * sf cc ?l\<rparr>"
  have "multScalar cc 1 False ct = Inr ?ct'"
    using multScalarNoPrecheck_step [OF t lv(3,1,2), of 1] c(2) lv(3) fa
    by (simp add: multScalar_def pre_reduce_def)
  moreover have "decode ?ct' = decode ct"
  proof (rule decode_scaled [OF _ fa])
    show "\<And>j. ct_msg ?ct' j = of_real (sf cc ?l) * ct_msg ct j" by (simp add: msg_scale_def)
  qed (use pos(1) in simp_all)
  ultimately show ?thesis using lv c pos by (auto simp: adjusted_def ct_ok_def scale_of_def)
qed

lemma adjusted_refl: "ct_ok cc ct \<Longrightarrow> adjusted cc (ct_noise ct) (ct_level ct) ct ct"
  by (simp add: adjusted_def)

lemma final_assert_pass:
  assumes "tables_ok cc" and "target_ok cc n l" and "adjusted cc n l ct ct'"
  shows "final_assert cc n l ct' = Inr ()"
  using assms tables_length [OF assms(1), of l]
  by (auto simp: final_assert_def adjusted_def ct_ok_def target_ok_def scale_of_def)

lemma adjust_four_ok:
  assumes t: "tables_ok cc" and e: "exact_primes cc" and c: "ct_ok cc ct"
    and g: "target_ok cc n level" and l: "level < ct_level ct"
  shows "\<exists>ct'. (if ct_noise ct = 2
      then (if n = 2 then adjust_2_2 cc level (scale_of cc n level) ct else adjust_2_1 cc level (scale_of cc n level) ct)
      else (if n = 2 then adjust_1_2 cc level (scale_of cc n level) ct else adjust_1_1 cc level (scale_of cc n level) ct))
     = Inr ct' \<and> adjusted cc n level ct ct'"
proof -
  have n: "n = 1 \<or> n = 2" "0 \<le> level" and d: "ct_noise ct = 1 \<or> ct_noise ct = 2"
    using g c by (auto simp: target_ok_def ct_ok_def)
  then show ?thesis
    using adjust_2_2_ok [OF t e c _ n(2) l] adjust_2_1_ok [OF t e c _ n(2) l]
      adjust_1_2_ok [OF t c _ n(2) l] adjust_1_1_ok [OF t e c _ n(2) l]
    by (auto simp: scale_of_def)
qed

lemma adjust_flexible:
  assumes t: "tables_ok cc" and e: "exact_primes cc" and f: "flexible cc" and c: "ct_ok cc ct"
    and g: "target_ok cc n level"
  shows "\<exists>ct'. adjustScaleAndLevel cc n level (scale_of cc n level) ct = Inr (adjustable ct n level, ct')
    \<and> (if adjustable ct n level then adjusted cc n level ct ct' else ct' = ct)"
proof -
  have lv: "ct_state ct = None" "u32 (ct_level ct) = ct_level ct" "u32 level = level"
    using c g level_u32 [OF t] by (auto simp: ct_ok_def target_ok_def)
  have nf: "cc_technique cc \<noteq> FIXEDMANUAL" "cc_technique cc \<noteq> FIXEDAUTO" using f by (auto simp: flexible_def)
  note d = adjustScaleAndLevel_def adjust_asserts_pass [OF t g] Let_def nf lv getLevel_resident [OF lv(1)]
  consider "level < ct_level ct" | "ct_level ct < level" | "level = ct_level ct" by linarith
  then show ?thesis
  proof cases
    case 1
    obtain ct' where r: "(if ct_noise ct = 2
        then (if n = 2 then adjust_2_2 cc level (scale_of cc n level) ct else adjust_2_1 cc level (scale_of cc n level) ct)
        else (if n = 2 then adjust_1_2 cc level (scale_of cc n level) ct else adjust_1_1 cc level (scale_of cc n level) ct))
        = Inr ct'" and a: "adjusted cc n level ct ct'"
      using adjust_four_ok [OF t e c g 1] by blast
    have "adjustScaleAndLevel cc n level (scale_of cc n level) ct = Inr (True, ct')"
      using 1 final_assert_pass [OF t g a] by (simp only: d bindE.simps r simp_thms if_True if_False)
    then show ?thesis using a 1 by (simp add: adjustable_def)
  next
    case 2
    then show ?thesis by (simp add: d adjustable_def)
  next
    case 3
    have n: "n = 1 \<or> n = 2" "ct_noise ct = 1 \<or> ct_noise ct = 2"
      using g c by (auto simp: target_ok_def ct_ok_def)
    show ?thesis
    proof (cases "ct_noise ct < n")
      case True
      then have "ct_noise ct = 1" "n = 2" using n by auto
      then show ?thesis using multScalar_raises [OF t f c] adjust_asserts_pass [OF t g] 3 by (auto simp: d adjustable_def)
    next
      case False
      have eq: "ct_noise ct = n \<Longrightarrow> adjusted cc n level ct ct" using adjusted_refl [OF c] 3 by simp
      have "adjustScaleAndLevel cc n level (scale_of cc n level) ct = Inr (\<not> n < ct_noise ct, ct)"
        using 3 False adjust_asserts_pass [OF t g] by (auto simp: d)
      then show ?thesis using eq 3 False by (auto simp: adjustable_def)
    qed
  qed
qed


text \<open>A context with three levels to evaluate the model on.\<close>

definition demo_cc :: CkksContext where
  "demo_cc = \<lparr>cc_technique = FLEXIBLEAUTO, cc_L = 2, cc_N = 16, cc_prime = [5, 7, 11], cc_specialPrime = [13],
     cc_ModReduceFactor = [5, 7, 11], cc_ScalingFactorReal = [10000 / 847, 100 / 11, 10],
     cc_ScalingFactorRealBig = [100000000 / 717409, 10000 / 121, 100],
     cc_keys = \<lparr>kc_N = 16, kc_keys = [], kc_rotation_key_cache_bytes = 0, kc_eviction_hold = 0\<rparr>\<rparr>"

definition demo_ct :: "int \<Rightarrow> int \<Rightarrow> msg \<Rightarrow> Ciphertext" where
  "demo_ct noise level m = fresh_ciphertext\<lparr>ct_keyID := ''key'', ct_level := level, ct_noise := noise, ct_slots := 8,
     ct_factor := scale_of demo_cc noise level, ct_msg := m\<rparr>"

lemma all_levels3: "(\<forall>l::int. 0 \<le> l \<and> l \<le> 2 \<longrightarrow> P l) \<longleftrightarrow> P 0 \<and> P 1 \<and> P 2"
proof -
  have "0 \<le> l \<and> l \<le> 2 \<longleftrightarrow> l = 0 \<or> l = 1 \<or> l = 2" for l :: int by auto
  then show ?thesis by auto
qed

lemma all_levels2: "(\<forall>l::int. 1 \<le> l \<and> l \<le> 2 \<longrightarrow> P l) \<longleftrightarrow> P 1 \<and> P 2"
proof -
  have "1 \<le> l \<and> l \<le> 2 \<longleftrightarrow> l = 1 \<or> l = 2" for l :: int by auto
  then show ?thesis by auto
qed

lemma demo_ok: "tables_ok demo_cc" "exact_primes demo_cc" "flexible demo_cc"
  by (simp_all add: tables_ok_def exact_primes_def flexible_def demo_cc_def all_levels3 all_levels2)

lemma demo_ct_ok: "n = 1 \<or> n = 2 \<Longrightarrow> 0 \<le> l \<Longrightarrow> l \<le> 2 \<Longrightarrow> ct_ok demo_cc (demo_ct n l m)"
  by (auto simp: ct_ok_def demo_ct_def fresh_ciphertext_def demo_cc_def)


end
