(* ===== verification/CkksPlain.thy ===== *)
theory CkksPlain
  imports CkksScale
begin

text \<open>
  Plaintexts (\<open>src/src/CKKS/Plaintext.cu\<close>): metadata, scalar multiplication, rescaling, the
  adjustment to a ciphertext's level and scale, products and differences, and their correctness on
  well-scaled operands. A plaintext polynomial is represented by its slot vector times its scale,
  as for ciphertexts (theory CkksState).
\<close>

section \<open>Operations\<close>

definition fresh_plaintext :: Plaintext where
  "fresh_plaintext = \<lparr>pt_level = -1, pt_up = False, pt_factor = 0, pt_noise = 1, pt_slots = 0, pt_msg = (\<lambda>_. 0)\<rparr>"

definition pt_copyMetadata :: "Plaintext \<Rightarrow> Plaintext \<Rightarrow> cpp_error + Plaintext" where
  "pt_copyMetadata a pt =
     bindE (guardE Assert_failed (pt_level pt = pt_level a)) (\<lambda>_.
       Inr (pt\<lparr>pt_slots := pt_slots a, pt_noise := pt_noise a, pt_factor := pt_factor a\<rparr>))"

definition pt_addMetadata :: "CkksContext \<Rightarrow> Plaintext \<Rightarrow> Plaintext \<Rightarrow> Plaintext \<Rightarrow> cpp_error + Plaintext" where
  "pt_addMetadata cc a b pt =
     bindE (guardE Assert_failed (pt_level pt = pt_level a)) (\<lambda>_.
     bindE (guardE Assert_failed (flexible cc \<longrightarrow> pt_level a = pt_level b \<and> pt_factor a = pt_factor b)) (\<lambda>_.
     bindE (guardE Assert_failed (pt_noise a = pt_noise b)) (\<lambda>_.
       Inr (pt\<lparr>pt_slots := max (pt_slots a) (pt_slots b), pt_noise := pt_noise a, pt_factor := pt_factor a\<rparr>))))"

definition pt_multMetadata :: "CkksContext \<Rightarrow> Plaintext \<Rightarrow> Plaintext \<Rightarrow> Plaintext \<Rightarrow> cpp_error + Plaintext" where
  "pt_multMetadata cc a b pt =
     bindE (guardE Assert_failed (pt_level pt = pt_level a)) (\<lambda>_.
     bindE (guardE Assert_failed (flexible cc \<longrightarrow> pt_level a = pt_level b \<and> pt_factor a = pt_factor b)) (\<lambda>_.
     bindE (guardE Assert_failed (pt_noise a = pt_noise b)) (\<lambda>_.
       Inr (pt\<lparr>pt_slots := max (pt_slots a) (pt_slots b), pt_noise := pt_noise a + pt_noise b,
              pt_factor := pt_factor a * pt_factor b\<rparr>))))"

definition pt_copy :: "Plaintext \<Rightarrow> Plaintext \<Rightarrow> cpp_error + Plaintext" where
  "pt_copy p pt =
     bindE (guardE Assert_failed (pt_slots pt = 0 \<or> pt_slots pt = pt_slots p)) (\<lambda>_.
       pt_copyMetadata p (pt\<lparr>pt_level := pt_level p, pt_up := pt_up p, pt_msg := pt_msg p\<rparr>))"

definition pt_raiseDegreeToLevel :: "CkksContext \<Rightarrow> int \<Rightarrow> Plaintext \<Rightarrow> cpp_error + Plaintext" where
  "pt_raiseDegreeToLevel cc targetLevel pt =
     bindE (modulus_at cc targetLevel) (\<lambda>q.
     bindE (real_at Out_of_range (cc_ScalingFactorReal cc) (pt_level pt)) (\<lambda>f.
       Inr (pt\<lparr>pt_msg := msg_scale (real q) (pt_msg pt), pt_noise := pt_noise pt + 1,
              pt_factor := pt_factor pt * f\<rparr>)))"

text \<open>\<open>RNSPoly::rescale\<close> on the one polynomial of a plaintext.\<close>

definition pt_rescale_poly :: "CkksContext \<Rightarrow> Plaintext \<Rightarrow> cpp_error + Plaintext" where
  "pt_rescale_poly cc pt =
     bindE (modulus_at cc (pt_level pt)) (\<lambda>q.
       Inr (pt\<lparr>pt_msg := msg_scale (1 / real q) (pt_msg pt), pt_level := pt_level pt - 1\<rparr>))"

definition pt_rescale :: "CkksContext \<Rightarrow> Plaintext \<Rightarrow> cpp_error + Plaintext" where
  "pt_rescale cc pt =
     bindE (guardE Assert_failed (pt_noise pt \<ge> 2)) (\<lambda>_.
     bindE (pt_rescale_poly cc pt) (\<lambda>pt.
     bindE (real_at Out_of_range (cc_ModReduceFactor cc) (pt_level pt + 1)) (\<lambda>q.
       Inr (pt\<lparr>pt_factor := pt_factor pt / q, pt_noise := pt_noise pt - 1\<rparr>))))"

definition pt_multScalar :: "CkksContext \<Rightarrow> real \<Rightarrow> bool \<Rightarrow> Plaintext \<Rightarrow> cpp_error + Plaintext" where
  "pt_multScalar cc c resc pt =
     (let r = (if resc then 1 else 0) in
      bindE (mult_factor cc (pt_level pt)) (\<lambda>scFactor.
      let pt = pt\<lparr>pt_msg := msg_scale (c * scFactor) (pt_msg pt)\<rparr> in
      bindE (if resc then pt_rescale_poly cc pt else Inr pt) (\<lambda>pt.
      bindE (real_at Out_of_range (cc_ScalingFactorReal cc) (pt_level pt + r)) (\<lambda>f.
      let pt = pt\<lparr>pt_noise := pt_noise pt + 1, pt_factor := pt_factor pt * f\<rparr> in
      if resc
      then bindE (real_at Out_of_range (cc_ModReduceFactor cc) (pt_level pt + r)) (\<lambda>q.
             Inr (pt\<lparr>pt_factor := pt_factor pt / q, pt_noise := pt_noise pt - 1\<rparr>))
      else Inr pt))))"

definition pt_drop_raw :: "int \<Rightarrow> Plaintext \<Rightarrow> Plaintext" where
  "pt_drop_raw level pt = (if pt_level pt > level then pt\<lparr>pt_level := level\<rparr> else pt)"

subsection \<open>Adjusting level and scale\<close>

definition near :: "real \<Rightarrow> real \<Rightarrow> bool" where
  "near x y \<longleftrightarrow> \<bar>(x - y) / y\<bar> < 1 / 1000"

definition pt_adjust_2_2 :: "CkksContext \<Rightarrow> int \<Rightarrow> real \<Rightarrow> Plaintext \<Rightarrow> cpp_error + Plaintext" where
  "pt_adjust_2_2 cc level scaling_factor pt =
     (let lvl = pt_level pt; scf1 = pt_factor pt; scf2 = scaling_factor in
      bindE (SF_at cc lvl) (\<lambda>scf. bindE (MR_at cc lvl) (\<lambda>q1.
      bindE (pt_multScalar cc (scf2 / scf1 * q1 / scf) False pt) (\<lambda>pt.
      bindE (pt_rescale cc pt) (\<lambda>pt.
      let pt = (if pt_level pt > level then pt_drop_raw level pt else pt)
      in bindE (guardE Assert_failed (near (pt_factor pt * scf2 / scf1 * q1 / scf) scaling_factor)) (\<lambda>_.
           Inr (pt\<lparr>pt_factor := scaling_factor\<rparr>)))))))"

definition pt_adjust_2_1 :: "CkksContext \<Rightarrow> int \<Rightarrow> real \<Rightarrow> Plaintext \<Rightarrow> cpp_error + Plaintext" where
  "pt_adjust_2_1 cc level scaling_factor pt =
     (let lvl = pt_level pt in
      if lvl - 1 = level then pt_rescale cc pt
      else
        let scf1 = pt_factor pt in
        bindE (SFBig_at cc (level + 1)) (\<lambda>scf2. bindE (SF_at cc lvl) (\<lambda>scf. bindE (MR_at cc lvl) (\<lambda>q1.
        bindE (pt_multScalar cc (scf2 / scf1 * q1 / scf) False pt) (\<lambda>pt.
        bindE (pt_rescale cc pt) (\<lambda>pt.
        let pt = (if pt_level pt - 1 > level then pt_drop_raw (level + 1) pt else pt)
        in bindE (pt_rescale cc pt) (\<lambda>pt.
           bindE (guardE Assert_failed (near (pt_factor pt * scf2 / scf1 * q1 / scf) scaling_factor)) (\<lambda>_.
             Inr (pt\<lparr>pt_factor := scaling_factor\<rparr>)))))))))"

definition pt_adjust_1_2 :: "CkksContext \<Rightarrow> int \<Rightarrow> real \<Rightarrow> Plaintext \<Rightarrow> cpp_error + Plaintext" where
  "pt_adjust_1_2 cc level scaling_factor pt =
     (let lvl = pt_level pt; scf1 = pt_factor pt; scf2 = scaling_factor in
      bindE (SF_at cc lvl) (\<lambda>scf.
      bindE (pt_multScalar cc (scf2 / scf1 / scf) False pt) (\<lambda>pt.
      let pt = pt_drop_raw level pt
      in bindE (guardE Assert_failed (near (pt_factor pt * scf2 / scf1 / scf) scaling_factor)) (\<lambda>_.
           Inr (pt\<lparr>pt_factor := scf2\<rparr>)))))"

definition pt_adjust_1_1 :: "CkksContext \<Rightarrow> int \<Rightarrow> real \<Rightarrow> Plaintext \<Rightarrow> cpp_error + Plaintext" where
  "pt_adjust_1_1 cc level scaling_factor pt =
     (let lvl = pt_level pt; scf1 = pt_factor pt in
      bindE (SFBig_at cc (level + 1)) (\<lambda>scf2. bindE (SF_at cc lvl) (\<lambda>scf.
      bindE (pt_multScalar cc (scf2 / scf1 / scf) False pt) (\<lambda>pt.
      let pt = (if lvl - 1 > level then pt_drop_raw (level + 1) pt else pt)
      in bindE (pt_rescale cc pt) (\<lambda>pt.
         bindE (guardE Assert_failed (near (pt_factor pt * scf2 / scf1 / scf) scaling_factor)) (\<lambda>_.
           Inr (pt\<lparr>pt_factor := scaling_factor\<rparr>)))))))"

definition pt_adjustScaleAndLevel :: "CkksContext \<Rightarrow> int \<Rightarrow> int \<Rightarrow> real \<Rightarrow> Plaintext
    \<Rightarrow> cpp_error + bool \<times> Plaintext" where
  "pt_adjustScaleAndLevel cc scaleDegree level scaling_factor pt =
     bindE (if scaleDegree = 2
            then bindE (SF_at cc (level - 1)) (\<lambda>s. bindE (MR_at cc level) (\<lambda>q. bindE (SFBig_at cc level) (\<lambda>b.
                   guardE Assert_failed (s * q = b))))
            else Inr ()) (\<lambda>_.
     let c1lvl = u32 (pt_level pt); c2lvl = u32 level; c1depth = u32 (pt_noise pt); c2depth = u32 scaleDegree in
     if (cc_technique cc = FIXEDMANUAL \<or> cc_technique cc = FIXEDAUTO) \<and> c1depth = c2depth then
       (if c1lvl > c2lvl then Inr (True, pt_drop_raw level pt)
        else if c1lvl < c2lvl then Inr (False, pt)
        else Inr (True, pt))
     else if cc_technique cc = FIXEDAUTO then
       (if c1lvl = c2lvl then
          (if c1depth < c2depth then bindE (pt_raiseDegreeToLevel cc level pt) (\<lambda>pt. Inr (True, pt))
           else Inr (False, pt))
        else if c1lvl > c2lvl then
          bindE (if pt_noise pt = 2 then pt_rescale cc pt else pt_raiseDegreeToLevel cc level pt) (\<lambda>pt.
            Inr (True, if pt_level pt > level then pt_drop_raw level pt else pt))
        else Inr (False, pt))
     else if c1lvl > c2lvl then
       bindE (if c1depth = 2
              then (if c2depth = 2 then pt_adjust_2_2 cc level scaling_factor pt else pt_adjust_2_1 cc level scaling_factor pt)
              else (if c2depth = 2 then pt_adjust_1_2 cc level scaling_factor pt else pt_adjust_1_1 cc level scaling_factor pt))
         (\<lambda>pt. Inr (True, pt))
     else if c1lvl < c2lvl then Inr (False, pt)
     else if c1depth < c2depth then bindE (pt_multScalar cc 1 False pt) (\<lambda>pt. Inr (True, pt))
     else if c2depth < c1depth then Inr (False, pt)
     else Inr (True, pt))"

definition pt_dropToLevel :: "CkksContext \<Rightarrow> int \<Rightarrow> bool \<Rightarrow> Plaintext \<Rightarrow> cpp_error + Plaintext" where
  "pt_dropToLevel cc level skip_adjust pt =
     (if pt_level pt \<le> level then Inr pt
      else if \<not> skip_adjust \<and> flexible cc then
        bindE (guardE Assert_failed (pt_noise pt = 1 \<or> pt_noise pt = 2)) (\<lambda>_.
        bindE (SF_at cc level) (\<lambda>s.
        bindE (pt_adjustScaleAndLevel cc (pt_noise pt) level (if pt_noise pt = 1 then s else s * s) pt) (\<lambda>(ok, pt).
        bindE (guardE Assert_failed ok) (\<lambda>_. Inr pt))))
      else Inr (pt_drop_raw level pt))"

text \<open>\<open>this->adjustPlaintextToCiphertext(p, c)\<close>, for \<open>this\<close> another object than \<open>p\<close> and for
  \<open>p\<close> itself.\<close>

definition adjustPlaintextToCiphertext :: "CkksContext \<Rightarrow> Plaintext \<Rightarrow> Ciphertext \<Rightarrow> Plaintext
    \<Rightarrow> cpp_error + bool \<times> Plaintext" where
  "adjustPlaintextToCiphertext cc p c pt =
     (if auto_rescale cc
      then bindE (pt_copy p pt) (\<lambda>pt. pt_adjustScaleAndLevel cc (ct_noise c) (getLevel c) (ct_factor c) pt)
      else Inr (False, pt))"

definition adjustPlaintextInPlace :: "CkksContext \<Rightarrow> Ciphertext \<Rightarrow> Plaintext \<Rightarrow> cpp_error + bool \<times> Plaintext" where
  "adjustPlaintextInPlace cc c p =
     (if auto_rescale cc then pt_adjustScaleAndLevel cc (ct_noise c) (getLevel c) (ct_factor c) p
      else Inr (False, p))"

subsection \<open>Products and differences of plaintexts\<close>

partial_function (option) pt_multPt :: "CkksContext \<Rightarrow> Plaintext \<Rightarrow> bool \<Rightarrow> Plaintext
    \<Rightarrow> (cpp_error + Plaintext) option" where
  "pt_multPt cc b resc pt =
     (case (if auto_rescale cc \<and> pt_noise pt > 1 then pt_rescale cc pt else Inr pt) of
        Inl e \<Rightarrow> Some (Inl e)
      | Inr pt \<Rightarrow>
        if flexible cc \<and> pt_level b > pt_level pt then
          (case bindE (pt_copy b fresh_plaintext) (\<lambda>bq.
                bindE (if pt_noise bq = 2 then pt_rescale cc bq else Inr bq) (\<lambda>bq.
                if pt_level bq > pt_level pt then pt_dropToLevel cc (pt_level pt) False bq else Inr bq)) of
             Inl e \<Rightarrow> Some (Inl e)
           | Inr bq \<Rightarrow> pt_multPt cc bq resc pt)
        else Some (
          bindE (guardE Assert_failed (pt_noise pt < 2 \<and> pt_noise b < 2 \<and> pt_slots pt \<ge> pt_slots b)) (\<lambda>_.
          bindE (guardE Undefined_behaviour (pt_level pt \<le> pt_level b)) (\<lambda>_.
          bindE (pt_multMetadata cc pt b (pt\<lparr>pt_msg := msg_mult (pt_msg pt) (pt_msg b)\<rparr>)) (\<lambda>pt.
            if resc \<and> pt_noise pt > 1 then pt_rescale cc pt else Inr pt)))))"

definition pt_multPt3 :: "CkksContext \<Rightarrow> Plaintext \<Rightarrow> Plaintext \<Rightarrow> bool \<Rightarrow> Plaintext
    \<Rightarrow> (cpp_error + Plaintext) option" where
  "pt_multPt3 cc b1 b resc pt =
     (case bindE (pt_copy b1 pt) (\<lambda>pt. pt_dropToLevel cc (min (pt_level b) (pt_level b1)) False pt) of
        Inl e \<Rightarrow> Some (Inl e)
      | Inr pt \<Rightarrow> map_option (\<lambda>r. bindE r (\<lambda>pt. if resc \<and> pt_noise pt > 1 then pt_rescale cc pt else Inr pt))
          (pt_multPt cc b resc pt))"

definition pt_subPt :: "CkksContext \<Rightarrow> Plaintext \<Rightarrow> Plaintext \<Rightarrow> cpp_error + Plaintext" where
  "pt_subPt cc c pt =
     bindE (guardE Assert_failed (pt_noise pt = pt_noise c \<and> pt_slots pt \<ge> pt_slots c \<and> pt_level pt \<le> pt_level c)) (\<lambda>_.
       pt_addMetadata cc pt c (pt\<lparr>pt_msg := msg_sub (pt_msg pt) (pt_msg c)\<rparr>))"

section \<open>Adjusting a well-scaled plaintext\<close>

definition pt_ok :: "CkksContext \<Rightarrow> Plaintext \<Rightarrow> bool" where
  "pt_ok cc pt \<longleftrightarrow> 0 \<le> pt_level pt \<and> pt_level pt \<le> cc_L cc
     \<and> (pt_noise pt = 1 \<or> pt_noise pt = 2) \<and> pt_factor pt = scale_of cc (pt_noise pt) (pt_level pt)"

definition pt_decode :: "Plaintext \<Rightarrow> msg" where
  "pt_decode pt = (\<lambda>j. pt_msg pt j / of_real (pt_factor pt))"

definition pt_adjusted :: "CkksContext \<Rightarrow> int \<Rightarrow> int \<Rightarrow> Plaintext \<Rightarrow> Plaintext \<Rightarrow> bool" where
  "pt_adjusted cc noise level pt pt' \<longleftrightarrow> pt_ok cc pt' \<and> pt_noise pt' = noise \<and> pt_level pt' = level
     \<and> pt_slots pt' = pt_slots pt \<and> pt_up pt' = pt_up pt \<and> pt_decode pt' = pt_decode pt"

lemma pt_drop_raw_fields [simp]:
  "pt_noise (pt_drop_raw l pt) = pt_noise pt" "pt_factor (pt_drop_raw l pt) = pt_factor pt"
  "pt_msg (pt_drop_raw l pt) = pt_msg pt" "pt_slots (pt_drop_raw l pt) = pt_slots pt"
  "pt_up (pt_drop_raw l pt) = pt_up pt" "pt_level (pt_drop_raw l pt) = min l (pt_level pt)"
  by (auto simp: pt_drop_raw_def)

lemma pt_rescale_step:
  assumes "tables_ok cc" and "1 \<le> pt_level pt" and "pt_level pt \<le> cc_L cc" and "2 \<le> pt_noise pt"
  shows "pt_rescale cc pt = Inr (pt\<lparr>pt_msg := msg_scale (1 / real (cc_prime cc ! nat (pt_level pt))) (pt_msg pt),
    pt_level := pt_level pt - 1, pt_factor := pt_factor pt / mr cc (pt_level pt), pt_noise := pt_noise pt - 1\<rparr>)"
  using assms tables_length [OF assms(1), of "pt_level pt"]
  by (simp add: pt_rescale_def pt_rescale_poly_def)

lemma pt_multScalar_step:
  assumes "tables_ok cc" and "0 \<le> pt_level pt" and "pt_level pt \<le> cc_L cc"
  shows "pt_multScalar cc c False pt = Inr (pt\<lparr>pt_msg := msg_scale (c * sf cc (pt_level pt)) (pt_msg pt),
    pt_noise := pt_noise pt + 1, pt_factor := pt_factor pt * sf cc (pt_level pt)\<rparr>)"
  using assms tables_length [OF assms(1), of "pt_level pt"]
  by (simp add: pt_multScalar_def Let_def)

lemma pt_decode_scaled:
  assumes "a / f' = 1 / f" and "pt_factor pt = f" and "pt_factor pt' = f'"
    and "\<And>j. pt_msg pt' j = of_real a * pt_msg pt j"
  shows "pt_decode pt' = pt_decode pt"
proof -
  have "of_real a / of_real f' = (1 / of_real f :: complex)" by (metis assms(1) of_real_1 of_real_divide)
  then show ?thesis
    using assms(2-4) by (simp add: pt_decode_def fun_eq_iff) (metis mult.commute mult_1 times_divide_eq_left)
qed

lemma near_refl: "near x x"
  by (simp add: near_def)

lemma pt_adjust_2_2_ok:
  assumes t: "tables_ok cc" and e: "exact_primes cc" and c: "pt_ok cc pt" "pt_noise pt = 2"
    and l: "0 \<le> level" "level < pt_level pt"
  shows "\<exists>pt'. pt_adjust_2_2 cc level (sfb cc level) pt = Inr pt' \<and> pt_adjusted cc 2 level pt pt'"
proof -
  let ?l = "pt_level pt"
  have lv: "0 \<le> ?l" "1 \<le> ?l" "?l \<le> cc_L cc" "level \<le> cc_L cc" and f: "pt_factor pt = sfb cc ?l"
    using c l by (auto simp: pt_ok_def scale_of_def)
  note tl = tables_length [OF t lv(1,3)]
  note pos = tables_pos [OF t lv(1,3)] and posl = tables_pos [OF t l(1) lv(4)]
  define k where "k = sfb cc level / sfb cc ?l * mr cc ?l / sf cc ?l"
  define pt1 where "pt1 = pt\<lparr>pt_msg := msg_scale (k * sf cc ?l) (pt_msg pt), pt_noise := 3,
    pt_factor := sfb cc ?l * sf cc ?l\<rparr>"
  define pt2 where "pt2 = pt1\<lparr>pt_msg := msg_scale (1 / real (cc_prime cc ! nat ?l)) (pt_msg pt1), pt_level := ?l - 1,
    pt_factor := sfb cc ?l * sf cc ?l / mr cc ?l, pt_noise := 2\<rparr>"
  define pt3 where "pt3 = pt2\<lparr>pt_level := level\<rparr>"
  have r1: "pt_multScalar cc k False pt = Inr pt1"
    using pt_multScalar_step [OF t lv(1,3), of k] c(2) f by (simp add: pt1_def)
  have r2: "pt_rescale cc pt1 = Inr pt2"
    using pt_rescale_step [OF t, of pt1] lv by (simp add: pt1_def pt2_def)
  have d: "(if pt_level pt2 > level then pt_drop_raw level pt2 else pt2) = pt3"
    using l by (auto simp: pt3_def pt2_def pt1_def pt_drop_raw_def)
  have f3: "pt_factor pt3 * sfb cc level / sfb cc ?l * mr cc ?l / sf cc ?l = sfb cc level"
    using pos by (simp add: pt3_def pt2_def)
  have "pt_adjust_2_2 cc level (sfb cc level) pt = Inr (pt3\<lparr>pt_factor := sfb cc level\<rparr>)"
    by (simp only: pt_adjust_2_2_def Let_def f tl bindE.simps k_def [symmetric] r1 r2 d f3 near_refl guardE_simps)
  moreover have "pt_decode (pt3\<lparr>pt_factor := sfb cc level\<rparr>) = pt_decode pt"
  proof (rule pt_decode_scaled [OF _ f])
    show "pt_msg (pt3\<lparr>pt_factor := sfb cc level\<rparr>) j
        = of_real (1 / real (cc_prime cc ! nat ?l) * (k * sf cc ?l)) * pt_msg pt j" for j
      by (simp add: msg_scale_def pt3_def pt2_def pt1_def)
    have "mr cc ?l = real (cc_prime cc ! nat ?l)" using e lv by (simp add: exact_primes_def)
    then show "1 / real (cc_prime cc ! nat ?l) * (k * sf cc ?l) / sfb cc level = 1 / sfb cc ?l"
      using pos posl lv l by (simp add: k_def field_simps)
  qed simp
  ultimately show ?thesis
    using lv l c by (auto simp: pt_adjusted_def pt_ok_def scale_of_def pt3_def pt2_def pt1_def)
qed

lemma pt_adjust_1_2_ok:
  assumes t: "tables_ok cc" and c: "pt_ok cc pt" "pt_noise pt = 1"
    and l: "0 \<le> level" "level < pt_level pt"
  shows "\<exists>pt'. pt_adjust_1_2 cc level (sfb cc level) pt = Inr pt' \<and> pt_adjusted cc 2 level pt pt'"
proof -
  let ?l = "pt_level pt"
  have lv: "0 \<le> ?l" "?l \<le> cc_L cc" "level \<le> cc_L cc" and f: "pt_factor pt = sf cc ?l"
    using c l by (auto simp: pt_ok_def scale_of_def)
  note tl = tables_length [OF t lv(1,2)]
  note pos = tables_pos [OF t lv(1,2)] and posl = tables_pos [OF t l(1) lv(3)]
  define k where "k = sfb cc level / sf cc ?l / sf cc ?l"
  define pt1 where "pt1 = pt\<lparr>pt_msg := msg_scale (k * sf cc ?l) (pt_msg pt), pt_noise := 2,
    pt_factor := sf cc ?l * sf cc ?l\<rparr>"
  define pt2 where "pt2 = pt_drop_raw level pt1"
  have r1: "pt_multScalar cc k False pt = Inr pt1"
    using pt_multScalar_step [OF t lv(1,2), of k] c(2) f by (simp add: pt1_def)
  have f2: "pt_factor pt2 * sfb cc level / sf cc ?l / sf cc ?l = sfb cc level"
    using pos(1) by (simp add: pt2_def pt1_def)
  have "pt_adjust_1_2 cc level (sfb cc level) pt = Inr (pt2\<lparr>pt_factor := sfb cc level\<rparr>)"
    by (simp only: pt_adjust_1_2_def Let_def f tl bindE.simps k_def [symmetric] r1 pt2_def [symmetric] f2 near_refl guardE_simps)
  moreover have "pt_decode (pt2\<lparr>pt_factor := sfb cc level\<rparr>) = pt_decode pt"
  proof (rule pt_decode_scaled [OF _ f])
    show "pt_msg (pt2\<lparr>pt_factor := sfb cc level\<rparr>) j = of_real (k * sf cc ?l) * pt_msg pt j" for j
      by (simp add: msg_scale_def pt2_def pt1_def)
    show "k * sf cc ?l / sfb cc level = 1 / sf cc ?l"
      using pos(1) posl(5) by (simp add: k_def)
  qed simp
  ultimately show ?thesis
    using lv l c by (auto simp: pt_adjusted_def pt_ok_def scale_of_def pt2_def pt1_def)
qed

lemma pt_adjust_1_1_ok:
  assumes t: "tables_ok cc" and e: "exact_primes cc" and c: "pt_ok cc pt" "pt_noise pt = 1"
    and l: "0 \<le> level" "level < pt_level pt"
  shows "\<exists>pt'. pt_adjust_1_1 cc level (sf cc level) pt = Inr pt' \<and> pt_adjusted cc 1 level pt pt'"
proof -
  let ?l = "pt_level pt" and ?m = "level + 1"
  have lv: "0 \<le> ?l" "?l \<le> cc_L cc" "level \<le> cc_L cc" "0 \<le> ?m" "?m \<le> cc_L cc" "1 \<le> ?m"
    and f: "pt_factor pt = sf cc ?l"
    using c l by (auto simp: pt_ok_def scale_of_def)
  note tl = tables_length [OF t lv(1,2)] tables_length(2) [OF t lv(4,5)]
  note pos = tables_pos [OF t lv(1,2)] and posm = tables_pos [OF t lv(4,5)] and posl = tables_pos [OF t l(1) lv(3)]
  have step: "sfb cc ?m / mr cc ?m = sf cc level" using tables_step(2) [OF t lv(6,5)] by simp
  let ?q = "real (cc_prime cc ! nat ?m)"
  define k where "k = sfb cc ?m / sf cc ?l / sf cc ?l"
  define pt1 where "pt1 = pt\<lparr>pt_msg := msg_scale (k * sf cc ?l) (pt_msg pt), pt_noise := 2,
    pt_factor := sf cc ?l * sf cc ?l\<rparr>"
  define pt2 where "pt2 = pt1\<lparr>pt_level := ?m\<rparr>"
  define pt3 where "pt3 = pt2\<lparr>pt_msg := msg_scale (1 / ?q) (pt_msg pt2), pt_level := level,
    pt_factor := sf cc ?l * sf cc ?l / mr cc ?m, pt_noise := 1\<rparr>"
  have r1: "pt_multScalar cc k False pt = Inr pt1"
    using pt_multScalar_step [OF t lv(1,2), of k] c(2) f by (simp add: pt1_def)
  have d: "(if pt_level pt - 1 > level then pt_drop_raw ?m pt1 else pt1) = pt2"
    using l by (cases pt) (auto simp: pt2_def pt1_def pt_drop_raw_def)
  have r3: "pt_rescale cc pt2 = Inr pt3"
    using pt_rescale_step [OF t, of pt2] lv by (simp add: pt3_def pt2_def pt1_def)
  have f3: "pt_factor pt3 * sfb cc ?m / sf cc ?l / sf cc ?l = sf cc level"
    using pos(1) step by (simp add: pt3_def)
  have "pt_adjust_1_1 cc level (sf cc level) pt = Inr (pt3\<lparr>pt_factor := sf cc level\<rparr>)"
    by (simp only: pt_adjust_1_1_def Let_def f tl bindE.simps k_def [symmetric] r1 d r3 f3 near_refl guardE_simps)
  moreover have "pt_decode (pt3\<lparr>pt_factor := sf cc level\<rparr>) = pt_decode pt"
  proof (rule pt_decode_scaled [OF _ f])
    show "pt_msg (pt3\<lparr>pt_factor := sf cc level\<rparr>) j = of_real (1 / ?q * (k * sf cc ?l)) * pt_msg pt j" for j
      by (simp add: msg_scale_def pt3_def pt2_def pt1_def)
    have "mr cc ?m = ?q" using e lv by (simp add: exact_primes_def)
    then show "1 / ?q * (k * sf cc ?l) / sf cc level = 1 / sf cc ?l"
      using pos(1) posm posl(1) step by (simp add: k_def field_simps)
  qed simp
  ultimately show ?thesis
    using lv l c by (auto simp: pt_adjusted_def pt_ok_def scale_of_def pt3_def pt2_def pt1_def)
qed

lemma pt_rescale_degree2:
  assumes t: "tables_ok cc" and e: "exact_primes cc" and c: "pt_ok cc pt" "pt_noise pt = 2" and l: "1 \<le> pt_level pt"
  shows "\<exists>pt'. pt_rescale cc pt = Inr pt' \<and> pt_adjusted cc 1 (pt_level pt - 1) pt pt'"
proof -
  let ?l = "pt_level pt"
  have lv: "0 \<le> ?l" "?l \<le> cc_L cc" and f: "pt_factor pt = sfb cc ?l"
    using c by (auto simp: pt_ok_def scale_of_def)
  note pos = tables_pos [OF t lv]
  define pt1 where "pt1 = pt\<lparr>pt_msg := msg_scale (1 / real (cc_prime cc ! nat ?l)) (pt_msg pt),
    pt_level := ?l - 1, pt_factor := sf cc (?l - 1), pt_noise := 1\<rparr>"
  have "pt_rescale cc pt = Inr pt1"
    using pt_rescale_step [OF t l lv(2)] tables_step(2) [OF t l lv(2)] c(2) f by (simp add: pt1_def)
  moreover have "pt_decode pt1 = pt_decode pt"
  proof (rule pt_decode_scaled [OF _ f])
    show "pt_msg pt1 j = of_real (1 / real (cc_prime cc ! nat ?l)) * pt_msg pt j" for j
      by (simp add: msg_scale_def pt1_def)
    have "mr cc ?l = real (cc_prime cc ! nat ?l)" using e lv by (simp add: exact_primes_def)
    then show "1 / real (cc_prime cc ! nat ?l) / sf cc (?l - 1) = 1 / sfb cc ?l"
      using pos tables_step(1) [OF t l lv(2)] by (metis divide_divide_eq_left mult.commute)
  qed (simp add: pt1_def)
  ultimately show ?thesis using lv l c by (auto simp: pt_adjusted_def pt_ok_def scale_of_def pt1_def)
qed

lemma pt_adjust_2_1_ok:
  assumes t: "tables_ok cc" and e: "exact_primes cc" and c: "pt_ok cc pt" "pt_noise pt = 2"
    and l: "0 \<le> level" "level < pt_level pt"
  shows "\<exists>pt'. pt_adjust_2_1 cc level (sf cc level) pt = Inr pt' \<and> pt_adjusted cc 1 level pt pt'"
proof (cases "pt_level pt - 1 = level")
  case True
  then show ?thesis using pt_rescale_degree2 [OF t e c] l by (simp add: pt_adjust_2_1_def Let_def)
next
  case False
  let ?l = "pt_level pt" and ?m = "level + 1"
  have lv: "0 \<le> ?l" "?l \<le> cc_L cc" "level \<le> cc_L cc" "0 \<le> ?m" "?m \<le> cc_L cc" "1 \<le> ?m" "1 \<le> ?l" "?m \<le> ?l - 1"
    and f: "pt_factor pt = sfb cc ?l"
    using c l False by (auto simp: pt_ok_def scale_of_def)
  note tl = tables_length [OF t lv(1,2)] tables_length(2) [OF t lv(4,5)]
  note pos = tables_pos [OF t lv(1,2)] and posm = tables_pos [OF t lv(4,5)] and posl = tables_pos [OF t l(1) lv(3)]
  have step: "sfb cc ?m / mr cc ?m = sf cc level" using tables_step(2) [OF t lv(6,5)] by simp
  let ?q = "real (cc_prime cc ! nat ?m)" and ?p = "real (cc_prime cc ! nat ?l)"
  define k where "k = sfb cc ?m / sfb cc ?l * mr cc ?l / sf cc ?l"
  define pt1 where "pt1 = pt\<lparr>pt_msg := msg_scale (k * sf cc ?l) (pt_msg pt), pt_noise := 3,
    pt_factor := sfb cc ?l * sf cc ?l\<rparr>"
  define pt2 where "pt2 = pt1\<lparr>pt_msg := msg_scale (1 / ?p) (pt_msg pt1), pt_level := ?l - 1,
    pt_factor := sfb cc ?l * sf cc ?l / mr cc ?l, pt_noise := 2\<rparr>"
  define pt3 where "pt3 = pt2\<lparr>pt_level := ?m\<rparr>"
  define pt4 where "pt4 = pt3\<lparr>pt_msg := msg_scale (1 / ?q) (pt_msg pt3), pt_level := level,
    pt_factor := sfb cc ?l * sf cc ?l / mr cc ?l / mr cc ?m, pt_noise := 1\<rparr>"
  have r1: "pt_multScalar cc k False pt = Inr pt1"
    using pt_multScalar_step [OF t lv(1,2), of k] c(2) f by (simp add: pt1_def)
  have r2: "pt_rescale cc pt1 = Inr pt2"
    using pt_rescale_step [OF t, of pt1] lv by (simp add: pt1_def pt2_def)
  have d: "(if pt_level pt2 - 1 > level then pt_drop_raw ?m pt2 else pt2) = pt3"
    using lv by (auto simp: pt3_def pt2_def pt1_def pt_drop_raw_def)
  have r3: "pt_rescale cc pt3 = Inr pt4"
    using pt_rescale_step [OF t, of pt3] lv by (simp add: pt4_def pt3_def pt2_def pt1_def)
  have f4: "pt_factor pt4 * sfb cc ?m / sfb cc ?l * mr cc ?l / sf cc ?l = sf cc level"
    using pos step by (simp add: pt4_def)
  have "pt_adjust_2_1 cc level (sf cc level) pt = Inr (pt4\<lparr>pt_factor := sf cc level\<rparr>)"
    using False by (simp only: pt_adjust_2_1_def Let_def f tl bindE.simps k_def [symmetric] r1 r2 d r3 f4 near_refl
      guardE_simps if_False)
  moreover have "pt_decode (pt4\<lparr>pt_factor := sf cc level\<rparr>) = pt_decode pt"
  proof (rule pt_decode_scaled [OF _ f])
    show "pt_msg (pt4\<lparr>pt_factor := sf cc level\<rparr>) j = of_real (1 / ?q * (1 / ?p * (k * sf cc ?l))) * pt_msg pt j" for j
      by (simp add: msg_scale_def pt4_def pt3_def pt2_def pt1_def)
    have "mr cc ?m = ?q" "mr cc ?l = ?p" using e lv by (auto simp: exact_primes_def)
    then show "1 / ?q * (1 / ?p * (k * sf cc ?l)) / sf cc level = 1 / sfb cc ?l"
      using pos posm posl(1) step by (simp add: k_def field_simps)
  qed simp
  ultimately show ?thesis
    using lv l c by (auto simp: pt_adjusted_def pt_ok_def scale_of_def pt4_def pt3_def pt2_def pt1_def)
qed

lemma pt_adjusted_refl: "pt_ok cc pt \<Longrightarrow> pt_adjusted cc (pt_noise pt) (pt_level pt) pt pt"
  by (simp add: pt_adjusted_def)

lemma pt_multScalar_raises:
  assumes t: "tables_ok cc" and c: "pt_ok cc pt" "pt_noise pt = 1"
  shows "\<exists>pt'. pt_multScalar cc 1 False pt = Inr pt' \<and> pt_adjusted cc 2 (pt_level pt) pt pt'"
proof -
  let ?l = "pt_level pt"
  have lv: "0 \<le> ?l" "?l \<le> cc_L cc" and f: "pt_factor pt = sf cc ?l" using c by (auto simp: pt_ok_def scale_of_def)
  note pos = tables_pos [OF t lv]
  define pt1 where "pt1 = pt\<lparr>pt_msg := msg_scale (1 * sf cc ?l) (pt_msg pt), pt_noise := 2, pt_factor := sfb cc ?l\<rparr>"
  have "pt_multScalar cc 1 False pt = Inr pt1"
    using pt_multScalar_step [OF t lv, of 1] c(2) f pos(2) by (simp add: pt1_def)
  moreover have "pt_decode pt1 = pt_decode pt"
  proof (rule pt_decode_scaled [OF _ f])
    show "pt_msg pt1 j = of_real (sf cc ?l) * pt_msg pt j" for j by (simp add: msg_scale_def pt1_def)
  qed (use pos in \<open>simp_all add: pt1_def\<close>)
  ultimately show ?thesis using lv c by (auto simp: pt_adjusted_def pt_ok_def scale_of_def pt1_def)
qed

lemma pt_adjust_four_ok:
  assumes t: "tables_ok cc" and e: "exact_primes cc" and c: "pt_ok cc pt"
    and g: "target_ok cc n level" and l: "level < pt_level pt"
  shows "\<exists>pt'. (if pt_noise pt = 2
      then (if n = 2 then pt_adjust_2_2 cc level (scale_of cc n level) pt else pt_adjust_2_1 cc level (scale_of cc n level) pt)
      else (if n = 2 then pt_adjust_1_2 cc level (scale_of cc n level) pt else pt_adjust_1_1 cc level (scale_of cc n level) pt))
     = Inr pt' \<and> pt_adjusted cc n level pt pt'"
proof -
  have n: "n = 1 \<or> n = 2" "0 \<le> level" and d: "pt_noise pt = 1 \<or> pt_noise pt = 2"
    using g c by (auto simp: target_ok_def pt_ok_def)
  then show ?thesis
    using pt_adjust_2_2_ok [OF t e c _ n(2) l] pt_adjust_2_1_ok [OF t e c _ n(2) l]
      pt_adjust_1_2_ok [OF t c _ n(2) l] pt_adjust_1_1_ok [OF t e c _ n(2) l]
    by (auto simp: scale_of_def)
qed

definition pt_adjustable :: "Plaintext \<Rightarrow> int \<Rightarrow> int \<Rightarrow> bool" where
  "pt_adjustable pt noise level \<longleftrightarrow> level < pt_level pt \<or> level = pt_level pt \<and> pt_noise pt \<le> noise"

lemma pt_head_assert:
  assumes "tables_ok cc" and "target_ok cc n l"
  shows "(if n = 2 then bindE (SF_at cc (l - 1)) (\<lambda>s. bindE (MR_at cc l) (\<lambda>q. bindE (SFBig_at cc l) (\<lambda>b.
      guardE Assert_failed (s * q = b)))) else Inr ()) = Inr ()"
  using assms tables_length [OF assms(1), of l] tables_length(1) [OF assms(1), of "l - 1"] tables_step(1) [OF assms(1), of l]
  by (auto simp: target_ok_def)

lemma pt_adjust_flexible:
  assumes t: "tables_ok cc" and e: "exact_primes cc" and f: "flexible cc" and c: "pt_ok cc pt"
    and g: "target_ok cc n level"
  shows "\<exists>pt'. pt_adjustScaleAndLevel cc n level (scale_of cc n level) pt = Inr (pt_adjustable pt n level, pt')
    \<and> (if pt_adjustable pt n level then pt_adjusted cc n level pt pt' else pt' = pt)"
proof -
  have lv: "u32 (pt_level pt) = pt_level pt" "u32 level = level" "u32 (pt_noise pt) = pt_noise pt" "u32 n = n"
    using c g level_u32 [OF t] by (auto simp: pt_ok_def target_ok_def u32_def)
  have nf: "cc_technique cc \<noteq> FIXEDMANUAL" "cc_technique cc \<noteq> FIXEDAUTO" using f by (auto simp: flexible_def)
  note d = pt_adjustScaleAndLevel_def pt_head_assert [OF t g] Let_def nf lv bindE.simps simp_thms if_True if_False
  consider "level < pt_level pt" | "pt_level pt < level" | "level = pt_level pt" "pt_noise pt < n"
    | "level = pt_level pt" "n \<le> pt_noise pt" by linarith
  then show ?thesis
  proof cases
    case 1
    obtain pt' where r: "(if pt_noise pt = 2
        then (if n = 2 then pt_adjust_2_2 cc level (scale_of cc n level) pt else pt_adjust_2_1 cc level (scale_of cc n level) pt)
        else (if n = 2 then pt_adjust_1_2 cc level (scale_of cc n level) pt else pt_adjust_1_1 cc level (scale_of cc n level) pt))
        = Inr pt'" and a: "pt_adjusted cc n level pt pt'"
      using pt_adjust_four_ok [OF t e c g 1] by blast
    have "pt_adjustScaleAndLevel cc n level (scale_of cc n level) pt = Inr (True, pt')"
      using 1 by (simp only: d r)
    then show ?thesis using a 1 by (simp add: pt_adjustable_def)
  next
    case 2
    then have "\<not> level < pt_level pt" by simp
    then have "pt_adjustScaleAndLevel cc n level (scale_of cc n level) pt = Inr (False, pt)" using 2 by (simp only: d)
    then show ?thesis using 2 by (simp add: pt_adjustable_def)
  next
    case 3
    then have "pt_noise pt = 1" "n = 2" using g c by (auto simp: target_ok_def pt_ok_def)
    then obtain pt' where "pt_multScalar cc 1 False pt = Inr pt'" and a: "pt_adjusted cc 2 (pt_level pt) pt pt'"
      using pt_multScalar_raises [OF t c] by blast
    then have "pt_adjustScaleAndLevel cc n level (scale_of cc n level) pt = Inr (True, pt')"
      using 3(1) [symmetric] 3(2) by (simp only: d less_irrefl)
    then show ?thesis using a 3 \<open>n = 2\<close> by (simp add: pt_adjustable_def)
  next
    case 4
    then have "\<not> pt_noise pt < n" by simp
    then have "pt_adjustScaleAndLevel cc n level (scale_of cc n level) pt = Inr (\<not> n < pt_noise pt, pt)"
      using 4(1) [symmetric] by (cases "n < pt_noise pt") (simp_all only: d less_irrefl)
    then show ?thesis using 4 pt_adjusted_refl [OF c] by (auto simp: pt_adjustable_def not_less)
  qed
qed

text \<open>\<open>adjustPlaintextToCiphertext\<close> on a copy of a well-scaled plaintext succeeds exactly when the
  plaintext has more towers than the ciphertext, or as many and a noise degree not above it, and
  then gives a plaintext with the ciphertext's level, degree and scale that decodes to the same
  values.\<close>

theorem adjustPlaintextToCiphertext_correct:
  assumes "tables_ok cc" and "exact_primes cc" and "flexible cc" and "pt_ok cc p" and "ct_ok cc ct"
    and "ct_noise ct = 2 \<longrightarrow> 1 \<le> ct_level ct"
  shows "\<exists>pt'. adjustPlaintextToCiphertext cc p ct fresh_plaintext = Inr (pt_adjustable p (ct_noise ct) (ct_level ct), pt')
    \<and> (if pt_adjustable p (ct_noise ct) (ct_level ct) then pt_adjusted cc (ct_noise ct) (ct_level ct) p pt' else pt_ok cc pt')"
proof -
  have "pt_copy p fresh_plaintext = Inr p"
    by (simp add: pt_copy_def fresh_plaintext_def pt_copyMetadata_def)
  moreover have "ct_factor ct = scale_of cc (ct_noise ct) (ct_level ct)" "getLevel ct = ct_level ct"
    using assms(5) by (auto simp: ct_ok_def)
  moreover have "auto_rescale cc" using assms(3) by (auto simp: auto_rescale_def flexible_def)
  ultimately show ?thesis
    using pt_adjust_flexible [OF assms(1-4) target_ok_ct [OF assms(5,6)]] assms(4)
    by (auto simp: adjustPlaintextToCiphertext_def)
qed

definition demo_pt :: "int \<Rightarrow> int \<Rightarrow> msg \<Rightarrow> Plaintext" where
  "demo_pt noise level m = fresh_plaintext\<lparr>pt_level := level, pt_noise := noise, pt_slots := 8,
     pt_factor := scale_of demo_cc noise level, pt_msg := m\<rparr>"

lemma demo_pt_ok: "n = 1 \<or> n = 2 \<Longrightarrow> 0 \<le> l \<Longrightarrow> l \<le> 2 \<Longrightarrow> pt_ok demo_cc (demo_pt n l m)"
  by (auto simp: pt_ok_def demo_pt_def fresh_plaintext_def demo_cc_def)

theorem adjustPlaintextToCiphertext_correct_witness:
  "\<exists>pt'. adjustPlaintextToCiphertext demo_cc (demo_pt 1 2 (\<lambda>j. of_nat j)) (demo_ct 2 1 (\<lambda>j. 1)) fresh_plaintext = Inr (True, pt')
    \<and> pt_adjusted demo_cc 2 1 (demo_pt 1 2 (\<lambda>j. of_nat j)) pt'"
  using adjustPlaintextToCiphertext_correct [OF demo_ok, of "demo_pt 1 2 (\<lambda>j. of_nat j)" "demo_ct 2 1 (\<lambda>j. 1)"]
    demo_pt_ok [of 1 2] demo_ct_ok [of 2 1]
  by (simp add: pt_adjustable_def demo_pt_def demo_ct_def)

end
