(* ===== verification/CkksArith.thy ===== *)
theory CkksArith
  imports CkksPlain
begin

text \<open>
  The arithmetic of ciphertexts (\<open>src/src/CKKS/Ciphertext.cpp\<close>): additions and subtractions of
  ciphertexts and plaintexts, products, squares, scalars, monomials and their variants that may
  change the second operand. An operation that calls itself on an adjusted copy of its operand is a
  \<open>partial_function\<close>, so that not returning would be \<open>None\<close>; a variant that changes its operand
  returns both objects. A method called on \<open>*this\<close> as its own operand has a definition of its own
  where that matters.

  The operations on single polynomials work on the limbs of \<open>Q\<close>; \<open>sub\<close>, the products with plaintexts
  and the scalar operations leave the special limbs of an extended operand as they are, so the
  message of theory CkksState is meant for operands that are not extended, except in \<open>add\<close>, \<open>extend\<close>
  and \<open>modDown\<close>.
\<close>

section \<open>Addition and subtraction\<close>

text \<open>\<open>Ciphertext b_(cc_); b_.copy(b); b_.adjustForAddOrSub(*this)\<close>.\<close>

definition adjusted_copy :: "CkksContext \<Rightarrow> Ciphertext \<Rightarrow> Ciphertext \<Rightarrow> cpp_error + bool \<times> Ciphertext" where
  "adjusted_copy cc b ct = bindE (copy_ct cc b fresh_ciphertext) (\<lambda>bq. adjustForAddOrSub cc ct bq)"

definition extended2 :: "Ciphertext \<Rightarrow> Ciphertext \<Rightarrow> bool" where
  "extended2 b ct \<longleftrightarrow> ct_up0 ct \<or> ct_up1 ct \<or> ct_up0 b \<or> ct_up1 b"

definition same_shape :: "Ciphertext \<Rightarrow> Ciphertext \<Rightarrow> bool" where
  "same_shape b ct \<longleftrightarrow> getLevel ct = getLevel b \<and> ct_noise ct = ct_noise b"

text \<open>The checks at the head of \<open>add\<close> and \<open>sub\<close>, up to the first adjustment.\<close>

definition align_this :: "CkksContext \<Rightarrow> Ciphertext \<Rightarrow> Ciphertext \<Rightarrow> cpp_error + bool \<times> Ciphertext" where
  "align_this cc b ct =
     bindE (guardE Assert_failed (ct_keyID ct = ct_keyID b)) (\<lambda>_.
     if auto_rescale cc
     then bindE (guardE Assert_failed (extended2 b ct \<longrightarrow> same_shape b ct)) (\<lambda>_. adjustForAddOrSub cc b ct)
     else Inr (True, ct))"

definition add_tail :: "CkksContext \<Rightarrow> Ciphertext \<Rightarrow> Ciphertext \<Rightarrow> cpp_error + Ciphertext" where
  "add_tail cc b ct =
     bindE (if flexible cc then bindE (guardE Assert_failed (getLevel ct = getLevel b)) (\<lambda>_. Inr ct)
            else if getLevel ct > getLevel b then
              bindE (guardE Assert_failed (extended2 b ct \<longrightarrow> same_shape b ct)) (\<lambda>_.
              bindE (guardE Assert_failed (getLevel ct \<le> getLevel b)) (\<lambda>_. dropToLevel cc (getLevel b) False ct))
            else Inr ct) (\<lambda>ct.
     bindE (guardE Assert_failed (ct_level ct \<le> ct_level b)) (\<lambda>_.
     let ct = ct\<lparr>ct_msg := msg_add (ct_msg ct) (ct_msg b), ct_up0 := ct_up0 ct \<or> ct_up0 b, ct_up1 := ct_up1 ct \<or> ct_up1 b\<rparr>
     in addMetadata cc ct b ct))"

partial_function (option) ct_add :: "CkksContext \<Rightarrow> Ciphertext \<Rightarrow> Ciphertext \<Rightarrow> (cpp_error + Ciphertext) option" where
  "ct_add cc b ct =
     (case bindE (ensure_ct cc ct) (align_this cc b) of
        Inl e \<Rightarrow> Some (Inl e)
      | Inr r \<Rightarrow>
        if fst r then Some (add_tail cc b (snd r))
        else (case adjusted_copy cc b (snd r) of
                Inl e \<Rightarrow> Some (Inl e)
              | Inr q \<Rightarrow> if fst q then ct_add cc (snd q) (snd r) else Some (Inl Runtime_error)))"

definition ct_add_self :: "CkksContext \<Rightarrow> Ciphertext \<Rightarrow> (cpp_error + Ciphertext) option" where
  "ct_add_self cc ct = (case ensure_ct cc ct of Inl e \<Rightarrow> Some (Inl e) | Inr ct \<Rightarrow> ct_add cc ct ct)"

text \<open>The result of a \<open>Mutable\<close> operation: the receiver and the operand.\<close>

definition with_operand :: "'b \<Rightarrow> (cpp_error + 'a) option \<Rightarrow> (cpp_error + 'a \<times> 'b) option" where
  "with_operand b r = map_option (map_sum id (\<lambda>ct. (ct, b))) r"

definition addMutable_tail :: "CkksContext \<Rightarrow> Ciphertext \<Rightarrow> Ciphertext \<Rightarrow> cpp_error + Ciphertext" where
  "addMutable_tail cc b ct =
     (if flexible cc then bindE (guardE Assert_failed (getLevel ct = getLevel b)) (\<lambda>_. Inr ct)
      else if getLevel ct > getLevel b then
        bindE (guardE Assert_failed (extended2 b ct \<longrightarrow> same_shape b ct)) (\<lambda>_.
        bindE (guardE Assert_failed (getLevel ct \<le> getLevel b)) (\<lambda>_. dropToLevel cc (getLevel b) False ct))
      else Inr ct)"

definition addMutable :: "CkksContext \<Rightarrow> Ciphertext \<Rightarrow> Ciphertext \<Rightarrow> (cpp_error + Ciphertext \<times> Ciphertext) option" where
  "addMutable cc b ct =
     (case align_this cc b ct of
        Inl e \<Rightarrow> Some (Inl e)
      | Inr (ok, ct) \<Rightarrow>
        if ok
        then (case addMutable_tail cc b ct of Inl e \<Rightarrow> Some (Inl e) | Inr ct \<Rightarrow> with_operand b (ct_add cc b ct))
        else (case adjustForAddOrSub cc ct b of
                Inl e \<Rightarrow> Some (Inl e)
              | Inr (ok, b) \<Rightarrow> if ok then with_operand b (ct_add cc b ct) else Some (Inl Runtime_error)))"

definition sub_tail :: "CkksContext \<Rightarrow> Ciphertext \<Rightarrow> Ciphertext \<Rightarrow> cpp_error + Ciphertext" where
  "sub_tail cc b ct =
     bindE (if flexible cc then bindE (guardE Assert_failed (getLevel ct = getLevel b)) (\<lambda>_. Inr ct)
            else if getLevel ct > getLevel b then Inr (drop_raw (getLevel b) ct)
            else Inr ct) (\<lambda>ct.
     bindE (guardE Assert_failed (ct_level ct \<le> ct_level b)) (\<lambda>_.
     let ct = ct\<lparr>ct_msg := msg_sub (ct_msg ct) (ct_msg b)\<rparr>
     in addMetadata cc ct b ct))"

partial_function (option) ct_sub :: "CkksContext \<Rightarrow> Ciphertext \<Rightarrow> Ciphertext \<Rightarrow> (cpp_error + Ciphertext) option" where
  "ct_sub cc b ct =
     (case bindE (ensure_ct cc ct) (align_this cc b) of
        Inl e \<Rightarrow> Some (Inl e)
      | Inr r \<Rightarrow>
        if fst r then Some (sub_tail cc b (snd r))
        else (case adjusted_copy cc b (snd r) of
                Inl e \<Rightarrow> Some (Inl e)
              | Inr q \<Rightarrow> if fst q then ct_sub cc (snd q) (snd r) else Some (Inl Runtime_error)))"

definition subMutable :: "CkksContext \<Rightarrow> Ciphertext \<Rightarrow> Ciphertext \<Rightarrow> (cpp_error + Ciphertext \<times> Ciphertext) option" where
  "subMutable cc b ct =
     (case align_this cc b ct of
        Inl e \<Rightarrow> Some (Inl e)
      | Inr (ok, ct) \<Rightarrow>
        if ok
        then (if flexible cc
              then (if getLevel ct = getLevel b then with_operand b (ct_sub cc b ct) else Some (Inl Assert_failed))
              else with_operand b (ct_sub cc b (if getLevel ct > getLevel b then drop_raw (getLevel b) ct else ct)))
        else (case adjustForAddOrSub cc ct b of
                Inl e \<Rightarrow> Some (Inl e)
              | Inr (ok, b) \<Rightarrow> if ok then with_operand b (ct_sub cc b ct) else Some (Inl Runtime_error)))"

text \<open>The variants with a result of their own; the flag says which operands are the receiver.\<close>

datatype aliasing = Neither | First | Second | Both

definition ct_add3 :: "CkksContext \<Rightarrow> aliasing \<Rightarrow> Ciphertext \<Rightarrow> Ciphertext \<Rightarrow> Ciphertext \<Rightarrow> (cpp_error + Ciphertext) option" where
  "ct_add3 cc al b c ct =
     (case al of
        Both \<Rightarrow> ct_add_self cc ct
      | First \<Rightarrow> ct_add cc c ct
      | Second \<Rightarrow> ct_add cc b ct
      | Neither \<Rightarrow>
          (if getLevel b \<le> getLevel c
           then (case copy_ct cc b ct of Inl e \<Rightarrow> Some (Inl e) | Inr ct \<Rightarrow> ct_add cc c ct)
           else (case copy_ct cc c ct of Inl e \<Rightarrow> Some (Inl e) | Inr ct \<Rightarrow> ct_add cc b ct)))"

definition ct_sub3 :: "CkksContext \<Rightarrow> Ciphertext \<Rightarrow> Ciphertext \<Rightarrow> Ciphertext \<Rightarrow> (cpp_error + Ciphertext) option" where
  "ct_sub3 cc a b ct =
     (case bindE (guardE Assert_failed (getLevel a \<le> getLevel b)) (\<lambda>_. copy_ct cc a ct) of
        Inl e \<Rightarrow> Some (Inl e)
      | Inr ct \<Rightarrow> ct_sub cc b ct)"

section \<open>Plaintext operands\<close>

definition extendedPt :: "Plaintext \<Rightarrow> Ciphertext \<Rightarrow> bool" where
  "extendedPt b ct \<longleftrightarrow> ct_up0 ct \<or> ct_up1 ct \<or> pt_up b"

definition same_shapePt :: "Plaintext \<Rightarrow> Ciphertext \<Rightarrow> bool" where
  "same_shapePt b ct \<longleftrightarrow> getLevel ct = pt_level b \<and> ct_noise ct = pt_noise b"

text \<open>The head of \<open>addPt\<close> and \<open>subPt\<close>; the latter also asserts degree 1 for extended operands.\<close>

definition align_thisPt :: "CkksContext \<Rightarrow> bool \<Rightarrow> Plaintext \<Rightarrow> Ciphertext \<Rightarrow> cpp_error + bool \<times> Ciphertext" where
  "align_thisPt cc strict b ct =
     (if auto_rescale cc
      then bindE (guardE Assert_failed (extendedPt b ct \<longrightarrow> same_shapePt b ct \<and> (strict \<longrightarrow> ct_noise ct = 1))) (\<lambda>_.
           bindE (if pt_noise b = 1 \<and> ct_noise ct = 2 \<and> pt_level b = getLevel ct - 1 then rescaleInternal cc ct
                  else Inr ct) (\<lambda>ct. adjustCiphertextToPlaintext cc b ct))
      else Inr (True, ct))"

definition addPt_tail :: "CkksContext \<Rightarrow> Plaintext \<Rightarrow> Ciphertext \<Rightarrow> cpp_error + Ciphertext" where
  "addPt_tail cc b ct =
     bindE (guardE Assert_failed (ct_noise ct = pt_noise b)) (\<lambda>_.
     bindE (guardE Assert_failed (ct_level ct \<le> pt_level b)) (\<lambda>_.
     let ct = ct\<lparr>ct_msg := msg_add (ct_msg ct) (pt_msg b), ct_up0 := ct_up0 ct \<or> pt_up b\<rparr>
     in addMetadataPt cc ct b ct))"

definition subPt_tail :: "CkksContext \<Rightarrow> Plaintext \<Rightarrow> Ciphertext \<Rightarrow> cpp_error + Ciphertext" where
  "subPt_tail cc b ct =
     bindE (guardE Assert_failed (ct_noise ct = pt_noise b)) (\<lambda>_.
     bindE (guardE Assert_failed (ct_level ct \<le> pt_level b)) (\<lambda>_.
     let ct = ct\<lparr>ct_msg := msg_sub (ct_msg ct) (pt_msg b)\<rparr>
     in addMetadataPt cc ct b ct))"

partial_function (option) addPt :: "CkksContext \<Rightarrow> Plaintext \<Rightarrow> Ciphertext \<Rightarrow> (cpp_error + Ciphertext) option" where
  "addPt cc b ct =
     (case bindE (ensure_ct cc ct) (align_thisPt cc False b) of
        Inl e \<Rightarrow> Some (Inl e)
      | Inr r \<Rightarrow>
        if fst r then Some (addPt_tail cc b (snd r))
        else (case adjustPlaintextToCiphertext cc b (snd r) fresh_plaintext of
                Inl e \<Rightarrow> Some (Inl e)
              | Inr q \<Rightarrow> if fst q then addPt cc (snd q) (snd r) else Some (Inl Runtime_error)))"

partial_function (option) subPt :: "CkksContext \<Rightarrow> Plaintext \<Rightarrow> Ciphertext \<Rightarrow> (cpp_error + Ciphertext) option" where
  "subPt cc b ct =
     (case bindE (ensure_ct cc ct) (align_thisPt cc True b) of
        Inl e \<Rightarrow> Some (Inl e)
      | Inr r \<Rightarrow>
        if fst r then Some (subPt_tail cc b (snd r))
        else (case adjustPlaintextToCiphertext cc b (snd r) fresh_plaintext of
                Inl e \<Rightarrow> Some (Inl e)
              | Inr q \<Rightarrow> if fst q then subPt cc (snd q) (snd r) else Some (Inl Runtime_error)))"

definition addPtMutable :: "CkksContext \<Rightarrow> Plaintext \<Rightarrow> Ciphertext \<Rightarrow> (cpp_error + Ciphertext \<times> Plaintext) option" where
  "addPtMutable cc b ct =
     (case align_thisPt cc False b ct of
        Inl e \<Rightarrow> Some (Inl e)
      | Inr (ok, ct) \<Rightarrow>
        if ok
        then (if ct_noise ct = pt_noise b then with_operand b (addPt cc b ct) else Some (Inl Assert_failed))
        else (case adjustPlaintextInPlace cc ct b of
                Inl e \<Rightarrow> Some (Inl e)
              | Inr (ok, b) \<Rightarrow> if ok then with_operand b (addPt cc b ct) else Some (Inl Runtime_error)))"

definition subPtMutable :: "CkksContext \<Rightarrow> Plaintext \<Rightarrow> Ciphertext \<Rightarrow> (cpp_error + Ciphertext \<times> Plaintext) option" where
  "subPtMutable cc b ct =
     (case align_thisPt cc True b ct of
        Inl e \<Rightarrow> Some (Inl e)
      | Inr (ok, ct) \<Rightarrow>
        if ok
        then (if ct_noise ct = pt_noise b then with_operand b (subPt cc b ct) else Some (Inl Assert_failed))
        else (case adjustPlaintextInPlace cc ct b of
                Inl e \<Rightarrow> Some (Inl e)
              | Inr (ok, b) \<Rightarrow> if ok then with_operand b (subPt cc b ct) else Some (Inl Runtime_error)))"

text \<open>\<open>RNSPoly::multPt\<close> on both polynomials, with its own rescale.\<close>

definition multPt_poly :: "CkksContext \<Rightarrow> bool \<Rightarrow> Plaintext \<Rightarrow> Ciphertext \<Rightarrow> cpp_error + Ciphertext" where
  "multPt_poly cc resc b ct =
     bindE (guardE Assert_failed (ct_level ct \<le> pt_level b \<and> (resc \<longrightarrow> ct_level ct > 0))) (\<lambda>_.
     let ct = ct\<lparr>ct_msg := msg_mult (ct_msg ct) (pt_msg b)\<rparr>
     in if resc
        then bindE (modulus_at cc (ct_level ct)) (\<lambda>q.
               Inr (ct\<lparr>ct_msg := msg_scale (1 / real q) (ct_msg ct), ct_level := ct_level ct - 1\<rparr>))
        else Inr ct)"

definition multPt_tail :: "CkksContext \<Rightarrow> Plaintext \<Rightarrow> bool \<Rightarrow> Ciphertext \<Rightarrow> cpp_error + Ciphertext" where
  "multPt_tail cc b resc ct =
     (let r = resc \<and> cc_technique cc = FIXEDMANUAL in
      bindE (multPt_poly cc r b ct) (\<lambda>ct.
      bindE (multMetadataPt ct b ct) (\<lambda>ct.
      if r
      then bindE (real_at Out_of_range (cc_ModReduceFactor cc) (ct_level ct + 1)) (\<lambda>q.
             Inr (ct\<lparr>ct_factor := ct_factor ct / q, ct_noise := ct_noise ct - 1\<rparr>))
      else Inr ct)))"

definition align_multPt :: "CkksContext \<Rightarrow> Plaintext \<Rightarrow> Ciphertext \<Rightarrow> cpp_error + bool \<times> Ciphertext" where
  "align_multPt cc b ct =
     (if auto_rescale cc
      then bindE (guardE Assert_failed (extendedPt b ct \<longrightarrow> same_shapePt b ct \<and> ct_noise ct = 1)) (\<lambda>_.
           bindE (adjustCiphertextToPlaintext cc b ct) (\<lambda>(ok, ct).
           if \<not> ok \<or> pt_noise b \<noteq> 1 then Inr (False, ct)
           else bindE (if ct_noise ct = 2 then rescaleInternal cc ct else Inr ct) (\<lambda>ct. Inr (True, ct))))
      else Inr (True, ct))"

text \<open>The pair of rescales before \<open>multPt\<close> calls itself.\<close>

definition rescale_both :: "CkksContext \<Rightarrow> Plaintext \<Rightarrow> Ciphertext \<Rightarrow> cpp_error + Ciphertext \<times> Plaintext" where
  "rescale_both cc b ct =
     bindE (if ct_noise ct = 2 then rescaleInternal cc ct else Inr ct) (\<lambda>ct.
     bindE (if pt_noise b = 2 then pt_rescale cc b else Inr b) (\<lambda>b. Inr (ct, b)))"

partial_function (option) multPt :: "CkksContext \<Rightarrow> Plaintext \<Rightarrow> bool \<Rightarrow> bool \<Rightarrow> Ciphertext
    \<Rightarrow> (cpp_error + Ciphertext) option" where
  "multPt cc b resc ignore_scale ct =
     (case ensure_ct cc ct of
        Inl e \<Rightarrow> Some (Inl e)
      | Inr ct \<Rightarrow>
        if ignore_scale then Some (multPt_tail cc b resc ct)
        else (case align_multPt cc b ct of
                Inl e \<Rightarrow> Some (Inl e)
              | Inr r \<Rightarrow>
                if fst r
                then Some (bindE (guardE Assert_failed (ct_noise (snd r) < 2 \<and> pt_noise b < 2)) (\<lambda>_.
                  multPt_tail cc b resc (snd r)))
                else (case bindE (adjustPlaintextToCiphertext cc b (snd r) fresh_plaintext) (\<lambda>(ok, bq).
                           bindE (guardE Runtime_error ok) (\<lambda>_. rescale_both cc bq (snd r))) of
                        Inl e \<Rightarrow> Some (Inl e)
                      | Inr q \<Rightarrow> multPt cc (snd q) resc False (fst q))))"

definition multPtMutable :: "CkksContext \<Rightarrow> Plaintext \<Rightarrow> bool \<Rightarrow> Ciphertext
    \<Rightarrow> (cpp_error + Ciphertext \<times> Plaintext) option" where
  "multPtMutable cc b resc ct =
     (case (if auto_rescale cc
            then bindE (guardE Assert_failed (extendedPt b ct \<longrightarrow> same_shapePt b ct \<and> ct_noise ct = 1)) (\<lambda>_.
                 bindE (if ct_noise ct = 2 then rescaleInternal cc ct else Inr ct) (align_multPt cc b))
            else Inr (True, ct)) of
        Inl e \<Rightarrow> Some (Inl e)
      | Inr (ok, ct) \<Rightarrow>
        if ok
        then (if ct_noise ct < 2 \<and> pt_noise b < 2 then with_operand b (multPt cc b resc False ct) else Some (Inl Assert_failed))
        else (case bindE (adjustPlaintextInPlace cc ct b) (\<lambda>(ok, b).
                   bindE (guardE Runtime_error ok) (\<lambda>_. rescale_both cc b ct)) of
                Inl e \<Rightarrow> Some (Inl e)
              | Inr (ct, b) \<Rightarrow> with_operand b (multPt cc b resc False ct)))"

definition addMultPt :: "CkksContext \<Rightarrow> Ciphertext \<Rightarrow> Plaintext \<Rightarrow> bool \<Rightarrow> Ciphertext \<Rightarrow> cpp_error + Ciphertext" where
  "addMultPt cc c b resc ct =
     bindE (ensure_ct cc ct) (\<lambda>ct.
     bindE (guardE Assert_failed (ct_noise ct = 2 \<and> ct_noise c = 1 \<and> pt_noise b = 1)) (\<lambda>_.
     bindE (guardE Assert_failed (ct_level ct \<le> pt_level b \<and> ct_level ct \<le> ct_level c)) (\<lambda>_.
     let ct = ct\<lparr>ct_msg := msg_add (ct_msg ct) (msg_mult (ct_msg c) (pt_msg b))\<rparr>
     in if resc \<and> cc_technique cc = FIXEDMANUAL then rescaleInternal cc ct else Inr ct)))"

definition copy_then :: "CkksContext \<Rightarrow> Ciphertext \<Rightarrow> (Ciphertext \<Rightarrow> (cpp_error + 'a) option) \<Rightarrow> Ciphertext
    \<Rightarrow> (cpp_error + 'a) option" where
  "copy_then cc c f ct = (case copy_ct cc c ct of Inl e \<Rightarrow> Some (Inl e) | Inr ct \<Rightarrow> f ct)"

definition multPt_from :: "CkksContext \<Rightarrow> Ciphertext \<Rightarrow> Plaintext \<Rightarrow> bool \<Rightarrow> Ciphertext \<Rightarrow> (cpp_error + Ciphertext) option" where
  "multPt_from cc c b resc = copy_then cc c (multPt cc b resc False)"

definition multPtMutable_from :: "CkksContext \<Rightarrow> Ciphertext \<Rightarrow> Plaintext \<Rightarrow> bool \<Rightarrow> Ciphertext
    \<Rightarrow> (cpp_error + Ciphertext \<times> Plaintext) option" where
  "multPtMutable_from cc c b resc = copy_then cc c (multPtMutable cc b resc)"

definition addPt_from :: "CkksContext \<Rightarrow> Ciphertext \<Rightarrow> Plaintext \<Rightarrow> Ciphertext \<Rightarrow> (cpp_error + Ciphertext) option" where
  "addPt_from cc c b = copy_then cc c (addPt cc b)"

definition addPtMutable_from :: "CkksContext \<Rightarrow> Ciphertext \<Rightarrow> Plaintext \<Rightarrow> Ciphertext
    \<Rightarrow> (cpp_error + Ciphertext \<times> Plaintext) option" where
  "addPtMutable_from cc c b = copy_then cc c (addPtMutable cc b)"

definition subMutable3 :: "CkksContext \<Rightarrow> Ciphertext \<Rightarrow> Ciphertext \<Rightarrow> Ciphertext
    \<Rightarrow> (cpp_error + Ciphertext \<times> Ciphertext) option" where
  "subMutable3 cc a b ct =
     (if getLevel a \<le> getLevel b then copy_then cc a (subMutable cc b) ct else Some (Inl Assert_failed))"

end
