(* ===== verification/CkksMult.thy ===== *)
theory CkksMult
  imports CkksArith
begin

text \<open>
  Products of ciphertexts, squares, scalar operations, monomials, rotations, conjugation and the
  extension to the special primes (\<open>src/src/CKKS/Ciphertext.cpp\<close>). Relinearisation and key
  switching keep the message; what they need from the context is the key they look up.
\<close>

section \<open>Products\<close>

definition mult_core :: "CkksContext \<Rightarrow> Ciphertext \<Rightarrow> bool \<Rightarrow> bool \<Rightarrow> Ciphertext \<Rightarrow> cpp_error + Ciphertext" where
  "mult_core cc b resc moddown ct =
     bindE (if (cc_technique cc = FIXEDMANUAL \<or> cc_technique cc = FIXEDAUTO) \<and> getLevel ct > getLevel b
            then dropToLevel cc (getLevel b) True ct else Inr ct) (\<lambda>ct.
     bindE (guardE Assert_failed (ct_noise ct = 1 \<and> ct_noise ct = ct_noise b)) (\<lambda>_.
     bindE (GetEvalKey (ct_keyID ct) (cc_keys cc)) (\<lambda>_.
     bindE (guardE Assert_failed (\<not> extended2 b ct)) (\<lambda>_.
     bindE (guardE Undefined_behaviour (ct_level ct \<le> ct_level b)) (\<lambda>_.
     let ct = ct\<lparr>ct_msg := msg_mult (ct_msg ct) (ct_msg b), ct_up0 := \<not> moddown, ct_up1 := \<not> moddown\<rparr>
     in bindE (multMetadata cc ct b ct) (\<lambda>ct.
          if moddown \<and> resc \<and> cc_technique cc = FIXEDMANUAL then rescaleInternal cc ct else Inr ct))))))"

definition adopt_key :: "Ciphertext \<Rightarrow> Ciphertext \<Rightarrow> cpp_error + Ciphertext" where
  "adopt_key b ct =
     bindE (guardE Assert_failed (ct_keyID ct = ct_keyID b)) (\<lambda>_.
       Inr (if ct_keyID ct = [] then ct\<lparr>ct_keyID := ct_keyID b\<rparr> else ct))"

definition mult_extended :: "Ciphertext \<Rightarrow> Ciphertext \<Rightarrow> bool" where
  "mult_extended b ct \<longleftrightarrow> ct_up0 ct \<or> ct_up1 ct \<or> ct_up0 b"

text \<open>The alignment of both operands; the second component is \<open>Some\<close> copy when \<open>b\<close> had to change.\<close>

definition align_mult :: "CkksContext \<Rightarrow> Ciphertext \<Rightarrow> Ciphertext \<Rightarrow> cpp_error + Ciphertext \<times> Ciphertext option" where
  "align_mult cc b ct =
     bindE (guardE Assert_failed (mult_extended b ct \<longrightarrow> same_shape b ct)) (\<lambda>_.
     bindE (adjustForAddOrSub cc b ct) (\<lambda>(ok, ct).
     bindE (if ok then Inr None
            else bindE (adjusted_copy cc b ct) (\<lambda>(ok, bq). bindE (guardE Runtime_error ok) (\<lambda>_. Inr (Some bq)))) (\<lambda>bp.
     if ct_noise ct = 2
     then bindE (rescaleInternal cc ct) (\<lambda>ct.
          bindE (case bp of None \<Rightarrow> copy_ct cc b fresh_ciphertext | Some bq \<Rightarrow> Inr bq) (\<lambda>bq.
          bindE (rescaleInternal cc bq) (\<lambda>bq. Inr (ct, Some bq))))
     else Inr (ct, bp))))"

partial_function (option) ct_mult :: "CkksContext \<Rightarrow> Ciphertext \<Rightarrow> bool \<Rightarrow> bool \<Rightarrow> Ciphertext
    \<Rightarrow> (cpp_error + Ciphertext) option" where
  "ct_mult cc b resc moddown ct =
     (case bindE (bindE (ensure_ct cc ct) (adopt_key b)) (\<lambda>ct. if auto_rescale cc then align_mult cc b ct else Inr (ct, None)) of
        Inl e \<Rightarrow> Some (Inl e)
      | Inr r \<Rightarrow>
        (case snd r of
           None \<Rightarrow> Some (mult_core cc b resc moddown (fst r))
         | Some bq \<Rightarrow> ct_mult cc bq resc moddown (fst r)))"

text \<open>\<open>this->mult(*this)\<close>: the operand changes with the receiver, and a copy of it is rescaled a
  second time.\<close>

definition ct_mult_self :: "CkksContext \<Rightarrow> bool \<Rightarrow> Ciphertext \<Rightarrow> (cpp_error + Ciphertext) option" where
  "ct_mult_self cc resc ct =
     (case bindE (ensure_ct cc ct) (\<lambda>ct.
          if auto_rescale cc
          then bindE (adjustForAddOrSub cc ct ct) (\<lambda>(ok, ct).
               bindE (guardE Assert_failed ok) (\<lambda>_.
               if ct_noise ct = 2
               then bindE (rescaleInternal cc ct) (\<lambda>ct.
                    bindE (copy_ct cc ct fresh_ciphertext) (\<lambda>bq.
                    bindE (rescaleInternal cc bq) (\<lambda>bq. Inr (ct, Some bq))))
               else Inr (ct, None)))
          else Inr (ct, None)) of
        Inl e \<Rightarrow> Some (Inl e)
      | Inr r \<Rightarrow>
        (case snd r of
           None \<Rightarrow> Some (mult_core cc (fst r) resc True (fst r))
         | Some bq \<Rightarrow> ct_mult cc bq resc True (fst r)))"

definition ct_square :: "CkksContext \<Rightarrow> bool \<Rightarrow> Ciphertext \<Rightarrow> (cpp_error + Ciphertext) option" where
  "ct_square cc resc ct =
     (case bindE (bindE (ensure_ct cc ct) (pre_reduce cc)) (\<lambda>ct.
             bindE (guardE Assert_failed (ct_noise ct = 1)) (\<lambda>_. Inr ct)) of
        Inl e \<Rightarrow> Some (Inl e)
      | Inr ct \<Rightarrow> ct_mult_self cc resc ct)"

definition multMutable :: "CkksContext \<Rightarrow> Ciphertext \<Rightarrow> bool \<Rightarrow> bool \<Rightarrow> Ciphertext
    \<Rightarrow> (cpp_error + Ciphertext \<times> Ciphertext) option" where
  "multMutable cc b resc moddown ct =
     (case bindE (adopt_key b ct) (\<lambda>ct.
        bindE (if auto_rescale cc
               then bindE (guardE Assert_failed (mult_extended b ct \<longrightarrow> same_shape b ct)) (\<lambda>_.
                    bindE (adjustForAddOrSub cc b ct) (\<lambda>(ok, ct).
                    bindE (if ok then Inr b
                           else bindE (adjustForAddOrSub cc ct b) (\<lambda>(ok, b). bindE (guardE Runtime_error ok) (\<lambda>_. Inr b))) (\<lambda>b.
                    if ct_noise ct = 2
                    then bindE (rescaleInternal cc ct) (\<lambda>ct. bindE (rescaleInternal cc b) (\<lambda>b. Inr (ct, b)))
                    else Inr (ct, b))))
               else if cc_technique cc = FIXEDMANUAL \<and> getLevel ct > getLevel b
                    then bindE (dropToLevel cc (getLevel b) True ct) (\<lambda>ct. Inr (ct, b))
               else Inr (ct, b)) (\<lambda>(ct, b).
        bindE (guardE Assert_failed (ct_noise ct = 1 \<and> ct_noise ct = ct_noise b)) (\<lambda>_. Inr (ct, b)))) of
        Inl e \<Rightarrow> Some (Inl e)
      | Inr (ct, b) \<Rightarrow> with_operand b (ct_mult cc b resc moddown ct))"

definition ct_mult3 :: "CkksContext \<Rightarrow> aliasing \<Rightarrow> Ciphertext \<Rightarrow> Ciphertext \<Rightarrow> bool \<Rightarrow> Ciphertext
    \<Rightarrow> (cpp_error + Ciphertext) option" where
  "ct_mult3 cc al b c resc ct =
     (case al of
        Both \<Rightarrow> ct_square cc resc ct
      | First \<Rightarrow> ct_mult cc c resc True ct
      | Second \<Rightarrow> ct_mult cc b resc True ct
      | Neither \<Rightarrow>
          (if getLevel b \<le> getLevel c then copy_then cc b (ct_mult cc c resc True) ct
           else copy_then cc c (ct_mult cc b resc True) ct))"

definition ct_square_from :: "CkksContext \<Rightarrow> Ciphertext \<Rightarrow> bool \<Rightarrow> Ciphertext \<Rightarrow> (cpp_error + Ciphertext) option" where
  "ct_square_from cc src resc = copy_then cc src (ct_square cc resc)"

section \<open>Scalars\<close>

text \<open>The scale of the constant that \<open>ElemForEvalAddOrSub\<close> encodes.\<close>

definition add_factor :: "CkksContext \<Rightarrow> int \<Rightarrow> int \<Rightarrow> cpp_error + real" where
  "add_factor cc level noise_deg =
     (if cc_technique cc = FLEXIBLEAUTOEXT \<and> level = cc_L cc
      then real_at Out_of_range (cc_ScalingFactorRealBig cc) level
      else bindE (real_at Out_of_range (cc_ScalingFactorReal cc) level) (\<lambda>scFactor.
        foldE (\<lambda>f i.
            if (cc_technique cc = FIXEDMANUAL \<or> cc_technique cc = FIXEDAUTO) \<and> i < level + 1
            then bindE (modulus_at cc (level + 1 - i)) (\<lambda>q. Inr (f * real q))
            else Inr (f * scFactor))
          scFactor [1..noise_deg - 1]))"

definition addScalar :: "CkksContext \<Rightarrow> real \<Rightarrow> Ciphertext \<Rightarrow> cpp_error + Ciphertext" where
  "addScalar cc c ct =
     bindE (ensure_ct cc ct) (\<lambda>ct.
     bindE (add_factor cc (ct_level ct) (ct_noise ct)) (\<lambda>f.
     let elem = \<bar>c\<bar> * f; elem = (if c < 0 then - elem else elem)
     in Inr (if c \<noteq> 0 then ct\<lparr>ct_msg := (\<lambda>j. ct_msg ct j + of_real elem)\<rparr> else ct)))"

definition addScalarC :: "CkksContext \<Rightarrow> complex \<Rightarrow> Ciphertext \<Rightarrow> cpp_error + Ciphertext" where
  "addScalarC cc c ct =
     bindE (ensure_ct cc ct) (\<lambda>ct.
     if Re c = 0 \<and> Im c = 0 then Inr ct
     else bindE (add_factor cc (getLevel ct) (ct_noise ct)) (\<lambda>f.
       let re = \<bar>Re c\<bar> * f; im = \<bar>Im c\<bar> * f;
           re = (if Re c > 0 then re else - re); im = (if Im c > 0 then im else - im)
       in Inr (ct\<lparr>ct_msg := (\<lambda>j. ct_msg ct j + Complex re im)\<rparr>)))"

definition multScalarC :: "CkksContext \<Rightarrow> complex \<Rightarrow> bool \<Rightarrow> Ciphertext \<Rightarrow> cpp_error + Ciphertext" where
  "multScalarC cc c resc ct =
     bindE (ensure_ct cc ct) (\<lambda>ct.
     bindE (if cc_technique cc \<noteq> FIXEDMANUAL \<and> ct_noise ct = 2 then rescaleInternal cc ct else Inr ct) (\<lambda>ct.
     bindE (SF_at cc (getLevel ct)) (\<lambda>scFactor.
     bindE (mult_factor cc (getLevel ct)) (\<lambda>f.
     let ct = ct\<lparr>ct_msg := msg_cscale (Complex (Re c * f) (Im c * f)) (ct_msg ct), ct_noise := ct_noise ct + 1,
                ct_factor := ct_factor ct * scFactor\<rparr>
     in if resc \<and> cc_technique cc = FIXEDMANUAL then rescaleInternal cc ct else Inr ct))))"

text \<open>The factor of \<open>ElemForEvalMult(level, c, level_in)\<close>, which folds a change of level in.\<close>

definition mult_factor_in :: "CkksContext \<Rightarrow> int \<Rightarrow> int \<Rightarrow> cpp_error + real" where
  "mult_factor_in cc level level_in =
     (if level_in = -1 \<or> level_in = level then mult_factor cc level
      else bindE (guardE Assert_failed (level > 0)) (\<lambda>_.
        bindE (SF_at cc level_in) (\<lambda>sfIn. bindE (SF_at cc (level - 1)) (\<lambda>sfOut. bindE (MR_at cc level) (\<lambda>q.
        bindE (SF_at cc level) (\<lambda>s.
        bindE (guardE Assert_failed (\<bar>sfOut * q - s * s\<bar> < 1 / 10 ^ 9
            \<and> \<bar>sfIn * (sfOut * q / sfIn) / q - sfOut\<bar> < 1 / 10 ^ 9)) (\<lambda>_.
        Inr (sfOut * q / sfIn))))))))"

definition multScalarC_to :: "CkksContext \<Rightarrow> complex \<Rightarrow> int \<Rightarrow> Ciphertext \<Rightarrow> cpp_error + Ciphertext" where
  "multScalarC_to cc c target_level ct =
     bindE (if cc_technique cc \<noteq> FIXEDMANUAL \<and> ct_noise ct = 2 then rescaleInternal cc ct else Inr ct) (\<lambda>ct.
     let level = getLevel ct in
     if target_level = -1 \<or> target_level = level then multScalarC cc c False ct
     else bindE (guardE Assert_failed (target_level < level)) (\<lambda>_.
       bindE (mult_factor_in cc target_level level) (\<lambda>f.
       bindE (dropToLevel cc target_level True ct) (\<lambda>ct.
       bindE (SFBig_at cc target_level) (\<lambda>b.
         Inr (ct\<lparr>ct_msg := msg_cscale (Complex (Re c * f) (Im c * f)) (ct_msg ct), ct_noise := ct_noise ct + 1,
                ct_factor := b\<rparr>))))))"

definition copyE :: "CkksContext \<Rightarrow> Ciphertext \<Rightarrow> (Ciphertext \<Rightarrow> cpp_error + 'a) \<Rightarrow> Ciphertext \<Rightarrow> cpp_error + 'a" where
  "copyE cc b f ct = bindE (copy_ct cc b ct) f"

definition multScalar_from :: "CkksContext \<Rightarrow> Ciphertext \<Rightarrow> real \<Rightarrow> bool \<Rightarrow> Ciphertext \<Rightarrow> cpp_error + Ciphertext" where
  "multScalar_from cc b c resc = copyE cc b (multScalar cc c resc)"

definition multScalarC_from :: "CkksContext \<Rightarrow> Ciphertext \<Rightarrow> complex \<Rightarrow> bool \<Rightarrow> Ciphertext \<Rightarrow> cpp_error + Ciphertext" where
  "multScalarC_from cc b c resc = copyE cc b (multScalarC cc c resc)"

definition multScalarC_to_from :: "CkksContext \<Rightarrow> Ciphertext \<Rightarrow> complex \<Rightarrow> int \<Rightarrow> Ciphertext \<Rightarrow> cpp_error + Ciphertext" where
  "multScalarC_to_from cc b c target_level = copyE cc b (multScalarC_to cc c target_level)"

definition addScalar_from :: "CkksContext \<Rightarrow> Ciphertext \<Rightarrow> real \<Rightarrow> Ciphertext \<Rightarrow> cpp_error + Ciphertext" where
  "addScalar_from cc b c = copyE cc b (addScalar cc c)"

definition addScalarC_from :: "CkksContext \<Rightarrow> Ciphertext \<Rightarrow> complex \<Rightarrow> Ciphertext \<Rightarrow> cpp_error + Ciphertext" where
  "addScalarC_from cc b c = copyE cc b (addScalarC cc c)"

definition addMultScalar :: "CkksContext \<Rightarrow> Ciphertext \<Rightarrow> real \<Rightarrow> Ciphertext \<Rightarrow> cpp_error + Ciphertext" where
  "addMultScalar cc b d ct =
     bindE (ensure_ct cc ct) (\<lambda>ct.
     bindE (guardE Assert_failed (ct_noise ct = 2 \<and> ct_noise b = 1 \<and> getLevel b \<ge> getLevel ct
         \<and> ct_keyID ct = ct_keyID b)) (\<lambda>_.
     bindE (mult_factor cc (ct_level ct)) (\<lambda>f.
       Inr (ct\<lparr>ct_msg := msg_add (ct_msg ct) (msg_scale (d * f) (ct_msg b)),
              ct_up0 := ct_up0 ct \<or> ct_up0 b, ct_up1 := ct_up1 ct \<or> ct_up1 b\<rparr>))))"

definition negate :: "CkksContext \<Rightarrow> Ciphertext \<Rightarrow> cpp_error + Ciphertext" where
  "negate cc ct =
     bindE (guardE Undefined_behaviour (getLevel ct < int (length (cc_prime cc)))) (\<lambda>_.
       Inr (ct\<lparr>ct_msg := msg_scale (-1) (ct_msg ct)\<rparr>))"

definition negate_from :: "CkksContext \<Rightarrow> Ciphertext \<Rightarrow> Ciphertext \<Rightarrow> cpp_error + Ciphertext" where
  "negate_from cc b = copyE cc b (negate cc)"

section \<open>Extension to the special primes\<close>

definition extend :: "CkksContext \<Rightarrow> bool \<Rightarrow> Ciphertext \<Rightarrow> cpp_error + Ciphertext" where
  "extend cc init ct =
     bindE (ensure_ct cc ct) (\<lambda>ct. Inr (if init then ct\<lparr>ct_up0 := True, ct_up1 := True\<rparr> else ct))"

definition modDown :: "CkksContext \<Rightarrow> Ciphertext \<Rightarrow> cpp_error + Ciphertext" where
  "modDown cc ct =
     bindE (ensure_ct cc ct) (\<lambda>ct.
     bindE (guardE Assert_failed (ct_up0 ct \<and> ct_up1 ct)) (\<lambda>_.
       Inr (ct\<lparr>ct_up0 := False, ct_up1 := False\<rparr>)))"

section \<open>Rotations and key switching\<close>

text \<open>A rotation by \<open>k\<close> moves slot \<open>j + k\<close> (modulo the \<open>N / 2\<close> slots) to slot \<open>j\<close>; the index
  \<open>2 N - 1\<close> is the conjugation.\<close>

definition msg_rotate :: "int \<Rightarrow> int \<Rightarrow> msg \<Rightarrow> msg" where
  "msg_rotate n k m =
     (if k = 2 * n - 1 then (\<lambda>j. cnj (m j)) else (\<lambda>j. m (nat ((int j + k) mod (n sdiv 2)))))"

type_synonym 'a with_context = "(cpp_error + CkksContext \<times> 'a) option"

definition ct_rotate :: "int \<Rightarrow> bool \<Rightarrow> CkksContext \<Rightarrow> Ciphertext \<Rightarrow> Ciphertext with_context" where
  "ct_rotate index moddown cc ct =
     (case bindE (ensure_ct cc ct) (\<lambda>ct.
           bindE (normalyzeIndex index (ct_slots ct) (cc_N cc)) (\<lambda>i.
           bindE (guardE Assert_failed (i \<noteq> 0 \<and> \<not> ct_up1 ct)) (\<lambda>_. Inr (i, ct)))) of
        Inl e \<Rightarrow> Some (Inl e)
      | Inr (i, ct) \<Rightarrow>
        map_option (\<lambda>r. bindE r (\<lambda>(actual, kc).
            let ct = ct\<lparr>ct_msg := msg_rotate (cc_N cc) actual (ct_msg ct), ct_up0 := True, ct_up1 := True\<rparr>
            in bindE (if moddown then modDown cc ct else Inr ct) (\<lambda>ct. Inr (cc\<lparr>cc_keys := kc\<rparr>, ct))))
          (GetRotationKeySlots i (ct_keyID ct) (ct_slots ct) (cc_keys cc)))"

definition ct_rotate_from :: "Ciphertext \<Rightarrow> int \<Rightarrow> CkksContext \<Rightarrow> Ciphertext \<Rightarrow> Ciphertext with_context" where
  "ct_rotate_from c index cc ct =
     (case copy_ct cc c ct of Inl e \<Rightarrow> Some (Inl e) | Inr ct \<Rightarrow> ct_rotate index True cc ct)"

definition conjugate :: "Ciphertext \<Rightarrow> CkksContext \<Rightarrow> Ciphertext \<Rightarrow> Ciphertext with_context" where
  "conjugate c cc ct =
     (case ensure_ct cc ct of
        Inl e \<Rightarrow> Some (Inl e)
      | Inr ct \<Rightarrow>
        map_option (\<lambda>r. bindE r (\<lambda>(actual, kc).
            bindE (dropToLevel cc (getLevel c) True ct) (\<lambda>ct.
            bindE (growToLevel cc (ct_level c) ct) (\<lambda>ct.
            let ct = ct\<lparr>ct_msg := msg_rotate (cc_N cc) actual (ct_msg c), ct_up0 := True, ct_up1 := True\<rparr>
            in bindE (modDown cc ct) (\<lambda>ct. bindE (copyMetadata c ct) (\<lambda>ct. Inr (cc\<lparr>cc_keys := kc\<rparr>, ct)))))))
          (GetRotationKeySlots (2 * cc_N cc - 1) (ct_keyID c) (ct_slots ct) (cc_keys cc)))"

text \<open>The fused path of \<open>rotate_hoisted\<close>: the results are sized first, all keys are fetched under an
  eviction hold, then the rotations are done.\<close>

definition hoist_size :: "CkksContext \<Rightarrow> bool \<Rightarrow> Ciphertext \<Rightarrow> Ciphertext \<Rightarrow> cpp_error + Ciphertext" where
  "hoist_size cc ext ct r =
     bindE (growToLevel cc (ct_level ct) r) (\<lambda>r.
     bindE (dropToLevel cc (getLevel ct) True r) (\<lambda>r.
       if ext then extend cc False r else Inr r))"

fun hoist_loop :: "CkksContext \<Rightarrow> bool \<Rightarrow> Ciphertext \<Rightarrow> KeyContext \<Rightarrow> (int \<times> Ciphertext) list
    \<Rightarrow> (cpp_error + Ciphertext list \<times> KeyContext) option" where
  "hoist_loop cc ext ct kc [] = Some (Inr ([], kc))"
| "hoist_loop cc ext ct kc ((i, r) # rest) =
     (case (if i = 0
            then Some (bindE (copy_ct cc ct r) (\<lambda>r. bindE (if ext then extend cc True r else Inr r) (\<lambda>r. Inr (r, kc))))
            else map_option (\<lambda>x. bindE x (\<lambda>(actual, kc). bindE (copyMetadata ct r) (\<lambda>r.
                   Inr (r\<lparr>ct_msg := msg_rotate (cc_N cc) actual (ct_msg ct), ct_up0 := True, ct_up1 := True\<rparr>, kc))))
                 (GetRotationKeySlots i (ct_keyID ct) (ct_slots ct) kc)) of
        None \<Rightarrow> None
      | Some (Inl e) \<Rightarrow> Some (Inl e)
      | Some (Inr (r, kc)) \<Rightarrow>
          map_option (map_sum id (\<lambda>(rs, kc). (r # rs, kc))) (hoist_loop cc ext ct kc rest))"

definition rotate_hoisted :: "int list \<Rightarrow> Ciphertext list \<Rightarrow> bool \<Rightarrow> CkksContext \<Rightarrow> Ciphertext
    \<Rightarrow> Ciphertext list with_context" where
  "rotate_hoisted indexes results ext cc ct =
     (case bindE (mapE (\<lambda>i. normalyzeIndex i (ct_slots ct) (cc_N cc)) indexes) (\<lambda>idx.
           bindE (ensure_ct cc ct) (\<lambda>ct.
           bindE (guardE Assert_failed (length idx = length results)) (\<lambda>_.
           bindE (mapE (hoist_size cc ext ct) results) (\<lambda>rs. Inr (idx, ct, rs))))) of
        Inl e \<Rightarrow> Some (Inl e)
      | Inr (idx, ct, rs) \<Rightarrow>
        map_option (\<lambda>x. bindE x (\<lambda>(rs, kc).
            bindE (mapE (\<lambda>(i, r). if \<not> ext \<and> i \<noteq> 0 then modDown cc r else Inr r) (zip idx rs)) (\<lambda>rs.
              Inr (cc\<lparr>cc_keys := hold_end kc\<rparr>, rs))))
          (hoist_loop cc ext ct (hold_begin (cc_keys cc)) (zip idx rs)))"

definition keySwitch :: "CkksContext \<Rightarrow> KeySwitchingKey \<Rightarrow> Ciphertext \<Rightarrow> cpp_error + Ciphertext" where
  "keySwitch cc ksk ct =
     bindE (ensure_ct cc ct) (\<lambda>ct. bindE (guardE Assert_failed (ksk_keyID ksk = ct_keyID ct)) (\<lambda>_. Inr ct))"

text \<open>Moving a ciphertext to another context over the same primes; the flag says whether both run on
  the same GPUs.\<close>

definition reinterpretContext :: "CkksContext \<Rightarrow> CkksContext \<Rightarrow> bool \<Rightarrow> Ciphertext \<Rightarrow> Ciphertext
    \<Rightarrow> cpp_error + Ciphertext" where
  "reinterpretContext cc src_cc same_gpus c ct =
     bindE (guardE Assert_failed (\<not> ct_up0 c \<and> \<not> ct_up1 c \<and> getLevel c \<le> cc_L cc)) (\<lambda>_.
     bindE (mapE (\<lambda>i. bindE (list_at (cc_prime src_cc) (nat i)) (\<lambda>p.
              bindE (list_at (cc_prime cc) (nat i)) (\<lambda>p'. guardE Assert_failed (p = p')))) [0..getLevel c]) (\<lambda>_.
     bindE (if same_gpus then copy_ct cc c ct
            else let raw = store_ct src_cc c empty_raw
                 in bindE (ensure_ct cc ct) (\<lambda>ct. load_ct cc (raw\<lparr>raw_moduli := take (nat (raw_numRes raw)) (cc_prime src_cc)\<rparr>) ct)) (\<lambda>ct.
     bindE (guardE Assert_failed (ct_noise c \<le> 2)) (\<lambda>_.
     bindE (if ct_noise ct = 1 then SF_at cc (getLevel c) else SFBig_at cc (getLevel c)) (\<lambda>f.
       Inr (ct\<lparr>ct_factor := f\<rparr>))))))"

end
