(* ===== verification/CkksSums.thy ===== *)
theory CkksSums
  imports CkksMult "HOL-Library.Product_Lexorder"
begin

text \<open>
  Weighted sums of ciphertexts (\<open>src/src/CKKS/Ciphertext.cpp\<close>, \<open>evalLinearWSumMutable\<close> to
  \<open>evalMultiplePartialLinearWSumWithBias\<close>): the fused sums with weights and bias folded to a target
  level, and the batching of several sums into groups of at most eight. \<open>nz\<close> stands for OpenFHE's
  \<open>IsNotEqualZero\<close>; the batched kernels add up the weighted operands. A real weight is a complex
  number with imaginary part zero.
\<close>

section \<open>Sums of weighted ciphertexts\<close>

text \<open>The sum the kernels compute: each operand times its weight encoded for the target level. They
  read the operands' limbs up to that level.\<close>

fun wsum :: "CkksContext \<Rightarrow> int \<Rightarrow> msg \<Rightarrow> (complex \<times> Ciphertext) list \<Rightarrow> cpp_error + msg" where
  "wsum cc target acc [] = Inr acc"
| "wsum cc target acc ((w, c) # cs) =
     bindE (mult_factor_in cc target (getLevel c)) (\<lambda>f.
     bindE (guardE Undefined_behaviour (target \<le> ct_level c)) (\<lambda>_.
       wsum cc target (msg_add acc (msg_cscale (w * of_real f) (ct_msg c))) cs))"

definition bias_real :: "CkksContext \<Rightarrow> int \<Rightarrow> real \<Rightarrow> cpp_error + complex" where
  "bias_real cc target b =
     bindE (add_factor cc target 2) (\<lambda>f. Inr (of_real (if b < 0 then - (\<bar>b\<bar> * f) else \<bar>b\<bar> * f)))"

definition bias_complex :: "CkksContext \<Rightarrow> int \<Rightarrow> complex \<Rightarrow> cpp_error + complex" where
  "bias_complex cc target b =
     bindE (add_factor cc target 2) (\<lambda>f.
       Inr (Complex (if Re b > 0 then \<bar>Re b\<bar> * f else - (\<bar>Re b\<bar> * f)) (if Im b > 0 then \<bar>Im b\<bar> * f else - (\<bar>Im b\<bar> * f))))"

fun max_slots :: "int \<Rightarrow> Ciphertext list \<Rightarrow> int" where
  "max_slots s [] = s"
| "max_slots s (c # cs) = max_slots (max s (ct_slots c)) cs"

text \<open>The checks on the operands that all the sums make.\<close>

definition inputs_asserted :: "CkksContext \<Rightarrow> int \<Rightarrow> Ciphertext list \<Rightarrow> cpp_error + unit" where
  "inputs_asserted cc level cs =
     guardE Assert_failed (\<forall>c \<in> set cs. ct_noise c = 1 \<and> (cc_technique cc = FIXEDMANUAL \<longrightarrow> level \<le> getLevel c)
       \<and> ct_keyID c = ct_keyID (hd cs))"

definition sum_metadata :: "CkksContext \<Rightarrow> Ciphertext list \<Rightarrow> Ciphertext list \<Rightarrow> Ciphertext \<Rightarrow> cpp_error + Ciphertext" where
  "sum_metadata cc cs used ct =
     (if cs = [] then Inl Undefined_behaviour
      else bindE (guardE Assert_failed (\<forall>c \<in> set used. ct_keyID c = ct_keyID (hd cs))) (\<lambda>_.
           bindE (real_at Out_of_range (cc_ScalingFactorRealBig cc) (getLevel ct)) (\<lambda>b.
             Inr (ct\<lparr>ct_slots := max_slots (ct_slots (hd cs)) used, ct_keyID := ct_keyID (hd cs), ct_noise := 2,
                    ct_factor := b\<rparr>))))"

definition evalLinearWSumMutable :: "CkksContext \<Rightarrow> Ciphertext list \<Rightarrow> real list \<Rightarrow> Ciphertext \<Rightarrow> cpp_error + Ciphertext" where
  "evalLinearWSumMutable cc ctxs weights ct =
     bindE (ensure_ct cc ct) (\<lambda>ct.
     bindE (guardE Undefined_behaviour (ctxs \<noteq> [] \<and> length weights \<ge> length ctxs)) (\<lambda>_.
     let ct = (if getLevel ct = -1 then ct\<lparr>ct_level := getLevel (hd ctxs), ct_noise := 1\<rparr> else ct) in
     bindE (inputs_asserted cc (getLevel ct) ctxs) (\<lambda>_.
     bindE (wsum cc (ct_level ct) (\<lambda>_. 0) (zip (map of_real weights) ctxs)) (\<lambda>m.
       sum_metadata cc ctxs ctxs (ct\<lparr>ct_msg := m\<rparr>)))))"

text \<open>The terms with a non-zero weight; weight \<open>i\<close> belongs to operand \<open>i - 1\<close>.\<close>

definition nonzero_terms :: "('w \<Rightarrow> bool) \<Rightarrow> 'w list \<Rightarrow> Ciphertext list \<Rightarrow> ('w \<times> Ciphertext) list" where
  "nonzero_terms nz weights ctxs = filter (\<lambda>(w, c). nz w) (zip (tl weights) ctxs)"

definition evalPartialLinearWSumWithBias :: "(real \<Rightarrow> bool) \<Rightarrow> CkksContext \<Rightarrow> Ciphertext list \<Rightarrow> real list \<Rightarrow> real
    \<Rightarrow> nat \<Rightarrow> int \<Rightarrow> bool \<Rightarrow> Ciphertext \<Rightarrow> cpp_error + Ciphertext" where
  "evalPartialLinearWSumWithBias nz cc ctxs weights bias limit target_level resc ct =
     (let limit = (if limit = 0 then length ctxs else limit) in
      bindE (guardE Assert_failed (target_level \<noteq> -1)) (\<lambda>_.
      bindE (growToLevel cc target_level ct) (\<lambda>ct.
      bindE (dropToLevel cc target_level True ct) (\<lambda>ct.
      bindE (guardE Undefined_behaviour (limit \<le> length ctxs \<and> limit < length weights)) (\<lambda>_.
      bindE (inputs_asserted cc (getLevel ct) (take limit ctxs)) (\<lambda>_.
      let used = nonzero_terms nz (take (limit + 1) weights) (take limit ctxs) in
      bindE (if nz bias then bias_real cc target_level bias else Inr 0) (\<lambda>b.
      bindE (wsum cc target_level (\<lambda>_. b) (map (map_prod of_real id) used)) (\<lambda>m.
      bindE (sum_metadata cc ctxs (take (length used) ctxs) (ct\<lparr>ct_msg := m\<rparr>)) (\<lambda>ct.
        if resc then rescale cc ct else Inr ct)))))))))"

definition evalPartialLinearWSumComplex :: "(complex \<Rightarrow> bool) \<Rightarrow> CkksContext \<Rightarrow> Ciphertext list \<Rightarrow> complex list \<Rightarrow> complex
    \<Rightarrow> nat \<Rightarrow> int \<Rightarrow> bool \<Rightarrow> Ciphertext \<Rightarrow> cpp_error + Ciphertext" where
  "evalPartialLinearWSumComplex nz cc ctxs weights bias limit target_level resc ct =
     (let limit = (if limit = 0 then length ctxs else limit) in
      bindE (guardE Assert_failed (target_level \<noteq> -1 \<and> ctxs \<noteq> [] \<and> limit \<ge> 1 \<and> limit \<le> length ctxs + 1)) (\<lambda>_.
      bindE (guardE Undefined_behaviour (limit \<le> length ctxs \<and> limit < length weights)) (\<lambda>_.
      bindE (guardE Assert_failed (\<forall>c \<in> set (take limit ctxs). ct_noise c = 1 \<and> ct_keyID c = ct_keyID (hd ctxs))) (\<lambda>_.
      bindE (growToLevel cc target_level ct) (\<lambda>ct.
      bindE (dropToLevel cc target_level True ct) (\<lambda>ct.
      let used = nonzero_terms nz (take (limit + 1) weights) (take limit ctxs) in
      bindE (mapE (\<lambda>(w, c).
          if cc_technique cc \<noteq> FIXEDMANUAL \<and> ct_noise c = 2
          then bindE (copy_ct cc c fresh_ciphertext) (\<lambda>c. bindE (rescaleInternal cc c) (\<lambda>c. Inr (w, c)))
          else Inr (w, c)) used) (\<lambda>srcs.
      bindE (wsum cc target_level (\<lambda>_. 0) srcs) (\<lambda>m.
      bindE (sum_metadata cc ctxs (take limit ctxs) (ct\<lparr>ct_msg := m\<rparr>)) (\<lambda>ct.
      bindE (if nz bias then addScalarC cc bias ct else Inr ct) (\<lambda>ct.
        if resc then rescale cc ct else Inr ct))))))))))"

section \<open>Several sums at once\<close>

text \<open>An objective: the trimmed weights of one sum, its target level and the result it writes (by its
  position in the vector of results, which also orders the pointers).\<close>

record Objective =
  obj_n :: int
  obj_target_level :: int
  obj_weights :: "complex list"
  obj_ctxt :: nat

text \<open>\<open>while (!IsNotEqualZero(weights_trimmed.back())) weights_trimmed.pop_back();\<close> in the overload
  for real weights, and the guarded loop of the one for complex weights.\<close>

function trim_real :: "(complex \<Rightarrow> bool) \<Rightarrow> complex list \<Rightarrow> cpp_error + complex list" where
  "trim_real nz ws =
     (if ws = [] then Inl Undefined_behaviour
      else if nz (last ws) then Inr ws
      else trim_real nz (butlast ws))"
  by pat_completeness auto
termination by (relation "measure (length o snd)") auto

function trim_complex :: "(complex \<Rightarrow> bool) \<Rightarrow> complex list \<Rightarrow> complex list" where
  "trim_complex nz ws =
     (if ws = [] then [0] else if nz (last ws) then ws else trim_complex nz (butlast ws))"
  by pat_completeness auto
termination by (relation "measure (length o snd)") auto

declare trim_real.simps [simp del] trim_complex.simps [simp del]

definition max_n_of :: "Objective list \<Rightarrow> int" where
  "max_n_of objs = foldr (\<lambda>o' n. max n (obj_n o')) objs 0"

text \<open>The weighted sum and bias of one objective.\<close>

definition objective_msg :: "(complex \<Rightarrow> bool) \<Rightarrow> CkksContext \<Rightarrow> (int \<Rightarrow> complex \<Rightarrow> cpp_error + complex) \<Rightarrow> Ciphertext list
    \<Rightarrow> Objective \<Rightarrow> cpp_error + msg" where
  "objective_msg nz cc bias used obj =
     bindE (if obj_weights obj = [] then Inl Undefined_behaviour
            else if nz (hd (obj_weights obj)) then bias (obj_target_level obj) (hd (obj_weights obj)) else Inr 0) (\<lambda>b.
       wsum cc (obj_target_level obj) (\<lambda>_. b) (nonzero_terms nz (obj_weights obj) used))"

text \<open>The evaluation of one group, for real and for complex weights.\<close>

fun write_results :: "(Objective \<Rightarrow> Ciphertext \<Rightarrow> cpp_error + Ciphertext) \<Rightarrow> Objective list \<Rightarrow> Ciphertext list
    \<Rightarrow> cpp_error + Ciphertext list" where
  "write_results f [] results = Inr results"
| "write_results f (obj # objs) results =
     bindE (list_at results (obj_ctxt obj)) (\<lambda>r. bindE (f obj r) (\<lambda>r.
       write_results f objs (results[obj_ctxt obj := r])))"

definition wsum_group_real :: "(complex \<Rightarrow> bool) \<Rightarrow> CkksContext \<Rightarrow> Ciphertext list \<Rightarrow> Objective list \<Rightarrow> Ciphertext list
    \<Rightarrow> cpp_error + Ciphertext list" where
  "wsum_group_real nz cc ctxs objs results =
     bindE (guardE Assert_failed (\<forall>obj \<in> set objs. obj_target_level obj \<noteq> -1)) (\<lambda>_.
     bindE (guardE Assert_failed (objs \<noteq> [] \<longrightarrow> (\<forall>c \<in> set ctxs. ct_noise c = 1 \<and> ct_keyID c = ct_keyID (hd ctxs)
         \<and> (cc_technique cc = FIXEDMANUAL \<longrightarrow> (\<forall>obj \<in> set objs. getLevel (results ! obj_ctxt obj) \<le> getLevel c))))) (\<lambda>_.
     bindE (guardE Undefined_behaviour (max_n_of objs \<le> int (length ctxs))) (\<lambda>_.
       let used = take (nat (max_n_of objs)) ctxs in
       write_results (\<lambda>obj r. bindE (objective_msg nz cc (\<lambda>t b. bias_real cc t (Re b)) used obj) (\<lambda>m.
           sum_metadata cc ctxs used (r\<lparr>ct_msg := m\<rparr>))) objs results)))"

definition wsum_group_complex :: "(complex \<Rightarrow> bool) \<Rightarrow> CkksContext \<Rightarrow> Ciphertext list \<Rightarrow> Objective list \<Rightarrow> Ciphertext list
    \<Rightarrow> cpp_error + Ciphertext list" where
  "wsum_group_complex nz cc ctxs objs results =
     bindE (guardE Assert_failed (\<forall>obj \<in> set objs. obj_target_level obj \<noteq> -1)) (\<lambda>_.
     bindE (guardE Assert_failed (objs \<noteq> [] \<longrightarrow> (\<forall>c \<in> set ctxs. ct_noise c = 1 \<and> ct_keyID c = ct_keyID (hd ctxs)))) (\<lambda>_.
     bindE (guardE Undefined_behaviour (max_n_of objs \<le> int (length ctxs))) (\<lambda>_.
     bindE (write_results (\<lambda>obj r. growToLevel cc (obj_target_level obj) r) objs results) (\<lambda>results.
     bindE (mapE (\<lambda>c.
         if cc_technique cc \<noteq> FIXEDMANUAL \<and> ct_noise c = 2
         then bindE (copy_ct cc c fresh_ciphertext) (rescaleInternal cc)
         else Inr c) (take (nat (max_n_of objs)) ctxs)) (\<lambda>src.
       write_results (\<lambda>obj r. bindE (objective_msg nz cc (bias_complex cc) src obj) (\<lambda>m.
           sum_metadata cc ctxs ctxs (r\<lparr>ct_msg := m\<rparr>))) objs results)))))"

subsection \<open>Grouping\<close>

definition MAX_OUTPUTS :: int where
  "MAX_OUTPUTS = 8"

text \<open>The \<open>while (n_out > 0)\<close> loop: \<open>body\<close> evaluates one group, whose objectives come off the back of
  the sorted vector.\<close>

partial_function (option) group_loop :: "(Objective list \<Rightarrow> 's \<Rightarrow> cpp_error + 's) \<Rightarrow> int \<Rightarrow> int \<Rightarrow> Objective list \<Rightarrow> 's
    \<Rightarrow> (cpp_error + 's) option" where
  "group_loop body n_out groups out_ctxt st =
     (if n_out > 0 then
        if groups = 0 then Some (Inl Undefined_behaviour)
        else
          let group_size = (n_out + groups - 1) sdiv groups;
              k = nat group_size
          in if k > length out_ctxt then Some (Inl Undefined_behaviour)
             else (case body (take k (rev out_ctxt)) st of
                     Inl e \<Rightarrow> Some (Inl e)
                   | Inr st \<Rightarrow> group_loop body (n_out - group_size) (groups - 1)
                       (take (length out_ctxt - k) out_ctxt) st)
      else Some (Inr st))"

definition sort_objectives :: "Objective list \<Rightarrow> Objective list" where
  "sort_objectives = sort_key (\<lambda>o'. (obj_n o', obj_ctxt o'))"

definition make_objectives :: "(complex list \<Rightarrow> cpp_error + complex list) \<Rightarrow> complex list list \<Rightarrow> int list
    \<Rightarrow> cpp_error + Objective list" where
  "make_objectives trim weights target_level =
     mapE (\<lambda>(i, ws, t). bindE (trim ws) (\<lambda>ws.
         Inr \<lparr>obj_n = int (length ws) - 1, obj_target_level = t, obj_weights = ws, obj_ctxt = i\<rparr>))
       (zip [0..<length weights] (zip weights target_level))"

definition eval_multiple :: "(complex list \<Rightarrow> cpp_error + complex list)
    \<Rightarrow> (CkksContext \<Rightarrow> Ciphertext list \<Rightarrow> Objective list \<Rightarrow> Ciphertext list \<Rightarrow> cpp_error + Ciphertext list)
    \<Rightarrow> CkksContext \<Rightarrow> Ciphertext list \<Rightarrow> complex list list \<Rightarrow> int list \<Rightarrow> bool \<Rightarrow> (cpp_error + Ciphertext list) option" where
  "eval_multiple trim eval_group cc ctxs weights target_level resc =
     (case bindE (guardE Undefined_behaviour (ctxs \<noteq> [])) (\<lambda>_.
           bindE (guardE Assert_failed (length weights = length target_level)) (\<lambda>_.
           bindE (mapE (\<lambda>t. growToLevel cc t fresh_ciphertext) target_level) (\<lambda>results.
           bindE (make_objectives trim weights target_level) (\<lambda>objs. Inr (results, objs))))) of
        Inl e \<Rightarrow> Some (Inl e)
      | Inr (results, objs) \<Rightarrow>
        let n_out = int (length weights) in
        map_option (\<lambda>r. bindE r (\<lambda>results. if resc then mapE (rescale cc) results else Inr results))
          (group_loop (eval_group cc ctxs) n_out ((n_out + MAX_OUTPUTS - 1) sdiv MAX_OUTPUTS) (sort_objectives objs) results))"

definition evalMultiplePartialLinearWSumWithBias :: "(complex \<Rightarrow> bool) \<Rightarrow> CkksContext \<Rightarrow> Ciphertext list \<Rightarrow> real list list
    \<Rightarrow> int list \<Rightarrow> bool \<Rightarrow> (cpp_error + Ciphertext list) option" where
  "evalMultiplePartialLinearWSumWithBias nz cc ctxs weights target_level resc =
     eval_multiple (trim_real nz) (wsum_group_real nz) cc ctxs (map (map of_real) weights) target_level resc"

definition evalMultiplePartialLinearWSumComplex :: "(complex \<Rightarrow> bool) \<Rightarrow> CkksContext \<Rightarrow> Ciphertext list \<Rightarrow> complex list list
    \<Rightarrow> int list \<Rightarrow> bool \<Rightarrow> (cpp_error + Ciphertext list) option" where
  "evalMultiplePartialLinearWSumComplex nz cc ctxs weights target_level resc =
     eval_multiple (\<lambda>ws. Inr (trim_complex nz ws)) (wsum_group_complex nz) cc ctxs weights target_level resc"

end
