(* ===== verification/CkksCorrect.thy ===== *)
theory CkksCorrect
  imports CkksMult
begin

text \<open>
  What the arithmetic of theories CkksArith and CkksMult computes under the flexible rescaling
  techniques: every operation returns, keeps ciphertexts well scaled and computes the sum,
  difference or product of the encrypted values, whatever the levels and degrees of its operands.
\<close>

section \<open>Operands and results\<close>

text \<open>A well-scaled ciphertext that is not extended; at level 0 it has degree 1.\<close>

definition operand :: "CkksContext \<Rightarrow> Ciphertext \<Rightarrow> bool" where
  "operand cc ct \<longleftrightarrow> ct_ok cc ct \<and> \<not> ct_up0 ct \<and> \<not> ct_up1 ct \<and> (ct_noise ct = 2 \<longrightarrow> 1 \<le> ct_level ct)"

definition plain_operand :: "CkksContext \<Rightarrow> Plaintext \<Rightarrow> bool" where
  "plain_operand cc pt \<longleftrightarrow> pt_ok cc pt \<and> \<not> pt_up pt \<and> (pt_noise pt = 2 \<longrightarrow> 1 \<le> pt_level pt)"

definition result :: "CkksContext \<Rightarrow> int \<Rightarrow> int \<Rightarrow> string \<Rightarrow> int \<Rightarrow> msg \<Rightarrow> Ciphertext \<Rightarrow> bool" where
  "result cc n l key slots m ct \<longleftrightarrow> ct_ok cc ct \<and> ct_noise ct = n \<and> ct_level ct = l \<and> ct_keyID ct = key
     \<and> ct_slots ct = slots \<and> \<not> ct_up0 ct \<and> \<not> ct_up1 ct \<and> decode ct = m"

text \<open>The degree at which two operands meet: the lower one's, or the larger degree at equal levels.\<close>

definition meet_noise :: "int \<Rightarrow> int \<Rightarrow> int \<Rightarrow> int \<Rightarrow> int" where
  "meet_noise n l n' l' = (if l < l' then n else if l' < l then n' else max n n')"

lemma operand_target: "operand cc ct \<Longrightarrow> target_ok cc (ct_noise ct) (ct_level ct)"
  by (auto simp: operand_def intro: target_ok_ct)

lemma operand_noise: "operand cc ct \<Longrightarrow> ct_noise ct = 1 \<or> ct_noise ct = 2"
  by (auto simp: operand_def ct_ok_def)

lemma operand_state: "operand cc ct \<Longrightarrow> ct_state ct = None"
  by (auto simp: operand_def ct_ok_def)

lemma operand_factor: "operand cc ct \<Longrightarrow> ct_factor ct = scale_of cc (ct_noise ct) (ct_level ct)"
  by (auto simp: operand_def ct_ok_def)

lemma operand_factor_pos: "tables_ok cc \<Longrightarrow> operand cc ct \<Longrightarrow> 0 < ct_factor ct"
  using scale_of_pos by (auto simp: operand_def ct_ok_def)

lemma flexible_auto: "flexible cc \<Longrightarrow> auto_rescale cc"
  by (auto simp: flexible_def auto_rescale_def)

lemma flexible_not_fixed: "flexible cc \<Longrightarrow> cc_technique cc \<noteq> FIXEDMANUAL" "flexible cc \<Longrightarrow> cc_technique cc \<noteq> FIXEDAUTO"
  by (auto simp: flexible_def)

lemma copy_fresh: "ct_state b = None \<Longrightarrow> copy_ct cc b fresh_ciphertext = Inr b"
  by (cases b) (simp add: copy_ct_def fresh_ciphertext_def copyMetadata_def ensure_ct_def getLevel_def)

text \<open>Two operands of one shape have one scale.\<close>

definition same_scale :: "Ciphertext \<Rightarrow> Ciphertext \<Rightarrow> bool" where
  "same_scale b ct \<longleftrightarrow> ct_level ct = ct_level b \<and> ct_noise ct = ct_noise b \<and> ct_factor ct = ct_factor b"

lemma adjusted_operand:
  assumes "adjusted cc n l ct ct'" and "operand cc ct" and "target_ok cc n l"
  shows "operand cc ct'"
  using assms by (auto simp: adjusted_def operand_def target_ok_def)

lemma adjusted_same_scale:
  assumes "adjusted cc (ct_noise b) (ct_level b) ct ct'" and "operand cc b"
  shows "same_scale b ct'"
  using assms by (auto simp: adjusted_def same_scale_def operand_def ct_ok_def)

lemma adjust_to:
  assumes "tables_ok cc" and "exact_primes cc" and "flexible cc" and "operand cc ct" and "operand cc b"
  shows "\<exists>ct'. adjustForAddOrSub cc b ct = Inr (adjustable ct (ct_noise b) (ct_level b), ct')
    \<and> (if adjustable ct (ct_noise b) (ct_level b) then adjusted cc (ct_noise b) (ct_level b) ct ct' else ct' = ct)"
proof -
  have c: "ct_ok cc ct" using assms(4) by (simp add: operand_def)
  have "adjustForAddOrSub cc b ct
      = adjustScaleAndLevel cc (ct_noise b) (ct_level b) (scale_of cc (ct_noise b) (ct_level b)) ct"
    by (simp only: adjustForAddOrSub_def flexible_auto [OF assms(3)] flexible_not_fixed(1) [OF assms(3)]
      operand_factor [OF assms(5)] getLevel_resident [OF operand_state [OF assms(5)]] if_True if_False)
  then show ?thesis
    by (simp only:) (rule adjust_flexible [OF assms(1-3) c operand_target [OF assms(5)]])
qed

lemma adjustable_other:
  "\<not> adjustable ct (ct_noise b) (ct_level b) \<Longrightarrow> adjustable b (ct_noise ct) (ct_level ct)"
  by (auto simp: adjustable_def)

lemma adjustable_meet:
  assumes "adjustable ct (ct_noise b) (ct_level b)"
  shows "meet_noise (ct_noise ct) (ct_level ct) (ct_noise b) (ct_level b) = ct_noise b"
    "min (ct_level ct) (ct_level b) = ct_level b"
  using assms unfolding adjustable_def meet_noise_def by (simp_all add: min_def max_def) linarith+

lemma meet_commute: "meet_noise n l n' l' = meet_noise n' l' n l"
  by (auto simp: meet_noise_def)

section \<open>Sums and differences\<close>

lemma add_tail_same:
  assumes "flexible cc" and "operand cc ct" and "operand cc b" and "same_scale b ct" and "ct_keyID ct = ct_keyID b"
  shows "\<exists>ct'. add_tail cc b ct = Inr ct' \<and> result cc (ct_noise b) (ct_level b) (ct_keyID ct)
     (max (ct_slots ct) (ct_slots b)) (msg_add (decode ct) (decode b)) ct'"
  using assms
  by (auto simp: add_tail_def same_scale_def operand_def ct_ok_def addMetadata_def result_def decode_def msg_add_def
      add_divide_distrib Let_def)

lemma sub_tail_same:
  assumes "flexible cc" and "operand cc ct" and "operand cc b" and "same_scale b ct" and "ct_keyID ct = ct_keyID b"
  shows "\<exists>ct'. sub_tail cc b ct = Inr ct' \<and> result cc (ct_noise b) (ct_level b) (ct_keyID ct)
     (max (ct_slots ct) (ct_slots b)) (msg_sub (decode ct) (decode b)) ct'"
  using assms
  by (auto simp: sub_tail_def same_scale_def operand_def ct_ok_def addMetadata_def result_def decode_def msg_sub_def
      diff_divide_distrib Let_def)

text \<open>The alignment at the head of \<open>add\<close> and \<open>sub\<close>.\<close>

lemma align_this_flexible:
  assumes "tables_ok cc" and "exact_primes cc" and "flexible cc" and "operand cc ct" and "operand cc b"
    and "ct_keyID ct = ct_keyID b"
  shows "\<exists>ct'. bindE (ensure_ct cc ct) (align_this cc b) = Inr (adjustable ct (ct_noise b) (ct_level b), ct')
    \<and> (if adjustable ct (ct_noise b) (ct_level b) then adjusted cc (ct_noise b) (ct_level b) ct ct' else ct' = ct)"
proof -
  have "\<not> extended2 b ct" using assms(4,5) by (simp add: extended2_def operand_def)
  then show ?thesis
    using adjust_to [OF assms(1-5)] operand_state [OF assms(4)] flexible_auto [OF assms(3)] assms(6)
    by (simp add: align_this_def)
qed

lemma adjusted_copy_flexible:
  assumes "tables_ok cc" and "exact_primes cc" and "flexible cc" and "operand cc ct" and "operand cc b"
    and "\<not> adjustable ct (ct_noise b) (ct_level b)"
  shows "\<exists>b'. adjusted_copy cc b ct = Inr (True, b') \<and> adjusted cc (ct_noise ct) (ct_level ct) b b'"
  using adjust_to [OF assms(1-3,5,4)] adjustable_other [OF assms(6)] operand_state [OF assms(5)]
  by (simp add: adjusted_copy_def copy_fresh)

lemma adjusted_keeps:
  assumes "adjusted cc n l ct ct'"
  shows "ct_keyID ct' = ct_keyID ct" "ct_slots ct' = ct_slots ct" "decode ct' = decode ct" "ct_noise ct' = n" "ct_level ct' = l"
  using assms by (auto simp: adjusted_def)

lemma ct_add_adjustable:
  assumes "tables_ok cc" and "exact_primes cc" and "flexible cc" and "operand cc ct" and "operand cc b"
    and "ct_keyID ct = ct_keyID b" and "adjustable ct (ct_noise b) (ct_level b)"
  shows "\<exists>ct'. ct_add cc b ct = Some (Inr ct') \<and> result cc (ct_noise b) (ct_level b) (ct_keyID ct)
     (max (ct_slots ct) (ct_slots b)) (msg_add (decode ct) (decode b)) ct'"
proof -
  obtain ct1 where h: "bindE (ensure_ct cc ct) (align_this cc b) = Inr (True, ct1)"
      and a: "adjusted cc (ct_noise b) (ct_level b) ct ct1"
    using align_this_flexible [OF assms(1-6)] assms(7) by auto
  note k = adjusted_keeps [OF a]
  have "\<exists>ct'. add_tail cc b ct1 = Inr ct' \<and> result cc (ct_noise b) (ct_level b) (ct_keyID ct)
     (max (ct_slots ct) (ct_slots b)) (msg_add (decode ct) (decode b)) ct'"
    using add_tail_same [OF assms(3) adjusted_operand [OF a assms(4) operand_target [OF assms(5)]] assms(5)
        adjusted_same_scale [OF a assms(5)]] k(1-3) assms(6) by simp
  then show ?thesis by (subst ct_add.simps) (auto simp: h)
qed

lemma ct_add_flexible:
  assumes "tables_ok cc" and "exact_primes cc" and "flexible cc" and "operand cc ct" and "operand cc b"
    and "ct_keyID ct = ct_keyID b"
  shows "\<exists>ct'. ct_add cc b ct = Some (Inr ct')
     \<and> result cc (meet_noise (ct_noise ct) (ct_level ct) (ct_noise b) (ct_level b)) (min (ct_level ct) (ct_level b))
         (ct_keyID ct) (max (ct_slots ct) (ct_slots b)) (msg_add (decode ct) (decode b)) ct'"
proof (cases "adjustable ct (ct_noise b) (ct_level b)")
  case True
  then show ?thesis using ct_add_adjustable [OF assms] adjustable_meet [OF True] by simp
next
  case False
  obtain b' where b: "adjusted_copy cc b ct = Inr (True, b')" "adjusted cc (ct_noise ct) (ct_level ct) b b'"
    using adjusted_copy_flexible [OF assms(1-5) False] by blast
  note k = adjusted_keeps [OF b(2)]
  have ob: "operand cc b'" using adjusted_operand [OF b(2) assms(5) operand_target [OF assms(4)]] .
  have "ct_add cc b ct = ct_add cc b' ct"
    using align_this_flexible [OF assms] False b(1) by (subst ct_add.simps) auto
  moreover have "adjustable ct (ct_noise b') (ct_level b')" using k by (simp add: adjustable_def)
  ultimately show ?thesis
    using ct_add_adjustable [OF assms(1-4) ob] k assms(6) adjustable_meet [OF adjustable_other [OF False]]
    by (simp add: meet_commute [of "ct_noise ct"] min.commute)
qed


lemma demo_operand: "n = 1 \<or> n = 2 \<and> 1 \<le> l \<Longrightarrow> 0 \<le> l \<Longrightarrow> l \<le> 2 \<Longrightarrow> operand demo_cc (demo_ct n l m)"
  using demo_ct_ok [of n l m] by (auto simp: operand_def demo_ct_def fresh_ciphertext_def)

lemma demo_fields [simp]:
  "ct_noise (demo_ct n l m) = n" "ct_level (demo_ct n l m) = l" "ct_keyID (demo_ct n l m) = ''key''"
  "ct_slots (demo_ct n l m) = 8" "ct_up0 (demo_ct n l m) = False" "ct_up1 (demo_ct n l m) = False"
  by (simp_all add: demo_ct_def fresh_ciphertext_def)


lemma ct_sub_adjustable:
  assumes "tables_ok cc" and "exact_primes cc" and "flexible cc" and "operand cc ct" and "operand cc b"
    and "ct_keyID ct = ct_keyID b" and "adjustable ct (ct_noise b) (ct_level b)"
  shows "\<exists>ct'. ct_sub cc b ct = Some (Inr ct') \<and> result cc (ct_noise b) (ct_level b) (ct_keyID ct)
     (max (ct_slots ct) (ct_slots b)) (msg_sub (decode ct) (decode b)) ct'"
proof -
  obtain ct1 where h: "bindE (ensure_ct cc ct) (align_this cc b) = Inr (True, ct1)"
      and a: "adjusted cc (ct_noise b) (ct_level b) ct ct1"
    using align_this_flexible [OF assms(1-6)] assms(7) by auto
  note k = adjusted_keeps [OF a]
  have "\<exists>ct'. sub_tail cc b ct1 = Inr ct' \<and> result cc (ct_noise b) (ct_level b) (ct_keyID ct)
     (max (ct_slots ct) (ct_slots b)) (msg_sub (decode ct) (decode b)) ct'"
    using sub_tail_same [OF assms(3) adjusted_operand [OF a assms(4) operand_target [OF assms(5)]] assms(5)
        adjusted_same_scale [OF a assms(5)]] k(1-3) assms(6) by simp
  then show ?thesis by (subst ct_sub.simps) (auto simp: h)
qed

lemma ct_sub_flexible:
  assumes "tables_ok cc" and "exact_primes cc" and "flexible cc" and "operand cc ct" and "operand cc b"
    and "ct_keyID ct = ct_keyID b"
  shows "\<exists>ct'. ct_sub cc b ct = Some (Inr ct')
     \<and> result cc (meet_noise (ct_noise ct) (ct_level ct) (ct_noise b) (ct_level b)) (min (ct_level ct) (ct_level b))
         (ct_keyID ct) (max (ct_slots ct) (ct_slots b)) (msg_sub (decode ct) (decode b)) ct'"
proof (cases "adjustable ct (ct_noise b) (ct_level b)")
  case True
  then show ?thesis using ct_sub_adjustable [OF assms] adjustable_meet [OF True] by simp
next
  case False
  obtain b' where b: "adjusted_copy cc b ct = Inr (True, b')" "adjusted cc (ct_noise ct) (ct_level ct) b b'"
    using adjusted_copy_flexible [OF assms(1-5) False] by blast
  note k = adjusted_keeps [OF b(2)]
  have ob: "operand cc b'" using adjusted_operand [OF b(2) assms(5) operand_target [OF assms(4)]] .
  have "ct_sub cc b ct = ct_sub cc b' ct"
    using align_this_flexible [OF assms] False b(1) by (subst ct_sub.simps) auto
  moreover have "adjustable ct (ct_noise b') (ct_level b')" using k by (simp add: adjustable_def)
  ultimately show ?thesis
    using ct_sub_adjustable [OF assms(1-4) ob] k assms(6) adjustable_meet [OF adjustable_other [OF False]]
    by (simp add: meet_commute [of "ct_noise ct"] min.commute)
qed

text \<open>Under the flexible techniques \<open>sub\<close> always returns the difference of the operands' values, as
  a well-scaled ciphertext at the lower level.\<close>

theorem sub_correct:
  assumes "tables_ok cc" and "exact_primes cc" and "flexible cc" and "operand cc ct" and "operand cc b"
    and "ct_keyID ct = ct_keyID b"
  shows "\<exists>ct'. ct_sub cc b ct = Some (Inr ct')
     \<and> result cc (meet_noise (ct_noise ct) (ct_level ct) (ct_noise b) (ct_level b)) (min (ct_level ct) (ct_level b))
         (ct_keyID ct) (max (ct_slots ct) (ct_slots b)) (msg_sub (decode ct) (decode b)) ct'"
  using assms by (rule ct_sub_flexible)

theorem sub_correct_witness:
  "\<exists>ct'. ct_sub demo_cc (demo_ct 2 2 (\<lambda>j. of_nat j)) (demo_ct 1 2 (\<lambda>j. 1)) = Some (Inr ct')
     \<and> result demo_cc 2 2 ''key'' 8 (msg_sub (decode (demo_ct 1 2 (\<lambda>j. 1))) (decode (demo_ct 2 2 (\<lambda>j. of_nat j)))) ct'"
  using sub_correct [OF demo_ok demo_operand demo_operand, of 1 2 2 2 "\<lambda>j. 1" "\<lambda>j. of_nat j"]
  by (simp add: meet_noise_def)

lemma addMutable_flexible:
  assumes "tables_ok cc" and "exact_primes cc" and "flexible cc" and "operand cc ct" and "operand cc b"
    and "ct_keyID ct = ct_keyID b"
  shows "\<exists>ct' b'. addMutable cc b ct = Some (Inr (ct', b'))
     \<and> result cc (meet_noise (ct_noise ct) (ct_level ct) (ct_noise b) (ct_level b)) (min (ct_level ct) (ct_level b))
         (ct_keyID ct) (max (ct_slots ct) (ct_slots b)) (msg_add (decode ct) (decode b)) ct'
     \<and> operand cc b' \<and> decode b' = decode b \<and> ct_keyID b' = ct_keyID b \<and> ct_slots b' = ct_slots b \<and> ct_level b' \<le> ct_level b"
proof (cases "adjustable ct (ct_noise b) (ct_level b)")
  case True
  obtain ct1 where h: "align_this cc b ct = Inr (True, ct1)" and a: "adjusted cc (ct_noise b) (ct_level b) ct ct1"
    using align_this_flexible [OF assms] True operand_state [OF assms(4)] by auto
  note k = adjusted_keeps [OF a]
  have o1: "operand cc ct1" using adjusted_operand [OF a assms(4) operand_target [OF assms(5)]] .
  have "addMutable_tail cc b ct1 = Inr ct1"
    using assms(3) k operand_state [OF o1] operand_state [OF assms(5)] by (simp add: addMutable_tail_def)
  moreover have "\<exists>ct'. ct_add cc b ct1 = Some (Inr ct') \<and> result cc (ct_noise b) (ct_level b) (ct_keyID ct)
     (max (ct_slots ct) (ct_slots b)) (msg_add (decode ct) (decode b)) ct'"
    using ct_add_adjustable [OF assms(1-3) o1 assms(5)] k assms(6) by (simp add: adjustable_def)
  ultimately show ?thesis
    using h assms(5) adjustable_meet [OF True] by (auto simp: addMutable_def with_operand_def)
next
  case False
  have h: "align_this cc b ct = Inr (False, ct)"
    using align_this_flexible [OF assms] False operand_state [OF assms(4)] by auto
  obtain b' where b: "adjustForAddOrSub cc ct b = Inr (True, b')" "adjusted cc (ct_noise ct) (ct_level ct) b b'"
    using adjust_to [OF assms(1-3,5,4)] adjustable_other [OF False] by auto
  note k = adjusted_keeps [OF b(2)]
  have ob: "operand cc b'" using adjusted_operand [OF b(2) assms(5) operand_target [OF assms(4)]] .
  have "\<exists>ct'. ct_add cc b' ct = Some (Inr ct') \<and> result cc (ct_noise ct) (ct_level ct) (ct_keyID ct)
     (max (ct_slots ct) (ct_slots b)) (msg_add (decode ct) (decode b)) ct'"
    using ct_add_adjustable [OF assms(1-4) ob] k assms(6) by (simp add: adjustable_def)
  moreover have "ct_level ct \<le> ct_level b" using False by (auto simp: adjustable_def)
  ultimately show ?thesis
    using h b(1) ob k adjustable_meet [OF adjustable_other [OF False]]
    by (auto simp: addMutable_def with_operand_def meet_commute [of "ct_noise ct"] min.commute)
qed



section \<open>Plaintext operands\<close>

lemma plain_factor: "plain_operand cc pt \<Longrightarrow> pt_factor pt = scale_of cc (pt_noise pt) (pt_level pt)"
  by (auto simp: plain_operand_def pt_ok_def)

lemma plain_target: "plain_operand cc pt \<Longrightarrow> target_ok cc (pt_noise pt) (pt_level pt)"
  by (auto simp: plain_operand_def pt_ok_def target_ok_def)

lemma adjust_to_plain:
  assumes "tables_ok cc" and "exact_primes cc" and "flexible cc" and "operand cc ct" and "plain_operand cc b"
  shows "\<exists>ct'. adjustCiphertextToPlaintext cc b ct = Inr (adjustable ct (pt_noise b) (pt_level b), ct')
    \<and> (if adjustable ct (pt_noise b) (pt_level b) then adjusted cc (pt_noise b) (pt_level b) ct ct' else ct' = ct)"
proof -
  have c: "ct_ok cc ct" using assms(4) by (simp add: operand_def)
  have "adjustCiphertextToPlaintext cc b ct
      = adjustScaleAndLevel cc (pt_noise b) (pt_level b) (scale_of cc (pt_noise b) (pt_level b)) ct"
    by (simp only: adjustCiphertextToPlaintext_def flexible_auto [OF assms(3)] plain_factor [OF assms(5)] if_True)
  then show ?thesis
    by (simp only:) (rule adjust_flexible [OF assms(1-3) c plain_target [OF assms(5)]])
qed

lemma adjust_plain_to:
  assumes "tables_ok cc" and "exact_primes cc" and "flexible cc" and "operand cc ct" and "plain_operand cc b"
    and "\<not> adjustable ct (pt_noise b) (pt_level b)"
  shows "\<exists>b'. adjustPlaintextToCiphertext cc b ct fresh_plaintext = Inr (True, b')
    \<and> pt_adjusted cc (ct_noise ct) (ct_level ct) b b'"
proof -
  have c: "pt_ok cc b" using assms(5) by (simp add: plain_operand_def)
  have a: "pt_adjustable b (ct_noise ct) (ct_level ct)" using assms(6) by (auto simp: adjustable_def pt_adjustable_def)
  have cp: "pt_copy b fresh_plaintext = Inr b" by (simp add: pt_copy_def fresh_plaintext_def pt_copyMetadata_def)
  have "adjustPlaintextToCiphertext cc b ct fresh_plaintext
      = pt_adjustScaleAndLevel cc (ct_noise ct) (ct_level ct) (scale_of cc (ct_noise ct) (ct_level ct)) b"
    by (simp only: adjustPlaintextToCiphertext_def flexible_auto [OF assms(3)] operand_factor [OF assms(4)] if_True cp bindE.simps
      getLevel_resident [OF operand_state [OF assms(4)]])
  then show ?thesis
    using pt_adjust_flexible [OF assms(1-3) c operand_target [OF assms(4)]] a by simp
qed

lemma pt_adjusted_plain: "pt_adjusted cc n l pt pt' \<Longrightarrow> plain_operand cc pt \<Longrightarrow> target_ok cc n l \<Longrightarrow> plain_operand cc pt'"
  by (auto simp: pt_adjusted_def plain_operand_def target_ok_def)

lemma pt_adjusted_keeps:
  assumes "pt_adjusted cc n l pt pt'"
  shows "pt_slots pt' = pt_slots pt" "pt_decode pt' = pt_decode pt" "pt_noise pt' = n" "pt_level pt' = l"
  using assms by (auto simp: pt_adjusted_def)

lemma adjusted_trans: "adjusted cc n l ct ct1 \<Longrightarrow> adjusted cc n' l' ct1 ct2 \<Longrightarrow> adjusted cc n' l' ct ct2"
  by (auto simp: adjusted_def)

lemma rescale_adjusted:
  assumes "tables_ok cc" and "exact_primes cc" and "operand cc ct" and "ct_noise ct = 2"
  shows "\<exists>ct'. rescaleInternal cc ct = Inr ct' \<and> adjusted cc 1 (ct_level ct - 1) ct ct' \<and> operand cc ct'"
proof -
  have "ct_ok cc ct" "1 \<le> ct_level ct" using assms(3,4) by (auto simp: operand_def)
  then obtain ct' where "rescaleInternal cc ct = Inr ct'" "adjusted cc 1 (ct_level ct - 1) ct ct'"
    using rescale_degree2 [OF assms(1) _ assms(4)] assms(2) by (auto simp: adjusted_def)
  then show ?thesis using assms(3) by (auto simp: adjusted_def operand_def)
qed

lemma align_thisPt_flexible:
  assumes "tables_ok cc" and "exact_primes cc" and "flexible cc" and "operand cc ct" and "plain_operand cc b"
  shows "\<exists>ct'. bindE (ensure_ct cc ct) (align_thisPt cc strict b) = Inr (adjustable ct (pt_noise b) (pt_level b), ct')
    \<and> (if adjustable ct (pt_noise b) (pt_level b) then adjusted cc (pt_noise b) (pt_level b) ct ct' else ct' = ct)"
proof -
  have ne: "\<not> extendedPt b ct" using assms(4,5) by (simp add: extendedPt_def operand_def plain_operand_def)
  note st = operand_state [OF assms(4)]
  show ?thesis
  proof (cases "pt_noise b = 1 \<and> ct_noise ct = 2 \<and> pt_level b = ct_level ct - 1")
    case True
    then obtain ct1 where r: "rescaleInternal cc ct = Inr ct1" "adjusted cc 1 (ct_level ct - 1) ct ct1" and o1: "operand cc ct1"
      using rescale_adjusted [OF assms(1,2,4)] by auto
    have "adjustable ct1 (pt_noise b) (pt_level b)" using r(2) True by (simp add: adjustable_def adjusted_def)
    then obtain ct' where "adjustCiphertextToPlaintext cc b ct1 = Inr (True, ct')" "adjusted cc (pt_noise b) (pt_level b) ct1 ct'"
      using adjust_to_plain [OF assms(1-3) o1 assms(5)] by auto
    moreover have "adjustable ct (pt_noise b) (pt_level b)" using True by (simp add: adjustable_def)
    ultimately show ?thesis
      using True r ne st flexible_auto [OF assms(3)] adjusted_trans [OF r(2)] by (simp add: align_thisPt_def)
  next
    case False
    then have "bindE (ensure_ct cc ct) (align_thisPt cc strict b) = adjustCiphertextToPlaintext cc b ct"
      using ne st flexible_auto [OF assms(3)] by (auto simp: align_thisPt_def)
    then show ?thesis using adjust_to_plain [OF assms(1-5)] by simp
  qed
qed

definition same_scalePt :: "Plaintext \<Rightarrow> Ciphertext \<Rightarrow> bool" where
  "same_scalePt b ct \<longleftrightarrow> ct_level ct = pt_level b \<and> ct_noise ct = pt_noise b \<and> ct_factor ct = pt_factor b"

lemma same_scalePt_intro:
  assumes "operand cc ct" and "plain_operand cc b" and "ct_level ct = pt_level b" and "ct_noise ct = pt_noise b"
  shows "same_scalePt b ct"
  using assms by (auto simp: same_scalePt_def operand_def plain_operand_def ct_ok_def pt_ok_def)

lemma addPt_tail_same:
  assumes "flexible cc" and "operand cc ct" and "plain_operand cc b" and "same_scalePt b ct"
  shows "\<exists>ct'. addPt_tail cc b ct = Inr ct' \<and> result cc (pt_noise b) (pt_level b) (ct_keyID ct)
     (max (ct_slots ct) (pt_slots b)) (msg_add (decode ct) (pt_decode b)) ct'"
  using assms
  by (auto simp: addPt_tail_def same_scalePt_def operand_def plain_operand_def ct_ok_def addMetadataPt_def result_def
      decode_def pt_decode_def msg_add_def add_divide_distrib Let_def)

lemma addPt_adjustable:
  assumes "tables_ok cc" and "exact_primes cc" and "flexible cc" and "operand cc ct" and "plain_operand cc b"
    and "adjustable ct (pt_noise b) (pt_level b)"
  shows "\<exists>ct'. addPt cc b ct = Some (Inr ct') \<and> result cc (pt_noise b) (pt_level b) (ct_keyID ct)
     (max (ct_slots ct) (pt_slots b)) (msg_add (decode ct) (pt_decode b)) ct'"
proof -
  obtain ct1 where h: "bindE (ensure_ct cc ct) (align_thisPt cc False b) = Inr (True, ct1)"
      and a: "adjusted cc (pt_noise b) (pt_level b) ct ct1"
    using align_thisPt_flexible [OF assms(1-5), of False] assms(6) by auto
  note k = adjusted_keeps [OF a]
  have o1: "operand cc ct1" using adjusted_operand [OF a assms(4) plain_target [OF assms(5)]] .
  have "\<exists>ct'. addPt_tail cc b ct1 = Inr ct' \<and> result cc (pt_noise b) (pt_level b) (ct_keyID ct)
     (max (ct_slots ct) (pt_slots b)) (msg_add (decode ct) (pt_decode b)) ct'"
    using addPt_tail_same [OF assms(3) o1 assms(5) same_scalePt_intro [OF o1 assms(5)]] k by simp
  then show ?thesis by (subst addPt.simps) (auto simp: h)
qed

text \<open>under the flexible techniques \<open>addPt\<close> always returns the sum of the ciphertext's and the
  plaintext's values; the operand with more towers, or the lower degree at equal towers, is the one
  that is adjusted, so the adjustment failure is never thrown for well-scaled operands.\<close>

theorem addPt_correct:
  assumes "tables_ok cc" and "exact_primes cc" and "flexible cc" and "operand cc ct" and "plain_operand cc b"
  shows "\<exists>ct'. addPt cc b ct = Some (Inr ct')
     \<and> result cc (meet_noise (ct_noise ct) (ct_level ct) (pt_noise b) (pt_level b)) (min (ct_level ct) (pt_level b))
         (ct_keyID ct) (max (ct_slots ct) (pt_slots b)) (msg_add (decode ct) (pt_decode b)) ct'"
proof (cases "adjustable ct (pt_noise b) (pt_level b)")
  case True
  then have "meet_noise (ct_noise ct) (ct_level ct) (pt_noise b) (pt_level b) = pt_noise b" "min (ct_level ct) (pt_level b) = pt_level b"
    unfolding adjustable_def meet_noise_def by (simp_all add: min_def max_def) linarith+
  then show ?thesis using addPt_adjustable [OF assms True] by simp
next
  case False
  obtain b' where b: "adjustPlaintextToCiphertext cc b ct fresh_plaintext = Inr (True, b')"
      "pt_adjusted cc (ct_noise ct) (ct_level ct) b b'"
    using adjust_plain_to [OF assms False] by blast
  note k = pt_adjusted_keeps [OF b(2)]
  have ob: "plain_operand cc b'" using pt_adjusted_plain [OF b(2) assms(5) operand_target [OF assms(4)]] .
  have "addPt cc b ct = addPt cc b' ct"
    using align_thisPt_flexible [OF assms, of False] False b(1) by (subst addPt.simps) auto
  moreover have "adjustable ct (pt_noise b') (pt_level b')" using k by (simp add: adjustable_def)
  moreover have "meet_noise (ct_noise ct) (ct_level ct) (pt_noise b) (pt_level b) = ct_noise ct" "min (ct_level ct) (pt_level b) = ct_level ct"
    using False unfolding adjustable_def meet_noise_def by (simp_all add: min_def max_def)
  ultimately show ?thesis using addPt_adjustable [OF assms(1-4) ob] k by simp
qed

lemma demo_plain: "n = 1 \<or> n = 2 \<and> 1 \<le> l \<Longrightarrow> 0 \<le> l \<Longrightarrow> l \<le> 2 \<Longrightarrow> plain_operand demo_cc (demo_pt n l m)"
  using demo_pt_ok [of n l m] by (auto simp: plain_operand_def demo_pt_def fresh_plaintext_def)

lemma demo_pt_fields [simp]:
  "pt_noise (demo_pt n l m) = n" "pt_level (demo_pt n l m) = l" "pt_slots (demo_pt n l m) = 8"
  by (simp_all add: demo_pt_def)

theorem addPt_correct_witness:
  "\<exists>ct'. addPt demo_cc (demo_pt 1 2 (\<lambda>j. 1)) (demo_ct 2 2 (\<lambda>j. of_nat j)) = Some (Inr ct')
     \<and> result demo_cc 2 2 ''key'' 8 (msg_add (decode (demo_ct 2 2 (\<lambda>j. of_nat j))) (pt_decode (demo_pt 1 2 (\<lambda>j. 1)))) ct'"
  using addPt_correct [OF demo_ok demo_operand demo_plain, of 2 2 1 2 "\<lambda>j. 1" "\<lambda>j. of_nat j"]
  by (simp add: meet_noise_def)

end
