(* ===== verification/CkksProduct.thy ===== *)
theory CkksProduct
  imports CkksCorrect
begin

text \<open>
  Products under the flexible techniques: the operands are aligned, both are rescaled when the
  aligned degree is 2, and the product has degree 2 and the square of the level's scale. Products
  with plaintexts, squares and scalars, and the places where the code does not do what its
  interface says.
\<close>

section \<open>Plaintext products\<close>

text \<open>The level at which the operands are multiplied: one below the aligned level when both had to be
  rescaled.\<close>

definition product_level :: "int \<Rightarrow> int \<Rightarrow> int \<Rightarrow> int \<Rightarrow> int" where
  "product_level n l n' l' = min l l' - (if meet_noise n l n' l' = 2 then 1 else 0)"

lemma product_scale:
  assumes "tables_ok cc" and "0 \<le> l" and "l \<le> cc_L cc"
  shows "scale_of cc 1 l * scale_of cc 1 l = scale_of cc 2 l"
  using tables_pos(2) [OF assms] by (simp add: scale_of_def)

lemma multPt_tail_same:
  assumes "tables_ok cc" and "flexible cc" and "operand cc ct" and "plain_operand cc b"
    and "ct_noise ct = 1" and "pt_noise b = 1" and "ct_level ct = pt_level b"
  shows "\<exists>ct'. multPt_tail cc b resc ct = Inr ct' \<and> result cc 2 (pt_level b) (ct_keyID ct)
     (max (ct_slots ct) (pt_slots b)) (msg_mult (decode ct) (pt_decode b)) ct'"
proof -
  let ?ct = "ct\<lparr>ct_msg := msg_mult (ct_msg ct) (pt_msg b), ct_slots := max (ct_slots ct) (pt_slots b),
    ct_noise := 2, ct_factor := ct_factor ct * pt_factor b\<rparr>"
  note o = operand_state [OF assms(3)] flexible_not_fixed(1) [OF assms(2)]
  have "multPt_tail cc b resc ct = Inr ?ct"
    using o assms(5-7) by (simp add: multPt_tail_def multPt_poly_def multMetadataPt_def Let_def)
  moreover have "ct_factor ct * pt_factor b = scale_of cc 2 (ct_level ct)"
    using product_scale [OF assms(1), of "ct_level ct"] assms(3-7)
    by (simp add: operand_def plain_operand_def ct_ok_def pt_ok_def)
  moreover have "decode ?ct = msg_mult (decode ct) (pt_decode b)"
    by (simp add: decode_def pt_decode_def msg_mult_def)
  ultimately show ?thesis
    using assms(3-7) by (auto simp: result_def ct_ok_def operand_def plain_operand_def)
qed

lemma pt_rescale_adjusted:
  assumes "tables_ok cc" and "exact_primes cc" and "plain_operand cc pt" and "pt_noise pt = 2"
  shows "\<exists>pt'. pt_rescale cc pt = Inr pt' \<and> pt_adjusted cc 1 (pt_level pt - 1) pt pt' \<and> plain_operand cc pt'"
proof -
  have "pt_ok cc pt" "1 \<le> pt_level pt" using assms(3,4) by (auto simp: plain_operand_def)
  then obtain pt' where "pt_rescale cc pt = Inr pt'" "pt_adjusted cc 1 (pt_level pt - 1) pt pt'"
    using pt_rescale_degree2 [OF assms(1,2) _ assms(4)] by auto
  then show ?thesis using assms(3) by (auto simp: pt_adjusted_def plain_operand_def)
qed

text \<open>The two rescales bring aligned operands to degree 1.\<close>

lemma rescale_both_same:
  assumes "tables_ok cc" and "exact_primes cc" and "operand cc ct" and "plain_operand cc b"
    and "ct_noise ct = n" "pt_noise b = n" and "ct_level ct = l" "pt_level b = l"
  shows "\<exists>ct' b'. rescale_both cc b ct = Inr (ct', b')
     \<and> operand cc ct' \<and> adjusted cc 1 (l - (if n = 2 then 1 else 0)) ct ct'
     \<and> plain_operand cc b' \<and> pt_adjusted cc 1 (l - (if n = 2 then 1 else 0)) b b'"
proof (cases "n = 2")
  case True
  then show ?thesis
    using rescale_adjusted [OF assms(1-3)] pt_rescale_adjusted [OF assms(1,2,4)] assms(5-8)
    by (auto simp: rescale_both_def)
next
  case False
  then have "n = 1" using operand_noise [OF assms(3)] assms(5) by auto
  moreover have "adjusted cc n l ct ct" "pt_adjusted cc n l b b"
    using adjusted_refl [of cc ct] pt_adjusted_refl [of cc b] assms(3-8) by (auto simp: operand_def plain_operand_def)
  ultimately show ?thesis using assms(3-8) by (auto simp: rescale_both_def)
qed

lemma align_multPt_flexible:
  assumes "tables_ok cc" and "exact_primes cc" and "flexible cc" and "operand cc ct" and "plain_operand cc b"
  shows "if adjustable ct (pt_noise b) (pt_level b)
    then \<exists>ct'. align_multPt cc b ct = Inr (pt_noise b = 1, ct') \<and> adjusted cc (pt_noise b) (pt_level b) ct ct'
    else align_multPt cc b ct = Inr (False, ct)"
proof -
  have "\<not> extendedPt b ct" using assms(4,5) by (simp add: extendedPt_def operand_def plain_operand_def)
  then show ?thesis
    using adjust_to_plain [OF assms(1-5)] flexible_auto [OF assms(3)]
    by (auto simp: align_multPt_def adjusted_def)
qed

lemma multPt_degree1:
  assumes "tables_ok cc" and "exact_primes cc" and "flexible cc" and "operand cc ct" and "plain_operand cc b"
    and "adjustable ct 1 (pt_level b)" and "pt_noise b = 1"
  shows "\<exists>ct'. multPt cc b resc False ct = Some (Inr ct') \<and> result cc 2 (pt_level b) (ct_keyID ct)
     (max (ct_slots ct) (pt_slots b)) (msg_mult (decode ct) (pt_decode b)) ct'"
proof -
  obtain ct1 where h: "align_multPt cc b ct = Inr (True, ct1)" and a: "adjusted cc 1 (pt_level b) ct ct1"
    using align_multPt_flexible [OF assms(1-5)] assms(6,7) by auto
  note k = adjusted_keeps [OF a]
  have o1: "operand cc ct1" using adjusted_operand [OF a assms(4)] plain_target [OF assms(5)] assms(7) by simp
  have "\<exists>ct'. multPt_tail cc b resc ct1 = Inr ct' \<and> result cc 2 (pt_level b) (ct_keyID ct)
     (max (ct_slots ct) (pt_slots b)) (msg_mult (decode ct) (pt_decode b)) ct'"
    using multPt_tail_same [OF assms(1,3) o1 assms(5) _ assms(7)] k by simp
  then show ?thesis
    using h k assms(7) operand_state [OF assms(4)] by (subst multPt.simps) auto
qed

text \<open>A call that recurses: the operands meet at degree \<open>n\<close> and level \<open>l\<close> after the adjustments.\<close>

lemma multPt_recurse:
  assumes "tables_ok cc" and "exact_primes cc" and "flexible cc" and "operand cc ct" and "plain_operand cc b"
    and "align_multPt cc b ct = Inr (False, ct1)" and "adjusted cc n l ct ct1"
    and "adjustPlaintextToCiphertext cc b ct1 fresh_plaintext = Inr (True, b1)" and "pt_adjusted cc n l b b1"
    and "target_ok cc n l"
  shows "\<exists>ct'. multPt cc b resc False ct = Some (Inr ct') \<and> result cc 2 (l - (if n = 2 then 1 else 0)) (ct_keyID ct)
     (max (ct_slots ct) (pt_slots b)) (msg_mult (decode ct) (pt_decode b)) ct'"
proof -
  have o1: "operand cc ct1" using adjusted_operand [OF assms(7,4,10)] .
  have p1: "plain_operand cc b1" using pt_adjusted_plain [OF assms(9,5,10)] .
  obtain ct2 b2 where r: "rescale_both cc b1 ct1 = Inr (ct2, b2)" and o2: "operand cc ct2" and p2: "plain_operand cc b2"
      and a2: "adjusted cc 1 (l - (if n = 2 then 1 else 0)) ct1 ct2"
        "pt_adjusted cc 1 (l - (if n = 2 then 1 else 0)) b1 b2"
    using rescale_both_same [OF assms(1,2) o1 p1, of n l] assms(7,9) by (auto simp: adjusted_def pt_adjusted_def)
  have "multPt cc b resc False ct = multPt cc b2 resc False ct2"
    using assms(6,8) r operand_state [OF assms(4)] by (subst multPt.simps) simp
  moreover have "\<exists>ct'. multPt cc b2 resc False ct2 = Some (Inr ct') \<and> result cc 2 (pt_level b2) (ct_keyID ct2)
     (max (ct_slots ct2) (pt_slots b2)) (msg_mult (decode ct2) (pt_decode b2)) ct'"
    using a2 by (intro multPt_degree1 [OF assms(1-3) o2 p2]) (auto simp: adjustable_def adjusted_def pt_adjusted_def)
  ultimately show ?thesis using a2 assms(7,9) by (simp add: adjusted_def pt_adjusted_def)
qed



section \<open>Ciphertext products\<close>

definition has_eval_key :: "CkksContext \<Rightarrow> string \<Rightarrow> bool" where
  "has_eval_key cc key \<longleftrightarrow> (\<exists>k. GetEvalKey key (cc_keys cc) = Inr k)"

lemma mult_core_same:
  assumes "tables_ok cc" and "flexible cc" and "operand cc ct" and "operand cc b" and "ct_keyID ct = ct_keyID b"
    and "ct_noise ct = 1" and "ct_noise b = 1" and "ct_level ct = ct_level b" and "has_eval_key cc (ct_keyID ct)"
  shows "\<exists>ct'. mult_core cc b resc True ct = Inr ct' \<and> result cc 2 (ct_level b) (ct_keyID ct)
     (max (ct_slots ct) (ct_slots b)) (msg_mult (decode ct) (decode b)) ct'"
proof -
  let ?ct = "ct\<lparr>ct_msg := msg_mult (ct_msg ct) (ct_msg b), ct_up0 := False, ct_up1 := False,
    ct_slots := max (ct_slots ct) (ct_slots b), ct_keyID := ct_keyID ct, ct_noise := 2, ct_factor := ct_factor ct * ct_factor b\<rparr>"
  have ne: "\<not> extended2 b ct" using assms(3,4) by (simp add: extended2_def operand_def)
  obtain k where "GetEvalKey (ct_keyID ct) (cc_keys cc) = Inr k" using assms(9) by (auto simp: has_eval_key_def)
  then have "mult_core cc b resc True ct = Inr ?ct"
    using assms(5-8) flexible_not_fixed [OF assms(2)] operand_state [OF assms(3)] operand_state [OF assms(4)] ne
    by (simp add: mult_core_def multMetadata_def Let_def)
  moreover have "ct_factor ct * ct_factor b = scale_of cc 2 (ct_level ct)"
    using product_scale [OF assms(1), of "ct_level ct"] assms(3,4,6-8) by (simp add: operand_def ct_ok_def)
  moreover have "decode ?ct = msg_mult (decode ct) (decode b)"
    by (simp add: decode_def msg_mult_def)
  ultimately show ?thesis
    using assms(3,4,8) by (auto simp: result_def ct_ok_def operand_def)
qed

text \<open>Aligned operands: what \<open>align_mult\<close> leaves to multiply.\<close>

lemma align_mult_flexible:
  assumes "tables_ok cc" and "exact_primes cc" and "flexible cc" and "operand cc ct" and "operand cc b"
  defines "n \<equiv> meet_noise (ct_noise ct) (ct_level ct) (ct_noise b) (ct_level b)" and "l \<equiv> min (ct_level ct) (ct_level b)"
  shows "\<exists>ct' bp. align_mult cc b ct = Inr (ct', bp) \<and> operand cc ct' \<and> adjusted cc 1 (l - (if n = 2 then 1 else 0)) ct ct'
    \<and> (case bp of None \<Rightarrow> ct_noise b = 1 \<and> ct_level b = l - (if n = 2 then 1 else 0)
       | Some b' \<Rightarrow> operand cc b' \<and> adjusted cc 1 (l - (if n = 2 then 1 else 0)) b b')"
proof -
  have ne: "\<not> mult_extended b ct" using assms(4,5) by (simp add: mult_extended_def operand_def)
  have ab: "adjusted cc (ct_noise b) (ct_level b) b b" and ac: "adjusted cc (ct_noise ct) (ct_level ct) ct ct"
    using adjusted_refl assms(4,5) by (auto simp: operand_def)
  obtain ok ct1 bp where r1: "adjustForAddOrSub cc b ct = Inr (ok, ct1)"
    and r2: "(if ok then Inr None else bindE (adjusted_copy cc b ct1) (\<lambda>(ok, bq). bindE (guardE Runtime_error ok) (\<lambda>_. Inr (Some bq))))
      = Inr bp"
    and a1: "adjusted cc n l ct ct1" and o1: "operand cc ct1"
    and bp: "case bp of None \<Rightarrow> ct_noise b = n \<and> ct_level b = l | Some b' \<Rightarrow> operand cc b' \<and> adjusted cc n l b b'"
  proof (cases "adjustable ct (ct_noise b) (ct_level b)")
    case True
    then have nl: "n = ct_noise b" "l = ct_level b" using adjustable_meet unfolding n_def l_def by metis+
    obtain ct1 where "adjustForAddOrSub cc b ct = Inr (True, ct1)" and a: "adjusted cc (ct_noise b) (ct_level b) ct ct1"
      using adjust_to [OF assms(1-5)] True by auto
    then show ?thesis
      using that [of True ct1 None] adjusted_operand [OF a assms(4) operand_target [OF assms(5)]] nl by simp
  next
    case False
    then have nl: "n = ct_noise ct" "l = ct_level ct"
      using adjustable_meet [OF adjustable_other [OF False]] unfolding n_def l_def by (metis meet_commute min.commute)+
    obtain b' where "adjusted_copy cc b ct = Inr (True, b')" and a: "adjusted cc (ct_noise ct) (ct_level ct) b b'"
      using adjusted_copy_flexible [OF assms(1-5) False] by blast
    then show ?thesis
      using that [of False ct "Some b'"] adjusted_operand [OF a assms(5) operand_target [OF assms(4)]] nl ac assms(4)
        adjust_to [OF assms(1-5)] False by auto
  qed
  have e: "align_mult cc b ct = (if ct_noise ct1 = 2
     then bindE (rescaleInternal cc ct1) (\<lambda>ct. bindE (case bp of None \<Rightarrow> copy_ct cc b fresh_ciphertext | Some bq \<Rightarrow> Inr bq) (\<lambda>bq.
          bindE (rescaleInternal cc bq) (\<lambda>bq. Inr (ct, Some bq))))
     else Inr (ct1, bp))"
    using ne by (simp only: align_mult_def r1 r2 bindE.simps prod.case simp_thms guardE_simps)
  show ?thesis
  proof (cases "n = 2")
    case False
    then have "n = 1" using operand_noise [OF assms(4)] operand_noise [OF assms(5)] by (auto simp: n_def meet_noise_def split: if_splits)
    then have "align_mult cc b ct = Inr (ct1, bp)" using e a1 by (simp add: adjusted_def)
    then show ?thesis using a1 o1 bp \<open>n = 1\<close> by (cases bp) simp_all
  next
    case True
    obtain ct2 where ct2: "rescaleInternal cc ct1 = Inr ct2" "adjusted cc 1 (ct_level ct1 - 1) ct1 ct2" "operand cc ct2"
      using rescale_adjusted [OF assms(1,2) o1] a1 True by (auto simp: adjusted_def)
    obtain bq where q: "(case bp of None \<Rightarrow> copy_ct cc b fresh_ciphertext | Some bq \<Rightarrow> Inr bq) = Inr bq"
        and aq: "adjusted cc n l b bq" and oq: "operand cc bq"
      using bp copy_fresh [OF operand_state [OF assms(5)]] ab assms(5) by (cases bp) auto
    obtain b2 where b2: "rescaleInternal cc bq = Inr b2" "adjusted cc 1 (ct_level bq - 1) bq b2" "operand cc b2"
      using rescale_adjusted [OF assms(1,2) oq] aq True by (auto simp: adjusted_def)
    show ?thesis
      using e ct2 q b2 a1 aq True adjusted_trans [OF a1 ct2(2)] adjusted_trans [OF aq b2(2)] by (simp add: adjusted_def)
  qed
qed

lemma align_mult_degree1:
  assumes "tables_ok cc" and "exact_primes cc" and "flexible cc" and "operand cc ct" and "operand cc b"
    and "ct_noise ct = 1" and "ct_noise b = 1" and "ct_level ct = ct_level b"
  shows "\<exists>ct'. align_mult cc b ct = Inr (ct', None) \<and> adjusted cc 1 (ct_level b) ct ct' \<and> operand cc ct'"
proof -
  have "\<not> mult_extended b ct" using assms(4,5) by (simp add: mult_extended_def operand_def)
  moreover have "adjustable ct (ct_noise b) (ct_level b)" using assms(6-8) by (simp add: adjustable_def)
  then obtain ct' where "adjustForAddOrSub cc b ct = Inr (True, ct')" and a: "adjusted cc (ct_noise b) (ct_level b) ct ct'"
    using adjust_to [OF assms(1-5)] by auto
  ultimately show ?thesis
    using assms(7) adjusted_operand [OF a assms(4) operand_target [OF assms(5)]] by (auto simp: align_mult_def adjusted_def)
qed

lemma adopt_key_same: "ct_keyID ct = ct_keyID b \<Longrightarrow> adopt_key b ct = Inr ct"
  by (cases ct) (auto simp: adopt_key_def)

lemma ct_mult_degree1:
  assumes "tables_ok cc" and "exact_primes cc" and "flexible cc" and "operand cc ct" and "operand cc b"
    and "ct_noise ct = 1" and "ct_noise b = 1" and "ct_level ct = ct_level b"
    and "ct_keyID ct = ct_keyID b" and "has_eval_key cc (ct_keyID ct)"
  shows "\<exists>ct'. ct_mult cc b resc True ct = Some (Inr ct') \<and> result cc 2 (ct_level b) (ct_keyID ct)
     (max (ct_slots ct) (ct_slots b)) (msg_mult (decode ct) (decode b)) ct'"
proof -
  obtain ct1 where h: "align_mult cc b ct = Inr (ct1, None)" and a: "adjusted cc 1 (ct_level b) ct ct1" and o: "operand cc ct1"
    using align_mult_degree1 [OF assms(1-8)] by blast
  have "\<exists>ct'. mult_core cc b resc True ct1 = Inr ct' \<and> result cc 2 (ct_level b) (ct_keyID ct)
     (max (ct_slots ct) (ct_slots b)) (msg_mult (decode ct) (decode b)) ct'"
    using mult_core_same [OF assms(1,3) o assms(5) _ _ assms(7)] adjusted_keeps [OF a] assms(9,10) by simp
  then show ?thesis
    using h operand_state [OF assms(4)] adopt_key_same [OF assms(9)] flexible_auto [OF assms(3)]
    by (subst ct_mult.simps) auto
qed

lemma ct_mult_flexible:
  assumes "tables_ok cc" and "exact_primes cc" and "flexible cc" and "operand cc ct" and "operand cc b"
    and "ct_keyID ct = ct_keyID b" and "has_eval_key cc (ct_keyID ct)"
  shows "\<exists>ct'. ct_mult cc b resc True ct = Some (Inr ct')
     \<and> result cc 2 (product_level (ct_noise ct) (ct_level ct) (ct_noise b) (ct_level b)) (ct_keyID ct)
         (max (ct_slots ct) (ct_slots b)) (msg_mult (decode ct) (decode b)) ct'"
proof -
  define l where "l = product_level (ct_noise ct) (ct_level ct) (ct_noise b) (ct_level b)"
  obtain ct1 bp where h: "align_mult cc b ct = Inr (ct1, bp)" and o: "operand cc ct1" and a: "adjusted cc 1 l ct ct1"
    and bp: "case bp of None \<Rightarrow> ct_noise b = 1 \<and> ct_level b = l | Some b' \<Rightarrow> operand cc b' \<and> adjusted cc 1 l b b'"
    using align_mult_flexible [OF assms(1-5)] unfolding l_def product_level_def by blast
  note k = adjusted_keeps [OF a]
  have e: "ct_mult cc b resc True ct = (case bp of None \<Rightarrow> Some (mult_core cc b resc True ct1) | Some bq \<Rightarrow> ct_mult cc bq resc True ct1)"
    using h operand_state [OF assms(4)] adopt_key_same [OF assms(6)] flexible_auto [OF assms(3)]
    by (subst ct_mult.simps) (simp split: option.split)
  have "\<exists>ct'. ct_mult cc b resc True ct = Some (Inr ct') \<and> result cc 2 l (ct_keyID ct)
      (max (ct_slots ct) (ct_slots b)) (msg_mult (decode ct) (decode b)) ct'"
  proof (cases bp)
    case None
    then show ?thesis
      using mult_core_same [OF assms(1,3) o assms(5)] k bp assms(6,7) e None by simp
  next
    case (Some b')
    then have b': "operand cc b'" "adjusted cc 1 l b b'" using bp by auto
    show ?thesis
      using ct_mult_degree1 [OF assms(1-3) o b'(1)] k adjusted_keeps [OF b'(2)] assms(6,7) e Some by simp
  qed
  then show ?thesis by (simp only: l_def)
qed


text \<open>A context that holds an evaluation key.\<close>

definition demo_key :: KeySwitchingKey where
  "demo_key = \<lparr>ksk_keyID = ''key'', ksk_resident = True, ksk_has_snapshot = True, ksk_limb_bytes = 64\<rparr>"

definition keyed_cc :: CkksContext where
  "keyed_cc = demo_cc\<lparr>cc_keys := \<lparr>kc_N = 16, kc_keys = [(''key'', empty_precomputations\<lparr>kp_eval_key := Some demo_key\<rparr>)], kc_rotation_key_cache_bytes = 0, kc_eviction_hold = 0\<rparr>\<rparr>"

lemma keyed_ok: "tables_ok keyed_cc" "exact_primes keyed_cc" "flexible keyed_cc" "has_eval_key keyed_cc ''key''"
  using demo_ok by (auto simp: tables_ok_def exact_primes_def flexible_def keyed_cc_def has_eval_key_def GetEvalKey_def)

lemma keyed_operand: "operand demo_cc ct \<Longrightarrow> operand keyed_cc ct"
  by (auto simp: operand_def ct_ok_def scale_of_def keyed_cc_def)


section \<open>Squares\<close>

lemma ct_mult_self_degree1:
  assumes "tables_ok cc" and "exact_primes cc" and "flexible cc" and "operand cc ct" and "ct_noise ct = 1"
    and "has_eval_key cc (ct_keyID ct)"
  shows "\<exists>ct'. ct_mult_self cc resc ct = Some (Inr ct') \<and> result cc 2 (ct_level ct) (ct_keyID ct) (ct_slots ct)
     (msg_mult (decode ct) (decode ct)) ct'"
proof -
  have a: "adjustable ct (ct_noise ct) (ct_level ct)" by (simp add: adjustable_def)
  obtain ct1 where h: "adjustForAddOrSub cc ct ct = Inr (True, ct1)" and a1: "adjusted cc (ct_noise ct) (ct_level ct) ct ct1"
    using adjust_to [OF assms(1-4,4)] a by auto
  note k = adjusted_keeps [OF a1]
  have o: "operand cc ct1" using adjusted_operand [OF a1 assms(4) operand_target [OF assms(4)]] .
  have "ct_mult_self cc resc ct = Some (mult_core cc ct1 resc True ct1)"
    using h k assms(5) operand_state [OF assms(4)] flexible_auto [OF assms(3)] by (simp add: ct_mult_self_def)
  then show ?thesis
    using mult_core_same [OF assms(1,3) o o, of resc] k assms(5,6) by simp
qed

lemma ct_square_flexible:
  assumes "tables_ok cc" and "exact_primes cc" and "flexible cc" and "operand cc ct" and "has_eval_key cc (ct_keyID ct)"
  shows "\<exists>ct'. ct_square cc resc ct = Some (Inr ct')
     \<and> result cc 2 (ct_level ct - (if ct_noise ct = 2 then 1 else 0)) (ct_keyID ct) (ct_slots ct)
         (msg_mult (decode ct) (decode ct)) ct'"
proof -
  have ne: "\<not> ct_up0 ct" "\<not> ct_up1 ct" using assms(4) by (auto simp: operand_def)
  note st = operand_state [OF assms(4)] flexible_auto [OF assms(3)]
  show ?thesis
  proof (cases "ct_noise ct = 2")
    case True
    obtain ct1 where r: "rescaleInternal cc ct = Inr ct1" "adjusted cc 1 (ct_level ct - 1) ct ct1" "operand cc ct1"
      using rescale_adjusted [OF assms(1,2,4) True] by blast
    then have "ct_square cc resc ct = ct_mult_self cc resc ct1"
      using st ne True by (simp add: ct_square_def pre_reduce_def adjusted_def)
    then show ?thesis
      using ct_mult_self_degree1 [OF assms(1-3) r(3), of resc] adjusted_keeps [OF r(2)] assms(5) True by simp
  next
    case False
    then have n: "ct_noise ct = 1" using operand_noise [OF assms(4)] by auto
    then have "ct_square cc resc ct = ct_mult_self cc resc ct"
      using st ne by (simp add: ct_square_def pre_reduce_def)
    then show ?thesis using ct_mult_self_degree1 [OF assms(1-4) n assms(5), of resc] n by simp
  qed
qed

text \<open>\<open>square\<close> always returns the squared values, rescaling an operand of degree 2 first.\<close>

theorem square_correct:
  assumes "tables_ok cc" and "exact_primes cc" and "flexible cc" and "operand cc ct" and "has_eval_key cc (ct_keyID ct)"
  shows "\<exists>ct'. ct_square cc resc ct = Some (Inr ct')
     \<and> result cc 2 (ct_level ct - (if ct_noise ct = 2 then 1 else 0)) (ct_keyID ct) (ct_slots ct)
         (msg_mult (decode ct) (decode ct)) ct'"
  using assms by (rule ct_square_flexible)

theorem square_correct_witness:
  "\<exists>ct'. ct_square keyed_cc False (demo_ct 2 2 (\<lambda>j. of_nat j)) = Some (Inr ct')
     \<and> result keyed_cc 2 1 ''key'' 8 (msg_mult (decode (demo_ct 2 2 (\<lambda>j. of_nat j))) (decode (demo_ct 2 2 (\<lambda>j. of_nat j)))) ct'"
  using square_correct [OF keyed_ok(1-3) keyed_operand [OF demo_operand], of 2 2 "\<lambda>j. of_nat j" False] keyed_ok(4)
  by simp



section \<open>Scalars and fixed rescaling\<close>

definition fixed_manual :: "CkksContext \<Rightarrow> bool" where
  "fixed_manual cc \<longleftrightarrow> cc_technique cc = FIXEDMANUAL"

text \<open>the rescale flag of \<open>multScalar(double, rescale)\<close> has no effect: the flag is passed on only
  for FIXEDMANUAL, and the callee rescales only for FIXEDAUTO. The overload for complex constants
  does rescale under FIXEDMANUAL, and ends one level lower with degree 1.\<close>

theorem multScalar_never_rescales:
  assumes "tables_ok cc" and "fixed_manual cc" and "ct_ok cc ct" and "ct_noise ct = 1" and "1 \<le> ct_level ct"
  shows "multScalar cc c True ct = multScalar cc c False ct
    \<and> (\<exists>ct'. multScalar cc c True ct = Inr ct' \<and> ct_noise ct' = 2 \<and> ct_level ct' = ct_level ct)
    \<and> (\<exists>ct'. multScalarC cc (of_real c) True ct = Inr ct' \<and> ct_noise ct' = 1 \<and> ct_level ct' = ct_level ct - 1)"
proof -
  have lv: "0 \<le> ct_level ct" "ct_level ct \<le> cc_L cc" "ct_state ct = None" and f: "ct_factor ct = sf cc (ct_level ct)"
    using assms(3,4) by (auto simp: ct_ok_def scale_of_def)
  have m: "cc_technique cc = FIXEDMANUAL" "\<not> auto_rescale cc" using assms(2) by (auto simp: fixed_manual_def auto_rescale_def)
  note tl = tables_length [OF assms(1) lv(1,2)]
  have n: "multScalar cc c b ct = Inr (ct\<lparr>ct_msg := msg_scale (c * sf cc (ct_level ct)) (ct_msg ct), ct_noise := 2,
      ct_factor := sf cc (ct_level ct) * sf cc (ct_level ct)\<rparr>)" for b
    using lv f m tl assms(4) by (simp add: multScalar_def pre_reduce_def multScalarNoPrecheck_def Let_def)
  let ?ct = "ct\<lparr>ct_msg := msg_cscale (Complex (c * sf cc (ct_level ct)) 0) (ct_msg ct), ct_noise := 2,
      ct_factor := sf cc (ct_level ct) * sf cc (ct_level ct)\<rparr>"
  have "multScalarC cc (of_real c) True ct = rescaleInternal cc ?ct"
    using lv f m tl assms(4) by (simp add: multScalarC_def Let_def)
  moreover have "sf cc (ct_level ct) * sf cc (ct_level ct) / mr cc (ct_level ct) = sf cc (ct_level ct - 1)"
    using tables_step(2) [OF assms(1,5) lv(2)] tables_pos(2) [OF assms(1) lv(1,2)] by simp
  then have "\<exists>ct'. rescaleInternal cc ?ct = Inr ct' \<and> ct_noise ct' = 1 \<and> ct_level ct' = ct_level ct - 1"
    using rescaleInternal_step [OF assms(1), of ?ct] lv assms(5) by (simp add: scale_of_def)
  ultimately show ?thesis using n by simp
qed

definition manual_cc :: CkksContext where
  "manual_cc = demo_cc\<lparr>cc_technique := FIXEDMANUAL\<rparr>"

lemma manual_ok: "tables_ok manual_cc" "fixed_manual manual_cc"
  using demo_ok(1) by (auto simp: tables_ok_def manual_cc_def fixed_manual_def)

lemma manual_ct_ok: "ct_ok demo_cc ct \<Longrightarrow> ct_ok manual_cc ct"
  by (auto simp: ct_ok_def scale_of_def manual_cc_def)

theorem multScalar_never_rescales_witness:
  "multScalar manual_cc 3 True (demo_ct 1 2 (\<lambda>j. 1)) = multScalar manual_cc 3 False (demo_ct 1 2 (\<lambda>j. 1))
    \<and> (\<exists>ct'. multScalarC manual_cc (of_real 3) True (demo_ct 1 2 (\<lambda>j. 1)) = Inr ct' \<and> ct_level ct' = 1)"
  using multScalar_never_rescales [OF manual_ok manual_ct_ok [OF demo_ct_ok], of 1 2 "\<lambda>j. 1" 3] by auto

text \<open>C36: under FIXEDMANUAL, adding a ciphertext at a lower level never succeeds: the branch for it
  asserts the opposite of its own condition before it drops the receiver's level. \<open>sub\<close> drops the
  level and subtracts.\<close>

theorem add_fixed_manual_fails:
  assumes "fixed_manual cc" and "ct_state ct = None" and "ct_state b = None" and "ct_level b < ct_level ct"
    and "ct_keyID ct = ct_keyID b" and "ct_noise ct = ct_noise b" and "\<not> extended2 b ct"
  shows "ct_add cc b ct = Some (Inl Assert_failed)
    \<and> (\<exists>ct'. ct_sub cc b ct = Some (Inr ct') \<and> ct_level ct' = ct_level b \<and> ct_msg ct' = msg_sub (ct_msg ct) (ct_msg b))"
proof -
  have m: "\<not> auto_rescale cc" "\<not> flexible cc" using assms(1) by (auto simp: fixed_manual_def auto_rescale_def flexible_def)
  have "align_this cc b ct = Inr (True, ct)" using m assms(5) by (simp add: align_this_def)
  then have "ct_add cc b ct = Some (add_tail cc b ct)" "ct_sub cc b ct = Some (sub_tail cc b ct)"
    using assms(2) by (subst ct_add.simps ct_sub.simps, simp)+
  moreover have "add_tail cc b ct = Inl Assert_failed"
    using assms m by (simp add: add_tail_def)
  moreover have "\<exists>ct'. sub_tail cc b ct = Inr ct' \<and> ct_level ct' = ct_level b \<and> ct_msg ct' = msg_sub (ct_msg ct) (ct_msg b)"
    using assms m by (simp add: sub_tail_def Let_def addMetadata_def)
  ultimately show ?thesis by simp
qed

theorem add_fixed_manual_fails_witness:
  "ct_add manual_cc (demo_ct 1 0 (\<lambda>j. 1)) (demo_ct 1 2 (\<lambda>j. 2)) = Some (Inl Assert_failed)
    \<and> (\<exists>ct'. ct_sub manual_cc (demo_ct 1 0 (\<lambda>j. 1)) (demo_ct 1 2 (\<lambda>j. 2)) = Some (Inr ct') \<and> ct_level ct' = 0)"
  using add_fixed_manual_fails [OF manual_ok(2), of "demo_ct 1 2 (\<lambda>j. 2)" "demo_ct 1 0 (\<lambda>j. 1)"]
  by (auto simp: extended2_def demo_ct_def fresh_ciphertext_def)

end
