(* ===== verification/CkksGroups.thy ===== *)
theory CkksGroups
  imports CkksSums CkksProduct
begin

text \<open>
  The batching of weighted sums: how the loop of theory CkksSums splits the objectives into groups
  and what the sums compute under the flexible techniques.
\<close>

section \<open>The grouping loop\<close>

lemma sdiv_pos: "0 \<le> (a::int) \<Longrightarrow> 0 < b \<Longrightarrow> a sdiv b = a div b"
  by (cases "a = 0") (simp_all add: signed_divide_int_def)

text \<open>The number of objectives left fits in the number of groups left, and no group will be empty.\<close>

definition fits :: "int \<Rightarrow> int \<Rightarrow> bool" where
  "fits n k \<longleftrightarrow> 0 \<le> k \<and> k \<le> n \<and> n \<le> MAX_OUTPUTS * k"

lemma ceil_bounds:
  fixes n k :: int
  assumes "0 < k"
  defines "g \<equiv> (n + k - 1) div k"
  shows "n \<le> g * k" "(g - 1) * k \<le> n - 1"
proof -
  have "g * k \<le> n + k - 1" unfolding g_def
    using assms(1) div_mult_mod_eq [of "n + k - 1" k] pos_mod_sign [of k "n + k - 1"] by linarith
  then show "(g - 1) * k \<le> n - 1" by (simp add: left_diff_distrib)
  have "n + k - 1 = g * k + (n + k - 1) mod k" unfolding g_def by simp
  moreover have "(n + k - 1) mod k < k" using assms(1) by simp
  ultimately show "n \<le> g * k" by linarith
qed

lemma fits_step:
  fixes n k :: int
  assumes "fits n k" and "0 < n"
  defines "g \<equiv> (n + k - 1) div k"
  shows "1 \<le> g" "g \<le> MAX_OUTPUTS" "g \<le> n" "fits (n - g) (k - 1)"
proof -
  have k: "0 < k" using assms(1,2) by (auto simp: fits_def MAX_OUTPUTS_def)
  note b = ceil_bounds [OF k, of n, folded g_def]
  have n8: "n \<le> 8 * k" and kn: "k \<le> n" using assms(1) by (auto simp: fits_def MAX_OUTPUTS_def)
  show g1: "1 \<le> g"
  proof (rule ccontr)
    assume "\<not> 1 \<le> g"
    then have "g * k \<le> 0" using k by (simp add: mult_le_0_iff)
    then show False using b(1) assms(2) by linarith
  qed
  have "(g - 1) * k < 8 * k" using b(2) n8 by linarith
  then have "g \<le> 8" using k by simp
  then show "g \<le> MAX_OUTPUTS" by (simp add: MAX_OUTPUTS_def)
  have mk: "(g - 1) + k \<le> n"
  proof (cases "g = 1")
    case True
    then show ?thesis using kn by simp
  next
    case False
    then have "0 \<le> (g - 2) * (k - 1)" using g1 k by simp
    then have "(g - 1) + k - 1 \<le> (g - 1) * k" by (simp add: algebra_simps)
    then show ?thesis using b(2) by linarith
  qed
  then show "g \<le> n" using k by linarith
  have "n - g \<le> 8 * (k - 1)"
  proof (cases "g = 8")
    case True
    then show ?thesis using n8 by simp
  next
    case False
    then have "g * (k - 1) \<le> 8 * (k - 1)" using \<open>g \<le> 8\<close> k by (intro mult_right_mono) auto
    then show ?thesis using b(1) by (simp add: algebra_simps)
  qed
  then show "fits (n - g) (k - 1)" using mk k by (simp add: fits_def MAX_OUTPUTS_def)
qed

lemma fits_initial: "0 \<le> n \<Longrightarrow> fits n ((n + MAX_OUTPUTS - 1) sdiv MAX_OUTPUTS)"
  using ceil_bounds [of 8 n] by (simp add: fits_def MAX_OUTPUTS_def sdiv_pos)

lemma back_split: "k \<le> length xs \<Longrightarrow> rev xs = take k (rev xs) @ rev (take (length xs - k) xs)"
  by (simp add: rev_take)

text \<open>An invariant of the body over the objectives done so far holds for all of them at the end.\<close>

lemma group_loop_invariant:
  assumes body: "\<And>objs done st. objs \<noteq> [] \<Longrightarrow> int (length objs) \<le> MAX_OUTPUTS \<Longrightarrow> P done st
      \<Longrightarrow> distinct (done @ objs) \<Longrightarrow> set (done @ objs) \<subseteq> A \<Longrightarrow> \<exists>st'. body objs st = Inr st' \<and> P (done @ objs) st'"
    and "fits (int (length out)) k" and "distinct (done @ rev out)" and "set (done @ rev out) \<subseteq> A" and "P done st"
  shows "\<exists>st'. group_loop body (int (length out)) k out st = Some (Inr st') \<and> P (done @ rev out) st'"
  using assms(2-)
proof (induction "length out" arbitrary: out k "done" st rule: less_induct)
  case less
  show ?case
  proof (cases "out = []")
    case True
    then show ?thesis using less.prems by (subst group_loop.simps) simp
  next
    case False
    let ?n = "int (length out)"
    have n: "0 < ?n" using False by simp
    have k: "0 < k" using less.prems(1) n unfolding fits_def MAX_OUTPUTS_def by linarith
    define g where "g = (?n + k - 1) div k"
    note f = fits_step [OF less.prems(1) n, folded g_def]
    have gs: "(?n + k - 1) sdiv k = g" using n k by (simp add: g_def sdiv_pos)
    let ?objs = "take (nat g) (rev out)" and ?rest = "take (length out - nat g) out"
    have sp: "rev out = ?objs @ rev ?rest" using f by (intro back_split) linarith
    have le: "\<not> length out < nat g" using f(3) by linarith
    have len: "length ?rest = length out - nat g" "length ?rest < length out" "int (length ?rest) = ?n - g" using f n by auto
    have d: "distinct ((done @ ?objs) @ rev ?rest)" "set ((done @ ?objs) @ rev ?rest) \<subseteq> A"
      using less.prems(2,3) sp by (metis append.assoc)+
    have "\<exists>st'. body ?objs st = Inr st' \<and> P (done @ ?objs) st'"
    proof (rule body)
      show "?objs \<noteq> []" using f False by auto
      show "int (length ?objs) \<le> MAX_OUTPUTS" using f by (simp add: MAX_OUTPUTS_def)
      show "P done st" by fact
      show "distinct (done @ ?objs)" using d(1) by (subst (asm) distinct_append) (rule conjunct1)
      show "set (done @ ?objs) \<subseteq> A" using d(2) by simp
    qed
    then obtain st1 where st1: "body ?objs st = Inr st1" "P (done @ ?objs) st1" by blast
    have "group_loop body ?n k out st = group_loop body (int (length ?rest)) (k - 1) ?rest st1"
      using n k st1(1) f(1) len(3) le by (subst group_loop.simps) (simp add: gs Let_def)
    moreover have "\<exists>st'. group_loop body (int (length ?rest)) (k - 1) ?rest st1 = Some (Inr st')
        \<and> P ((done @ ?objs) @ rev ?rest) st'"
      using f(4) d st1(2) len by (intro less.hyps) (simp_all only: len)
    ultimately show ?thesis using sp by (metis append.assoc)
  qed
qed

text \<open>C37: the batching loop always ends; it passes every objective to exactly one group, in the
  reverse of the sorted order, and every group has between one and eight objectives.\<close>

theorem groups_partition:
  assumes "distinct objs"
  shows "\<exists>gs. group_loop (\<lambda>objs gs. Inr (gs @ [objs])) (int (length objs))
        ((int (length objs) + MAX_OUTPUTS - 1) sdiv MAX_OUTPUTS) (sort_objectives objs) [] = Some (Inr gs)
    \<and> concat gs = rev (sort_objectives objs) \<and> (\<forall>g \<in> set gs. 1 \<le> length g \<and> length g \<le> 8)"
proof -
  let ?P = "\<lambda>done gs. concat gs = done \<and> (\<forall>g \<in> set gs. 1 \<le> length g \<and> length g \<le> 8)"
  have len: "length (sort_objectives objs) = length objs" by (simp add: sort_objectives_def)
  have "\<exists>gs. group_loop (\<lambda>objs gs. Inr (gs @ [objs])) (int (length (sort_objectives objs)))
        ((int (length objs) + MAX_OUTPUTS - 1) sdiv MAX_OUTPUTS) (sort_objectives objs) [] = Some (Inr gs)
    \<and> ?P ([] @ rev (sort_objectives objs)) gs"
  proof (rule group_loop_invariant [where A = UNIV])
    show "fits (int (length (sort_objectives objs))) ((int (length objs) + MAX_OUTPUTS - 1) sdiv MAX_OUTPUTS)"
      using fits_initial len by simp
    show "distinct ([] @ rev (sort_objectives objs))" using assms by (simp add: sort_objectives_def)
  qed (auto simp: MAX_OUTPUTS_def Suc_le_eq)
  then show ?thesis using len by simp
qed

definition demo_objectives :: "nat \<Rightarrow> Objective list" where
  "demo_objectives n = map (\<lambda>i. \<lparr>obj_n = int (i mod 3), obj_target_level = 1, obj_weights = [1], obj_ctxt = i\<rparr>) [0..<n]"

theorem groups_partition_witness:
  "\<exists>gs. group_loop (\<lambda>objs gs. Inr (gs @ [objs])) 20 3 (sort_objectives (demo_objectives 20)) [] = Some (Inr gs)
    \<and> concat gs = rev (sort_objectives (demo_objectives 20)) \<and> (\<forall>g \<in> set gs. 1 \<le> length g \<and> length g \<le> 8)"
proof -
  have "distinct (demo_objectives 20)" "length (demo_objectives 20) = 20"
    by (simp_all add: demo_objectives_def distinct_map inj_on_def)
  moreover have "(20 + MAX_OUTPUTS - 1) sdiv MAX_OUTPUTS = 3" by (simp add: MAX_OUTPUTS_def sdiv_pos)
  ultimately show ?thesis using groups_partition [of "demo_objectives 20"] by simp
qed

section \<open>What a sum computes\<close>

definition weighted :: "(complex \<times> Ciphertext) list \<Rightarrow> msg" where
  "weighted cs = (\<lambda>j. \<Sum>(w, c) \<leftarrow> cs. w * decode c j)"

definition summand :: "CkksContext \<Rightarrow> int \<Rightarrow> Ciphertext \<Rightarrow> bool" where
  "summand cc target c \<longleftrightarrow> operand cc c \<and> ct_noise c = 1 \<and> target \<le> ct_level c"

lemma mult_factor_in_flexible:
  assumes t: "tables_ok cc" and "1 \<le> target" and "target \<le> cc_L cc" and "0 \<le> l" and "l \<le> cc_L cc"
  shows "mult_factor_in cc target l = Inr (sfb cc target / sf cc l)"
proof -
  have l: "0 \<le> target" "0 \<le> target - 1" "target - 1 \<le> cc_L cc" using assms(2,3) by auto
  note tl = tables_length [OF t l(1) assms(3)] tables_length(1) [OF t l(2,3)] tables_length(1) [OF t assms(4,5)]
  note pos = tables_pos [OF t l(1) assms(3)] and posl = tables_pos(1) [OF t assms(4,5)]
  have step: "sf cc (target - 1) * mr cc target = sfb cc target" using tables_step(1) [OF t assms(2,3)] .
  show ?thesis
  proof (cases "l = target")
    case True
    then show ?thesis using tl pos by (simp add: mult_factor_in_def)
  next
    case False
    have "sf cc l \<noteq> 0" "mr cc target \<noteq> 0" using posl pos(3) by simp_all
    moreover have "sfb cc target = sf cc target * sf cc target" by (rule pos(2))
    moreover from calculation have "sf cc target * sf cc target / mr cc target = sf cc (target - 1)"
      using tables_step(2) [OF t assms(2,3)] by simp
    ultimately show ?thesis
      using False assms(2,4) tl step by (simp add: mult_factor_in_def)
  qed
qed

lemma wsum_flexible:
  assumes "tables_ok cc" and "1 \<le> target" and "target \<le> cc_L cc" and "\<forall>(w, c) \<in> set cs. summand cc target c"
  shows "wsum cc target acc cs = Inr (\<lambda>j. acc j + of_real (sfb cc target) * weighted cs j)"
  using assms(4)
proof (induction cs arbitrary: acc)
  case Nil
  show ?case by (simp add: weighted_def)
next
  case (Cons p cs)
  obtain w c where p: "p = (w, c)" by fastforce
  then have c: "operand cc c" "ct_noise c = 1" "target \<le> ct_level c" and cs: "\<forall>(w, c) \<in> set cs. summand cc target c"
    using Cons.prems by (auto simp: summand_def)
  have l: "0 \<le> ct_level c" "ct_level c \<le> cc_L cc" "getLevel c = ct_level c" and f: "ct_factor c = sf cc (ct_level c)"
    using c by (auto simp: operand_def ct_ok_def scale_of_def)
  have "0 < sf cc (ct_level c)" using tables_pos(1) [OF assms(1) l(1,2)] .
  then have "msg_cscale (w * of_real (sfb cc target / sf cc (ct_level c))) (ct_msg c)
      = (\<lambda>j. of_real (sfb cc target) * (w * decode c j))"
    by (simp add: msg_cscale_def decode_def f fun_eq_iff)
  then show ?case
    using Cons.IH [OF cs] mult_factor_in_flexible [OF assms(1-3) l(1,2)] c(3) l(3) p
    by (simp add: weighted_def msg_add_def algebra_simps)
qed

lemma add_factor_flexible:
  assumes "tables_ok cc" and "flexible cc" and "0 \<le> target" and "target \<le> cc_L cc"
  shows "add_factor cc target 2 = Inr (sfb cc target)"
proof -
  have big: "real_at Out_of_range (cc_ScalingFactorRealBig cc) target = Inr (sfb cc target)"
    using assms by (auto simp: real_at_def tables_ok_def)
  show ?thesis
  proof (cases "cc_technique cc = FLEXIBLEAUTOEXT \<and> target = cc_L cc")
    case True
    then show ?thesis using big unfolding add_factor_def by (simp only: if_True simp_thms)
  next
    case False
    have "[1..2 - 1 :: int] = [1]" by simp
    with False show ?thesis
      using tables_length [OF assms(1,3,4)] tables_pos(2) [OF assms(1,3,4)] flexible_not_fixed [OF assms(2)]
      unfolding add_factor_def by (simp only: if_False) simp
  qed
qed

lemma weighted_nonzero:
  assumes "\<forall>w. nz w \<longleftrightarrow> w \<noteq> 0"
  shows "weighted (nonzero_terms nz weights ctxs) = weighted (zip (tl weights) ctxs)"
proof -
  have nz: "nz = (\<lambda>w. w \<noteq> 0)" using assms by (intro ext) simp
  have "(\<Sum>(w, c) \<leftarrow> filter (\<lambda>(w, c). w \<noteq> 0) cs. w * decode c j) = (\<Sum>(w, c) \<leftarrow> cs. w * decode c j)" for cs j
    by (induction cs) auto
  then show ?thesis by (simp add: weighted_def nonzero_terms_def nz)
qed

text \<open>A result of a sum: degree 2 at the target level, with the tag of the operands.\<close>

definition sum_result :: "CkksContext \<Rightarrow> int \<Rightarrow> string \<Rightarrow> msg \<Rightarrow> Ciphertext \<Rightarrow> bool" where
  "sum_result cc target key m ct \<longleftrightarrow> ct_ok cc ct \<and> ct_noise ct = 2 \<and> ct_level ct = target \<and> ct_keyID ct = key
     \<and> \<not> ct_up0 ct \<and> \<not> ct_up1 ct \<and> decode ct = m"

lemma sum_metadata_flexible:
  assumes "tables_ok cc" and "0 \<le> target" and "target \<le> cc_L cc" and "cs \<noteq> []" and "\<forall>c \<in> set used. ct_keyID c = ct_keyID (hd cs)"
    and "ct_state ct = None" and "ct_level ct = target" and "\<not> ct_up0 ct" and "\<not> ct_up1 ct"
  shows "\<exists>ct'. sum_metadata cc cs used (ct\<lparr>ct_msg := \<lambda>j. of_real (sfb cc target) * m j\<rparr>) = Inr ct'
    \<and> sum_result cc target (ct_keyID (hd cs)) m ct'"
proof -
  have "real_at Out_of_range (cc_ScalingFactorRealBig cc) target = Inr (sfb cc target)"
    using assms by (auto simp: real_at_def tables_ok_def)
  moreover have "0 < sfb cc target" using tables_pos(5) [OF assms(1-3)] .
  ultimately show ?thesis
    using assms by (auto simp: sum_metadata_def sum_result_def ct_ok_def scale_of_def decode_def)
qed

lemma sized_result:
  assumes "ct_state ct = None" and "\<not> ct_up0 ct" and "\<not> ct_up1 ct"
  obtains ct1 ct2 where "growToLevel cc t ct = Inr ct1" and "dropToLevel cc t True ct1 = Inr ct2" and "ct_state ct2 = None"
    and "ct_level ct2 = t" and "\<not> ct_up0 ct2" and "\<not> ct_up1 ct2"
proof -
  let ?ct1 = "if t \<le> ct_level ct then ct else ct\<lparr>ct_level := t\<rparr>"
  show ?thesis
    by (rule that [of ?ct1 "drop_raw t ?ct1"]) (use assms in \<open>auto simp: growToLevel_def dropToLevel_def drop_raw_def\<close>)
qed



end
