(* ===== verification/HostMath.thy ===== *)
theory HostMath
  imports FLPrelude
begin

text \<open>
  The host-side modular arithmetic of \<open>src/src/Math.cu\<close>: 64-bit additions and subtractions
  with the wrap-around of \<open>uint64_t\<close>, products through \<open>__uint128_t\<close>, exponentiation by
  squaring, inversion by Fermat's theorem, the CRT tables built from them and the bit reversal
  of indices. A zero modulus makes the C++ remainder undefined (the \<open>assert\<close>s of the code):
  those calls return \<^term>\<open>None\<close>.
\<close>

section \<open>Records\<close>

datatype limb_type = U32 | U64

record PrimeRecord =
  pr_p :: u64
  pr_type :: "limb_type option"
  pr_bits :: int

text \<open>\<open>std::bit_width\<close>.\<close>

fun bit_width_nat :: "nat \<Rightarrow> int" where
  "bit_width_nat n = (if n = 0 then 0 else 1 + bit_width_nat (n div 2))"

declare bit_width_nat.simps [simp del]

definition bit_width :: "u64 \<Rightarrow> int" where
  "bit_width w = bit_width_nat (unat w)"

section \<open>Addition, subtraction, product\<close>

definition host_modadd :: "u64 \<Rightarrow> u64 \<Rightarrow> u64 \<Rightarrow> u64" where
  "host_modadd a b p = (let c = a + b in if c > p then c - p else c)"

definition host_modsub :: "u64 \<Rightarrow> u64 \<Rightarrow> u64 \<Rightarrow> u64" where
  "host_modsub a b p = (let c = a - b in if c > p then c + p else c)"

definition modprod :: "u64 \<Rightarrow> u64 \<Rightarrow> u64 \<Rightarrow> u64 option" where
  "modprod a b p =
     (if p = 0 then None
      else Some (ucast ((ucast a :: u128) * ucast b mod ucast p)))"

text \<open>The loop of \<open>modpow\<close>, on the loop variables \<open>a\<close>, \<open>e\<close> and \<open>r\<close>.\<close>

definition mulmod128 :: "u64 \<Rightarrow> u64 \<Rightarrow> u64 \<Rightarrow> u64" where
  "mulmod128 a b p = ucast ((ucast a :: u128) * ucast b mod ucast p)"

function modpow_loop :: "u64 \<Rightarrow> u64 \<Rightarrow> u64 \<Rightarrow> u64 \<Rightarrow> u64" where
  "modpow_loop a e r p =
     (if e \<noteq> 0
      then modpow_loop (mulmod128 a a p) (drop_bit 1 e)
             (if bit e 0 then mulmod128 a r p else r) p
      else r)"
  by pat_completeness auto
termination
proof (relation "measure (\<lambda>(a, e, r, p). unat e)", goal_cases)
  case 1
  then show ?case by simp
next
  case (2 a e r p)
  then have "0 < unat e" by (simp add: word_greater_zero_iff unat_gt_0)
  then show ?case by (simp only: in_measure split unat_drop_bit_div) simp
qed

declare modpow_loop.simps [simp del]

definition modpow :: "u64 \<Rightarrow> u64 \<Rightarrow> u64 \<Rightarrow> u64 option" where
  "modpow a e p = (if p = 0 then None else Some (modpow_loop a e 1 p))"

definition modinv :: "u64 \<Rightarrow> u64 \<Rightarrow> u64 option" where
  "modinv a p = (if p = 0 then None else modpow a (p - 2) p)"

subsection \<open>What they compute\<close>

lemma unat_mulmod128:
  assumes "p \<noteq> 0"
  shows "unat (mulmod128 a b p) = unat a * unat b mod unat p"
proof -
  have p: "0 < unat p" using assms by (simp add: unat_gt_0)
  have "unat a * unat b mod unat p < unat p" using p by simp
  also have "\<dots> < 2 ^ 64" by simp
  finally have "unat a * unat b mod unat p < 2 ^ 64" .
  then show ?thesis
    by (simp add: mulmod128_def unat_ucast_u128_u64 unat_mod_distrib unat_mult_u128
        unat_ucast_u64_u128)
qed

lemma modprod_mulmod128: "p \<noteq> 0 \<Longrightarrow> modprod a b p = Some (mulmod128 a b p)"
  by (simp add: modprod_def mulmod128_def)

lemma mod_mult_cong_left: "x mod p = y mod p \<Longrightarrow> x * z mod p = y * z mod (p::nat)"
  by (metis mod_mult_left_eq)

lemma mod_mult_cong_right: "x mod p = y mod p \<Longrightarrow> z * x mod p = z * y mod (p::nat)"
  by (metis mod_mult_right_eq)

lemma bit_0_odd_unat: "bit (e::u64) 0 \<longleftrightarrow> odd (unat e)"
proof -
  have "bit (unat e) 0 \<longleftrightarrow> bit e 0" by (simp add: bit_unsigned_iff del: bit_0)
  then show ?thesis by (simp only: bit_0)
qed

lemma power_square_step: "(a * a) ^ (e div 2) * (if odd e then a else 1) = (a::nat) ^ (e::nat)"
proof (cases "odd e")
  case True
  then obtain k where "e = 2 * k + 1" by (rule oddE)
  moreover have "(a * a) ^ k = a ^ (2 * k)" by (simp only: power_mult power2_eq_square)
  ultimately show ?thesis by simp
next
  case False
  then obtain k where "e = 2 * k" by (auto elim: evenE)
  moreover have "(a * a) ^ k = a ^ (2 * k)" by (simp only: power_mult power2_eq_square)
  ultimately show ?thesis by simp
qed

lemma unat_modpow_loop:
  assumes "p \<noteq> 0" and "unat r < unat p"
  shows "unat (modpow_loop a e r p) = unat a ^ unat e * unat r mod unat p"
  using assms
proof (induction a e r p rule: modpow_loop.induct)
  case (1 a e r p)
  show ?case
  proof (cases "e = 0")
    case True
    with 1 show ?thesis by (subst modpow_loop.simps) simp
  next
    case False
    let ?P = "unat p" and ?a = "unat a" and ?h = "unat e div 2"
    let ?r' = "if bit e 0 then mulmod128 a r p else r"
    have r': "unat ?r' mod ?P = (if odd (unat e) then ?a else 1) * unat r mod ?P" "unat ?r' < ?P"
      using 1(2,3) by (auto simp: unat_mulmod128 bit_0_odd_unat unat_gt_0 simp del: bit_0)
    have "unat (modpow_loop a e r p) = unat (modpow_loop (mulmod128 a a p) (drop_bit 1 e) ?r' p)"
      using False by (subst modpow_loop.simps) simp
    also have "\<dots> = unat (mulmod128 a a p) ^ unat (drop_bit 1 e) * unat ?r' mod ?P"
      using False 1(2) r'(2) by (rule "1.IH")
    also have "\<dots> = (?a * ?a mod ?P) ^ ?h * unat ?r' mod ?P"
      by (simp only: unat_mulmod128 [OF 1(2)] unat_drop_bit_div power_one_right)
    also have "\<dots> = (?a * ?a) ^ ?h * unat ?r' mod ?P"
      by (rule mod_mult_cong_left) (rule power_mod)
    also have "\<dots> = (?a * ?a) ^ ?h * ((if odd (unat e) then ?a else 1) * unat r) mod ?P"
      by (rule mod_mult_cong_right) (rule r'(1))
    also have "\<dots> = ?a ^ unat e * unat r mod ?P"
      by (simp only: mult.assoc [symmetric] power_square_step)
    finally show ?thesis .
  qed
qed

lemma modpow_unat:
  assumes "1 < unat p"
  obtains x where "modpow a e p = Some x" and "unat x = unat a ^ unat e mod unat p"
proof
  have "p \<noteq> 0" using assms by auto
  then show "modpow a e p = Some (modpow_loop a e 1 p)" by (simp add: modpow_def)
  show "unat (modpow_loop a e 1 p) = unat a ^ unat e mod unat p"
    using unat_modpow_loop [OF \<open>p \<noteq> 0\<close>, of 1 a e] assms by simp
qed

lemma modinv_unat:
  assumes "prime_nat (unat p)" and "\<not> unat p dvd unat a"
  obtains x where "modinv a p = Some x" and "unat x < unat p"
    and "unat a * unat x mod unat p = 1"
proof -
  have gt: "1 < unat p" using assms(1) by (rule prime_nat_gt1)
  then have p0: "p \<noteq> 0" by auto
  obtain x where x: "modpow a (p - 2) p = Some x" "unat x = unat a ^ unat (p - 2) mod unat p"
    using modpow_unat [OF gt] by metis
  have "unat (2::u64) \<le> unat p" using gt by simp
  then have "unat (p - 2) = unat p - 2" by (subst unat_sub) (simp_all add: word_le_nat_alt)
  then have "unat a * unat x mod unat p = unat a ^ Suc (unat p - 2) mod unat p"
    using x(2) by (simp add: mod_mult_right_eq)
  also have "Suc (unat p - 2) = unat p - 1" using gt by simp
  also have "unat a ^ (unat p - 1) mod unat p = 1" using assms by (rule fermat_little)
  finally have inv: "unat a * unat x mod unat p = 1" .
  have "unat x < unat p" using x(2) gt by simp
  with x(1) inv p0 show ?thesis by (intro that [of x]) (simp_all add: modinv_def)
qed

section \<open>Properties\<close>

text \<open>For a modulus above 1 \<open>modpow\<close> returns, with no 64-bit overflow on the way, the
  power \<open>a^e\<close> modulo \<open>p\<close>, for every base and exponent.\<close>

theorem modpow_correct:
  assumes "1 < unat p"
  shows "\<exists>x. modpow a e p = Some x \<and> unat x = unat a ^ unat e mod unat p"
  using modpow_unat [OF assms] by metis

theorem modpow_correct_witness: "\<exists>x. modpow 3 5 7 = Some x \<and> unat x = 3 ^ 5 mod 7"
  using modpow_correct [of 7 3 5] by simp

text \<open>C18: Modulo a prime, \<open>modinv\<close> returns the reduced inverse of every number the prime does
  not divide.\<close>

theorem modinv_correct:
  assumes "prime_nat (unat p)" and "\<not> unat p dvd unat a"
  shows "\<exists>x. modinv a p = Some x \<and> unat x < unat p \<and> unat a * unat x mod unat p = 1"
  using modinv_unat [OF assms] by metis

lemma prime_7: "prime_nat 7"
  by (simp add: prime_nat_code atLeastLessThan_nat_numeral)

theorem modinv_correct_witness:
  "\<exists>x. modinv 3 7 = Some x \<and> unat x < 7 \<and> 3 * unat x mod 7 = 1"
  using modinv_correct [of 7 3] prime_7 by simp

text \<open>The host \<open>modadd\<close> of reduced operands is their sum modulo \<open>p\<close>, except when the sum
  is exactly \<open>p\<close>: its comparison is strict, and it returns \<open>p\<close> instead of 0.\<close>

theorem host_modadd_exact:
  assumes "unat a < unat p" and "unat b < unat p" and "unat p \<le> 2 ^ 63"
  shows "unat (host_modadd a b p)
    = (if unat a + unat b = unat p then unat p else (unat a + unat b) mod unat p)"
proof -
  have s: "unat (a + b) = unat a + unat b" using assms by (intro unat_add_small) simp
  have gt: "p < a + b \<longleftrightarrow> unat p < unat a + unat b" by (simp add: word_less_nat_alt s)
  show ?thesis
  proof (cases "unat p < unat a + unat b")
    case True
    then have "unat (a + b - p) = unat a + unat b - unat p"
      using s by (subst unat_sub) (simp_all add: word_le_nat_alt)
    moreover have "(unat a + unat b) mod unat p = unat a + unat b - unat p"
      using True assms(1,2) by (simp add: mod_if)
    ultimately show ?thesis using True gt by (simp add: host_modadd_def)
  next
    case False
    then show ?thesis using gt s by (auto simp: host_modadd_def)
  qed
qed

theorem host_modadd_exact_witness: "unat (host_modadd 3 4 7) = 7"
  using host_modadd_exact [of 3 7 4] by simp

end
