(* ===== verification/CrtTables.thy ===== *)
theory CrtTables
  imports HostMath
begin

text \<open>
  The CRT tables of \<open>src/src/Math.cu\<close>. A \<open>std::vector\<close> of rows is a list of lists; the
  entries the loops never write keep the fill value of the constructor call. An entry is
  \<^term>\<open>None\<close> when one of its divisions has a zero modulus, and so is the whole table then.
\<close>

section \<open>The loops\<close>

definition minus_one :: u64 where
  "minus_one = - 1"

text \<open>\<open>t = modprod(x, t, m)\<close> for each \<open>x\<close> in turn (\<open>q_hat_inv\<close>, \<open>p_hat\<close>).\<close>

fun prod_loop :: "u64 list \<Rightarrow> u64 \<Rightarrow> u64 \<Rightarrow> u64 option" where
  "prod_loop [] t m = Some t"
| "prod_loop (x # xs) t m = Option.bind (modprod x t m) (\<lambda>t'. prod_loop xs t' m)"

text \<open>\<open>t = modprod(t, x, m)\<close> for each \<open>x\<close> in turn (\<open>big_P_inv_mod_q\<close>, \<open>big_Q_hat\<close>).\<close>

fun acc_loop :: "u64 \<Rightarrow> u64 list \<Rightarrow> u64 \<Rightarrow> u64 option" where
  "acc_loop t [] m = Some t"
| "acc_loop t (x # xs) m = Option.bind (modprod t x m) (\<lambda>t'. acc_loop t' xs m)"

text \<open>A row whose entry \<open>j\<close> is \<open>modprod(j == first ? 1 : row[j - 1], x, m)\<close>.\<close>

fun chain_row :: "u64 \<Rightarrow> u64 list \<Rightarrow> u64 \<Rightarrow> u64 list option" where
  "chain_row t [] m = Some []"
| "chain_row t (x # xs) m =
     Option.bind (modprod t x m) (\<lambda>t'. map_option ((#) t') (chain_row t' xs m))"

section \<open>The tables\<close>

definition table_of :: "nat \<Rightarrow> nat \<Rightarrow> (nat \<Rightarrow> nat \<Rightarrow> u64 option) \<Rightarrow> u64 list list option" where
  "table_of n m entry = those (map (\<lambda>i. those (map (entry i) [0..<m])) [0..<n])"

definition q_inv :: "PrimeRecord list \<Rightarrow> u64 list list option" where
  "q_inv p = table_of (length p) (length p) (\<lambda>i j. modinv (pr_p (p ! i)) (pr_p (p ! j)))"

definition q_inv_mod_p :: "PrimeRecord list \<Rightarrow> PrimeRecord list \<Rightarrow> u64 list list option" where
  "q_inv_mod_p q p = table_of (length q) (length p) (\<lambda>i j. modinv (pr_p (q ! i)) (pr_p (p ! j)))"

definition big_Q_prefix :: "PrimeRecord list \<Rightarrow> u64 list list option" where
  "big_Q_prefix p = those (map (\<lambda>i.
     map_option (\<lambda>row. row @ replicate (length p - i) minus_one)
       (chain_row 1 (map pr_p (take i p)) (pr_p (p ! i)))) [0..<length p])"

definition big_Q_prefix_mod_p :: "PrimeRecord list \<Rightarrow> PrimeRecord list \<Rightarrow> u64 list list option" where
  "big_Q_prefix_mod_p q p = those (map (\<lambda>i. chain_row 1 (map pr_p q) (pr_p (p ! i))) [0..<length p])"

definition big_Q_suffix :: "PrimeRecord list \<Rightarrow> u64 list list option" where
  "big_Q_suffix p = those (map (\<lambda>i.
     map_option (\<lambda>row. replicate (Suc i) minus_one @ row)
       (chain_row 1 (map pr_p (drop (Suc i) p)) (pr_p (p ! i)))) [0..<length p])"

definition q_hat_inv_entry :: "PrimeRecord list \<Rightarrow> nat \<Rightarrow> nat \<Rightarrow> u64 option" where
  "q_hat_inv_entry p i j =
     (if j \<le> i
      then Option.bind
             (prod_loop (map (\<lambda>k. if k = j then 1 else pr_p (p ! k)) [0..<Suc i]) 1 (pr_p (p ! j)))
             (\<lambda>t. modinv t (pr_p (p ! j)))
      else Some minus_one)"

definition q_hat_inv :: "PrimeRecord list \<Rightarrow> u64 list list option" where
  "q_hat_inv p = table_of (length p) (length p) (q_hat_inv_entry p)"

definition p_hat :: "PrimeRecord list \<Rightarrow> PrimeRecord list \<Rightarrow> u64 list list option" where
  "p_hat q p = table_of (length p) (length q) (\<lambda>i j.
     prod_loop (map (\<lambda>k. if k = i then 1 else pr_p (p ! k)) [0..<length p]) 1 (pr_p (q ! j)))"

definition big_P_inv_mod_q :: "PrimeRecord list \<Rightarrow> PrimeRecord list \<Rightarrow> u64 list option" where
  "big_P_inv_mod_q q p = those (map (\<lambda>i.
     Option.bind (acc_loop 1 (map pr_p p) (pr_p (q ! i))) (\<lambda>t. modinv t (pr_p (q ! i))))
     [0..<length q])"

section \<open>What the loops compute\<close>

lemma modprod_unat:
  assumes "m \<noteq> 0"
  obtains t where "modprod x y m = Some t" and "unat t = unat x * unat y mod unat m"
  using assms modprod_mulmod128 unat_mulmod128 by blast

lemma prod_loop_unat:
  assumes "m \<noteq> 0"
  shows "\<exists>t. prod_loop xs t0 m = Some t \<and>
    unat t mod unat m = prod_list (map unat xs) * unat t0 mod unat m"
proof (induction xs arbitrary: t0)
  case (Cons x xs)
  obtain t1 where t1: "modprod x t0 m = Some t1" "unat t1 = unat x * unat t0 mod unat m"
    using modprod_unat [OF assms] by metis
  obtain t where t: "prod_loop xs t1 m = Some t"
      "unat t mod unat m = prod_list (map unat xs) * unat t1 mod unat m"
    using Cons.IH by blast
  have "prod_list (map unat xs) * unat t1 mod unat m
      = prod_list (map unat xs) * (unat x * unat t0) mod unat m"
    by (rule mod_mult_cong_right) (simp add: t1(2))
  with t t1(1) show ?case by (simp add: mult_ac)
qed simp

lemma acc_loop_prod_loop: "acc_loop t xs m = prod_loop xs t m"
proof (induction xs arbitrary: t)
  case (Cons x xs)
  have "modprod t x m = modprod x t m" by (simp add: modprod_def mult.commute)
  with Cons.IH show ?case by (cases "modprod x t m") simp_all
qed simp

lemma chain_row_unat:
  assumes "m \<noteq> 0"
  shows "\<exists>row. chain_row t0 xs m = Some row \<and> length row = length xs \<and>
    (\<forall>j<length xs. unat (row ! j) = unat t0 * prod_list (map unat (take (Suc j) xs)) mod unat m)"
proof (induction xs arbitrary: t0)
  case (Cons x xs)
  obtain t1 where t1: "modprod t0 x m = Some t1" "unat t1 = unat t0 * unat x mod unat m"
    using modprod_unat [OF assms] by metis
  obtain row where row: "chain_row t1 xs m = Some row" "length row = length xs"
    and nth: "\<forall>j<length xs. unat (row ! j) = unat t1 * prod_list (map unat (take (Suc j) xs)) mod unat m"
    using Cons.IH by blast
  have "unat ((t1 # row) ! j) = unat t0 * prod_list (map unat (take (Suc j) (x # xs))) mod unat m"
    if j: "j < Suc (length xs)" for j
  proof (cases j)
    case 0
    then show ?thesis using t1(2) by simp
  next
    case (Suc k)
    have "unat (row ! k) = unat t1 * prod_list (map unat (take (Suc k) xs)) mod unat m"
      using nth j Suc by simp
    also have "\<dots> = unat t0 * unat x * prod_list (map unat (take (Suc k) xs)) mod unat m"
      by (rule mod_mult_cong_left) (simp add: t1(2))
    finally show ?thesis using Suc by (simp add: mult_ac)
  qed
  with t1(1) row show ?case by auto
qed simp

lemma table_of_nth:
  assumes "\<And>i j. i < n \<Longrightarrow> j < m \<Longrightarrow> \<exists>v. entry i j = Some v"
  obtains t where "table_of n m entry = Some t" and "length t = n"
    and "\<And>i j. i < n \<Longrightarrow> j < m \<Longrightarrow> entry i j = Some (t ! i ! j)"
proof -
  let ?g = "\<lambda>i j. the (entry i j)"
  have g: "i < n \<Longrightarrow> j < m \<Longrightarrow> entry i j = Some (?g i j)" for i j using assms by force
  have row: "i < n \<Longrightarrow> those (map (entry i) [0..<m]) = Some (map (?g i) [0..<m])" for i
    using g by (intro those_map_Some) simp
  have "table_of n m entry = Some (map (\<lambda>i. map (?g i) [0..<m]) [0..<n])"
    unfolding table_of_def by (rule those_map_Some) (simp add: row)
  then show ?thesis using g by (intro that) auto
qed

section \<open>The inverse tables\<close>

definition prime_chain :: "PrimeRecord list \<Rightarrow> bool" where
  "prime_chain p \<longleftrightarrow> distinct (map pr_p p) \<and> (\<forall>r \<in> set p. prime_nat (unat (pr_p r)))"

abbreviation prime_at :: "PrimeRecord list \<Rightarrow> nat \<Rightarrow> nat" where
  "prime_at p i \<equiv> unat (pr_p (p ! i))"

lemma prime_chain_prime: "prime_chain p \<Longrightarrow> i < length p \<Longrightarrow> prime_nat (prime_at p i)"
  by (simp add: prime_chain_def)

lemma prime_chain_nonzero: "prime_chain p \<Longrightarrow> i < length p \<Longrightarrow> pr_p (p ! i) \<noteq> 0"
  using prime_chain_prime prime_nat_gt1 by fastforce

lemma prime_chain_distinct:
  assumes "prime_chain p" and "i < length p" and "j < length p" and "i \<noteq> j"
  shows "prime_at p i \<noteq> prime_at p j"
proof -
  have "distinct (map pr_p p)" using assms(1) by (simp add: prime_chain_def)
  then have "map pr_p p ! i \<noteq> map pr_p p ! j"
    using assms(2-4) by (subst nth_eq_iff_index_eq) simp_all
  then show ?thesis using assms(2,3) by (simp add: unsigned_word_eqI word_unat_eq_iff)
qed

lemma prime_chain_not_dvd_prod:
  assumes "prime_chain p" and "finite A" and "A \<subseteq> {..<length p}" and "j < length p" and "j \<notin> A"
  shows "\<not> prime_at p j dvd (\<Prod>k\<in>A. prime_at p k)"
proof
  assume "prime_at p j dvd (\<Prod>k\<in>A. prime_at p k)"
  with prime_chain_prime [OF assms(1,4)] assms(2)
  obtain k where "k \<in> A" "prime_at p j dvd prime_at p k" by (metis prime_nat_dvd_prod)
  then show False
    using assms prime_chain_prime prime_chain_distinct prime_nat_dvd_prime
    by (metis lessThan_iff subset_iff)
qed

lemma prod_list_skip:
  "prod_list (map (\<lambda>k. unat (if k = j then 1 else pr_p (p ! k) :: u64)) [0..<n])
   = (\<Prod>k\<in>{0..<n} - {j}. prime_at p k)"
proof -
  have "prod_list (map (\<lambda>k. unat (if k = j then 1 else pr_p (p ! k) :: u64)) [0..<n])
      = (\<Prod>k\<in>{0..<n}. if k = j then 1 else prime_at p k)"
    by (subst prod.distinct_set_conv_list [symmetric]) (auto intro!: prod.cong)
  also have "\<dots> = (\<Prod>k\<in>{0..<n} - {j}. prime_at p k)"
    by (rule prod.mono_neutral_cong_right) auto
  finally show ?thesis .
qed

lemma q_hat_inv_entry_ok:
  assumes "prime_chain p" and "i < length p" and "j \<le> i"
  shows "\<exists>v. q_hat_inv_entry p i j = Some v \<and> unat v < prime_at p j \<and>
    (\<Prod>k\<in>{0..i} - {j}. prime_at p k) * unat v mod prime_at p j = 1"
proof -
  let ?m = "pr_p (p ! j)" and ?A = "{0..i} - {j}"
  have j: "j < length p" using assms by simp
  obtain t where t: "prod_loop (map (\<lambda>k. if k = j then 1 else pr_p (p ! k)) [0..<Suc i]) 1 ?m = Some t"
    and tm: "unat t mod unat ?m = (\<Prod>k\<in>?A. prime_at p k) mod unat ?m"
    using prod_loop_unat [OF prime_chain_nonzero [OF assms(1) j],
        of "map (\<lambda>k. if k = j then 1 else pr_p (p ! k)) [0..<Suc i]" 1]
    by (auto simp: prod_list_skip comp_def atLeastLessThanSuc_atLeastAtMost simp del: upt_Suc)
  have "\<not> unat ?m dvd (\<Prod>k\<in>?A. prime_at p k)"
    using assms(2) by (intro prime_chain_not_dvd_prod [OF assms(1) _ _ j]) auto
  then have "\<not> unat ?m dvd unat t" using tm by (simp add: dvd_eq_mod_eq_0)
  then obtain v where v: "modinv t ?m = Some v" "unat v < unat ?m" "unat t * unat v mod unat ?m = 1"
    using modinv_unat [OF prime_chain_prime [OF assms(1) j]] by metis
  have "(\<Prod>k\<in>?A. prime_at p k) * unat v mod unat ?m = unat t * unat v mod unat ?m"
    by (rule mod_mult_cong_left) (simp add: tm)
  then show ?thesis using t v assms(3) by (simp add: q_hat_inv_entry_def)
qed

lemma q_hat_inv_table:
  assumes "prime_chain p"
  shows "\<exists>t. q_hat_inv p = Some t \<and> (\<forall>i<length p. \<forall>j<length p.
    (j \<le> i \<longrightarrow> unat (t ! i ! j) < prime_at p j \<and>
       (\<Prod>k\<in>{0..i} - {j}. prime_at p k) * unat (t ! i ! j) mod prime_at p j = 1) \<and>
    (i < j \<longrightarrow> t ! i ! j = minus_one))"
proof -
  have ex: "\<exists>v. q_hat_inv_entry p i j = Some v" if "i < length p" for i j
    using q_hat_inv_entry_ok [OF assms that, of j] by (cases "j \<le> i") (auto simp: q_hat_inv_entry_def)
  obtain t where t: "q_hat_inv p = Some t"
    and nth: "\<And>i j. i < length p \<Longrightarrow> j < length p \<Longrightarrow> q_hat_inv_entry p i j = Some (t ! i ! j)"
    using table_of_nth [of "length p" "length p" "q_hat_inv_entry p"] ex
    unfolding q_hat_inv_def by metis
  have "t ! i ! j = minus_one" if "i < length p" "j < length p" "i < j" for i j
    using nth [OF that(1,2)] that(3) by (simp add: q_hat_inv_entry_def)
  moreover have "unat (t ! i ! j) < prime_at p j \<and>
      (\<Prod>k\<in>{0..i} - {j}. prime_at p k) * unat (t ! i ! j) mod prime_at p j = 1"
    if "i < length p" "j < length p" "j \<le> i" for i j
    using q_hat_inv_entry_ok [OF assms that(1,3)] nth [OF that(1,2)] by auto
  ultimately show ?thesis using t by blast
qed

text \<open>\<open>big_P_inv_mod_q[i]\<close> inverts the whole special modulus \<open>P\<close> modulo \<open>q_i\<close>.\<close>

lemma big_P_inv_table:
  assumes "prime_chain (q @ p)"
  shows "\<exists>t. big_P_inv_mod_q q p = Some t \<and> length t = length q \<and> (\<forall>i<length q.
    unat (t ! i) < prime_at q i \<and>
    prod_list (map (\<lambda>r. unat (pr_p r)) p) * unat (t ! i) mod prime_at q i = 1)"
proof -
  let ?P = "prod_list (map (\<lambda>r. unat (pr_p r)) p)"
  let ?f = "\<lambda>i. Option.bind (acc_loop 1 (map pr_p p) (pr_p (q ! i))) (\<lambda>t. modinv t (pr_p (q ! i)))"
  let ?ok = "\<lambda>i v. unat v < prime_at q i \<and> ?P * unat v mod prime_at q i = 1"
  have ex: "\<exists>v. ?f i = Some v \<and> ?ok i v" if i: "i < length q" for i
  proof -
    let ?m = "pr_p (q ! i)" and ?A = "{length q..<length q + length p}"
    have at: "prime_at (q @ p) i = unat ?m" "pr_p ((q @ p) ! i) = ?m" using i by (simp_all add: nth_append)
    have P: "?P = (\<Prod>k\<in>?A. prime_at (q @ p) k)"
    proof -
      have "?P = prod_list (map (\<lambda>k. prime_at (q @ p) k) [length q..<length q + length p])"
        by (rule arg_cong [where f = prod_list]) (auto intro!: nth_equalityI simp: nth_append)
      also have "\<dots> = (\<Prod>k\<in>set [length q..<length q + length p]. prime_at (q @ p) k)"
        by (rule prod.distinct_set_conv_list [symmetric]) simp
      finally show ?thesis by simp
    qed
    have m: "?m \<noteq> 0" using prime_chain_nonzero [OF assms, of i] i at by simp
    obtain t where t: "acc_loop 1 (map pr_p p) ?m = Some t" "unat t mod unat ?m = ?P mod unat ?m"
      using prod_loop_unat [OF m, of "map pr_p p" 1] by (auto simp: acc_loop_prod_loop comp_def)
    have "\<not> prime_at (q @ p) i dvd (\<Prod>k\<in>?A. prime_at (q @ p) k)"
      using i by (intro prime_chain_not_dvd_prod [OF assms]) auto
    then have "\<not> unat ?m dvd ?P" using at P by simp
    then have "\<not> unat ?m dvd unat t" using t(2) by (simp add: dvd_eq_mod_eq_0)
    moreover have "prime_nat (unat ?m)" using prime_chain_prime [OF assms, of i] i at by simp
    ultimately obtain v where v: "modinv t ?m = Some v" "unat v < unat ?m"
        "unat t * unat v mod unat ?m = 1" using modinv_unat by metis
    have "?P * unat v mod unat ?m = unat t * unat v mod unat ?m"
      by (rule mod_mult_cong_left) (simp add: t(2))
    with t v show ?thesis by simp
  qed
  have "big_P_inv_mod_q q p = Some (map (\<lambda>i. the (?f i)) [0..<length q])"
    unfolding big_P_inv_mod_q_def
  proof (rule those_map_Some)
    fix i assume "i \<in> set [0..<length q]"
    then have "\<exists>v. ?f i = Some v" using ex [of i] by auto
    then show "?f i = Some (the (?f i))" by auto
  qed
  moreover have "?ok i (the (?f i))" if "i < length q" for i using ex [OF that] by auto
  ultimately show ?thesis by simp
qed

section \<open>Properties\<close>

lemma prime_chain_3_5_7:
  "prime_chain (map (\<lambda>n. \<lparr>pr_p = n, pr_type = None, pr_bits = 3\<rparr>) [3, 5, 7])"
  by (simp add: prime_chain_def prime_nat_code atLeastLessThan_nat_numeral)

text \<open>C19: For distinct primes, \<open>q_hat_inv\<close> returns a table whose entry \<open>(i, j)\<close>, \<open>j \<le> i\<close>,
  is the reduced inverse modulo \<open>q_j\<close> of the product of the other primes up to level \<open>i\<close>, and
  whose entries above the diagonal keep the fill value.\<close>

theorem q_hat_inv_correct:
  assumes "prime_chain p"
  shows "\<exists>t. q_hat_inv p = Some t \<and> (\<forall>i<length p. \<forall>j<length p.
    (j \<le> i \<longrightarrow> unat (t ! i ! j) < prime_at p j \<and>
       (\<Prod>k\<in>{0..i} - {j}. prime_at p k) * unat (t ! i ! j) mod prime_at p j = 1) \<and>
    (i < j \<longrightarrow> t ! i ! j = minus_one))"
  using assms by (rule q_hat_inv_table)

theorem q_hat_inv_correct_witness:
  "\<exists>t. q_hat_inv (map (\<lambda>n. \<lparr>pr_p = n, pr_type = None, pr_bits = 3\<rparr>) [3, 5, 7]) = Some t \<and>
     t ! 0 ! 1 = minus_one"
  using q_hat_inv_correct [OF prime_chain_3_5_7] by fastforce

text \<open>When the primes of \<open>Q\<close> and \<open>P\<close> are all distinct, \<open>big_P_inv_mod_q\<close> returns one entry
  per prime of \<open>Q\<close>, the reduced inverse of the whole special modulus.\<close>

theorem big_P_inv_correct:
  assumes "prime_chain (q @ p)"
  shows "\<exists>t. big_P_inv_mod_q q p = Some t \<and> length t = length q \<and> (\<forall>i<length q.
    unat (t ! i) < prime_at q i \<and>
    prod_list (map (\<lambda>r. unat (pr_p r)) p) * unat (t ! i) mod prime_at q i = 1)"
  using assms by (rule big_P_inv_table)

theorem big_P_inv_correct_witness:
  "\<exists>t. big_P_inv_mod_q [\<lparr>pr_p = 3, pr_type = None, pr_bits = 3\<rparr>]
     (map (\<lambda>n. \<lparr>pr_p = n, pr_type = None, pr_bits = 3\<rparr>) [5, 7]) = Some t \<and>
     unat (t ! 0) < 3 \<and> 35 * unat (t ! 0) mod 3 = 1"
  using big_P_inv_correct [of "[\<lparr>pr_p = 3, pr_type = None, pr_bits = 3\<rparr>]"
      "map (\<lambda>n. \<lparr>pr_p = n, pr_type = None, pr_bits = 3\<rparr>) [5, 7]"] prime_chain_3_5_7
  by fastforce

end
