(* ===== verification/ContextMeta.thy ===== *)
theory ContextMeta
  imports StdMap CrtTables
begin

text \<open>
  The limb layout a \<open>ContextData\<close> computes when it is built (\<open>src/src/CKKS/Context.cu\<close>): which device
  holds which RNS limb, which digit of the key switch owns it, how the special limbs are shared
  out, and the bit budgets that fix the number of special primes. A CUDA stream carries no
  information of its own and is left out of \<open>LimbRecord\<close>; the ids, set from loop counters, are
  natural numbers.
\<close>

section \<open>Data\<close>

record LimbRecord =
  lr_id :: nat
  lr_type :: limb_type
  lr_digit :: int

type_synonym meta = "LimbRecord list list"

text \<open>The part of \<open>Parameters\<close> and \<open>RawParams\<close> that the layout depends on.\<close>

record Parameters =
  par_logN :: nat
  par_L :: nat
  par_dnum :: int
  par_K :: int
  par_primes :: "PrimeRecord list"
  par_Sprimes :: "PrimeRecord list"
  par_technique :: nat
  par_partition :: "u64 list list option"

definition limb_type_of :: "PrimeRecord \<Rightarrow> limb_type" where
  "limb_type_of p = (case pr_type p of Some t \<Rightarrow> t | None \<Rightarrow> if pr_bits p \<le> 30 then U32 else U64)"

section \<open>Bit budgets\<close>

definition fill_bits :: "PrimeRecord \<Rightarrow> PrimeRecord" where
  "fill_bits p = (if pr_bits p = -1 then p\<lparr>pr_bits := bit_width (pr_p p)\<rparr> else p)"

text \<open>Returns the sum and the primes with the missing widths filled in; the \<open>assert\<close> lets
  \<open>L = primes.size()\<close> through, where \<open>primes[L]\<close> is out of bounds.\<close>

definition computeLogQ :: "int \<Rightarrow> PrimeRecord list \<Rightarrow> cpp_error + int \<times> PrimeRecord list" where
  "computeLogQ L primes =
     (if \<not> L \<le> int (length primes) then Inl Assert_failed
      else if L = int (length primes) then Inl Undefined_behaviour
      else let ps = map fill_bits (take (nat (L + 1)) primes)
           in Inr (sum_list (map pr_bits ps), ps @ drop (nat (L + 1)) primes))"

definition validateDnum :: "int \<Rightarrow> cpp_error + int" where
  "validateDnum dnum = (if dnum < 1 then Inl Runtime_error else Inr dnum)"

section \<open>The digits and devices of the limbs\<close>

fun find_digit :: "nat \<Rightarrow> u64 list list \<Rightarrow> u64 \<Rightarrow> int" where
  "find_digit i [] modulus = -1"
| "find_digit i (ms # mss) modulus = (if modulus \<in> set ms then int i else find_digit (Suc i) mss modulus)"

definition findDigitOnParam :: "u64 list list \<Rightarrow> u64 \<Rightarrow> int" where
  "findDigitOnParam parts modulus = find_digit 0 parts modulus"

definition digit_of :: "u64 list list option \<Rightarrow> int \<Rightarrow> nat \<Rightarrow> nat \<Rightarrow> PrimeRecord \<Rightarrow> int" where
  "digit_of raw dnum sz i p =
     (case raw of None \<Rightarrow> int i * dnum div int sz
                | Some parts \<Rightarrow> findDigitOnParam parts (pr_p p))"

definition push_limb :: "nat \<Rightarrow> LimbRecord \<Rightarrow> meta \<Rightarrow> meta" where
  "push_limb dev r meta = meta[dev := meta ! dev @ [r]]"

fun meta_loop :: "nat \<Rightarrow> int \<Rightarrow> (nat \<Rightarrow> PrimeRecord \<Rightarrow> int) \<Rightarrow> nat \<Rightarrow> int \<Rightarrow> PrimeRecord list \<Rightarrow> meta
    \<Rightarrow> cpp_error + meta" where
  "meta_loop devs dnum digit i prev [] meta = Inr meta"
| "meta_loop devs dnum digit i prev (p # ps) meta =
     (let d = digit i p in
      if d < prev \<or> d < 0 \<or> d \<ge> dnum then Inl Runtime_error
      else meta_loop devs dnum digit (Suc i) d ps
             (push_limb (i mod devs) \<lparr>lr_id = i, lr_type = limb_type_of p, lr_digit = d\<rparr> meta))"

definition generateMeta :: "nat \<Rightarrow> int \<Rightarrow> PrimeRecord list \<Rightarrow> u64 list list option \<Rightarrow> cpp_error + meta" where
  "generateMeta devs dnum prime raw =
     (if devs = 0 \<and> prime \<noteq> [] then Inl Undefined_behaviour
      else meta_loop devs dnum (digit_of raw dnum (length prime)) 0 (-1) prime (replicate devs []))"

definition generateGPUdigits :: "nat \<Rightarrow> nat \<Rightarrow> nat list list" where
  "generateGPUdigits dnum devs = replicate devs [0..<dnum]"

definition computeLogQ_d :: "nat \<Rightarrow> meta \<Rightarrow> PrimeRecord list \<Rightarrow> cpp_error + int list" where
  "computeLogQ_d dnum meta prime =
     foldE (\<lambda>res j.
       if lr_digit j < 0 \<or> nat (lr_digit j) \<ge> length res then Inl Out_of_range
       else bindE (list_at prime (lr_id j))
         (\<lambda>p. Inr (res[nat (lr_digit j) := res ! nat (lr_digit j) + pr_bits p])))
       (replicate dnum 0) (concat meta)"

text \<open>The loop of \<open>computeK\<close> over the special primes: it fills missing widths as it goes.\<close>

fun k_loop :: "int \<Rightarrow> nat \<Rightarrow> int \<Rightarrow> PrimeRecord list \<Rightarrow> nat \<times> int \<times> PrimeRecord list" where
  "k_loop logMaxD res bits [] = (res, bits, [])"
| "k_loop logMaxD res bits (p # ps) =
     (if bits < logMaxD
      then let p' = (if pr_bits p \<le> 0 then p\<lparr>pr_bits := bit_width (pr_p p)\<rparr> else p);
               (res', bits', ps') = k_loop logMaxD (Suc res) (bits + (pr_bits p' - 1)) ps
           in (res', bits', p' # ps')
      else (res, bits, p # ps))"

definition computeK :: "int list \<Rightarrow> PrimeRecord list \<Rightarrow> int \<Rightarrow> cpp_error + int \<times> PrimeRecord list" where
  "computeK logQ_d Sprimes parK =
     (if logQ_d = [] then Inl Undefined_behaviour
      else let logMaxD = Max (set logQ_d);
               (res, bits, Sprimes') = k_loop logMaxD 0 0 Sprimes
           in if parK \<noteq> -1 then Inr (parK, Sprimes')
              else if \<not> bits \<ge> logMaxD then Inl Assert_failed
              else Inr (int res, Sprimes'))"

section \<open>Special limbs\<close>

definition generateSpecialMeta :: "PrimeRecord list \<Rightarrow> nat \<Rightarrow> nat \<Rightarrow> meta" where
  "generateSpecialMeta specialPrime ID0 devs =
     replicate devs (map (\<lambda>i. \<lparr>lr_id = ID0 + i, lr_type = limb_type_of (specialPrime ! i), lr_digit = -1\<rparr>)
       [0..<length specialPrime])"

fun split_special :: "nat \<Rightarrow> LimbRecord list \<Rightarrow> meta" where
  "split_special 0 rest = []"
| "split_special (Suc n) rest =
     (let num = length rest div Suc n in take num rest # split_special n (drop num rest))"

definition generateSplitSpecialMeta :: "LimbRecord list \<Rightarrow> nat \<Rightarrow> meta" where
  "generateSplitSpecialMeta specialMeta devs = split_special devs specialMeta"

section \<open>Digit and gather layouts\<close>

definition generateDigitMeta :: "meta \<Rightarrow> meta \<Rightarrow> nat list list \<Rightarrow> LimbRecord list list list" where
  "generateDigitMeta meta splitSpecialMeta digitGPUid =
     map (\<lambda>i. map (\<lambda>d. splitSpecialMeta ! i @ filter (\<lambda>l. lr_digit l \<noteq> int d) (meta ! i)) (digitGPUid ! i))
       [0..<length digitGPUid]"

definition generateDecompMeta :: "meta \<Rightarrow> nat list list \<Rightarrow> nat \<Rightarrow> LimbRecord list list list" where
  "generateDecompMeta meta digitGPUid L =
     map (\<lambda>ds. map (\<lambda>d. concat (map (\<lambda>primeid.
         filter (\<lambda>l. lr_id l = primeid \<and> lr_digit l = int d) (concat meta)) [0..<Suc L])) ds) digitGPUid"

text \<open>A limb the loops never find keeps the default record.\<close>

definition default_limb :: LimbRecord where
  "default_limb = \<lparr>lr_id = 0, lr_type = U32, lr_digit = -1\<rparr>"

definition generateGatherMeta :: "meta \<Rightarrow> nat \<Rightarrow> LimbRecord list" where
  "generateGatherMeta meta L =
     map (\<lambda>i. foldl (\<lambda>r l. if lr_id l = i then l else r) default_limb (concat meta)) [0..<Suc L]"

definition positions :: "meta \<Rightarrow> (nat \<times> nat \<times> nat) list" where
  "positions meta = concat (map (\<lambda>i. map (\<lambda>j. (lr_id (meta ! i ! j), i, j)) [0..<length (meta ! i)]) [0..<length meta])"

definition generateLimbGPUid :: "meta \<Rightarrow> nat \<Rightarrow> meta \<Rightarrow> nat \<Rightarrow> cpp_error + (nat \<times> nat) list" where
  "generateLimbGPUid meta L SPECIALmeta K =
     foldE (\<lambda>res (k, gpu). if k < length res then Inr (res[k := gpu]) else Inl Out_of_range)
       (replicate (L + 1 + K) (0, 0)) (positions meta @ positions SPECIALmeta)"

definition generateDigitGPUid :: "meta \<Rightarrow> nat \<Rightarrow> nat list" where
  "generateDigitGPUid meta dnum =
     foldl (\<lambda>res (d, i). res[nat d := i]) (replicate dnum 0)
       (concat (map (\<lambda>i. map (\<lambda>l. (lr_digit l, i)) (meta ! i)) [0..<length meta]))"

definition isValidPrimeId :: "nat \<Rightarrow> nat \<Rightarrow> int \<Rightarrow> bool" where
  "isValidPrimeId L K i \<longleftrightarrow> i \<ge> 0 \<and> i < int (L + 1 + K)"

section \<open>The whole layout\<close>

text \<open>The constructor of \<open>ContextData\<close> computes the fields in this order, each from the earlier.\<close>

record Layout =
  lay_N :: nat
  lay_L :: nat
  lay_logQ :: int
  lay_dnum :: int
  lay_GPUdigits :: "nat list list"
  lay_prime :: "PrimeRecord list"
  lay_meta :: meta
  lay_logQ_d :: "int list"
  lay_K :: int
  lay_logP :: int
  lay_specialPrime :: "PrimeRecord list"
  lay_specialMeta :: meta
  lay_splitSpecialMeta :: meta
  lay_decompMeta :: "LimbRecord list list list"
  lay_digitMeta :: "LimbRecord list list list"
  lay_gatherMeta :: "LimbRecord list"
  lay_limbGPUid :: "(nat \<times> nat) list"
  lay_digitGPUid :: "nat list"

text \<open>\<open>vector::resize\<close>: new elements are default \<open>PrimeRecord\<close>s.\<close>

definition default_prime :: PrimeRecord where
  "default_prime = \<lparr>pr_p = 2147483647, pr_type = None, pr_bits = -1\<rparr>"

definition resize_primes :: "nat \<Rightarrow> PrimeRecord list \<Rightarrow> PrimeRecord list" where
  "resize_primes n ps = take n ps @ replicate (n - length ps) default_prime"

definition build_layout :: "Parameters \<Rightarrow> nat \<Rightarrow> cpp_error + Layout" where
  "build_layout param devs =
     bindE (computeLogQ (int (par_L param)) (par_primes param)) (\<lambda>(logQ, primes).
     bindE (validateDnum (par_dnum param)) (\<lambda>dnum.
     let L = par_L param;
         GPUdigits = generateGPUdigits (nat dnum) devs;
         prime = resize_primes (Suc L) primes
     in bindE (generateMeta devs dnum prime (par_partition param)) (\<lambda>meta.
        bindE (computeLogQ_d (nat dnum) meta prime) (\<lambda>logQ_d.
        bindE (computeK logQ_d (par_Sprimes param) (par_K param)) (\<lambda>(K, Sprimes).
        bindE (computeLogQ (K - 1) Sprimes) (\<lambda>(logP, Sprimes').
        let specialPrime = resize_primes (nat K) Sprimes';
            specialMeta = generateSpecialMeta specialPrime (L + 1) devs
        in bindE (list_at specialMeta 0) (\<lambda>special0.
           let split = generateSplitSpecialMeta special0 devs
           in bindE (generateLimbGPUid meta L split (nat K)) (\<lambda>limbGPUid.
              Inr \<lparr>lay_N = 2 ^ par_logN param, lay_L = L, lay_logQ = logQ, lay_dnum = dnum,
                lay_GPUdigits = GPUdigits, lay_prime = prime, lay_meta = meta, lay_logQ_d = logQ_d,
                lay_K = K, lay_logP = logP, lay_specialPrime = specialPrime,
                lay_specialMeta = specialMeta, lay_splitSpecialMeta = split,
                lay_decompMeta = generateDecompMeta meta GPUdigits L,
                lay_digitMeta = generateDigitMeta meta split GPUdigits,
                lay_gatherMeta = generateGatherMeta meta L,
                lay_limbGPUid = limbGPUid,
                lay_digitGPUid = generateDigitGPUid meta (nat dnum)\<rparr>))))))))"

section \<open>The limbs of each device\<close>

lemma sum_list_add_at: "k < length xs \<Longrightarrow> sum_list (xs[k := xs ! k + b]) = sum_list xs + (b::int)"
proof (induction xs arbitrary: k)
  case (Cons x xs)
  then show ?case by (cases k) simp_all
qed simp

definition limb_rec :: "u64 list list option \<Rightarrow> int \<Rightarrow> PrimeRecord list \<Rightarrow> nat \<Rightarrow> LimbRecord" where
  "limb_rec raw dnum prime i = \<lparr>lr_id = i, lr_type = limb_type_of (prime ! i),
     lr_digit = digit_of raw dnum (length prime) i (prime ! i)\<rparr>"

lemma limb_rec_sel [simp]:
  "lr_id (limb_rec raw dnum prime i) = i"
  "lr_digit (limb_rec raw dnum prime i) = digit_of raw dnum (length prime) i (prime ! i)"
  by (simp_all add: limb_rec_def)

lemma filter_upt_Suc:
  "filter P [0..<Suc n] = (if P 0 then [0] else []) @ map Suc (filter (\<lambda>k. P (Suc k)) [0..<n])"
  by (simp add: upt_conv_Cons map_Suc_upt [symmetric] filter_map comp_def del: upt_Suc)

lemma meta_loop_shape:
  assumes "meta_loop devs dnum digit i prev ps meta = Inr m" and "0 < devs" and "length meta = devs"
  shows "length m = devs \<and> (\<forall>d<devs. m ! d = meta ! d @
    map (\<lambda>k. \<lparr>lr_id = i + k, lr_type = limb_type_of (ps ! k), lr_digit = digit (i + k) (ps ! k)\<rparr>)
      (filter (\<lambda>k. (i + k) mod devs = d) [0..<length ps]))"
  using assms
proof (induction ps arbitrary: i prev meta)
  case (Cons p ps)
  let ?r = "\<lparr>lr_id = i, lr_type = limb_type_of p, lr_digit = digit i p\<rparr>"
  let ?meta = "push_limb (i mod devs) ?r meta"
  have "meta_loop devs dnum digit (Suc i) (digit i p) ps ?meta = Inr m"
    using Cons.prems(1) by (auto simp: Let_def split: if_splits)
  from Cons.IH [OF this] Cons.prems(2,3)
  have len: "length m = devs"
    and IH: "\<And>d. d < devs \<Longrightarrow> m ! d = ?meta ! d @
      map (\<lambda>k. \<lparr>lr_id = Suc i + k, lr_type = limb_type_of (ps ! k), lr_digit = digit (Suc i + k) (ps ! k)\<rparr>)
        (filter (\<lambda>k. (Suc i + k) mod devs = d) [0..<length ps])"
    by (simp_all add: push_limb_def)
  have "?meta ! d = meta ! d @ (if i mod devs = d then [?r] else [])" if "d < devs" for d
    using that Cons.prems(3) by (simp add: push_limb_def nth_list_update)
  with len IH show ?case by (simp add: filter_upt_Suc comp_def del: upt_Suc)
qed simp

lemma meta_loop_digits:
  assumes "meta_loop devs dnum digit i prev ps meta = Inr m"
  shows "(\<forall>k<length ps. prev \<le> digit (i + k) (ps ! k) \<and> 0 \<le> digit (i + k) (ps ! k) \<and> digit (i + k) (ps ! k) < dnum)
    \<and> (\<forall>k l. k \<le> l \<longrightarrow> l < length ps \<longrightarrow> digit (i + k) (ps ! k) \<le> digit (i + l) (ps ! l))"
  using assms
proof (induction ps arbitrary: i prev meta)
  case (Cons p ps)
  have "meta_loop devs dnum digit (Suc i) (digit i p) ps
      (push_limb (i mod devs) \<lparr>lr_id = i, lr_type = limb_type_of p, lr_digit = digit i p\<rparr> meta) = Inr m"
    and head: "prev \<le> digit i p" "0 \<le> digit i p" "digit i p < dnum"
    using Cons.prems by (auto simp: Let_def split: if_splits)
  from Cons.IH [OF this(1)]
  have range: "\<And>k. k < length ps \<Longrightarrow> digit i p \<le> digit (Suc i + k) (ps ! k)
      \<and> 0 \<le> digit (Suc i + k) (ps ! k) \<and> digit (Suc i + k) (ps ! k) < dnum"
    and mono: "\<And>k l. k \<le> l \<Longrightarrow> l < length ps \<Longrightarrow> digit (Suc i + k) (ps ! k) \<le> digit (Suc i + l) (ps ! l)"
    by blast+
  have "digit (i + k) ((p # ps) ! k) \<le> digit (i + l) ((p # ps) ! l)"
    if "k \<le> l" "l < Suc (length ps)" for k l
    using that head range mono by (cases k; cases l) auto
  moreover have "prev \<le> digit (i + k) ((p # ps) ! k) \<and> 0 \<le> digit (i + k) ((p # ps) ! k)
      \<and> digit (i + k) ((p # ps) ! k) < dnum" if "k < Suc (length ps)" for k
    using that head range by (cases k) force+
  ultimately show ?case by simp
qed simp

lemma generateMeta_shape:
  assumes "generateMeta devs dnum prime raw = Inr m" and "0 < devs"
  shows "m = map (\<lambda>d. map (limb_rec raw dnum prime) (filter (\<lambda>i. i mod devs = d) [0..<length prime])) [0..<devs]"
proof -
  have "meta_loop devs dnum (digit_of raw dnum (length prime)) 0 (-1) prime (replicate devs []) = Inr m"
    using assms by (simp add: generateMeta_def)
  from meta_loop_shape [OF this assms(2)]
  show ?thesis by (intro nth_equalityI) (simp_all add: limb_rec_def)
qed

lemma generateMeta_digits:
  assumes "generateMeta devs dnum prime raw = Inr m" and "0 < devs"
  shows "\<And>i. i < length prime \<Longrightarrow> 0 \<le> digit_of raw dnum (length prime) i (prime ! i)
      \<and> digit_of raw dnum (length prime) i (prime ! i) < dnum"
    and "\<And>i j. i \<le> j \<Longrightarrow> j < length prime \<Longrightarrow>
      digit_of raw dnum (length prime) i (prime ! i) \<le> digit_of raw dnum (length prime) j (prime ! j)"
proof -
  have "meta_loop devs dnum (digit_of raw dnum (length prime)) 0 (-1) prime (replicate devs []) = Inr m"
    using assms by (simp add: generateMeta_def)
  from meta_loop_digits [OF this]
  show "\<And>i. i < length prime \<Longrightarrow> 0 \<le> digit_of raw dnum (length prime) i (prime ! i)
      \<and> digit_of raw dnum (length prime) i (prime ! i) < dnum"
    "\<And>i j. i \<le> j \<Longrightarrow> j < length prime \<Longrightarrow>
      digit_of raw dnum (length prime) i (prime ! i) \<le> digit_of raw dnum (length prime) j (prime ! j)"
    by auto
qed

lemma set_concat_meta:
  assumes "generateMeta devs dnum prime raw = Inr m" and "0 < devs"
  shows "set (concat m) = limb_rec raw dnum prime ` {0..<length prime}"
proof -
  have "limb_rec raw dnum prime i \<in> set (concat m)" if "i < length prime" for i
    using that assms(2) unfolding generateMeta_shape [OF assms]
    by (auto intro!: bexI [of _ "i mod devs"])
  then show ?thesis unfolding generateMeta_shape [OF assms] by auto
qed

lemma push_limb_length [simp]: "length (push_limb d r m) = length m"
  by (simp add: push_limb_def)

lemma meta_loop_total:
  assumes "\<forall>k<length ps. 0 \<le> digit (i + k) (ps ! k) \<and> digit (i + k) (ps ! k) < dnum"
    and "\<forall>k l. k \<le> l \<longrightarrow> l < length ps \<longrightarrow> digit (i + k) (ps ! k) \<le> digit (i + l) (ps ! l)"
    and "ps = [] \<or> prev \<le> digit i (ps ! 0)"
  shows "\<exists>m. meta_loop devs dnum digit i prev ps meta = Inr m"
  using assms
proof (induction ps arbitrary: i prev meta)
  case (Cons p ps)
  have "0 \<le> digit i p" "digit i p < dnum" "prev \<le> digit i p"
    using Cons.prems(1) [rule_format, of 0] Cons.prems(3) by auto
  moreover have "\<exists>m. meta_loop devs dnum digit (Suc i) (digit i p) ps
      (push_limb (i mod devs) \<lparr>lr_id = i, lr_type = limb_type_of p, lr_digit = digit i p\<rparr> meta) = Inr m"
  proof (rule Cons.IH)
    show "\<forall>k<length ps. 0 \<le> digit (Suc i + k) (ps ! k) \<and> digit (Suc i + k) (ps ! k) < dnum"
      using Cons.prems(1) by (metis Suc_less_eq add_Suc_shift length_Cons nth_Cons_Suc)
    show "\<forall>k l. k \<le> l \<longrightarrow> l < length ps \<longrightarrow> digit (Suc i + k) (ps ! k) \<le> digit (Suc i + l) (ps ! l)"
      using Cons.prems(2) by (metis Suc_less_eq Suc_le_mono add_Suc_shift length_Cons nth_Cons_Suc)
    show "ps = [] \<or> digit i p \<le> digit (Suc i) (ps ! 0)"
      using Cons.prems(2) [rule_format, of 0 1] by (cases ps) simp_all
  qed
  ultimately show ?case by (simp add: Let_def not_less)
qed simp

lemma default_digit_bounds:
  assumes "0 < dnum" and "i < sz"
  shows "0 \<le> int i * dnum div int sz" and "int i * dnum div int sz < dnum"
proof -
  show "0 \<le> int i * dnum div int sz" using assms by (simp add: pos_imp_zdiv_nonneg_iff)
  have lt: "int i * dnum < int sz * dnum" using assms by simp
  show "int i * dnum div int sz < dnum"
  proof (rule ccontr)
    assume "\<not> int i * dnum div int sz < dnum"
    then have "int sz * dnum \<le> int sz * (int i * dnum div int sz)" using assms by simp
    also have "\<dots> \<le> int i * dnum"
      using mult_div_mod_eq [of "int sz" "int i * dnum"] pos_mod_sign [of "int sz" "int i * dnum"] assms
      by linarith
    finally show False using lt by simp
  qed
qed

lemma generateMeta_default_total:
  assumes "1 \<le> dnum" and "0 < devs"
  shows "\<exists>m. generateMeta devs dnum prime None = Inr m"
proof -
  have "\<exists>m. meta_loop devs dnum (digit_of None dnum (length prime)) 0 (-1) prime (replicate devs []) = Inr m"
  proof (rule meta_loop_total)
    show "\<forall>k<length prime. 0 \<le> digit_of None dnum (length prime) (0 + k) (prime ! k) \<and>
        digit_of None dnum (length prime) (0 + k) (prime ! k) < dnum"
      using assms(1) default_digit_bounds by (auto simp: digit_of_def)
    show "\<forall>k l. k \<le> l \<longrightarrow> l < length prime \<longrightarrow> digit_of None dnum (length prime) (0 + k) (prime ! k)
        \<le> digit_of None dnum (length prime) (0 + l) (prime ! l)"
      using assms(1) by (auto simp: digit_of_def intro!: zdiv_mono1 mult_right_mono)
    show "prime = [] \<or> -1 \<le> digit_of None dnum (length prime) 0 (prime ! 0)"
      by (simp add: digit_of_def)
  qed
  then show ?thesis using assms(2) by (simp add: generateMeta_def)
qed

section \<open>Looking limbs up\<close>

lemma foldl_select:
  assumes "\<And>l. l \<in> set ls \<Longrightarrow> lr_id l = i \<Longrightarrow> l = r"
  shows "foldl (\<lambda>a l. if lr_id l = i then l else a) a ls = (if \<exists>l \<in> set ls. lr_id l = i then r else a)"
  using assms by (induction ls arbitrary: a) auto

lemma gather_nth:
  assumes "generateMeta devs dnum prime raw = Inr m" and "0 < devs" and "i \<le> L" and "i < length prime"
  shows "generateGatherMeta m L ! i = limb_rec raw dnum prime i"
proof -
  have "\<exists>l \<in> set (concat m). lr_id l = i"
    using assms(4) unfolding set_concat_meta [OF assms(1,2)] by (force simp: limb_rec_def)
  moreover have "l = limb_rec raw dnum prime i" if "l \<in> set (concat m)" "lr_id l = i" for l
    using that unfolding set_concat_meta [OF assms(1,2)] by (auto simp: limb_rec_def)
  ultimately have "foldl (\<lambda>a l. if lr_id l = i then l else a) default_limb (concat m) = limb_rec raw dnum prime i"
    using foldl_select [of "concat m" i "limb_rec raw dnum prime i"] by simp
  moreover have "generateGatherMeta m L ! i = foldl (\<lambda>a l. if lr_id l = i then l else a) default_limb (concat m)"
    unfolding generateGatherMeta_def using assms(3) by (subst nth_map) (simp_all del: upt_Suc)
  ultimately show ?thesis by simp
qed

lemma concat_set_nth: "a < length xss \<Longrightarrow> b < length (xss ! a) \<Longrightarrow> xss ! a ! b \<in> set (concat xss)"
  by (auto intro!: bexI [of _ "xss ! a"])

lemma set_positions: "(k, i, j) \<in> set (positions m) \<longleftrightarrow> i < length m \<and> j < length (m ! i) \<and> lr_id (m ! i ! j) = k"
  by (force simp: positions_def)

lemma scatter_nth:
  assumes "foldE (\<lambda>res (k, v). if k < length res then Inr (res[k := v]) else Inl Out_of_range) res0 kvs = Inr res"
  shows "length res = length res0 \<and> (\<forall>k<length res. (k, res ! k) \<in> set kvs \<or> (res ! k = res0 ! k \<and> k \<notin> fst ` set kvs))"
  using assms
proof (induction kvs arbitrary: res0)
  case (Cons kv kvs)
  obtain k v where kv: "kv = (k, v)" by (cases kv)
  have k: "k < length res0" and "foldE (\<lambda>res (k, v). if k < length res then Inr (res[k := v]) else Inl Out_of_range)
      (res0[k := v]) kvs = Inr res"
    using Cons.prems kv by (auto split: if_splits)
  from Cons.IH [OF this(2)] show ?case using k by (auto simp: kv nth_list_update split: if_splits)
qed simp

lemma limb_position:
  assumes "generateMeta devs dnum prime raw = Inr m" and "0 < devs"
    and "generateLimbGPUid m L spec K = Inr g" and "length prime = Suc L"
    and "\<forall>l \<in> set (concat spec). L < lr_id l" and "i \<le> L"
  shows "fst (g ! i) < devs \<and> snd (g ! i) < length (m ! fst (g ! i)) \<and> m ! fst (g ! i) ! snd (g ! i) = limb_rec raw dnum prime i"
proof -
  let ?kvs = "positions m @ positions spec"
  have g: "length g = L + 1 + K" "i < length g \<Longrightarrow> (i, g ! i) \<in> set ?kvs \<or> i \<notin> fst ` set ?kvs"
    using scatter_nth [OF assms(3) [unfolded generateLimbGPUid_def]] by auto
  have lm: "length m = devs" using generateMeta_shape [OF assms(1,2)] by simp
  have "limb_rec raw dnum prime i \<in> set (concat m)"
    unfolding set_concat_meta [OF assms(1,2)] using assms(4,6) by simp
  then obtain ls where "ls \<in> set m" "limb_rec raw dnum prime i \<in> set ls" by auto
  then obtain d j where "d < length m" "j < length (m ! d)" "m ! d ! j = limb_rec raw dnum prime i"
    by (metis in_set_conv_nth)
  then have "d < length m" "j < length (m ! d)" "lr_id (m ! d ! j) = i" by (simp_all add: limb_rec_def)
  then have "(i, d, j) \<in> set (positions m)" by (simp add: set_positions)
  then have "i \<in> fst ` set ?kvs" by force
  then have "(i, g ! i) \<in> set ?kvs" using g assms(6) by auto
  moreover have "(i, g ! i) \<notin> set (positions spec)"
  proof
    assume "(i, g ! i) \<in> set (positions spec)"
    then obtain a b where "a < length spec" "b < length (spec ! a)" "lr_id (spec ! a ! b) = i"
      by (cases "g ! i") (auto simp: set_positions)
    then show False using assms(5,6) by (metis concat_set_nth leD)
  qed
  ultimately have at: "fst (g ! i) < length m \<and> snd (g ! i) < length (m ! fst (g ! i))
      \<and> lr_id (m ! fst (g ! i) ! snd (g ! i)) = i"
    by (cases "g ! i") (auto simp: set_positions)
  then have "m ! fst (g ! i) ! snd (g ! i) \<in> set (concat m)" by (intro concat_set_nth) simp_all
  then obtain j where "m ! fst (g ! i) ! snd (g ! i) = limb_rec raw dnum prime j"
    unfolding set_concat_meta [OF assms(1,2)] by auto
  then show ?thesis using at lm by (simp add: limb_rec_def)
qed

section \<open>Special limbs and key-switch layouts\<close>

lemma split_special_concat: "0 < n \<Longrightarrow> concat (split_special n rest) = rest"
proof (induction n arbitrary: rest)
  case (Suc n)
  show ?case
  proof (cases "n = 0")
    case False
    then show ?thesis using Suc.IH [of "drop (length rest div Suc n) rest"] by (simp add: Let_def)
  qed simp
qed simp

lemma split_special_length: "length (split_special n rest) = n"
  by (induction n arbitrary: rest) (simp_all add: Let_def)

lemma div_shrink: "r div Suc n \<le> (r - r div Suc n) div n" if "0 < n" for r n :: nat
proof -
  have "Suc n * (r div Suc n) \<le> r" by (rule times_div_less_eq_dividend)
  then have "r div Suc n * n \<le> r - r div Suc n" by (simp add: mult.commute)
  then show ?thesis using that by (simp add: less_eq_div_iff_mult_less_eq)
qed

lemma div_mult_add: "0 < n \<Longrightarrow> (n * q + x) div n = q + x div (n::nat)"
  using div_mult_self2 [of n x q] by (simp only: add.commute)

text \<open>No device gets more than one special limb more than another.\<close>

lemma split_special_balanced:
  "s \<in> set (split_special n rest) \<Longrightarrow>
     length rest div n \<le> length s \<and> length s \<le> (length rest + n - 1) div n"
proof (induction n arbitrary: rest)
  case (Suc n)
  let ?q = "length rest div Suc n" and ?r = "length rest"
  have q: "?q \<le> ?r" by simp
  have up: "?q \<le> (?r + n) div Suc n" by (intro div_le_mono) simp
  show ?case
  proof (cases "s = take ?q rest")
    case True
    then show ?thesis using q up by (simp add: min_absorb2)
  next
    case False
    then have s: "s \<in> set (split_special n (drop ?q rest))" using Suc.prems by (simp add: Let_def)
    then have n: "0 < n" by (cases n) auto
    have b: "(?r - ?q) div n \<le> length s" "length s \<le> (?r - ?q + n - 1) div n"
      using Suc.IH [OF s] by simp_all
    have lo: "?q \<le> (?r - ?q) div n" using n by (rule div_shrink)
    have "(?r - ?q + n - 1) div n \<le> (?r + n) div Suc n"
    proof -
      obtain t where t: "?r = Suc n * ?q + t" "t < Suc n"
        by (metis mod_less_divisor mult_div_mod_eq zero_less_Suc)
      have "?r - ?q + n - 1 = n * ?q + (t + n - 1)" using t(1) n by simp
      then have l: "(?r - ?q + n - 1) div n = ?q + (t + n - 1) div n"
        by (simp only: div_mult_add [OF n])
      have "?r + n = Suc n * ?q + (t + n)" using t(1) by simp
      then have r: "(?r + n) div Suc n = ?q + (t + n) div Suc n"
        by (simp only: div_mult_add [OF zero_less_Suc])
      have "(t + n - 1) div n \<le> (t + n) div Suc n"
      proof (cases "t = 0")
        case False
        then have "1 \<le> (t + n) div Suc n" by (simp add: Suc_le_eq div_greater_zero_iff)
        moreover have "(t + n - 1) div n < 2" using t(2) n by (simp add: less_mult_imp_div_less)
        ultimately show ?thesis by simp
      qed (use n in simp)
      then show ?thesis using l r by simp
    qed
    then show ?thesis using b lo by simp
  qed
qed simp

text \<open>On one device, the digit's own limbs and the limbs of \<open>digitMeta\<close> cover each limb once.\<close>

lemma decomp_mem:
  assumes "generateMeta devs dnum prime raw = Inr m" and "0 < devs" and "length prime = Suc L"
    and "i < length digits" and "j < length (digits ! i)"
  shows "set (generateDecompMeta m digits L ! i ! j)
    = {l \<in> limb_rec raw dnum prime ` {0..L}. lr_digit l = int (digits ! i ! j)}"
proof -
  have "set (concat m) = limb_rec raw dnum prime ` {0..L}"
    using set_concat_meta [OF assms(1,2)] assms(3) by (simp add: atLeastLessThanSuc_atLeastAtMost)
  moreover have "lr_id l \<le> L" if "l \<in> limb_rec raw dnum prime ` {0..L}" for l
    using that by (auto simp: limb_rec_def)
  ultimately show ?thesis
    using assms(4,5) by (auto simp: generateDecompMeta_def simp del: upt_Suc)
qed

lemma digit_mem:
  assumes "i < length digits" and "j < length (digits ! i)"
  shows "generateDigitMeta m split digits ! i ! j
    = split ! i @ filter (\<lambda>l. lr_digit l \<noteq> int (digits ! i ! j)) (m ! i)"
  using assms by (simp add: generateDigitMeta_def)

section \<open>Bit budgets\<close>

lemma sum_digits:
  assumes "foldE (\<lambda>res j.
       if lr_digit j < 0 \<or> nat (lr_digit j) \<ge> length res then Inl Out_of_range
       else bindE (list_at prime (lr_id j))
         (\<lambda>p. Inr (res[nat (lr_digit j) := res ! nat (lr_digit j) + pr_bits p]))) res0 ls = Inr res"
  shows "length res = length res0 \<and> sum_list res = sum_list res0 + sum_list (map (\<lambda>l. pr_bits (prime ! lr_id l)) ls)
    \<and> (\<forall>d<length res. res ! d = res0 ! d + sum_list (map (\<lambda>l. pr_bits (prime ! lr_id l)) (filter (\<lambda>l. lr_digit l = int d) ls)))"
  using assms
proof (induction ls arbitrary: res0)
  case (Cons l ls)
  let ?d = "nat (lr_digit l)" and ?b = "pr_bits (prime ! lr_id l)"
  let ?res = "res0[?d := res0 ! ?d + ?b]"
  have d: "0 \<le> lr_digit l" "?d < length res0"
    and "foldE (\<lambda>res j.
       if lr_digit j < 0 \<or> nat (lr_digit j) \<ge> length res then Inl Out_of_range
       else bindE (list_at prime (lr_id j))
         (\<lambda>p. Inr (res[nat (lr_digit j) := res ! nat (lr_digit j) + pr_bits p]))) ?res ls = Inr res"
    using Cons.prems by (auto simp: list_at_def split: if_splits)
  from Cons.IH [OF this(3)]
  have IH: "length res = length res0"
      "sum_list res = sum_list ?res + sum_list (map (\<lambda>l. pr_bits (prime ! lr_id l)) ls)"
      "\<And>d. d < length res \<Longrightarrow> res ! d = ?res ! d + sum_list (map (\<lambda>l. pr_bits (prime ! lr_id l)) (filter (\<lambda>l. lr_digit l = int d) ls))"
    by simp_all
  have "sum_list ?res = sum_list res0 + ?b" using d(2) by (rule sum_list_add_at)
  moreover have "?res ! d = res0 ! d + (if lr_digit l = int d then ?b else 0)" if "d < length res0" for d
    using that d by (auto simp: nth_list_update)
  ultimately show ?case using IH by simp
qed simp

lemma k_loop_spec:
  assumes "k_loop M res bits ps = (res', bits', ps')"
  shows "res \<le> res' \<and> length ps' = length ps \<and> map pr_p ps' = map pr_p ps
    \<and> (bits' < M \<longrightarrow> res' = res + length ps)
    \<and> bits' = bits + sum_list (map (\<lambda>p. pr_bits p - 1) (take (res' - res) ps'))"
  using assms
proof (induction ps arbitrary: res bits res' bits' ps')
  case (Cons p ps)
  show ?case
  proof (cases "bits < M")
    case True
    let ?p = "if pr_bits p \<le> 0 then p\<lparr>pr_bits := bit_width (pr_p p)\<rparr> else p"
    obtain ps1 where ps1: "k_loop M (Suc res) (bits + (pr_bits ?p - 1)) ps = (res', bits', ps1)"
      and ps': "ps' = ?p # ps1"
      using Cons.prems True
      by (cases "k_loop M (Suc res) (bits + (pr_bits ?p - 1)) ps") (simp add: Let_def)
    from Cons.IH [OF ps1] have
      IH: "Suc res \<le> res'" "length ps1 = length ps" "map pr_p ps1 = map pr_p ps"
        "bits' < M \<longrightarrow> res' = Suc res + length ps"
        "bits' = bits + (pr_bits ?p - 1) + sum_list (map (\<lambda>p. pr_bits p - 1) (take (res' - Suc res) ps1))"
      by blast+
    obtain n where n: "res' = Suc res + n" using IH(1) le_Suc_ex by blast
    show ?thesis using IH(2-5) unfolding ps' n by simp
  next
    case False
    then show ?thesis using Cons.prems by auto
  qed
qed auto

section \<open>Facts of a finished layout\<close>

lemma build_layoutD:
  assumes "build_layout param devs = Inr lay"
  obtains primes Sprimes Sprimes' where
    "computeLogQ (int (lay_L lay)) (par_primes param) = Inr (lay_logQ lay, primes)"
    and "lay_dnum lay = par_dnum param" and "1 \<le> par_dnum param" and "lay_L lay = par_L param"
    and "lay_prime lay = resize_primes (Suc (lay_L lay)) primes"
    and "generateMeta devs (lay_dnum lay) (lay_prime lay) (par_partition param) = Inr (lay_meta lay)"
    and "computeLogQ_d (nat (lay_dnum lay)) (lay_meta lay) (lay_prime lay) = Inr (lay_logQ_d lay)"
    and "computeK (lay_logQ_d lay) (par_Sprimes param) (par_K param) = Inr (lay_K lay, Sprimes)"
    and "computeLogQ (lay_K lay - 1) Sprimes = Inr (lay_logP lay, Sprimes')"
    and "lay_specialPrime lay = resize_primes (nat (lay_K lay)) Sprimes'"
    and "lay_specialMeta lay = generateSpecialMeta (lay_specialPrime lay) (lay_L lay + 1) devs"
    and "0 < devs"
    and "lay_splitSpecialMeta lay = generateSplitSpecialMeta (lay_specialMeta lay ! 0) devs"
    and "generateLimbGPUid (lay_meta lay) (lay_L lay) (lay_splitSpecialMeta lay) (nat (lay_K lay)) = Inr (lay_limbGPUid lay)"
    and "lay_gatherMeta lay = generateGatherMeta (lay_meta lay) (lay_L lay)"
    and "lay_decompMeta lay = generateDecompMeta (lay_meta lay) (lay_GPUdigits lay) (lay_L lay)"
    and "lay_digitMeta lay = generateDigitMeta (lay_meta lay) (lay_splitSpecialMeta lay) (lay_GPUdigits lay)"
    and "lay_GPUdigits lay = generateGPUdigits (nat (lay_dnum lay)) devs"
proof -
  obtain logQ primes where 1: "computeLogQ (int (par_L param)) (par_primes param) = Inr (logQ, primes)"
    and "validateDnum (par_dnum param) = Inr (par_dnum param)" and dn: "1 \<le> par_dnum param"
    using assms by (auto simp: build_layout_def bindE_eq_Inr validateDnum_def split: if_splits)
  note r = assms [unfolded build_layout_def Let_def bindE.simps case_prod_conv 1 this(2)]
  let ?prime = "resize_primes (Suc (par_L param)) primes"
  obtain meta where 2: "generateMeta devs (par_dnum param) ?prime (par_partition param) = Inr meta"
    using r unfolding bindE_eq_Inr by blast
  note r = r [unfolded 2 bindE.simps]
  obtain lq where 3: "computeLogQ_d (nat (par_dnum param)) meta ?prime = Inr lq"
    using r unfolding bindE_eq_Inr by blast
  note r = r [unfolded 3 bindE.simps]
  obtain K Sp where 4: "computeK lq (par_Sprimes param) (par_K param) = Inr (K, Sp)"
    using r unfolding bindE_eq_Inr by force
  note r = r [unfolded 4 bindE.simps case_prod_conv]
  obtain logP Sp' where 5: "computeLogQ (K - 1) Sp = Inr (logP, Sp')"
    using r unfolding bindE_eq_Inr by force
  note r = r [unfolded 5 bindE.simps case_prod_conv]
  let ?special = "generateSpecialMeta (resize_primes (nat K) Sp') (par_L param + 1) devs"
  have 6: "0 < devs" "list_at ?special 0 = Inr (?special ! 0)"
    using r by (auto simp: bindE_eq_Inr list_at_def generateSpecialMeta_def split: if_splits)
  note r = r [unfolded 6(2) bindE.simps]
  obtain g where 7: "generateLimbGPUid meta (par_L param) (generateSplitSpecialMeta (?special ! 0) devs) (nat K) = Inr g"
    using r unfolding bindE_eq_Inr by blast
  show ?thesis
    using r [unfolded 7 bindE.simps] 1 2 3 4 5 6 7 dn by (intro that [of primes Sp Sp']) auto
qed

lemma computeLogQ_Inr:
  assumes "computeLogQ L ps = Inr (b, ps')"
  shows "ps' = map fill_bits (take (nat (L + 1)) ps) @ drop (nat (L + 1)) ps"
    and "b = sum_list (map pr_bits (take (nat (L + 1)) ps'))" and "nat (L + 1) \<le> length ps'"
  using assms by (auto simp: computeLogQ_def Let_def split: if_splits)

lemma resize_take: "n \<le> length ps \<Longrightarrow> resize_primes n ps = take n ps"
  by (simp add: resize_primes_def)

lemma layout_prime:
  assumes "build_layout param devs = Inr lay"
  shows "length (lay_prime lay) = Suc (lay_L lay)" and "lay_logQ lay = sum_list (map pr_bits (lay_prime lay))"
proof -
  obtain primes where q: "computeLogQ (int (lay_L lay)) (par_primes param) = Inr (lay_logQ lay, primes)"
    and p: "lay_prime lay = resize_primes (Suc (lay_L lay)) primes"
    by (rule build_layoutD [OF assms])
  have n: "nat (int (lay_L lay) + 1) = Suc (lay_L lay)" by simp
  note c = computeLogQ_Inr [OF q, unfolded n]
  then have "lay_prime lay = take (Suc (lay_L lay)) primes" using p by (simp add: resize_take)
  with c(2,3) show "length (lay_prime lay) = Suc (lay_L lay)"
    "lay_logQ lay = sum_list (map pr_bits (lay_prime lay))" by simp_all
qed

lemma sum_list_concat: "sum_list (concat xss) = sum_list (map sum_list xss)"
  by (induction xss) simp_all

lemma sum_by_device:
  assumes "0 < devs"
  shows "sum_list (concat (map (\<lambda>d. map f (filter (\<lambda>i. i mod devs = d) [0..<n])) [0..<devs]))
    = (\<Sum>i<n. f i :: int)"
proof -
  have "sum_list (concat (map (\<lambda>d. map f (filter (\<lambda>i. i mod devs = d) [0..<n])) [0..<devs]))
      = (\<Sum>d<devs. sum_list (map f (filter (\<lambda>i. i mod devs = d) [0..<n])))"
    by (simp add: sum_list_concat comp_def interv_sum_list_conv_sum_set_nat atLeast0LessThan)
  also have "\<dots> = (\<Sum>d<devs. \<Sum>i\<in>{i \<in> {..<n}. i mod devs = d}. f i)"
  proof (rule sum.cong [OF refl])
    fix d
    have "sum_list (map f (filter (\<lambda>i. i mod devs = d) [0..<n])) = sum f (set (filter (\<lambda>i. i mod devs = d) [0..<n]))"
      by (rule sum_list_distinct_conv_sum_set) simp
    also have "set (filter (\<lambda>i. i mod devs = d) [0..<n]) = {i \<in> {..<n}. i mod devs = d}" by auto
    finally show "sum_list (map f (filter (\<lambda>i. i mod devs = d) [0..<n])) = (\<Sum>i\<in>{i \<in> {..<n}. i mod devs = d}. f i)" .
  qed
  also have "\<dots> = (\<Sum>i<n. f i)" using assms by (intro sum.group) auto
  finally show ?thesis .
qed

lemma layout_logQ_d:
  assumes "build_layout param devs = Inr lay"
  shows "sum_list (lay_logQ_d lay) = lay_logQ lay"
proof -
  obtain primes Sprimes where m: "generateMeta devs (lay_dnum lay) (lay_prime lay) (par_partition param) = Inr (lay_meta lay)"
    and d: "computeLogQ_d (nat (lay_dnum lay)) (lay_meta lay) (lay_prime lay) = Inr (lay_logQ_d lay)" and devs: "0 < devs"
    by (rule build_layoutD [OF assms])
  let ?b = "\<lambda>i. pr_bits (lay_prime lay ! i)"
  have "sum_list (lay_logQ_d lay) = sum_list (map (\<lambda>l. ?b (lr_id l)) (concat (lay_meta lay)))"
    using sum_digits [OF d [unfolded computeLogQ_d_def]] by (simp add: sum_list_replicate)
  also have "map (\<lambda>l. ?b (lr_id l)) (concat (lay_meta lay))
      = concat (map (\<lambda>d. map ?b (filter (\<lambda>i. i mod devs = d) [0..<length (lay_prime lay)])) [0..<devs])"
    unfolding generateMeta_shape [OF m devs] by (simp add: map_concat comp_def)
  also have "sum_list \<dots> = (\<Sum>i<length (lay_prime lay). ?b i)" by (rule sum_by_device [OF devs])
  also have "\<dots> = lay_logQ lay"
    unfolding layout_prime(2) [OF assms] by (simp add: sum_list_sum_nth atLeast0LessThan)
  finally show ?thesis .
qed

lemma split_ids:
  assumes "build_layout param devs = Inr lay"
  shows "\<forall>l \<in> set (concat (lay_splitSpecialMeta lay)). lay_L lay < lr_id l"
    and "concat (lay_splitSpecialMeta lay) = lay_specialMeta lay ! 0"
proof -
  obtain s: "lay_splitSpecialMeta lay = generateSplitSpecialMeta (lay_specialMeta lay ! 0) devs"
    and sp: "lay_specialMeta lay = generateSpecialMeta (lay_specialPrime lay) (lay_L lay + 1) devs" and devs: "0 < devs"
    by (rule build_layoutD [OF assms])
  show c: "concat (lay_splitSpecialMeta lay) = lay_specialMeta lay ! 0"
    unfolding s generateSplitSpecialMeta_def by (rule split_special_concat [OF devs])
  show "\<forall>l \<in> set (concat (lay_splitSpecialMeta lay)). lay_L lay < lr_id l"
    unfolding c using sp devs by (auto simp: generateSpecialMeta_def)
qed

section \<open>Properties\<close>

text \<open>A layout that exists: 64-bit primes 97 and 193, special prime 257, two digits, two devices.\<close>

definition example_param :: Parameters where
  "example_param = \<lparr>par_logN = 3, par_L = 1, par_dnum = 2, par_K = -1,
     par_primes = map (\<lambda>n. \<lparr>pr_p = n, pr_type = Some U64, pr_bits = 7\<rparr>) [97, 193],
     par_Sprimes = [\<lparr>pr_p = 257, pr_type = None, pr_bits = 9\<rparr>], par_technique = 0, par_partition = None\<rparr>"

lemma example_layout: "\<exists>lay. build_layout example_param 2 = Inr lay \<and> lay_L lay = 1"
  by (simp add: build_layout_def example_param_def computeLogQ_def fill_bits_def validateDnum_def
      generateMeta_def digit_of_def limb_type_of_def push_limb_def resize_primes_def computeLogQ_d_def
      computeK_def generateSpecialMeta_def generateSplitSpecialMeta_def generateLimbGPUid_def
      positions_def list_at_def numeral_2_eq_2 Let_def)

text \<open>C27: In a layout the constructor finishes, the position table sends every limb of \<open>Q\<close> to a
  device and a slot that hold exactly that limb, with the digit and type the gathered table has,
  and its digit is one of the \<open>dnum\<close> digits.\<close>

theorem layout_lookup:
  assumes "build_layout param devs = Inr lay" and "i \<le> lay_L lay"
  shows "\<exists>d j. lay_limbGPUid lay ! i = (d, j) \<and> d < devs \<and> j < length (lay_meta lay ! d)
    \<and> lay_meta lay ! d ! j = lay_gatherMeta lay ! i \<and> lr_id (lay_gatherMeta lay ! i) = i
    \<and> 0 \<le> lr_digit (lay_gatherMeta lay ! i) \<and> lr_digit (lay_gatherMeta lay ! i) < lay_dnum lay"
proof -
  obtain m: "generateMeta devs (lay_dnum lay) (lay_prime lay) (par_partition param) = Inr (lay_meta lay)"
    and devs: "0 < devs"
    and g: "generateLimbGPUid (lay_meta lay) (lay_L lay) (lay_splitSpecialMeta lay) (nat (lay_K lay)) = Inr (lay_limbGPUid lay)"
    and gather: "lay_gatherMeta lay = generateGatherMeta (lay_meta lay) (lay_L lay)"
    by (rule build_layoutD [OF assms(1)])
  note len = layout_prime(1) [OF assms(1)]
  have i: "i < length (lay_prime lay)" using assms(2) len by simp
  have "lay_gatherMeta lay ! i = limb_rec (par_partition param) (lay_dnum lay) (lay_prime lay) i"
    unfolding gather by (rule gather_nth [OF m devs assms(2) i])
  then show ?thesis
    using limb_position [OF m devs g len split_ids(1) [OF assms(1)] assms(2)]
      generateMeta_digits(1) [OF m devs i]
    by (cases "lay_limbGPUid lay ! i") simp
qed

theorem layout_lookup_witness:
  "\<exists>lay d j. build_layout example_param 2 = Inr lay \<and> lay_limbGPUid lay ! 1 = (d, j)
     \<and> lr_id (lay_meta lay ! d ! j) = 1"
  using example_layout layout_lookup [of example_param 2 _ 1] by fastforce

text \<open>The digits of a finished layout are a contiguous ascending partition of the flat limb
  order: between two limbs of one digit every limb has that digit.\<close>

theorem digits_contiguous:
  assumes "build_layout param devs = Inr lay" and "i \<le> j" and "j \<le> k" and "k \<le> lay_L lay"
    and "lr_digit (lay_gatherMeta lay ! i) = d" and "lr_digit (lay_gatherMeta lay ! k) = d"
  shows "lr_digit (lay_gatherMeta lay ! j) = d"
proof -
  obtain m: "generateMeta devs (lay_dnum lay) (lay_prime lay) (par_partition param) = Inr (lay_meta lay)"
    and devs: "0 < devs" and gather: "lay_gatherMeta lay = generateGatherMeta (lay_meta lay) (lay_L lay)"
    by (rule build_layoutD [OF assms(1)])
  note len = layout_prime(1) [OF assms(1)]
  have "lr_digit (lay_gatherMeta lay ! n)
      = digit_of (par_partition param) (lay_dnum lay) (length (lay_prime lay)) n (lay_prime lay ! n)"
    if "n \<le> lay_L lay" for n
    using gather_nth [OF m devs that] that len by (simp add: gather)
  then show ?thesis
    using generateMeta_digits(2) [OF m devs, of i j] generateMeta_digits(2) [OF m devs, of j k]
      assms(2-6) len by fastforce
qed

theorem digits_contiguous_witness:
  "\<exists>lay. build_layout example_param 2 = Inr lay \<and>
     lr_digit (lay_gatherMeta lay ! 1) = lr_digit (lay_gatherMeta lay ! 1)"
  using example_layout digits_contiguous [of example_param 2 _ 1 1 1] by fastforce

text \<open>C28: Without a partition from OpenFHE, any number of digits from 1 on and any number of
  devices from 1 on gets a layout of the limbs: the balanced default digits never trip the guard.\<close>

theorem default_digits_accepted:
  assumes "1 \<le> dnum" and "0 < devs"
  shows "\<exists>m. generateMeta devs dnum prime None = Inr m \<and> length m = devs
    \<and> set (concat m) = limb_rec None dnum prime ` {0..<length prime}"
proof -
  obtain m where m: "generateMeta devs dnum prime None = Inr m"
    using generateMeta_default_total [OF assms] by blast
  then show ?thesis using generateMeta_shape [OF m assms(2)] set_concat_meta [OF m assms(2)] by simp
qed

theorem default_digits_accepted_witness:
  "\<exists>m. generateMeta 2 3 (par_primes example_param) None = Inr m \<and> length m = 2"
  using default_digits_accepted [of 3 2 "par_primes example_param"] by auto

text \<open>C29: The bit budgets of the digits of a finished layout add up to the bits of \<open>Q\<close>, and the
  special limbs handed to the devices are all the special limbs, each once, in order, in shares
  that differ by at most one.\<close>

theorem layout_budgets:
  assumes "build_layout param devs = Inr lay"
  shows "sum_list (lay_logQ_d lay) = lay_logQ lay
    \<and> concat (lay_splitSpecialMeta lay) = lay_specialMeta lay ! 0
    \<and> (\<forall>s \<in> set (lay_splitSpecialMeta lay). length (lay_specialMeta lay ! 0) div devs \<le> length s
         \<and> length s \<le> (length (lay_specialMeta lay ! 0) + devs - 1) div devs)"
proof -
  obtain s: "lay_splitSpecialMeta lay = generateSplitSpecialMeta (lay_specialMeta lay ! 0) devs"
    by (rule build_layoutD [OF assms])
  show ?thesis
    using layout_logQ_d [OF assms] split_ids(2) [OF assms] split_special_balanced
    unfolding s generateSplitSpecialMeta_def by blast
qed

theorem layout_budgets_witness:
  "\<exists>lay. build_layout example_param 2 = Inr lay \<and> sum_list (lay_logQ_d lay) = lay_logQ lay"
  using example_layout layout_budgets [of example_param 2] by blast

end
