(* ===== verification/BitReverse.thy ===== *)
theory BitReverse
  imports StdMap HostMath
begin

text \<open>
  Bit reversal: the host function \<open>bit_reverse\<close> and \<open>bit_reverse_vector\<close> of
  \<open>src/src/Math.cu\<close>, the kernel \<open>Bit_Reverse\<close> of \<open>src/src/NTThelper.cuh\<close>, and the
  arithmetic of reversed indices on which the transforms and the automorphisms rest. The CUDA
  intrinsic \<open>__brev\<close> reverses the 32 bits of a word.
\<close>

unbundle bit_operations_syntax

section \<open>The code\<close>

definition bit_reverse :: "int \<Rightarrow> nat \<Rightarrow> int" where
  "bit_reverse a w = fold (\<lambda>i res. res OR push_bit (w - i - 1) (drop_bit i a AND 1)) [0..<w] 0"

text \<open>The vector version: \<open>b[i] = a[bit_reverse(i, w)]\<close>.\<close>

definition bit_reverse_vector :: "'a list \<Rightarrow> cpp_error + 'a list" where
  "bit_reverse_vector a =
     (let w = nat (bit_width_nat (length a)) - 1
      in mapE (\<lambda>i. let r = nat (bit_reverse (int i) w)
               in if r < length a then Inr (a ! r) else Inl Undefined_behaviour) [0..<length a])"

abbreviation brev32 :: "32 word \<Rightarrow> 32 word" where
  "brev32 \<equiv> word_reverse"

section \<open>Reversal as arithmetic\<close>

fun brev :: "nat \<Rightarrow> nat \<Rightarrow> nat" where
  "brev 0 a = 0"
| "brev (Suc w) a = (a mod 2) * 2 ^ w + brev w (a div 2)"

lemma brev_less: "brev w a < 2 ^ w"
proof (induction w arbitrary: a)
  case (Suc w)
  have "(a mod 2) * 2 ^ w \<le> 1 * 2 ^ w" by (intro mult_right_mono) simp_all
  moreover have "brev w (a div 2) < 2 ^ w" by (rule Suc)
  ultimately show ?case by (simp only: brev.simps power_Suc)
qed simp

lemma brev_double: "brev (Suc w) (2 * k) = brev w k"
  by simp

lemma brev_double_plus: "brev (Suc w) (Suc (2 * k)) = 2 ^ w + brev w k"
  by simp

lemma brev_Suc_small: "k < 2 ^ w \<Longrightarrow> brev (Suc w) k = 2 * brev w k"
proof (induction w arbitrary: k)
  case (Suc w)
  then have "brev (Suc w) (k div 2) = 2 * brev w (k div 2)" by simp
  then show ?case by (simp add: algebra_simps)
qed simp

lemma brev_widen: "k < 2 ^ b \<Longrightarrow> b \<le> w \<Longrightarrow> brev w k = 2 ^ (w - b) * brev b k"
proof (induction w)
  case (Suc w)
  show ?case
  proof (cases "b = Suc w")
    case False
    then have b: "b \<le> w" using Suc.prems by simp
    then have "(2::nat) ^ b \<le> 2 ^ w" by simp
    then have "k < 2 ^ w" using Suc.prems(1) by linarith
    then show ?thesis using Suc.IH [OF Suc.prems(1) b] b by (simp only: brev_Suc_small Suc_diff_le power_Suc mult.assoc)
  qed simp
qed simp

lemma brev_high: "x < 2 ^ w \<Longrightarrow> c < 2 \<Longrightarrow> brev (Suc w) (c * 2 ^ w + x) = 2 * brev w x + c"
proof (induction w arbitrary: x)
  case (Suc w)
  have m: "(c * 2 ^ Suc w + x) mod 2 = x mod 2" "(c * 2 ^ Suc w + x) div 2 = c * 2 ^ w + x div 2"
    using mod_mult_self3 [of "c * 2 ^ w" 2 x] div_mult_self3 [of 2 "c * 2 ^ w" x] by (simp_all add: ac_simps)
  have "brev (Suc (Suc w)) (c * 2 ^ Suc w + x) = (x mod 2) * 2 ^ Suc w + brev (Suc w) (c * 2 ^ w + x div 2)"
    by (simp only: brev.simps(2) [of "Suc w"] m)
  also have "\<dots> = (x mod 2) * 2 ^ Suc w + (2 * brev w (x div 2) + c)"
    using Suc by (subst Suc.IH) simp_all
  finally show ?case by simp
qed auto

lemma brev_brev: "x < 2 ^ w \<Longrightarrow> brev w (brev w x) = x"
proof (induction w arbitrary: x)
  case (Suc w)
  have "brev (Suc w) (brev (Suc w) x) = 2 * brev w (brev w (x div 2)) + x mod 2"
    by (simp only: brev.simps(2) [of w x]) (rule brev_high, auto simp: brev_less)
  then show ?case using Suc by simp
qed simp

lemma brev_inj: "inj_on (brev w) {..<2 ^ w}"
  by (rule inj_on_inverseI [where g = "brev w"]) (simp add: brev_brev)

lemma brev_bij: "bij_betw (brev w) {..<2 ^ w} {..<2 ^ w}"
  by (intro bij_betw_byWitness [where f' = "brev w"]) (auto simp: brev_less brev_brev)

lemma bit_brev: "bit (brev w a) i \<longleftrightarrow> i < w \<and> bit a (w - Suc i)"
proof (induction w arbitrary: a i)
  case (Suc w)
  have disj: "(a mod 2) * 2 ^ w + brev w (a div 2) = push_bit w (a mod 2) OR brev w (a div 2)"
  proof -
    have "\<not> bit (brev w (a div 2)) j" if "w \<le> j" for j using Suc [of "a div 2" j] that by simp
    then have "push_bit w (a mod 2) AND brev w (a div 2) = 0"
      by (intro bit_eqI) (auto simp: bit_simps)
    then show ?thesis by (simp add: disjunctive_add_eq_or push_bit_eq_mult)
  qed
  have "bit (brev (Suc w) a) i \<longleftrightarrow> (w \<le> i \<and> bit (a mod 2) (i - w)) \<or> bit (brev w (a div 2)) i"
    by (simp only: brev.simps disj) (simp add: bit_simps)
  also have "bit (a mod 2) (i - w) \<longleftrightarrow> i - w = 0 \<and> odd a" by (cases "i - w") (simp_all add: mod_2_eq_odd bit_0 bit_Suc)
  also have "bit (brev w (a div 2)) i \<longleftrightarrow> i < w \<and> bit a (Suc (w - Suc i))" using Suc by (simp add: bit_Suc)
  finally show ?case by (auto simp: bit_0 Suc_diff_Suc less_Suc_eq)
qed simp

lemma bit_reverse_brev: "bit_reverse (int a) w = int (brev w a)"
proof -
  have *: "bit (fold (\<lambda>i res. res OR push_bit (w - i - 1) (drop_bit i (int a) AND 1)) is r) j
      \<longleftrightarrow> bit r j \<or> (\<exists>i \<in> set is. j = w - i - 1 \<and> bit a i)" for "is" r j
    by (induction "is" arbitrary: r) (auto simp: bit_simps bit_of_nat_iff_bit)
  show ?thesis
  proof (rule bit_eqI)
    fix j
    have "bit (bit_reverse (int a) w) j \<longleftrightarrow> (\<exists>i < w. j = w - i - 1 \<and> bit a i)"
      unfolding bit_reverse_def * by auto
    also have "\<dots> \<longleftrightarrow> j < w \<and> bit a (w - Suc j)" by (auto intro!: exI [of _ "w - Suc j"])
    finally show "bit (bit_reverse (int a) w) j \<longleftrightarrow> bit (int (brev w a)) j"
      by (simp add: bit_of_nat_iff_bit bit_brev)
  qed
qed

lemma brev32_brev: "x < 2 ^ b \<Longrightarrow> b \<le> 32 \<Longrightarrow> unat (drop_bit (32 - b) (brev32 (of_nat x))) = brev b x"
proof (rule bit_eqI)
  fix j
  assume x: "x < 2 ^ b" "b \<le> 32"
  have nb: "\<not> bit x i" if "b \<le> i" for i
  proof -
    have "(2::nat) ^ b \<le> 2 ^ i" using that by simp
    then have "x < 2 ^ i" using x(1) by linarith
    then show ?thesis by (simp add: bit_iff_odd)
  qed
  show "bit (unat (drop_bit (32 - b) (brev32 (of_nat x)))) j \<longleftrightarrow> bit (brev b x) j"
  proof (cases "j < b")
    case True
    have e: "31 - (32 - b + j) = b - Suc j" using True x(2) by arith
    have "32 + j - b < 32" "b - Suc j < 32" using True x(2) by arith+
    then show ?thesis using True x(2) e
      by (simp add: bit_brev bit_unsigned_iff bit_drop_bit_eq bit_word_reverse_iff bit_simps)
  next
    case False
    then have "\<not> 32 + j - b < 32" using x(2) by arith
    then show ?thesis using False x(2)
      by (simp add: bit_brev bit_simps bit_unsigned_iff bit_drop_bit_eq bit_word_reverse_iff)
  qed
qed

section \<open>Reversing a vector\<close>

lemma bit_width_power: "bit_width_nat (2 ^ w) = int w + 1"
proof (induction w)
  case 0
  show ?case by (simp add: bit_width_nat.simps)
next
  case (Suc w)
  then show ?case by (subst bit_width_nat.simps) simp
qed

lemma mapE_Inr: "(\<And>x. x \<in> set xs \<Longrightarrow> f x = Inr (g x)) \<Longrightarrow> mapE f xs = Inr (map g xs)"
  by (induction xs) simp_all

lemma bit_reverse_vector_power:
  assumes "length a = 2 ^ w"
  shows "bit_reverse_vector a = Inr (map (\<lambda>i. a ! brev w i) [0..<2 ^ w])"
  unfolding bit_reverse_vector_def Let_def assms bit_width_power
  by (rule mapE_Inr) (simp add: bit_reverse_brev brev_less nat_add_distrib)

text \<open>\<open>bit_reverse_vector\<close> of a vector whose length is a power of two never reads out of
  range, and applying it twice gives the vector back.\<close>

theorem bit_reverse_vector_involution:
  assumes "length a = 2 ^ w"
  shows "bindE (bit_reverse_vector a) bit_reverse_vector = Inr a"
proof -
  let ?b = "map (\<lambda>i. a ! brev w i) [0..<2 ^ w]"
  have "bit_reverse_vector ?b = Inr (map (\<lambda>i. ?b ! brev w i) [0..<2 ^ w])"
    by (rule bit_reverse_vector_power) simp
  also have "map (\<lambda>i. ?b ! brev w i) [0..<2 ^ w] = a"
    by (rule nth_equalityI) (simp_all add: assms brev_less brev_brev)
  finally show ?thesis using bit_reverse_vector_power [OF assms] by simp
qed

theorem bit_reverse_vector_involution_witness:
  "bindE (bit_reverse_vector [5, 6, 7, 8, 9, 10, 11, 12 :: nat]) bit_reverse_vector = Inr [5, 6, 7, 8, 9, 10, 11, 12]"
  by (rule bit_reverse_vector_involution [of _ 3]) simp

end
