(* ===== verification/DeviceMod.thy ===== *)
theory DeviceMod
  imports FLPrelude
begin

text \<open>
  The modular arithmetic of the GPU kernels: \<open>src/src/ModMult.cuh\<close> (Shoup and improved
  Barrett multiplication and reduction, in 64 and 32 bits), \<open>src/src/AddSub.cuh\<close> (modular
  addition and subtraction) and the two host functions of \<open>src/src/ConstantsGPU.cu\<close> that
  precompute their companions (\<open>mu_new\<close>, \<open>shoup_precomp\<close>). The CUDA intrinsics
  \<open>__umul64hi\<close> and \<open>__umulhi\<close> are the high halves of the double-width products.
\<close>

section \<open>Intrinsics and precomputed companions\<close>

definition umul64hi :: "u64 \<Rightarrow> u64 \<Rightarrow> u64" where
  "umul64hi a b = ucast (drop_bit 64 ((ucast a :: u128) * ucast b))"

definition umulhi :: "u32 \<Rightarrow> u32 \<Rightarrow> u32" where
  "umulhi a b = ucast (drop_bit 32 ((ucast a :: u64) * ucast b))"

text \<open>\<open>VERSION\<close> is the constant \<open>NEIL\<close>: the numerator of \<open>mu_new\<close> is \<open>2^(2 * num_bits + 1)\<close>.\<close>

definition mu_new :: "u64 \<Rightarrow> nat \<Rightarrow> u64" where
  "mu_new q num_bits = ucast (push_bit (2 * num_bits + 1) (1::u128) div ucast q)"

definition shoup_precomp :: "u64 \<Rightarrow> u64 \<Rightarrow> u64" where
  "shoup_precomp val prime =
     ucast ((ucast (push_bit 1 val) :: u128) * push_bit 63 1 div ucast prime)"

section \<open>The kernels' modular operations\<close>

definition Neal_reduce_64 :: "u128 \<Rightarrow> u64 \<Rightarrow> u64 \<Rightarrow> nat \<Rightarrow> u64" where
  "Neal_reduce_64 c mu prime qbit =
     (let rx = (ucast (drop_bit (qbit - 2) c) :: u64);
          rb = drop_bit 1 (umul64hi (push_bit (62 - qbit) rx) mu);
          rb = rb * prime;
          c_lo = (ucast c :: u64) - rb
      in if c_lo \<ge> prime then c_lo - prime else c_lo)"

definition Neal_mult_64 :: "u64 \<Rightarrow> u64 \<Rightarrow> u64 \<Rightarrow> u64 \<Rightarrow> nat \<Rightarrow> u64" where
  "Neal_mult_64 op1 op2 mu prime qbit =
     (let c = (ucast op1 :: u128) * ucast op2;
          rx = (ucast (drop_bit (qbit - 2) c) :: u64);
          rb = drop_bit 1 (umul64hi (push_bit (62 - qbit) rx) mu);
          rb = rb * prime;
          c_lo = (ucast c :: u64) - rb
      in if c_lo \<ge> prime then c_lo - prime else c_lo)"

definition Neal_reduce_32 :: "u64 \<Rightarrow> u32 \<Rightarrow> u32 \<Rightarrow> nat \<Rightarrow> u32" where
  "Neal_reduce_32 c mu prime qbit =
     (let rx = (ucast (drop_bit (qbit - 2) c) :: u32);
          rb = drop_bit 1 (umulhi (push_bit (30 - qbit) rx) mu);
          rb = rb * prime;
          c_lo = (ucast c :: u32) - rb
      in if c_lo \<ge> prime then c_lo - prime else c_lo)"

definition Neal_mult_32 :: "u32 \<Rightarrow> u32 \<Rightarrow> u32 \<Rightarrow> u32 \<Rightarrow> nat \<Rightarrow> u32" where
  "Neal_mult_32 op1 op2 mu prime qbit =
     (let c = (ucast op1 :: u64) * ucast op2;
          rx = (ucast (drop_bit (qbit - 2) c) :: u32);
          rb = drop_bit 1 (umulhi (push_bit (30 - qbit) rx) mu);
          rb = rb * prime;
          c_lo = (ucast c :: u32) - rb
      in if c_lo \<ge> prime then c_lo - prime else c_lo)"

definition Shoup_mult_64 :: "u64 \<Rightarrow> u64 \<Rightarrow> u64 \<Rightarrow> u64 \<Rightarrow> u64" where
  "Shoup_mult_64 op1 op2 psi prime =
     (let c = umul64hi op1 psi;
          c_lo = op1 * op2 - c * prime
      in if c_lo \<ge> prime then c_lo - prime else c_lo)"

definition Shoup_mult_32 :: "u32 \<Rightarrow> u32 \<Rightarrow> u32 \<Rightarrow> u32 \<Rightarrow> u32" where
  "Shoup_mult_32 op1 op2 psi prime =
     (let c = umulhi op1 psi;
          c_lo = op1 * op2 - c * prime
      in if c_lo \<ge> prime then c_lo - prime else c_lo)"

definition Shoup_reduce_128 :: "u128 \<Rightarrow> u64 \<Rightarrow> u64 \<Rightarrow> u64 \<Rightarrow> u64" where
  "Shoup_reduce_128 x p one_shoup r64_shoup =
     (let inv64 = one_shoup;
          r64 = 0 - p * inv64;
          hi = (ucast (drop_bit 64 x) :: u64);
          lo = (ucast x :: u64);
          q1 = umul64hi hi r64_shoup;
          t = hi * r64 - q1 * p;
          t = (if t \<ge> p then t - p else t);
          q2 = umul64hi lo inv64;
          u = lo - q2 * p;
          u = (if u \<ge> p then u - p else u);
          r = t + u
      in if r \<ge> p then r - p else r)"

definition modadd :: "'a::len word \<Rightarrow> 'a word \<Rightarrow> 'a word \<Rightarrow> 'a word" where
  "modadd a b prime_p =
     (let tmp0 = a + b in if tmp0 \<ge> prime_p then tmp0 - prime_p else tmp0)"

definition modsub :: "'a::len word \<Rightarrow> 'a word \<Rightarrow> 'a word \<Rightarrow> 'a word" where
  "modsub a b prime_p =
     (let tmp0 = a - b in if tmp0 \<ge> prime_p then tmp0 + prime_p else tmp0)"

section \<open>The quotient estimates, on natural numbers\<close>

lemma shoup_estimate:
  assumes "w < p" and "a < B" and "psi = w * B div p"
  shows "a * psi div B * p \<le> a * w" and "a * w - a * psi div B * p < 2 * (p::nat)"
proof -
  let ?c = "a * psi div B"
  have B: "0 < B" and p: "0 < p" using assms(1,2) by auto
  have psi1: "psi * p \<le> w * B" unfolding assms(3) by (rule div_times_less_eq_dividend)
  have psi2: "w * B < (psi + 1) * p"
    using p unfolding assms(3) by (simp add: dividend_less_times_div mult.commute)
  have c1: "?c * B \<le> a * psi" by (rule div_times_less_eq_dividend)
  have c2: "a * psi < (?c + 1) * B"
    using B by (simp add: dividend_less_times_div mult.commute)
  have "?c * B * p \<le> a * (psi * p)" using mult_right_mono [OF c1, of p] by (simp add: mult.assoc)
  also have "\<dots> \<le> a * (w * B)" using psi1 by simp
  finally have "(?c * p) * B \<le> (a * w) * B" by (simp add: mult_ac)
  then show "?c * p \<le> a * w" using B by simp
  have "a * w * B \<le> a * ((psi + 1) * p)" using psi2 by (simp add: mult.assoc)
  also have "\<dots> = a * psi * p + a * p" by (simp add: algebra_simps)
  also have "\<dots> < (?c + 1) * B * p + B * p"
    using c2 assms(2) p by (intro add_strict_mono mult_strict_right_mono)
  also have "\<dots> = (?c * p + 2 * p) * B" by (simp add: algebra_simps)
  finally have "a * w < ?c * p + 2 * p" using B by simp
  then show "a * w - ?c * p < 2 * p" using p by arith
qed

lemma barrett_estimate:
  assumes "2 * Q \<le> p" and "c < 16 * Q * Q" and "0 < Q"
    and "mu = 32 * Q * Q div p" and "rx = c div Q"
  shows "rx * mu div (32 * Q) * p \<le> c" and "c - rx * mu div (32 * Q) * p < 2 * (p::nat)"
proof -
  let ?k = "rx * mu div (32 * Q)"
  have p: "0 < p" using assms(1,3) by simp
  have mu1: "mu * p \<le> 32 * Q * Q" unfolding assms(4) by (rule div_times_less_eq_dividend)
  have mu2: "32 * Q * Q \<le> (mu + 1) * p"
    using p unfolding assms(4) by (simp add: dividend_less_times_div mult.commute less_imp_le)
  have rx1: "rx * Q \<le> c" unfolding assms(5) by (rule div_times_less_eq_dividend)
  have rx2: "c < rx * Q + Q"
    using assms(3) dividend_less_times_div [of Q c] unfolding assms(5) by (simp add: mult.commute)
  have rx3: "rx < 16 * Q" using assms(2,3) unfolding assms(5) by (simp add: less_mult_imp_div_less)
  have k1: "?k * (32 * Q) \<le> rx * mu" by (rule div_times_less_eq_dividend)
  have k2: "rx * mu < (?k + 1) * (32 * Q)"
    using assms(3) dividend_less_times_div [of "32 * Q" "rx * mu"] by (simp add: mult.commute)
  have "?k * (32 * Q) * (p * Q) \<le> rx * mu * (p * Q)" using k1 by (rule mult_right_mono) simp
  also have "\<dots> = rx * Q * (mu * p)" by (simp add: mult_ac)
  also have "\<dots> \<le> c * (32 * Q * Q)" using rx1 mu1 by (rule mult_le_mono)
  finally have "(?k * p) * (32 * Q * Q) \<le> c * (32 * Q * Q)" by (simp add: mult_ac)
  then show "?k * p \<le> c" using assms(3) by simp
  have "rx * (32 * Q * Q) \<le> rx * ((mu + 1) * p)" using mu2 by (rule mult_le_mono2)
  also have "\<dots> = rx * mu * p + rx * p" by (simp add: algebra_simps)
  also have "\<dots> < (?k + 1) * (32 * Q) * p + 16 * Q * p"
    using k2 rx3 p by (intro add_strict_mono mult_strict_right_mono)
  also have "\<dots> = (16 * Q) * ((2 * ?k + 3) * p)" by (simp add: algebra_simps)
  finally have "(16 * Q) * (2 * (rx * Q)) < (16 * Q) * ((2 * ?k + 3) * p)" by (simp add: mult_ac)
  then have "2 * (rx * Q) < (2 * ?k + 3) * p" by (simp only: mult_less_cancel1)
  then have "2 * c < (2 * ?k + 3) * p + 2 * Q" using rx2 by simp
  also have "\<dots> \<le> (2 * ?k + 3) * p + p" using assms(1) by simp
  also have "\<dots> = 2 * (?k * p + 2 * p)" by (simp add: algebra_simps)
  finally have "c < ?k * p + 2 * p" by simp
  then show "c - ?k * p < 2 * p" using p by arith
qed

section \<open>The interface of a high-half multiplication\<close>

text \<open>
  Both widths rest on one contract: a multiplication that returns the high half of the product,
  and a modulus with a spare bit. The lemmas below are proved once, for any width.
\<close>

locale mul_hi =
  fixes mulhi :: "'a::len word \<Rightarrow> 'a word \<Rightarrow> 'a word"
  assumes unat_mulhi: "unat (mulhi a b) = unat a * unat b div 2 ^ LENGTH('a)"
begin

lemma shoup_rem:
  assumes "unat w < unat p" and "2 * unat p \<le> 2 ^ LENGTH('a)"
    and "unat psi = unat w * 2 ^ LENGTH('a) div unat p"
  shows "unat (a * w - mulhi a psi * p) < 2 * unat p"
    and "unat (a * w - mulhi a psi * p) mod unat p = unat a * unat w mod unat p"
proof -
  let ?c = "unat a * unat psi div 2 ^ LENGTH('a)"
  note est = shoup_estimate [OF assms(1) unsigned_less [of a] assms(3)]
  have "a * w - mulhi a psi * p = of_nat (unat a * unat w) - of_nat (?c * unat p)"
    by (simp add: unat_mulhi [symmetric])
  moreover have "unat a * unat w - ?c * unat p < 2 ^ LENGTH('a)"
    using est(2) assms(2) by (rule less_le_trans)
  ultimately have eq: "unat (a * w - mulhi a psi * p) = unat a * unat w - ?c * unat p"
    using est(1) by (simp only: unat_diff_of_nat)
  show "unat (a * w - mulhi a psi * p) < 2 * unat p" unfolding eq by (rule est(2))
  show "unat (a * w - mulhi a psi * p) mod unat p = unat a * unat w mod unat p"
    unfolding eq using est(1) by (rule diff_mult_mod)
qed

lemma shoup_mult:
  assumes "unat w < unat p" and "2 * unat p \<le> 2 ^ LENGTH('a)"
    and "unat psi = unat w * 2 ^ LENGTH('a) div unat p"
  shows "unat (let c = mulhi a psi; c_lo = a * w - c * p in if c_lo \<ge> p then c_lo - p else c_lo)
    = unat a * unat w mod unat p"
  unfolding Let_def by (rule cond_sub_word [OF shoup_rem [OF assms]])

text \<open>
  The Barrett step: \<open>rx\<close> holds the leading bits of the dividend \<open>c\<close> and \<open>lo\<close> its low word.
\<close>

lemma barrett_rem:
  assumes q: "2 \<le> q" "q + 2 \<le> LENGTH('a)" and p: "2 ^ (q - 1) < unat p" "unat p < 2 ^ q"
    and c: "c < 2 ^ (2 * q)" and mu: "unat mu = 2 ^ (2 * q + 1) div unat p"
    and rx: "unat rx = c div 2 ^ (q - 2)" and lo: "lo = of_nat c"
  defines "k \<equiv> drop_bit 1 (mulhi (push_bit (LENGTH('a) - 2 - q) rx) mu)"
  shows "unat (if lo - k * p \<ge> p then lo - k * p - p else lo - k * p) = c mod unat p"
proof -
  let ?Q = "2 ^ (q - 2) :: nat" and ?n = "LENGTH('a)" and ?s = "LENGTH('a) - 2 - q"
  obtain d where d: "q = d + 2" using q(1) by (metis add.commute le_Suc_ex)
  have Q: "?Q = 2 ^ d" "2 * ?Q = 2 ^ (q - 1)" "16 * ?Q * ?Q = 2 ^ (2 * q)"
      "32 * ?Q * ?Q = 2 ^ (2 * q + 1)" "32 * ?Q = 2 ^ (q + 3)"
    unfolding d by (simp_all add: power_add power_mult power2_eq_square mult_2 mult_ac)
  have "c div ?Q < 16 * ?Q" using c unfolding Q(3) [symmetric] by (simp add: less_mult_imp_div_less)
  then have "unat rx * 2 ^ ?s < 2 ^ (q + 2) * 2 ^ ?s" using Q d unfolding rx by (simp add: power_add)
  also have n: "2 ^ (q + 2) * 2 ^ ?s = (2::nat) ^ ?n"
    using q(2) by (intro pow2_split [symmetric]) simp
  finally have sh: "unat (push_bit ?s rx) = unat rx * 2 ^ ?s" by (simp add: unat_push_bit_mult)
  have "unat (mulhi (push_bit ?s rx) mu) = (unat rx * unat mu) * 2 ^ ?s div (2 ^ (q + 2) * 2 ^ ?s)"
    by (simp only: unat_mulhi sh n) (simp only: mult_ac)
  also have "\<dots> = unat rx * unat mu div 2 ^ (q + 2)" by simp
  finally have k: "unat k = unat rx * unat mu div (32 * ?Q)"
    unfolding k_def Q(5) by (simp add: unat_drop_bit_div power_add mult.commute flip: div_mult2_eq)
  have est: "unat k * unat p \<le> c" "c - unat k * unat p < 2 * unat p"
  proof -
    have prem: "2 * ?Q \<le> unat p" "c < 16 * ?Q * ?Q" "0 < ?Q" "unat mu = 32 * ?Q * ?Q div unat p"
      unfolding Q(2-4) using p(1) c mu by simp_all
    show "unat k * unat p \<le> c" "c - unat k * unat p < 2 * unat p"
      unfolding k by (fact barrett_estimate [OF prem rx])+
  qed
  have "2 * unat p < 2 ^ (q + 1)" using p(2) by simp
  also have "\<dots> \<le> 2 ^ ?n" using q(2) by (intro power_increasing) simp_all
  finally have "c - unat k * unat p < 2 ^ ?n" using est(2) by simp
  then have eq: "unat (lo - k * p) = c - unat k * unat p"
    unfolding lo word_mult_of_nat [of k p] using est(1) by (rule unat_diff_of_nat [rotated])
  have "unat (lo - k * p) mod unat p = c mod unat p"
    unfolding eq using est(1) by (rule diff_mult_mod)
  with est(2) show ?thesis by (intro cond_sub_word) (simp_all add: eq)
qed

end

lemma unat_umul64hi: "unat (umul64hi a b) = unat a * unat b div 2 ^ LENGTH(64)"
proof -
  have "unat a * unat b div 2 ^ 64 < 2 ^ 64" by (rule less_mult_imp_div_less) simp
  then show ?thesis
    by (simp add: umul64hi_def unat_ucast_u128_u64 unat_drop_bit_div unat_mult_u128)
qed

lemma unat_umulhi: "unat (umulhi a b) = unat a * unat b div 2 ^ LENGTH(32)"
proof -
  have "unat a * unat b div 2 ^ 32 < 2 ^ 32" by (rule less_mult_imp_div_less) simp
  then show ?thesis
    by (simp add: umulhi_def unat_ucast_u64_u32 unat_drop_bit_div unat_mult_u64)
qed

interpretation hi64: mul_hi umul64hi
  by unfold_locales (rule unat_umul64hi)

interpretation hi32: mul_hi umulhi
  by unfold_locales (rule unat_umulhi)

section \<open>Correctness of the kernels' operations\<close>

text \<open>
  \<open>prime_bits p q\<close>: \<open>q\<close> is the bit length of \<open>p\<close>, the value \<open>PrimeRecord::bits\<close> holds, and
  \<open>p\<close> is not a power of two.
\<close>

definition prime_bits :: "nat \<Rightarrow> nat \<Rightarrow> bool" where
  "prime_bits p q \<longleftrightarrow> 2 \<le> q \<and> 2 ^ (q - 1) < p \<and> p < 2 ^ q"

lemma unat_mu_new:
  assumes "prime_bits (unat p) q" and "q \<le> 62"
  shows "unat (mu_new p q) = 2 ^ (2 * q + 1) div unat p"
proof -
  have p: "2 ^ (q - 1) < unat p" and q: "2 \<le> q" using assms(1) by (auto simp: prime_bits_def)
  have "(2::nat) ^ (2 * q + 1) < 2 ^ 128" using assms(2) by (intro power_strict_increasing) simp_all
  then have num: "unat (push_bit (2 * q + 1) (1::u128)) = 2 ^ (2 * q + 1)"
    by (simp only: unat_push_bit_mult) simp
  have "(2::nat) ^ (2 * q + 1) = 2 ^ (q - 1) * 2 ^ (q + 2)"
    using q by (intro pow2_split) simp
  also have "\<dots> < unat p * 2 ^ (q + 2)" using p by simp
  finally have "(2::nat) ^ (2 * q + 1) div unat p < 2 ^ (q + 2)"
    by (intro less_mult_imp_div_less) (simp add: mult.commute)
  also have "\<dots> \<le> 2 ^ 64" using assms(2) by (intro power_increasing) simp_all
  finally show ?thesis
    by (simp only: mu_new_def unat_ucast_u128_u64 unat_div_distrib num unat_ucast_u64_u128) simp
qed

lemma unat_shoup_precomp:
  assumes "unat w < unat p" and "unat p \<le> 2 ^ 63"
  shows "unat (shoup_precomp w p) = unat w * 2 ^ LENGTH(64) div unat p"
proof -
  have w: "unat w < 2 ^ 63" using assms by linarith
  then have sh: "unat (push_bit 1 w) = 2 * unat w" by (simp only: unat_push_bit_mult) simp
  have "2 * unat w * 2 ^ 63 < 2 ^ 128" using w by simp
  then have num: "unat ((ucast (push_bit 1 w) :: u128) * push_bit 63 1) = unat w * 2 ^ 64"
    by (simp only: unat_word_ariths unat_ucast_u64_u128 sh) (simp add: unat_push_bit_mult)
  have "unat w * 2 ^ 64 div unat p < 2 ^ 64"
    using assms(1) by (intro less_mult_imp_div_less) simp
  then show ?thesis
    by (simp only: shoup_precomp_def unat_ucast_u128_u64 unat_div_distrib num unat_ucast_u64_u128) simp
qed

lemma Shoup_mult_64_ok:
  assumes "unat w < unat p" and "unat p < 2 ^ 63"
  shows "unat (Shoup_mult_64 a w (shoup_precomp w p) p) = unat a * unat w mod unat p"
  unfolding Shoup_mult_64_def
  using assms by (intro hi64.shoup_mult) (simp_all add: unat_shoup_precomp)

lemma Shoup_mult_32_ok:
  assumes "unat w < unat p" and "unat p < 2 ^ 31" and "unat psi = unat w * 2 ^ 32 div unat p"
  shows "unat (Shoup_mult_32 a w psi p) = unat a * unat w mod unat p"
  unfolding Shoup_mult_32_def
  using assms by (intro hi32.shoup_mult) simp_all

lemma Neal_mult_64_reduce:
  "Neal_mult_64 a b mu p q = Neal_reduce_64 ((ucast a :: u128) * ucast b) mu p q"
  by (simp add: Neal_mult_64_def Neal_reduce_64_def Let_def)

lemma Neal_mult_32_reduce:
  "Neal_mult_32 a b mu p q = Neal_reduce_32 ((ucast a :: u64) * ucast b) mu p q"
  by (simp add: Neal_mult_32_def Neal_reduce_32_def Let_def)

lemma Neal_reduce_64_ok:
  assumes p: "prime_bits (unat p) q" and q: "q \<le> 62" and c: "unat c < 2 ^ (2 * q)"
  shows "unat (Neal_reduce_64 c (mu_new p q) p q) = unat c mod unat p"
proof -
  let ?rx = "ucast (drop_bit (q - 2) c) :: u64"
  have "2 \<le> q" using p by (simp add: prime_bits_def)
  then have "(2::nat) ^ (2 * q) = 2 ^ (q + 2) * 2 ^ (q - 2)" by (intro pow2_split) simp
  then have "unat c div 2 ^ (q - 2) < 2 ^ (q + 2)"
    using c by (intro less_mult_imp_div_less) simp
  also have "\<dots> \<le> 2 ^ 64" using q by (intro power_increasing) simp_all
  finally have rx: "unat ?rx = unat c div 2 ^ (q - 2)"
    by (simp only: unat_ucast_u128_u64 unat_drop_bit_div mod_less)
  have lo: "ucast c = (of_nat (unat c) :: u64)" by (simp add: word_unat_eq_iff unat_ucast_mod unat_of_nat)
  have bits: "2 \<le> q" "q + 2 \<le> LENGTH(64)" "2 ^ (q - 1) < unat p" "unat p < 2 ^ q"
    using p q by (simp_all add: prime_bits_def)
  have len: "LENGTH(64) - 2 - q = 62 - q" by simp
  show ?thesis
    using hi64.barrett_rem [OF bits c unat_mu_new [OF p q] rx lo]
    by (simp only: Neal_reduce_64_def Let_def len)
qed

lemma Neal_mult_64_ok:
  assumes "prime_bits (unat p) q" and "q \<le> 62" and "unat a < unat p" and "unat b < unat p"
  shows "unat (Neal_mult_64 a b (mu_new p q) p q) = unat a * unat b mod unat p"
proof -
  have "unat a < 2 ^ q" "unat b < 2 ^ q" using assms by (auto simp: prime_bits_def)
  then have "unat a * unat b < 2 ^ (2 * q)"
    using mult_less_pow [of "unat a" q "unat b" q] by (simp add: mult_2)
  then show ?thesis
    using Neal_reduce_64_ok [OF assms(1,2), of "(ucast a :: u128) * ucast b"]
    by (simp add: Neal_mult_64_reduce unat_mult_u128)
qed

lemma Neal_reduce_32_ok:
  assumes p: "prime_bits (unat p) q" and q: "q \<le> 30" and c: "unat c < 2 ^ (2 * q)"
    and mu: "unat mu = 2 ^ (2 * q + 1) div unat p"
  shows "unat (Neal_reduce_32 c mu p q) = unat c mod unat p"
proof -
  let ?rx = "ucast (drop_bit (q - 2) c) :: u32"
  have "2 \<le> q" using p by (simp add: prime_bits_def)
  then have "(2::nat) ^ (2 * q) = 2 ^ (q + 2) * 2 ^ (q - 2)" by (intro pow2_split) simp
  then have "unat c div 2 ^ (q - 2) < 2 ^ (q + 2)"
    using c by (intro less_mult_imp_div_less) simp
  also have "\<dots> \<le> 2 ^ 32" using q by (intro power_increasing) simp_all
  finally have rx: "unat ?rx = unat c div 2 ^ (q - 2)"
    by (simp only: unat_ucast_u64_u32 unat_drop_bit_div mod_less)
  have lo: "ucast c = (of_nat (unat c) :: u32)" by (simp add: word_unat_eq_iff unat_ucast_mod unat_of_nat)
  have bits: "2 \<le> q" "q + 2 \<le> LENGTH(32)" "2 ^ (q - 1) < unat p" "unat p < 2 ^ q"
    using p q by (simp_all add: prime_bits_def)
  have len: "LENGTH(32) - 2 - q = 30 - q" by simp
  show ?thesis
    using hi32.barrett_rem [OF bits c mu rx lo]
    by (simp only: Neal_reduce_32_def Let_def len)
qed

lemma Neal_mult_32_ok:
  assumes "prime_bits (unat p) q" and "q \<le> 30" and "unat a < unat p" and "unat b < unat p"
    and "unat mu = 2 ^ (2 * q + 1) div unat p"
  shows "unat (Neal_mult_32 a b mu p q) = unat a * unat b mod unat p"
proof -
  have "unat a < 2 ^ q" "unat b < 2 ^ q" using assms by (auto simp: prime_bits_def)
  then have "unat a * unat b < 2 ^ (2 * q)"
    using mult_less_pow [of "unat a" q "unat b" q] by (simp add: mult_2)
  then show ?thesis
    using Neal_reduce_32_ok [OF assms(1,2) _ assms(5), of "(ucast a :: u64) * ucast b"]
    by (simp add: Neal_mult_32_reduce unat_mult_u64)
qed

lemma unat_modadd:
  assumes "unat (a::'a::len word) < unat p" and "unat b < unat p" and "2 * unat p \<le> 2 ^ LENGTH('a)"
  shows "unat (modadd a b p) = (unat a + unat b) mod unat p"
proof -
  have "unat (a + b) = unat a + unat b" using assms by (intro unat_add_small) simp
  then show ?thesis
    unfolding modadd_def Let_def using assms(1,2) by (intro cond_sub_word) simp_all
qed

lemma unat_modsub:
  assumes "unat (a::'a::len word) < unat p" and "unat b < unat p" and "2 * unat p \<le> 2 ^ LENGTH('a)"
  shows "unat (modsub a b p) = (unat a + unat p - unat b) mod unat p"
proof (cases "unat b \<le> unat a")
  case True
  then have "unat (a - b) = unat a - unat b" by (rule unat_sub [unfolded word_le_nat_alt])
  moreover from this assms(1) have "\<not> p \<le> a - b" by (simp add: word_le_nat_alt)
  then have "modsub a b p = a - b" by (simp add: modsub_def)
  moreover have "(unat a + unat p - unat b) mod unat p = unat a - unat b"
  proof -
    have "unat a + unat p - unat b = (unat a - unat b) + unat p" using True by simp
    moreover have "unat a - unat b < unat p" using assms(1) by simp
    ultimately show ?thesis by (simp only: mod_add_self2 mod_less)
  qed
  ultimately show ?thesis by (simp only:)
next
  case False
  then have d: "unat (a - b) = unat a + 2 ^ LENGTH('a) - unat b" by (simp add: unat_sub_if')
  have "unat (a - b + p) = (unat a + 2 ^ LENGTH('a) - unat b + unat p) mod 2 ^ LENGTH('a)"
    by (simp add: unat_word_ariths d)
  also have "unat a + 2 ^ LENGTH('a) - unat b + unat p = (unat a + unat p - unat b) + 2 ^ LENGTH('a)"
    using assms False by arith
  also have "((unat a + unat p - unat b) + 2 ^ LENGTH('a)) mod 2 ^ LENGTH('a) = unat a + unat p - unat b"
  proof -
    have "unat a + unat p - unat b < 2 ^ LENGTH('a)" using False assms by arith
    then show ?thesis by (simp only: mod_add_self2 mod_less)
  qed
  finally have "unat (a - b + p) = unat a + unat p - unat b" .
  moreover have "p \<le> a - b" using d assms False by (simp add: word_le_nat_alt)
  moreover have "unat a + unat p - unat b < unat p" using False assms(2) by arith
  ultimately show ?thesis by (simp add: modsub_def)
qed

lemma Shoup_reduce_128_ok:
  assumes p: "1 < unat p" "unat p < 2 ^ 63"
    and r64: "unat w = 2 ^ 64 mod unat p"
  shows "unat (Shoup_reduce_128 x p (shoup_precomp 1 p) (shoup_precomp w p)) = unat x mod unat p"
proof -
  let ?P = "unat p" and ?inv = "shoup_precomp 1 p" and ?hi = "ucast (drop_bit 64 x) :: u64"
    and ?lo = "ucast x :: u64"
  have p2: "2 * ?P \<le> 2 ^ LENGTH(64)" using p by simp
  have inv: "unat ?inv = unat (1::u64) * 2 ^ LENGTH(64) div ?P"
    using p by (intro unat_shoup_precomp) simp_all
  have w: "unat w < ?P" using p r64 by simp
  have psi: "unat (shoup_precomp w p) = unat w * 2 ^ LENGTH(64) div ?P"
    using p w by (intro unat_shoup_precomp) simp_all
  have "?P * unat ?inv + 2 ^ 64 mod ?P = 2 ^ 64" using inv by simp
  then have "of_nat (?P * unat ?inv + unat w) = (of_nat (2 ^ 64) :: u64)" using r64 by simp
  then have "p * ?inv + w = 0" by (simp add: word_unat_eq_iff unat_of_nat)
  then have r: "0 - p * ?inv = w" by (simp add: add_eq_0_iff)
  define t where "t = (let t0 = ?hi * w - umul64hi ?hi (shoup_precomp w p) * p in if t0 \<ge> p then t0 - p else t0)"
  define u where "u = (let u0 = ?lo * 1 - umul64hi ?lo ?inv * p in if u0 \<ge> p then u0 - p else u0)"
  have t: "unat t = unat ?hi * unat w mod ?P"
    using hi64.shoup_mult [OF w p2 psi, of ?hi] by (simp only: t_def Let_def)
  have u: "unat u = unat ?lo mod ?P"
    using hi64.shoup_mult [OF _ p2 inv, of ?lo] p by (simp only: u_def Let_def) simp
  have lt: "unat t < ?P" "unat u < ?P" using p by (simp_all add: t u)
  then have tu: "unat (t + u) = unat t + unat u" using p2 by (intro unat_add_small) simp
  have x: "unat x = unat ?hi * 2 ^ 64 + unat ?lo"
  proof -
    have "unat x div 2 ^ 64 < 2 ^ 64" by (rule less_mult_imp_div_less) simp
    then have "unat ?hi = unat x div 2 ^ 64"
      by (simp only: unat_ucast_u128_u64 unat_drop_bit_div mod_less)
    moreover have "unat ?lo = unat x mod 2 ^ 64" by (rule unat_ucast_u128_u64)
    ultimately show ?thesis by (metis div_mult_mod_eq)
  qed
  have "(unat t + unat u) mod ?P = (unat ?hi * (2 ^ 64 mod ?P) + unat ?lo) mod ?P"
    by (simp only: t u r64 mod_add_eq)
  also have "\<dots> = (unat ?hi * 2 ^ 64 + unat ?lo) mod ?P"
    by (intro mod_add_cong mod_mult_cong refl) (rule mod_mod_trivial)
  also have "\<dots> = unat x mod ?P" by (rule arg_cong [where f = "\<lambda>n. n mod ?P", OF x [symmetric]])
  finally have sum: "(unat t + unat u) mod ?P = unat x mod ?P" .
  have "unat t + unat u < 2 * ?P" using lt by simp
  then have "unat (if t + u \<ge> p then t + u - p else t + u) = unat x mod ?P"
    using sum by (intro cond_sub_word) (simp_all only: tu)
  then show ?thesis
    by (simp only: Shoup_reduce_128_def Let_def r t_def u_def mult_1_right)
qed

section \<open>Properties\<close>

text \<open>C20: Barrett multiplication (\<open>Neal_mult_64\<close>) with the \<open>mu\<close> that \<open>mu_new\<close> precomputes
  multiplies reduced operands modulo any prime of at most 62 bits.\<close>

theorem Neal_mult_64_correct:
  assumes "prime_bits (unat p) q" and "q \<le> 62" and "unat a < unat p" and "unat b < unat p"
  shows "unat (Neal_mult_64 a b (mu_new p q) p q) = unat a * unat b mod unat p"
  using assms by (rule Neal_mult_64_ok)

theorem Neal_mult_64_correct_witness: "unat (Neal_mult_64 90 91 (mu_new 97 7) 97 7) = 90 * 91 mod 97"
  using Neal_mult_64_correct [of 97 7 90 91] by (simp add: prime_bits_def)

text \<open>Shoup multiplication with the companion of \<open>shoup_precomp\<close> multiplies modulo any
  prime below \<open>2^63\<close>, for every 64-bit first operand, reduced or not.\<close>

theorem Shoup_mult_64_correct:
  assumes "unat w < unat p" and "unat p < 2 ^ 63"
  shows "unat (Shoup_mult_64 a w (shoup_precomp w p) p) = unat a * unat w mod unat p"
  using assms by (rule Shoup_mult_64_ok)

theorem Shoup_mult_64_correct_witness:
  "unat (Shoup_mult_64 1000 91 (shoup_precomp 91 97) 97) = 1000 * 91 mod 97"
  using Shoup_mult_64_correct [of 91 97 1000] by simp

text \<open>\<open>Shoup_reduce_128\<close>, given the companions of 1 and of \<open>2^64 mod p\<close>, reduces every
  128-bit value modulo \<open>p\<close>.\<close>

theorem Shoup_reduce_128_correct:
  assumes "1 < unat p" and "unat p < 2 ^ 63" and "unat w = 2 ^ 64 mod unat p"
  shows "unat (Shoup_reduce_128 x p (shoup_precomp 1 p) (shoup_precomp w p)) = unat x mod unat p"
  using assms by (rule Shoup_reduce_128_ok)

theorem Shoup_reduce_128_correct_witness:
  "unat (Shoup_reduce_128 (2 ^ 127 + 5) 97 (shoup_precomp 1 97) (shoup_precomp 61 97))
   = unat (2 ^ 127 + 5 :: u128) mod 97"
  using Shoup_reduce_128_correct [of 97 61 "2 ^ 127 + 5"] by simp

text \<open>Barrett reduction of a product of up to \<open>2 * q\<close> bits, in the 32-bit kernels.\<close>

theorem Neal_reduce_32_correct:
  assumes "prime_bits (unat p) q" and "q \<le> 30" and "unat c < 2 ^ (2 * q)"
    and "unat mu = 2 ^ (2 * q + 1) div unat p"
  shows "unat (Neal_reduce_32 c mu p q) = unat c mod unat p"
  using assms by (rule Neal_reduce_32_ok)

theorem Neal_reduce_32_correct_witness: "unat (Neal_reduce_32 16000 337 97 7) = 16000 mod 97"
  using Neal_reduce_32_correct [of 97 7 16000 337] by (simp add: prime_bits_def)

end
