(* ===== verification/GpuTables.thy ===== *)
theory GpuTables
  imports DeviceMod HostMath BitReverse ContextMeta
begin

text \<open>
  The constant tables of a device: \<open>SetupConstants\<close> of \<open>src/src/ConstantsGPU.cu\<close> fills the
  per-prime companions (Barrett and Shoup constants, inverses of the ring dimension) and the
  powers of the roots of unity of the transforms; the kernels of \<open>ModMult.cuh\<close> and
  \<open>AddSub.cuh\<close> read them by the id of the prime. The 64-bit limbs are modelled; the tables of
  32-bit limbs have the same shape.
\<close>

unbundle bit_operations_syntax

section \<open>The constants\<close>

definition MAXP :: nat where
  "MAXP = 64"

definition MAXD :: nat where
  "MAXD = 8"

record Constants =
  hc_N :: nat
  hc_logN :: nat
  hc_L :: nat
  hc_K :: nat
  hc_type :: u64
  hc_primes :: "u64 list"
  hc_mu :: "u64 list"
  hc_bits :: "nat list"
  hc_one_shoup :: "u64 list"
  hc_r64_shoup :: "u64 list"
  hc_N_inv :: "u64 list"
  hc_N_inv_shoup :: "u64 list"
  hc_P :: "u64 list"
  hc_P_shoup :: "u64 list"
  hc_P_inv :: "u64 list"
  hc_P_inv_shoup :: "u64 list"
  hc_N_shoup :: "u64 list"

definition type_bits :: "LimbRecord list \<Rightarrow> u64 \<Rightarrow> u64" where
  "type_bits ms t = foldl (\<lambda>t m. if lr_type m = U64 then t OR push_bit (lr_id m) 1 else t) t ms"

definition ISU64 :: "Constants \<Rightarrow> nat \<Rightarrow> bool" where
  "ISU64 c i \<longleftrightarrow> hc_type c AND push_bit i 1 \<noteq> 0"

text \<open>A division by a zero modulus is undefined.\<close>

definition or_undefined :: "'a option \<Rightarrow> cpp_error + 'a" where
  "or_undefined r = (case r of None \<Rightarrow> Inl Undefined_behaviour | Some x \<Rightarrow> Inr x)"

lemma or_undefined_simps [simp]: "or_undefined None = Inl Undefined_behaviour" "or_undefined (Some x) = Inr x"
  by (simp_all add: or_undefined_def)

definition fresh_constants :: "nat \<Rightarrow> nat \<Rightarrow> nat \<Rightarrow> LimbRecord list list \<Rightarrow> LimbRecord list \<Rightarrow> Constants" where
  "fresh_constants N nq np meta smeta =
     (let z = replicate MAXP 0
      in \<lparr>hc_N = N, hc_logN = nat (bit_width_nat N) - 1, hc_L = nq, hc_K = np,
          hc_type = type_bits smeta (type_bits (concat meta) 0),
          hc_primes = z, hc_mu = z, hc_bits = replicate MAXP 0, hc_one_shoup = z, hc_r64_shoup = z,
          hc_N_inv = z, hc_N_inv_shoup = z, hc_P = z, hc_P_shoup = z, hc_P_inv = z, hc_P_inv_shoup = z, hc_N_shoup = z\<rparr>)"

text \<open>The entries of the prime with id \<open>i\<close>, written by both loops over the primes.\<close>

definition set_prime :: "nat \<Rightarrow> PrimeRecord \<Rightarrow> Constants \<Rightarrow> cpp_error + Constants" where
  "set_prime i r c =
     (let p = pr_p r
      in bindE (or_undefined (modinv (of_nat (hc_N c)) p)) (\<lambda>n_inv.
         Inr (c\<lparr>hc_primes := (hc_primes c)[i := p],
                hc_N_shoup := (hc_N_shoup c)[i := shoup_precomp (of_nat (hc_N c)) p],
                hc_one_shoup := (hc_one_shoup c)[i := shoup_precomp 1 p],
                hc_r64_shoup := (hc_r64_shoup c)[i := shoup_precomp (ucast (push_bit 64 (1::u128) mod ucast p)) p],
                hc_N_inv := (hc_N_inv c)[i := n_inv],
                hc_N_inv_shoup := (hc_N_inv_shoup c)[i := shoup_precomp n_inv p],
                hc_mu := (hc_mu c)[i := mu_new p (nat (pr_bits r))],
                hc_bits := (hc_bits c)[i := nat (pr_bits r)]\<rparr>)))"

definition set_primes :: "nat \<Rightarrow> PrimeRecord list \<Rightarrow> Constants \<Rightarrow> cpp_error + Constants" where
  "set_primes start ps c = foldE (\<lambda>c (i, r). set_prime i r c) c (enumerate start ps)"

text \<open>The digits per device, and the largest digit of a limb, must fit the tables.\<close>

definition digits_fit :: "LimbRecord list list \<Rightarrow> LimbRecord list \<Rightarrow> int list list \<Rightarrow> bool" where
  "digits_fit meta smeta digitGPUid \<longleftrightarrow>
     (let digits = foldl (\<lambda>d g. max d (length g)) 0 digitGPUid;
          maxDigit = foldl (\<lambda>d l. max d (lr_digit l)) (-1) (concat meta @ smeta)
      in \<not> (digits > MAXD \<or> maxDigit \<ge> int MAXD))"

definition SetupConstants :: "PrimeRecord list \<Rightarrow> LimbRecord list list \<Rightarrow> PrimeRecord list \<Rightarrow> LimbRecord list
    \<Rightarrow> int list list \<Rightarrow> nat \<Rightarrow> cpp_error + Constants" where
  "SetupConstants q meta p smeta digitGPUid N =
     (if length q + length p > MAXP then Inl Runtime_error
      else if \<not> digits_fit meta smeta digitGPUid then Inl Runtime_error
      else bindE (set_primes 0 q (fresh_constants N (length q) (length p) meta smeta)) (\<lambda>c.
           set_primes (hc_L c) p c))"

text \<open>The constants of the key switching: \<open>P_inv\<close> is \<open>P^-1 mod q_i\<close> of the OpenFHE context, its
  inverse \<open>P\<close> is recomputed.\<close>

definition set_P :: "u64 list \<Rightarrow> Constants \<Rightarrow> cpp_error + Constants" where
  "set_P PInvModq c =
     foldE (\<lambda>c (i, x).
        let p = hc_primes c ! i
        in bindE (or_undefined (modinv x p)) (\<lambda>P.
           Inr (c\<lparr>hc_P_inv := (hc_P_inv c)[i := x], hc_P_inv_shoup := (hc_P_inv_shoup c)[i := shoup_precomp x p],
                  hc_P := (hc_P c)[i := P], hc_P_shoup := (hc_P_shoup c)[i := shoup_precomp P p]\<rparr>)))
       c (enumerate 0 PInvModq)"

section \<open>The modular operations of the kernels\<close>

definition modmult_barrett :: "Constants \<Rightarrow> nat \<Rightarrow> u64 \<Rightarrow> u64 \<Rightarrow> u64" where
  "modmult_barrett c i a b = Neal_mult_64 a b (hc_mu c ! i) (hc_primes c ! i) (hc_bits c ! i)"

definition modmult_shoup :: "Constants \<Rightarrow> nat \<Rightarrow> u64 \<Rightarrow> u64 \<Rightarrow> u64 \<Rightarrow> u64" where
  "modmult_shoup c i a b shoup_b = Shoup_mult_64 a b shoup_b (hc_primes c ! i)"

definition modreduce_shoup :: "Constants \<Rightarrow> nat \<Rightarrow> u128 \<Rightarrow> u64" where
  "modreduce_shoup c i x = Shoup_reduce_128 x (hc_primes c ! i) (hc_one_shoup c ! i) (hc_r64_shoup c ! i)"

definition dmodadd :: "Constants \<Rightarrow> nat \<Rightarrow> u64 \<Rightarrow> u64 \<Rightarrow> u64" where
  "dmodadd c i a b = modadd a b (hc_primes c ! i)"

definition dmodsub :: "Constants \<Rightarrow> nat \<Rightarrow> u64 \<Rightarrow> u64 \<Rightarrow> u64" where
  "dmodsub c i a b = modsub a b (hc_primes c ! i)"

subsection \<open>What they compute\<close>

abbreviation dprime :: "Constants \<Rightarrow> nat \<Rightarrow> nat" where
  "dprime c i \<equiv> unat (hc_primes c ! i)"

text \<open>The entries of a prime are consistent: the prime has at most 62 bits, of which \<open>hc_bits\<close> is
  the number, and its companions are those of the host's precomputations.\<close>

definition prime_entry :: "Constants \<Rightarrow> nat \<Rightarrow> bool" where
  "prime_entry c i \<longleftrightarrow> (let p = hc_primes c ! i; b = hc_bits c ! i
     in i < MAXP \<and> prime_bits (unat p) b \<and> b \<le> 62 \<and> prime_nat (unat p)
        \<and> hc_mu c ! i = mu_new p b \<and> hc_one_shoup c ! i = shoup_precomp 1 p
        \<and> hc_r64_shoup c ! i = shoup_precomp (ucast (push_bit 64 (1::u128) mod ucast p)) p
        \<and> hc_N_shoup c ! i = shoup_precomp (of_nat (hc_N c)) p
        \<and> hc_N_inv_shoup c ! i = shoup_precomp (hc_N_inv c ! i) p
        \<and> unat (hc_N_inv c ! i) < unat p \<and> hc_N c mod 2 ^ 64 * unat (hc_N_inv c ! i) mod unat p = 1)"

lemma prime_entry_bounds:
  assumes "prime_entry c i"
  shows "1 < dprime c i" and "dprime c i < 2 ^ 62" and "2 * dprime c i \<le> 2 ^ 64" and "prime_nat (dprime c i)"
proof -
  have p: "prime_nat (dprime c i)" "dprime c i < 2 ^ (hc_bits c ! i)" "hc_bits c ! i \<le> 62"
    using assms by (simp_all add: prime_entry_def prime_bits_def Let_def)
  then show "1 < dprime c i" "prime_nat (dprime c i)" by (auto dest: prime_nat_gt1)
  have "(2::nat) ^ (hc_bits c ! i) \<le> 2 ^ 62" using p(3) by (intro power_increasing) simp_all
  with p(2) show "dprime c i < 2 ^ 62" by linarith
  then show "2 * dprime c i \<le> 2 ^ 64" by simp
qed

lemma modmult_barrett_ok:
  assumes "prime_entry c i" and "unat a < dprime c i" and "unat b < dprime c i"
  shows "unat (modmult_barrett c i a b) = unat a * unat b mod dprime c i"
  unfolding modmult_barrett_def
  using assms Neal_mult_64_ok [of "hc_primes c ! i" "hc_bits c ! i" a b] by (simp add: prime_entry_def Let_def)

lemma modmult_shoup_ok:
  assumes "prime_entry c i" and "unat b < dprime c i" and "sb = shoup_precomp b (hc_primes c ! i)"
  shows "unat (modmult_shoup c i a b sb) = unat a * unat b mod dprime c i"
  unfolding modmult_shoup_def assms(3)
  using assms(2) prime_entry_bounds(2) [OF assms(1)] by (intro Shoup_mult_64_ok) simp_all

lemma modreduce_shoup_ok:
  assumes "prime_entry c i"
  shows "unat (modreduce_shoup c i x) = unat x mod dprime c i"
proof -
  let ?p = "hc_primes c ! i"
  have "unat (push_bit 64 (1::u128)) = 2 ^ 64" by (simp add: unat_push_bit_mult)
  moreover have "(2::nat) ^ 64 mod unat ?p < 2 ^ 64"
  proof -
    have "(2::nat) ^ 64 mod unat ?p < unat ?p" using prime_entry_bounds(1) [OF assms] by simp
    also have "unat ?p < 2 ^ 64" using prime_entry_bounds(3) [OF assms] prime_entry_bounds(1) [OF assms] by linarith
    finally show ?thesis .
  qed
  ultimately have "unat (ucast (push_bit 64 (1::u128) mod ucast ?p) :: u64) = 2 ^ 64 mod unat ?p"
    by (simp only: unat_ucast_u128_u64 unat_mod_distrib unat_ucast_u64_u128) simp
  then show ?thesis
    unfolding modreduce_shoup_def
    using assms prime_entry_bounds [OF assms] by (simp add: prime_entry_def Let_def Shoup_reduce_128_ok)
qed

lemma dmodadd_ok:
  assumes "prime_entry c i" and "unat a < dprime c i" and "unat b < dprime c i"
  shows "unat (dmodadd c i a b) = (unat a + unat b) mod dprime c i"
  unfolding dmodadd_def using assms prime_entry_bounds(3) [OF assms(1)] by (intro unat_modadd) simp_all

lemma dmodsub_ok:
  assumes "prime_entry c i" and "unat a < dprime c i" and "unat b < dprime c i"
  shows "unat (dmodsub c i a b) = (unat a + dprime c i - unat b) mod dprime c i"
  unfolding dmodsub_def using assms prime_entry_bounds(3) [OF assms(1)] by (intro unat_modsub) simp_all

subsection \<open>The setup fills consistent entries\<close>

text \<open>The records the setup relies on: primes of at most 62 bits whose stored bit length is right.\<close>

definition prime_record_ok :: "nat \<Rightarrow> PrimeRecord \<Rightarrow> bool" where
  "prime_record_ok N r \<longleftrightarrow> prime_nat (unat (pr_p r)) \<and> prime_bits (unat (pr_p r)) (nat (pr_bits r))
     \<and> pr_bits r \<le> 62 \<and> \<not> unat (pr_p r) dvd N mod 2 ^ 64"

definition tables_sized :: "Constants \<Rightarrow> bool" where
  "tables_sized c \<longleftrightarrow> length (hc_primes c) = MAXP \<and> length (hc_mu c) = MAXP \<and> length (hc_bits c) = MAXP
     \<and> length (hc_one_shoup c) = MAXP \<and> length (hc_r64_shoup c) = MAXP \<and> length (hc_N_inv c) = MAXP
     \<and> length (hc_N_inv_shoup c) = MAXP \<and> length (hc_P c) = MAXP \<and> length (hc_P_shoup c) = MAXP
     \<and> length (hc_P_inv c) = MAXP \<and> length (hc_P_inv_shoup c) = MAXP \<and> length (hc_N_shoup c) = MAXP"

lemma set_prime_ok:
  assumes "tables_sized c" and "prime_record_ok (hc_N c) r" and "i < MAXP"
  shows "\<exists>c'. set_prime i r c = Inr c' \<and> tables_sized c' \<and> hc_type c' = hc_type c \<and> hc_N c' = hc_N c \<and> hc_L c' = hc_L c \<and> hc_K c' = hc_K c \<and> hc_logN c' = hc_logN c
    \<and> prime_entry c' i \<and> hc_primes c' ! i = pr_p r
    \<and> (\<forall>j. j \<noteq> i \<longrightarrow> hc_primes c' ! j = hc_primes c ! j \<and> prime_entry c' j = prime_entry c j)"
proof -
  have n: "unat (of_nat (hc_N c) :: u64) = hc_N c mod 2 ^ 64" by (simp add: unat_of_nat)
  obtain x where x: "modinv (of_nat (hc_N c)) (pr_p r) = Some x" "unat x < unat (pr_p r)"
      "hc_N c mod 2 ^ 64 * unat x mod unat (pr_p r) = 1"
    using modinv_unat [of "pr_p r" "of_nat (hc_N c)"] assms(2) unfolding n by (auto simp: prime_record_ok_def)
  let ?c = "c\<lparr>hc_primes := (hc_primes c)[i := pr_p r],
      hc_N_shoup := (hc_N_shoup c)[i := shoup_precomp (of_nat (hc_N c)) (pr_p r)],
      hc_one_shoup := (hc_one_shoup c)[i := shoup_precomp 1 (pr_p r)],
      hc_r64_shoup := (hc_r64_shoup c)[i := shoup_precomp (ucast (push_bit 64 (1::u128) mod ucast (pr_p r))) (pr_p r)],
      hc_N_inv := (hc_N_inv c)[i := x], hc_N_inv_shoup := (hc_N_inv_shoup c)[i := shoup_precomp x (pr_p r)],
      hc_mu := (hc_mu c)[i := mu_new (pr_p r) (nat (pr_bits r))], hc_bits := (hc_bits c)[i := nat (pr_bits r)]\<rparr>"
  have r: "set_prime i r c = Inr ?c" using x(1) by (simp add: set_prime_def Let_def)
  have s: "tables_sized ?c" using assms(1) by (simp add: tables_sized_def)
  have "nat (pr_bits r) \<le> 62" using assms(2) by (auto simp: prime_record_ok_def nat_le_iff)
  then have e: "prime_entry ?c i" "hc_primes ?c ! i = pr_p r"
    using assms x by (simp_all add: prime_entry_def Let_def tables_sized_def prime_record_ok_def)
  have o: "\<forall>j. j \<noteq> i \<longrightarrow> hc_primes ?c ! j = hc_primes c ! j \<and> prime_entry ?c j = prime_entry c j"
    by (simp add: prime_entry_def Let_def)
  show ?thesis using r s e o by (intro exI [of _ ?c]) simp
qed

lemma set_primes_ok:
  assumes "tables_sized c" and "\<forall>r \<in> set ps. prime_record_ok (hc_N c) r" and "start + length ps \<le> MAXP"
  shows "\<exists>c'. set_primes start ps c = Inr c' \<and> tables_sized c' \<and> hc_type c' = hc_type c \<and> hc_N c' = hc_N c \<and> hc_L c' = hc_L c \<and> hc_K c' = hc_K c \<and> hc_logN c' = hc_logN c
    \<and> (\<forall>i < length ps. prime_entry c' (start + i) \<and> hc_primes c' ! (start + i) = pr_p (ps ! i))
    \<and> (\<forall>j < start. hc_primes c' ! j = hc_primes c ! j \<and> prime_entry c' j = prime_entry c j)"
  using assms
proof (induction ps arbitrary: c start)
  case Nil
  then show ?case by (simp add: set_primes_def)
next
  case (Cons r ps)
  have "prime_record_ok (hc_N c) r" "start < MAXP" using Cons.prems by simp_all
  from set_prime_ok [OF Cons.prems(1) this] obtain c1 where c1: "set_prime start r c = Inr c1" "tables_sized c1" "hc_type c1 = hc_type c"
      "hc_N c1 = hc_N c" "hc_L c1 = hc_L c" "hc_K c1 = hc_K c" "hc_logN c1 = hc_logN c" "prime_entry c1 start" "hc_primes c1 ! start = pr_p r"
      "\<forall>j. j \<noteq> start \<longrightarrow> hc_primes c1 ! j = hc_primes c ! j \<and> prime_entry c1 j = prime_entry c j" by blast
  have "\<forall>r \<in> set ps. prime_record_ok (hc_N c1) r" "Suc start + length ps \<le> MAXP" using Cons.prems c1(4) by simp_all
  from Cons.IH [OF c1(2) this] obtain c' where c': "set_primes (Suc start) ps c1 = Inr c'" "tables_sized c'" "hc_type c' = hc_type c1"
      "hc_N c' = hc_N c1" "hc_L c' = hc_L c1" "hc_K c' = hc_K c1" "hc_logN c' = hc_logN c1"
      "\<forall>i < length ps. prime_entry c' (Suc start + i) \<and> hc_primes c' ! (Suc start + i) = pr_p (ps ! i)"
      "\<forall>j < Suc start. hc_primes c' ! j = hc_primes c1 ! j \<and> prime_entry c' j = prime_entry c1 j" by blast
  have "set_primes start (r # ps) c = Inr c'" using c1(1) c'(1) by (simp add: set_primes_def)
  moreover have "\<forall>i < length (r # ps). prime_entry c' (start + i) \<and> hc_primes c' ! (start + i) = pr_p ((r # ps) ! i)"
  proof (intro allI impI)
    fix i assume "i < length (r # ps)"
    then show "prime_entry c' (start + i) \<and> hc_primes c' ! (start + i) = pr_p ((r # ps) ! i)"
      using c'(8,9) c1(8,9) by (cases i) auto
  qed
  ultimately show ?case using c1 c' by auto
qed

lemma SetupConstants_ok:
  assumes "\<forall>r \<in> set (q @ p). prime_record_ok N r" and "length q + length p \<le> MAXP" and "digits_fit meta smeta digitGPUid"
  shows "\<exists>c. SetupConstants q meta p smeta digitGPUid N = Inr c \<and> tables_sized c \<and> hc_N c = N
    \<and> hc_type c = type_bits smeta (type_bits (concat meta) 0) \<and> hc_logN c = nat (bit_width_nat N) - 1
    \<and> (\<forall>i < length q + length p. hc_primes c ! i = pr_p ((q @ p) ! i) \<and> prime_entry c i)
    \<and> hc_L c = length q \<and> hc_K c = length p"
proof -
  let ?c0 = "fresh_constants N (length q) (length p) meta smeta"
  have c0: "tables_sized ?c0" "hc_N ?c0 = N" "hc_L ?c0 = length q" "hc_K ?c0 = length p" "hc_type ?c0 = type_bits smeta (type_bits (concat meta) 0)"
    "hc_logN ?c0 = nat (bit_width_nat N) - 1"
    by (simp_all add: fresh_constants_def tables_sized_def Let_def)
  have q: "\<forall>r \<in> set q. prime_record_ok (hc_N ?c0) r" "0 + length q \<le> MAXP" using assms(1,2) c0 by simp_all
  from set_primes_ok [OF c0(1) q] obtain c1 where c1: "set_primes 0 q ?c0 = Inr c1" "tables_sized c1" "hc_type c1 = hc_type ?c0"
      "hc_N c1 = hc_N ?c0" "hc_L c1 = hc_L ?c0" "hc_K c1 = hc_K ?c0" "hc_logN c1 = hc_logN ?c0"
      "\<forall>i < length q. prime_entry c1 (0 + i) \<and> hc_primes c1 ! (0 + i) = pr_p (q ! i)" by blast
  have p: "\<forall>r \<in> set p. prime_record_ok (hc_N c1) r" "length q + length p \<le> MAXP" using assms(1,2) c0 c1(4) by simp_all
  from set_primes_ok [OF c1(2) p] obtain c2 where c2: "set_primes (length q) p c1 = Inr c2" "tables_sized c2" "hc_type c2 = hc_type c1"
      "hc_N c2 = hc_N c1" "hc_L c2 = hc_L c1" "hc_K c2 = hc_K c1" "hc_logN c2 = hc_logN c1"
      "\<forall>i < length p. prime_entry c2 (length q + i) \<and> hc_primes c2 ! (length q + i) = pr_p (p ! i)"
      "\<forall>j < length q. hc_primes c2 ! j = hc_primes c1 ! j \<and> prime_entry c2 j = prime_entry c1 j" by blast
  have r: "SetupConstants q meta p smeta digitGPUid N = Inr c2"
    using assms(2,3) c1(1,5) c2(1) c0(3) by (simp add: SetupConstants_def)
  have e: "hc_primes c2 ! i = pr_p ((q @ p) ! i) \<and> prime_entry c2 i" if "i < length q + length p" for i
  proof (cases "i < length q")
    case True
    then show ?thesis using c1(8) c2(9) by (simp add: nth_append)
  next
    case False
    then have "i - length q < length p" "length q + (i - length q) = i" using that by simp_all
    then show ?thesis using c2(8) False by (metis nth_append)
  qed
  show ?thesis using r e c0 c1(3-7) c2(2-7) by (intro exI [of _ c2]) simp
qed

text \<open>The entries of the key switching: \<open>P\<close> is recovered from the inverses of the context.\<close>

definition same_primes :: "Constants \<Rightarrow> Constants \<Rightarrow> bool" where
  "same_primes c c' \<longleftrightarrow> hc_primes c' = hc_primes c \<and> hc_type c' = hc_type c \<and> hc_N c' = hc_N c \<and> hc_logN c' = hc_logN c
     \<and> hc_bits c' = hc_bits c \<and> hc_mu c' = hc_mu c \<and> hc_one_shoup c' = hc_one_shoup c \<and> hc_r64_shoup c' = hc_r64_shoup c
     \<and> hc_N_inv c' = hc_N_inv c \<and> hc_N_inv_shoup c' = hc_N_inv_shoup c \<and> hc_L c' = hc_L c \<and> hc_K c' = hc_K c
     \<and> hc_N_shoup c' = hc_N_shoup c"

lemma same_primes_entry: "same_primes c c' \<Longrightarrow> prime_entry c' i = prime_entry c i" "same_primes c c' \<Longrightarrow> ISU64 c' i = ISU64 c i"
  by (simp_all add: same_primes_def prime_entry_def ISU64_def)

lemma inverse_unique_mod:
  fixes p :: nat
  assumes "x * y mod p = 1" and "x * P mod p = 1"
  shows "y mod p = P mod p"
proof -
  have "y * (x * P mod p) mod p = P * (x * y mod p) mod p" by (simp add: mod_mult_right_eq ac_simps)
  then show ?thesis using assms by simp
qed

lemma set_P_ok:
  assumes "length xs \<le> MAXP" and "length (hc_P c) = MAXP" and "length (hc_P_shoup c) = MAXP"
    and "length (hc_P_inv c) = MAXP" and "length (hc_P_inv_shoup c) = MAXP"
    and "\<And>i. i < length xs \<Longrightarrow> prime_entry c i \<and> unat (xs ! i) * P mod dprime c i = 1"
  shows "\<exists>c'. set_P xs c = Inr c' \<and> same_primes c c' \<and> length (hc_P c') = MAXP \<and> length (hc_P_shoup c') = MAXP
    \<and> length (hc_P_inv c') = MAXP \<and> length (hc_P_inv_shoup c') = MAXP
    \<and> (\<forall>i < length xs. unat (hc_P c' ! i) = P mod dprime c i \<and> hc_P_shoup c' ! i = shoup_precomp (hc_P c' ! i) (hc_primes c ! i)
        \<and> hc_P_inv c' ! i = xs ! i \<and> hc_P_inv_shoup c' ! i = shoup_precomp (xs ! i) (hc_primes c ! i))"
  using assms(1,6)
proof (induction xs rule: rev_induct)
  case Nil
  then show ?case using assms(2-5) by (simp add: set_P_def same_primes_def)
next
  case (snoc x xs)
  let ?n = "length xs" and ?p = "hc_primes c ! length xs"
  have ih: "prime_entry c i \<and> unat (xs ! i) * P mod dprime c i = 1" if "i < length xs" for i
    using snoc.prems(2) [of i] that by (simp add: nth_append)
  obtain c1 where c1: "set_P xs c = Inr c1" "same_primes c c1" "length (hc_P c1) = MAXP" "length (hc_P_shoup c1) = MAXP"
      "length (hc_P_inv c1) = MAXP" "length (hc_P_inv_shoup c1) = MAXP"
      "\<forall>i < length xs. unat (hc_P c1 ! i) = P mod dprime c i \<and> hc_P_shoup c1 ! i = shoup_precomp (hc_P c1 ! i) (hc_primes c ! i)
        \<and> hc_P_inv c1 ! i = xs ! i \<and> hc_P_inv_shoup c1 ! i = shoup_precomp (xs ! i) (hc_primes c ! i)"
    using snoc.IH [OF _ ih] snoc.prems(1) by auto
  have e: "prime_entry c ?n" "unat x * P mod dprime c ?n = 1" using snoc.prems(2) [of ?n] by simp_all
  have "\<not> dprime c ?n dvd unat x"
  proof
    assume "dprime c ?n dvd unat x"
    then have "unat x * P mod dprime c ?n = 0" by (simp add: mod_eq_0_iff_dvd)
    then show False using e(2) by simp
  qed
  with modinv_unat [of ?p x] prime_entry_bounds(4) [OF e(1)] obtain y where
      y: "modinv x ?p = Some y" "unat y < dprime c ?n" "unat x * unat y mod dprime c ?n = 1" by auto
  have yP: "unat y = P mod dprime c ?n" using inverse_unique_mod [OF y(3) e(2)] y(2) by simp
  let ?c = "c1\<lparr>hc_P_inv := (hc_P_inv c1)[?n := x], hc_P_inv_shoup := (hc_P_inv_shoup c1)[?n := shoup_precomp x ?p],
                  hc_P := (hc_P c1)[?n := y], hc_P_shoup := (hc_P_shoup c1)[?n := shoup_precomp y ?p]\<rparr>"
  have "hc_primes c1 = hc_primes c" using c1(2) by (simp add: same_primes_def)
  then have "set_P (xs @ [x]) c = Inr ?c"
    using c1(1) y(1) by (simp add: set_P_def enumerate_append_eq foldE_append Let_def)
  moreover have "same_primes c ?c" using c1(2) by (simp add: same_primes_def)
  moreover have "unat (hc_P ?c ! i) = P mod dprime c i \<and> hc_P_shoup ?c ! i = shoup_precomp (hc_P ?c ! i) (hc_primes c ! i)
      \<and> hc_P_inv ?c ! i = (xs @ [x]) ! i \<and> hc_P_inv_shoup ?c ! i = shoup_precomp ((xs @ [x]) ! i) (hc_primes c ! i)"
    if "i < length (xs @ [x])" for i
    using that c1(3-7) yP snoc.prems(1) by (cases "i = ?n") (simp_all add: nth_append)
  ultimately show ?case using c1(3-6) by (intro exI [of _ ?c]) simp
qed

text \<open>C14: \<open>SetupConstants\<close> refuses more than \<open>MAXP\<close> primes or \<open>MAXD\<close> digits; otherwise every prime of the chain and
  every special prime gets consistent entries, on which the kernels' multiplications, reductions and
  additions are exact.\<close>

theorem SetupConstants_correct:
  assumes "\<forall>r \<in> set (q @ p). prime_record_ok N r"
  shows "if length q + length p > MAXP \<or> \<not> digits_fit meta smeta digitGPUid
      then SetupConstants q meta p smeta digitGPUid N = Inl Runtime_error
    else \<exists>c. SetupConstants q meta p smeta digitGPUid N = Inr c
      \<and> (\<forall>i < length q + length p. hc_primes c ! i = pr_p ((q @ p) ! i) \<and> prime_entry c i
          \<and> (\<forall>a b. unat a < dprime c i \<longrightarrow> unat b < dprime c i \<longrightarrow>
               unat (modmult_barrett c i a b) = unat a * unat b mod dprime c i
             \<and> unat (dmodadd c i a b) = (unat a + unat b) mod dprime c i)
          \<and> (\<forall>x. unat (modreduce_shoup c i x) = unat x mod dprime c i))"
proof (cases "length q + length p > MAXP \<or> \<not> digits_fit meta smeta digitGPUid")
  case True
  then show ?thesis by (auto simp: SetupConstants_def)
next
  case False
  then obtain c where "SetupConstants q meta p smeta digitGPUid N = Inr c"
      "\<forall>i < length q + length p. hc_primes c ! i = pr_p ((q @ p) ! i) \<and> prime_entry c i"
    using SetupConstants_ok [OF assms, of meta smeta digitGPUid] by (auto simp: not_less)
  then show ?thesis using False modmult_barrett_ok dmodadd_ok modreduce_shoup_ok by (simp add: not_less)
qed

lemma prime_97: "prime_nat 97"
  by (simp add: prime_nat_code atLeastLessThan_nat_numeral)

lemma prime_17: "prime_nat 17"
  by (simp add: prime_nat_code atLeastLessThan_nat_numeral)

theorem SetupConstants_correct_witness:
  "\<exists>c. SetupConstants [\<lparr>pr_p = 97, pr_type = Some U64, pr_bits = 7\<rparr>] [] [\<lparr>pr_p = 17, pr_type = Some U64, pr_bits = 5\<rparr>] [] [[0]] 8 = Inr c
    \<and> unat (modmult_barrett c 0 90 91) = 90 * 91 mod 97 \<and> unat (modreduce_shoup c 1 1000) = 1000 mod 17"
proof -
  let ?q = "[\<lparr>pr_p = 97, pr_type = Some U64, pr_bits = 7\<rparr>]" and ?p = "[\<lparr>pr_p = 17, pr_type = Some U64, pr_bits = 5\<rparr>]"
  have "\<forall>r \<in> set (?q @ ?p). prime_record_ok 8 r"
    using prime_97 prime_17 by (simp add: prime_record_ok_def prime_bits_def)
  from SetupConstants_correct [OF this, of "[]" "[]" "[[0]]"] obtain c where c: "SetupConstants ?q [] ?p [] [[0]] 8 = Inr c"
      and e: "\<And>i. i < 2 \<Longrightarrow> hc_primes c ! i = pr_p ((?q @ ?p) ! i)"
        "\<And>i a b. i < 2 \<Longrightarrow> unat a < dprime c i \<Longrightarrow> unat b < dprime c i \<Longrightarrow>
          unat (modmult_barrett c i a b) = unat a * unat b mod dprime c i"
        "\<And>i x. i < 2 \<Longrightarrow> unat (modreduce_shoup c i x) = unat x mod dprime c i"
    by (auto simp: MAXP_def MAXD_def digits_fit_def numeral_2_eq_2)
  have "hc_primes c ! 0 = 97" "hc_primes c ! 1 = 17" using e(1) [of 0] e(1) [of 1] by simp_all
  then show ?thesis using c e(2) [of 0 90 91] e(3) [of 1 1000] by simp
qed

end
