(* ===== verification/NttTables.thy ===== *)
theory NttTables
  imports GpuTables
begin

text \<open>
  The powers of the roots of unity \<open>SetupConstants\<close> precomputes for the transforms of each prime
  (the lambda \<open>work\<close> of \<open>src/src/ConstantsGPU.cu\<close>): \<open>psi_no\<close> in natural order, \<open>psi\<close> in
  bit-reversed order, their inverses and their Shoup companions. The root itself is the one of the
  OpenFHE context, or the one \<open>unity_root\<close> finds; either is an argument here, and the
  assertions of the code are what the transforms need of it.
\<close>

section \<open>The tables\<close>

record PsiTables =
  ps_root :: u64
  ps_inv_root :: u64
  ps_psi :: "u64 list"
  ps_inv_psi :: "u64 list"
  ps_psi_shoup :: "u64 list"
  ps_inv_psi_shoup :: "u64 list"
  ps_psi_no :: "u64 list"
  ps_inv_psi_no :: "u64 list"
  ps_root_shoup :: u64
  ps_inv_root_shoup :: u64
  ps_psi_middle_scale :: "u64 list"
  ps_inv_psi_middle_scale :: "u64 list"

text \<open>\<open>x[0] = 1, x[j] = root * x[j - 1]\<close>.\<close>

fun power_chain :: "u64 \<Rightarrow> u64 \<Rightarrow> u64 \<Rightarrow> nat \<Rightarrow> u64 list option" where
  "power_chain rt p x 0 = Some []"
| "power_chain rt p x (Suc n) =
     Option.bind (modprod rt x p) (\<lambda>y. map_option (Cons x) (power_chain rt p y n))"

definition assert_eq :: "u64 option \<Rightarrow> u64 \<Rightarrow> cpp_error + unit" where
  "assert_eq r v = bindE (or_undefined r) (\<lambda>x. guardE Assert_failed (x = v))"

text \<open>The order the code asserts of the entry \<open>j\<close> of the bit-reversed tables.\<close>

definition assert_order :: "u64 \<Rightarrow> u64 list \<Rightarrow> nat \<Rightarrow> cpp_error + unit" where
  "assert_order p xs j =
     (let pow = 2 ^ nat (bit_width_nat j)
      in bindE (assert_eq (modpow (xs ! j) (of_nat (2 * pow)) p) 1) (\<lambda>_.
         if j > 0 then assert_eq (modpow (xs ! j) (of_nat pow) p) (p - 1) else Inr ()))"

definition assert_orders :: "u64 \<Rightarrow> u64 list \<Rightarrow> u64 list \<Rightarrow> nat \<Rightarrow> cpp_error + unit" where
  "assert_orders p psi inv_psi N =
     foldE (\<lambda>_ j. bindE (assert_order p psi j) (\<lambda>_. assert_order p inv_psi j)) () [0..<N]"

text \<open>The entry \<open>j * 2^w + k\<close> of a middle table is the power \<open>j * reverse k\<close> of the root.\<close>

definition middle_scale :: "u64 list \<Rightarrow> nat \<Rightarrow> nat \<Rightarrow> u64 list" where
  "middle_scale psi_no N w =
     concat (map (\<lambda>j. map (\<lambda>k. psi_no ! (j * nat (bit_reverse (int k) w))) [0..<2 ^ w]) [0..<N div 2 ^ w])"

definition setup_psi :: "Constants \<Rightarrow> nat \<Rightarrow> u64 \<Rightarrow> cpp_error + PsiTables" where
  "setup_psi c i rt =
     (let p = hc_primes c ! i; N = hc_N c; br = (\<lambda>j. nat (bit_reverse (int j) (hc_logN c)))
      in bindE (or_undefined (modinv rt p)) (\<lambda>inv_root.
         bindE (assert_eq (modpow rt (of_nat (2 * N)) p) 1) (\<lambda>_.
         bindE (assert_eq (modpow rt (of_nat N) p) (p - 1)) (\<lambda>_.
         bindE (assert_eq (modpow inv_root (of_nat (2 * N)) p) 1) (\<lambda>_.
         bindE (assert_eq (modpow inv_root (of_nat N) p) (p - 1)) (\<lambda>_.
         bindE (assert_eq (modprod rt inv_root p) 1) (\<lambda>_.
         bindE (or_undefined (power_chain rt p 1 (2 * N))) (\<lambda>psi_no.
         bindE (or_undefined (power_chain inv_root p 1 (2 * N))) (\<lambda>inv_psi_no.
         let psi = map (\<lambda>j. psi_no ! br j) [0..<N]; inv_psi = map (\<lambda>j. inv_psi_no ! br j) [0..<N]
         in bindE (assert_orders p psi inv_psi N) (\<lambda>_.
         let w = (hc_logN c + 1) div 2; scale = (\<lambda>xs. or_undefined (those (map (\<lambda>x. modprod x (hc_N_inv c ! i) p) xs)))
         in bindE (scale (middle_scale inv_psi_no N w)) (\<lambda>inv_middle.
         bindE (scale inv_psi_no) (\<lambda>scaled.
         Inr \<lparr>ps_root = rt, ps_inv_root = inv_root, ps_psi = psi, ps_inv_psi = inv_psi,
              ps_psi_shoup = map (\<lambda>x. shoup_precomp x p) psi,
              ps_inv_psi_shoup = map (\<lambda>x. shoup_precomp x p) inv_psi,
              ps_psi_no = psi_no, ps_inv_psi_no = scaled,
              ps_root_shoup = shoup_precomp rt p, ps_inv_root_shoup = shoup_precomp inv_root p,
              ps_psi_middle_scale = middle_scale psi_no N w, ps_inv_psi_middle_scale = inv_middle\<rparr>))))))))))))"

lemma power_chain_unat:
  assumes "1 < unat p" and "unat x < unat p"
  obtains xs where "power_chain rt p x n = Some xs" and "length xs = n"
    and "\<And>j. j < n \<Longrightarrow> unat (xs ! j) = unat x * unat rt ^ j mod unat p"
proof -
  have "\<exists>xs. power_chain rt p x n = Some xs \<and> length xs = n
    \<and> (\<forall>j < n. unat (xs ! j) = unat x * unat rt ^ j mod unat p)"
    using assms(2)
  proof (induction n arbitrary: x)
    case (Suc n)
    have p0: "p \<noteq> 0" using assms(1) by auto
    let ?y = "mulmod128 rt x p"
    have y: "unat ?y = unat rt * unat x mod unat p" using p0 by (simp add: unat_mulmod128)
    then have "unat ?y < unat p" using assms(1) by simp
    from Suc.IH [OF this] obtain xs where xs: "power_chain rt p ?y n = Some xs" "length xs = n"
        "\<forall>j < n. unat (xs ! j) = unat ?y * unat rt ^ j mod unat p" by blast
    have "unat ((x # xs) ! j) = unat x * unat rt ^ j mod unat p" if "j < Suc n" for j
    proof (cases j)
      case (Suc k)
      then have "unat ((x # xs) ! j) = unat ?y * unat rt ^ k mod unat p" using xs(3) that by simp
      also have "\<dots> = unat rt * unat x * unat rt ^ k mod unat p" by (simp only: y mod_mult_left_eq)
      finally show ?thesis using Suc by (simp add: ac_simps)
    qed (use Suc.prems in simp)
    then show ?case using xs(1,2) p0 by (intro exI [of _ "x # xs"]) (simp add: modprod_mulmod128)
  qed simp
  then show ?thesis using that by blast
qed

section \<open>What the transforms need of the tables\<close>

text \<open>\<open>psi_table p L w xs\<close>: the list \<open>xs\<close> holds the powers of \<open>w\<close> modulo \<open>p\<close> in the order of the
  reversed \<open>L\<close>-bit indices, with Shoup companions \<open>sh\<close>.\<close>

definition psi_table :: "u64 \<Rightarrow> nat \<Rightarrow> int \<Rightarrow> u64 list \<Rightarrow> u64 list \<Rightarrow> bool" where
  "psi_table p L w xs sh \<longleftrightarrow> length xs = 2 ^ L \<and> length sh = 2 ^ L
     \<and> (\<forall>k < 2 ^ L. uint (xs ! k) = w ^ brev L k mod uint p \<and> sh ! k = shoup_precomp (xs ! k) p)"

text \<open>\<open>w\<close> is a primitive root of order \<open>2 * 2^L\<close> with inverse \<open>v\<close>.\<close>

definition root_pair :: "int \<Rightarrow> nat \<Rightarrow> int \<Rightarrow> int \<Rightarrow> bool" where
  "root_pair p L w v \<longleftrightarrow> w ^ 2 ^ L mod p = -1 mod p \<and> v ^ 2 ^ L mod p = -1 mod p \<and> w * v mod p = 1 mod p"

definition psi_ok :: "Constants \<Rightarrow> nat \<Rightarrow> PsiTables \<Rightarrow> bool" where
  "psi_ok c i t \<longleftrightarrow> prime_entry c i \<and> hc_N c = 2 ^ hc_logN c
     \<and> root_pair (uint (hc_primes c ! i)) (hc_logN c) (uint (ps_root t)) (uint (ps_inv_root t))
     \<and> psi_table (hc_primes c ! i) (hc_logN c) (uint (ps_root t)) (ps_psi t) (ps_psi_shoup t)
     \<and> psi_table (hc_primes c ! i) (hc_logN c) (uint (ps_inv_root t)) (ps_inv_psi t) (ps_inv_psi_shoup t)"

lemma uint_mod_eq: "unat x = m mod unat p \<Longrightarrow> uint x = int m mod uint p"
  by (simp only: uint_nat zmod_int)

lemma uint_gt1: "1 < unat p \<Longrightarrow> 1 < uint p"
  by (simp only: uint_nat)

lemma assert_eq_Inr: "assert_eq r v = Inr u \<longleftrightarrow> r = Some v"
  by (cases r) (auto simp: assert_eq_def)

lemma or_undefined_Inr: "or_undefined r = Inr x \<longleftrightarrow> r = Some x"
  by (cases r) simp_all

lemma minus_one_power:
  assumes "1 < unat p" and "modpow x (of_nat n) p = Some (p - 1)" and "n < 2 ^ 64"
  shows "uint x ^ n mod uint p = -1 mod uint p"
proof -
  have n: "unat (of_nat n :: u64) = n" using assms(3) by (simp add: unat_of_nat)
  have "unat (p - 1) = unat p - 1"
    using assms(1) by (subst unat_sub) (simp_all add: word_le_nat_alt)
  then have "unat x ^ n mod unat p = unat p - 1"
    using modpow_unat [OF assms(1), of x "of_nat n"] assms(2) n by (metis option.inject)
  then have "int (unat x ^ n mod unat p) = int (unat p - 1)" by (rule arg_cong)
  then have "uint x ^ n mod uint p = uint p - 1" using assms(1) by (simp add: of_nat_mod of_nat_diff)
  also have "uint p - 1 = -1 mod uint p"
    using uint_gt1 [OF assms(1)] by (simp add: zmod_minus1)
  finally show ?thesis .
qed

lemma psi_table_map:
  assumes "1 < unat p" and "length xs = 2 * 2 ^ L" and "\<And>j. j < 2 * 2 ^ L \<Longrightarrow> unat (xs ! j) = unat (1::u64) * unat w ^ j mod unat p"
  shows "psi_table p L (uint w) (map (\<lambda>j. xs ! nat (bit_reverse (int j) L)) [0..<2 ^ L])
    (map (\<lambda>x. shoup_precomp x p) (map (\<lambda>j. xs ! nat (bit_reverse (int j) L)) [0..<2 ^ L]))"
proof -
  have "uint (xs ! brev L k) = uint w ^ brev L k mod uint p" if "k < 2 ^ L" for k
    using uint_mod_eq [OF assms(3) [of "brev L k"]] brev_less [of L k] by simp
  then show ?thesis by (simp add: psi_table_def bit_reverse_brev)
qed

lemma setup_psi_psi_ok:
  assumes "prime_entry c i" and "hc_N c = 2 ^ hc_logN c" and "hc_logN c < 63" and "setup_psi c i rt = Inr t"
  shows "psi_ok c i t"
proof -
  let ?p = "hc_primes c ! i" and ?L = "hc_logN c"
  have p: "1 < unat ?p" using prime_entry_bounds(1) [OF assms(1)] .
  have N: "(2::nat) ^ ?L < 2 ^ 64" using assms(3) by (intro power_strict_increasing) simp_all
  from assms(4) obtain inv_root psi_no inv_no where
      a: "modpow rt (of_nat (hc_N c)) ?p = Some (?p - 1)" "modpow inv_root (of_nat (hc_N c)) ?p = Some (?p - 1)"
        "modprod rt inv_root ?p = Some 1"
    and ch: "power_chain rt ?p 1 (2 * hc_N c) = Some psi_no" "power_chain inv_root ?p 1 (2 * hc_N c) = Some inv_no"
    and t: "ps_root t = rt" "ps_inv_root t = inv_root"
      "ps_psi t = map (\<lambda>j. psi_no ! nat (bit_reverse (int j) ?L)) [0..<hc_N c]"
      "ps_inv_psi t = map (\<lambda>j. inv_no ! nat (bit_reverse (int j) ?L)) [0..<hc_N c]"
      "ps_psi_shoup t = map (\<lambda>x. shoup_precomp x ?p) (ps_psi t)"
      "ps_inv_psi_shoup t = map (\<lambda>x. shoup_precomp x ?p) (ps_inv_psi t)"
    unfolding setup_psi_def Let_def bindE_eq_Inr assert_eq_Inr or_undefined_Inr by auto
  have one: "unat (1::u64) < unat ?p" using p by simp
  have tab: "psi_table ?p ?L (uint w) (map (\<lambda>j. xs ! nat (bit_reverse (int j) ?L)) [0..<hc_N c])
      (map (\<lambda>x. shoup_precomp x ?p) (map (\<lambda>j. xs ! nat (bit_reverse (int j) ?L)) [0..<hc_N c]))"
    if "power_chain w ?p 1 (2 * hc_N c) = Some xs" for w xs
  proof -
    from power_chain_unat [OF p one, of w "2 * hc_N c"] obtain ys where
      "power_chain w ?p 1 (2 * hc_N c) = Some ys" "length ys = 2 * hc_N c"
      "\<And>j. j < 2 * hc_N c \<Longrightarrow> unat (ys ! j) = unat (1::u64) * unat w ^ j mod unat ?p" by blast
    with that show ?thesis unfolding assms(2) by (intro psi_table_map [OF p]) simp_all
  qed
  have "uint rt ^ 2 ^ ?L mod uint ?p = -1 mod uint ?p" "uint inv_root ^ 2 ^ ?L mod uint ?p = -1 mod uint ?p"
    using minus_one_power [OF p, of _ "2 ^ ?L"] a(1,2) N unfolding assms(2) by blast+
  moreover have "uint rt * uint inv_root mod uint ?p = 1 mod uint ?p"
  proof -
    have p0: "?p \<noteq> 0" using p by auto
    then have "mulmod128 rt inv_root ?p = 1" using a(3) by (simp add: modprod_mulmod128)
    then have "unat rt * unat inv_root mod unat ?p = 1" using p0 by (simp flip: unat_mulmod128)
    then have "int (unat rt * unat inv_root mod unat ?p) = int 1" by (rule arg_cong)
    then have "uint rt * uint inv_root mod uint ?p = 1" by (simp add: of_nat_mod)
    then show ?thesis using uint_gt1 [OF p] by simp
  qed
  ultimately have "root_pair (uint ?p) ?L (uint (ps_root t)) (uint (ps_inv_root t))" by (simp add: root_pair_def t)
  moreover have "psi_table ?p ?L (uint (ps_root t)) (ps_psi t) (ps_psi_shoup t)" using tab [OF ch(1)] by (simp only: t)
  moreover have "psi_table ?p ?L (uint (ps_inv_root t)) (ps_inv_psi t) (ps_inv_psi_shoup t)"
    using tab [OF ch(2)] by (simp only: t)
  ultimately show ?thesis using assms(1,2) by (simp add: psi_ok_def)
qed

text \<open>The constants of a ring of dimension 4 modulo 17, with the root of unity 2 of order 8.\<close>

definition demo_constants :: Constants where
  "demo_constants = (case SetupConstants [\<lparr>pr_p = 17, pr_type = Some U64, pr_bits = 5\<rparr>]
     [[\<lparr>lr_id = 0, lr_type = U64, lr_digit = 0\<rparr>]] [] [] [[0]] 4 of Inr c \<Rightarrow> c | Inl e \<Rightarrow> undefined)"

lemma demo_constants_eval:
  "(let c = demo_constants
    in (hc_primes c ! 0, hc_bits c ! 0, hc_N_inv c ! 0, hc_logN c, hc_N c, hc_mu c ! 0 = mu_new 17 5,
        hc_one_shoup c ! 0 = shoup_precomp 1 17,
        hc_r64_shoup c ! 0 = shoup_precomp (ucast (push_bit 64 (1::u128) mod ucast (17::u64))) 17,
        hc_N_inv_shoup c ! 0 = shoup_precomp 13 17, hc_N_shoup c ! 0 = shoup_precomp (of_nat 4) 17)) = (17, 5, 13, 2, 4, True, True, True, True, True)"
  by code_simp

lemma demo_constants_values [simp]:
  shows "hc_primes demo_constants ! 0 = 17" and "hc_bits demo_constants ! 0 = 5"
    and "hc_N_inv demo_constants ! 0 = 13" and "hc_logN demo_constants = 2" and "hc_N demo_constants = 4"
  using demo_constants_eval by (simp_all only: Let_def prod.inject)

lemma demo_constants_companions:
  shows "hc_mu demo_constants ! 0 = mu_new 17 5" and "hc_one_shoup demo_constants ! 0 = shoup_precomp 1 17"
    and "hc_r64_shoup demo_constants ! 0 = shoup_precomp (ucast (push_bit 64 (1::u128) mod ucast (17::u64))) 17"
    and "hc_N_inv_shoup demo_constants ! 0 = shoup_precomp 13 17" and "hc_N_shoup demo_constants ! 0 = shoup_precomp (of_nat 4) 17"
  using demo_constants_eval by (simp_all only: Let_def prod.inject simp_thms)

lemma demo_constants_entry: "prime_entry demo_constants 0"
  unfolding prime_entry_def demo_constants_values demo_constants_companions Let_def
proof (intro conjI)
  show "prime_nat (unat (17::u64))" "prime_bits (unat (17::u64)) 5" using prime_17 by (simp_all add: prime_bits_def)
  show "unat (13::u64) < unat (17::u64)" "4 mod 2 ^ 64 * unat (13::u64) mod unat (17::u64) = 1" by simp_all
  show "(0::nat) < MAXP" "(5::nat) \<le> 62" by (simp_all add: MAXP_def)
qed (rule refl)+

lemma demo_setup_psi: "\<exists>t. setup_psi demo_constants 0 2 = Inr t"
proof -
  have m: "modinv 2 17 = Some 9" "modpow 2 8 17 = Some 1" "modpow 2 4 17 = Some 16" "modpow 9 8 17 = Some 1"
    "modpow 9 4 17 = Some 16" "modprod 2 9 17 = Some 1" by (code_simp, code_simp, code_simp, code_simp, code_simp, code_simp)
  have ch: "power_chain 2 17 1 8 = Some [1, 2, 4, 8, 16, 15, 13, 9]" by code_simp
  have chi: "power_chain 9 17 1 8 = Some [1, 9, 13, 15, 16, 8, 4, 2]" by code_simp
  have sc: "those (map (\<lambda>x. modprod x 13 17) [1, 9, 13, 15, 16, 8, 4, 2]) = Some [13, 15, 16, 8, 4, 2, 1, 9]" by code_simp
  have o: "assert_orders 17 (map (\<lambda>j. [1, 2, 4, 8, 16, 15, 13, 9] ! nat (bit_reverse (int j) 2)) [0..<4])
      (map (\<lambda>j. [1, 9, 13, 15, 16, 8, 4, 2] ! nat (bit_reverse (int j) 2)) [0..<4]) 4 = Inr ()" by code_simp
  have ms: "those (map (\<lambda>x. modprod x 13 17) (middle_scale [1, 9, 13, 15, 16, 8, 4, 2] 4 ((2 + 1) div 2))) = Some [13, 13, 13, 15]" by code_simp
  have n: "of_nat (2 * 4) = (8::u64)" "of_nat 8 = (8::u64)" "of_nat 4 = (4::u64)" "2 * 4 = (8::nat)" "(17::u64) - 1 = 16" by simp_all
  have a: "assert_eq (Some x) x = Inr ()" for x by (simp add: assert_eq_def)
  show ?thesis
    unfolding setup_psi_def Let_def demo_constants_values n m ch chi or_undefined_simps bindE.simps a sc o ms by blast
qed

lemma demo_psi_ok: "setup_psi demo_constants 0 2 = Inr t \<Longrightarrow> psi_ok demo_constants 0 t"
  by (rule setup_psi_psi_ok [OF demo_constants_entry]) simp_all

text \<open>C15: whenever \<open>SetupConstants\<close> accepts a root, because its assertions hold, the tables it
  stores are the powers of a primitive root of order \<open>2N\<close> and of its inverse in bit-reversed order,
  with the companions of Shoup's multiplication.\<close>

theorem setup_psi_correct:
  assumes "prime_entry c i" and "hc_N c = 2 ^ hc_logN c" and "hc_logN c < 63" and "setup_psi c i rt = Inr t"
  shows "psi_ok c i t"
  using assms by (rule setup_psi_psi_ok)

theorem setup_psi_correct_witness:
  "\<exists>t. setup_psi demo_constants 0 2 = Inr t \<and> psi_ok demo_constants 0 t"
proof -
  obtain t where "setup_psi demo_constants 0 2 = Inr t" using demo_setup_psi by blast
  with setup_psi_correct [OF demo_constants_entry _ _ this] show ?thesis by simp
qed

end
