(* ===== verification/NttKernel.thy ===== *)
theory NttKernel
  imports NttTables
begin

text \<open>
  The one-block transforms of \<open>src/src/NTT_1D.cu\<close> and \<open>src/src/INTT_1D.cu\<close>, which serve rings of
  dimension below \<open>2^NTT_1D_LOG_THRESHOLD\<close>: a block of \<open>B\<close> threads works on the \<open>2B\<close> coefficients in
  shared memory. A phase between two barriers is a schedule of threads; each thread reads and writes
  the two coefficients it owns in the phase.
\<close>

unbundle bit_operations_syntax

section \<open>Phases of a thread block\<close>

text \<open>A thread replaces the two coefficients it owns.\<close>

definition pair_step :: "(nat \<Rightarrow> nat) \<Rightarrow> (nat \<Rightarrow> nat) \<Rightarrow> (nat \<Rightarrow> 'a \<Rightarrow> 'a \<Rightarrow> 'a \<times> 'a) \<Rightarrow> nat \<Rightarrow> 'a list \<Rightarrow> 'a list" where
  "pair_step f1 f2 g t A = (let (x, y) = g t (A ! f1 t) (A ! f2 t) in A[f1 t := x, f2 t := y])"

text \<open>The contract of a phase: no two threads own the same coefficient.\<close>

locale thread_pairs =
  fixes f1 f2 :: "nat \<Rightarrow> nat"
  assumes inj1: "f1 s = f1 t \<Longrightarrow> s = t" and inj2: "f2 s = f2 t \<Longrightarrow> s = t" and apart: "f1 s \<noteq> f2 t"
begin

lemma length_phase: "length (fold (pair_step f1 f2 g) ts A) = length A"
  by (induction ts arbitrary: A) (simp_all add: pair_step_def split_def Let_def)

lemma phase_untouched:
  "j \<notin> f1 ` set ts \<Longrightarrow> j \<notin> f2 ` set ts \<Longrightarrow> fold (pair_step f1 f2 g) ts A ! j = A ! j"
  by (induction ts arbitrary: A) (simp_all add: pair_step_def split_def Let_def)

lemma phase_owned:
  assumes "distinct ts" and "t \<in> set ts" and "\<forall>s \<in> set ts. f1 s < length A \<and> f2 s < length A"
  shows "fold (pair_step f1 f2 g) ts A ! f1 t = fst (g t (A ! f1 t) (A ! f2 t))"
    and "fold (pair_step f1 f2 g) ts A ! f2 t = snd (g t (A ! f1 t) (A ! f2 t))"
proof -
  have "fold (pair_step f1 f2 g) ts A ! f1 t = fst (g t (A ! f1 t) (A ! f2 t))
      \<and> fold (pair_step f1 f2 g) ts A ! f2 t = snd (g t (A ! f1 t) (A ! f2 t))"
    using assms
  proof (induction ts arbitrary: A)
    case (Cons s ts)
    let ?A = "pair_step f1 f2 g s A"
    have len: "length ?A = length A" by (simp add: pair_step_def split_def Let_def)
    show ?case
    proof (cases "t = s")
      case True
      have "f1 s \<notin> f1 ` set ts" "f2 s \<notin> f2 ` set ts" "f1 s \<notin> f2 ` set ts" "f2 s \<notin> f1 ` set ts"
        using Cons.prems(1) inj1 [of s] inj2 [of s] apart [of s] apart [of _ s] by (auto simp: image_iff dest: sym)
      then have "fold (pair_step f1 f2 g) ts ?A ! f1 s = ?A ! f1 s" "fold (pair_step f1 f2 g) ts ?A ! f2 s = ?A ! f2 s"
        by (simp_all add: phase_untouched)
      moreover have "?A ! f1 s = fst (g s (A ! f1 s) (A ! f2 s))" "?A ! f2 s = snd (g s (A ! f1 s) (A ! f2 s))"
        using Cons.prems(3) apart [of s s] by (simp_all add: pair_step_def split_def Let_def)
      ultimately show ?thesis using True by simp
    next
      case False
      have "f1 s \<noteq> f1 t" "f2 s \<noteq> f2 t" "f1 s \<noteq> f2 t" "f2 s \<noteq> f1 t"
        using False inj1 [of s t] inj2 [of s t] apart [of s t] apart [of t s] by metis+
      then have "?A ! f1 t = A ! f1 t" "?A ! f2 t = A ! f2 t" by (simp_all add: pair_step_def split_def Let_def)
      moreover have "\<forall>s \<in> set ts. f1 s < length ?A \<and> f2 s < length ?A" using Cons.prems(3) len by simp
      ultimately show ?thesis using Cons.IH [of ?A] Cons.prems(1,2) False by simp
    qed
  qed simp
  then show "fold (pair_step f1 f2 g) ts A ! f1 t = fst (g t (A ! f1 t) (A ! f2 t))"
    and "fold (pair_step f1 f2 g) ts A ! f2 t = snd (g t (A ! f1 t) (A ! f2 t))" by blast+
qed

text \<open>The order in which the threads of a phase run does not matter.\<close>

lemma phase_schedule:
  assumes "distinct ts" and "distinct ts'" and "set ts = set ts'" and "\<forall>s \<in> set ts. f1 s < length A \<and> f2 s < length A"
  shows "fold (pair_step f1 f2 g) ts A = fold (pair_step f1 f2 g) ts' A"
proof (rule nth_equalityI)
  show "length (fold (pair_step f1 f2 g) ts A) = length (fold (pair_step f1 f2 g) ts' A)" by (simp add: length_phase)
next
  fix j
  assume "j < length (fold (pair_step f1 f2 g) ts A)"
  show "fold (pair_step f1 f2 g) ts A ! j = fold (pair_step f1 f2 g) ts' A ! j"
  proof (cases "j \<in> f1 ` set ts \<or> j \<in> f2 ` set ts")
    case True
    then show ?thesis
    proof
      assume "j \<in> f1 ` set ts"
      then obtain t where "t \<in> set ts" "j = f1 t" by blast
      then show ?thesis using phase_owned(1) [OF assms(1), of t A g] phase_owned(1) [OF assms(2), of t A g] assms(3,4) by simp
    next
      assume "j \<in> f2 ` set ts"
      then obtain t where "t \<in> set ts" "j = f2 t" by blast
      then show ?thesis using phase_owned(2) [OF assms(1), of t A g] phase_owned(2) [OF assms(2), of t A g] assms(3,4) by simp
    qed
  next
    case False
    then show ?thesis using assms(3) phase_untouched [of j ts g A] phase_untouched [of j ts' g A] by simp
  qed
qed

end

section \<open>The indices of a stage\<close>

text \<open>In a stage with blocks of \<open>2m\<close> coefficients the thread owns one of the lower half of its block
  and the one \<open>m\<close> above it.\<close>

definition lo_index :: "int \<Rightarrow> int \<Rightarrow> int" where
  "lo_index m tid = (let mask = m - 1 in (mask AND tid) OR push_bit 1 (NOT mask AND tid))"

definition psi_index :: "int \<Rightarrow> int \<Rightarrow> int \<Rightarrow> int" where
  "psi_index maskPsi log_psi tid = drop_bit (nat log_psi) (tid AND maskPsi)"

definition block_lo :: "nat \<Rightarrow> nat \<Rightarrow> nat" where
  "block_lo k t = (t div 2 ^ k) * (2 * 2 ^ k) + t mod 2 ^ k"

definition block_hi :: "nat \<Rightarrow> nat \<Rightarrow> nat" where
  "block_hi k t = block_lo k t + 2 ^ k"

lemma lo_index_block: "lo_index (2 ^ k) (int t) = int (block_lo k t)"
proof -
  let ?a = "take_bit k (int t)" and ?b = "push_bit (Suc k) (drop_bit k (int t))"
  have "(2 ^ k - 1) AND int t = ?a" by (simp add: take_bit_eq_mask mask_eq_exp_minus_1 and.commute)
  moreover have "push_bit 1 (NOT (2 ^ k - 1) AND int t) = ?b"
  proof -
    have "NOT (2 ^ k - 1) AND int t = push_bit k (drop_bit k (int t))"
      unfolding mask_eq_exp_minus_1 [symmetric]
      by (rule bit_eqI) (auto simp: bit_push_bit_iff bit_drop_bit_eq bit_and_iff bit_not_iff bit_mask_iff not_less)
    then show ?thesis by (simp only: push_bit_push_bit) simp
  qed
  moreover have "?a AND ?b = 0" by (rule bit_eqI) (auto simp: bit_simps)
  ultimately have "lo_index (2 ^ k) (int t) = ?a + ?b" by (simp add: lo_index_def Let_def disjunctive_add_eq_or)
  also have "?a = int (t mod 2 ^ k)" by (simp add: take_bit_eq_mod of_nat_mod)
  also have "?b = int ((t div 2 ^ k) * (2 * 2 ^ k))" by (simp add: push_bit_eq_mult drop_bit_eq_div of_nat_div)
  finally show ?thesis by (simp add: block_lo_def)
qed

text \<open>The mask of a stage: the bits \<open>k..b\<close>.\<close>

definition psi_mask :: "nat \<Rightarrow> nat \<Rightarrow> int" where
  "psi_mask b k = push_bit k (mask (Suc b - k))"

lemma bit_psi_mask: "bit (psi_mask b k) j \<longleftrightarrow> k \<le> j \<and> j \<le> b"
  by (auto simp: psi_mask_def bit_simps)

lemma psi_mask_initial: "psi_mask b b = 2 ^ b"
  by (rule bit_eqI) (auto simp: bit_psi_mask bit_simps)

lemma psi_mask_step: "Suc k \<le> b \<Longrightarrow> psi_mask b (Suc k) OR drop_bit 1 (psi_mask b (Suc k)) = psi_mask b k"
  by (rule bit_eqI) (auto simp: bit_psi_mask bit_simps)

lemma psi_index_block: "t < 2 ^ b \<Longrightarrow> psi_index (psi_mask b k) (int k) (int t) = int (t div 2 ^ k)"
proof -
  assume t: "t < 2 ^ b"
  have *: "\<not> bit t j" if "b \<le> j" for j
  proof -
    have "(2::nat) ^ b \<le> 2 ^ j" using that by simp
    then have "t < 2 ^ j" using t by linarith
    then show ?thesis by (simp add: bit_iff_odd)
  qed
  have "psi_index (psi_mask b k) (int k) (int t) = drop_bit k (int t)"
    unfolding psi_index_def
  proof (rule bit_eqI)
    fix n
    show "bit (drop_bit (nat (int k)) (int t AND psi_mask b k)) n \<longleftrightarrow> bit (drop_bit k (int t)) n"
      using * [of "k + n"] by (cases "b \<le> k + n") (auto simp: bit_drop_bit_eq bit_and_iff bit_psi_mask bit_of_nat_iff_bit)
  qed
  then show ?thesis by (simp add: drop_bit_eq_div of_nat_div)
qed

lemma block_div_mod:
  shows "block_lo k t div (2 * 2 ^ k) = t div 2 ^ k" and "block_lo k t mod (2 * 2 ^ k) = t mod 2 ^ k"
    and "block_hi k t div (2 * 2 ^ k) = t div 2 ^ k" and "block_hi k t mod (2 * 2 ^ k) = t mod 2 ^ k + 2 ^ k"
proof -
  have l: "t mod 2 ^ k < 2 * 2 ^ k" by (rule less_trans [of _ "2 ^ k"]) simp_all
  have h: "t mod 2 ^ k + 2 ^ k < 2 * 2 ^ k" by simp
  show "block_lo k t div (2 * 2 ^ k) = t div 2 ^ k" "block_lo k t mod (2 * 2 ^ k) = t mod 2 ^ k"
    unfolding block_lo_def using div_less [OF l] mod_less [OF l] by (simp_all only: div_mult_self3 mod_mult_self3) simp
  show "block_hi k t div (2 * 2 ^ k) = t div 2 ^ k" "block_hi k t mod (2 * 2 ^ k) = t mod 2 ^ k + 2 ^ k"
    unfolding block_hi_def block_lo_def
    using div_less [OF h] mod_less [OF h] by (simp_all only: add.assoc div_mult_self3 mod_mult_self3) simp
qed

lemma block_inj:
  shows "block_lo k s = block_lo k t \<Longrightarrow> s = t" and "block_hi k s = block_hi k t \<Longrightarrow> s = t"
    and "block_lo k s \<noteq> block_hi k t"
proof -
  show *: "block_lo k s = block_lo k t \<Longrightarrow> s = t"
    using block_div_mod(1,2) [of k s] block_div_mod(1,2) [of k t] by (metis div_mult_mod_eq)
  show "block_hi k s = block_hi k t \<Longrightarrow> s = t" by (rule *) (simp add: block_hi_def)
  have "s mod 2 ^ k < 2 ^ k" by simp
  then show "block_lo k s \<noteq> block_hi k t"
    using block_div_mod(2) [of k s] block_div_mod(4) [of k t] by (metis not_add_less2)
qed

interpretation blocks: thread_pairs "block_lo k" "block_hi k" for k
  by unfold_locales (auto intro: block_inj(1,2) simp: block_inj(3))

lemma block_bounds:
  assumes "t < 2 ^ b" and "k \<le> b"
  shows "block_lo k t < 2 * 2 ^ b" and "block_hi k t < 2 * 2 ^ b" and "t div 2 ^ k < 2 ^ (b - k)"
proof -
  have e: "(2::nat) ^ b = 2 ^ (b - k) * 2 ^ k" using assms(2) by (simp flip: power_add)
  then show q: "t div 2 ^ k < 2 ^ (b - k)" using assms(1) by (simp add: less_mult_imp_div_less)
  then have "Suc (t div 2 ^ k) * (2 * 2 ^ k) \<le> 2 ^ (b - k) * (2 * 2 ^ k)" by (intro mult_right_mono) simp_all
  also have "\<dots> = 2 * 2 ^ b" using e by simp
  finally have "(t div 2 ^ k) * (2 * 2 ^ k) + 2 * 2 ^ k \<le> 2 * 2 ^ b" by simp
  moreover have "t mod 2 ^ k < 2 ^ k" by simp
  ultimately show "block_hi k t < 2 * 2 ^ b" unfolding block_hi_def block_lo_def by linarith
  then show "block_lo k t < 2 * 2 ^ b" unfolding block_hi_def by linarith
qed

end
