(* ===== verification/Ntt1D.thy ===== *)
theory Ntt1D
  imports NttKernel
begin

text \<open>
  The forward transform of \<open>src/src/NTT_1D.cu\<close>: the negacyclic scaling, the first stage without
  twiddle factors and the loop of Cooley-Tukey stages. It evaluates the polynomial of the
  coefficients at the odd powers of a root of unity, in bit-reversed order.
\<close>

unbundle bit_operations_syntax

section \<open>The kernel\<close>

definition CT_butterfly :: "Constants \<Rightarrow> nat \<Rightarrow> u64 \<Rightarrow> u64 \<Rightarrow> u64 \<Rightarrow> u64 \<Rightarrow> u64 \<times> u64" where
  "CT_butterfly c i psi shoup_psi a b =
     (let b = modmult_shoup c i b psi shoup_psi in (dmodadd c i a b, dmodsub c i a b))"

text \<open>\<open>__ffs\<close>, the 1-based position of the lowest set bit, and \<open>__clz\<close>.\<close>

fun ffs :: "nat \<Rightarrow> nat" where
  "ffs n = (if n = 0 then 0 else if odd n then 1 else Suc (ffs (n div 2)))"

declare ffs.simps [simp del]

definition clz :: "nat \<Rightarrow> nat" where
  "clz n = 32 - nat (bit_width_nat n)"

text \<open>The scaling of a thread's coefficients \<open>2t\<close> and \<open>2t + 1\<close>.\<close>

definition scale_thread :: "Constants \<Rightarrow> nat \<Rightarrow> u64 list \<Rightarrow> u64 list \<Rightarrow> u64 \<Rightarrow> nat \<Rightarrow> nat \<Rightarrow> u64 \<Rightarrow> u64 \<Rightarrow> u64 \<times> u64" where
  "scale_thread c i psi psi_shoup rt B t a b =
     (let pos1 = unat (drop_bit (clz B + 1) (brev32 (of_nat t)));
          aux = psi ! pos1; aux_shoup = psi_shoup ! pos1;
          aux2 = modmult_shoup c i b aux aux_shoup
      in (modmult_shoup c i a aux aux_shoup, modmult_barrett c i aux2 rt))"

definition forward_negacyclic_scale :: "Constants \<Rightarrow> nat \<Rightarrow> PsiTables \<Rightarrow> nat \<Rightarrow> nat \<Rightarrow> nat list \<Rightarrow> u64 list \<Rightarrow> u64 list" where
  "forward_negacyclic_scale c i t B logn ts A =
     fold (pair_step (\<lambda>t. 2 * t) (\<lambda>t. 2 * t + 1)
        (scale_thread c i (ps_psi t) (ps_psi_shoup t) (ps_psi t ! (2 ^ (logn - 1))) B)) ts A"

definition plain_phase :: "Constants \<Rightarrow> nat \<Rightarrow> nat \<Rightarrow> nat list \<Rightarrow> u64 list \<Rightarrow> u64 list" where
  "plain_phase c i m ts A =
     fold (pair_step (\<lambda>t. t) (\<lambda>t. t + m) (\<lambda>t a b. (dmodadd c i a b, dmodsub c i a b))) ts A"

definition ntt_phase :: "Constants \<Rightarrow> nat \<Rightarrow> PsiTables \<Rightarrow> int \<Rightarrow> int \<Rightarrow> int \<Rightarrow> nat list \<Rightarrow> u64 list \<Rightarrow> u64 list" where
  "ntt_phase c i t m maskPsi log_psi ts A =
     fold (pair_step (\<lambda>t. nat (lo_index m (int t))) (\<lambda>t. nat (lo_index m (int t) + m))
        (\<lambda>tid a b. let psiid = nat (psi_index maskPsi log_psi (int tid))
                   in CT_butterfly c i (ps_psi t ! psiid) (ps_psi_shoup t ! psiid) a b)) ts A"

text \<open>The loop over the stages; \<open>sched m\<close> is the order in which the threads run in the phase of \<open>m\<close>.\<close>

function ntt_loop :: "Constants \<Rightarrow> nat \<Rightarrow> PsiTables \<Rightarrow> (int \<Rightarrow> nat list) \<Rightarrow> int \<Rightarrow> int \<Rightarrow> int \<Rightarrow> u64 list \<Rightarrow> u64 list" where
  "ntt_loop c i t sched m maskPsi log_psi A =
     (if m \<ge> 1
      then ntt_loop c i t sched (drop_bit 1 m) (maskPsi OR drop_bit 1 maskPsi) (log_psi - 1)
             (ntt_phase c i t m maskPsi log_psi (sched m) A)
      else A)"
  by pat_completeness auto
termination
  by (relation "measure (\<lambda>(c, i, t, sched, m, maskPsi, log_psi, A). nat m)") (auto simp: drop_bit_eq_div)

declare ntt_loop.simps [simp del]

definition ntt_core :: "Constants \<Rightarrow> nat \<Rightarrow> PsiTables \<Rightarrow> nat \<Rightarrow> (int \<Rightarrow> nat list) \<Rightarrow> u64 list \<Rightarrow> u64 list" where
  "ntt_core c i t B sched A =
     (let logN = ffs (2 * B) - 1;
          A = forward_negacyclic_scale c i t B logN (sched 0) A;
          m = int B;
          A = plain_phase c i B (sched m) A
      in ntt_loop c i t sched (drop_bit 1 m) (m OR drop_bit 1 m) (int (ffs B) - 2) A)"

definition NTT_1D :: "Constants \<Rightarrow> nat \<Rightarrow> PsiTables \<Rightarrow> nat \<Rightarrow> (int \<Rightarrow> nat list) \<Rightarrow> u64 list \<Rightarrow> cpp_error + u64 list" where
  "NTT_1D c i t B sched dat =
     (if 2 ^ (ffs (2 * B) - 1) \<noteq> 2 * B then Inl Assert_failed else Inr (ntt_core c i t B sched dat))"

section \<open>Arithmetic of a phase\<close>

declare brev.simps(2) [simp del] brev_double [simp] brev_double_plus [simp]

lemma mod_axpy:
  fixes x y g p :: int
  shows "(x mod p + g * (y mod p)) mod p = (x + g * y) mod p" and "(x mod p - g * (y mod p)) mod p = (x - g * y) mod p"
  by (metis mod_add_left_eq mod_add_right_eq mod_mult_right_eq, metis mod_diff_left_eq mod_diff_right_eq mod_mult_right_eq)

definition reduced :: "Constants \<Rightarrow> nat \<Rightarrow> nat \<Rightarrow> u64 list \<Rightarrow> bool" where
  "reduced c i n A \<longleftrightarrow> length A = n \<and> (\<forall>j < n. unat (A ! j) < dprime c i)"

lemma reduced_code: "reduced c i n A \<longleftrightarrow> length A = n \<and> list_all (\<lambda>x. unat x < dprime c i) A"
  by (auto simp: reduced_def list_all_length)

abbreviation iprime :: "Constants \<Rightarrow> nat \<Rightarrow> int" where
  "iprime c i \<equiv> uint (hc_primes c ! i)"

lemma uint_less_iff: "uint a < uint b \<longleftrightarrow> unat a < unat b"
  by (simp only: uint_nat of_nat_less_iff)

lemma uint_reduced: "unat x = m mod dprime c i \<Longrightarrow> uint x = int m mod iprime c i"
  by (rule uint_mod_eq)

lemma dmodaddsub_uint:
  assumes "prime_entry c i" and "unat a < dprime c i" and "unat b < dprime c i"
  shows uint_dmodadd: "uint (dmodadd c i a b) = (uint a + uint b) mod iprime c i"
    and uint_dmodsub: "uint (dmodsub c i a b) = (uint a - uint b) mod iprime c i"
    and dmodadd_less: "unat (dmodadd c i a b) < dprime c i"
    and dmodsub_less: "unat (dmodsub c i a b) < dprime c i"
proof -
  have p: "0 < dprime c i" using prime_entry_bounds(1) [OF assms(1)] by linarith
  show "uint (dmodadd c i a b) = (uint a + uint b) mod iprime c i"
    using uint_reduced [OF dmodadd_ok [OF assms]] by simp
  have "int (unat a + dprime c i - unat b) = uint a + iprime c i - uint b" using assms(3) by (simp add: of_nat_diff)
  moreover have "(uint a + iprime c i - uint b) mod iprime c i = (uint a - uint b) mod iprime c i"
    using mod_add_self2 [of "uint a - uint b" "iprime c i"] by (simp add: algebra_simps)
  ultimately show "uint (dmodsub c i a b) = (uint a - uint b) mod iprime c i"
    using uint_reduced [OF dmodsub_ok [OF assms]] by simp
  show "unat (dmodadd c i a b) < dprime c i" "unat (dmodsub c i a b) < dprime c i"
    using dmodadd_ok [OF assms] dmodsub_ok [OF assms] p by simp_all
qed

lemma modmult_shoup_uint:
  assumes "prime_entry c i" and "unat b < dprime c i" and "sb = shoup_precomp b (hc_primes c ! i)"
  shows uint_modmult_shoup: "uint (modmult_shoup c i a b sb) = uint a * uint b mod iprime c i"
    and modmult_shoup_less: "unat (modmult_shoup c i a b sb) < dprime c i"
  using uint_reduced [OF modmult_shoup_ok [OF assms]] modmult_shoup_ok [OF assms] prime_entry_bounds(1) [OF assms(1)]
  by simp_all

lemma modmult_barrett_uint:
  assumes "prime_entry c i" and "unat a < dprime c i" and "unat b < dprime c i"
  shows uint_modmult_barrett: "uint (modmult_barrett c i a b) = uint a * uint b mod iprime c i"
    and modmult_barrett_less: "unat (modmult_barrett c i a b) < dprime c i"
  using uint_reduced [OF modmult_barrett_ok [OF assms]] modmult_barrett_ok [OF assms] prime_entry_bounds(1) [OF assms(1)]
  by simp_all

text \<open>A phase on blocks of \<open>2 * 2^k\<close>, in which every thread of the block runs once.\<close>

definition all_threads :: "nat \<Rightarrow> nat list \<Rightarrow> bool" where
  "all_threads B ts \<longleftrightarrow> distinct ts \<and> set ts = {..<B}"

definition block_phase :: "nat \<Rightarrow> (nat \<Rightarrow> u64 \<Rightarrow> u64 \<Rightarrow> u64 \<times> u64) \<Rightarrow> nat list \<Rightarrow> u64 list \<Rightarrow> u64 list" where
  "block_phase k g ts A = fold (pair_step (block_lo k) (block_hi k) g) ts A"

lemma block_phase_values:
  assumes "all_threads (2 ^ b) ts" and "k \<le> b" and "length A = 2 * 2 ^ b" and "t < 2 ^ b"
  shows "block_phase k g ts A ! block_lo k t = fst (g t (A ! block_lo k t) (A ! block_hi k t))"
    and "block_phase k g ts A ! block_hi k t = snd (g t (A ! block_lo k t) (A ! block_hi k t))"
proof -
  have "\<forall>s \<in> set ts. block_lo k s < length A \<and> block_hi k s < length A"
    using assms(1-3) block_bounds by (simp add: all_threads_def)
  then show "block_phase k g ts A ! block_lo k t = fst (g t (A ! block_lo k t) (A ! block_hi k t))"
    and "block_phase k g ts A ! block_hi k t = snd (g t (A ! block_lo k t) (A ! block_hi k t))"
    unfolding block_phase_def
    using blocks.phase_owned [of ts t k A g] assms(1,4) by (simp_all add: all_threads_def)
qed

lemma length_block_phase [simp]: "length (block_phase k g ts A) = length A"
  unfolding block_phase_def by (rule blocks.length_phase)

text \<open>Every coefficient is the lower or the upper one of a thread.\<close>

lemma block_cover:
  assumes "j < 2 * 2 ^ b" and "k \<le> b"
  obtains t where "t < 2 ^ b" and "j = block_lo k t" | t where "t < 2 ^ b" and "j = block_hi k t"
proof -
  define q r where "q = j div (2 * 2 ^ k)" and "r = j mod (2 * 2 ^ k)"
  define r' where "r' = (if r < 2 ^ k then r else r - 2 ^ k)"
  define t where "t = q * 2 ^ k + r'"
  have r: "r < 2 * 2 ^ k" by (simp add: r_def)
  then have r': "r' < 2 ^ k" by (auto simp: r'_def)
  have j: "j = q * (2 * 2 ^ k) + r" unfolding q_def r_def by (simp only: div_mult_mod_eq)
  have t1: "t div 2 ^ k = q" "t mod 2 ^ k = r'" using r' by (simp_all add: t_def)
  have "q < 2 ^ (b - k)"
  proof -
    have "(2::nat) * 2 ^ b = 2 ^ (b - k) * (2 * 2 ^ k)" using assms(2) by (simp flip: power_add)
    then show ?thesis unfolding q_def using assms(1) by (simp add: less_mult_imp_div_less)
  qed
  then have "Suc q * 2 ^ k \<le> 2 ^ (b - k) * 2 ^ k" by (intro mult_right_mono) simp_all
  also have "\<dots> = 2 ^ b" using assms(2) by (simp flip: power_add)
  finally have tb: "t < 2 ^ b" using r' by (simp add: t_def)
  show ?thesis
  proof (cases "r < 2 ^ k")
    case True
    then show ?thesis using that(1) [OF tb] t1 j by (simp add: block_lo_def r'_def)
  next
    case False
    then show ?thesis using that(2) [OF tb] t1 j by (simp add: block_hi_def block_lo_def r'_def)
  qed
qed

lemma block_phase_reduced:
  assumes "all_threads (2 ^ b) ts" and "k \<le> b" and "reduced c i (2 * 2 ^ b) A"
    and g: "\<And>t x y. t < 2 ^ b \<Longrightarrow> unat x < dprime c i \<Longrightarrow> unat y < dprime c i
      \<Longrightarrow> unat (fst (g t x y)) < dprime c i \<and> unat (snd (g t x y)) < dprime c i"
  shows "reduced c i (2 * 2 ^ b) (block_phase k g ts A)"
  unfolding reduced_def
proof (intro conjI allI impI)
  have len: "length A = 2 * 2 ^ b" and A: "\<forall>j < 2 * 2 ^ b. unat (A ! j) < dprime c i" using assms(3) by (auto simp: reduced_def)
  then show "length (block_phase k g ts A) = 2 * 2 ^ b" by simp
  fix j :: nat
  assume "j < 2 * 2 ^ b"
  then show "unat (block_phase k g ts A ! j) < dprime c i"
    by (cases rule: block_cover [OF _ assms(2)])
      (use block_phase_values [OF assms(1,2) len] block_bounds [OF _ assms(2)] g A in auto)
qed

section \<open>The invariant of the stages\<close>

definition peval :: "nat \<Rightarrow> (nat \<Rightarrow> int) \<Rightarrow> int \<Rightarrow> int" where
  "peval n a x = (\<Sum>s<n. a s * x ^ s)"

text \<open>After the stage with blocks of \<open>2^k\<close> coefficients, block \<open>q\<close> holds the polynomial modulo
  \<open>X^(2^k) - G(q)^2\<close>: its coefficient \<open>r\<close> collects those of index \<open>r\<close> modulo \<open>2^k\<close>.\<close>

definition stage_inv :: "int \<Rightarrow> nat \<Rightarrow> (nat \<Rightarrow> int) \<Rightarrow> (nat \<Rightarrow> int) \<Rightarrow> nat \<Rightarrow> u64 list \<Rightarrow> bool" where
  "stage_inv p b a G k A \<longleftrightarrow> (\<forall>q < 2 ^ (Suc b - k). \<forall>r < 2 ^ k.
     uint (A ! (q * 2 ^ k + r)) = peval (2 ^ (Suc b - k)) (\<lambda>s. a (r + s * 2 ^ k)) ((G q)\<^sup>2) mod p)"

lemma sum_double: "(\<Sum>s<2 * n. f s) = (\<Sum>s<n. f (2 * s) + f (Suc (2 * s)))" for f :: "nat \<Rightarrow> int"
  by (induction n) simp_all

lemma peval_split: "peval (2 * n) a x = peval n (\<lambda>s. a (2 * s)) (x\<^sup>2) + x * peval n (\<lambda>s. a (Suc (2 * s))) (x\<^sup>2)"
  unfolding peval_def sum_double by (simp add: sum.distrib sum_distrib_left power_mult mult.left_commute)

lemma peval_mod_cong: "x mod p = y mod p \<Longrightarrow> peval n a x mod p = peval n a y mod p"
  unfolding peval_def
proof -
  assume "x mod p = y mod p"
  then have "x ^ s mod p = y ^ s mod p" for s by (metis power_mod)
  then have "a s * x ^ s mod p = a s * y ^ s mod p" for s by (metis mod_mult_right_eq)
  then show "(\<Sum>s<n. a s * x ^ s) mod p = (\<Sum>s<n. a s * y ^ s) mod p" by (metis (mono_tags, lifting) mod_sum_eq sum.cong)
qed

text \<open>The twiddle factors: \<open>G(2q)^2 = G(q)\<close> and \<open>G(2q + 1)^2 = -G(q)\<close>.\<close>

definition twiddles :: "int \<Rightarrow> nat \<Rightarrow> (nat \<Rightarrow> int) \<Rightarrow> bool" where
  "twiddles p b G \<longleftrightarrow> G 0 = 1 \<and> (\<forall>q < 2 ^ b. (G (2 * q))\<^sup>2 mod p = G q mod p \<and> (G (Suc (2 * q)))\<^sup>2 mod p = - G q mod p)"

lemma stage_step:
  assumes tw: "twiddles p b G" and inv: "stage_inv p b a G (Suc k) A" and k: "k \<le> b"
    and lo: "\<And>t. t < 2 ^ b \<Longrightarrow> uint (A' ! block_lo k t) = (uint (A ! block_lo k t) + G (t div 2 ^ k) * uint (A ! block_hi k t)) mod p"
    and hi: "\<And>t. t < 2 ^ b \<Longrightarrow> uint (A' ! block_hi k t) = (uint (A ! block_lo k t) - G (t div 2 ^ k) * uint (A ! block_hi k t)) mod p"
  shows "stage_inv p b a G k A'"
  unfolding stage_inv_def
proof (intro allI impI)
  fix q' r :: nat
  assume q': "q' < 2 ^ (Suc b - k)" and r: "r < 2 ^ k"
  define S :: nat where "S = 2 ^ (b - k)"
  have S: "(2::nat) ^ (Suc b - k) = 2 * S" "(2::nat) ^ (Suc b - Suc k) = S" using k by (simp_all add: S_def Suc_diff_le)
  define q where "q = q' div 2"
  have q: "q < S" using q' S by (simp add: q_def)
  define t where "t = q * 2 ^ k + r"
  have td: "t div 2 ^ k = q" "t mod 2 ^ k = r" using r by (simp_all add: t_def)
  have "Suc q * 2 ^ k \<le> S * 2 ^ k" using q by (intro mult_right_mono) simp_all
  also have "\<dots> = 2 ^ b" using k by (simp add: S_def flip: power_add)
  finally have tb: "t < 2 ^ b" using r by (simp add: t_def)
  have qb: "q < 2 ^ b"
  proof -
    have "S \<le> 2 ^ b" unfolding S_def by (intro power_increasing) simp_all
    then show ?thesis using q by linarith
  qed
  let ?E = "peval S (\<lambda>s. a (r + 2 * s * 2 ^ k)) ((G q)\<^sup>2)" and ?O = "peval S (\<lambda>s. a (r + Suc (2 * s) * 2 ^ k)) ((G q)\<^sup>2)"
  have A: "uint (A ! block_lo k t) = ?E mod p" "uint (A ! block_hi k t) = ?O mod p"
  proof -
    have e: "block_lo k t = q * 2 ^ Suc k + r" "block_hi k t = q * 2 ^ Suc k + (r + 2 ^ k)"
      by (simp_all add: block_lo_def block_hi_def td)
    have "r < 2 ^ Suc k" "r + 2 ^ k < 2 ^ Suc k" using r by simp_all
    then have "uint (A ! block_lo k t) = peval S (\<lambda>s. a (r + s * 2 ^ Suc k)) ((G q)\<^sup>2) mod p"
      "uint (A ! block_hi k t) = peval S (\<lambda>s. a (r + 2 ^ k + s * 2 ^ Suc k)) ((G q)\<^sup>2) mod p"
      unfolding e using inv q unfolding stage_inv_def S(2) by blast+
    moreover have "r + s * 2 ^ Suc k = r + 2 * s * 2 ^ k" "r + 2 ^ k + s * 2 ^ Suc k = r + Suc (2 * s) * 2 ^ k" for s
      by simp_all
    ultimately show "uint (A ! block_lo k t) = ?E mod p" "uint (A ! block_hi k t) = ?O mod p" by (simp_all only:)
  qed
  have L: "(uint (A ! block_lo k t) + G q * uint (A ! block_hi k t)) mod p = (?E + G q * ?O) mod p"
    unfolding A by (simp only: mod_axpy)
  have H: "(uint (A ! block_lo k t) - G q * uint (A ! block_hi k t)) mod p = (?E - G q * ?O) mod p"
    unfolding A by (simp only: mod_axpy)
  have P: "peval (2 * S) (\<lambda>s. a (r + s * 2 ^ k)) (G q) = ?E + G q * ?O"
    "peval (2 * S) (\<lambda>s. a (r + s * 2 ^ k)) (- G q) = ?E - G q * ?O"
    by (simp_all add: peval_split)
  show "uint (A' ! (q' * 2 ^ k + r)) = peval (2 ^ (Suc b - k)) (\<lambda>s. a (r + s * 2 ^ k)) ((G q')\<^sup>2) mod p"
  proof (cases "even q'")
    case True
    then have q2: "q' = 2 * q" by (simp add: q_def)
    then have "q' * 2 ^ k + r = block_lo k t" by (simp add: block_lo_def td)
    moreover have "peval (2 * S) (\<lambda>s. a (r + s * 2 ^ k)) ((G q')\<^sup>2) mod p = peval (2 * S) (\<lambda>s. a (r + s * 2 ^ k)) (G q) mod p"
      using tw qb q2 by (intro peval_mod_cong) (simp add: twiddles_def)
    ultimately show ?thesis using lo [OF tb] L P(1) by (simp add: S td)
  next
    case False
    then have q2: "q' = Suc (2 * q)" by (simp add: q_def)
    then have "q' * 2 ^ k + r = block_hi k t" by (simp add: block_hi_def block_lo_def td)
    moreover have "peval (2 * S) (\<lambda>s. a (r + s * 2 ^ k)) ((G q')\<^sup>2) mod p = peval (2 * S) (\<lambda>s. a (r + s * 2 ^ k)) (- G q) mod p"
      using tw qb q2 by (intro peval_mod_cong) (simp add: twiddles_def)
    ultimately show ?thesis using hi [OF tb] H P(2) by (simp add: S td)
  qed
qed

section \<open>The loop\<close>

definition sched_ok :: "nat \<Rightarrow> (int \<Rightarrow> nat list) \<Rightarrow> bool" where
  "sched_ok b sched \<longleftrightarrow> (\<forall>m. all_threads (2 ^ b) (sched m))"

definition ct_thread :: "Constants \<Rightarrow> nat \<Rightarrow> PsiTables \<Rightarrow> nat \<Rightarrow> nat \<Rightarrow> u64 \<Rightarrow> u64 \<Rightarrow> u64 \<times> u64" where
  "ct_thread c i t k tid a b = CT_butterfly c i (ps_psi t ! (tid div 2 ^ k)) (ps_psi_shoup t ! (tid div 2 ^ k)) a b"

lemma pair_fold_cong:
  assumes "\<And>t. t \<in> set ts \<Longrightarrow> f1 t = f1' t \<and> f2 t = f2' t \<and> g t = g' t"
  shows "fold (pair_step f1 f2 g) ts A = fold (pair_step f1' f2' g') ts A"
proof (rule fold_cong)
  fix t
  assume "t \<in> set ts"
  from assms [OF this] show "pair_step f1 f2 g t = pair_step f1' f2' g' t" by (intro ext) (simp add: pair_step_def)
qed simp_all

lemma ntt_phase_block:
  assumes "all_threads (2 ^ b) ts" and "k \<le> b"
  shows "ntt_phase c i t (2 ^ k) (psi_mask b k) (int k) ts A = block_phase k (ct_thread c i t k) ts A"
  unfolding ntt_phase_def block_phase_def
proof (rule pair_fold_cong)
  fix tid
  assume "tid \<in> set ts"
  then have "tid < 2 ^ b" using assms(1) by (simp add: all_threads_def)
  then have "nat (psi_index (psi_mask b k) (int k) (int tid)) = tid div 2 ^ k" by (simp add: psi_index_block)
  moreover have "nat (lo_index (2 ^ k) (int tid)) = block_lo k tid" "nat (lo_index (2 ^ k) (int tid) + 2 ^ k) = block_hi k tid"
    by (simp_all add: lo_index_block block_hi_def nat_add_distrib)
  ultimately show "nat (lo_index (2 ^ k) (int tid)) = block_lo k tid \<and> nat (lo_index (2 ^ k) (int tid) + 2 ^ k) = block_hi k tid
    \<and> (\<lambda>x y. let psiid = nat (psi_index (psi_mask b k) (int k) (int tid))
              in CT_butterfly c i (ps_psi t ! psiid) (ps_psi_shoup t ! psiid) x y) = ct_thread c i t k tid"
    by (simp add: fun_eq_iff ct_thread_def Let_def)
qed

text \<open>The table of a transform of \<open>2 * 2^b\<close> coefficients in a ring of dimension \<open>2^L\<close>.\<close>

definition tw :: "Constants \<Rightarrow> PsiTables \<Rightarrow> nat \<Rightarrow> int" where
  "tw c t q = uint (ps_root t) ^ brev (hc_logN c) q"

lemma psi_ok_nth:
  assumes "psi_ok c i t" and "q < 2 ^ hc_logN c"
  shows "uint (ps_psi t ! q) = tw c t q mod iprime c i" and "unat (ps_psi t ! q) < dprime c i"
    and "ps_psi_shoup t ! q = shoup_precomp (ps_psi t ! q) (hc_primes c ! i)"
proof -
  show e: "uint (ps_psi t ! q) = tw c t q mod iprime c i"
    and "ps_psi_shoup t ! q = shoup_precomp (ps_psi t ! q) (hc_primes c ! i)"
    using assms by (simp_all add: psi_ok_def psi_table_def tw_def)
  have "0 < iprime c i" using uint_gt1 [OF prime_entry_bounds(1)] assms(1) by (force simp: psi_ok_def)
  then show "unat (ps_psi t ! q) < dprime c i" using e by (simp flip: uint_less_iff)
qed

lemma twiddles_tw:
  assumes "psi_ok c i t" and "b < hc_logN c"
  shows "twiddles (iprime c i) b (tw c t)"
  unfolding twiddles_def
proof (intro conjI allI impI)
  obtain L where L: "hc_logN c = Suc L" using assms(2) by (cases "hc_logN c") auto
  have z: "brev w 0 = 0" for w by (induction w) (simp_all add: brev.simps(2))
  show "tw c t 0 = 1" by (simp add: tw_def z)
  fix q :: nat
  assume "q < 2 ^ b"
  moreover have "(2::nat) ^ b \<le> 2 ^ L" using assms(2) L by (intro power_increasing) simp_all
  ultimately have "q < 2 ^ L" by linarith
  then have q: "brev (Suc L) q = 2 * brev L q" by (rule brev_Suc_small)
  show "(tw c t (2 * q))\<^sup>2 mod iprime c i = tw c t q mod iprime c i"
    by (simp add: tw_def L q flip: power_mult) (simp add: mult.commute)
  let ?w = "uint (ps_root t)"
  have w: "?w ^ 2 ^ Suc L mod iprime c i = -1 mod iprime c i" using assms(1) L by (simp add: psi_ok_def root_pair_def)
  have "(tw c t (Suc (2 * q)))\<^sup>2 = ?w ^ 2 ^ Suc L * ?w ^ (2 * brev L q)"
    by (simp add: tw_def L power_add power_mult_distrib flip: power_mult) (simp add: mult.commute)
  also have "\<dots> mod iprime c i = -1 * ?w ^ (2 * brev L q) mod iprime c i" using w by (metis mod_mult_left_eq)
  finally show "(tw c t (Suc (2 * q)))\<^sup>2 mod iprime c i = - tw c t q mod iprime c i" by (simp add: tw_def L q)
qed

lemma ct_thread_values:
  assumes "psi_ok c i t" and "b < hc_logN c" and "k \<le> b" and "tid < 2 ^ b" and "unat x < dprime c i" and "unat y < dprime c i"
  shows "uint (fst (ct_thread c i t k tid x y)) = (uint x + tw c t (tid div 2 ^ k) * uint y) mod iprime c i"
    and "uint (snd (ct_thread c i t k tid x y)) = (uint x - tw c t (tid div 2 ^ k) * uint y) mod iprime c i"
    and "unat (fst (ct_thread c i t k tid x y)) < dprime c i \<and> unat (snd (ct_thread c i t k tid x y)) < dprime c i"
proof -
  have e: "prime_entry c i" using assms(1) by (simp add: psi_ok_def)
  let ?q = "tid div 2 ^ k"
  have "?q < 2 ^ (b - k)" using block_bounds(3) [OF assms(4,3)] .
  also have "(2::nat) ^ (b - k) \<le> 2 ^ hc_logN c" using assms(2) by (intro power_increasing) simp_all
  finally have q: "?q < 2 ^ hc_logN c" .
  note psi = psi_ok_nth [OF assms(1) q]
  let ?y = "modmult_shoup c i y (ps_psi t ! ?q) (ps_psi_shoup t ! ?q)"
  have y: "uint ?y = uint y * tw c t ?q mod iprime c i" "unat ?y < dprime c i"
    using uint_modmult_shoup [OF e psi(2,3), of y] modmult_shoup_less [OF e psi(2,3), of y] psi(1)
    by (simp_all add: mod_mult_right_eq)
  note as = uint_dmodadd [OF e assms(5) y(2)] uint_dmodsub [OF e assms(5) y(2)]
  show "uint (fst (ct_thread c i t k tid x y)) = (uint x + tw c t ?q * uint y) mod iprime c i"
    "uint (snd (ct_thread c i t k tid x y)) = (uint x - tw c t ?q * uint y) mod iprime c i"
    unfolding ct_thread_def CT_butterfly_def Let_def fst_conv snd_conv as y(1)
    by (simp_all only: mod_simps mult.commute [of "tw c t ?q"])
  show "unat (fst (ct_thread c i t k tid x y)) < dprime c i \<and> unat (snd (ct_thread c i t k tid x y)) < dprime c i"
    unfolding ct_thread_def CT_butterfly_def Let_def fst_conv snd_conv
    using dmodadd_less [OF e assms(5) y(2)] dmodsub_less [OF e assms(5) y(2)] by simp
qed


lemma stage_ntt_phase:
  assumes "psi_ok c i t" and "b < hc_logN c" and "k \<le> b" and "all_threads (2 ^ b) ts"
    and "reduced c i (2 * 2 ^ b) A" and "stage_inv (iprime c i) b a (tw c t) (Suc k) A"
    and A': "A' = block_phase k (ct_thread c i t k) ts A"
  shows "reduced c i (2 * 2 ^ b) A'" and "stage_inv (iprime c i) b a (tw c t) k A'"
proof -
  note v = ct_thread_values [OF assms(1,2,3)]
  show "reduced c i (2 * 2 ^ b) A'" unfolding A' by (rule block_phase_reduced [OF assms(4,3,5)]) (rule v(3))
  have len: "length A = 2 * 2 ^ b" and less: "unat (A ! block_lo k s) < dprime c i" "unat (A ! block_hi k s) < dprime c i"
    if "s < 2 ^ b" for s
    using assms(5) block_bounds [OF that assms(3)] by (auto simp: reduced_def)
  have len: "length A = 2 * 2 ^ b" using assms(5) by (simp add: reduced_def)
  show "stage_inv (iprime c i) b a (tw c t) k A'"
    by (rule stage_step [OF twiddles_tw [OF assms(1,2)] assms(6,3)])
      (simp_all add: A' block_phase_values [OF assms(4,3) len] v less)
qed

lemma half_power: "drop_bit 1 ((2::int) ^ Suc k) = 2 ^ k" "drop_bit 1 ((2::int) ^ 0) = 0"
  by (simp_all add: drop_bit_eq_div)

lemma ntt_loop_correct:
  assumes "psi_ok c i t" and "b < hc_logN c" and "sched_ok b sched" and "k \<le> b"
    and "reduced c i (2 * 2 ^ b) A" and "stage_inv (iprime c i) b a (tw c t) k A"
    and "A' = ntt_loop c i t sched (drop_bit 1 (2 ^ k)) (psi_mask b k OR drop_bit 1 (psi_mask b k)) (int k - 1) A"
  shows "reduced c i (2 * 2 ^ b) A' \<and> stage_inv (iprime c i) b a (tw c t) 0 A'"
  using assms(4-7)
proof (induction k arbitrary: A)
  case 0
  then show ?case by (simp add: ntt_loop.simps [of _ _ _ _ 0])
next
  case (Suc k)
  let ?A = "ntt_phase c i t (2 ^ k) (psi_mask b k) (int k) (sched (2 ^ k)) A"
  have k: "k \<le> b" using Suc.prems(1) by simp
  have ts: "all_threads (2 ^ b) (sched (2 ^ k))" using assms(3) by (simp add: sched_ok_def)
  note st = stage_ntt_phase [OF assms(1,2) k ts Suc.prems(2,3) ntt_phase_block [OF ts k]]
  have "A' = ntt_loop c i t sched (drop_bit 1 (2 ^ k)) (psi_mask b k OR drop_bit 1 (psi_mask b k)) (int k - 1) ?A"
    unfolding Suc.prems(4) half_power psi_mask_step [OF Suc.prems(1)] by (subst ntt_loop.simps) simp
  from Suc.IH [OF k st this] show ?case .
qed

lemma plain_phase_block:
  assumes "all_threads (2 ^ b) ts"
  shows "plain_phase c i (2 ^ b) ts A = block_phase b (\<lambda>t x y. (dmodadd c i x y, dmodsub c i x y)) ts A"
  unfolding plain_phase_def block_phase_def
proof (rule pair_fold_cong)
  fix t
  assume "t \<in> set ts"
  then have "t < 2 ^ b" using assms by (simp add: all_threads_def)
  then show "t = block_lo b t \<and> t + 2 ^ b = block_hi b t
    \<and> (\<lambda>x y. (dmodadd c i x y, dmodsub c i x y)) = (\<lambda>x y. (dmodadd c i x y, dmodsub c i x y))"
    by (simp add: block_lo_def block_hi_def)
qed

lemma plain_phase_correct:
  assumes "psi_ok c i t" and "b < hc_logN c" and "all_threads (2 ^ b) ts" and "reduced c i (2 * 2 ^ b) A"
    and "\<And>j. j < 2 * 2 ^ b \<Longrightarrow> uint (A ! j) = a j mod iprime c i" and A': "A' = plain_phase c i (2 ^ b) ts A"
  shows "reduced c i (2 * 2 ^ b) A' \<and> stage_inv (iprime c i) b a (tw c t) b A'"
proof
  have e: "prime_entry c i" using assms(1) by (simp add: psi_ok_def)
  note A' = A' [unfolded plain_phase_block [OF assms(3)]]
  show "reduced c i (2 * 2 ^ b) A'" unfolding A'
    by (rule block_phase_reduced [OF assms(3) le_refl assms(4)]) (simp add: dmodadd_less [OF e] dmodsub_less [OF e])
  have len: "length A = 2 * 2 ^ b" using assms(4) by (simp add: reduced_def)
  have less: "unat (A ! block_lo b s) < dprime c i" "unat (A ! block_hi b s) < dprime c i" if "s < 2 ^ b" for s
    using assms(4) block_bounds [OF that le_refl] by (auto simp: reduced_def)
  have T: "twiddles (iprime c i) b (tw c t)" by (rule twiddles_tw [OF assms(1,2)])
  then have "tw c t 0 = 1" by (simp add: twiddles_def)
  then show "stage_inv (iprime c i) b a (tw c t) b A'"
    by (intro stage_step [OF T _ le_refl, where A = A])
      (simp_all add: stage_inv_def peval_def assms(5) A' block_phase_values [OF assms(3) le_refl len]
        uint_dmodadd [OF e less] uint_dmodsub [OF e less])
qed

section \<open>The negacyclic scaling\<close>

text \<open>The root of unity of the transform of \<open>2 * 2^b\<close> coefficients.\<close>

definition sub_root :: "Constants \<Rightarrow> PsiTables \<Rightarrow> nat \<Rightarrow> int" where
  "sub_root c t b = uint (ps_root t) ^ 2 ^ (hc_logN c - Suc b)"

lemma tw_sub_root:
  assumes "b < hc_logN c" and "q < 2 ^ Suc b"
  shows "tw c t q = sub_root c t b ^ brev (Suc b) q"
  unfolding tw_def sub_root_def power_mult [symmetric] using brev_widen [OF assms(2), of "hc_logN c"] assms(1) by simp

lemma tw_scale:
  assumes "b < hc_logN c" and "s < 2 ^ b"
  shows "tw c t (brev b s) = sub_root c t b ^ (2 * s)" and "tw c t (2 ^ b) = sub_root c t b"
proof -
  have "brev b s < 2 ^ b" by (rule brev_less)
  then have "brev b s < 2 ^ Suc b" by simp
  moreover have "brev (Suc b) (brev b s) = 2 * s"
    using brev_Suc_small [OF \<open>brev b s < 2 ^ b\<close>] brev_brev [OF assms(2)] by simp
  ultimately show "tw c t (brev b s) = sub_root c t b ^ (2 * s)" by (simp add: tw_sub_root [OF assms(1)])
  have z: "brev w 0 = 0" for w by (induction w) (simp_all add: brev.simps(2))
  have "brev (Suc b) (2 ^ b) = 1" using brev_high [of 0 b 1] z by simp
  then show "tw c t (2 ^ b) = sub_root c t b" by (simp add: tw_sub_root [OF assms(1)])
qed

lemma ffs_power: "ffs (2 ^ n) = Suc n"
  by (induction n) (simp_all add: ffs.simps [of "Suc 0"] ffs.simps [of "2 * _"])

lemma clz_power: "b < 32 \<Longrightarrow> clz (2 ^ b) + 1 = 32 - b"
  unfolding clz_def bit_width_power by (simp add: nat_add_distrib)

lemma scale_thread_values:
  assumes "psi_ok c i t" and "b < hc_logN c" and "b < 32" and "s < 2 ^ b" and "unat x < dprime c i" and "unat y < dprime c i"
    and g: "g = scale_thread c i (ps_psi t) (ps_psi_shoup t) (ps_psi t ! (2 ^ b)) (2 ^ b) s x y"
  shows "uint (fst g) = uint x * sub_root c t b ^ (2 * s) mod iprime c i"
    and "uint (snd g) = uint y * sub_root c t b ^ (2 * s + 1) mod iprime c i"
    and "unat (fst g) < dprime c i \<and> unat (snd g) < dprime c i"
proof -
  have e: "prime_entry c i" using assms(1) by (simp add: psi_ok_def)
  have pos: "unat (drop_bit (clz (2 ^ b) + 1) (brev32 (of_nat s))) = brev b s"
    unfolding clz_power [OF assms(3)] using brev32_brev [OF assms(4)] assms(3) by simp
  have "brev b s < 2 ^ b" by (rule brev_less)
  also have "(2::nat) ^ b < 2 ^ hc_logN c" using assms(2) by simp
  finally have q: "brev b s < 2 ^ hc_logN c" "2 ^ b < (2::nat) ^ hc_logN c" using assms(2) by simp_all
  note p1 = psi_ok_nth [OF assms(1) q(1)] and p2 = psi_ok_nth [OF assms(1) q(2)]
  let ?m = "\<lambda>v. modmult_shoup c i v (ps_psi t ! brev b s) (ps_psi_shoup t ! brev b s)"
  have m: "uint (?m v) = uint v * sub_root c t b ^ (2 * s) mod iprime c i" "unat (?m v) < dprime c i" for v
    using uint_modmult_shoup [OF e p1(2,3), of v] modmult_shoup_less [OF e p1(2,3), of v] p1(1) tw_scale(1) [OF assms(2,4)]
    by (simp_all add: mod_mult_right_eq)
  have gv: "g = (?m x, modmult_barrett c i (?m y) (ps_psi t ! (2 ^ b)))"
    unfolding g scale_thread_def pos Let_def ..
  show "uint (fst g) = uint x * sub_root c t b ^ (2 * s) mod iprime c i" by (simp add: gv m)
  have "uint (snd g) = (uint y * sub_root c t b ^ (2 * s) mod iprime c i) * (sub_root c t b mod iprime c i) mod iprime c i"
    by (simp only: gv snd_conv uint_modmult_barrett [OF e m(2) p2(2)] m(1) p2(1) tw_scale(2) [OF assms(2,4)])
  then show "uint (snd g) = uint y * sub_root c t b ^ (2 * s + 1) mod iprime c i"
    by (simp add: mod_mult_eq ac_simps)
  show "unat (fst g) < dprime c i \<and> unat (snd g) < dprime c i"
    by (simp add: gv m modmult_barrett_less [OF e m(2) p2(2)])
qed

lemma block_zero: "block_lo 0 t = 2 * t" "block_hi 0 t = 2 * t + 1"
  by (simp_all add: block_lo_def block_hi_def)

lemma forward_scale_correct:
  assumes "psi_ok c i t" and "b < hc_logN c" and "b < 32" and "all_threads (2 ^ b) ts" and "reduced c i (2 * 2 ^ b) A"
    and A': "A' = forward_negacyclic_scale c i t (2 ^ b) (Suc b) ts A"
  shows "reduced c i (2 * 2 ^ b) A'"
    and "j < 2 * 2 ^ b \<Longrightarrow> uint (A' ! j) = uint (A ! j) * sub_root c t b ^ j mod iprime c i"
proof -
  let ?g = "scale_thread c i (ps_psi t) (ps_psi_shoup t) (ps_psi t ! (2 ^ b)) (2 ^ b)"
  have A': "A' = block_phase 0 ?g ts A"
    unfolding A' forward_negacyclic_scale_def block_phase_def by (rule pair_fold_cong) (simp add: block_zero)
  show "reduced c i (2 * 2 ^ b) A'" unfolding A'
    by (rule block_phase_reduced [OF assms(4) le0 assms(5)]) (rule scale_thread_values(3) [OF assms(1-3) _ _ _ refl])
  have len: "length A = 2 * 2 ^ b" and A: "\<And>j. j < 2 * 2 ^ b \<Longrightarrow> unat (A ! j) < dprime c i" using assms(5) by (auto simp: reduced_def)
  assume "j < 2 * 2 ^ b"
  then consider (lo) s where "s < 2 ^ b" "j = block_lo 0 s" | (hi) s where "s < 2 ^ b" "j = block_hi 0 s"
    using block_cover [of j b 0] by blast
  then show "uint (A' ! j) = uint (A ! j) * sub_root c t b ^ j mod iprime c i"
  proof cases
    case 1: lo
    show ?thesis unfolding A' 1(2) block_phase_values(1) [OF assms(4) le0 len 1(1)]
      by (subst scale_thread_values(1) [OF assms(1-3) 1(1) A A refl]) (use block_bounds(1,2) [OF 1(1) le0] in \<open>simp_all add: block_zero\<close>)
  next
    case 2: hi
    show ?thesis unfolding A' 2(2) block_phase_values(2) [OF assms(4) le0 len 2(1)]
      by (subst scale_thread_values(2) [OF assms(1-3) 2(1) A A refl]) (use block_bounds(1,2) [OF 2(1) le0] in \<open>simp_all add: block_zero\<close>)
  qed
qed

section \<open>The transform\<close>

definition odd_power_values :: "int \<Rightarrow> nat \<Rightarrow> int \<Rightarrow> (nat \<Rightarrow> int) \<Rightarrow> nat \<Rightarrow> int" where
  "odd_power_values p n w a i = (\<Sum>j<n. a j * w ^ ((2 * i + 1) * j)) mod p"

lemma ntt_core_stage:
  assumes "psi_ok c i t" and "b < hc_logN c" and "b < 31" and "sched_ok b sched" and "reduced c i (2 * 2 ^ b) dat"
  shows "NTT_1D c i t (2 ^ b) sched dat = Inr (ntt_core c i t (2 ^ b) sched dat)"
    and "reduced c i (2 * 2 ^ b) (ntt_core c i t (2 ^ b) sched dat)"
    and "stage_inv (iprime c i) b (\<lambda>j. uint (dat ! j) * sub_root c t b ^ j) (tw c t) 0 (ntt_core c i t (2 ^ b) sched dat)"
proof -
  have ts: "all_threads (2 ^ b) (sched m)" for m using assms(4) by (simp add: sched_ok_def)
  have b: "b < 32" using assms(3) by simp
  have n: "ffs (2 * 2 ^ b) = Suc (Suc b)" using ffs_power [of "Suc b"] by simp
  define A1 where "A1 = forward_negacyclic_scale c i t (2 ^ b) (Suc b) (sched 0) dat"
  note s1 = forward_scale_correct [OF assms(1,2) b ts assms(5) A1_def]
  define A2 where "A2 = plain_phase c i (2 ^ b) (sched (2 ^ b)) A1"
  note s2 = plain_phase_correct [OF assms(1,2) ts s1(1) s1(2) A2_def]
  define A3 where "A3 = ntt_loop c i t sched (drop_bit 1 (2 ^ b)) (psi_mask b b OR drop_bit 1 (psi_mask b b)) (int b - 1) A2"
  note s3 = ntt_loop_correct [OF assms(1,2,4) le_refl conjunct1 [OF s2] conjunct2 [OF s2] A3_def]
  have A3: "ntt_core c i t (2 ^ b) sched dat = A3"
    by (simp add: ntt_core_def n ffs_power A1_def [symmetric] A2_def [symmetric] A3_def psi_mask_initial Let_def)
  show "NTT_1D c i t (2 ^ b) sched dat = Inr (ntt_core c i t (2 ^ b) sched dat)" by (simp add: NTT_1D_def n)
  show "reduced c i (2 * 2 ^ b) (ntt_core c i t (2 ^ b) sched dat)"
    and "stage_inv (iprime c i) b (\<lambda>j. uint (dat ! j) * sub_root c t b ^ j) (tw c t) 0 (ntt_core c i t (2 ^ b) sched dat)"
    using s3 A3 by simp_all
qed

lemma ntt_core_values:
  assumes "psi_ok c i t" and "b < hc_logN c" and "b < 31" and "sched_ok b sched" and "reduced c i (2 * 2 ^ b) dat"
    and q: "q < 2 * 2 ^ b"
  shows "uint (ntt_core c i t (2 ^ b) sched dat ! q)
      = odd_power_values (iprime c i) (2 * 2 ^ b) (sub_root c t b) (\<lambda>j. uint (dat ! j)) (brev (Suc b) q)"
proof -
  let ?w = "sub_root c t b"
  have "uint (ntt_core c i t (2 ^ b) sched dat ! q)
      = peval (2 * 2 ^ b) (\<lambda>s. uint (dat ! s) * ?w ^ s) ((tw c t q)\<^sup>2) mod iprime c i"
    using ntt_core_stage(3) [OF assms(1-5)] q unfolding stage_inv_def by (auto dest!: spec [of _ q])
  also have "tw c t q = ?w ^ brev (Suc b) q" by (rule tw_sub_root [OF assms(2)]) (use q in simp)
  also have "peval (2 * 2 ^ b) (\<lambda>s. uint (dat ! s) * ?w ^ s) ((?w ^ brev (Suc b) q)\<^sup>2)
      = (\<Sum>j<2 * 2 ^ b. uint (dat ! j) * ?w ^ ((2 * brev (Suc b) q + 1) * j))"
    unfolding peval_def by (intro sum.cong refl) (simp add: power_add power_mult mult.commute mult.left_commute flip: power_mult)
  finally show ?thesis by (simp add: odd_power_values_def)
qed

lemma sub_root_minus_one:
  assumes "psi_ok c i t" and "b < hc_logN c"
  shows "sub_root c t b ^ (2 * 2 ^ b) mod iprime c i = -1 mod iprime c i"
proof -
  have "(2::nat) ^ (hc_logN c - Suc b) * (2 * 2 ^ b) = 2 ^ hc_logN c" using assms(2) by (simp flip: power_Suc power_add)
  then have "sub_root c t b ^ (2 * 2 ^ b) = uint (ps_root t) ^ 2 ^ hc_logN c" by (simp add: sub_root_def flip: power_mult)
  then show ?thesis using assms(1) by (simp add: psi_ok_def root_pair_def)
qed

text \<open>C6: The one-block transform returns, whatever the order of the threads between two barriers: with
  the twiddle tables of a prime of a ring of dimension \<open>N\<close>, a block of \<open>2^b\<close> threads turns
  \<open>2^(b+1)\<close> coefficients \<open>a_j\<close> below the prime into the values of their polynomial at the odd powers
  of a root \<open>w\<close>, in bit-reversed order: the result \<open>q\<close> is \<open>\<Sum>j. a_j w^((2 brev q + 1) j)\<close> modulo the
  prime, and \<open>w^(2^(b+1)) = -1\<close> there, so these are values modulo \<open>X^(2^(b+1)) + 1\<close>.
\<close>

theorem NTT_1D_correct:
  assumes "psi_ok c i t" and "b < hc_logN c" and "b < 31" and "sched_ok b sched" and "reduced c i (2 * 2 ^ b) dat"
  shows "\<exists>res. NTT_1D c i t (2 ^ b) sched dat = Inr res \<and> reduced c i (2 * 2 ^ b) res
    \<and> sub_root c t b ^ (2 * 2 ^ b) mod iprime c i = -1 mod iprime c i
    \<and> (\<forall>q < 2 * 2 ^ b. uint (res ! q)
        = odd_power_values (iprime c i) (2 * 2 ^ b) (sub_root c t b) (\<lambda>j. uint (dat ! j)) (brev (Suc b) q))"
  using ntt_core_stage(1,2) [OF assms] ntt_core_values [OF assms] sub_root_minus_one [OF assms(1,2)] by blast

theorem NTT_1D_correct_witness:
  "\<exists>t res. setup_psi demo_constants 0 2 = Inr t
    \<and> NTT_1D demo_constants 0 t 2 (\<lambda>m. [1, 0]) [3, 1, 4, 15] = Inr res \<and> reduced demo_constants 0 4 res"
proof -
  obtain t where t: "setup_psi demo_constants 0 2 = Inr t" using demo_setup_psi by blast
  have ok: "psi_ok demo_constants 0 t" by (rule demo_psi_ok [OF t])
  have s: "sched_ok 1 (\<lambda>m. [1, 0])" by (auto simp: sched_ok_def all_threads_def)
  have d: "reduced demo_constants 0 (2 * 2 ^ 1) [3, 1, 4, 15]"
    by (simp add: reduced_code)
  from NTT_1D_correct [OF ok _ _ s d] t show ?thesis by auto
qed

end
