(* ===== verification/Intt1D.thy ===== *)
theory Intt1D
  imports Ntt1D
begin

text \<open>
  The inverse transform of \<open>src/src/INTT_1D.cu\<close>: the Gentleman-Sande stages, the last stage without
  twiddle factors and the negacyclic scaling, which folds in the inverse of the dimension. It is the
  two-sided inverse of the forward transform, and a pointwise product between the two is the
  product of polynomials modulo \<open>X^n + 1\<close>.
\<close>

unbundle bit_operations_syntax

section \<open>The kernel\<close>

definition GS_butterfly :: "Constants \<Rightarrow> nat \<Rightarrow> u64 \<Rightarrow> u64 \<Rightarrow> u64 \<Rightarrow> u64 \<Rightarrow> u64 \<times> u64" where
  "GS_butterfly c i psi shoup_psi a b =
     (let b' = dmodsub c i a b in (dmodadd c i a b, modmult_shoup c i b' psi shoup_psi))"

definition backward_negacyclic_scale :: "Constants \<Rightarrow> nat \<Rightarrow> PsiTables \<Rightarrow> nat \<Rightarrow> nat \<Rightarrow> nat list \<Rightarrow> u64 list \<Rightarrow> u64 list" where
  "backward_negacyclic_scale c i t B logn ts A =
     fold (pair_step (\<lambda>t. 2 * t) (\<lambda>t. 2 * t + 1) (\<lambda>tid a b.
       let pos1 = unat (drop_bit (clz B + 1) (brev32 (of_nat tid)));
           aux = ps_inv_psi t ! pos1;
           rt = ps_inv_psi t ! (2 ^ (logn - 1)); root_shoup = ps_inv_psi_shoup t ! (2 ^ (logn - 1));
           aux = modmult_barrett c i aux (push_bit (hc_logN c - logn) 1);
           aux = modmult_shoup c i aux (hc_N_inv c ! i) (hc_N_inv_shoup c ! i);
           aux2 = modmult_shoup c i aux rt root_shoup
       in (modmult_barrett c i a aux, modmult_barrett c i b aux2))) ts A"

definition inv_lo_index :: "int \<Rightarrow> int \<Rightarrow> int" where
  "inv_lo_index m tid = (let mask = m - 1 in (mask AND tid) OR (push_bit 1 (NOT mask) AND push_bit 1 tid))"

definition intt_phase :: "Constants \<Rightarrow> nat \<Rightarrow> PsiTables \<Rightarrow> int \<Rightarrow> int \<Rightarrow> int \<Rightarrow> nat list \<Rightarrow> u64 list \<Rightarrow> u64 list" where
  "intt_phase c i t m maskPsi log_psi ts A =
     fold (pair_step (\<lambda>t. nat (inv_lo_index m (int t))) (\<lambda>t. nat (inv_lo_index m (int t) OR m))
        (\<lambda>tid a b. let psiid = nat (psi_index maskPsi log_psi (int tid))
                   in GS_butterfly c i (ps_inv_psi t ! psiid) (ps_inv_psi_shoup t ! psiid) a b)) ts A"

text \<open>The loop over the stages returns the array and the \<open>m\<close> it ends with.\<close>

function intt_loop :: "Constants \<Rightarrow> nat \<Rightarrow> PsiTables \<Rightarrow> int \<Rightarrow> (int \<Rightarrow> nat list) \<Rightarrow> int \<Rightarrow> int \<Rightarrow> int \<Rightarrow> u64 list \<Rightarrow> u64 list \<times> int" where
  "intt_loop c i t B sched m maskPsi log_psi A =
     (if 0 < m \<and> m < B
      then intt_loop c i t B sched (push_bit 1 m) (maskPsi AND push_bit 1 maskPsi) (log_psi + 1)
             (intt_phase c i t m maskPsi log_psi (sched m) A)
      else (A, m))"
  by pat_completeness auto
termination
  by (relation "measure (\<lambda>(c, i, t, B, sched, m, maskPsi, log_psi, A). nat (B - m))") (auto simp: push_bit_eq_mult)

declare intt_loop.simps [simp del]

definition intt_core :: "Constants \<Rightarrow> nat \<Rightarrow> PsiTables \<Rightarrow> nat \<Rightarrow> (int \<Rightarrow> nat list) \<Rightarrow> u64 list \<Rightarrow> u64 list" where
  "intt_core c i t B sched A =
     (let logN = ffs (2 * B) - 1;
          (A, m) = intt_loop c i t (int B) sched 1 (int B - 1) 0 A;
          A = plain_phase c i (nat m) (sched m) A
      in backward_negacyclic_scale c i t B logN (sched 0) A)"

definition INTT_1D :: "Constants \<Rightarrow> nat \<Rightarrow> PsiTables \<Rightarrow> nat \<Rightarrow> (int \<Rightarrow> nat list) \<Rightarrow> u64 list \<Rightarrow> cpp_error + u64 list" where
  "INTT_1D c i t B sched dat =
     (if 2 ^ (ffs (2 * B) - 1) \<noteq> 2 * B then Inl Assert_failed else Inr (intt_core c i t B sched dat))"

section \<open>Indices\<close>

lemma inv_lo_index_block: "inv_lo_index (2 ^ k) (int t) = int (block_lo k t)"
proof -
  have "push_bit 1 (NOT (2 ^ k - 1)) AND push_bit 1 (int t) = push_bit 1 (NOT (2 ^ k - 1 :: int) AND int t)"
    by (rule push_bit_and [symmetric])
  then show ?thesis using lo_index_block [of k t] by (simp only: inv_lo_index_def lo_index_def Let_def)
qed

lemma block_lo_or: "int (block_lo k t) OR 2 ^ k = int (block_hi k t)"
proof -
  have "\<not> bit (int (block_lo k t)) k"
  proof -
    have "block_lo k t = t mod 2 ^ k + 2 * (t div 2 ^ k) * 2 ^ k" by (simp add: block_lo_def)
    also have "\<dots> div 2 ^ k = 2 * (t div 2 ^ k)" by (subst div_mult_self1) simp_all
    finally have "\<not> bit (block_lo k t) k" by (simp add: bit_iff_odd)
    then show ?thesis by (simp only: bit_of_nat_iff_bit not_False_eq_True)
  qed
  then have "int (block_lo k t) AND 2 ^ k = 0" by (simp add: and_exp_eq_0_iff_not_bit)
  then have "int (block_lo k t) OR 2 ^ k = int (block_lo k t) + 2 ^ k" by (simp add: disjunctive_add_eq_or)
  then show ?thesis by (simp add: block_hi_def)
qed

text \<open>The mask of a stage: the bits \<open>k..b-1\<close>.\<close>

definition inv_mask :: "nat \<Rightarrow> nat \<Rightarrow> int" where
  "inv_mask b k = push_bit k (mask (b - k))"

lemma bit_inv_mask: "bit (inv_mask b k) j \<longleftrightarrow> k \<le> j \<and> j < b"
  by (auto simp: inv_mask_def bit_simps)

lemma inv_mask_initial: "inv_mask b 0 = 2 ^ b - 1"
  by (simp add: inv_mask_def mask_eq_exp_minus_1)

lemma inv_mask_step: "inv_mask b k AND push_bit 1 (inv_mask b k) = inv_mask b (Suc k)"
proof (rule bit_eqI)
  fix n
  have "bit (push_bit 1 (inv_mask b k)) n \<longleftrightarrow> 1 \<le> n \<and> bit (inv_mask b k) (n - 1)" by (rule bit_push_bit_iff')
  then show "bit (inv_mask b k AND push_bit 1 (inv_mask b k)) n \<longleftrightarrow> bit (inv_mask b (Suc k)) n"
    unfolding bit_and_iff bit_inv_mask by auto
qed

lemma inv_psi_index_block: "t < 2 ^ b \<Longrightarrow> psi_index (inv_mask b k) (int k) (int t) = int (t div 2 ^ k)"
proof -
  assume t: "t < 2 ^ b"
  have "inv_mask b k AND int t = psi_mask b k AND int t"
  proof (rule bit_eqI)
    fix n
    have "\<not> bit t n" if "b \<le> n"
      using t less_le_trans [OF t power_increasing [OF that, of 2]] by (simp add: bit_iff_odd)
    then show "bit (inv_mask b k AND int t) n \<longleftrightarrow> bit (psi_mask b k AND int t) n"
      by (cases "b \<le> n") (auto simp: bit_and_iff bit_inv_mask bit_psi_mask bit_of_nat_iff_bit)
  qed
  then show ?thesis using psi_index_block [OF t, of k] by (simp add: psi_index_def and.commute)
qed


lemma intt_phase_block:
  assumes "all_threads (2 ^ b) ts"
  shows "intt_phase c i t (2 ^ k) (inv_mask b k) (int k) ts A
    = block_phase k (\<lambda>tid. GS_butterfly c i (ps_inv_psi t ! (tid div 2 ^ k)) (ps_inv_psi_shoup t ! (tid div 2 ^ k))) ts A"
  unfolding intt_phase_def block_phase_def
proof (rule pair_fold_cong)
  fix tid
  assume "tid \<in> set ts"
  then have "tid < 2 ^ b" using assms(1) by (simp add: all_threads_def)
  then have p: "nat (psi_index (inv_mask b k) (int k) (int tid)) = tid div 2 ^ k" by (simp add: inv_psi_index_block)
  have i: "nat (inv_lo_index (2 ^ k) (int tid)) = block_lo k tid" "nat (inv_lo_index (2 ^ k) (int tid) OR 2 ^ k) = block_hi k tid"
    by (simp_all only: inv_lo_index_block block_lo_or nat_int)
  show "nat (inv_lo_index (2 ^ k) (int tid)) = block_lo k tid \<and> nat (inv_lo_index (2 ^ k) (int tid) OR 2 ^ k) = block_hi k tid
    \<and> (\<lambda>x y. let psiid = nat (psi_index (inv_mask b k) (int k) (int tid))
              in GS_butterfly c i (ps_inv_psi t ! psiid) (ps_inv_psi_shoup t ! psiid) x y)
      = GS_butterfly c i (ps_inv_psi t ! (tid div 2 ^ k)) (ps_inv_psi_shoup t ! (tid div 2 ^ k))"
    by (simp add: fun_eq_iff i p Let_def)
qed

section \<open>A stage undone\<close>

text \<open>The inverse twiddle factors and their products with those of the forward transform.\<close>

definition itw :: "Constants \<Rightarrow> PsiTables \<Rightarrow> nat \<Rightarrow> int" where
  "itw c t q = uint (ps_inv_root t) ^ brev (hc_logN c) q"

lemma inv_psi_ok_nth:
  assumes "psi_ok c i t" and "q < 2 ^ hc_logN c"
  shows "uint (ps_inv_psi t ! q) = itw c t q mod iprime c i" and "unat (ps_inv_psi t ! q) < dprime c i"
    and "ps_inv_psi_shoup t ! q = shoup_precomp (ps_inv_psi t ! q) (hc_primes c ! i)"
proof -
  show e: "uint (ps_inv_psi t ! q) = itw c t q mod iprime c i"
    and "ps_inv_psi_shoup t ! q = shoup_precomp (ps_inv_psi t ! q) (hc_primes c ! i)"
    using assms by (simp_all add: psi_ok_def psi_table_def itw_def)
  have "0 < iprime c i" using uint_gt1 [OF prime_entry_bounds(1)] assms(1) by (force simp: psi_ok_def)
  then show "unat (ps_inv_psi t ! q) < dprime c i" using e by (simp flip: uint_less_iff)
qed

lemma inverse_powers:
  assumes "psi_ok c i t"
  shows "uint (ps_root t) ^ n * uint (ps_inv_root t) ^ n mod iprime c i = 1"
proof -
  have p: "1 < iprime c i" using uint_gt1 [OF prime_entry_bounds(1)] assms by (force simp: psi_ok_def)
  have "uint (ps_root t) * uint (ps_inv_root t) mod iprime c i = 1 mod iprime c i"
    using assms by (simp add: psi_ok_def root_pair_def)
  then have "(uint (ps_root t) * uint (ps_inv_root t)) ^ n mod iprime c i = 1 ^ n mod iprime c i" by (metis power_mod)
  then show ?thesis using p by (simp add: power_mult_distrib)
qed

definition twice :: "(nat \<Rightarrow> int) \<Rightarrow> nat \<Rightarrow> int" where
  "twice a j = 2 * a j"

lemma peval_twice: "peval n (\<lambda>s. twice a (f s)) x = 2 * peval n (\<lambda>s. a (f s)) x"
  by (simp add: peval_def twice_def sum_distrib_left mult.assoc)

lemma mod_sum_back: "((e + u) mod p + (e - u) mod p) mod p = 2 * e mod p" for e u p :: int
  by (simp add: mod_add_eq)

lemma mod_diff_back:
  fixes g g' p :: int
  assumes "g * g' mod p = 1 mod p"
  shows "((e + g * y) mod p - (e - g * y) mod p) * g' mod p = 2 * y mod p"
proof -
  have "((e + g * y) mod p - (e - g * y) mod p) mod p = ((e + g * y) - (e - g * y)) mod p" by (rule mod_diff_eq)
  then have "((e + g * y) mod p - (e - g * y) mod p) * g' mod p = ((e + g * y) - (e - g * y)) * g' mod p"
    by (rule mod_mult_cong) simp
  also have "((e + g * y) - (e - g * y)) * g' = 2 * y * (g * g')" by (simp add: algebra_simps)
  also have "\<dots> mod p = 2 * y * 1 mod p" using assms by (intro mod_mult_cong refl)
  finally show ?thesis by simp
qed

lemma unstage_step:
  assumes tw: "twiddles p b G" and inv: "stage_inv p b a G k A" and k: "k \<le> b"
    and G': "\<And>q. q < 2 ^ b \<Longrightarrow> G q * G' q mod p = 1 mod p"
    and lo: "\<And>t. t < 2 ^ b \<Longrightarrow> uint (A' ! block_lo k t) = (uint (A ! block_lo k t) + uint (A ! block_hi k t)) mod p"
    and hi: "\<And>t. t < 2 ^ b \<Longrightarrow> uint (A' ! block_hi k t) = (uint (A ! block_lo k t) - uint (A ! block_hi k t)) * G' (t div 2 ^ k) mod p"
  shows "stage_inv p b (twice a) G (Suc k) A'"
  unfolding stage_inv_def
proof (intro allI impI)
  fix q r :: nat
  assume q: "q < 2 ^ (Suc b - Suc k)" and r: "r < 2 ^ Suc k"
  define S :: nat where "S = 2 ^ (b - k)"
  have S: "(2::nat) ^ (Suc b - k) = 2 * S" "(2::nat) ^ (Suc b - Suc k) = S" using k by (simp_all add: S_def Suc_diff_le)
  define r' where "r' = (if r < 2 ^ k then r else r - 2 ^ k)"
  have r': "r' < 2 ^ k" using r by (auto simp: r'_def)
  define t where "t = q * 2 ^ k + r'"
  have td: "t div 2 ^ k = q" "t mod 2 ^ k = r'" using r' by (simp_all add: t_def)
  have "Suc q * 2 ^ k \<le> S * 2 ^ k" using q S by (intro mult_right_mono) simp_all
  also have "\<dots> = 2 ^ b" using k by (simp add: S_def flip: power_add)
  finally have tb: "t < 2 ^ b" using r' by (simp add: t_def)
  have "S \<le> 2 ^ b" unfolding S_def by (intro power_increasing) simp_all
  then have qb: "q < 2 ^ b" using q S by linarith
  let ?E = "peval S (\<lambda>s. a (r' + 2 * s * 2 ^ k)) ((G q)\<^sup>2)" and ?O = "peval S (\<lambda>s. a (r' + Suc (2 * s) * 2 ^ k)) ((G q)\<^sup>2)"
  have P: "peval (2 * S) (\<lambda>s. a (r' + s * 2 ^ k)) (G q) = ?E + G q * ?O"
    "peval (2 * S) (\<lambda>s. a (r' + s * 2 ^ k)) (- G q) = ?E - G q * ?O"
    by (simp_all add: peval_split)
  have lt: "2 * q < 2 ^ (Suc b - k)" "Suc (2 * q) < 2 ^ (Suc b - k)" using q S by simp_all
  have e: "block_lo k t = 2 * q * 2 ^ k + r'" "block_hi k t = Suc (2 * q) * 2 ^ k + r'"
    by (simp_all add: block_lo_def block_hi_def td)
  have A: "uint (A ! block_lo k t) = (?E + G q * ?O) mod p" "uint (A ! block_hi k t) = (?E - G q * ?O) mod p"
  proof -
    have "(G (2 * q))\<^sup>2 mod p = G q mod p" "(G (Suc (2 * q)))\<^sup>2 mod p = - G q mod p" using tw qb by (simp_all add: twiddles_def)
    note G2 = this [THEN peval_mod_cong]
    note v = inv [unfolded stage_inv_def, rule_format, OF lt(1) r'] inv [unfolded stage_inv_def, rule_format, OF lt(2) r']
    show "uint (A ! block_lo k t) = (?E + G q * ?O) mod p"
      using v(1) G2(1) unfolding e P [symmetric] S(1) by (rule trans)
    show "uint (A ! block_hi k t) = (?E - G q * ?O) mod p"
      using v(2) G2(2) unfolding e P [symmetric] S(1) by (rule trans)
  qed
  have "uint (A' ! block_lo k t) = ((?E + G q * ?O) mod p + (?E - G q * ?O) mod p) mod p" by (simp only: lo [OF tb] A)
  then have L: "uint (A' ! block_lo k t) = 2 * ?E mod p" by (simp only: mod_sum_back)
  have "uint (A' ! block_hi k t) = ((?E + G q * ?O) mod p - (?E - G q * ?O) mod p) * G' q mod p" by (simp only: hi [OF tb] A td)
  then have H: "uint (A' ! block_hi k t) = 2 * ?O mod p" by (simp only: mod_diff_back [OF G' [OF qb]])
  show "uint (A' ! (q * 2 ^ Suc k + r)) = peval (2 ^ (Suc b - Suc k)) (\<lambda>s. twice a (r + s * 2 ^ Suc k)) ((G q)\<^sup>2) mod p"
  proof (cases "r < 2 ^ k")
    case True
    then have "q * 2 ^ Suc k + r = block_lo k t" and "r' = r" by (simp_all add: e r'_def)
    then show ?thesis using L unfolding peval_twice S by (simp add: mult.assoc mult.left_commute)
  next
    case False
    then have "q * 2 ^ Suc k + r = block_hi k t" and r2: "r = r' + 2 ^ k" by (simp_all add: e r'_def)
    moreover have "r + s * 2 ^ Suc k = r' + Suc (2 * s) * 2 ^ k" for s by (simp add: r2)
    ultimately show ?thesis using H unfolding peval_twice S by (simp only:)
  qed
qed


lemma stage_intt_phase:
  assumes ok: "psi_ok c i t" and b: "b < hc_logN c" and k: "k \<le> b" and ts: "all_threads (2 ^ b) ts"
    and red: "reduced c i (2 * 2 ^ b) A" and inv: "stage_inv (iprime c i) b a (tw c t) k A"
    and A': "A' = block_phase k g ts A"
    and g: "\<And>tid x y. tid < 2 ^ b \<Longrightarrow> unat x < dprime c i \<Longrightarrow> unat y < dprime c i \<Longrightarrow>
      uint (fst (g tid x y)) = (uint x + uint y) mod iprime c i
      \<and> uint (snd (g tid x y)) = (uint x - uint y) * itw c t (tid div 2 ^ k) mod iprime c i
      \<and> unat (fst (g tid x y)) < dprime c i \<and> unat (snd (g tid x y)) < dprime c i"
  shows "reduced c i (2 * 2 ^ b) A' \<and> stage_inv (iprime c i) b (twice a) (tw c t) (Suc k) A'"
proof
  show "reduced c i (2 * 2 ^ b) A'" unfolding A' by (rule block_phase_reduced [OF ts k red]) (use g in blast)
  have len: "length A = 2 * 2 ^ b" using red by (simp add: reduced_def)
  have less: "unat (A ! block_lo k s) < dprime c i" "unat (A ! block_hi k s) < dprime c i" if "s < 2 ^ b" for s
    using red block_bounds [OF that k] by (auto simp: reduced_def)
  have p: "1 < iprime c i" using uint_gt1 [OF prime_entry_bounds(1)] ok by (force simp: psi_ok_def)
  have one: "tw c t q * itw c t q mod iprime c i = 1 mod iprime c i" for q
    unfolding tw_def itw_def inverse_powers [OF ok] using p by simp
  show "stage_inv (iprime c i) b (twice a) (tw c t) (Suc k) A'"
    by (rule unstage_step [OF twiddles_tw [OF ok b] inv k one])
      (simp_all add: A' block_phase_values [OF ts k len] g less)
qed

lemma GS_values:
  assumes "psi_ok c i t" and "b < hc_logN c" and "k \<le> b" and "tid < 2 ^ b" and "unat x < dprime c i" and "unat y < dprime c i"
    and g: "g = GS_butterfly c i (ps_inv_psi t ! (tid div 2 ^ k)) (ps_inv_psi_shoup t ! (tid div 2 ^ k)) x y"
  shows "uint (fst g) = (uint x + uint y) mod iprime c i
    \<and> uint (snd g) = (uint x - uint y) * itw c t (tid div 2 ^ k) mod iprime c i
    \<and> unat (fst g) < dprime c i \<and> unat (snd g) < dprime c i"
proof -
  have e: "prime_entry c i" using assms(1) by (simp add: psi_ok_def)
  let ?q = "tid div 2 ^ k"
  have "?q < 2 ^ (b - k)" using block_bounds(3) [OF assms(4,3)] .
  also have "(2::nat) ^ (b - k) \<le> 2 ^ hc_logN c" using assms(2) by (intro power_increasing) simp_all
  finally have "?q < 2 ^ hc_logN c" .
  note psi = inv_psi_ok_nth [OF assms(1) this]
  have "(uint x - uint y) mod iprime c i * (itw c t ?q mod iprime c i) mod iprime c i
      = (uint x - uint y) * itw c t ?q mod iprime c i" by (rule mod_mult_eq)
  then show ?thesis
    by (simp only: g GS_butterfly_def Let_def fst_conv snd_conv uint_dmodadd [OF e assms(5,6)] dmodadd_less [OF e assms(5,6)]
      uint_modmult_shoup [OF e psi(2,3)] modmult_shoup_less [OF e psi(2,3)] uint_dmodsub [OF e assms(5,6)] psi(1) simp_thms)
qed

lemma intt_loop_correct:
  assumes "psi_ok c i t" and "b < hc_logN c" and "sched_ok b sched" and "k + n = b"
    and "reduced c i (2 * 2 ^ b) A" and "stage_inv (iprime c i) b a (tw c t) k A"
  shows "\<exists>A'. intt_loop c i t (2 ^ b) sched (2 ^ k) (inv_mask b k) (int k) A = (A', 2 ^ b)
    \<and> reduced c i (2 * 2 ^ b) A' \<and> stage_inv (iprime c i) b ((twice ^^ n) a) (tw c t) b A'"
  using assms(4-6)
proof (induction n arbitrary: k a A)
  case 0
  then show ?case by (simp add: intt_loop.simps [of _ _ _ "2 ^ b" _ "2 ^ b"])
next
  case (Suc n)
  let ?A = "intt_phase c i t (2 ^ k) (inv_mask b k) (int k) (sched (2 ^ k)) A"
  have k: "k \<le> b" "Suc k + n = b" "k < b" using Suc.prems(1) by simp_all
  have ts: "all_threads (2 ^ b) (sched (2 ^ k))" using assms(3) by (simp add: sched_ok_def)
  note st = stage_intt_phase [OF assms(1,2) k(1) ts Suc.prems(2,3) intt_phase_block [OF ts]
      GS_values [OF assms(1,2) k(1) _ _ _ refl]]
  have "intt_loop c i t (2 ^ b) sched (2 ^ k) (inv_mask b k) (int k) A
      = intt_loop c i t (2 ^ b) sched (push_bit 1 (2 ^ k)) (inv_mask b k AND push_bit 1 (inv_mask b k)) (int k + 1) ?A"
    using k(3) by (subst intt_loop.simps) simp
  also have "\<dots> = intt_loop c i t (2 ^ b) sched (2 ^ Suc k) (inv_mask b (Suc k)) (int (Suc k)) ?A"
    unfolding inv_mask_step by (simp add: push_bit_eq_mult ac_simps)
  finally show ?case using Suc.IH [OF k(2) conjunct1 [OF st] conjunct2 [OF st]] by (simp add: funpow_swap1)
qed

lemma twice_power: "(twice ^^ n) a j = 2 ^ n * a j"
  by (induction n) (simp_all add: twice_def)

lemma plain_phase_undo:
  assumes "psi_ok c i t" and "b < hc_logN c" and "all_threads (2 ^ b) ts" and "reduced c i (2 * 2 ^ b) A"
    and "stage_inv (iprime c i) b a (tw c t) b A" and A': "A' = plain_phase c i (2 ^ b) ts A"
  shows "reduced c i (2 * 2 ^ b) A'" and "j < 2 * 2 ^ b \<Longrightarrow> uint (A' ! j) = 2 * a j mod iprime c i"
proof -
  have e: "prime_entry c i" using assms(1) by (simp add: psi_ok_def)
  have z: "brev w 0 = 0" for w by (induction w) (simp_all add: brev.simps(2))
  have st: "reduced c i (2 * 2 ^ b) A' \<and> stage_inv (iprime c i) b (twice a) (tw c t) (Suc b) A'"
    unfolding A' plain_phase_block [OF assms(3)]
    by (rule stage_intt_phase [OF assms(1,2) le_refl assms(3-5) refl])
      (simp add: uint_dmodadd [OF e] uint_dmodsub [OF e] dmodadd_less [OF e] dmodsub_less [OF e] itw_def z)
  show "reduced c i (2 * 2 ^ b) A'" using st by simp
  assume "j < 2 * 2 ^ b"
  then show "uint (A' ! j) = 2 * a j mod iprime c i"
    using conjunct2 [OF st] by (simp add: stage_inv_def peval_def twice_def)
qed


section \<open>The scaling\<close>

definition inv_sub_root :: "Constants \<Rightarrow> PsiTables \<Rightarrow> nat \<Rightarrow> int" where
  "inv_sub_root c t b = uint (ps_inv_root t) ^ 2 ^ (hc_logN c - Suc b)"

lemma itw_scale:
  assumes "b < hc_logN c" and "s < 2 ^ b"
  shows "itw c t (brev b s) = inv_sub_root c t b ^ (2 * s)" and "itw c t (2 ^ b) = inv_sub_root c t b"
  using tw_scale [OF assms, of "t\<lparr>ps_root := ps_inv_root t\<rparr>"] by (simp_all add: tw_def itw_def sub_root_def inv_sub_root_def)

lemma N_inv_scale:
  assumes "psi_ok c i t" and "b < hc_logN c" and "hc_logN c < 32"
  shows "2 * 2 ^ b * 2 ^ (hc_logN c - Suc b) * uint (hc_N_inv c ! i) mod iprime c i = 1"
proof -
  have e: "prime_entry c i" and N: "hc_N c = 2 ^ hc_logN c" using assms(1) by (simp_all add: psi_ok_def)
  have "(2::nat) ^ hc_logN c < 2 ^ 64" using assms(3) by (intro power_strict_increasing) simp_all
  then have "2 ^ hc_logN c * unat (hc_N_inv c ! i) mod dprime c i = 1"
    using e N by (simp add: prime_entry_def Let_def)
  then have "int (2 ^ hc_logN c * unat (hc_N_inv c ! i) mod dprime c i) = 1" by (simp only: of_nat_1)
  then have "2 ^ hc_logN c * uint (hc_N_inv c ! i) mod iprime c i = 1"
    by (simp only: zmod_int of_nat_mult of_nat_power of_nat_numeral uint_nat)
  moreover have "(2::int) ^ Suc b * 2 ^ (hc_logN c - Suc b) = 2 ^ hc_logN c"
    unfolding power_add [symmetric] using assms(2) by simp
  ultimately show ?thesis unfolding power_Suc by (simp only:)
qed

lemma mod_mult_lift:
  fixes x y p :: int
  shows "x = x' mod p \<Longrightarrow> y = y' mod p \<Longrightarrow> x * y mod p = x' * y' mod p"
  by (simp only: mod_mult_eq)

lemma backward_scale_correct:
  assumes ok: "psi_ok c i t" and b: "b < hc_logN c" and L: "hc_logN c < 32" and fits: "2 ^ (hc_logN c - Suc b) < dprime c i"
    and ts: "all_threads (2 ^ b) ts" and red: "reduced c i (2 * 2 ^ b) A"
    and A': "A' = backward_negacyclic_scale c i t (2 ^ b) (Suc b) ts A"
  shows "reduced c i (2 * 2 ^ b) A'"
    and "j < 2 * 2 ^ b \<Longrightarrow> uint (A' ! j)
      = uint (A ! j) * (inv_sub_root c t b ^ j * 2 ^ (hc_logN c - Suc b) * uint (hc_N_inv c ! i)) mod iprime c i"
proof -
  let ?p = "iprime c i" and ?v = "inv_sub_root c t b" and ?s = "2 ^ (hc_logN c - Suc b) :: int" and ?n = "uint (hc_N_inv c ! i)"
  have e: "prime_entry c i" using ok by (simp add: psi_ok_def)
  have ninv: "unat (hc_N_inv c ! i) < dprime c i" "hc_N_inv_shoup c ! i = shoup_precomp (hc_N_inv c ! i) (hc_primes c ! i)"
    using e by (simp_all add: prime_entry_def Let_def)
  define sh where "sh = (push_bit (hc_logN c - Suc b) 1 :: u64)"
  have "unat sh = take_bit LENGTH(64) (push_bit (hc_logN c - Suc b) (unat (1::u64)))"
    unfolding sh_def by (rule unsigned_push_bit_eq)
  also have "\<dots> = take_bit LENGTH(64) (2 ^ (hc_logN c - Suc b))" by (simp only: unsigned_1 push_bit_of_1)
  also have "\<dots> = 2 ^ (hc_logN c - Suc b)"
    by (rule take_bit_nat_eq_self) (intro power_strict_increasing; use L in simp)
  finally have "unat sh = 2 ^ (hc_logN c - Suc b)" .
  then have sh: "unat sh < dprime c i" "uint sh = ?s" using fits by (simp_all only: uint_nat) simp_all
  have p: "1 < ?p" using uint_gt1 [OF prime_entry_bounds(1) [OF e]] .
  define m2 where "m2 tid = modmult_shoup c i (modmult_barrett c i (ps_inv_psi t ! brev b tid) sh)
      (hc_N_inv c ! i) (hc_N_inv_shoup c ! i)" for tid
  define m3 where "m3 tid = modmult_shoup c i (m2 tid) (ps_inv_psi t ! (2 ^ b)) (ps_inv_psi_shoup t ! (2 ^ b))" for tid
  have m: "uint (m2 s) = ?v ^ (2 * s) * ?s * ?n mod ?p" "unat (m2 s) < dprime c i"
    "uint (m3 s) = ?v ^ (2 * s + 1) * ?s * ?n mod ?p" "unat (m3 s) < dprime c i" if s: "s < 2 ^ b" for s
  proof -
    have "brev b s < 2 ^ b" by (rule brev_less)
    also have "(2::nat) ^ b < 2 ^ hc_logN c" using b by simp
    finally have q: "brev b s < 2 ^ hc_logN c" "2 ^ b < (2::nat) ^ hc_logN c" using b by simp_all
    note p1 = inv_psi_ok_nth [OF ok q(1)] and p2 = inv_psi_ok_nth [OF ok q(2)]
    have m1: "uint (modmult_barrett c i (ps_inv_psi t ! brev b s) sh) = ?v ^ (2 * s) * ?s mod ?p"
      unfolding uint_modmult_barrett [OF e p1(2) sh(1)] p1(1) sh(2) itw_scale(1) [OF b s] by (rule mod_mult_left_eq)
    show m2: "uint (m2 s) = ?v ^ (2 * s) * ?s * ?n mod ?p"
      unfolding m2_def uint_modmult_shoup [OF e ninv] m1 by (rule mod_mult_left_eq)
    show "unat (m2 s) < dprime c i" unfolding m2_def by (rule modmult_shoup_less [OF e ninv])
    have "uint (m3 s) = ?v ^ (2 * s) * ?s * ?n * ?v mod ?p"
      unfolding m3_def uint_modmult_shoup [OF e p2(2,3)] m2 p2(1) itw_scale(2) [OF b s] by (rule mod_mult_eq)
    then show "uint (m3 s) = ?v ^ (2 * s + 1) * ?s * ?n mod ?p" by (simp add: ac_simps)
    show "unat (m3 s) < dprime c i" unfolding m3_def by (rule modmult_shoup_less [OF e p2(2,3)])
  qed
  let ?g = "\<lambda>tid x y. (modmult_barrett c i x (m2 tid), modmult_barrett c i y (m3 tid))"
  have A': "A' = block_phase 0 ?g ts A"
    unfolding A' backward_negacyclic_scale_def block_phase_def
  proof (rule pair_fold_cong)
    fix tid
    assume "tid \<in> set ts"
    then have tid: "tid < 2 ^ b" using ts by (simp add: all_threads_def)
    have pos: "unat (drop_bit (clz (2 ^ b) + 1) (brev32 (of_nat tid))) = brev b tid"
      using brev32_brev [OF tid] b L by (simp only: clz_power)
    show "2 * tid = block_lo 0 tid \<and> 2 * tid + 1 = block_hi 0 tid \<and>
      (\<lambda>a b'. let pos1 = unat (drop_bit (clz (2 ^ b) + 1) (brev32 (of_nat tid))); aux = ps_inv_psi t ! pos1;
          rt = ps_inv_psi t ! (2 ^ (Suc b - 1)); root_shoup = ps_inv_psi_shoup t ! (2 ^ (Suc b - 1));
          aux = modmult_barrett c i aux (push_bit (hc_logN c - Suc b) 1);
          aux = modmult_shoup c i aux (hc_N_inv c ! i) (hc_N_inv_shoup c ! i);
          aux2 = modmult_shoup c i aux rt root_shoup
        in (modmult_barrett c i a aux, modmult_barrett c i b' aux2)) = ?g tid"
      unfolding pos by (simp add: block_zero Let_def m2_def m3_def sh_def fun_eq_iff)
  qed
  show "reduced c i (2 * 2 ^ b) A'" unfolding A'
    by (rule block_phase_reduced [OF ts le0 red]) (simp add: modmult_barrett_less [OF e] m)
  have len: "length A = 2 * 2 ^ b" and A: "\<And>j. j < 2 * 2 ^ b \<Longrightarrow> unat (A ! j) < dprime c i" using red by (auto simp: reduced_def)
  assume "j < 2 * 2 ^ b"
  then consider (lo) s where "s < 2 ^ b" "j = block_lo 0 s" | (hi) s where "s < 2 ^ b" "j = block_hi 0 s"
    using block_cover [of j b 0] by blast
  then show "uint (A' ! j) = uint (A ! j) * (?v ^ j * ?s * ?n) mod ?p"
  proof cases
    case 1: lo
    have "uint (A' ! j) = uint (A ! j) * (?v ^ (2 * s) * ?s * ?n mod ?p) mod ?p"
      unfolding A' 1(2) block_phase_values(1) [OF ts le0 len 1(1)] fst_conv
        uint_modmult_barrett [OF e A [OF block_bounds(1) [OF 1(1) le0]] m(2) [OF 1(1)]] m(1) [OF 1(1)] ..
    then show ?thesis using 1(2) by (simp only: mod_mult_right_eq block_zero)
  next
    case 2: hi
    have "uint (A' ! j) = uint (A ! j) * (?v ^ (2 * s + 1) * ?s * ?n mod ?p) mod ?p"
      unfolding A' 2(2) block_phase_values(2) [OF ts le0 len 2(1)] snd_conv
        uint_modmult_barrett [OF e A [OF block_bounds(2) [OF 2(1) le0]] m(4) [OF 2(1)]] m(3) [OF 2(1)] ..
    then show ?thesis using 2(2) by (simp only: mod_mult_right_eq block_zero)
  qed
qed

lemma intt_core_correct:
  assumes ok: "psi_ok c i t" and b: "b < hc_logN c" and L: "hc_logN c < 32" and fits: "2 ^ (hc_logN c - Suc b) < dprime c i"
    and sch: "sched_ok b sched" and red: "reduced c i (2 * 2 ^ b) A" and inv: "stage_inv (iprime c i) b a (tw c t) 0 A"
  shows "INTT_1D c i t (2 ^ b) sched A = Inr (intt_core c i t (2 ^ b) sched A)"
    and "reduced c i (2 * 2 ^ b) (intt_core c i t (2 ^ b) sched A)"
    and "j < 2 * 2 ^ b \<Longrightarrow> uint (intt_core c i t (2 ^ b) sched A ! j) = a j * inv_sub_root c t b ^ j mod iprime c i"
proof -
  let ?p = "iprime c i" and ?v = "inv_sub_root c t b" and ?s = "2 ^ (hc_logN c - Suc b) :: int" and ?n = "uint (hc_N_inv c ! i)"
  have ts: "all_threads (2 ^ b) (sched m)" for m using sch by (simp add: sched_ok_def)
  have n: "ffs (2 * 2 ^ b) = Suc (Suc b)" using ffs_power [of "Suc b"] by simp
  obtain A1 where A1: "intt_loop c i t (2 ^ b) sched 1 (2 ^ b - 1) 0 A = (A1, 2 ^ b)" "reduced c i (2 * 2 ^ b) A1"
      "stage_inv ?p b ((twice ^^ b) a) (tw c t) b A1"
    using intt_loop_correct [OF ok b sch _ red inv, of b] by (auto simp: inv_mask_initial)
  define A2 where "A2 = plain_phase c i (2 ^ b) (sched (2 ^ b)) A1"
  note s2 = plain_phase_undo [OF ok b ts A1(2,3) A2_def]
  define A3 where "A3 = backward_negacyclic_scale c i t (2 ^ b) (Suc b) (sched 0) A2"
  note s3 = backward_scale_correct [OF ok b L fits ts s2(1) A3_def]
  have A3: "intt_core c i t (2 ^ b) sched A = A3"
    by (simp add: intt_core_def n A1(1) A2_def [symmetric] A3_def Let_def nat_power_eq)
  show "INTT_1D c i t (2 ^ b) sched A = Inr (intt_core c i t (2 ^ b) sched A)" by (simp add: INTT_1D_def n)
  show "reduced c i (2 * 2 ^ b) (intt_core c i t (2 ^ b) sched A)" using s3(1) A3 by simp
  assume j: "j < 2 * 2 ^ b"
  have "uint (A3 ! j) = (2 * (2 ^ b * a j) mod ?p) * (?v ^ j * ?s * ?n) mod ?p"
    unfolding s3(2) [OF j] s2(2) [OF j] twice_power ..
  also have "\<dots> = 2 * (2 ^ b * a j) * (?v ^ j * ?s * ?n) mod ?p" by (rule mod_mult_left_eq)
  also have "\<dots> = a j * ?v ^ j * (2 * 2 ^ b * ?s * ?n) mod ?p" by (simp only: ac_simps)
  also have "\<dots> = a j * ?v ^ j * (2 * 2 ^ b * ?s * ?n mod ?p) mod ?p" by (rule mod_mult_right_eq [symmetric])
  finally show "uint (intt_core c i t (2 ^ b) sched A ! j) = a j * ?v ^ j mod ?p" unfolding N_inv_scale [OF ok b L] A3 by simp
qed


section \<open>The two transforms undo each other\<close>

text \<open>The ring, its tables and the schedules under which the transforms are inverse.\<close>

definition ntt_setting :: "Constants \<Rightarrow> nat \<Rightarrow> PsiTables \<Rightarrow> nat \<Rightarrow> (int \<Rightarrow> nat list) \<Rightarrow> bool" where
  "ntt_setting c i t b sched \<longleftrightarrow> psi_ok c i t \<and> b < hc_logN c \<and> hc_logN c < 32
     \<and> 2 ^ (hc_logN c - Suc b) < dprime c i \<and> sched_ok b sched"

lemma sub_roots_cancel:
  assumes "psi_ok c i t"
  shows "sub_root c t b ^ j * inv_sub_root c t b ^ j mod iprime c i = 1"
  using inverse_powers [OF assms, of "2 ^ (hc_logN c - Suc b) * j"] by (simp add: sub_root_def inv_sub_root_def power_mult)

lemma intt_ntt_core:
  assumes "ntt_setting c i t b sched" and "ntt_setting c i t b sched'" and "reduced c i (2 * 2 ^ b) dat"
  shows "INTT_1D c i t (2 ^ b) sched' (ntt_core c i t (2 ^ b) sched dat) = Inr dat"
proof -
  from assms(1,2) have ok: "psi_ok c i t" and b: "b < hc_logN c" "b < 31" and L: "hc_logN c < 32"
    and fits: "2 ^ (hc_logN c - Suc b) < dprime c i" and sch: "sched_ok b sched" "sched_ok b sched'"
    by (auto simp: ntt_setting_def)
  note core = intt_core_correct [OF ok b(1) L fits sch(2) ntt_core_stage(2) [OF ok b sch(1) assms(3)]
      ntt_core_stage(3) [OF ok b sch(1) assms(3)]]
  let ?r = "intt_core c i t (2 ^ b) sched' (ntt_core c i t (2 ^ b) sched dat)"
  have "?r = dat"
  proof (rule nth_equalityI)
    show "length ?r = length dat" using core(2) assms(3) by (simp add: reduced_def)
    fix j
    assume "j < length ?r"
    then have j: "j < 2 * 2 ^ b" using core(2) by (simp add: reduced_def)
    then have "unat (dat ! j) < dprime c i" using assms(3) by (simp add: reduced_def)
    then have r: "uint (dat ! j) < iprime c i" by (simp only: uint_less_iff)
    have "uint (?r ! j) = uint (dat ! j) * (sub_root c t b ^ j * inv_sub_root c t b ^ j) mod iprime c i"
      unfolding core(3) [OF j] by (simp only: mult.assoc)
    also have "\<dots> = uint (dat ! j) * 1 mod iprime c i"
      unfolding mod_mult_right_eq [of _ "sub_root c t b ^ j * inv_sub_root c t b ^ j", symmetric] sub_roots_cancel [OF ok] ..
    also have "\<dots> = uint (dat ! j)" using r by simp
    finally show "?r ! j = dat ! j" by (simp only: word_uint_eq_iff)
  qed
  then show ?thesis using core(1) by simp
qed


lemma demo_setting: "setup_psi demo_constants 0 2 = Inr t \<Longrightarrow> distinct ts \<Longrightarrow> set ts = {..<2} \<Longrightarrow> ntt_setting demo_constants 0 t 1 (\<lambda>m. ts)"
  using demo_psi_ok [of t] by (auto simp: ntt_setting_def sched_ok_def all_threads_def)


text \<open>The forward transform is injective on a finite set, so it is onto.\<close>

lemma finite_reduced: "finite {A. reduced c i n A}"
proof (rule finite_subset)
  show "{A. reduced c i n A} \<subseteq> {A. set A \<subseteq> UNIV \<and> length A = n}" by (auto simp: reduced_def)
  show "finite {A :: u64 list. set A \<subseteq> UNIV \<and> length A = n}" by (rule finite_lists_length_eq) simp
qed

lemma ntt_core_onto:
  assumes "ntt_setting c i t b sched" and "reduced c i (2 * 2 ^ b) A"
  obtains dat where "reduced c i (2 * 2 ^ b) dat" and "ntt_core c i t (2 ^ b) sched dat = A"
proof -
  let ?R = "{A. reduced c i (2 * 2 ^ b) A}" and ?f = "ntt_core c i t (2 ^ b) sched"
  have "inj_on ?f ?R"
  proof (rule inj_onI)
    fix x y
    assume xy: "x \<in> ?R" "y \<in> ?R" and e: "?f x = ?f y"
    from xy(1) have "reduced c i (2 * 2 ^ b) x" by (rule CollectD)
    note x = intt_ntt_core [OF assms(1) assms(1) this]
    from xy(2) have "reduced c i (2 * 2 ^ b) y" by (rule CollectD)
    note intt_ntt_core [OF assms(1) assms(1) this]
    with x show "x = y" unfolding e by (rule Inr_inject [OF trans [OF sym]])
  qed
  moreover have "?f ` ?R \<subseteq> ?R"
  proof (rule image_subsetI)
    fix x
    assume "x \<in> ?R"
    then have "reduced c i (2 * 2 ^ b) x" by (rule CollectD)
    then show "?f x \<in> ?R"
      using assms(1) ntt_core_stage(2) [of c i t b sched x] by (simp add: ntt_setting_def)
  qed
  ultimately have "?f ` ?R = ?R" by (intro endo_inj_surj finite_reduced)
  then have "A \<in> ?f ` ?R" using assms(2) by (simp only: mem_Collect_eq)
  then obtain dat where "?f dat = A" "dat \<in> ?R" by (elim imageE) (rule that, simp_all only:)
  then show ?thesis using that by (simp only: mem_Collect_eq)
qed

text \<open>And the other way: on values below the prime, \<open>NTT_1D\<close> after \<open>INTT_1D\<close> gives back the input, so
  a limb may be moved between its two representations any number of times without a change.
\<close>

theorem NTT_INTT_roundtrip:
  assumes "ntt_setting c i t b sched" and "ntt_setting c i t b sched'" and "reduced c i (2 * 2 ^ b) dat"
  shows "bindE (INTT_1D c i t (2 ^ b) sched' dat) (NTT_1D c i t (2 ^ b) sched) = Inr dat"
proof -
  obtain x where x: "reduced c i (2 * 2 ^ b) x" "ntt_core c i t (2 ^ b) sched x = dat"
    by (rule ntt_core_onto [OF assms(1,3)])
  then have "INTT_1D c i t (2 ^ b) sched' dat = Inr x" using intt_ntt_core [OF assms(1,2) x(1)] by simp
  moreover have "NTT_1D c i t (2 ^ b) sched x = Inr dat"
    using assms(1) x by (subst ntt_core_stage(1)) (auto simp: ntt_setting_def)
  ultimately show ?thesis by simp
qed

theorem NTT_INTT_roundtrip_witness:
  "\<exists>t. setup_psi demo_constants 0 2 = Inr t
    \<and> bindE (INTT_1D demo_constants 0 t 2 (\<lambda>m. [1, 0]) [3, 1, 4, 15]) (NTT_1D demo_constants 0 t 2 (\<lambda>m. [0, 1])) = Inr [3, 1, 4, 15]"
proof -
  obtain t where t: "setup_psi demo_constants 0 2 = Inr t" using demo_setup_psi by blast
  have d: "reduced demo_constants 0 (2 * 2 ^ 1) [3, 1, 4, 15]" by (simp add: reduced_code)
  have "ntt_setting demo_constants 0 t 1 (\<lambda>m. [0, 1])" "ntt_setting demo_constants 0 t 1 (\<lambda>m. [1, 0])"
    by (rule demo_setting [OF t]; auto)+
  from NTT_INTT_roundtrip [OF this d] t show ?thesis by simp
qed

end
