(* ===== verification/LimbKernels.thy ===== *)
theory LimbKernels
  imports Ntt1D
begin

text \<open>
  The elementwise kernels on one limb of a polynomial: \<open>src/src/AddSub.cu\<close> and the first part of
  \<open>src/src/CKKS/ElemenwiseBatchKernels.cu\<close>. A kernel is launched with a thread for every
  coefficient; the thread picks the 64-bit or the 32-bit view of its limbs by the type bit of the
  prime. An operand may be compressed: its index is the thread's, shifted by the log of the stride.
  A read out of range, or through the view of the other width, is \<open>Undefined_behaviour\<close>.
\<close>

section \<open>Limbs and threads\<close>

datatype limb = L32 "u32 list" | L64 "u64 list"

definition get64 :: "limb \<Rightarrow> cpp_error + u64 list" where
  "get64 l = (case l of L64 x \<Rightarrow> Inr x | L32 _ \<Rightarrow> Inl Undefined_behaviour)"

definition get32 :: "limb \<Rightarrow> cpp_error + u32 list" where
  "get32 l = (case l of L32 x \<Rightarrow> Inr x | L64 _ \<Rightarrow> Inl Undefined_behaviour)"

text \<open>The value a thread reads from an operand with a stride.\<close>

definition read_elem :: "nat \<Rightarrow> 'a list \<times> nat \<Rightarrow> cpp_error + 'a" where
  "read_elem idx op = (if idx div 2 ^ snd op < length (fst op) then Inr (fst op ! (idx div 2 ^ snd op)) else Inl Undefined_behaviour)"

definition threads_run :: "nat \<Rightarrow> ('a list \<Rightarrow> 'a) \<Rightarrow> ('a list \<times> nat) list \<Rightarrow> cpp_error + 'a list" where
  "threads_run n f ops = mapE (\<lambda>idx. bindE (mapE (read_elem idx) ops) (\<lambda>v. Inr (f v))) [0..<n]"

definition row64 :: "nat \<Rightarrow> (u64 list \<Rightarrow> u64) \<Rightarrow> (limb \<times> nat) list \<Rightarrow> cpp_error + limb" where
  "row64 n f ops = bindE (mapE (\<lambda>(l, s). bindE (get64 l) (\<lambda>x. Inr (x, s))) ops) (\<lambda>vs.
     bindE (threads_run n f vs) (\<lambda>ys. Inr (L64 ys)))"

definition row32 :: "nat \<Rightarrow> (u32 list \<Rightarrow> u32) \<Rightarrow> (limb \<times> nat) list \<Rightarrow> cpp_error + limb" where
  "row32 n f ops = bindE (mapE (\<lambda>(l, s). bindE (get32 l) (\<lambda>x. Inr (x, s))) ops) (\<lambda>vs.
     bindE (threads_run n f vs) (\<lambda>ys. Inr (L32 ys)))"

text \<open>\<open>__ffs(blockDim.x * gridDim.x / elem) - 1\<close>, and a shift by it.\<close>

definition logstride :: "nat \<Rightarrow> nat \<Rightarrow> cpp_error + nat" where
  "logstride n elem = (if elem = 0 \<or> n div elem = 0 then Inl Undefined_behaviour else Inr (ffs (n div elem) - 1))"

section \<open>Arithmetic of the 32-bit view\<close>

definition prime32 :: "Constants \<Rightarrow> nat \<Rightarrow> u32" where
  "prime32 c i = ucast (hc_primes c ! i)"

definition modmult_barrett32 :: "Constants \<Rightarrow> nat \<Rightarrow> u32 \<Rightarrow> u32 \<Rightarrow> u32" where
  "modmult_barrett32 c i a b = Neal_mult_32 a b (ucast (hc_mu c ! i)) (prime32 c i) (hc_bits c ! i)"

definition modmult_shoup32 :: "Constants \<Rightarrow> nat \<Rightarrow> u32 \<Rightarrow> u32 \<Rightarrow> u32 \<Rightarrow> u32" where
  "modmult_shoup32 c i a b shoup_b = Shoup_mult_32 a b shoup_b (prime32 c i)"

definition dmodadd32 :: "Constants \<Rightarrow> nat \<Rightarrow> u32 \<Rightarrow> u32 \<Rightarrow> u32" where
  "dmodadd32 c i a b = modadd a b (prime32 c i)"

definition dmodsub32 :: "Constants \<Rightarrow> nat \<Rightarrow> u32 \<Rightarrow> u32 \<Rightarrow> u32" where
  "dmodsub32 c i a b = modsub a b (prime32 c i)"

section \<open>The kernels\<close>

definition scale_P :: "Constants \<Rightarrow> nat \<Rightarrow> u64 \<Rightarrow> u64" where
  "scale_P c i a = modmult_shoup c i a (hc_P c ! i) (hc_P_shoup c ! i)"

definition scale_P32 :: "Constants \<Rightarrow> nat \<Rightarrow> u32 \<Rightarrow> u32" where
  "scale_P32 c i a = modmult_shoup32 c i a (ucast (hc_P c ! i)) (ucast (hc_P_shoup c ! i))"

definition add_k :: "Constants \<Rightarrow> nat \<Rightarrow> nat \<Rightarrow> nat \<Rightarrow> limb \<Rightarrow> limb \<Rightarrow> cpp_error + limb" where
  "add_k c primeid n elem_b a b = bindE (logstride n elem_b) (\<lambda>s.
     if ISU64 c primeid then row64 n (\<lambda>v. dmodadd c primeid (v ! 0) (v ! 1)) [(a, 0), (b, s)]
     else row32 n (\<lambda>v. dmodadd32 c primeid (v ! 0) (v ! 1)) [(a, 0), (b, s)])"

definition sub_k :: "Constants \<Rightarrow> nat \<Rightarrow> nat \<Rightarrow> nat \<Rightarrow> limb \<Rightarrow> limb \<Rightarrow> cpp_error + limb" where
  "sub_k c primeid n elem_b a b = bindE (logstride n elem_b) (\<lambda>s.
     if ISU64 c primeid then row64 n (\<lambda>v. dmodsub c primeid (v ! 0) (v ! 1)) [(a, 0), (b, s)]
     else row32 n (\<lambda>v. dmodsub32 c primeid (v ! 0) (v ! 1)) [(a, 0), (b, s)])"

definition add_scale_p_b_k :: "Constants \<Rightarrow> nat \<Rightarrow> nat \<Rightarrow> nat \<Rightarrow> limb \<Rightarrow> limb \<Rightarrow> cpp_error + limb" where
  "add_scale_p_b_k c primeid n elem_b a b = bindE (logstride n elem_b) (\<lambda>s.
     if ISU64 c primeid then row64 n (\<lambda>v. dmodadd c primeid (v ! 0) (scale_P c primeid (v ! 1))) [(a, 0), (b, s)]
     else bindE (get64 b) (\<lambda>y. bindE (threads_run n (\<lambda>v. v ! 0) [(y, s)]) (\<lambda>ys.
            row32 n (\<lambda>v. dmodadd32 c primeid (v ! 0) (scale_P32 c primeid (v ! 1))) [(a, 0), (L32 (map ucast ys), 0)])))"

definition add_scale_p_a_k :: "Constants \<Rightarrow> nat \<Rightarrow> nat \<Rightarrow> nat \<Rightarrow> limb \<Rightarrow> limb \<Rightarrow> cpp_error + limb" where
  "add_scale_p_a_k c primeid n elem_b a b = bindE (logstride n elem_b) (\<lambda>s.
     if ISU64 c primeid then row64 n (\<lambda>v. dmodadd c primeid (v ! 1) (scale_P c primeid (v ! 0))) [(a, 0), (b, s)]
     else bindE (get64 a) (\<lambda>x. bindE (threads_run n (\<lambda>v. v ! 0) [(x, 0)]) (\<lambda>xs.
            row32 n (\<lambda>v. dmodadd32 c primeid (v ! 1) (scale_P32 c primeid (v ! 0))) [(L32 (map ucast xs), 0), (b, s)])))"

text \<open>The 32-bit branches of the two kernels above read the scaled operand through the 64-bit view.
  The three-operand forms \<open>a = b + c\<close> and \<open>a = b - c\<close>; \<open>k\<close> is the device's constants.\<close>

definition add3_k :: "Constants \<Rightarrow> nat \<Rightarrow> nat \<Rightarrow> nat \<Rightarrow> limb \<Rightarrow> limb \<Rightarrow> cpp_error + limb" where
  "add3_k k primeid n elem_c b c = bindE (logstride n elem_c) (\<lambda>s.
     if ISU64 k primeid then row64 n (\<lambda>v. dmodadd k primeid (v ! 0) (v ! 1)) [(b, 0), (c, s)]
     else row32 n (\<lambda>v. dmodadd32 k primeid (v ! 0) (v ! 1)) [(b, 0), (c, s)])"

definition sub3_k :: "Constants \<Rightarrow> nat \<Rightarrow> nat \<Rightarrow> nat \<Rightarrow> limb \<Rightarrow> limb \<Rightarrow> cpp_error + limb" where
  "sub3_k k primeid n elem_c b c = bindE (logstride n elem_c) (\<lambda>s.
     if ISU64 k primeid then row64 n (\<lambda>v. dmodsub k primeid (v ! 0) (v ! 1)) [(b, 0), (c, s)]
     else row32 n (\<lambda>v. dmodsub32 k primeid (v ! 0) (v ! 1)) [(b, 0), (c, s)])"

definition scalar_add_k :: "Constants \<Rightarrow> nat \<Rightarrow> nat \<Rightarrow> u64 list \<Rightarrow> limb \<Rightarrow> cpp_error + limb" where
  "scalar_add_k c primeid n b a =
     (if primeid \<ge> length b then Inl Undefined_behaviour
      else if ISU64 c primeid then row64 n (\<lambda>v. dmodadd c primeid (v ! 0) (b ! primeid)) [(a, 0)]
      else row32 n (\<lambda>v. dmodadd32 c primeid (v ! 0) (ucast (b ! primeid))) [(a, 0)])"

definition scalar_sub_k :: "Constants \<Rightarrow> nat \<Rightarrow> nat \<Rightarrow> u64 list \<Rightarrow> limb \<Rightarrow> cpp_error + limb" where
  "scalar_sub_k c primeid n b a =
     (if primeid \<ge> length b then Inl Undefined_behaviour
      else if ISU64 c primeid then row64 n (\<lambda>v. dmodsub c primeid (v ! 0) (b ! primeid)) [(a, 0)]
      else row32 n (\<lambda>v. dmodsub32 c primeid (v ! 0) (ucast (b ! primeid))) [(a, 0)])"

definition Scalar_mult_k :: "Constants \<Rightarrow> nat \<Rightarrow> nat \<Rightarrow> u64 list \<Rightarrow> limb \<Rightarrow> cpp_error + limb" where
  "Scalar_mult_k c primeid n b a =
     (if primeid \<ge> length b then Inl Undefined_behaviour
      else if ISU64 c primeid then row64 n (\<lambda>v. modmult_barrett c primeid (v ! 0) (b ! primeid)) [(a, 0)]
      else row32 n (\<lambda>v. modmult_barrett32 c primeid (v ! 0) (ucast (b ! primeid))) [(a, 0)])"

definition Mult_k :: "Constants \<Rightarrow> nat \<Rightarrow> nat \<Rightarrow> nat \<Rightarrow> limb \<Rightarrow> limb \<Rightarrow> cpp_error + limb" where
  "Mult_k c primeid n elem_l2 l1 l2 = bindE (logstride n elem_l2) (\<lambda>s.
     if ISU64 c primeid then row64 n (\<lambda>v. modmult_barrett c primeid (v ! 0) (v ! 1)) [(l1, 0), (l2, s)]
     else row32 n (\<lambda>v. modmult_barrett32 c primeid (v ! 0) (v ! 1)) [(l1, 0), (l2, s)])"

text \<open>The 32-bit branch of \<open>square_\<close> reads its operand through the 64-bit view.\<close>

definition square_k :: "Constants \<Rightarrow> nat \<Rightarrow> nat \<Rightarrow> limb \<Rightarrow> cpp_error + limb" where
  "square_k c primeid n l1 =
     (if ISU64 c primeid then row64 n (\<lambda>v. modmult_barrett c primeid (v ! 0) (v ! 0)) [(l1, 0)]
      else bindE (get64 l1) (\<lambda>x. bindE (threads_run n (\<lambda>v. v ! 0) [(x, 0)]) (\<lambda>ys.
             Inr (L32 (map (\<lambda>y. modmult_barrett32 c primeid (ucast y) (ucast y)) ys)))))"

text \<open>\<open>addMult__\<close> takes the number of elements of its last operand and ignores it.\<close>

definition addMult_k :: "Constants \<Rightarrow> nat \<Rightarrow> nat \<Rightarrow> nat \<Rightarrow> limb \<Rightarrow> limb \<Rightarrow> limb \<Rightarrow> cpp_error + limb" where
  "addMult_k c primeid n elem_l2 l l1 l2 =
     (if ISU64 c primeid
      then row64 n (\<lambda>v. dmodadd c primeid (v ! 0) (modmult_barrett c primeid (v ! 1) (v ! 2))) [(l, 0), (l1, 0), (l2, 0)]
      else row32 n (\<lambda>v. dmodadd32 c primeid (v ! 0) (modmult_barrett32 c primeid (v ! 1) (v ! 2))) [(l, 0), (l1, 0), (l2, 0)])"

definition mult1Add2_k :: "Constants \<Rightarrow> nat \<Rightarrow> nat \<Rightarrow> limb \<Rightarrow> limb \<Rightarrow> limb \<Rightarrow> cpp_error + limb" where
  "mult1Add2_k c primeid n l l1 l2 =
     (if ISU64 c primeid
      then row64 n (\<lambda>v. dmodadd c primeid (modmult_barrett c primeid (v ! 0) (v ! 1)) (v ! 2)) [(l, 0), (l1, 0), (l2, 0)]
      else row32 n (\<lambda>v. dmodadd32 c primeid (modmult_barrett32 c primeid (v ! 0) (v ! 1)) (v ! 2)) [(l, 0), (l1, 0), (l2, 0)])"

text \<open>The kernels without a 32-bit branch leave a 32-bit limb as it is.\<close>

definition mult1AddMult23Add4_k :: "Constants \<Rightarrow> nat \<Rightarrow> nat \<Rightarrow> limb \<Rightarrow> limb \<Rightarrow> limb \<Rightarrow> limb \<Rightarrow> limb \<Rightarrow> cpp_error + limb" where
  "mult1AddMult23Add4_k c primeid n l l1 l2 l3 l4 =
     (if ISU64 c primeid
      then row64 n (\<lambda>v. let aux = v ! 4; res = modmult_barrett c primeid (v ! 0) (v ! 1); res = dmodadd c primeid res aux
                        in dmodadd c primeid res (modmult_barrett c primeid (v ! 2) (v ! 3)))
             [(l, 0), (l1, 0), (l2, 0), (l3, 0), (l4, 0)]
      else Inr l)"

definition scaleByP_k :: "Constants \<Rightarrow> nat \<Rightarrow> nat \<Rightarrow> limb \<Rightarrow> cpp_error + limb" where
  "scaleByP_k c primeid n a = (if ISU64 c primeid then row64 n (\<lambda>v. scale_P c primeid (v ! 0)) [(a, 0)] else Inr a)"

definition addScaleB_k :: "Constants \<Rightarrow> nat \<Rightarrow> nat \<Rightarrow> nat \<Rightarrow> limb \<Rightarrow> limb \<Rightarrow> limb \<Rightarrow> cpp_error + limb" where
  "addScaleB_k k primeid n elem_c a b c = bindE (logstride n elem_c) (\<lambda>s.
     if ISU64 k primeid then row64 n (\<lambda>v. dmodadd k primeid (scale_P k primeid (v ! 0)) (v ! 1)) [(b, 0), (c, s)] else Inr a)"

definition addScaleC_k :: "Constants \<Rightarrow> nat \<Rightarrow> nat \<Rightarrow> nat \<Rightarrow> limb \<Rightarrow> limb \<Rightarrow> limb \<Rightarrow> cpp_error + limb" where
  "addScaleC_k k primeid n elem_c a b c = bindE (logstride n elem_c) (\<lambda>s.
     if ISU64 k primeid then row64 n (\<lambda>v. dmodadd k primeid (scale_P k primeid (v ! 1)) (v ! 0)) [(b, 0), (c, s)] else Inr a)"

text \<open>Two kernels that write two limbs.\<close>

definition multnomoddownend_k :: "Constants \<Rightarrow> nat \<Rightarrow> nat \<Rightarrow> limb \<Rightarrow> limb \<Rightarrow> limb \<Rightarrow> limb \<Rightarrow> limb \<Rightarrow> limb \<Rightarrow> cpp_error + limb \<times> limb" where
  "multnomoddownend_k c primeid n c1 c0 bc0 bc1 inp aux =
     (let m = modmult_barrett c primeid; P = scale_P c primeid; add = dmodadd c primeid
      in if ISU64 c primeid
         then bindE (row64 n (\<lambda>v. let res = P (m (v ! 0) (v ! 2)); res = add res (v ! 4) in add res (P (m (v ! 1) (v ! 3))))
                      [(c1, 0), (c0, 0), (bc0, 0), (bc1, 0), (inp, 0)]) (\<lambda>c1'.
              bindE (row64 n (\<lambda>v. add (P (m (v ! 0) (v ! 1))) (v ! 2)) [(c0, 0), (bc0, 0), (aux, 0)]) (\<lambda>c0'. Inr (c1', c0')))
         else Inr (c1, c0))"

definition binomial_square_fold_k :: "Constants \<Rightarrow> nat \<Rightarrow> nat \<Rightarrow> limb \<Rightarrow> limb \<Rightarrow> limb \<Rightarrow> limb \<Rightarrow> cpp_error + limb \<times> limb" where
  "binomial_square_fold_k c primeid n c0_res ks0 c1 ks1 =
     (let m = modmult_barrett c primeid; add = dmodadd c primeid
      in if ISU64 c primeid
         then bindE (row64 n (\<lambda>v. add (m (v ! 0) (v ! 0)) (v ! 1)) [(c0_res, 0), (ks0, 0)]) (\<lambda>r0.
              bindE (row64 n (\<lambda>v. let aux = m (v ! 0) (v ! 1); aux2 = add aux aux in add aux2 (v ! 2))
                      [(c0_res, 0), (c1, 0), (ks1, 0)]) (\<lambda>r1. Inr (r0, r1)))
         else Inr (c0_res, c1))"

text \<open>\<open>copy_\<close> picks the width by the index of the row in the launch, not by the row's prime.\<close>

definition copy_k :: "Constants \<Rightarrow> nat \<Rightarrow> nat \<Rightarrow> limb \<Rightarrow> cpp_error + limb" where
  "copy_k c blockIdx_y n src = (if ISU64 c blockIdx_y then row64 n (\<lambda>v. v ! 0) [(src, 0)] else row32 n (\<lambda>v. v ! 0) [(src, 0)])"

text \<open>The weighted sums have no 32-bit branch at all; \<open>w\<close> holds a row of \<open>MAXP\<close> weights for each operand.\<close>

definition weight :: "u64 list \<Rightarrow> nat \<Rightarrow> nat \<Rightarrow> u64" where
  "weight w i primeid = w ! (i * MAXP + primeid)"

definition eval_linear_w_sum_k :: "Constants \<Rightarrow> nat \<Rightarrow> nat \<Rightarrow> limb list \<Rightarrow> u64 list \<Rightarrow> cpp_error + limb" where
  "eval_linear_w_sum_k c primeid n bs w =
     (if bs \<noteq> [] \<and> length w \<le> (length bs - 1) * MAXP + primeid then Inl Undefined_behaviour
      else row64 n (\<lambda>v. fold (\<lambda>i res. dmodadd c primeid res (modmult_barrett c primeid (v ! i) (weight w i primeid))) [0..<length bs] 0)
             (map (\<lambda>b. (b, 0)) bs))"

definition eval_linear_w_sum_with_bias_k :: "Constants \<Rightarrow> nat \<Rightarrow> nat \<Rightarrow> limb list \<Rightarrow> u64 list \<Rightarrow> cpp_error + limb" where
  "eval_linear_w_sum_with_bias_k c primeid n bs w =
     (if length w \<le> length bs * MAXP + primeid then Inl Undefined_behaviour
      else row64 n (\<lambda>v. dmodadd c primeid
               (fold (\<lambda>i res. dmodadd c primeid res (modmult_barrett c primeid (v ! i) (weight w i primeid))) [0..<length bs] 0)
               (weight w (length bs) primeid))
             (map (\<lambda>b. (b, 0)) bs))"


section \<open>What a row computes\<close>

text \<open>A limb of a prime holds as many reduced values of the prime's width.\<close>

definition limb_ok :: "Constants \<Rightarrow> nat \<Rightarrow> nat \<Rightarrow> limb \<Rightarrow> bool" where
  "limb_ok c i n l = (case l of
     L64 x \<Rightarrow> ISU64 c i \<and> length x = n \<and> list_all (\<lambda>v. unat v < dprime c i) x
   | L32 x \<Rightarrow> \<not> ISU64 c i \<and> length x = n \<and> list_all (\<lambda>v. unat v < dprime c i) x)"

definition lval :: "limb \<Rightarrow> nat \<Rightarrow> int" where
  "lval l j = (case l of L64 x \<Rightarrow> uint (x ! j) | L32 x \<Rightarrow> uint (x ! j))"

definition limb_prime :: "Constants \<Rightarrow> nat \<Rightarrow> bool" where
  "limb_prime c i \<longleftrightarrow> prime_entry c i \<and> (\<not> ISU64 c i \<longrightarrow> hc_bits c ! i \<le> 30)"

text \<open>A launch succeeds, with reduced values congruent to a given function.\<close>

definition gives :: "Constants \<Rightarrow> nat \<Rightarrow> nat \<Rightarrow> cpp_error + limb \<Rightarrow> (nat \<Rightarrow> int) \<Rightarrow> bool" where
  "gives c i n res g \<longleftrightarrow> (\<exists>r. res = Inr r \<and> limb_ok c i n r \<and> (\<forall>j < n. lval r j = g j mod iprime c i))"

lemma limb_ok_64: "ISU64 c i \<Longrightarrow> limb_ok c i n l \<longleftrightarrow> (\<exists>x. l = L64 x \<and> reduced c i n x)"
  by (cases l) (auto simp: limb_ok_def reduced_code)

lemma limb_ok_range:
  assumes "limb_ok c i n l" and "j < n"
  shows "0 \<le> lval l j" and "lval l j < iprime c i"
proof -
  have "0 \<le> lval l j \<and> lval l j < iprime c i"
  proof (cases l)
    case (L32 x)
    then have "unat (x ! j) < dprime c i" using assms by (simp add: limb_ok_def list_all_length)
    then have "int (unat (x ! j)) < int (dprime c i)" by (simp only: of_nat_less_iff)
    then show ?thesis by (simp add: L32 lval_def)
  next
    case (L64 x)
    then have "unat (x ! j) < dprime c i" using assms by (simp add: limb_ok_def list_all_length)
    then have "int (unat (x ! j)) < int (dprime c i)" by (simp only: of_nat_less_iff)
    then show ?thesis by (simp add: L64 lval_def)
  qed
  then show "0 \<le> lval l j" "lval l j < iprime c i" by simp_all
qed

lemma threads_run_ok:
  assumes "\<And>x s idx. (x, s) \<in> set ops \<Longrightarrow> idx < n \<Longrightarrow> idx div 2 ^ s < length x"
  shows "threads_run n f ops = Inr (map (\<lambda>idx. f (map (\<lambda>(x, s). x ! (idx div 2 ^ s)) ops)) [0..<n])"
  unfolding threads_run_def
proof (rule mapE_Inr)
  fix idx
  assume "idx \<in> set [0..<n]"
  then have "mapE (read_elem idx) ops = Inr (map (\<lambda>(x, s). x ! (idx div 2 ^ s)) ops)"
    using assms by (intro mapE_Inr) (auto simp: read_elem_def)
  then show "bindE (mapE (read_elem idx) ops) (\<lambda>v. Inr (f v)) = Inr (f (map (\<lambda>(x, s). x ! (idx div 2 ^ s)) ops))" by simp
qed

text \<open>The operands of a launch over \<open>n\<close> threads: each holds \<open>m\<close> values and \<open>m\<close> times its stride covers the threads.\<close>

definition operands_ok :: "Constants \<Rightarrow> nat \<Rightarrow> nat \<Rightarrow> (limb \<times> nat) list \<Rightarrow> bool" where
  "operands_ok c i n ops \<longleftrightarrow> (\<forall>(l, s) \<in> set ops. \<exists>m. limb_ok c i m l \<and> n \<le> m * 2 ^ s)"

lemma stride_bound: "idx < n \<Longrightarrow> n \<le> m * 2 ^ s \<Longrightarrow> idx div 2 ^ s < m" for m :: nat
  by (simp add: less_mult_imp_div_less)

lemma threads_run_gives:
  fixes ops :: "('a::len word list \<times> nat) list"
  assumes ops: "\<And>x s. (x, s) \<in> set ops \<Longrightarrow> list_all (\<lambda>v. unat v < P) x \<and> n \<le> length x * 2 ^ s"
    and f: "\<And>vs. length vs = length ops \<Longrightarrow> \<forall>k < length ops. unat (vs ! k) < P
      \<Longrightarrow> unat (f vs) < P \<and> uint (f vs) = g (map uint vs) mod p"
  shows "\<exists>ys. threads_run n f ops = Inr ys \<and> length ys = n \<and> list_all (\<lambda>v. unat v < P) ys
    \<and> (\<forall>j < n. uint (ys ! j) = g (map (\<lambda>(x, s). uint (x ! (j div 2 ^ s))) ops) mod p)"
proof -
  let ?at = "\<lambda>j. map (\<lambda>(x, s). x ! (j div 2 ^ s)) ops"
  have in_range: "idx div 2 ^ s < length x" if "(x, s) \<in> set ops" "idx < n" for x s idx
    using ops [OF that(1)] that(2) by (simp add: stride_bound)
  have r: "threads_run n f ops = Inr (map (\<lambda>idx. f (?at idx)) [0..<n])" by (rule threads_run_ok) (rule in_range)
  have e: "unat (f (?at j)) < P \<and> uint (f (?at j)) = g (map uint (?at j)) mod p" if j: "j < n" for j
  proof (rule f)
    show "\<forall>k < length ops. unat (?at j ! k) < P"
    proof (intro allI impI)
      fix k
      assume k: "k < length ops"
      obtain x s where xs: "ops ! k = (x, s)" by (cases "ops ! k")
      then have "(x, s) \<in> set ops" using k nth_mem by metis
      then have "list_all (\<lambda>v. unat v < P) x" "j div 2 ^ s < length x" using ops in_range j by blast+
      then show "unat (?at j ! k) < P" using k xs by (simp add: list_all_length)
    qed
  qed simp
  have m: "map uint (?at j) = map (\<lambda>(x, s). uint (x ! (j div 2 ^ s))) ops" for j by (auto simp: split_def)
  show ?thesis
    by (rule exI [of _ "map (\<lambda>idx. f (?at idx)) [0..<n]"]) (use r e in \<open>simp add: list_all_length flip: m\<close>)
qed

lemma unwrap_ops:
  assumes "\<forall>(l, s) \<in> set ops. \<exists>x. l = K x \<and> Q x s"
  shows "\<exists>vs. ops = map (\<lambda>(x, s). (K x, s)) vs \<and> (\<forall>(x, s) \<in> set vs. Q x s)"
  using assms
proof (induction ops)
  case (Cons op ops)
  obtain l s where op: "op = (l, s)" by (cases op)
  with Cons.prems obtain x where "l = K x" "Q x s" by auto
  moreover from Cons obtain vs where "ops = map (\<lambda>(x, s). (K x, s)) vs" "\<forall>(x, s) \<in> set vs. Q x s" by auto
  ultimately show ?case using op by (intro exI [of _ "(x, s) # vs"]) simp
qed simp

lemma row64_gives:
  assumes "ISU64 c i" and "operands_ok c i n ops"
    and f: "\<And>vs. length vs = length ops \<Longrightarrow> \<forall>k < length ops. unat (vs ! k) < dprime c i
      \<Longrightarrow> unat (f vs) < dprime c i \<and> uint (f vs) = g (map uint vs) mod iprime c i"
  shows "gives c i n (row64 n f ops) (\<lambda>j. g (map (\<lambda>(l, s). lval l (j div 2 ^ s)) ops))"
proof -
  have "\<exists>vs. ops = map (\<lambda>(x, s). (L64 x, s)) vs \<and> (\<forall>(x, s) \<in> set vs. list_all (\<lambda>v. unat v < dprime c i) x \<and> n \<le> length x * 2 ^ s)"
  proof (rule unwrap_ops, clarify)
    fix l s
    assume "(l, s) \<in> set ops"
    then obtain m where "limb_ok c i m l" "n \<le> m * 2 ^ s" using assms(2) by (auto simp: operands_ok_def)
    then show "\<exists>x. l = L64 x \<and> list_all (\<lambda>v. unat v < dprime c i) x \<and> n \<le> length x * 2 ^ s"
      using assms(1) by (cases l) (auto simp: limb_ok_def)
  qed
  then obtain vs where vs: "ops = map (\<lambda>(x, s). (L64 x, s)) vs"
    "\<And>x s. (x, s) \<in> set vs \<Longrightarrow> list_all (\<lambda>v. unat v < dprime c i) x \<and> n \<le> length x * 2 ^ s" by blast
  have l: "length ops = length vs" by (simp add: vs(1))
  obtain ys where ys: "threads_run n f vs = Inr ys" "length ys = n" "list_all (\<lambda>v. unat v < dprime c i) ys"
    "\<forall>j < n. uint (ys ! j) = g (map (\<lambda>(x, s). uint (x ! (j div 2 ^ s))) vs) mod iprime c i"
    using threads_run_gives [where ops = vs and f = f and g = g and p = "iprime c i", OF vs(2) f [unfolded l]] by blast
  have "mapE (\<lambda>(l, s). bindE (get64 l) (\<lambda>x. Inr (x, s))) ops = Inr vs"
    unfolding vs(1) by (induction vs) (auto simp: get64_def)
  then have "row64 n f ops = Inr (L64 ys)" by (simp add: row64_def ys(1))
  moreover have "map (\<lambda>(l, s). lval l (j div 2 ^ s)) ops = map (\<lambda>(x, s). uint (x ! (j div 2 ^ s))) vs" for j
    unfolding vs(1) by (auto simp: lval_def)
  ultimately show ?thesis unfolding gives_def using ys(2-4) assms(1) by (auto simp: limb_ok_def lval_def)
qed

lemma row32_gives:
  assumes "\<not> ISU64 c i" and "operands_ok c i n ops"
    and f: "\<And>vs. length vs = length ops \<Longrightarrow> \<forall>k < length ops. unat (vs ! k) < dprime c i
      \<Longrightarrow> unat (f vs) < dprime c i \<and> uint (f vs) = g (map uint vs) mod iprime c i"
  shows "gives c i n (row32 n f ops) (\<lambda>j. g (map (\<lambda>(l, s). lval l (j div 2 ^ s)) ops))"
proof -
  have "\<exists>vs. ops = map (\<lambda>(x, s). (L32 x, s)) vs \<and> (\<forall>(x, s) \<in> set vs. list_all (\<lambda>v. unat v < dprime c i) x \<and> n \<le> length x * 2 ^ s)"
  proof (rule unwrap_ops, clarify)
    fix l s
    assume "(l, s) \<in> set ops"
    then obtain m where "limb_ok c i m l" "n \<le> m * 2 ^ s" using assms(2) by (auto simp: operands_ok_def)
    then show "\<exists>x. l = L32 x \<and> list_all (\<lambda>v. unat v < dprime c i) x \<and> n \<le> length x * 2 ^ s"
      using assms(1) by (cases l) (auto simp: limb_ok_def)
  qed
  then obtain vs where vs: "ops = map (\<lambda>(x, s). (L32 x, s)) vs"
    "\<And>x s. (x, s) \<in> set vs \<Longrightarrow> list_all (\<lambda>v. unat v < dprime c i) x \<and> n \<le> length x * 2 ^ s" by blast
  have l: "length ops = length vs" by (simp add: vs(1))
  obtain ys where ys: "threads_run n f vs = Inr ys" "length ys = n" "list_all (\<lambda>v. unat v < dprime c i) ys"
    "\<forall>j < n. uint (ys ! j) = g (map (\<lambda>(x, s). uint (x ! (j div 2 ^ s))) vs) mod iprime c i"
    using threads_run_gives [where ops = vs and f = f and g = g and p = "iprime c i", OF vs(2) f [unfolded l]] by blast
  have "mapE (\<lambda>(l, s). bindE (get32 l) (\<lambda>x. Inr (x, s))) ops = Inr vs"
    unfolding vs(1) by (induction vs) (auto simp: get32_def)
  then have "row32 n f ops = Inr (L32 ys)" by (simp add: row32_def ys(1))
  moreover have "map (\<lambda>(l, s). lval l (j div 2 ^ s)) ops = map (\<lambda>(x, s). uint (x ! (j div 2 ^ s))) vs" for j
    unfolding vs(1) by (auto simp: lval_def)
  ultimately show ?thesis unfolding gives_def using ys(2-4) assms(1) by (auto simp: limb_ok_def lval_def)
qed


section \<open>The 32-bit arithmetic is exact\<close>

lemma prime32_unat:
  assumes "limb_prime c i" and "\<not> ISU64 c i"
  shows "unat (prime32 c i) = dprime c i" and "uint (prime32 c i) = iprime c i" and "dprime c i < 2 ^ 30"
    and "unat (ucast (hc_mu c ! i) :: u32) = 2 ^ (2 * (hc_bits c ! i) + 1) div dprime c i"
proof -
  let ?q = "hc_bits c ! i" and ?p = "dprime c i"
  have q: "prime_bits ?p ?q" "?q \<le> 30" "hc_mu c ! i = mu_new (hc_primes c ! i) ?q"
    using assms by (simp_all add: limb_prime_def prime_entry_def Let_def)
  then have b: "2 \<le> ?q" "2 ^ (?q - 1) < ?p" "?p < 2 ^ ?q" by (simp_all add: prime_bits_def)
  have "(2::nat) ^ ?q \<le> 2 ^ 30" using q(2) by (intro power_increasing) simp_all
  with b(3) show less: "?p < 2 ^ 30" by linarith
  have "unat (prime32 c i) = ?p mod 2 ^ 32" by (simp add: prime32_def unat_ucast_u64_u32)
  then show p: "unat (prime32 c i) = ?p" using less by simp
  then have "int (unat (prime32 c i)) = int ?p" by simp
  then show "uint (prime32 c i) = iprime c i" by simp
  have mu: "unat (hc_mu c ! i) = 2 ^ (2 * ?q + 1) div ?p" unfolding q(3) using q(1,2) by (intro unat_mu_new) simp_all
  have "2 * ?q + 1 = (?q + 2) + (?q - 1)" using b(1) by simp
  then have "(2::nat) ^ (2 * ?q + 1) = 2 ^ (?q + 2) * 2 ^ (?q - 1)" by (simp only: power_add)
  also have "\<dots> < 2 ^ (?q + 2) * ?p" using b(2) by simp
  finally have "2 ^ (2 * ?q + 1) div ?p < 2 ^ (?q + 2)" by (simp add: less_mult_imp_div_less)
  also have "(2::nat) ^ (?q + 2) \<le> 2 ^ 32" using q(2) by (intro power_increasing) simp_all
  finally show "unat (ucast (hc_mu c ! i) :: u32) = 2 ^ (2 * ?q + 1) div ?p"
    using mu by (simp add: unat_ucast_u64_u32)
qed

lemma arith32_ok:
  assumes "limb_prime c i" and "\<not> ISU64 c i" and "unat a < dprime c i" and "unat b < dprime c i"
  shows dmodadd32_ok: "unat (dmodadd32 c i a b) < dprime c i \<and> uint (dmodadd32 c i a b) = (uint a + uint b) mod iprime c i"
    and dmodsub32_ok: "unat (dmodsub32 c i a b) < dprime c i \<and> uint (dmodsub32 c i a b) = (uint a - uint b) mod iprime c i"
    and barrett32_ok: "unat (modmult_barrett32 c i a b) < dprime c i
      \<and> uint (modmult_barrett32 c i a b) = uint a * uint b mod iprime c i"
proof -
  note p = prime32_unat [OF assms(1,2)]
  have ab: "unat a < unat (prime32 c i)" "unat b < unat (prime32 c i)" "2 * unat (prime32 c i) \<le> 2 ^ LENGTH(32)"
    using assms(3,4) p(1,3) by simp_all
  have q: "prime_bits (unat (prime32 c i)) (hc_bits c ! i)" "hc_bits c ! i \<le> 30"
    using assms(1,2) p(1) by (simp_all add: limb_prime_def prime_entry_def Let_def)
  have z: "0 < dprime c i" using assms(3) by linarith
  have i: "uint x = int m mod iprime c i" if "unat x = m mod dprime c i" for x :: u32 and m
    using that by (simp only: uint_nat zmod_int)
  have "unat (dmodadd32 c i a b) = (unat a + unat b) mod dprime c i"
    unfolding dmodadd32_def using unat_modadd [OF ab] p(1) by simp
  then show "unat (dmodadd32 c i a b) < dprime c i \<and> uint (dmodadd32 c i a b) = (uint a + uint b) mod iprime c i"
    using i z by simp
  have s: "unat (dmodsub32 c i a b) = (unat a + dprime c i - unat b) mod dprime c i"
    unfolding dmodsub32_def using unat_modsub [OF ab] p(1) by simp
  have "int (unat a + dprime c i - unat b) = uint a + iprime c i - uint b" using assms(4) by (simp add: of_nat_diff)
  moreover have "(uint a + iprime c i - uint b) mod iprime c i = (uint a - uint b) mod iprime c i"
    using mod_add_self2 [of "uint a - uint b" "iprime c i"] by (simp add: algebra_simps)
  ultimately show "unat (dmodsub32 c i a b) < dprime c i \<and> uint (dmodsub32 c i a b) = (uint a - uint b) mod iprime c i"
    using i [OF s] s z by simp
  have "unat (modmult_barrett32 c i a b) = unat a * unat b mod dprime c i"
    unfolding modmult_barrett32_def using Neal_mult_32_ok [OF q ab(1,2)] p(1,4) by simp
  then show "unat (modmult_barrett32 c i a b) < dprime c i \<and> uint (modmult_barrett32 c i a b) = uint a * uint b mod iprime c i"
    using i z by simp
qed

lemma arith64_ok:
  assumes "prime_entry c i" and "unat a < dprime c i" and "unat b < dprime c i"
  shows dmodadd64_ok: "unat (dmodadd c i a b) < dprime c i \<and> uint (dmodadd c i a b) = (uint a + uint b) mod iprime c i"
    and dmodsub64_ok: "unat (dmodsub c i a b) < dprime c i \<and> uint (dmodsub c i a b) = (uint a - uint b) mod iprime c i"
    and barrett64_ok: "unat (modmult_barrett c i a b) < dprime c i \<and> uint (modmult_barrett c i a b) = uint a * uint b mod iprime c i"
  using uint_dmodadd [OF assms] uint_dmodsub [OF assms] uint_modmult_barrett [OF assms]
    dmodadd_less [OF assms] dmodsub_less [OF assms] modmult_barrett_less [OF assms] by simp_all

text \<open>The entry of the product of the special primes.\<close>

definition P_entry :: "Constants \<Rightarrow> nat \<Rightarrow> bool" where
  "P_entry c i \<longleftrightarrow> unat (hc_P c ! i) < dprime c i \<and> hc_P_shoup c ! i = shoup_precomp (hc_P c ! i) (hc_primes c ! i)"

lemma scale_P_ok:
  assumes "prime_entry c i" and "P_entry c i"
  shows "unat (scale_P c i a) < dprime c i \<and> uint (scale_P c i a) = uint a * uint (hc_P c ! i) mod iprime c i"
  using assms uint_modmult_shoup modmult_shoup_less by (simp add: scale_P_def P_entry_def)

section \<open>What the kernels compute\<close>

lemma logstride_power: "0 < m \<Longrightarrow> logstride (m * 2 ^ s) m = Inr s"
  by (simp add: logstride_def ffs_power)

lemmas kernel_arith = dmodadd32_ok dmodsub32_ok barrett32_ok dmodadd64_ok dmodsub64_ok barrett64_ok

lemma operands_ok_simps:
  shows "operands_ok c i n []"
    and "operands_ok c i n ((l, s) # ops) \<longleftrightarrow> (\<exists>m. limb_ok c i m l \<and> n \<le> m * 2 ^ s) \<and> operands_ok c i n ops"
  by (simp_all add: operands_ok_def)

lemma all_less:
  shows "(\<forall>k < Suc 0. Q k) \<longleftrightarrow> Q (0::nat)" and "(\<forall>k < 2. Q k) \<longleftrightarrow> Q 0 \<and> Q (1::nat)"
    and "(\<forall>k < 3. Q k) \<longleftrightarrow> Q 0 \<and> Q 1 \<and> Q (2::nat)"
  by (auto simp: less_Suc_eq numeral_eq_Suc)

lemma both_widths:
  assumes "limb_prime c i" and "operands_ok c i n ops"
    and "\<And>vs. prime_entry c i \<Longrightarrow> length vs = length ops \<Longrightarrow> \<forall>k < length ops. unat (vs ! k) < dprime c i
      \<Longrightarrow> unat (f vs) < dprime c i \<and> uint (f vs) = g (map uint vs) mod iprime c i"
    and "\<And>vs. \<not> ISU64 c i \<Longrightarrow> length vs = length ops \<Longrightarrow> \<forall>k < length ops. unat (vs ! k) < dprime c i
      \<Longrightarrow> unat (h vs) < dprime c i \<and> uint (h vs) = g (map uint vs) mod iprime c i"
  shows "gives c i n (if ISU64 c i then row64 n f ops else row32 n h ops) (\<lambda>j. g (map (\<lambda>(l, s). lval l (j div 2 ^ s)) ops))"
  using assms row64_gives [of c i n ops f g] row32_gives [of c i n ops h g] by (simp add: limb_prime_def)


lemma gives_cong: "gives c i n r g \<Longrightarrow> (\<And>j. j < n \<Longrightarrow> g j mod iprime c i = h j mod iprime c i) \<Longrightarrow> gives c i n r h"
  by (auto simp: gives_def)

text \<open>The two-operand kernels, with an operand that may be compressed by the stride \<open>2^s\<close>.\<close>

definition operands2 :: "Constants \<Rightarrow> nat \<Rightarrow> nat \<Rightarrow> nat \<Rightarrow> limb \<Rightarrow> limb \<Rightarrow> bool" where
  "operands2 c i m s a b \<longleftrightarrow> limb_prime c i \<and> 0 < m \<and> limb_ok c i (m * 2 ^ s) a \<and> limb_ok c i m b"

lemma operands2_ops: "operands2 c i m s a b \<Longrightarrow> operands_ok c i (m * 2 ^ s) [(a, 0), (b, s)]"
  by (auto simp: operands2_def operands_ok_simps)

lemma two_operand_kernels:
  assumes "operands2 c i m s a b"
  shows "gives c i (m * 2 ^ s) (add_k c i (m * 2 ^ s) m a b) (\<lambda>j. lval a j + lval b (j div 2 ^ s))"
    and "gives c i (m * 2 ^ s) (sub_k c i (m * 2 ^ s) m a b) (\<lambda>j. lval a j - lval b (j div 2 ^ s))"
    and "gives c i (m * 2 ^ s) (add3_k c i (m * 2 ^ s) m a b) (\<lambda>j. lval a j + lval b (j div 2 ^ s))"
    and "gives c i (m * 2 ^ s) (sub3_k c i (m * 2 ^ s) m a b) (\<lambda>j. lval a j - lval b (j div 2 ^ s))"
    and "gives c i (m * 2 ^ s) (Mult_k c i (m * 2 ^ s) m a b) (\<lambda>j. lval a j * lval b (j div 2 ^ s))"
proof -
  have p: "limb_prime c i" and m: "0 < m" using assms by (simp_all add: operands2_def)
  note w = both_widths [OF p operands2_ops [OF assms]]
  show "gives c i (m * 2 ^ s) (add_k c i (m * 2 ^ s) m a b) (\<lambda>j. lval a j + lval b (j div 2 ^ s))"
    using w [where g = "\<lambda>v. v ! 0 + v ! 1" and f = "\<lambda>v. dmodadd c i (v ! 0) (v ! 1)" and h = "\<lambda>v. dmodadd32 c i (v ! 0) (v ! 1)"]
    by (simp add: add_k_def logstride_power [OF m] all_less dmodadd64_ok dmodadd32_ok [OF p])
  show "gives c i (m * 2 ^ s) (sub_k c i (m * 2 ^ s) m a b) (\<lambda>j. lval a j - lval b (j div 2 ^ s))"
    using w [where g = "\<lambda>v. v ! 0 - v ! 1" and f = "\<lambda>v. dmodsub c i (v ! 0) (v ! 1)" and h = "\<lambda>v. dmodsub32 c i (v ! 0) (v ! 1)"]
    by (simp add: sub_k_def logstride_power [OF m] all_less dmodsub64_ok dmodsub32_ok [OF p])
  show "gives c i (m * 2 ^ s) (add3_k c i (m * 2 ^ s) m a b) (\<lambda>j. lval a j + lval b (j div 2 ^ s))"
    using w [where g = "\<lambda>v. v ! 0 + v ! 1" and f = "\<lambda>v. dmodadd c i (v ! 0) (v ! 1)" and h = "\<lambda>v. dmodadd32 c i (v ! 0) (v ! 1)"]
    by (simp add: add3_k_def logstride_power [OF m] all_less dmodadd64_ok dmodadd32_ok [OF p])
  show "gives c i (m * 2 ^ s) (sub3_k c i (m * 2 ^ s) m a b) (\<lambda>j. lval a j - lval b (j div 2 ^ s))"
    using w [where g = "\<lambda>v. v ! 0 - v ! 1" and f = "\<lambda>v. dmodsub c i (v ! 0) (v ! 1)" and h = "\<lambda>v. dmodsub32 c i (v ! 0) (v ! 1)"]
    by (simp add: sub3_k_def logstride_power [OF m] all_less dmodsub64_ok dmodsub32_ok [OF p])
  show "gives c i (m * 2 ^ s) (Mult_k c i (m * 2 ^ s) m a b) (\<lambda>j. lval a j * lval b (j div 2 ^ s))"
    using w [where g = "\<lambda>v. v ! 0 * v ! 1" and f = "\<lambda>v. modmult_barrett c i (v ! 0) (v ! 1)" and h = "\<lambda>v. modmult_barrett32 c i (v ! 0) (v ! 1)"]
    by (simp add: Mult_k_def logstride_power [OF m] all_less barrett64_ok barrett32_ok [OF p])
qed

lemma scalar_kernels:
  assumes "limb_prime c i" and "limb_ok c i n a" and "i < length b" and "unat (b ! i) < dprime c i"
  shows "gives c i n (scalar_add_k c i n b a) (\<lambda>j. lval a j + uint (b ! i))"
    and "gives c i n (scalar_sub_k c i n b a) (\<lambda>j. lval a j - uint (b ! i))"
    and "gives c i n (Scalar_mult_k c i n b a) (\<lambda>j. lval a j * uint (b ! i))"
proof -
  have ops: "operands_ok c i n [(a, 0)]" using assms(2) by (auto simp: operands_ok_simps)
  have s: "unat (ucast (b ! i) :: u32) < dprime c i \<and> uint (ucast (b ! i) :: u32) = uint (b ! i)" if "\<not> ISU64 c i"
  proof -
    have "unat (b ! i) < 2 ^ 32" using assms(4) prime32_unat(3) [OF assms(1) that] by simp
    then have "unat (ucast (b ! i) :: u32) = unat (b ! i)" by (simp add: unat_ucast_u64_u32)
    then show ?thesis using assms(4) by (simp only: uint_nat)
  qed
  note w = both_widths [OF assms(1) ops] and p = assms(1)
  show "gives c i n (scalar_add_k c i n b a) (\<lambda>j. lval a j + uint (b ! i))"
    using w [where g = "\<lambda>v. v ! 0 + uint (b ! i)" and f = "\<lambda>v. dmodadd c i (v ! 0) (b ! i)" and h = "\<lambda>v. dmodadd32 c i (v ! 0) (ucast (b ! i))"]
      assms(3,4) by (simp add: scalar_add_k_def all_less dmodadd64_ok dmodadd32_ok [OF p] s)
  show "gives c i n (scalar_sub_k c i n b a) (\<lambda>j. lval a j - uint (b ! i))"
    using w [where g = "\<lambda>v. v ! 0 - uint (b ! i)" and f = "\<lambda>v. dmodsub c i (v ! 0) (b ! i)" and h = "\<lambda>v. dmodsub32 c i (v ! 0) (ucast (b ! i))"]
      assms(3,4) by (simp add: scalar_sub_k_def all_less dmodsub64_ok dmodsub32_ok [OF p] s)
  show "gives c i n (Scalar_mult_k c i n b a) (\<lambda>j. lval a j * uint (b ! i))"
    using w [where g = "\<lambda>v. v ! 0 * uint (b ! i)" and f = "\<lambda>v. modmult_barrett c i (v ! 0) (b ! i)"
      and h = "\<lambda>v. modmult_barrett32 c i (v ! 0) (ucast (b ! i))"]
      assms(3,4) by (simp add: Scalar_mult_k_def all_less barrett64_ok barrett32_ok [OF p] s)
qed


lemma three_operand_kernels:
  assumes "limb_prime c i" and "limb_ok c i n l" and "limb_ok c i n l1" and "limb_ok c i n l2"
  shows "gives c i n (addMult_k c i n m l l1 l2) (\<lambda>j. lval l j + lval l1 j * lval l2 j)"
    and "gives c i n (mult1Add2_k c i n l l1 l2) (\<lambda>j. lval l j * lval l1 j + lval l2 j)"
proof -
  have ops: "operands_ok c i n [(l, 0), (l1, 0), (l2, 0)]" using assms(2-4) by (auto simp: operands_ok_simps)
  note w = both_widths [OF assms(1) ops] and p = assms(1)
  show "gives c i n (addMult_k c i n m l l1 l2) (\<lambda>j. lval l j + lval l1 j * lval l2 j)"
    using w [where g = "\<lambda>v. v ! 0 + v ! 1 * v ! 2" and f = "\<lambda>v. dmodadd c i (v ! 0) (modmult_barrett c i (v ! 1) (v ! 2))"
      and h = "\<lambda>v. dmodadd32 c i (v ! 0) (modmult_barrett32 c i (v ! 1) (v ! 2))"]
    by (simp add: addMult_k_def all_less dmodadd64_ok dmodadd32_ok [OF p] barrett64_ok barrett32_ok [OF p] mod_simps)
  show "gives c i n (mult1Add2_k c i n l l1 l2) (\<lambda>j. lval l j * lval l1 j + lval l2 j)"
    using w [where g = "\<lambda>v. v ! 0 * v ! 1 + v ! 2" and f = "\<lambda>v. dmodadd c i (modmult_barrett c i (v ! 0) (v ! 1)) (v ! 2)"
      and h = "\<lambda>v. dmodadd32 c i (modmult_barrett32 c i (v ! 0) (v ! 1)) (v ! 2)"]
    by (simp add: mult1Add2_k_def all_less dmodadd64_ok dmodadd32_ok [OF p] barrett64_ok barrett32_ok [OF p] mod_simps)
qed

lemma all_less5: "(\<forall>k < 5. Q k) \<longleftrightarrow> Q 0 \<and> Q 1 \<and> Q 2 \<and> Q 3 \<and> Q (4::nat)"
  by (auto simp: less_Suc_eq numeral_eq_Suc)

text \<open>The kernels that only have a 64-bit branch.\<close>

lemma wide_kernels:
  assumes e: "prime_entry c i" and w: "ISU64 c i" and l: "limb_ok c i n l" "limb_ok c i n l1" "limb_ok c i n l2" "limb_ok c i n l3" "limb_ok c i n l4"
  shows "gives c i n (square_k c i n l) (\<lambda>j. (lval l j)\<^sup>2)"
    and "gives c i n (mult1AddMult23Add4_k c i n l l1 l2 l3 l4) (\<lambda>j. lval l j * lval l1 j + lval l4 j + lval l2 j * lval l3 j)"
proof -
  show "gives c i n (square_k c i n l) (\<lambda>j. (lval l j)\<^sup>2)"
  proof -
    have "operands_ok c i n [(l, 0)]" using l by (auto simp: operands_ok_simps)
    from row64_gives [OF w this, where g = "\<lambda>v. (v ! 0)\<^sup>2" and f = "\<lambda>v. modmult_barrett c i (v ! 0) (v ! 0)"]
    show ?thesis using w by (simp add: square_k_def all_less barrett64_ok [OF e] power2_eq_square)
  qed
  have ops: "operands_ok c i n [(l, 0), (l1, 0), (l2, 0), (l3, 0), (l4, 0)]" using l by (auto simp: operands_ok_simps)
  show "gives c i n (mult1AddMult23Add4_k c i n l l1 l2 l3 l4) (\<lambda>j. lval l j * lval l1 j + lval l4 j + lval l2 j * lval l3 j)"
    using row64_gives [OF w ops, where g = "\<lambda>v. v ! 0 * v ! 1 + v ! 4 + v ! 2 * v ! 3"
        and f = "\<lambda>v. let aux = v ! 4; res = modmult_barrett c i (v ! 0) (v ! 1); res = dmodadd c i res aux
                      in dmodadd c i res (modmult_barrett c i (v ! 2) (v ! 3))"] w
    by (simp add: mult1AddMult23Add4_k_def all_less5 Let_def dmodadd64_ok [OF e] barrett64_ok [OF e] mod_simps)
qed

lemma scale_kernels:
  assumes e: "prime_entry c i" and P: "P_entry c i" and w: "ISU64 c i" and m: "0 < m"
    and a: "limb_ok c i (m * 2 ^ s) a" and b: "limb_ok c i m b"
  shows "gives c i (m * 2 ^ s) (scaleByP_k c i (m * 2 ^ s) a) (\<lambda>j. lval a j * uint (hc_P c ! i))"
    and "gives c i (m * 2 ^ s) (add_scale_p_b_k c i (m * 2 ^ s) m a b) (\<lambda>j. lval a j + lval b (j div 2 ^ s) * uint (hc_P c ! i))"
    and "gives c i (m * 2 ^ s) (add_scale_p_a_k c i (m * 2 ^ s) m a b) (\<lambda>j. lval a j * uint (hc_P c ! i) + lval b (j div 2 ^ s))"
    and "gives c i (m * 2 ^ s) (addScaleB_k c i (m * 2 ^ s) m d a b) (\<lambda>j. lval a j * uint (hc_P c ! i) + lval b (j div 2 ^ s))"
    and "gives c i (m * 2 ^ s) (addScaleC_k c i (m * 2 ^ s) m d a b) (\<lambda>j. lval a j + lval b (j div 2 ^ s) * uint (hc_P c ! i))"
proof -
  let ?P = "uint (hc_P c ! i)"
  have o1: "operands_ok c i (m * 2 ^ s) [(a, 0)]" using a by (auto simp: operands_ok_simps)
  have ops: "operands_ok c i (m * 2 ^ s) [(a, 0), (b, s)]" using a b by (auto simp: operands_ok_simps)
  note sc = scale_P_ok [OF e P] and ad = dmodadd64_ok [OF e]
  show "gives c i (m * 2 ^ s) (scaleByP_k c i (m * 2 ^ s) a) (\<lambda>j. lval a j * ?P)"
    using row64_gives [OF w o1, where g = "\<lambda>v. v ! 0 * ?P" and f = "\<lambda>v. scale_P c i (v ! 0)"] w
    by (simp add: scaleByP_k_def all_less sc)
  show "gives c i (m * 2 ^ s) (add_scale_p_b_k c i (m * 2 ^ s) m a b) (\<lambda>j. lval a j + lval b (j div 2 ^ s) * ?P)"
    using row64_gives [OF w ops, where g = "\<lambda>v. v ! 0 + v ! 1 * ?P" and f = "\<lambda>v. dmodadd c i (v ! 0) (scale_P c i (v ! 1))"] w
    by (simp add: add_scale_p_b_k_def logstride_power [OF m] all_less sc ad mod_simps)
  show "gives c i (m * 2 ^ s) (add_scale_p_a_k c i (m * 2 ^ s) m a b) (\<lambda>j. lval a j * ?P + lval b (j div 2 ^ s))"
    using row64_gives [OF w ops, where g = "\<lambda>v. v ! 0 * ?P + v ! 1" and f = "\<lambda>v. dmodadd c i (v ! 1) (scale_P c i (v ! 0))"] w
    by (simp add: add_scale_p_a_k_def logstride_power [OF m] all_less sc ad mod_simps add.commute)
  show "gives c i (m * 2 ^ s) (addScaleB_k c i (m * 2 ^ s) m d a b) (\<lambda>j. lval a j * ?P + lval b (j div 2 ^ s))"
    using row64_gives [OF w ops, where g = "\<lambda>v. v ! 0 * ?P + v ! 1" and f = "\<lambda>v. dmodadd c i (scale_P c i (v ! 0)) (v ! 1)"] w
    by (simp add: addScaleB_k_def logstride_power [OF m] all_less sc ad mod_simps)
  show "gives c i (m * 2 ^ s) (addScaleC_k c i (m * 2 ^ s) m d a b) (\<lambda>j. lval a j + lval b (j div 2 ^ s) * ?P)"
    using row64_gives [OF w ops, where g = "\<lambda>v. v ! 0 + v ! 1 * ?P" and f = "\<lambda>v. dmodadd c i (scale_P c i (v ! 1)) (v ! 0)"] w
    by (simp add: addScaleC_k_def logstride_power [OF m] all_less sc ad mod_simps add.commute)
qed


definition gives2 :: "Constants \<Rightarrow> nat \<Rightarrow> nat \<Rightarrow> cpp_error + limb \<times> limb \<Rightarrow> (nat \<Rightarrow> int) \<Rightarrow> (nat \<Rightarrow> int) \<Rightarrow> bool" where
  "gives2 c i n res g h \<longleftrightarrow> gives c i n (bindE res (\<lambda>(x, y). Inr x)) g \<and> gives c i n (bindE res (\<lambda>(x, y). Inr y)) h"

lemma gives2I:
  "gives c i n r g \<Longrightarrow> gives c i n r' h \<Longrightarrow> gives2 c i n (bindE r (\<lambda>x. bindE r' (\<lambda>y. Inr (x, y)))) g h"
  by (auto simp: gives_def gives2_def)

lemma multnomoddownend_gives:
  assumes e: "prime_entry c i" and P: "P_entry c i" and w: "ISU64 c i"
    and l: "limb_ok c i n c1" "limb_ok c i n c0" "limb_ok c i n bc0" "limb_ok c i n bc1" "limb_ok c i n inp" "limb_ok c i n aux"
  shows "gives2 c i n (multnomoddownend_k c i n c1 c0 bc0 bc1 inp aux)
    (\<lambda>j. (lval c1 j * lval bc0 j + lval c0 j * lval bc1 j) * uint (hc_P c ! i) + lval inp j)
    (\<lambda>j. lval c0 j * lval bc0 j * uint (hc_P c ! i) + lval aux j)"
proof -
  let ?P = "uint (hc_P c ! i)" and ?m = "modmult_barrett c i" and ?a = "dmodadd c i"
  note ar = scale_P_ok [OF e P] dmodadd64_ok [OF e] barrett64_ok [OF e]
  have o5: "operands_ok c i n [(c1, 0), (c0, 0), (bc0, 0), (bc1, 0), (inp, 0)]" using l by (auto simp: operands_ok_simps)
  have o3: "operands_ok c i n [(c0, 0), (bc0, 0), (aux, 0)]" using l by (auto simp: operands_ok_simps)
  let ?f = "\<lambda>v. let res = scale_P c i (?m (v ! 0) (v ! 2)); res = ?a res (v ! 4) in ?a res (scale_P c i (?m (v ! 1) (v ! 3)))"
  let ?h = "\<lambda>v. ?a (scale_P c i (?m (v ! 0) (v ! 1))) (v ! 2)"
  have "gives c i n (row64 n ?f [(c1, 0), (c0, 0), (bc0, 0), (bc1, 0), (inp, 0)])
      (\<lambda>j. (lval c1 j * lval bc0 j + lval c0 j * lval bc1 j) * ?P + lval inp j)"
    by (rule gives_cong [OF row64_gives [OF w o5, where g = "\<lambda>v. v ! 0 * v ! 2 * ?P + v ! 4 + v ! 1 * v ! 3 * ?P"]],
        simp add: all_less5 Let_def ar mod_simps) (simp add: algebra_simps)
  moreover have "gives c i n (row64 n ?h [(c0, 0), (bc0, 0), (aux, 0)]) (\<lambda>j. lval c0 j * lval bc0 j * ?P + lval aux j)"
    by (rule gives_cong [OF row64_gives [OF w o3, where g = "\<lambda>v. v ! 0 * v ! 1 * ?P + v ! 2"]])
      (simp_all add: all_less Let_def ar mod_simps)
  ultimately show ?thesis using w by (simp add: multnomoddownend_k_def Let_def gives2I)
qed

lemma binomial_square_fold_gives:
  assumes e: "prime_entry c i" and w: "ISU64 c i"
    and l: "limb_ok c i n c0" "limb_ok c i n c1" "limb_ok c i n k0" "limb_ok c i n k1"
  shows "gives2 c i n (binomial_square_fold_k c i n c0 k0 c1 k1)
    (\<lambda>j. (lval c0 j)\<^sup>2 + lval k0 j) (\<lambda>j. 2 * lval c0 j * lval c1 j + lval k1 j)"
proof -
  let ?m = "modmult_barrett c i" and ?a = "dmodadd c i"
  note ar = dmodadd64_ok [OF e] barrett64_ok [OF e]
  have o2: "operands_ok c i n [(c0, 0), (k0, 0)]" and o3: "operands_ok c i n [(c0, 0), (c1, 0), (k1, 0)]"
    using l by (auto simp: operands_ok_simps)
  have "gives c i n (row64 n (\<lambda>v. ?a (?m (v ! 0) (v ! 0)) (v ! 1)) [(c0, 0), (k0, 0)]) (\<lambda>j. (lval c0 j)\<^sup>2 + lval k0 j)"
    by (rule gives_cong [OF row64_gives [OF w o2, where g = "\<lambda>v. v ! 0 * v ! 0 + v ! 1"]])
      (simp_all add: all_less ar mod_simps power2_eq_square)
  moreover have "gives c i n (row64 n (\<lambda>v. let aux = ?m (v ! 0) (v ! 1); aux2 = ?a aux aux in ?a aux2 (v ! 2)) [(c0, 0), (c1, 0), (k1, 0)])
      (\<lambda>j. 2 * lval c0 j * lval c1 j + lval k1 j)"
    by (rule gives_cong [OF row64_gives [OF w o3, where g = "\<lambda>v. v ! 0 * v ! 1 + v ! 0 * v ! 1 + v ! 2"]])
      (simp_all add: all_less Let_def ar mod_simps mult.assoc)
  ultimately show ?thesis using w by (simp add: binomial_square_fold_k_def Let_def gives2I)
qed

lemma weighted_fold:
  assumes e: "prime_entry c i" and "\<forall>k < m. unat (v ! k) < dprime c i" and "\<forall>k < m. unat (weight w k i) < dprime c i"
    and r: "r = fold (\<lambda>k res. dmodadd c i res (modmult_barrett c i (v ! k) (weight w k i))) [0..<m] 0"
  shows "unat r < dprime c i \<and> uint r = (\<Sum>k<m. uint (v ! k) * uint (weight w k i)) mod iprime c i"
  using assms(2-4)
proof (induction m arbitrary: r)
  case 0
  then show ?case using prime_entry_bounds(1) [OF e] by simp
next
  case (Suc m)
  then show ?case by (simp add: dmodadd64_ok [OF e] barrett64_ok [OF e] mod_simps)
qed

lemma weighted_sum_gives:
  assumes e: "prime_entry c i" and w: "ISU64 c i" and bs: "\<forall>b \<in> set bs. limb_ok c i n b" and i: "i < MAXP"
    and ws: "\<forall>k < length bs. unat (weight w k i) < dprime c i" and n: "(length bs - 1) * MAXP + i < length w"
  shows "gives c i n (eval_linear_w_sum_k c i n bs w) (\<lambda>j. \<Sum>k<length bs. lval (bs ! k) j * uint (weight w k i))"
proof -
  have ops: "operands_ok c i n (map (\<lambda>b. (b, 0)) bs)" using bs by (auto simp: operands_ok_def)
  have "gives c i n (row64 n (\<lambda>v. fold (\<lambda>k res. dmodadd c i res (modmult_barrett c i (v ! k) (weight w k i))) [0..<length bs] 0)
      (map (\<lambda>b. (b, 0)) bs)) (\<lambda>j. (\<lambda>v. \<Sum>k<length bs. v ! k * uint (weight w k i)) (map (\<lambda>(l, s). lval l (j div 2 ^ s)) (map (\<lambda>b. (b, 0)) bs)))"
    by (rule row64_gives [OF w ops]) (use weighted_fold [OF e _ ws refl] in simp)
  then show ?thesis using n by (simp add: eval_linear_w_sum_k_def gives_cong)
qed

lemma weighted_sum_with_bias_gives:
  assumes e: "prime_entry c i" and w: "ISU64 c i" and bs: "\<forall>b \<in> set bs. limb_ok c i n b" and i: "i < MAXP"
    and ws: "\<forall>k < Suc (length bs). unat (weight w k i) < dprime c i" and n: "length bs * MAXP + i < length w"
  shows "gives c i n (eval_linear_w_sum_with_bias_k c i n bs w)
    (\<lambda>j. (\<Sum>k<length bs. lval (bs ! k) j * uint (weight w k i)) + uint (weight w (length bs) i))"
proof -
  have ops: "operands_ok c i n (map (\<lambda>b. (b, 0)) bs)" using bs by (auto simp: operands_ok_def)
  have ws': "\<forall>k < length bs. unat (weight w k i) < dprime c i" and wb: "unat (weight w (length bs) i) < dprime c i" using ws by simp_all
  have "gives c i n (row64 n (\<lambda>v. dmodadd c i (fold (\<lambda>k res. dmodadd c i res (modmult_barrett c i (v ! k) (weight w k i))) [0..<length bs] 0)
      (weight w (length bs) i)) (map (\<lambda>b. (b, 0)) bs))
    (\<lambda>j. (\<lambda>v. (\<Sum>k<length bs. v ! k * uint (weight w k i)) + uint (weight w (length bs) i))
      (map (\<lambda>(l, s). lval l (j div 2 ^ s)) (map (\<lambda>b. (b, 0)) bs)))"
    by (rule row64_gives [OF w ops]) (use weighted_fold [OF e _ ws' refl] wb in \<open>simp add: dmodadd64_ok [OF e] mod_simps\<close>)
  then show ?thesis using n by (simp add: eval_linear_w_sum_with_bias_k_def gives_cong)
qed

lemma copy_gives:
  assumes "limb_ok c i n l" and "ISU64 c y = ISU64 c i"
  shows "copy_k c y n l = Inr l"
proof -
  have id: "threads_run n (\<lambda>v. v ! 0) [(x, 0)] = Inr x" if "length x = n" for x :: "'a list"
    by (subst threads_run_ok) (use that in \<open>auto simp: map_nth\<close>)
  show ?thesis using assms by (cases l) (simp_all add: limb_ok_def copy_k_def row64_def row32_def get64_def get32_def id)
qed


section \<open>The Shoup companions of a 32-bit prime\<close>

text \<open>\<open>shoup_precomp\<close> scales by \<open>2^64\<close> for every prime, but the 32-bit kernels truncate the companion to
  32 bits and use it at the scale \<open>2^32\<close>. With the prime 97 in the ring of dimension 4, scaling by
  the inverse of the dimension then returns a value that is not reduced.\<close>

definition narrow_constants :: Constants where
  "narrow_constants = (case SetupConstants [\<lparr>pr_p = 97, pr_type = None, pr_bits = 7\<rparr>]
     [[\<lparr>lr_id = 0, lr_type = U32, lr_digit = 0\<rparr>]] [] [] [[0]] 4 of Inr c \<Rightarrow> c | Inl e \<Rightarrow> undefined)"

lemma narrow_shoup_not_reduced:
  "(let c = narrow_constants; n = hc_N_inv c ! 0
    in (ISU64 c 0, hc_primes c ! 0, n, modmult_shoup32 c 0 4 (ucast n) (ucast (hc_N_inv_shoup c ! 0)))) = (False, 97, 73, 98)"
  by code_simp

end
