(* ===== verification/PartitionOps.thy ===== *)
theory PartitionOps
  imports LimbKernels
begin

text \<open>
  The elementwise operations of \<open>src/src/CKKS/LimbPartition.cu\<close>: the limbs of a polynomial that one
  device holds, updated in launches of \<open>cc.batch\<close> rows. A row touches the limb of its index only, so
  the rows of a launch are taken in order; a batch size of zero never ends the loop, which the
  result \<open>None\<close> records.
\<close>

section \<open>The state of a partition\<close>

record Partition =
  lp_limb :: "limb list"
  lp_special :: "limb list"
  lp_bufferLIMB :: bool
  lp_bufferSPECIAL :: bool

text \<open>What a partition reads from its context and device: \<open>meta\<close>, \<open>SPECIALmeta\<close>, the share of the
  special limbs and the device's constants.\<close>

record PartCtx =
  pc_consts :: Constants
  pc_batch :: nat
  pc_L :: nat
  pc_N :: nat
  pc_flexext :: bool
  pc_meta :: "LimbRecord list"
  pc_smeta :: "LimbRecord list"
  pc_split :: "LimbRecord list"

abbreviation pid :: "PartCtx \<Rightarrow> nat \<Rightarrow> nat" where
  "pid ctx j \<equiv> lr_id (pc_meta ctx ! j)"

abbreviation sid :: "PartCtx \<Rightarrow> nat \<Rightarrow> nat" where
  "sid ctx j \<equiv> lr_id (pc_smeta ctx ! j)"

definition getLimbSize :: "PartCtx \<Rightarrow> int \<Rightarrow> nat" where
  "getLimbSize ctx level =
     (let level = (if level = int (pc_L ctx) + 1 then level - 1 - (if pc_flexext ctx then 1 else 0) else level)
      in length (takeWhile (\<lambda>m. int (lr_id m) \<le> level) (pc_meta ctx)))"

definition numSpecialLimbs :: "PartCtx \<Rightarrow> nat" where
  "numSpecialLimbs ctx = length (pc_split ctx)"

definition special_start :: "PartCtx \<Rightarrow> nat" where
  "special_start ctx = (if 0 < numSpecialLimbs ctx then lr_id (pc_split ctx ! 0) - (pc_L ctx + 1) else 0)"

definition limb_size :: "limb \<Rightarrow> nat" where
  "limb_size l = (case l of L32 x \<Rightarrow> length x | L64 x \<Rightarrow> length x)"

text \<open>\<open>GetGridDimX\<close> times \<open>GetBlockDimX\<close>: the threads of a row.\<close>

definition GetGridDimX :: "PartCtx \<Rightarrow> int \<Rightarrow> Partition \<Rightarrow> nat" where
  "GetGridDimX ctx lev p = (if getLimbSize ctx lev \<noteq> 0 then (limb_size (lp_limb p ! 0) + 127) div 128 else 0)"

definition GetBlockDimX :: "PartCtx \<Rightarrow> int \<Rightarrow> Partition \<Rightarrow> nat" where
  "GetBlockDimX ctx lev p = (if getLimbSize ctx lev \<noteq> 0 then min (limb_size (lp_limb p ! 0)) 128 else 0)"

definition row_threads :: "PartCtx \<Rightarrow> int \<Rightarrow> Partition \<Rightarrow> nat" where
  "row_threads ctx lev p = GetGridDimX ctx lev p * GetBlockDimX ctx lev p"

section \<open>Launches of rows\<close>

definition limb_at :: "'a list \<Rightarrow> nat \<Rightarrow> cpp_error + 'a" where
  "limb_at xs j = (if j < length xs then Inr (xs ! j) else Inl Undefined_behaviour)"

definition modify_at :: "nat \<Rightarrow> ('a \<Rightarrow> cpp_error + 'a) \<Rightarrow> 'a list \<Rightarrow> cpp_error + 'a list" where
  "modify_at j f xs = bindE (limb_at xs j) (\<lambda>x. bindE (f x) (\<lambda>y. Inr (xs[j := y])))"

definition launch :: "(nat \<Rightarrow> 's \<Rightarrow> cpp_error + 's) \<Rightarrow> nat \<Rightarrow> nat \<Rightarrow> 's \<Rightarrow> cpp_error + 's" where
  "launch row i num s = foldE (\<lambda>s y. row (i + y) s) s [0..<num]"

text \<open>\<open>for (i = start; i < stop; i += batch)\<close> over launches of at most \<open>batch\<close> rows.\<close>

partial_function (option) batch_loop :: "(nat \<Rightarrow> nat \<Rightarrow> 's \<Rightarrow> cpp_error + 's) \<Rightarrow> nat \<Rightarrow> nat \<Rightarrow> nat \<Rightarrow> 's \<Rightarrow> (cpp_error + 's) option" where
  "batch_loop k stop batch i s =
     (if i < stop
      then (case k i (min (stop - i) batch) s of
              Inl e \<Rightarrow> Some (Inl e)
            | Inr s' \<Rightarrow> batch_loop k stop batch (i + batch) s')
      else Some (Inr s))"

declare batch_loop.simps [code]

definition assertO :: "bool \<Rightarrow> (cpp_error + 'b) option \<Rightarrow> (cpp_error + 'b) option" where
  "assertO P r = (if P then r else Some (Inl Assert_failed))"

text \<open>The rows of the regular limbs and of the device's share of the special limbs.\<close>

definition limb_rows :: "PartCtx \<Rightarrow> nat \<Rightarrow> (nat \<Rightarrow> nat \<Rightarrow> limb \<Rightarrow> cpp_error + limb) \<Rightarrow> limb list \<Rightarrow> (cpp_error + limb list) option" where
  "limb_rows ctx sz k dst = batch_loop (launch (\<lambda>j. modify_at j (k j (pid ctx j)))) sz (pc_batch ctx) 0 dst"

text \<open>\<open>GetGridDimX\<close> is zero when the level leaves the device no regular limb: the launch over its special
  limbs is then refused and leaves them as they are.\<close>

definition on_grid :: "nat \<Rightarrow> (limb \<Rightarrow> cpp_error + limb) \<Rightarrow> limb \<Rightarrow> cpp_error + limb" where
  "on_grid n f x = (if n = 0 then Inr x else f x)"

definition special_rows :: "PartCtx \<Rightarrow> nat \<Rightarrow> nat \<Rightarrow> nat \<Rightarrow> (nat \<Rightarrow> nat \<Rightarrow> limb \<Rightarrow> cpp_error + limb) \<Rightarrow> limb list \<Rightarrow> (cpp_error + limb list) option" where
  "special_rows ctx n start num k dst =
     batch_loop (launch (\<lambda>j. modify_at j (on_grid n (k j (sid ctx j))))) (start + num) (pc_batch ctx) start dst"

definition special_copy :: "PartCtx \<Rightarrow> nat \<Rightarrow> nat \<Rightarrow> nat \<Rightarrow> limb list \<Rightarrow> limb list \<Rightarrow> (cpp_error + limb list) option" where
  "special_copy ctx n start num src dst =
     batch_loop (\<lambda>i sz. launch (\<lambda>j. modify_at j (on_grid n (\<lambda>_. bindE (limb_at src j) (copy_k (pc_consts ctx) (j - i) n)))) i sz)
       (start + num) (pc_batch ctx) start dst"

section \<open>The operations\<close>

definition with_operand :: "limb list \<Rightarrow> nat \<Rightarrow> (limb \<Rightarrow> cpp_error + limb) \<Rightarrow> cpp_error + limb" where
  "with_operand xs j f = bindE (limb_at xs j) f"

definition lp_add :: "PartCtx \<Rightarrow> int \<Rightarrow> Partition \<Rightarrow> bool \<Rightarrow> bool \<Rightarrow> nat \<Rightarrow> Partition \<Rightarrow> (cpp_error + Partition) option" where
  "lp_add ctx lev p exta extb slots dst =
     (let c = pc_consts ctx; n = row_threads ctx lev dst; start = special_start ctx; num = numSpecialLimbs ctx
      in thenO (limb_rows ctx (getLimbSize ctx lev)
           (\<lambda>j i a. with_operand (lp_limb p) j (\<lambda>b.
              if exta = extb then add_k c i n (2 * slots) a b
              else if exta then add_scale_p_b_k c i n (2 * slots) a b
              else add_scale_p_a_k c i n (2 * slots) a b)) (lp_limb dst)) (\<lambda>limbs.
         if extb \<and> \<not> exta
         then assertO (num = 0 \<or> 2 * slots = pc_N ctx)
                (thenO (special_copy ctx n start num (lp_special p) (lp_special dst))
                 (\<lambda>sp. Some (Inr (dst\<lparr>lp_limb := limbs, lp_special := sp\<rparr>))))
         else if exta \<and> extb
         then thenO (special_rows ctx n start num
                (\<lambda>j i a. with_operand (lp_special p) j (add_k c i n (2 * slots) a)) (lp_special dst))
                (\<lambda>sp. Some (Inr (dst\<lparr>lp_limb := limbs, lp_special := sp\<rparr>)))
         else Some (Inr (dst\<lparr>lp_limb := limbs\<rparr>))))"

definition lp_scaleByP :: "PartCtx \<Rightarrow> int \<Rightarrow> Partition \<Rightarrow> (cpp_error + Partition) option" where
  "lp_scaleByP ctx lev dst =
     thenO (limb_rows ctx (getLimbSize ctx lev) (\<lambda>j i. scaleByP_k (pc_consts ctx) i (row_threads ctx lev dst)) (lp_limb dst))
       (\<lambda>limbs. Some (Inr (dst\<lparr>lp_limb := limbs\<rparr>)))"

definition lp_sub :: "PartCtx \<Rightarrow> int \<Rightarrow> Partition \<Rightarrow> nat \<Rightarrow> Partition \<Rightarrow> (cpp_error + Partition) option" where
  "lp_sub ctx lev p slots dst =
     thenO (limb_rows ctx (getLimbSize ctx lev)
       (\<lambda>j i a. with_operand (lp_limb p) j (sub_k (pc_consts ctx) i (row_threads ctx lev dst) (2 * slots) a)) (lp_limb dst))
       (\<lambda>limbs. Some (Inr (dst\<lparr>lp_limb := limbs\<rparr>)))"

definition lp_multElement :: "PartCtx \<Rightarrow> int \<Rightarrow> Partition \<Rightarrow> nat \<Rightarrow> Partition \<Rightarrow> (cpp_error + Partition) option" where
  "lp_multElement ctx lev p slots dst =
     assertO (getLimbSize ctx lev \<le> length (lp_limb p))
       (thenO (limb_rows ctx (getLimbSize ctx lev)
          (\<lambda>j i a. with_operand (lp_limb p) j (Mult_k (pc_consts ctx) i (row_threads ctx lev dst) (2 * slots) a)) (lp_limb dst))
          (\<lambda>limbs. Some (Inr (dst\<lparr>lp_limb := limbs\<rparr>))))"

text \<open>\<open>multElement\<close> of two operands passes \<open>slots_p2\<close> itself as the number of elements.\<close>

definition lp_multElement2 :: "PartCtx \<Rightarrow> int \<Rightarrow> Partition \<Rightarrow> Partition \<Rightarrow> nat \<Rightarrow> Partition \<Rightarrow> (cpp_error + Partition) option" where
  "lp_multElement2 ctx lev p1 p2 slots_p2 dst =
     assertO (getLimbSize ctx lev \<le> length (lp_limb p1) \<and> getLimbSize ctx lev \<le> length (lp_limb p2))
       (thenO (limb_rows ctx (getLimbSize ctx lev)
          (\<lambda>j i _. with_operand (lp_limb p1) j (\<lambda>a. with_operand (lp_limb p2) j
             (Mult_k (pc_consts ctx) i (row_threads ctx lev dst) slots_p2 a))) (lp_limb dst))
          (\<lambda>limbs. Some (Inr (dst\<lparr>lp_limb := limbs\<rparr>))))"

definition lp_multElementSpecial :: "PartCtx \<Rightarrow> int \<Rightarrow> Partition \<Rightarrow> nat \<Rightarrow> Partition \<Rightarrow> (cpp_error + Partition) option" where
  "lp_multElementSpecial ctx lev p slots dst =
     (let ssize = length (lp_special dst)
      in if ssize = 0 then Some (Inr dst)
         else assertO (ssize \<le> length (lp_special p))
           (thenO (special_rows ctx (row_threads ctx lev dst) 0 ssize
              (\<lambda>j i a. with_operand (lp_special p) j (Mult_k (pc_consts ctx) i (row_threads ctx lev dst) (2 * slots) a)) (lp_special dst))
              (\<lambda>sp. Some (Inr (dst\<lparr>lp_special := sp\<rparr>)))))"


definition lp_mult1AddMult23Add4 :: "PartCtx \<Rightarrow> int \<Rightarrow> Partition \<Rightarrow> Partition \<Rightarrow> Partition \<Rightarrow> Partition \<Rightarrow> Partition \<Rightarrow> (cpp_error + Partition) option" where
  "lp_mult1AddMult23Add4 ctx lev p1 p2 p3 p4 dst =
     (let sz = getLimbSize ctx lev
      in assertO (list_all (\<lambda>p. sz \<le> length (lp_limb p)) [p1, p2, p3, p4])
        (thenO (limb_rows ctx sz (\<lambda>j i l.
            with_operand (lp_limb p1) j (\<lambda>l1. with_operand (lp_limb p2) j (\<lambda>l2.
            with_operand (lp_limb p3) j (\<lambda>l3. with_operand (lp_limb p4) j
              (mult1AddMult23Add4_k (pc_consts ctx) i (row_threads ctx lev dst) l l1 l2 l3))))) (lp_limb dst))
          (\<lambda>limbs. Some (Inr (dst\<lparr>lp_limb := limbs\<rparr>)))))"

definition lp_mult1Add2 :: "PartCtx \<Rightarrow> int \<Rightarrow> Partition \<Rightarrow> Partition \<Rightarrow> Partition \<Rightarrow> (cpp_error + Partition) option" where
  "lp_mult1Add2 ctx lev p1 p2 dst =
     (let sz = getLimbSize ctx lev
      in assertO (sz \<le> length (lp_limb p1) \<and> sz \<le> length (lp_limb p2))
        (thenO (limb_rows ctx sz (\<lambda>j i l.
            with_operand (lp_limb p1) j (\<lambda>l1. with_operand (lp_limb p2) j
              (mult1Add2_k (pc_consts ctx) i (row_threads ctx lev dst) l l1))) (lp_limb dst))
          (\<lambda>limbs. Some (Inr (dst\<lparr>lp_limb := limbs\<rparr>)))))"

definition lp_addMult :: "PartCtx \<Rightarrow> int \<Rightarrow> Partition \<Rightarrow> Partition \<Rightarrow> nat \<Rightarrow> Partition \<Rightarrow> (cpp_error + Partition) option" where
  "lp_addMult ctx lev a b slots dst =
     (let sz = getLimbSize ctx lev
      in assertO (sz \<le> length (lp_limb a) \<and> sz \<le> length (lp_limb b))
        (thenO (limb_rows ctx sz (\<lambda>j i l.
            with_operand (lp_limb a) j (\<lambda>l1. with_operand (lp_limb b) j
              (addMult_k (pc_consts ctx) i (row_threads ctx lev dst) (2 * slots) l l1))) (lp_limb dst))
          (\<lambda>limbs. Some (Inr (dst\<lparr>lp_limb := limbs\<rparr>)))))"

definition lp_squareElement :: "PartCtx \<Rightarrow> int \<Rightarrow> Partition \<Rightarrow> Partition \<Rightarrow> (cpp_error + Partition) option" where
  "lp_squareElement ctx lev p dst =
     thenO (limb_rows ctx (min (getLimbSize ctx lev) (length (lp_limb p)))
       (\<lambda>j i _. with_operand (lp_limb p) j (square_k (pc_consts ctx) i (row_threads ctx lev dst))) (lp_limb dst))
       (\<lambda>limbs. Some (Inr (dst\<lparr>lp_limb := limbs\<rparr>)))"

definition lp_addScalar :: "PartCtx \<Rightarrow> int \<Rightarrow> u64 list \<Rightarrow> Partition \<Rightarrow> (cpp_error + Partition) option" where
  "lp_addScalar ctx lev v dst =
     thenO (limb_rows ctx (getLimbSize ctx lev) (\<lambda>j i. scalar_add_k (pc_consts ctx) i (row_threads ctx lev dst) v) (lp_limb dst))
       (\<lambda>limbs. Some (Inr (dst\<lparr>lp_limb := limbs\<rparr>)))"

definition lp_subScalar :: "PartCtx \<Rightarrow> int \<Rightarrow> u64 list \<Rightarrow> Partition \<Rightarrow> (cpp_error + Partition) option" where
  "lp_subScalar ctx lev v dst =
     thenO (limb_rows ctx (getLimbSize ctx lev) (\<lambda>j i. scalar_sub_k (pc_consts ctx) i (row_threads ctx lev dst) v) (lp_limb dst))
       (\<lambda>limbs. Some (Inr (dst\<lparr>lp_limb := limbs\<rparr>)))"

text \<open>\<open>multScalar\<close> also scales the first special limb when the polynomial stands at the level past the last.\<close>

definition lp_multScalar :: "PartCtx \<Rightarrow> int \<Rightarrow> u64 list \<Rightarrow> Partition \<Rightarrow> (cpp_error + Partition) option" where
  "lp_multScalar ctx lev v dst =
     (let c = pc_consts ctx; n = row_threads ctx lev dst
      in thenO (limb_rows ctx (getLimbSize ctx lev) (\<lambda>j i. Scalar_mult_k c i n v) (lp_limb dst)) (\<lambda>limbs.
         if lev = int (pc_L ctx) + 1 \<and> pc_smeta ctx \<noteq> [] \<and> sid ctx 0 = pc_L ctx + 1
         then (case modify_at 0 (on_grid n (Scalar_mult_k c (sid ctx 0) n v)) (lp_special dst) of
                 Inl e \<Rightarrow> Some (Inl e)
               | Inr sp \<Rightarrow> Some (Inr (dst\<lparr>lp_limb := limbs, lp_special := sp\<rparr>)))
         else Some (Inr (dst\<lparr>lp_limb := limbs\<rparr>))))"

text \<open>\<open>*this = a + b\<close> for operands of which either may be extended.\<close>

definition lp_add3 :: "PartCtx \<Rightarrow> int \<Rightarrow> Partition \<Rightarrow> Partition \<Rightarrow> bool \<Rightarrow> bool \<Rightarrow> nat \<Rightarrow> Partition \<Rightarrow> (cpp_error + Partition) option" where
  "lp_add3 ctx lev a b ext_a ext_b slots_b dst =
     (let k = pc_consts ctx; n = row_threads ctx lev dst; start = special_start ctx; num = numSpecialLimbs ctx;
          copy = (\<lambda>src. special_copy ctx n start num (lp_special src) (lp_special dst))
      in thenO (limb_rows ctx (getLimbSize ctx lev)
           (\<lambda>j i d. with_operand (lp_limb a) j (\<lambda>x. with_operand (lp_limb b) j (\<lambda>y.
              if \<not> ext_a \<and> ext_b then addScaleB_k k i n (2 * slots_b) d x y
              else if \<not> ext_b \<and> ext_a then addScaleC_k k i n (2 * slots_b) d x y
              else add3_k k i n (2 * slots_b) x y))) (lp_limb dst)) (\<lambda>limbs.
         if ext_a \<or> ext_b
         then thenO (if \<not> ext_a \<and> ext_b then assertO (num = 0 \<or> 2 * slots_b = pc_N ctx) (copy b)
                     else if \<not> ext_b \<and> ext_a then copy a
                     else special_rows ctx n start num
                       (\<lambda>j i _. with_operand (lp_special a) j (\<lambda>x. with_operand (lp_special b) j (add3_k k i n (2 * slots_b) x)))
                       (lp_special dst))
                (\<lambda>sp. Some (Inr (dst\<lparr>lp_limb := limbs, lp_special := sp\<rparr>)))
         else Some (Inr (dst\<lparr>lp_limb := limbs\<rparr>))))"

text \<open>\<open>copyLimb\<close> is one launch over all rows.\<close>

definition lp_copyLimb :: "PartCtx \<Rightarrow> int \<Rightarrow> int \<Rightarrow> Partition \<Rightarrow> Partition \<Rightarrow> (cpp_error + Partition) option" where
  "lp_copyLimb ctx lev plev p dst =
     assertO (lev = plev)
       (case launch (\<lambda>j. modify_at j (\<lambda>_. with_operand (lp_limb p) j (copy_k (pc_consts ctx) j (row_threads ctx lev dst))))
          0 (getLimbSize ctx lev) (lp_limb dst) of
          Inl e \<Rightarrow> Some (Inl e)
        | Inr limbs \<Rightarrow> Some (Inr (dst\<lparr>lp_limb := limbs\<rparr>)))"

text \<open>Two operations that update a pair of partitions.\<close>

definition lp_binomialSquareFold :: "PartCtx \<Rightarrow> int \<Rightarrow> Partition \<Rightarrow> Partition \<Rightarrow> Partition \<Rightarrow> Partition \<Rightarrow> (cpp_error + Partition \<times> Partition) option" where
  "lp_binomialSquareFold ctx lev ks0 ks1 dst c0_res =
     (let n = row_threads ctx lev dst
      in thenO (batch_loop (launch (\<lambda>j (xs, ys).
            bindE (limb_at xs j) (\<lambda>c0. bindE (limb_at (lp_limb ks0) j) (\<lambda>k0.
            bindE (limb_at ys j) (\<lambda>c1. bindE (limb_at (lp_limb ks1) j) (\<lambda>k1.
            bindE (binomial_square_fold_k (pc_consts ctx) (pid ctx j) n c0 k0 c1 k1) (\<lambda>(r0, r1). Inr (xs[j := r0], ys[j := r1]))))))))
            (getLimbSize ctx lev) (pc_batch ctx) 0 (lp_limb c0_res, lp_limb dst))
          (\<lambda>(xs, ys). Some (Inr (c0_res\<lparr>lp_limb := xs\<rparr>, dst\<lparr>lp_limb := ys\<rparr>))))"

definition lp_evalLinearWSum :: "PartCtx \<Rightarrow> int \<Rightarrow> Partition list \<Rightarrow> u64 list \<Rightarrow> bool \<Rightarrow> Partition \<Rightarrow> (cpp_error + Partition) option" where
  "lp_evalLinearWSum ctx lev ps weights with_bias dst =
     (let sz = getLimbSize ctx lev; n = row_threads ctx lev dst;
          row = (\<lambda>j i. bindE (mapE (\<lambda>p. limb_at (lp_limb p) j) ps) (\<lambda>bs.
                   if with_bias then eval_linear_w_sum_with_bias_k (pc_consts ctx) i n bs weights
                   else eval_linear_w_sum_k (pc_consts ctx) i n bs weights))
      in assertO (list_all (\<lambda>p. sz \<le> length (lp_limb p)) ps)
        (if lp_limb dst \<noteq> [] \<and> 0 < sz
         then (case launch (\<lambda>j. modify_at j (\<lambda>_. row j (pid ctx j))) 0 sz (lp_limb dst) of
                 Inl e \<Rightarrow> Some (Inl e)
               | Inr limbs \<Rightarrow> Some (Inr (dst\<lparr>lp_limb := limbs\<rparr>)))
         else Some (Inr dst)))"

section \<open>A batched loop runs every row once\<close>

lemma launch_shift: "launch row i num s = foldE (\<lambda>s j. row j s) s [i..<i + num]"
proof (induction num arbitrary: s)
  case (Suc num)
  then show ?case by (simp add: launch_def foldE_append)
qed (simp add: launch_def)

lemma bindE_cong: "(\<And>y. f y = g y) \<Longrightarrow> bindE r f = bindE r g"
  by (cases r) simp_all

lemma foldE_cong: "(\<And>x s. x \<in> set xs \<Longrightarrow> f s x = g s x) \<Longrightarrow> foldE f s xs = foldE g s xs"
  by (induction xs arbitrary: s) (auto intro!: bindE_cong)

lemma batch_loop_launch:
  assumes "0 < batch" and "\<And>i sz s. start \<le> i \<Longrightarrow> i + sz \<le> stop \<Longrightarrow> k i sz s = launch row i sz s" and "start \<le> i"
  shows "batch_loop k stop batch i s = Some (foldE (\<lambda>s j. row j s) s [i..<stop])"
  using assms(3)
proof (induction "stop - i" arbitrary: i s rule: less_induct)
  case less
  show ?case
  proof (cases "i < stop")
    case True
    define m where "m = min (stop - i) batch"
    have m: "0 < m" "i + m \<le> stop" using True assms(1) by (auto simp: m_def)
    have split: "[i..<stop] = [i..<i + m] @ [i + m..<stop]" using m upt_add_eq_append [of i "i + m" "stop - (i + m)"] by simp
    have rest: "foldE (\<lambda>s j. row j s) s' [i + m..<stop] = foldE (\<lambda>s j. row j s) s' [i + batch..<stop]" for s'
      by (cases "stop - i \<le> batch") (auto simp: m_def)
    have IH: "batch_loop k stop batch (i + batch) s' = Some (foldE (\<lambda>s j. row j s) s' [i + batch..<stop])" for s'
      using True assms(1) less.prems by (intro less.hyps) simp_all
    show ?thesis
      by (subst batch_loop.simps)
        (simp add: True assms(2) [OF less.prems m(2)] launch_shift m_def [symmetric] split foldE_append IH rest split: sum.split)
  next
    case False
    then show ?thesis by (simp add: batch_loop.simps)
  qed
qed

lemma batch_loop_rows:
  "0 < batch \<Longrightarrow> batch_loop (launch row) stop batch i s = Some (foldE (\<lambda>s j. row j s) s [i..<stop])"
  by (rule batch_loop_launch [of batch i stop "launch row" row]) simp_all

text \<open>The size of the batches does not change what a loop computes.\<close>

lemma batch_size_irrelevant:
  "0 < batch \<Longrightarrow> 0 < batch' \<Longrightarrow> batch_loop (launch row) stop batch i s = batch_loop (launch row) stop batch' i s"
  by (simp add: batch_loop_rows)

lemma modify_rows:
  assumes "stop \<le> length dst" and "\<And>j. i \<le> j \<Longrightarrow> j < stop \<Longrightarrow> k j (dst ! j) = Inr (r j)"
  shows "foldE (\<lambda>s j. modify_at j (k j) s) dst [i..<stop]
    = Inr (map (\<lambda>j. if i \<le> j \<and> j < stop then r j else dst ! j) [0..<length dst])"
  using assms
proof (induction stop)
  case 0
  then show ?case by (simp add: map_nth)
next
  case (Suc stop)
  show ?case
  proof (cases "i \<le> stop")
    case True
    let ?A = "map (\<lambda>j. if i \<le> j \<and> j < stop then r j else dst ! j) [0..<length dst]"
    have "foldE (\<lambda>s j. modify_at j (k j) s) dst [i..<stop] = Inr ?A" using Suc by simp
    moreover have "modify_at stop (k stop) ?A = Inr (?A[stop := r stop])"
      using Suc.prems(1) Suc.prems(2) [OF True] by (simp add: modify_at_def limb_at_def)
    moreover have "?A[stop := r stop] = map (\<lambda>j. if i \<le> j \<and> j < Suc stop then r j else dst ! j) [0..<length dst]"
      using True Suc.prems(1) by (intro nth_equalityI) (auto simp: nth_list_update)
    ultimately show ?thesis using True by (simp add: foldE_append)
  next
    case False
    then have "map (\<lambda>j. if i \<le> j \<and> j < Suc stop then r j else dst ! j) [0..<length dst] = dst"
      by (intro nth_equalityI) auto
    then show ?thesis using False by simp
  qed
qed

section \<open>A partition as the residues of a vector of integers\<close>

text \<open>The rows \<open>start..stop-1\<close> hold, for the primes \<open>ids\<close>, the residues of the integers \<open>X 0, ..., X (n-1)\<close>.\<close>

definition limbs_rep :: "Constants \<Rightarrow> (nat \<Rightarrow> nat) \<Rightarrow> nat \<Rightarrow> nat \<Rightarrow> nat \<Rightarrow> limb list \<Rightarrow> (nat \<Rightarrow> int) \<Rightarrow> bool" where
  "limbs_rep c ids start stop n xs X \<longleftrightarrow> stop \<le> length xs
     \<and> (\<forall>j. start \<le> j \<and> j < stop \<longrightarrow> limb_ok c (ids j) n (xs ! j) \<and> (\<forall>t < n. lval (xs ! j) t = X t mod iprime c (ids j)))"

lemma rows_rep:
  assumes "0 < batch" and "stop \<le> length dst"
    and "\<And>j. start \<le> j \<Longrightarrow> j < stop \<Longrightarrow> gives c (ids j) n (k j (ids j) (dst ! j)) Y"
  shows "\<exists>xs. batch_loop (launch (\<lambda>j. modify_at j (k j (ids j)))) stop batch start dst = Some (Inr xs)
    \<and> limbs_rep c ids start stop n xs Y \<and> length xs = length dst"
proof -
  obtain r where r: "\<And>j. start \<le> j \<Longrightarrow> j < stop \<Longrightarrow> k j (ids j) (dst ! j) = Inr (r j) \<and> limb_ok c (ids j) n (r j)
      \<and> (\<forall>t < n. lval (r j) t = Y t mod iprime c (ids j))"
    using assms(3) unfolding gives_def by metis
  then have "foldE (\<lambda>s j. modify_at j (k j (ids j)) s) dst [start..<stop]
      = Inr (map (\<lambda>j. if start \<le> j \<and> j < stop then r j else dst ! j) [0..<length dst])"
    using assms(2) by (intro modify_rows) auto
  then show ?thesis
    unfolding batch_loop_rows [OF assms(1)] limbs_rep_def using r assms(2) by auto
qed

lemma limbs_rep_row:
  assumes "limbs_rep c ids start stop n xs X" and "start \<le> j" and "j < stop"
  shows "limb_ok c (ids j) n (xs ! j)" and "t < n \<Longrightarrow> lval (xs ! j) t = X t mod iprime c (ids j)" and "limb_at xs j = Inr (xs ! j)"
  using assms by (auto simp: limbs_rep_def limb_at_def)

lemma limb_size_ok: "limb_ok c i n l \<Longrightarrow> limb_size l = n"
  by (cases l) (auto simp: limb_ok_def limb_size_def)

text \<open>A destination needs its limbs, of the right size; what they hold does not matter.\<close>

definition part_sized :: "PartCtx \<Rightarrow> int \<Rightarrow> nat \<Rightarrow> Partition \<Rightarrow> bool" where
  "part_sized ctx lev e p \<longleftrightarrow> getLimbSize ctx lev \<le> length (lp_limb p)
     \<and> (0 < getLimbSize ctx lev \<longrightarrow> limb_size (lp_limb p ! 0) = 2 ^ e)"

lemma row_threads_sized:
  assumes "part_sized ctx lev e p" and "0 < getLimbSize ctx lev"
  shows "row_threads ctx lev p = 2 ^ e"
proof -
  have "(2 ^ e + 127) div 128 * min (2 ^ e) 128 = (2::nat) ^ e"
  proof (cases "e \<le> 7")
    case True
    then have "(2::nat) ^ e \<le> 2 ^ 7" by (intro power_increasing) simp_all
    then have u: "(2::nat) ^ e \<le> 128" by simp
    have "1 \<le> x \<Longrightarrow> x \<le> 128 \<Longrightarrow> (x + 127) div 128 = 1" for x :: nat by (rule div_nat_eqI) simp_all
    from this [OF _ u] have "(2 ^ e + 127) div 128 = (1::nat)" by simp
    moreover have "min (2 ^ e) 128 = (2::nat) ^ e" using u by simp
    ultimately show ?thesis by simp
  next
    case False
    then obtain d where e: "(2::nat) ^ e = 128 * 2 ^ d" using le_Suc_ex [of 7 e] by (auto simp: power_add)
    then have "(2 ^ e + 127) div 128 = (2::nat) ^ d" "min (2 ^ e) 128 = (128::nat)" by simp_all
    then show ?thesis using e by simp
  qed
  then show ?thesis using assms by (simp add: row_threads_def GetGridDimX_def GetBlockDimX_def part_sized_def)
qed

lemma limb_rows_rep:
  assumes "0 < pc_batch ctx" and "part_sized ctx lev e dst"
    and "\<And>j. j < getLimbSize ctx lev \<Longrightarrow> row_threads ctx lev dst = 2 ^ e
      \<Longrightarrow> gives (pc_consts ctx) (pid ctx j) (2 ^ e) (k j (pid ctx j) (lp_limb dst ! j)) Y"
  shows "\<exists>xs. limb_rows ctx (getLimbSize ctx lev) k (lp_limb dst) = Some (Inr xs)
    \<and> limbs_rep (pc_consts ctx) (pid ctx) 0 (getLimbSize ctx lev) (2 ^ e) xs Y \<and> length xs = length (lp_limb dst)"
  unfolding limb_rows_def
proof (rule rows_rep [OF assms(1)])
  show "getLimbSize ctx lev \<le> length (lp_limb dst)" using assms(2) by (simp add: part_sized_def)
  fix j
  assume j: "j < getLimbSize ctx lev"
  then show "gives (pc_consts ctx) (pid ctx j) (2 ^ e) (k j (pid ctx j) (lp_limb dst ! j)) Y"
    by (intro assms(3) row_threads_sized [OF assms(2)]) simp_all
qed

section \<open>The operations compute on the vectors\<close>

lemmas mod_ring_intros = mod_add_cong mod_mult_cong mod_mod_trivial

definition part_rep :: "PartCtx \<Rightarrow> int \<Rightarrow> nat \<Rightarrow> Partition \<Rightarrow> (nat \<Rightarrow> int) \<Rightarrow> bool" where
  "part_rep ctx lev e p X \<longleftrightarrow> limbs_rep (pc_consts ctx) (pid ctx) 0 (getLimbSize ctx lev) (2 ^ e) (lp_limb p) X"

definition special_rep :: "PartCtx \<Rightarrow> nat \<Rightarrow> Partition \<Rightarrow> (nat \<Rightarrow> int) \<Rightarrow> bool" where
  "special_rep ctx e p X \<longleftrightarrow> limbs_rep (pc_consts ctx) (sid ctx) (special_start ctx) (special_start ctx + numSpecialLimbs ctx) (2 ^ e) (lp_special p) X"

definition ctx_ok :: "PartCtx \<Rightarrow> int \<Rightarrow> bool" where
  "ctx_ok ctx lev \<longleftrightarrow> 0 < pc_batch ctx \<and> (\<forall>j < getLimbSize ctx lev. limb_prime (pc_consts ctx) (pid ctx j))"

lemma ctx_okD: "ctx_ok ctx lev \<Longrightarrow> 0 < pc_batch ctx" "ctx_ok ctx lev \<Longrightarrow> j < getLimbSize ctx lev \<Longrightarrow> limb_prime (pc_consts ctx) (pid ctx j)"
  by (simp_all add: ctx_ok_def)

lemma part_rep_row:
  assumes "part_rep ctx lev e p X" and "j < getLimbSize ctx lev"
  shows "limb_ok (pc_consts ctx) (pid ctx j) (2 ^ e) (lp_limb p ! j)"
    and "t < 2 ^ e \<Longrightarrow> lval (lp_limb p ! j) t = X t mod iprime (pc_consts ctx) (pid ctx j)"
    and "limb_at (lp_limb p) j = Inr (lp_limb p ! j)"
  using limbs_rep_row [OF assms(1) [unfolded part_rep_def] le0 assms(2)] by simp_all

lemma part_rep_length: "part_rep ctx lev e p X \<Longrightarrow> getLimbSize ctx lev \<le> length (lp_limb p)"
  by (simp add: part_rep_def limbs_rep_def)

text \<open>A partition operation whose rows give the residues of \<open>Y\<close>.\<close>

lemma part_rows_sized:
  assumes "ctx_ok ctx lev" and "part_sized ctx lev e dst"
    and "\<And>j. j < getLimbSize ctx lev \<Longrightarrow> row_threads ctx lev dst = 2 ^ e
      \<Longrightarrow> gives (pc_consts ctx) (pid ctx j) (2 ^ e) (k j (pid ctx j) (lp_limb dst ! j)) Y"
  shows "\<exists>xs. limb_rows ctx (getLimbSize ctx lev) k (lp_limb dst) = Some (Inr xs)
    \<and> part_rep ctx lev e (dst\<lparr>lp_limb := xs\<rparr>) Y \<and> length xs = length (lp_limb dst)"
  using limb_rows_rep [of ctx lev e dst k Y] assms by (auto simp: part_rep_def ctx_ok_def)

lemma part_op:
  assumes "ctx_ok ctx lev" and "part_sized ctx lev e dst"
    and "\<And>j. j < getLimbSize ctx lev \<Longrightarrow> row_threads ctx lev dst = 2 ^ e
      \<Longrightarrow> gives (pc_consts ctx) (pid ctx j) (2 ^ e) (k j (pid ctx j) (lp_limb dst ! j)) Y"
  shows "\<exists>r. thenO (limb_rows ctx (getLimbSize ctx lev) k (lp_limb dst)) (\<lambda>limbs. Some (Inr (dst\<lparr>lp_limb := limbs\<rparr>))) = Some (Inr r)
    \<and> part_rep ctx lev e r Y \<and> lp_special r = lp_special dst"
  using part_rows_sized [of ctx lev e dst k Y] assms by auto

lemma part_rep_sized: "part_rep ctx lev e p X \<Longrightarrow> part_sized ctx lev e p"
  using part_rep_row(1) [of ctx lev e p X 0] part_rep_length [of ctx lev e p X] by (auto simp: part_sized_def dest: limb_size_ok)

lemma gives_operand: "limb_at xs j = Inr x \<Longrightarrow> gives c i n (f x) g \<Longrightarrow> gives c i n (with_operand xs j f) g"
  by (simp add: with_operand_def)

lemma part_rep_operand:
  assumes "part_rep ctx lev e p Y" and "j < getLimbSize ctx lev"
    and "gives c i n (f (lp_limb p ! j)) g"
  shows "gives c i n (with_operand (lp_limb p) j f) g"
  using part_rep_row(3) [OF assms(1,2)] assms(3) by (rule gives_operand)

lemma div_stride: "t < 2 ^ (e + s) \<Longrightarrow> t div 2 ^ s < (2::nat) ^ e"
  by (simp add: power_add less_mult_imp_div_less)

text \<open>The operand \<open>p\<close> has \<open>2 * slots = 2^e\<close> values, the destination \<open>2^(e + s)\<close>.\<close>

lemma operands2_rows:
  assumes "ctx_ok ctx lev" and "part_rep ctx lev (e + s) dst X" and "part_rep ctx lev e p Y" and "j < getLimbSize ctx lev"
  shows "operands2 (pc_consts ctx) (pid ctx j) (2 ^ e) s (lp_limb dst ! j) (lp_limb p ! j)"
  using part_rep_row(1) [OF assms(2,4)] part_rep_row(1) [OF assms(3,4)] ctx_okD(2) [OF assms(1,4)]
  by (simp add: operands2_def power_add)

lemma two_operand_rep:
  assumes "ctx_ok ctx lev" and "part_rep ctx lev (e + s) dst X" and "part_rep ctx lev e p Y" and "2 * slots = 2 ^ e"
  shows "\<exists>r. lp_sub ctx lev p slots dst = Some (Inr r) \<and> part_rep ctx lev (e + s) r (\<lambda>t. X t - Y (t div 2 ^ s)) \<and> lp_special r = lp_special dst"
    and "\<exists>r. lp_multElement ctx lev p slots dst = Some (Inr r) \<and> part_rep ctx lev (e + s) r (\<lambda>t. X t * Y (t div 2 ^ s)) \<and> lp_special r = lp_special dst"
proof -
  let ?c = "pc_consts ctx"
  have row: "gives ?c (pid ctx j) (2 ^ (e + s)) (sub_k ?c (pid ctx j) (2 ^ (e + s)) (2 ^ e) (lp_limb dst ! j) (lp_limb p ! j)) (\<lambda>t. X t - Y (t div 2 ^ s))"
    "gives ?c (pid ctx j) (2 ^ (e + s)) (Mult_k ?c (pid ctx j) (2 ^ (e + s)) (2 ^ e) (lp_limb dst ! j) (lp_limb p ! j)) (\<lambda>t. X t * Y (t div 2 ^ s))"
    if j: "j < getLimbSize ctx lev" for j
  proof -
    note v = part_rep_row(2) [OF assms(2) j] part_rep_row(2) [OF assms(3) j div_stride]
    note k = two_operand_kernels [OF operands2_rows [OF assms(1-3) j], folded power_add]
    show "gives ?c (pid ctx j) (2 ^ (e + s)) (sub_k ?c (pid ctx j) (2 ^ (e + s)) (2 ^ e) (lp_limb dst ! j) (lp_limb p ! j)) (\<lambda>t. X t - Y (t div 2 ^ s))"
      by (rule gives_cong [OF k(2)]) (simp add: v mod_simps)
    show "gives ?c (pid ctx j) (2 ^ (e + s)) (Mult_k ?c (pid ctx j) (2 ^ (e + s)) (2 ^ e) (lp_limb dst ! j) (lp_limb p ! j)) (\<lambda>t. X t * Y (t div 2 ^ s))"
      by (rule gives_cong [OF k(5)]) (simp add: v mod_simps)
  qed
  show "\<exists>r. lp_sub ctx lev p slots dst = Some (Inr r) \<and> part_rep ctx lev (e + s) r (\<lambda>t. X t - Y (t div 2 ^ s)) \<and> lp_special r = lp_special dst"
    unfolding lp_sub_def by (rule part_op [OF assms(1) part_rep_sized [OF assms(2)]]) (simp add: part_rep_operand [OF assms(3)] row assms(4))
  show "\<exists>r. lp_multElement ctx lev p slots dst = Some (Inr r) \<and> part_rep ctx lev (e + s) r (\<lambda>t. X t * Y (t div 2 ^ s)) \<and> lp_special r = lp_special dst"
    unfolding lp_multElement_def assertO_def if_P [OF part_rep_length [OF assms(3)]]
    by (rule part_op [OF assms(1) part_rep_sized [OF assms(2)]]) (simp add: part_rep_operand [OF assms(3)] row assms(4))
qed


text \<open>A scalar is a vector of residues, indexed by the primes.\<close>

definition scalar_rep :: "PartCtx \<Rightarrow> int \<Rightarrow> u64 list \<Rightarrow> int \<Rightarrow> bool" where
  "scalar_rep ctx lev v x \<longleftrightarrow> (\<forall>j < getLimbSize ctx lev. pid ctx j < length v
     \<and> uint (v ! pid ctx j) = x mod iprime (pc_consts ctx) (pid ctx j))"

lemma scalar_rep_row:
  assumes "ctx_ok ctx lev" and "scalar_rep ctx lev v x" and "j < getLimbSize ctx lev"
  shows "pid ctx j < length v" and "uint (v ! pid ctx j) = x mod iprime (pc_consts ctx) (pid ctx j)"
    and "unat (v ! pid ctx j) < dprime (pc_consts ctx) (pid ctx j)"
proof -
  show l: "pid ctx j < length v" and e: "uint (v ! pid ctx j) = x mod iprime (pc_consts ctx) (pid ctx j)"
    using assms(2,3) by (simp_all add: scalar_rep_def)
  have "prime_entry (pc_consts ctx) (pid ctx j)" using ctx_okD(2) [OF assms(1,3)] by (simp add: limb_prime_def)
  then have "0 < iprime (pc_consts ctx) (pid ctx j)" using uint_gt1 [OF prime_entry_bounds(1)] by force
  then show "unat (v ! pid ctx j) < dprime (pc_consts ctx) (pid ctx j)" using e by (simp flip: uint_less_iff)
qed

lemma scalar_rep_ops:
  assumes "ctx_ok ctx lev" and "part_rep ctx lev e dst X" and "scalar_rep ctx lev v x"
  shows "\<exists>r. lp_addScalar ctx lev v dst = Some (Inr r) \<and> part_rep ctx lev e r (\<lambda>t. X t + x) \<and> lp_special r = lp_special dst"
    and "\<exists>r. lp_subScalar ctx lev v dst = Some (Inr r) \<and> part_rep ctx lev e r (\<lambda>t. X t - x) \<and> lp_special r = lp_special dst"
    and "lev \<le> int (pc_L ctx) \<Longrightarrow>
      \<exists>r. lp_multScalar ctx lev v dst = Some (Inr r) \<and> part_rep ctx lev e r (\<lambda>t. X t * x) \<and> lp_special r = lp_special dst"
proof -
  let ?c = "pc_consts ctx"
  have row: "gives ?c (pid ctx j) (2 ^ e) (scalar_add_k ?c (pid ctx j) (2 ^ e) v (lp_limb dst ! j)) (\<lambda>t. X t + x)"
    "gives ?c (pid ctx j) (2 ^ e) (scalar_sub_k ?c (pid ctx j) (2 ^ e) v (lp_limb dst ! j)) (\<lambda>t. X t - x)"
    "gives ?c (pid ctx j) (2 ^ e) (Scalar_mult_k ?c (pid ctx j) (2 ^ e) v (lp_limb dst ! j)) (\<lambda>t. X t * x)"
    if j: "j < getLimbSize ctx lev" for j
  proof -
    note s = scalar_rep_row [OF assms(1,3) j] and l = part_rep_row [OF assms(2) j]
    note k = scalar_kernels [OF ctx_okD(2) [OF assms(1) j] l(1) s(1,3)]
    show "gives ?c (pid ctx j) (2 ^ e) (scalar_add_k ?c (pid ctx j) (2 ^ e) v (lp_limb dst ! j)) (\<lambda>t. X t + x)"
      by (rule gives_cong [OF k(1)]) (simp add: l(2) s(2) mod_simps)
    show "gives ?c (pid ctx j) (2 ^ e) (scalar_sub_k ?c (pid ctx j) (2 ^ e) v (lp_limb dst ! j)) (\<lambda>t. X t - x)"
      by (rule gives_cong [OF k(2)]) (simp add: l(2) s(2) mod_simps)
    show "gives ?c (pid ctx j) (2 ^ e) (Scalar_mult_k ?c (pid ctx j) (2 ^ e) v (lp_limb dst ! j)) (\<lambda>t. X t * x)"
      by (rule gives_cong [OF k(3)]) (simp add: l(2) s(2) mod_simps)
  qed
  show "\<exists>r. lp_addScalar ctx lev v dst = Some (Inr r) \<and> part_rep ctx lev e r (\<lambda>t. X t + x) \<and> lp_special r = lp_special dst"
    unfolding lp_addScalar_def by (rule part_op [OF assms(1) part_rep_sized [OF assms(2)]]) (simp add: row)
  show "\<exists>r. lp_subScalar ctx lev v dst = Some (Inr r) \<and> part_rep ctx lev e r (\<lambda>t. X t - x) \<and> lp_special r = lp_special dst"
    unfolding lp_subScalar_def by (rule part_op [OF assms(1) part_rep_sized [OF assms(2)]]) (simp add: row)
  assume "lev \<le> int (pc_L ctx)"
  then have "lp_multScalar ctx lev v dst = thenO (limb_rows ctx (getLimbSize ctx lev)
      (\<lambda>j i. Scalar_mult_k ?c i (row_threads ctx lev dst) v) (lp_limb dst)) (\<lambda>limbs. Some (Inr (dst\<lparr>lp_limb := limbs\<rparr>)))"
    by (simp add: lp_multScalar_def Let_def)
  then show "\<exists>r. lp_multScalar ctx lev v dst = Some (Inr r) \<and> part_rep ctx lev e r (\<lambda>t. X t * x) \<and> lp_special r = lp_special dst"
    using part_op [OF assms(1) part_rep_sized [OF assms(2)], of "\<lambda>j i. Scalar_mult_k ?c i (row_threads ctx lev dst) v" "\<lambda>t. X t * x"] row(3) by simp
qed

lemma product_sum_rep:
  assumes "ctx_ok ctx lev" and "part_rep ctx lev e dst X" and "part_rep ctx lev e a Y" and "part_rep ctx lev e b Z"
  shows "\<exists>r. lp_addMult ctx lev a b slots dst = Some (Inr r) \<and> part_rep ctx lev e r (\<lambda>t. X t + Y t * Z t) \<and> lp_special r = lp_special dst"
    and "\<exists>r. lp_mult1Add2 ctx lev a b dst = Some (Inr r) \<and> part_rep ctx lev e r (\<lambda>t. X t * Y t + Z t) \<and> lp_special r = lp_special dst"
proof -
  let ?c = "pc_consts ctx"
  have row: "gives ?c (pid ctx j) (2 ^ e) (addMult_k ?c (pid ctx j) (2 ^ e) (2 * slots) (lp_limb dst ! j) (lp_limb a ! j) (lp_limb b ! j))
        (\<lambda>t. X t + Y t * Z t)"
    "gives ?c (pid ctx j) (2 ^ e) (mult1Add2_k ?c (pid ctx j) (2 ^ e) (lp_limb dst ! j) (lp_limb a ! j) (lp_limb b ! j)) (\<lambda>t. X t * Y t + Z t)"
    if j: "j < getLimbSize ctx lev" for j
  proof -
    note v = part_rep_row(2) [OF assms(2) j] part_rep_row(2) [OF assms(3) j] part_rep_row(2) [OF assms(4) j]
    note k = three_operand_kernels [OF ctx_okD(2) [OF assms(1) j] part_rep_row(1) [OF assms(2) j] part_rep_row(1) [OF assms(3) j] part_rep_row(1) [OF assms(4) j]]
    show "gives ?c (pid ctx j) (2 ^ e) (addMult_k ?c (pid ctx j) (2 ^ e) (2 * slots) (lp_limb dst ! j) (lp_limb a ! j) (lp_limb b ! j))
        (\<lambda>t. X t + Y t * Z t)"
      by (rule gives_cong [OF k(1)], simp only: v) (intro mod_ring_intros)
    show "gives ?c (pid ctx j) (2 ^ e) (mult1Add2_k ?c (pid ctx j) (2 ^ e) (lp_limb dst ! j) (lp_limb a ! j) (lp_limb b ! j)) (\<lambda>t. X t * Y t + Z t)"
      by (rule gives_cong [OF k(2)], simp only: v) (intro mod_ring_intros)
  qed
  have P: "getLimbSize ctx lev \<le> length (lp_limb a) \<and> getLimbSize ctx lev \<le> length (lp_limb b)"
    using part_rep_length [OF assms(3)] part_rep_length [OF assms(4)] ..
  show "\<exists>r. lp_addMult ctx lev a b slots dst = Some (Inr r) \<and> part_rep ctx lev e r (\<lambda>t. X t + Y t * Z t) \<and> lp_special r = lp_special dst"
    unfolding lp_addMult_def Let_def assertO_def if_P [OF P]
    by (rule part_op [OF assms(1) part_rep_sized [OF assms(2)]]) (simp add: part_rep_operand [OF assms(3)] part_rep_operand [OF assms(4)] row)
  show "\<exists>r. lp_mult1Add2 ctx lev a b dst = Some (Inr r) \<and> part_rep ctx lev e r (\<lambda>t. X t * Y t + Z t) \<and> lp_special r = lp_special dst"
    unfolding lp_mult1Add2_def Let_def assertO_def if_P [OF P]
    by (rule part_op [OF assms(1) part_rep_sized [OF assms(2)]]) (simp add: part_rep_operand [OF assms(3)] part_rep_operand [OF assms(4)] row)
qed

text \<open>The operations whose kernels only handle 64-bit primes.\<close>

definition ctx_wide :: "PartCtx \<Rightarrow> int \<Rightarrow> bool" where
  "ctx_wide ctx lev \<longleftrightarrow> ctx_ok ctx lev \<and> (\<forall>j < getLimbSize ctx lev. ISU64 (pc_consts ctx) (pid ctx j))"

lemma ctx_wideD:
  assumes "ctx_wide ctx lev"
  shows "ctx_ok ctx lev" and "j < getLimbSize ctx lev \<Longrightarrow> ISU64 (pc_consts ctx) (pid ctx j)"
    and "j < getLimbSize ctx lev \<Longrightarrow> prime_entry (pc_consts ctx) (pid ctx j)"
  using assms by (auto simp: ctx_wide_def ctx_ok_def limb_prime_def)

lemma mult1AddMult23Add4_rep:
  assumes "ctx_wide ctx lev" and "part_rep ctx lev e dst X" and "part_rep ctx lev e p1 X1" and "part_rep ctx lev e p2 X2"
    and "part_rep ctx lev e p3 X3" and "part_rep ctx lev e p4 X4"
  shows "\<exists>r. lp_mult1AddMult23Add4 ctx lev p1 p2 p3 p4 dst = Some (Inr r)
    \<and> part_rep ctx lev e r (\<lambda>t. X t * X1 t + X4 t + X2 t * X3 t) \<and> lp_special r = lp_special dst"
proof -
  let ?c = "pc_consts ctx"
  have row: "gives ?c (pid ctx j) (2 ^ e) (mult1AddMult23Add4_k ?c (pid ctx j) (2 ^ e) (lp_limb dst ! j) (lp_limb p1 ! j) (lp_limb p2 ! j) (lp_limb p3 ! j) (lp_limb p4 ! j))
        (\<lambda>t. X t * X1 t + X4 t + X2 t * X3 t)" if j: "j < getLimbSize ctx lev" for j
  proof -
    note v = part_rep_row(2) [OF assms(2) j] part_rep_row(2) [OF assms(3) j] part_rep_row(2) [OF assms(4) j]
      part_rep_row(2) [OF assms(5) j] part_rep_row(2) [OF assms(6) j]
    note k = wide_kernels(2) [OF ctx_wideD(3,2) [OF assms(1) j] part_rep_row(1) [OF assms(2) j] part_rep_row(1) [OF assms(3) j]
        part_rep_row(1) [OF assms(4) j] part_rep_row(1) [OF assms(5) j] part_rep_row(1) [OF assms(6) j]]
    show ?thesis by (rule gives_cong [OF k], simp only: v) (intro mod_ring_intros)
  qed
  have P: "list_all (\<lambda>p. getLimbSize ctx lev \<le> length (lp_limb p)) [p1, p2, p3, p4]"
    using assms(3-6) by (simp add: part_rep_length)
  show ?thesis
    unfolding lp_mult1AddMult23Add4_def Let_def assertO_def if_P [OF P]
    by (rule part_op [OF ctx_wideD(1) [OF assms(1)] part_rep_sized [OF assms(2)]])
      (simp add: part_rep_operand [OF assms(3)] part_rep_operand [OF assms(4)] part_rep_operand [OF assms(5)] part_rep_operand [OF assms(6)] row)
qed


lemma squareElement_rep:
  assumes "ctx_wide ctx lev" and "part_sized ctx lev e dst" and "part_rep ctx lev e p Y"
  shows "\<exists>r. lp_squareElement ctx lev p dst = Some (Inr r) \<and> part_rep ctx lev e r (\<lambda>t. (Y t)\<^sup>2) \<and> lp_special r = lp_special dst"
proof -
  let ?c = "pc_consts ctx"
  have row: "gives ?c (pid ctx j) (2 ^ e) (square_k ?c (pid ctx j) (2 ^ e) (lp_limb p ! j)) (\<lambda>t. (Y t)\<^sup>2)" if j: "j < getLimbSize ctx lev" for j
  proof -
    note l = part_rep_row(1) [OF assms(3) j]
    show ?thesis
      by (rule gives_cong [OF wide_kernels(1) [OF ctx_wideD(3,2) [OF assms(1) j] l l l l l]])
        (simp add: part_rep_row(2) [OF assms(3) j] power_mod)
  qed
  have sz: "min (getLimbSize ctx lev) (length (lp_limb p)) = getLimbSize ctx lev" using part_rep_length [OF assms(3)] by simp
  show ?thesis unfolding lp_squareElement_def sz
    by (rule part_op [OF ctx_wideD(1) [OF assms(1)] assms(2)]) (simp add: part_rep_operand [OF assms(3)] row)
qed

section \<open>Extended polynomials\<close>

text \<open>An extended polynomial also has residues modulo the special primes, whose product is \<open>P\<close>.\<close>

definition ctx_ext :: "PartCtx \<Rightarrow> int \<Rightarrow> int \<Rightarrow> bool" where
  "ctx_ext ctx lev P \<longleftrightarrow> ctx_wide ctx lev \<and> 0 < getLimbSize ctx lev
     \<and> (\<forall>j < getLimbSize ctx lev. P_entry (pc_consts ctx) (pid ctx j) \<and> uint (hc_P (pc_consts ctx) ! pid ctx j) = P mod iprime (pc_consts ctx) (pid ctx j))
     \<and> (\<forall>j. special_start ctx \<le> j \<and> j < special_start ctx + numSpecialLimbs ctx \<longrightarrow>
          limb_prime (pc_consts ctx) (sid ctx j) \<and> ISU64 (pc_consts ctx) (sid ctx j) \<and> P mod iprime (pc_consts ctx) (sid ctx j) = 0)
     \<and> (\<forall>y < numSpecialLimbs ctx. ISU64 (pc_consts ctx) y)"

definition ext_rep :: "PartCtx \<Rightarrow> int \<Rightarrow> nat \<Rightarrow> bool \<Rightarrow> Partition \<Rightarrow> (nat \<Rightarrow> int) \<Rightarrow> bool" where
  "ext_rep ctx lev e ext p X \<longleftrightarrow> part_rep ctx lev e p X \<and> (ext \<longrightarrow> special_rep ctx e p X)"

lemma special_rep_row:
  assumes "special_rep ctx e p X" and "special_start ctx \<le> j" and "j < special_start ctx + numSpecialLimbs ctx"
  shows "limb_ok (pc_consts ctx) (sid ctx j) (2 ^ e) (lp_special p ! j)"
    and "t < 2 ^ e \<Longrightarrow> lval (lp_special p ! j) t = X t mod iprime (pc_consts ctx) (sid ctx j)"
    and "limb_at (lp_special p) j = Inr (lp_special p ! j)"
  using limbs_rep_row [OF assms(1) [unfolded special_rep_def] assms(2,3)] by simp_all

lemma special_copy_rep:
  assumes "ctx_ext ctx lev P" and "special_rep ctx e src X"
    and "special_start ctx + numSpecialLimbs ctx \<le> length dst" and "n = 2 ^ e"
  shows "\<exists>sp. special_copy ctx n (special_start ctx) (numSpecialLimbs ctx) (lp_special src) dst = Some (Inr sp)
    \<and> special_rep ctx e (p\<lparr>lp_special := sp\<rparr>) X"
proof -
  let ?c = "pc_consts ctx" and ?i = "special_start ctx" and ?num = "numSpecialLimbs ctx"
  let ?row = "\<lambda>j. modify_at j (\<lambda>_. Inr (lp_special src ! j))"
  have b: "0 < pc_batch ctx" using assms(1) by (simp add: ctx_ext_def ctx_wide_def ctx_ok_def)
  have copy: "on_grid n (\<lambda>_. bindE (limb_at (lp_special src) j) (copy_k ?c (j - i) n)) = (\<lambda>_. Inr (lp_special src ! j))"
    if "?i \<le> i" "i \<le> j" "j < ?i + ?num" for i j
  proof
    fix x
    have "ISU64 ?c (j - i) = ISU64 ?c (sid ctx j)" using assms(1) that by (simp add: ctx_ext_def)
    then have "copy_k ?c (j - i) n (lp_special src ! j) = Inr (lp_special src ! j)"
      using special_rep_row(1) [OF assms(2), of j] that assms(4) by (intro copy_gives) auto
    then show "on_grid n (\<lambda>_. bindE (limb_at (lp_special src) j) (copy_k ?c (j - i) n)) x = Inr (lp_special src ! j)"
      using special_rep_row(3) [OF assms(2), of j] that assms(4) by (simp add: on_grid_def)
  qed
  have "special_copy ctx n ?i ?num (lp_special src) dst = Some (foldE (\<lambda>s j. ?row j s) dst [?i..<?i + ?num])"
    unfolding special_copy_def
  proof (rule batch_loop_launch [OF b _ le_refl])
    fix i sz and s :: "limb list"
    assume i: "?i \<le> i" "i + sz \<le> ?i + ?num"
    show "launch (\<lambda>j. modify_at j (on_grid n (\<lambda>_. bindE (limb_at (lp_special src) j) (copy_k ?c (j - i) n)))) i sz s = launch ?row i sz s"
      unfolding launch_shift by (rule foldE_cong) (use copy [OF i(1)] i(2) in auto)
  qed
  also have "foldE (\<lambda>s j. ?row j s) dst [?i..<?i + ?num]
      = Inr (map (\<lambda>j. if ?i \<le> j \<and> j < ?i + ?num then lp_special src ! j else dst ! j) [0..<length dst])"
    by (rule modify_rows [OF assms(3)]) simp
  finally show ?thesis
    using assms(3) special_rep_row(1,2) [OF assms(2)] by (auto simp: special_rep_def limbs_rep_def)
qed


text \<open>The sum of two polynomials of which either may be extended: the other is brought up by \<open>P\<close>.\<close>

definition ext_sum :: "int \<Rightarrow> bool \<Rightarrow> bool \<Rightarrow> int \<Rightarrow> int \<Rightarrow> int" where
  "ext_sum P exta extb x y = (if exta = extb then x + y else if exta then x + y * P else x * P + y)"

lemma ctx_extD:
  assumes "ctx_ext ctx lev P"
  shows "ctx_wide ctx lev" and "0 < getLimbSize ctx lev" and "0 < pc_batch ctx" and "ctx_ok ctx lev"
    and "j < getLimbSize ctx lev \<Longrightarrow> P_entry (pc_consts ctx) (pid ctx j)"
    and "j < getLimbSize ctx lev \<Longrightarrow> uint (hc_P (pc_consts ctx) ! pid ctx j) = P mod iprime (pc_consts ctx) (pid ctx j)"
    and "special_start ctx \<le> i \<Longrightarrow> i < special_start ctx + numSpecialLimbs ctx \<Longrightarrow> limb_prime (pc_consts ctx) (sid ctx i)"
    and "special_start ctx \<le> i \<Longrightarrow> i < special_start ctx + numSpecialLimbs ctx \<Longrightarrow> P mod iprime (pc_consts ctx) (sid ctx i) = 0"
  using assms by (simp_all add: ctx_ext_def ctx_wide_def ctx_ok_def)

lemma special_rows_rep:
  assumes "ctx_ext ctx lev P" and "n = 2 ^ e" and "special_start ctx + numSpecialLimbs ctx \<le> length (lp_special dst)"
    and "\<And>j. special_start ctx \<le> j \<Longrightarrow> j < special_start ctx + numSpecialLimbs ctx
      \<Longrightarrow> gives (pc_consts ctx) (sid ctx j) (2 ^ e) (k j (sid ctx j) (lp_special dst ! j)) Y"
  shows "\<exists>sp. special_rows ctx n (special_start ctx) (numSpecialLimbs ctx) k (lp_special dst) = Some (Inr sp)
    \<and> special_rep ctx e (p\<lparr>lp_special := sp\<rparr>) Y"
  using rows_rep [of "pc_batch ctx" "special_start ctx + numSpecialLimbs ctx" "lp_special dst" "special_start ctx"
      "pc_consts ctx" "sid ctx" "2 ^ e" "\<lambda>j i. on_grid n (k j i)" Y] assms ctx_extD(3) [OF assms(1)]
  by (auto simp: special_rows_def special_rep_def on_grid_def)

lemma lp_add_limbs:
  assumes C: "ctx_ext ctx lev P" and X: "part_rep ctx lev (e + s) dst X" and Y: "part_rep ctx lev e p Y" and j: "j < getLimbSize ctx lev"
  shows "gives (pc_consts ctx) (pid ctx j) (2 ^ (e + s))
      (if exta = extb then add_k (pc_consts ctx) (pid ctx j) (2 ^ (e + s)) (2 ^ e) (lp_limb dst ! j) (lp_limb p ! j)
       else if exta then add_scale_p_b_k (pc_consts ctx) (pid ctx j) (2 ^ (e + s)) (2 ^ e) (lp_limb dst ! j) (lp_limb p ! j)
       else add_scale_p_a_k (pc_consts ctx) (pid ctx j) (2 ^ (e + s)) (2 ^ e) (lp_limb dst ! j) (lp_limb p ! j))
      (\<lambda>t. ext_sum P exta extb (X t) (Y (t div 2 ^ s)))"
proof -
  note w = ctx_wideD [OF ctx_extD(1) [OF C]]
  note v = part_rep_row(2) [OF X j] part_rep_row(2) [OF Y j div_stride] ctx_extD(6) [OF C j]
  note a = two_operand_kernels(1) [OF operands2_rows [OF ctx_extD(4) [OF C] X Y j], folded power_add]
  have z: "(0::nat) < 2 ^ e" by simp
  note k = scale_kernels [OF w(3) [OF j] ctx_extD(5) [OF C j] w(2) [OF j] z part_rep_row(1) [OF X j, unfolded power_add] part_rep_row(1) [OF Y j], folded power_add]
  have "gives (pc_consts ctx) (pid ctx j) (2 ^ (e + s)) (add_k (pc_consts ctx) (pid ctx j) (2 ^ (e + s)) (2 ^ e) (lp_limb dst ! j) (lp_limb p ! j))
      (\<lambda>t. X t + Y (t div 2 ^ s))"
    by (rule gives_cong [OF a], simp only: v) (intro mod_ring_intros)
  moreover have "gives (pc_consts ctx) (pid ctx j) (2 ^ (e + s)) (add_scale_p_b_k (pc_consts ctx) (pid ctx j) (2 ^ (e + s)) (2 ^ e) (lp_limb dst ! j) (lp_limb p ! j))
      (\<lambda>t. X t + Y (t div 2 ^ s) * P)"
    by (rule gives_cong [OF k(2)], simp only: v) (intro mod_ring_intros)
  moreover have "gives (pc_consts ctx) (pid ctx j) (2 ^ (e + s)) (add_scale_p_a_k (pc_consts ctx) (pid ctx j) (2 ^ (e + s)) (2 ^ e) (lp_limb dst ! j) (lp_limb p ! j))
      (\<lambda>t. X t * P + Y (t div 2 ^ s))"
    by (rule gives_cong [OF k(3)], simp only: v) (intro mod_ring_intros)
  ultimately show ?thesis by (simp add: ext_sum_def)
qed

lemma special_residue:
  assumes "ctx_ext ctx lev P" and "special_start ctx \<le> j" and "j < special_start ctx + numSpecialLimbs ctx"
  shows "(x + y * P) mod iprime (pc_consts ctx) (sid ctx j) = x mod iprime (pc_consts ctx) (sid ctx j)"
    and "(x * P + y) mod iprime (pc_consts ctx) (sid ctx j) = y mod iprime (pc_consts ctx) (sid ctx j)"
  using ctx_extD(8) [OF assms] by (simp_all add: mod_eq_0_iff_dvd mod_eq_dvd_iff dvd_mult)

lemma special_rep_cong:
  assumes "special_rep ctx e p X"
    and "\<And>j t. special_start ctx \<le> j \<Longrightarrow> j < special_start ctx + numSpecialLimbs ctx
      \<Longrightarrow> t < 2 ^ e \<Longrightarrow> X t mod iprime (pc_consts ctx) (sid ctx j) = Y t mod iprime (pc_consts ctx) (sid ctx j)"
    and "lp_special q = lp_special p"
  shows "special_rep ctx e q Y"
  using assms unfolding special_rep_def limbs_rep_def by auto

lemma lp_add_limb_rows:
  assumes C: "ctx_ext ctx lev P" and X: "part_rep ctx lev (e + s) dst X" and Y: "part_rep ctx lev e p Y"
    and slots: "2 * slots = 2 ^ e" and n: "row_threads ctx lev dst = 2 ^ (e + s)"
  shows "\<exists>limbs. limb_rows ctx (getLimbSize ctx lev)
      (\<lambda>j i a. with_operand (lp_limb p) j (\<lambda>b.
         if exta = extb then add_k (pc_consts ctx) i (row_threads ctx lev dst) (2 * slots) a b
         else if exta then add_scale_p_b_k (pc_consts ctx) i (row_threads ctx lev dst) (2 * slots) a b
         else add_scale_p_a_k (pc_consts ctx) i (row_threads ctx lev dst) (2 * slots) a b)) (lp_limb dst) = Some (Inr limbs)
    \<and> (\<forall>sp. part_rep ctx lev (e + s) (dst\<lparr>lp_limb := limbs, lp_special := sp\<rparr>) (\<lambda>t. ext_sum P exta extb (X t) (Y (t div 2 ^ s))))"
proof -
  let ?k = "\<lambda>j i a. with_operand (lp_limb p) j (\<lambda>b.
         if exta = extb then add_k (pc_consts ctx) i (row_threads ctx lev dst) (2 * slots) a b
         else if exta then add_scale_p_b_k (pc_consts ctx) i (row_threads ctx lev dst) (2 * slots) a b
         else add_scale_p_a_k (pc_consts ctx) i (row_threads ctx lev dst) (2 * slots) a b)"
  have "gives (pc_consts ctx) (pid ctx j) (2 ^ (e + s)) (?k j (pid ctx j) (lp_limb dst ! j))
       (\<lambda>t. ext_sum P exta extb (X t) (Y (t div 2 ^ s)))" if j: "j < getLimbSize ctx lev" for j
    unfolding n slots by (rule part_rep_operand [OF Y j]) (rule lp_add_limbs [OF C X Y j])
  from part_rows_sized [OF ctx_extD(4) [OF C] part_rep_sized [OF X], of ?k] this obtain limbs where
    "limb_rows ctx (getLimbSize ctx lev) ?k (lp_limb dst) = Some (Inr limbs)"
    "part_rep ctx lev (e + s) (dst\<lparr>lp_limb := limbs\<rparr>) (\<lambda>t. ext_sum P exta extb (X t) (Y (t div 2 ^ s)))" by blast
  then show ?thesis by (intro exI [of _ limbs]) (simp add: part_rep_def)
qed

lemma special_add_rep:
  assumes C: "ctx_ext ctx lev P" and X: "special_rep ctx (e + s) dst X" and Y: "special_rep ctx e p Y" and n: "n = 2 ^ (e + s)"
  obtains sp where "special_rows ctx n (special_start ctx) (numSpecialLimbs ctx)
      (\<lambda>j i a. with_operand (lp_special p) j (add_k (pc_consts ctx) i n (2 ^ e) a)) (lp_special dst) = Some (Inr sp)"
    and "special_rep ctx (e + s) (q\<lparr>lp_special := sp\<rparr>) (\<lambda>t. X t + Y (t div 2 ^ s))"
proof -
  let ?c = "pc_consts ctx" and ?k = "\<lambda>j i a. with_operand (lp_special p) j (add_k (pc_consts ctx) i n (2 ^ e) a)"
  have "\<exists>sp. special_rows ctx n (special_start ctx) (numSpecialLimbs ctx) ?k (lp_special dst) = Some (Inr sp)
      \<and> special_rep ctx (e + s) (q\<lparr>lp_special := sp\<rparr>) (\<lambda>t. X t + Y (t div 2 ^ s))"
  proof (rule special_rows_rep [OF C n])
    show "special_start ctx + numSpecialLimbs ctx \<le> length (lp_special dst)" using X by (simp add: special_rep_def limbs_rep_def)
    fix j
    assume j: "special_start ctx \<le> j" "j < special_start ctx + numSpecialLimbs ctx"
    have o: "operands2 ?c (sid ctx j) (2 ^ e) s (lp_special dst ! j) (lp_special p ! j)"
      using special_rep_row(1) [OF X j] special_rep_row(1) [OF Y j] ctx_extD(7) [OF C j] by (simp add: operands2_def power_add)
    show "gives ?c (sid ctx j) (2 ^ (e + s)) (?k j (sid ctx j) (lp_special dst ! j)) (\<lambda>t. X t + Y (t div 2 ^ s))"
      unfolding n
      by (rule gives_operand [OF special_rep_row(3) [OF Y j]], rule gives_cong [OF two_operand_kernels(1) [OF o, folded power_add]])
        (simp add: special_rep_row(2) [OF X j] special_rep_row(2) [OF Y j div_stride] mod_simps)
  qed
  with that show ?thesis by blast
qed

lemma lp_add_rep:
  assumes C: "ctx_ext ctx lev P" and X: "ext_rep ctx lev (e + s) exta dst X" and Y: "ext_rep ctx lev e extb p Y"
    and slots: "2 * slots = 2 ^ e"
    and grow: "extb \<Longrightarrow> \<not> exta \<Longrightarrow> s = 0 \<and> 2 ^ e = pc_N ctx \<and> special_start ctx + numSpecialLimbs ctx \<le> length (lp_special dst)"
  shows "\<exists>r. lp_add ctx lev p exta extb slots dst = Some (Inr r)
    \<and> ext_rep ctx lev (e + s) (exta \<or> extb) r (\<lambda>t. ext_sum P exta extb (X t) (Y (t div 2 ^ s)))"
proof -
  let ?n = "row_threads ctx lev dst" and ?Z = "\<lambda>t. ext_sum P exta extb (X t) (Y (t div 2 ^ s))"
  have X': "part_rep ctx lev (e + s) dst X" and Y': "part_rep ctx lev e p Y" using X Y by (simp_all add: ext_rep_def)
  have n: "?n = 2 ^ (e + s)" using row_threads_sized [OF part_rep_sized [OF X'] ctx_extD(2) [OF C]] .
  obtain limbs where limbs: "limb_rows ctx (getLimbSize ctx lev)
      (\<lambda>j i a. with_operand (lp_limb p) j (\<lambda>b.
         if exta = extb then add_k (pc_consts ctx) i (row_threads ctx lev dst) (2 * slots) a b
         else if exta then add_scale_p_b_k (pc_consts ctx) i (row_threads ctx lev dst) (2 * slots) a b
         else add_scale_p_a_k (pc_consts ctx) i (row_threads ctx lev dst) (2 * slots) a b)) (lp_limb dst) = Some (Inr limbs)"
    and part: "\<And>sp. part_rep ctx lev (e + s) (dst\<lparr>lp_limb := limbs, lp_special := sp\<rparr>) ?Z"
    using lp_add_limb_rows [OF C X' Y' slots n] by blast
  have upd: "part_rep ctx lev (e + s) (dst\<lparr>lp_limb := limbs\<rparr>) ?Z" using part by (simp add: part_rep_def)
  consider (both) "exta" "extb" | (copy) "extb" "\<not> exta" | (keep) "exta" "\<not> extb" | (none) "\<not> exta" "\<not> extb" by blast
  then show ?thesis
  proof cases
    case both
    then have sX: "special_rep ctx (e + s) dst X" and sY: "special_rep ctx e p Y" using X Y by (simp_all add: ext_rep_def)
    obtain sp where sp: "special_rows ctx ?n (special_start ctx) (numSpecialLimbs ctx)
        (\<lambda>j i a. with_operand (lp_special p) j (add_k (pc_consts ctx) i ?n (2 ^ e) a)) (lp_special dst) = Some (Inr sp)"
      "special_rep ctx (e + s) (dst\<lparr>lp_limb := limbs\<rparr>\<lparr>lp_special := sp\<rparr>) (\<lambda>t. X t + Y (t div 2 ^ s))"
      by (rule special_add_rep [OF C sX sY n])
    then show ?thesis using both limbs part slots by (auto simp: lp_add_def Let_def ext_rep_def ext_sum_def)
  next
    case copy
    then have g: "s = 0" "2 ^ e = pc_N ctx" "special_start ctx + numSpecialLimbs ctx \<le> length (lp_special dst)" and sY: "special_rep ctx e p Y"
      using grow Y by (simp_all add: ext_rep_def)
    have n': "?n = 2 ^ e" using n g(1) by simp
    obtain sp where sp: "special_copy ctx ?n (special_start ctx) (numSpecialLimbs ctx) (lp_special p) (lp_special dst) = Some (Inr sp)"
      "special_rep ctx e (dst\<lparr>lp_special := sp\<rparr>) Y"
      using special_copy_rep [OF C sY g(3) n'] by blast
    then have "special_rep ctx e (dst\<lparr>lp_limb := limbs, lp_special := sp\<rparr>) ?Z"
      using g(1) copy by (intro special_rep_cong [OF sp(2)]) (simp_all add: ext_sum_def special_residue(2) [OF C])
    then show ?thesis using copy limbs part sp(1) g(1,2) slots by (auto simp: lp_add_def Let_def ext_rep_def assertO_def)
  next
    case keep
    then have sX: "special_rep ctx (e + s) dst X" using X by (simp add: ext_rep_def)
    then have "special_rep ctx (e + s) (dst\<lparr>lp_limb := limbs\<rparr>) ?Z"
      using keep by (intro special_rep_cong [OF sX]) (simp_all add: ext_sum_def special_residue(1) [OF C])
    then show ?thesis using keep limbs upd by (auto simp: lp_add_def Let_def ext_rep_def)
  next
    case none
    then show ?thesis using limbs upd by (auto simp: lp_add_def Let_def ext_rep_def)
  qed
qed

text \<open>Scaling by \<open>P\<close> makes an ordinary polynomial the extended one of \<open>P\<close> times its value, as far as the
  regular limbs go.\<close>

lemma lp_scaleByP_rep:
  assumes C: "ctx_ext ctx lev P" and X: "part_rep ctx lev e dst X"
  shows "\<exists>r. lp_scaleByP ctx lev dst = Some (Inr r) \<and> part_rep ctx lev e r (\<lambda>t. X t * P) \<and> lp_special r = lp_special dst"
proof -
  have row: "gives (pc_consts ctx) (pid ctx j) (2 ^ e) (scaleByP_k (pc_consts ctx) (pid ctx j) (2 ^ e) (lp_limb dst ! j)) (\<lambda>t. X t * P)"
    if j: "j < getLimbSize ctx lev" for j
  proof -
    note w = ctx_wideD [OF ctx_extD(1) [OF C]] and l = part_rep_row(1) [OF X j]
    have "(0::nat) < 2 ^ e" by simp
    note k = scale_kernels(1) [OF w(3) [OF j] ctx_extD(5) [OF C j] w(2) [OF j] this, of 0 "lp_limb dst ! j" "lp_limb dst ! j"]
    have "gives (pc_consts ctx) (pid ctx j) (2 ^ e) (scaleByP_k (pc_consts ctx) (pid ctx j) (2 ^ e) (lp_limb dst ! j))
        (\<lambda>t. lval (lp_limb dst ! j) t * uint (hc_P (pc_consts ctx) ! pid ctx j))"
      using k l by simp
    then show ?thesis
      by (rule gives_cong, simp only: part_rep_row(2) [OF X j] ctx_extD(6) [OF C j]) (intro mod_ring_intros)
  qed
  show ?thesis unfolding lp_scaleByP_def by (rule part_op [OF ctx_extD(4) [OF C] part_rep_sized [OF X]]) (simp add: row)
qed


section \<open>Sums into a fresh destination\<close>

lemma lp_add3_limbs:
  assumes C: "ctx_ext ctx lev P" and X: "part_rep ctx lev (e + s) a X" and Y: "part_rep ctx lev e b Y" and j: "j < getLimbSize ctx lev"
  shows "gives (pc_consts ctx) (pid ctx j) (2 ^ (e + s))
      (if \<not> exta \<and> extb then addScaleB_k (pc_consts ctx) (pid ctx j) (2 ^ (e + s)) (2 ^ e) d (lp_limb a ! j) (lp_limb b ! j)
       else if \<not> extb \<and> exta then addScaleC_k (pc_consts ctx) (pid ctx j) (2 ^ (e + s)) (2 ^ e) d (lp_limb a ! j) (lp_limb b ! j)
       else add3_k (pc_consts ctx) (pid ctx j) (2 ^ (e + s)) (2 ^ e) (lp_limb a ! j) (lp_limb b ! j))
      (\<lambda>t. ext_sum P exta extb (X t) (Y (t div 2 ^ s)))"
proof -
  let ?c = "pc_consts ctx" and ?a = "lp_limb a ! j" and ?b = "lp_limb b ! j"
  note w = ctx_wideD [OF ctx_extD(1) [OF C]]
  note v = part_rep_row(2) [OF X j] part_rep_row(2) [OF Y j div_stride] ctx_extD(6) [OF C j]
  have z: "(0::nat) < 2 ^ e" by simp
  note k = scale_kernels [OF w(3) [OF j] ctx_extD(5) [OF C j] w(2) [OF j] z part_rep_row(1) [OF X j, unfolded power_add] part_rep_row(1) [OF Y j], folded power_add]
  have "gives ?c (pid ctx j) (2 ^ (e + s)) (add3_k ?c (pid ctx j) (2 ^ (e + s)) (2 ^ e) ?a ?b) (\<lambda>t. X t + Y (t div 2 ^ s))"
    by (rule gives_cong [OF two_operand_kernels(3) [OF operands2_rows [OF ctx_extD(4) [OF C] X Y j], folded power_add]], simp only: v)
      (intro mod_ring_intros)
  moreover have "gives ?c (pid ctx j) (2 ^ (e + s)) (addScaleB_k ?c (pid ctx j) (2 ^ (e + s)) (2 ^ e) d ?a ?b) (\<lambda>t. X t * P + Y (t div 2 ^ s))"
    by (rule gives_cong [OF k(4)], simp only: v) (intro mod_ring_intros)
  moreover have "gives ?c (pid ctx j) (2 ^ (e + s)) (addScaleC_k ?c (pid ctx j) (2 ^ (e + s)) (2 ^ e) d ?a ?b) (\<lambda>t. X t + Y (t div 2 ^ s) * P)"
    by (rule gives_cong [OF k(5)], simp only: v) (intro mod_ring_intros)
  ultimately show ?thesis by (simp add: ext_sum_def)
qed

lemma special_add3_rep:
  fixes dst :: Partition
  assumes C: "ctx_ext ctx lev P" and X: "special_rep ctx (e + s) a X" and Y: "special_rep ctx e b Y" and n: "n = 2 ^ (e + s)"
    and len: "special_start ctx + numSpecialLimbs ctx \<le> length (lp_special dst)"
  shows "\<exists>sp. special_rows ctx n (special_start ctx) (numSpecialLimbs ctx)
      (\<lambda>j i _. with_operand (lp_special a) j (\<lambda>x. with_operand (lp_special b) j (add3_k (pc_consts ctx) i n (2 ^ e) x))) (lp_special dst) = Some (Inr sp)
    \<and> (\<forall>q. special_rep ctx (e + s) (q\<lparr>lp_special := sp\<rparr>) (\<lambda>t. X t + Y (t div 2 ^ s)))"
proof -
  let ?c = "pc_consts ctx"
  let ?k = "\<lambda>j i (_::limb). with_operand (lp_special a) j (\<lambda>x. with_operand (lp_special b) j (add3_k ?c i n (2 ^ e) x))"
  have "\<exists>sp. special_rows ctx n (special_start ctx) (numSpecialLimbs ctx) ?k (lp_special dst) = Some (Inr sp)
      \<and> special_rep ctx (e + s) (dst\<lparr>lp_special := sp\<rparr>) (\<lambda>t. X t + Y (t div 2 ^ s))"
  proof (rule special_rows_rep [OF C n len])
    fix j
    assume j: "special_start ctx \<le> j" "j < special_start ctx + numSpecialLimbs ctx"
    have o: "operands2 ?c (sid ctx j) (2 ^ e) s (lp_special a ! j) (lp_special b ! j)"
      using special_rep_row(1) [OF X j] special_rep_row(1) [OF Y j] ctx_extD(7) [OF C j] by (simp add: operands2_def power_add)
    show "gives ?c (sid ctx j) (2 ^ (e + s)) (?k j (sid ctx j) (lp_special dst ! j)) (\<lambda>t. X t + Y (t div 2 ^ s))"
      unfolding n
      by (rule gives_operand [OF special_rep_row(3) [OF X j]], rule gives_operand [OF special_rep_row(3) [OF Y j]],
          rule gives_cong [OF two_operand_kernels(3) [OF o, folded power_add]])
        (simp add: special_rep_row(2) [OF X j] special_rep_row(2) [OF Y j div_stride] mod_simps)
  qed
  then show ?thesis by (auto simp: special_rep_def)
qed

lemma lp_add3_rep:
  assumes C: "ctx_ext ctx lev P" and X: "ext_rep ctx lev (e + s) exta a X" and Y: "ext_rep ctx lev e extb b Y"
    and dst: "part_sized ctx lev (e + s) dst" and slots: "2 * slots = 2 ^ e"
    and grow: "exta \<or> extb \<Longrightarrow> special_start ctx + numSpecialLimbs ctx \<le> length (lp_special dst)"
    and full: "extb \<Longrightarrow> \<not> exta \<Longrightarrow> s = 0 \<and> 2 ^ e = pc_N ctx"
  shows "\<exists>r. lp_add3 ctx lev a b exta extb slots dst = Some (Inr r)
    \<and> ext_rep ctx lev (e + s) (exta \<or> extb) r (\<lambda>t. ext_sum P exta extb (X t) (Y (t div 2 ^ s)))"
proof -
  let ?c = "pc_consts ctx" and ?n = "row_threads ctx lev dst" and ?Z = "\<lambda>t. ext_sum P exta extb (X t) (Y (t div 2 ^ s))"
  let ?st = "special_start ctx" and ?num = "numSpecialLimbs ctx"
  have X': "part_rep ctx lev (e + s) a X" and Y': "part_rep ctx lev e b Y" using X Y by (simp_all add: ext_rep_def)
  have n: "?n = 2 ^ (e + s)" using row_threads_sized [OF dst ctx_extD(2) [OF C]] .
  let ?k = "\<lambda>j i d. with_operand (lp_limb a) j (\<lambda>x. with_operand (lp_limb b) j (\<lambda>y.
              if \<not> exta \<and> extb then addScaleB_k ?c i ?n (2 * slots) d x y
              else if \<not> extb \<and> exta then addScaleC_k ?c i ?n (2 * slots) d x y
              else add3_k ?c i ?n (2 * slots) x y))"
  have "gives ?c (pid ctx j) (2 ^ (e + s)) (?k j (pid ctx j) (lp_limb dst ! j)) ?Z" if j: "j < getLimbSize ctx lev" for j
    unfolding n slots by (rule part_rep_operand [OF X' j], rule part_rep_operand [OF Y' j]) (rule lp_add3_limbs [OF C X' Y' j])
  then obtain limbs where limbs: "limb_rows ctx (getLimbSize ctx lev) ?k (lp_limb dst) = Some (Inr limbs)"
    and part: "part_rep ctx lev (e + s) (dst\<lparr>lp_limb := limbs\<rparr>) ?Z"
    using part_rows_sized [OF ctx_extD(4) [OF C] dst, of ?k ?Z] by blast
  have sp: "\<exists>sp. (if \<not> exta \<and> extb then assertO (?num = 0 \<or> 2 * slots = pc_N ctx) (special_copy ctx ?n ?st ?num (lp_special b) (lp_special dst))
       else if \<not> extb \<and> exta then special_copy ctx ?n ?st ?num (lp_special a) (lp_special dst)
       else special_rows ctx ?n ?st ?num
         (\<lambda>j i _. with_operand (lp_special a) j (\<lambda>x. with_operand (lp_special b) j (add3_k ?c i ?n (2 * slots) x))) (lp_special dst)) = Some (Inr sp)
     \<and> special_rep ctx (e + s) (dst\<lparr>lp_limb := limbs, lp_special := sp\<rparr>) ?Z" if ext: "exta \<or> extb"
  proof -
    note len = grow [OF ext]
    consider "exta" "extb" | "extb" "\<not> exta" | "exta" "\<not> extb" using ext by blast
    then show ?thesis
    proof cases
      case 1
      then show ?thesis using special_add3_rep [OF C _ _ n len, of a X b Y] X Y slots by (auto simp: ext_rep_def ext_sum_def)
    next
      case 2
      then have g: "s = 0" "2 ^ e = pc_N ctx" and sY: "special_rep ctx e b Y" using full Y by (simp_all add: ext_rep_def)
      from special_copy_rep [OF C sY len, of ?n] n g(1) obtain sp where
        "special_copy ctx ?n ?st ?num (lp_special b) (lp_special dst) = Some (Inr sp)"
        "special_rep ctx e (dst\<lparr>lp_limb := limbs\<rparr>\<lparr>lp_special := sp\<rparr>) Y" by (auto simp: special_rep_def)
      then show ?thesis using 2 g slots
        by (auto simp: assertO_def ext_sum_def special_residue(2) [OF C] intro!: special_rep_cong [of ctx e "dst\<lparr>lp_limb := limbs\<rparr>\<lparr>lp_special := sp\<rparr>" Y])
    next
      case 3
      then have sX: "special_rep ctx (e + s) a X" using X by (simp add: ext_rep_def)
      from special_copy_rep [OF C sX len n] obtain sp where
        "special_copy ctx ?n ?st ?num (lp_special a) (lp_special dst) = Some (Inr sp)"
        "special_rep ctx (e + s) (dst\<lparr>lp_limb := limbs\<rparr>\<lparr>lp_special := sp\<rparr>) X" by (auto simp: special_rep_def)
      then show ?thesis using 3
        by (auto simp: ext_sum_def special_residue(1) [OF C] intro!: special_rep_cong [of ctx "e + s" "dst\<lparr>lp_limb := limbs\<rparr>\<lparr>lp_special := sp\<rparr>" X])
    qed
  qed
  show ?thesis
  proof (cases "exta \<or> extb")
    case True
    then obtain sp where sp': "(if \<not> exta \<and> extb then assertO (?num = 0 \<or> 2 * slots = pc_N ctx) (special_copy ctx ?n ?st ?num (lp_special b) (lp_special dst))
       else if \<not> extb \<and> exta then special_copy ctx ?n ?st ?num (lp_special a) (lp_special dst)
       else special_rows ctx ?n ?st ?num
         (\<lambda>j i _. with_operand (lp_special a) j (\<lambda>x. with_operand (lp_special b) j (add3_k ?c i ?n (2 * slots) x))) (lp_special dst)) = Some (Inr sp)"
      "special_rep ctx (e + s) (dst\<lparr>lp_limb := limbs, lp_special := sp\<rparr>) ?Z" using sp by blast
    have "lp_add3 ctx lev a b exta extb slots dst = Some (Inr (dst\<lparr>lp_limb := limbs, lp_special := sp\<rparr>))"
      unfolding lp_add3_def Let_def limbs thenO_simps if_P [OF True] sp'(1) ..
    then show ?thesis using sp'(2) part True by (auto simp: ext_rep_def part_rep_def)
  next
    case False
    then show ?thesis using limbs part by (auto simp: lp_add3_def Let_def ext_rep_def)
  qed
qed


section \<open>Weighted sums\<close>

text \<open>The packed weights hold the residues of the integers \<open>W 0, ..., W (m-1)\<close>.\<close>

definition weights_rep :: "PartCtx \<Rightarrow> int \<Rightarrow> nat \<Rightarrow> u64 list \<Rightarrow> (nat \<Rightarrow> int) \<Rightarrow> bool" where
  "weights_rep ctx lev m w W \<longleftrightarrow> (\<forall>j < getLimbSize ctx lev. pid ctx j < MAXP \<and> (m - 1) * MAXP + pid ctx j < length w
     \<and> (\<forall>k < m. uint (weight w k (pid ctx j)) = W k mod iprime (pc_consts ctx) (pid ctx j)))"

lemma weights_rep_row:
  assumes "ctx_wide ctx lev" and "weights_rep ctx lev m w W" and "j < getLimbSize ctx lev"
  shows "pid ctx j < MAXP" and "(m - 1) * MAXP + pid ctx j < length w"
    and "k < m \<Longrightarrow> uint (weight w k (pid ctx j)) = W k mod iprime (pc_consts ctx) (pid ctx j)"
    and "\<forall>k < m. unat (weight w k (pid ctx j)) < dprime (pc_consts ctx) (pid ctx j)"
proof -
  show "pid ctx j < MAXP" "(m - 1) * MAXP + pid ctx j < length w"
    and e: "k < m \<Longrightarrow> uint (weight w k (pid ctx j)) = W k mod iprime (pc_consts ctx) (pid ctx j)" for k
    using assms(2,3) by (simp_all add: weights_rep_def)
  have "1 < iprime (pc_consts ctx) (pid ctx j)" using uint_gt1 [OF prime_entry_bounds(1) [OF ctx_wideD(3) [OF assms(1,3)]]] .
  then show "\<forall>k < m. unat (weight w k (pid ctx j)) < dprime (pc_consts ctx) (pid ctx j)"
    using e by (simp flip: uint_less_iff)
qed

lemma mod_sum_cong:
  fixes p :: int and n :: nat
  assumes "\<And>k. k < n \<Longrightarrow> f k mod p = g k mod p"
  shows "(\<Sum>k<n. f k) mod p = (\<Sum>k<n. g k) mod p"
  using assms
proof (induction n)
  case (Suc n)
  have "(sum f {..<n} + f n) mod p = (sum g {..<n} + g n) mod p"
    by (rule mod_add_cong) (use Suc in auto)
  then show ?case by simp
qed simp

lemma evalLinearWSum_row:
  assumes C: "ctx_wide ctx lev" and ps: "\<And>k. k < length ps \<Longrightarrow> part_rep ctx lev e (ps ! k) (X k)"
    and w: "weights_rep ctx lev (length ps + (if with_bias then 1 else 0)) w W" and j: "j < getLimbSize ctx lev"
  shows "gives (pc_consts ctx) (pid ctx j) (2 ^ e)
    (bindE (mapE (\<lambda>p. limb_at (lp_limb p) j) ps) (\<lambda>bs.
       if with_bias then eval_linear_w_sum_with_bias_k (pc_consts ctx) (pid ctx j) (2 ^ e) bs w
       else eval_linear_w_sum_k (pc_consts ctx) (pid ctx j) (2 ^ e) bs w))
    (\<lambda>t. (\<Sum>k<length ps. X k t * W k) + (if with_bias then W (length ps) else 0))"
proof -
  let ?c = "pc_consts ctx" and ?i = "pid ctx j" and ?bs = "map (\<lambda>p. lp_limb p ! j) ps"
  note wd = ctx_wideD(3,2) [OF C j] and wr = weights_rep_row [OF C w j]
  have "mapE (\<lambda>p. limb_at (lp_limb p) j) ps = Inr ?bs"
  proof (rule mapE_Inr)
    fix p
    assume "p \<in> set ps"
    then obtain k where "k < length ps" "p = ps ! k" by (auto simp: in_set_conv_nth)
    then show "limb_at (lp_limb p) j = Inr (lp_limb p ! j)" using part_rep_row(3) [OF ps j] by simp
  qed
  moreover have bs: "\<forall>b \<in> set ?bs. limb_ok ?c ?i (2 ^ e) b"
  proof
    fix b
    assume "b \<in> set ?bs"
    then obtain k where "k < length ps" "b = lp_limb (ps ! k) ! j" by (auto simp: in_set_conv_nth)
    then show "limb_ok ?c ?i (2 ^ e) b" using part_rep_row(1) [OF ps j] by simp
  qed
  have v: "(\<Sum>k<length ?bs. lval (?bs ! k) t * uint (weight w k ?i)) mod iprime ?c ?i = (\<Sum>k<length ps. X k t * W k) mod iprime ?c ?i"
    if "t < 2 ^ e" for t
  proof -
    have "lval (lp_limb (ps ! k) ! j) t * uint (weight w k ?i) mod iprime ?c ?i = X k t * W k mod iprime ?c ?i" if "k < length ps" for k
      using part_rep_row(2) [OF ps j \<open>t < 2 ^ e\<close>] wr(3) that by (simp add: mod_mult_eq)
    then show ?thesis by (auto intro!: mod_sum_cong)
  qed
  have "gives ?c ?i (2 ^ e) (if with_bias then eval_linear_w_sum_with_bias_k ?c ?i (2 ^ e) ?bs w else eval_linear_w_sum_k ?c ?i (2 ^ e) ?bs w)
      (\<lambda>t. (\<Sum>k<length ps. X k t * W k) + (if with_bias then W (length ps) else 0))"
  proof (cases with_bias)
    case True
    have "gives ?c ?i (2 ^ e) (eval_linear_w_sum_with_bias_k ?c ?i (2 ^ e) ?bs w)
        (\<lambda>t. (\<Sum>k<length ?bs. lval (?bs ! k) t * uint (weight w k ?i)) + uint (weight w (length ?bs) ?i))"
      using wr True by (intro weighted_sum_with_bias_gives [OF wd bs]) simp_all
    then have "gives ?c ?i (2 ^ e) (eval_linear_w_sum_with_bias_k ?c ?i (2 ^ e) ?bs w) (\<lambda>t. (\<Sum>k<length ps. X k t * W k) + W (length ps))"
      by (rule gives_cong) (rule mod_add_cong, erule v, use wr(3) [of "length ps"] True in simp)
    then show ?thesis using True by simp
  next
    case False
    have "gives ?c ?i (2 ^ e) (eval_linear_w_sum_k ?c ?i (2 ^ e) ?bs w) (\<lambda>t. \<Sum>k<length ?bs. lval (?bs ! k) t * uint (weight w k ?i))"
      using wr False by (intro weighted_sum_gives [OF wd bs]) simp_all
    then show ?thesis using gives_cong [OF _ v] False by simp
  qed
  ultimately show ?thesis by simp
qed

lemma lp_evalLinearWSum_rep:
  assumes C: "ctx_wide ctx lev" and ps: "\<And>k. k < length ps \<Longrightarrow> part_rep ctx lev e (ps ! k) (X k)"
    and w: "weights_rep ctx lev (length ps + (if with_bias then 1 else 0)) w W" and dst: "part_sized ctx lev e dst"
  shows "\<exists>r. lp_evalLinearWSum ctx lev ps w with_bias dst = Some (Inr r) \<and> lp_special r = lp_special dst
    \<and> part_rep ctx lev e r (\<lambda>t. (\<Sum>k<length ps. X k t * W k) + (if with_bias then W (length ps) else 0))"
proof (cases "getLimbSize ctx lev = 0")
  case True
  then show ?thesis by (simp add: lp_evalLinearWSum_def Let_def assertO_def part_rep_def limbs_rep_def list_all_iff)
next
  case False
  then have n: "row_threads ctx lev dst = 2 ^ e" and len: "getLimbSize ctx lev \<le> length (lp_limb dst)" and ne: "lp_limb dst \<noteq> []"
    using row_threads_sized [OF dst] dst by (auto simp: part_sized_def)
  have A: "list_all (\<lambda>p. getLimbSize ctx lev \<le> length (lp_limb p)) ps"
    using part_rep_length [OF ps] by (simp add: list_all_length)
  let ?row = "\<lambda>j i (_::limb). bindE (mapE (\<lambda>p. limb_at (lp_limb p) j) ps) (\<lambda>bs.
       if with_bias then eval_linear_w_sum_with_bias_k (pc_consts ctx) i (2 ^ e) bs w
       else eval_linear_w_sum_k (pc_consts ctx) i (2 ^ e) bs w)"
  let ?Y = "\<lambda>t. (\<Sum>k<length ps. X k t * W k) + (if with_bias then W (length ps) else 0)"
  have "\<exists>xs. batch_loop (launch (\<lambda>j. modify_at j (?row j (pid ctx j)))) (getLimbSize ctx lev) 1 0 (lp_limb dst) = Some (Inr xs)
      \<and> limbs_rep (pc_consts ctx) (pid ctx) 0 (getLimbSize ctx lev) (2 ^ e) xs ?Y \<and> length xs = length (lp_limb dst)"
    by (rule rows_rep [OF _ len]) (simp, rule evalLinearWSum_row [OF C ps w])
  then obtain xs where xs: "launch (\<lambda>j. modify_at j (?row j (pid ctx j))) 0 (getLimbSize ctx lev) (lp_limb dst) = Inr xs"
    "limbs_rep (pc_consts ctx) (pid ctx) 0 (getLimbSize ctx lev) (2 ^ e) xs ?Y"
    by (auto simp: batch_loop_rows launch_shift)
  have "lp_evalLinearWSum ctx lev ps w with_bias dst = Some (Inr (dst\<lparr>lp_limb := xs\<rparr>))"
    using A ne False xs(1) by (simp add: lp_evalLinearWSum_def Let_def assertO_def n)
  then show ?thesis using xs(2) by (simp add: part_rep_def)
qed

end
