(* ===== verification/LimbStore.thy ===== *)
theory LimbStore
  imports PartitionOps
begin

text \<open>
  The memory of a partition: the limbs that \<open>src/src/CKKS/LimbPartition.cu\<close> allocates and frees, and
  the transfers of \<open>src/src/CKKS/Limb.cu\<close> between a limb and a host vector. Fresh device memory holds
  whatever it held before: the argument \<open>junk\<close> gives its words by the prime's id and the index.
\<close>

section \<open>Allocation\<close>

type_synonym memory = "nat \<Rightarrow> nat \<Rightarrow> u64"

definition fresh_limb :: "memory \<Rightarrow> nat \<Rightarrow> LimbRecord \<Rightarrow> limb" where
  "fresh_limb junk n r = (case lr_type r of
     U32 \<Rightarrow> L32 (map (\<lambda>t. ucast (junk (lr_id r) t)) [0..<n])
   | U64 \<Rightarrow> L64 (map (junk (lr_id r)) [0..<n]))"

text \<open>\<open>generate\<close> appends the limbs of the records up to position \<open>pos\<close>, of \<open>num_elems\<close> values each;
  -1 stands for the dimension of the ring.\<close>

definition lp_generate :: "memory \<Rightarrow> PartCtx \<Rightarrow> LimbRecord list \<Rightarrow> int \<Rightarrow> int \<Rightarrow> limb list \<Rightarrow> cpp_error + limb list" where
  "lp_generate junk ctx records pos num_elems limbs =
     (if \<not> pos < int (length records) then Inl Assert_failed
      else let n = (if num_elems = -1 then pc_N ctx else nat num_elems)
           in Inr (limbs @ map (fresh_limb junk n) (drop (length limbs) (take (nat (pos + 1)) records))))"

definition lp_generateLimbToLevel :: "memory \<Rightarrow> PartCtx \<Rightarrow> int \<Rightarrow> int \<Rightarrow> Partition \<Rightarrow> cpp_error + Partition" where
  "lp_generateLimbToLevel junk ctx new_level num_elems p =
     (let new_size = getLimbSize ctx new_level
      in if new_size > length (lp_limb p)
         then bindE (lp_generate junk ctx (pc_meta ctx) (int new_size - 1) num_elems (lp_limb p)) (\<lambda>ls. Inr (p\<lparr>lp_limb := ls\<rparr>))
         else Inr p)"

definition lp_generateLimbSingleMalloc :: "memory \<Rightarrow> PartCtx \<Rightarrow> Partition \<Rightarrow> cpp_error + Partition" where
  "lp_generateLimbSingleMalloc junk ctx p =
     bindE (guardE Assert_failed (lp_bufferLIMB p \<or> lp_limb p = [])) (\<lambda>_.
     bindE (lp_generate junk ctx (pc_meta ctx) (int (length (pc_meta ctx)) - 1) (-1) []) (\<lambda>ls.
     Inr (p\<lparr>lp_limb := ls, lp_bufferLIMB := True\<rparr>)))"

definition lp_generateLimbConstant :: "memory \<Rightarrow> PartCtx \<Rightarrow> int \<Rightarrow> int \<Rightarrow> Partition \<Rightarrow> cpp_error + Partition" where
  "lp_generateLimbConstant junk ctx lev num_elems p =
     (let limbsize = getLimbSize ctx lev
      in bindE (guardE Assert_failed (lp_limb p = [] \<and> limbsize \<le> length (pc_meta ctx))) (\<lambda>_.
         bindE (lp_generate junk ctx (pc_meta ctx) (int limbsize - 1) num_elems []) (\<lambda>ls.
         Inr (p\<lparr>lp_limb := ls, lp_bufferLIMB := False\<rparr>))))"

text \<open>Zeroing writes as many words as the ring has coefficients, whatever the size of the limb.\<close>

definition zero_limb :: "nat \<Rightarrow> limb \<Rightarrow> cpp_error + limb" where
  "zero_limb N l = (if limb_size l < N then Inl Undefined_behaviour
     else Inr (case l of L32 x \<Rightarrow> L32 (replicate N 0 @ drop N x) | L64 x \<Rightarrow> L64 (replicate N 0 @ drop N x)))"

definition lp_generateSpecialLimb :: "memory \<Rightarrow> PartCtx \<Rightarrow> bool \<Rightarrow> bool \<Rightarrow> Partition \<Rightarrow> cpp_error + Partition" where
  "lp_generateSpecialLimb junk ctx zero_out for_communication p =
     bindE (if pc_smeta ctx \<noteq> [] \<and> (if for_communication then \<not> lp_bufferSPECIAL p else lp_special p = [])
            then bindE (guardE Assert_failed (if for_communication then lp_special p = [] else \<not> lp_bufferSPECIAL p)) (\<lambda>_.
                 bindE (lp_generate junk ctx (pc_smeta ctx) (int (length (pc_smeta ctx)) - 1) (-1) (lp_special p)) (\<lambda>ls.
                 Inr (p\<lparr>lp_special := ls, lp_bufferSPECIAL := for_communication\<rparr>)))
            else Inr p) (\<lambda>p.
     if zero_out then bindE (mapE (zero_limb (pc_N ctx)) (lp_special p)) (\<lambda>ls. Inr (p\<lparr>lp_special := ls\<rparr>)) else Inr p)"

definition lp_generatePartialSpecialLimb :: "memory \<Rightarrow> PartCtx \<Rightarrow> nat \<Rightarrow> Partition \<Rightarrow> cpp_error + Partition" where
  "lp_generatePartialSpecialLimb junk ctx slots p =
     (if lp_special p = [] \<and> pc_split ctx \<noteq> []
      then bindE (lp_generate junk ctx (pc_split ctx) (int (length (pc_split ctx)) - 1) (2 * int slots) []) (\<lambda>ls.
           Inr (p\<lparr>lp_special := ls\<rparr>))
      else Inr p)"

definition lp_freeSpecialLimbs :: "Partition \<Rightarrow> Partition" where
  "lp_freeSpecialLimbs p = p\<lparr>lp_special := [], lp_bufferSPECIAL := False\<rparr>"

definition lp_dropLimb :: "Partition \<Rightarrow> cpp_error + Partition" where
  "lp_dropLimb p = (if lp_limb p = [] then Inl Undefined_behaviour else Inr (p\<lparr>lp_limb := butlast (lp_limb p)\<rparr>))"

fun drop_all :: "nat \<Rightarrow> Partition \<Rightarrow> cpp_error + Partition" where
  "drop_all 0 p = Inr p"
| "drop_all (Suc k) p = bindE (lp_dropLimb p) (drop_all k)"

definition lp_freeLimbs :: "Partition \<Rightarrow> cpp_error + Partition" where
  "lp_freeLimbs p = bindE (drop_all (length (lp_limb p)) p) (\<lambda>p. Inr (p\<lparr>lp_bufferLIMB := False\<rparr>))"

text \<open>\<open>copySpecialLimb\<close>: a list of special limbs that only holds the device's share is indexed from its
  own start.\<close>

definition lp_copySpecialLimb :: "memory \<Rightarrow> PartCtx \<Rightarrow> int \<Rightarrow> int \<Rightarrow> Partition \<Rightarrow> Partition \<Rightarrow> (cpp_error + Partition) option" where
  "lp_copySpecialLimb junk ctx lev plev p dst =
     thenO (Some (lp_generateSpecialLimb junk ctx False False dst)) (\<lambda>dst.
     assertO (lev = plev)
       (let start = special_start ctx; num = numSpecialLimbs ctx; n = row_threads ctx lev dst;
            base = (\<lambda>q. if length (pc_smeta ctx) > length (lp_special q) then start else 0)
        in thenO (batch_loop (\<lambda>i sz. launch (\<lambda>j. modify_at (j - base dst) (on_grid n (\<lambda>_.
                    bindE (limb_at (lp_special p) (j - base p)) (copy_k (pc_consts ctx) (j - i) n)))) i sz)
                  (start + num) (pc_batch ctx) start (lp_special dst))
             (\<lambda>sp. Some (Inr (dst\<lparr>lp_special := sp\<rparr>)))))"

definition lp_multNoModdownEnd :: "memory \<Rightarrow> PartCtx \<Rightarrow> int \<Rightarrow> Partition \<Rightarrow> Partition \<Rightarrow> Partition \<Rightarrow> Partition \<Rightarrow> Partition \<Rightarrow> Partition
    \<Rightarrow> (cpp_error + Partition \<times> Partition) option" where
  "lp_multNoModdownEnd junk ctx lev bc0 bc1 inp aux c1 c0 =
     (let sz = getLimbSize ctx lev; n = row_threads ctx lev c1
      in assertO (list_all (\<lambda>p. sz \<le> length (lp_limb p)) [c0, bc0, bc1, inp, aux])
        (thenO (batch_loop (launch (\<lambda>j (xs, ys).
            bindE (limb_at xs j) (\<lambda>x1. bindE (limb_at ys j) (\<lambda>x0.
            bindE (limb_at (lp_limb bc0) j) (\<lambda>b0. bindE (limb_at (lp_limb bc1) j) (\<lambda>b1.
            bindE (limb_at (lp_limb inp) j) (\<lambda>i. bindE (limb_at (lp_limb aux) j) (\<lambda>a.
            bindE (multnomoddownend_k (pc_consts ctx) (pid ctx j) n x1 x0 b0 b1 i a) (\<lambda>(r1, r0). Inr (xs[j := r1], ys[j := r0]))))))))))
            sz (pc_batch ctx) 0 (lp_limb c1, lp_limb c0)) (\<lambda>(xs, ys).
         thenO (lp_copySpecialLimb junk ctx lev lev inp (c1\<lparr>lp_limb := xs\<rparr>)) (\<lambda>c1.
         thenO (lp_copySpecialLimb junk ctx lev lev aux (c0\<lparr>lp_limb := ys\<rparr>)) (\<lambda>c0. Some (Inr (c1, c0)))))))"

section \<open>Transfers\<close>

definition limb_load :: "limb \<Rightarrow> u64 list \<Rightarrow> cpp_error + limb" where
  "limb_load l src =
     (if \<not> length src \<le> limb_size l then Inl Assert_failed
      else Inr (case l of L32 x \<Rightarrow> L32 (map ucast src @ drop (length src) x) | L64 x \<Rightarrow> L64 (src @ drop (length src) x)))"

text \<open>\<open>store\<close> into a longer host vector repeats every value.\<close>

definition store_values :: "'a list \<Rightarrow> 'a list \<Rightarrow> cpp_error + 'a list" where
  "store_values v dat =
     (if length v = length dat then Inr v
      else if \<not> length dat > length v then Inl Assert_failed
      else if v = [] then Inl Undefined_behaviour
      else let stride = length dat div length v
           in Inr (concat (map (replicate stride) v) @ drop (length v * stride) dat))"

definition limb_store :: "limb \<Rightarrow> u64 list \<Rightarrow> cpp_error + u64 list" where
  "limb_store l dat =
     (let dat = (if dat = [] then replicate (limb_size l) 0 else dat)
      in case l of L64 x \<Rightarrow> store_values x dat
         | L32 x \<Rightarrow> bindE (store_values x (replicate (length dat) 0)) (\<lambda>y. Inr (map ucast y)))"

end
