(* ===== verification/RnsPoly.thy ===== *)
theory RnsPoly
  imports LimbStore
begin

text \<open>
  The polynomials of \<open>src/src/CKKS/RNSPoly.cpp\<close>: one partition of limbs per device, a level, and the
  flag that the special limbs are in use. The operations run the partitions' operations device by
  device; a device touches its own partition only.
\<close>

section \<open>State\<close>

record RNSPoly =
  rp_level :: int
  rp_modUp :: bool
  rp_gpu :: "Partition list"

text \<open>What a polynomial reads from its context.\<close>

record PolyCtx =
  pg_parts :: "PartCtx list"
  pg_limbGPUid :: "(nat \<times> nat) list"
  pg_prime :: "u64 list"
  pg_specialPrime :: "u64 list"
  pg_L :: nat
  pg_N :: nat

definition MODRAISE_WITH_P0 :: bool where
  "MODRAISE_WITH_P0 = False"

section \<open>Loops over the devices\<close>

text \<open>The loop body of device \<open>i\<close> gets the device's context and partition; \<open>err\<close> is the error of an
  index past the polynomial's partitions: an exception for \<open>GPU.at(i)\<close>, undefined for \<open>GPU[i]\<close>.\<close>

fun gpus_run :: "cpp_error \<Rightarrow> PartCtx list \<Rightarrow> nat \<Rightarrow> (nat \<Rightarrow> PartCtx \<Rightarrow> Partition \<Rightarrow> (cpp_error + Partition) option)
    \<Rightarrow> Partition list \<Rightarrow> (cpp_error + Partition list) option" where
  "gpus_run err [] i f gs = Some (Inr gs)"
| "gpus_run err (c # cs) i f gs =
     (if i < length gs then thenO (f i c (gs ! i)) (\<lambda>p. gpus_run err cs (Suc i) f (gs[i := p])) else Some (Inl err))"

definition on_gpus :: "PolyCtx \<Rightarrow> cpp_error \<Rightarrow> (nat \<Rightarrow> PartCtx \<Rightarrow> Partition \<Rightarrow> (cpp_error + Partition) option) \<Rightarrow> RNSPoly
    \<Rightarrow> (cpp_error + RNSPoly) option" where
  "on_gpus C err f x = thenO (gpus_run err (pg_parts C) 0 f (rp_gpu x)) (\<lambda>gs. Some (Inr (x\<lparr>rp_gpu := gs\<rparr>)))"

definition gpu_of :: "RNSPoly \<Rightarrow> nat \<Rightarrow> (Partition \<Rightarrow> (cpp_error + 'a) option) \<Rightarrow> (cpp_error + 'a) option" where
  "gpu_of y i k = (if i < length (rp_gpu y) then k (rp_gpu y ! i) else Some (Inl Out_of_range))"

section \<open>Level and limbs\<close>

definition getLevel_poly :: "RNSPoly \<Rightarrow> int" where
  "getLevel_poly x = rp_level x"

definition isModUp :: "RNSPoly \<Rightarrow> bool" where
  "isModUp x = rp_modUp x"

definition SetModUp :: "bool \<Rightarrow> RNSPoly \<Rightarrow> RNSPoly" where
  "SetModUp newValue x = x\<lparr>rp_modUp := newValue\<rparr>"

definition setLevel :: "PolyCtx \<Rightarrow> int \<Rightarrow> RNSPoly \<Rightarrow> cpp_error + RNSPoly" where
  "setLevel C level x =
     (if \<not> (level \<ge> -1 \<and> (if MODRAISE_WITH_P0 then level \<le> int (pg_L C) + 1 else level \<le> int (pg_L C)))
      then Inl Assert_failed else Inr (x\<lparr>rp_level := level\<rparr>))"

text \<open>The branch of \<open>dropToLevel\<close> that frees limbs is disabled.\<close>

definition dropToLevel_poly :: "int \<Rightarrow> RNSPoly \<Rightarrow> RNSPoly" where
  "dropToLevel_poly level x = (if rp_level x > level then x\<lparr>rp_level := level\<rparr> else x)"

definition grow :: "memory \<Rightarrow> PolyCtx \<Rightarrow> int \<Rightarrow> bool \<Rightarrow> bool \<Rightarrow> int \<Rightarrow> RNSPoly \<Rightarrow> (cpp_error + RNSPoly) option" where
  "grow junk C new_level single_malloc constant num_elems x =
     (if rp_level x \<ge> new_level then Some (Inr x)
      else let x = x\<lparr>rp_level := new_level\<rparr>; num_elems = (if num_elems = -1 then int (pg_N C) else num_elems)
        in thenO (if constant then Some (Inr False)
                  else if rp_gpu x = [] then Some (Inl Out_of_range)
                  else Some (Inr ((\<not> single_malloc \<or> lp_limb (rp_gpu x ! 0) \<noteq> []) \<and> \<not> lp_bufferLIMB (rp_gpu x ! 0)))) (\<lambda>by_level.
           on_gpus C Out_of_range (\<lambda>i c p. Some
             (if by_level then lp_generateLimbToLevel junk c new_level num_elems p
              else if \<not> constant
              then bindE (guardE Assert_failed (num_elems = int (pg_N C))) (\<lambda>_. lp_generateLimbSingleMalloc junk c p)
              else lp_generateLimbConstant junk c new_level num_elems p)) x))"

definition new_RNSPoly :: "memory \<Rightarrow> PolyCtx \<Rightarrow> int \<Rightarrow> bool \<Rightarrow> (cpp_error + RNSPoly) option" where
  "new_RNSPoly junk C level single_malloc =
     (let x = \<lparr>rp_level = -1, rp_modUp = False,
               rp_gpu = map (\<lambda>_. \<lparr>lp_limb = [], lp_special = [], lp_bufferLIMB = False, lp_bufferSPECIAL = False\<rparr>) (pg_parts C)\<rparr>
      in assertO (-1 \<le> level \<and> level \<le> int (pg_L C)) (grow junk C level single_malloc False (-1) x))"

definition freeSpecialLimbs :: "PolyCtx \<Rightarrow> RNSPoly \<Rightarrow> (cpp_error + RNSPoly) option" where
  "freeSpecialLimbs C x = thenO (on_gpus C Out_of_range (\<lambda>i c p. Some (Inr (lp_freeSpecialLimbs p))) x) (\<lambda>x. Some (Inr (SetModUp False x)))"

text \<open>\<open>generateSpecialLimbs\<close>, for special limbs that are not shared between devices.\<close>

definition generateSpecialLimbs :: "memory \<Rightarrow> PolyCtx \<Rightarrow> bool \<Rightarrow> RNSPoly \<Rightarrow> (cpp_error + RNSPoly) option" where
  "generateSpecialLimbs junk C zero_out x =
     (if rp_gpu x = [] then Some (Inl Undefined_behaviour)
      else if lp_special (rp_gpu x ! 0) \<noteq> [] \<and> \<not> zero_out then Some (Inr x)
      else on_gpus C Undefined_behaviour (\<lambda>i c p. Some (lp_generateSpecialLimb junk c zero_out False p)) x)"

definition generatePartialSpecialLimbs :: "memory \<Rightarrow> PolyCtx \<Rightarrow> nat \<Rightarrow> RNSPoly \<Rightarrow> (cpp_error + RNSPoly) option" where
  "generatePartialSpecialLimbs junk C slots x =
     on_gpus C Undefined_behaviour (\<lambda>i c p. Some (lp_generatePartialSpecialLimb junk c slots p)) x"

definition freeGPU_poly :: "RNSPoly \<Rightarrow> cpp_error + RNSPoly" where
  "freeGPU_poly x = bindE (mapE lp_freeLimbs (rp_gpu x)) (\<lambda>gs. Inr (x\<lparr>rp_gpu := gs, rp_level := -1\<rparr>))"

section \<open>Arithmetic\<close>

definition scaleByP :: "PolyCtx \<Rightarrow> RNSPoly \<Rightarrow> (cpp_error + RNSPoly) option" where
  "scaleByP C x = thenO (on_gpus C Out_of_range (\<lambda>i c. lp_scaleByP c (rp_level x)) x) (\<lambda>x. Some (Inr (SetModUp True x)))"

definition rp_add :: "memory \<Rightarrow> PolyCtx \<Rightarrow> RNSPoly \<Rightarrow> nat \<Rightarrow> RNSPoly \<Rightarrow> (cpp_error + RNSPoly) option" where
  "rp_add junk C p slots x =
     thenO (if isModUp p \<and> \<not> isModUp x then generateSpecialLimbs junk C False x else Some (Inr x)) (\<lambda>x.
     assertO (rp_level x \<le> rp_level p)
       (thenO (on_gpus C Out_of_range (\<lambda>i c g. gpu_of p i (\<lambda>q. lp_add c (rp_level x) q (isModUp x) (isModUp p) slots g)) x)
          (\<lambda>r. Some (Inr (SetModUp (isModUp x \<or> isModUp p) r)))))"

definition rp_sub :: "PolyCtx \<Rightarrow> RNSPoly \<Rightarrow> nat \<Rightarrow> RNSPoly \<Rightarrow> (cpp_error + RNSPoly) option" where
  "rp_sub C p slots x =
     assertO (rp_level x \<le> rp_level p)
       (on_gpus C Out_of_range (\<lambda>i c g. gpu_of p i (\<lambda>q. lp_sub c (rp_level x) q slots g)) x)"

definition rp_add3 :: "PolyCtx \<Rightarrow> RNSPoly \<Rightarrow> RNSPoly \<Rightarrow> nat \<Rightarrow> RNSPoly \<Rightarrow> (cpp_error + RNSPoly) option" where
  "rp_add3 C a b slots_b x =
     assertO (rp_level x \<le> rp_level a \<and> rp_level x \<le> rp_level b)
       (thenO (on_gpus C Out_of_range (\<lambda>i c g. gpu_of a i (\<lambda>p. gpu_of b i (\<lambda>q.
            lp_add3 c (rp_level x) p q (isModUp a) (isModUp b) slots_b g))) x)
          (\<lambda>r. Some (Inr (SetModUp (isModUp a \<or> isModUp b) r))))"

definition rp_multElement :: "PolyCtx \<Rightarrow> RNSPoly \<Rightarrow> nat \<Rightarrow> RNSPoly \<Rightarrow> (cpp_error + RNSPoly) option" where
  "rp_multElement C p slots x = on_gpus C Out_of_range (\<lambda>i c g. gpu_of p i (\<lambda>q. lp_multElement c (rp_level x) q slots g)) x"

definition rp_multElement2 :: "PolyCtx \<Rightarrow> RNSPoly \<Rightarrow> RNSPoly \<Rightarrow> nat \<Rightarrow> RNSPoly \<Rightarrow> (cpp_error + RNSPoly) option" where
  "rp_multElement2 C p1 p2 slots_p2 x =
     on_gpus C Out_of_range (\<lambda>i c g. gpu_of p1 i (\<lambda>q1. gpu_of p2 i (\<lambda>q2. lp_multElement2 c (rp_level x) q1 q2 slots_p2 g))) x"

definition rp_multElementAll :: "PolyCtx \<Rightarrow> RNSPoly \<Rightarrow> nat \<Rightarrow> RNSPoly \<Rightarrow> (cpp_error + RNSPoly) option" where
  "rp_multElementAll C p slots x = on_gpus C Out_of_range (\<lambda>i c g. gpu_of p i (\<lambda>q.
     thenO (lp_multElement c (rp_level x) q slots g) (lp_multElementSpecial c (rp_level x) q slots))) x"

definition rp_mult1AddMult23Add4 :: "PolyCtx \<Rightarrow> RNSPoly \<Rightarrow> RNSPoly \<Rightarrow> RNSPoly \<Rightarrow> RNSPoly \<Rightarrow> RNSPoly \<Rightarrow> (cpp_error + RNSPoly) option" where
  "rp_mult1AddMult23Add4 C p1 p2 p3 p4 x = on_gpus C Out_of_range (\<lambda>i c g.
     gpu_of p1 i (\<lambda>q1. gpu_of p2 i (\<lambda>q2. gpu_of p3 i (\<lambda>q3. gpu_of p4 i (\<lambda>q4.
       lp_mult1AddMult23Add4 c (rp_level x) q1 q2 q3 q4 g))))) x"

definition rp_mult1Add2 :: "PolyCtx \<Rightarrow> RNSPoly \<Rightarrow> RNSPoly \<Rightarrow> RNSPoly \<Rightarrow> (cpp_error + RNSPoly) option" where
  "rp_mult1Add2 C p1 p2 x = on_gpus C Out_of_range (\<lambda>i c g.
     gpu_of p1 i (\<lambda>q1. gpu_of p2 i (\<lambda>q2. lp_mult1Add2 c (rp_level x) q1 q2 g))) x"

definition rp_addMult :: "PolyCtx \<Rightarrow> RNSPoly \<Rightarrow> RNSPoly \<Rightarrow> nat \<Rightarrow> RNSPoly \<Rightarrow> (cpp_error + RNSPoly) option" where
  "rp_addMult C p p1 slots x =
     assertO (rp_level x \<le> rp_level p1 \<and> rp_level x \<le> rp_level p)
       (on_gpus C Out_of_range (\<lambda>i c g. gpu_of p i (\<lambda>q. gpu_of p1 i (\<lambda>q1. lp_addMult c (rp_level x) q q1 slots g))) x)"

definition rp_squareElement :: "PolyCtx \<Rightarrow> RNSPoly \<Rightarrow> RNSPoly \<Rightarrow> (cpp_error + RNSPoly) option" where
  "rp_squareElement C p x = on_gpus C Out_of_range (\<lambda>i c g. gpu_of p i (\<lambda>q. lp_squareElement c (rp_level x) q g)) x"

definition rp_multScalar :: "PolyCtx \<Rightarrow> u64 list \<Rightarrow> RNSPoly \<Rightarrow> (cpp_error + RNSPoly) option" where
  "rp_multScalar C v x = on_gpus C Undefined_behaviour (\<lambda>i c. lp_multScalar c (rp_level x) v) x"

definition rp_addScalar :: "PolyCtx \<Rightarrow> u64 list \<Rightarrow> RNSPoly \<Rightarrow> (cpp_error + RNSPoly) option" where
  "rp_addScalar C v x = on_gpus C Undefined_behaviour (\<lambda>i c. lp_addScalar c (rp_level x) v) x"

definition rp_subScalar :: "PolyCtx \<Rightarrow> u64 list \<Rightarrow> RNSPoly \<Rightarrow> (cpp_error + RNSPoly) option" where
  "rp_subScalar C v x = on_gpus C Undefined_behaviour (\<lambda>i c. lp_subScalar c (rp_level x) v) x"

definition rp_evalLinearWSum :: "PolyCtx \<Rightarrow> RNSPoly list \<Rightarrow> u64 list \<Rightarrow> bool \<Rightarrow> RNSPoly \<Rightarrow> (cpp_error + RNSPoly) option" where
  "rp_evalLinearWSum C vec elem with_bias x = on_gpus C Out_of_range (\<lambda>i c g.
     if list_all (\<lambda>y. i < length (rp_gpu y)) vec
     then lp_evalLinearWSum c (rp_level x) (map (\<lambda>y. rp_gpu y ! i) vec) elem with_bias g
     else Some (Inl Out_of_range)) x"

text \<open>The operations on two polynomials at once.\<close>

fun gpus_run2 :: "PartCtx list \<Rightarrow> nat \<Rightarrow> (nat \<Rightarrow> PartCtx \<Rightarrow> Partition \<Rightarrow> Partition \<Rightarrow> (cpp_error + Partition \<times> Partition) option)
    \<Rightarrow> Partition list \<Rightarrow> Partition list \<Rightarrow> (cpp_error + Partition list \<times> Partition list) option" where
  "gpus_run2 [] i f gs hs = Some (Inr (gs, hs))"
| "gpus_run2 (c # cs) i f gs hs =
     (if i < length gs \<and> i < length hs
      then thenO (f i c (gs ! i) (hs ! i)) (\<lambda>(p, q). gpus_run2 cs (Suc i) f (gs[i := p]) (hs[i := q]))
      else Some (Inl Out_of_range))"

definition on_gpus2 :: "PolyCtx \<Rightarrow> (nat \<Rightarrow> PartCtx \<Rightarrow> Partition \<Rightarrow> Partition \<Rightarrow> (cpp_error + Partition \<times> Partition) option)
    \<Rightarrow> RNSPoly \<Rightarrow> RNSPoly \<Rightarrow> (cpp_error + RNSPoly \<times> RNSPoly) option" where
  "on_gpus2 C f x y = thenO (gpus_run2 (pg_parts C) 0 f (rp_gpu x) (rp_gpu y)) (\<lambda>(gs, hs).
     Some (Inr (x\<lparr>rp_gpu := gs\<rparr>, y\<lparr>rp_gpu := hs\<rparr>)))"

text \<open>\<open>this->binomialSquareFold(c0_res, ks0, ks1)\<close> returns \<open>(c0_res, *this)\<close>.\<close>

definition rp_binomialSquareFold :: "PolyCtx \<Rightarrow> RNSPoly \<Rightarrow> RNSPoly \<Rightarrow> RNSPoly \<Rightarrow> RNSPoly \<Rightarrow> (cpp_error + RNSPoly \<times> RNSPoly) option" where
  "rp_binomialSquareFold C ks0 ks1 c0_res x = on_gpus2 C (\<lambda>i c g0 g.
     gpu_of ks0 i (\<lambda>k0. gpu_of ks1 i (\<lambda>k1. lp_binomialSquareFold c (rp_level x) k0 k1 g g0))) c0_res x"

definition rp_multNoModdownEnd :: "memory \<Rightarrow> PolyCtx \<Rightarrow> RNSPoly \<Rightarrow> RNSPoly \<Rightarrow> RNSPoly \<Rightarrow> RNSPoly \<Rightarrow> RNSPoly \<Rightarrow> RNSPoly
    \<Rightarrow> (cpp_error + RNSPoly \<times> RNSPoly) option" where
  "rp_multNoModdownEnd junk C bc0 bc1 inp aux c0 x =
     assertO (isModUp inp \<and> isModUp aux)
       (thenO (on_gpus2 C (\<lambda>i c g1 g0. gpu_of bc0 i (\<lambda>b0. gpu_of bc1 i (\<lambda>b1. gpu_of inp i (\<lambda>ip. gpu_of aux i (\<lambda>a.
            lp_multNoModdownEnd junk c (rp_level x) b0 b1 ip a g1 g0))))) x c0)
          (\<lambda>(x, c0). Some (Inr (SetModUp True x, SetModUp True c0))))"

section \<open>Copies and transfers\<close>

definition rp_copy :: "memory \<Rightarrow> PolyCtx \<Rightarrow> RNSPoly \<Rightarrow> bool \<Rightarrow> int \<Rightarrow> RNSPoly \<Rightarrow> (cpp_error + RNSPoly) option" where
  "rp_copy junk C p constant num_elems x =
     thenO (grow junk C (rp_level p) False constant num_elems (dropToLevel_poly (rp_level p) x)) (\<lambda>x.
     thenO (on_gpus C Out_of_range (\<lambda>i c g. gpu_of p i (\<lambda>q.
          thenO (lp_copyLimb c (rp_level x) (rp_level p) q g) (\<lambda>g.
          if isModUp p then lp_copySpecialLimb junk c (rp_level x) (rp_level p) q g else Some (Inr g)))) x)
       (\<lambda>x. Some (Inr (SetModUp (isModUp p) x))))"

definition rp_copyShallow :: "PolyCtx \<Rightarrow> RNSPoly \<Rightarrow> RNSPoly \<Rightarrow> (cpp_error + RNSPoly) option" where
  "rp_copyShallow C p x = (let x = x\<lparr>rp_level := rp_level p\<rparr>
     in on_gpus C Out_of_range (\<lambda>i c g. gpu_of p i (\<lambda>q. lp_copyLimb c (rp_level x) (rp_level p) q g)) x)"

text \<open>Indexing with \<open>operator[]\<close>.\<close>

definition raw_at :: "'a list \<Rightarrow> nat \<Rightarrow> cpp_error + 'a" where
  "raw_at xs i = (if i < length xs then Inr (xs ! i) else Inl Undefined_behaviour)"

definition resize_rows :: "nat \<Rightarrow> u64 list list \<Rightarrow> u64 list list" where
  "resize_rows n data = take n data @ replicate (n - length data) []"

text \<open>The comparison of the row index with the level is unsigned.\<close>

definition store_rows :: "RNSPoly \<Rightarrow> u64 list list \<Rightarrow> nat" where
  "store_rows x data = (if rp_level x < 0 then length data else min (nat (rp_level x + 1)) (length data))"

definition store_poly :: "PolyCtx \<Rightarrow> RNSPoly \<Rightarrow> u64 list list \<Rightarrow> cpp_error + u64 list list" where
  "store_poly C x data =
     bindE (if rp_modUp x then bindE (list_at (pg_parts C) 0) (\<lambda>c. Inr (length (pc_smeta c))) else Inr 0) (\<lambda>specialCount.
     let data = resize_rows (nat (rp_level x + 1) + specialCount) data
     in bindE (foldE (\<lambda>data i.
          bindE (raw_at (pg_limbGPUid C) i) (\<lambda>(g, k).
          bindE (raw_at (rp_gpu x) g) (\<lambda>p.
          bindE (raw_at (lp_limb p) k) (\<lambda>l.
          bindE (limb_store l (data ! i)) (\<lambda>row. Inr (data[i := row])))))) data [0..<store_rows x data]) (\<lambda>data.
        bindE (foldE (\<lambda>(base, data) (d, c).
          if base < specialCount
          then foldE (\<lambda>(base, data) k.
                 let r = nat (rp_level x + 1) + base
                 in if r \<ge> length data then Inr (base, data)
                    else bindE (raw_at (rp_gpu x) d) (\<lambda>p.
                         bindE (list_at (lp_special p) k) (\<lambda>l.
                         bindE (limb_store l (data ! r)) (\<lambda>row. Inr (base + 1, data[r := row])))))
                 (base, data) [0..<length (pc_smeta c)]
          else Inr (base, data)) (0, data) (enumerate 0 (pg_parts C))) (\<lambda>(base, data). Inr data)))"

text \<open>The rows whose modulus is the prime of their index, and the others.\<close>

definition load_counts :: "PolyCtx \<Rightarrow> nat \<Rightarrow> u64 list \<Rightarrow> cpp_error + nat \<times> nat" where
  "load_counts C n moduli =
     foldE (\<lambda>(limbsize, Slimbsize) i.
        if i \<le> pg_L C
        then bindE (raw_at moduli i) (\<lambda>m. bindE (list_at (pg_prime C) i) (\<lambda>p.
             Inr (if m = p then (limbsize + 1, Slimbsize) else (limbsize, Slimbsize + 1))))
        else Inr (limbsize, Slimbsize + 1)) (0, 0) [0..<n]"

definition load_limb :: "PolyCtx \<Rightarrow> u64 list \<Rightarrow> nat \<Rightarrow> u64 list \<Rightarrow> RNSPoly \<Rightarrow> cpp_error + RNSPoly" where
  "load_limb C moduli i row x =
     bindE (raw_at moduli i) (\<lambda>m. bindE (list_at (pg_prime C) i) (\<lambda>p.
     bindE (guardE Assert_failed (m = p)) (\<lambda>_.
     bindE (raw_at (pg_limbGPUid C) i) (\<lambda>(g, k).
     bindE (raw_at (rp_gpu x) g) (\<lambda>q.
     bindE (raw_at (lp_limb q) k) (\<lambda>l.
     bindE (limb_load l row) (\<lambda>l'.
     Inr (x\<lparr>rp_gpu := (rp_gpu x)[g := q\<lparr>lp_limb := (lp_limb q)[k := l']\<rparr>]\<rparr>))))))))"

definition load_limbs :: "PolyCtx \<Rightarrow> u64 list \<Rightarrow> u64 list list \<Rightarrow> nat \<Rightarrow> RNSPoly \<Rightarrow> cpp_error + RNSPoly" where
  "load_limbs C moduli data limbsize x = foldE (\<lambda>x i. load_limb C moduli i (data ! i) x) x [0..<limbsize]"

definition load_special :: "PolyCtx \<Rightarrow> u64 list \<Rightarrow> nat \<Rightarrow> nat \<Rightarrow> u64 list \<Rightarrow> RNSPoly \<Rightarrow> cpp_error + RNSPoly" where
  "load_special C moduli limbsize i row x =
     bindE (mapE (\<lambda>q.
        bindE (raw_at moduli i) (\<lambda>m. bindE (list_at (pg_specialPrime C) (i - limbsize)) (\<lambda>p.
        bindE (guardE Assert_failed (m = p)) (\<lambda>_.
        bindE (raw_at (lp_special q) (i - limbsize)) (\<lambda>l.
        bindE (limb_load l row) (\<lambda>l'.
        Inr (q\<lparr>lp_special := (lp_special q)[i - limbsize := l']\<rparr>))))))) (rp_gpu x)) (\<lambda>gs. Inr (x\<lparr>rp_gpu := gs\<rparr>))"

definition load_poly :: "memory \<Rightarrow> PolyCtx \<Rightarrow> u64 list list \<Rightarrow> u64 list \<Rightarrow> RNSPoly \<Rightarrow> (cpp_error + RNSPoly) option" where
  "load_poly junk C data moduli x =
     thenO (Some (load_counts C (length data) moduli)) (\<lambda>(limbsize, Slimbsize).
     let level = int limbsize - 1
     in assertO (level \<le> int (pg_L C))
       (thenO (if rp_level x < level then grow junk C level False False (-1) x else Some (Inr x)) (\<lambda>x.
        let x = (if rp_level x > level then dropToLevel_poly level x else x)
        in assertO (rp_level x = level)
          (thenO (Some (load_limbs C moduli data limbsize x)) (\<lambda>x.
           thenO (if length data > limbsize then generateSpecialLimbs junk C False x else Some (Inr x)) (\<lambda>x.
           thenO (Some (foldE (\<lambda>x i. load_special C moduli limbsize i (data ! i) x) x [limbsize..<length data])) (\<lambda>x.
           if Slimbsize = 1 then Some (setLevel C (rp_level x + 1) x) else Some (Inr x))))))))"

text \<open>\<open>loadConstant\<close> of rows that are already compressed, and of full rows.\<close>

definition load_partial_special :: "PolyCtx \<Rightarrow> u64 list \<Rightarrow> nat \<Rightarrow> u64 list \<Rightarrow> RNSPoly \<Rightarrow> cpp_error + RNSPoly" where
  "load_partial_special C moduli i row x =
     foldE (\<lambda>x j.
        bindE (list_at (pg_parts C) j) (\<lambda>c.
        foldE (\<lambda>x k.
           bindE (list_at (pg_specialPrime C) (lr_id (pc_split c ! k) - pg_L C - 1)) (\<lambda>p.
           if p = moduli ! i
           then bindE (raw_at (lp_special (rp_gpu x ! j)) k) (\<lambda>l. bindE (limb_load l row) (\<lambda>l'.
                Inr (x\<lparr>rp_gpu := (rp_gpu x)[j := (rp_gpu x ! j)\<lparr>lp_special := (lp_special (rp_gpu x ! j))[k := l']\<rparr>]\<rparr>)))
           else Inr x)) x [0..<length (pc_split c)])) x [0..<length (rp_gpu x)]"

definition loadConstant_rows :: "memory \<Rightarrow> PolyCtx \<Rightarrow> u64 list list \<Rightarrow> nat \<Rightarrow> u64 list \<Rightarrow> int \<Rightarrow> bool \<Rightarrow> RNSPoly \<Rightarrow> (cpp_error + RNSPoly) option" where
  "loadConstant_rows junk C data n moduli slots compress x =
     (let slots = (if slots = -1 then int (pg_N C) div 2 else slots)
      in if \<not> compress \<or> n \<noteq> nat (2 * slots) \<or> length data \<noteq> length moduli then Some (Inl Invalid_argument)
         else thenO (Some (load_counts C (length data) moduli)) (\<lambda>(limbsize, _).
           let level = int limbsize - 1
           in assertO (limbsize \<le> pg_L C + 1)
             (thenO (if rp_level x < level then grow junk C level False True (2 * slots) x
                     else Some (Inr (dropToLevel_poly level x))) (\<lambda>x.
              assertO (rp_level x = level)
                (thenO (Some (load_limbs C moduli data limbsize x)) (\<lambda>x.
                 thenO (if length data > limbsize
                        then thenO (generatePartialSpecialLimbs junk C (nat slots) x) (\<lambda>x. Some (Inr (SetModUp True x)))
                        else Some (Inr x)) (\<lambda>x.
                 Some (foldE (\<lambda>x i. load_partial_special C moduli i (data ! i) x) x [limbsize..<length data]))))))))"

definition compress_row :: "nat \<Rightarrow> u64 list \<Rightarrow> u64 list" where
  "compress_row n row = (let stride = length row div n in map (\<lambda>i. row ! (i * stride)) [0..<n])"

definition loadConstant :: "memory \<Rightarrow> PolyCtx \<Rightarrow> u64 list list \<Rightarrow> u64 list \<Rightarrow> int \<Rightarrow> bool \<Rightarrow> RNSPoly \<Rightarrow> (cpp_error + RNSPoly) option" where
  "loadConstant junk C data moduli slots compress x =
     (let slots = (if slots = -1 then int (pg_N C) div 2 else slots); n = nat (2 * slots)
      in if compress \<and> n = 0 \<and> (\<exists>row \<in> set data. row \<noteq> []) then Some (Inl Undefined_behaviour)
         else let rows = map (\<lambda>row. if compress \<and> length row > n then compress_row n row else row) data
           in if \<exists>row \<in> set rows. length row \<noteq> n then Some (Inl Invalid_argument)
              else loadConstant_rows junk C rows n moduli slots True x)"

text \<open>The constructor from rows of residues.\<close>

definition RNSPoly_of_data :: "memory \<Rightarrow> PolyCtx \<Rightarrow> u64 list list \<Rightarrow> (cpp_error + RNSPoly) option" where
  "RNSPoly_of_data junk C data =
     thenO (new_RNSPoly junk C (int (length data) - 1) False) (\<lambda>x.
     assertO (length data \<le> length (pg_prime C))
       (load_poly junk C data (take (length data) (pg_prime C)) x))"

end
