(* ===== verification/RnsCorrect.thy ===== *)
theory RnsCorrect
  imports RnsPoly
begin

text \<open>
  What the operations of \<^theory_text>\<open>RnsPoly\<close> compute. A polynomial represents a vector of integers:
  every limb, on whatever device it lies, holds the residues of the vector modulo the limb's prime.
  The operations compute on these vectors, whatever the number of devices, the split of the limbs
  among them, the batch size and the content of fresh memory.
\<close>

section \<open>Loops over the devices\<close>

lemma gpus_run_ok:
  assumes "i + length cs \<le> length gs"
    and "\<And>k. k < length cs \<Longrightarrow> \<exists>r. f (i + k) (cs ! k) (gs ! (i + k)) = Some (Inr r) \<and> Q (i + k) r"
  shows "\<exists>rs. gpus_run err cs i f gs = Some (Inr rs) \<and> length rs = length gs
    \<and> (\<forall>k < length cs. Q (i + k) (rs ! (i + k))) \<and> (\<forall>j < i. rs ! j = gs ! j)"
  using assms
proof (induction cs arbitrary: i gs)
  case (Cons c cs)
  obtain p where p: "f i c (gs ! i) = Some (Inr p)" "Q i p" using Cons.prems(2) [of 0] by auto
  have "\<exists>r. f (Suc i + k) (cs ! k) (gs[i := p] ! (Suc i + k)) = Some (Inr r) \<and> Q (Suc i + k) r" if "k < length cs" for k
    using Cons.prems(2) [of "Suc k"] that by simp
  moreover have "Suc i + length cs \<le> length (gs[i := p])" using Cons.prems(1) by simp
  ultimately obtain rs where rs: "gpus_run err cs (Suc i) f (gs[i := p]) = Some (Inr rs)" "length rs = length (gs[i := p])"
    "\<forall>k < length cs. Q (Suc i + k) (rs ! (Suc i + k))" "\<forall>j < Suc i. rs ! j = gs[i := p] ! j"
    using Cons.IH [of "Suc i" "gs[i := p]"] by blast
  have i: "i < length gs" using Cons.prems(1) by simp
  then have "rs ! i = p" "\<forall>j < i. rs ! j = gs ! j" using rs(4) by simp_all
  then have "\<forall>k < length (c # cs). Q (i + k) (rs ! (i + k))"
    using rs(3) p(2) by (auto simp: less_Suc_eq_0_disj)
  then show ?case using rs(1,2) p(1) i \<open>\<forall>j < i. rs ! j = gs ! j\<close> by simp
qed simp

lemma on_gpus_ok:
  assumes "length (rp_gpu x) = length (pg_parts C)"
    and "\<And>i. i < length (pg_parts C) \<Longrightarrow> \<exists>r. f i (pg_parts C ! i) (rp_gpu x ! i) = Some (Inr r) \<and> Q i r"
  shows "\<exists>gs. on_gpus C err f x = Some (Inr (x\<lparr>rp_gpu := gs\<rparr>)) \<and> length gs = length (pg_parts C) \<and> (\<forall>i < length (pg_parts C). Q i (gs ! i))"
  using gpus_run_ok [of 0 "pg_parts C" "rp_gpu x" f Q err] assms by (auto simp: on_gpus_def)

lemma gpu_of_nth: "i < length (rp_gpu y) \<Longrightarrow> gpu_of y i k = k (rp_gpu y ! i)"
  by (simp add: gpu_of_def)

section \<open>Levels\<close>

lemma takeWhile_mono_length: "(\<And>x. P x \<Longrightarrow> Q x) \<Longrightarrow> length (takeWhile P xs) \<le> length (takeWhile Q xs)"
  by (induction xs) auto

lemma getLimbSize_mono: "lev \<le> lev' \<Longrightarrow> lev' \<le> int (pc_L ctx) \<Longrightarrow> getLimbSize ctx lev \<le> getLimbSize ctx lev'"
  by (auto simp: getLimbSize_def intro!: takeWhile_mono_length)

lemma part_rep_level:
  assumes "part_rep ctx lev' e p X" and "lev \<le> lev'" and "lev' \<le> int (pc_L ctx)"
  shows "part_rep ctx lev e p X"
  using assms(1) getLimbSize_mono [OF assms(2,3)] by (auto simp: part_rep_def limbs_rep_def)

section \<open>The vector a polynomial represents\<close>

definition rns_rep :: "PolyCtx \<Rightarrow> nat \<Rightarrow> RNSPoly \<Rightarrow> (nat \<Rightarrow> int) \<Rightarrow> bool" where
  "rns_rep C e x X \<longleftrightarrow> length (rp_gpu x) = length (pg_parts C) \<and> rp_level x \<le> int (pg_L C)
     \<and> (\<forall>i < length (pg_parts C). ext_rep (pg_parts C ! i) (rp_level x) e (rp_modUp x) (rp_gpu x ! i) X)"

text \<open>The devices' contexts at a level: for any polynomial, for the kernels that only handle 64-bit
  primes, and for extended polynomials, where \<open>P\<close> is the product of the special primes.\<close>

definition poly_ok :: "PolyCtx \<Rightarrow> int \<Rightarrow> bool" where
  "poly_ok C lev \<longleftrightarrow> (\<forall>i < length (pg_parts C). ctx_ok (pg_parts C ! i) lev \<and> pc_L (pg_parts C ! i) = pg_L C)"

definition poly_wide :: "PolyCtx \<Rightarrow> int \<Rightarrow> bool" where
  "poly_wide C lev \<longleftrightarrow> (\<forall>i < length (pg_parts C). ctx_wide (pg_parts C ! i) lev \<and> pc_L (pg_parts C ! i) = pg_L C)"

definition poly_ext :: "PolyCtx \<Rightarrow> int \<Rightarrow> int \<Rightarrow> bool" where
  "poly_ext C lev P \<longleftrightarrow> (\<forall>i < length (pg_parts C). ctx_ext (pg_parts C ! i) lev P \<and> pc_L (pg_parts C ! i) = pg_L C)"

lemma poly_okD:
  assumes "poly_ok C lev" and "i < length (pg_parts C)"
  shows "ctx_ok (pg_parts C ! i) lev" and "pc_L (pg_parts C ! i) = pg_L C"
  using assms by (simp_all add: poly_ok_def)

lemma poly_wideD:
  assumes "poly_wide C lev"
  shows "poly_ok C lev" and "i < length (pg_parts C) \<Longrightarrow> ctx_wide (pg_parts C ! i) lev"
  using assms by (auto simp: poly_ok_def poly_wide_def intro: ctx_wideD)

lemma poly_extD:
  assumes "poly_ext C lev P"
  shows "poly_wide C lev" and "i < length (pg_parts C) \<Longrightarrow> ctx_ext (pg_parts C ! i) lev P"
  using assms by (auto simp: poly_wide_def poly_ext_def intro: ctx_extD)

lemma rns_repD:
  assumes "rns_rep C e x X" and "i < length (pg_parts C)"
  shows "i < length (rp_gpu x)" and "part_rep (pg_parts C ! i) (rp_level x) e (rp_gpu x ! i) X"
    and "ext_rep (pg_parts C ! i) (rp_level x) e (rp_modUp x) (rp_gpu x ! i) X"
  using assms by (auto simp: rns_rep_def ext_rep_def)

lemma rns_rep_operand:
  assumes "rns_rep C e y Y" and "poly_ok C lev" and "lev \<le> rp_level y" and "i < length (pg_parts C)"
  shows "part_rep (pg_parts C ! i) lev e (rp_gpu y ! i) Y"
  using part_rep_level [OF rns_repD(2) [OF assms(1,4)] assms(3)] poly_okD(2) [OF assms(2,4)] assms(1) by (simp add: rns_rep_def)

text \<open>An operation on an ordinary polynomial, device by device.\<close>

lemma rns_op:
  assumes "length (rp_gpu x) = length (pg_parts C)" and "rp_level x \<le> int (pg_L C)" and "\<not> rp_modUp x"
    and "\<And>i. i < length (pg_parts C) \<Longrightarrow>
      \<exists>r. f i (pg_parts C ! i) (rp_gpu x ! i) = Some (Inr r) \<and> part_rep (pg_parts C ! i) (rp_level x) e r Z \<and> R i r"
  shows "\<exists>r. on_gpus C err f x = Some (Inr r) \<and> rns_rep C e r Z \<and> rp_level r = rp_level x \<and> \<not> rp_modUp r"
proof -
  obtain gs where "on_gpus C err f x = Some (Inr (x\<lparr>rp_gpu := gs\<rparr>))" "length gs = length (pg_parts C)"
    "\<forall>i < length (pg_parts C). part_rep (pg_parts C ! i) (rp_level x) e (gs ! i) Z"
    using on_gpus_ok [of x C f "\<lambda>i r. part_rep (pg_parts C ! i) (rp_level x) e r Z" err] assms(1,4) by blast
  then show ?thesis using assms(2,3) by (auto simp: rns_rep_def ext_rep_def)
qed

section \<open>Ordinary polynomials\<close>

lemma rns_two_operands:
  assumes C: "poly_ok C (rp_level x)" and X: "rns_rep C (e + s) x X" and Y: "rns_rep C e y Y"
    and lev: "rp_level x \<le> rp_level y" and slots: "2 * slots = 2 ^ e" and ext: "\<not> rp_modUp x"
  shows "\<exists>r. rp_sub C y slots x = Some (Inr r) \<and> rns_rep C (e + s) r (\<lambda>t. X t - Y (t div 2 ^ s)) \<and> rp_level r = rp_level x \<and> \<not> rp_modUp r"
    and "\<exists>r. rp_multElement C y slots x = Some (Inr r) \<and> rns_rep C (e + s) r (\<lambda>t. X t * Y (t div 2 ^ s)) \<and> rp_level r = rp_level x \<and> \<not> rp_modUp r"
proof -
  have len: "length (rp_gpu x) = length (pg_parts C)" "rp_level x \<le> int (pg_L C)" using X by (simp_all add: rns_rep_def)
  note ops = two_operand_rep [OF poly_okD(1) [OF C] rns_repD(2) [OF X] rns_rep_operand [OF Y C lev] slots]
  show "\<exists>r. rp_sub C y slots x = Some (Inr r) \<and> rns_rep C (e + s) r (\<lambda>t. X t - Y (t div 2 ^ s)) \<and> rp_level r = rp_level x \<and> \<not> rp_modUp r"
    unfolding rp_sub_def assertO_def if_P [OF lev]
    by (rule rns_op [OF len ext]) (simp add: gpu_of_nth rns_repD(1) [OF Y], rule ops(1))
  show "\<exists>r. rp_multElement C y slots x = Some (Inr r) \<and> rns_rep C (e + s) r (\<lambda>t. X t * Y (t div 2 ^ s)) \<and> rp_level r = rp_level x \<and> \<not> rp_modUp r"
    unfolding rp_multElement_def
    by (rule rns_op [OF len ext]) (simp add: gpu_of_nth rns_repD(1) [OF Y], rule ops(2))
qed

lemma rns_scalars:
  assumes C: "poly_ok C (rp_level x)" and X: "rns_rep C e x X" and ext: "\<not> rp_modUp x"
    and v: "\<And>i. i < length (pg_parts C) \<Longrightarrow> scalar_rep (pg_parts C ! i) (rp_level x) v z"
  shows "\<exists>r. rp_addScalar C v x = Some (Inr r) \<and> rns_rep C e r (\<lambda>t. X t + z) \<and> rp_level r = rp_level x \<and> \<not> rp_modUp r"
    and "\<exists>r. rp_subScalar C v x = Some (Inr r) \<and> rns_rep C e r (\<lambda>t. X t - z) \<and> rp_level r = rp_level x \<and> \<not> rp_modUp r"
    and "\<exists>r. rp_multScalar C v x = Some (Inr r) \<and> rns_rep C e r (\<lambda>t. X t * z) \<and> rp_level r = rp_level x \<and> \<not> rp_modUp r"
proof -
  have len: "length (rp_gpu x) = length (pg_parts C)" "rp_level x \<le> int (pg_L C)" using X by (simp_all add: rns_rep_def)
  note ops = scalar_rep_ops [OF poly_okD(1) [OF C] rns_repD(2) [OF X] v]
  show "\<exists>r. rp_addScalar C v x = Some (Inr r) \<and> rns_rep C e r (\<lambda>t. X t + z) \<and> rp_level r = rp_level x \<and> \<not> rp_modUp r"
    unfolding rp_addScalar_def by (rule rns_op [OF len ext]) (rule ops(1))
  show "\<exists>r. rp_subScalar C v x = Some (Inr r) \<and> rns_rep C e r (\<lambda>t. X t - z) \<and> rp_level r = rp_level x \<and> \<not> rp_modUp r"
    unfolding rp_subScalar_def by (rule rns_op [OF len ext]) (rule ops(2))
  show "\<exists>r. rp_multScalar C v x = Some (Inr r) \<and> rns_rep C e r (\<lambda>t. X t * z) \<and> rp_level r = rp_level x \<and> \<not> rp_modUp r"
    unfolding rp_multScalar_def by (rule rns_op [OF len ext]) (use ops(3) poly_okD(2) [OF C] len(2) in simp)
qed

lemma rns_products:
  assumes C: "poly_ok C (rp_level x)" and X: "rns_rep C e x X" and Y: "rns_rep C e y Y" and Z: "rns_rep C e z Z"
    and lev: "rp_level x \<le> rp_level y" "rp_level x \<le> rp_level z" and ext: "\<not> rp_modUp x"
  shows "\<exists>r. rp_addMult C y z slots x = Some (Inr r) \<and> rns_rep C e r (\<lambda>t. X t + Y t * Z t) \<and> rp_level r = rp_level x \<and> \<not> rp_modUp r"
    and "\<exists>r. rp_mult1Add2 C y z x = Some (Inr r) \<and> rns_rep C e r (\<lambda>t. X t * Y t + Z t) \<and> rp_level r = rp_level x \<and> \<not> rp_modUp r"
proof -
  have len: "length (rp_gpu x) = length (pg_parts C)" "rp_level x \<le> int (pg_L C)" using X by (simp_all add: rns_rep_def)
  have P: "rp_level x \<le> rp_level z \<and> rp_level x \<le> rp_level y" using lev by simp
  note ops = product_sum_rep [OF poly_okD(1) [OF C] rns_repD(2) [OF X] rns_rep_operand [OF Y C lev(1)] rns_rep_operand [OF Z C lev(2)]]
  show "\<exists>r. rp_addMult C y z slots x = Some (Inr r) \<and> rns_rep C e r (\<lambda>t. X t + Y t * Z t) \<and> rp_level r = rp_level x \<and> \<not> rp_modUp r"
    unfolding rp_addMult_def assertO_def if_P [OF P]
    by (rule rns_op [OF len ext]) (simp add: gpu_of_nth rns_repD(1) [OF Y] rns_repD(1) [OF Z], rule ops(1))
  show "\<exists>r. rp_mult1Add2 C y z x = Some (Inr r) \<and> rns_rep C e r (\<lambda>t. X t * Y t + Z t) \<and> rp_level r = rp_level x \<and> \<not> rp_modUp r"
    unfolding rp_mult1Add2_def
    by (rule rns_op [OF len ext]) (simp add: gpu_of_nth rns_repD(1) [OF Y] rns_repD(1) [OF Z], rule ops(2))
qed

text \<open>The product of two binomials in one pass, for 64-bit primes.\<close>

lemma rns_mult1AddMult23Add4:
  assumes C: "poly_wide C (rp_level x)" and X: "rns_rep C e x X" and ext: "\<not> rp_modUp x"
    and Y: "rns_rep C e p1 X1" "rns_rep C e p2 X2" "rns_rep C e p3 X3" "rns_rep C e p4 X4"
    and lev: "rp_level x \<le> rp_level p1" "rp_level x \<le> rp_level p2" "rp_level x \<le> rp_level p3" "rp_level x \<le> rp_level p4"
  shows "\<exists>r. rp_mult1AddMult23Add4 C p1 p2 p3 p4 x = Some (Inr r) \<and> rns_rep C e r (\<lambda>t. X t * X1 t + X4 t + X2 t * X3 t)
    \<and> rp_level r = rp_level x \<and> \<not> rp_modUp r"
proof -
  have len: "length (rp_gpu x) = length (pg_parts C)" "rp_level x \<le> int (pg_L C)" using X by (simp_all add: rns_rep_def)
  note o = rns_rep_operand [OF Y(1) poly_wideD(1) [OF C] lev(1)] rns_rep_operand [OF Y(2) poly_wideD(1) [OF C] lev(2)]
    rns_rep_operand [OF Y(3) poly_wideD(1) [OF C] lev(3)] rns_rep_operand [OF Y(4) poly_wideD(1) [OF C] lev(4)]
  show ?thesis unfolding rp_mult1AddMult23Add4_def
    by (rule rns_op [OF len ext]) (simp add: gpu_of_nth rns_repD(1) [OF Y(1)] rns_repD(1) [OF Y(2)] rns_repD(1) [OF Y(3)] rns_repD(1) [OF Y(4)],
        rule mult1AddMult23Add4_rep [OF poly_wideD(2) [OF C] rns_repD(2) [OF X] o])
qed

text \<open>A destination only needs its limbs.\<close>

definition poly_sized :: "PolyCtx \<Rightarrow> nat \<Rightarrow> RNSPoly \<Rightarrow> bool" where
  "poly_sized C e x \<longleftrightarrow> length (rp_gpu x) = length (pg_parts C) \<and> rp_level x \<le> int (pg_L C)
     \<and> (\<forall>i < length (pg_parts C). part_sized (pg_parts C ! i) (rp_level x) e (rp_gpu x ! i))"

lemma rns_rep_sized: "rns_rep C e x X \<Longrightarrow> poly_sized C e x"
  by (auto simp: poly_sized_def rns_rep_def ext_rep_def intro: part_rep_sized)

lemma rns_squareElement:
  assumes C: "poly_wide C (rp_level x)" and x: "poly_sized C e x" and Y: "rns_rep C e y Y" and lev: "rp_level x \<le> rp_level y" and ext: "\<not> rp_modUp x"
  shows "\<exists>r. rp_squareElement C y x = Some (Inr r) \<and> rns_rep C e r (\<lambda>t. (Y t)\<^sup>2) \<and> rp_level r = rp_level x \<and> \<not> rp_modUp r"
  unfolding rp_squareElement_def
proof (rule rns_op)
  fix i
  assume i: "i < length (pg_parts C)"
  have "part_sized (pg_parts C ! i) (rp_level x) e (rp_gpu x ! i)" using x i by (simp add: poly_sized_def)
  from squareElement_rep [OF poly_wideD(2) [OF C i] this rns_rep_operand [OF Y poly_wideD(1) [OF C] lev i]]
  show "\<exists>r. gpu_of y i (\<lambda>q. lp_squareElement (pg_parts C ! i) (rp_level x) q (rp_gpu x ! i)) = Some (Inr r)
      \<and> part_rep (pg_parts C ! i) (rp_level x) e r (\<lambda>t. (Y t)\<^sup>2) \<and> lp_special r = lp_special (rp_gpu x ! i)"
    by (simp add: gpu_of_nth rns_repD(1) [OF Y i])
qed (use x ext in \<open>simp_all add: poly_sized_def\<close>)

lemma rns_evalLinearWSum:
  assumes C: "poly_wide C (rp_level x)" and x: "poly_sized C e x" and ext: "\<not> rp_modUp x"
    and ys: "\<And>k. k < length ys \<Longrightarrow> rns_rep C e (ys ! k) (Y k) \<and> rp_level x \<le> rp_level (ys ! k)"
    and w: "\<And>i. i < length (pg_parts C) \<Longrightarrow> weights_rep (pg_parts C ! i) (rp_level x) (length ys + (if with_bias then 1 else 0)) w W"
  shows "\<exists>r. rp_evalLinearWSum C ys w with_bias x = Some (Inr r)
    \<and> rns_rep C e r (\<lambda>t. (\<Sum>k<length ys. Y k t * W k) + (if with_bias then W (length ys) else 0)) \<and> rp_level r = rp_level x \<and> \<not> rp_modUp r"
  unfolding rp_evalLinearWSum_def
proof (rule rns_op)
  fix i
  assume i: "i < length (pg_parts C)"
  let ?ps = "map (\<lambda>y. rp_gpu y ! i) ys"
  have all: "list_all (\<lambda>y. i < length (rp_gpu y)) ys" using ys rns_repD(1) [OF _ i] by (auto simp: list_all_length)
  have ps: "part_rep (pg_parts C ! i) (rp_level x) e (?ps ! k) (Y k)" if "k < length ?ps" for k
    using rns_rep_operand [OF _ poly_wideD(1) [OF C] _ i] ys that by simp
  have sized: "part_sized (pg_parts C ! i) (rp_level x) e (rp_gpu x ! i)" using x i by (simp add: poly_sized_def)
  have "weights_rep (pg_parts C ! i) (rp_level x) (length ?ps + (if with_bias then 1 else 0)) w W" using w [OF i] by simp
  from lp_evalLinearWSum_rep [OF poly_wideD(2) [OF C i] ps this sized]
  show "\<exists>r. (if list_all (\<lambda>y. i < length (rp_gpu y)) ys
        then lp_evalLinearWSum (pg_parts C ! i) (rp_level x) (map (\<lambda>y. rp_gpu y ! i) ys) w with_bias (rp_gpu x ! i)
        else Some (Inl Out_of_range)) = Some (Inr r)
      \<and> part_rep (pg_parts C ! i) (rp_level x) e r (\<lambda>t. (\<Sum>k<length ys. Y k t * W k) + (if with_bias then W (length ys) else 0))
      \<and> lp_special r = lp_special (rp_gpu x ! i)"
    using all by auto
qed (use x ext in \<open>simp_all add: poly_sized_def\<close>)

section \<open>Extended polynomials\<close>

text \<open>The special limbs are allocated on every device or on none, and an allocation covers the
  device's share.\<close>

definition special_room :: "PartCtx \<Rightarrow> limb list \<Rightarrow> bool" where
  "special_room c ls \<longleftrightarrow> special_start c + numSpecialLimbs c \<le> length ls"

definition specials_ready :: "PolyCtx \<Rightarrow> RNSPoly \<Rightarrow> bool" where
  "specials_ready C x \<longleftrightarrow> pg_parts C \<noteq> []
     \<and> (\<forall>i < length (pg_parts C). special_start (pg_parts C ! i) + numSpecialLimbs (pg_parts C ! i) \<le> length (pc_smeta (pg_parts C ! i)))
     \<and> ((\<forall>i < length (pg_parts C). lp_special (rp_gpu x ! i) = [] \<and> \<not> lp_bufferSPECIAL (rp_gpu x ! i))
        \<or> (lp_special (rp_gpu x ! 0) \<noteq> [] \<and> (\<forall>i < length (pg_parts C). special_room (pg_parts C ! i) (lp_special (rp_gpu x ! i)))))"

lemma generateSpecialLimb_fresh:
  assumes "lp_special p = []" and "\<not> lp_bufferSPECIAL p"
  shows "\<exists>r. lp_generateSpecialLimb junk c False False p = Inr r \<and> lp_limb r = lp_limb p \<and> length (lp_special r) = length (pc_smeta c)"
proof (cases "pc_smeta c")
  case (Cons m ms)
  then show ?thesis using assms by (simp add: lp_generateSpecialLimb_def lp_generate_def Let_def)
qed (use assms in \<open>simp add: lp_generateSpecialLimb_def\<close>)

lemma generateSpecialLimbs_ok:
  assumes len: "length (rp_gpu x) = length (pg_parts C)" and ready: "specials_ready C x"
  shows "\<exists>gs. generateSpecialLimbs junk C False x = Some (Inr (x\<lparr>rp_gpu := gs\<rparr>)) \<and> length gs = length (pg_parts C)
    \<and> (\<forall>i < length (pg_parts C). lp_limb (gs ! i) = lp_limb (rp_gpu x ! i) \<and> special_room (pg_parts C ! i) (lp_special (gs ! i)))"
proof (cases "lp_special (rp_gpu x ! 0) = []")
  case True
  then have none: "lp_special (rp_gpu x ! i) = []" "\<not> lp_bufferSPECIAL (rp_gpu x ! i)" if "i < length (pg_parts C)" for i
    using ready that by (auto simp: specials_ready_def)
  have fresh: "\<exists>r. Some (lp_generateSpecialLimb junk (pg_parts C ! i) False False (rp_gpu x ! i)) = Some (Inr r)
      \<and> lp_limb r = lp_limb (rp_gpu x ! i) \<and> special_room (pg_parts C ! i) (lp_special r)" if i: "i < length (pg_parts C)" for i
    using generateSpecialLimb_fresh [OF none [OF i], of junk "pg_parts C ! i"] ready i by (auto simp: specials_ready_def special_room_def)
  note on_gpus_ok [where f = "\<lambda>i c p. Some (lp_generateSpecialLimb junk c False False p)" and err = Undefined_behaviour
      and Q = "\<lambda>i r. lp_limb r = lp_limb (rp_gpu x ! i) \<and> special_room (pg_parts C ! i) (lp_special r)", OF len]
  from this [OF fresh] show ?thesis
    using True ready len by (auto simp: generateSpecialLimbs_def specials_ready_def)
next
  case False
  have "x\<lparr>rp_gpu := rp_gpu x\<rparr> = x" by simp
  then show ?thesis using False ready len
    by (intro exI [of _ "rp_gpu x"]) (auto simp: generateSpecialLimbs_def specials_ready_def)
qed

lemma rns_add:
  assumes C: "poly_ext C (rp_level x) P" and X: "rns_rep C (e + s) x X" and Y: "rns_rep C e y Y"
    and lev: "rp_level x \<le> rp_level y" and slots: "2 * slots = 2 ^ e"
    and full: "rp_modUp y \<Longrightarrow> \<not> rp_modUp x \<Longrightarrow> s = 0 \<and> (\<forall>i < length (pg_parts C). pc_N (pg_parts C ! i) = 2 ^ e) \<and> specials_ready C x"
  shows "\<exists>r. rp_add junk C y slots x = Some (Inr r) \<and> rp_level r = rp_level x \<and> rp_modUp r = (rp_modUp x \<or> rp_modUp y)
    \<and> rns_rep C (e + s) r (\<lambda>t. ext_sum P (rp_modUp x) (rp_modUp y) (X t) (Y (t div 2 ^ s)))"
proof -
  let ?Z = "\<lambda>t. ext_sum P (rp_modUp x) (rp_modUp y) (X t) (Y (t div 2 ^ s))"
  let ?ext = "rp_modUp y \<and> \<not> rp_modUp x"
  have len: "length (rp_gpu x) = length (pg_parts C)" and L: "rp_level x \<le> int (pg_L C)" using X by (simp_all add: rns_rep_def)
  have "\<exists>gs. (if ?ext then generateSpecialLimbs junk C False x else Some (Inr x)) = Some (Inr (x\<lparr>rp_gpu := gs\<rparr>))
      \<and> length gs = length (pg_parts C)
      \<and> (\<forall>i < length (pg_parts C). lp_limb (gs ! i) = lp_limb (rp_gpu x ! i) \<and> (rp_modUp x \<longrightarrow> gs ! i = rp_gpu x ! i)
          \<and> (?ext \<longrightarrow> special_room (pg_parts C ! i) (lp_special (gs ! i))))"
  proof (cases ?ext)
    case True
    then show ?thesis using generateSpecialLimbs_ok [OF len, of junk] full by auto
  next
    case False
    have "x\<lparr>rp_gpu := rp_gpu x\<rparr> = x" by simp
    then show ?thesis using False len by (intro exI [of _ "rp_gpu x"]) auto
  qed
  then obtain gs where gs: "(if ?ext then generateSpecialLimbs junk C False x else Some (Inr x)) = Some (Inr (x\<lparr>rp_gpu := gs\<rparr>))"
      "length gs = length (pg_parts C)"
    and keep: "\<And>i. i < length (pg_parts C) \<Longrightarrow> lp_limb (gs ! i) = lp_limb (rp_gpu x ! i)"
      "\<And>i. i < length (pg_parts C) \<Longrightarrow> rp_modUp x \<Longrightarrow> gs ! i = rp_gpu x ! i"
      "\<And>i. i < length (pg_parts C) \<Longrightarrow> ?ext \<Longrightarrow> special_room (pg_parts C ! i) (lp_special (gs ! i))" by blast
  let ?x = "x\<lparr>rp_gpu := gs\<rparr>"
  have add: "\<exists>r. gpu_of y i (\<lambda>q. lp_add (pg_parts C ! i) (rp_level x) q (rp_modUp x) (rp_modUp y) slots (gs ! i)) = Some (Inr r)
      \<and> ext_rep (pg_parts C ! i) (rp_level x) (e + s) (rp_modUp x \<or> rp_modUp y) r ?Z" if i: "i < length (pg_parts C)" for i
  proof -
    let ?c = "pg_parts C ! i"
    note Ci = poly_extD(2) [OF C i]
    have "ext_rep ?c (rp_level x) (e + s) (rp_modUp x) (gs ! i) X"
      using rns_repD(2,3) [OF X i] keep(1,2) [OF i] by (auto simp: ext_rep_def part_rep_def)
    moreover have "ext_rep ?c (rp_level x) e (rp_modUp y) (rp_gpu y ! i) Y"
      using rns_rep_operand [OF Y poly_wideD(1) [OF poly_extD(1) [OF C]] lev i] rns_repD(3) [OF Y i] by (simp add: ext_rep_def)
    ultimately show ?thesis
      using lp_add_rep [OF Ci _ _ slots] full keep(3) [OF i] i by (simp add: gpu_of_nth rns_repD(1) [OF Y i] special_room_def)
  qed
  have "length (rp_gpu ?x) = length (pg_parts C)" using gs(2) by simp
  from on_gpus_ok [OF this, of "\<lambda>i c g. gpu_of y i (\<lambda>q. lp_add c (rp_level x) q (rp_modUp x) (rp_modUp y) slots g)"
      "\<lambda>i r. ext_rep (pg_parts C ! i) (rp_level x) (e + s) (rp_modUp x \<or> rp_modUp y) r ?Z" Out_of_range] add
  obtain hs where hs: "on_gpus C Out_of_range (\<lambda>i c g. gpu_of y i (\<lambda>q. lp_add c (rp_level x) q (rp_modUp x) (rp_modUp y) slots g)) ?x
        = Some (Inr (?x\<lparr>rp_gpu := hs\<rparr>))" "length hs = length (pg_parts C)"
      "\<forall>i < length (pg_parts C). ext_rep (pg_parts C ! i) (rp_level x) (e + s) (rp_modUp x \<or> rp_modUp y) (hs ! i) ?Z" by auto
  have "rp_add junk C y slots x = Some (Inr (SetModUp (rp_modUp x \<or> rp_modUp y) (?x\<lparr>rp_gpu := hs\<rparr>)))"
    using gs(1) hs(1) lev by (simp add: rp_add_def isModUp_def assertO_def)
  then show ?thesis using hs(2,3) L by (auto simp: rns_rep_def SetModUp_def)
qed

section \<open>Polynomials modulo the product of their primes\<close>

definition limb_index :: "PolyCtx \<Rightarrow> int \<Rightarrow> (nat \<times> nat) set" where
  "limb_index C lev = (SIGMA i:{..<length (pg_parts C)}. {..<getLimbSize (pg_parts C ! i) lev})"

definition limb_modulus :: "PolyCtx \<Rightarrow> nat \<times> nat \<Rightarrow> int" where
  "limb_modulus C k = (let c = pg_parts C ! fst k in iprime (pc_consts c) (pid c (snd k)))"

definition poly_modulus :: "PolyCtx \<Rightarrow> int \<Rightarrow> int" where
  "poly_modulus C lev = (\<Prod>k \<in> limb_index C lev. limb_modulus C k)"

lemma cong_prod_iff:
  fixes m :: "'a \<Rightarrow> int"
  assumes "finite S" and "\<And>i j. i \<in> S \<Longrightarrow> j \<in> S \<Longrightarrow> i \<noteq> j \<Longrightarrow> coprime (m i) (m j)"
  shows "(\<forall>k \<in> S. a mod m k = b mod m k) \<longleftrightarrow> a mod (\<Prod>k\<in>S. m k) = b mod (\<Prod>k\<in>S. m k)"
  using assms
proof (induction S rule: finite_induct)
  case (insert k S)
  have "coprime (m k) (\<Prod>k\<in>S. m k)" using insert.prems insert.hyps by (intro prod_coprime_right) auto
  then have "m k * (\<Prod>k\<in>S. m k) dvd a - b \<longleftrightarrow> m k dvd a - b \<and> (\<Prod>k\<in>S. m k) dvd a - b"
    by (auto intro: divides_mult dvd_mult_left dvd_mult_right)
  then show ?case using insert by (simp add: mod_eq_dvd_iff)
qed simp

lemma limb_modulus_coprime:
  assumes C: "poly_ok C lev" and inj: "inj_on (limb_modulus C) (limb_index C lev)"
    and k: "k \<in> limb_index C lev" "l \<in> limb_index C lev" "k \<noteq> l"
  shows "coprime (limb_modulus C k) (limb_modulus C l)"
proof -
  have prime: "prime_nat (nat (limb_modulus C k)) \<and> 0 \<le> limb_modulus C k" if k: "k \<in> limb_index C lev" for k
  proof -
    let ?c = "pg_parts C ! fst k"
    have "limb_prime (pc_consts ?c) (pid ?c (snd k))"
      using ctx_okD(2) [OF poly_okD(1) [OF C]] k by (auto simp: limb_index_def)
    then show ?thesis using prime_entry_bounds(4) by (auto simp: limb_prime_def limb_modulus_def Let_def)
  qed
  have "nat (limb_modulus C k) \<noteq> nat (limb_modulus C l)"
    using inj k prime [OF k(1)] prime [OF k(2)] by (auto simp: inj_on_def)
  then have "\<not> nat (limb_modulus C k) dvd nat (limb_modulus C l)"
    using prime_nat_dvd_prime prime [OF k(1)] prime [OF k(2)] by blast
  then have "coprime (nat (limb_modulus C k)) (nat (limb_modulus C l))"
    using prime_nat_coprime prime [OF k(1)] by blast
  then have "coprime (int (nat (limb_modulus C k))) (int (nat (limb_modulus C l)))" by (simp only: coprime_int_iff)
  then show ?thesis using prime [OF k(1)] prime [OF k(2)] by simp
qed

lemma finite_limb_index: "finite (limb_index C lev)"
  by (simp add: limb_index_def)

lemma rns_rep_modulus:
  assumes C: "poly_ok C (rp_level x)" and inj: "inj_on (limb_modulus C) (limb_index C (rp_level x))"
    and X: "rns_rep C e x X" and ext: "\<not> rp_modUp x"
  shows "rns_rep C e x Y \<longleftrightarrow> (\<forall>t < 2 ^ e. X t mod poly_modulus C (rp_level x) = Y t mod poly_modulus C (rp_level x))"
proof -
  have "rns_rep C e x Y \<longleftrightarrow> (\<forall>k \<in> limb_index C (rp_level x). \<forall>t < 2 ^ e. X t mod limb_modulus C k = Y t mod limb_modulus C k)"
    using X ext by (auto simp: rns_rep_def ext_rep_def part_rep_def limbs_rep_def limb_index_def limb_modulus_def Let_def)
  also have "\<dots> \<longleftrightarrow> (\<forall>t < 2 ^ e. \<forall>k \<in> limb_index C (rp_level x). X t mod limb_modulus C k = Y t mod limb_modulus C k)" by blast
  also have "\<dots> \<longleftrightarrow> (\<forall>t < 2 ^ e. X t mod poly_modulus C (rp_level x) = Y t mod poly_modulus C (rp_level x))"
    using cong_prod_iff [OF finite_limb_index limb_modulus_coprime [OF C inj]] by (simp add: poly_modulus_def)
  finally show ?thesis .
qed

end
