(* ===== verification/RnsStore.thy ===== *)
theory RnsStore
  imports RnsCorrect
begin

text \<open>
  The transfers of whole polynomials: storing an ordinary polynomial gives the residues of its vector,
  row by row, and building a polynomial from these rows gives back the vector.
\<close>

section \<open>Single limbs\<close>

lemma foldE_upt_inv:
  assumes "I 0 s" and "\<And>i s. i < n \<Longrightarrow> I i s \<Longrightarrow> \<exists>s'. f s i = Inr s' \<and> I (Suc i) s'"
  shows "\<exists>s'. foldE f s [0..<n] = Inr s' \<and> I n s'"
  using assms by (intro foldE_range) simp_all

text \<open>A limb of the width of its prime and the given size, whatever it holds.\<close>

definition limb_shaped :: "Constants \<Rightarrow> nat \<Rightarrow> nat \<Rightarrow> limb \<Rightarrow> bool" where
  "limb_shaped c i n l = (case l of L64 x \<Rightarrow> ISU64 c i \<and> length x = n | L32 x \<Rightarrow> \<not> ISU64 c i \<and> length x = n)"

lemma uint_widen: "uint (ucast (x :: u32) :: u64) = uint x"
  by (simp only: uint_nat unat_ucast_u32_u64)

lemma uint_narrow: "uint (x :: u64) < 2 ^ 32 \<Longrightarrow> uint (ucast x :: u32) = uint x"
  by (simp add: unsigned_ucast_eq take_bit_int_eq_self)

lemma limb_store_row:
  shows "\<exists>row. limb_store l [] = Inr row \<and> length row = limb_size l \<and> (\<forall>t < limb_size l. uint (row ! t) = lval l t)"
  by (cases l) (auto simp: limb_store_def limb_size_def store_values_def lval_def Let_def uint_widen)

lemma limb_load_row:
  assumes c: "limb_prime c i" and l: "limb_shaped c i n l" and row: "length row = n" "\<And>t. t < n \<Longrightarrow> uint (row ! t) = X t mod iprime c i"
  shows "\<exists>l'. limb_load l row = Inr l' \<and> limb_ok c i n l' \<and> (\<forall>t < n. lval l' t = X t mod iprime c i)"
proof (cases l)
  case (L64 x)
  have pos: "0 < iprime c i" using c uint_gt1 [OF prime_entry_bounds(1)] by (force simp: limb_prime_def)
  have "unat (row ! t) < dprime c i" if "t < n" for t
    using row(2) [OF that] pos by (simp flip: uint_less_iff)
  then show ?thesis using L64 l row by (auto simp: limb_load_def limb_shaped_def limb_size_def limb_ok_def lval_def list_all_length)
next
  case (L32 x)
  then have w: "\<not> ISU64 c i" "length x = n" using l by (simp_all add: limb_shaped_def)
  have pos: "0 < iprime c i" using c uint_gt1 [OF prime_entry_bounds(1)] by (force simp: limb_prime_def)
  have "int (dprime c i) < int (2 ^ 30)" using prime32_unat(3) [OF c w(1)] by (simp only: of_nat_less_iff)
  then have p: "iprime c i < 2 ^ 30" by simp
  have v: "uint (ucast (row ! t) :: u32) = X t mod iprime c i" if "t < n" for t
  proof -
    have "uint (row ! t) < 2 ^ 32" using row(2) [OF that] p pos_mod_bound [OF pos, of "X t"] by simp
    then show ?thesis using uint_narrow row(2) [OF that] by simp
  qed
  have "unat (ucast (row ! t) :: u32) < dprime c i" if "t < n" for t
  proof -
    have "uint (ucast (row ! t) :: u32) < iprime c i" unfolding v [OF that] using pos by simp
    then show ?thesis by (simp only: uint_nat of_nat_less_iff)
  qed
  then show ?thesis using L32 w row(1) v
    by (auto simp: limb_load_def limb_size_def limb_ok_def lval_def list_all_length)
qed

section \<open>The layout of the limbs\<close>

text \<open>The position table leads from the id of a prime to its limb, and back.\<close>

definition layout_ok :: "PolyCtx \<Rightarrow> int \<Rightarrow> bool" where
  "layout_ok C lev \<longleftrightarrow>
     (\<forall>i. int i \<le> lev \<longrightarrow> i < length (pg_limbGPUid C) \<and> i < length (pg_prime C)
        \<and> (case pg_limbGPUid C ! i of (g, k) \<Rightarrow> g < length (pg_parts C) \<and> k < getLimbSize (pg_parts C ! g) lev
             \<and> pid (pg_parts C ! g) k = i \<and> hc_primes (pc_consts (pg_parts C ! g)) ! i = pg_prime C ! i))
   \<and> (\<forall>g < length (pg_parts C). \<forall>k < getLimbSize (pg_parts C ! g) lev.
        int (pid (pg_parts C ! g) k) \<le> lev \<and> pg_limbGPUid C ! pid (pg_parts C ! g) k = (g, k)
        \<and> (lr_type (pc_meta (pg_parts C ! g) ! k) = U64 \<longleftrightarrow> ISU64 (pc_consts (pg_parts C ! g)) (pid (pg_parts C ! g) k)))"

lemma layout_at:
  assumes "layout_ok C lev" and "int i \<le> lev"
  obtains g k where "i < length (pg_limbGPUid C)" and "i < length (pg_prime C)" and "pg_limbGPUid C ! i = (g, k)"
    and "g < length (pg_parts C)" and "k < getLimbSize (pg_parts C ! g) lev" and "pid (pg_parts C ! g) k = i"
    and "hc_primes (pc_consts (pg_parts C ! g)) ! i = pg_prime C ! i"
  using assms by (cases "pg_limbGPUid C ! i") (auto simp: layout_ok_def)

lemma layout_back:
  assumes "layout_ok C lev" and "g < length (pg_parts C)" and "k < getLimbSize (pg_parts C ! g) lev"
  shows "int (pid (pg_parts C ! g) k) \<le> lev" and "pg_limbGPUid C ! pid (pg_parts C ! g) k = (g, k)"
    and "lr_type (pc_meta (pg_parts C ! g) ! k) = U64 \<longleftrightarrow> ISU64 (pc_consts (pg_parts C ! g)) (pid (pg_parts C ! g) k)"
  using assms by (auto simp: layout_ok_def)

text \<open>Rows of residues: row \<open>i\<close> holds the vector modulo the prime of index \<open>i\<close>.\<close>

definition residue_row :: "PolyCtx \<Rightarrow> nat \<Rightarrow> (nat \<Rightarrow> int) \<Rightarrow> nat \<Rightarrow> u64 list \<Rightarrow> bool" where
  "residue_row C e X i row \<longleftrightarrow> length row = 2 ^ e \<and> (\<forall>t < 2 ^ e. uint (row ! t) = X t mod uint (pg_prime C ! i))"

definition residue_rows :: "PolyCtx \<Rightarrow> nat \<Rightarrow> nat \<Rightarrow> (nat \<Rightarrow> int) \<Rightarrow> u64 list list \<Rightarrow> bool" where
  "residue_rows C e n X data \<longleftrightarrow> length data = n \<and> (\<forall>i < n. residue_row C e X i (data ! i))"

section \<open>Storing\<close>

lemma foldE_skip: "(\<And>x. x \<in> set xs \<Longrightarrow> f s x = Inr s) \<Longrightarrow> foldE f s xs = Inr s"
  by (induction xs) simp_all

lemma store_poly_rows:
  assumes lay: "layout_ok C (rp_level x)" and X: "rns_rep C e x X" and ext: "\<not> rp_modUp x" and lev: "0 \<le> rp_level x"
  shows "\<exists>data. store_poly C x [] = Inr data \<and> residue_rows C e (nat (rp_level x + 1)) X data"
proof -
  let ?n = "nat (rp_level x + 1)"
  let ?f = "\<lambda>data i. bindE (raw_at (pg_limbGPUid C) i) (\<lambda>(g, k).
          bindE (raw_at (rp_gpu x) g) (\<lambda>p.
          bindE (raw_at (lp_limb p) k) (\<lambda>l.
          bindE (limb_store l (data ! i)) (\<lambda>row. Inr (data[i := row])))))"
  let ?I = "\<lambda>i data. length data = ?n \<and> (\<forall>j < i. residue_row C e X j (data ! j)) \<and> (\<forall>j. i \<le> j \<and> j < ?n \<longrightarrow> data ! j = [])"
  have "\<exists>data. foldE ?f (replicate ?n []) [0..<?n] = Inr data \<and> ?I ?n data"
  proof (rule foldE_upt_inv [where I = ?I])
    show "?I 0 (replicate ?n [])" by simp
    fix i data
    assume i: "i < ?n" and I: "?I i data"
    have "int i \<le> rp_level x" using i by simp
    from layout_at [OF lay this] obtain g k where gk: "i < length (pg_limbGPUid C)" "pg_limbGPUid C ! i = (g, k)"
        "g < length (pg_parts C)" "k < getLimbSize (pg_parts C ! g) (rp_level x)" "pid (pg_parts C ! g) k = i"
        "hc_primes (pc_consts (pg_parts C ! g)) ! i = pg_prime C ! i" by blast
    let ?l = "lp_limb (rp_gpu x ! g) ! k"
    note part = rns_repD(2) [OF X gk(3)]
    have l: "limb_size ?l = 2 ^ e" "k < length (lp_limb (rp_gpu x ! g))" "g < length (rp_gpu x)"
      using limb_size_ok [OF part_rep_row(1) [OF part gk(4)]] part_rep_length [OF part] gk(4) rns_repD(1) [OF X gk(3)] by simp_all
    obtain row where row: "limb_store ?l [] = Inr row" "length row = limb_size ?l" "\<forall>t < limb_size ?l. uint (row ! t) = lval ?l t"
      using limb_store_row by blast
    then have "residue_row C e X i row"
      using part_rep_row(2) [OF part gk(4)] l(1) gk(5,6) by (simp add: residue_row_def)
    moreover have "?f data i = Inr (data[i := row])"
      using gk(1,2) l(2,3) row(1) I i by (simp add: raw_at_def)
    ultimately show "\<exists>data'. ?f data i = Inr data' \<and> ?I (Suc i) data'"
      using I i by (intro exI [of _ "data[i := row]"]) (auto simp: less_Suc_eq)
  qed
  then obtain data where data: "foldE ?f (replicate ?n []) [0..<?n] = Inr data" "?I ?n data" by blast
  have rows: "store_rows x (replicate ?n []) = ?n" using lev by (simp add: store_rows_def)
  have "store_poly C x [] = Inr data"
    using ext data(1) by (simp add: store_poly_def resize_rows_def rows foldE_skip split_beta)
  then show ?thesis using data(2) by (auto simp: residue_rows_def)
qed

section \<open>Loading\<close>

definition poly_shaped :: "PolyCtx \<Rightarrow> int \<Rightarrow> nat \<Rightarrow> RNSPoly \<Rightarrow> bool" where
  "poly_shaped C lev n x \<longleftrightarrow> length (rp_gpu x) = length (pg_parts C)
     \<and> (\<forall>g < length (pg_parts C). getLimbSize (pg_parts C ! g) lev \<le> length (lp_limb (rp_gpu x ! g))
        \<and> (\<forall>k < getLimbSize (pg_parts C ! g) lev.
              limb_shaped (pc_consts (pg_parts C ! g)) (pid (pg_parts C ! g) k) n (lp_limb (rp_gpu x ! g) ! k)))"

text \<open>After \<open>i\<close> rows the limbs of the first \<open>i\<close> primes hold their residues.\<close>

definition loaded :: "PolyCtx \<Rightarrow> int \<Rightarrow> nat \<Rightarrow> (nat \<Rightarrow> int) \<Rightarrow> nat \<Rightarrow> RNSPoly \<Rightarrow> bool" where
  "loaded C lev e X i x \<longleftrightarrow> poly_shaped C lev (2 ^ e) x
     \<and> (\<forall>g < length (pg_parts C). \<forall>k < getLimbSize (pg_parts C ! g) lev. pid (pg_parts C ! g) k < i \<longrightarrow>
          limb_ok (pc_consts (pg_parts C ! g)) (pid (pg_parts C ! g) k) (2 ^ e) (lp_limb (rp_gpu x ! g) ! k)
        \<and> (\<forall>t < 2 ^ e. lval (lp_limb (rp_gpu x ! g) ! k) t = X t mod iprime (pc_consts (pg_parts C ! g)) (pid (pg_parts C ! g) k)))"

lemma limb_ok_shaped: "limb_ok c i n l \<Longrightarrow> limb_shaped c i n l"
  by (cases l) (simp_all add: limb_ok_def limb_shaped_def)

lemma load_limb_step:
  assumes C: "poly_ok C lev" and lay: "layout_ok C lev" and i: "int i \<le> lev" and m: "i < length moduli" "moduli ! i = pg_prime C ! i"
    and row: "residue_row C e X i row" and x: "loaded C lev e X i x"
  shows "\<exists>r. load_limb C moduli i row x = Inr r \<and> loaded C lev e X (Suc i) r \<and> rp_level r = rp_level x \<and> rp_modUp r = rp_modUp x"
proof -
  from layout_at [OF lay i] obtain g k where gk: "i < length (pg_limbGPUid C)" "i < length (pg_prime C)" "pg_limbGPUid C ! i = (g, k)"
      "g < length (pg_parts C)" "k < getLimbSize (pg_parts C ! g) lev" "pid (pg_parts C ! g) k = i"
      "hc_primes (pc_consts (pg_parts C ! g)) ! i = pg_prime C ! i" by blast
  let ?c = "pc_consts (pg_parts C ! g)" and ?q = "rp_gpu x ! g"
  have sh: "g < length (rp_gpu x)" "k < length (lp_limb ?q)" "limb_shaped ?c i (2 ^ e) (lp_limb ?q ! k)"
    using x gk(4-6) by (auto simp: loaded_def poly_shaped_def intro: less_le_trans)
  have "limb_prime ?c i" using ctx_okD(2) [OF poly_okD(1) [OF C gk(4)] gk(5)] gk(6) by simp
  from limb_load_row [OF this sh(3), of row X] obtain l' where l': "limb_load (lp_limb ?q ! k) row = Inr l'" "limb_ok ?c i (2 ^ e) l'"
      "\<forall>t < 2 ^ e. lval l' t = X t mod iprime ?c i"
    using row gk(7) by (auto simp: residue_row_def)
  let ?r = "x\<lparr>rp_gpu := (rp_gpu x)[g := ?q\<lparr>lp_limb := (lp_limb ?q)[k := l']\<rparr>]\<rparr>"
  have r: "load_limb C moduli i row x = Inr ?r"
    using m gk(1-3) sh(1,2) l'(1) by (simp add: load_limb_def raw_at_def)
  have other: "pid (pg_parts C ! g') k' \<noteq> i" if "g' < length (pg_parts C)" "k' < getLimbSize (pg_parts C ! g') lev" "(g', k') \<noteq> (g, k)" for g' k'
    using layout_back(2) [OF lay that(1,2)] gk(3) that(3) by auto
  have limb: "lp_limb (rp_gpu ?r ! g') ! k' = (if (g', k') = (g, k) then l' else lp_limb (rp_gpu x ! g') ! k')"
    "length (lp_limb (rp_gpu ?r ! g')) = length (lp_limb (rp_gpu x ! g'))" for g' k'
    using sh(1,2) by (cases "g' = g"; cases "k' = k"; simp)+
  have "poly_shaped C lev (2 ^ e) ?r"
    unfolding poly_shaped_def limb using x limb_ok_shaped [OF l'(2)] gk(6) by (auto simp: loaded_def poly_shaped_def)
  then have "loaded C lev e X (Suc i) ?r"
    unfolding loaded_def limb using x l'(2,3) gk(6) other by (auto simp: loaded_def less_Suc_eq)
  then show ?thesis using r by auto
qed

lemma load_limbs_rep:
  assumes C: "poly_ok C lev" and lay: "layout_ok C lev" and n: "n = nat (lev + 1)" and m: "n \<le> length moduli" "\<And>i. i < n \<Longrightarrow> moduli ! i = pg_prime C ! i"
    and rows: "residue_rows C e n X data" and x: "poly_shaped C lev (2 ^ e) x"
  shows "\<exists>r. load_limbs C moduli data n x = Inr r \<and> rp_level r = rp_level x \<and> rp_modUp r = rp_modUp x
    \<and> length (rp_gpu r) = length (pg_parts C) \<and> (\<forall>g < length (pg_parts C). part_rep (pg_parts C ! g) lev e (rp_gpu r ! g) X)"
proof -
  have "\<exists>r. foldE (\<lambda>x i. load_limb C moduli i (data ! i) x) x [0..<n] = Inr r
      \<and> (loaded C lev e X n r \<and> rp_level r = rp_level x \<and> rp_modUp r = rp_modUp x)"
  proof (rule foldE_upt_inv [where I = "\<lambda>i r. loaded C lev e X i r \<and> rp_level r = rp_level x \<and> rp_modUp r = rp_modUp x"])
    show "loaded C lev e X 0 x \<and> rp_level x = rp_level x \<and> rp_modUp x = rp_modUp x" using x by (simp add: loaded_def)
    fix i s
    assume i: "i < n" and I: "loaded C lev e X i s \<and> rp_level s = rp_level x \<and> rp_modUp s = rp_modUp x"
    have "int i \<le> lev" "i < length moduli" "residue_row C e X i (data ! i)" using i n m(1) rows by (simp_all add: residue_rows_def)
    from load_limb_step [OF C lay this(1,2) m(2) [OF i] this(3), of s] I
    show "\<exists>s'. load_limb C moduli i (data ! i) s = Inr s' \<and> loaded C lev e X (Suc i) s' \<and> rp_level s' = rp_level x \<and> rp_modUp s' = rp_modUp x"
      by auto
  qed
  then obtain r where r: "load_limbs C moduli data n x = Inr r" "loaded C lev e X n r" "rp_level r = rp_level x" "rp_modUp r = rp_modUp x"
    by (auto simp: load_limbs_def)
  have "pid (pg_parts C ! g) k < n" if "g < length (pg_parts C)" "k < getLimbSize (pg_parts C ! g) lev" for g k
    using layout_back(1) [OF lay that] n by simp
  then show ?thesis using r by (auto simp: loaded_def poly_shaped_def part_rep_def limbs_rep_def)
qed

section \<open>Building a polynomial\<close>

definition empty_partition :: Partition where
  "empty_partition = \<lparr>lp_limb = [], lp_special = [], lp_bufferLIMB = False, lp_bufferSPECIAL = False\<rparr>"

lemma getLimbSize_meta: "getLimbSize c lev \<le> length (pc_meta c)"
  by (simp add: getLimbSize_def length_takeWhile_le)

lemma generate_to_level_empty:
  assumes "pc_N c = n" and "\<And>k. k < getLimbSize c lev \<Longrightarrow> lr_type (pc_meta c ! k) = U64 \<longleftrightarrow> ISU64 (pc_consts c) (pid c k)"
  shows "\<exists>p. lp_generateLimbToLevel junk c lev (int n) empty_partition = Inr p \<and> length (lp_limb p) = getLimbSize c lev
    \<and> (\<forall>k < getLimbSize c lev. limb_shaped (pc_consts c) (pid c k) n (lp_limb p ! k))"
proof -
  have fresh: "limb_shaped (pc_consts c) (pid c k) n (fresh_limb junk n (pc_meta c ! k))" if "k < getLimbSize c lev" for k
    using assms(2) [OF that] by (cases "lr_type (pc_meta c ! k)") (simp_all add: fresh_limb_def limb_shaped_def)
  show ?thesis
  proof (cases "getLimbSize c lev = 0")
    case True
    then show ?thesis by (simp add: lp_generateLimbToLevel_def empty_partition_def)
  next
    case False
    then show ?thesis using fresh getLimbSize_meta [of c lev]
      by (auto simp: lp_generateLimbToLevel_def lp_generate_def empty_partition_def Let_def)
  qed
qed

lemma new_RNSPoly_shaped:
  assumes lay: "layout_ok C lev" and lev: "0 \<le> lev" "lev \<le> int (pg_L C)"
    and N: "pg_N C = n" "\<And>g. g < length (pg_parts C) \<Longrightarrow> pc_N (pg_parts C ! g) = n"
  shows "\<exists>x. new_RNSPoly junk C lev False = Some (Inr x) \<and> poly_shaped C lev n x \<and> rp_level x = lev \<and> \<not> rp_modUp x"
proof -
  let ?x = "\<lparr>rp_level = lev, rp_modUp = False, rp_gpu = map (\<lambda>_. empty_partition) (pg_parts C)\<rparr>"
  from layout_at [OF lay, of 0] lev(1) obtain g where "g < length (pg_parts C)" by auto
  then have ne: "pg_parts C \<noteq> []" by auto
  have shape: "\<exists>p. Some (lp_generateLimbToLevel junk (pg_parts C ! g) lev (int n) empty_partition) = Some (Inr p)
      \<and> length (lp_limb p) = getLimbSize (pg_parts C ! g) lev
      \<and> (\<forall>k < getLimbSize (pg_parts C ! g) lev. limb_shaped (pc_consts (pg_parts C ! g)) (pid (pg_parts C ! g) k) n (lp_limb p ! k))"
    if g: "g < length (pg_parts C)" for g
    using generate_to_level_empty [OF N(2) [OF g] layout_back(3) [OF lay g]] by auto
  have len: "length (rp_gpu ?x) = length (pg_parts C)" by simp
  note run = on_gpus_ok [where f = "\<lambda>i c p. Some (lp_generateLimbToLevel junk c lev (int n) p)" and err = Out_of_range
      and Q = "\<lambda>g p. length (lp_limb p) = getLimbSize (pg_parts C ! g) lev
        \<and> (\<forall>k < getLimbSize (pg_parts C ! g) lev. limb_shaped (pc_consts (pg_parts C ! g)) (pid (pg_parts C ! g) k) n (lp_limb p ! k))", OF len]
  obtain gs where gs: "on_gpus C Out_of_range (\<lambda>i c p. Some (lp_generateLimbToLevel junk c lev (int n) p)) ?x = Some (Inr (?x\<lparr>rp_gpu := gs\<rparr>))"
      "length gs = length (pg_parts C)"
      "\<forall>g < length (pg_parts C). length (lp_limb (gs ! g)) = getLimbSize (pg_parts C ! g) lev
        \<and> (\<forall>k < getLimbSize (pg_parts C ! g) lev. limb_shaped (pc_consts (pg_parts C ! g)) (pid (pg_parts C ! g) k) n (lp_limb (gs ! g) ! k))"
    using run shape by force
  have "new_RNSPoly junk C lev False = Some (Inr (?x\<lparr>rp_gpu := gs\<rparr>))"
    using ne lev N(1) gs(1) by (simp add: new_RNSPoly_def grow_def assertO_def Let_def empty_partition_def [symmetric])
      (simp add: empty_partition_def)
  then show ?thesis using gs(2,3) by (auto simp: poly_shaped_def)
qed

lemma load_counts_match:
  assumes "n \<le> pg_L C + 1" and "n \<le> length (pg_prime C)"
  shows "load_counts C n (take n (pg_prime C)) = Inr (n, 0)"
proof -
  have "\<exists>r. load_counts C n (take n (pg_prime C)) = Inr r \<and> r = (n, 0)"
    unfolding load_counts_def
    by (rule foldE_upt_inv [where I = "\<lambda>i r. r = (i, 0)"]) (use assms in \<open>auto simp: raw_at_def\<close>)
  then show ?thesis by blast
qed

lemma layout_primes:
  assumes "layout_ok C lev" and "0 \<le> lev"
  shows "nat (lev + 1) \<le> length (pg_prime C)"
proof -
  have "int (nat lev) \<le> lev" using assms(2) by simp
  from layout_at [OF assms(1) this] have "nat lev < length (pg_prime C)" by blast
  then show ?thesis using assms(2) by linarith
qed

lemma RNSPoly_of_rows:
  assumes C: "poly_ok C lev" and lay: "layout_ok C lev" and lev: "0 \<le> lev" "lev \<le> int (pg_L C)"
    and N: "pg_N C = 2 ^ e" "\<And>g. g < length (pg_parts C) \<Longrightarrow> pc_N (pg_parts C ! g) = 2 ^ e"
    and rows: "residue_rows C e (nat (lev + 1)) X data"
  shows "\<exists>x. RNSPoly_of_data junk C data = Some (Inr x) \<and> rns_rep C e x X \<and> rp_level x = lev \<and> \<not> rp_modUp x"
proof -
  let ?n = "nat (lev + 1)" and ?m = "take (nat (lev + 1)) (pg_prime C)"
  have len: "length data = ?n" "int ?n - 1 = lev" using rows lev(1) by (simp_all add: residue_rows_def)
  obtain x where x: "new_RNSPoly junk C lev False = Some (Inr x)" "poly_shaped C lev (2 ^ e) x" "rp_level x = lev" "\<not> rp_modUp x"
    using new_RNSPoly_shaped [OF lay lev N] by blast
  have np: "?n \<le> length (pg_prime C)" by (rule layout_primes [OF lay lev(1)])
  have m: "?n \<le> length ?m" "\<And>i. i < ?n \<Longrightarrow> ?m ! i = pg_prime C ! i" using np by simp_all
  obtain r where r: "load_limbs C ?m data ?n x = Inr r" "rp_level r = lev" "\<not> rp_modUp r" "length (rp_gpu r) = length (pg_parts C)"
      "\<forall>g < length (pg_parts C). part_rep (pg_parts C ! g) lev e (rp_gpu r ! g) X"
    using load_limbs_rep [OF C lay refl m rows x(2)] x(3,4) by auto
  have L: "?n \<le> pg_L C + 1" using lev by simp
  have "load_poly junk C data ?m x = Some (Inr r)"
    using load_counts_match [OF L np] x(3) r(1,2) lev by (simp add: load_poly_def len assertO_def)
  then have "RNSPoly_of_data junk C data = Some (Inr r)"
    using x(1) np lev(1) by (simp add: RNSPoly_of_data_def len assertO_def)
  then show ?thesis using r lev(2) by (auto simp: rns_rep_def ext_rep_def)
qed

end
