(* ===== verification/RnsDemo.thy ===== *)
theory RnsDemo
  imports RnsStore
begin

text \<open>
  A small context on which the properties of polynomials are instantiated: the ring of dimension 4
  with the primes 17 and 97 on two devices and the special prime 41 on the first, with the tables
  that \<open>SetupConstants\<close> computes for them.
\<close>

definition demo_record :: "nat \<Rightarrow> int \<Rightarrow> LimbRecord" where
  "demo_record i d = \<lparr>lr_id = i, lr_type = U64, lr_digit = d\<rparr>"

definition two_constants :: Constants where
  "two_constants = (case SetupConstants [\<lparr>pr_p = 17, pr_type = Some U64, pr_bits = 5\<rparr>, \<lparr>pr_p = 97, pr_type = Some U64, pr_bits = 7\<rparr>]
       [[demo_record 0 0], [demo_record 1 1]] [\<lparr>pr_p = 41, pr_type = Some U64, pr_bits = 6\<rparr>] [demo_record 2 (-1)] [[0], [0]] 4 of
     Inl e \<Rightarrow> undefined | Inr c \<Rightarrow> (case set_P [5, 71] c of Inl e \<Rightarrow> undefined | Inr c \<Rightarrow> c))"

lemma prime_41: "prime_nat 41"
  by (simp add: prime_nat_code atLeastLessThan_nat_numeral)

lemma demo_types: "type_bits [demo_record 2 (-1)] (type_bits (concat [[demo_record 0 0], [demo_record 1 1]]) 0) = 7"
  by (simp add: type_bits_def demo_record_def)

lemma two_constants_ok:
  shows "i < 3 \<Longrightarrow> prime_entry two_constants i" and "i < 3 \<Longrightarrow> ISU64 two_constants i"
    and "hc_primes two_constants ! 0 = 17" and "hc_primes two_constants ! 1 = 97" and "hc_primes two_constants ! 2 = 41"
    and "i < 2 \<Longrightarrow> P_entry two_constants i" and "i < 2 \<Longrightarrow> uint (hc_P two_constants ! i) = 41 mod iprime two_constants i"
    and "hc_N two_constants = 4" and "hc_logN two_constants = 2"
    and "hc_L two_constants = 2" and "hc_K two_constants = 1" and "i < 2 \<Longrightarrow> hc_P_inv two_constants ! i = [5, 71] ! i"
    and "i < 2 \<Longrightarrow> hc_P_inv_shoup two_constants ! i = shoup_precomp ([5, 71] ! i) (hc_primes two_constants ! i)"
proof -
  let ?q = "[\<lparr>pr_p = 17, pr_type = Some U64, pr_bits = 5\<rparr>, \<lparr>pr_p = 97, pr_type = Some U64, pr_bits = 7\<rparr>]"
    and ?p = "[\<lparr>pr_p = 41, pr_type = Some U64, pr_bits = 6\<rparr>]"
    and ?m = "[[demo_record 0 0], [demo_record 1 1]]" and ?s = "[demo_record 2 (-1)]"
  have a: "\<forall>r \<in> set (?q @ ?p). prime_record_ok 4 r" "length ?q + length ?p \<le> MAXP" "digits_fit ?m ?s [[0], [0]]"
    using prime_17 prime_97 prime_41 by (simp_all add: prime_record_ok_def prime_bits_def MAXP_def digits_fit_def MAXD_def demo_record_def)
  from SetupConstants_ok [OF a] obtain c where c: "SetupConstants ?q ?m ?p ?s [[0], [0]] 4 = Inr c" "tables_sized c" "hc_N c = 4"
      "hc_type c = 7" "hc_logN c = nat (bit_width_nat 4) - 1"
      "\<forall>i < length ?q + length ?p. hc_primes c ! i = pr_p ((?q @ ?p) ! i) \<and> prime_entry c i" "hc_L c = length ?q" "hc_K c = length ?p"
    unfolding demo_types by blast
  have pr: "hc_primes c ! 0 = 17" "hc_primes c ! 1 = 97" "hc_primes c ! 2 = 41" "prime_entry c 0" "prime_entry c 1" "prime_entry c 2"
    using c(6) [rule_format, of 0] c(6) [rule_format, of 1] c(6) [rule_format, of 2] by simp_all
  have "\<exists>c'. set_P [5, 71] c = Inr c' \<and> same_primes c c' \<and> length (hc_P c') = MAXP \<and> length (hc_P_shoup c') = MAXP
    \<and> length (hc_P_inv c') = MAXP \<and> length (hc_P_inv_shoup c') = MAXP
    \<and> (\<forall>i < length [5, 71 :: u64]. unat (hc_P c' ! i) = 41 mod dprime c i \<and> hc_P_shoup c' ! i = shoup_precomp (hc_P c' ! i) (hc_primes c ! i)
        \<and> hc_P_inv c' ! i = [5, 71] ! i \<and> hc_P_inv_shoup c' ! i = shoup_precomp ([5, 71] ! i) (hc_primes c ! i))"
  proof (rule set_P_ok)
    show "length (hc_P c) = MAXP" "length (hc_P_shoup c) = MAXP" "length (hc_P_inv c) = MAXP" "length (hc_P_inv_shoup c) = MAXP" using c(2) by (simp_all add: tables_sized_def)
    fix i
    assume "i < length [5, 71 :: u64]"
    then show "prime_entry c i \<and> unat ([5, 71 :: u64] ! i) * 41 mod dprime c i = 1"
      using pr by (auto simp: less_Suc_eq)
  qed (simp add: MAXP_def)
  then obtain c' where c': "set_P [5, 71] c = Inr c'" "same_primes c c'"
      "\<forall>i < 2. unat (hc_P c' ! i) = 41 mod dprime c i \<and> hc_P_shoup c' ! i = shoup_precomp (hc_P c' ! i) (hc_primes c ! i)
        \<and> hc_P_inv c' ! i = [5, 71] ! i \<and> hc_P_inv_shoup c' ! i = shoup_precomp ([5, 71] ! i) (hc_primes c ! i)"
    by auto
  have e: "two_constants = c'" using c(1) c'(1) by (simp add: two_constants_def)
  have ps: "hc_primes c' = hc_primes c" using c'(2) by (simp add: same_primes_def)
  show "hc_primes two_constants ! 0 = 17" "hc_primes two_constants ! 1 = 97" "hc_primes two_constants ! 2 = 41"
    using pr by (simp_all add: e ps)
  show "i < 3 \<Longrightarrow> prime_entry two_constants i" for i
    using pr same_primes_entry(1) [OF c'(2)] by (auto simp: e less_Suc_eq numeral_3_eq_3 numeral_2_eq_2)
  show "i < 3 \<Longrightarrow> ISU64 two_constants i" for i
    using c(4) c'(2) by (auto simp: e same_primes_def ISU64_def less_Suc_eq numeral_3_eq_3)
  show "i < 2 \<Longrightarrow> P_entry two_constants i" for i
  proof -
    assume i: "i < 2"
    then have "i = 0 \<or> i = 1" by linarith
    then have "0 < dprime c i" using pr by auto
    then show ?thesis using c'(3) i by (simp add: P_entry_def e ps)
  qed
  show "i < 2 \<Longrightarrow> uint (hc_P two_constants ! i) = 41 mod iprime two_constants i" for i
    using c'(3) uint_mod_eq [of "hc_P c' ! i" 41 "hc_primes c ! i"] by (simp add: e ps)
  show "hc_N two_constants = 4" using c(3) c'(2) by (simp add: e same_primes_def)
  show "hc_L two_constants = 2" "hc_K two_constants = 1" using c(7,8) c'(2) by (simp_all add: e same_primes_def)
  show "i < 2 \<Longrightarrow> hc_P_inv two_constants ! i = [5, 71] ! i"
    "i < 2 \<Longrightarrow> hc_P_inv_shoup two_constants ! i = shoup_precomp ([5, 71] ! i) (hc_primes two_constants ! i)" for i
    using c'(3) by (simp_all add: e ps)
  have "hc_logN c = 2" unfolding c(5) by (simp add: bit_width_nat.simps)
  then show "hc_logN two_constants = 2" using c'(2) by (simp add: e same_primes_def)
qed

section \<open>The context and its polynomials\<close>

definition two_ctx :: PolyCtx where
  "two_ctx = \<lparr>pg_parts =
       [\<lparr>pc_consts = two_constants, pc_batch = 1, pc_L = 1, pc_N = 4, pc_flexext = False,
         pc_meta = [demo_record 0 0], pc_smeta = [demo_record 2 (-1)], pc_split = [demo_record 2 (-1)]\<rparr>,
        \<lparr>pc_consts = two_constants, pc_batch = 1, pc_L = 1, pc_N = 4, pc_flexext = False,
         pc_meta = [demo_record 1 1], pc_smeta = [demo_record 2 (-1)], pc_split = []\<rparr>],
     pg_limbGPUid = [(0, 0), (1, 0)], pg_prime = [17, 97], pg_specialPrime = [41], pg_L = 1, pg_N = 4\<rparr>"

definition demo_limb :: "int \<Rightarrow> (nat \<Rightarrow> int) \<Rightarrow> limb" where
  "demo_limb p X = L64 (map (\<lambda>t. word_of_int (X t mod p)) [0..<4])"

definition demo_poly :: "(nat \<Rightarrow> int) \<Rightarrow> RNSPoly" where
  "demo_poly X = \<lparr>rp_level = 1, rp_modUp = False, rp_gpu =
     [\<lparr>lp_limb = [demo_limb 17 X], lp_special = [], lp_bufferLIMB = False, lp_bufferSPECIAL = False\<rparr>,
      \<lparr>lp_limb = [demo_limb 97 X], lp_special = [], lp_bufferLIMB = False, lp_bufferSPECIAL = False\<rparr>]\<rparr>"

definition demo_extended :: "(nat \<Rightarrow> int) \<Rightarrow> RNSPoly" where
  "demo_extended X = \<lparr>rp_level = 1, rp_modUp = True, rp_gpu =
     [\<lparr>lp_limb = [demo_limb 17 X], lp_special = [demo_limb 41 X], lp_bufferLIMB = False, lp_bufferSPECIAL = False\<rparr>,
      \<lparr>lp_limb = [demo_limb 97 X], lp_special = [], lp_bufferLIMB = False, lp_bufferSPECIAL = False\<rparr>]\<rparr>"

lemma two_parts: "length (pg_parts two_ctx) = 2" "i < 2 \<Longrightarrow> pc_consts (pg_parts two_ctx ! i) = two_constants"
    "i < 2 \<Longrightarrow> getLimbSize (pg_parts two_ctx ! i) 1 = 1" "i < 2 \<Longrightarrow> pid (pg_parts two_ctx ! i) 0 = i"
    "i < 2 \<Longrightarrow> special_start (pg_parts two_ctx ! i) = 0" "numSpecialLimbs (pg_parts two_ctx ! 0) = 1"
    "numSpecialLimbs (pg_parts two_ctx ! Suc 0) = 0" "i < 2 \<Longrightarrow> sid (pg_parts two_ctx ! i) 0 = 2" "pg_L two_ctx = 1"
    "i < 2 \<Longrightarrow> pc_L (pg_parts two_ctx ! i) = 1" "i < 2 \<Longrightarrow> 0 < pc_batch (pg_parts two_ctx ! i)" "pg_N two_ctx = 4"
    "i < 2 \<Longrightarrow> pc_N (pg_parts two_ctx ! i) = 4" "i < 2 \<Longrightarrow> length (pc_smeta (pg_parts two_ctx ! i)) = 1"
    "i < 2 \<Longrightarrow> lr_type (pc_meta (pg_parts two_ctx ! i) ! 0) = U64"
    "pg_limbGPUid two_ctx = [(0, 0), (1, 0)]" "pg_prime two_ctx = [17, 97]"
  by (auto simp: two_ctx_def demo_record_def getLimbSize_def special_start_def numSpecialLimbs_def less_2_cases_iff)

lemma two_limb_prime: "i < 3 \<Longrightarrow> limb_prime two_constants i"
  by (simp add: limb_prime_def two_constants_ok(1,2))

lemma two_iprime: "iprime two_constants 0 = 17" "iprime two_constants (Suc 0) = 97" "iprime two_constants 2 = 41"
  using two_constants_ok(3-5) by simp_all

lemma two_ctx_ext: "poly_ext two_ctx 1 41"
proof -
  have lt: "i < 3" if "i < 2" for i :: nat using that by simp
  have "ctx_ok (pg_parts two_ctx ! i) 1" if "i < 2" for i
    using that two_limb_prime [OF lt [OF that]] by (simp add: ctx_ok_def two_parts)
  then have "ctx_wide (pg_parts two_ctx ! i) 1" if "i < 2" for i
    using that two_constants_ok(2) [OF lt [OF that]] by (simp add: ctx_wide_def two_parts)
  moreover have "\<forall>j < numSpecialLimbs (pg_parts two_ctx ! i). limb_prime two_constants (sid (pg_parts two_ctx ! i) j)
      \<and> ISU64 two_constants (sid (pg_parts two_ctx ! i) j) \<and> 41 mod iprime two_constants (sid (pg_parts two_ctx ! i) j) = 0" if "i < 2" for i
    using that two_parts(6,7) two_parts(8) [of 0] two_limb_prime [of 2] two_constants_ok(2) [of 2] two_iprime(3)
    by (auto simp: less_2_cases_iff)
  moreover have "\<forall>y < numSpecialLimbs (pg_parts two_ctx ! i). ISU64 two_constants y" if "i < 2" for i
    using that two_parts(6,7) two_constants_ok(2) [of 0] by (auto simp: less_2_cases_iff)
  ultimately show ?thesis
    using two_constants_ok(6,7) by (simp add: poly_ext_def ctx_ext_def two_parts)
qed

lemmas two_ctx_ok = poly_wideD(1) [OF poly_extD(1) [OF two_ctx_ext]]

lemma two_layout: "layout_ok two_ctx 1"
proof -
  have i: "i = 0 \<or> i = Suc 0" if "int i \<le> 1" for i using that by linarith
  note two = two_constants_ok(2) [of 0] two_constants_ok(2) [of 1] two_constants_ok(3,4)
  have "i < length (pg_limbGPUid two_ctx) \<and> i < length (pg_prime two_ctx) \<and> (case pg_limbGPUid two_ctx ! i of (g, k) \<Rightarrow>
      g < length (pg_parts two_ctx) \<and> k < getLimbSize (pg_parts two_ctx ! g) 1 \<and> pid (pg_parts two_ctx ! g) k = i
      \<and> hc_primes (pc_consts (pg_parts two_ctx ! g)) ! i = pg_prime two_ctx ! i)" if "int i \<le> 1" for i
    using i [OF that] two by (auto simp: two_parts)
  moreover have "\<forall>k < getLimbSize (pg_parts two_ctx ! g) 1. int (pid (pg_parts two_ctx ! g) k) \<le> 1
      \<and> pg_limbGPUid two_ctx ! pid (pg_parts two_ctx ! g) k = (g, k)
      \<and> (lr_type (pc_meta (pg_parts two_ctx ! g) ! k) = U64 \<longleftrightarrow> ISU64 (pc_consts (pg_parts two_ctx ! g)) (pid (pg_parts two_ctx ! g) k))"
    if "g < length (pg_parts two_ctx)" for g
    using that two by (auto simp: two_parts less_2_cases_iff)
  ultimately show ?thesis unfolding layout_ok_def by blast
qed

lemma demo_limb_ok:
  assumes "i < 3" and "iprime two_constants i = p"
  shows "limb_ok two_constants i 4 (demo_limb p X) \<and> (\<forall>t < 4. lval (demo_limb p X) t = X t mod p)"
proof -
  note b = prime_entry_bounds [OF two_constants_ok(1) [OF assms(1)]]
  have "p = int (dprime two_constants i)" unfolding assms(2) [symmetric] by (rule uint_nat)
  with b(1,2) obtain n where "p = int n" "1 < n" "n < 2 ^ 62" by blast
  then have p: "0 < p" "p < 2 ^ 64" by simp_all
  have v: "uint (word_of_int (X t mod p) :: u64) = X t mod p" for t
  proof -
    have "0 \<le> X t mod p" "X t mod p < p" using p(1) by simp_all
    then show ?thesis using p(2) by (simp add: uint_word_of_int)
  qed
  have "uint (word_of_int (X t mod p) :: u64) < iprime two_constants i" for t
    unfolding v assms(2) using p(1) by simp
  then have "unat (word_of_int (X t mod p) :: u64) < dprime two_constants i" for t
    by (simp only: uint_nat of_nat_less_iff)
  then show ?thesis
    using two_constants_ok(2) [OF assms(1)] v by (simp add: limb_ok_def demo_limb_def lval_def list_all_length)
qed

lemma demo_rep: "rns_rep two_ctx 2 (demo_poly X) X" "rns_rep two_ctx 2 (demo_extended X) X"
proof -
  note b = demo_limb_ok [of 0 17 X] demo_limb_ok [of "Suc 0" 97 X] demo_limb_ok [of 2 41 X]
  have "part_rep (pg_parts two_ctx ! i) 1 2 (rp_gpu (demo_poly X) ! i) X" if "i < 2" for i
    using that b(1,2) two_iprime by (auto simp: part_rep_def limbs_rep_def two_parts demo_poly_def less_2_cases_iff)
  then show "rns_rep two_ctx 2 (demo_poly X) X"
    by (simp add: rns_rep_def ext_rep_def two_parts) (simp add: demo_poly_def)
  have "ext_rep (pg_parts two_ctx ! i) 1 2 True (rp_gpu (demo_extended X) ! i) X" if "i < 2" for i
    using that b two_iprime
    by (auto simp: ext_rep_def part_rep_def special_rep_def limbs_rep_def two_parts demo_extended_def less_2_cases_iff)
  then show "rns_rep two_ctx 2 (demo_extended X) X"
    by (simp add: rns_rep_def two_parts) (simp add: demo_extended_def)
qed

lemma demo_poly_fields: "rp_level (demo_poly X) = 1" "rp_level (demo_extended X) = 1" "\<not> rp_modUp (demo_poly X)" "rp_modUp (demo_extended X)"
  by (simp_all add: demo_poly_def demo_extended_def)

lemma demo_ready: "specials_ready two_ctx (demo_poly X)"
proof -
  have "pg_parts two_ctx \<noteq> []" using two_parts(1) by auto
  then show ?thesis using two_parts(5-8) by (auto simp: specials_ready_def two_parts demo_poly_def less_2_cases_iff)
qed

lemma two_limbs: "limb_index two_ctx 1 = {(0, 0), (Suc 0, 0)}" "limb_modulus two_ctx (0, 0) = 17" "limb_modulus two_ctx (Suc 0, 0) = 97"
  "poly_modulus two_ctx 1 = 17 * 97"
proof -
  show i: "limb_index two_ctx 1 = {(0, 0), (Suc 0, 0)}"
    by (auto simp: limb_index_def two_parts less_2_cases_iff)
  show m: "limb_modulus two_ctx (0, 0) = 17" "limb_modulus two_ctx (Suc 0, 0) = 97"
    using two_iprime by (simp_all add: limb_modulus_def two_parts Let_def)
  show "poly_modulus two_ctx 1 = 17 * 97" by (simp add: poly_modulus_def i m)
qed

end
