(* ===== verification/RnsProps.thy ===== *)
theory RnsProps
  imports RnsDemo
begin

text \<open>
  The properties of the polynomials of \<^theory_text>\<open>RnsPoly\<close>: a well-formed polynomial denotes exactly one vector
  modulo the product of its primes, the operations compute on these vectors, and storing and loading
  are inverse.
\<close>

section \<open>The vector of a polynomial\<close>

text \<open>A polynomial is well formed when its limbs have the width, the length and the range of their primes.\<close>

definition poly_wf :: "PolyCtx \<Rightarrow> nat \<Rightarrow> RNSPoly \<Rightarrow> bool" where
  "poly_wf C e x \<longleftrightarrow> length (rp_gpu x) = length (pg_parts C) \<and> rp_level x \<le> int (pg_L C)
     \<and> (\<forall>i < length (pg_parts C). getLimbSize (pg_parts C ! i) (rp_level x) \<le> length (lp_limb (rp_gpu x ! i))
        \<and> (\<forall>j < getLimbSize (pg_parts C ! i) (rp_level x).
              limb_ok (pc_consts (pg_parts C ! i)) (pid (pg_parts C ! i) j) (2 ^ e) (lp_limb (rp_gpu x ! i) ! j)))"

lemma crt_exists:
  fixes m r :: "'a \<Rightarrow> int"
  assumes "finite S" and "\<And>i j. i \<in> S \<Longrightarrow> j \<in> S \<Longrightarrow> i \<noteq> j \<Longrightarrow> coprime (m i) (m j)"
  shows "\<exists>v. \<forall>k \<in> S. v mod m k = r k mod m k"
  using assms
proof (induction S rule: finite_induct)
  case (insert k S)
  then obtain v where v: "\<forall>l \<in> S. v mod m l = r l mod m l" by auto
  let ?M = "\<Prod>l\<in>S. m l"
  have "coprime ?M (m k)" using insert.prems insert.hyps by (intro prod_coprime_left) auto
  then obtain z y where z: "z * ?M + y * m k = 1" using bezout_int [of ?M "m k"] by auto
  let ?w = "v + ?M * (z * (r k - v))"
  have "?w - r k = (z * ?M - 1) * (r k - v)" by (simp add: algebra_simps)
  also have "z * ?M - 1 = - y * m k" using z by simp
  finally have "?w mod m k = r k mod m k" by (simp only: mod_eq_dvd_iff) simp
  moreover have "?w mod m l = r l mod m l" if l: "l \<in> S" for l
  proof -
    have "m l dvd ?M" using insert.hyps(1) l by (rule dvd_prodI)
    then have "m l dvd ?w - v" by simp
    then have "?w mod m l = v mod m l" by (simp only: mod_eq_dvd_iff)
    then show ?thesis using v l by simp
  qed
  ultimately show ?case by (intro exI [of _ ?w]) auto
qed simp

lemma poly_wf_rep:
  assumes C: "poly_ok C (rp_level x)" and inj: "inj_on (limb_modulus C) (limb_index C (rp_level x))"
    and x: "poly_wf C e x" and ext: "\<not> rp_modUp x"
  shows "\<exists>X. rns_rep C e x X"
proof -
  let ?r = "\<lambda>t k. lval (lp_limb (rp_gpu x ! fst k) ! snd k) t"
  have "\<forall>t. \<exists>v. \<forall>k \<in> limb_index C (rp_level x). v mod limb_modulus C k = ?r t k mod limb_modulus C k"
    by (intro allI crt_exists finite_limb_index limb_modulus_coprime [OF C inj])
  then obtain X where X: "\<And>t k. k \<in> limb_index C (rp_level x) \<Longrightarrow> X t mod limb_modulus C k = ?r t k mod limb_modulus C k" by metis
  have "ext_rep (pg_parts C ! i) (rp_level x) e (rp_modUp x) (rp_gpu x ! i) X" if i: "i < length (pg_parts C)" for i
  proof -
    have "limb_ok (pc_consts (pg_parts C ! i)) (pid (pg_parts C ! i) j) (2 ^ e) (lp_limb (rp_gpu x ! i) ! j)
        \<and> lval (lp_limb (rp_gpu x ! i) ! j) t = X t mod iprime (pc_consts (pg_parts C ! i)) (pid (pg_parts C ! i) j)"
      if j: "j < getLimbSize (pg_parts C ! i) (rp_level x)" and t: "t < 2 ^ e" for j t
    proof -
      have k: "(i, j) \<in> limb_index C (rp_level x)" using i j by (simp add: limb_index_def)
      have l: "limb_ok (pc_consts (pg_parts C ! i)) (pid (pg_parts C ! i) j) (2 ^ e) (lp_limb (rp_gpu x ! i) ! j)"
        using x i j by (simp add: poly_wf_def)
      then show ?thesis using X [OF k, of t] limb_ok_range [OF l t] by (simp add: limb_modulus_def Let_def)
    qed
    then show ?thesis using x i ext by (simp add: ext_rep_def part_rep_def limbs_rep_def poly_wf_def)
  qed
  then show ?thesis using x by (auto simp: rns_rep_def poly_wf_def)
qed



section \<open>Sums and products\<close>



text \<open>C11: \<open>multElement\<close> and \<open>sub\<close> compute the pointwise product and difference modulo the product of
  the primes: the result represents a vector exactly when the vector is congruent to the product, or
  the difference, at every position.\<close>

theorem rp_multElement_refines:
  assumes "poly_ok C (rp_level x)" and "inj_on (limb_modulus C) (limb_index C (rp_level x))"
    and "rns_rep C (e + s) x X" and "rns_rep C e y Y"
    and "rp_level x \<le> rp_level y" and "2 * slots = 2 ^ e" and "\<not> rp_modUp x"
  shows "(\<exists>r. rp_multElement C y slots x = Some (Inr r) \<and> rp_level r = rp_level x \<and> \<not> rp_modUp r
      \<and> (\<forall>Z. rns_rep C (e + s) r Z \<longleftrightarrow> (\<forall>t < 2 ^ (e + s). (X t * Y (t div 2 ^ s)) mod poly_modulus C (rp_level x) = Z t mod poly_modulus C (rp_level x))))
    \<and> (\<exists>r. rp_sub C y slots x = Some (Inr r) \<and> rp_level r = rp_level x \<and> \<not> rp_modUp r
      \<and> (\<forall>Z. rns_rep C (e + s) r Z \<longleftrightarrow> (\<forall>t < 2 ^ (e + s). (X t - Y (t div 2 ^ s)) mod poly_modulus C (rp_level x) = Z t mod poly_modulus C (rp_level x))))"
proof -
  obtain r where r: "rp_multElement C y slots x = Some (Inr r)" "rns_rep C (e + s) r (\<lambda>t. X t * Y (t div 2 ^ s))"
      "rp_level r = rp_level x" "\<not> rp_modUp r"
    using rns_two_operands(2) [OF assms(1,3,4,5,6,7)] by blast
  moreover obtain d where d: "rp_sub C y slots x = Some (Inr d)" "rns_rep C (e + s) d (\<lambda>t. X t - Y (t div 2 ^ s))"
      "rp_level d = rp_level x" "\<not> rp_modUp d"
    using rns_two_operands(1) [OF assms(1,3,4,5,6,7)] by blast
  moreover note rns_rep_modulus [of C r, OF _ _ r(2,4)] rns_rep_modulus [of C d, OF _ _ d(2,4)]
  ultimately show ?thesis using assms(1,2) by auto
qed

lemma rp_multElement_refines_witness:
  "(\<exists>r. rp_multElement two_ctx (demo_poly (\<lambda>t. 100)) 2 (demo_poly int) = Some (Inr r) \<and> rp_level r = 1 \<and> \<not> rp_modUp r
      \<and> (\<forall>Z. rns_rep two_ctx 2 r Z \<longleftrightarrow> (\<forall>t < 4. (int t * 100) mod 1649 = Z t mod 1649)))"
  using rp_multElement_refines [of two_ctx "demo_poly int" 2 0 int "demo_poly (\<lambda>t. 100)" "\<lambda>t. 100" 2]
    two_ctx_ok demo_rep by (simp add: demo_poly_fields two_limbs)

section \<open>The way to the host and back\<close>

text \<open>C13: An ordinary polynomial stored to the host and rebuilt from the rows keeps its level and
  represents the same vector, whatever the split of its limbs among the devices, the widths of the
  limbs and the former content of the device memory; the rows are the residues of the vector.\<close>

theorem store_load_roundtrip:
  assumes "rns_rep C e x X" and "\<not> rp_modUp x" and "0 \<le> rp_level x" and "poly_ok C (rp_level x)" and "layout_ok C (rp_level x)"
    and "pg_N C = 2 ^ e" and "\<And>g. g < length (pg_parts C) \<Longrightarrow> pc_N (pg_parts C ! g) = 2 ^ e"
  shows "\<exists>data y. store_poly C x [] = Inr data \<and> residue_rows C e (nat (rp_level x + 1)) X data
    \<and> RNSPoly_of_data junk C data = Some (Inr y) \<and> rns_rep C e y X \<and> rp_level y = rp_level x \<and> \<not> rp_modUp y"
proof -
  obtain data where "store_poly C x [] = Inr data" "residue_rows C e (nat (rp_level x + 1)) X data"
    using store_poly_rows [OF assms(5,1-3)] by blast
  moreover have "rp_level x \<le> int (pg_L C)" using assms(1) by (simp add: rns_rep_def)
  ultimately show ?thesis
    using RNSPoly_of_rows [OF assms(4,5,3) _ assms(6,7), of X data junk] by blast
qed

lemma store_load_roundtrip_witness:
  "\<exists>data y. store_poly two_ctx (demo_poly int) [] = Inr data \<and> residue_rows two_ctx 2 2 int data
    \<and> RNSPoly_of_data (\<lambda>_ _. 7) two_ctx data = Some (Inr y) \<and> rns_rep two_ctx 2 y int \<and> rp_level y = 1 \<and> \<not> rp_modUp y"
  using store_load_roundtrip [of two_ctx 2 "demo_poly int" int "\<lambda>_ _. 7"] two_ctx_ok two_layout demo_rep two_parts
  by (simp add: demo_poly_fields)

end
