(* ===== verification/CkksDepth.thy ===== *)
theory CkksDepth
  imports CkksGroups
begin

text \<open>
  A calculus of multiplicative depth for programs of ciphertext operations under the flexible rescaling
  technique FLEXIBLEAUTO. The depth of a ciphertext is the level it has after the rescale that is still pending;
  every product costs one level, sums and constants added cost none, and an operation on operands
  that are deep enough returns. The rules are stated as \<^const>\<open>returns\<close> statements, so that a
  program is proved by applying them in its order.
\<close>

section \<open>Depth\<close>

definition flex :: "CkksContext \<Rightarrow> bool" where
  "flex cc \<longleftrightarrow> tables_ok cc \<and> exact_primes cc \<and> cc_technique cc = FLEXIBLEAUTO"

lemma flexD: "flex cc \<Longrightarrow> tables_ok cc" "flex cc \<Longrightarrow> exact_primes cc" "flex cc \<Longrightarrow> flexible cc"
  by (simp_all add: flex_def flexible_def)

definition depth :: "Ciphertext \<Rightarrow> int" where
  "depth ct = ct_level ct - (if ct_noise ct = 2 then 1 else 0)"

text \<open>A well-scaled ciphertext of the given tag, slots, depth and values.\<close>

definition holds :: "CkksContext \<Rightarrow> string \<Rightarrow> int \<Rightarrow> int \<Rightarrow> msg \<Rightarrow> Ciphertext \<Rightarrow> bool" where
  "holds cc key slots d v ct \<longleftrightarrow>
     operand cc ct \<and> ct_keyID ct = key \<and> ct_slots ct = slots \<and> depth ct = d \<and> decode ct = v"

lemma holdsD:
  assumes "holds cc key slots d v ct"
  shows "operand cc ct" "ct_keyID ct = key" "ct_slots ct = slots" "depth ct = d" "decode ct = v"
  using assms by (simp_all add: holds_def)

lemma operand_depth: "operand cc ct \<Longrightarrow> 0 \<le> depth ct"
  by (auto simp: operand_def depth_def ct_ok_def)

lemma result_operand:
  assumes "result cc n l key slots v r" and "n = 2 \<longrightarrow> 1 \<le> l"
  shows "holds cc key slots (l - (if n = 2 then 1 else 0)) v r"
  using assms by (auto simp: result_def holds_def operand_def depth_def)

lemma operand_levels: "operand cc ct \<Longrightarrow> ct_noise ct = 1 \<or> ct_noise ct = 2 \<and> 1 \<le> ct_level ct"
  by (auto simp: operand_def ct_ok_def)

lemma meet_depth:
  assumes "operand cc a" and "operand cc b"
  defines "n \<equiv> meet_noise (ct_noise a) (ct_level a) (ct_noise b) (ct_level b)" and "l \<equiv> min (ct_level a) (ct_level b)"
  shows "n = 2 \<longrightarrow> 1 \<le> l" and "l - (if n = 2 then 1 else 0) = min (depth a) (depth b)"
  using operand_levels [OF assms(1)] operand_levels [OF assms(2)]
  by (auto simp: n_def l_def meet_noise_def depth_def min_def max_def)

lemma product_depth:
  assumes "operand cc a" and "operand cc b"
  shows "product_level (ct_noise a) (ct_level a) (ct_noise b) (ct_level b) = min (depth a) (depth b)"
  using meet_depth(2) [OF assms] by (simp add: product_level_def)

text \<open>What products yield: degree 2.\<close>

definition holds2 :: "CkksContext \<Rightarrow> string \<Rightarrow> int \<Rightarrow> int \<Rightarrow> msg \<Rightarrow> Ciphertext \<Rightarrow> bool" where
  "holds2 cc key slots d v ct \<longleftrightarrow> holds cc key slots d v ct \<and> ct_noise ct = 2"

lemma holds2_holds: "holds2 cc key slots d v ct \<Longrightarrow> holds cc key slots d v ct"
  by (simp add: holds2_def)

lemma result_holds2:
  assumes "result cc 2 l key slots v r" and "1 \<le> l"
  shows "holds2 cc key slots (l - 1) v r"
  using result_operand [OF assms(1)] assms by (simp add: holds2_def result_def)

lemma returns_holds2: "returns m (holds2 cc key s d v) \<Longrightarrow> returns m (holds cc key s d v)"
  by (auto elim: returns_weaken simp: holds2_def)

section \<open>Rules\<close>

lemma holds_add:
  assumes F: "flex cc" and a: "holds cc key s d u a" and b: "holds cc key s e v b"
  shows "returns (ct_add cc b a) (holds cc key s (min d e) (msg_add u v))"
proof -
  note A = holdsD [OF a] and B = holdsD [OF b]
  obtain r where r: "ct_add cc b a = Some (Inr r)" "result cc (meet_noise (ct_noise a) (ct_level a) (ct_noise b) (ct_level b))
      (min (ct_level a) (ct_level b)) key s (msg_add u v) r"
    using ct_add_flexible [OF flexD [OF F] A(1) B(1)] A(2,3,5) B(2,3,5) by auto
  show ?thesis using result_operand [OF r(2) meet_depth(1) [OF A(1) B(1)]] r(1) A(4) B(4) meet_depth(2) [OF A(1) B(1)]
    by simp
qed

lemma holds_add_self:
  assumes F: "flex cc" and a: "holds cc key s d u a"
  shows "returns (ct_add_self cc a) (holds cc key s d (msg_add u u))"
  using holds_add [OF F a a] operand_state [OF holdsD(1) [OF a]] by (simp add: ct_add_self_def ensure_ct_def)

lemma holds_sub:
  assumes F: "flex cc" and a: "holds cc key s d u a" and b: "holds cc key s e v b"
  shows "returns (ct_sub cc b a) (holds cc key s (min d e) (msg_sub u v))"
proof -
  note A = holdsD [OF a] and B = holdsD [OF b]
  obtain r where r: "ct_sub cc b a = Some (Inr r)" "result cc (meet_noise (ct_noise a) (ct_level a) (ct_noise b) (ct_level b))
      (min (ct_level a) (ct_level b)) key s (msg_sub u v) r"
    using ct_sub_flexible [OF flexD [OF F] A(1) B(1)] A(2,3,5) B(2,3,5) by auto
  show ?thesis using result_operand [OF r(2) meet_depth(1) [OF A(1) B(1)]] r(1) A(4) B(4) meet_depth(2) [OF A(1) B(1)]
    by simp
qed

lemma holds_mult:
  assumes F: "flex cc" and k: "has_eval_key cc key" and a: "holds cc key s d u a" and b: "holds cc key s e v b"
    and "1 \<le> d" "1 \<le> e"
  shows "returns (ct_mult cc b resc True a) (holds2 cc key s (min d e - 1) (msg_mult u v))"
proof -
  note A = holdsD [OF a] and B = holdsD [OF b]
  obtain r where r: "ct_mult cc b resc True a = Some (Inr r)" "result cc 2 (min d e) key s (msg_mult u v) r"
    using ct_mult_flexible [OF flexD [OF F] A(1) B(1)] A(2-5) B(2-5) k product_depth [OF A(1) B(1)] by auto
  show ?thesis using result_holds2 [OF r(2)] r(1) assms(5,6) by simp
qed

text \<open>Copies of a ciphertext that is not offloaded.\<close>

lemma copy_resident: "ct_state b = None \<Longrightarrow> ct_state ct = None \<Longrightarrow> copy_ct cc b ct = Inr b"
  by (cases b) (simp add: copy_ct_def copyMetadata_def ensure_ct_def getLevel_def)

lemma holds_state: "holds cc key s d v ct \<Longrightarrow> ct_state ct = None"
  using operand_state by (auto simp: holds_def)

lemma fresh_state [simp]: "ct_state fresh_ciphertext = None"
  by (simp add: fresh_ciphertext_def)

lemma holds_mult3:
  assumes F: "flex cc" and k: "has_eval_key cc key" and a: "holds cc key s d u a" and b: "holds cc key s e v b"
    and "1 \<le> d" "1 \<le> e" and ct: "ct_state ct = None"
  shows "returns (ct_mult3 cc Neither a b resc ct) (holds2 cc key s (min d e - 1) (msg_mult u v))"
proof (cases "getLevel a \<le> getLevel b")
  case True
  then show ?thesis using holds_mult [OF F k a b assms(5,6), of resc] holds_state [OF a] ct
    by (simp add: ct_mult3_def copy_then_def copy_resident)
next
  case False
  have "msg_mult v u = msg_mult u v" by (simp add: msg_mult_def mult.commute)
  then show ?thesis using False holds_mult [OF F k b a assms(6,5), of resc] holds_state [OF b] ct
    by (simp add: ct_mult3_def copy_then_def copy_resident min.commute)
qed

lemma holds_square:
  assumes F: "flex cc" and k: "has_eval_key cc key" and a: "holds cc key s d u a" and "1 \<le> d"
  shows "returns (ct_square cc resc a) (holds2 cc key s (d - 1) (msg_mult u u))"
proof -
  note A = holdsD [OF a]
  obtain r where r: "ct_square cc resc a = Some (Inr r)" "result cc 2 d key s (msg_mult u u) r"
    using ct_square_flexible [OF flexD [OF F] A(1)] A(2-5) k by (auto simp: depth_def)
  show ?thesis using result_holds2 [OF r(2)] r(1) assms(4) by simp
qed

lemma holds_square_from:
  assumes F: "flex cc" and k: "has_eval_key cc key" and a: "holds cc key s d u a" and "1 \<le> d" and "ct_state ct = None"
  shows "returns (ct_square_from cc a resc ct) (holds2 cc key s (d - 1) (msg_mult u u))"
  using holds_square [OF F k a assms(4), of resc] holds_state [OF a] assms(5)
  by (simp add: ct_square_from_def copy_then_def copy_resident)

lemma holds_rescaleInternal:
  assumes F: "flex cc" and a: "holds cc key s d u a" and n: "ct_noise a = 2"
  shows "\<exists>r. rescaleInternal cc a = Inr r \<and> holds cc key s d u r \<and> ct_noise r = 1 \<and> ct_level r = d"
proof -
  note A = holdsD [OF a]
  obtain r where "rescaleInternal cc a = Inr r" "adjusted cc 1 (ct_level a - 1) a r" "operand cc r"
    using rescale_adjusted [OF flexD(1,2) [OF F] A(1) n] by blast
  then show ?thesis using A n by (auto simp: holds_def depth_def adjusted_def)
qed

lemma rescale_flexible: "flex cc \<Longrightarrow> rescale cc ct = Inr ct"
  by (simp add: rescale_def flex_def)

text \<open>An adjustment to a given degree and level.\<close>

lemma holds_adjust:
  assumes F: "flex cc" and a: "holds cc key s d u a" and t: "target_ok cc n l" and "l - (if n = 2 then 1 else 0) \<le> d"
    and "l = ct_level a \<longrightarrow> ct_noise a \<le> n" "l \<le> ct_level a"
  shows "\<exists>r. adjustScaleAndLevel cc n l (scale_of cc n l) a = Inr (True, r)
    \<and> holds cc key s (l - (if n = 2 then 1 else 0)) u r \<and> ct_noise r = n \<and> ct_level r = l"
proof -
  note A = holdsD [OF a]
  have c: "ct_ok cc a" using A(1) by (simp add: operand_def)
  have adj: "adjustable a n l" using assms(5,6) by (auto simp: adjustable_def)
  obtain r where r: "adjustScaleAndLevel cc n l (scale_of cc n l) a = Inr (True, r)" "adjusted cc n l a r"
    using adjust_flexible [OF flexD [OF F] c t] adj by auto
  show ?thesis using r(1) adjusted_operand [OF r(2) A(1) t] adjusted_keeps [OF r(2)] A(2,3,5)
    by (auto simp: holds_def depth_def)
qed

section \<open>Constants\<close>

lemma add_factor_scale:
  assumes F: "flex cc" and c: "ct_ok cc ct"
  shows "add_factor cc (ct_level ct) (ct_noise ct) = Inr (ct_factor ct)" and "0 < ct_factor ct"
proof -
  have l: "0 \<le> ct_level ct" "ct_level ct \<le> cc_L cc" and f: "ct_factor ct = scale_of cc (ct_noise ct) (ct_level ct)"
    and n: "ct_noise ct = 1 \<or> ct_noise ct = 2" using c by (auto simp: ct_ok_def)
  have t: "cc_technique cc \<noteq> FLEXIBLEAUTOEXT" using F by (simp add: flex_def)
  note tl = tables_length [OF flexD(1) [OF F] l] and af = add_factor_flexible [OF flexD(1,3) [OF F] l]
  show "0 < ct_factor ct" unfolding f using scale_of_pos [OF flexD(1) [OF F] l] n by auto
  have "add_factor cc (ct_level ct) 1 = Inr (sf cc (ct_level ct))"
    using tl t by (simp add: add_factor_def)
  with af n f show "add_factor cc (ct_level ct) (ct_noise ct) = Inr (ct_factor ct)" by (auto simp: scale_of_def)
qed

lemma holds_message:
  assumes a: "holds cc key s d u a" and v: "\<And>j. m j / of_real (ct_factor a) = v j"
  shows "holds cc key s d v (a\<lparr>ct_msg := m\<rparr>)"
  using a v by (auto simp: holds_def operand_def ct_ok_def depth_def decode_def)

lemma holds_addScalar:
  assumes F: "flex cc" and a: "holds cc key s d u a"
  shows "\<exists>r. addScalar cc c a = Inr r \<and> holds cc key s d (\<lambda>j. u j + of_real c) r"
proof -
  have c: "ct_ok cc a" and u: "u = decode a" using holdsD(1,5) [OF a] by (simp_all add: operand_def)
  note f = add_factor_scale [OF F c]
  let ?m = "\<lambda>j. ct_msg a j + of_real (if c < 0 then - (\<bar>c\<bar> * ct_factor a) else \<bar>c\<bar> * ct_factor a)"
  have "?m j / of_real (ct_factor a) = u j + of_real c" for j
    using f(2) by (simp add: u decode_def add_divide_distrib)
  then have "holds cc key s d (\<lambda>j. u j + of_real c) (a\<lparr>ct_msg := ?m\<rparr>)" by (rule holds_message [OF a])
  moreover have "addScalar cc c a = Inr (if c \<noteq> 0 then a\<lparr>ct_msg := ?m\<rparr> else a)"
    using holds_state [OF a] f(1) by (simp add: addScalar_def ensure_ct_def Let_def)
  ultimately show ?thesis using a by (cases "c = 0") simp_all
qed

lemma holds_addScalarC:
  assumes F: "flex cc" and a: "holds cc key s d u a"
  shows "\<exists>r. addScalarC cc c a = Inr r \<and> holds cc key s d (\<lambda>j. u j + c) r"
proof -
  have c: "ct_ok cc a" and u: "u = decode a" using holdsD(1,5) [OF a] by (simp_all add: operand_def)
  note f = add_factor_scale [OF F c]
  let ?m = "\<lambda>j. ct_msg a j + Complex (if Re c > 0 then \<bar>Re c\<bar> * ct_factor a else - (\<bar>Re c\<bar> * ct_factor a))
      (if Im c > 0 then \<bar>Im c\<bar> * ct_factor a else - (\<bar>Im c\<bar> * ct_factor a))"
  have "Complex (if Re c > 0 then \<bar>Re c\<bar> * ct_factor a else - (\<bar>Re c\<bar> * ct_factor a))
      (if Im c > 0 then \<bar>Im c\<bar> * ct_factor a else - (\<bar>Im c\<bar> * ct_factor a)) = c * of_real (ct_factor a)"
    by (simp add: complex_eq_iff)
  then have "?m j / of_real (ct_factor a) = u j + c" for j
    using f(2) by (simp add: u decode_def add_divide_distrib)
  then have "holds cc key s d (\<lambda>j. u j + c) (a\<lparr>ct_msg := ?m\<rparr>)" by (rule holds_message [OF a])
  moreover have "addScalarC cc c a = Inr (if c = 0 then a else a\<lparr>ct_msg := ?m\<rparr>)"
    using holds_state [OF a] f(1) getLevel_resident [OF holds_state [OF a]]
    by (simp add: addScalarC_def ensure_ct_def Let_def complex_eq_iff)
  ultimately show ?thesis using a by (cases "c = 0") simp_all
qed

text \<open>A ciphertext at degree 1, as the products with constants bring it.\<close>

lemma holds_scaled:
  assumes F: "flex cc" and a: "holds cc key s d u a" and n: "ct_noise a = 1" and "1 \<le> d"
    and m: "\<And>j. m j = c * of_real (sf cc (ct_level a)) * ct_msg a j"
  shows "holds cc key s (d - 1) (\<lambda>j. c * u j) (a\<lparr>ct_msg := m, ct_noise := 2, ct_factor := ct_factor a * sf cc (ct_level a)\<rparr>)"
proof -
  have c: "operand cc a" "ct_ok cc a" and u: "u = decode a" and d: "ct_level a = d"
    using holdsD(1,4,5) [OF a] n by (simp_all add: operand_def depth_def)
  then have l: "0 \<le> ct_level a" "ct_level a \<le> cc_L cc" "ct_factor a = sf cc (ct_level a)"
    using n by (auto simp: ct_ok_def scale_of_def)
  note p = tables_pos [OF flexD(1) [OF F] l(1,2)]
  have "ct_factor a * sf cc (ct_level a) = scale_of cc 2 (ct_level a)"
    using product_scale [OF flexD(1) [OF F] l(1,2)] l(3) by (simp add: scale_of_def)
  moreover have "m j / of_real (ct_factor a * sf cc (ct_level a)) = c * u j" for j
    using p l(3) by (simp add: m u decode_def)
  ultimately show ?thesis
    using a assms(4) c l d by (simp add: holds_def operand_def ct_ok_def depth_def decode_def)
qed

lemma holds_degree1:
  assumes F: "flex cc" and a: "holds cc key s d u a"
  shows "\<exists>r. (if ct_noise a = 2 then rescaleInternal cc a else Inr a) = Inr r \<and> holds cc key s d u r \<and> ct_noise r = 1 \<and> ct_level r = d"
proof (cases "ct_noise a = 2")
  case True
  then show ?thesis using holds_rescaleInternal [OF F a True] by simp
next
  case False
  then show ?thesis using operand_noise [OF holdsD(1) [OF a]] holdsD(4) [OF a] a by (auto simp: depth_def)
qed

lemma holds_multScalar:
  assumes F: "flex cc" and a: "holds cc key s d u a" and "1 \<le> d"
  shows "\<exists>r. multScalar cc c False a = Inr r \<and> holds cc key s (d - 1) (\<lambda>j. of_real c * u j) r"
proof -
  obtain b where b: "(if ct_noise a = 2 then rescaleInternal cc a else Inr a) = Inr b" "holds cc key s d u b" "ct_noise b = 1" "ct_level b = d"
    using holds_degree1 [OF F a] by blast
  have up: "\<not> ct_up0 a" "\<not> ct_up1 a" using holdsD(1) [OF a] by (auto simp: operand_def)
  have st: "ct_state a = None" "ct_state b = None" using holds_state [OF a] holds_state [OF b(2)] by simp_all
  have "ct_ok cc b" using holdsD(1) [OF b(2)] by (simp add: operand_def)
  then have l: "0 \<le> ct_level b" "ct_level b \<le> cc_L cc" by (auto simp: ct_ok_def)
  have "multScalar cc c False a = multScalarNoPrecheck cc c False b"
    using st up b(1,3) flexible_auto [OF flexD(3) [OF F]] by (simp add: multScalar_def ensure_ct_def pre_reduce_def)
  also have "\<dots> = Inr (b\<lparr>ct_msg := msg_scale (c * sf cc (ct_level b)) (ct_msg b), ct_noise := 2,
      ct_factor := ct_factor b * sf cc (ct_level b)\<rparr>)"
    using multScalarNoPrecheck_step [OF flexD(1) [OF F] st(2) l, of c] b(3) by simp
  finally show ?thesis
    using holds_scaled [OF F b(2,3) assms(3), of "msg_scale (c * sf cc (ct_level b)) (ct_msg b)" "of_real c"]
    by (simp add: msg_scale_def)
qed

lemma holds_multScalarC:
  assumes F: "flex cc" and a: "holds cc key s d u a" and "1 \<le> d"
  shows "\<exists>r. multScalarC cc c False a = Inr r \<and> holds cc key s (d - 1) (\<lambda>j. c * u j) r"
proof -
  obtain b where b: "(if ct_noise a = 2 then rescaleInternal cc a else Inr a) = Inr b" "holds cc key s d u b" "ct_noise b = 1" "ct_level b = d"
    using holds_degree1 [OF F a] by blast
  have t: "cc_technique cc \<noteq> FIXEDMANUAL" using F by (simp add: flex_def)
  have "ct_ok cc b" using holdsD(1) [OF b(2)] by (simp add: operand_def)
  then have l: "0 \<le> ct_level b" "ct_level b \<le> cc_L cc" by (auto simp: ct_ok_def)
  note tl = tables_length [OF flexD(1) [OF F] l] and st = holds_state [OF a] holds_state [OF b(2)]
  let ?f = "sf cc (ct_level b)"
  have "multScalarC cc c False a = Inr (b\<lparr>ct_msg := msg_cscale (Complex (Re c * ?f) (Im c * ?f)) (ct_msg b), ct_noise := 2,
      ct_factor := ct_factor b * ?f\<rparr>)"
    using st b(1,3) t tl getLevel_resident [OF st(2)] by (simp add: multScalarC_def ensure_ct_def Let_def)
  moreover have "Complex (Re c * ?f) (Im c * ?f) = c * of_real ?f" by (simp add: complex_eq_iff)
  ultimately show ?thesis
    using holds_scaled [OF F b(2,3) assms(3), of "msg_cscale (Complex (Re c * ?f) (Im c * ?f)) (ct_msg b)" c]
    by (simp add: msg_cscale_def)
qed

end
