(* ===== verification/PolyEval.thy ===== *)
theory PolyEval
  imports CkksDepth
begin

unbundle bit_operations_syntax

text \<open>
  The evaluation of polynomials given by their coefficients in the power basis
  (\<open>src/src/CKKS/ApproxModEval.cu\<close>): the powers of a ciphertext that a polynomial needs, and the
  linear and Paterson-Stockmeyer evaluators on them. The code is templated on the type of the
  coefficients; the operations it selects by overloading are a record. OpenFHE's helpers on
  coefficient vectors, which are not part of the sources, are parameters.
\<close>

section \<open>Coefficients\<close>

text \<open>The overloads for one type of coefficients: \<open>multScalar\<close> and \<open>addScalar\<close> of \<open>Ciphertext\<close>, and
  OpenFHE's comparisons with zero and one.\<close>

record 'c Scalars =
  sc_mult :: "CkksContext \<Rightarrow> 'c \<Rightarrow> Ciphertext \<Rightarrow> cpp_error + Ciphertext"
  sc_add :: "CkksContext \<Rightarrow> 'c \<Rightarrow> Ciphertext \<Rightarrow> cpp_error + Ciphertext"
  sc_nz :: "'c \<Rightarrow> bool"
  sc_n1 :: "'c \<Rightarrow> bool"

definition double_scalars :: "(real \<Rightarrow> bool) \<Rightarrow> (real \<Rightarrow> bool) \<Rightarrow> real Scalars" where
  "double_scalars nz n1 = \<lparr>sc_mult = (\<lambda>cc c. multScalar cc c False), sc_add = addScalar, sc_nz = nz, sc_n1 = n1\<rparr>"

definition complex_scalars :: "(complex \<Rightarrow> bool) \<Rightarrow> (complex \<Rightarrow> bool) \<Rightarrow> complex Scalars" where
  "complex_scalars nz n1 = \<lparr>sc_mult = (\<lambda>cc c. multScalarC cc c False), sc_add = addScalarC, sc_nz = nz, sc_n1 = n1\<rparr>"

definition scaled_from :: "'c Scalars \<Rightarrow> CkksContext \<Rightarrow> Ciphertext \<Rightarrow> 'c \<Rightarrow> Ciphertext \<Rightarrow> cpp_error + Ciphertext" where
  "scaled_from S cc b c = copyE cc b (sc_mult S cc c)"

text \<open>OpenFHE's \<open>Degree\<close>, \<open>LongDivisionPoly\<close>, \<open>LongDivisionChebyshev\<close> and \<open>ComputeDegreesPS\<close>.\<close>

record 'c PolyLib =
  pl_Degree :: "'c list \<Rightarrow> cpp_error + nat"
  pl_LongDivisionPoly :: "'c list \<Rightarrow> 'c list \<Rightarrow> cpp_error + 'c list \<times> 'c list"
  pl_LongDivisionChebyshev :: "'c list \<Rightarrow> 'c list \<Rightarrow> cpp_error + 'c list \<times> 'c list"
  pl_ComputeDegreesPS :: "nat \<Rightarrow> cpp_error + nat \<times> nat"

definition resize :: "nat \<Rightarrow> 'c::zero list \<Rightarrow> 'c list" where
  "resize n xs = take n xs @ replicate (n - length xs) 0"

section \<open>Powers\<close>

record SeriesPowers =
  sp_powers :: "Ciphertext list"
  sp_powers2 :: "Ciphertext list"
  sp_powers2_norescale :: "Ciphertext list"
  sp_power2km1 :: Ciphertext
  sp_k :: nat
  sp_m :: nat

fun msbOf :: "nat \<Rightarrow> nat" where
  "msbOf v = (if v = 0 then 0 else Suc (msbOf (v div 2)))"

declare msbOf.simps [simp del]

definition pow2_or_0 :: "nat \<Rightarrow> bool" where
  "pow2_or_0 i \<longleftrightarrow> i AND (i - 1) = 0"

definition low_bits :: "nat \<Rightarrow> nat" where
  "low_bits i = i AND (2 ^ (msbOf i - 1) - 1)"

lemma msbOf_bounds: "0 < v \<Longrightarrow> 2 ^ (msbOf v - 1) \<le> v \<and> v < 2 ^ msbOf v \<and> 0 < msbOf v"
proof (induction v rule: msbOf.induct)
  case (1 v)
  show ?case
  proof (cases "v div 2 = 0")
    case True
    then have "v = 1" using 1(2) by simp
    then show ?thesis by (simp add: msbOf.simps)
  next
    case False
    then have IH: "2 ^ (msbOf (v div 2) - 1) \<le> v div 2" "v div 2 < 2 ^ msbOf (v div 2)" "0 < msbOf (v div 2)"
      using 1 by simp_all
    then obtain e where e: "msbOf (v div 2) = Suc e" using gr0_conv_Suc by blast
    have "msbOf v = Suc (Suc e)" using e 1(2) by (simp add: msbOf.simps [of v])
    moreover have "2 * 2 ^ e \<le> v" "v < 4 * 2 ^ e" using IH(1,2) e by simp_all
    ultimately show ?thesis by simp
  qed
qed

lemma low_bits_mod: "low_bits i = i mod 2 ^ (msbOf i - 1)"
  unfolding low_bits_def mask_eq_exp_minus_1 [symmetric] take_bit_eq_mask [symmetric] take_bit_eq_mod by (rule refl)

lemma low_bits_less: "0 < i \<Longrightarrow> low_bits i < i"
proof -
  assume "0 < i"
  then have "2 ^ (msbOf i - 1) \<le> i" using msbOf_bounds by blast
  moreover have "low_bits i < 2 ^ (msbOf i - 1)" by (simp add: low_bits_mod)
  ultimately show ?thesis by simp
qed

text \<open>The powers a coefficient needs: its exponent and what is left of it without its leading bits.\<close>

function mark_chain :: "nat \<Rightarrow> bool list \<Rightarrow> bool list" where
  "mark_chain rem indices = (if pow2_or_0 rem then indices else mark_chain (low_bits rem) (indices[rem - 1 := True]))"
  by pat_completeness auto
termination
proof (relation "measure fst")
  fix rem :: nat and indices :: "bool list"
  assume "\<not> pow2_or_0 rem"
  then have "0 < rem" by (cases rem) (simp_all add: pow2_or_0_def)
  then show "((low_bits rem, indices[rem - 1 := True]), rem, indices) \<in> measure fst" by (simp add: low_bits_less)
qed simp

declare mark_chain.simps [simp del]

definition mark_index :: "'c Scalars \<Rightarrow> 'c list \<Rightarrow> bool list \<Rightarrow> nat \<Rightarrow> bool list" where
  "mark_index S coefficients indices i =
     (if pow2_or_0 i then indices[i - 1 := True]
      else if sc_nz S (coefficients ! i) then mark_chain i indices else indices)"

definition needed_powers :: "'c Scalars \<Rightarrow> 'c list \<Rightarrow> bool list" where
  "needed_powers S coefficients =
     (let k = length coefficients - 1 in foldl (mark_index S coefficients) (replicate k False) (rev [1..<Suc k]))"

text \<open>The rescale after a product: ungated in the fused mode.\<close>

definition power_rescale :: "CkksContext \<Rightarrow> bool \<Rightarrow> Ciphertext \<Rightarrow> cpp_error + Ciphertext" where
  "power_rescale cc fused ct = (if fused then rescaleInternal cc ct else rescale cc ct)"

definition put_power :: "nat \<Rightarrow> Ciphertext list \<Rightarrow> (cpp_error + Ciphertext) option \<Rightarrow> (cpp_error + Ciphertext list) option" where
  "put_power i powers r = thenO r (\<lambda>c. Some (Inr (powers[i := c])))"

text \<open>The level reduction of one power to another's level, which only FIXEDMANUAL does.\<close>

definition level_power :: "CkksContext \<Rightarrow> nat \<Rightarrow> nat \<Rightarrow> Ciphertext list \<Rightarrow> cpp_error + Ciphertext list" where
  "level_power cc r p powers =
     (if cc_technique cc = FIXEDMANUAL
      then bindE (dropToLevel cc (getLevel (powers ! p)) False (powers ! r)) (\<lambda>c. Inr (powers[r := c]))
      else Inr powers)"

definition linear_power :: "CkksContext \<Rightarrow> bool \<Rightarrow> bool list \<Rightarrow> Ciphertext list \<Rightarrow> nat \<Rightarrow> (cpp_error + Ciphertext list) option" where
  "linear_power cc fused indices powers i =
     (if pow2_or_0 i
      then put_power (i - 1) powers (thenO (ct_square_from cc (powers ! (i div 2 - 1)) False (powers ! (i - 1)))
             (\<lambda>c. Some (power_rescale cc fused c)))
      else if indices ! (i - 1)
      then let p = 2 ^ (msbOf i - 1) - 1; r = low_bits i - 1
           in thenO (Some (level_power cc r p powers)) (\<lambda>powers.
              put_power (i - 1) powers (thenO (ct_mult3 cc Neither (powers ! p) (powers ! r) False (powers ! (i - 1)))
                (\<lambda>c. Some (power_rescale cc fused c))))
      else Some (Inr powers))"

definition evalPowersLinear :: "'c Scalars \<Rightarrow> CkksContext \<Rightarrow> 'c list \<Rightarrow> bool \<Rightarrow> Ciphertext \<Rightarrow> (cpp_error + SeriesPowers) option" where
  "evalPowersLinear S cc coefficients fused x =
     (let k = length coefficients - 1; indices = needed_powers S coefficients;
          powers = replicate k fresh_ciphertext
      in if k = 0 then Some (Inl Undefined_behaviour)
         else thenO (put_power 0 powers (Some (copy_ct cc x (powers ! 0)))) (\<lambda>powers.
              thenO (foldO (linear_power cc fused indices) powers [2..<Suc k]) (\<lambda>powers.
              thenO (if fused then Some (Inr powers)
                     else Some (foldE (\<lambda>powers i. if indices ! (i - 1) then level_power cc (i - 1) (k - 1) powers else Inr powers) powers [1..<k]))
                (\<lambda>powers. Some (Inr \<lparr>sp_powers = powers, sp_powers2 = [], sp_powers2_norescale = [],
                   sp_power2km1 = fresh_ciphertext, sp_k = 0, sp_m = 0\<rparr>)))))"

text \<open>The full power set. The code means to square the even powers in the fused mode, but
  \<open>i & 1 == 0\<close> is \<open>i & (1 == 0)\<close>, which is never true.\<close>

definition full_power :: "CkksContext \<Rightarrow> bool \<Rightarrow> Ciphertext list \<times> nat \<times> nat \<Rightarrow> nat \<Rightarrow> (cpp_error + Ciphertext list \<times> nat \<times> nat) option" where
  "full_power cc fused st i =
     (case st of (powers, powerOf2, rem) \<Rightarrow>
        thenO (if rem = 0
               then put_power (i - 1) powers (ct_square_from cc (powers ! (powerOf2 div 2 - 1)) False (powers ! (i - 1)))
               else thenO (Some (level_power cc (rem - 1) (powerOf2 - 1) powers)) (\<lambda>powers.
                    put_power (i - 1) powers
                      (if \<not> fused then ct_mult3 cc Neither (powers ! (powerOf2 - 1)) (powers ! (rem - 1)) False (powers ! (i - 1))
                       else ct_mult3 cc Neither (powers ! (i div 2 - 1)) (powers ! (i div 2 - 1 + i mod 2)) False (powers ! (i - 1)))))
          (\<lambda>powers. thenO (put_power (i - 1) powers (Some (power_rescale cc fused (powers ! (i - 1))))) (\<lambda>powers.
             Some (Inr (if Suc rem = powerOf2 then (powers, 2 * powerOf2, 0) else (powers, powerOf2, Suc rem))))))"

definition align_power :: "CkksContext \<Rightarrow> nat \<Rightarrow> Ciphertext list \<Rightarrow> nat \<Rightarrow> cpp_error + Ciphertext list" where
  "align_power cc k powers i =
     (if cc_technique cc = FIXEDMANUAL
      then bindE (dropToLevel cc (getLevel (powers ! (k - 1))) False (powers ! (i - 1))) (\<lambda>c. Inr (powers[i - 1 := c]))
      else let c2 = powers ! (k - 1)
           in bindE (adjustScaleAndLevel cc (ct_noise c2) (getLevel c2) (ct_factor c2) (powers ! (i - 1))) (\<lambda>(ok, c).
                Inr (powers[i - 1 := c])))"

text \<open>The powers \<open>x^(k 2^i)\<close> and the running product \<open>x^(k (2^m - 1))\<close>.\<close>

definition giant_power :: "CkksContext \<Rightarrow> bool \<Rightarrow> Ciphertext list \<Rightarrow> Ciphertext list \<times> Ciphertext list \<times> Ciphertext \<Rightarrow> nat
    \<Rightarrow> (cpp_error + Ciphertext list \<times> Ciphertext list \<times> Ciphertext) option" where
  "giant_power cc fused powers st i =
     (case st of (powers2, norescale, power2km1) \<Rightarrow>
        thenO (ct_square_from cc (if i = 1 then last powers else powers2 ! (i - 1)) False (powers2 ! i)) (\<lambda>c.
        thenO (if fused
               then thenO (Some (copy_ct cc c (norescale ! i))) (\<lambda>nr.
                    thenO (Some (if ct_noise c = 2 then rescaleInternal cc c else Inr c)) (\<lambda>c. Some (Inr (nr, c))))
               else thenO (Some (rescale cc c)) (\<lambda>c. Some (Inr (norescale ! i, c)))) (\<lambda>(nr, c).
        thenO (ct_mult cc c False True power2km1) (\<lambda>p.
        thenO (Some (rescale cc p)) (\<lambda>p.
        Some (Inr (powers2[i := c], norescale[i := nr], p)))))))"

definition evalPowersPS :: "'c PolyLib \<Rightarrow> CkksContext \<Rightarrow> nat \<Rightarrow> bool \<Rightarrow> Ciphertext \<Rightarrow> (cpp_error + SeriesPowers) option" where
  "evalPowersPS L cc degree fused x =
     thenO (Some (pl_ComputeDegreesPS L degree)) (\<lambda>(k, m).
       if k = 0 then Some (Inl Undefined_behaviour) else
       let powers = replicate k fresh_ciphertext in
       thenO (put_power 0 powers (Some (copy_ct cc x (powers ! 0)))) (\<lambda>powers.
       thenO (foldO (full_power cc fused) (powers, 2, 0) [2..<Suc k]) (\<lambda>(powers, powerOf2, rem).
       thenO (Some (if fused then Inr powers else foldE (align_power cc k) powers [1..<k])) (\<lambda>powers.
       thenO (Some (copy_ct cc (powers ! (k - 1)) fresh_ciphertext)) (\<lambda>p.
       thenO (foldO (giant_power cc fused powers) (replicate m fresh_ciphertext, replicate m fresh_ciphertext, p) [1..<m])
         (\<lambda>(powers2, norescale, p).
       Some (Inr \<lparr>sp_powers = powers, sp_powers2 = powers2, sp_powers2_norescale = norescale,
         sp_power2km1 = p, sp_k = k, sp_m = m\<rparr>)))))))"

definition evalPowers :: "'c Scalars \<Rightarrow> 'c PolyLib \<Rightarrow> CkksContext \<Rightarrow> 'c list \<Rightarrow> bool \<Rightarrow> Ciphertext \<Rightarrow> (cpp_error + SeriesPowers) option" where
  "evalPowers S L cc coefficients fused x =
     thenO (Some (pl_Degree L coefficients)) (\<lambda>d.
       if d < 5 then evalPowersLinear S cc coefficients fused x else evalPowersPS L cc d fused x)"

section \<open>Weighted sums of aligned powers\<close>

text \<open>The scan for the operand with the largest level.\<close>

fun max_level_index :: "Ciphertext list \<Rightarrow> nat \<Rightarrow> nat list \<Rightarrow> nat" where
  "max_level_index ctxs best [] = best"
| "max_level_index ctxs best (i # is) =
     max_level_index ctxs (if getLevel (ctxs ! i) > getLevel (ctxs ! best)
         \<or> getLevel (ctxs ! i) = getLevel (ctxs ! best) \<and> ct_noise (ctxs ! i) = 2 then i else best) is"

definition streamed_term :: "'c Scalars \<Rightarrow> CkksContext \<Rightarrow> Ciphertext \<Rightarrow> 'c \<Rightarrow> Ciphertext \<Rightarrow> cpp_error + Ciphertext" where
  "streamed_term S cc ctm w c =
     bindE (copy_ct cc c fresh_ciphertext) (\<lambda>term.
     bindE (if getLevel term > getLevel ctm
            then bindE (adjustScaleAndLevel cc (ct_noise ctm) (getLevel ctm) (ct_factor ctm) term) (\<lambda>(ok, term). Inr term)
            else bindE (guardE Assert_failed (\<not> getLevel term < getLevel ctm)) (\<lambda>_. Inr term)) (\<lambda>term.
     bindE (if ct_noise ctm = 2 then rescaleInternal cc term else Inr term) (\<lambda>term.
       sc_mult S cc w term)))"

definition evalPartialLinearWSum :: "'c Scalars \<Rightarrow> CkksContext \<Rightarrow> Ciphertext list \<Rightarrow> 'c list \<Rightarrow> nat \<Rightarrow> Ciphertext
    \<Rightarrow> (cpp_error + Ciphertext) option" where
  "evalPartialLinearWSum S cc ctxs weights limit out =
     (if ctxs = [] \<or> length ctxs < limit \<or> length weights \<le> limit \<or> (cc_technique cc = FIXEDMANUAL \<and> length weights < 2) then Some (Inl Undefined_behaviour)
      else if cc_technique cc = FIXEDMANUAL
      then thenO (Some (scaled_from S cc (hd ctxs) (weights ! 1) out)) (\<lambda>out.
           thenO (foldO (\<lambda>out i. thenO (Some (copy_ct cc (ctxs ! i) fresh_ciphertext)) (\<lambda>term.
                    thenO (Some (sc_mult S cc (weights ! (i + 1)) term)) (\<lambda>term. ct_add cc term out))) out [1..<limit]) (\<lambda>out.
             Some (rescale cc out)))
      else let ctm = ctxs ! max_level_index ctxs 0 [1..<limit]
           in foldO (\<lambda>out i. thenO (Some (streamed_term S cc ctm (weights ! (i + 1)) (ctxs ! i))) (\<lambda>term.
                if i = 0 then Some (copy_ct cc term out) else ct_add cc term out)) out [0..<limit])"

section \<open>The evaluators\<close>

text \<open>The remainder minus \<open>x^n\<close>.\<close>

definition minus_power :: "nat \<Rightarrow> nat \<Rightarrow> 'c::comm_ring_1 list \<Rightarrow> 'c list" where
  "minus_power n deg r =
     (if n \<le> deg then let r = resize (deg + 1) r in r[n := r ! n - 1] else (resize (n + 1) r)[n := -1])"

definition unit_power :: "nat \<Rightarrow> 'c::comm_ring_1 list" where
  "unit_power n = replicate n 0 @ [1]"

definition with_top :: "nat \<Rightarrow> 'c::comm_ring_1 list \<Rightarrow> 'c list" where
  "with_top n s = (resize (n + 1) s)[n := 1]"

text \<open>The two divisions at the head of a call: the quotients, and the remainder with \<open>x^(k (2^(m-1) - 1))\<close>
  added.\<close>

definition poly_split :: "'c::comm_ring_1 PolyLib \<Rightarrow> nat \<Rightarrow> nat \<Rightarrow> 'c list \<Rightarrow> cpp_error + 'c list \<times> 'c list \<times> 'c list" where
  "poly_split L k m coefficients =
     (let k2m2k = k * 2 ^ (m - 1) - k
      in bindE (pl_LongDivisionPoly L coefficients (unit_power (k2m2k + k))) (\<lambda>(q, r).
         bindE (pl_Degree L r) (\<lambda>n.
         bindE (pl_LongDivisionPoly L (minus_power k2m2k n r) q) (\<lambda>(c, s).
           Inr (q, c, with_top k2m2k s)))))"

text \<open>A part of degree \<open>k\<close> with leading coefficient one.\<close>

definition baby_part :: "'c::comm_ring_1 Scalars \<Rightarrow> 'c PolyLib \<Rightarrow> CkksContext \<Rightarrow> nat \<Rightarrow> Ciphertext list \<Rightarrow> 'c list
    \<Rightarrow> (cpp_error + Ciphertext) option" where
  "baby_part S L cc k powers q =
     (if q = [] then Some (Inl Undefined_behaviour) else
      thenO (Some (copy_ct cc (powers ! (k - 1)) fresh_ciphertext)) (\<lambda>qu.
      thenO (Some (sc_add S cc (hd q) qu)) (\<lambda>qu.
      let q = resize k q in
      thenO (Some (pl_Degree L q)) (\<lambda>n.
        if n > 0 then thenO (evalPartialLinearWSum S cc powers q n fresh_ciphertext) (\<lambda>tmp. ct_add cc tmp qu)
        else Some (Inr qu)))))"

definition giant_part :: "'c::comm_ring_1 Scalars \<Rightarrow> 'c PolyLib \<Rightarrow> CkksContext \<Rightarrow> Ciphertext list \<Rightarrow> Ciphertext \<Rightarrow> 'c list
    \<Rightarrow> (cpp_error + Ciphertext) option" where
  "giant_part S L cc powers giant c =
     thenO (Some (pl_Degree L c)) (\<lambda>n.
     if n = 0 then thenO (Some (copy_ct cc giant fresh_ciphertext)) (\<lambda>cu. Some (sc_add S cc (hd c) cu))
     else if n = 1
     then thenO (if sc_n1 S (c ! 1)
                 then thenO (Some (scaled_from S cc (hd powers) (c ! 1) fresh_ciphertext)) (\<lambda>cu.
                      thenO (Some (rescale cc cu)) (\<lambda>cu. ct_add cc giant cu))
                 else thenO (Some (copy_ct cc giant fresh_ciphertext)) (\<lambda>cu. ct_add cc (hd powers) cu))
            (\<lambda>cu. Some (sc_add S cc (hd c) cu))
     else thenO (evalPartialLinearWSum S cc powers c n fresh_ciphertext) (\<lambda>tmp.
          thenO (Some (copy_ct cc giant fresh_ciphertext)) (\<lambda>cu.
          thenO (ct_add cc tmp cu) (\<lambda>cu. Some (sc_add S cc (hd c) cu)))))"

fun innerEvalPolyPS :: "'c::comm_ring_1 Scalars \<Rightarrow> 'c PolyLib \<Rightarrow> CkksContext \<Rightarrow> nat \<Rightarrow> nat \<Rightarrow> Ciphertext list \<Rightarrow> Ciphertext list
    \<Rightarrow> 'c list \<Rightarrow> Ciphertext \<Rightarrow> (cpp_error + Ciphertext) option" where
  "innerEvalPolyPS S L cc k 0 powers powers2 coefficients out = Some (Inl Undefined_behaviour)"
| "innerEvalPolyPS S L cc k (Suc m) powers powers2 coefficients out =
     thenO (Some (poly_split L k (Suc m) coefficients)) (\<lambda>(q, c, s2).
     thenO (Some (pl_Degree L q)) (\<lambda>n.
     thenO (if n > k then innerEvalPolyPS S L cc k m powers powers2 q fresh_ciphertext else baby_part S L cc k powers q) (\<lambda>qu.
     thenO (Some (pl_Degree L s2)) (\<lambda>n.
     thenO (if n > k then innerEvalPolyPS S L cc k m powers powers2 s2 fresh_ciphertext else baby_part S L cc k powers s2) (\<lambda>su.
     thenO (giant_part S L cc powers (powers2 ! m) c) (\<lambda>cu.
     thenO (ct_mult3 cc Neither cu qu False out) (\<lambda>out.
     thenO (Some (rescale cc out)) (\<lambda>out.
       ct_add cc su out))))))))"

definition evalPolyPSWithPrecomp :: "'c::comm_ring_1 Scalars \<Rightarrow> 'c PolyLib \<Rightarrow> CkksContext \<Rightarrow> SeriesPowers \<Rightarrow> 'c list
    \<Rightarrow> (cpp_error + Ciphertext) option" where
  "evalPolyPSWithPrecomp S L cc sp coefficients =
     (let k = sp_k sp; m = sp_m sp; k2m2k = k * 2 ^ (m - 1) - k
      in thenO (Some (pl_Degree L coefficients)) (\<lambda>d.
         thenO (innerEvalPolyPS S L cc k m (sp_powers sp) (sp_powers2 sp) (with_top (2 * k2m2k + k) (resize (d + 1) coefficients)) fresh_ciphertext)
           (\<lambda>result. ct_sub cc (sp_power2km1 sp) result)))"

definition evalPolyLinearWithPrecomp :: "'c::comm_ring_1 Scalars \<Rightarrow> CkksContext \<Rightarrow> Ciphertext list \<Rightarrow> 'c list \<Rightarrow> (cpp_error + Ciphertext) option" where
  "evalPolyLinearWithPrecomp S cc powers coefficients =
     (let k = length coefficients - 1
      in if length coefficients < 2 then Some (Inl Invalid_argument)
         else if \<not> sc_nz S (coefficients ! k) then Some (Inl Invalid_argument)
         else if length powers < k then Some (Inl Undefined_behaviour)
         else thenO (Some (scaled_from S cc (powers ! (k - 1)) (coefficients ! k) fresh_ciphertext)) (\<lambda>result.
              thenO (foldO (\<lambda>result i.
                  if sc_nz S (coefficients ! i)
                  then thenO (Some (copy_ct cc (powers ! (i - 1)) fresh_ciphertext)) (\<lambda>tmp.
                       thenO (Some (sc_mult S cc (coefficients ! i) tmp)) (\<lambda>tmp. ct_add cc tmp result))
                  else Some (Inr result)) result [1..<k]) (\<lambda>result.
              thenO (Some (rescale cc result)) (\<lambda>result. Some (sc_add S cc (hd coefficients) result)))))"

end
