(* ===== verification/CkksBatch.thy ===== *)
theory CkksBatch
  imports CkksDepth
begin

text \<open>
  Several weighted sums at once: \<open>evalMultiplePartialLinearWSumWithBias\<close> returns one sum per vector of
  weights, in the order of the vectors, whatever the sorting and the batching into groups make of
  them. The trimming of the weights and the evaluation of one group are an interface that the
  overloads for real and for complex weights implement.
\<close>

section \<open>Sums over a basis\<close>

text \<open>The operands hold the basis messages from one on; the bias weighs the constant.\<close>

definition sum_value :: "complex list \<Rightarrow> (nat \<Rightarrow> msg) \<Rightarrow> msg" where
  "sum_value ws b = (\<lambda>j. \<Sum>i<length ws. ws ! i * b i j)"

definition basis_holds :: "CkksContext \<Rightarrow> string \<Rightarrow> int \<Rightarrow> int \<Rightarrow> (nat \<Rightarrow> msg) \<Rightarrow> Ciphertext list \<Rightarrow> bool" where
  "basis_holds cc key s T b ctxs \<longleftrightarrow> b 0 = (\<lambda>j. 1) \<and> ctxs \<noteq> []
     \<and> (\<forall>i < length ctxs. ct_noise (ctxs ! i) = 1 \<and> (\<exists>d \<ge> T. holds cc key s d (b (Suc i)) (ctxs ! i)))"

lemma basis_holdsD:
  assumes "basis_holds cc key s T b ctxs"
  shows "b 0 = (\<lambda>j. 1)" and "ctxs \<noteq> []" and "\<And>c. c \<in> set ctxs \<Longrightarrow> ct_noise c = 1 \<and> ct_keyID c = key \<and> ct_slots c = s \<and> ct_state c = None"
    and "\<And>c t. c \<in> set ctxs \<Longrightarrow> t \<le> T \<Longrightarrow> summand cc t c" and "i < length ctxs \<Longrightarrow> decode (ctxs ! i) = b (Suc i)"
proof -
  show "b 0 = (\<lambda>j. 1)" "ctxs \<noteq> []" using assms by (simp_all add: basis_holds_def)
  have h: "\<exists>i d. ct_noise c = 1 \<and> T \<le> d \<and> holds cc key s d (b (Suc i)) c" if "c \<in> set ctxs" for c
    using that assms unfolding basis_holds_def by (metis in_set_conv_nth)
  show "ct_noise c = 1 \<and> ct_keyID c = key \<and> ct_slots c = s \<and> ct_state c = None" if "c \<in> set ctxs" for c
    using h [OF that] operand_state by (auto simp: holds_def)
  show "summand cc t c" if "c \<in> set ctxs" "t \<le> T" for c t
    using h [OF that(1)] that(2) by (auto simp: summand_def holds_def depth_def)
  show "decode (ctxs ! i) = b (Suc i)" if "i < length ctxs" using that assms by (auto simp: basis_holds_def holds_def)
qed

lemma weighted_sum_value:
  assumes B: "basis_holds cc key s T b ctxs" and ws: "ws \<noteq> []" "length ws \<le> Suc n" "n \<le> length ctxs"
  shows "hd ws + weighted (zip (tl ws) (take n ctxs)) j = sum_value ws b j"
proof -
  note D = basis_holdsD [OF B]
  let ?m = "length ws - 1"
  have len: "length (zip (tl ws) (take n ctxs)) = ?m" "length ws = Suc ?m" using ws by auto
  have "weighted (zip (tl ws) (take n ctxs)) j = (\<Sum>i<?m. ws ! Suc i * b (Suc i) j)"
    unfolding weighted_def sum_list_sum_nth length_map len(1) atLeast0LessThan
    by (intro sum.cong) (use ws D(5) in \<open>auto simp: nth_tl\<close>)
  moreover have "sum_value ws b j = ws ! 0 * b 0 j + (\<Sum>i<?m. ws ! Suc i * b (Suc i) j)"
    unfolding sum_value_def by (subst len(2)) (rule sum.lessThan_Suc_shift)
  ultimately show ?thesis using ws(1) D(1) by (simp add: hd_conv_nth)
qed

text \<open>The message of one objective.\<close>

lemma objective_msg_ok:
  assumes F: "flex cc" and B: "basis_holds cc key s T b ctxs" and t: "1 \<le> t" "t \<le> T" "t \<le> cc_L cc"
    and ws: "ws \<noteq> []" "length ws \<le> Suc n" "n \<le> length ctxs" and nz: "nz = (\<lambda>w. w \<noteq> 0)"
    and bias: "bias t (hd ws) = Inr (hd ws * of_real (sfb cc t))"
    and obj: "obj_weights obj = ws" "obj_target_level obj = t"
  shows "objective_msg nz cc bias (take n ctxs) obj = Inr (\<lambda>j. of_real (sfb cc t) * sum_value ws b j)"
proof -
  let ?used = "nonzero_terms nz ws (take n ctxs)"
  have "\<forall>(w, c) \<in> set ?used. summand cc t c"
    using basis_holdsD(4) [OF B] t by (auto simp: nonzero_terms_def dest!: set_zip_rightD in_set_takeD)
  from wsum_flexible [OF flexD(1) [OF F] t(1,3) this]
  have "wsum cc t (\<lambda>_. hd ws * of_real (sfb cc t)) ?used
      = Inr (\<lambda>j. hd ws * of_real (sfb cc t) + of_real (sfb cc t) * weighted (zip (tl ws) (take n ctxs)) j)"
    by (simp add: weighted_nonzero nz)
  also have "(\<lambda>j. hd ws * of_real (sfb cc t) + of_real (sfb cc t) * weighted (zip (tl ws) (take n ctxs)) j)
      = (\<lambda>j. of_real (sfb cc t) * sum_value ws b j)"
    by (simp add: weighted_sum_value [OF B ws, symmetric] algebra_simps)
  finally show ?thesis using bias ws(1) obj by (cases "hd ws = 0") (simp_all add: objective_msg_def nz)
qed

text \<open>A vector of results, sized for their levels, and a finished result.\<close>

definition sized :: "int \<Rightarrow> Ciphertext \<Rightarrow> bool" where
  "sized t r \<longleftrightarrow> ct_state r = None \<and> ct_level r = t \<and> \<not> ct_up0 r \<and> \<not> ct_up1 r"

definition summed :: "CkksContext \<Rightarrow> string \<Rightarrow> int \<Rightarrow> (nat \<Rightarrow> msg) \<Rightarrow> complex list \<Rightarrow> int \<Rightarrow> Ciphertext \<Rightarrow> bool" where
  "summed cc key s b ws t r \<longleftrightarrow> holds2 cc key s (t - 1) (sum_value ws b) r \<and> ct_level r = t"

lemma summed_sized: "summed cc key s b ws t r \<Longrightarrow> sized t r"
  using holds_state [of cc key s "t - 1" "sum_value ws b" r]
  by (auto simp: summed_def sized_def holds2_def holds_def operand_def)

lemma max_slots_same: "(\<And>c. c \<in> set cs \<Longrightarrow> ct_slots c = s) \<Longrightarrow> max_slots s cs = s"
  by (induction cs) simp_all

lemma sum_metadata_ok:
  assumes F: "flex cc" and B: "basis_holds cc key s T b ctxs" and t: "1 \<le> t" "t \<le> cc_L cc" and used: "set used \<subseteq> set ctxs"
    and r: "sized t r"
  shows "\<exists>r'. sum_metadata cc ctxs used (r\<lparr>ct_msg := \<lambda>j. of_real (sfb cc t) * sum_value ws b j\<rparr>) = Inr r' \<and> summed cc key s b ws t r'"
proof -
  note D = basis_holdsD [OF B]
  have hd: "hd ctxs \<in> set ctxs" using D(2) by simp
  have t0: "0 \<le> t" using t by simp
  have keys: "\<forall>c \<in> set used. ct_keyID c = ct_keyID (hd ctxs)" using D(3) [OF hd] D(3) used by blast
  have slots: "max_slots (ct_slots (hd ctxs)) used = s" using D(3) [OF hd] D(3) used by (intro trans [OF max_slots_same]) auto
  let ?r = "r\<lparr>ct_msg := \<lambda>j. of_real (sfb cc t) * sum_value ws b j\<rparr>"
  obtain r' where r': "sum_metadata cc ctxs used ?r = Inr r'" "sum_result cc t (ct_keyID (hd ctxs)) (sum_value ws b) r'"
    using sum_metadata_flexible [OF flexD(1) [OF F] t0 t(2) D(2) keys, of r "sum_value ws b"] r by (auto simp: sized_def)
  have "ct_slots r' = s" using r'(1) slots by (auto simp: sum_metadata_def bindE_eq_Inr split: if_splits)
  then have "summed cc key s b ws t r'"
    using r'(2) D(3) [OF hd] t(1)
    by (auto simp: summed_def holds2_def holds_def operand_def sum_result_def ct_ok_def depth_def)
  then show ?thesis using r'(1) by blast
qed

section \<open>One group\<close>

text \<open>The objectives of a group: distinct results, levels that all operands have, trimmed weights.\<close>

definition objective_ok :: "(complex \<Rightarrow> bool) \<Rightarrow> CkksContext \<Rightarrow> int \<Rightarrow> Ciphertext list \<Rightarrow> Ciphertext list \<Rightarrow> Objective \<Rightarrow> bool" where
  "objective_ok scalar cc T ctxs results obj \<longleftrightarrow> 1 \<le> obj_target_level obj \<and> obj_target_level obj \<le> T \<and> obj_target_level obj \<le> cc_L cc
     \<and> obj_weights obj \<noteq> [] \<and> obj_n obj = int (length (obj_weights obj)) - 1 \<and> length (obj_weights obj) \<le> Suc (length ctxs)
     \<and> (\<forall>w \<in> set (obj_weights obj). scalar w) \<and> obj_ctxt obj < length results \<and> sized (obj_target_level obj) (results ! obj_ctxt obj)"

definition objective_done :: "CkksContext \<Rightarrow> string \<Rightarrow> int \<Rightarrow> (nat \<Rightarrow> msg) \<Rightarrow> Ciphertext list \<Rightarrow> Objective \<Rightarrow> bool" where
  "objective_done cc key s b results obj \<longleftrightarrow> summed cc key s b (obj_weights obj) (obj_target_level obj) (results ! obj_ctxt obj)"

lemma max_n_bounds: "obj \<in> set objs \<Longrightarrow> obj_n obj \<le> max_n_of objs" "0 \<le> max_n_of objs"
  "0 \<le> B \<Longrightarrow> (\<And>obj. obj \<in> set objs \<Longrightarrow> obj_n obj \<le> B) \<Longrightarrow> max_n_of objs \<le> B"
  by (induction objs) (auto simp: max_n_of_def)

text \<open>Writing the results one after the other.\<close>

lemma write_results_ok:
  assumes "distinct (map obj_ctxt objs)" and "\<And>obj. obj \<in> set objs \<Longrightarrow> obj_ctxt obj < length results"
    and "\<And>obj. obj \<in> set objs \<Longrightarrow> \<exists>r. f obj (results ! obj_ctxt obj) = Inr r \<and> P obj r"
  shows "\<exists>rs. write_results f objs results = Inr rs \<and> length rs = length results
    \<and> (\<forall>obj \<in> set objs. P obj (rs ! obj_ctxt obj)) \<and> (\<forall>i. i \<notin> obj_ctxt ` set objs \<longrightarrow> rs ! i = results ! i)"
  using assms
proof (induction objs arbitrary: results)
  case (Cons obj objs)
  obtain r where r: "f obj (results ! obj_ctxt obj) = Inr r" "P obj r" using Cons.prems(3) by force
  have lt: "obj_ctxt obj < length results" using Cons.prems(2) by simp
  have ne: "obj_ctxt o' \<noteq> obj_ctxt obj" if "o' \<in> set objs" for o' using Cons.prems(1) that by (auto simp: rev_image_eqI)
  have other: "results[obj_ctxt obj := r] ! obj_ctxt o' = results ! obj_ctxt o'" if "o' \<in> set objs" for o'
    using ne [OF that] by simp
  have "\<exists>rs. write_results f objs (results[obj_ctxt obj := r]) = Inr rs \<and> length rs = length (results[obj_ctxt obj := r])
    \<and> (\<forall>obj \<in> set objs. P obj (rs ! obj_ctxt obj))
    \<and> (\<forall>i. i \<notin> obj_ctxt ` set objs \<longrightarrow> rs ! i = results[obj_ctxt obj := r] ! i)"
    using Cons.prems by (intro Cons.IH) (auto simp: other)
  then obtain rs where rs: "write_results f objs (results[obj_ctxt obj := r]) = Inr rs" "length rs = length results"
      "\<forall>obj \<in> set objs. P obj (rs ! obj_ctxt obj)" "\<forall>i. i \<notin> obj_ctxt ` set objs \<longrightarrow> rs ! i = results[obj_ctxt obj := r] ! i"
    by auto
  have "obj_ctxt obj \<notin> obj_ctxt ` set objs" using Cons.prems(1) by simp
  then have "rs ! obj_ctxt obj = r" using rs(4) lt by simp
  then show ?case using rs r lt by auto
qed simp

text \<open>The interface: what trimming keeps, and what the evaluation of a group writes.\<close>

locale batched_sums =
  fixes scalar :: "complex \<Rightarrow> bool" and regular :: "complex list \<Rightarrow> bool" and trim :: "complex list \<Rightarrow> cpp_error + complex list"
    and eval_group :: "CkksContext \<Rightarrow> Ciphertext list \<Rightarrow> Objective list \<Rightarrow> Ciphertext list \<Rightarrow> cpp_error + Ciphertext list"
  assumes trim_law: "\<forall>w \<in> set ws. scalar w \<Longrightarrow> regular ws \<Longrightarrow> \<exists>ws'. trim ws = Inr ws' \<and> ws' \<noteq> [] \<and> length ws' \<le> max 1 (length ws)
      \<and> (\<forall>w \<in> set ws'. scalar w) \<and> (\<forall>b. sum_value ws' b = sum_value ws b)"
    and group_law: "flex cc \<Longrightarrow> basis_holds cc key s T b ctxs \<Longrightarrow> \<forall>obj \<in> set objs. objective_ok scalar cc T ctxs results obj
      \<Longrightarrow> distinct (map obj_ctxt objs) \<Longrightarrow> \<exists>rs. eval_group cc ctxs objs results = Inr rs \<and> length rs = length results
        \<and> (\<forall>obj \<in> set objs. objective_done cc key s b rs obj) \<and> (\<forall>i. i \<notin> obj_ctxt ` set objs \<longrightarrow> rs ! i = results ! i)"
begin

text \<open>The loop over the groups.\<close>

lemma groups_ok:
  assumes F: "flex cc" and B: "basis_holds cc key s T b ctxs" and objs: "distinct (map obj_ctxt objs)"
    and ok: "\<forall>obj \<in> set objs. objective_ok scalar cc T ctxs results obj"
  shows "\<exists>rs. group_loop (eval_group cc ctxs) (int (length objs)) ((int (length objs) + MAX_OUTPUTS - 1) sdiv MAX_OUTPUTS)
      (sort_objectives objs) results = Some (Inr rs) \<and> length rs = length results \<and> (\<forall>obj \<in> set objs. objective_done cc key s b rs obj)"
proof -
  let ?P = "\<lambda>done rs. length rs = length results \<and> (\<forall>obj \<in> set done. objective_done cc key s b rs obj)
      \<and> (\<forall>obj \<in> set objs - set done. objective_ok scalar cc T ctxs rs obj)"
  have len: "length (sort_objectives objs) = length objs" and set: "set (sort_objectives objs) = set objs"
    and dist: "distinct (sort_objectives objs)" and inj: "inj_on obj_ctxt (set objs)"
    using objs by (simp_all add: sort_objectives_def distinct_map)
  have body: "\<exists>rs'. eval_group cc ctxs os rs = Inr rs' \<and> ?P (done @ os) rs'"
    if P: "?P done rs" and d: "distinct (done @ os)" "set (done @ os) \<subseteq> set objs" for os "done" rs
  proof -
    have "distinct (map obj_ctxt os)" using d inj by (auto simp: distinct_map intro: inj_on_subset)
    moreover have "\<forall>obj \<in> set os. objective_ok scalar cc T ctxs rs obj" using P d by auto
    ultimately obtain rs' where rs': "eval_group cc ctxs os rs = Inr rs'" "length rs' = length rs"
        "\<forall>obj \<in> set os. objective_done cc key s b rs' obj" "\<forall>i. i \<notin> obj_ctxt ` set os \<longrightarrow> rs' ! i = rs ! i"
      using group_law [OF F B, of os rs] by blast
    have other: "rs' ! obj_ctxt obj = rs ! obj_ctxt obj" if "obj \<in> set objs" "obj \<notin> set os" for obj
    proof -
      have "obj_ctxt obj \<notin> obj_ctxt ` set os" using that d(2) inj by (auto dest: inj_onD)
      then show ?thesis using rs'(4) by blast
    qed
    have "objective_done cc key s b rs' obj" if obj: "obj \<in> set done" for obj
    proof -
      have "obj \<in> set objs" "obj \<notin> set os" using d obj by auto
      then show ?thesis using P obj other by (simp add: objective_done_def)
    qed
    then have "\<forall>obj \<in> set done. objective_done cc key s b rs' obj" by blast
    moreover have "\<forall>obj \<in> set objs - set (done @ os). objective_ok scalar cc T ctxs rs' obj"
      using P other rs'(2) by (auto simp: objective_ok_def)
    ultimately show ?thesis using rs' P by auto
  qed
  have "\<exists>rs. group_loop (eval_group cc ctxs) (int (length (sort_objectives objs))) ((int (length objs) + MAX_OUTPUTS - 1) sdiv MAX_OUTPUTS)
      (sort_objectives objs) results = Some (Inr rs) \<and> ?P ([] @ rev (sort_objectives objs)) rs"
    by (rule group_loop_invariant [where A = "set objs" and P = ?P], use body in blast)
      (use ok fits_initial dist set len in \<open>simp_all\<close>)
  then show ?thesis unfolding len by (auto simp: set)
qed

lemma eval_multiple_ok:
  assumes F: "flex cc" and B: "basis_holds cc key s T b ctxs" and len: "length weights = length targets"
    and ws: "\<And>ws. ws \<in> set weights \<Longrightarrow> regular ws \<and> (\<forall>w \<in> set ws. scalar w) \<and> length ws \<le> Suc (length ctxs)"
    and ts: "\<And>t. t \<in> set targets \<Longrightarrow> 1 \<le> t \<and> t \<le> T \<and> t \<le> cc_L cc"
  shows "returns (eval_multiple trim eval_group cc ctxs weights targets resc)
    (\<lambda>rs. length rs = length weights \<and> (\<forall>i < length weights. summed cc key s b (weights ! i) (targets ! i) (rs ! i)))"
proof -
  let ?n = "length weights" and ?results = "map (\<lambda>t. fresh_ciphertext\<lparr>ct_level := t\<rparr>) targets"
  have "\<exists>tr. \<forall>ws \<in> set weights. trim ws = Inr (tr ws) \<and> tr ws \<noteq> [] \<and> length (tr ws) \<le> max 1 (length ws)
      \<and> (\<forall>w \<in> set (tr ws). scalar w) \<and> (\<forall>b. sum_value (tr ws) b = sum_value ws b)"
    using ws trim_law by (intro bchoice) blast
  then obtain tr where tr: "\<And>ws. ws \<in> set weights \<Longrightarrow> trim ws = Inr (tr ws) \<and> tr ws \<noteq> [] \<and> length (tr ws) \<le> max 1 (length ws)
      \<and> (\<forall>w \<in> set (tr ws). scalar w) \<and> (\<forall>b. sum_value (tr ws) b = sum_value ws b)" by blast
  define mk where "mk = (\<lambda>(i, ws, t). \<lparr>obj_n = int (length (tr ws)) - 1, obj_target_level = t, obj_weights = tr ws, obj_ctxt = i\<rparr>)"
  define objs where "objs = map mk (zip [0..<?n] (zip weights targets))"
  have make: "make_objectives trim weights targets = Inr objs"
    unfolding make_objectives_def objs_def mk_def
    by (rule mapE_ok) (auto dest!: set_zip_rightD [of _ _ "[0..<?n]"] set_zip_leftD [of _ _ weights] tr)
  have nth: "length objs = ?n" "\<And>i. i < ?n \<Longrightarrow> objs ! i = mk (i, weights ! i, targets ! i)"
    by (simp_all add: objs_def len)
  have "map obj_ctxt objs = [0..<?n]" by (rule nth_equalityI) (simp_all add: nth mk_def)
  then have dist: "distinct (map obj_ctxt objs)" by simp
  have grow: "mapE (\<lambda>t. growToLevel cc t fresh_ciphertext) targets = Inr ?results"
    by (rule mapE_ok) (use ts in \<open>force simp: growToLevel_def ensure_ct_def fresh_ciphertext_def\<close>)
  have ok: "\<forall>obj \<in> set objs. objective_ok scalar cc T ctxs ?results obj"
  proof
    fix obj assume "obj \<in> set objs"
    then obtain i where i: "i < ?n" "obj = mk (i, weights ! i, targets ! i)" using nth by (metis in_set_conv_nth)
    have w: "weights ! i \<in> set weights" "targets ! i \<in> set targets" using i(1) len by simp_all
    show "objective_ok scalar cc T ctxs ?results obj"
      using tr [OF w(1)] ws [OF w(1)] ts [OF w(2)] i len
      by (auto simp: objective_ok_def mk_def sized_def fresh_ciphertext_def)
  qed
  obtain rs where rs: "group_loop (eval_group cc ctxs) (int ?n) ((int ?n + MAX_OUTPUTS - 1) sdiv MAX_OUTPUTS) (sort_objectives objs) ?results = Some (Inr rs)"
      "length rs = ?n" "\<forall>obj \<in> set objs. objective_done cc key s b rs obj"
    using groups_ok [OF F B dist ok] nth(1) len by auto
  have "summed cc key s b (weights ! i) (targets ! i) (rs ! i)" if i: "i < ?n" for i
  proof -
    have "objective_done cc key s b rs (mk (i, weights ! i, targets ! i))" using rs(3) nth i by (metis nth_mem)
    moreover have "weights ! i \<in> set weights" using i by simp
    ultimately show ?thesis using tr by (simp add: objective_done_def mk_def summed_def)
  qed
  moreover have "mapE (rescale cc) rs = Inr rs" using mapE_ok [of rs "rescale cc" id] rescale_flexible [OF F] by simp
  moreover have "ctxs \<noteq> []" using basis_holdsD(2) [OF B] .
  ultimately show ?thesis using rs(1,2) len grow make by (simp add: eval_multiple_def Let_def)
qed

end

section \<open>The overloads\<close>

lemma sum_value_drop: "last ws = 0 \<Longrightarrow> ws \<noteq> [] \<Longrightarrow> sum_value (butlast ws) b = sum_value ws b"
proof -
  assume "last ws = 0" "ws \<noteq> []"
  then obtain xs where "ws = xs @ [0]" by (metis append_butlast_last_id)
  then show ?thesis by (simp add: sum_value_def nth_append)
qed

lemma trim_real_ok:
  "\<exists>w \<in> set ws. w \<noteq> 0 \<Longrightarrow> \<exists>ws'. trim_real (\<lambda>w. w \<noteq> 0) ws = Inr ws' \<and> ws' \<noteq> [] \<and> length ws' \<le> length ws
    \<and> set ws' \<subseteq> set ws \<and> (\<forall>b. sum_value ws' b = sum_value ws b)"
proof (induction "\<lambda>w :: complex. w \<noteq> 0" ws rule: trim_real.induct)
  case (1 ws)
  show ?case
  proof (cases "last ws = 0")
    case True
    then have ne: "ws \<noteq> []" "\<exists>w \<in> set (butlast ws). w \<noteq> 0" using 1(2) by (auto simp: in_set_butlast_appendI append_butlast_last_id [symmetric])
       (metis Un_iff append_butlast_last_id empty_iff list.set(1) set_ConsD set_append)
    then show ?thesis using 1(1) True sum_value_drop [OF True ne(1)] in_set_butlastD
      by (subst trim_real.simps) (force dest: in_set_butlastD)
  next
    case False
    then show ?thesis using 1(2) by (subst trim_real.simps) auto
  qed
qed

lemma trim_complex_ok:
  "\<exists>ws'. trim_complex (\<lambda>w. w \<noteq> 0) ws = ws' \<and> ws' \<noteq> [] \<and> length ws' \<le> max 1 (length ws) \<and> (\<forall>b. sum_value ws' b = sum_value ws b)"
proof (induction "\<lambda>w :: complex. w \<noteq> 0" ws rule: trim_complex.induct)
  case (1 ws)
  consider "ws = []" | "ws \<noteq> []" "last ws \<noteq> 0" | "ws \<noteq> []" "last ws = 0" by blast
  then show ?case
  proof cases
    case 1
    then show ?thesis by (subst trim_complex.simps) (simp add: sum_value_def)
  next
    case 2
    then show ?thesis by (subst trim_complex.simps) simp
  next
    case 3
    have "trim_complex (\<lambda>w. w \<noteq> 0) ws = trim_complex (\<lambda>w. w \<noteq> 0) (butlast ws)" using 3 by (simp add: trim_complex.simps [of _ ws])
    then show ?thesis using 1(1) 3 sum_value_drop [OF 3(2,1)] by force
  qed
qed

lemma write_results_id:
  "(\<And>obj. obj \<in> set objs \<Longrightarrow> obj_ctxt obj < length results \<and> f obj (results ! obj_ctxt obj) = Inr (results ! obj_ctxt obj))
    \<Longrightarrow> write_results f objs results = Inr results"
  by (induction objs) simp_all

lemma bias_real_ok:
  assumes "flex cc" and "1 \<le> t" "t \<le> cc_L cc" and "c \<in> \<real>"
  shows "bias_real cc t (Re c) = Inr (c * of_real (sfb cc t))"
proof -
  obtain x where c: "c = of_real x" using assms(4) by (rule Reals_cases)
  have "(if x < 0 then - (\<bar>x\<bar> * sfb cc t) else \<bar>x\<bar> * sfb cc t) = x * sfb cc t" by simp
  then show ?thesis using add_factor_flexible [of cc t] flexD [OF assms(1)] assms(2,3) by (simp add: bias_real_def c)
qed

lemma bias_complex_ok:
  assumes "flex cc" and "1 \<le> t" "t \<le> cc_L cc"
  shows "bias_complex cc t c = Inr (c * of_real (sfb cc t))"
  using add_factor_flexible [of cc t] flexD [OF assms(1)] assms(2,3) by (simp add: bias_complex_def complex_eq_iff)

text \<open>The two overloads write what the interface promises.\<close>

lemma group_writes:
  assumes F: "flex cc" and B: "basis_holds cc key s T b ctxs" and ok: "\<forall>obj \<in> set objs. objective_ok scalar cc T ctxs results obj"
    and dist: "distinct (map obj_ctxt objs)" and used: "set used \<subseteq> set ctxs"
    and bias: "\<And>t c. 1 \<le> t \<Longrightarrow> t \<le> cc_L cc \<Longrightarrow> scalar c \<Longrightarrow> bias t c = Inr (c * of_real (sfb cc t))"
  shows "\<exists>rs. write_results (\<lambda>obj r. bindE (objective_msg (\<lambda>w. w \<noteq> 0) cc bias (take (nat (max_n_of objs)) ctxs) obj) (\<lambda>m.
           sum_metadata cc ctxs used (r\<lparr>ct_msg := m\<rparr>))) objs results = Inr rs \<and> length rs = length results
        \<and> (\<forall>obj \<in> set objs. objective_done cc key s b rs obj) \<and> (\<forall>i. i \<notin> obj_ctxt ` set objs \<longrightarrow> rs ! i = results ! i)"
    and "max_n_of objs \<le> int (length ctxs)"
proof -
  show n: "max_n_of objs \<le> int (length ctxs)" using ok by (intro max_n_bounds(3)) (auto simp: objective_ok_def)
  let ?f = "\<lambda>obj r. bindE (objective_msg (\<lambda>w. w \<noteq> 0) cc bias (take (nat (max_n_of objs)) ctxs) obj) (\<lambda>m.
           sum_metadata cc ctxs used (r\<lparr>ct_msg := m\<rparr>))"
  have "\<exists>r. ?f obj (results ! obj_ctxt obj) = Inr r \<and> summed cc key s b (obj_weights obj) (obj_target_level obj) r"
    if obj: "obj \<in> set objs" for obj
  proof -
    let ?ws = "obj_weights obj" and ?t = "obj_target_level obj"
    have o: "1 \<le> ?t" "?t \<le> T" "?t \<le> cc_L cc" "?ws \<noteq> []" "\<forall>w \<in> set ?ws. scalar w" "sized ?t (results ! obj_ctxt obj)"
      using ok obj by (simp_all add: objective_ok_def)
    have "length ?ws \<le> Suc (nat (max_n_of objs))" using max_n_bounds(1) [OF obj] ok obj by (auto simp: objective_ok_def)
    then have "objective_msg (\<lambda>w. w \<noteq> 0) cc bias (take (nat (max_n_of objs)) ctxs) obj = Inr (\<lambda>j. of_real (sfb cc ?t) * sum_value ?ws b j)"
      using n o by (intro objective_msg_ok [OF F B]) (simp_all add: bias)
    then show ?thesis using sum_metadata_ok [OF F B o(1,3) used o(6)] by simp
  qed
  then show "\<exists>rs. write_results ?f objs results = Inr rs \<and> length rs = length results
        \<and> (\<forall>obj \<in> set objs. objective_done cc key s b rs obj) \<and> (\<forall>i. i \<notin> obj_ctxt ` set objs \<longrightarrow> rs ! i = results ! i)"
    unfolding objective_done_def using ok by (intro write_results_ok dist) (auto simp: objective_ok_def)
qed

lemma group_checks:
  assumes F: "flex cc" and B: "basis_holds cc key s T b ctxs" and ok: "\<forall>obj \<in> set objs. objective_ok scalar cc T ctxs results obj"
  shows "\<forall>obj \<in> set objs. obj_target_level obj \<noteq> -1" "\<forall>c \<in> set ctxs. ct_noise c = 1 \<and> ct_keyID c = ct_keyID (hd ctxs)"
    and "cc_technique cc \<noteq> FIXEDMANUAL"
proof -
  note D = basis_holdsD [OF B]
  show "\<forall>obj \<in> set objs. obj_target_level obj \<noteq> -1" using ok by (auto simp: objective_ok_def)
  have "hd ctxs \<in> set ctxs" using D(2) by simp
  then show "\<forall>c \<in> set ctxs. ct_noise c = 1 \<and> ct_keyID c = ct_keyID (hd ctxs)" using D(3) by metis
  show "cc_technique cc \<noteq> FIXEDMANUAL" using F by (simp add: flex_def)
qed

interpretation real_sums: batched_sums "\<lambda>w. w \<in> \<real>" "\<lambda>ws. \<exists>w \<in> set ws. w \<noteq> 0" "trim_real (\<lambda>w. w \<noteq> 0)" "wsum_group_real (\<lambda>w. w \<noteq> 0)"
proof
  fix ws :: "complex list"
  assume "\<forall>w \<in> set ws. w \<in> \<real>" "\<exists>w \<in> set ws. w \<noteq> 0"
  then show "\<exists>ws'. trim_real (\<lambda>w. w \<noteq> 0) ws = Inr ws' \<and> ws' \<noteq> [] \<and> length ws' \<le> max 1 (length ws)
      \<and> (\<forall>w \<in> set ws'. w \<in> \<real>) \<and> (\<forall>b. sum_value ws' b = sum_value ws b)"
    using trim_real_ok [of ws] by fastforce
next
  fix cc key s T b ctxs objs results
  assume F: "flex cc" and B: "basis_holds cc key s T b ctxs" and ok: "\<forall>obj \<in> set objs. objective_ok (\<lambda>w. w \<in> \<real>) cc T ctxs results obj"
    and d: "distinct (map obj_ctxt objs)"
  note W = group_writes [OF F B ok d, of "take (nat (max_n_of objs)) ctxs" "\<lambda>t b. bias_real cc t (Re b)"] and C = group_checks [OF F B ok]
  have sub: "set (take (nat (max_n_of objs)) ctxs) \<subseteq> set ctxs" by (rule set_take_subset)
  show "\<exists>rs. wsum_group_real (\<lambda>w. w \<noteq> 0) cc ctxs objs results = Inr rs \<and> length rs = length results
        \<and> (\<forall>obj \<in> set objs. objective_done cc key s b rs obj) \<and> (\<forall>i. i \<notin> obj_ctxt ` set objs \<longrightarrow> rs ! i = results ! i)"
    using W [OF sub bias_real_ok [OF F]] C by (simp add: wsum_group_real_def Let_def)
qed

interpretation complex_sums: batched_sums "\<lambda>w. True" "\<lambda>ws. True" "\<lambda>ws. Inr (trim_complex (\<lambda>w. w \<noteq> 0) ws)" "wsum_group_complex (\<lambda>w. w \<noteq> 0)"
proof
  fix ws :: "complex list"
  show "\<exists>ws'. Inr (trim_complex (\<lambda>w. w \<noteq> 0) ws) = (Inr ws' :: cpp_error + complex list) \<and> ws' \<noteq> [] \<and> length ws' \<le> max 1 (length ws)
      \<and> (\<forall>w \<in> set ws'. True) \<and> (\<forall>b. sum_value ws' b = sum_value ws b)"
    using trim_complex_ok [of ws] by simp
next
  fix cc key s T b ctxs objs results
  assume F: "flex cc" and B: "basis_holds cc key s T b ctxs" and ok: "\<forall>obj \<in> set objs. objective_ok (\<lambda>w. True) cc T ctxs results obj"
    and d: "distinct (map obj_ctxt objs)"
  note W = group_writes [OF F B ok d order_refl, of "bias_complex cc"] and C = group_checks [OF F B ok]
  let ?used = "take (nat (max_n_of objs)) ctxs"
  have grow: "write_results (\<lambda>obj r. growToLevel cc (obj_target_level obj) r) objs results = Inr results"
    by (rule write_results_id) (use ok in \<open>auto simp: objective_ok_def sized_def growToLevel_def ensure_ct_def\<close>)
  have src: "mapE (\<lambda>c. if cc_technique cc \<noteq> FIXEDMANUAL \<and> ct_noise c = 2 then bindE (copy_ct cc c fresh_ciphertext) (rescaleInternal cc) else Inr c) ?used
      = Inr ?used"
  proof -
    have "mapE (\<lambda>c. if cc_technique cc \<noteq> FIXEDMANUAL \<and> ct_noise c = 2 then bindE (copy_ct cc c fresh_ciphertext) (rescaleInternal cc) else Inr c) ?used
      = Inr (map id ?used)" by (rule mapE_ok) (use C(2) in \<open>auto dest!: in_set_takeD\<close>)
    then show ?thesis by simp
  qed
  show "\<exists>rs. wsum_group_complex (\<lambda>w. w \<noteq> 0) cc ctxs objs results = Inr rs \<and> length rs = length results
        \<and> (\<forall>obj \<in> set objs. objective_done cc key s b rs obj) \<and> (\<forall>i. i \<notin> obj_ctxt ` set objs \<longrightarrow> rs ! i = results ! i)"
    using W [OF bias_complex_ok [OF F]] C grow src by (simp add: wsum_group_complex_def Let_def)
qed

end
