(* ===== verification/CkksMutable.thy ===== *)
theory CkksMutable
  imports CkksDepth
begin

text \<open>
  Depth rules for the \<open>Mutable\<close> operations, which adjust their operand in place instead of copying it.
\<close>

lemma holds_addMutable:
  assumes F: "flex cc" and a: "holds cc key s d u a" and b: "holds cc key s e v b"
  shows "returns (addMutable cc b a) (\<lambda>(r, b'). holds cc key s (min d e) (msg_add u v) r)"
proof -
  note A = holdsD [OF a] and B = holdsD [OF b]
  obtain r b' where r: "addMutable cc b a = Some (Inr (r, b'))" "result cc (meet_noise (ct_noise a) (ct_level a) (ct_noise b) (ct_level b))
      (min (ct_level a) (ct_level b)) key s (msg_add u v) r"
    using addMutable_flexible [OF flexD [OF F] A(1) B(1)] A(2,3,5) B(2,3,5) by auto
  show ?thesis using result_operand [OF r(2) meet_depth(1) [OF A(1) B(1)]] r(1) A(4) B(4) meet_depth(2) [OF A(1) B(1)]
    by simp
qed

lemma holds_subMutable:
  assumes F: "flex cc" and a: "holds cc key s d u a" and b: "holds cc key s e v b"
  shows "returns (subMutable cc b a) (\<lambda>(r, b'). holds cc key s (min d e) (msg_sub u v) r)"
proof -
  note A = holdsD [OF a] and B = holdsD [OF b] and f = flexD [OF F]
  have key: "ct_keyID a = ct_keyID b" using A(2) B(2) by simp
  let ?n = "meet_noise (ct_noise a) (ct_level a) (ct_noise b) (ct_level b)" and ?l = "min (ct_level a) (ct_level b)"
  have "\<exists>r b'. subMutable cc b a = Some (Inr (r, b')) \<and> result cc ?n ?l key s (msg_sub u v) r"
  proof (cases "adjustable a (ct_noise b) (ct_level b)")
    case True
    obtain a1 where h: "align_this cc b a = Inr (True, a1)" and j: "adjusted cc (ct_noise b) (ct_level b) a a1"
      using align_this_flexible [OF f A(1) B(1) key] True operand_state [OF A(1)] by auto
    note k = adjusted_keeps [OF j]
    have o1: "operand cc a1" using adjusted_operand [OF j A(1) operand_target [OF B(1)]] .
    have "getLevel a1 = getLevel b" using k operand_state [OF o1] operand_state [OF B(1)] by simp
    moreover have "\<exists>r. ct_sub cc b a1 = Some (Inr r) \<and> result cc (ct_noise b) (ct_level b) key s (msg_sub u v) r"
      using ct_sub_adjustable [OF f o1 B(1)] k A B by (auto simp: adjustable_def)
    ultimately show ?thesis
      using h f(3) adjustable_meet [OF True] by (auto simp: subMutable_def with_operand_def)
  next
    case False
    have h: "align_this cc b a = Inr (False, a)"
      using align_this_flexible [OF f A(1) B(1) key] False operand_state [OF A(1)] by auto
    obtain b' where b': "adjustForAddOrSub cc a b = Inr (True, b')" "adjusted cc (ct_noise a) (ct_level a) b b'"
      using adjust_to [OF f B(1) A(1)] adjustable_other [OF False] by auto
    note k = adjusted_keeps [OF b'(2)]
    have ob: "operand cc b'" using adjusted_operand [OF b'(2) B(1) operand_target [OF A(1)]] .
    have "\<exists>r. ct_sub cc b' a = Some (Inr r) \<and> result cc (ct_noise a) (ct_level a) key s (msg_sub u v) r"
      using ct_sub_adjustable [OF f A(1) ob] k A B by (auto simp: adjustable_def)
    then show ?thesis
      using h b'(1) adjustable_meet [OF adjustable_other [OF False]]
      by (auto simp: subMutable_def with_operand_def meet_commute [of "ct_noise a"] min.commute)
  qed
  then obtain r b' where r: "subMutable cc b a = Some (Inr (r, b'))" "result cc ?n ?l key s (msg_sub u v) r" by blast
  show ?thesis using result_operand [OF r(2) meet_depth(1) [OF A(1) B(1)]] r(1) A(4) B(4) meet_depth(2) [OF A(1) B(1)]
    by simp
qed

text \<open>Both operands brought to one shape, and to degree 1.\<close>

lemma holds_degree1_of:
  assumes F: "flex cc" and a: "holds cc key s d u a" and n: "ct_noise a = n"
  shows "\<exists>r. (if n = 2 then rescaleInternal cc a else Inr a) = Inr r \<and> holds cc key s d u r \<and> ct_noise r = 1 \<and> ct_level r = d"
  using holds_degree1 [OF F a] n by simp

lemma holds_mult_same:
  assumes F: "flex cc" and k: "has_eval_key cc key" and a: "holds cc key s d u a" and b: "holds cc key s d v b"
    and n: "ct_noise a = 1" "ct_noise b = 1" and "1 \<le> d"
  shows "returns (ct_mult cc b resc True a) (holds2 cc key s (d - 1) (msg_mult u v))"
  using holds_mult [OF F k a b assms(7,7)] by simp

lemma holds_multMutable:
  assumes F: "flex cc" and k: "has_eval_key cc key" and a: "holds cc key s d u a" and b: "holds cc key s e v b"
    and "1 \<le> d" "1 \<le> e"
  shows "returns (multMutable cc b resc True a) (\<lambda>(r, b'). holds2 cc key s (min d e - 1) (msg_mult u v) r)"
proof -
  note A = holdsD [OF a] and B = holdsD [OF b] and f = flexD [OF F]
  have ne: "\<not> mult_extended b a" using A(1) B(1) by (simp add: mult_extended_def operand_def)
  have ak: "adopt_key b a = Inr a" using A(2) B(2) by (simp add: adopt_key_same)
  let ?n = "meet_noise (ct_noise a) (ct_level a) (ct_noise b) (ct_level b)" and ?l = "min (ct_level a) (ct_level b)"
  obtain a1 b1 where align: "bindE (adjustForAddOrSub cc b a) (\<lambda>(ok, ct). bindE (if ok then Inr b
      else bindE (adjustForAddOrSub cc ct b) (\<lambda>(ok, b). bindE (guardE Runtime_error ok) (\<lambda>_. Inr b))) (\<lambda>b. Inr (ct, b))) = Inr (a1, b1)"
    and a1: "adjusted cc ?n ?l a a1" "operand cc a1" and b1: "adjusted cc ?n ?l b b1" "operand cc b1"
  proof (cases "adjustable a (ct_noise b) (ct_level b)")
    case True
    obtain a1 where "adjustForAddOrSub cc b a = Inr (True, a1)" and j: "adjusted cc (ct_noise b) (ct_level b) a a1"
      using adjust_to [OF f A(1) B(1)] True by auto
    then show ?thesis
      using that [of a1 b] adjusted_operand [OF j A(1) operand_target [OF B(1)]] adjustable_meet [OF True] B(1) adjusted_refl
      by (auto simp: operand_def)
  next
    case False
    obtain b1 where "adjustForAddOrSub cc a b = Inr (True, b1)" and j: "adjusted cc (ct_noise a) (ct_level a) b b1"
      using adjust_to [OF f B(1) A(1)] adjustable_other [OF False] by auto
    moreover have "adjustForAddOrSub cc b a = Inr (False, a)" using adjust_to [OF f A(1) B(1)] False by auto
    ultimately show ?thesis
      using that [of a b1] adjusted_operand [OF j B(1) operand_target [OF A(1)]] adjustable_meet [OF adjustable_other [OF False]] A(1) adjusted_refl
      by (auto simp: operand_def meet_commute [of "ct_noise a"] min.commute)
  qed
  have l: "?l - (if ?n = 2 then 1 else 0) = min d e" using meet_depth(2) [OF A(1) B(1)] A(4) B(4) by simp
  have ha: "holds cc key s (min d e) u a1" and hb: "holds cc key s (min d e) v b1"
    using a1 b1 A B l adjusted_keeps [OF a1(1)] adjusted_keeps [OF b1(1)] by (simp_all add: holds_def depth_def)
  obtain a2 where a2: "(if ?n = 2 then rescaleInternal cc a1 else Inr a1) = Inr a2" "holds cc key s (min d e) u a2" "ct_noise a2 = 1" "ct_level a2 = min d e"
    using holds_degree1_of [OF F ha] adjusted_keeps(4) [OF a1(1)] by blast
  obtain b2 where b2: "(if ?n = 2 then rescaleInternal cc b1 else Inr b1) = Inr b2" "holds cc key s (min d e) v b2" "ct_noise b2 = 1" "ct_level b2 = min d e"
    using holds_degree1_of [OF F hb] adjusted_keeps(4) [OF b1(1)] by blast
  have n1: "ct_noise a1 = ?n" using adjusted_keeps(4) [OF a1(1)] .
  obtain r where r: "ct_mult cc b2 resc True a2 = Some (Inr r)" "holds2 cc key s (min d e - 1) (msg_mult u v) r"
    using holds_mult_same [OF F k a2(2) b2(2) a2(3) b2(3), of resc] assms(5,6) by (auto simp: returns_def)
  have "multMutable cc b resc True a = with_operand b2 (ct_mult cc b2 resc True a2)"
    using ak ne align n1 a2(1,3) b2(1,3) flexible_auto [OF f(3)]
    by (auto simp: multMutable_def bindE_eq_Inr split: if_splits)
  then show ?thesis using r by (simp add: with_operand_def)
qed

end
