(* ===== verification/PSRecord.thy ===== *)
theory PSRecord
  imports PolyEval CkksBatch CkksMutable
begin

text \<open>
  The two-phase evaluation that the fused evaluators of \<open>src/src/CKKS/ApproxModEval.cu\<close> share: a first
  walk over the splitting of a polynomial records the weighted sums at its leaves, they are all
  evaluated in one batch, and a second walk takes the results off a stack and combines them.
\<close>

text \<open>\<open>PS_MODE\<close>, whose modes \<open>PS_FUSED_MODE\<close> repeats.\<close>

datatype PS_MODE = FULL | RECORD | REMAINING

record 'c PSRecordFused =
  ps_constants :: "'c list list"
  ps_target_level :: "int list"
  rev_result_ciphertexts :: "Ciphertext list"

text \<open>The fused sums for one type of coefficients.\<close>

record 'c WSums =
  ws_partial :: "CkksContext \<Rightarrow> Ciphertext list \<Rightarrow> 'c list \<Rightarrow> 'c \<Rightarrow> nat \<Rightarrow> int \<Rightarrow> bool \<Rightarrow> Ciphertext \<Rightarrow> cpp_error + Ciphertext"
  ws_multiple :: "CkksContext \<Rightarrow> Ciphertext list \<Rightarrow> 'c list list \<Rightarrow> int list \<Rightarrow> bool \<Rightarrow> (cpp_error + Ciphertext list) option"

definition double_sums :: "(real \<Rightarrow> bool) \<Rightarrow> (complex \<Rightarrow> bool) \<Rightarrow> real WSums" where
  "double_sums nz nzc = \<lparr>ws_partial = evalPartialLinearWSumWithBias nz, ws_multiple = evalMultiplePartialLinearWSumWithBias nzc\<rparr>"

definition complex_sums :: "(complex \<Rightarrow> bool) \<Rightarrow> complex WSums" where
  "complex_sums nzc = \<lparr>ws_partial = evalPartialLinearWSumComplex nzc, ws_multiple = evalMultiplePartialLinearWSumComplex nzc\<rparr>"

definition record_node :: "'c list \<Rightarrow> int \<Rightarrow> 'c PSRecordFused \<Rightarrow> 'c PSRecordFused" where
  "record_node ws t rec = rec\<lparr>ps_constants := ps_constants rec @ [ws], ps_target_level := ps_target_level rec @ [t]\<rparr>"

definition popRaw :: "'c PSRecordFused \<Rightarrow> cpp_error + Ciphertext \<times> 'c PSRecordFused" where
  "popRaw rec = (if rev_result_ciphertexts rec = [] then Inl Undefined_behaviour
     else Inr (last (rev_result_ciphertexts rec), rec\<lparr>rev_result_ciphertexts := butlast (rev_result_ciphertexts rec)\<rparr>))"

text \<open>A leaf: recorded, taken off the stack, or evaluated at once.\<close>

definition ps_leaf :: "CkksContext \<Rightarrow> PS_MODE \<Rightarrow> 'c list \<Rightarrow> int \<Rightarrow> bool \<Rightarrow> (Ciphertext \<Rightarrow> cpp_error + Ciphertext) \<Rightarrow> Ciphertext \<Rightarrow> 'c PSRecordFused
    \<Rightarrow> (cpp_error + Ciphertext \<times> 'c PSRecordFused) option" where
  "ps_leaf cc mode ws t resc full ct rec =
     (case mode of
        RECORD \<Rightarrow> Some (Inr (ct, record_node ws t rec))
      | REMAINING \<Rightarrow> thenO (Some (popRaw rec)) (\<lambda>(c, rec).
          thenO (Some (if resc then rescale cc c else Inr c)) (\<lambda>c. Some (Inr (c, rec))))
      | FULL \<Rightarrow> thenO (Some (full ct)) (\<lambda>c. Some (Inr (c, rec))))"

text \<open>\<open>addMutable(const Ciphertext& b, Ciphertext& c)\<close> with a receiver that is neither; \<open>c\<close> is given up afterwards.\<close>

definition addMutable_from :: "CkksContext \<Rightarrow> Ciphertext \<Rightarrow> Ciphertext \<Rightarrow> Ciphertext \<Rightarrow> (cpp_error + Ciphertext) option" where
  "addMutable_from cc b c ct =
     (if getLevel b \<le> getLevel c
      then copy_then cc b (\<lambda>ct. thenO (addMutable cc c ct) (\<lambda>(ct, c). Some (Inr ct))) ct
      else copy_then cc c (ct_add cc b) ct)"

text \<open>The composition \<open>out.multMutable(qu); out.addMutable(su)\<close>.\<close>

definition ps_compose :: "CkksContext \<Rightarrow> Ciphertext \<Rightarrow> Ciphertext \<Rightarrow> Ciphertext \<Rightarrow> (cpp_error + Ciphertext) option" where
  "ps_compose cc qu su cu =
     thenO (multMutable cc qu False True cu) (\<lambda>(cu, qu). thenO (addMutable cc su cu) (\<lambda>(cu, su). Some (Inr cu)))"

section \<open>Leaves\<close>

text \<open>The nodes still to be recorded and the results still on the stack.\<close>

definition record_nodes :: "('c list \<times> int) list \<Rightarrow> 'c PSRecordFused \<Rightarrow> 'c PSRecordFused" where
  "record_nodes ns rec = foldl (\<lambda>rec (ws, t). record_node ws t rec) rec ns"

lemma record_nodes_append: "record_nodes (ns @ ns') rec = record_nodes ns' (record_nodes ns rec)"
  by (simp add: record_nodes_def)

lemma record_nodes_simps [simp]: "record_nodes [] rec = rec" "record_nodes ((ws, t) # ns) rec = record_nodes ns (record_node ws t rec)"
  by (simp_all add: record_nodes_def)

lemma record_nodes_fields:
  "ps_constants (record_nodes ns rec) = ps_constants rec @ map fst ns" "ps_target_level (record_nodes ns rec) = ps_target_level rec @ map snd ns"
  by (induction ns arbitrary: rec) (auto simp: record_node_def)

definition stacked :: "('c \<Rightarrow> complex) \<Rightarrow> CkksContext \<Rightarrow> string \<Rightarrow> int \<Rightarrow> (nat \<Rightarrow> msg) \<Rightarrow> ('c list \<times> int) list \<Rightarrow> Ciphertext list \<Rightarrow> 'c PSRecordFused \<Rightarrow> bool" where
  "stacked v cc key s b ns rest rec \<longleftrightarrow> (\<exists>rs. rev_result_ciphertexts rec = rest @ rev rs
     \<and> list_all2 (\<lambda>(ws, t) r. summed cc key s b (map v ws) t r) ns rs)"

lemma stacked_nil: "stacked v cc key s b [] rest rec \<longleftrightarrow> rev_result_ciphertexts rec = rest"
  by (simp add: stacked_def)

lemma stacked_pop:
  assumes "stacked v cc key s b ((ws, t) # ns) rest rec"
  shows "\<exists>r rec'. popRaw rec = Inr (r, rec') \<and> summed cc key s b (map v ws) t r \<and> stacked v cc key s b ns rest rec'"
proof -
  obtain r rs where rs: "rev_result_ciphertexts rec = rest @ rev rs @ [r]" "summed cc key s b (map v ws) t r"
      "list_all2 (\<lambda>(ws, t) r. summed cc key s b (map v ws) t r) ns rs"
    using assms by (auto simp: stacked_def list_all2_Cons1)
  then have "popRaw rec = Inr (r, rec\<lparr>rev_result_ciphertexts := rest @ rev rs\<rparr>)"
    by (simp add: popRaw_def butlast_append)
  then show ?thesis using rs by (auto simp: stacked_def)
qed

lemma leaf_remaining:
  assumes F: "flex cc" and "stacked v cc key s b ((ws, t) # ns) rest rec"
  shows "returns (ps_leaf cc REMAINING ws' t' resc full ct rec) (\<lambda>(r, rec'). summed cc key s b (map v ws) t r \<and> stacked v cc key s b ns rest rec')"
  using stacked_pop [OF assms(2)] by (auto simp: ps_leaf_def rescale_flexible [OF F])

lemma leaf_record: "ps_leaf cc RECORD ws t resc full ct rec = Some (Inr (ct, record_node ws t rec))"
  by (simp add: ps_leaf_def)

lemma returns_fst: "returns m (\<lambda>(r, b). Q r) \<Longrightarrow> returns (thenO m (\<lambda>(r, b). Some (Inr r))) Q"
  by (auto elim!: returns_thenO)

lemma compose_ok:
  assumes F: "flex cc" and k: "has_eval_key cc key" and cu: "holds cc key s d u cu" and qu: "holds cc key s e v qu" and su: "holds cc key s e' w su"
    and "1 \<le> d" "1 \<le> e"
  shows "returns (ps_compose cc qu su cu) (holds cc key s (min (min d e - 1) e') (msg_add (msg_mult u v) w))"
proof -
  have "returns (thenO (addMutable cc su c) (\<lambda>(cu, su). Some (Inr cu))) (holds cc key s (min (min d e - 1) e') (msg_add (msg_mult u v) w))"
    if "holds2 cc key s (min d e - 1) (msg_mult u v) c" for c
    using holds_addMutable [OF F holds2_holds [OF that] su] by (rule returns_fst)
  then show ?thesis
    unfolding ps_compose_def using holds_multMutable [OF F k cu qu assms(6,7), of False]
    by (auto elim!: returns_thenO)
qed

lemma holds_addMutable_from:
  assumes F: "flex cc" and b: "holds cc key s d u b" and c: "holds cc key s e v c" and ct: "ct_state ct = None"
  shows "returns (addMutable_from cc b c ct) (holds cc key s (min d e) (msg_add u v))"
proof -
  have comm: "msg_add v u = msg_add u v" by (simp add: msg_add_def add.commute)
  show ?thesis
    using holds_addMutable [OF F b c] holds_add [OF F c b] holds_state [OF b] holds_state [OF c] ct
    by (auto simp: addMutable_from_def copy_then_def copy_resident comm min.commute elim!: returns_thenO)
qed

end
