(* ===== verification/ChebEval.thy ===== *)
theory ChebEval
  imports PSRecord
begin

text \<open>
  Chebyshev series and the approximate modular reduction of bootstrapping
  (\<open>src/src/CKKS/ApproxModEval.cu\<close>): the Chebyshev polynomials of a ciphertext, the series of small
  degree, the Paterson-Stockmeyer evaluation in two phases, the double-angle iterations, and the
  reductions built from them.
\<close>

section \<open>Doubles and coefficients\<close>

text \<open>OpenFHE's comparisons of doubles.\<close>

record Comparisons =
  cmp_nz :: "real \<Rightarrow> bool"
  cmp_n1 :: "real \<Rightarrow> bool"
  cmp_nm1 :: "real \<Rightarrow> bool"

definition halve :: "'c::field list \<Rightarrow> 'c list" where
  "halve ws = (case ws of [] \<Rightarrow> [] | w # ws \<Rightarrow> w / 2 # ws)"

section \<open>Small degrees\<close>

text \<open>\<open>evalChebyPolysLinear\<close>: the first polynomial, the others, and the level reduction.\<close>

definition linear_first :: "Comparisons \<Rightarrow> CkksContext \<Rightarrow> real \<Rightarrow> real \<Rightarrow> Ciphertext \<Rightarrow> cpp_error + Ciphertext" where
  "linear_first C cc a b x =
     (if \<not> cmp_nm1 C a \<and> \<not> cmp_n1 C b then copy_ct cc x fresh_ciphertext
      else let alpha = 2 / (b - a); beta = a * alpha
           in bindE (multScalar_from cc x alpha False fresh_ciphertext) (\<lambda>t.
              bindE (rescale cc t) (\<lambda>t.
                if cmp_nz C (- 1 - beta) then addScalar cc (- 1 - beta) t else Inr t)))"

definition linear_cheby :: "CkksContext \<Rightarrow> Ciphertext list \<Rightarrow> nat \<Rightarrow> (cpp_error + Ciphertext list) option" where
  "linear_cheby cc T i =
     (if odd i
      then thenO (ct_mult3 cc Neither (T ! (i div 2 - 1)) (T ! (i div 2)) False fresh_ciphertext) (\<lambda>t.
           thenO (ct_add_self cc t) (\<lambda>t.
           thenO (Some (rescale cc t)) (\<lambda>t.
           thenO (ct_sub cc (hd T) t) (\<lambda>t. Some (Inr (T @ [t]))))))
      else thenO (ct_square_from cc (T ! (i div 2 - 1)) False fresh_ciphertext) (\<lambda>t.
           thenO (ct_add_self cc t) (\<lambda>t.
           thenO (Some (rescale cc t)) (\<lambda>t.
           thenO (Some (addScalar cc (- 1) t)) (\<lambda>t. Some (Inr (T @ [t])))))))"

definition level_cheby :: "CkksContext \<Rightarrow> nat \<Rightarrow> Ciphertext list \<Rightarrow> nat \<Rightarrow> cpp_error + Ciphertext list" where
  "level_cheby cc k T i =
     (let target = getLevel (T ! (k - 1))
      in if getLevel (T ! (i - 1)) > target
         then bindE (dropToLevel cc target True (T ! (i - 1))) (\<lambda>t. Inr (T[i - 1 := t]))
         else Inr T)"

definition evalChebyPolysLinear :: "Comparisons \<Rightarrow> CkksContext \<Rightarrow> nat \<Rightarrow> real \<Rightarrow> real \<Rightarrow> Ciphertext \<Rightarrow> (cpp_error + Ciphertext list) option" where
  "evalChebyPolysLinear C cc n a b x =
     (let k = n - 1
      in thenO (Some (linear_first C cc a b x)) (\<lambda>t.
         thenO (foldO (linear_cheby cc) [t] [2..<Suc k]) (\<lambda>T.
         if cc_technique cc = FIXEDMANUAL then Some (foldE (level_cheby cc k) T [1..<k]) else Some (Inr T))))"

definition evalChebyshevSeriesLinear :: "Comparisons \<Rightarrow> 'c::field Scalars \<Rightarrow> CkksContext \<Rightarrow> 'c list \<Rightarrow> real \<Rightarrow> real \<Rightarrow> Ciphertext
    \<Rightarrow> (cpp_error + Ciphertext) option" where
  "evalChebyshevSeriesLinear C S cc coefficients a b ctxt =
     (if length coefficients < 2 then Some (Inl Undefined_behaviour)
      else let k = length coefficients - 2
      in thenO (evalChebyPolysLinear C cc (length coefficients) a b ctxt) (\<lambda>T.
         thenO (Some (scaled_from S cc (T ! k) (coefficients ! (k + 1)) fresh_ciphertext)) (\<lambda>result.
         thenO (foldO (\<lambda>result i.
             if sc_nz S (coefficients ! (i + 1))
             then thenO (Some (scaled_from S cc (T ! i) (coefficients ! (i + 1)) fresh_ciphertext)) (\<lambda>t. ct_add cc t result)
             else Some (Inr result)) result [0..<k]) (\<lambda>result.
         thenO (Some (rescale cc result)) (\<lambda>result.
         thenO (Some (sc_add S cc (hd coefficients / 2) result)) (\<lambda>result.
           Some (copy_ct cc result ctxt)))))))"

section \<open>Paterson-Stockmeyer\<close>

definition cheb_split :: "'c::field PolyLib \<Rightarrow> nat \<Rightarrow> nat \<Rightarrow> 'c list \<Rightarrow> cpp_error + 'c list \<times> 'c list \<times> 'c list" where
  "cheb_split L k m coefficients =
     (let k2m2k = k * 2 ^ (m - 1) - k
      in bindE (pl_LongDivisionChebyshev L coefficients (unit_power (k2m2k + k))) (\<lambda>(q, r).
         bindE (pl_Degree L r) (\<lambda>n.
         bindE (pl_LongDivisionChebyshev L (minus_power k2m2k n r) q) (\<lambda>(c, s).
           Inr (q, c, with_top k2m2k s)))))"

text \<open>The part multiplied with the quotient: \<open>T2[m - 1]\<close>, its copy before the rescale, plus a sum.\<close>

definition cheb_giant :: "'c::field Scalars \<Rightarrow> 'c PolyLib \<Rightarrow> 'c WSums \<Rightarrow> CkksContext \<Rightarrow> PS_MODE \<Rightarrow> Ciphertext list \<Rightarrow> Ciphertext \<Rightarrow> Ciphertext
    \<Rightarrow> int \<Rightarrow> 'c list \<Rightarrow> Ciphertext \<Rightarrow> 'c PSRecordFused \<Rightarrow> (cpp_error + Ciphertext \<times> 'c PSRecordFused) option" where
  "cheb_giant S L W cc mode T giant norescale target c cu rec =
     thenO (Some (pl_Degree L c)) (\<lambda>n.
       if n \<ge> 1 then
         (case mode of
            RECORD \<Rightarrow> Some (Inr (cu, record_node (halve c) target rec))
          | REMAINING \<Rightarrow> thenO (Some (popRaw rec)) (\<lambda>(w, rec).
              if getLevel w = getLevel norescale
              then thenO (addMutable_from cc norescale w cu) (\<lambda>cu. thenO (Some (rescale cc cu)) (\<lambda>cu. Some (Inr (cu, rec))))
              else thenO (Some (rescale cc w)) (\<lambda>w. thenO (addMutable_from cc giant w cu) (\<lambda>cu. Some (Inr (cu, rec)))))
          | FULL \<Rightarrow> thenO (Some (ws_partial W cc T c (hd c / 2) (length c - 1) target False cu)) (\<lambda>cu.
              thenO (if getLevel cu = getLevel norescale
                     then thenO (ct_add cc norescale cu) (\<lambda>cu. Some (rescale cc cu))
                     else thenO (Some (rescale cc cu)) (\<lambda>cu. ct_add cc giant cu)) (\<lambda>cu. Some (Inr (cu, rec)))))
       else if mode = RECORD then Some (Inr (cu, rec))
       else thenO (Some (copyE cc giant (sc_add S cc (hd c / 2)) cu)) (\<lambda>cu. Some (Inr (cu, rec))))"

fun innerEvalChebyshevPS :: "'c::field Scalars \<Rightarrow> 'c PolyLib \<Rightarrow> 'c WSums \<Rightarrow> CkksContext \<Rightarrow> nat \<Rightarrow> PS_MODE \<Rightarrow> Ciphertext list \<Rightarrow> Ciphertext list
    \<Rightarrow> Ciphertext list \<Rightarrow> nat \<Rightarrow> 'c list \<Rightarrow> int \<Rightarrow> Ciphertext \<Rightarrow> 'c PSRecordFused \<Rightarrow> (cpp_error + Ciphertext \<times> 'c PSRecordFused) option" where
  "innerEvalChebyshevPS S L W cc k mode T T2 T2_norescale 0 coefficients level_offset out rec = Some (Inl Undefined_behaviour)"
| "innerEvalChebyshevPS S L W cc k mode T T2 T2_norescale (Suc m) coefficients level_offset out rec =
     (let giant = T2 ! m; base = getLevel giant + (if ct_noise giant = 1 then 1 else 0)
      in thenO (Some (cheb_split L k (Suc m) coefficients)) (\<lambda>(q, c, s2).
         thenO (Some (pl_Degree L q)) (\<lambda>n.
         thenO (if n > k
                then thenO (innerEvalChebyshevPS S L W cc k mode T T2 T2_norescale m q level_offset fresh_ciphertext rec) (\<lambda>(qu, rec).
                     thenO (Some (if mode \<noteq> RECORD then rescale cc qu else Inr qu)) (\<lambda>qu. Some (Inr (qu, rec))))
                else ps_leaf cc mode (halve q) (base - level_offset) True
                       (ws_partial W cc T q (hd q / 2) (length q - 1) (base - level_offset) True) fresh_ciphertext rec) (\<lambda>(qu, rec).
         thenO (Some (pl_Degree L s2)) (\<lambda>n.
         thenO (if n > k
                then innerEvalChebyshevPS S L W cc k mode T T2 T2_norescale m s2 (level_offset + 1) fresh_ciphertext rec
                else ps_leaf cc mode (halve s2) (base - level_offset - 1) False
                       (ws_partial W cc T s2 (hd s2 / 2) (length s2 - 1) (base - level_offset - 1) False) fresh_ciphertext rec) (\<lambda>(su, rec).
         thenO (cheb_giant S L W cc mode T giant (T2_norescale ! m) (base - level_offset) c out rec) (\<lambda>(cu, rec).
         if mode \<noteq> RECORD then thenO (ps_compose cc qu su cu) (\<lambda>cu. Some (Inr (cu, rec))) else Some (Inr (cu, rec)))))))))"

text \<open>The argument mapped to \<open>[-1, 1]\<close> at degree 1, and under FIXEDMANUAL its copy at degree 2; the
  argument itself may be rescaled.\<close>

definition cheb_first :: "Comparisons \<Rightarrow> CkksContext \<Rightarrow> real \<Rightarrow> real \<Rightarrow> Ciphertext \<Rightarrow> cpp_error + Ciphertext \<times> Ciphertext \<times> Ciphertext" where
  "cheb_first C cc a b x =
     bindE (copy_ct cc x fresh_ciphertext) (\<lambda>t.
     bindE (if cmp_nm1 C a \<or> cmp_n1 C b
            then let alpha = 2 / (b - a); beta = a * alpha
                 in bindE (if cmp_n1 C alpha
                           then bindE (if ct_noise x = 2 then rescaleInternal cc x else Inr x) (\<lambda>x.
                                bindE (multScalar_from cc x alpha False t) (\<lambda>t. Inr (x, t)))
                           else Inr (x, t)) (\<lambda>(x, t).
                    bindE (if cmp_nz C (- 1 - beta) then addScalar cc (- 1 - beta) t else Inr t) (\<lambda>t. Inr (x, t)))
            else Inr (x, t)) (\<lambda>(x, t).
     bindE (if cc_technique cc = FIXEDMANUAL then copy_ct cc t fresh_ciphertext else Inr fresh_ciphertext) (\<lambda>tn.
     bindE (if ct_noise t = 2 then rescaleInternal cc t else Inr t) (\<lambda>t.
     bindE (if cc_technique cc = FIXEDMANUAL \<and> ct_noise tn = 1 then multScalar cc 1 False tn else Inr tn) (\<lambda>tn.
     bindE (guardE Assert_failed (ct_noise t = 1 \<and> (cc_technique cc = FIXEDMANUAL \<longrightarrow> ct_noise tn = 2))) (\<lambda>_.
       Inr (x, t, tn)))))))"

definition cheb_power :: "CkksContext \<Rightarrow> Ciphertext \<Rightarrow> Ciphertext list \<Rightarrow> nat \<Rightarrow> (cpp_error + Ciphertext list) option" where
  "cheb_power cc tn T i =
     (if odd i
      then thenO (ct_mult3 cc Neither (T ! (i div 2 - 1)) (T ! (i div 2)) False fresh_ciphertext) (\<lambda>t.
           thenO (ct_add_self cc t) (\<lambda>t.
           thenO (ct_sub cc (if cc_technique cc = FIXEDMANUAL then tn else hd T) t) (\<lambda>t.
           thenO (Some (rescaleInternal cc t)) (\<lambda>t. Some (Inr (T @ [t]))))))
      else thenO (ct_square_from cc (T ! (i div 2 - 1)) False fresh_ciphertext) (\<lambda>t.
           thenO (ct_add_self cc t) (\<lambda>t.
           thenO (Some (addScalar cc (- 1) t)) (\<lambda>t.
           thenO (Some (rescaleInternal cc t)) (\<lambda>t. Some (Inr (T @ [t])))))))"

definition cheb_double :: "CkksContext \<Rightarrow> Ciphertext list \<Rightarrow> Ciphertext list \<times> Ciphertext list \<times> Ciphertext \<Rightarrow> nat
    \<Rightarrow> (cpp_error + Ciphertext list \<times> Ciphertext list \<times> Ciphertext) option" where
  "cheb_double cc T st i =
     (case st of (T2, T2_norescale, T2km1) \<Rightarrow>
        thenO (ct_square_from cc (if i = 1 then last T else T2 ! (i - 1)) False fresh_ciphertext) (\<lambda>t.
        thenO (ct_add_self cc t) (\<lambda>t.
        thenO (Some (addScalar cc (- 1) t)) (\<lambda>t.
        thenO (Some (copy_ct cc t fresh_ciphertext)) (\<lambda>tn.
        thenO (Some (rescale cc t)) (\<lambda>t.
        thenO (Some (if ct_noise t = 2 then rescaleInternal cc t else Inr t)) (\<lambda>t.
        thenO (ct_mult cc t False True T2km1) (\<lambda>p.
        thenO (ct_add_self cc p) (\<lambda>p.
        thenO (Some (rescale cc p)) (\<lambda>p.
        thenO (ct_sub cc (last T) p) (\<lambda>p.
        Some (Inr (T2 @ [t], T2_norescale @ [tn], p)))))))))))))"

text \<open>The evaluation of a polynomial on given bases: record, batch, replay.\<close>

definition cheb_replay :: "'c::field Scalars \<Rightarrow> 'c PolyLib \<Rightarrow> 'c WSums \<Rightarrow> CkksContext \<Rightarrow> nat \<Rightarrow> nat \<Rightarrow> Ciphertext list \<Rightarrow> Ciphertext list
    \<Rightarrow> Ciphertext list \<Rightarrow> 'c list \<Rightarrow> Ciphertext \<Rightarrow> (cpp_error + Ciphertext) option" where
  "cheb_replay S L W cc k m T T2 T2_norescale f2 ctxt =
     (let none = \<lparr>ps_constants = [], ps_target_level = [], rev_result_ciphertexts = []\<rparr>
      in thenO (innerEvalChebyshevPS S L W cc k RECORD T T2 T2_norescale m f2 0 ctxt none) (\<lambda>(ctxt, rec).
         thenO (ws_multiple W cc T (ps_constants rec) (ps_target_level rec) False) (\<lambda>ws.
         thenO (innerEvalChebyshevPS S L W cc k REMAINING T T2 T2_norescale m f2 0 ctxt (rec\<lparr>rev_result_ciphertexts := rev ws\<rparr>)) (\<lambda>(ctxt, rec).
           Some (Inr ctxt)))))"

definition evalChebyshevSeries :: "Comparisons \<Rightarrow> 'c::field Scalars \<Rightarrow> 'c PolyLib \<Rightarrow> 'c WSums \<Rightarrow> CkksContext \<Rightarrow> 'c list \<Rightarrow> real \<Rightarrow> real \<Rightarrow> Ciphertext
    \<Rightarrow> (cpp_error + Ciphertext) option" where
  "evalChebyshevSeries C S L W cc coefficients a b ctxt =
     thenO (Some (pl_Degree L coefficients)) (\<lambda>degree.
     if degree < 5 then evalChebyshevSeriesLinear C S cc coefficients a b ctxt
     else thenO (Some (pl_ComputeDegreesPS L degree)) (\<lambda>(k, m).
          thenO (Some (cheb_first C cc a b ctxt)) (\<lambda>(ctxt, t, tn).
          thenO (foldO (cheb_power cc tn) [t] [2..<Suc k]) (\<lambda>T.
          thenO (Some (copy_ct cc (last T) fresh_ciphertext)) (\<lambda>T2km1.
          thenO (foldO (cheb_double cc T) ([fresh_ciphertext], [fresh_ciphertext], T2km1) [1..<m]) (\<lambda>(T2, T2_norescale, T2km1).
          let k2m2k = k * 2 ^ (m - 1) - k
          in thenO (cheb_replay S L W cc k m T T2 T2_norescale (with_top (2 * k2m2k + k) (resize (degree + 1) coefficients)) ctxt) (\<lambda>ctxt.
             thenO (Some (rescale cc ctxt)) (\<lambda>ctxt.
             thenO (subMutable cc T2km1 ctxt) (\<lambda>(ctxt, T2km1). Some (Inr ctxt))))))))))"

section \<open>Double angles and modular reduction\<close>

text \<open>Slot \<open>j\<close> of a ciphertext is the value of its polynomial at the root of unity of angle \<open>5^j pi / N\<close>, so
  the monomial \<open>X^power\<close> multiplies it by that power of the root; from \<open>N\<close> on the code takes \<open>-1\<close> for
  the coefficient at \<open>power % N\<close>.\<close>

definition slot_root :: "nat \<Rightarrow> nat \<Rightarrow> complex" where
  "slot_root N j = cis (5 ^ j * pi / real N)"

definition multMonomial :: "CkksContext \<Rightarrow> nat \<Rightarrow> Ciphertext \<Rightarrow> cpp_error + Ciphertext" where
  "multMonomial cc e ct =
     bindE (ensure_ct cc ct) (\<lambda>ct.
       Inr (ct\<lparr>ct_msg := \<lambda>j. (if int e < cc_N cc then 1 else - 1) * slot_root (nat (cc_N cc)) j ^ nat (int e mod cc_N cc) * ct_msg ct j\<rparr>))"

definition double_angle :: "CkksContext \<Rightarrow> nat \<Rightarrow> Ciphertext \<Rightarrow> nat \<Rightarrow> (cpp_error + Ciphertext) option" where
  "double_angle cc r ctxt j =
     thenO (ct_square cc False ctxt) (\<lambda>ctxt.
     thenO (ct_add_self cc ctxt) (\<lambda>ctxt.
     thenO (Some (addScalar cc (- ((2 * pi) powr - (2 powr (real j - real r)))) ctxt)) (\<lambda>ctxt.
       Some (if cc_technique cc = FIXEDMANUAL then rescaleInternal cc ctxt else Inr ctxt))))"

definition applyDoubleAngleIterations :: "CkksContext \<Rightarrow> nat \<Rightarrow> Ciphertext \<Rightarrow> (cpp_error + Ciphertext) option" where
  "applyDoubleAngleIterations cc its ctxt = foldO (double_angle cc its) ctxt [1..<its + 1]"

text \<open>A product with a small integer, on the polynomials: no level, degree or factor changes.\<close>

definition multIntScalar :: "nat \<Rightarrow> Ciphertext \<Rightarrow> Ciphertext" where
  "multIntScalar n ct = ct\<lparr>ct_msg := msg_scale (real n) (ct_msg ct)\<rparr>"

definition approxModReductionSparse :: "Comparisons \<Rightarrow> real Scalars \<Rightarrow> real PolyLib \<Rightarrow> real WSums \<Rightarrow> CkksContext \<Rightarrow> real list \<Rightarrow> nat \<Rightarrow> nat \<Rightarrow> Ciphertext
    \<Rightarrow> (cpp_error + Ciphertext) option" where
  "approxModReductionSparse C S L W cc coefficients its post ctxt =
     thenO (Some (GetEvalKey (ct_keyID ctxt) (cc_keys cc))) (\<lambda>_.
     thenO (evalChebyshevSeries C S L W cc coefficients (- 1) 1 ctxt) (\<lambda>ctxt.
     thenO (applyDoubleAngleIterations cc its ctxt) (\<lambda>ctxt. Some (Inr (multIntScalar post ctxt)))))"

definition approxModReduction :: "Comparisons \<Rightarrow> real Scalars \<Rightarrow> real PolyLib \<Rightarrow> real WSums \<Rightarrow> CkksContext \<Rightarrow> real list \<Rightarrow> nat \<Rightarrow> nat \<Rightarrow> Ciphertext \<Rightarrow> Ciphertext
    \<Rightarrow> (cpp_error + Ciphertext \<times> Ciphertext) option" where
  "approxModReduction C S L W cc coefficients its post ctxtEnc ctxtEncI =
     thenO (evalChebyshevSeries C S L W cc coefficients (- 1) 1 ctxtEncI) (\<lambda>ctxtEncI.
     thenO (evalChebyshevSeries C S L W cc coefficients (- 1) 1 ctxtEnc) (\<lambda>ctxtEnc.
     thenO (applyDoubleAngleIterations cc its ctxtEnc) (\<lambda>ctxtEnc.
     thenO (applyDoubleAngleIterations cc its ctxtEncI) (\<lambda>ctxtEncI.
     thenO (Some (multMonomial cc (nat (cc_N cc div 2)) ctxtEncI)) (\<lambda>ctxtEncI.
     thenO (ct_add cc ctxtEncI ctxtEnc) (\<lambda>ctxtEnc.
       Some (Inr (multIntScalar post ctxtEnc, ctxtEncI))))))))"

end
