(* ===== verification/PolyPowers.thy ===== *)
theory PolyPowers
  imports PolyEval
begin

text \<open>
  The power set of the Paterson-Stockmeyer evaluator: \<open>evalPowersPS\<close> computes the powers of the
  encrypted values, aligned to the level of the highest one, each at the depth that the depth of a
  balanced product tree allows.
\<close>

section \<open>The depth of a power\<close>

fun clog :: "nat \<Rightarrow> nat" where
  "clog n = (if n \<le> 1 then 0 else Suc (clog ((n + 1) div 2)))"

declare clog.simps [simp del]

lemma clog_le: "clog n \<le> e \<longleftrightarrow> n \<le> 2 ^ e"
proof (induction n arbitrary: e rule: clog.induct)
  case (1 n)
  show ?case
  proof (cases "n \<le> 1")
    case True
    have "(1::nat) \<le> 2 ^ e" by simp
    then have "n \<le> 2 ^ e" using True by (rule order_trans [rotated])
    then show ?thesis using True by (simp add: clog.simps [of n])
  next
    case False
    show ?thesis
    proof (cases e)
      case 0
      then show ?thesis using False by (simp add: clog.simps [of n])
    next
      case (Suc e')
      have "clog n \<le> e \<longleftrightarrow> (n + 1) div 2 \<le> 2 ^ e'" using 1 [of e'] False Suc by (simp add: clog.simps [of n])
      also have "\<dots> \<longleftrightarrow> n \<le> 2 * 2 ^ e'" by (auto simp: div_le_mono)
      finally show ?thesis by (simp add: Suc)
    qed
  qed
qed

lemma clog_mono: "m \<le> n \<Longrightarrow> clog m \<le> clog n"
  using clog_le [of n "clog n"] clog_le [of m "clog n"] by simp

lemma clog_power [simp]: "clog (2 ^ a) = a"
proof -
  have "clog (2 ^ a) \<le> e \<longleftrightarrow> a \<le> e" for e by (simp add: clog_le)
  then show ?thesis by (meson order_antisym order_refl)
qed

lemma clog_split:
  assumes "0 < r" and "r \<le> 2 ^ a"
  shows "clog (2 ^ a + r) = Suc a"
proof -
  have "clog (2 ^ a + r) \<le> Suc a" using assms by (simp add: clog_le)
  moreover have "\<not> clog (2 ^ a + r) \<le> a" using assms by (simp add: clog_le)
  ultimately show ?thesis by simp
qed

lemma clog_1 [simp]: "clog (Suc 0) = 0"
  using clog_power [of 0] by simp

section \<open>Powers up to \<open>k\<close>\<close>

text \<open>The first \<open>n\<close> entries hold powers, the others are still empty.\<close>

definition powers_upto :: "CkksContext \<Rightarrow> string \<Rightarrow> int \<Rightarrow> int \<Rightarrow> msg \<Rightarrow> nat \<Rightarrow> nat \<Rightarrow> Ciphertext list \<Rightarrow> bool" where
  "powers_upto cc key s d z k n powers \<longleftrightarrow> length powers = k
     \<and> (\<forall>i < k. if i < n then holds cc key s (d - int (clog (Suc i))) (\<lambda>j. z j ^ Suc i) (powers ! i) \<and> (0 < i \<longrightarrow> ct_noise (powers ! i) = 2)
         else ct_state (powers ! i) = None)"

lemma powers_uptoD:
  assumes "powers_upto cc key s d z k n powers"
  shows "length powers = k" and "i < n \<Longrightarrow> i < k \<Longrightarrow> holds cc key s (d - int (clog (Suc i))) (\<lambda>j. z j ^ Suc i) (powers ! i)"
    and "n \<le> i \<Longrightarrow> i < k \<Longrightarrow> ct_state (powers ! i) = None" and "i < n \<Longrightarrow> i < k \<Longrightarrow> 0 < i \<Longrightarrow> ct_noise (powers ! i) = 2"
  using assms by (simp_all add: powers_upto_def del: power_Suc)

lemma msg_mult_power: "msg_mult (\<lambda>j. z j ^ a) (\<lambda>j. z j ^ b) = (\<lambda>j. z j ^ (a + b))"
  by (simp add: msg_mult_def power_add)

lemma returns_put:
  assumes "returns r Q" and "\<And>c. Q c \<Longrightarrow> R (powers[i := c])"
  shows "returns (put_power i powers r) R"
  using assms by (auto simp: put_power_def returns_def)

lemma powers_upto_put:
  assumes "powers_upto cc key s d z k n powers" and "holds2 cc key s (d - int (clog (Suc n))) (\<lambda>j. z j ^ Suc n) c"
  shows "powers_upto cc key s d z k (Suc n) (powers[n := c])"
  using assms by (auto simp: powers_upto_def holds2_def nth_list_update less_Suc_eq)

text \<open>The invariant of the loop over \<open>i\<close>: the next exponent is \<open>2^a + rem\<close>.\<close>

definition power_state :: "CkksContext \<Rightarrow> string \<Rightarrow> int \<Rightarrow> int \<Rightarrow> msg \<Rightarrow> nat \<Rightarrow> nat \<Rightarrow> Ciphertext list \<times> nat \<times> nat \<Rightarrow> bool" where
  "power_state cc key s d z k i st \<longleftrightarrow> (case st of (powers, powerOf2, rem) \<Rightarrow>
     powers_upto cc key s d z k (i - 1) powers \<and> (\<exists>a. powerOf2 = 2 ^ a \<and> 0 < a) \<and> rem < powerOf2 \<and> i = powerOf2 + rem)"

text \<open>The two ways to a power: a square for \<open>2^a\<close>, else the product of the leading power of two and the rest.\<close>

lemma power_square:
  assumes F: "flex cc" and key: "has_eval_key cc key" and d: "int (Suc b) \<le> d"
    and h: "holds cc key s (d - int b) (\<lambda>j. z j ^ 2 ^ b) x" and empty: "ct_state ct = None"
  shows "returns (ct_square_from cc x False ct) (holds2 cc key s (d - int (clog (2 ^ Suc b))) (\<lambda>j. z j ^ 2 ^ Suc b))"
proof -
  have "1 \<le> d - int b" using d by simp
  from holds_square_from [OF F key h this empty]
  have "returns (ct_square_from cc x False ct) (holds2 cc key s (d - int b - 1) (\<lambda>j. z j ^ (2 ^ b + 2 ^ b)))"
    by (simp only: msg_mult_power)
  moreover have "d - int b - 1 = d - int (clog (2 ^ Suc b))" by (simp only: clog_power of_nat_Suc diff_diff_eq add.commute)
  ultimately show ?thesis by (simp add: mult_2)
qed

lemma power_product:
  assumes F: "flex cc" and key: "has_eval_key cc key" and r: "0 < r" "r < 2 ^ a" and d: "int (Suc a) \<le> d"
    and h: "holds cc key s (d - int a) (\<lambda>j. z j ^ 2 ^ a) x" "holds cc key s (d - int (clog r)) (\<lambda>j. z j ^ r) y" and empty: "ct_state ct = None"
  shows "returns (ct_mult3 cc Neither x y False ct) (holds2 cc key s (d - int (clog (2 ^ a + r))) (\<lambda>j. z j ^ (2 ^ a + r)))"
proof -
  have c: "clog (2 ^ a + r) = Suc a" using clog_split [of r a] r by simp
  have cr: "clog r \<le> a" using r by (simp add: clog_le)
  have "returns (ct_mult3 cc Neither x y False ct) (holds2 cc key s (min (d - int a) (d - int (clog r)) - 1) (\<lambda>j. z j ^ (2 ^ a + r)))"
    using holds_mult3 [OF F key h _ _ empty] d cr by (simp only: msg_mult_power)
  moreover have "min (d - int a) (d - int (clog r)) - 1 = d - int (clog (2 ^ a + r))" using cr c by simp
  ultimately show ?thesis by simp
qed

lemma full_power_step:
  assumes F: "flex cc" and key: "has_eval_key cc key" and d: "int (clog k) \<le> d"
    and i: "2 \<le> i" "i \<le> k" and st: "power_state cc key s d z k i st"
  shows "returns (full_power cc False st i) (power_state cc key s d z k (Suc i))"
proof -
  obtain powers a rem where p: "st = (powers, 2 ^ a, rem)" "0 < a" "rem < 2 ^ a" "i = 2 ^ a + rem"
    and P: "powers_upto cc key s d z k (i - 1) powers"
    using st by (auto simp: power_state_def)
  have len: "length powers = k" and empty: "ct_state (powers ! (i - 1)) = None"
    using P i by (auto simp: powers_upto_def)
  have le: "int (clog i) \<le> d" using clog_mono [OF i(2)] d by linarith
  have pw: "holds cc key s (d - int (clog n)) (\<lambda>j. z j ^ n) (powers ! (n - 1))" if "0 < n" "n < i" for n
    using powers_uptoD(2) [OF P, of "n - 1"] that i by simp
  have mx: "cc_technique cc \<noteq> FIXEDMANUAL" using F by (simp add: flex_def)
  have i1: "Suc (i - 1) = i" using i by simp
  let ?put = "\<lambda>r. returns (put_power (i - 1) powers r) (powers_upto cc key s d z k i)"
  have put: "?put r" if "returns r (holds2 cc key s (d - int (clog i)) (\<lambda>j. z j ^ i))" for r
    using that powers_upto_put [OF P] i1 by (auto intro!: returns_put)
  have step: "returns (if rem = 0 then put_power (i - 1) powers (ct_square_from cc (powers ! (2 ^ a div 2 - 1)) False (powers ! (i - 1)))
         else put_power (i - 1) powers (ct_mult3 cc Neither (powers ! (2 ^ a - 1)) (powers ! (rem - 1)) False (powers ! (i - 1))))
       (powers_upto cc key s d z k i)"
  proof (cases "rem = 0")
    case True
    obtain b where b: "a = Suc b" using p(2) gr0_conv_Suc by blast
    then have e: "2 ^ a div 2 = (2 ^ b :: nat)" "i = 2 ^ Suc b" using p(4) True by simp_all
    have "int (Suc b) \<le> d" using le unfolding e(2) clog_power .
    moreover have "holds cc key s (d - int b) (\<lambda>j. z j ^ 2 ^ b) (powers ! (2 ^ b - 1))" using pw [of "2 ^ b"] e(2) by simp
    ultimately have "returns (ct_square_from cc (powers ! (2 ^ b - 1)) False (powers ! (i - 1))) (holds2 cc key s (d - int (clog i)) (\<lambda>j. z j ^ i))"
      using power_square [OF F key _ _ empty] unfolding e(2) by blast
    then show ?thesis using put True unfolding e(1) by (simp only: if_True simp_thms)
  next
    case False
    have c: "clog i = Suc a" using clog_split [of rem a] p False by simp
    have "holds cc key s (d - int a) (\<lambda>j. z j ^ 2 ^ a) (powers ! (2 ^ a - 1))"
        "holds cc key s (d - int (clog rem)) (\<lambda>j. z j ^ rem) (powers ! (rem - 1))"
      using pw [of "2 ^ a"] pw [of rem] p False by simp_all
    then have "returns (ct_mult3 cc Neither (powers ! (2 ^ a - 1)) (powers ! (rem - 1)) False (powers ! (i - 1)))
        (holds2 cc key s (d - int (clog i)) (\<lambda>j. z j ^ i))"
      using power_product [OF F key _ p(3) _ _ _ empty] le c False unfolding p(4) by simp
    then show ?thesis using put False by (simp only: if_False)
  qed
  have keep: "put_power (i - 1) ps (Some (power_rescale cc False (ps ! (i - 1)))) = Some (Inr ps)" for ps
    by (simp add: put_power_def power_rescale_def rescale_flexible [OF F])
  have nx: "\<exists>b. 2 * 2 ^ a = (2 ^ b :: nat) \<and> 0 < b" by (rule exI [of _ "Suc a"]) simp
  have "returns (full_power cc False (powers, 2 ^ a, rem) i)
      (\<lambda>st. \<exists>ps. powers_upto cc key s d z k i ps \<and> st = (if Suc rem = 2 ^ a then (ps, 2 * 2 ^ a, 0) else (ps, 2 ^ a, Suc rem)))"
    using step by (auto simp: full_power_def level_power_def mx keep [unfolded One_nat_def] intro!: returns_thenO elim!: returns_weaken)
  then show ?thesis
    unfolding p(1) by (rule returns_weaken) (use p nx in \<open>auto simp: power_state_def split: if_splits\<close>)
qed

text \<open>All powers up to \<open>k\<close>.\<close>

lemma full_powers:
  assumes F: "flex cc" and key: "has_eval_key cc key" and d: "int (clog k) \<le> d" and k: "1 \<le> k"
    and x: "holds cc key s d z x"
  shows "returns (thenO (put_power 0 (replicate k fresh_ciphertext) (Some (copy_ct cc x (replicate k fresh_ciphertext ! 0))))
      (\<lambda>powers. foldO (full_power cc False) (powers, 2, 0) [2..<Suc k])) (\<lambda>(powers, _). powers_upto cc key s d z k k powers)"
proof -
  have p0: "powers_upto cc key s d z k 1 ((replicate k fresh_ciphertext)[0 := x])"
    using k x by (auto simp: powers_upto_def nth_list_update)
  have 1: "returns (put_power 0 (replicate k fresh_ciphertext) (Some (copy_ct cc x (replicate k fresh_ciphertext ! 0))))
      (powers_upto cc key s d z k 1)"
    using p0 k holds_state [OF x] by (simp add: put_power_def copy_resident)
  have 2: "returns (foldO (full_power cc False) (ps, 2, 0) [2..<Suc k]) (\<lambda>(powers, _). powers_upto cc key s d z k k powers)"
    if ps: "powers_upto cc key s d z k 1 ps" for ps
  proof (cases "k = 1")
    case True
    then show ?thesis using ps by simp
  next
    case False
    have "power_state cc key s d z k 2 (ps, 2, 0)" using ps by (auto simp: power_state_def intro!: exI [of _ 1])
    then have "returns (foldO (full_power cc False) (ps, 2, 0) [2..<Suc k]) (power_state cc key s d z k (Suc k))"
      using False k by (intro returns_foldO_upt full_power_step [OF F key d]) simp_all
    then show ?thesis by (rule returns_weaken) (auto simp: power_state_def)
  qed
  from 1 2 show ?thesis by (rule returns_thenO)
qed

section \<open>Alignment\<close>

definition aligned_at :: "CkksContext \<Rightarrow> string \<Rightarrow> int \<Rightarrow> int \<Rightarrow> int \<Rightarrow> int \<Rightarrow> msg \<Rightarrow> nat \<Rightarrow> Ciphertext \<Rightarrow> bool" where
  "aligned_at cc key s d n l z i a \<longleftrightarrow> holds cc key s d (\<lambda>j. z j ^ Suc i) a \<and> ct_noise a = n \<and> ct_level a = l"

definition aligned :: "CkksContext \<Rightarrow> string \<Rightarrow> int \<Rightarrow> int \<Rightarrow> int \<Rightarrow> int \<Rightarrow> msg \<Rightarrow> nat \<Rightarrow> Ciphertext list \<Rightarrow> bool" where
  "aligned cc key s d n l z k powers \<longleftrightarrow> length powers = k \<and> (\<forall>i < k. aligned_at cc key s d n l z i (powers ! i))"

definition aligned_set :: "CkksContext \<Rightarrow> string \<Rightarrow> int \<Rightarrow> int \<Rightarrow> msg \<Rightarrow> nat \<Rightarrow> Ciphertext list \<Rightarrow> bool" where
  "aligned_set cc key s d z k powers \<longleftrightarrow> (\<exists>n l. aligned cc key s d n l z k powers)"

lemma holds_target:
  assumes "holds cc key s d v a"
  shows "target_ok cc (ct_noise a) (ct_level a)" "ct_factor a = scale_of cc (ct_noise a) (ct_level a)"
    and "getLevel a = ct_level a" and "ct_level a - (if ct_noise a = 2 then 1 else 0) = d"
  using holdsD [OF assms] operand_target operand_factor getLevel_resident [OF holds_state [OF assms]] by (auto simp: depth_def)

lemma align_powers:
  assumes F: "flex cc" and k: "1 \<le> k" and ps: "powers_upto cc key s d z k k powers"
  shows "\<exists>r. foldE (align_power cc k) powers [1..<k] = Inr r
    \<and> aligned cc key s (d - int (clog k)) (ct_noise (powers ! (k - 1))) (ct_level (powers ! (k - 1))) z k r"
proof -
  let ?c = "powers ! (k - 1)" and ?n = "ct_noise (powers ! (k - 1))" and ?l = "ct_level (powers ! (k - 1))" and ?d = "d - int (clog k)"
  have c: "holds cc key s ?d (\<lambda>j. z j ^ k) ?c" using powers_uptoD(2) [OF ps, of "k - 1"] k by simp
  note T = holds_target [OF c]
  have order: "(ct_level (powers ! i) = ?l \<longrightarrow> ct_noise (powers ! i) \<le> ?n) \<and> ?l \<le> ct_level (powers ! i)" if i: "i < k" for i
  proof (cases "i = k - 1")
    case False
    then have k2: "Suc i < k" "?n = 2" using i powers_uptoD(4) [OF ps, of "k - 1"] by simp_all
    note hi = powers_uptoD(2) [OF ps i i]
    note Ti = holds_target(4) [OF hi] and ni = operand_noise [OF holdsD(1) [OF hi]]
    have "clog (Suc i) \<le> clog k" using k2 by (intro clog_mono) simp
    moreover have "i = 0 \<Longrightarrow> 0 < clog k" using k2(1) clog_le [of k 0] by simp
    moreover have "0 < i \<Longrightarrow> ct_noise (powers ! i) = 2" using powers_uptoD(4) [OF ps i i] .
    ultimately show ?thesis using Ti ni T(4) k2(2) by (cases "i = 0") auto
  qed simp
  have mx: "cc_technique cc \<noteq> FIXEDMANUAL" using F by (simp add: flex_def)
  let ?at = "aligned_at cc key s ?d ?n ?l z"
  let ?I = "\<lambda>m r. length r = k \<and> (\<forall>i. Suc i < m \<and> i < k \<longrightarrow> ?at i (r ! i)) \<and> (\<forall>i. m \<le> Suc i \<and> i < k \<longrightarrow> r ! i = powers ! i)"
  have one: "\<exists>r'. align_power cc k r i = Inr r' \<and> ?I (Suc i) r'" if i: "1 \<le> i" "i < k" and I: "?I i r" for i r
  proof -
    have ri: "r ! (i - 1) = powers ! (i - 1)" "r ! (k - 1) = ?c" using I i by simp_all
    have h: "holds cc key s (d - int (clog i)) (\<lambda>j. z j ^ i) (powers ! (i - 1))" using powers_uptoD(2) [OF ps, of "i - 1"] i by simp
    have "clog i \<le> clog k" using i by (intro clog_mono) simp
    then have le: "?l - (if ?n = 2 then 1 else 0) \<le> d - int (clog i)" using T(4) by simp
    obtain a where a: "adjustScaleAndLevel cc ?n ?l (scale_of cc ?n ?l) (powers ! (i - 1)) = Inr (True, a)"
        "holds cc key s (?l - (if ?n = 2 then 1 else 0)) (\<lambda>j. z j ^ i) a" "ct_noise a = ?n" "ct_level a = ?l"
      using holds_adjust [OF F h T(1) le] order [of "i - 1"] i by force
    have "align_power cc k r i = Inr (r[i - 1 := a])"
      using mx a(1) ri T(2,3) by (simp add: align_power_def Let_def)
    moreover have "?at (i - 1) a" using a(2-4) T(4) i by (simp add: aligned_at_def del: power_Suc)
    then have "?I (Suc i) (r[i - 1 := a])"
      using I i by (cases i) (auto simp: nth_list_update less_Suc_eq)
    ultimately show ?thesis by blast
  qed
  have "\<exists>r. foldE (align_power cc k) powers [1..<k] = Inr r \<and> ?I k r"
    by (rule foldE_range [where I = ?I]) (use one k powers_uptoD(1) [OF ps] in auto)
  then obtain r where r: "foldE (align_power cc k) powers [1..<k] = Inr r" "?I k r" by blast
  have "?at (k - 1) ?c" using c k by (simp add: aligned_at_def del: power_Suc)
  have "?at i (r ! i)" if "i < k" for i
  proof (cases "Suc i < k")
    case False
    then have "i = k - 1" using that by simp
    then show ?thesis using r(2) \<open>?at (k - 1) ?c\<close> k by simp
  qed (use r(2) that in simp)
  then show ?thesis using r by (auto simp: aligned_def)
qed

section \<open>The giant steps\<close>

definition giant_state :: "CkksContext \<Rightarrow> string \<Rightarrow> int \<Rightarrow> int \<Rightarrow> msg \<Rightarrow> nat \<Rightarrow> nat \<Rightarrow> nat
    \<Rightarrow> Ciphertext list \<times> Ciphertext list \<times> Ciphertext \<Rightarrow> bool" where
  "giant_state cc key s d z k m i st \<longleftrightarrow> (case st of (powers2, norescale, p) \<Rightarrow>
     length powers2 = m
     \<and> (\<forall>j. 1 \<le> j \<and> j < i \<and> j < m \<longrightarrow> holds cc key s (d - int j) (\<lambda>t. z t ^ (k * 2 ^ j)) (powers2 ! j))
     \<and> (\<forall>j. i \<le> j \<and> j < m \<longrightarrow> ct_state (powers2 ! j) = None)
     \<and> holds cc key s (if i \<le> 1 then d else d - int i) (\<lambda>t. z t ^ (k * (2 ^ i - 1))) p)"

lemma giant_power_step:
  assumes F: "flex cc" and key: "has_eval_key cc key" and d: "int m \<le> d" and i: "1 \<le> i" "i < m"
    and last: "holds cc key s d (\<lambda>t. z t ^ k) (last powers)" and st: "giant_state cc key s d z k m i st"
  shows "returns (giant_power cc False powers st i) (giant_state cc key s d z k m (Suc i))"
proof -
  obtain powers2 norescale p where e: "st = (powers2, norescale, p)" by (cases st)
  let ?b = "if i = 1 then last powers else powers2 ! (i - 1)"
  have P: "length powers2 = m" "\<And>j. 1 \<le> j \<Longrightarrow> j < i \<Longrightarrow> holds cc key s (d - int j) (\<lambda>t. z t ^ (k * 2 ^ j)) (powers2 ! j)"
      "\<And>j. i \<le> j \<Longrightarrow> j < m \<Longrightarrow> ct_state (powers2 ! j) = None"
      "holds cc key s (if i \<le> 1 then d else d - int i) (\<lambda>t. z t ^ (k * (2 ^ i - 1))) p"
    using st i by (simp_all add: giant_state_def e)
  have b: "holds cc key s (d - int (i - 1)) (\<lambda>t. z t ^ (k * 2 ^ (i - 1))) ?b"
    using last P(2) [of "i - 1"] i by (cases "i = 1") simp_all
  have sq: "msg_mult (\<lambda>t. z t ^ (k * 2 ^ (i - 1))) (\<lambda>t. z t ^ (k * 2 ^ (i - 1))) = (\<lambda>t. z t ^ (k * 2 ^ i))"
    using i by (cases i) (simp_all add: msg_mult_power algebra_simps flip: mult_2)
  have "returns (ct_square_from cc ?b False (powers2 ! i))
      (holds2 cc key s (d - int (i - 1) - 1) (msg_mult (\<lambda>t. z t ^ (k * 2 ^ (i - 1))) (\<lambda>t. z t ^ (k * 2 ^ (i - 1)))))"
    using d i P(3) by (intro holds_square_from [OF F key b]) simp_all
  then have g: "returns (ct_square_from cc ?b False (powers2 ! i)) (holds cc key s (d - int i) (\<lambda>t. z t ^ (k * 2 ^ i)))"
    using i unfolding sq by (intro returns_holds2) (simp add: of_nat_diff)
  have pr: "returns (ct_mult cc c False True p) (holds cc key s (d - int (Suc i)) (\<lambda>t. z t ^ (k * (2 ^ Suc i - 1))))"
    if c: "holds cc key s (d - int i) (\<lambda>t. z t ^ (k * 2 ^ i)) c" for c
  proof -
    have "returns (ct_mult cc c False True p) (holds2 cc key s (min (if i \<le> 1 then d else d - int i) (d - int i) - 1)
        (msg_mult (\<lambda>t. z t ^ (k * (2 ^ i - 1))) (\<lambda>t. z t ^ (k * 2 ^ i))))"
      using d i by (intro holds_mult [OF F key P(4) c]) simp_all
    moreover have "min (if i \<le> 1 then d else d - int i) (d - int i) - 1 = d - int (Suc i)" using i by simp
    moreover have "k * (2 ^ i - 1) + k * 2 ^ i = k * (2 ^ Suc i - 1)"
    proof -
      have "2 ^ i - 1 + 2 ^ i = (2 ^ Suc i - 1 :: nat)" using one_le_power [of "2::nat" i] by simp
      then show ?thesis by (simp flip: distrib_left)
    qed
    ultimately show ?thesis by (simp only: msg_mult_power) (rule returns_holds2)
  qed
  note r = rescale_flexible [OF F]
  have "returns (thenO (ct_square_from cc ?b False (powers2 ! i)) (\<lambda>c. thenO (ct_mult cc c False True p) (\<lambda>p'.
      Some (Inr (powers2[i := c], norescale[i := norescale ! i], p'))))) (giant_state cc key s d z k m (Suc i))"
  proof (rule returns_thenO [OF g], rule returns_thenO [OF pr], assumption)
    fix c p'
    assume c: "holds cc key s (d - int i) (\<lambda>t. z t ^ (k * 2 ^ i)) c"
      and p': "holds cc key s (d - int (Suc i)) (\<lambda>t. z t ^ (k * (2 ^ Suc i - 1))) p'"
    show "returns (Some (Inr (powers2[i := c], norescale[i := norescale ! i], p'))) (giant_state cc key s d z k m (Suc i))"
      using P(1-3) i c p' by (auto simp: giant_state_def nth_list_update less_Suc_eq simp del: power_Suc)
  qed
  then show ?thesis by (simp add: giant_power_def e r)
qed

section \<open>The power set\<close>

definition power_set :: "CkksContext \<Rightarrow> string \<Rightarrow> int \<Rightarrow> int \<Rightarrow> msg \<Rightarrow> nat \<Rightarrow> nat \<Rightarrow> SeriesPowers \<Rightarrow> bool" where
  "power_set cc key s d z k m sp \<longleftrightarrow> sp_k sp = k \<and> sp_m sp = m \<and> aligned_set cc key s d z k (sp_powers sp)
     \<and> (\<forall>j. 1 \<le> j \<and> j < m \<longrightarrow> holds cc key s (d - int j) (\<lambda>t. z t ^ (k * 2 ^ j)) (sp_powers2 sp ! j))
     \<and> holds cc key s (if m \<le> 1 then d else d - int m) (\<lambda>t. z t ^ (k * (2 ^ m - 1))) (sp_power2km1 sp)"

lemma evalPowersPS_ok:
  assumes F: "flex cc" and key: "has_eval_key cc key" and L: "pl_ComputeDegreesPS L degree = Inr (k, m)" and km: "1 \<le> k" "1 \<le> m"
    and d: "int (clog k + m) \<le> d" and x: "holds cc key s d z x"
  shows "returns (evalPowersPS L cc degree False x) (power_set cc key s (d - int (clog k)) z k m)"
proof -
  let ?d = "d - int (clog k)"
  have step: "returns (thenO (Some (foldE (align_power cc k) powers [1..<k])) (\<lambda>powers.
         thenO (Some (copy_ct cc (powers ! (k - 1)) fresh_ciphertext)) (\<lambda>p.
         thenO (foldO (giant_power cc False powers) (replicate m fresh_ciphertext, replicate m fresh_ciphertext, p) [1..<m])
         (\<lambda>(powers2, norescale, p).
       Some (Inr \<lparr>sp_powers = powers, sp_powers2 = powers2, sp_powers2_norescale = norescale,
         sp_power2km1 = p, sp_k = k, sp_m = m\<rparr>))))) (power_set cc key s ?d z k m)"
    if ps: "powers_upto cc key s d z k k powers" for powers
  proof -
    obtain r n l where r: "foldE (align_power cc k) powers [1..<k] = Inr r" "aligned cc key s ?d n l z k r"
      using align_powers [OF F km(1) ps] by blast
    have "aligned_at cc key s ?d n l z (k - 1) (r ! (k - 1))" using r(2) km by (simp add: aligned_def)
    then have top: "holds cc key s ?d (\<lambda>j. z j ^ k) (r ! (k - 1))" using km by (simp add: aligned_at_def del: power_Suc)
    have "length r = k" using r(2) by (simp add: aligned_def)
    then have "last r = r ! (k - 1)" using km last_conv_nth [of r] by force
    then have last: "holds cc key s ?d (\<lambda>j. z j ^ k) (last r)" using top by simp
    have g: "giant_state cc key s ?d z k m 1 (replicate m fresh_ciphertext, replicate m fresh_ciphertext, r ! (k - 1))"
      using top by (simp add: giant_state_def)
    have "returns (foldO (giant_power cc False r) (replicate m fresh_ciphertext, replicate m fresh_ciphertext, r ! (k - 1)) [1..<m])
        (giant_state cc key s ?d z k m m)"
      using d by (intro returns_foldO_upt giant_power_step [OF F key _ _ _ last] g km) simp_all
    moreover have "aligned_set cc key s ?d z k r" using r(2) by (auto simp: aligned_set_def)
    ultimately show ?thesis
      using r(1) holds_state [OF top]
      by (auto simp: copy_resident giant_state_def power_set_def intro!: returns_thenO)
  qed
  have dk: "int (clog k) \<le> d" using d by simp
  note full = full_powers [OF F key dk km(1) x]
  have head: "evalPowersPS L cc degree False x
    = thenO (thenO (put_power 0 (replicate k fresh_ciphertext) (Some (copy_ct cc x (replicate k fresh_ciphertext ! 0))))
        (\<lambda>powers. foldO (full_power cc False) (powers, 2, 0) [2..<Suc k])) (\<lambda>(powers, powerOf2, rem).
       thenO (Some (foldE (align_power cc k) powers [1..<k])) (\<lambda>powers.
       thenO (Some (copy_ct cc (powers ! (k - 1)) fresh_ciphertext)) (\<lambda>p.
       thenO (foldO (giant_power cc False powers) (replicate m fresh_ciphertext, replicate m fresh_ciphertext, p) [1..<m])
         (\<lambda>(powers2, norescale, p).
       Some (Inr \<lparr>sp_powers = powers, sp_powers2 = powers2, sp_powers2_norescale = norescale,
         sp_power2km1 = p, sp_k = k, sp_m = m\<rparr>)))))"
    using km(1) by (simp add: evalPowersPS_def L thenO_assoc Let_def del: upt_Suc nth_replicate)
  show ?thesis unfolding head
  proof (rule returns_thenO [OF full])
    fix st :: "Ciphertext list \<times> nat \<times> nat"
    assume "case st of (powers, _) \<Rightarrow> powers_upto cc key s d z k k powers"
    then show "returns (case st of (powers, powerOf2, rem) \<Rightarrow>
       thenO (Some (foldE (align_power cc k) powers [1..<k])) (\<lambda>powers.
       thenO (Some (copy_ct cc (powers ! (k - 1)) fresh_ciphertext)) (\<lambda>p.
       thenO (foldO (giant_power cc False powers) (replicate m fresh_ciphertext, replicate m fresh_ciphertext, p) [1..<m])
         (\<lambda>(powers2, norescale, p).
       Some (Inr \<lparr>sp_powers = powers, sp_powers2 = powers2, sp_powers2_norescale = norescale,
         sp_power2km1 = p, sp_k = k, sp_m = m\<rparr>))))) (power_set cc key s ?d z k m)"
      using step by (cases st) simp
  qed
qed

end
