(* ===== verification/PolyCorrect.thy ===== *)
theory PolyCorrect
  imports PolyPowers "HOL-Library.More_List"
begin

text \<open>
  The Paterson-Stockmeyer evaluator in the power basis computes the polynomial: on every value
  that the ciphertext holds, at a depth that is known from the two parameters of the splitting. The type
  of the coefficients is abstract, with the laws of its products and sums on ciphertexts as a locale that
  both overloads of the code satisfy.
\<close>

section \<open>Coefficient vectors\<close>

abbreviation coeff :: "'c::zero list \<Rightarrow> nat \<Rightarrow> 'c" where
  "coeff \<equiv> nth_default 0"

definition degree_of :: "'c::zero list \<Rightarrow> nat" where
  "degree_of cs = length (strip_while ((=) 0) cs) - 1"

lemma degree_of_less: "cs \<noteq> [] \<Longrightarrow> degree_of cs < length cs"
  using length_strip_while_le [of "(=) 0" cs] by (cases cs) (auto simp: degree_of_def)

lemma coeff_above: "degree_of cs < i \<Longrightarrow> coeff cs i = 0"
proof -
  assume "degree_of cs < i"
  then have "coeff (strip_while ((=) 0) cs) i = 0"
    by (intro nth_default_beyond) (simp add: degree_of_def)
  then show ?thesis by (simp add: nth_default_strip_while_dflt)
qed

lemma degree_of_last: "cs \<noteq> [] \<Longrightarrow> last cs \<noteq> 0 \<Longrightarrow> degree_of cs = length cs - 1"
proof -
  assume "cs \<noteq> []" "last cs \<noteq> 0"
  then have "strip_while ((=) 0) cs = cs" by (cases cs rule: rev_cases) auto
  then show ?thesis by (simp add: degree_of_def)
qed

lemma coeff_last: "cs \<noteq> [] \<Longrightarrow> coeff cs (length cs - 1) = last cs"
  by (simp add: nth_default_nth last_conv_nth)

lemma coeff_resize: "coeff (resize n cs) i = (if i < n then coeff cs i else 0)"
  by (auto simp: resize_def nth_default_def nth_append)

lemma length_resize [simp]: "length (resize n cs) = n"
  by (simp add: resize_def)

lemma resize_nil [simp]: "resize n cs = [] \<longleftrightarrow> n = 0"
  using length_resize [of n cs] by (metis length_0_conv)

lemma coeff_update: "i < length cs \<Longrightarrow> coeff (cs[i := c]) j = (if j = i then c else coeff cs j)"
  by (auto simp: nth_default_def nth_list_update)

lemma coeff_minus_power:
  fixes r :: "'c::comm_ring_1 list"
  assumes "r \<noteq> []"
  shows "coeff (minus_power n (degree_of r) r) i = coeff r i - (if i = n then 1 else 0)"
    and "Suc n \<le> length (minus_power n (degree_of r) r)" and "length (minus_power n (degree_of r) r) = Suc (max n (degree_of r))"
proof -
  have z: "coeff r i = 0" if "degree_of r < i" for i using that by (rule coeff_above)
  show "coeff (minus_power n (degree_of r) r) i = coeff r i - (if i = n then 1 else 0)"
  proof (cases "n \<le> degree_of r")
    case True
    then have "resize (degree_of r + 1) r ! n = coeff r n"
      using coeff_resize [of "degree_of r + 1" r n] by (simp add: nth_default_nth)
    then show ?thesis using True z by (simp add: minus_power_def Let_def coeff_update coeff_resize not_less)
  next
    case False
    then show ?thesis using z by (simp add: minus_power_def coeff_update coeff_resize)
  qed
qed (auto simp: minus_power_def Let_def)

lemma unit_power_monic:
  fixes c :: "'c::comm_ring_1"
  shows "length (unit_power n :: 'c list) = Suc n" and "last (unit_power n :: 'c list) = 1" and "coeff (unit_power n :: 'c list) i = (if i = n then 1 else 0)"
  by (auto simp: unit_power_def nth_default_def nth_append)

lemma with_top_monic:
  shows "length (with_top n s) = Suc n" and "last (with_top n s) = 1"
    and "coeff (with_top n s) i = (if i < n then coeff s i else if i = n then 1 else 0)"
  by (auto simp: with_top_def last_list_update coeff_update coeff_resize)

section \<open>OpenFHE's helpers\<close>

text \<open>The degree of a vector, and division by a monic vector where it returns: for real and complex
  coefficients on which the comparisons with zero are exact.\<close>

definition quotient :: "'c::comm_ring_1 list \<Rightarrow> 'c list \<Rightarrow> 'c list \<Rightarrow> 'c list \<Rightarrow> bool" where
  "quotient f g q r \<longleftrightarrow> length q = length f - length g + 1 \<and> r \<noteq> [] \<and> (\<forall>i \<ge> length g - 1. coeff r i = 0)
     \<and> (\<forall>n. coeff f n = (\<Sum>i\<le>n. coeff q i * coeff g (n - i)) + coeff r n)"

definition poly_lib :: "'c::comm_ring_1 PolyLib \<Rightarrow> bool" where
  "poly_lib L \<longleftrightarrow> (\<forall>cs. cs \<noteq> [] \<longrightarrow> pl_Degree L cs = Inr (degree_of cs))
     \<and> (\<forall>f g q r. pl_LongDivisionPoly L f g = Inr (q, r) \<and> g \<noteq> [] \<and> last g = 1 \<and> length g \<le> length f \<longrightarrow> quotient f g q r)"

lemma poly_libD:
  assumes "poly_lib L"
  shows "cs \<noteq> [] \<Longrightarrow> pl_Degree L cs = Inr (degree_of cs)"
    and "pl_LongDivisionPoly L f g = Inr (q, r) \<Longrightarrow> g \<noteq> [] \<Longrightarrow> last g = 1 \<Longrightarrow> length g \<le> length f \<Longrightarrow> quotient f g q r"
  using assms by (auto simp: poly_lib_def)

lemma quotient_monic:
  assumes Q: "quotient f g q r" and g: "g \<noteq> []" "last g = 1" and f: "length g \<le> length f" "last f = 1"
  shows "q \<noteq> []" and "last q = 1"
proof -
  let ?n = "length f - 1"
  have lq: "length q = length f - length g + 1" using Q by (simp add: quotient_def)
  then show q: "q \<noteq> []" by auto
  have lg: "1 \<le> length g" using g by (simp add: Suc_leI)
  have fn: "f \<noteq> []" using f(1) lg by auto
  have "coeff q i * coeff g (?n - i) = (if i = length q - 1 then last q * last g else 0)" if "i \<le> ?n" for i
  proof (cases "i = length q - 1")
    case True
    then have "?n - i = length g - 1" using lq f(1) lg by simp
    then show ?thesis using True coeff_last [OF q] coeff_last [OF g(1)] by simp
  next
    case False
    then consider "length q \<le> i" | "length g \<le> ?n - i" using lq that f(1) lg by linarith
    then show ?thesis using False by cases (simp_all add: nth_default_beyond)
  qed
  then have "(\<Sum>i\<le>?n. coeff q i * coeff g (?n - i)) = (\<Sum>i\<le>?n. if i = length q - 1 then last q * last g else 0)"
    by (intro sum.cong) simp_all
  also have "\<dots> = last q"
  proof -
    have "length q - 1 \<le> ?n" using lq lg by simp
    then show ?thesis using g(2) by simp
  qed
  finally have "(\<Sum>i\<le>?n. coeff q i * coeff g (?n - i)) = last q" .
  moreover have "coeff r ?n = 0" using Q f(1) by (auto simp: quotient_def)
  ultimately have "coeff f ?n = last q" using Q by (simp add: quotient_def)
  then show "last q = 1" using coeff_last [OF fn] f(2) by simp
qed

section \<open>Values\<close>

text \<open>A vector of coefficients as a combination of basis values; the power basis.\<close>

definition series :: "('c::zero \<Rightarrow> complex) \<Rightarrow> (nat \<Rightarrow> complex) \<Rightarrow> 'c list \<Rightarrow> complex" where
  "series v b cs = (\<Sum>i<length cs. v (coeff cs i) * b i)"

abbreviation poly_value :: "('c::zero \<Rightarrow> complex) \<Rightarrow> 'c list \<Rightarrow> complex \<Rightarrow> complex" where
  "poly_value v cs z \<equiv> series v (\<lambda>i. z ^ i) cs"

lemma series_sum:
  assumes "v 0 = 0" and "length cs \<le> n"
  shows "series v b cs = (\<Sum>i<n. v (coeff cs i) * b i)"
  unfolding series_def
  by (rule sum.mono_neutral_left) (use assms in \<open>auto simp: nth_default_beyond\<close>)

lemma series_upto:
  assumes "v 0 = 0" and "\<And>i. n < i \<Longrightarrow> coeff cs i = 0"
  shows "series v b cs = (\<Sum>i\<le>n. v (coeff cs i) * b i)"
proof -
  have "series v b cs = (\<Sum>i<max (length cs) (Suc n). v (coeff cs i) * b i)"
    by (rule series_sum) (simp_all add: assms(1))
  also have "\<dots> = (\<Sum>i\<le>n. v (coeff cs i) * b i)"
    by (rule sum.mono_neutral_right) (use assms in \<open>auto simp: less_max_iff_disj\<close>)
  finally show ?thesis .
qed

text \<open>The contract of the coefficients' operations: \<open>multScalar\<close> and \<open>addScalar\<close> act on the values, and the
  comparisons with zero and one are exact.\<close>

locale scalar_arith =
  fixes S :: "'c::comm_ring_1 Scalars" and v :: "'c \<Rightarrow> complex"
  assumes val_0: "v 0 = 0" and val_1: "v 1 = 1" and val_add: "v (c + c') = v c + v c'" and val_mult: "v (c * c') = v c * v c'"
    and mult_law: "flex cc \<Longrightarrow> holds cc key s d u a \<Longrightarrow> 1 \<le> d
      \<Longrightarrow> \<exists>r. sc_mult S cc c a = Inr r \<and> holds cc key s (d - 1) (\<lambda>j. v c * u j) r"
    and add_law: "flex cc \<Longrightarrow> holds cc key s d u a \<Longrightarrow> \<exists>r. sc_add S cc c a = Inr r \<and> holds cc key s d (\<lambda>j. u j + v c) r"
    and one_law: "\<not> sc_n1 S c \<Longrightarrow> c = 1" and zero_law: "\<not> sc_nz S c \<Longrightarrow> c = 0"
begin

lemma val_sum: "v (\<Sum>i\<in>A. f i) = (\<Sum>i\<in>A. v (f i))"
  by (induction A rule: infinite_finite_induct) (simp_all add: val_0 val_add)

text \<open>Division splits the value.\<close>

lemma quotient_value:
  assumes "quotient f g q r"
  shows "poly_value v f z = poly_value v q z * poly_value v g z + poly_value v r z"
proof -
  define N where "N = length q + length g + length f + length r"
  let ?c = "\<lambda>cs i. v (coeff cs i)"
  have up: "poly_value v cs z = (\<Sum>i\<le>n. ?c cs i * z ^ i)" if "length cs \<le> n" for cs n
    using that by (intro series_upto val_0) (simp add: nth_default_beyond)
  have "poly_value v q z * poly_value v g z = (\<Sum>i\<le>N. ?c q i * z ^ i) * (\<Sum>i\<le>N. ?c g i * z ^ i)"
    by (subst (1 2) up [of _ N]) (simp_all add: N_def)
  also have "\<dots> = (\<Sum>n\<le>N + N. (\<Sum>i\<le>n. ?c q i * ?c g (n - i)) * z ^ n)"
    by (rule polynomial_product) (auto simp: N_def nth_default_beyond val_0)
  finally have "poly_value v q z * poly_value v g z + poly_value v r z
      = (\<Sum>n\<le>N + N. (\<Sum>i\<le>n. ?c q i * ?c g (n - i)) * z ^ n) + (\<Sum>n\<le>N + N. ?c r n * z ^ n)"
    by (subst up [of r "N + N"]) (simp_all add: N_def)
  also have "\<dots> = (\<Sum>n\<le>N + N. ?c f n * z ^ n)"
    using assms by (simp add: quotient_def val_add val_sum val_mult distrib_right sum.distrib)
  also have "\<dots> = poly_value v f z" by (rule up [symmetric]) (simp add: N_def)
  finally show ?thesis by simp
qed

lemma unit_power_value: "poly_value v (unit_power n) z = z ^ n"
proof -
  have "poly_value v (unit_power n) z = (\<Sum>i\<le>n. v (coeff (unit_power n) i) * z ^ i)"
    by (rule series_upto) (simp_all add: unit_power_monic val_0)
  also have "\<dots> = (\<Sum>i\<le>n. if i = n then z ^ n else 0)"
    by (rule sum.cong) (simp_all add: unit_power_monic val_0 val_1)
  finally show ?thesis by simp
qed

lemma series_single:
  assumes "\<And>i. coeff f i = coeff g i + (if i = n then c else 0)"
  shows "series v b f = series v b g + v c * b n"
proof -
  let ?N = "length f + length g + n"
  have "series v b f = (\<Sum>i\<le>?N. v (coeff f i) * b i)" by (rule series_upto) (simp_all add: val_0 nth_default_beyond)
  also have "\<dots> = (\<Sum>i\<le>?N. v (coeff g i) * b i + (if i = n then v c * b n else 0))"
    by (intro sum.cong) (simp_all add: assms val_add val_0 distrib_right)
  also have "\<dots> = (\<Sum>i\<le>?N. v (coeff g i) * b i) + v c * b n" by (simp add: sum.distrib)
  also have "(\<Sum>i\<le>?N. v (coeff g i) * b i) = series v b g" by (rule series_upto [symmetric]) (simp_all add: val_0 nth_default_beyond)
  finally show ?thesis .
qed

lemma val_minus_1: "v (- 1) = - 1"
proof -
  have "v (- 1) + v 1 = v (- 1 + 1)" by (rule val_add [symmetric])
  also have "\<dots> = 0" by (simp only: add.left_inverse val_0)
  finally have "v (- 1) + 1 = 0" by (simp only: val_1)
  then show ?thesis by (simp add: eq_neg_iff_add_eq_0)
qed

end

section \<open>Splitting\<close>

text \<open>What a successful splitting of a monic polynomial of degree \<open>2 K + k\<close> yields, \<open>K = k (2^m - 1)\<close>.\<close>

definition monic :: "nat \<Rightarrow> 'c::comm_ring_1 list \<Rightarrow> bool" where
  "monic n cs \<longleftrightarrow> length cs = Suc n \<and> last cs = 1"

lemma monicD: "monic n cs \<Longrightarrow> cs \<noteq> []" "monic n cs \<Longrightarrow> length cs = Suc n" "monic n cs \<Longrightarrow> degree_of cs = n"
  "monic n cs \<Longrightarrow> coeff cs n = 1"
  using coeff_last [of cs] degree_of_last [of cs] by (cases "cs = []"; simp add: monic_def)+

lemma degree_bound: "cs \<noteq> [] \<Longrightarrow> (\<And>i. n \<le> i \<Longrightarrow> coeff cs i = 0) \<Longrightarrow> degree_of cs \<le> n - 1"
proof -
  assume ne: "cs \<noteq> []" and z: "\<And>i. n \<le> i \<Longrightarrow> coeff cs i = 0"
  show "degree_of cs \<le> n - 1"
  proof (cases "strip_while ((=) 0) cs = []")
    case True
    then show ?thesis unfolding degree_of_def True by simp
  next
    case False
    let ?t = "strip_while ((=) 0) cs"
    have "last ?t \<noteq> 0" using False no_trailing_strip_while [of "(=) 0" cs] by (simp add: no_trailing_unfold)
    then have "coeff cs (length ?t - 1) \<noteq> 0"
      using coeff_last [OF False] by (simp add: nth_default_strip_while_dflt)
    then have "\<not> n \<le> length ?t - 1" using z by blast
    then show ?thesis by (simp add: degree_of_def)
  qed
qed

context scalar_arith begin

lemma split_value:
  assumes L: "poly_lib L" and f: "monic (2 * (k * 2 ^ m - k) + k) f" and k: "1 \<le> k"
    and sp: "poly_split L k (Suc m) f = Inr (q, c, s)"
  shows "monic (k * 2 ^ m - k) q" and "monic (k * 2 ^ m - k) s" and "c \<noteq> []" and "degree_of c < k"
    and "poly_value v f z = (z ^ (k * 2 ^ m) + poly_value v c z) * poly_value v q z + poly_value v s z"
proof -
  define K where "K = k * 2 ^ m - k"
  have kK: "k * 2 ^ m = K + k" using k by (simp add: K_def)
  have f: "monic (2 * K + k) f" using f by (simp add: K_def)
  obtain r n s0 where q: "pl_LongDivisionPoly L f (unit_power (K + k)) = Inr (q, r)" and n: "pl_Degree L r = Inr n"
    and c: "pl_LongDivisionPoly L (minus_power K n r) q = Inr (c, s0)" and s: "s = with_top K s0"
    using sp by (auto simp: poly_split_def Let_def bindE_eq_Inr K_def)
  have u: "length (unit_power (K + k) :: 'c list) = Suc (K + k)" "last (unit_power (K + k) :: 'c list) = 1" "unit_power (K + k) \<noteq> []"
    by (simp_all add: unit_power_monic) (simp add: unit_power_def)
  have Q: "quotient f (unit_power (K + k)) q r"
    using f u by (intro poly_libD(2) [OF L q]) (simp_all add: monic_def)
  have lq: "length q = Suc K" using Q u f by (simp add: quotient_def monic_def)
  have mq: "q \<noteq> []" "last q = 1" using quotient_monic [OF Q u(3,2)] f u by (simp_all add: monic_def)
  show "monic (k * 2 ^ m - k) q" unfolding K_def [symmetric] using lq mq by (simp add: monic_def)
  have r: "r \<noteq> []" and rz: "\<And>i. K + k \<le> i \<Longrightarrow> coeff r i = 0" using Q u by (simp_all add: quotient_def)
  have nd: "n = degree_of r" using n poly_libD(1) [OF L r] by simp
  note mp = coeff_minus_power [OF r, of K, folded nd]
  have C: "quotient (minus_power K n r) q c s0"
    using lq mq mp(2) by (intro poly_libD(2) [OF L c]) simp_all
  show "c \<noteq> []" using C by (auto simp: quotient_def)
  have "n \<le> K + k - 1" unfolding nd using degree_bound [OF r rz] .
  then have "length c \<le> k" using C lq mp(3) k by (auto simp: quotient_def)
  then show "degree_of c < k" using degree_of_less [OF \<open>c \<noteq> []\<close>] by simp
  show "monic (k * 2 ^ m - k) s" unfolding K_def [symmetric] s monic_def by (simp add: with_top_monic)
  have "poly_value v (minus_power K n r) z = poly_value v r z + v (- 1) * z ^ K"
    by (rule series_single) (simp add: mp(1))
  moreover have "poly_value v s z = poly_value v s0 z + v 1 * z ^ K"
  proof (rule series_single)
    fix i
    have "coeff s0 i = 0" if "K \<le> i" using C lq that by (simp add: quotient_def)
    then show "coeff s i = coeff s0 i + (if i = K then 1 else 0)" by (simp add: s with_top_monic)
  qed
  ultimately have "poly_value v r z = poly_value v c z * poly_value v q z + poly_value v s z"
    using quotient_value [OF C, of z] by (simp add: val_1 val_minus_1 algebra_simps)
  moreover have "poly_value v f z = poly_value v q z * z ^ (k * 2 ^ m) + poly_value v r z"
    using quotient_value [OF Q, of z] by (simp only: unit_power_value kK)
  ultimately show "poly_value v f z = (z ^ (k * 2 ^ m) + poly_value v c z) * poly_value v q z + poly_value v s z"
    by (simp add: algebra_simps)
qed

end

section \<open>Weighted sums\<close>

lemma max_level_index: "max_level_index ctxs b is \<in> insert b (set is)"
  by (induction ctxs b "is" rule: max_level_index.induct) auto

lemma alignedD:
  assumes "aligned cc key s d n l z k powers" and "i < k"
  shows "length powers = k" and "holds cc key s d (\<lambda>j. z j ^ Suc i) (powers ! i)" and "ct_noise (powers ! i) = n"
    and "getLevel (powers ! i) = l"
  using assms holds_target(3) [of cc key s d "\<lambda>j. z j ^ Suc i" "powers ! i"]
  by (auto simp: aligned_def aligned_at_def simp del: power_Suc)

context scalar_arith begin

lemma series_tail:
  assumes "cs \<noteq> []"
  shows "series v b cs = (\<Sum>i<degree_of cs. v (cs ! Suc i) * b (Suc i)) + v (hd cs) * b 0"
proof -
  have "series v b cs = (\<Sum>i\<le>degree_of cs. v (coeff cs i) * b i)"
    by (rule series_upto [where v = v, OF val_0 coeff_above])
  also have "\<dots> = (\<Sum>i<Suc (degree_of cs). v (cs ! i) * b i)"
    using degree_of_less [OF assms] by (intro sum.cong) (auto simp: nth_default_nth less_Suc_eq_le)
  also have "\<dots> = v (cs ! 0) * b 0 + (\<Sum>i<degree_of cs. v (cs ! Suc i) * b (Suc i))"
    by (rule sum.lessThan_Suc_shift)
  finally show ?thesis using assms by (simp add: hd_conv_nth add.commute)
qed

lemmas tail_value = series_tail [where b = "\<lambda>i. z ^ i" for z, simplified power_0 mult_1_right]

lemma streamed_term:
  assumes F: "flex cc" and P: "aligned cc key s d n l z k powers" and "1 \<le> d" and i: "i < k" and m: "m < k"
  shows "\<exists>r. streamed_term S cc (powers ! m) c (powers ! i) = Inr r \<and> holds cc key s (d - 1) (\<lambda>j. v c * z j ^ Suc i) r"
proof -
  note A = alignedD [OF P i] and M = alignedD [OF P m]
  obtain b where b: "(if ct_noise (powers ! i) = 2 then rescaleInternal cc (powers ! i) else Inr (powers ! i)) = Inr b"
      "holds cc key s d (\<lambda>j. z j ^ Suc i) b"
    using holds_degree1 [OF F A(2)] by blast
  obtain r where "sc_mult S cc c b = Inr r" "holds cc key s (d - 1) (\<lambda>j. v c * z j ^ Suc i) r"
    using mult_law [OF F b(2) assms(3)] by blast
  then show ?thesis using b(1) A(3,4) M(3,4) holds_state [OF A(2)]
    by (simp add: streamed_term_def copy_resident guardE_def split: if_splits)
qed

lemma streamed_sum:
  assumes F: "flex cc" and P: "aligned cc key s d n l z k powers" and "1 \<le> d" and limit: "1 \<le> limit" "limit \<le> k" "limit < length w"
  shows "returns (evalPartialLinearWSum S cc powers w limit fresh_ciphertext) (holds cc key s (d - 1) (\<lambda>j. \<Sum>i<limit. v (w ! Suc i) * z j ^ Suc i))"
proof -
  let ?m = "max_level_index powers 0 [1..<limit]"
  have m: "?m < k" using max_level_index [of powers 0 "[1..<limit]"] limit by auto
  let ?step = "\<lambda>out i. thenO (Some (streamed_term S cc (powers ! ?m) (w ! (i + 1)) (powers ! i))) (\<lambda>term.
      if i = 0 then Some (copy_ct cc term out) else ct_add cc term out)"
  let ?I = "\<lambda>i out. if i = 0 then ct_state out = None
      else holds cc key s (d - 1) (\<lambda>j. \<Sum>i<i. v (w ! Suc i) * z j ^ Suc i) out"
  have "returns (?step out i) (?I (Suc i))" if i: "i < limit" and I: "?I i out" for i out
  proof -
    obtain t where t: "streamed_term S cc (powers ! ?m) (w ! Suc i) (powers ! i) = Inr t"
        "holds cc key s (d - 1) (\<lambda>j. v (w ! Suc i) * z j ^ Suc i) t"
      using streamed_term [OF F P assms(3) _ m, of i] i limit by auto
    show ?thesis
    proof (cases "i = 0")
      case True
      then show ?thesis using t I holds_state [OF t(2)] by (simp add: copy_resident)
    next
      case False
      have "msg_add (\<lambda>j. \<Sum>i<i. v (w ! Suc i) * z j ^ Suc i) (\<lambda>j. v (w ! Suc i) * z j ^ Suc i) = (\<lambda>j. \<Sum>i<Suc i. v (w ! Suc i) * z j ^ Suc i)"
        by (simp add: msg_add_def)
      then show ?thesis using False t(1) I holds_add [OF F _ t(2), of "d - 1" "\<lambda>j. \<Sum>i<i. v (w ! Suc i) * z j ^ Suc i" out] by simp
    qed
  qed
  then have "returns (foldO ?step fresh_ciphertext [0..<limit]) (?I limit)"
    using limit by (intro returns_foldO_upt) simp_all
  moreover have "powers \<noteq> []" "length powers = k" using alignedD(1) [OF P, of 0] limit by auto
  ultimately show ?thesis
    using F limit by (simp add: evalPartialLinearWSum_def flex_def Let_def)
qed

end

section \<open>The evaluator\<close>

text \<open>The splittings of the recursion succeed.\<close>

fun ps_regular :: "'c::comm_ring_1 PolyLib \<Rightarrow> nat \<Rightarrow> nat \<Rightarrow> 'c list \<Rightarrow> bool" where
  "ps_regular L k 0 f \<longleftrightarrow> False"
| "ps_regular L k (Suc m) f \<longleftrightarrow> (case poly_split L k (Suc m) f of Inl e \<Rightarrow> False
     | Inr (q, c, s) \<Rightarrow> m < 2 \<or> ps_regular L k m q \<and> ps_regular L k m s)"

context scalar_arith begin

lemma baby_part_ok:
  assumes F: "flex cc" and L: "poly_lib L" and P: "aligned cc key s d n l z k powers" and "1 \<le> d" "1 \<le> k" and q: "monic k q"
  shows "returns (baby_part S L cc k powers q) (\<lambda>r. \<exists>e \<ge> d - 1. holds cc key s e (\<lambda>j. poly_value v q (z j)) r)"
proof -
  let ?r = "resize k q" and ?n = "degree_of (resize k q)"
  have "k - 1 < k" using assms(5) by simp
  note top = alignedD(2) [OF P this]
  then have top: "holds cc key s d (\<lambda>j. z j ^ k) (powers ! (k - 1))" using assms(5) by simp
  obtain b where b: "sc_add S cc (hd q) (powers ! (k - 1)) = Inr b" "holds cc key s d (\<lambda>j. z j ^ k + v (hd q)) b"
    using add_law [OF F top] by blast
  have ne: "?r \<noteq> []" using assms(5) by simp
  have n: "?n < k" using degree_of_less [OF ne] by simp
  have hd: "hd ?r = hd q" using assms(5) monicD(1) [OF q] by (cases q; cases k) (simp_all add: resize_def)
  let ?sum = "\<lambda>z. \<Sum>i<?n. v (?r ! Suc i) * z ^ Suc i"
  have val: "poly_value v q z = (z ^ k + v (hd q)) + ?sum z" for z
  proof -
    have "poly_value v q z = poly_value v ?r z + v 1 * z ^ k"
    proof (rule series_single)
      fix i
      have "coeff q i = 0" if "k < i" using q that by (simp add: monic_def nth_default_beyond)
      then show "coeff q i = coeff ?r i + (if i = k then 1 else 0)"
        using monicD(4) [OF q] by (auto simp: coeff_resize)
    qed
    then show ?thesis using tail_value [OF ne, of z] hd by (simp add: val_1)
  qed
  have deg: "pl_Degree L ?r = Inr ?n" using poly_libD(1) [OF L ne] .
  have st: "ct_state (powers ! (k - 1)) = None" using holds_state [OF top] .
  show ?thesis
  proof (cases "?n = 0")
    case True
    then have "poly_value v q z = z ^ k + v (hd q)" for z using val by simp
    then show ?thesis using True b deg st monicD(1) [OF q] by (auto simp: baby_part_def copy_resident Let_def intro!: exI [of _ d])
  next
    case False
    have "returns (evalPartialLinearWSum S cc powers ?r ?n fresh_ciphertext) (holds cc key s (d - 1) (\<lambda>j. ?sum (z j)))"
      using False n by (intro streamed_sum [OF F P assms(4)]) simp_all
    moreover have "returns (ct_add cc t b) (\<lambda>r. \<exists>e \<ge> d - 1. holds cc key s e (\<lambda>j. poly_value v q (z j)) r)"
      if "holds cc key s (d - 1) (\<lambda>j. ?sum (z j)) t" for t
      using holds_add [OF F b(2) that] by (elim returns_weaken) (auto simp: msg_add_def val)
    ultimately have "returns (thenO (evalPartialLinearWSum S cc powers ?r ?n fresh_ciphertext) (\<lambda>t. ct_add cc t b))
        (\<lambda>r. \<exists>e \<ge> d - 1. holds cc key s e (\<lambda>j. poly_value v q (z j)) r)" by (rule returns_thenO)
    then show ?thesis using False b(1) deg st monicD(1) [OF q] by (simp add: baby_part_def copy_resident Let_def)
  qed
qed

lemma giant_part_ok:
  assumes F: "flex cc" and L: "poly_lib L" and P: "aligned cc key s d n l z k powers" and "1 \<le> d"
    and c: "c \<noteq> []" "degree_of c < k" and g: "holds cc key s e (\<lambda>j. z j ^ N) g" and "e \<le> d - 1"
  shows "returns (giant_part S L cc powers g c) (holds cc key s e (\<lambda>j. z j ^ N + poly_value v c (z j)))"
proof -
  let ?n = "degree_of c"
  let ?sum = "\<lambda>z. \<Sum>i<?n. v (c ! Suc i) * z ^ Suc i"
  have deg: "pl_Degree L c = Inr ?n" using poly_libD(1) [OF L c(1)] .
  have st: "ct_state g = None" using holds_state [OF g] .
  have k: "0 < k" using c(2) by simp
  note first = alignedD [OF P k]
  have hd: "hd powers = powers ! 0" using k first(1) by (cases powers) simp_all
  have fin: "returns (Some (sc_add S cc (hd c) u)) (holds cc key s e (\<lambda>j. z j ^ N + poly_value v c (z j)))"
    if "holds cc key s e (\<lambda>j. z j ^ N + ?sum (z j)) u" for u
    using add_law [OF F that, of "hd c"] tail_value [OF c(1)] by (auto simp: add.assoc)
  have sum: "holds cc key s e (\<lambda>j. z j ^ N + ?sum (z j)) r"
    if "holds cc key s (min e e') (msg_add (\<lambda>j. z j ^ N) (\<lambda>j. ?sum (z j))) r" "e \<le> e'" for r e'
    using that by (simp add: msg_add_def)
  consider "?n = 0" | "?n = 1" | "2 \<le> ?n" by linarith
  then show ?thesis
  proof cases
    case 1
    then show ?thesis using deg st fin [of g] g by (simp add: giant_part_def copy_resident)
  next
    case 2
    have one: "?sum z = v (c ! 1) * z" for z using 2 by simp
    have add1: "returns (ct_add cc g u) (holds cc key s e (\<lambda>j. z j ^ N + ?sum (z j)))"
      if "holds cc key s (d - 1) (\<lambda>j. v (c ! 1) * z j) u" for u
      using holds_add [OF F that g] assms(8) by (elim returns_weaken) (auto simp: msg_add_def one add.commute simp del: power_Suc)
    have add2: "returns (ct_add cc (powers ! 0) g) (holds cc key s e (\<lambda>j. z j ^ N + ?sum (z j)))" if "c ! 1 = 1"
      using holds_add [OF F g first(2)] assms(8) that by (elim returns_weaken) (auto simp: msg_add_def one val_1 simp del: power_Suc)
    obtain u where u: "sc_mult S cc (c ! 1) (powers ! 0) = Inr u" "holds cc key s (d - 1) (\<lambda>j. v (c ! 1) * z j) u"
      using mult_law [OF F first(2) assms(4)] by auto
    show ?thesis
    proof (cases "sc_n1 S (c ! 1)")
      case True
      then show ?thesis
        using 2 deg u(1) hd holds_state [OF first(2)] returns_thenO [OF add1 [OF u(2)] fin]
        by (simp add: giant_part_def scaled_from_def copyE_def copy_resident rescale_flexible [OF F])
    next
      case False
      then have "c ! 1 = 1" by (rule one_law)
      then show ?thesis
        using False 2 deg hd st returns_thenO [OF add2 fin] by (simp add: giant_part_def copy_resident)
    qed
  next
    case 3
    have len: "?n < length c" using degree_of_less [OF c(1)] .
    have "returns (evalPartialLinearWSum S cc powers c ?n fresh_ciphertext) (holds cc key s (d - 1) (\<lambda>j. ?sum (z j)))"
      using 3 c(2) len by (intro streamed_sum [OF F P assms(4)]) simp_all
    moreover have "returns (thenO (ct_add cc t g) (\<lambda>u. Some (sc_add S cc (hd c) u))) (holds cc key s e (\<lambda>j. z j ^ N + poly_value v c (z j)))"
      if t: "holds cc key s (d - 1) (\<lambda>j. ?sum (z j)) t" for t
      using holds_add [OF F g t] assms(8) by (intro returns_thenO [where Q = "holds cc key s e (\<lambda>j. z j ^ N + ?sum (z j))"] fin)
        (auto simp: msg_add_def)
    ultimately have "returns (thenO (evalPartialLinearWSum S cc powers c ?n fresh_ciphertext) (\<lambda>t.
        thenO (ct_add cc t g) (\<lambda>u. Some (sc_add S cc (hd c) u)))) (holds cc key s e (\<lambda>j. z j ^ N + poly_value v c (z j)))"
      by (rule returns_thenO)
    then show ?thesis using 3 deg st by (simp add: giant_part_def copy_resident)
  qed
qed

end

context scalar_arith begin

text \<open>One side of the recursion: a baby part or a recursive call.\<close>

lemma side_ok:
  assumes F: "flex cc" and L: "poly_lib L" and P: "aligned cc key s d n l z k powers" and m: "1 \<le> m" "int m \<le> d" and k: "1 \<le> k"
    and q: "monic (k * 2 ^ m - k) q"
    and IH: "2 \<le> m \<Longrightarrow> returns (innerEvalPolyPS S L cc k m powers powers2 q fresh_ciphertext) (holds cc key s (d - int m) (\<lambda>j. poly_value v q (z j)))"
  shows "returns (if degree_of q > k then innerEvalPolyPS S L cc k m powers powers2 q fresh_ciphertext else baby_part S L cc k powers q)
    (\<lambda>r. \<exists>e \<ge> d - int m. holds cc key s e (\<lambda>j. poly_value v q (z j)) r)"
proof (cases "m = 1")
  case True
  then have q: "monic k q" using q by (simp add: mult_2_right)
  have "1 \<le> d" using m by simp
  from baby_part_ok [OF F L P this k q] show ?thesis using True monicD(3) [OF q] by simp
next
  case False
  have "2 ^ 2 \<le> (2 ^ m :: nat)" using False m by (intro power_increasing) simp_all
  then have "k * 4 \<le> k * 2 ^ m" by simp
  then have "k < k * 2 ^ m - k" using k by linarith
  then have "k < degree_of q" by (simp only: monicD(3) [OF q])
  then show ?thesis using IH False m by (auto elim!: returns_weaken)
qed

lemma innerEvalPolyPS_ok:
  assumes F: "flex cc" and key: "has_eval_key cc key" and L: "poly_lib L" and P: "aligned cc key s d n l z k powers"
    and giant: "\<And>j. 1 \<le> j \<Longrightarrow> j < M \<Longrightarrow> holds cc key s (d - int j) (\<lambda>t. z t ^ (k * 2 ^ j)) (powers2 ! j)" and k: "1 \<le> k"
  shows "2 \<le> m \<Longrightarrow> m \<le> M \<Longrightarrow> int m \<le> d \<Longrightarrow> monic (2 * (k * 2 ^ (m - 1) - k) + k) f \<Longrightarrow> ps_regular L k m f
    \<Longrightarrow> returns (innerEvalPolyPS S L cc k m powers powers2 f fresh_ciphertext) (holds cc key s (d - int m) (\<lambda>j. poly_value v f (z j)))"
proof (induction m arbitrary: f)
  case (Suc m)
  then have m: "1 \<le> m" "m < M" "int m \<le> d" by simp_all
  obtain q c s2 where sp: "poly_split L k (Suc m) f = Inr (q, c, s2)" and reg: "2 \<le> m \<Longrightarrow> ps_regular L k m q \<and> ps_regular L k m s2"
    using Suc.prems(5) by (auto split: sum.splits)
  note V = split_value [OF L _ k sp]
  have f: "monic (2 * (k * 2 ^ m - k) + k) f" using Suc.prems(4) by simp
  note V = V [OF f]
  have half: "k * 2 ^ m - k = 2 * (k * 2 ^ (m - 1) - k) + k"
  proof -
    obtain e where e: "m = Suc e" using m(1) by (cases m) simp_all
    have "k \<le> k * 2 ^ e" "k * 2 ^ m = 2 * (k * 2 ^ e)" by (simp_all add: e)
    then show ?thesis unfolding e diff_Suc_1 by linarith
  qed
  have side: "returns (if degree_of g > k then innerEvalPolyPS S L cc k m powers powers2 g fresh_ciphertext else baby_part S L cc k powers g)
      (\<lambda>r. \<exists>e \<ge> d - int m. holds cc key s e (\<lambda>j. poly_value v g (z j)) r)"
    if g: "monic (k * 2 ^ m - k) g" and r: "2 \<le> m \<Longrightarrow> ps_regular L k m g" for g
    using m g r half by (intro side_ok [OF F L P _ _ k] Suc.IH) simp_all
  note G = giant [OF m(1,2)]
  have gp: "returns (giant_part S L cc powers (powers2 ! m) c) (holds cc key s (d - int m) (\<lambda>j. z j ^ (k * 2 ^ m) + poly_value v c (z j)))"
    using m Suc.prems(3) by (intro giant_part_ok [OF F L P _ V(3,4) G]) simp_all
  have deg: "pl_Degree L q = Inr (degree_of q)" "pl_Degree L s2 = Inr (degree_of s2)"
    using monicD(1) [OF V(1)] monicD(1) [OF V(2)] by (auto intro: poly_libD(1) [OF L])
  have val: "msg_add (msg_mult (\<lambda>j. z j ^ (k * 2 ^ m) + poly_value v c (z j)) (\<lambda>j. poly_value v q (z j))) (\<lambda>j. poly_value v s2 (z j))
      = (\<lambda>j. poly_value v f (z j))"
    by (simp add: msg_add_def msg_mult_def V(5))
  have mul: "returns (ct_mult3 cc Neither cu qu False fresh_ciphertext) (holds cc key s (d - int (Suc m))
      (msg_mult (\<lambda>j. z j ^ (k * 2 ^ m) + poly_value v c (z j)) (\<lambda>j. poly_value v q (z j))))"
    if cu: "holds cc key s (d - int m) (\<lambda>j. z j ^ (k * 2 ^ m) + poly_value v c (z j)) cu"
      and qu: "holds cc key s e (\<lambda>j. poly_value v q (z j)) qu" "d - int m \<le> e" for cu qu e
  proof -
    have "returns (ct_mult3 cc Neither cu qu False fresh_ciphertext) (holds2 cc key s (min (d - int m) e - 1)
        (msg_mult (\<lambda>j. z j ^ (k * 2 ^ m) + poly_value v c (z j)) (\<lambda>j. poly_value v q (z j))))"
      using qu(2) Suc.prems(3) by (intro holds_mult3 [OF F key cu qu(1)]) simp_all
    moreover have "min (d - int m) e - 1 = d - int (Suc m)" using qu(2) by simp
    ultimately show ?thesis by (simp only: returns_holds2)
  qed
  have sum: "returns (ct_add cc su p) (holds cc key s (d - int (Suc m)) (\<lambda>j. poly_value v f (z j)))"
    if p: "holds cc key s (d - int (Suc m)) (msg_mult (\<lambda>j. z j ^ (k * 2 ^ m) + poly_value v c (z j)) (\<lambda>j. poly_value v q (z j))) p"
      and su: "holds cc key s e (\<lambda>j. poly_value v s2 (z j)) su" "d - int m \<le> e" for p su e
    using holds_add [OF F p su(1)] su(2) by (elim returns_weaken) (simp add: val)
  have "returns (thenO (if degree_of q > k then innerEvalPolyPS S L cc k m powers powers2 q fresh_ciphertext else baby_part S L cc k powers q) (\<lambda>qu.
     thenO (if degree_of s2 > k then innerEvalPolyPS S L cc k m powers powers2 s2 fresh_ciphertext else baby_part S L cc k powers s2) (\<lambda>su.
     thenO (giant_part S L cc powers (powers2 ! m) c) (\<lambda>cu.
     thenO (ct_mult3 cc Neither cu qu False fresh_ciphertext) (\<lambda>out. ct_add cc su out)))))
     (holds cc key s (d - int (Suc m)) (\<lambda>j. poly_value v f (z j)))"
  proof (rule returns_thenO [OF side [OF V(1)]], use reg in blast, rule returns_thenO [OF side [OF V(2)]], use reg in blast, rule returns_thenO [OF gp])
    fix qu su cu
    assume "\<exists>e \<ge> d - int m. holds cc key s e (\<lambda>j. poly_value v q (z j)) qu" "\<exists>e \<ge> d - int m. holds cc key s e (\<lambda>j. poly_value v s2 (z j)) su"
      and cu: "holds cc key s (d - int m) (\<lambda>j. z j ^ (k * 2 ^ m) + poly_value v c (z j)) cu"
    then obtain e e' where qu: "holds cc key s e (\<lambda>j. poly_value v q (z j)) qu" "d - int m \<le> e"
        and su: "holds cc key s e' (\<lambda>j. poly_value v s2 (z j)) su" "d - int m \<le> e'" by blast
    show "returns (thenO (ct_mult3 cc Neither cu qu False fresh_ciphertext) (\<lambda>out. ct_add cc su out))
        (holds cc key s (d - int (Suc m)) (\<lambda>j. poly_value v f (z j)))"
      by (rule returns_thenO [OF mul [OF cu qu] sum [OF _ su]])
  qed
  then show ?case by (simp add: sp deg rescale_flexible [OF F])
qed simp

lemma evalPolyPSWithPrecomp_ok:
  assumes F: "flex cc" and key: "has_eval_key cc key" and L: "poly_lib L" and sp: "power_set cc key s d z k m sp"
    and k: "1 \<le> k" and m: "2 \<le> m" "int m \<le> d" and cs: "cs \<noteq> []" "degree_of cs < k * (2 ^ m - 1)"
    and reg: "ps_regular L k m (with_top (k * (2 ^ m - 1)) (resize (degree_of cs + 1) cs))"
  shows "returns (evalPolyPSWithPrecomp S L cc sp cs) (holds cc key s (d - int m) (\<lambda>j. poly_value v cs (z j)))"
proof -
  let ?D = "k * (2 ^ m - 1)" and ?cs = "resize (degree_of cs + 1) cs"
  have D: "2 * (k * 2 ^ (m - 1) - k) + k = ?D"
  proof -
    obtain e where e: "m = Suc e" using m(1) by (cases m) simp_all
    have "k \<le> k * 2 ^ e" by simp
    then show ?thesis by (simp add: e diff_mult_distrib2)
  qed
  obtain n l where P: "aligned cc key s d n l z k (sp_powers sp)" using sp by (auto simp: power_set_def aligned_set_def)
  have f: "monic ?D (with_top ?D ?cs)" by (simp add: monic_def with_top_monic)
  have eval: "returns (innerEvalPolyPS S L cc k m (sp_powers sp) (sp_powers2 sp) (with_top ?D ?cs) fresh_ciphertext)
      (holds cc key s (d - int m) (\<lambda>j. poly_value v (with_top ?D ?cs) (z j)))"
    using sp m reg f D by (intro innerEvalPolyPS_ok [OF F key L P _ k, where M = m]) (simp_all add: power_set_def)
  have val: "poly_value v (with_top ?D ?cs) t = poly_value v cs t + t ^ ?D" for t
  proof -
    have "poly_value v (with_top ?D ?cs) t = poly_value v cs t + v 1 * t ^ ?D"
      by (rule series_single) (use cs(2) coeff_above [of cs] in \<open>auto simp: with_top_monic coeff_resize\<close>)
    then show ?thesis by (simp add: val_1)
  qed
  have top: "holds cc key s (d - int m) (\<lambda>t. z t ^ ?D) (sp_power2km1 sp)" using sp m by (simp add: power_set_def)
  have "returns (ct_sub cc (sp_power2km1 sp) r) (holds cc key s (d - int m) (\<lambda>j. poly_value v cs (z j)))"
    if "holds cc key s (d - int m) (\<lambda>j. poly_value v (with_top ?D ?cs) (z j)) r" for r
    using holds_sub [OF F that top] by (elim returns_weaken) (simp only: msg_sub_def val add_diff_cancel_right' min.idem)
  with eval have "returns (thenO (innerEvalPolyPS S L cc k m (sp_powers sp) (sp_powers2 sp) (with_top ?D ?cs) fresh_ciphertext)
      (ct_sub cc (sp_power2km1 sp))) (holds cc key s (d - int m) (\<lambda>j. poly_value v cs (z j)))"
    by (rule returns_thenO)
  moreover have "sp_k sp = k" "sp_m sp = m" using sp by (simp_all add: power_set_def)
  ultimately show ?thesis using poly_libD(1) [OF L cs(1)] D by (simp add: evalPolyPSWithPrecomp_def Let_def)
qed

end

end
