(* ===== verification/PolyLinear.thy ===== *)
theory PolyLinear
  imports PolyCorrect
begin

unbundle bit_operations_syntax

text \<open>
  The evaluator for small degrees: \<open>evalPowersLinear\<close> computes the powers that the coefficients need and
  leaves the others empty; \<open>evalPolyLinearWithPrecomp\<close> reads only those.
\<close>

section \<open>Exponents\<close>

lemma split_exponent: "0 < i \<Longrightarrow> i = 2 ^ (msbOf i - 1) + low_bits i \<and> low_bits i < 2 ^ (msbOf i - 1)"
proof -
  assume i: "0 < i"
  let ?e = "msbOf i - 1"
  have b: "2 ^ ?e \<le> i" "i < 2 * 2 ^ ?e" using msbOf_bounds [OF i] power_Suc [of "2::nat" ?e] by auto
  then have "i div 2 ^ ?e = 1" by (intro div_nat_eqI) simp_all
  then show ?thesis using div_mult_mod_eq [of i "2 ^ ?e"] by (simp add: low_bits_mod)
qed

lemma pow2_low_bits: "0 < i \<Longrightarrow> pow2_or_0 i \<longleftrightarrow> low_bits i = 0"
proof -
  assume i: "0 < i"
  let ?e = "msbOf i - 1"
  note s = split_exponent [OF i]
  show ?thesis
  proof (cases "low_bits i = 0")
    case True
    then have e: "i = 2 ^ ?e" using s by simp
    have "i AND (i - 1) = take_bit ?e i" by (subst (2) e) (simp add: take_bit_eq_mask mask_eq_exp_minus_1)
    also have "\<dots> = 0" using True by (simp add: low_bits_mod take_bit_eq_mod)
    finally show ?thesis using True by (simp add: pow2_or_0_def)
  next
    case False
    have "i div 2 ^ ?e = 1" "(i - 1) div 2 ^ ?e = 1" using s False by (auto intro!: div_nat_eqI)
    then have "bit i ?e" "bit (i - 1) ?e" by (simp_all add: bit_iff_odd)
    then have "bit (i AND (i - 1)) ?e" by (simp add: bit_and_iff)
    then have "i AND (i - 1) \<noteq> 0" by (intro notI) simp
    then show ?thesis using False by (simp add: pow2_or_0_def)
  qed
qed

lemma pow2_power: "pow2_or_0 (2 ^ a)"
proof -
  have "(2 ^ a :: nat) AND (2 ^ a - 1) = take_bit a (2 ^ a)" by (simp add: take_bit_eq_mask mask_eq_exp_minus_1)
  then show ?thesis by (simp add: pow2_or_0_def take_bit_eq_mod)
qed

lemma pow2_exponent: "2 \<le> i \<Longrightarrow> pow2_or_0 i \<Longrightarrow> \<exists>b. i = 2 ^ Suc b"
proof -
  assume i: "2 \<le> i" "pow2_or_0 i"
  then have "i = 2 ^ (msbOf i - 1)" using split_exponent [of i] pow2_low_bits [of i] by simp
  moreover have "msbOf i - 1 \<noteq> 0"
  proof
    assume "msbOf i - 1 = 0"
    then have "i < 2" using msbOf_bounds [of i] i(1) by (cases "msbOf i") auto
    then show False using i(1) by simp
  qed
  ultimately show ?thesis by (metis not0_implies_Suc)
qed

section \<open>The marked powers\<close>

text \<open>Marking an exponent marks what its product needs.\<close>

definition chained :: "bool list \<Rightarrow> nat \<Rightarrow> bool" where
  "chained indices i \<longleftrightarrow> (indices ! (i - 1) \<longrightarrow> pow2_or_0 i \<or> pow2_or_0 (low_bits i) \<or> indices ! (low_bits i - 1))"

definition grows :: "bool list \<Rightarrow> bool list \<Rightarrow> bool" where
  "grows xs ys \<longleftrightarrow> length ys = length xs \<and> (\<forall>i < length xs. xs ! i \<longrightarrow> ys ! i)"

lemma grows_trans: "grows xs ys \<Longrightarrow> grows ys zs \<Longrightarrow> grows xs zs"
  by (simp add: grows_def)

lemma grows_mark: "grows xs (xs[i := True])"
  by (cases "i < length xs") (simp_all add: grows_def nth_list_update)

lemma mark_chain_marks:
  assumes "0 < rem" and "rem \<le> length xs"
  shows "grows xs (mark_chain rem xs)" and "pow2_or_0 rem \<or> mark_chain rem xs ! (rem - 1)"
    and "\<And>i. 0 < i \<Longrightarrow> i \<le> length xs \<Longrightarrow> \<not> xs ! (i - 1) \<Longrightarrow> chained (mark_chain rem xs) i"
proof (atomize (full), use assms in \<open>induction rem xs rule: mark_chain.induct\<close>)
  case (1 rem xs)
  show ?case
  proof (cases "pow2_or_0 rem")
    case True
    then show ?thesis by (simp add: mark_chain.simps grows_def chained_def)
  next
    case False
    let ?ys = "xs[rem - 1 := True]" and ?r = "mark_chain rem xs"
    have low: "0 < low_bits rem" "low_bits rem < rem" using False pow2_low_bits [of rem] low_bits_less 1(2) by auto
    have r: "?r = mark_chain (low_bits rem) ?ys" using False by (simp add: mark_chain.simps [of rem xs])
    have IH: "grows ?ys ?r" "pow2_or_0 (low_bits rem) \<or> ?r ! (low_bits rem - 1)"
        "\<And>i. 0 < i \<Longrightarrow> i \<le> length xs \<Longrightarrow> \<not> ?ys ! (i - 1) \<Longrightarrow> chained ?r i"
      using 1(1) [OF False low(1)] low(2) 1(3) unfolding r by auto
    have "?r ! (rem - 1)" using IH(1) 1(2,3) by (simp add: grows_def)
    moreover have "chained ?r i" if i: "0 < i" "i \<le> length xs" "\<not> xs ! (i - 1)" for i
    proof (cases "i = rem")
      case True
      then show ?thesis using IH(2) by (auto simp: chained_def)
    next
      case False
      then have "i - 1 \<noteq> rem - 1" using i(1) 1(2) by simp
      then show ?thesis using IH(3) i by simp
    qed
    ultimately show ?thesis using grows_trans [OF grows_mark IH(1)] by simp
  qed
qed

lemma mark_index_marks:
  assumes i: "0 < i" "i \<le> length xs" and closed: "\<And>j. 0 < j \<Longrightarrow> j \<le> length xs \<Longrightarrow> chained xs j"
  shows "grows xs (mark_index S cs xs i)" and "pow2_or_0 i \<or> sc_nz S (cs ! i) \<Longrightarrow> mark_index S cs xs i ! (i - 1)"
    and "\<And>j. 0 < j \<Longrightarrow> j \<le> length xs \<Longrightarrow> chained (mark_index S cs xs i) j"
proof -
  have keep: "chained ys j" if g: "grows xs ys" and j: "0 < j" "j \<le> length xs" "xs ! (j - 1)" for ys j
  proof (cases "pow2_or_0 j")
    case False
    then have "low_bits j < j" "pow2_or_0 (low_bits j) \<or> xs ! (low_bits j - 1)"
      using closed [OF j(1,2)] j low_bits_less [OF j(1)] by (auto simp: chained_def)
    moreover have "low_bits j - 1 < length xs" using \<open>low_bits j < j\<close> j(2) by simp
    ultimately show ?thesis using g by (auto simp: chained_def grows_def)
  qed (simp add: chained_def)
  show g: "grows xs (mark_index S cs xs i)"
    using mark_chain_marks(1) [OF i] grows_mark by (auto simp: mark_index_def grows_def)
  show "mark_index S cs xs i ! (i - 1)" if "pow2_or_0 i \<or> sc_nz S (cs ! i)"
    using that mark_chain_marks(2) [OF i] i by (auto simp: mark_index_def)
  fix j
  assume j: "0 < j" "j \<le> length xs"
  show "chained (mark_index S cs xs i) j"
  proof (cases "xs ! (j - 1)")
    case True
    then show ?thesis using keep [OF g j] by simp
  next
    case False
    show ?thesis
    proof (cases "pow2_or_0 i")
      case True
      then have "j \<noteq> i \<Longrightarrow> j - 1 \<noteq> i - 1" using i j by simp
      then show ?thesis using True False by (cases "j = i") (simp_all add: mark_index_def chained_def)
    next
      case False
      then show ?thesis using mark_chain_marks(3) [OF i j] \<open>\<not> xs ! (j - 1)\<close> by (simp add: mark_index_def chained_def)
    qed
  qed
qed

lemma needed_powers_marks:
  assumes "length cs = Suc k"
  shows "length (needed_powers S cs) = k" and "0 < i \<Longrightarrow> i \<le> k \<Longrightarrow> pow2_or_0 i \<or> sc_nz S (cs ! i) \<Longrightarrow> needed_powers S cs ! (i - 1)"
    and "0 < i \<Longrightarrow> i \<le> k \<Longrightarrow> needed_powers S cs ! (i - 1) \<Longrightarrow> \<not> pow2_or_0 i \<Longrightarrow> needed_powers S cs ! (low_bits i - 1)"
proof -
  have fold: "length (foldl (mark_index S cs) xs is) = k
      \<and> (\<forall>j. 0 < j \<and> j \<le> k \<longrightarrow> chained (foldl (mark_index S cs) xs is) j)
      \<and> (\<forall>i. (i \<in> set is \<and> (pow2_or_0 i \<or> sc_nz S (cs ! i))) \<or> (0 < i \<and> i \<le> k \<and> xs ! (i - 1)) \<longrightarrow> foldl (mark_index S cs) xs is ! (i - 1))"
    if "length xs = k" "\<And>j. 0 < j \<Longrightarrow> j \<le> k \<Longrightarrow> chained xs j" "set is \<subseteq> {1..k}" for xs "is"
    using that
  proof (induction "is" arbitrary: xs)
    case (Cons i "is")
    let ?ys = "mark_index S cs xs i"
    have i: "0 < i" "i \<le> length xs" using Cons.prems by auto
    note M = mark_index_marks [OF i, where S = S and cs = cs]
    have c: "chained xs j" if "0 < j" "j \<le> length xs" for j using Cons.prems(1,2) that by simp
    have g: "grows xs ?ys" using M(1) c by blast
    have IH: "length (foldl (mark_index S cs) ?ys is) = k
      \<and> (\<forall>j. 0 < j \<and> j \<le> k \<longrightarrow> chained (foldl (mark_index S cs) ?ys is) j)
      \<and> (\<forall>i. (i \<in> set is \<and> (pow2_or_0 i \<or> sc_nz S (cs ! i))) \<or> (0 < i \<and> i \<le> k \<and> ?ys ! (i - 1)) \<longrightarrow> foldl (mark_index S cs) ?ys is ! (i - 1))"
      using Cons.prems g M(3) c by (intro Cons.IH) (auto simp: grows_def)
    moreover have "?ys ! (i - 1)" if "pow2_or_0 i \<or> sc_nz S (cs ! i)" using M(2) c that by blast
    moreover have "?ys ! (j - 1)" if "0 < j" "j \<le> k" "xs ! (j - 1)" for j using g that Cons.prems(1) by (simp add: grows_def)
    ultimately show ?case using i Cons.prems(1) by auto
  qed simp
  let ?r = "needed_powers S cs"
  have r: "?r = foldl (mark_index S cs) (replicate k False) (rev [1..<Suc k])" using assms by (simp add: needed_powers_def Let_def del: upt_Suc)
  have init: "length (replicate k False) = k" "chained (replicate k False) j" if "0 < j" "j \<le> k" for j
    using that by (simp_all add: chained_def)
  have sub: "set (rev [1..<Suc k]) = {1..k}" by auto
  have R: "length ?r = k" "\<And>j. 0 < j \<Longrightarrow> j \<le> k \<Longrightarrow> chained ?r j"
      "\<And>i. 0 < i \<Longrightarrow> i \<le> k \<Longrightarrow> pow2_or_0 i \<or> sc_nz S (cs ! i) \<Longrightarrow> ?r ! (i - 1)"
    using fold [of "replicate k False" "rev [1..<Suc k]"] unfolding r [symmetric] sub by (simp_all add: init)
  show "length ?r = k" by fact
  show "?r ! (i - 1)" if "0 < i" "i \<le> k" "pow2_or_0 i \<or> sc_nz S (cs ! i)" using R(3) that .
  show "?r ! (low_bits i - 1)" if i: "0 < i" "i \<le> k" "?r ! (i - 1)" "\<not> pow2_or_0 i"
  proof -
    have low: "0 < low_bits i" "low_bits i \<le> k" using pow2_low_bits [OF i(1)] low_bits_less [OF i(1)] i(2,4) by auto
    then show ?thesis using R(2) [OF i(1,2)] R(3) [OF low] i(3,4) by (auto simp: chained_def)
  qed
qed

section \<open>The powers\<close>

definition linear_state :: "CkksContext \<Rightarrow> string \<Rightarrow> int \<Rightarrow> int \<Rightarrow> msg \<Rightarrow> bool list \<Rightarrow> nat \<Rightarrow> nat \<Rightarrow> Ciphertext list \<Rightarrow> bool" where
  "linear_state cc key s d z indices k i powers \<longleftrightarrow> length powers = k
     \<and> (\<forall>n. 0 < n \<and> n < i \<and> n \<le> k \<and> indices ! (n - 1) \<longrightarrow> holds cc key s (d - int (clog n)) (\<lambda>j. z j ^ n) (powers ! (n - 1)))
     \<and> (\<forall>n. i \<le> n \<and> 0 < n \<and> n \<le> k \<longrightarrow> ct_state (powers ! (n - 1)) = None)"

lemma linear_stateD:
  assumes "linear_state cc key s d z indices k i powers"
  shows "length powers = k" and "0 < n \<Longrightarrow> n < i \<Longrightarrow> n \<le> k \<Longrightarrow> indices ! (n - 1) \<Longrightarrow> holds cc key s (d - int (clog n)) (\<lambda>j. z j ^ n) (powers ! (n - 1))"
    and "i \<le> n \<Longrightarrow> 0 < n \<Longrightarrow> n \<le> k \<Longrightarrow> ct_state (powers ! (n - 1)) = None"
  using assms by (simp_all add: linear_state_def)

lemma linear_state_put:
  assumes "linear_state cc key s d z indices k i powers" and i: "0 < i" "i \<le> k" and c: "holds cc key s (d - int (clog i)) (\<lambda>j. z j ^ i) c"
  shows "linear_state cc key s d z indices k (Suc i) (powers[i - 1 := c])"
proof -
  have "(powers[i - 1 := c]) ! (n - 1) = (if n = i then c else powers ! (n - 1))" if "0 < n" for n
    using that i linear_stateD(1) [OF assms(1)] by (cases n) (auto simp: nth_list_update)
  then show ?thesis using assms by (auto simp: linear_state_def less_Suc_eq)
qed

lemma linear_power_step:
  assumes F: "flex cc" and key: "has_eval_key cc key" and d: "int (clog k) \<le> d" and cs: "length cs = Suc k"
    and i: "2 \<le> i" "i \<le> k" and st: "linear_state cc key s d z (needed_powers S cs) k i powers"
  shows "returns (linear_power cc False (needed_powers S cs) powers i) (linear_state cc key s d z (needed_powers S cs) k (Suc i))"
proof -
  let ?I = "needed_powers S cs"
  have i0: "0 < i" using i by simp
  note marks = needed_powers_marks [OF cs, where S = S] and P = linear_stateD [OF st]
  have empty: "ct_state (powers ! (i - 1)) = None" using P(3) [of i] i by simp
  have le: "int (clog i) \<le> d" using clog_mono [OF i(2)] d by linarith
  have mx: "cc_technique cc \<noteq> FIXEDMANUAL" using F by (simp add: flex_def)
  have put: "returns (put_power (i - 1) powers r) (linear_state cc key s d z ?I k (Suc i))"
    if "returns r (holds2 cc key s (d - int (clog i)) (\<lambda>j. z j ^ i))" for r
    using that linear_state_put [OF st i0 i(2)] by (auto intro!: returns_put simp: holds2_def)
  have pw: "holds cc key s (d - int a) (\<lambda>j. z j ^ 2 ^ a) (powers ! (2 ^ a - 1))" if "2 ^ a < i" for a
    using P(2) [of "2 ^ a"] marks(2) [of "2 ^ a"] pow2_power that i by simp
  consider (square) "pow2_or_0 i" | (product) "\<not> pow2_or_0 i" "?I ! (i - 1)" | (skip) "\<not> pow2_or_0 i" "\<not> ?I ! (i - 1)" by blast
  then show ?thesis
  proof cases
    case square
    then obtain b where b: "i = 2 ^ Suc b" using pow2_exponent i by blast
    have "int (Suc b) \<le> d" using le unfolding b clog_power .
    from power_square [OF F key this pw empty]
    have "returns (ct_square_from cc (powers ! (i div 2 - 1)) False (powers ! (i - 1))) (holds2 cc key s (d - int (clog i)) (\<lambda>j. z j ^ i))"
      by (simp add: b)
    then show ?thesis using square put by (simp add: linear_power_def power_rescale_def rescale_flexible [OF F])
  next
    case product
    let ?a = "msbOf i - 1" and ?r = "low_bits i"
    have sp: "i = 2 ^ ?a + ?r" "?r < 2 ^ ?a" using split_exponent [OF i0] by simp_all
    have r: "0 < ?r" using product pow2_low_bits [OF i0] by simp
    have c: "clog i = Suc ?a" using clog_split [of ?r ?a] r sp by simp
    have "?I ! (?r - 1)" using marks(3) [OF i0 i(2) product(2,1)] .
    then have h: "holds cc key s (d - int (clog ?r)) (\<lambda>j. z j ^ ?r) (powers ! (?r - 1))"
      using P(2) [of ?r] r sp i by simp
    have d: "int (Suc ?a) \<le> d" using le c by simp
    have "2 ^ ?a < i" using sp(1) r by linarith
    from power_product [OF F key r sp(2) d pw [OF this] h empty]
    have "returns (ct_mult3 cc Neither (powers ! (2 ^ ?a - 1)) (powers ! (?r - 1)) False (powers ! (i - 1)))
        (holds2 cc key s (d - int (clog i)) (\<lambda>j. z j ^ i))" by (simp only: sp(1) [symmetric])
    then show ?thesis
      using product put by (simp add: linear_power_def Let_def level_power_def mx power_rescale_def rescale_flexible [OF F])
  next
    case skip
    have "linear_state cc key s d z ?I k (Suc i) powers"
      using st skip(2) by (auto simp: linear_state_def less_Suc_eq)
    then show ?thesis using skip by (simp add: linear_power_def)
  qed
qed

lemma evalPowersLinear_ok:
  assumes F: "flex cc" and key: "has_eval_key cc key" and d: "int (clog k) \<le> d" and cs: "length cs = Suc k" and k: "1 \<le> k"
    and x: "holds cc key s d z x"
  shows "returns (evalPowersLinear S cc cs False x) (\<lambda>sp. linear_state cc key s d z (needed_powers S cs) k (Suc k) (sp_powers sp))"
proof -
  let ?I = "needed_powers S cs" and ?new = "replicate k fresh_ciphertext"
  have mx: "cc_technique cc \<noteq> FIXEDMANUAL" using F by (simp add: flex_def)
  have keep: "foldE (\<lambda>powers i. if ?I ! (i - 1) then level_power cc (i - 1) (k - 1) powers else Inr powers) ps is = Inr ps" for ps "is"
    by (induction "is") (simp_all add: level_power_def mx)
  have "linear_state cc key s d z ?I k 1 ?new" by (auto simp: linear_state_def)
  from linear_state_put [OF this _ k, of x]
  have one: "linear_state cc key s d z ?I k 2 (?new[0 := x])" using x by (simp add: numeral_2_eq_2)
  have first: "put_power 0 ?new (Some (copy_ct cc x (?new ! 0))) = Some (Inr (?new[0 := x]))"
    using k holds_state [OF x] by (simp add: put_power_def copy_resident)
  have loop: "returns (foldO (linear_power cc False ?I) (?new[0 := x]) [2..<Suc k]) (linear_state cc key s d z ?I k (Suc k))"
  proof (cases "k = 1")
    case True
    then show ?thesis using one by (simp add: numeral_2_eq_2)
  next
    case False
    then show ?thesis using k one by (intro returns_foldO_upt linear_power_step [OF F key d cs]) simp_all
  qed
  have "returns (thenO (foldO (linear_power cc False ?I) (?new[0 := x]) [2..<Suc k]) (\<lambda>powers.
      Some (Inr \<lparr>sp_powers = powers, sp_powers2 = [], sp_powers2_norescale = [],
                   sp_power2km1 = fresh_ciphertext, sp_k = 0, sp_m = 0\<rparr>)))
      (\<lambda>sp. linear_state cc key s d z ?I k (Suc k) (sp_powers sp))"
    using loop by (rule returns_thenO) simp
  then show ?thesis
    using k cs first keep by (simp add: evalPowersLinear_def Let_def del: upt_Suc replicate.simps)
qed

section \<open>The sum\<close>

context scalar_arith begin

lemma evalPolyLinear_ok:
  assumes F: "flex cc" and d: "int (clog k) < d" and cs: "length cs = Suc k" "sc_nz S (cs ! k)" and k: "1 \<le> k"
    and P: "linear_state cc key s d z (needed_powers S cs) k (Suc k) powers"
  shows "returns (evalPolyLinearWithPrecomp S cc powers cs) (holds cc key s (d - int (clog k) - 1) (\<lambda>j. poly_value v cs (z j)))"
proof -
  let ?d = "d - int (clog k) - 1" and ?I = "needed_powers S cs"
  note marks = needed_powers_marks(2) [OF cs(1), where S = S]
  have tm: "\<exists>t. scaled_from S cc (powers ! (i - 1)) (cs ! i) fresh_ciphertext = Inr t
      \<and> holds cc key s (d - int (clog i) - 1) (\<lambda>j. v (cs ! i) * z j ^ i) t"
    if i: "0 < i" "i \<le> k" "sc_nz S (cs ! i)" for i
  proof -
    have h: "holds cc key s (d - int (clog i)) (\<lambda>j. z j ^ i) (powers ! (i - 1))"
      using linear_stateD(2) [OF P, of i] marks i by simp
    have "1 \<le> d - int (clog i)" using clog_mono [OF i(2)] d by simp
    then show ?thesis using mult_law [OF F h, of "cs ! i"] holds_state [OF h] by (auto simp: scaled_from_def copyE_def copy_resident)
  qed
  let ?part = "\<lambda>i. (\<lambda>j. v (cs ! k) * z j ^ k + (\<Sum>n = 1..<i. v (cs ! n) * z j ^ n))"
  obtain top where top: "scaled_from S cc (powers ! (k - 1)) (cs ! k) fresh_ciphertext = Inr top" "holds cc key s ?d (\<lambda>j. v (cs ! k) * z j ^ k) top"
    using tm [of k] k cs(2) by auto
  let ?step = "\<lambda>result i. if sc_nz S (cs ! i)
      then thenO (Some (copy_ct cc (powers ! (i - 1)) fresh_ciphertext)) (\<lambda>tmp.
           thenO (Some (sc_mult S cc (cs ! i) tmp)) (\<lambda>tmp. ct_add cc tmp result))
      else Some (Inr result)"
  have step: "returns (?step r i) (holds cc key s ?d (?part (Suc i)))" if i: "1 \<le> i" "i < k" and r: "holds cc key s ?d (?part i) r" for i r
  proof (cases "sc_nz S (cs ! i)")
    case True
    then obtain t where t: "scaled_from S cc (powers ! (i - 1)) (cs ! i) fresh_ciphertext = Inr t"
        "holds cc key s (d - int (clog i) - 1) (\<lambda>j. v (cs ! i) * z j ^ i) t"
      using tm [of i] i by auto
    have "min ?d (d - int (clog i) - 1) = ?d" using clog_mono [of i k] i by simp
    moreover have "msg_add (?part i) (\<lambda>j. v (cs ! i) * z j ^ i) = ?part (Suc i)" using i by (simp add: msg_add_def add.assoc)
    ultimately have "returns (ct_add cc t r) (holds cc key s ?d (?part (Suc i)))" using holds_add [OF F r t(2)] by simp
    moreover have "?step r i = ct_add cc t r"
    proof -
      have "bindE (copy_ct cc (powers ! (i - 1)) fresh_ciphertext) (sc_mult S cc (cs ! i)) = Inr t"
        using t(1) by (simp add: scaled_from_def copyE_def)
      then show ?thesis using True by (auto simp: bindE_eq_Inr)
    qed
    ultimately show ?thesis by simp
  next
    case False
    then have "cs ! i = 0" by (rule zero_law)
    then show ?thesis using False i r by (simp add: val_0)
  qed
  have sum: "returns (foldO ?step top [1..<k]) (holds cc key s ?d (?part k))"
    using k top(2) by (intro returns_foldO_upt step) simp_all
  have val: "?part k j + v (hd cs) = poly_value v cs (z j)" for j
  proof -
    have ne: "cs \<noteq> []" using cs(1) by auto
    have "poly_value v cs (z j) = (\<Sum>i<Suc k. v (cs ! i) * z j ^ i)"
      unfolding series_def cs(1) by (intro sum.cong) (simp_all add: nth_default_nth cs(1))
    also have "\<dots> = v (cs ! 0) + (\<Sum>n = 1..<k. v (cs ! n) * z j ^ n) + v (cs ! k) * z j ^ k"
      using k by (simp add: lessThan_atLeast0 sum.atLeast_Suc_lessThan)
    finally show ?thesis using ne by (simp add: hd_conv_nth)
  qed
  have add: "returns (Some (sc_add S cc (hd cs) r)) (holds cc key s ?d (\<lambda>j. poly_value v cs (z j)))" if "holds cc key s ?d (?part k) r" for r
    using add_law [OF F that, of "hd cs"] val by auto
  have "returns (thenO (foldO ?step top [1..<k]) (\<lambda>result. Some (sc_add S cc (hd cs) result))) (holds cc key s ?d (\<lambda>j. poly_value v cs (z j)))"
    using sum add by (rule returns_thenO)
  then show ?thesis
    using k cs linear_stateD(1) [OF P] top(1) by (simp add: evalPolyLinearWithPrecomp_def Let_def rescale_flexible [OF F])
qed

end

end
