(* ===== verification/ChebCorrect.thy ===== *)
theory ChebCorrect
  imports ChebEval PolyLinear
begin

text \<open>
  The Chebyshev evaluator computes the series: the polynomials of the basis, the splitting, and the two
  walks over it with the batched sums between them.
\<close>

section \<open>Chebyshev polynomials\<close>

fun cheb :: "nat \<Rightarrow> complex \<Rightarrow> complex" where
  "cheb 0 z = 1"
| "cheb (Suc 0) z = z"
| "cheb (Suc (Suc n)) z = 2 * z * cheb (Suc n) z - cheb n z"

lemma cheb_step: "0 < a \<Longrightarrow> 2 * z * cheb a z = cheb (a + 1) z + cheb (a - 1) z"
  by (cases a) simp_all

lemma cheb_prod: "n \<le> m \<Longrightarrow> 2 * cheb m z * cheb n z = cheb (m + n) z + cheb (m - n) z"
proof (induction n z arbitrary: m rule: cheb.induct)
  case (2 z)
  then show ?case using cheb_step [of m z] by (simp add: ac_simps)
next
  case (3 n z)
  have "2 * cheb m z * cheb (Suc (Suc n)) z = 2 * z * (2 * cheb m z * cheb (Suc n) z) - 2 * cheb m z * cheb n z"
    by (simp add: algebra_simps)
  also have "\<dots> = (2 * z * cheb (m + Suc n) z + 2 * z * cheb (m - Suc n) z) - (cheb (m + n) z + cheb (m - n) z)"
    using 3 by (simp add: distrib_left)
  also have "2 * z * cheb (m + Suc n) z = cheb (m + Suc (Suc n)) z + cheb (m + n) z" using cheb_step [of "m + Suc n" z] by simp
  also have "2 * z * cheb (m - Suc n) z = cheb (m - n) z + cheb (m - Suc (Suc n)) z"
    using cheb_step [of "m - Suc n" z] 3(3) by (simp add: Suc_diff_Suc)
  finally show ?case by simp
qed simp

lemma cheb_even: "cheb (h + h) z = 2 * (cheb h z * cheb h z) - 1"
  using cheb_prod [of h h z] by (simp add: algebra_simps)

lemma cheb_odd: "cheb (h + Suc h) z = 2 * (cheb h z * cheb (Suc h) z) - z"
  using cheb_prod [of h "Suc h" z] by (simp add: algebra_simps)

section \<open>The series\<close>

text \<open>The basis with the convention that the constant coefficient counts half.\<close>

definition cheb_basis :: "complex \<Rightarrow> nat \<Rightarrow> complex" where
  "cheb_basis z i = (if i = 0 then 1 / 2 else cheb i z)"

definition cheb_value :: "('c::zero \<Rightarrow> complex) \<Rightarrow> 'c list \<Rightarrow> complex \<Rightarrow> complex" where
  "cheb_value v cs z = series v (cheb_basis z) cs"

text \<open>Division in the Chebyshev basis, where it returns.\<close>

definition cheb_quotient :: "('c::field \<Rightarrow> complex) \<Rightarrow> 'c list \<Rightarrow> 'c list \<Rightarrow> 'c list \<Rightarrow> 'c list \<Rightarrow> bool" where
  "cheb_quotient v f g q r \<longleftrightarrow> length q = length f - length g + 1 \<and> last q \<noteq> 0 \<and> r \<noteq> [] \<and> (\<forall>i \<ge> length g - 1. coeff r i = 0)
     \<and> (\<forall>z. cheb_value v f z = cheb_value v q z * cheb_value v g z + cheb_value v r z)"

definition cheb_lib :: "('c::field \<Rightarrow> complex) \<Rightarrow> 'c PolyLib \<Rightarrow> bool" where
  "cheb_lib v L \<longleftrightarrow> (\<forall>cs. cs \<noteq> [] \<longrightarrow> pl_Degree L cs = Inr (degree_of cs))
     \<and> (\<forall>f g q r. pl_LongDivisionChebyshev L f g = Inr (q, r) \<and> g \<noteq> [] \<and> last g \<noteq> 0 \<and> length g \<le> length f \<longrightarrow> cheb_quotient v f g q r)"

lemma cheb_libD:
  assumes "cheb_lib v L"
  shows "cs \<noteq> [] \<Longrightarrow> pl_Degree L cs = Inr (degree_of cs)"
    and "pl_LongDivisionChebyshev L f g = Inr (q, r) \<Longrightarrow> g \<noteq> [] \<Longrightarrow> last g \<noteq> 0 \<Longrightarrow> length g \<le> length f \<Longrightarrow> cheb_quotient v f g q r"
  using assms by (auto simp: cheb_lib_def)

text \<open>Polynomials of exact degree \<open>n\<close>.\<close>

definition exact :: "nat \<Rightarrow> 'c::zero list \<Rightarrow> bool" where
  "exact n cs \<longleftrightarrow> length cs = Suc n \<and> last cs \<noteq> 0"

lemma exactD: "exact n cs \<Longrightarrow> cs \<noteq> []" "exact n cs \<Longrightarrow> length cs = Suc n" "exact n cs \<Longrightarrow> degree_of cs = n"
  "exact n cs \<Longrightarrow> last cs \<noteq> 0"
  using degree_of_last [of cs] by (cases "cs = []"; simp add: exact_def)+

lemma halve_simps: "length (halve ws) = length ws" "halve ws ! Suc i = ws ! Suc i"
  by (auto simp: halve_def split: list.split)

text \<open>The contract for Chebyshev coefficients: the scalars' laws, and the batched sums'.\<close>

locale cheb_arith = scalar_arith S v for S :: "'c::field_char_0 Scalars" and v :: "'c \<Rightarrow> complex" +
  fixes W :: "'c WSums"
  assumes sums_law: "flex cc \<Longrightarrow> basis_holds cc key s T b ctxs \<Longrightarrow> length ws = length ts
      \<Longrightarrow> (\<And>w. w \<in> set ws \<Longrightarrow> (\<exists>c \<in> set w. c \<noteq> 0) \<and> length w \<le> Suc (length ctxs))
      \<Longrightarrow> (\<And>t. t \<in> set ts \<Longrightarrow> 1 \<le> t \<and> t \<le> T \<and> t \<le> cc_L cc)
      \<Longrightarrow> returns (ws_multiple W cc ctxs ws ts False)
            (\<lambda>rs. length rs = length ws \<and> (\<forall>i < length ws. summed cc key s b (map v (ws ! i)) (ts ! i) (rs ! i)))"
begin

lemma val_half: "v (c / 2) = v c / 2"
proof -
  have "c / 2 + c / 2 = c" by (simp flip: add_divide_distrib mult_2)
  then have "v (c / 2) + v (c / 2) = v c" by (simp only: val_add [symmetric])
  then show ?thesis by (simp add: mult.commute)
qed

lemma unit_value: "0 < n \<Longrightarrow> cheb_value v (unit_power n) z = cheb n z"
proof -
  assume n: "0 < n"
  have "cheb_value v (unit_power n) z = series v (cheb_basis z) [] + v 1 * cheb_basis z n"
    unfolding cheb_value_def by (rule series_single) (simp add: unit_power_monic)
  then show ?thesis using n by (simp add: series_def val_1 cheb_basis_def)
qed

lemma split_cheb:
  assumes L: "cheb_lib v L" and f: "exact (2 * (k * 2 ^ m - k) + k) f" and k: "1 \<le> k" and m: "1 \<le> m"
    and sp: "cheb_split L k (Suc m) f = Inr (q, c, s)"
  shows "exact (k * 2 ^ m - k) q" and "exact (k * 2 ^ m - k) s" and "c \<noteq> []" and "length c \<le> k"
    and "cheb_value v f z = (cheb (k * 2 ^ m) z + cheb_value v c z) * cheb_value v q z + cheb_value v s z"
proof -
  define K where "K = k * 2 ^ m - k"
  have kK: "k * 2 ^ m = K + k" using k by (simp add: K_def)
  have K: "0 < K"
  proof -
    have "k * 2 \<le> k * 2 ^ m" using m by (intro mult_left_mono self_le_power) simp_all
    then show ?thesis using k kK by linarith
  qed
  have f: "exact (2 * K + k) f" using f by (simp add: K_def)
  obtain r n s0 where q: "pl_LongDivisionChebyshev L f (unit_power (K + k)) = Inr (q, r)" and n: "pl_Degree L r = Inr n"
    and c: "pl_LongDivisionChebyshev L (minus_power K n r) q = Inr (c, s0)" and s: "s = with_top K s0"
    using sp by (auto simp: cheb_split_def Let_def bindE_eq_Inr K_def)
  have u: "length (unit_power (K + k) :: 'c list) = Suc (K + k)" "last (unit_power (K + k) :: 'c list) = 1" "unit_power (K + k) \<noteq> []"
    by (simp_all add: unit_power_monic) (simp add: unit_power_def)
  have Q: "cheb_quotient v f (unit_power (K + k)) q r"
    using f u by (intro cheb_libD(2) [OF L q]) (simp_all add: exact_def)
  have lq: "length q = Suc K" "last q \<noteq> 0" using Q u f by (simp_all add: cheb_quotient_def exact_def)
  then have mq: "q \<noteq> []" by auto
  show "exact (k * 2 ^ m - k) q" unfolding K_def [symmetric] using lq by (simp add: exact_def)
  have r: "r \<noteq> []" and rz: "\<And>i. K + k \<le> i \<Longrightarrow> coeff r i = 0" using Q u by (simp_all add: cheb_quotient_def)
  have nd: "n = degree_of r" using n cheb_libD(1) [OF L r] by simp
  note mp = coeff_minus_power [OF r, of K, folded nd]
  have C: "cheb_quotient v (minus_power K n r) q c s0"
    using lq mq mp(2) by (intro cheb_libD(2) [OF L c]) simp_all
  show "c \<noteq> []" using C by (auto simp: cheb_quotient_def)
  have "n \<le> K + k - 1" unfolding nd using degree_bound [OF r rz] .
  then show "length c \<le> k" using C lq mp(3) k by (auto simp: cheb_quotient_def)
  show "exact (k * 2 ^ m - k) s" unfolding K_def [symmetric] s exact_def by (simp add: with_top_monic)
  have "cheb_value v (minus_power K n r) z = cheb_value v r z + v (- 1) * cheb_basis z K"
    unfolding cheb_value_def by (rule series_single) (simp add: mp(1))
  moreover have "cheb_value v s z = cheb_value v s0 z + v 1 * cheb_basis z K"
    unfolding cheb_value_def
  proof (rule series_single)
    fix i
    have "coeff s0 i = 0" if "K \<le> i" using C lq that by (simp add: cheb_quotient_def)
    then show "coeff s i = coeff s0 i + (if i = K then 1 else 0)" by (simp add: s with_top_monic)
  qed
  moreover have "cheb_value v (minus_power K n r) z = cheb_value v c z * cheb_value v q z + cheb_value v s0 z"
    using C by (simp add: cheb_quotient_def)
  ultimately have "cheb_value v r z = cheb_value v c z * cheb_value v q z + cheb_value v s z"
    by (simp add: val_1 val_minus_1 algebra_simps)
  moreover have "cheb_value v f z = cheb_value v q z * cheb (K + k) z + cheb_value v r z"
    using Q K unit_value [of "K + k" z] by (simp add: cheb_quotient_def)
  ultimately show "cheb_value v f z = (cheb (k * 2 ^ m) z + cheb_value v c z) * cheb_value v q z + cheb_value v s z"
    by (simp add: algebra_simps kK)
qed

end

section \<open>The two walks\<close>

text \<open>The leaves in the order of the walks, with their target levels.\<close>

fun cheb_nodes :: "'c::field PolyLib \<Rightarrow> nat \<Rightarrow> int \<Rightarrow> nat \<Rightarrow> 'c list \<Rightarrow> int \<Rightarrow> ('c list \<times> int) list" where
  "cheb_nodes L k d 0 f l = []"
| "cheb_nodes L k d (Suc m) f l = (case cheb_split L k (Suc m) f of Inl e \<Rightarrow> []
     | Inr (q, c, s) \<Rightarrow>
        (if k < degree_of q then cheb_nodes L k d m q l else [(halve q, d - int m + 1 - l)])
        @ (if k < degree_of s then cheb_nodes L k d m s (l + 1) else [(halve s, d - int m + 1 - l - 1)])
        @ (if 1 \<le> degree_of c then [(halve c, d - int m + 1 - l)] else []))"

text \<open>The splittings of the recursion succeed.\<close>

fun cheb_regular :: "'c::field PolyLib \<Rightarrow> nat \<Rightarrow> nat \<Rightarrow> 'c list \<Rightarrow> bool" where
  "cheb_regular L k 0 f \<longleftrightarrow> False"
| "cheb_regular L k (Suc m) f \<longleftrightarrow> (case cheb_split L k (Suc m) f of Inl e \<Rightarrow> False
     | Inr (q, c, s) \<Rightarrow> m < 2 \<or> cheb_regular L k m q \<and> cheb_regular L k m s)"

text \<open>The powers of two of the basis: at degree 1, and before their rescale.\<close>

definition cheb_giants :: "CkksContext \<Rightarrow> string \<Rightarrow> int \<Rightarrow> int \<Rightarrow> msg \<Rightarrow> nat \<Rightarrow> nat \<Rightarrow> Ciphertext list \<Rightarrow> Ciphertext list \<Rightarrow> bool" where
  "cheb_giants cc key s d z k M T2 T2_norescale \<longleftrightarrow> (\<forall>j. 1 \<le> j \<and> j < M \<longrightarrow>
     holds cc key s (d - int j) (\<lambda>t. cheb (k * 2 ^ j) (z t)) (T2 ! j) \<and> ct_noise (T2 ! j) = 1
     \<and> holds2 cc key s (d - int j) (\<lambda>t. cheb (k * 2 ^ j) (z t)) (T2_norescale ! j))"

lemma holds_level:
  assumes "holds cc key s d v ct" and "ct_noise ct = 1"
  shows "getLevel ct = d"
  using holds_target(3,4) [OF assms(1)] assms(2) by simp

lemma holds2_level: "holds2 cc key s d v ct \<Longrightarrow> getLevel ct = d + 1"
  using holds_target(3,4) [of cc key s d v ct] by (simp add: holds2_def)

lemma halving_exponent: "1 \<le> m \<Longrightarrow> k * 2 ^ m - k = 2 * (k * 2 ^ (m - 1) - k) + (k::nat)"
proof -
  assume "1 \<le> m"
  then obtain e where e: "m = Suc e" by (cases m) simp_all
  have "k \<le> k * 2 ^ e" "k * 2 ^ m = 2 * (k * 2 ^ e)" by (simp_all add: e)
  then show ?thesis unfolding e diff_Suc_1 by linarith
qed

lemma deep_degree:
  assumes "1 \<le> m" and "1 \<le> (k::nat)"
  shows "k < k * 2 ^ m - k \<longleftrightarrow> 2 \<le> m"
proof (cases "m = 1")
  case False
  then have "2 ^ 2 \<le> (2 ^ m :: nat)" using assms(1) by (intro power_increasing) simp_all
  then have "k * 4 \<le> k * 2 ^ m" by simp
  then show ?thesis using assms False by linarith
qed simp

context cheb_arith begin

lemma record_ok:
  assumes L: "cheb_lib v L" and G: "cheb_giants cc key s d z k M T2 T2n" and k: "1 \<le> k"
  shows "2 \<le> m \<Longrightarrow> m \<le> M \<Longrightarrow> exact (2 * (k * 2 ^ (m - 1) - k) + k) f \<Longrightarrow> cheb_regular L k m f
    \<Longrightarrow> innerEvalChebyshevPS S L W cc k RECORD T T2 T2n m f l out rec = Some (Inr (out, record_nodes (cheb_nodes L k d m f l) rec))"
proof (induction m arbitrary: f l out rec)
  case (Suc m)
  then have m: "1 \<le> m" "m < M" by simp_all
  obtain q c s2 where sp: "cheb_split L k (Suc m) f = Inr (q, c, s2)" and reg: "2 \<le> m \<Longrightarrow> cheb_regular L k m q \<and> cheb_regular L k m s2"
    using Suc.prems(4) by (auto split: sum.splits)
  have f: "exact (2 * (k * 2 ^ m - k) + k) f" using Suc.prems(3) by simp
  note V = split_cheb [OF L f k m(1) sp]
  have deg: "pl_Degree L q = Inr (degree_of q)" "pl_Degree L s2 = Inr (degree_of s2)" "pl_Degree L c = Inr (degree_of c)"
    using exactD(1) [OF V(1)] exactD(1) [OF V(2)] V(3) by (auto intro: cheb_libD(1) [OF L])
  have deep: "k < degree_of g \<longleftrightarrow> 2 \<le> m" if "exact (k * 2 ^ m - k) g" for g
    using deep_degree [OF m(1) k] exactD(3) [OF that] by simp
  have IH: "innerEvalChebyshevPS S L W cc k RECORD T T2 T2n m g l out rec = Some (Inr (out, record_nodes (cheb_nodes L k d m g l) rec))"
    if "exact (k * 2 ^ m - k) g" "2 \<le> m" "cheb_regular L k m g" for g l out rec
    using that m(2) halving_exponent [OF m(1), of k] by (intro Suc.IH) simp_all
  have base: "getLevel (T2 ! m) + (if ct_noise (T2 ! m) = 1 then 1 else 0) = d - int m + 1"
    using G m holds_level by (auto simp: cheb_giants_def)
  show ?case
    using reg by (simp add: sp deg deep [OF V(1)] deep [OF V(2)] IH [OF V(1)] IH [OF V(2)] base leaf_record cheb_giant_def record_nodes_append Let_def)
qed simp

end

text \<open>The values of the basis on the slots, with the constant at the front.\<close>

definition cheb_msgs :: "msg \<Rightarrow> nat \<Rightarrow> msg" where
  "cheb_msgs z i = (\<lambda>j. cheb i (z j))"

context cheb_arith begin

lemma halve_value:
  assumes "ws \<noteq> []"
  shows "sum_value (map v (halve ws)) (cheb_msgs z) j = cheb_value v ws (z j)"
proof -
  obtain w us where ws: "ws = w # us" using assms by (cases ws) simp_all
  have "sum_value (map v (halve ws)) (cheb_msgs z) j = (\<Sum>i<Suc (length us). v ((w / 2 # us) ! i) * cheb i (z j))"
    unfolding ws sum_value_def by (auto simp: halve_def cheb_msgs_def nth_Cons' simp del: sum.lessThan_Suc intro!: sum.cong)
  also have "\<dots> = v (w / 2) + (\<Sum>i<length us. v (us ! i) * cheb (Suc i) (z j))"
    by (subst sum.lessThan_Suc_shift) simp
  also have "\<dots> = (\<Sum>i<Suc (length us). v (coeff ws i) * cheb_basis (z j) i)"
    by (subst sum.lessThan_Suc_shift) (simp add: ws cheb_basis_def val_half nth_default_nth)
  finally show ?thesis by (simp add: cheb_value_def series_def ws)
qed

lemma summed_cheb:
  assumes "summed cc key s (cheb_msgs z) (map v (halve ws)) t r" and "ws \<noteq> []"
  shows "holds cc key s (t - 1) (\<lambda>j. cheb_value v ws (z j)) r" and "getLevel r = t"
proof -
  have "sum_value (map v (halve ws)) (cheb_msgs z) = (\<lambda>j. cheb_value v ws (z j))" using halve_value [OF assms(2)] by blast
  then show h: "holds cc key s (t - 1) (\<lambda>j. cheb_value v ws (z j)) r" using assms(1) by (simp add: summed_def holds2_def)
  show "getLevel r = t" using assms(1) getLevel_resident [OF holds_state [OF h]] by (simp add: summed_def)
qed

lemma constant_value: "cs \<noteq> [] \<Longrightarrow> degree_of cs = 0 \<Longrightarrow> cheb_value v cs z = v (hd cs / 2)"
  by (simp add: cheb_value_def series_tail cheb_basis_def val_half)

text \<open>The part with the power of two.\<close>

lemma giant_remaining:
  assumes F: "flex cc" and L: "cheb_lib v L" and c: "c \<noteq> []" and out: "ct_state out = None" and l: "0 \<le> l"
    and G: "holds cc key s e (\<lambda>t. cheb N (z t)) g" "holds2 cc key s e (\<lambda>t. cheb N (z t)) gn"
    and st: "stacked v cc key s (cheb_msgs z) ((if 1 \<le> degree_of c then [(halve c, e + 1 - l)] else []) @ ns) rest rec"
  shows "returns (cheb_giant S L W cc REMAINING T g gn t c out rec) (\<lambda>(cu, rec'). stacked v cc key s (cheb_msgs z) ns rest rec'
    \<and> (\<exists>e' \<ge> e - l. holds cc key s e' (\<lambda>j. cheb N (z j) + cheb_value v c (z j)) cu))"
proof (cases "1 \<le> degree_of c")
  case True
  obtain w rec' where p: "popRaw rec = Inr (w, rec')" "summed cc key s (cheb_msgs z) (map v (halve c)) (e + 1 - l) w"
      "stacked v cc key s (cheb_msgs z) ns rest rec'"
    using stacked_pop [of v cc key s "cheb_msgs z" "halve c" "e + 1 - l" ns rest rec] st True by auto
  note w = summed_cheb [OF p(2) c]
  have add: "returns (addMutable_from cc x w out) (\<lambda>r. \<exists>e' \<ge> e - l. holds cc key s e' (\<lambda>j. cheb N (z j) + cheb_value v c (z j)) r)"
    if x: "holds cc key s e (\<lambda>t. cheb N (z t)) x" for x
    using holds_addMutable_from [OF F x w(1) out] l by (elim returns_weaken) (auto simp: msg_add_def intro!: exI [of _ "min e (e + 1 - l - 1)"])
  have "returns (thenO (if getLevel w = getLevel gn then addMutable_from cc gn w out else addMutable_from cc g w out) (\<lambda>cu. Some (Inr (cu, rec'))))
      (\<lambda>(cu, rec'). stacked v cc key s (cheb_msgs z) ns rest rec' \<and> (\<exists>e' \<ge> e - l. holds cc key s e' (\<lambda>j. cheb N (z j) + cheb_value v c (z j)) cu))"
    using add [OF G(1)] add [OF holds2_holds [OF G(2)]] p(3) by (auto elim!: returns_thenO)
  then show ?thesis
    using True cheb_libD(1) [OF L c] p(1)
    by (cases "getLevel w = getLevel gn") (simp_all add: cheb_giant_def rescale_flexible [OF F])
next
  case False
  then have d: "degree_of c = 0" by simp
  obtain r where "sc_add S cc (hd c / 2) g = Inr r" "holds cc key s e (\<lambda>j. cheb N (z j) + v (hd c / 2)) r"
    using add_law [OF F G(1)] by blast
  then show ?thesis
    using cheb_libD(1) [OF L c] d st l holds_state [OF G(1)] out constant_value [OF c d]
    by (auto simp: cheb_giant_def copyE_def copy_resident intro!: exI [of _ e])
qed

lemma remaining_ok:
  assumes F: "flex cc" and key: "has_eval_key cc key" and L: "cheb_lib v L" and G: "cheb_giants cc key s d z k M T2 T2n" and k: "1 \<le> k"
  shows "2 \<le> m \<Longrightarrow> m \<le> M \<Longrightarrow> 0 \<le> l \<Longrightarrow> int m + l \<le> d \<Longrightarrow> exact (2 * (k * 2 ^ (m - 1) - k) + k) f \<Longrightarrow> cheb_regular L k m f
    \<Longrightarrow> ct_state out = None \<Longrightarrow> stacked v cc key s (cheb_msgs z) (cheb_nodes L k d m f l @ ns) rest rec
    \<Longrightarrow> returns (innerEvalChebyshevPS S L W cc k REMAINING T T2 T2n m f l out rec)
      (\<lambda>(r, rec'). stacked v cc key s (cheb_msgs z) ns rest rec' \<and> holds cc key s (d - int m - l) (\<lambda>j. cheb_value v f (z j)) r)"
proof (induction m arbitrary: f l out rec ns)
  case (Suc m)
  then have m: "1 \<le> m" "m < M" and l: "0 \<le> l" "int m + l + 1 \<le> d" by simp_all
  obtain q c s2 where sp: "cheb_split L k (Suc m) f = Inr (q, c, s2)" and reg: "2 \<le> m \<Longrightarrow> cheb_regular L k m q \<and> cheb_regular L k m s2"
    using Suc.prems(6) by (auto split: sum.splits)
  have f: "exact (2 * (k * 2 ^ m - k) + k) f" using Suc.prems(5) by simp
  note V = split_cheb [OF L f k m(1) sp]
  have deg: "pl_Degree L q = Inr (degree_of q)" "pl_Degree L s2 = Inr (degree_of s2)"
    using exactD(1) [OF V(1)] exactD(1) [OF V(2)] by (auto intro: cheb_libD(1) [OF L])
  have deep: "k < degree_of g \<longleftrightarrow> 2 \<le> m" if "exact (k * 2 ^ m - k) g" for g
    using deep_degree [OF m(1) k] exactD(3) [OF that] by simp
  let ?ok = "\<lambda>g e. holds cc key s e (\<lambda>j. cheb_value v g (z j))"
  let ?S = "stacked v cc key s (cheb_msgs z)"
  have side: "returns (if k < degree_of g then innerEvalChebyshevPS S L W cc k REMAINING T T2 T2n m g l' fresh_ciphertext rec
        else ps_leaf cc REMAINING ws t resc full fresh_ciphertext rec)
      (\<lambda>(r, rec'). ?S ns rest rec' \<and> ?ok g (d - int m - l') r)"
    if g: "exact (k * 2 ^ m - k) g" "2 \<le> m \<Longrightarrow> cheb_regular L k m g" and l': "0 \<le> l'" "int m + l' \<le> d"
      and st: "?S ((if k < degree_of g then cheb_nodes L k d m g l' else [(halve g, d - int m + 1 - l')]) @ ns) rest rec"
    for g l' rec ns ws t resc full
  proof (cases "2 \<le> m")
    case True
    then show ?thesis
      using g l' st m(2) deep [OF g(1)] halving_exponent [OF m(1), of k] by (simp add: Suc.IH)
  next
    case False
    then have "returns (ps_leaf cc REMAINING ws t resc full fresh_ciphertext rec)
        (\<lambda>(r, rec'). summed cc key s (cheb_msgs z) (map v (halve g)) (d - int m + 1 - l') r \<and> ?S ns rest rec')"
      using st deep [OF g(1)] by (intro leaf_remaining [OF F]) simp
    moreover have "?ok g (d - int m - l') r" if r: "summed cc key s (cheb_msgs z) (map v (halve g)) (d - int m + 1 - l') r" for r
    proof -
      have "d - int m + 1 - l' - 1 = d - int m - l'" by simp
      then show ?thesis using summed_cheb(1) [OF r exactD(1) [OF g(1)]] by (simp only:)
    qed
    ultimately show ?thesis using False deep [OF g(1)] by (auto elim!: returns_weaken)
  qed
  let ?qs = "if k < degree_of q then cheb_nodes L k d m q l else [(halve q, d - int m + 1 - l)]"
  let ?ss = "if k < degree_of s2 then cheb_nodes L k d m s2 (l + 1) else [(halve s2, d - int m + 1 - (l + 1))]"
  let ?cs = "if 1 \<le> degree_of c then [(halve c, d - int m + 1 - l)] else []"
  have st: "?S (?qs @ ?ss @ ?cs @ ns) rest rec" 
  proof -
    have "d - int m + 1 - (l + 1) = d - int m + 1 - l - 1" by simp
    then show ?thesis using Suc.prems(8) by (simp only: cheb_nodes.simps sp sum.case prod.case append_assoc)
  qed
  have gi: "holds cc key s (d - int m) (\<lambda>t. cheb (k * 2 ^ m) (z t)) (T2 ! m)" "holds2 cc key s (d - int m) (\<lambda>t. cheb (k * 2 ^ m) (z t)) (T2n ! m)"
    using G m by (simp_all add: cheb_giants_def)
  have val: "msg_add (msg_mult (\<lambda>j. cheb (k * 2 ^ m) (z j) + cheb_value v c (z j)) (\<lambda>j. cheb_value v q (z j))) (\<lambda>j. cheb_value v s2 (z j))
      = (\<lambda>j. cheb_value v f (z j))"
    by (simp add: msg_add_def msg_mult_def V(5))
  have comp: "returns (thenO (ps_compose cc qu su cu) (\<lambda>cu. Some (Inr (cu, rec'))))
      (\<lambda>(r, rec'). ?S ns rest rec' \<and> ?ok f (d - int (Suc m) - l) r)"
    if qu: "?ok q (d - int m - l) qu" and su: "?ok s2 (d - int m - (l + 1)) su" and rec': "?S ns rest rec'"
      and cu: "holds cc key s e' (\<lambda>j. cheb (k * 2 ^ m) (z j) + cheb_value v c (z j)) cu" "d - int m - l \<le> e'" for qu su cu e' rec'
  proof -
    have "min (min e' (d - int m - l) - 1) (d - int m - (l + 1)) = d - int (Suc m) - l" using cu(2) by simp
    moreover have "1 \<le> e'" "1 \<le> d - int m - l" using cu(2) l by simp_all
    ultimately have "returns (ps_compose cc qu su cu) (?ok f (d - int (Suc m) - l))"
      using compose_ok [OF F key cu(1) qu su] by (simp only: val)
    then show ?thesis using rec' by (auto elim!: returns_thenO)
  qed
  have noise: "ct_noise (T2 ! m) = 1" using G m by (simp add: cheb_giants_def)
  note level = holds_level [OF gi(1) noise]
  have keep: "thenO M (\<lambda>(qu, rec). Some (Inr (qu, rec))) = M" for M :: "(cpp_error + Ciphertext \<times> 'c PSRecordFused) option"
    by (auto simp: thenO_def split: option.split sum.split)
  let ?A = "\<lambda>t rec. if k < degree_of q then innerEvalChebyshevPS S L W cc k REMAINING T T2 T2n m q l fresh_ciphertext rec
    else ps_leaf cc REMAINING (halve q) t True (ws_partial W cc T q (hd q / 2) (length q - 1) t True) fresh_ciphertext rec"
  let ?B = "\<lambda>t rec. if k < degree_of s2 then innerEvalChebyshevPS S L W cc k REMAINING T T2 T2n m s2 (l + 1) fresh_ciphertext rec
    else ps_leaf cc REMAINING (halve s2) t False (ws_partial W cc T s2 (hd s2 / 2) (length s2 - 1) t False) fresh_ciphertext rec"
  let ?C = "\<lambda>t rec. cheb_giant S L W cc REMAINING T (T2 ! m) (T2n ! m) t c out rec"
  have "returns (thenO (?A t rec) (\<lambda>(qu, rec). thenO (?B t' rec) (\<lambda>(su, rec). thenO (?C t rec) (\<lambda>(cu, rec).
      thenO (ps_compose cc qu su cu) (\<lambda>cu. Some (Inr (cu, rec))))))) (\<lambda>(r, rec'). ?S ns rest rec' \<and> ?ok f (d - int (Suc m) - l) r)" for t t'
  proof (rule returns_thenO [OF side [OF V(1) _ l(1) _ st]])
    show "cheb_regular L k m q" if "2 \<le> m" using reg that by blast
    show "int m + l \<le> d" using l by simp
    fix qr :: "Ciphertext \<times> 'c PSRecordFused"
    assume "case qr of (r, rec') \<Rightarrow> ?S (?ss @ ?cs @ ns) rest rec' \<and> ?ok q (d - int m - l) r"
    then obtain qu rec1 where qu: "qr = (qu, rec1)" "?S (?ss @ ?cs @ ns) rest rec1" "?ok q (d - int m - l) qu" by (cases qr) simp
    have "returns (thenO (?B t' rec1) (\<lambda>(su, rec). thenO (?C t rec) (\<lambda>(cu, rec). thenO (ps_compose cc qu su cu) (\<lambda>cu. Some (Inr (cu, rec))))))
        (\<lambda>(r, rec'). ?S ns rest rec' \<and> ?ok f (d - int (Suc m) - l) r)"
    proof (rule returns_thenO [OF side [OF V(2) _ _ _ qu(2)]])
      show "cheb_regular L k m s2" if "2 \<le> m" using reg that by blast
      show "0 \<le> l + 1" "int m + (l + 1) \<le> d" using l by simp_all
      fix sr :: "Ciphertext \<times> 'c PSRecordFused"
      assume "case sr of (r, rec') \<Rightarrow> ?S (?cs @ ns) rest rec' \<and> ?ok s2 (d - int m - (l + 1)) r"
      then obtain su rec2 where su: "sr = (su, rec2)" "?S (?cs @ ns) rest rec2" "?ok s2 (d - int m - (l + 1)) su" by (cases sr) simp
      have "returns (?C t rec2) (\<lambda>(cu, rec'). ?S ns rest rec'
          \<and> (\<exists>e' \<ge> d - int m - l. holds cc key s e' (\<lambda>j. cheb (k * 2 ^ m) (z j) + cheb_value v c (z j)) cu))"
        by (rule giant_remaining [OF F L V(3) Suc.prems(7) l(1) gi su(2)])
      then show "returns (case sr of (su, rec) \<Rightarrow> thenO (?C t rec) (\<lambda>(cu, rec). thenO (ps_compose cc qu su cu) (\<lambda>cu. Some (Inr (cu, rec)))))
          (\<lambda>(r, rec'). ?S ns rest rec' \<and> ?ok f (d - int (Suc m) - l) r)"
        unfolding su(1) prod.case by (rule returns_thenO) (use comp [OF qu(3) su(3)] in auto)
    qed
    then show "returns (case qr of (qu, rec) \<Rightarrow> thenO (?B t' rec) (\<lambda>(su, rec). thenO (?C t rec) (\<lambda>(cu, rec).
        thenO (ps_compose cc qu su cu) (\<lambda>cu. Some (Inr (cu, rec)))))) (\<lambda>(r, rec'). ?S ns rest rec' \<and> ?ok f (d - int (Suc m) - l) r)"
      by (simp only: qu(1) prod.case)
  qed
  moreover have "innerEvalChebyshevPS S L W cc k REMAINING T T2 T2n (Suc m) f l out rec
      = thenO (?A (d - int m + 1 - l) rec) (\<lambda>(qu, rec). thenO (?B (d - int m + 1 - l - 1) rec) (\<lambda>(su, rec).
          thenO (?C (d - int m + 1 - l) rec) (\<lambda>(cu, rec). thenO (ps_compose cc qu su cu) (\<lambda>cu. Some (Inr (cu, rec))))))"
    by (simp add: sp deg rescale_flexible [OF F] noise level keep Let_def cong: if_cong)
  ultimately show ?case by (simp only:)
qed simp

end

end
