(* ===== verification/ChebSeries.thy ===== *)
theory ChebSeries
  imports ChebCorrect
begin

text \<open>
  The Chebyshev series from end to end: the batch between the two walks, the polynomials of the
  basis, the whole of \<open>evalChebyshevSeries\<close>, the double-angle iterations and the approximate modular
  reduction.
\<close>

section \<open>Record, batch, replay\<close>

context cheb_arith begin

lemma halve_nonzero: "\<exists>c \<in> set ws. c \<noteq> 0 \<Longrightarrow> \<exists>c \<in> set (halve ws). c \<noteq> (0::'c)"
  by (cases ws) (auto simp: halve_def)

lemma exact_nonzero: "exact n ws \<Longrightarrow> \<exists>c \<in> set ws. c \<noteq> (0::'c)"
  using exactD(1,4) [of n ws] last_in_set by blast

lemma degree_nonzero: "1 \<le> degree_of ws \<Longrightarrow> \<exists>c \<in> set ws. c \<noteq> (0::'c)"
proof (rule ccontr)
  assume d: "1 \<le> degree_of ws" and "\<not> (\<exists>c \<in> set ws. c \<noteq> 0)"
  then have "\<forall>c \<in> set ws. c = 0" by blast
  then have z: "strip_while ((=) 0) ws = []" by simp
  have "degree_of ws = 0" unfolding degree_of_def z by simp
  then show False using d by simp
qed

lemma nodes_ok:
  assumes L: "cheb_lib v L" and k: "1 \<le> k"
  shows "2 \<le> m \<Longrightarrow> 0 \<le> l \<Longrightarrow> int m + l \<le> d \<Longrightarrow> exact (2 * (k * 2 ^ (m - 1) - k) + k) f \<Longrightarrow> cheb_regular L k m f
    \<Longrightarrow> (w, t) \<in> set (cheb_nodes L k d m f l) \<Longrightarrow> (\<exists>c \<in> set w. c \<noteq> 0) \<and> length w \<le> Suc k \<and> 1 \<le> t \<and> t \<le> d"
proof (induction m arbitrary: f l)
  case (Suc m)
  then have m: "1 \<le> m" by simp
  obtain q c s2 where sp: "cheb_split L k (Suc m) f = Inr (q, c, s2)" and reg: "2 \<le> m \<Longrightarrow> cheb_regular L k m q \<and> cheb_regular L k m s2"
    using Suc.prems(5) by (auto split: sum.splits)
  have f: "exact (2 * (k * 2 ^ m - k) + k) f" using Suc.prems(4) by simp
  note V = split_cheb [OF L f k m sp]
  have IH: "(\<exists>c \<in> set w. c \<noteq> 0) \<and> length w \<le> Suc k \<and> 1 \<le> t \<and> t \<le> d"
    if "exact (k * 2 ^ m - k) g" "2 \<le> m" "cheb_regular L k m g" "(w, t) \<in> set (cheb_nodes L k d m g l')" "l \<le> l'" "l' \<le> l + 1" for g l'
    using that Suc.prems(2,3) halving_exponent [OF m, of k] by (intro Suc.IH [of l' g]) simp_all
  have deep: "k < degree_of g \<longleftrightarrow> 2 \<le> m" if "exact (k * 2 ^ m - k) g" for g
    using deep_degree [OF m k] exactD(3) [OF that] by simp
  have leaf: "length g = Suc k" if "exact (k * 2 ^ m - k) g" "m = 1" for g using exactD(2) [OF that(1)] that(2) by (simp add: mult_2_right)
  have one: "\<not> 2 \<le> m \<Longrightarrow> m = 1" using m by simp
  have mem: "(w, t) \<in> (if 2 \<le> m then set (cheb_nodes L k d m q l) else {(halve q, d - int m + 1 - l)})
      \<or> (w, t) \<in> (if 2 \<le> m then set (cheb_nodes L k d m s2 (l + 1)) else {(halve s2, d - int m + 1 - l - 1)})
      \<or> 1 \<le> degree_of c \<and> w = halve c \<and> t = d - int m + 1 - l"
    using Suc.prems(6) by (auto simp: sp deep [OF V(1)] deep [OF V(2)] split: if_splits)
  consider (q) "2 \<le> m" "(w, t) \<in> set (cheb_nodes L k d m q l)" | (s) "2 \<le> m" "(w, t) \<in> set (cheb_nodes L k d m s2 (l + 1))"
    | (lq) "\<not> 2 \<le> m" "w = halve q" "t = d - int m + 1 - l" | (ls) "\<not> 2 \<le> m" "w = halve s2" "t = d - int m + 1 - l - 1"
    | (c) "1 \<le> degree_of c" "w = halve c" "t = d - int m + 1 - l"
    using mem by (cases "2 \<le> m") auto
  then show ?case
  proof cases
    case q
    then show ?thesis using IH [OF V(1)] reg by simp
  next
    case s
    then show ?thesis using IH [OF V(2)] reg by simp
  next
    case lq
    then show ?thesis using halve_nonzero [OF exact_nonzero [OF V(1)]] leaf [OF V(1)] one Suc.prems(2,3) by (simp add: halve_simps)
  next
    case ls
    then show ?thesis using halve_nonzero [OF exact_nonzero [OF V(2)]] leaf [OF V(2)] one Suc.prems(2,3) by (simp add: halve_simps)
  next
    case c
    then show ?thesis using halve_nonzero [OF degree_nonzero] V(4) m Suc.prems(2,3) by (simp add: halve_simps)
  qed
qed simp

lemma cheb_replay_ok:
  assumes F: "flex cc" and key: "has_eval_key cc key" and L: "cheb_lib v L" and G: "cheb_giants cc key s d z k m T2 T2n" and k: "1 \<le> k"
    and T: "basis_holds cc key s d (cheb_msgs z) T" "length T = k" and d: "d \<le> cc_L cc" "int m \<le> d" and m: "2 \<le> m"
    and f: "exact (2 * (k * 2 ^ (m - 1) - k) + k) f" "cheb_regular L k m f" and ctxt: "ct_state ctxt = None"
  shows "returns (cheb_replay S L W cc k m T T2 T2n f ctxt) (holds cc key s (d - int m) (\<lambda>j. cheb_value v f (z j)))"
proof -
  let ?none = "\<lparr>ps_constants = [], ps_target_level = [], rev_result_ciphertexts = []\<rparr> :: 'c PSRecordFused"
  let ?ns = "cheb_nodes L k d m f 0" and ?ws = "map fst (cheb_nodes L k d m f 0)" and ?ts = "map snd (cheb_nodes L k d m f 0)"
  have rec: "innerEvalChebyshevPS S L W cc k RECORD T T2 T2n m f 0 ctxt ?none = Some (Inr (ctxt, record_nodes ?ns ?none))"
    by (rule record_ok [OF L G k m order_refl f])
  have nodes: "(\<exists>c \<in> set w. c \<noteq> 0) \<and> length w \<le> Suc k \<and> 1 \<le> t \<and> t \<le> d" if "(w, t) \<in> set ?ns" for w t
    using nodes_ok [OF L k m _ _ f that] d(2) by simp
  have batch: "returns (ws_multiple W cc T ?ws ?ts False)
      (\<lambda>rs. length rs = length ?ws \<and> (\<forall>i < length ?ws. summed cc key s (cheb_msgs z) (map v (?ws ! i)) (?ts ! i) (rs ! i)))"
    using nodes T(2) d(1) by (intro sums_law [OF F T(1)]) force+
  have rest: "returns (thenO (innerEvalChebyshevPS S L W cc k REMAINING T T2 T2n m f 0 ctxt ((record_nodes ?ns ?none)\<lparr>rev_result_ciphertexts := rev ws\<rparr>))
      (\<lambda>(ctxt, rec). Some (Inr ctxt))) (holds cc key s (d - int m) (\<lambda>j. cheb_value v f (z j)))"
    if ws: "length ws = length ?ws \<and> (\<forall>i < length ?ws. summed cc key s (cheb_msgs z) (map v (?ws ! i)) (?ts ! i) (ws ! i))" for ws
  proof -
    have "list_all2 (\<lambda>(ws, t) r. summed cc key s (cheb_msgs z) (map v ws) t r) ?ns ws"
      using ws by (simp add: list_all2_conv_all_nth case_prod_beta)
    then have "stacked v cc key s (cheb_msgs z) (?ns @ []) [] ((record_nodes ?ns ?none)\<lparr>rev_result_ciphertexts := rev ws\<rparr>)"
      by (auto simp: stacked_def)
    from remaining_ok [OF F key L G k m order_refl _ _ f ctxt this, of T] d(2)
    have "returns (innerEvalChebyshevPS S L W cc k REMAINING T T2 T2n m f 0 ctxt ((record_nodes ?ns ?none)\<lparr>rev_result_ciphertexts := rev ws\<rparr>))
        (\<lambda>(r, rec'). holds cc key s (d - int m) (\<lambda>j. cheb_value v f (z j)) r)" by (auto elim!: returns_weaken)
    then show ?thesis by (rule returns_fst)
  qed
  have fields: "ps_constants (record_nodes ?ns ?none) = ?ws" "ps_target_level (record_nodes ?ns ?none) = ?ts"
    by (simp_all add: record_nodes_fields)
  have "returns (thenO (ws_multiple W cc T ?ws ?ts False) (\<lambda>ws.
      thenO (innerEvalChebyshevPS S L W cc k REMAINING T T2 T2n m f 0 ctxt ((record_nodes ?ns ?none)\<lparr>rev_result_ciphertexts := rev ws\<rparr>))
        (\<lambda>(ctxt, rec). Some (Inr ctxt)))) (holds cc key s (d - int m) (\<lambda>j. cheb_value v f (z j)))"
    using batch rest by (rule returns_thenO)
  then show ?thesis by (simp only: cheb_replay_def Let_def rec thenO_simps prod.case fields)
qed

end

section \<open>The polynomials of the basis\<close>

text \<open>Sums and differences with a ciphertext of degree 2 keep degree 2.\<close>

lemma holds2_sub:
  assumes F: "flex cc" and a: "holds2 cc key s d u a" and b: "holds cc key s e v b" and e: "d < e"
  shows "returns (ct_sub cc b a) (holds2 cc key s d (msg_sub u v))"
proof -
  note A = holdsD [OF holds2_holds [OF a]] and B = holdsD [OF b]
  have n: "ct_noise a = 2" "ct_level a = d + 1" "d + 1 \<le> ct_level b" using a A(4) B(4) e by (auto simp: holds2_def depth_def split: if_splits)
  obtain r where r: "ct_sub cc b a = Some (Inr r)" "result cc (meet_noise (ct_noise a) (ct_level a) (ct_noise b) (ct_level b))
      (min (ct_level a) (ct_level b)) key s (msg_sub u v) r"
    using ct_sub_flexible [OF flexD [OF F] A(1) B(1)] A(2,3,5) B(2,3,5) by auto
  have "meet_noise (ct_noise a) (ct_level a) (ct_noise b) (ct_level b) = 2" "min (ct_level a) (ct_level b) = d + 1"
    using n operand_noise [OF B(1)] by (auto simp: meet_noise_def)
  then have "result cc 2 (d + 1) key s (msg_sub u v) r" using r(2) by simp
  moreover have "0 \<le> d" using operand_depth [OF A(1)] A(4) by simp
  ultimately show ?thesis using result_holds2 [of cc "d + 1" key s "msg_sub u v" r] r(1) by simp
qed

lemma holds2_add_self:
  assumes F: "flex cc" and a: "holds2 cc key s d u a"
  shows "returns (ct_add_self cc a) (holds2 cc key s d (msg_add u u))"
proof -
  note A = holdsD [OF holds2_holds [OF a]]
  have n: "ct_noise a = 2" "ct_level a = d + 1" using a A(4) by (auto simp: holds2_def depth_def)
  obtain r where r: "ct_add cc a a = Some (Inr r)" "result cc (meet_noise (ct_noise a) (ct_level a) (ct_noise a) (ct_level a))
      (min (ct_level a) (ct_level a)) key s (msg_add u u) r"
    using ct_add_flexible [OF flexD [OF F] A(1) A(1)] A(2,3,5) by auto
  have "0 \<le> d" using operand_depth [OF A(1)] A(4) by simp
  then have "holds2 cc key s d (msg_add u u) r" using result_holds2 [of cc "d + 1" key s "msg_add u u" r] r(2) n by (simp add: meet_noise_def)
  then show ?thesis using r(1) operand_state [OF A(1)] by (simp add: ct_add_self_def ensure_ct_def)
qed

lemma addScalar_noise: "addScalar cc c a = Inr r \<Longrightarrow> ct_state a = None \<Longrightarrow> ct_noise r = ct_noise a"
  by (auto simp: addScalar_def ensure_ct_def bindE_eq_Inr Let_def split: if_splits)

lemma holds2_addScalar:
  assumes F: "flex cc" and a: "holds2 cc key s d u a"
  shows "\<exists>r. addScalar cc c a = Inr r \<and> holds2 cc key s d (\<lambda>j. u j + of_real c) r"
  using holds_addScalar [OF F holds2_holds [OF a], of c] addScalar_noise [OF _ holds_state [OF holds2_holds [OF a]]] a
  by (auto simp: holds2_def)

definition exact_cmp :: "Comparisons \<Rightarrow> bool" where
  "exact_cmp C \<longleftrightarrow> cmp_nz C = (\<lambda>x. x \<noteq> 0) \<and> cmp_n1 C = (\<lambda>x. x \<noteq> 1) \<and> cmp_nm1 C = (\<lambda>x. x \<noteq> - 1)"

text \<open>The affine map of \<open>[a, b]\<close> to \<open>[-1, 1]\<close>, and the levels it costs.\<close>

definition unit_map :: "real \<Rightarrow> real \<Rightarrow> complex \<Rightarrow> complex" where
  "unit_map a b z = of_real (2 / (b - a)) * z + of_real (- 1 - a * (2 / (b - a)))"

definition map_cost :: "real \<Rightarrow> real \<Rightarrow> int" where
  "map_cost a b = (if (a \<noteq> - 1 \<or> b \<noteq> 1) \<and> 2 / (b - a) \<noteq> 1 then 1 else 0)"

lemma unit_map_id [simp]: "unit_map (- 1) 1 z = z" "map_cost (- 1) 1 = 0"
  by (simp_all add: unit_map_def map_cost_def)

lemma cheb_first_ok:
  assumes F: "flex cc" and C: "exact_cmp C" and x: "holds cc key s d z x" and d: "map_cost a b \<le> d"
  shows "\<exists>x' t tn. cheb_first C cc a b x = Inr (x', t, tn) \<and> ct_state x' = None
    \<and> holds cc key s (d - map_cost a b) (\<lambda>j. unit_map a b (z j)) t \<and> ct_noise t = 1"
proof -
  let ?alpha = "2 / (b - a)" and ?gamma = "- 1 - a * (2 / (b - a))"
  note cmp = C [unfolded exact_cmp_def]
  have mx: "cc_technique cc \<noteq> FIXEDMANUAL" using F by (simp add: flex_def)
  note st = holds_state [OF x]
  have fin: "\<exists>r. (if ct_noise t = 2 then rescaleInternal cc t else Inr t) = Inr r \<and> holds cc key s e u r \<and> ct_noise r = 1"
    if "holds cc key s e u t" for e u t using holds_degree1 [OF F that] by blast
  have add: "\<exists>r. (if cmp_nz C ?gamma then addScalar cc ?gamma t else Inr t) = Inr r \<and> holds cc key s e (\<lambda>j. u j + of_real ?gamma) r"
    if t: "holds cc key s e u t" for e u t
  proof (cases "?gamma = 0")
    case True
    then show ?thesis using cmp t by simp
  next
    case False
    then show ?thesis using cmp holds_addScalar [OF F t, of ?gamma] by simp
  qed
  consider (same) "a = - 1" "b = 1" | (shift) "a \<noteq> - 1 \<or> b \<noteq> 1" "?alpha = 1" | (scale) "a \<noteq> - 1 \<or> b \<noteq> 1" "?alpha \<noteq> 1" by blast
  then show ?thesis
  proof cases
    case same
    obtain t where "(if ct_noise x = 2 then rescaleInternal cc x else Inr x) = Inr t" "holds cc key s d z t" "ct_noise t = 1"
      using fin [OF x] by blast
    then show ?thesis using same mx st cmp by (simp add: cheb_first_def copy_resident)
  next
    case shift
    obtain t1 where t1: "(if cmp_nz C ?gamma then addScalar cc ?gamma x else Inr x) = Inr t1" "holds cc key s d (\<lambda>j. z j + of_real ?gamma) t1"
      using add [OF x] by blast
    obtain t where t: "(if ct_noise t1 = 2 then rescaleInternal cc t1 else Inr t1) = Inr t" "holds cc key s d (\<lambda>j. z j + of_real ?gamma) t" "ct_noise t = 1"
      using fin [OF t1(2)] by blast
    have "(\<lambda>j. unit_map a b (z j)) = (\<lambda>j. z j + of_real ?gamma)" using shift(2) by (simp add: unit_map_def)
    moreover have "map_cost a b = 0" using shift(2) by (simp add: map_cost_def)
    moreover have "cheb_first C cc a b x = Inr (x, t, fresh_ciphertext)"
      using shift mx st cmp t1(1) t(1,3) by (auto simp: cheb_first_def copy_resident Let_def)
    ultimately show ?thesis using t st by simp
  next
    case scale
    have c: "map_cost a b = 1" using scale by (simp add: map_cost_def)
    obtain x1 where x1: "(if ct_noise x = 2 then rescaleInternal cc x else Inr x) = Inr x1" "holds cc key s d z x1" using fin [OF x] by blast
    obtain t0 where t0: "multScalar cc ?alpha False x1 = Inr t0" "holds cc key s (d - 1) (\<lambda>j. of_real ?alpha * z j) t0"
      using holds_multScalar [OF F x1(2), of ?alpha] d c by auto
    obtain t1 where t1: "(if cmp_nz C ?gamma then addScalar cc ?gamma t0 else Inr t0) = Inr t1" "holds cc key s (d - 1) (\<lambda>j. unit_map a b (z j)) t1"
      using add [OF t0(2)] unfolding unit_map_def by blast
    obtain t where t: "(if ct_noise t1 = 2 then rescaleInternal cc t1 else Inr t1) = Inr t" "holds cc key s (d - 1) (\<lambda>j. unit_map a b (z j)) t" "ct_noise t = 1"
      using fin [OF t1(2)] by blast
    have m: "multScalar_from cc x1 ?alpha False x = Inr t0"
      using t0(1) st holds_state [OF x1(2)] by (simp add: multScalar_from_def copyE_def copy_resident)
    have "cheb_first C cc a b x = Inr (x1, t, fresh_ciphertext)"
      using scale mx st cmp x1(1) m t1(1) t(1,3) by (auto simp: cheb_first_def copy_resident Let_def)
    then show ?thesis using t c holds_state [OF x1(2)] by simp
  qed
qed

definition cheb_state :: "CkksContext \<Rightarrow> string \<Rightarrow> int \<Rightarrow> int \<Rightarrow> msg \<Rightarrow> nat \<Rightarrow> Ciphertext list \<Rightarrow> bool" where
  "cheb_state cc key s d z i T \<longleftrightarrow> Suc (length T) = i
     \<and> (\<forall>n. 0 < n \<and> n < i \<longrightarrow> holds cc key s (d - int (clog n)) (\<lambda>j. cheb n (z j)) (T ! (n - 1)) \<and> ct_noise (T ! (n - 1)) = 1)"

lemma cheb_stateD:
  assumes "cheb_state cc key s d z i T"
  shows "Suc (length T) = i" and "0 < n \<Longrightarrow> n < i \<Longrightarrow> holds cc key s (d - int (clog n)) (\<lambda>j. cheb n (z j)) (T ! (n - 1))"
    and "0 < n \<Longrightarrow> n < i \<Longrightarrow> ct_noise (T ! (n - 1)) = 1"
  using assms by (simp_all add: cheb_state_def)

lemma cheb_state_append:
  assumes "cheb_state cc key s d z i T" and "0 < i" and "holds cc key s (d - int (clog i)) (\<lambda>j. cheb i (z j)) t" "ct_noise t = 1"
  shows "cheb_state cc key s d z (Suc i) (T @ [t])"
proof -
  have "(T @ [t]) ! (n - 1) = (if n = i then t else T ! (n - 1))" if "0 < n" "n < Suc i" for n
    using that cheb_stateD(1) [OF assms(1)] by (auto simp: nth_append)
  then show ?thesis using assms by (auto simp: cheb_state_def less_Suc_eq)
qed

lemma clog_even: "0 < h \<Longrightarrow> clog (h + h) = Suc (clog h)"
  by (simp add: clog.simps [of "h + h"])

lemma clog_odd: "0 < h \<Longrightarrow> clog (h + Suc h) = Suc (clog (Suc h))"
proof -
  assume h: "0 < h"
  have "(h + Suc h + 1) div 2 = Suc h" by simp
  then show ?thesis using h by (subst clog.simps) simp
qed

text \<open>Twice a product of two polynomials, and of one with itself.\<close>

lemma cheb_product:
  assumes F: "flex cc" and key: "has_eval_key cc key" and a: "holds cc key s d (\<lambda>j. f j) a" and b: "holds cc key s e (\<lambda>j. g j) b"
    and d: "1 \<le> e" "e \<le> d"
  shows "returns (thenO (ct_mult3 cc Neither a b False fresh_ciphertext) (ct_add_self cc)) (holds2 cc key s (e - 1) (\<lambda>j. 2 * (f j * g j)))"
proof -
  have "min d e = e" using d by simp
  then have "returns (ct_mult3 cc Neither a b False fresh_ciphertext) (holds2 cc key s (e - 1) (msg_mult (\<lambda>j. f j) (\<lambda>j. g j)))"
    using holds_mult3 [OF F key a b, of fresh_ciphertext False] d by simp
  moreover have "msg_add (msg_mult (\<lambda>j. f j) (\<lambda>j. g j)) (msg_mult (\<lambda>j. f j) (\<lambda>j. g j)) = (\<lambda>j. 2 * (f j * g j))"
    by (simp add: msg_add_def msg_mult_def)
  ultimately show ?thesis
    using holds2_add_self [OF F, of key s "e - 1" "msg_mult (\<lambda>j. f j) (\<lambda>j. g j)"] by (auto elim!: returns_thenO)
qed

lemma cheb_square:
  assumes F: "flex cc" and key: "has_eval_key cc key" and a: "holds cc key s d (\<lambda>j. f j) a" and d: "1 \<le> d"
  shows "returns (thenO (ct_square_from cc a False fresh_ciphertext) (\<lambda>t. thenO (ct_add_self cc t) (\<lambda>t. Some (addScalar cc (- 1) t))))
    (holds2 cc key s (d - 1) (\<lambda>j. 2 * (f j * f j) - 1))"
proof -
  have sq: "returns (ct_square_from cc a False fresh_ciphertext) (holds2 cc key s (d - 1) (msg_mult (\<lambda>j. f j) (\<lambda>j. f j)))"
    using holds_square_from [OF F key a d, of fresh_ciphertext False] by simp
  have add: "returns (thenO (ct_add_self cc t) (\<lambda>t. Some (addScalar cc (- 1) t))) (holds2 cc key s (d - 1) (\<lambda>j. 2 * (f j * f j) - 1))"
    if t: "holds2 cc key s (d - 1) (msg_mult (\<lambda>j. f j) (\<lambda>j. f j)) t" for t
  proof (rule returns_thenO [OF holds2_add_self [OF F t]])
    fix r
    assume "holds2 cc key s (d - 1) (msg_add (msg_mult (\<lambda>j. f j) (\<lambda>j. f j)) (msg_mult (\<lambda>j. f j) (\<lambda>j. f j))) r"
    then show "returns (Some (addScalar cc (- 1) r)) (holds2 cc key s (d - 1) (\<lambda>j. 2 * (f j * f j) - 1))"
      using holds2_addScalar [OF F, of key s "d - 1" _ r "- 1"] by (force simp: msg_add_def msg_mult_def)
  qed
  show ?thesis using sq add by (rule returns_thenO)
qed

text \<open>The next polynomial from those before it.\<close>

lemma next_cheb:
  assumes F: "flex cc" and key: "has_eval_key cc key" and d: "int (clog i) \<le> d" and i: "2 \<le> i" "Suc (length T) = i"
    and T: "\<forall>n. 0 < n \<and> n < i \<longrightarrow> holds cc key s (d - int (clog n)) (\<lambda>j. cheb n (z j)) (T ! (n - 1))"
  shows "odd i \<Longrightarrow> returns (thenO (ct_mult3 cc Neither (T ! (i div 2 - 1)) (T ! (i div 2)) False fresh_ciphertext) (\<lambda>t.
      thenO (ct_add_self cc t) (ct_sub cc (hd T)))) (holds2 cc key s (d - int (clog i)) (\<lambda>j. cheb i (z j)))"
    and "even i \<Longrightarrow> returns (thenO (ct_square_from cc (T ! (i div 2 - 1)) False fresh_ciphertext) (\<lambda>t.
      thenO (ct_add_self cc t) (\<lambda>t. Some (addScalar cc (- 1) t)))) (holds2 cc key s (d - int (clog i)) (\<lambda>j. cheb i (z j)))"
proof -
  assume "odd i"
  then obtain h where "i = 2 * h + 1" by (rule oddE)
  then have h: "i = h + Suc h" "0 < h" "i div 2 = h" using i by simp_all
  have c: "clog i = Suc (clog (Suc h))" unfolding h(1) using clog_odd h(2) .
  have a: "holds cc key s (d - int (clog h)) (\<lambda>j. cheb h (z j)) (T ! (h - 1))" "holds cc key s (d - int (clog (Suc h))) (\<lambda>j. cheb (Suc h) (z j)) (T ! h)"
    using T [rule_format, of h] T [rule_format, of "Suc h"] h by simp_all
  have "1 \<le> d - int (clog (Suc h))" "d - int (clog (Suc h)) \<le> d - int (clog h)" using d c clog_mono [of h "Suc h"] by simp_all
  from cheb_product [OF F key a this]
  moreover have "d - int (clog (Suc h)) - 1 = d - int (clog i)" by (simp add: c)
  ultimately have p: "returns (thenO (ct_mult3 cc Neither (T ! (h - 1)) (T ! h) False fresh_ciphertext) (ct_add_self cc))
      (holds2 cc key s (d - int (clog i)) (\<lambda>j. 2 * (cheb h (z j) * cheb (Suc h) (z j))))" by (simp only:)
  have "T \<noteq> []" using i by auto
  then have t1: "holds cc key s d (\<lambda>j. z j) (hd T)" using T [rule_format, of 1] i by (simp add: hd_conv_nth)
  have lt: "d - int (clog i) < d" by (simp add: c)
  have val: "msg_sub (\<lambda>j. 2 * (cheb h (z j) * cheb (Suc h) (z j))) (\<lambda>j. z j) = (\<lambda>j. cheb i (z j))"
    unfolding h(1) cheb_odd by (simp add: msg_sub_def)
  have "returns (ct_sub cc (hd T) t) (holds2 cc key s (d - int (clog i)) (\<lambda>j. cheb i (z j)))"
    if "holds2 cc key s (d - int (clog i)) (\<lambda>j. 2 * (cheb h (z j) * cheb (Suc h) (z j))) t" for t
    using holds2_sub [OF F that t1 lt] unfolding val .
  with p have "returns (thenO (thenO (ct_mult3 cc Neither (T ! (h - 1)) (T ! h) False fresh_ciphertext) (ct_add_self cc)) (ct_sub cc (hd T)))
      (holds2 cc key s (d - int (clog i)) (\<lambda>j. cheb i (z j)))" by (rule returns_thenO)
  then show "returns (thenO (ct_mult3 cc Neither (T ! (i div 2 - 1)) (T ! (i div 2)) False fresh_ciphertext) (\<lambda>t.
      thenO (ct_add_self cc t) (ct_sub cc (hd T)))) (holds2 cc key s (d - int (clog i)) (\<lambda>j. cheb i (z j)))"
    by (simp only: thenO_assoc h(3))
next
  assume "even i"
  then obtain h where "i = 2 * h" by (rule evenE)
  then have h: "i = h + h" "0 < h" "i div 2 = h" using i by simp_all
  have c: "clog i = Suc (clog h)" unfolding h(1) using clog_even h(2) .
  have a: "holds cc key s (d - int (clog h)) (\<lambda>j. cheb h (z j)) (T ! (h - 1))" using T [rule_format, of h] h by simp
  have "1 \<le> d - int (clog h)" using d c by simp
  from cheb_square [OF F key a this]
  show "returns (thenO (ct_square_from cc (T ! (i div 2 - 1)) False fresh_ciphertext) (\<lambda>t.
      thenO (ct_add_self cc t) (\<lambda>t. Some (addScalar cc (- 1) t)))) (holds2 cc key s (d - int (clog i)) (\<lambda>j. cheb i (z j)))"
    unfolding h(3) unfolding h(1) cheb_even by (simp add: clog_even [OF h(2)] algebra_simps)
qed

lemma cheb_power_step:
  assumes F: "flex cc" and key: "has_eval_key cc key" and d: "int (clog k) \<le> d" and i: "2 \<le> i" "i \<le> k"
    and st: "cheb_state cc key s d z i T"
  shows "returns (cheb_power cc tn T i) (cheb_state cc key s d z (Suc i))"
proof -
  have mx: "cc_technique cc \<noteq> FIXEDMANUAL" using F by (simp add: flex_def)
  have di: "int (clog i) \<le> d" using clog_mono [OF i(2)] d by linarith
  have T: "\<forall>n. 0 < n \<and> n < i \<longrightarrow> holds cc key s (d - int (clog n)) (\<lambda>j. cheb n (z j)) (T ! (n - 1))"
    using cheb_stateD(2) [OF st] by simp
  note N = next_cheb [OF F key di i(1) cheb_stateD(1) [OF st] T]
  have fin: "returns (thenO (Some (rescaleInternal cc t)) (\<lambda>t. Some (Inr (T @ [t])))) (cheb_state cc key s d z (Suc i))"
    if t: "holds2 cc key s (d - int (clog i)) (\<lambda>j. cheb i (z j)) t" for t
  proof -
    obtain r where "rescaleInternal cc t = Inr r" "holds cc key s (d - int (clog i)) (\<lambda>j. cheb i (z j)) r" "ct_noise r = 1"
      using holds_rescaleInternal [OF F holds2_holds [OF t]] t by (auto simp: holds2_def)
    then show ?thesis using cheb_state_append [OF st] i by simp
  qed
  show ?thesis
  proof (cases "odd i")
    case True
    have "cheb_power cc tn T i = thenO (thenO (ct_mult3 cc Neither (T ! (i div 2 - 1)) (T ! (i div 2)) False fresh_ciphertext) (\<lambda>t.
      thenO (ct_add_self cc t) (ct_sub cc (hd T)))) (\<lambda>t. thenO (Some (rescaleInternal cc t)) (\<lambda>t. Some (Inr (T @ [t]))))"
      using True mx by (simp add: cheb_power_def thenO_assoc)
    then show ?thesis using returns_thenO [OF N(1) [OF True] fin] by (simp only:)
  next
    case False
    have "cheb_power cc tn T i = thenO (thenO (ct_square_from cc (T ! (i div 2 - 1)) False fresh_ciphertext) (\<lambda>t.
      thenO (ct_add_self cc t) (\<lambda>t. Some (addScalar cc (- 1) t)))) (\<lambda>t. thenO (Some (rescaleInternal cc t)) (\<lambda>t. Some (Inr (T @ [t]))))"
      using False by (simp only: cheb_power_def thenO_assoc if_False)
    moreover have "even i" using False by simp
    ultimately show ?thesis using returns_thenO [OF N(2) fin] by (simp only:)
  qed
qed

text \<open>The polynomials \<open>T_(k 2^i)\<close> and the running \<open>T_(k (2^i - 1))\<close>.\<close>

definition double_state :: "CkksContext \<Rightarrow> string \<Rightarrow> int \<Rightarrow> int \<Rightarrow> msg \<Rightarrow> nat \<Rightarrow> nat \<Rightarrow> Ciphertext list \<times> Ciphertext list \<times> Ciphertext \<Rightarrow> bool" where
  "double_state cc key s d z k i st \<longleftrightarrow> (case st of (T2, T2n, p) \<Rightarrow> length T2 = i \<and> length T2n = i \<and> cheb_giants cc key s d z k i T2 T2n
     \<and> holds cc key s (if i \<le> 1 then d else d - int i) (\<lambda>t. cheb (k * (2 ^ i - 1)) (z t)) p)"

lemma cheb_double_step:
  assumes F: "flex cc" and key: "has_eval_key cc key" and d: "int m \<le> d" and i: "1 \<le> i" "i < m"
    and top: "holds cc key s d (\<lambda>j. cheb k (z j)) (last T)" and st: "double_state cc key s d z k i st"
  shows "returns (cheb_double cc T st i) (double_state cc key s d z k (Suc i))"
proof -
  obtain T2 T2n p where e: "st = (T2, T2n, p)" by (cases st)
  have P: "length T2 = i" "length T2n = i" "cheb_giants cc key s d z k i T2 T2n"
      "holds cc key s (if i \<le> 1 then d else d - int i) (\<lambda>t. cheb (k * (2 ^ i - 1)) (z t)) p"
    using st by (simp_all add: double_state_def e)
  let ?b = "if i = 1 then last T else T2 ! (i - 1)" and ?n = "k * 2 ^ (i - 1)"
  have pow: "?n + ?n = k * 2 ^ i" using i by (cases i) simp_all
  have b: "holds cc key s (d - int (i - 1)) (\<lambda>t. cheb ?n (z t)) ?b"
  proof (cases "i = 1")
    case False
    then show ?thesis using P(3) [unfolded cheb_giants_def, rule_format, of "i - 1"] i by simp
  qed (use top in simp)
  have "1 \<le> d - int (i - 1)" using d i by simp
  moreover have "d - int (i - 1) - 1 = d - int i" using i by simp
  moreover have "(\<lambda>j. 2 * (cheb ?n (z j) * cheb ?n (z j)) - 1) = (\<lambda>j. cheb (k * 2 ^ i) (z j))" by (simp only: cheb_even [symmetric] pow)
  ultimately have sq: "returns (thenO (ct_square_from cc ?b False fresh_ciphertext) (\<lambda>t. thenO (ct_add_self cc t) (\<lambda>t. Some (addScalar cc (- 1) t))))
      (holds2 cc key s (d - int i) (\<lambda>j. cheb (k * 2 ^ i) (z j)))" using cheb_square [OF F key b] by simp
  let ?p = "\<lambda>j. 2 * (cheb (k * (2 ^ i - 1)) (z j) * cheb (k * 2 ^ i) (z j))"
  have prod: "msg_sub ?p (\<lambda>j. cheb k (z j)) = (\<lambda>j. cheb (k * (2 ^ Suc i - 1)) (z j))"
  proof -
    have one: "(1::nat) \<le> 2 ^ i" by simp
    then have le: "k * (2 ^ i - 1) \<le> k * 2 ^ i" "k * 2 ^ i - k * (2 ^ i - 1) = k" "k * 2 ^ i + k * (2 ^ i - 1) = k * (2 ^ Suc i - 1)"
      by (simp_all add: diff_mult_distrib2 mult_le_mono2)
    show ?thesis using cheb_prod [OF le(1)] unfolding le(2,3) by (simp add: msg_sub_def ac_simps)
  qed
  have pm: "returns (thenO (ct_mult cc t False True p) (\<lambda>p. thenO (ct_add_self cc p) (ct_sub cc (last T))))
      (holds cc key s (d - int (Suc i)) (\<lambda>j. cheb (k * (2 ^ Suc i - 1)) (z j)))"
    if t: "holds cc key s (d - int i) (\<lambda>j. cheb (k * 2 ^ i) (z j)) t" for t
  proof -
    have m: "min (if i \<le> 1 then d else d - int i) (d - int i) - 1 = d - int (Suc i)" using i by simp
    have "returns (ct_mult cc t False True p) (holds2 cc key s (d - int (Suc i)) (msg_mult (\<lambda>t. cheb (k * (2 ^ i - 1)) (z t)) (\<lambda>j. cheb (k * 2 ^ i) (z j))))"
      using holds_mult [OF F key P(4) t, of False] d i unfolding m by simp
    moreover have "returns (thenO (ct_add_self cc q) (ct_sub cc (last T))) (holds cc key s (d - int (Suc i)) (\<lambda>j. cheb (k * (2 ^ Suc i - 1)) (z j)))"
      if q: "holds2 cc key s (d - int (Suc i)) (msg_mult (\<lambda>t. cheb (k * (2 ^ i - 1)) (z t)) (\<lambda>j. cheb (k * 2 ^ i) (z j))) q" for q
    proof (rule returns_thenO [OF holds2_add_self [OF F q]])
      fix r
      assume "holds2 cc key s (d - int (Suc i)) (msg_add (msg_mult (\<lambda>t. cheb (k * (2 ^ i - 1)) (z t)) (\<lambda>j. cheb (k * 2 ^ i) (z j)))
          (msg_mult (\<lambda>t. cheb (k * (2 ^ i - 1)) (z t)) (\<lambda>j. cheb (k * 2 ^ i) (z j)))) r"
      then have "holds2 cc key s (d - int (Suc i)) ?p r" by (simp only: msg_add_def msg_mult_def mult_2)
      from holds2_sub [OF F this top] show "returns (ct_sub cc (last T) r) (holds cc key s (d - int (Suc i)) (\<lambda>j. cheb (k * (2 ^ Suc i - 1)) (z j)))"
        unfolding prod by (intro returns_holds2) simp
    qed
    ultimately show ?thesis by (rule returns_thenO)
  qed
  have rest: "returns (thenO (Some (copy_ct cc t fresh_ciphertext)) (\<lambda>tn. thenO (Some (rescale cc t)) (\<lambda>t.
        thenO (Some (if ct_noise t = 2 then rescaleInternal cc t else Inr t)) (\<lambda>t.
        thenO (thenO (ct_mult cc t False True p) (\<lambda>p. thenO (ct_add_self cc p) (ct_sub cc (last T)))) (\<lambda>p.
        Some (Inr (T2 @ [t], T2n @ [tn], p))))))) (double_state cc key s d z k (Suc i))"
    if t: "holds2 cc key s (d - int i) (\<lambda>j. cheb (k * 2 ^ i) (z j)) t" for t
  proof -
    have n: "ct_noise t = 2" using t by (simp add: holds2_def)
    obtain r where r: "rescaleInternal cc t = Inr r" "holds cc key s (d - int i) (\<lambda>j. cheb (k * 2 ^ i) (z j)) r" "ct_noise r = 1"
      using holds_rescaleInternal [OF F holds2_holds [OF t] n] by blast
    have "cheb_giants cc key s d z k (Suc i) (T2 @ [r]) (T2n @ [t])"
      using P(1-3) r(2,3) t by (auto simp: cheb_giants_def nth_append less_Suc_eq)
    then have "double_state cc key s d z k (Suc i) (T2 @ [r], T2n @ [t], p')"
      if "holds cc key s (d - int (Suc i)) (\<lambda>j. cheb (k * (2 ^ Suc i - 1)) (z j)) p'" for p'
      using that P(1,2) i by (simp add: double_state_def del: power_Suc)
    with pm [OF r(2)] have "returns (thenO (thenO (ct_mult cc r False True p) (\<lambda>p. thenO (ct_add_self cc p) (ct_sub cc (last T)))) (\<lambda>p.
        Some (Inr (T2 @ [r], T2n @ [t], p)))) (double_state cc key s d z k (Suc i))"
      by (auto elim!: returns_thenO)
    then show ?thesis using n r(1) holds_state [OF holds2_holds [OF t]] by (simp add: copy_resident rescale_flexible [OF F])
  qed
  have "cheb_double cc T st i = thenO (thenO (ct_square_from cc ?b False fresh_ciphertext) (\<lambda>t. thenO (ct_add_self cc t) (\<lambda>t. Some (addScalar cc (- 1) t)))) (\<lambda>t.
      thenO (Some (copy_ct cc t fresh_ciphertext)) (\<lambda>tn. thenO (Some (rescale cc t)) (\<lambda>t.
        thenO (Some (if ct_noise t = 2 then rescaleInternal cc t else Inr t)) (\<lambda>t.
        thenO (thenO (ct_mult cc t False True p) (\<lambda>p. thenO (ct_add_self cc p) (ct_sub cc (last T)))) (\<lambda>p.
        Some (Inr (T2 @ [t], T2n @ [tn], p)))))))"
    by (simp add: cheb_double_def e thenO_assoc rescale_flexible [OF F])
  then show ?thesis using returns_thenO [OF sq rest] by (simp only:)
qed

end
