(* ===== verification/ChebMain.thy ===== *)
theory ChebMain
  imports ChebSeries
begin

text \<open>
  \<open>evalChebyshevSeries\<close> returns the series at the affine image of its argument, and the double-angle
  iterations and the approximate modular reduction return what they approximate the reduction by.
\<close>

section \<open>Small degrees\<close>

definition linear_cost :: "real \<Rightarrow> real \<Rightarrow> int" where
  "linear_cost a b = (if a \<noteq> - 1 \<or> b \<noteq> 1 then 1 else 0)"

lemma linear_first_ok:
  assumes F: "flex cc" and C: "exact_cmp C" and x: "holds cc key s d z x" and d: "linear_cost a b \<le> d"
  shows "\<exists>t. linear_first C cc a b x = Inr t \<and> holds cc key s (d - linear_cost a b) (\<lambda>j. unit_map a b (z j)) t"
proof (cases "a = - 1 \<and> b = 1")
  case True
  then show ?thesis using x C holds_state [OF x] by (simp add: linear_first_def exact_cmp_def copy_resident linear_cost_def)
next
  case False
  let ?alpha = "2 / (b - a)" and ?gamma = "- 1 - a * (2 / (b - a))"
  have c: "linear_cost a b = 1" using False by (simp add: linear_cost_def)
  obtain t0 where t0: "multScalar cc ?alpha False x = Inr t0" "holds cc key s (d - 1) (\<lambda>j. of_real ?alpha * z j) t0"
    using holds_multScalar [OF F x, of ?alpha] d c by auto
  have m: "multScalar_from cc x ?alpha False fresh_ciphertext = Inr t0"
    using t0(1) holds_state [OF x] by (simp add: multScalar_from_def copyE_def copy_resident)
  obtain t1 where "addScalar cc ?gamma t0 = Inr t1" "holds cc key s (d - 1) (\<lambda>j. unit_map a b (z j)) t1"
    using holds_addScalar [OF F t0(2), of ?gamma] unfolding unit_map_def by blast
  moreover have "holds cc key s (d - 1) (\<lambda>j. unit_map a b (z j)) t0" if "?gamma = 0"
    using t0(2) unfolding unit_map_def that by simp
  ultimately show ?thesis
    using False C c m by (cases "?gamma = 0") (auto simp: linear_first_def exact_cmp_def Let_def rescale_flexible [OF F])
qed

definition cheb_row :: "CkksContext \<Rightarrow> string \<Rightarrow> int \<Rightarrow> int \<Rightarrow> msg \<Rightarrow> nat \<Rightarrow> Ciphertext list \<Rightarrow> bool" where
  "cheb_row cc key s d z i T \<longleftrightarrow> Suc (length T) = i
     \<and> (\<forall>n. 0 < n \<and> n < i \<longrightarrow> holds cc key s (d - int (clog n)) (\<lambda>j. cheb n (z j)) (T ! (n - 1)))"

lemma cheb_row_append:
  assumes "cheb_row cc key s d z i T" and "holds2 cc key s (d - int (clog i)) (\<lambda>j. cheb i (z j)) t"
  shows "cheb_row cc key s d z (Suc i) (T @ [t])"
proof -
  have "(T @ [t]) ! (n - 1) = (if n = i then t else T ! (n - 1))" if "0 < n" "n < Suc i" for n
    using that assms(1) by (auto simp: nth_append cheb_row_def)
  then show ?thesis using assms by (auto simp: cheb_row_def less_Suc_eq holds2_def)
qed

lemma linear_cheby_step:
  assumes F: "flex cc" and key: "has_eval_key cc key" and d: "int (clog k) \<le> d" and i: "2 \<le> i" "i \<le> k"
    and st: "cheb_row cc key s d z i T"
  shows "returns (linear_cheby cc T i) (cheb_row cc key s d z (Suc i))"
proof -
  have di: "int (clog i) \<le> d" using clog_mono [OF i(2)] d by linarith
  have T: "Suc (length T) = i" "\<forall>n. 0 < n \<and> n < i \<longrightarrow> holds cc key s (d - int (clog n)) (\<lambda>j. cheb n (z j)) (T ! (n - 1))"
    using st by (simp_all add: cheb_row_def)
  note N = next_cheb [OF F key di i(1) T]
  have fin: "returns (Some (Inr (T @ [t]))) (cheb_row cc key s d z (Suc i))"
    if "holds2 cc key s (d - int (clog i)) (\<lambda>j. cheb i (z j)) t" for t
    using cheb_row_append [OF st that] by simp
  show ?thesis
  proof (cases "odd i")
    case True
    then show ?thesis using returns_thenO [OF N(1) [OF True] fin]
      by (simp add: linear_cheby_def thenO_assoc rescale_flexible [OF F])
  next
    case False
    then have "even i" by simp
    from returns_thenO [OF N(2) [OF this] fin] False show ?thesis
      by (simp add: linear_cheby_def thenO_assoc rescale_flexible [OF F])
  qed
qed

lemma evalChebyPolysLinear_ok:
  assumes F: "flex cc" and key: "has_eval_key cc key" and C: "exact_cmp C" and x: "holds cc key s d z x"
    and n: "2 \<le> n" and d: "linear_cost a b + int (clog (n - 1)) \<le> d"
  shows "returns (evalChebyPolysLinear C cc n a b x) (cheb_row cc key s (d - linear_cost a b) (\<lambda>j. unit_map a b (z j)) n)"
proof -
  have "linear_cost a b \<le> d" using d by simp
  then obtain t where t: "linear_first C cc a b x = Inr t" "holds cc key s (d - linear_cost a b) (\<lambda>j. unit_map a b (z j)) t"
    using linear_first_ok [OF F C x] by blast
  have "cheb_row cc key s (d - linear_cost a b) (\<lambda>j. unit_map a b (z j)) 2 [t]"
    using t(2) by (auto simp: cheb_row_def less_Suc_eq numeral_2_eq_2)
  then have "returns (foldO (linear_cheby cc) [t] [2..<n]) (cheb_row cc key s (d - linear_cost a b) (\<lambda>j. unit_map a b (z j)) n)"
    using n d by (intro returns_foldO_upt) (auto intro!: linear_cheby_step [OF F key, of "n - 1"])
  moreover have "cc_technique cc \<noteq> FIXEDMANUAL" "Suc (n - 1) = n" using F n by (simp_all add: flex_def)
  ultimately show ?thesis using t(1) by (simp add: evalChebyPolysLinear_def Let_def del: upt_Suc)
qed

context cheb_arith begin

lemma evalChebyshevSeriesLinear_ok:
  assumes F: "flex cc" and key: "has_eval_key cc key" and C: "exact_cmp C" and x: "holds cc key s d z x"
    and n: "length cs = Suc n" "1 \<le> n" and d: "linear_cost a b + int (clog n) + 1 \<le> d"
  shows "returns (evalChebyshevSeriesLinear C S cc cs a b x)
    (holds cc key s (d - linear_cost a b - int (clog n) - 1) (\<lambda>j. cheb_value v cs (unit_map a b (z j))))"
proof -
  let ?z = "\<lambda>j. unit_map a b (z j)" and ?e = "d - linear_cost a b" and ?d = "d - linear_cost a b - int (clog n) - 1"
  let ?step = "\<lambda>T result i. if sc_nz S (cs ! (i + 1))
      then thenO (Some (scaled_from S cc (T ! i) (cs ! (i + 1)) fresh_ciphertext)) (\<lambda>t. ct_add cc t result) else Some (Inr result)"
  let ?part = "\<lambda>i. (\<lambda>j. v (cs ! n) * cheb n (?z j) + (\<Sum>i = 0..<i. v (cs ! (i + 1)) * cheb (i + 1) (?z j)))"
  have main: "returns (thenO (Some (scaled_from S cc (T ! (n - 1)) (cs ! n) fresh_ciphertext)) (\<lambda>result.
      thenO (foldO (?step T) result [0..<n - 1]) (\<lambda>result. Some (sc_add S cc (hd cs / 2) result))))
      (holds cc key s ?d (\<lambda>j. cheb_value v cs (?z j)))"
    if T: "cheb_row cc key s ?e ?z (Suc n) T" for T
  proof -
    have tm: "\<exists>t. scaled_from S cc (T ! i) (cs ! (i + 1)) fresh_ciphertext = Inr t
        \<and> holds cc key s (?e - int (clog (i + 1)) - 1) (\<lambda>j. v (cs ! (i + 1)) * cheb (i + 1) (?z j)) t"
      if i: "i < n" for i
    proof -
      have h: "holds cc key s (?e - int (clog (i + 1))) (\<lambda>j. cheb (i + 1) (?z j)) (T ! i)"
        using T i unfolding cheb_row_def by (auto dest: spec [of _ "i + 1"])
      have "1 \<le> ?e - int (clog (i + 1))" using clog_mono [of "i + 1" n] i d by linarith
      then show ?thesis using mult_law [OF F h, of "cs ! (i + 1)"] holds_state [OF h] by (auto simp: scaled_from_def copyE_def copy_resident)
    qed
    have n1: "n - 1 + 1 = n" using n(2) by simp
    obtain top where top: "scaled_from S cc (T ! (n - 1)) (cs ! n) fresh_ciphertext = Inr top" "holds cc key s ?d (?part 0) top"
      using tm [of "n - 1"] n(2) unfolding n1 by auto
    have step: "returns (?step T r i) (holds cc key s ?d (?part (Suc i)))" if i: "0 \<le> i" "i < n - 1" and r: "holds cc key s ?d (?part i) r" for i r
    proof (cases "sc_nz S (cs ! (i + 1))")
      case True
      then obtain t where t: "scaled_from S cc (T ! i) (cs ! (i + 1)) fresh_ciphertext = Inr t"
          "holds cc key s (?e - int (clog (i + 1)) - 1) (\<lambda>j. v (cs ! (i + 1)) * cheb (i + 1) (?z j)) t"
        using tm [of i] i(2) by fastforce
      have "i + 1 \<le> n" using i(2) by linarith
      then have "min ?d (?e - int (clog (i + 1)) - 1) = ?d" using clog_mono [of "i + 1" n] by (simp add: min_def)
      moreover have "msg_add (?part i) (\<lambda>j. v (cs ! (i + 1)) * cheb (i + 1) (?z j)) = ?part (Suc i)" by (simp add: msg_add_def add.assoc)
      ultimately have "returns (ct_add cc t r) (holds cc key s ?d (?part (Suc i)))" using holds_add [OF F r t(2)] by (simp only:)
      then show ?thesis using True t(1) by simp
    next
      case False
      then have "cs ! (i + 1) = 0" by (rule zero_law)
      then show ?thesis using False r by (simp add: val_0)
    qed
    have sum: "returns (foldO (?step T) top [0..<n - 1]) (holds cc key s ?d (?part (n - 1)))"
      using top(2) by (intro returns_foldO_upt step) simp_all
    have val: "?part (n - 1) j + v (hd cs / 2) = cheb_value v cs (?z j)" for j
    proof -
      have ne: "cs \<noteq> []" using n(1) by auto
      have "cheb_value v cs (?z j) = (\<Sum>i<Suc n. v (cs ! i) * cheb_basis (?z j) i)"
        unfolding cheb_value_def series_def n(1) by (intro sum.cong) (simp_all add: nth_default_nth n(1))
      also have "\<dots> = v (cs ! 0) / 2 + (\<Sum>i<n. v (cs ! Suc i) * cheb (Suc i) (?z j))"
        by (subst sum.lessThan_Suc_shift) (simp add: cheb_basis_def)
      also have "(\<Sum>i<n. v (cs ! Suc i) * cheb (Suc i) (?z j)) = (\<Sum>i<n - 1. v (cs ! Suc i) * cheb (Suc i) (?z j)) + v (cs ! n) * cheb n (?z j)"
        using sum.lessThan_Suc [of "\<lambda>i. v (cs ! Suc i) * cheb (Suc i) (?z j)" "n - 1"] n(2) by simp
      finally show ?thesis using ne by (simp add: hd_conv_nth val_half atLeast0LessThan)
    qed
    have "returns (Some (sc_add S cc (hd cs / 2) r)) (holds cc key s ?d (\<lambda>j. cheb_value v cs (?z j)))" if "holds cc key s ?d (?part (n - 1)) r" for r
      using add_law [OF F that, of "hd cs / 2"] val by auto
    with sum have "returns (thenO (foldO (?step T) top [0..<n - 1]) (\<lambda>result. Some (sc_add S cc (hd cs / 2) result)))
        (holds cc key s ?d (\<lambda>j. cheb_value v cs (?z j)))" by (rule returns_thenO)
    then show ?thesis using top(1) by simp
  qed
  have "returns (evalChebyPolysLinear C cc (Suc n) a b x) (cheb_row cc key s ?e ?z (Suc n))"
    using evalChebyPolysLinear_ok [OF F key C x, of "Suc n"] n d by simp
  moreover have "returns (Some (copy_ct cc r x)) (holds cc key s e u)" if "holds cc key s e u r" for r e u
    using that holds_state [OF that] holds_state [OF x] by (simp add: copy_resident)
  ultimately have "returns (thenO (evalChebyPolysLinear C cc (Suc n) a b x) (\<lambda>T.
      thenO (thenO (Some (scaled_from S cc (T ! (n - 1)) (cs ! n) fresh_ciphertext)) (\<lambda>result.
      thenO (foldO (?step T) result [0..<n - 1]) (\<lambda>result. Some (sc_add S cc (hd cs / 2) result)))) (\<lambda>result. Some (copy_ct cc result x))))
      (holds cc key s ?d (\<lambda>j. cheb_value v cs (?z j)))"
    by (intro returns_thenO [OF _ returns_thenO [OF main]]) auto
  moreover have "Suc n - 2 = n - 1" "n - 1 + 1 = n" using n(2) by simp_all
  moreover have "\<not> Suc n < 2" using n(2) by simp
  ultimately show ?thesis
    by (simp only: evalChebyshevSeriesLinear_def n(1) Let_def thenO_assoc if_False rescale_flexible [OF F] thenO_simps)
qed

end

section \<open>The evaluator\<close>

context cheb_arith begin

lemma chebyshev_bases_ok:
  assumes F: "flex cc" and key: "has_eval_key cc key" and t: "holds cc key s d (\<lambda>j. z j) t" "ct_noise t = 1"
    and k: "1 \<le> k" and m: "2 \<le> m" and d: "int (clog k) + int m \<le> d"
  shows "returns (foldO (cheb_power cc tn) [t] [2..<Suc k]) (cheb_state cc key s d z (Suc k))"
    and "cheb_state cc key s d z (Suc k) T \<Longrightarrow> returns (foldO (cheb_double cc T) ([fresh_ciphertext], [fresh_ciphertext], last T) [1..<m])
          (double_state cc key s (d - int (clog k)) z k m)"
proof -
  have "cheb_state cc key s d z 2 [t]" using t by (auto simp: cheb_state_def less_Suc_eq numeral_2_eq_2)
  moreover have "int (clog k) \<le> d" using d by simp
  ultimately show "returns (foldO (cheb_power cc tn) [t] [2..<Suc k]) (cheb_state cc key s d z (Suc k))"
    using k by (intro returns_foldO_upt) (auto intro: cheb_power_step [OF F key])
next
  assume st: "cheb_state cc key s d z (Suc k) T"
  have top: "holds cc key s (d - int (clog k)) (\<lambda>j. cheb k (z j)) (last T)"
  proof -
    have "length T = k" using cheb_stateD(1) [OF st] by simp
    then have "last T = T ! (k - 1)" using k by (subst last_conv_nth) auto
    then show ?thesis using cheb_stateD(2) [OF st, of k] k by simp
  qed
  have "double_state cc key s (d - int (clog k)) z k 1 ([fresh_ciphertext], [fresh_ciphertext], last T)"
    using top by (simp add: double_state_def cheb_giants_def)
  moreover have "int m \<le> d - int (clog k)" using d by simp
  ultimately show "returns (foldO (cheb_double cc T) ([fresh_ciphertext], [fresh_ciphertext], last T) [1..<m])
      (double_state cc key s (d - int (clog k)) z k m)"
    using m by (intro returns_foldO_upt) (auto intro: cheb_double_step [OF F key _ _ _ top])
qed

lemma cheb_basis_holds:
  assumes st: "cheb_state cc key s d z (Suc k) T" and k: "1 \<le> k"
  shows "basis_holds cc key s (d - int (clog k)) (cheb_msgs z) T" and "length T = k"
proof -
  show len: "length T = k" using cheb_stateD(1) [OF st] by simp
  have "ct_noise (T ! i) = 1 \<and> (\<exists>e \<ge> d - int (clog k). holds cc key s e (cheb_msgs z (Suc i)) (T ! i))" if "i < k" for i
    using cheb_stateD(2,3) [OF st, of "Suc i"] clog_mono [of "Suc i" k] that
    by (auto simp: cheb_msgs_def intro!: exI [of _ "d - int (clog (Suc i))"])
  then show "basis_holds cc key s (d - int (clog k)) (cheb_msgs z) T"
    using len k by (auto simp: basis_holds_def cheb_msgs_def)
qed

lemma with_top_value:
  assumes "cs \<noteq> []" and "degree_of cs < D"
  shows "cheb_value v (with_top D (resize (degree_of cs + 1) cs)) x = cheb_value v cs x + cheb D x"
proof -
  have "cheb_value v (with_top D (resize (degree_of cs + 1) cs)) x = cheb_value v cs x + v 1 * cheb_basis x D"
    unfolding cheb_value_def
    by (rule series_single) (use assms(2) coeff_above [of cs] in \<open>auto simp: with_top_monic coeff_resize\<close>)
  then show ?thesis using assms(2) by (simp add: val_1 cheb_basis_def)
qed

lemma evalChebyshevSeries_ok:
  assumes F: "flex cc" and key: "has_eval_key cc key" and L: "cheb_lib v L" and C: "exact_cmp C" and x: "holds cc key s d z x"
    and cs: "cs \<noteq> []" "5 \<le> degree_of cs" "degree_of cs < k * (2 ^ m - 1)" and km: "pl_ComputeDegreesPS L (degree_of cs) = Inr (k, m)"
    and k: "1 \<le> k" and m: "2 \<le> m" and d: "map_cost a b + int (clog k) + int m \<le> d"
    and reg: "cheb_regular L k m (with_top (k * (2 ^ m - 1)) (resize (degree_of cs + 1) cs))"
  shows "returns (evalChebyshevSeries C S L W cc cs a b x)
    (holds cc key s (d - map_cost a b - int (clog k) - int m) (\<lambda>j. cheb_value v cs (unit_map a b (z j))))"
proof -
  let ?D = "k * (2 ^ m - 1)" and ?z = "\<lambda>j. unit_map a b (z j)" and ?d = "d - map_cost a b" and ?dk = "d - map_cost a b - int (clog k)"
  let ?f = "with_top ?D (resize (degree_of cs + 1) cs)"
  have D: "2 * (k * 2 ^ (m - 1) - k) + k = ?D"
    using halving_exponent [of m k] m by (simp add: diff_mult_distrib2)
  have f: "exact (2 * (k * 2 ^ (m - 1) - k) + k) ?f" unfolding D by (simp add: exact_def with_top_monic)
  have "map_cost a b \<le> d" using d by simp
  from cheb_first_ok [OF F C x this] obtain x' t tn where first: "cheb_first C cc a b x = Inr (x', t, tn)" "ct_state x' = None"
      "holds cc key s ?d ?z t" "ct_noise t = 1" by blast
  have dd: "int (clog k) + int m \<le> ?d" using d by simp
  note B = chebyshev_bases_ok [OF F key first(3,4) k m dd]
  have L0: "?dk \<le> cc_L cc"
  proof -
    have "depth x \<le> cc_L cc" using holdsD(1) [OF x] by (auto simp: operand_def ct_ok_def depth_def)
    then show ?thesis using holdsD(4) [OF x] by (simp add: map_cost_def)
  qed
  have fin: "returns (subMutable cc p r) (\<lambda>(r, p'). holds cc key s (?dk - int m) (\<lambda>j. cheb_value v cs (?z j)) r)"
    if "holds cc key s (?dk - int m) (\<lambda>j. cheb_value v ?f (?z j)) r" "holds cc key s (?dk - int m) (\<lambda>j. cheb ?D (?z j)) p" for r p
    using holds_subMutable [OF F that] by (elim returns_weaken) (simp only: msg_sub_def with_top_value [OF cs(1,3)] add_diff_cancel_right' min.idem)
  have walk: "returns (thenO (cheb_replay S L W cc k m T T2 T2n ?f x') (\<lambda>r. thenO (Some (rescale cc r)) (\<lambda>r.
        thenO (subMutable cc p r) (\<lambda>(r, p). Some (Inr r))))) (holds cc key s (?dk - int m) (\<lambda>j. cheb_value v cs (?z j)))"
    if st: "cheb_state cc key s ?d ?z (Suc k) T" and ds: "double_state cc key s ?dk ?z k m (T2, T2n, p)" for T T2 T2n p
  proof (rule returns_thenO)
    have "cheb_giants cc key s ?dk ?z k m T2 T2n" using ds by (simp add: double_state_def)
    moreover have "int m \<le> ?dk" using dd by simp
    ultimately show "returns (cheb_replay S L W cc k m T T2 T2n ?f x') (holds cc key s (?dk - int m) (\<lambda>j. cheb_value v ?f (?z j)))"
      using cheb_replay_ok [OF F key L _ k cheb_basis_holds [OF st k] L0 _ m f reg first(2)] by blast
  next
    fix r
    assume r: "holds cc key s (?dk - int m) (\<lambda>j. cheb_value v ?f (?z j)) r"
    have "holds cc key s (?dk - int m) (\<lambda>j. cheb ?D (?z j)) p" using ds m by (simp add: double_state_def)
    from returns_fst [OF fin [OF r this]]
    show "returns (thenO (Some (rescale cc r)) (\<lambda>r. thenO (subMutable cc p r) (\<lambda>(r, p). Some (Inr r))))
        (holds cc key s (?dk - int m) (\<lambda>j. cheb_value v cs (?z j)))" by (simp add: rescale_flexible [OF F])
  qed
  have "returns (thenO (foldO (cheb_power cc tn) [t] [2..<Suc k]) (\<lambda>T.
      thenO (foldO (cheb_double cc T) ([fresh_ciphertext], [fresh_ciphertext], last T) [1..<m]) (\<lambda>(T2, T2n, p).
      thenO (cheb_replay S L W cc k m T T2 T2n ?f x') (\<lambda>r. thenO (Some (rescale cc r)) (\<lambda>r.
        thenO (subMutable cc p r) (\<lambda>(r, p). Some (Inr r))))))) (holds cc key s (?dk - int m) (\<lambda>j. cheb_value v cs (?z j)))"
  proof (rule returns_thenO [OF B(1)])
    fix T
    assume T: "cheb_state cc key s ?d ?z (Suc k) T"
    show "returns (thenO (foldO (cheb_double cc T) ([fresh_ciphertext], [fresh_ciphertext], last T) [1..<m]) (\<lambda>(T2, T2n, p).
      thenO (cheb_replay S L W cc k m T T2 T2n ?f x') (\<lambda>r. thenO (Some (rescale cc r)) (\<lambda>r.
        thenO (subMutable cc p r) (\<lambda>(r, p). Some (Inr r)))))) (holds cc key s (?dk - int m) (\<lambda>j. cheb_value v cs (?z j)))"
      by (rule returns_thenO [OF B(2) [OF T]]) (use walk [OF T] in auto)
  qed
  moreover have skip: "thenO (foldO (cheb_power cc tn) [t] [2..<Suc k]) (\<lambda>T. thenO (Some (copy_ct cc (last T) fresh_ciphertext)) (G T))
      = thenO (foldO (cheb_power cc tn) [t] [2..<Suc k]) (\<lambda>T. G T (last T))" for G :: "Ciphertext list \<Rightarrow> Ciphertext \<Rightarrow> (cpp_error + Ciphertext) option"
  proof -
    obtain T where T: "foldO (cheb_power cc tn) [t] [2..<Suc k] = Some (Inr T)" "cheb_state cc key s ?d ?z (Suc k) T"
      using B(1) by (auto simp: returns_def)
    have "T \<noteq> []" using cheb_basis_holds(2) [OF T(2) k] k by auto
    then have "ct_state (last T) = None" using basis_holdsD(3) [OF cheb_basis_holds(1) [OF T(2) k]] by simp
    then show ?thesis using T(1) by (simp add: copy_resident)
  qed
  moreover have "\<not> degree_of cs < 5" using cs(2) by simp
  ultimately show ?thesis
    using cheb_libD(1) [OF L cs(1)] km first(1)
    by (simp only: evalChebyshevSeries_def Let_def D thenO_simps prod.case if_False skip)
qed

end

section \<open>Double angles\<close>

definition angle_const :: "nat \<Rightarrow> nat \<Rightarrow> real" where
  "angle_const r j = (2 * pi) powr - (2 powr (real j - real r))"

text \<open>What the iterations compute.\<close>

definition double_angles :: "nat \<Rightarrow> nat \<Rightarrow> complex \<Rightarrow> complex" where
  "double_angles r n y = foldl (\<lambda>y j. 2 * (y * y) - of_real (angle_const r j)) y [1..<Suc n]"

lemma double_angles_simps [simp]:
  "double_angles r 0 y = y" "double_angles r (Suc n) y = 2 * (double_angles r n y * double_angles r n y) - of_real (angle_const r (Suc n))"
  by (simp_all add: double_angles_def)

lemma angle_const_step: "angle_const r j * angle_const r j = angle_const r (Suc j)"
proof -
  have "(2::real) powr (real (Suc j) - real r) = 2 * 2 powr (real j - real r)"
    using powr_add [of 2 "real j - real r" 1] by (simp add: algebra_simps)
  then show ?thesis by (simp add: angle_const_def flip: powr_add)
qed

lemma angle_const_last: "angle_const r r = 1 / (2 * pi)"
  by (simp add: angle_const_def powr_minus_divide)

lemma double_angles_cos:
  "double_angles r n (of_real (angle_const r 0) * cos t) = of_real (angle_const r n) * cos (2 ^ n * t)"
proof (induction n)
  case (Suc n)
  have c: "cos (2 ^ Suc n * t) = 2 * (cos (2 ^ n * t) * cos (2 ^ n * t)) - 1"
    using cos_double_cos [of "2 ^ n * t"] by (simp add: mult.assoc power2_eq_square)
  have a: "complex_of_real (angle_const r (Suc n)) = of_real (angle_const r n) * of_real (angle_const r n)"
    by (simp flip: angle_const_step)
  show ?case unfolding double_angles_simps Suc.IH c a by (simp add: algebra_simps)
qed simp

lemma double_angle_step:
  assumes F: "flex cc" and key: "has_eval_key cc key" and a: "holds cc key s d (\<lambda>i. u i) a" and d: "1 \<le> d"
  shows "returns (double_angle cc r a j) (holds cc key s (d - 1) (\<lambda>i. 2 * (u i * u i) - of_real (angle_const r j)))"
proof -
  have t: "cc_technique cc \<noteq> FIXEDMANUAL" using F by (simp add: flex_def)
  have sq: "returns (ct_square cc False a) (holds2 cc key s (d - 1) (msg_mult (\<lambda>i. u i) (\<lambda>i. u i)))"
    using holds_square [OF F key a d] .
  have fin: "returns (Some (addScalar cc (- angle_const r j) c)) (holds cc key s (d - 1) (\<lambda>i. 2 * (u i * u i) - of_real (angle_const r j)))"
    if "holds2 cc key s (d - 1) (msg_add (msg_mult (\<lambda>i. u i) (\<lambda>i. u i)) (msg_mult (\<lambda>i. u i) (\<lambda>i. u i))) c" for c
    using holds_addScalar [OF F holds2_holds [OF that], of "- angle_const r j"] by (force simp: msg_add_def msg_mult_def)
  have "returns (thenO (ct_square cc False a) (\<lambda>c. thenO (ct_add_self cc c) (\<lambda>c. Some (addScalar cc (- angle_const r j) c))))
      (holds cc key s (d - 1) (\<lambda>i. 2 * (u i * u i) - of_real (angle_const r j)))"
    by (rule returns_thenO [OF sq], rule returns_thenO [OF holds2_add_self [OF F] fin])
  then show ?thesis using t by (simp add: double_angle_def angle_const_def)
qed

lemma applyDoubleAngleIterations_ok:
  assumes F: "flex cc" and key: "has_eval_key cc key" and a: "holds cc key s d (\<lambda>i. u i) a" and d: "int r \<le> d"
  shows "returns (applyDoubleAngleIterations cc r a) (holds cc key s (d - int r) (\<lambda>i. double_angles r r (u i)))"
proof -
  let ?I = "\<lambda>j c. holds cc key s (d - int (j - 1)) (\<lambda>i. double_angles r (j - 1) (u i)) c"
  have "returns (double_angle cc r c j) (?I (Suc j))" if j: "1 \<le> j" "j < r + 1" and c: "?I j c" for j c
  proof -
    obtain n where n: "j = Suc n" using j(1) by (cases j) simp_all
    have e: "d - int n - 1 = d - int (Suc j - 1)" "Suc j - 1 = Suc n" using n by simp_all
    have "holds cc key s (d - int n) (\<lambda>i. double_angles r n (u i)) c" "1 \<le> d - int n" using c d j n by simp_all
    from double_angle_step [OF F key this, of r j] show ?thesis unfolding e(1) n diff_Suc_1 double_angles_simps .
  qed
  then have "returns (foldO (double_angle cc r) a [1..<r + 1]) (?I (r + 1))" using a by (intro returns_foldO_upt) auto
  then show ?thesis by (simp add: applyDoubleAngleIterations_def)
qed

section \<open>Modular reduction\<close>

lemma holds_multIntScalar:
  assumes "holds cc key s d u a"
  shows "holds cc key s d (msg_scale (real n) u) (multIntScalar n a)"
  using holds_message [OF assms, of "msg_scale (real n) (ct_msg a)" "msg_scale (real n) u"] holdsD(5) [OF assms]
  by (auto simp: multIntScalar_def msg_scale_def decode_def)

text \<open>The monomial of half the ring's dimension multiplies every slot by the imaginary unit.\<close>

lemma power5_mod4: "(5::nat) ^ j mod 4 = 1"
  by (induction j) (simp_all add: mod_mult_eq [symmetric])

lemma slot_root_half:
  assumes "0 < h"
  shows "slot_root (2 * h) j ^ h = \<i>"
proof -
  obtain q where q: "(5::nat) ^ j = 4 * q + 1" using power5_mod4 [of j] by (metis mult_div_mod_eq)
  have "slot_root (2 * h) j ^ h = cis (real h * (5 ^ j * pi / real (2 * h)))" by (simp add: slot_root_def DeMoivre)
  also have "real h * (5 ^ j * pi / real (2 * h)) = 5 ^ j * pi / 2" using assms by simp
  also have "(5 ^ j :: real) = 4 * real q + 1" using arg_cong [OF q, of real] by simp
  also have "(4 * real q + 1) * pi / 2 = pi / 2 + 2 * pi * real q" by (simp add: algebra_simps)
  also have "cis \<dots> = \<i>" by (simp add: cis_mult [symmetric] cis_multiple_2pi)
  finally show ?thesis .
qed

lemma holds_monomial_half:
  assumes a: "holds cc key s d u a" and N: "cc_N cc = 2 * int h" "0 < h"
  shows "\<exists>r. multMonomial cc (nat (cc_N cc div 2)) a = Inr r \<and> holds cc key s d (\<lambda>j. \<i> * u j) r"
proof -
  have h: "nat (cc_N cc div 2) = h" "nat (cc_N cc) = 2 * h" "int h < cc_N cc" "nat (int h mod cc_N cc) = h"
    using N by (simp_all add: nat_mult_distrib)
  have "holds cc key s d (\<lambda>j. \<i> * u j) (a\<lparr>ct_msg := \<lambda>j. \<i> * ct_msg a j\<rparr>)"
    by (rule holds_message [OF a]) (use holdsD(5) [OF a] in \<open>auto simp: decode_def\<close>)
  then show ?thesis using holds_state [OF a] h by (simp add: multMonomial_def ensure_ct_def slot_root_half [OF N(2)])
qed

end
