(* ===== verification/SeriesArith.thy ===== *)
theory SeriesArith
  imports ChebMain
begin

text \<open>
  Both overloads of the series evaluators: the scalar operations and the batched sums for real and for
  complex coefficients satisfy the contracts, with exact comparisons.
\<close>

abbreviation exact_doubles :: "real Scalars" where
  "exact_doubles \<equiv> double_scalars (\<lambda>w. w \<noteq> 0) (\<lambda>w. w \<noteq> 1)"

abbreviation exact_complexes :: "complex Scalars" where
  "exact_complexes \<equiv> complex_scalars (\<lambda>w. w \<noteq> 0) (\<lambda>w. w \<noteq> 1)"

abbreviation exact_double_sums :: "real WSums" where
  "exact_double_sums \<equiv> double_sums (\<lambda>w. w \<noteq> 0) (\<lambda>w. w \<noteq> 0)"

abbreviation exact_complex_sums :: "complex WSums" where
  "exact_complex_sums \<equiv> complex_sums (\<lambda>w. w \<noteq> 0)"

abbreviation exact_comparisons :: Comparisons where
  "exact_comparisons \<equiv> \<lparr>cmp_nz = (\<lambda>x. x \<noteq> 0), cmp_n1 = (\<lambda>x. x \<noteq> 1), cmp_nm1 = (\<lambda>x. x \<noteq> - 1)\<rparr>"

lemma exact_comparisons [simp]: "exact_cmp exact_comparisons"
  by (simp add: exact_cmp_def)

interpretation real_series: cheb_arith exact_doubles of_real exact_double_sums
proof
  fix cc key s T b ctxs and ws :: "real list list" and ts
  assume F: "flex cc" and B: "basis_holds cc key s T b ctxs" and len: "length ws = length ts"
    and ws: "\<And>w. w \<in> set ws \<Longrightarrow> (\<exists>c \<in> set w. c \<noteq> 0) \<and> length w \<le> Suc (length ctxs)"
    and ts: "\<And>t. t \<in> set ts \<Longrightarrow> 1 \<le> t \<and> t \<le> T \<and> t \<le> cc_L cc"
  let ?ws = "map (map complex_of_real) ws"
  have "returns (eval_multiple (trim_real (\<lambda>w. w \<noteq> 0)) (wsum_group_real (\<lambda>w. w \<noteq> 0)) cc ctxs ?ws ts False)
      (\<lambda>rs. length rs = length ?ws \<and> (\<forall>i < length ?ws. summed cc key s b (?ws ! i) (ts ! i) (rs ! i)))"
    by (rule real_sums.eval_multiple_ok [OF F B]) (use len ws ts in force)+
  then show "returns (ws_multiple exact_double_sums cc ctxs ws ts False)
      (\<lambda>rs. length rs = length ws \<and> (\<forall>i < length ws. summed cc key s b (map of_real (ws ! i)) (ts ! i) (rs ! i)))"
    by (simp add: double_sums_def evalMultiplePartialLinearWSumWithBias_def)
qed (auto simp: double_scalars_def holds_multScalar holds_addScalar)

interpretation complex_series: cheb_arith exact_complexes "\<lambda>c. c" exact_complex_sums
proof
  fix cc key s T b ctxs and ws :: "complex list list" and ts
  assume F: "flex cc" and B: "basis_holds cc key s T b ctxs" and len: "length ws = length ts"
    and ws: "\<And>w. w \<in> set ws \<Longrightarrow> (\<exists>c \<in> set w. c \<noteq> 0) \<and> length w \<le> Suc (length ctxs)"
    and ts: "\<And>t. t \<in> set ts \<Longrightarrow> 1 \<le> t \<and> t \<le> T \<and> t \<le> cc_L cc"
  have "returns (eval_multiple (\<lambda>ws. Inr (trim_complex (\<lambda>w. w \<noteq> 0) ws)) (wsum_group_complex (\<lambda>w. w \<noteq> 0)) cc ctxs ws ts False)
      (\<lambda>rs. length rs = length ws \<and> (\<forall>i < length ws. summed cc key s b (ws ! i) (ts ! i) (rs ! i)))"
    by (rule complex_sums.eval_multiple_ok [OF F B]) (use len ws ts in force)+
  then show "returns (ws_multiple exact_complex_sums cc ctxs ws ts False)
      (\<lambda>rs. length rs = length ws \<and> (\<forall>i < length ws. summed cc key s b (map (\<lambda>c. c) (ws ! i)) (ts ! i) (rs ! i)))"
    by (simp add: complex_sums_def evalMultiplePartialLinearWSumComplex_def)
qed (auto simp: complex_scalars_def holds_multScalarC holds_addScalarC)

section \<open>A context with many levels\<close>

text \<open>All primes and scaling factors alike, and an evaluation key for one tag.\<close>

definition deep_cc :: CkksContext where
  "deep_cc = \<lparr>cc_technique = FLEXIBLEAUTO, cc_L = 8, cc_N = 16, cc_prime = replicate 9 97, cc_specialPrime = [193],
     cc_ModReduceFactor = replicate 9 97, cc_ScalingFactorReal = replicate 9 97, cc_ScalingFactorRealBig = replicate 9 (97 * 97),
     cc_keys = cc_keys keyed_cc\<rparr>"

definition deep_ct :: "(nat \<Rightarrow> complex) \<Rightarrow> Ciphertext" where
  "deep_ct u = fresh_ciphertext\<lparr>ct_keyID := ''key'', ct_level := 8, ct_noise := 1, ct_slots := 8, ct_factor := 97, ct_msg := (\<lambda>j. 97 * u j)\<rparr>"

lemma deep_entry: "0 \<le> l \<Longrightarrow> l \<le> 8 \<Longrightarrow> replicate 9 (x::'a) ! nat l = x"
  by (rule nth_replicate) simp

lemma deep_ok: "flex deep_cc" "has_eval_key deep_cc ''key''" "cc_L deep_cc = 8" "cc_N deep_cc = 16"
  using keyed_ok(4)
  by (simp_all add: flex_def tables_ok_def exact_primes_def deep_cc_def deep_entry has_eval_key_def)

lemma deep_holds: "holds deep_cc ''key'' 8 8 u (deep_ct u)"
  by (simp add: holds_def operand_def ct_ok_def deep_ct_def deep_cc_def fresh_ciphertext_def scale_of_def deep_entry depth_def decode_def)

end
