(* ===== verification/SeriesLib.thy ===== *)
theory SeriesLib
  imports SeriesArith
begin

text \<open>
  A library of operations on real coefficient vectors that meets the contracts of \<^term>\<open>poly_lib\<close> and
  \<^term>\<open>cheb_lib\<close>: long division in the power basis and in the Chebyshev basis. It stands for OpenFHE's
  functions of the same names in the concrete instances of the properties.
\<close>

section \<open>The power basis\<close>

text \<open>Leading coefficients first; the divisor is monic and given without its leading coefficient.\<close>

fun subtract_row :: "real \<Rightarrow> real list \<Rightarrow> real list \<Rightarrow> real list" where
  "subtract_row c (g # gs) (f # fs) = (f - c * g) # subtract_row c gs fs"
| "subtract_row c gs fs = fs"

fun divide_rows :: "nat \<Rightarrow> real list \<Rightarrow> real list \<Rightarrow> real list \<times> real list" where
  "divide_rows (Suc n) gs (f # fs) = (case divide_rows n gs (subtract_row f gs fs) of (q, r) \<Rightarrow> (f # q, r))"
| "divide_rows n gs fs = ([], fs)"

definition is_quotient :: "real list \<Rightarrow> real list \<Rightarrow> real list \<Rightarrow> real list \<Rightarrow> bool" where
  "is_quotient f g q r \<longleftrightarrow> length q = length f - length g + 1 \<and> r \<noteq> [] \<and> list_all (\<lambda>i. i < length g - 1 \<or> coeff r i = 0) [0..<length r]
     \<and> list_all (\<lambda>n. coeff f n = sum_list (map (\<lambda>i. coeff q i * coeff g (n - i)) [0..<Suc n]) + coeff r n) [0..<length f]"

definition divide_poly :: "real list \<Rightarrow> real list \<Rightarrow> cpp_error + real list \<times> real list" where
  "divide_poly f g = (case divide_rows (length f - length g + 1) (tl (rev g)) (rev f) of (q, r) \<Rightarrow>
     let q = rev q; r = (if r = [] then [0] else rev r)
     in if is_quotient f g q r then Inr (q, r) else Inl Invalid_argument)"

lemma is_quotient_sound:
  assumes Q: "is_quotient f g q r" and g: "g \<noteq> []" "length g \<le> length f"
  shows "quotient f g q r"
proof -
  have lq: "length q = length f - length g + 1" "r \<noteq> []" using Q by (simp_all add: is_quotient_def)
  have c: "coeff r i = 0" if "i < length r" "length g - 1 \<le> i" for i
  proof -
    have "\<forall>i \<in> set [0..<length r]. i < length g - 1 \<or> coeff r i = 0" using Q by (simp add: is_quotient_def list_all_iff)
    then show ?thesis using that by (auto dest!: bspec [of _ _ i])
  qed
  have e: "coeff f n = sum_list (map (\<lambda>i. coeff q i * coeff g (n - i)) [0..<Suc n]) + coeff r n" if "n < length f" for n
    using Q that unfolding is_quotient_def list_all_iff by (simp del: upt_Suc)
  have r: "coeff r i = 0" if "length g - 1 \<le> i" for i
    using c [OF _ that] by (cases "i < length r") (simp_all add: nth_default_beyond)
  have "coeff f n = (\<Sum>i\<le>n. coeff q i * coeff g (n - i)) + coeff r n" for n
  proof (cases "n < length f")
    case True
    then show ?thesis using e by (simp add: sum_list_distinct_conv_sum_set atLeast0_lessThan_Suc atLeast0LessThan lessThan_Suc_atMost del: upt_Suc)
  next
    case False
    have "coeff q i * coeff g (n - i) = 0" if "i \<le> n" for i
    proof -
      have lg: "1 \<le> length g" using g(1) by (simp add: Suc_leI)
      consider "length q \<le> i" | "length g \<le> n - i" using lq(1) that False g(2) lg by linarith
      then show ?thesis by cases (simp_all add: nth_default_beyond)
    qed
    then have "(\<Sum>i\<le>n. coeff q i * coeff g (n - i)) = 0" by (intro sum.neutral) auto
    moreover have "coeff r n = 0" using False g r by simp
    ultimately show ?thesis using False by (simp add: nth_default_beyond)
  qed
  then show ?thesis using lq r by (simp add: quotient_def)
qed

lemma divide_poly_sound: "divide_poly f g = Inr (q, r) \<Longrightarrow> g \<noteq> [] \<Longrightarrow> length g \<le> length f \<Longrightarrow> quotient f g q r"
  by (rule is_quotient_sound) (auto simp: divide_poly_def Let_def split: prod.splits if_splits)

section \<open>The Chebyshev basis\<close>

text \<open>The product of a vector with one member of the basis.\<close>

definition basis_times :: "nat \<Rightarrow> nat \<Rightarrow> real list \<Rightarrow> real list" where
  "basis_times n e g = map (\<lambda>i. if e = 0 then coeff g i / 2
     else ((if e \<le> i then coeff g (i - e) else coeff g (e - i)) + coeff g (i + e)) / 2) [0..<n]"

definition subtract_list :: "real \<Rightarrow> real list \<Rightarrow> real list \<Rightarrow> real list" where
  "subtract_list c fs gs = map2 (\<lambda>f g. f - c * g) fs gs"

fun divide_cheb_rows :: "nat \<Rightarrow> real list \<Rightarrow> real list \<Rightarrow> real list \<times> real list" where
  "divide_cheb_rows 0 g f = ([], f)"
| "divide_cheb_rows (Suc e) g f =
     (let c = 2 * coeff f (e + (length g - 1)) / last g
      in case divide_cheb_rows e g (subtract_list c f (basis_times (length f) e g)) of (q, r) \<Rightarrow> (q @ [c], r))"

definition divide_cheb :: "real list \<Rightarrow> real list \<Rightarrow> cpp_error + real list \<times> real list" where
  "divide_cheb f g = (case divide_cheb_rows (length f - length g + 1) g f of (q, r) \<Rightarrow>
     if length g \<le> length f \<and> last q \<noteq> 0 \<and> r \<noteq> [] \<and> list_all (\<lambda>i. i < length g - 1 \<or> coeff r i = 0) [0..<length r]
     then Inr (q, r) else Inl Invalid_argument)"


lemma value_pointwise:
  assumes "\<And>i. i < n \<Longrightarrow> coeff h i = coeff f i - c * coeff g i" and "length h \<le> n" "length f \<le> n" "length g \<le> n"
  shows "cheb_value of_real h z = cheb_value of_real f z - of_real c * cheb_value of_real g z"
proof -
  have "cheb_value of_real cs z = (\<Sum>i<n. of_real (coeff cs i) * cheb_basis z i)" if "length cs \<le> n" for cs :: "real list"
    unfolding cheb_value_def by (rule series_sum) (simp_all add: that)
  moreover have "(\<Sum>i<n. of_real (coeff h i) * cheb_basis z i) = (\<Sum>i<n. of_real (coeff f i - c * coeff g i) * cheb_basis z i)"
    by (rule sum.cong) (simp_all add: assms(1))
  ultimately show ?thesis using assms(2-4) by (simp add: sum_subtractf sum_distrib_left left_diff_distrib mult.assoc)
qed

lemma subtract_list_value:
  assumes "length g = length f"
  shows "cheb_value of_real (subtract_list c f g) z = cheb_value of_real f z - of_real c * cheb_value of_real g z"
  using assms by (intro value_pointwise [where n = "length f"]) (simp_all add: subtract_list_def nth_default_nth)

text \<open>One coefficient at a time.\<close>

definition unit_sum :: "nat \<Rightarrow> nat \<Rightarrow> complex \<Rightarrow> complex" where
  "unit_sum e j z = (if e = 0 then cheb_basis z j / 2
     else (cheb_basis z (j + e) + (if 1 \<le> j \<and> j \<le> e then cheb_basis z (e - j) else 0) + (if e \<le> j then cheb_basis z (j - e) else 0)) / 2)"

lemma unit_sum_product: "unit_sum e j z = cheb_basis z e * cheb_basis z j"
proof (cases "e = 0 \<or> j = 0")
  case False
  have "2 * (cheb_basis z e * cheb_basis z j) = cheb (j + e) z + cheb (if j \<le> e then e - j else j - e) z"
    using cheb_prod [of j e z] cheb_prod [of e j z] False by (auto simp: cheb_basis_def ac_simps not_le)
  moreover have "2 * unit_sum e j z = cheb (j + e) z + cheb (if j \<le> e then e - j else j - e) z"
    using False by (auto simp: unit_sum_def cheb_basis_def)
  ultimately have "2 * unit_sum e j z = 2 * (cheb_basis z e * cheb_basis z j)" by simp
  then show ?thesis by (simp only: mult_cancel_left) simp
qed (auto simp: unit_sum_def cheb_basis_def)

lemma unit_row:
  assumes "j + e < n"
  shows "(\<Sum>i<n. (if e = 0 then of_bool (i = j) / 2
      else ((if e \<le> i then of_bool (i - e = j) else of_bool (e - i = j)) + of_bool (i + e = j)) / 2) * cheb_basis z i) = unit_sum e j z"
proof -
  have d: "(\<Sum>i<n. of_bool (i = m) * cheb_basis z i) = cheb_basis z m" if "m < n" for m
    using that by (simp add: of_bool_def if_distrib [of "\<lambda>x. x * _"] cong: if_cong)
  show ?thesis
  proof (cases "e = 0")
    case True
    then show ?thesis using d [of j] assms by (simp add: unit_sum_def sum_divide_distrib [symmetric])
  next
    case False
    have "(if e \<le> i then of_bool (i - e = j) else of_bool (e - i = j)) + of_bool (i + e = j)
      = (of_bool (i = j + e) + (if 1 \<le> j \<and> j \<le> e then of_bool (i = e - j) else 0) + (if e \<le> j then of_bool (i = j - e) else 0) :: complex)" for i
      using False by (cases "e \<le> i"; cases "e \<le> j"; cases "j = 0") (auto simp: of_bool_def)
    then have "((if e \<le> i then of_bool (i - e = j) else of_bool (e - i = j)) + of_bool (i + e = j)) / 2 * cheb_basis z i
      = (of_bool (i = j + e) * cheb_basis z i + (if 1 \<le> j \<and> j \<le> e then of_bool (i = e - j) * cheb_basis z i else 0)
        + (if e \<le> j then of_bool (i = j - e) * cheb_basis z i else 0)) / 2" for i
      by (simp add: distrib_right)
    then have "(\<Sum>i<n. ((if e \<le> i then of_bool (i - e = j) else of_bool (e - i = j)) + of_bool (i + e = j)) / 2 * cheb_basis z i)
      = ((\<Sum>i<n. of_bool (i = j + e) * cheb_basis z i) + (\<Sum>i<n. if 1 \<le> j \<and> j \<le> e then of_bool (i = e - j) * cheb_basis z i else 0)
        + (\<Sum>i<n. if e \<le> j then of_bool (i = j - e) * cheb_basis z i else 0)) / 2"
      by (simp only: sum.distrib [symmetric] sum_divide_distrib)
    also have "\<dots> = unit_sum e j z"
      using False assms d [of "j + e"] d [of "e - j"] d [of "j - e"] by (simp add: unit_sum_def)
    finally show ?thesis using False by simp
  qed
qed

lemma basis_times_coeff:
  "i < n \<Longrightarrow> coeff (basis_times n e g) i = (if e = 0 then coeff g i / 2
     else ((if e \<le> i then coeff g (i - e) else coeff g (e - i)) + coeff g (i + e)) / 2)"
  by (simp add: basis_times_def nth_default_nth)

lemma basis_times_length [simp]: "length (basis_times n e g) = n"
  by (simp add: basis_times_def)

lemma basis_times_value:
  assumes "length g + e \<le> n"
  shows "cheb_value of_real (basis_times n e g) z = cheb_basis z e * cheb_value of_real g z"
  using assms
proof (induction g rule: rev_induct)
  case Nil
  then show ?case by (simp add: cheb_value_def series_def basis_times_def nth_default_nth cong: if_cong)
next
  case (snoc c g)
  let ?j = "length g"
  have add: "coeff (g @ [c]) i = coeff g i + c * of_bool (i = ?j)" for i
    by (auto simp: nth_default_def nth_append less_Suc_eq)
  have up: "cheb_value of_real cs z = (\<Sum>i<n. of_real (coeff cs i) * cheb_basis z i)" if "length cs \<le> n" for cs :: "real list"
    unfolding cheb_value_def by (rule series_sum) (simp_all add: that)
  let ?u = "\<lambda>i. (if e = 0 then of_bool (i = ?j) / 2 else ((if e \<le> i then of_bool (i - e = ?j) else of_bool (e - i = ?j)) + of_bool (i + e = ?j)) / 2)"
  have row: "coeff (basis_times n e (g @ [c])) i = coeff (basis_times n e g) i + c * ?u i" if "i < n" for i
    unfolding basis_times_coeff [OF that] add by (simp add: add_divide_distrib algebra_simps)
  have "cheb_value of_real (basis_times n e (g @ [c])) z = cheb_value of_real (basis_times n e g) z + of_real c * (\<Sum>i<n. of_real (?u i) * cheb_basis z i)"
  proof -
    have "(\<Sum>i<n. of_real (coeff (basis_times n e (g @ [c])) i) * cheb_basis z i) = (\<Sum>i<n. of_real (coeff (basis_times n e g) i + c * ?u i) * cheb_basis z i)"
      by (intro sum.cong refl) (simp only: row lessThan_iff)
    then show ?thesis by (simp only: up basis_times_length order_refl of_real_add of_real_mult distrib_right sum.distrib sum_distrib_left mult.assoc)
  qed
  also have "(\<Sum>i<n. of_real (?u i) * cheb_basis z i) = unit_sum e ?j z"
  proof -
    have "complex_of_real (of_bool b) = of_bool b" for b by simp
    then show ?thesis using unit_row [of ?j e n z] snoc.prems by (simp add: if_distrib [of complex_of_real] cong: if_cong)
  qed
  also have "cheb_value of_real (basis_times n e g) z = cheb_basis z e * cheb_value of_real g z" using snoc by simp
  finally have row': "cheb_value of_real (basis_times n e (g @ [c])) z
      = cheb_basis z e * cheb_value of_real g z + of_real c * unit_sum e ?j z" .
  show ?case
  proof -
    have "(\<Sum>i<n. of_real (coeff (g @ [c]) i) * cheb_basis z i)
        = (\<Sum>i<n. of_real (coeff g i) * cheb_basis z i) + (\<Sum>i<n. if i = ?j then of_real c * cheb_basis z i else 0)"
      unfolding sum.distrib [symmetric] by (intro sum.cong refl) (simp add: add distrib_right)
    moreover have "?j < n" "length g \<le> n" "length (g @ [c]) \<le> n" using snoc.prems by simp_all
    ultimately have "cheb_value of_real (g @ [c]) z = cheb_value of_real g z + of_real c * cheb_basis z ?j" by (simp add: up)
    then show ?thesis unfolding row' by (simp add: unit_sum_product algebra_simps)
  qed
qed

lemma subtract_list_length [simp]: "length (subtract_list c f g) = min (length f) (length g)"
  by (simp add: subtract_list_def)

lemma divide_cheb_rows_value:
  assumes "divide_cheb_rows e g f = (q, r)" and "length g + e \<le> Suc (length f)"
  shows "length q = e \<and> length r = length f
    \<and> cheb_value of_real f z = cheb_value of_real q z * cheb_value of_real g z + cheb_value of_real r z"
  using assms
proof (induction e arbitrary: f q r)
  case 0
  then show ?case by (simp add: cheb_value_def series_def)
next
  case (Suc e)
  define c where "c = 2 * coeff f (e + (length g - 1)) / last g"
  let ?f = "subtract_list c f (basis_times (length f) e g)"
  obtain q' where q: "divide_cheb_rows e g ?f = (q', r)" "q = q' @ [c]"
    using Suc.prems(1) by (auto simp: c_def Let_def split: prod.splits)
  have "length g + e \<le> Suc (length ?f)" using Suc.prems(2) by simp
  note IH = Suc.IH [OF q(1) this]
  have "cheb_value of_real (q' @ [c]) z = cheb_value of_real q' z + of_real c * cheb_basis z e"
    using IH by (auto simp: cheb_value_def series_def nth_default_def nth_append)
  moreover have "cheb_value of_real ?f z = cheb_value of_real f z - of_real c * (cheb_basis z e * cheb_value of_real g z)"
    using Suc.prems(2) by (simp add: subtract_list_value basis_times_value)
  ultimately show ?case using IH q(2) by (simp add: algebra_simps)
qed

lemma divide_cheb_sound: "divide_cheb f g = Inr (q, r) \<Longrightarrow> g \<noteq> [] \<Longrightarrow> cheb_quotient of_real f g q r"
proof -
  assume d: "divide_cheb f g = Inr (q, r)" and g: "g \<noteq> []"
  then have q: "divide_cheb_rows (length f - length g + 1) g f = (q, r)" "length g \<le> length f" "last q \<noteq> 0" "r \<noteq> []"
    and z: "\<forall>i \<in> set [0..<length r]. i < length g - 1 \<or> coeff r i = 0"
    by (auto simp: divide_cheb_def list_all_iff split: prod.splits if_splits)
  have "coeff r i = 0" if "length g - 1 \<le> i" for i
    using z that by (cases "i < length r") (auto simp: nth_default_beyond dest!: bspec [of _ _ i])
  then show ?thesis using divide_cheb_rows_value [OF q(1)] q by (auto simp: cheb_quotient_def)
qed

section \<open>The library\<close>

definition reference_lib :: "nat \<Rightarrow> nat \<Rightarrow> real PolyLib" where
  "reference_lib k m = \<lparr>pl_Degree = (\<lambda>cs. Inr (length (strip_while (\<lambda>c. c = 0) cs) - 1)), pl_LongDivisionPoly = divide_poly,
     pl_LongDivisionChebyshev = divide_cheb, pl_ComputeDegreesPS = (\<lambda>n. Inr (k, m))\<rparr>"

lemma reference_lib_ok: "poly_lib (reference_lib k m)" "cheb_lib of_real (reference_lib k m)"
proof -
  have "(\<lambda>c. c = 0) = ((=) (0::real))" by auto
  then show "poly_lib (reference_lib k m)" "cheb_lib of_real (reference_lib k m)"
    by (auto simp: poly_lib_def cheb_lib_def reference_lib_def degree_of_def divide_poly_sound divide_cheb_sound)
qed

end
