(* ===== verification/SeriesProps.thy ===== *)
theory SeriesProps
  imports SeriesLib
begin

text \<open>
  The properties of the evaluators of polynomials and Chebyshev series, each on a context with nine levels.
\<close>

lemma returnsD: "returns m Q \<Longrightarrow> \<exists>r. m = Some (Inr r) \<and> Q r"
  by (simp add: returns_def)


definition demo_series :: "real list" where
  "demo_series = [1, 2, 3, 4, 5, 6]"

lemma demo_series_degree: "degree_of demo_series = 5"
  by (subst degree_of_last) (simp_all add: demo_series_def)

lemmas divide_eval = divide_cheb_def divide_poly_def is_quotient_def unit_power_def basis_times_def subtract_list_def
  nth_default_def minus_power_def resize_def strip_while_def numeral_eq_Suc upt_rec

lemma demo_cheb_divisions:
  "divide_cheb [1, 2, 3, 4, 5, 6, 1] (unit_power 4) = Inr ([10, 12, 2], [1, 2, 2, - 2, 0, 0, 0])"
  "divide_cheb [1, 2, 1, - 2] [10, 12, 2] = Inr ([13, - 2], [- 40, - 64, 0, 0])"
  "minus_power 2 (Suc (Suc (Suc 0))) [1, 2, 2, - 2, 0, 0, 0] = [1, 2, 1, - 2 :: real]"
  by (simp_all add: divide_eval)

lemma demo_series_top: "with_top 6 (resize 6 demo_series) = [1, 2, 3, 4, 5, 6, 1]"
  by (simp add: demo_series_def with_top_def resize_def numeral_eq_Suc)

lemma demo_series_regular: "cheb_regular (reference_lib 2 2) 2 2 (with_top 6 (resize 6 demo_series))"
proof -
  have "cheb_split (reference_lib 2 2) 2 2 [1, 2, 3, 4, 5, 6, 1] = Inr ([10, 12, 2], [13, - 2], with_top 2 [- 40, - 64, 0, 0])"
    using demo_cheb_divisions by (simp add: cheb_split_def reference_lib_def strip_while_def)
  then show ?thesis unfolding demo_series_top by (simp add: numeral_2_eq_2)
qed



lemma demo_poly_regular: "ps_regular (reference_lib 2 2) 2 2 (with_top 6 (resize 6 demo_series))"
proof -
  have "divide_poly [1, 2, 3, 4, 5, 6, 1] (unit_power 4) = Inr ([5, 6, 1], [1, 2, 3, 4])"
    "minus_power 2 (Suc (Suc (Suc 0))) [1, 2, 3, 4] = [1, 2, 2, 4 :: real]"
    "divide_poly [1, 2, 2, 4] [5, 6, 1] = Inr ([- 22, 4], [111, 114])"
    by (simp_all add: divide_eval)
  then have "poly_split (reference_lib 2 2) 2 2 [1, 2, 3, 4, 5, 6, 1] = Inr ([5, 6, 1], [- 22, 4], with_top 2 [111, 114])"
    by (simp add: poly_split_def reference_lib_def strip_while_def)
  then show ?thesis unfolding demo_series_top by (simp add: numeral_2_eq_2)
qed


text \<open>With at most four coefficients above the constant, the powers that the coefficients need are built
  and summed: the result holds the polynomial's value, one multiplication deeper than its highest
  power.\<close>

theorem evalPoly_linear_correct:
  assumes "flex cc" and "has_eval_key cc key" and "poly_lib L" and "holds cc key s d z x"
    and "length cs = Suc k" and "1 \<le> k" and "degree_of cs < 5" and "cs ! k \<noteq> 0" and "int (clog k) < d"
  shows "\<exists>r. thenO (evalPowers exact_doubles L cc cs False x) (\<lambda>sp. evalPolyLinearWithPrecomp exact_doubles cc (sp_powers sp) cs) = Some (Inr r)
    \<and> holds cc key s (d - int (clog k) - 1) (\<lambda>j. poly_value of_real cs (z j)) r"
proof (rule returnsD, rule returns_thenO)
  have "cs \<noteq> []" "int (clog k) \<le> d" using assms(5,9) by auto
  then show "returns (evalPowers exact_doubles L cc cs False x) (\<lambda>sp. linear_state cc key s d z (needed_powers exact_doubles cs) k (Suc k) (sp_powers sp))"
    using evalPowersLinear_ok [OF assms(1,2) _ assms(5,6,4)] poly_libD(1) [OF assms(3)] assms(7) by (simp add: evalPowers_def)
next
  fix sp
  assume "linear_state cc key s d z (needed_powers exact_doubles cs) k (Suc k) (sp_powers sp)"
  from real_series.evalPolyLinear_ok [OF assms(1,9,5) _ assms(6) this] assms(8)
  show "returns (evalPolyLinearWithPrecomp exact_doubles cc (sp_powers sp) cs) (holds cc key s (d - int (clog k) - 1) (\<lambda>j. poly_value of_real cs (z j)))"
    by (simp add: double_scalars_def)
qed

theorem evalPoly_linear_correct_witness:
  "\<exists>r. thenO (evalPowers exact_doubles (reference_lib 2 2) deep_cc [7, 0, 5, 3] False (deep_ct of_nat))
      (\<lambda>sp. evalPolyLinearWithPrecomp exact_doubles deep_cc (sp_powers sp) [7, 0, 5, 3]) = Some (Inr r)
    \<and> holds deep_cc ''key'' 8 5 (\<lambda>j. poly_value of_real [7, 0, 5, 3 :: real] (of_nat j)) r"
proof -
  have "degree_of [7, 0, 5, 3 :: real] = 3" by (subst degree_of_last) simp_all
  then show ?thesis
    using evalPoly_linear_correct [OF deep_ok(1,2) reference_lib_ok(1) deep_holds, of "[7, 0, 5, 3]" 3 2 2 of_nat]
    by (simp add: clog.simps)
qed





end
