(* ===== verification/BaseConv.thy ===== *)
theory BaseConv
  imports PartitionOps
begin

text \<open>
  The base conversions of \<open>src/src/CKKS/Conv.cu\<close>: the residues of a vector for one set of primes are
  turned into residues for other primes, approximately (\<open>ModDown2\<close>, \<open>DecompAndModUpConv\<close>, up to a small
  multiple of the product of the source primes) or with a floating-point count of that multiple
  (\<open>ExactModDown2\<close>, \<open>ExactModUpConv\<close>). A block of threads stages the scaled residues of its columns in
  shared memory, in slots of their own, and sums after a barrier; a column never reads another's.
\<close>

section \<open>Constants of the kernels\<close>

text \<open>The algorithms of \<open>modmult\<close>, but for the one on doubles.\<close>

datatype ALGO = ALGO_NATIVE | ALGO_NONE | ALGO_SHOUP | ALGO_BARRETT

definition modmult :: "Constants \<Rightarrow> ALGO \<Rightarrow> nat \<Rightarrow> u64 \<Rightarrow> u64 \<Rightarrow> u64 \<Rightarrow> u64" where
  "modmult c algo primeid a b shoup_b =
     (case algo of ALGO_NONE \<Rightarrow> 0
      | ALGO_SHOUP \<Rightarrow> modmult_shoup c primeid a b shoup_b
      | ALGO_BARRETT \<Rightarrow> modmult_barrett c primeid a b
      | ALGO_NATIVE \<Rightarrow> ucast ((ucast a * ucast b :: u128) mod ucast (hc_primes c ! primeid)))"

text \<open>The part of \<open>Constants\<close> that describes digits and rows, and the tables in global memory: arrays as
  functions of their index.\<close>

record KernelLayout =
  kl_flattened :: "nat \<Rightarrow> nat"
  kl_num_from :: "nat \<Rightarrow> nat \<Rightarrow> nat"
  kl_digit_from :: "nat \<Rightarrow> nat \<Rightarrow> nat"
  kl_num_to :: "nat \<Rightarrow> nat \<Rightarrow> nat"
  kl_digit_to :: "nat \<Rightarrow> nat \<Rightarrow> nat"

record Globals =
  gl_q_inv :: "nat \<Rightarrow> u64"
  gl_ModDown_pre_scale :: "nat \<Rightarrow> u64"
  gl_ModDown_pre_scale_shoup :: "nat \<Rightarrow> u64"
  gl_ModDown_matrix :: "nat \<Rightarrow> u64"
  gl_ExactModDown_alphaP :: "nat \<Rightarrow> u64"
  gl_ExactModDown_pInv :: "nat \<Rightarrow> real"
  gl_ExactModUp_alphaQ :: "nat \<Rightarrow> u64"
  gl_ExactModUp_qInv :: "nat \<Rightarrow> real"
  gl_DecompAndModUp_pre_scale :: "nat \<Rightarrow> u64"
  gl_DecompAndModUp_pre_scale_shoup :: "nat \<Rightarrow> u64"
  gl_DecompAndModUp_matrix :: "nat \<Rightarrow> u64"

definition MODDOWN_MATRIX :: "nat \<Rightarrow> nat \<Rightarrow> nat" where
  "MODDOWN_MATRIX i j = MAXP * i + j"

definition MODUPIDX_SCALE :: "nat \<Rightarrow> nat \<Rightarrow> nat \<Rightarrow> nat" where
  "MODUPIDX_SCALE i j k = MAXP * MAXP * i + MAXP * j + k"

definition MODUPIDX_MATRIX :: "nat \<Rightarrow> nat \<Rightarrow> nat \<Rightarrow> nat \<Rightarrow> nat" where
  "MODUPIDX_MATRIX i j k l = MAXP * MAXP * i + MAXP * k + l"

text \<open>The operations on doubles: the value of an integer, and \<open>nu + x * y\<close>, in one rounding or in two.\<close>

record Doubles =
  fp_of :: "u64 \<Rightarrow> real"
  fp_mac :: "real \<Rightarrow> real \<Rightarrow> real \<Rightarrow> real"

section \<open>Reading, summing, writing\<close>

definition read_limb :: "Constants \<Rightarrow> nat \<Rightarrow> limb \<Rightarrow> nat \<Rightarrow> cpp_error + u64" where
  "read_limb c primeid l idx =
     (if ISU64 c primeid then bindE (get64 l) (\<lambda>x. read_elem idx (x, 0))
      else bindE (get32 l) (\<lambda>x. bindE (read_elem idx (x, 0)) (\<lambda>y. Inr (ucast y))))"

definition write_limb :: "Constants \<Rightarrow> nat \<Rightarrow> u64 list \<Rightarrow> limb \<Rightarrow> cpp_error + limb" where
  "write_limb c primeid vs l =
     (if ISU64 c primeid
      then bindE (get64 l) (\<lambda>x. if length x < length vs then Inl Undefined_behaviour else Inr (L64 (vs @ drop (length vs) x)))
      else bindE (get32 l) (\<lambda>x. if length x < length vs then Inl Undefined_behaviour
                                else Inr (L32 (map ucast vs @ drop (length vs) x))))"

definition conv_dot :: "(nat \<Rightarrow> u64) \<Rightarrow> u64 list \<Rightarrow> u128" where
  "conv_dot m buff = foldl (\<lambda>res i. res + ucast (buff ! i) * ucast (m i)) 0 [0..<length buff]"

text \<open>The count \<open>alpha\<close> of the exact conversions: \<open>(int)nu\<close>, clamped to the number of source primes.\<close>

definition overflow_sum :: "Doubles \<Rightarrow> (nat \<Rightarrow> real) \<Rightarrow> u64 list \<Rightarrow> real" where
  "overflow_sum fp rcp buff = foldl (\<lambda>nu i. fp_mac fp nu (fp_of fp (buff ! i)) (rcp i)) (1 / 2) [0..<length buff]"

definition overflow_count :: "Doubles \<Rightarrow> (nat \<Rightarrow> real) \<Rightarrow> u64 list \<Rightarrow> nat" where
  "overflow_count fp rcp buff =
     (let nu = overflow_sum fp rcp buff;
          alpha = (if nu < 0 then \<lceil>nu\<rceil> else \<lfloor>nu\<rfloor>);
          alpha = (if alpha < 0 then 0 else alpha);
          alpha = (if alpha > int (length buff) then int (length buff) else alpha)
      in nat alpha)"

section \<open>From the special primes to a device's primes\<close>

definition conv1 :: "Constants \<Rightarrow> nat \<Rightarrow> u64 list \<Rightarrow> u64 \<Rightarrow> nat \<Rightarrow> u64 list" where
  "conv1 c n a hat_inv primeid = map (\<lambda>idx. modmult c ALGO_BARRETT primeid (a ! idx) hat_inv 0) [0..<n]"

definition ModDown_stage :: "Constants \<Rightarrow> Globals \<Rightarrow> ALGO \<Rightarrow> limb list \<Rightarrow> nat \<Rightarrow> nat \<Rightarrow> cpp_error + u64" where
  "ModDown_stage c g algo b idx i =
     (let primeid = i + hc_L c
      in bindE (limb_at b i) (\<lambda>l. bindE (read_limb c primeid l idx) (\<lambda>x.
           Inr (modmult c algo primeid x (gl_ModDown_pre_scale g primeid) (gl_ModDown_pre_scale_shoup g primeid)))))"

definition stage_columns :: "nat \<Rightarrow> nat \<Rightarrow> (nat \<Rightarrow> nat \<Rightarrow> cpp_error + u64) \<Rightarrow> cpp_error + u64 list list" where
  "stage_columns threads k stage = mapE (\<lambda>idx. mapE (stage idx) [0..<k]) [0..<threads]"

definition ModDown2 :: "Constants \<Rightarrow> KernelLayout \<Rightarrow> Globals \<Rightarrow> ALGO \<Rightarrow> nat \<Rightarrow> limb list \<Rightarrow> nat \<Rightarrow> limb list \<Rightarrow> nat \<Rightarrow> cpp_error + limb list" where
  "ModDown2 c t g algo threads a n b primeid_init =
     bindE (stage_columns threads (hc_K c) (ModDown_stage c g algo b)) (\<lambda>cols.
       foldE (\<lambda>a j. let primeid = kl_flattened t (primeid_init + j)
                    in modify_at j (write_limb c primeid
                         (map (\<lambda>buff. modreduce_shoup c primeid (conv_dot (\<lambda>i. gl_ModDown_matrix g (MODDOWN_MATRIX i primeid)) buff)) cols)) a)
         a [0..<n])"

definition ExactModDown2 :: "Constants \<Rightarrow> KernelLayout \<Rightarrow> Globals \<Rightarrow> Doubles \<Rightarrow> ALGO \<Rightarrow> nat \<Rightarrow> limb list \<Rightarrow> nat \<Rightarrow> limb list \<Rightarrow> nat \<Rightarrow> cpp_error + limb list" where
  "ExactModDown2 c t g fp algo threads a n b primeid_init =
     bindE (stage_columns threads (hc_K c) (ModDown_stage c g algo b)) (\<lambda>cols.
       foldE (\<lambda>a j. let primeid = kl_flattened t (primeid_init + j)
                    in modify_at j (write_limb c primeid
                         (map (\<lambda>buff. let alpha = overflow_count fp (\<lambda>i. gl_ExactModDown_pInv g (i + hc_L c)) buff;
                                          cur = modreduce_shoup c primeid (conv_dot (\<lambda>i. gl_ModDown_matrix g (MODDOWN_MATRIX i primeid)) buff)
                                      in dmodsub c primeid cur (gl_ExactModDown_alphaP g (alpha * MAXP + primeid))) cols)) a)
         a [0..<n])"

section \<open>From a digit to all other primes\<close>

definition ModUp_stage :: "Constants \<Rightarrow> KernelLayout \<Rightarrow> Globals \<Rightarrow> ALGO \<Rightarrow> limb list \<Rightarrow> nat \<Rightarrow> nat \<Rightarrow> nat \<Rightarrow> nat \<Rightarrow> cpp_error + u64" where
  "ModUp_stage c t g algo a d n_d_n idx i =
     (let primeid = kl_digit_from t d i; s = MODUPIDX_SCALE d (n_d_n - 1) primeid
      in bindE (limb_at a i) (\<lambda>l. bindE (read_limb c primeid l idx) (\<lambda>x.
           Inr (modmult c algo primeid x (gl_DecompAndModUp_pre_scale g s) (gl_DecompAndModUp_pre_scale_shoup g s)))))"

definition DecompAndModUpConv :: "Constants \<Rightarrow> KernelLayout \<Rightarrow> Globals \<Rightarrow> ALGO \<Rightarrow> nat \<Rightarrow> limb list \<Rightarrow> nat \<Rightarrow> limb list \<Rightarrow> nat \<Rightarrow> cpp_error + limb list" where
  "DecompAndModUpConv c t g algo threads a n b d =
     (let n_d_n = kl_num_from t d (n - 1)
      in bindE (stage_columns threads n_d_n (ModUp_stage c t g algo a d n_d_n)) (\<lambda>cols.
           foldE (\<lambda>b j. let primeid_j = kl_digit_to t d j
                        in if primeid_j < n \<or> primeid_j \<ge> hc_L c
                           then bindE (guardE Assert_failed (\<forall>i < n_d_n. MODUPIDX_MATRIX (n - 1) d i primeid_j < 64 * 64 * 64 * 8)) (\<lambda>_.
                             modify_at j (write_limb c primeid_j
                               (map (\<lambda>buff. modreduce_shoup c primeid_j
                                  (conv_dot (\<lambda>i. gl_DecompAndModUp_matrix g (MODUPIDX_MATRIX (n - 1) d (kl_digit_from t d i) primeid_j)) buff)) cols)) b)
                           else Inr b)
             b [0..<kl_num_to t d (n - 1)]))"

definition ExactModUpConv :: "Constants \<Rightarrow> KernelLayout \<Rightarrow> Globals \<Rightarrow> Doubles \<Rightarrow> ALGO \<Rightarrow> nat \<Rightarrow> limb list \<Rightarrow> nat \<Rightarrow> limb list \<Rightarrow> nat \<Rightarrow> cpp_error + limb list" where
  "ExactModUpConv c t g fp algo threads a n b d =
     (let n_d_n = kl_num_from t d (n - 1)
      in bindE (stage_columns threads n_d_n (ModUp_stage c t g algo a d n_d_n)) (\<lambda>cols.
           foldE (\<lambda>b j. let primeid_j = kl_digit_to t d j
                        in if primeid_j < n \<or> primeid_j \<ge> hc_L c
                           then modify_at j (write_limb c primeid_j
                               (map (\<lambda>buff. let alpha = overflow_count fp (\<lambda>i. gl_ExactModUp_qInv g (kl_digit_from t d i)) buff;
                                    cur = modreduce_shoup c primeid_j
                                      (conv_dot (\<lambda>i. gl_DecompAndModUp_matrix g (MODUPIDX_MATRIX (n - 1) d (kl_digit_from t d i) primeid_j)) buff)
                                  in dmodsub c primeid_j cur (gl_ExactModUp_alphaQ g (alpha * MAXP + primeid_j))) cols)) b
                           else Inr b)
             b [0..<kl_num_to t d (n - 1)]))"

end
