(* ===== verification/BaseCrt.thy ===== *)
theory BaseCrt
  imports BaseConv
begin

text \<open>
  The arithmetic of the base conversions: the sum of scaled residues is the vector up to a multiple of the
  product of the source primes, and the count on doubles finds that multiple.
\<close>

section \<open>The sum over the source primes\<close>

abbreviation base_product :: "int list \<Rightarrow> int" where
  "base_product ps \<equiv> (\<Prod>k<length ps. ps ! k)"

definition base_hat :: "int list \<Rightarrow> nat \<Rightarrow> int" where
  "base_hat ps i = (\<Prod>k \<in> {..<length ps} - {i}. ps ! k)"

definition base_sum :: "int list \<Rightarrow> (nat \<Rightarrow> int) \<Rightarrow> int" where
  "base_sum ps y = (\<Sum>i<length ps. y i * base_hat ps i)"

definition coprime_base :: "int list \<Rightarrow> bool" where
  "coprime_base ps \<longleftrightarrow> (\<forall>i < length ps. 1 < ps ! i) \<and> (\<forall>i < length ps. \<forall>j < length ps. i \<noteq> j \<longrightarrow> coprime (ps ! i) (ps ! j))"

lemma base_product_hat: "i < length ps \<Longrightarrow> base_product ps = ps ! i * base_hat ps i"
  unfolding base_hat_def by (rule prod.remove) simp_all

lemma base_hat_pos: "coprime_base ps \<Longrightarrow> 0 < base_hat ps i"
  unfolding base_hat_def coprime_base_def by (rule prod_pos) (auto dest: spec less_trans [OF zero_less_one])

lemma base_product_pos: "coprime_base ps \<Longrightarrow> 0 < base_product ps"
  unfolding coprime_base_def by (rule prod_pos) (auto dest: spec less_trans [OF zero_less_one])

lemma base_hat_dvd: "j < length ps \<Longrightarrow> j \<noteq> i \<Longrightarrow> ps ! j dvd base_hat ps i"
  unfolding base_hat_def by (rule dvd_prodI) simp_all

text \<open>Modulo a source prime only its own term is left.\<close>

lemma base_sum_mod:
  assumes "i < length ps"
  shows "base_sum ps y mod ps ! i = y i * base_hat ps i mod ps ! i"
proof -
  have "base_sum ps y = y i * base_hat ps i + (\<Sum>k\<in>{..<length ps} - {i}. y k * base_hat ps k)"
    unfolding base_sum_def using assms by (intro sum.remove) simp_all
  moreover have "ps ! i dvd (\<Sum>k\<in>{..<length ps} - {i}. y k * base_hat ps k)"
    using assms by (intro dvd_sum dvd_mult base_hat_dvd) auto
  ultimately show ?thesis by (auto elim!: dvdE)
qed

lemma base_sum_range:
  assumes "coprime_base ps" and "\<And>i. i < length ps \<Longrightarrow> 0 \<le> y i \<and> y i < ps ! i"
  shows "0 \<le> base_sum ps y" and "ps \<noteq> [] \<Longrightarrow> base_sum ps y < int (length ps) * base_product ps"
proof -
  have h: "0 \<le> base_hat ps i" for i using base_hat_pos [OF assms(1)] by (simp add: less_imp_le)
  show "0 \<le> base_sum ps y" unfolding base_sum_def using assms(2) h by (intro sum_nonneg mult_nonneg_nonneg) auto
  assume "ps \<noteq> []"
  have "base_sum ps y < (\<Sum>i<length ps. base_product ps)"
    unfolding base_sum_def
  proof (rule sum_strict_mono)
    fix i
    assume "i \<in> {..<length ps}"
    then have i: "i < length ps" by simp
    then show "y i * base_hat ps i < base_product ps"
      unfolding base_product_hat [OF i] using assms(2) base_hat_pos [OF assms(1)] by (intro mult_strict_right_mono) auto
  qed (use \<open>ps \<noteq> []\<close> in auto)
  then show "base_sum ps y < int (length ps) * base_product ps" by simp
qed

lemma coprime_base_cong:
  assumes "coprime_base ps"
  shows "(\<forall>i < length ps. a mod ps ! i = b mod ps ! i) \<longleftrightarrow> a mod base_product ps = b mod base_product ps"
proof -
  have c: "coprime (ps ! i) (ps ! j)" if "i \<in> {..<length ps}" "j \<in> {..<length ps}" "i \<noteq> j" for i j
    using assms that by (auto simp: coprime_base_def)
  have "(\<forall>i \<in> S. a mod ps ! i = b mod ps ! i) \<longleftrightarrow> a mod (\<Prod>k\<in>S. ps ! k) = b mod (\<Prod>k\<in>S. ps ! k)"
    if "finite S" "S \<subseteq> {..<length ps}" for S
    using that
  proof (induction S rule: finite_induct)
    case (insert k S)
    have "coprime (ps ! k) (\<Prod>k\<in>S. ps ! k)" using insert.prems insert.hyps c by (intro prod_coprime_right) auto
    then have "ps ! k * (\<Prod>k\<in>S. ps ! k) dvd a - b \<longleftrightarrow> ps ! k dvd a - b \<and> (\<Prod>k\<in>S. ps ! k) dvd a - b"
      by (auto intro: divides_mult dvd_mult_left dvd_mult_right)
    then show ?case using insert by (simp add: mod_eq_dvd_iff)
  qed simp
  from this [of "{..<length ps}"] show ?thesis by auto
qed

text \<open>Scaling by the inverses of the cofactors makes the sum congruent to the vector.\<close>

lemma base_sum_crt:
  assumes cb: "coprime_base ps" and h: "\<And>i. i < length ps \<Longrightarrow> h i * base_hat ps i mod ps ! i = 1"
    and y: "\<And>i. i < length ps \<Longrightarrow> y i = x * h i mod ps ! i"
  shows "base_sum ps y mod base_product ps = x mod base_product ps"
proof -
  have "base_sum ps y mod ps ! i = x mod ps ! i" if i: "i < length ps" for i
  proof -
    have "base_sum ps y mod ps ! i = x * h i mod ps ! i * base_hat ps i mod ps ! i"
      unfolding base_sum_mod [OF i] y [OF i] ..
    also have "\<dots> = x * (h i * base_hat ps i) mod ps ! i" by (simp add: mod_mult_left_eq mult.assoc)
    also have "\<dots> = x * (h i * base_hat ps i mod ps ! i) mod ps ! i" by (simp add: mod_mult_right_eq)
    finally show ?thesis using h [OF i] by simp
  qed
  then show ?thesis using coprime_base_cong [OF cb] by blast
qed

section \<open>The count on doubles\<close>

text \<open>What IEEE 754 arithmetic gives on the values that occur: conversions and sums of products within a
  relative error of at most \<open>2^-51\<close>, whether the product is rounded on its own or not; and the same for the
  stored reciprocals.\<close>

definition fp_eps :: real where
  "fp_eps = 1 / 2 ^ 51"

definition doubles_ok :: "Doubles \<Rightarrow> bool" where
  "doubles_ok fp \<longleftrightarrow> (\<forall>x. \<bar>fp_of fp x - real (unat x)\<bar> \<le> fp_eps * real (unat x))
     \<and> (\<forall>s x y. 1 / 4 \<le> s \<longrightarrow> 0 \<le> x \<longrightarrow> 0 \<le> y \<longrightarrow> s + x * y \<le> 2 ^ 64 \<longrightarrow> \<bar>fp_mac fp s x y - (s + x * y)\<bar> \<le> fp_eps * (s + x * y))"

definition rcp_ok :: "int list \<Rightarrow> (nat \<Rightarrow> real) \<Rightarrow> bool" where
  "rcp_ok ps r \<longleftrightarrow> (\<forall>i < length ps. \<bar>r i - 1 / of_int (ps ! i)\<bar> \<le> fp_eps * (1 / of_int (ps ! i)))"

lemma rel_error_product:
  fixes a b x y e :: real
  assumes "\<bar>a - x\<bar> \<le> e * x" and "\<bar>b - y\<bar> \<le> e * y" and "0 \<le> e" and "e \<le> 1" and "0 \<le> x" and "0 \<le> y"
  shows "\<bar>a * b - x * y\<bar> \<le> 3 * e * (x * y)"
proof -
  have b: "0 \<le> b" "b \<le> 2 * y"
  proof -
    have "e * y \<le> 1 * y" using assms by (intro mult_right_mono) simp_all
    then show "0 \<le> b" "b \<le> 2 * y" using assms(2) by (simp_all add: abs_le_iff)
  qed
  have "a * b - x * y = (a - x) * b + x * (b - y)" by (simp add: algebra_simps)
  then have "\<bar>a * b - x * y\<bar> \<le> \<bar>a - x\<bar> * b + x * \<bar>b - y\<bar>" using b assms(5) by (simp add: abs_mult abs_triangle_ineq order.trans [OF abs_triangle_ineq])
  also have "\<dots> \<le> e * x * (2 * y) + x * (e * y)"
    using assms b by (intro add_mono mult_mono) simp_all
  also have "\<dots> = 3 * e * (x * y)" by (simp add: algebra_simps)
  finally show ?thesis .
qed


lemma fp_eps_simps [simp]: "0 < fp_eps" "0 \<le> fp_eps" "fp_eps \<le> 1"
  by (simp_all add: fp_eps_def)

lemma residue_fraction:
  assumes "1 < p" and "uint b < p"
  shows "0 \<le> real_of_int (uint b)" and "0 \<le> real_of_int (uint b) / real_of_int p" and "real_of_int (uint b) / real_of_int p \<le> 1"
proof -
  have p: "0 < real_of_int p" using assms(1) by simp
  show b: "0 \<le> real_of_int (uint b)" by (simp only: of_int_0_le_iff uint_ge_0)
  show "0 \<le> real_of_int (uint b) / real_of_int p" using b p by (intro divide_nonneg_pos)
  have "real_of_int (uint b) < real_of_int p" using assms(2) by (simp only: of_int_less_iff)
  then show "real_of_int (uint b) / real_of_int p \<le> 1" using p by (simp only: divide_le_eq_1_pos less_imp_le)
qed

text \<open>One step of the loop.\<close>

lemma overflow_step:
  assumes fp: "doubles_ok fp" and p: "1 < p" and r: "\<bar>r - 1 / of_int p\<bar> \<le> fp_eps * (1 / of_int p)" and b: "uint b < p"
    and s: "1 / 4 \<le> s" "s \<le> 100"
  shows "\<bar>fp_mac fp s (fp_of fp b) r - (s + uint b / p)\<bar> \<le> fp_eps * (s + 7)"
proof -
  define x :: real where "x = real_of_int (uint b)"
  define y :: real where "y = 1 / real_of_int p"
  define z where "z = fp_of fp b * r"
  have y: "0 < y" "y \<le> 1" using p by (simp_all add: y_def)
  have x: "0 \<le> x" "x * y \<le> 1" using residue_fraction [OF p b] unfolding x_def y_def by (simp_all only: times_divide_eq_right mult_1_right)
  have bx: "real (unat b) = x" by (simp add: x_def)
  have o: "\<bar>fp_of fp b - x\<bar> \<le> fp_eps * x" using fp unfolding doubles_ok_def bx [symmetric] by blast
  have r': "\<bar>r - y\<bar> \<le> fp_eps * y" using r by (simp add: y_def)
  have z: "\<bar>z - x * y\<bar> \<le> 3 * fp_eps * (x * y)"
    unfolding z_def using o r' x y by (intro rel_error_product) simp_all
  have "3 * fp_eps * (x * y) \<le> 3 * fp_eps * 1" using x by (intro mult_left_mono) simp_all
  from order_trans [OF z this] have z3: "\<bar>z - x * y\<bar> \<le> 3 * fp_eps" by simp
  have nn: "0 \<le> fp_of fp b" "0 \<le> r"
  proof -
    have "fp_eps * x \<le> 1 * x" "fp_eps * y \<le> 1 * y" using x y by (intro mult_right_mono; simp)+
    then show "0 \<le> fp_of fp b" "0 \<le> r" using o r' by (simp_all add: abs_le_iff)
  qed
  have zle: "z \<le> 4" using z3 x(2) fp_eps_simps(3) unfolding abs_le_iff by linarith
  then have "s + fp_of fp b * r \<le> 2 ^ 64" using s by (simp add: z_def)
  then have m: "\<bar>fp_mac fp s (fp_of fp b) r - (s + z)\<bar> \<le> fp_eps * (s + z)"
    using fp s(1) nn unfolding doubles_ok_def z_def by blast
  have "\<bar>fp_mac fp s (fp_of fp b) r - (s + x * y)\<bar> \<le> fp_eps * (s + z) + 3 * fp_eps"
    using m z3 by (simp add: abs_le_iff)
  also have "\<dots> \<le> fp_eps * (s + 4) + 3 * fp_eps" using zle by (intro add_right_mono mult_left_mono) simp_all
  also have "\<dots> = fp_eps * (s + 7)" by (simp add: algebra_simps)
  finally show ?thesis by (simp add: x_def y_def)
qed

definition fraction_sum :: "int list \<Rightarrow> u64 list \<Rightarrow> nat \<Rightarrow> real" where
  "fraction_sum ps buff n = (\<Sum>i<n. real_of_int (uint (buff ! i)) / real_of_int (ps ! i))"

definition staged :: "int list \<Rightarrow> u64 list \<Rightarrow> bool" where
  "staged ps buff \<longleftrightarrow> length buff = length ps \<and> (\<forall>i < length ps. uint (buff ! i) < ps ! i)"

lemma overflow_sum_error:
  assumes fp: "doubles_ok fp" and cb: "coprime_base ps" and r: "rcp_ok ps r" and st: "staged ps buff" and len: "length ps \<le> 64"
  shows "\<bar>overflow_sum fp r buff - (1 / 2 + fraction_sum ps buff (length ps))\<bar> \<le> 1 / 2 ^ 38"
proof -
  let ?s = "\<lambda>n. foldl (\<lambda>nu i. fp_mac fp nu (fp_of fp (buff ! i)) (r i)) (1 / 2) [0..<n]"
  have "\<bar>?s n - (1 / 2 + fraction_sum ps buff n)\<bar> \<le> fp_eps * (real n * (real n + 9)) \<and> 0 \<le> fraction_sum ps buff n \<and> fraction_sum ps buff n \<le> real n"
    if "n \<le> length ps" for n
    using that
  proof (induction n)
    case (Suc n)
    define e :: real where "e = fp_eps * (real n * (real n + 9))"
    define f where "f = fraction_sum ps buff n"
    have n: "n < length ps" "real n \<le> 63" using Suc.prems len by simp_all
    have IH: "\<bar>?s n - (1 / 2 + f)\<bar> \<le> e" "0 \<le> f" "f \<le> real n" using Suc.IH Suc.prems by (simp_all add: f_def e_def)
    have "real n * (real n + 9) \<le> 63 * (63 + 9)" using n(2) by (intro mult_mono) simp_all
    then have "e \<le> fp_eps * (63 * (63 + 9))" unfolding e_def by (intro mult_left_mono) simp_all
    then have e: "e \<le> 1 / 4" by (simp add: fp_eps_def)
    have s: "1 / 4 \<le> ?s n" "?s n \<le> 1 + real n" using IH e unfolding abs_le_iff by linarith+
    have pn: "1 < ps ! n" "uint (buff ! n) < ps ! n" using cb st n(1) by (simp_all add: coprime_base_def staged_def)
    have step: "\<bar>fp_mac fp (?s n) (fp_of fp (buff ! n)) (r n) - (?s n + uint (buff ! n) / ps ! n)\<bar> \<le> fp_eps * (?s n + 7)"
      using r n s by (intro overflow_step [OF fp pn(1) _ pn(2)]) (simp_all add: rcp_ok_def)
    also have "\<dots> \<le> fp_eps * (real n + 8)" using s by (intro mult_left_mono) simp_all
    finally have "\<bar>?s (Suc n) - (1 / 2 + (f + uint (buff ! n) / ps ! n))\<bar> \<le> e + fp_eps * (real n + 8)"
      using IH(1) by (simp add: abs_le_iff)
    also have "\<dots> \<le> fp_eps * (real (Suc n) * (real (Suc n) + 9))"
      by (simp add: e_def algebra_simps)
    finally have "\<bar>?s (Suc n) - (1 / 2 + fraction_sum ps buff (Suc n))\<bar> \<le> fp_eps * (real (Suc n) * (real (Suc n) + 9))"
      by (simp add: fraction_sum_def f_def)
    moreover have "0 \<le> real_of_int (uint (buff ! n)) / real_of_int (ps ! n)" "real_of_int (uint (buff ! n)) / real_of_int (ps ! n) \<le> 1"
      using residue_fraction [OF pn] by blast+
    then have "0 \<le> fraction_sum ps buff (Suc n) \<and> fraction_sum ps buff (Suc n) \<le> real (Suc n)"
      using IH(2,3) unfolding f_def fraction_sum_def by simp
    ultimately show ?case by blast
  qed (simp add: fraction_sum_def)
  then have "\<bar>?s (length ps) - (1 / 2 + fraction_sum ps buff (length ps))\<bar> \<le> fp_eps * (real (length ps) * (real (length ps) + 9))" by simp
  also have "\<dots> \<le> fp_eps * (64 * (64 + 9))" using len by (intro mult_left_mono mult_mono) simp_all
  also have "\<dots> \<le> 1 / 2 ^ 38" by (simp add: fp_eps_def)
  finally show ?thesis using st by (simp add: overflow_sum_def staged_def)
qed

lemma fraction_sum_product:
  assumes "coprime_base ps"
  shows "fraction_sum ps buff (length ps) * real_of_int (base_product ps) = real_of_int (base_sum ps (\<lambda>i. uint (buff ! i)))"
proof -
  have "real_of_int (uint (buff ! i)) / real_of_int (ps ! i) * real_of_int (base_product ps) = real_of_int (uint (buff ! i) * base_hat ps i)"
    if i: "i < length ps" for i
  proof -
    have "ps ! i \<noteq> 0" using assms i by (auto simp: coprime_base_def dest: spec)
    then show ?thesis unfolding base_product_hat [OF i] by simp
  qed
  then show ?thesis unfolding fraction_sum_def base_sum_def by (simp add: sum_distrib_right)
qed

lemma overflow_count_ok:
  assumes fp: "doubles_ok fp" and cb: "coprime_base ps" and r: "rcp_ok ps r" and st: "staged ps buff" and len: "length ps \<le> 64"
  shows "overflow_count fp r buff \<le> length ps"
    and "\<bar>real_of_int (base_sum ps (\<lambda>i. uint (buff ! i)) - int (overflow_count fp r buff) * base_product ps)\<bar>
      \<le> (1 / 2 + 1 / 2 ^ 38) * real_of_int (base_product ps)"
proof -
  let ?nu = "overflow_sum fp r buff" and ?P = "real_of_int (base_product ps)"
  define f where "f = fraction_sum ps buff (length ps)"
  have err: "\<bar>?nu - (1 / 2 + f)\<bar> \<le> 1 / 2 ^ 38" unfolding f_def by (rule overflow_sum_error [OF assms])
  have P: "0 < ?P" using base_product_pos [OF cb] by (simp only: of_int_0_less_iff)
  have fP: "f * ?P = real_of_int (base_sum ps (\<lambda>i. uint (buff ! i)))" unfolding f_def by (rule fraction_sum_product [OF cb])
  have "0 \<le> base_sum ps (\<lambda>i. uint (buff ! i))" using st by (intro base_sum_range(1) [OF cb]) (simp add: staged_def)
  then have "0 \<le> f * ?P" unfolding fP by (simp only: of_int_0_le_iff)
  then have f0: "0 \<le> f" using P by (simp add: zero_le_mult_iff)
  have fle: "f \<le> real (length ps)"
  proof (cases "ps = []")
    case False
    have "base_sum ps (\<lambda>i. uint (buff ! i)) < int (length ps) * base_product ps"
      using st False by (intro base_sum_range(2) [OF cb]) (simp_all add: staged_def)
    then have "real_of_int (base_sum ps (\<lambda>i. uint (buff ! i))) < real_of_int (int (length ps) * base_product ps)" by (simp only: of_int_less_iff)
    then have "f * ?P < real (length ps) * ?P" unfolding fP by simp
    then show ?thesis using P by simp
  qed (simp add: f_def fraction_sum_def)
  have "(1::real) / 2 ^ 38 \<le> 1 / 4" by simp
  then have nu: "0 \<le> ?nu" "?nu < real (length ps) + 1" using err f0 fle unfolding abs_le_iff by linarith+
  then have fl: "0 \<le> \<lfloor>?nu\<rfloor>" "\<lfloor>?nu\<rfloor> \<le> int (length ps)" by (simp_all add: floor_le_iff)
  have len': "length buff = length ps" using st by (simp add: staged_def)
  have a: "int (overflow_count fp r buff) = \<lfloor>?nu\<rfloor>" using nu fl by (simp add: overflow_count_def Let_def len')
  then show "overflow_count fp r buff \<le> length ps" using fl by simp
  have "\<bar>f - real_of_int \<lfloor>?nu\<rfloor>\<bar> \<le> 1 / 2 + 1 / 2 ^ 38"
  proof -
    have "real_of_int \<lfloor>?nu\<rfloor> \<le> ?nu" "?nu < real_of_int \<lfloor>?nu\<rfloor> + 1" by simp_all
    then show ?thesis using err unfolding abs_le_iff by linarith
  qed
  then have "\<bar>f - real_of_int \<lfloor>?nu\<rfloor>\<bar> * ?P \<le> (1 / 2 + 1 / 2 ^ 38) * ?P" using P by (intro mult_right_mono) simp_all
  moreover have "\<bar>f - real_of_int \<lfloor>?nu\<rfloor>\<bar> * ?P = \<bar>(f - real_of_int \<lfloor>?nu\<rfloor>) * ?P\<bar>" using P by (simp add: abs_mult)
  moreover have "(f - real_of_int \<lfloor>?nu\<rfloor>) * ?P = real_of_int (base_sum ps (\<lambda>i. uint (buff ! i)) - \<lfloor>?nu\<rfloor> * base_product ps)"
    using fP by (simp add: algebra_simps)
  ultimately show "\<bar>real_of_int (base_sum ps (\<lambda>i. uint (buff ! i)) - int (overflow_count fp r buff) * base_product ps)\<bar>
      \<le> (1 / 2 + 1 / 2 ^ 38) * ?P"
    unfolding a by simp
qed

text \<open>Two numbers of that size, one of them not too near the boundary, are equal if they are congruent.\<close>

lemma centred_unique:
  fixes Y X P :: int
  assumes "0 < P" and "Y mod P = X mod P" and "\<bar>real_of_int Y\<bar> \<le> (1 / 2 + 1 / 2 ^ 38) * real_of_int P"
    and "2 * \<bar>real_of_int X\<bar> < (1 - 1 / 2 ^ 37) * real_of_int P"
  shows "Y = X"
proof (rule ccontr)
  assume ne: "Y \<noteq> X"
  have "P dvd Y - X" using assms(2) by (simp add: mod_eq_dvd_iff)
  then have "P \<le> \<bar>Y - X\<bar>" using ne assms(1) by (metis abs_dvd_iff dvd_abs_iff dvd_imp_le_int abs_of_pos eq_iff_diff_eq_0)
  then have "real_of_int P \<le> \<bar>real_of_int Y\<bar> + \<bar>real_of_int X\<bar>" by linarith
  moreover have "(1 / 2 + 1 / 2 ^ 38) * real_of_int P + (1 - 1 / 2 ^ 37) * real_of_int P / 2 = real_of_int P" by (simp add: field_simps)
  ultimately show False using assms(3,4) by argo
qed

end
