(* ===== verification/SwitchMod.thy ===== *)
theory SwitchMod
  imports LimbKernels
begin

text \<open>
  Changing the modulus of a residue: \<open>SwitchModulus\<close> of \<open>src/src/CKKS/Rescale.cuh\<close> and the kernel of
  \<open>src/src/CKKS/Rescale.cu\<close>. A residue of the upper half of the old modulus stands for a negative number;
  that number is reduced modulo the new prime. The 64-bit instance is modelled.
\<close>

section \<open>The code\<close>

definition SwitchModulus :: "Constants \<Rightarrow> u64 \<Rightarrow> nat \<Rightarrow> nat \<Rightarrow> u64" where
  "SwitchModulus c a om_pid nm_pid =
     (let om = hc_primes c ! om_pid; nm = hc_primes c ! nm_pid; halfQ = drop_bit 1 om
      in if nm > om
         then (let diff = nm - om in if a > halfQ then a + diff else a)
         else (let diff = nm - modmult_shoup c nm_pid om 1 (hc_one_shoup c ! nm_pid);
                   a = (if a > halfQ then a + diff else a)
               in if a \<ge> nm then modmult_shoup c nm_pid a 1 (hc_one_shoup c ! nm_pid) else a))"

definition SwitchModulus_k :: "Constants \<Rightarrow> nat \<Rightarrow> limb \<Rightarrow> nat \<Rightarrow> nat \<Rightarrow> cpp_error + limb" where
  "SwitchModulus_k c n src o_primeid n_primeid = row64 n (\<lambda>v. SwitchModulus c (v ! 0) o_primeid n_primeid) [(src, 0)]"

section \<open>The number of least magnitude\<close>

definition centred :: "int \<Rightarrow> int \<Rightarrow> int" where
  "centred m x = (let r = x mod m in if r > m div 2 then r - m else r)"

lemma centred_mod: "centred m x mod m = x mod m"
  by (simp add: centred_def Let_def)

lemma centred_bounds:
  assumes "0 < m"
  shows "- m < 2 * centred m x" and "2 * centred m x \<le> m"
proof -
  have "0 \<le> x mod m" "x mod m < m" using assms by simp_all
  then show "- m < 2 * centred m x" "2 * centred m x \<le> m" by (auto simp: centred_def Let_def)
qed

lemma centred_small: "0 \<le> x \<Longrightarrow> x < m \<Longrightarrow> centred m x = (if x > m div 2 then x - m else x)"
  by (simp add: centred_def)

section \<open>What the code computes\<close>

lemma one_shoup_reduce:
  assumes "prime_entry c i"
  shows "uint (modmult_shoup c i a 1 (hc_one_shoup c ! i)) = uint a mod iprime c i"
    and "unat (modmult_shoup c i a 1 (hc_one_shoup c ! i)) < dprime c i"
proof -
  have o: "unat (1::u64) < dprime c i" "hc_one_shoup c ! i = shoup_precomp 1 (hc_primes c ! i)"
    using prime_entry_bounds(1) [OF assms] assms by (simp_all add: prime_entry_def Let_def)
  from modmult_shoup_uint [OF assms o, of a]
  show "uint (modmult_shoup c i a 1 (hc_one_shoup c ! i)) = uint a mod iprime c i"
    and "unat (modmult_shoup c i a 1 (hc_one_shoup c ! i)) < dprime c i" by simp_all
qed

lemma iprime_bounds:
  assumes "prime_entry c i"
  shows "1 < iprime c i" and "iprime c i < 2 ^ 62"
proof -
  show "1 < iprime c i" using prime_entry_bounds(1) [OF assms] by (rule uint_gt1)
  have "int (dprime c i) < int (2 ^ 62)" using prime_entry_bounds(2) [OF assms] by (simp only: of_nat_less_iff)
  then show "iprime c i < 2 ^ 62" by simp
qed

lemma uint_plus64: "uint a + uint b < 2 ^ 64 \<Longrightarrow> uint (a + b :: u64) = uint a + uint b"
  by (simp add: uint_word_ariths take_bit_int_eq_self flip: take_bit_eq_mod)

lemma uint_minus64: "uint b \<le> uint a \<Longrightarrow> uint (a - b :: u64) = uint a - uint b"
  by (simp add: uint_sub_if_size word_size)

lemma SwitchModulus_values:
  assumes o: "prime_entry c i" and n: "prime_entry c j" and a: "uint a < iprime c i"
  shows "uint (SwitchModulus c a i j) = centred (iprime c i) (uint a) mod iprime c j"
proof -
  let ?om = "hc_primes c ! i" and ?nm = "hc_primes c ! j"
  let ?M = "iprime c i" and ?N = "iprime c j"
  have b: "1 < ?M" "?M < 2 ^ 62" "1 < ?N" "?N < 2 ^ 62" using iprime_bounds [OF o] iprime_bounds [OF n] by simp_all
  have a0: "0 \<le> uint a" by simp
  have half: "a > drop_bit 1 ?om \<longleftrightarrow> uint a > ?M div 2"
    by (simp add: word_less_def drop_bit_eq_div uint_div)
  have cen: "centred ?M (uint a) = (if uint a > ?M div 2 then uint a - ?M else uint a)"
    using a by (intro centred_small) simp_all
  show ?thesis
  proof (cases "?nm > ?om")
    case True
    then have lt: "?M < ?N" by (simp add: word_less_def)
    have d: "uint (?nm - ?om) = ?N - ?M" using lt by (intro uint_minus64) simp
    have s: "uint (a + (?nm - ?om)) = uint a + (?N - ?M)" using a b d by (subst uint_plus64) simp_all
    have "uint a - ?M + ?N = (uint a - ?M) mod ?N" if "uint a > ?M div 2"
    proof -
      have "0 \<le> uint a - ?M + ?N" using a0 lt by linarith
      then have "(uint a - ?M + ?N) mod ?N = uint a - ?M + ?N" using a by (intro mod_pos_pos_trivial) simp_all
      then show ?thesis by simp
    qed
    moreover have "uint a = uint a mod ?N" using a lt by simp
    ultimately show ?thesis using True half s cen by (auto simp: SwitchModulus_def Let_def algebra_simps)
  next
    case False
    then have le: "?N \<le> ?M" by (simp add: word_less_def)
    let ?d = "?nm - modmult_shoup c j ?om 1 (hc_one_shoup c ! j)"
    have r: "uint (modmult_shoup c j ?om 1 (hc_one_shoup c ! j)) = ?M mod ?N" by (rule one_shoup_reduce(1) [OF n])
    have d: "uint ?d = ?N - ?M mod ?N" using r b by (subst uint_minus64) (simp_all add: less_imp_le)
    have s: "uint (a + ?d) = uint a + (?N - ?M mod ?N)"
    proof -
      have "0 \<le> ?M mod ?N" using b by simp
      then have "uint a + (?N - ?M mod ?N) < ?M + ?N + 1" using a by linarith
      also have "\<dots> < 2 ^ 64" using b by simp
      finally have "uint a + uint ?d < 2 ^ 64" using d by simp
      then show ?thesis using d by (simp add: uint_plus64)
    qed
    define x where "x = (if a > drop_bit 1 ?om then a + ?d else a)"
    have x: "uint x mod ?N = centred ?M (uint a) mod ?N"
    proof (cases "uint a > ?M div 2")
      case True
      have "(uint a + (?N - ?M mod ?N)) mod ?N = (uint a - ?M) mod ?N"
      proof -
        have "(uint a + (?N - ?M mod ?N)) mod ?N = (uint a + ?N - ?M) mod ?N"
          using mod_diff_right_eq [of "uint a + ?N" ?M ?N] by (simp add: algebra_simps)
        also have "uint a + ?N - ?M = uint a - ?M + ?N" by simp
        also have "(uint a - ?M + ?N) mod ?N = (uint a - ?M) mod ?N" by (rule mod_add_self2)
        finally show ?thesis .
      qed
      then show ?thesis using True half s cen by (simp add: x_def)
    next
      case False
      then show ?thesis using half cen by (simp add: x_def)
    qed
    have "uint (if x \<ge> ?nm then modmult_shoup c j x 1 (hc_one_shoup c ! j) else x) = uint x mod ?N"
      by (auto simp: one_shoup_reduce(1) [OF n] word_le_def)
    moreover have "SwitchModulus c a i j = (if x \<ge> ?nm then modmult_shoup c j x 1 (hc_one_shoup c ! j) else x)"
      using False by (simp only: SwitchModulus_def Let_def x_def if_False)
    ultimately show ?thesis using x by (simp only:)
  qed
qed

lemma SwitchModulus_less:
  assumes "prime_entry c i" and "prime_entry c j" and "uint a < iprime c i"
  shows "unat (SwitchModulus c a i j) < dprime c j"
proof -
  have "uint (SwitchModulus c a i j) < iprime c j"
    unfolding SwitchModulus_values [OF assms] using iprime_bounds(1) [OF assms(2)] by simp
  then show ?thesis by (simp only: uint_less_iff)
qed

end
