(* ===== verification/BaseConvCorrect.thy ===== *)
theory BaseConvCorrect
  imports BaseCrt SwitchMod RnsStore
begin

text \<open>
  The base conversions compute what they are for: on limbs that hold the residues of a vector of integers,
  the approximate kernels give the residues of the vector plus a multiple, smaller than the number of
  source primes, of their product; the exact kernels those of the representative of least magnitude, up to
  the rounding of the doubles near the two ends of the range.
\<close>

section \<open>Single values\<close>

definition src_primes :: "Constants \<Rightarrow> nat list \<Rightarrow> int list" where
  "src_primes c src = map (iprime c) src"

lemma src_primes_simps [simp]: "length (src_primes c src) = length src" "i < length src \<Longrightarrow> src_primes c src ! i = iprime c (src ! i)"
  by (simp_all add: src_primes_def)

lemma uint_native:
  assumes "1 < unat p"
  shows "uint (ucast ((ucast (a :: u64) * ucast (b :: u64) :: u128) mod ucast p) :: u64) = uint a * uint b mod uint (p :: u64)"
proof -
  have m: "unat ((ucast a * ucast b :: u128) mod ucast p) = unat a * unat b mod unat p"
    by (simp only: unat_mod_distrib unat_mult_u128 unat_ucast_u64_u128)
  have "unat a * unat b mod unat p < unat p" using assms by simp
  also have "unat p < 2 ^ 64" using unsigned_less [of p] by simp
  finally have "unat (ucast ((ucast a * ucast b :: u128) mod ucast p) :: u64) = unat a * unat b mod unat p"
    unfolding unat_ucast_u128_u64 m by simp
  then show ?thesis using uint_mod_eq [of _ "unat a * unat b" p] by simp
qed

lemma modmult_exact:
  assumes c: "prime_entry c i" and algo: "algo \<noteq> ALGO_NONE" and x: "uint x < iprime c i" and b: "unat b < dprime c i"
    and sb: "sb = shoup_precomp b (hc_primes c ! i)"
  shows "uint (modmult c algo i x b sb) = uint x * uint b mod iprime c i"
proof (cases algo)
  case ALGO_NATIVE
  then show ?thesis using uint_native [OF prime_entry_bounds(1) [OF c]] by (simp add: modmult_def)
next
  case ALGO_SHOUP
  then show ?thesis using uint_modmult_shoup [OF c b sb] by (simp add: modmult_def)
next
  case ALGO_BARRETT
  have "unat x < dprime c i" using x by (simp only: uint_less_iff)
  then show ?thesis using ALGO_BARRETT uint_modmult_barrett [OF c _ b] by (simp add: modmult_def)
qed (use algo in simp)

lemma read_limb_ok:
  assumes "limb_ok c i n l" and "idx < n"
  obtains v where "read_limb c i l idx = Inr v" and "uint v = lval l idx"
  using assms by (cases l) (auto simp: read_limb_def limb_ok_def lval_def read_elem_def get64_def get32_def uint_widen)

lemma write_limb_gives:
  assumes c: "limb_prime c i" and l: "limb_shaped c i n l" and vs: "length vs = n" "\<And>t. t < n \<Longrightarrow> uint (vs ! t) = Y t mod iprime c i"
  shows "gives c i n (write_limb c i vs l) Y"
proof -
  have pos: "0 < iprime c i" using c uint_gt1 [OF prime_entry_bounds(1)] by (force simp: limb_prime_def)
  have lt: "uint (vs ! t) < iprime c i" if "t < n" for t using vs(2) [OF that] pos by simp
  show ?thesis
  proof (cases l)
    case (L64 x)
    then have w: "ISU64 c i" "length x = n" using l by (simp_all add: limb_shaped_def)
    have "list_all (\<lambda>v. unat v < dprime c i) vs"
      using lt vs(1) by (auto simp: list_all_length simp flip: uint_less_iff)
    then show ?thesis using w vs L64 by (auto simp: gives_def write_limb_def get64_def limb_ok_def lval_def)
  next
    case (L32 x)
    then have w: "\<not> ISU64 c i" "length x = n" using l by (simp_all add: limb_shaped_def)
    have "int (dprime c i) < int (2 ^ 30)" using prime32_unat(3) [OF c w(1)] by (simp only: of_nat_less_iff)
    then have p: "iprime c i < 2 ^ 32" by simp
    have n: "uint (ucast (vs ! t) :: u32) = uint (vs ! t)" if "t < n" for t using lt [OF that] p by (intro uint_narrow) simp
    have "unat (ucast (vs ! t) :: u32) < dprime c i" if "t < n" for t
    proof -
      have "uint (ucast (vs ! t) :: u32) < iprime c i" using n lt that by simp
      then show ?thesis by (simp only: uint_nat of_nat_less_iff)
    qed
    then have "list_all (\<lambda>v. unat v < dprime c i) (map ucast vs :: u32 list)" using vs(1) by (simp add: list_all_length)
    then show ?thesis using w vs n L32 by (auto simp: gives_def write_limb_def get32_def limb_ok_def lval_def)
  qed
qed

lemma modify_rep:
  assumes "stop \<le> length dst" and "\<And>j. j < stop \<Longrightarrow> gives c (ids j) n (k j (dst ! j)) Y"
  shows "\<exists>xs. foldE (\<lambda>s j. modify_at j (k j) s) dst [0..<stop] = Inr xs \<and> limbs_rep c ids 0 stop n xs Y \<and> length xs = length dst"
proof -
  obtain r where r: "\<And>j. j < stop \<Longrightarrow> k j (dst ! j) = Inr (r j) \<and> limb_ok c (ids j) n (r j) \<and> (\<forall>t < n. lval (r j) t = Y t mod iprime c (ids j))"
    using assms(2) unfolding gives_def by metis
  then have "foldE (\<lambda>s j. modify_at j (k j) s) dst [0..<stop] = Inr (map (\<lambda>j. if 0 \<le> j \<and> j < stop then r j else dst ! j) [0..<length dst])"
    using assms(1) by (intro modify_rows) auto
  then show ?thesis unfolding limbs_rep_def using r assms(1) by auto
qed

section \<open>Columns\<close>

text \<open>The scaling factors are the inverses of the cofactors; the entries for a target prime are the cofactors
  modulo that prime, and the sum over the source primes stays below \<open>2^128\<close>.\<close>

definition conv_source :: "Constants \<Rightarrow> nat list \<Rightarrow> (nat \<Rightarrow> u64) \<Rightarrow> (nat \<Rightarrow> u64) \<Rightarrow> bool" where
  "conv_source c src pre sh \<longleftrightarrow> coprime_base (src_primes c src)
     \<and> (\<forall>i < length src. prime_entry c (src ! i) \<and> unat (pre i) < dprime c (src ! i) \<and> sh i = shoup_precomp (pre i) (hc_primes c ! (src ! i))
        \<and> uint (pre i) * base_hat (src_primes c src) i mod iprime c (src ! i) = 1)"

definition conv_target :: "Constants \<Rightarrow> nat list \<Rightarrow> nat \<Rightarrow> (nat \<Rightarrow> u64) \<Rightarrow> bool" where
  "conv_target c src j m \<longleftrightarrow> limb_prime c j \<and> (\<Sum>i<length src. iprime c (src ! i)) * iprime c j \<le> 2 ^ 128
     \<and> (\<forall>i < length src. uint (m i) = base_hat (src_primes c src) i mod iprime c j)"

definition column_of :: "Constants \<Rightarrow> nat list \<Rightarrow> (nat \<Rightarrow> u64) \<Rightarrow> int \<Rightarrow> u64 list \<Rightarrow> bool" where
  "column_of c src pre x buff \<longleftrightarrow> length buff = length src \<and> (\<forall>i < length src. uint (buff ! i) = x * uint (pre i) mod iprime c (src ! i))"

definition column_sum :: "Constants \<Rightarrow> nat list \<Rightarrow> (nat \<Rightarrow> u64) \<Rightarrow> int \<Rightarrow> int" where
  "column_sum c src pre x = base_sum (src_primes c src) (\<lambda>i. x * uint (pre i) mod iprime c (src ! i))"

abbreviation src_product :: "Constants \<Rightarrow> nat list \<Rightarrow> int" where
  "src_product c src \<equiv> base_product (src_primes c src)"

lemma column_of_sum: "column_of c src pre x buff \<Longrightarrow> base_sum (src_primes c src) (\<lambda>i. uint (buff ! i)) = column_sum c src pre x"
  unfolding column_sum_def base_sum_def by (intro sum.cong) (simp_all add: column_of_def)

lemma conv_source_pos: "conv_source c src pre sh \<Longrightarrow> i < length src \<Longrightarrow> 0 < iprime c (src ! i)"
  unfolding conv_source_def coprime_base_def by (auto dest: less_trans [OF zero_less_one])

lemma column_of_staged: "conv_source c src pre sh \<Longrightarrow> column_of c src pre x buff \<Longrightarrow> staged (src_primes c src) buff"
  using conv_source_pos by (auto simp: staged_def column_of_def)

lemma column_sum_ok:
  assumes s: "conv_source c src pre sh"
  shows "column_sum c src pre x mod src_product c src = x mod src_product c src"
    and "0 \<le> column_sum c src pre x" and "src \<noteq> [] \<Longrightarrow> column_sum c src pre x < int (length src) * src_product c src"
proof -
  have cb: "coprime_base (src_primes c src)" using s by (simp add: conv_source_def)
  have r: "0 \<le> x * uint (pre i) mod iprime c (src ! i) \<and> x * uint (pre i) mod iprime c (src ! i) < src_primes c src ! i"
    if "i < length (src_primes c src)" for i
    using conv_source_pos [OF s] that by simp
  show "column_sum c src pre x mod src_product c src = x mod src_product c src"
    unfolding column_sum_def
  proof (rule base_sum_crt [OF cb])
    fix i
    assume "i < length (src_primes c src)"
    then show "uint (pre i) * base_hat (src_primes c src) i mod src_primes c src ! i = 1" using s by (simp add: conv_source_def)
  qed simp
  show "0 \<le> column_sum c src pre x" unfolding column_sum_def using r by (intro base_sum_range(1) [OF cb]) blast
  assume "src \<noteq> []"
  then have "src_primes c src \<noteq> []" by (simp add: src_primes_def)
  with base_sum_range(2) [OF cb r this]
  show "column_sum c src pre x < int (length src) * src_product c src" by (simp add: column_sum_def)
qed

lemma conv_dot_uint:
  assumes "(\<Sum>i<length buff. uint (buff ! i) * uint (m i)) < 2 ^ 128"
  shows "uint (conv_dot m buff) = (\<Sum>i<length buff. uint (buff ! i) * uint (m i))"
proof -
  have nn: "0 \<le> uint (buff ! i) * uint (m i)" for i by simp
  have p: "uint ((ucast (a::u64) :: u128) * ucast (b::u64)) = uint a * uint b" for a b
    using arg_cong [OF unat_mult_u128 [of a b], of int] by simp
  have "uint (foldl (\<lambda>res i. res + ucast (buff ! i) * ucast (m i)) (0::u128) [0..<k]) = (\<Sum>i<k. uint (buff ! i) * uint (m i))"
    if "k \<le> length buff" for k
    using that
  proof (induction k)
    case (Suc k)
    have "(\<Sum>i<Suc k. uint (buff ! i) * uint (m i)) \<le> (\<Sum>i<length buff. uint (buff ! i) * uint (m i))"
      using Suc.prems nn by (intro sum_mono2) auto
    then have "(\<Sum>i<k. uint (buff ! i) * uint (m i)) + uint (buff ! k) * uint (m k) < 2 ^ 128" using assms by simp
    moreover have "0 \<le> (\<Sum>i<k. uint (buff ! i) * uint (m i)) + uint (buff ! k) * uint (m k)" using nn by (intro add_nonneg_nonneg sum_nonneg)
    ultimately show ?case using Suc by (simp add: uint_word_ariths(1) p)
  qed simp
  then show ?thesis unfolding conv_dot_def by blast
qed

lemma uint_modreduce:
  assumes "prime_entry c i"
  shows "uint (modreduce_shoup c i x) = uint x mod iprime c i"
  using uint_mod_eq [OF modreduce_shoup_ok [OF assms]] by simp

lemma column_value:
  assumes s: "conv_source c src pre sh" and t: "conv_target c src j m" and col: "column_of c src pre x buff"
  shows "uint (modreduce_shoup c j (conv_dot m buff)) = column_sum c src pre x mod iprime c j"
proof -
  have j: "prime_entry c j" and len: "length buff = length src" using t col by (simp_all add: conv_target_def limb_prime_def column_of_def)
  have pj: "0 < iprime c j" using iprime_bounds(1) [OF j] by simp
  have b: "uint (buff ! i) < iprime c (src ! i)" if "i < length src" for i
    using col conv_source_pos [OF s that] that by (simp add: column_of_def)
  have "(\<Sum>i<length buff. uint (buff ! i) * uint (m i)) < 2 ^ 128"
  proof (cases "src = []")
    case False
    have "(\<Sum>i<length src. uint (buff ! i) * uint (m i)) < (\<Sum>i<length src. iprime c (src ! i) * iprime c j)"
    proof (rule sum_strict_mono)
      fix i
      assume "i \<in> {..<length src}"
      then have i: "i < length src" by simp
      have "uint (m i) < iprime c j" using t i pj by (simp add: conv_target_def)
      then show "uint (buff ! i) * uint (m i) < iprime c (src ! i) * iprime c j"
        using b [OF i] by (intro mult_strict_mono') simp_all
    qed (use False in auto)
    also have "\<dots> \<le> 2 ^ 128" using t by (simp add: conv_target_def sum_distrib_right)
    finally show ?thesis by (simp add: len)
  qed (simp add: len)
  then have "uint (conv_dot m buff) = (\<Sum>i<length src. uint (buff ! i) * uint (m i))" by (simp add: conv_dot_uint len)
  moreover have "(\<Sum>i<length src. uint (buff ! i) * uint (m i)) mod iprime c j = column_sum c src pre x mod iprime c j"
  proof -
    have "uint (buff ! i) * uint (m i) mod iprime c j = uint (buff ! i) * base_hat (src_primes c src) i mod iprime c j" if "i < length src" for i
      using t that by (simp add: conv_target_def mod_mult_right_eq)
    then have "(\<Sum>i<length src. uint (buff ! i) * uint (m i)) mod iprime c j
        = (\<Sum>i<length src. uint (buff ! i) * base_hat (src_primes c src) i) mod iprime c j"
      by (metis (mono_tags, lifting) lessThan_iff mod_sum_eq sum.cong)
    then show ?thesis unfolding column_of_sum [OF col, symmetric] base_sum_def by simp
  qed
  ultimately show ?thesis by (simp add: uint_modreduce [OF j])
qed

section \<open>The exact count\<close>

definition conv_alpha :: "Constants \<Rightarrow> nat list \<Rightarrow> nat \<Rightarrow> (nat \<Rightarrow> u64) \<Rightarrow> bool" where
  "conv_alpha c src j al \<longleftrightarrow> (\<forall>a \<le> length src. uint (al a) = int a * src_product c src mod iprime c j)"

definition column_buff :: "Constants \<Rightarrow> nat list \<Rightarrow> (nat \<Rightarrow> u64) \<Rightarrow> int \<Rightarrow> u64 list" where
  "column_buff c src pre x = map (\<lambda>i. word_of_int (x * uint (pre i) mod iprime c (src ! i))) [0..<length src]"

lemma column_of_buff: "column_of c src pre x buff \<Longrightarrow> buff = column_buff c src pre x"
  unfolding column_of_def column_buff_def by (intro nth_equalityI) (simp, simp, metis word_of_int_uint)

lemma column_of_buff_ok: "conv_source c src pre sh \<Longrightarrow> column_of c src pre x (column_buff c src pre x)"
proof -
  assume s: "conv_source c src pre sh"
  have "x * uint (pre i) mod iprime c (src ! i) < 2 ^ 64" if "i < length src" for i
    using pos_mod_bound [OF conv_source_pos [OF s that], of "x * uint (pre i)"] uint_lt2p [of "hc_primes c ! (src ! i)"] by simp
  then show ?thesis using conv_source_pos [OF s] by (simp add: column_of_def column_buff_def uint_word_of_int)
qed

definition column_exact :: "Constants \<Rightarrow> nat list \<Rightarrow> (nat \<Rightarrow> u64) \<Rightarrow> Doubles \<Rightarrow> (nat \<Rightarrow> real) \<Rightarrow> int \<Rightarrow> int" where
  "column_exact c src pre fp r x =
     column_sum c src pre x - int (overflow_count fp r (column_buff c src pre x)) * src_product c src"

lemma column_exact_ok:
  assumes s: "conv_source c src pre sh" and fp: "doubles_ok fp" and r: "rcp_ok (src_primes c src) r" and len: "length src \<le> 64"
    and col: "column_of c src pre x buff"
  shows "column_exact c src pre fp r x mod src_product c src = x mod src_product c src"
    and "\<bar>real_of_int (column_exact c src pre fp r x)\<bar> \<le> (1 / 2 + 1 / 2 ^ 38) * real_of_int (src_product c src)"
    and "2 * \<bar>real_of_int x\<bar> < (1 - 1 / 2 ^ 37) * real_of_int (src_product c src) \<Longrightarrow> column_exact c src pre fp r x = x"
proof -
  let ?Y = "column_exact c src pre fp r x" and ?P = "src_product c src"
  have cb: "coprime_base (src_primes c src)" using s by (simp add: conv_source_def)
  have st: "staged (src_primes c src) buff" by (rule column_of_staged [OF s col])
  have len': "length (src_primes c src) \<le> 64" using len by simp
  show m: "?Y mod ?P = x mod ?P"
    using column_sum_ok(1) [OF s, of x] mod_mult_self1 [of "column_sum c src pre x" "- int (overflow_count fp r (column_buff c src pre x))" ?P]
    unfolding column_exact_def by (simp only: mult_minus_left diff_conv_add_uminus)
  show b: "\<bar>real_of_int ?Y\<bar> \<le> (1 / 2 + 1 / 2 ^ 38) * real_of_int ?P"
    using overflow_count_ok(2) [OF fp cb r st len']
    unfolding column_of_sum [OF col] column_exact_def column_of_buff [OF col, symmetric] .
  show "2 * \<bar>real_of_int x\<bar> < (1 - 1 / 2 ^ 37) * real_of_int ?P \<Longrightarrow> ?Y = x"
    by (rule centred_unique [OF base_product_pos [OF cb] m b])
qed

lemma column_exact_value:
  assumes s: "conv_source c src pre sh" and fp: "doubles_ok fp" and r: "rcp_ok (src_primes c src) r" and len: "length src \<le> 64"
    and t: "conv_target c src j m" and al: "conv_alpha c src j al" and col: "column_of c src pre x buff"
  shows "uint (dmodsub c j (modreduce_shoup c j (conv_dot m buff)) (al (overflow_count fp r buff)))
    = column_exact c src pre fp r x mod iprime c j"
proof -
  let ?k = "overflow_count fp r buff"
  have j: "prime_entry c j" using t by (simp add: conv_target_def limb_prime_def)
  have pj: "0 < iprime c j" using iprime_bounds(1) [OF j] by simp
  have st: "staged (src_primes c src) buff" by (rule column_of_staged [OF s col])
  have cb: "coprime_base (src_primes c src)" using s by (simp add: conv_source_def)
  have "?k \<le> length src" using overflow_count_ok(1) [OF fp cb r st] len by simp
  then have a: "uint (al ?k) = int ?k * src_product c src mod iprime c j" using al by (simp add: conv_alpha_def)
  have v: "uint (modreduce_shoup c j (conv_dot m buff)) = column_sum c src pre x mod iprime c j"
    by (rule column_value [OF s t col])
  have "unat (modreduce_shoup c j (conv_dot m buff)) < dprime c j" "unat (al ?k) < dprime c j"
    unfolding uint_less_iff [symmetric] a v using pj by simp_all
  from uint_dmodsub [OF j this] show ?thesis
    unfolding a v by (simp add: column_exact_def mod_diff_eq column_of_buff [OF col, symmetric])
qed

section \<open>The kernels\<close>

lemma mapE_list_all2:
  assumes "\<And>x. x \<in> set xs \<Longrightarrow> \<exists>y. f x = Inr y \<and> Q x y"
  shows "\<exists>ys. mapE f xs = Inr ys \<and> list_all2 Q xs ys"
  using assms by (induction xs) (simp, force)

lemma stage_columns_ok:
  assumes "\<And>idx i. idx < n \<Longrightarrow> i < length src \<Longrightarrow> \<exists>v. stage idx i = Inr v \<and> uint v = X idx * uint (pre i) mod iprime c (src ! i)"
  shows "\<exists>cols. stage_columns n (length src) stage = Inr cols \<and> length cols = n \<and> (\<forall>t < n. column_of c src pre (X t) (cols ! t))"
proof -
  have "\<exists>col. mapE (stage idx) [0..<length src] = Inr col \<and> column_of c src pre (X idx) col" if idx: "idx < n" for idx
  proof -
    from mapE_list_all2 [of "[0..<length src]" "stage idx" "\<lambda>i v. uint v = X idx * uint (pre i) mod iprime c (src ! i)"]
    obtain col where "mapE (stage idx) [0..<length src] = Inr col" "list_all2 (\<lambda>i v. uint v = X idx * uint (pre i) mod iprime c (src ! i)) [0..<length src] col"
      using assms [OF idx] by auto
    then show ?thesis by (auto simp: column_of_def list_all2_conv_all_nth)
  qed
  with mapE_list_all2 [of "[0..<n]" "\<lambda>idx. mapE (stage idx) [0..<length src]" "\<lambda>idx. column_of c src pre (X idx)"]
  obtain cols where "mapE (\<lambda>idx. mapE (stage idx) [0..<length src]) [0..<n] = Inr cols" "list_all2 (\<lambda>idx. column_of c src pre (X idx)) [0..<n] cols"
    by auto
  then show ?thesis unfolding stage_columns_def by (auto simp: list_all2_conv_all_nth)
qed

lemma stage_value:
  assumes s: "conv_source c src pre sh" and algo: "algo \<noteq> ALGO_NONE" and i: "i < length src"
    and l: "limb_ok c (src ! i) n l" "lval l idx = x mod iprime c (src ! i)" and idx: "idx < n"
  shows "\<exists>v. bindE (read_limb c (src ! i) l idx) (\<lambda>y. Inr (modmult c algo (src ! i) y (pre i) (sh i))) = Inr v
    \<and> uint v = x * uint (pre i) mod iprime c (src ! i)"
proof -
  obtain y where y: "read_limb c (src ! i) l idx = Inr y" "uint y = lval l idx" by (rule read_limb_ok [OF l(1) idx])
  have c: "prime_entry c (src ! i)" "unat (pre i) < dprime c (src ! i)" "sh i = shoup_precomp (pre i) (hc_primes c ! (src ! i))"
    using s i by (simp_all add: conv_source_def)
  have "uint y < iprime c (src ! i)" using y(2) l(2) conv_source_pos [OF s i] by simp
  from modmult_exact [OF c(1) algo this c(2,3)] show ?thesis
    using y l(2) by (simp add: mod_mult_left_eq)
qed

text \<open>The special limbs: the primes from \<open>L\<close> on, as many as \<open>K\<close>.\<close>

definition special_ids :: "Constants \<Rightarrow> nat list" where
  "special_ids c = map (\<lambda>i. i + hc_L c) [0..<hc_K c]"

lemma special_ids_simps [simp]: "length (special_ids c) = hc_K c" "i < hc_K c \<Longrightarrow> special_ids c ! i = i + hc_L c"
  by (simp_all add: special_ids_def)

definition moddown_source :: "Constants \<Rightarrow> Globals \<Rightarrow> bool" where
  "moddown_source c g \<longleftrightarrow> conv_source c (special_ids c) (\<lambda>i. gl_ModDown_pre_scale g (i + hc_L c)) (\<lambda>i. gl_ModDown_pre_scale_shoup g (i + hc_L c))"

abbreviation moddown_pre :: "Constants \<Rightarrow> Globals \<Rightarrow> nat \<Rightarrow> u64" where
  "moddown_pre c g \<equiv> \<lambda>i. gl_ModDown_pre_scale g (i + hc_L c)"

definition moddown_target :: "Constants \<Rightarrow> Globals \<Rightarrow> nat \<Rightarrow> bool" where
  "moddown_target c g j \<longleftrightarrow> conv_target c (special_ids c) j (\<lambda>i. gl_ModDown_matrix g (MODDOWN_MATRIX i j))"

lemma ModDown_stage_columns:
  assumes s: "moddown_source c g" and algo: "algo \<noteq> ALGO_NONE" and b: "limbs_rep c (\<lambda>i. i + hc_L c) 0 (hc_K c) n b X"
  shows "\<exists>cols. stage_columns n (hc_K c) (ModDown_stage c g algo b) = Inr cols \<and> length cols = n
    \<and> (\<forall>t < n. column_of c (special_ids c) (moddown_pre c g) (X t) (cols ! t))"
proof -
  have "\<exists>v. ModDown_stage c g algo b idx i = Inr v \<and> uint v = X idx * uint (moddown_pre c g i) mod iprime c (special_ids c ! i)"
    if idx: "idx < n" and i: "i < length (special_ids c)" for idx i
  proof -
    have i': "i < hc_K c" using i by simp
    note r = limbs_rep_row [OF b le0 i']
    have l: "limb_ok c (special_ids c ! i) n (b ! i)" "lval (b ! i) idx = X idx mod iprime c (special_ids c ! i)"
      using r(1) r(2) [OF idx] i' by simp_all
    from stage_value [OF s [unfolded moddown_source_def] algo i l idx] show ?thesis
      using i' r(3) by (simp add: ModDown_stage_def Let_def)
  qed
  from stage_columns_ok [OF this] show ?thesis by simp
qed

lemma ModDown2_ok:
  assumes s: "moddown_source c g" and algo: "algo \<noteq> ALGO_NONE" and b: "limbs_rep c (\<lambda>i. i + hc_L c) 0 (hc_K c) n b X"
    and len: "m \<le> length a" and sh: "\<And>j. j < m \<Longrightarrow> limb_shaped c (kl_flattened t (init + j)) n (a ! j)"
    and t: "\<And>j. j < m \<Longrightarrow> moddown_target c g (kl_flattened t (init + j))"
  shows "\<exists>a'. ModDown2 c t g algo n a m b init = Inr a' \<and> length a' = length a
    \<and> limbs_rep c (\<lambda>j. kl_flattened t (init + j)) 0 m n a' (\<lambda>t. column_sum c (special_ids c) (moddown_pre c g) (X t))"
proof -
  obtain cols where cols: "stage_columns n (hc_K c) (ModDown_stage c g algo b) = Inr cols" "length cols = n"
      "\<forall>t < n. column_of c (special_ids c) (moddown_pre c g) (X t) (cols ! t)"
    using ModDown_stage_columns [OF s algo b] by blast
  let ?k = "\<lambda>j. let primeid = kl_flattened t (init + j) in write_limb c primeid
      (map (\<lambda>buff. modreduce_shoup c primeid (conv_dot (\<lambda>i. gl_ModDown_matrix g (MODDOWN_MATRIX i primeid)) buff)) cols)"
  have "gives c (kl_flattened t (init + j)) n (?k j (a ! j)) (\<lambda>t. column_sum c (special_ids c) (moddown_pre c g) (X t))" if j: "j < m" for j
    unfolding Let_def
  proof (rule write_limb_gives [OF _ sh [OF j]])
    show "limb_prime c (kl_flattened t (init + j))" using t [OF j] by (simp add: moddown_target_def conv_target_def)
    fix u
    assume "u < n"
    then show "uint (map (\<lambda>buff. modreduce_shoup c (kl_flattened t (init + j))
        (conv_dot (\<lambda>i. gl_ModDown_matrix g (MODDOWN_MATRIX i (kl_flattened t (init + j)))) buff)) cols ! u)
        = column_sum c (special_ids c) (moddown_pre c g) (X u) mod iprime c (kl_flattened t (init + j))"
      using column_value [OF s [unfolded moddown_source_def] t [OF j, unfolded moddown_target_def]] cols(2,3) by simp
  qed (simp add: cols(2))
  from modify_rep [where k = ?k and ids = "\<lambda>j. kl_flattened t (init + j)", OF len this] show ?thesis unfolding ModDown2_def cols(1) bindE.simps Let_def by blast
qed

lemma ExactModDown2_ok:
  assumes s: "moddown_source c g" and algo: "algo \<noteq> ALGO_NONE" and b: "limbs_rep c (\<lambda>i. i + hc_L c) 0 (hc_K c) n b X"
    and fp: "doubles_ok fp" and r: "rcp_ok (src_primes c (special_ids c)) (\<lambda>i. gl_ExactModDown_pInv g (i + hc_L c))" and K: "hc_K c \<le> 64"
    and len: "m \<le> length a" and sh: "\<And>j. j < m \<Longrightarrow> limb_shaped c (kl_flattened t (init + j)) n (a ! j)"
    and t: "\<And>j. j < m \<Longrightarrow> moddown_target c g (kl_flattened t (init + j))"
    and al: "\<And>j. j < m \<Longrightarrow> conv_alpha c (special_ids c) (kl_flattened t (init + j)) (\<lambda>a. gl_ExactModDown_alphaP g (a * MAXP + kl_flattened t (init + j)))"
  shows "\<exists>a'. ExactModDown2 c t g fp algo n a m b init = Inr a' \<and> length a' = length a
    \<and> limbs_rep c (\<lambda>j. kl_flattened t (init + j)) 0 m n a'
        (\<lambda>t. column_exact c (special_ids c) (moddown_pre c g) fp (\<lambda>i. gl_ExactModDown_pInv g (i + hc_L c)) (X t))"
proof -
  obtain cols where cols: "stage_columns n (hc_K c) (ModDown_stage c g algo b) = Inr cols" "length cols = n"
      "\<forall>t < n. column_of c (special_ids c) (moddown_pre c g) (X t) (cols ! t)"
    using ModDown_stage_columns [OF s algo b] by blast
  let ?Y = "\<lambda>t. column_exact c (special_ids c) (moddown_pre c g) fp (\<lambda>i. gl_ExactModDown_pInv g (i + hc_L c)) (X t)"
  let ?k = "\<lambda>j. let primeid = kl_flattened t (init + j) in write_limb c primeid
      (map (\<lambda>buff. let alpha = overflow_count fp (\<lambda>i. gl_ExactModDown_pInv g (i + hc_L c)) buff;
                       cur = modreduce_shoup c primeid (conv_dot (\<lambda>i. gl_ModDown_matrix g (MODDOWN_MATRIX i primeid)) buff)
                   in dmodsub c primeid cur (gl_ExactModDown_alphaP g (alpha * MAXP + primeid))) cols)"
  have "gives c (kl_flattened t (init + j)) n (?k j (a ! j)) ?Y" if j: "j < m" for j
    unfolding Let_def
  proof (rule write_limb_gives [OF _ sh [OF j]])
    show "limb_prime c (kl_flattened t (init + j))" using t [OF j] by (simp add: moddown_target_def conv_target_def)
    fix u
    assume "u < n"
    then show "uint (map (\<lambda>buff. dmodsub c (kl_flattened t (init + j)) (modreduce_shoup c (kl_flattened t (init + j))
        (conv_dot (\<lambda>i. gl_ModDown_matrix g (MODDOWN_MATRIX i (kl_flattened t (init + j)))) buff))
        (gl_ExactModDown_alphaP g (overflow_count fp (\<lambda>i. gl_ExactModDown_pInv g (i + hc_L c)) buff * MAXP + kl_flattened t (init + j)))) cols ! u)
        = ?Y u mod iprime c (kl_flattened t (init + j))"
      using column_exact_value [OF s [unfolded moddown_source_def] fp r _ t [OF j, unfolded moddown_target_def] al [OF j]] K cols(2,3) by simp
  qed (simp add: cols(2))
  from modify_rep [where k = ?k and ids = "\<lambda>j. kl_flattened t (init + j)", OF len this] show ?thesis unfolding ExactModDown2_def cols(1) bindE.simps Let_def by blast
qed

text \<open>A digit at a level: its source primes, the rows of its target.\<close>

definition digit_ids :: "KernelLayout \<Rightarrow> nat \<Rightarrow> nat \<Rightarrow> nat list" where
  "digit_ids t d n = map (kl_digit_from t d) [0..<kl_num_from t d (n - 1)]"

lemma digit_ids_simps [simp]: "length (digit_ids t d n) = kl_num_from t d (n - 1)"
  "i < kl_num_from t d (n - 1) \<Longrightarrow> digit_ids t d n ! i = kl_digit_from t d i"
  by (simp_all add: digit_ids_def)

definition modup_pre :: "KernelLayout \<Rightarrow> Globals \<Rightarrow> nat \<Rightarrow> nat \<Rightarrow> nat \<Rightarrow> u64" where
  "modup_pre t g d n i = gl_DecompAndModUp_pre_scale g (MODUPIDX_SCALE d (kl_num_from t d (n - 1) - 1) (kl_digit_from t d i))"

definition modup_source :: "Constants \<Rightarrow> KernelLayout \<Rightarrow> Globals \<Rightarrow> nat \<Rightarrow> nat \<Rightarrow> bool" where
  "modup_source c t g d n \<longleftrightarrow> conv_source c (digit_ids t d n) (modup_pre t g d n)
     (\<lambda>i. gl_DecompAndModUp_pre_scale_shoup g (MODUPIDX_SCALE d (kl_num_from t d (n - 1) - 1) (kl_digit_from t d i)))"

definition modup_target :: "Constants \<Rightarrow> KernelLayout \<Rightarrow> Globals \<Rightarrow> nat \<Rightarrow> nat \<Rightarrow> nat \<Rightarrow> bool" where
  "modup_target c t g d n j \<longleftrightarrow> (j < n \<or> j \<ge> hc_L c)
     \<and> conv_target c (digit_ids t d n) j (\<lambda>i. gl_DecompAndModUp_matrix g (MODUPIDX_MATRIX (n - 1) d (kl_digit_from t d i) j))"

lemma ModUp_stage_columns:
  assumes s: "modup_source c t g d n" and algo: "algo \<noteq> ALGO_NONE"
    and a: "limbs_rep c (kl_digit_from t d) 0 (kl_num_from t d (n - 1)) N a X"
  shows "\<exists>cols. stage_columns N (kl_num_from t d (n - 1)) (ModUp_stage c t g algo a d (kl_num_from t d (n - 1))) = Inr cols \<and> length cols = N
    \<and> (\<forall>u < N. column_of c (digit_ids t d n) (modup_pre t g d n) (X u) (cols ! u))"
proof -
  have "\<exists>v. ModUp_stage c t g algo a d (kl_num_from t d (n - 1)) idx i = Inr v
      \<and> uint v = X idx * uint (modup_pre t g d n i) mod iprime c (digit_ids t d n ! i)"
    if idx: "idx < N" and i: "i < length (digit_ids t d n)" for idx i
  proof -
    have i': "i < kl_num_from t d (n - 1)" using i by simp
    note r = limbs_rep_row [OF a le0 i']
    have l: "limb_ok c (digit_ids t d n ! i) N (a ! i)" "lval (a ! i) idx = X idx mod iprime c (digit_ids t d n ! i)"
      using r(1) r(2) [OF idx] i' by simp_all
    from stage_value [OF s [unfolded modup_source_def] algo i l idx] show ?thesis
      using i' r(3) by (simp add: ModUp_stage_def modup_pre_def Let_def)
  qed
  from stage_columns_ok [OF this] show ?thesis by simp
qed

lemma matrix_index:
  assumes "n \<le> MAXP" and "i < MAXP" and "j < MAXP"
  shows "MODUPIDX_MATRIX (n - 1) d i j < 64 * 64 * 64 * 8"
proof -
  have "MAXP * MAXP * (n - 1) \<le> 64 * 64 * 63" "MAXP * i \<le> 64 * 63" "j < 64"
    using assms by (simp_all add: MAXP_def)
  then show ?thesis by (simp add: MODUPIDX_MATRIX_def)
qed

lemma DecompAndModUpConv_ok:
  assumes s: "modup_source c t g d n" and algo: "algo \<noteq> ALGO_NONE"
    and a: "limbs_rep c (kl_digit_from t d) 0 (kl_num_from t d (n - 1)) N a X"
    and n: "n \<le> MAXP" "kl_num_from t d (n - 1) \<le> MAXP"
    and len: "kl_num_to t d (n - 1) \<le> length b"
    and sh: "\<And>j. j < kl_num_to t d (n - 1) \<Longrightarrow> limb_shaped c (kl_digit_to t d j) N (b ! j)"
    and t: "\<And>j. j < kl_num_to t d (n - 1) \<Longrightarrow> modup_target c t g d n (kl_digit_to t d j)"
  shows "\<exists>b'. DecompAndModUpConv c t g algo N a n b d = Inr b' \<and> length b' = length b
    \<and> limbs_rep c (kl_digit_to t d) 0 (kl_num_to t d (n - 1)) N b' (\<lambda>u. column_sum c (digit_ids t d n) (modup_pre t g d n) (X u))"
proof -
  let ?k = "kl_num_from t d (n - 1)" and ?m = "kl_num_to t d (n - 1)"
  let ?Y = "\<lambda>u. column_sum c (digit_ids t d n) (modup_pre t g d n) (X u)"
  obtain cols where cols: "stage_columns N ?k (ModUp_stage c t g algo a d ?k) = Inr cols" "length cols = N"
      "\<forall>u < N. column_of c (digit_ids t d n) (modup_pre t g d n) (X u) (cols ! u)"
    using ModUp_stage_columns [OF s algo a] by blast
  let ?w = "\<lambda>j. write_limb c (kl_digit_to t d j) (map (\<lambda>buff. modreduce_shoup c (kl_digit_to t d j)
      (conv_dot (\<lambda>i. gl_DecompAndModUp_matrix g (MODUPIDX_MATRIX (n - 1) d (kl_digit_from t d i) (kl_digit_to t d j))) buff)) cols)"
  have "gives c (kl_digit_to t d j) N (?w j (b ! j)) ?Y" if j: "j < ?m" for j
  proof (rule write_limb_gives [OF _ sh [OF j]])
    have t': "conv_target c (digit_ids t d n) (kl_digit_to t d j)
        (\<lambda>i. gl_DecompAndModUp_matrix g (MODUPIDX_MATRIX (n - 1) d (kl_digit_from t d i) (kl_digit_to t d j)))"
      using t [OF j] by (simp add: modup_target_def)
    then show "limb_prime c (kl_digit_to t d j)" by (simp add: conv_target_def)
    fix u
    assume "u < N"
    then show "uint (map (\<lambda>buff. modreduce_shoup c (kl_digit_to t d j)
      (conv_dot (\<lambda>i. gl_DecompAndModUp_matrix g (MODUPIDX_MATRIX (n - 1) d (kl_digit_from t d i) (kl_digit_to t d j))) buff)) cols ! u)
        = ?Y u mod iprime c (kl_digit_to t d j)"
      using column_value [OF s [unfolded modup_source_def] t'] cols(2,3) by simp
  qed (simp add: cols(2))
  from modify_rep [where k = ?w and ids = "kl_digit_to t d", OF len this]
  obtain b' where b': "foldE (\<lambda>b j. modify_at j (?w j) b) b [0..<?m] = Inr b'"
      "limbs_rep c (kl_digit_to t d) 0 ?m N b' ?Y" "length b' = length b" by blast
  have "DecompAndModUpConv c t g algo N a n b d = foldE (\<lambda>b j. modify_at j (?w j) b) b [0..<?m]"
    unfolding DecompAndModUpConv_def Let_def cols(1) bindE.simps
  proof (rule foldE_cong)
    fix j b
    assume "j \<in> set [0..<?m]"
    then have j: "j < ?m" by simp
    have tj: "kl_digit_to t d j < n \<or> hc_L c \<le> kl_digit_to t d j" "kl_digit_to t d j < MAXP"
      using t [OF j] by (auto simp: modup_target_def conv_target_def limb_prime_def prime_entry_def Let_def)
    have "\<forall>i < ?k. MODUPIDX_MATRIX (n - 1) d i (kl_digit_to t d j) < 64 * 64 * 64 * 8"
      using n tj(2) by (intro allI impI matrix_index) simp_all
    then have g: "guardE Assert_failed (\<forall>i < ?k. MODUPIDX_MATRIX (n - 1) d i (kl_digit_to t d j) < 64 * 64 * 64 * 8) = Inr ()"
      by (simp only: guardE_eq(1))
    show "(if kl_digit_to t d j < n \<or> hc_L c \<le> kl_digit_to t d j
        then bindE (guardE Assert_failed (\<forall>i < ?k. MODUPIDX_MATRIX (n - 1) d i (kl_digit_to t d j) < 64 * 64 * 64 * 8)) (\<lambda>_. modify_at j (?w j) b)
        else Inr b) = modify_at j (?w j) b"
      using tj(1) by (simp only: g bindE.simps if_True)
  qed
  then show ?thesis using b' by auto
qed

lemma ExactModUpConv_ok:
  assumes s: "modup_source c t g d n" and algo: "algo \<noteq> ALGO_NONE"
    and a: "limbs_rep c (kl_digit_from t d) 0 (kl_num_from t d (n - 1)) N a X"
    and fp: "doubles_ok fp" and r: "rcp_ok (src_primes c (digit_ids t d n)) (\<lambda>i. gl_ExactModUp_qInv g (kl_digit_from t d i))"
    and K: "kl_num_from t d (n - 1) \<le> 64"
    and len: "kl_num_to t d (n - 1) \<le> length b"
    and sh: "\<And>j. j < kl_num_to t d (n - 1) \<Longrightarrow> limb_shaped c (kl_digit_to t d j) N (b ! j)"
    and t: "\<And>j. j < kl_num_to t d (n - 1) \<Longrightarrow> modup_target c t g d n (kl_digit_to t d j)"
    and al: "\<And>j. j < kl_num_to t d (n - 1) \<Longrightarrow>
      conv_alpha c (digit_ids t d n) (kl_digit_to t d j) (\<lambda>a. gl_ExactModUp_alphaQ g (a * MAXP + kl_digit_to t d j))"
  shows "\<exists>b'. ExactModUpConv c t g fp algo N a n b d = Inr b' \<and> length b' = length b
    \<and> limbs_rep c (kl_digit_to t d) 0 (kl_num_to t d (n - 1)) N b'
        (\<lambda>u. column_exact c (digit_ids t d n) (modup_pre t g d n) fp (\<lambda>i. gl_ExactModUp_qInv g (kl_digit_from t d i)) (X u))"
proof -
  let ?k = "kl_num_from t d (n - 1)" and ?m = "kl_num_to t d (n - 1)" and ?r = "\<lambda>i. gl_ExactModUp_qInv g (kl_digit_from t d i)"
  let ?Y = "\<lambda>u. column_exact c (digit_ids t d n) (modup_pre t g d n) fp ?r (X u)"
  obtain cols where cols: "stage_columns N ?k (ModUp_stage c t g algo a d ?k) = Inr cols" "length cols = N"
      "\<forall>u < N. column_of c (digit_ids t d n) (modup_pre t g d n) (X u) (cols ! u)"
    using ModUp_stage_columns [OF s algo a] by blast
  let ?f = "\<lambda>j buff. dmodsub c (kl_digit_to t d j) (modreduce_shoup c (kl_digit_to t d j)
      (conv_dot (\<lambda>i. gl_DecompAndModUp_matrix g (MODUPIDX_MATRIX (n - 1) d (kl_digit_from t d i) (kl_digit_to t d j))) buff))
      (gl_ExactModUp_alphaQ g (overflow_count fp ?r buff * MAXP + kl_digit_to t d j))"
  let ?w = "\<lambda>j. write_limb c (kl_digit_to t d j) (map (?f j) cols)"
  have "gives c (kl_digit_to t d j) N (?w j (b ! j)) ?Y" if j: "j < ?m" for j
  proof (rule write_limb_gives [OF _ sh [OF j]])
    have t': "conv_target c (digit_ids t d n) (kl_digit_to t d j)
        (\<lambda>i. gl_DecompAndModUp_matrix g (MODUPIDX_MATRIX (n - 1) d (kl_digit_from t d i) (kl_digit_to t d j)))"
      using t [OF j] by (simp add: modup_target_def)
    then show "limb_prime c (kl_digit_to t d j)" by (simp add: conv_target_def)
    fix u
    assume "u < N"
    then show "uint (map (?f j) cols ! u) = ?Y u mod iprime c (kl_digit_to t d j)"
      using column_exact_value [OF s [unfolded modup_source_def] fp r _ t' al [OF j]] K cols(2,3) by simp
  qed (simp add: cols(2))
  from modify_rep [where k = ?w and ids = "kl_digit_to t d", OF len this]
  obtain b' where b': "foldE (\<lambda>b j. modify_at j (?w j) b) b [0..<?m] = Inr b'"
      "limbs_rep c (kl_digit_to t d) 0 ?m N b' ?Y" "length b' = length b" by blast
  have "ExactModUpConv c t g fp algo N a n b d = foldE (\<lambda>b j. modify_at j (?w j) b) b [0..<?m]"
    unfolding ExactModUpConv_def Let_def cols(1) bindE.simps
    using t by (intro foldE_cong) (auto simp: modup_target_def)
  then show ?thesis using b' by auto
qed

end
