(* ===== verification/NttModes.thy ===== *)
theory NttModes
  imports BaseConvCorrect Intt1D
begin

text \<open>
  The fused transforms: the modes of \<open>src/src/NTT_1D.cu\<close> and \<open>src/src/INTT_1D.cu\<close>, whose extra work before
  and after the transform is in \<open>src/src/NTTfusions.cuh\<close>. A thread of the block owns the coefficients
  \<open>2t\<close> and \<open>2t + 1\<close> of every array of a fusion. The 64-bit instance for Shoup's algorithm is modelled; the
  fusions take \<open>ALGO_BARRETT\<close> where they have no companion.
\<close>

section \<open>After the transform\<close>

datatype NTT_MODE = NTT_NONE | NTT_RESCALE | NTT_MULTPT | NTT_MODDOWN | NTT_KSK_DOT | NTT_KSK_DOT_ACC

definition rescale_fusion :: "Constants \<Rightarrow> Globals \<Rightarrow> nat \<Rightarrow> nat \<Rightarrow> u64 list \<Rightarrow> u64 list \<Rightarrow> u64 list" where
  "rescale_fusion c g primeid primeid_rescale res A =
     (let q_inv_temp = gl_q_inv g (MAXP * primeid_rescale + primeid)
      in map (\<lambda>j. modmult_barrett c primeid q_inv_temp (dmodsub c primeid (res ! j) (A ! j))) [0..<length A])"

definition moddown_fusion :: "Constants \<Rightarrow> nat \<Rightarrow> u64 list \<Rightarrow> u64 list \<Rightarrow> u64 list" where
  "moddown_fusion c primeid res A =
     map (\<lambda>j. modmult_shoup c primeid (dmodsub c primeid (res ! j) (A ! j)) (hc_P_inv c ! primeid) (hc_P_inv_shoup c ! primeid)) [0..<length A]"

text \<open>The plaintext may be shorter: its index is taken from the offset \<open>off\<close> of the row in the limb.\<close>

definition multpt_fusion :: "Constants \<Rightarrow> Globals \<Rightarrow> nat \<Rightarrow> nat \<Rightarrow> u64 list \<Rightarrow> u64 list \<Rightarrow> nat \<Rightarrow> nat \<Rightarrow> u64 list \<Rightarrow> u64 list" where
  "multpt_fusion c g primeid primeid_rescale res pt stride off A =
     (let q_inv_temp = gl_q_inv g (MAXP * primeid_rescale + primeid)
      in map (\<lambda>j. let x = modmult_barrett c primeid (res ! j) (pt ! ((off + j) div 2 ^ stride))
                  in modmult_barrett c primeid q_inv_temp (dmodsub c primeid x (A ! j))) [0..<length A])"

text \<open>The products with the two halves of a switching key: \<open>c0\<close> and \<open>c1\<close>, or the sums they are added to.\<close>

definition ksk_dot_fusion :: "Constants \<Rightarrow> nat \<Rightarrow> u64 list \<Rightarrow> u64 list \<Rightarrow> u64 list \<Rightarrow> u64 list \<times> u64 list" where
  "ksk_dot_fusion c primeid kska kskb A =
     (map (\<lambda>j. modmult_barrett c primeid (A ! j) (kskb ! j)) [0..<length A],
      map (\<lambda>j. modmult_barrett c primeid (A ! j) (kska ! j)) [0..<length A])"

definition ksk_dot_acc_fusion :: "Constants \<Rightarrow> nat \<Rightarrow> u64 list \<Rightarrow> u64 list \<Rightarrow> u64 list \<Rightarrow> u64 list \<Rightarrow> u64 list \<Rightarrow> u64 list \<times> u64 list" where
  "ksk_dot_acc_fusion c primeid res0 res1 kska kskb A =
     (map (\<lambda>j. dmodadd c primeid (modmult_barrett c primeid (A ! j) (kskb ! j)) (res0 ! j)) [0..<length A],
      map (\<lambda>j. dmodadd c primeid (modmult_barrett c primeid (A ! j) (kska ! j)) (res1 ! j)) [0..<length A])"

text \<open>The kernel: \<open>res\<close> and, in the modes with a switching key, \<open>res2\<close> are updated. A mode that divides by
  a prime first takes the coefficients from that prime to its own.\<close>

definition NTT_1D_mode :: "Constants \<Rightarrow> Globals \<Rightarrow> nat \<Rightarrow> PsiTables \<Rightarrow> nat \<Rightarrow> (int \<Rightarrow> nat list) \<Rightarrow> NTT_MODE \<Rightarrow> u64 list
    \<Rightarrow> u64 list \<Rightarrow> u64 list \<Rightarrow> nat \<Rightarrow> int \<Rightarrow> u64 list \<Rightarrow> u64 list \<Rightarrow> cpp_error + u64 list \<times> u64 list" where
  "NTT_1D_mode c g primeid t B sched mode dat res pt pt_elem primeid_rescale res2 kskb =
     (let resc = (mode = NTT_RESCALE \<or> mode = NTT_MULTPT);
          r = nat primeid_rescale
      in bindE (guardE Assert_failed (2 ^ (ffs (2 * B) - 1) = 2 * B)) (\<lambda>_.
         bindE (guardE Assert_failed (resc \<longrightarrow> primeid_rescale \<ge> 0)) (\<lambda>_.
         let A = (if resc then map (\<lambda>a. SwitchModulus c a r primeid) dat else dat);
             A = ntt_core c primeid t B sched A
         in (case mode of
               NTT_NONE \<Rightarrow> Inr (A, res2)
             | NTT_RESCALE \<Rightarrow> Inr (rescale_fusion c g primeid r res A, res2)
             | NTT_MULTPT \<Rightarrow> bindE (logstride (2 * B) pt_elem) (\<lambda>s. Inr (multpt_fusion c g primeid r res pt s 0 A, res2))
             | NTT_MODDOWN \<Rightarrow> Inr (moddown_fusion c primeid res A, res2)
             | NTT_KSK_DOT \<Rightarrow> Inr (ksk_dot_fusion c primeid pt kskb A)
             | NTT_KSK_DOT_ACC \<Rightarrow> Inr (ksk_dot_acc_fusion c primeid res res2 pt kskb A)))))"

section \<open>Before the inverse transform\<close>

datatype INTT_MODE = INTT_NONE | INTT_MULT_AND_SAVE | INTT_MULT_AND_ACC | INTT_ROTATE_AND_SAVE | INTT_SQUARE_AND_SAVE

text \<open>A product of two ciphertexts of which the third component goes on to the key switch: the value to
  transform, and the coefficients of the two results.\<close>

definition mult_and_save_fusion :: "Constants \<Rightarrow> nat \<Rightarrow> u64 \<Rightarrow> u64 \<Rightarrow> u64 \<Rightarrow> u64 \<Rightarrow> u64 \<Rightarrow> u64 \<Rightarrow> u64 \<times> u64 \<times> u64" where
  "mult_and_save_fusion c primeid c1 c1tilde ksk2 ksk1 c0 c0tilde =
     (let m = modmult_barrett c primeid; add = dmodadd c primeid; P = hc_P c ! primeid;
          in1 = m c1 c1tilde;
          in2 = m c1 c0tilde; in2 = add in2 (m c1tilde c0); in2 = m in2 P; res1 = add in2 (m in1 ksk2);
          in2 = m c0 c0tilde; in2 = m in2 P; res0 = add (m in1 ksk1) in2
      in (in1, res0, res1))"

definition mult_and_acc_fusion :: "Constants \<Rightarrow> nat \<Rightarrow> u64 \<Rightarrow> u64 \<Rightarrow> u64 \<Rightarrow> u64 \<Rightarrow> u64 \<Rightarrow> u64 \<Rightarrow> u64 \<Rightarrow> u64 \<Rightarrow> u64 \<times> u64 \<times> u64" where
  "mult_and_acc_fusion c primeid c1 c1tilde r0 r1 ksk2 ksk1 c0 c0tilde =
     (let m = modmult_barrett c primeid; add = dmodadd c primeid; P = hc_P c ! primeid;
          in1 = m c1 c1tilde;
          in2 = m c1 c0tilde; in2 = add in2 (m c1tilde c0); in2 = m in2 P; in2 = add in2 (m in1 ksk2); res1 = add in2 r1;
          in2 = m c0 c0tilde; in2 = m in2 P; in2 = add (m in1 ksk1) in2; res0 = add in2 r0
      in (in1, res0, res1))"

definition rotate_and_save_fusion :: "Constants \<Rightarrow> nat \<Rightarrow> u64 \<Rightarrow> u64 \<Rightarrow> u64 \<Rightarrow> u64 \<Rightarrow> u64 \<times> u64 \<times> u64" where
  "rotate_and_save_fusion c primeid c1 ksk2 ksk1 c0 =
     (let m = modmult_barrett c primeid; add = dmodadd c primeid; P = hc_P c ! primeid;
          res1 = m c1 ksk2; in2 = m c0 P; res0 = add (m c1 ksk1) in2
      in (c1, res0, res1))"

definition square_and_save_fusion :: "Constants \<Rightarrow> nat \<Rightarrow> u64 \<Rightarrow> u64 \<Rightarrow> u64 \<Rightarrow> u64 \<Rightarrow> u64 \<times> u64 \<times> u64" where
  "square_and_save_fusion c primeid c1 ksk2 ksk1 c0 =
     (let m = modmult_barrett c primeid; add = dmodadd c primeid; P = hc_P c ! primeid;
          in1 = m c1 c1;
          in2 = m c0 c0; in2 = m in2 P; res0 = add (m in1 ksk1) in2;
          in2 = m c1 c0; in2 = add in2 in2; in2 = m in2 P; res1 = add (m in1 ksk2) in2
      in (in1, res0, res1))"

text \<open>The kernel: \<open>res\<close>, and in the fused modes \<open>c0\<close> and \<open>dat\<close>, which take the two results.\<close>

definition intt_fused :: "Constants \<Rightarrow> nat \<Rightarrow> INTT_MODE \<Rightarrow> u64 list \<Rightarrow> u64 list
    \<Rightarrow> u64 list \<Rightarrow> u64 list \<Rightarrow> u64 list \<Rightarrow> u64 list \<Rightarrow> nat \<Rightarrow> u64 \<times> u64 \<times> u64" where
  "intt_fused c primeid mode dat dat2 kska kskb c0 c0tilde j =
     (case mode of
        INTT_NONE \<Rightarrow> (dat ! j, c0 ! j, dat ! j)
      | INTT_MULT_AND_SAVE \<Rightarrow> mult_and_save_fusion c primeid (dat ! j) (dat2 ! j) (kska ! j) (kskb ! j) (c0 ! j) (c0tilde ! j)
      | INTT_MULT_AND_ACC \<Rightarrow> mult_and_acc_fusion c primeid (dat ! j) (dat2 ! j) (c0 ! j) (dat ! j) (kska ! j) (kskb ! j) (c0 ! j) (c0tilde ! j)
      | INTT_ROTATE_AND_SAVE \<Rightarrow> rotate_and_save_fusion c primeid (dat ! j) (kska ! j) (kskb ! j) (c0 ! j)
      | INTT_SQUARE_AND_SAVE \<Rightarrow> square_and_save_fusion c primeid (dat ! j) (kska ! j) (kskb ! j) (c0 ! j))"

definition INTT_1D_mode :: "Constants \<Rightarrow> nat \<Rightarrow> PsiTables \<Rightarrow> nat \<Rightarrow> (int \<Rightarrow> nat list) \<Rightarrow> INTT_MODE \<Rightarrow> u64 list \<Rightarrow> u64 list
    \<Rightarrow> u64 list \<Rightarrow> u64 list \<Rightarrow> u64 list \<Rightarrow> u64 list \<Rightarrow> cpp_error + u64 list \<times> u64 list \<times> u64 list" where
  "INTT_1D_mode c primeid t B sched mode dat dat2 kska kskb c0 c0tilde =
     (let vs = map (intt_fused c primeid mode dat dat2 kska kskb c0 c0tilde) [0..<2 * B]
      in bindE (INTT_1D c primeid t B sched (map fst vs)) (\<lambda>res. Inr (res, map (fst \<circ> snd) vs, map (snd \<circ> snd) vs)))"

section \<open>The values of a polynomial\<close>

text \<open>An array holds the values of the polynomial with the coefficients \<open>X\<close> at the odd powers of the root,
  or the coefficients themselves.\<close>

definition evals :: "Constants \<Rightarrow> nat \<Rightarrow> PsiTables \<Rightarrow> nat \<Rightarrow> (nat \<Rightarrow> int) \<Rightarrow> u64 list \<Rightarrow> bool" where
  "evals c i t b X A \<longleftrightarrow> reduced c i (2 * 2 ^ b) A
     \<and> (\<forall>q < 2 * 2 ^ b. uint (A ! q) = odd_power_values (iprime c i) (2 * 2 ^ b) (sub_root c t b) X (brev (Suc b) q))"

definition coeffs :: "Constants \<Rightarrow> nat \<Rightarrow> nat \<Rightarrow> (nat \<Rightarrow> int) \<Rightarrow> u64 list \<Rightarrow> bool" where
  "coeffs c i n X A \<longleftrightarrow> length A = n \<and> (\<forall>j < n. uint (A ! j) = X j mod iprime c i)"

lemma coeffs_reduced: "prime_entry c i \<Longrightarrow> coeffs c i n X A \<Longrightarrow> reduced c i n A"
proof -
  assume p: "prime_entry c i" and A: "coeffs c i n X A"
  have "0 < iprime c i" using iprime_bounds(1) [OF p] by simp
  then have "uint (A ! j) < iprime c i" if "j < n" for j using A that by (simp add: coeffs_def)
  then show "reduced c i n A" using A unfolding reduced_def coeffs_def uint_less_iff by blast
qed

lemma reduced_less: "reduced c i n A \<Longrightarrow> j < n \<Longrightarrow> uint (A ! j) < iprime c i"
  by (simp only: reduced_def uint_less_iff)

lemma reduced_coeffs: "reduced c i n A \<Longrightarrow> coeffs c i n (\<lambda>j. uint (A ! j)) A"
proof -
  assume A: "reduced c i n A"
  have "uint (A ! j) mod iprime c i = uint (A ! j)" if "j < n" for j
    by (rule mod_pos_pos_trivial [OF uint_ge_0 reduced_less [OF A that]])
  then show ?thesis using A unfolding coeffs_def reduced_def by metis
qed

lemma odd_power_values_cong:
  assumes "\<And>j. j < n \<Longrightarrow> X j mod p = Y j mod p"
  shows "odd_power_values p n w X q = odd_power_values p n w Y q"
proof -
  have "X j * w ^ ((2 * q + 1) * j) mod p = Y j * w ^ ((2 * q + 1) * j) mod p" if "j < n" for j
    by (rule mod_mult_cong [OF assms [OF that] refl])
  then have "(\<Sum>j<n. X j * w ^ ((2 * q + 1) * j) mod p) = (\<Sum>j<n. Y j * w ^ ((2 * q + 1) * j) mod p)"
    by (intro sum.cong refl) (simp only: lessThan_iff)
  then show ?thesis unfolding odd_power_values_def
    using mod_sum_eq [of "\<lambda>j. X j * w ^ ((2 * q + 1) * j)" p "{..<n}"] mod_sum_eq [of "\<lambda>j. Y j * w ^ ((2 * q + 1) * j)" p "{..<n}"]
    by (simp only:)
qed

lemma odd_power_values_axpy:
  "(odd_power_values p n w X q + a * odd_power_values p n w Y q) mod p = odd_power_values p n w (\<lambda>j. X j + a * Y j) q"
  "(odd_power_values p n w X q - odd_power_values p n w Y q) mod p = odd_power_values p n w (\<lambda>j. X j - Y j) q"
  "a * odd_power_values p n w X q mod p = odd_power_values p n w (\<lambda>j. a * X j) q"
proof -
  let ?s = "\<lambda>X. \<Sum>j<n. X j * w ^ ((2 * q + 1) * j)"
  have "?s (\<lambda>j. X j + a * Y j) = ?s X + a * ?s Y" "?s (\<lambda>j. X j - Y j) = ?s X - ?s Y" "?s (\<lambda>j. a * X j) = a * ?s X"
    by (simp_all add: algebra_simps sum.distrib sum_distrib_left sum_subtractf)
  then show "(odd_power_values p n w X q + a * odd_power_values p n w Y q) mod p = odd_power_values p n w (\<lambda>j. X j + a * Y j) q"
    "(odd_power_values p n w X q - odd_power_values p n w Y q) mod p = odd_power_values p n w (\<lambda>j. X j - Y j) q"
    "a * odd_power_values p n w X q mod p = odd_power_values p n w (\<lambda>j. a * X j) q"
    unfolding odd_power_values_def by (simp_all only: mod_axpy mod_diff_eq mod_mult_right_eq)
qed

lemma ntt_core_evals:
  assumes "ntt_setting c i t b sched" and "coeffs c i (2 * 2 ^ b) X A"
  shows "evals c i t b X (ntt_core c i t (2 ^ b) sched A)"
proof -
  from assms(1) have ok: "psi_ok c i t" and b: "b < hc_logN c" "b < 31" and sch: "sched_ok b sched"
    by (auto simp: ntt_setting_def)
  have "prime_entry c i" using ok by (simp add: psi_ok_def)
  then have red: "reduced c i (2 * 2 ^ b) A" using assms(2) by (rule coeffs_reduced)
  have "uint (ntt_core c i t (2 ^ b) sched A ! q) = odd_power_values (iprime c i) (2 * 2 ^ b) (sub_root c t b) X (brev (Suc b) q)"
    if "q < 2 * 2 ^ b" for q
    unfolding ntt_core_values [OF ok b sch red that]
    using assms(2) by (intro odd_power_values_cong) (simp add: coeffs_def)
  then show ?thesis using ntt_core_stage(2) [OF ok b sch red] by (simp add: evals_def)
qed

lemma INTT_1D_coeffs:
  assumes i: "ntt_setting c i t b sched" and e: "evals c i t b X A"
  shows "\<exists>r. INTT_1D c i t (2 ^ b) sched A = Inr r \<and> coeffs c i (2 * 2 ^ b) X r"
proof -
  have p: "0 < iprime c i" using i iprime_bounds(1) [of c i] by (auto simp: ntt_setting_def psi_ok_def)
  let ?x = "map (\<lambda>j. word_of_int (X j mod iprime c i)) [0..<2 * 2 ^ b] :: u64 list"
  have lt: "X j mod iprime c i < 2 ^ 64" for j
    using pos_mod_bound [OF p, of "X j"] uint_lt2p [of "hc_primes c ! i"] by simp
  then have "uint (word_of_int (X j mod iprime c i) :: u64) = X j mod iprime c i" for j
    using p by (simp add: uint_word_of_int)
  then have x: "coeffs c i (2 * 2 ^ b) X ?x" by (simp add: coeffs_def)
  have px: "prime_entry c i" using i by (simp add: ntt_setting_def psi_ok_def)
  note e' = ntt_core_evals [OF i x]
  have "ntt_core c i t (2 ^ b) sched ?x = A"
  proof (rule nth_equalityI)
    show "length (ntt_core c i t (2 ^ b) sched ?x) = length A" using e e' by (simp add: evals_def reduced_def)
    fix q
    assume "q < length (ntt_core c i t (2 ^ b) sched ?x)"
    then have "q < 2 * 2 ^ b" using e' by (simp add: evals_def reduced_def)
    then have "uint (ntt_core c i t (2 ^ b) sched ?x ! q) = uint (A ! q)" using e e' unfolding evals_def by metis
    then show "ntt_core c i t (2 ^ b) sched ?x ! q = A ! q" by (simp only: word_uint_eq_iff)
  qed
  then show ?thesis using intt_ntt_core [OF i i coeffs_reduced [OF px x]] x by auto
qed

section \<open>Dividing by a prime\<close>

text \<open>The quotient rounded to the nearest integer.\<close>

definition round_div :: "int \<Rightarrow> int \<Rightarrow> int" where
  "round_div m x = (x - centred m x) div m"

lemma round_div_eq: "m * round_div m x = x - centred m x"
proof -
  have "m dvd x - centred m x" using centred_mod [of m x] by (simp add: mod_eq_dvd_iff [symmetric])
  then show ?thesis unfolding round_div_def by simp
qed

lemma round_div_near: "0 < m \<Longrightarrow> 2 * \<bar>m * round_div m x - x\<bar> \<le> m"
  using centred_bounds [of m x] by (simp add: round_div_eq)

text \<open>A fusion that multiplies the difference of two arrays with the inverse of \<open>d\<close>.\<close>

lemma evals_divided:
  assumes c: "prime_entry c i" and x: "evals c i t b X res" and z: "evals c i t b Z A"
    and v: "v * d mod iprime c i = 1" and w: "\<And>j. j < 2 * 2 ^ b \<Longrightarrow> X j - Z j = d * W j"
    and f: "\<And>j. j < 2 * 2 ^ b \<Longrightarrow> uint (f j) = v * (uint (res ! j) - uint (A ! j)) mod iprime c i"
  shows "evals c i t b W (map f [0..<length A])"
proof -
  let ?p = "iprime c i" and ?n = "2 * 2 ^ b :: nat"
  have len: "length A = ?n" using z by (simp add: evals_def reduced_def)
  have p: "0 < ?p" using iprime_bounds(1) [OF c] by simp
  have "uint (f j) = odd_power_values ?p ?n (sub_root c t b) W (brev (Suc b) j)" if j: "j < ?n" for j
  proof -
    let ?V = "\<lambda>X. odd_power_values ?p ?n (sub_root c t b) X (brev (Suc b) j)"
    have "uint (f j) = v * ((?V X - ?V Z) mod ?p) mod ?p"
      using x z j unfolding f [OF j] evals_def by (simp add: mod_mult_right_eq)
    also have "\<dots> = ?V (\<lambda>k. v * (X k - Z k))" unfolding odd_power_values_axpy ..
    also have "\<dots> = ?V W"
    proof (rule odd_power_values_cong)
      fix k
      assume "k < ?n"
      then have "v * (X k - Z k) = W k * (v * d)" by (simp add: w ac_simps)
      also have "\<dots> mod ?p = W k * (v * d mod ?p) mod ?p" by (simp only: mod_mult_right_eq)
      finally show "v * (X k - Z k) mod ?p = W k mod ?p" by (simp add: v)
    qed
    finally show ?thesis .
  qed
  moreover have "unat (f j) < dprime c i" if "j < ?n" for j
    unfolding uint_less_iff [symmetric] f [OF that] using p by simp
  ultimately show ?thesis by (simp add: evals_def reduced_def len)
qed

definition inverse_entry :: "Constants \<Rightarrow> nat \<Rightarrow> u64 \<Rightarrow> int \<Rightarrow> bool" where
  "inverse_entry c i v d \<longleftrightarrow> unat v < dprime c i \<and> uint v * d mod iprime c i = 1"

lemma evals_less: "evals c i t b X A \<Longrightarrow> j < 2 * 2 ^ b \<Longrightarrow> unat (A ! j) < dprime c i"
  by (simp add: evals_def reduced_def)

lemma divided_value:
  assumes c: "prime_entry c i" and v: "unat v < dprime c i" and x: "unat x < dprime c i" and y: "unat y < dprime c i"
  shows "uint (modmult_barrett c i v (dmodsub c i x y)) = uint v * (uint x - uint y) mod iprime c i"
    and "sv = shoup_precomp v (hc_primes c ! i) \<Longrightarrow> uint (modmult_shoup c i (dmodsub c i x y) v sv) = uint v * (uint x - uint y) mod iprime c i"
  using uint_modmult_barrett [OF c v dmodsub_less [OF c x y]] uint_modmult_shoup [OF c v, of sv]
  by (simp_all add: uint_dmodsub [OF c x y] mod_mult_right_eq mult.commute)

lemma SwitchModulus_coeffs:
  assumes o: "prime_entry c l" and n: "prime_entry c i" and d: "coeffs c l m X dat"
  shows "coeffs c i m (\<lambda>j. centred (iprime c l) (X j)) (map (\<lambda>a. SwitchModulus c a l i) dat)"
proof -
  have p: "0 < iprime c l" using iprime_bounds(1) [OF o] by simp
  have c: "centred (iprime c l) (X j mod iprime c l) = centred (iprime c l) (X j)" for j by (simp add: centred_def)
  have "uint (SwitchModulus c (dat ! j) l i) = centred (iprime c l) (X j) mod iprime c i" if "j < m" for j
    using SwitchModulus_values [OF o n, of "dat ! j"] d that p by (simp add: coeffs_def c)
  then show ?thesis using d by (simp add: coeffs_def)
qed

lemma block_guard: "ffs (2 * 2 ^ b) = Suc (Suc b)"
  using ffs_power [of "Suc b"] by simp

lemma rescale_fusion_evals:
  assumes c: "prime_entry c i" and v: "inverse_entry c i (gl_q_inv g (MAXP * l + i)) (iprime c l)"
    and res: "evals c i t b X res" and A: "evals c i t b (\<lambda>j. centred (iprime c l) (X j)) A"
  shows "evals c i t b (\<lambda>j. round_div (iprime c l) (X j)) (rescale_fusion c g i l res A)"
proof -
  let ?q = "gl_q_inv g (MAXP * l + i)"
  have "evals c i t b (\<lambda>j. round_div (iprime c l) (X j)) (map (\<lambda>j. modmult_barrett c i ?q (dmodsub c i (res ! j) (A ! j))) [0..<length A])"
  proof (rule evals_divided [OF c res A])
    show "uint ?q * iprime c l mod iprime c i = 1" using v by (simp add: inverse_entry_def)
    fix j :: nat
    assume j: "j < 2 * 2 ^ b"
    show "X j - centred (iprime c l) (X j) = iprime c l * round_div (iprime c l) (X j)" by (simp add: round_div_eq)
    show "uint (modmult_barrett c i ?q (dmodsub c i (res ! j) (A ! j))) = uint ?q * (uint (res ! j) - uint (A ! j)) mod iprime c i"
      using v evals_less [OF res j] evals_less [OF A j] by (intro divided_value(1) [OF c]) (simp_all add: inverse_entry_def)
  qed
  then show ?thesis by (simp add: rescale_fusion_def)
qed

lemma moddown_fusion_evals:
  assumes c: "prime_entry c i"
    and v: "inverse_entry c i (hc_P_inv c ! i) P" "hc_P_inv_shoup c ! i = shoup_precomp (hc_P_inv c ! i) (hc_primes c ! i)"
    and res: "evals c i t b X res" and A: "evals c i t b Y A" and w: "\<And>j. j < 2 * 2 ^ b \<Longrightarrow> X j - Y j = P * W j"
  shows "evals c i t b W (moddown_fusion c i res A)"
proof -
  let ?v = "hc_P_inv c ! i" and ?sv = "hc_P_inv_shoup c ! i"
  have "evals c i t b W (map (\<lambda>j. modmult_shoup c i (dmodsub c i (res ! j) (A ! j)) ?v ?sv) [0..<length A])"
  proof (rule evals_divided [OF c res A _ w])
    show "uint ?v * P mod iprime c i = 1" using v(1) by (simp add: inverse_entry_def)
    fix j :: nat
    assume j: "j < 2 * 2 ^ b"
    show "uint (modmult_shoup c i (dmodsub c i (res ! j) (A ! j)) ?v ?sv) = uint ?v * (uint (res ! j) - uint (A ! j)) mod iprime c i"
      using v(1) evals_less [OF res j] evals_less [OF A j] by (intro divided_value(2) [OF c _ _ _ v(2)]) (simp_all add: inverse_entry_def)
  qed
  then show ?thesis by (simp add: moddown_fusion_def)
qed

text \<open>The product with the plaintext at the positions of a limb.\<close>

definition pt_product :: "Constants \<Rightarrow> nat \<Rightarrow> nat \<Rightarrow> u64 list \<Rightarrow> u64 list \<Rightarrow> u64 list" where
  "pt_product c i s res pt = map (\<lambda>j. modmult_barrett c i (res ! j) (pt ! (j div 2 ^ s))) [0..<length res]"

lemma multpt_rescale: "length res = length A \<Longrightarrow> multpt_fusion c g i l res pt s 0 A = rescale_fusion c g i l (pt_product c i s res pt) A"
  by (simp add: multpt_fusion_def rescale_fusion_def pt_product_def Let_def)

section \<open>The one-block kernel\<close>

lemma NTT_RESCALE_ok:
  assumes i: "ntt_setting c i t b sched" and l: "prime_entry c l"
    and v: "inverse_entry c i (gl_q_inv g (MAXP * l + i)) (iprime c l)"
    and dat: "coeffs c l (2 * 2 ^ b) X dat" and res: "evals c i t b X res"
  shows "\<exists>r. NTT_1D_mode c g i t (2 ^ b) sched NTT_RESCALE dat res pt e (int l) res2 kskb = Inr (r, res2)
    \<and> evals c i t b (\<lambda>j. round_div (iprime c l) (X j)) r"
proof -
  have c: "prime_entry c i" using i by (simp add: ntt_setting_def psi_ok_def)
  from rescale_fusion_evals [OF c v res ntt_core_evals [OF i SwitchModulus_coeffs [OF l c dat]]]
  show ?thesis by (simp add: NTT_1D_mode_def block_guard Let_def)
qed

lemma NTT_MODDOWN_ok:
  assumes i: "ntt_setting c i t b sched"
    and v: "inverse_entry c i (hc_P_inv c ! i) P" "hc_P_inv_shoup c ! i = shoup_precomp (hc_P_inv c ! i) (hc_primes c ! i)"
    and dat: "coeffs c i (2 * 2 ^ b) Y dat" and res: "evals c i t b X res" and w: "\<And>j. j < 2 * 2 ^ b \<Longrightarrow> X j - Y j = P * W j"
  shows "\<exists>r. NTT_1D_mode c g i t (2 ^ b) sched NTT_MODDOWN dat res pt e pr res2 kskb = Inr (r, res2) \<and> evals c i t b W r"
proof -
  have c: "prime_entry c i" using i by (simp add: ntt_setting_def psi_ok_def)
  from moddown_fusion_evals [OF c v res ntt_core_evals [OF i dat] w] show ?thesis
    by (simp add: NTT_1D_mode_def block_guard Let_def)
qed

lemma NTT_NONE_ok:
  assumes i: "ntt_setting c i t b sched" and dat: "coeffs c i (2 * 2 ^ b) X dat"
  shows "\<exists>r. NTT_1D_mode c g i t (2 ^ b) sched NTT_NONE dat res pt e pr res2 kskb = Inr (r, res2) \<and> evals c i t b X r"
  using ntt_core_evals [OF i dat] by (simp add: NTT_1D_mode_def block_guard Let_def)

lemma NTT_MULTPT_ok:
  assumes i: "ntt_setting c i t b sched" and l: "prime_entry c l"
    and v: "inverse_entry c i (gl_q_inv g (MAXP * l + i)) (iprime c l)"
    and dat: "coeffs c l (2 * 2 ^ b) X dat" and e: "logstride (2 * 2 ^ b) e = Inr s"
    and res: "length res = 2 * 2 ^ b" "evals c i t b X (pt_product c i s res pt)"
  shows "\<exists>r. NTT_1D_mode c g i t (2 ^ b) sched NTT_MULTPT dat res pt e (int l) res2 kskb = Inr (r, res2)
    \<and> evals c i t b (\<lambda>j. round_div (iprime c l) (X j)) r"
proof -
  have c: "prime_entry c i" using i by (simp add: ntt_setting_def psi_ok_def)
  note A = ntt_core_evals [OF i SwitchModulus_coeffs [OF l c dat]]
  have "length (ntt_core c i t (2 ^ b) sched (map (\<lambda>a. SwitchModulus c a l i) dat)) = 2 * 2 ^ b"
    using A by (simp add: evals_def reduced_def)
  with rescale_fusion_evals [OF c v res(2) A] show ?thesis
    using e res(1) by (simp add: NTT_1D_mode_def block_guard multpt_rescale Let_def)
qed

section \<open>Key switching\<close>

text \<open>What the fused products decrypt to: \<open>s\<close> is the value of the secret, and \<open>ksk1 + ksk2 * s\<close> is the
  factor that the key hides, up to its error.\<close>

lemmas fusion_mods = mod_add_left_eq mod_add_right_eq mod_mult_left_eq mod_mult_right_eq

lemma barrett_dmodadd:
  assumes "prime_entry c i" and "unat x < dprime c i" and "unat y < dprime c i"
  shows "unat (modmult_barrett c i x y) < dprime c i" and "unat (dmodadd c i x y) < dprime c i"
    and "uint (modmult_barrett c i x y) = uint x * uint y mod iprime c i" and "uint (dmodadd c i x y) = (uint x + uint y) mod iprime c i"
  using modmult_barrett_uint [OF assms] dmodaddsub_uint [OF assms] by simp_all

lemma mult_fusion_values:
  assumes c: "prime_entry c i"
    and r: "unat c1 < dprime c i" "unat d1 < dprime c i" "unat c0 < dprime c i" "unat d0 < dprime c i"
      "unat k1 < dprime c i" "unat k2 < dprime c i" "unat (hc_P c ! i) < dprime c i" "unat r0 < dprime c i" "unat r1 < dprime c i"
  defines "p \<equiv> iprime c i" and "P \<equiv> uint (hc_P c ! i)"
  shows "map_prod uint (map_prod uint uint) (mult_and_save_fusion c i c1 d1 k2 k1 c0 d0)
      = (uint c1 * uint d1 mod p, (P * (uint c0 * uint d0) + uint c1 * uint d1 * uint k1) mod p,
         (P * (uint c1 * uint d0 + uint d1 * uint c0) + uint c1 * uint d1 * uint k2) mod p)"
    and "map_prod uint (map_prod uint uint) (mult_and_acc_fusion c i c1 d1 r0 r1 k2 k1 c0 d0)
      = (uint c1 * uint d1 mod p, (P * (uint c0 * uint d0) + uint c1 * uint d1 * uint k1 + uint r0) mod p,
         (P * (uint c1 * uint d0 + uint d1 * uint c0) + uint c1 * uint d1 * uint k2 + uint r1) mod p)"
    and "map_prod uint (map_prod uint uint) (square_and_save_fusion c i c1 k2 k1 c0)
      = (uint c1 * uint c1 mod p, (P * (uint c0 * uint c0) + uint c1 * uint c1 * uint k1) mod p,
         (P * (2 * (uint c1 * uint c0)) + uint c1 * uint c1 * uint k2) mod p)"
    and "map_prod uint (map_prod uint uint) (rotate_and_save_fusion c i c1 k2 k1 c0)
      = (uint c1, (P * uint c0 + uint c1 * uint k1) mod p, uint c1 * uint k2 mod p)"
  unfolding mult_and_save_fusion_def mult_and_acc_fusion_def square_and_save_fusion_def rotate_and_save_fusion_def Let_def p_def P_def
  by (simp_all add: barrett_dmodadd [OF c] r fusion_mods) (simp_all add: algebra_simps)

end
