(* ===== verification/NttGrid.thy ===== *)
theory NttGrid
  imports NttModes
begin

text \<open>
  The transform of rings of dimension \<open>2^NTT_1D_LOG_THRESHOLD\<close> and more, \<open>src/src/NTT.cu\<close>: the limb is a
  matrix, stored by rows. A first kernel transforms the columns, four of them in the shared memory of every
  block, multiplies with powers of the root and stores the result transposed; a second kernel does the same
  with the columns of that matrix and applies the fusions. The 64-bit instance for Shoup's algorithm is
  modelled. Blocks and, between two barriers, threads run in any order.
\<close>

unbundle bit_operations_syntax

section \<open>Writing to memory\<close>

definition put_all :: "(nat \<times> 'a) list \<Rightarrow> 'a list \<Rightarrow> 'a list" where
  "put_all ws xs = fold (\<lambda>(p, v) xs. xs[p := v]) ws xs"

lemma put_all_simps [simp]:
  "put_all [] xs = xs" "put_all (ws @ ws') xs = put_all ws' (put_all ws xs)" "length (put_all ws xs) = length xs"
proof -
  show "put_all [] xs = xs" "put_all (ws @ ws') xs = put_all ws' (put_all ws xs)" by (simp_all add: put_all_def)
  show "length (put_all ws xs) = length xs" by (induction ws arbitrary: xs) (auto simp: put_all_def)
qed

text \<open>Writes that agree on a value for every position leave these values, in whatever order they are done.\<close>

lemma put_all_values:
  assumes "\<And>p v. (p, v) \<in> set ws \<Longrightarrow> p < length xs \<and> v = F p"
  shows "put_all ws xs ! j = (if j \<in> fst ` set ws then F j else xs ! j)"
  using assms
proof (induction ws arbitrary: xs)
  case (Cons w ws)
  obtain p v where w: "w = (p, v)" by fastforce
  have *: "put_all ws (xs[p := v]) ! j = (if j \<in> fst ` set ws then F j else xs[p := v] ! j)"
    using Cons.prems by (intro Cons.IH) auto
  have "put_all (w # ws) xs = put_all ws (xs[p := v])" by (simp add: put_all_def w)
  then show ?case using * Cons.prems [of p v] by (auto simp: w nth_list_update)
qed simp

lemma put_all_full:
  assumes "\<And>p v. (p, v) \<in> set ws \<Longrightarrow> p < length xs \<and> v = F p" and "{..<length xs} \<subseteq> fst ` set ws"
  shows "put_all ws xs = map F [0..<length xs]"
  using assms put_all_values [of ws xs F] by (intro nth_equalityI) auto

section \<open>The code\<close>

text \<open>The macro \<open>A(i)\<close>: the rows of shared memory.\<close>

definition A_row :: "nat \<Rightarrow> u64 list \<Rightarrow> nat \<Rightarrow> u64 list" where
  "A_row B buffer i = take (2 * B) (drop (2 * B * i) buffer)"

text \<open>The load: a thread takes two neighbours of four columns at a time. What the memory held before does
  not matter, as every cell is written.\<close>

definition load_writes :: "nat \<Rightarrow> nat \<Rightarrow> nat \<Rightarrow> u64 list \<Rightarrow> nat \<Rightarrow> (nat \<times> u64) list" where
  "load_writes B grid blk dat tid =
     (let j = 2 * tid; h = j AND 2; col_init = nat (int j AND NOT 2)
      in concat (map (\<lambda>i. let pos_transp = 4 * grid * (col_init + i) + 4 * blk + h; pos_res = col_init + i
           in [(2 * B * h + pos_res, dat ! pos_transp), (2 * B * (h + 1) + pos_res, dat ! (pos_transp + 1))]) [0..<4]))"

definition load_block :: "nat \<Rightarrow> nat \<Rightarrow> nat \<Rightarrow> u64 list \<Rightarrow> nat list \<Rightarrow> u64 list list" where
  "load_block B grid blk dat ts =
     map (A_row B (put_all (concat (map (load_writes B grid blk dat) ts)) (replicate (8 * B) 0))) [0..<4]"

text \<open>A phase on all rows of a block.\<close>

definition rows_phase :: "(nat \<Rightarrow> nat) \<Rightarrow> (nat \<Rightarrow> nat) \<Rightarrow> (nat \<Rightarrow> nat \<Rightarrow> u64 \<Rightarrow> u64 \<Rightarrow> u64 \<times> u64) \<Rightarrow> nat list \<Rightarrow> u64 list list \<Rightarrow> u64 list list" where
  "rows_phase f1 f2 g ts rows = fold (\<lambda>t rows. map (\<lambda>i. pair_step f1 f2 (g i) t (rows ! i)) [0..<length rows]) ts rows"

text \<open>The negacyclic scaling of the coefficients \<open>t\<close> and \<open>t + B\<close> of row \<open>i\<close>, from the tables of the root or of
  its inverse, with a factor \<open>aux3\<close> taken from the powers in natural order.\<close>

definition scale_pos :: "nat \<Rightarrow> nat \<Rightarrow> nat" where
  "scale_pos B t = unat (drop_bit (clz B) (brev32 (of_nat t AND NOT 1)))"

definition scale_aux :: "Constants \<Rightarrow> nat \<Rightarrow> u64 list \<Rightarrow> u64 list \<Rightarrow> nat \<Rightarrow> nat \<Rightarrow> u64 \<Rightarrow> nat \<Rightarrow> nat \<Rightarrow> u64" where
  "scale_aux c p psi psi_shoup B logn aux3 t i =
     ((\<lambda>aux. modmult_shoup c p aux (psi ! (2 ^ (logn - 1))) (psi_shoup ! (2 ^ (logn - 1)))) ^^ i)
       (modmult_shoup c p aux3 (psi ! scale_pos B t) (psi_shoup ! scale_pos B t))"

definition scale_pair :: "Constants \<Rightarrow> nat \<Rightarrow> u64 list \<Rightarrow> u64 list \<Rightarrow> u64 \<Rightarrow> u64 \<Rightarrow> u64 \<Rightarrow> u64 \<times> u64" where
  "scale_pair c p psi psi_shoup aux a b =
     (let aux2 = modmult_shoup c p aux (psi ! 1) (psi_shoup ! 1) in (modmult_barrett c p a aux, modmult_barrett c p b aux2))"

definition negacyclic_scale_rows :: "Constants \<Rightarrow> nat \<Rightarrow> u64 list \<Rightarrow> u64 list \<Rightarrow> (nat \<Rightarrow> u64) \<Rightarrow> nat \<Rightarrow> nat \<Rightarrow> nat list \<Rightarrow> u64 list list \<Rightarrow> u64 list list" where
  "negacyclic_scale_rows c p psi psi_shoup aux3 B logn ts rows =
     rows_phase (\<lambda>tid. tid) (\<lambda>tid. tid + B)
       (\<lambda>i tid a b. scale_pair c p psi psi_shoup (scale_aux c p psi psi_shoup B logn (aux3 tid) tid i) a b) ts rows"

definition forward_negacyclic_scale_rows :: "Constants \<Rightarrow> nat \<Rightarrow> PsiTables \<Rightarrow> nat \<Rightarrow> nat \<Rightarrow> nat \<Rightarrow> nat \<Rightarrow> nat list \<Rightarrow> u64 list list \<Rightarrow> u64 list list" where
  "forward_negacyclic_scale_rows c p t B grid blk logn ts rows =
     negacyclic_scale_rows c p (ps_psi t) (ps_psi_shoup t)
       (\<lambda>tid. ps_psi_no t ! (((tid AND 1) * (grid * 4) + 4 * blk) * 2 ^ (hc_logN c - logn))) B logn ts rows"

function rows_ntt_loop :: "Constants \<Rightarrow> nat \<Rightarrow> PsiTables \<Rightarrow> (int \<Rightarrow> nat list) \<Rightarrow> int \<Rightarrow> int \<Rightarrow> int \<Rightarrow> u64 list list \<Rightarrow> u64 list list" where
  "rows_ntt_loop c i t sched m maskPsi log_psi rows =
     (if m \<ge> 1
      then rows_ntt_loop c i t sched (drop_bit 1 m) (maskPsi OR drop_bit 1 maskPsi) (log_psi - 1)
             (rows_phase (\<lambda>t. nat (lo_index m (int t))) (\<lambda>t. nat (lo_index m (int t) + m))
                (\<lambda>_ tid a b. let psiid = nat (psi_index maskPsi log_psi (int tid))
                             in CT_butterfly c i (ps_psi t ! psiid) (ps_psi_shoup t ! psiid) a b) (sched m) rows)
      else rows)"
  by pat_completeness auto
termination
  by (relation "measure (\<lambda>(c, i, t, sched, m, maskPsi, log_psi, rows). nat m)") (auto simp: drop_bit_eq_div)

declare rows_ntt_loop.simps [simp del]

definition rows_stages :: "Constants \<Rightarrow> nat \<Rightarrow> PsiTables \<Rightarrow> nat \<Rightarrow> (int \<Rightarrow> nat list) \<Rightarrow> u64 list list \<Rightarrow> u64 list list" where
  "rows_stages c i t B sched rows =
     (let m = int B;
          rows = rows_phase (\<lambda>t. t) (\<lambda>t. t + B) (\<lambda>_ t a b. (dmodadd c i a b, dmodsub c i a b)) (sched m) rows
      in rows_ntt_loop c i t sched (drop_bit 1 m) (m OR drop_bit 1 m) (int (ffs B) - 2) rows)"

text \<open>The power of the root by which the element \<open>x\<close> of the row \<open>block_pos\<close> is multiplied: the low bits of its
  exponent index the powers in natural order, the high bits those in reversed order.\<close>

definition middle_twiddle :: "Constants \<Rightarrow> nat \<Rightarrow> u64 list \<Rightarrow> u64 list \<Rightarrow> u64 list \<Rightarrow> nat \<Rightarrow> nat \<Rightarrow> nat \<Rightarrow> nat \<Rightarrow> u64" where
  "middle_twiddle c p psi psi_shoup psi_no B N block_pos x =
     (let logBD = 32 - clz B; logN = ffs N - 1;
          mask_lo_exp = (of_nat (N div 2) OR (of_nat (N div 2 ^ logBD) - 1) :: 32 word);
          clzN = clz N + 2;
          br_j = drop_bit (32 - logBD) (brev32 (of_nat x));
          exp = of_nat block_pos * br_j;
          hi_exp_br = unat (brev32 (push_bit clzN exp) AND of_nat (B - 1));
          lo_exp = exp AND mask_lo_exp
      in modmult_shoup c p (psi_no ! unat (push_bit (hc_logN c - logN) (lo_exp * 2))) (psi ! hi_exp_br) (psi_shoup ! hi_exp_br))"

definition OFFSET_2T :: "nat \<Rightarrow> nat \<Rightarrow> nat \<Rightarrow> nat \<Rightarrow> nat" where
  "OFFSET_2T B blk i tid = B * 4 * blk + B * i + tid"

text \<open>The store: a thread writes the elements \<open>2t\<close> and \<open>2t + 1\<close> of every row.\<close>

definition store_block :: "nat \<Rightarrow> nat \<Rightarrow> nat list \<Rightarrow> (nat \<Rightarrow> nat \<Rightarrow> 'a) \<Rightarrow> (nat \<times> 'a) list" where
  "store_block B blk ts v = concat (map (\<lambda>tid. concat (map (\<lambda>i. map (\<lambda>k. (2 * OFFSET_2T B blk i tid + k, v i (2 * tid + k))) [0..<2]) [0..<4])) ts)"

text \<open>A block of the first kernel: what it writes to \<open>res\<close>.\<close>

definition NTT_first_block :: "Constants \<Rightarrow> nat \<Rightarrow> PsiTables \<Rightarrow> nat \<Rightarrow> nat \<Rightarrow> (int \<Rightarrow> nat list) \<Rightarrow> bool \<Rightarrow> nat \<Rightarrow> u64 list \<Rightarrow> nat \<Rightarrow> (nat \<times> u64) list" where
  "NTT_first_block c p t B grid sched resc r dat blk =
     (let N = 2 * 4 * B * grid; logN = ffs N - 1;
          rows = load_block B grid blk dat (sched (-1));
          rows = (if resc then map (map (\<lambda>a. SwitchModulus c a r p)) rows else rows);
          rows = forward_negacyclic_scale_rows c p t B grid blk logN (sched 0) rows;
          rows = rows_stages c p t B sched rows
      in store_block B blk (sched (-2)) (\<lambda>i x.
           modmult_barrett c p (rows ! i ! x) (middle_twiddle c p (ps_psi t) (ps_psi_shoup t) (ps_psi_no t) B N (4 * blk + i) x)))"

definition NTT_first :: "Constants \<Rightarrow> nat \<Rightarrow> PsiTables \<Rightarrow> nat \<Rightarrow> nat \<Rightarrow> nat list \<Rightarrow> (nat \<Rightarrow> int \<Rightarrow> nat list) \<Rightarrow> NTT_MODE \<Rightarrow> u64 list
    \<Rightarrow> int \<Rightarrow> u64 list \<Rightarrow> cpp_error + u64 list" where
  "NTT_first c p t B grid blocks sched mode dat primeid_rescale res =
     (let resc = (mode = NTT_RESCALE \<or> mode = NTT_MULTPT); N = 2 * 4 * B * grid
      in bindE (guardE Assert_failed (2 ^ (ffs N - 1) = N)) (\<lambda>_.
         bindE (guardE Assert_failed (resc \<longrightarrow> primeid_rescale \<ge> 0)) (\<lambda>_.
         Inr (put_all (concat (map (\<lambda>blk. NTT_first_block c p t B grid (sched blk) resc (nat primeid_rescale) dat blk) blocks)) res))))"

text \<open>The second kernel: the fusion of a row with the same row of \<open>res\<close>, which starts at \<open>off\<close>.\<close>

definition fused_row :: "Constants \<Rightarrow> Globals \<Rightarrow> nat \<Rightarrow> NTT_MODE \<Rightarrow> nat \<Rightarrow> nat \<Rightarrow> u64 list \<Rightarrow> u64 list \<Rightarrow> u64 list \<Rightarrow> u64 list \<Rightarrow> nat \<Rightarrow> u64 list
    \<Rightarrow> u64 list \<times> u64 list" where
  "fused_row c g p mode r s res pt res2 kskb off A =
     (let row = (\<lambda>xs. take (length A) (drop off xs))
      in (case mode of
            NTT_NONE \<Rightarrow> (A, row res2)
          | NTT_RESCALE \<Rightarrow> (rescale_fusion c g p r (row res) A, row res2)
          | NTT_MULTPT \<Rightarrow> (multpt_fusion c g p r (row res) pt s off A, row res2)
          | NTT_MODDOWN \<Rightarrow> (moddown_fusion c p (row res) A, row res2)
          | NTT_KSK_DOT \<Rightarrow> ksk_dot_fusion c p (row pt) (row kskb) A
          | NTT_KSK_DOT_ACC \<Rightarrow> ksk_dot_acc_fusion c p (row res) (row res2) (row pt) (row kskb) A))"

definition NTT_second_block :: "Constants \<Rightarrow> Globals \<Rightarrow> nat \<Rightarrow> PsiTables \<Rightarrow> nat \<Rightarrow> nat \<Rightarrow> (int \<Rightarrow> nat list) \<Rightarrow> NTT_MODE \<Rightarrow> nat \<Rightarrow> nat
    \<Rightarrow> u64 list \<Rightarrow> u64 list \<Rightarrow> u64 list \<Rightarrow> u64 list \<Rightarrow> u64 list \<Rightarrow> nat \<Rightarrow> (nat \<times> u64 \<times> u64) list" where
  "NTT_second_block c g p t B grid sched mode r s dat res pt res2 kskb blk =
     (let rows = rows_stages c p t B sched (load_block B grid blk dat (sched (-1)));
          out = map (\<lambda>i. fused_row c g p mode r s res pt res2 kskb (2 * OFFSET_2T B blk i 0) (rows ! i)) [0..<4]
      in store_block B blk (sched (-2)) (\<lambda>i x. (fst (out ! i) ! x, snd (out ! i) ! x)))"

definition NTT_second :: "Constants \<Rightarrow> Globals \<Rightarrow> nat \<Rightarrow> PsiTables \<Rightarrow> nat \<Rightarrow> nat \<Rightarrow> nat list \<Rightarrow> (nat \<Rightarrow> int \<Rightarrow> nat list) \<Rightarrow> NTT_MODE \<Rightarrow> u64 list
    \<Rightarrow> u64 list \<Rightarrow> u64 list \<Rightarrow> nat \<Rightarrow> int \<Rightarrow> u64 list \<Rightarrow> u64 list \<Rightarrow> cpp_error + u64 list \<times> u64 list" where
  "NTT_second c g p t B grid blocks sched mode dat res pt pt_elem primeid_rescale res2 kskb =
     (let N = 2 * 4 * B * grid
      in bindE (guardE Assert_failed (2 ^ (ffs N - 1) = N)) (\<lambda>_.
         bindE (if mode = NTT_MULTPT then logstride N pt_elem else Inr 0) (\<lambda>s.
         bindE (guardE Assert_failed (mode = NTT_RESCALE \<or> mode = NTT_MULTPT \<longrightarrow> primeid_rescale \<ge> 0)) (\<lambda>_.
         let ws = concat (map (\<lambda>blk. NTT_second_block c g p t B grid (sched blk) mode (nat primeid_rescale) s dat res pt res2 kskb blk) blocks)
         in Inr (put_all (map (\<lambda>(q, x). (q, fst x)) ws) res,
                 if mode = NTT_KSK_DOT \<or> mode = NTT_KSK_DOT_ACC then put_all (map (\<lambda>(q, x). (q, snd x)) ws) res2 else res2)))))"

section \<open>Loading\<close>

lemma clear_lowest: "push_bit k x AND NOT (push_bit k 1) = push_bit (Suc k) (drop_bit 1 x)" for x :: int
proof (rule bit_eqI)
  fix n
  show "bit (push_bit k x AND NOT (push_bit k 1)) n \<longleftrightarrow> bit (push_bit (Suc k) (drop_bit 1 x)) n"
    unfolding bit_push_bit_iff bit_and_iff bit_not_iff bit_drop_bit_eq bit_1_iff comp_def
    by (auto simp: Suc_diff_Suc Suc_le_eq)
qed

lemma nat_and_masks: "2 * t AND 2 = 2 * (t mod 2)" "nat (int (2 * t) AND NOT 2) = 4 * (t div 2)" for t :: nat
proof -
  have "2 * t AND 2 = push_bit 1 t AND push_bit 1 1" by (simp add: push_bit_eq_mult mult.commute [of t])
  also have "\<dots> = push_bit 1 (t AND 1)" by (simp only: push_bit_and)
  finally show "2 * t AND 2 = 2 * (t mod 2)" by (simp add: push_bit_eq_mult and_one_eq)
  have "int (2 * t) AND NOT 2 = push_bit 1 (int t) AND NOT (push_bit 1 1)" by (simp add: push_bit_eq_mult mult.commute [of "int t"])
  also have "\<dots> = push_bit (Suc 1) (drop_bit 1 (int t))" by (rule clear_lowest)
  finally show "nat (int (2 * t) AND NOT 2) = 4 * (t div 2)" by (simp add: push_bit_eq_mult drop_bit_eq_div nat_mult_distrib nat_div_distrib)
qed

lemma load_writes_set:
  "set (load_writes B grid blk dat tid) =
     {(2 * B * (2 * (tid mod 2) + h) + (4 * (tid div 2) + i), dat ! (4 * grid * (4 * (tid div 2) + i) + 4 * blk + (2 * (tid mod 2) + h))) | h i. h < 2 \<and> i < 4}"
proof -
  define a where "a h i = (2 * B * (2 * (tid mod 2) + h) + (4 * (tid div 2) + i),
      dat ! (4 * grid * (4 * (tid div 2) + i) + 4 * blk + (2 * (tid mod 2) + h)))" for h i
  have "set (load_writes B grid blk dat tid) = (\<Union>i\<in>{..<4}. {a 0 i, a 1 i})"
    unfolding load_writes_def nat_and_masks Let_def a_def by (simp add: lessThan_atLeast0 ac_simps)
  also have "\<dots> = {a h i | h i. h < 2 \<and> i < 4}" by (auto simp: less_2_cases_iff)
  finally show ?thesis by (simp only: a_def)
qed

lemma row_bound: "c < C \<Longrightarrow> r < n \<Longrightarrow> C * r + c < C * n" for c C r n :: nat
proof -
  assume "c < C" and r: "r < n"
  then have "C * r + c < C * Suc r" by simp
  also have "\<dots> \<le> C * n" using r by (intro mult_le_mono2) simp
  finally show ?thesis .
qed

lemma load_block_values:
  assumes ts: "all_threads (2 * B) ts" and i: "i < 4" and col: "col < 2 * (2 * B)"
  shows "length (load_block (2 * B) grid blk dat ts) = 4" and "length (load_block (2 * B) grid blk dat ts ! i) = 2 * (2 * B)"
    and "load_block (2 * B) grid blk dat ts ! i ! col = dat ! (4 * grid * col + 4 * blk + i)"
proof -
  let ?ws = "concat (map (load_writes (2 * B) grid blk dat) ts)" and ?C = "2 * (2 * B)"
  let ?F = "\<lambda>p. dat ! (4 * grid * (p mod ?C) + 4 * blk + p div ?C)"
  have w: "p < length (replicate (8 * (2 * B)) (0::u64)) \<and> v = ?F p" if pv: "(p, v) \<in> set ?ws" for p v
  proof -
    obtain tid h i where t: "tid \<in> set ts" "h < 2" "i < 4"
        and p: "p = ?C * (2 * (tid mod 2) + h) + (4 * (tid div 2) + i)"
        and v: "v = dat ! (4 * grid * (4 * (tid div 2) + i) + 4 * blk + (2 * (tid mod 2) + h))"
      using pv by (auto simp: load_writes_set)
    have "tid < B * 2" using ts t(1) by (auto simp: all_threads_def)
    then have "tid div 2 < B" by (rule less_mult_imp_div_less)
    then have c: "4 * (tid div 2) + i < ?C" using t(3) by linarith
    have h: "2 * (tid mod 2) + h < 4" using t(2) by linarith
    have "p mod ?C = 4 * (tid div 2) + i" "p div ?C = 2 * (tid mod 2) + h"
      unfolding p using c by simp_all
    then have "v = ?F p" by (simp only: v)
    moreover have "p < ?C * 4" unfolding p by (rule row_bound [OF c h])
    ultimately show ?thesis by simp
  qed
  have cover: "?C * r + c \<in> fst ` set ?ws" if "r < 4" "c < ?C" for r c
  proof -
    let ?tid = "2 * (c div 4) + r div 2"
    have "c < B * 4" using that(2) by simp
    then have "c div 4 < B" by (rule less_mult_imp_div_less)
    then have "?tid < 2 * B" using that(1) by linarith
    then have "?tid \<in> set ts" using ts by (simp add: all_threads_def)
    moreover have "?tid mod 2 = r div 2" "?tid div 2 = c div 4" using that(1) by auto
    then have "(?C * r + c, dat ! (4 * grid * c + 4 * blk + r)) \<in> set (load_writes (2 * B) grid blk dat ?tid)"
      unfolding load_writes_set by (intro CollectI exI [of _ "r mod 2"] exI [of _ "c mod 4"]) simp
    ultimately show ?thesis by force
  qed
  have full: "put_all ?ws (replicate (8 * (2 * B)) 0) = map ?F [0..<8 * (2 * B)]"
  proof -
    have "p \<in> fst ` set ?ws" if "p < 8 * (2 * B)" for p
    proof -
      have "?C * (p div ?C) + p mod ?C = p" by simp
      moreover have "p < 4 * ?C" using that by simp
      then have "p div ?C < 4" by (simp only: less_mult_imp_div_less)
      moreover have "p mod ?C < ?C" using that by simp
      ultimately show ?thesis using cover [of "p div ?C" "p mod ?C"] by simp
    qed
    then show ?thesis using put_all_full [of ?ws "replicate (8 * (2 * B)) 0" ?F, OF w] by auto
  qed
  have row: "load_block (2 * B) grid blk dat ts ! i = map ?F [?C * i..<?C * i + ?C]"
  proof -
    have "Suc i * ?C \<le> 4 * ?C" using i by (intro mult_right_mono) simp_all
    then have "?C * i + ?C \<le> 8 * (2 * B)" by simp
    moreover have "load_block (2 * B) grid blk dat ts ! i = A_row (2 * B) (put_all ?ws (replicate (8 * (2 * B)) 0)) i"
      using i by (simp add: load_block_def)
    ultimately show ?thesis unfolding full A_row_def by (simp add: drop_map take_map)
  qed
  show "length (load_block (2 * B) grid blk dat ts) = 4" by (simp add: load_block_def)
  show "length (load_block (2 * B) grid blk dat ts ! i) = ?C" by (simp add: row)
  show "load_block (2 * B) grid blk dat ts ! i ! col = dat ! (4 * grid * col + 4 * blk + i)"
    using col by (simp add: row)
qed

section \<open>The stages on the rows\<close>

lemma rows_phase_map: "rows_phase f1 f2 g ts rows = map (\<lambda>i. fold (pair_step f1 f2 (g i)) ts (rows ! i)) [0..<length rows]"
proof (induction ts arbitrary: rows)
  case (Cons t ts)
  let ?rows = "map (\<lambda>i. pair_step f1 f2 (g i) t (rows ! i)) [0..<length rows]"
  have "rows_phase f1 f2 g (t # ts) rows = rows_phase f1 f2 g ts ?rows" by (simp add: rows_phase_def)
  then show ?case unfolding Cons.IH by (simp cong: map_cong)
qed (simp add: rows_phase_def map_nth)

lemma rows_phase_uniform: "rows_phase f1 f2 (\<lambda>_. g) ts rows = map (fold (pair_step f1 f2 g) ts) rows"
proof -
  have "map (fold (pair_step f1 f2 g) ts) (map (\<lambda>i. rows ! i) [0..<length rows]) = map (\<lambda>i. fold (pair_step f1 f2 g) ts (rows ! i)) [0..<length rows]"
    by simp
  then show ?thesis unfolding rows_phase_map map_nth by simp
qed

lemma rows_ntt_loop_map: "rows_ntt_loop c i t sched m maskPsi log_psi rows = map (ntt_loop c i t sched m maskPsi log_psi) rows"
proof (induction c i t sched m maskPsi log_psi rows rule: rows_ntt_loop.induct)
  case (1 c i t sched m maskPsi log_psi rows)
  show ?case
  proof (cases "m \<ge> 1")
    case True
    have "rows_phase (\<lambda>t. nat (lo_index m (int t))) (\<lambda>t. nat (lo_index m (int t) + m))
        (\<lambda>_ tid a b. let psiid = nat (psi_index maskPsi log_psi (int tid)) in CT_butterfly c i (ps_psi t ! psiid) (ps_psi_shoup t ! psiid) a b)
        (sched m) rows = map (ntt_phase c i t m maskPsi log_psi (sched m)) rows"
      unfolding rows_phase_uniform by (simp add: ntt_phase_def)
    with 1 [OF True] True show ?thesis by (subst rows_ntt_loop.simps) (simp add: ntt_loop.simps [of _ _ _ _ m])
  next
    case False
    then show ?thesis by (subst rows_ntt_loop.simps) (simp add: ntt_loop.simps [of _ _ _ _ m] map_idI)
  qed
qed

definition ct_stages :: "Constants \<Rightarrow> nat \<Rightarrow> PsiTables \<Rightarrow> nat \<Rightarrow> (int \<Rightarrow> nat list) \<Rightarrow> u64 list \<Rightarrow> u64 list" where
  "ct_stages c i t B sched A =
     ntt_loop c i t sched (drop_bit 1 (int B)) (int B OR drop_bit 1 (int B)) (int (ffs B) - 2) (plain_phase c i B (sched (int B)) A)"

lemma rows_stages_map: "rows_stages c i t B sched rows = map (ct_stages c i t B sched) rows"
  unfolding rows_stages_def Let_def rows_ntt_loop_map rows_phase_uniform by (simp add: ct_stages_def plain_phase_def)

text \<open>A row becomes the values of its polynomial at the even powers of its root, in reversed order.\<close>

lemma ct_stages_values:
  assumes "psi_ok c i t" and "b < hc_logN c" and "sched_ok b sched" and "reduced c i (2 * 2 ^ b) A"
  shows "reduced c i (2 * 2 ^ b) (ct_stages c i t (2 ^ b) sched A)"
    and "q < 2 * 2 ^ b \<Longrightarrow> uint (ct_stages c i t (2 ^ b) sched A ! q)
      = (\<Sum>s<2 * 2 ^ b. uint (A ! s) * sub_root c t b ^ (2 * brev (Suc b) q * s)) mod iprime c i"
proof -
  have ts: "all_threads (2 ^ b) (sched (2 ^ b))" using assms(3) by (simp add: sched_ok_def)
  have e: "prime_entry c i" using assms(1) by (simp add: psi_ok_def)
  define A2 where "A2 = plain_phase c i (2 ^ b) (sched (2 ^ b)) A"
  have a: "uint (A ! j) = uint (A ! j) mod iprime c i" if "j < 2 * 2 ^ b" for j
    using reduced_coeffs [OF assms(4)] that by (simp add: coeffs_def)
  note s2 = plain_phase_correct [OF assms(1,2) ts assms(4) a A2_def]
  define A3 where "A3 = ntt_loop c i t sched (drop_bit 1 (2 ^ b)) (psi_mask b b OR drop_bit 1 (psi_mask b b)) (int b - 1) A2"
  note s3 = ntt_loop_correct [OF assms(1,2,3) le_refl conjunct1 [OF s2] conjunct2 [OF s2] A3_def]
  have A3: "ct_stages c i t (2 ^ b) sched A = A3"
    by (simp add: ct_stages_def ffs_power A2_def A3_def psi_mask_initial)
  show "reduced c i (2 * 2 ^ b) (ct_stages c i t (2 ^ b) sched A)" using s3 A3 by simp
  assume q: "q < 2 * 2 ^ b"
  then have "uint (A3 ! q) = peval (2 * 2 ^ b) (\<lambda>s. uint (A ! s)) ((tw c t q)\<^sup>2) mod iprime c i"
    using s3 unfolding stage_inv_def by (auto dest!: spec [of _ q])
  moreover have "tw c t q = sub_root c t b ^ brev (Suc b) q" by (rule tw_sub_root [OF assms(2)]) (use q in simp)
  ultimately show "uint (ct_stages c i t (2 ^ b) sched A ! q)
      = (\<Sum>s<2 * 2 ^ b. uint (A ! s) * sub_root c t b ^ (2 * brev (Suc b) q * s)) mod iprime c i"
    by (simp add: A3 peval_def mult.commute flip: power_mult)
qed

section \<open>Powers of the root\<close>

text \<open>The tables of a root \<open>v\<close>: powers in reversed order, and powers in natural order times \<open>a\<close>.\<close>

definition power_table :: "int \<Rightarrow> nat \<Rightarrow> int \<Rightarrow> int \<Rightarrow> u64 list \<Rightarrow> bool" where
  "power_table p n a v xs \<longleftrightarrow> (\<forall>k < n. uint (xs ! k) = a * v ^ k mod p)"

definition root_tables :: "Constants \<Rightarrow> nat \<Rightarrow> int \<Rightarrow> int \<Rightarrow> u64 list \<Rightarrow> u64 list \<Rightarrow> u64 list \<Rightarrow> bool" where
  "root_tables c i a v psi sh no \<longleftrightarrow> prime_entry c i \<and> hc_logN c \<le> 30
     \<and> psi_table (hc_primes c ! i) (hc_logN c) v psi sh \<and> power_table (iprime c i) (2 * 2 ^ hc_logN c) a v no"

lemma root_tables_psi:
  assumes "root_tables c i a v psi sh no" and "q < 2 ^ k" and "k \<le> hc_logN c"
  shows "uint (psi ! q) = v ^ (2 ^ (hc_logN c - k) * brev k q) mod iprime c i"
    and "unat (psi ! q) < dprime c i" and "sh ! q = shoup_precomp (psi ! q) (hc_primes c ! i)"
proof -
  have "(2::nat) ^ k \<le> 2 ^ hc_logN c" using assms(3) by (intro power_increasing) simp_all
  then have q: "q < 2 ^ hc_logN c" using assms(2) by linarith
  then have e: "uint (psi ! q) = v ^ brev (hc_logN c) q mod iprime c i"
    using assms(1) by (simp add: root_tables_def psi_table_def)
  then show "uint (psi ! q) = v ^ (2 ^ (hc_logN c - k) * brev k q) mod iprime c i" by (simp only: brev_widen [OF assms(2,3)])
  have "0 < iprime c i" using assms(1) iprime_bounds(1) [of c i] by (simp add: root_tables_def)
  then have "uint (psi ! q) < iprime c i" unfolding e by simp
  then show "unat (psi ! q) < dprime c i" by (simp only: uint_less_iff)
  show "sh ! q = shoup_precomp (psi ! q) (hc_primes c ! i)" using assms(1) q by (simp add: root_tables_def psi_table_def)
qed

text \<open>The root of a transform of \<open>2^n\<close> coefficients.\<close>

abbreviation ring_root :: "Constants \<Rightarrow> int \<Rightarrow> nat \<Rightarrow> int" where
  "ring_root c v n \<equiv> v ^ 2 ^ (hc_logN c - n)"

lemma ring_root_power: "k \<le> n \<Longrightarrow> n \<le> hc_logN c \<Longrightarrow> v ^ (2 ^ (hc_logN c - k) * m) = ring_root c v n ^ (2 ^ (n - k) * m)"
proof -
  assume "k \<le> n" "n \<le> hc_logN c"
  then have "(2::nat) ^ (hc_logN c - k) = 2 ^ (hc_logN c - n) * 2 ^ (n - k)" by (simp flip: power_add)
  then show ?thesis by (simp only: mult.assoc power_mult)
qed

lemma root_tables_ring:
  assumes "root_tables c i a v psi sh no" and "q < 2 ^ k" and "k \<le> n" and "n \<le> hc_logN c"
  shows "uint (psi ! q) = ring_root c v n ^ (2 ^ (n - k) * brev k q) mod iprime c i"
  using root_tables_psi(1) [OF assms(1,2)] ring_root_power [OF assms(3,4)] assms(3,4) by simp

lemma shoup_product:
  assumes "root_tables c i a v psi sh no" and "q < 2 ^ k" and "k \<le> n" and "n \<le> hc_logN c"
    and "uint x = y mod iprime c i"
  shows "uint (modmult_shoup c i x (psi ! q) (sh ! q)) = y * ring_root c v n ^ (2 ^ (n - k) * brev k q) mod iprime c i"
    and "unat (modmult_shoup c i x (psi ! q) (sh ! q)) < dprime c i"
proof -
  have e: "prime_entry c i" using assms(1) by (simp add: root_tables_def)
  have k: "k \<le> hc_logN c" using assms(3,4) by simp
  note psi = root_tables_psi(2,3) [OF assms(1,2) k]
  show "uint (modmult_shoup c i x (psi ! q) (sh ! q)) = y * ring_root c v n ^ (2 ^ (n - k) * brev k q) mod iprime c i"
    using uint_modmult_shoup [OF e psi, of x] root_tables_ring [OF assms(1-4)] assms(5) by (simp add: mod_mult_eq)
  show "unat (modmult_shoup c i x (psi ! q) (sh ! q)) < dprime c i" by (rule modmult_shoup_less [OF e psi])
qed

section \<open>The scaling\<close>

lemma scale_pos_brev:
  assumes "t < 2 ^ b" and "b < 31"
  shows "scale_pos (2 ^ b) t = brev (Suc b) (2 * (t div 2))"
proof -
  have w: "(of_nat t AND NOT 1 :: 32 word) = of_nat (2 * (t div 2))"
  proof (rule bit_word_eqI)
    fix n
    have "2 * (t div 2) = push_bit 1 (drop_bit 1 t)" by (simp add: push_bit_eq_mult drop_bit_eq_div mult.commute)
    then show "bit (of_nat t AND NOT 1 :: 32 word) n \<longleftrightarrow> bit (of_nat (2 * (t div 2)) :: 32 word) n"
      by (cases n) (auto simp: bit_simps bit_drop_bit_eq)
  qed
  have "2 * (t div 2) \<le> t" by simp
  then have "2 * (t div 2) < 2 ^ Suc b" using assms(1) by simp
  moreover have "clz (2 ^ b) = 32 - Suc b" using clz_power [of b] assms(2) by simp
  ultimately show ?thesis unfolding scale_pos_def w using brev32_brev [of "2 * (t div 2)" "Suc b"] assms(2) by simp
qed

lemma scale_aux_values:
  assumes t: "root_tables c p a v psi sh no" and b: "0 < b" "b < n" "n \<le> hc_logN c" and tid: "tid < 2 ^ b"
    and x: "uint aux3 = y mod iprime c p"
  shows "uint (scale_aux c p psi sh (2 ^ b) n aux3 tid i) = y * ring_root c v n ^ (2 ^ (n - Suc b) * (2 * (tid div 2)) + i) mod iprime c p"
    and "unat (scale_aux c p psi sh (2 ^ b) n aux3 tid i) < dprime c p"
proof -
  let ?w = "ring_root c v n" and ?u = "2 * (tid div 2)" and ?p = "iprime c p"
  have L: "hc_logN c \<le> 30" using t by (simp add: root_tables_def)
  have u: "?u < 2 ^ Suc b" using tid by (rule_tac le_less_trans [of _ tid]) simp_all
  have k: "Suc b \<le> n" "n - 1 < n" "n \<le> n" "(2::nat) ^ (n - 1) < 2 ^ n" using b by simp_all
  have h: "brev n (2 ^ (n - 1)) = 1"
  proof -
    have "brev (Suc (n - 1)) (1 * 2 ^ (n - 1) + 0) = 2 * brev (n - 1) 0 + 1" by (rule brev_high) simp_all
    moreover have "brev w 0 = 0" for w by (induction w) (simp_all add: brev.simps(2))
    ultimately show ?thesis using b by simp
  qed
  have pos: "scale_pos (2 ^ b) tid = brev (Suc b) ?u" using b L by (intro scale_pos_brev tid) simp
  have "uint (scale_aux c p psi sh (2 ^ b) n aux3 tid i) = y * ?w ^ (2 ^ (n - Suc b) * ?u + i) mod ?p
      \<and> unat (scale_aux c p psi sh (2 ^ b) n aux3 tid i) < dprime c p"
  proof (induction i)
    case 0
    show ?case using shoup_product [OF t brev_less k(1) b(3) x, of ?u] unfolding brev_brev [OF u]
      by (simp add: scale_aux_def pos)
  next
    case (Suc i)
    let ?x = "scale_aux c p psi sh (2 ^ b) n aux3 tid i"
    have e: "scale_aux c p psi sh (2 ^ b) n aux3 tid (Suc i) = modmult_shoup c p ?x (psi ! (2 ^ (n - 1))) (sh ! (2 ^ (n - 1)))"
      by (simp add: scale_aux_def)
    have "uint ?x = y * ?w ^ (2 ^ (n - Suc b) * ?u + i) mod ?p" using Suc.IH by blast
    from shoup_product [OF t k(4,3) b(3) this] show ?case unfolding e h by (simp add: mult.assoc mult.commute [of "?w ^ _" ?w])
  qed
  then show "uint (scale_aux c p psi sh (2 ^ b) n aux3 tid i) = y * ?w ^ (2 ^ (n - Suc b) * ?u + i) mod ?p"
    and "unat (scale_aux c p psi sh (2 ^ b) n aux3 tid i) < dprime c p" by blast+
qed

lemma scale_pair_values:
  assumes t: "root_tables c p a v psi sh no" and n: "0 < n" "n \<le> hc_logN c" and aux: "uint aux = y mod iprime c p" "unat aux < dprime c p"
    and ab: "unat x < dprime c p" "unat z < dprime c p"
  shows "uint (fst (scale_pair c p psi sh aux x z)) = uint x * y mod iprime c p"
    and "uint (snd (scale_pair c p psi sh aux x z)) = uint z * (y * ring_root c v n ^ 2 ^ (n - 1)) mod iprime c p"
    and "unat (fst (scale_pair c p psi sh aux x z)) < dprime c p" and "unat (snd (scale_pair c p psi sh aux x z)) < dprime c p"
proof -
  have e: "prime_entry c p" using t by (simp add: root_tables_def)
  have k: "1 < (2::nat) ^ 1" "1 \<le> n" "brev 1 1 = 1" using n by (simp_all add: brev.simps(2))
  note a2 = shoup_product [OF t k(1,2) n(2) aux(1), unfolded k(3)]
  show "uint (fst (scale_pair c p psi sh aux x z)) = uint x * y mod iprime c p" "unat (fst (scale_pair c p psi sh aux x z)) < dprime c p"
    unfolding scale_pair_def Let_def fst_conv using uint_modmult_barrett [OF e ab(1) aux(2)] modmult_barrett_less [OF e ab(1) aux(2)] aux(1)
    by (simp_all add: mod_mult_right_eq)
  show "uint (snd (scale_pair c p psi sh aux x z)) = uint z * (y * ring_root c v n ^ 2 ^ (n - 1)) mod iprime c p"
    "unat (snd (scale_pair c p psi sh aux x z)) < dprime c p"
    unfolding scale_pair_def Let_def snd_conv using uint_modmult_barrett [OF e ab(2) a2(2)] modmult_barrett_less [OF e ab(2) a2(2)] a2(1)
    by (simp_all add: mod_mult_right_eq)
qed

lemma scale_exponent:
  fixes tid blk i :: nat
  assumes "0 < b" and "b < n"
  shows "(tid mod 2) * 2 ^ (n - Suc b) + 4 * blk + (2 ^ (n - Suc b) * (2 * (tid div 2)) + i) = 2 ^ (n - Suc b) * tid + (4 * blk + i)"
    and "2 ^ (n - Suc b) * tid + (4 * blk + i) + 2 ^ (n - Suc 0) = 2 ^ (n - Suc b) * (tid + 2 ^ b) + (4 * blk + i)"
proof -
  have "tid = 2 * (tid div 2) + tid mod 2" by simp
  then have "2 ^ (n - Suc b) * tid = 2 ^ (n - Suc b) * (2 * (tid div 2) + tid mod 2)" by (rule arg_cong)
  then show "(tid mod 2) * 2 ^ (n - Suc b) + 4 * blk + (2 ^ (n - Suc b) * (2 * (tid div 2)) + i) = 2 ^ (n - Suc b) * tid + (4 * blk + i)"
    by (simp only: distrib_left ac_simps)
  have "(2::nat) ^ (n - Suc 0) = 2 ^ (n - Suc b) * 2 ^ b" using assms by (simp flip: power_add)
  then show "2 ^ (n - Suc b) * tid + (4 * blk + i) + 2 ^ (n - Suc 0) = 2 ^ (n - Suc b) * (tid + 2 ^ b) + (4 * blk + i)"
    by (simp add: distrib_left)
qed

text \<open>The rows of a block after the scaling: \<open>grid\<close> blocks of four columns of \<open>2 * 2^b\<close> coefficients.\<close>

definition rows_reduced :: "Constants \<Rightarrow> nat \<Rightarrow> nat \<Rightarrow> u64 list list \<Rightarrow> bool" where
  "rows_reduced c p m rows \<longleftrightarrow> length rows = 4 \<and> (\<forall>i < 4. reduced c p m (rows ! i))"

lemma negacyclic_rows_values:
  assumes t: "root_tables c p a v psi sh no" and b: "0 < b" "b < n" "n \<le> hc_logN c"
    and ts: "all_threads (2 ^ b) ts" and rows: "rows_reduced c p (2 * 2 ^ b) rows"
    and a3: "\<And>tid. tid < 2 ^ b \<Longrightarrow> uint (aux3 tid) = y * ring_root c v n ^ ((tid mod 2) * 2 ^ (n - Suc b) + 4 * blk) mod iprime c p"
  defines "rows' \<equiv> negacyclic_scale_rows c p psi sh aux3 (2 ^ b) n ts rows"
  shows "rows_reduced c p (2 * 2 ^ b) rows'"
    and "i < 4 \<Longrightarrow> j < 2 * 2 ^ b \<Longrightarrow>
      uint (rows' ! i ! j) = uint (rows ! i ! j) * (y * ring_root c v n ^ (2 ^ (n - Suc b) * j + (4 * blk + i))) mod iprime c p"
proof -
  let ?w = "ring_root c v n" and ?R = "2 ^ (n - Suc b) :: nat"
  let ?aux = "\<lambda>tid i. scale_aux c p psi sh (2 ^ b) n (aux3 tid) tid i"
  let ?g = "\<lambda>i tid. scale_pair c p psi sh (?aux tid i)"
  have aux: "uint (?aux tid i) = y * ?w ^ (?R * tid + (4 * blk + i)) mod iprime c p" "unat (?aux tid i) < dprime c p" if "tid < 2 ^ b" for tid i
    using scale_aux_values [OF t b that a3 [OF that]]
    by (simp_all add: scale_exponent(1) [OF b(1,2)] mult.assoc flip: power_add)
  have n0: "0 < n" using b by simp
  note pair = scale_pair_values [OF t n0 b(3) aux]
  have len: "length (rows ! i) = 2 * 2 ^ b" and less: "j < 2 * 2 ^ b \<Longrightarrow> unat (rows ! i ! j) < dprime c p" if "i < 4" for i j
    using rows that by (auto simp: rows_reduced_def reduced_def)
  have row: "rows' ! i = block_phase b (?g i) ts (rows ! i)" if "i < 4" for i
  proof -
    have "rows' ! i = fold (pair_step (\<lambda>tid. tid) (\<lambda>tid. tid + 2 ^ b) (?g i)) ts (rows ! i)"
      using rows that by (simp add: rows'_def negacyclic_scale_rows_def rows_phase_map rows_reduced_def Let_def)
    also have "\<dots> = block_phase b (?g i) ts (rows ! i)"
      unfolding block_phase_def using ts
      by (intro pair_fold_cong) (auto simp: all_threads_def block_lo_def block_hi_def)
    finally show ?thesis .
  qed
  have "length rows' = 4" using rows by (simp add: rows'_def negacyclic_scale_rows_def rows_phase_map rows_reduced_def)
  moreover have "reduced c p (2 * 2 ^ b) (rows' ! i)" if "i < 4" for i
    unfolding row [OF that] using rows that pair(3,4)
    by (intro block_phase_reduced [OF ts le_refl]) (auto simp: rows_reduced_def)
  ultimately show "rows_reduced c p (2 * 2 ^ b) rows'" by (simp add: rows_reduced_def)
  assume i: "i < 4" and j: "j < 2 * 2 ^ b"
  then consider (lo) s where "s < 2 ^ b" "j = block_lo b s" | (hi) s where "s < 2 ^ b" "j = block_hi b s"
    using block_cover [of j b b] by blast
  then show "uint (rows' ! i ! j) = uint (rows ! i ! j) * (y * ?w ^ (?R * j + (4 * blk + i))) mod iprime c p"
  proof cases
    case lo
    then have e: "block_lo b s = s" "block_hi b s = s + 2 ^ b" by (simp_all add: block_lo_def block_hi_def)
    show ?thesis unfolding row [OF i] lo(2) block_phase_values(1) [OF ts le_refl len [OF i] lo(1)]
      using pair(1) [OF lo(1) lo(1) less [OF i] less [OF i], of "block_lo b s" "block_hi b s" i] block_bounds [OF lo(1) le_refl] by (simp add: e)
  next
    case hi
    then have e: "block_lo b s = s" "block_hi b s = s + 2 ^ b" by (simp_all add: block_lo_def block_hi_def)
    show ?thesis unfolding row [OF i] hi(2) block_phase_values(2) [OF ts le_refl len [OF i] hi(1)]
      using pair(2) [OF hi(1) hi(1) less [OF i] less [OF i], of "block_lo b s" "block_hi b s" i] block_bounds [OF hi(1) le_refl]
      by (simp add: e scale_exponent(2) [OF b(1,2)] mult.assoc flip: power_add)
  qed
qed

text \<open>The entry of the powers in natural order that a thread starts from.\<close>

lemma natural_power:
  assumes t: "root_tables c p a v psi sh no" and b: "b < n" "n \<le> hc_logN c" and grid: "grid * 4 = 2 ^ (n - Suc b)" and blk: "blk < grid"
  shows "uint (no ! (((tid AND 1) * (grid * 4) + 4 * blk) * 2 ^ (hc_logN c - n)))
    = a * ring_root c v n ^ ((tid mod 2) * 2 ^ (n - Suc b) + 4 * blk) mod iprime c p"
proof -
  let ?R = "2 ^ (n - Suc b) :: nat"
  let ?k = "(tid mod 2) * ?R + 4 * blk"
  have "tid mod 2 \<le> 1" by simp
  then have "(tid mod 2) * ?R \<le> ?R" by (metis mult_le_mono1 mult_1)
  moreover have "4 * blk < ?R" using blk grid by linarith
  ultimately have "?k < 2 * ?R" by linarith
  moreover have "2 * ?R \<le> 2 ^ n"
  proof -
    have "2 * ?R = 2 ^ (n - b)" using b by (simp flip: power_Suc add: Suc_diff_Suc)
    also have "\<dots> \<le> 2 ^ n" by (intro power_increasing) simp_all
    finally show ?thesis .
  qed
  ultimately have "?k < 2 ^ n" by linarith
  then have "?k * 2 ^ (hc_logN c - n) < 2 ^ n * 2 ^ (hc_logN c - n)" by simp
  also have "\<dots> = 2 ^ hc_logN c" using b(2) by (simp flip: power_add)
  finally have "?k * 2 ^ (hc_logN c - n) < 2 * 2 ^ hc_logN c" by simp
  then have "uint (no ! (?k * 2 ^ (hc_logN c - n))) = a * v ^ (?k * 2 ^ (hc_logN c - n)) mod iprime c p"
    using t unfolding root_tables_def power_table_def by blast
  then show ?thesis by (simp add: grid and_one_eq mult.commute [of _ "2 ^ (hc_logN c - n)"] power_mult)
qed

lemma forward_rows_values:
  assumes t: "root_tables c p 1 v (ps_psi t) (ps_psi_shoup t) (ps_psi_no t)" and b: "0 < b" "b < n" "n \<le> hc_logN c"
    and grid: "grid * 4 = 2 ^ (n - Suc b)" and ts: "all_threads (2 ^ b) ts" and blk: "blk < grid" and rows: "rows_reduced c p (2 * 2 ^ b) rows"
  defines "rows' \<equiv> forward_negacyclic_scale_rows c p t (2 ^ b) grid blk n ts rows"
  shows "rows_reduced c p (2 * 2 ^ b) rows'"
    and "i < 4 \<Longrightarrow> j < 2 * 2 ^ b \<Longrightarrow>
      uint (rows' ! i ! j) = uint (rows ! i ! j) * ring_root c v n ^ (2 ^ (n - Suc b) * j + (4 * blk + i)) mod iprime c p"
  unfolding rows'_def forward_negacyclic_scale_rows_def
  using negacyclic_rows_values [OF t b ts rows natural_power [OF t b(2,3) grid blk]] by simp_all

section \<open>The factors between the kernels\<close>

lemma nat_bit_small: "x < 2 ^ n \<Longrightarrow> n \<le> k \<Longrightarrow> \<not> bit x k" for x :: nat
proof -
  assume x: "x < 2 ^ n" and "n \<le> k"
  then have "(2::nat) ^ n \<le> 2 ^ k" by simp
  then have "x < 2 ^ k" using x by linarith
  then show ?thesis by (simp add: bit_iff_odd)
qed

lemma exponent_high:
  assumes E: "E < 2 ^ n" and b: "b < n" "n \<le> 30"
  shows "unat (brev32 (push_bit (33 - n) (of_nat E)) AND of_nat (2 ^ b - 1)) = brev b (E div 2 ^ (n - Suc b) mod 2 ^ b)"
proof (rule bit_eqI)
  fix k
  have m: "(of_nat (2 ^ b - 1) :: 32 word) = mask b" by (simp add: mask_eq_exp_minus_1 of_nat_diff)
  have "bit (E div 2 ^ (n - Suc b) mod 2 ^ b) (b - Suc k) \<longleftrightarrow> bit E (n - Suc b + (b - Suc k))" if "k < b"
    using that by (simp add: bit_take_bit_iff bit_drop_bit_eq flip: drop_bit_eq_div take_bit_eq_mod)
  moreover have "n - Suc b + (b - Suc k) = n - 2 - k" if "k < b" using that b by simp
  ultimately have r: "bit (brev b (E div 2 ^ (n - Suc b) mod 2 ^ b)) k \<longleftrightarrow> k < b \<and> bit E (n - 2 - k)"
    by (auto simp: bit_brev)
  have "33 - n \<le> 31 - k \<and> 31 - k - (33 - n) = n - 2 - k" if "k < b" using that b by auto
  then have "bit (brev32 (push_bit (33 - n) (of_nat E)) AND mask b) k \<longleftrightarrow> k < b \<and> bit E (n - 2 - k)"
    using b by (auto simp: bit_and_iff bit_word_reverse_iff bit_push_bit_iff bit_mask_iff bit_simps)
  then show "bit (unat (brev32 (push_bit (33 - n) (of_nat E)) AND of_nat (2 ^ b - 1))) k \<longleftrightarrow> bit (brev b (E div 2 ^ (n - Suc b) mod 2 ^ b)) k"
    unfolding r m by (simp add: bit_unsigned_iff)
qed

lemma exponent_low:
  assumes E: "E < 2 ^ n" and b: "b < n" "n \<le> 30"
  shows "unat (of_nat E AND (of_nat (2 ^ n div 2) OR (of_nat (2 ^ n div 2 ^ Suc b) - 1)) :: 32 word)
    = E mod 2 ^ (n - Suc b) + 2 ^ (n - 1) * (E div 2 ^ (n - 1))"
proof -
  let ?m = "n - Suc b"
  have e: "(2::nat) ^ n div 2 = 2 ^ (n - 1)" "(2::nat) ^ n div 2 ^ Suc b = 2 ^ ?m"
    using b power_diff [of "2::nat" "Suc b" n] power_diff [of "2::nat" 1 n] by simp_all
  have w: "(of_nat (2 ^ (n - 1)) :: 32 word) = push_bit (n - 1) 1" "(of_nat (2 ^ ?m) - 1 :: 32 word) = mask ?m"
    by (simp_all add: mask_eq_exp_minus_1)
  have "take_bit ?m E AND push_bit (n - 1) (drop_bit (n - 1) E) = 0"
    by (rule bit_eqI) (use b in \<open>auto simp: bit_simps\<close>)
  then have s: "E mod 2 ^ ?m + 2 ^ (n - 1) * (E div 2 ^ (n - 1)) = take_bit ?m E OR push_bit (n - 1) (drop_bit (n - 1) E)"
    by (simp add: disjunctive_add_eq_or push_bit_eq_mult drop_bit_eq_div mult.commute flip: take_bit_eq_mod)
  have "unat (of_nat E AND (push_bit (n - 1) 1 OR mask ?m) :: 32 word) = take_bit ?m E OR push_bit (n - 1) (drop_bit (n - 1) E)"
  proof (rule bit_eqI)
    fix k
    show "bit (unat (of_nat E AND (push_bit (n - 1) 1 OR mask ?m) :: 32 word)) k
        \<longleftrightarrow> bit (take_bit ?m E OR push_bit (n - 1) (drop_bit (n - 1) E)) k"
    proof -
      consider "n \<le> k" | "k = n - 1" "k < 32" | "k < n - 1" "k < 32" using b by linarith
      then show ?thesis
        using nat_bit_small [OF E, of k] b
        by cases (auto simp: bit_unsigned_iff bit_simps bit_push_bit_iff bit_drop_bit_eq bit_1_iff)
    qed
  qed
  then show ?thesis unfolding e w s .
qed

lemma exponent_split:
  fixes E :: nat
  assumes "E < 2 ^ n" and "b < n"
  shows "E = (E mod 2 ^ (n - Suc b) + 2 ^ (n - 1) * (E div 2 ^ (n - 1))) + 2 ^ (n - Suc b) * (E div 2 ^ (n - Suc b) mod 2 ^ b)"
proof -
  let ?m = "n - Suc b"
  have "n - 1 = ?m + b" using assms(2) by simp
  then have "2 ^ (n - 1) * (E div 2 ^ (n - 1)) = 2 ^ ?m * (2 ^ b * (E div 2 ^ ?m div 2 ^ b))"
    by (simp only: power_add div_mult2_eq mult.assoc)
  then have "2 ^ (n - 1) * (E div 2 ^ (n - 1)) + 2 ^ ?m * (E div 2 ^ ?m mod 2 ^ b)
      = 2 ^ ?m * (2 ^ b * (E div 2 ^ ?m div 2 ^ b) + E div 2 ^ ?m mod 2 ^ b)"
    by (simp only: distrib_left)
  also have "\<dots> = 2 ^ ?m * (E div 2 ^ ?m)" by (simp only: mult_div_mod_eq)
  finally show ?thesis using mod_mult_div_eq [of E "2 ^ ?m"] by linarith
qed

lemma middle_twiddle_values:
  assumes t: "root_tables c p a v psi sh no" and b: "b < n" "n \<le> hc_logN c"
    and pos: "block_pos < 2 ^ (n - Suc b)" and x: "x < 2 * 2 ^ b"
  defines "y \<equiv> middle_twiddle c p psi sh no (2 ^ b) (2 ^ n) block_pos x"
  shows "uint y = a * ring_root c v n ^ (2 * (block_pos * brev (Suc b) x)) mod iprime c p" and "unat y < dprime c p"
proof -
  let ?w = "ring_root c v n" and ?E = "block_pos * brev (Suc b) x" and ?m = "n - Suc b"
  let ?hi = "?E div 2 ^ ?m mod 2 ^ b"
  define lo where "lo = ?E mod 2 ^ ?m + 2 ^ (n - 1) * (?E div 2 ^ (n - 1))"
  have L: "hc_logN c \<le> 30" using t by (simp add: root_tables_def)
  then have n: "n \<le> 30" "b < 32" using b by simp_all
  have E: "?E < 2 ^ n"
  proof -
    have "?E < 2 ^ ?m * 2 ^ Suc b" using pos brev_less [of "Suc b" x] by (intro mult_strict_mono') simp_all
    also have "\<dots> = 2 ^ n" using b(1) by (simp flip: power_add power_Suc)
    finally show ?thesis .
  qed
  have x': "x < 2 ^ Suc b" using x by simp
  have bits: "32 - clz (2 ^ b) = Suc b" "clz (2 ^ n) + 2 = 33 - n"
    using clz_power [of b] clz_power [of n] n b by simp_all
  have br: "drop_bit (32 - Suc b) (brev32 (of_nat x)) = of_nat (brev (Suc b) x)"
    using arg_cong [OF brev32_brev [OF x'], of "of_nat :: nat \<Rightarrow> 32 word"] n b by simp
  have split: "?E = lo + 2 ^ ?m * ?hi" unfolding lo_def by (rule exponent_split [OF E b(1)])
  then have lo: "lo \<le> ?E" by linarith
  have i: "lo * 2 * 2 ^ (hc_logN c - n) < 2 * 2 ^ hc_logN c"
  proof -
    have "lo * 2 ^ (hc_logN c - n) < 2 ^ n * 2 ^ (hc_logN c - n)" using lo E by simp
    also have "\<dots> = 2 ^ hc_logN c" using b(2) by (simp flip: power_add)
    finally show ?thesis by simp
  qed
  have idx: "unat (push_bit (hc_logN c - n) ((of_nat lo :: 32 word) * 2)) = lo * 2 * 2 ^ (hc_logN c - n)"
  proof -
    have "push_bit (hc_logN c - n) ((of_nat lo :: 32 word) * 2) = of_nat (lo * 2 * 2 ^ (hc_logN c - n))"
      by (simp add: push_bit_eq_mult)
    moreover have "(2::nat) * 2 ^ hc_logN c \<le> 2 * 2 ^ 30" using L by (intro mult_le_mono2 power_increasing) simp_all
    then have "lo * 2 * 2 ^ (hc_logN c - n) < 2 ^ 32" using i by simp
    ultimately show ?thesis by (simp only: unat_of_nat) (simp add: take_bit_nat_eq_self flip: take_bit_eq_mod)
  qed
  have lo_w: "of_nat ?E AND (of_nat (2 ^ n div 2) OR (of_nat (2 ^ n div 2 ^ Suc b) - 1)) = (of_nat lo :: 32 word)"
    using arg_cong [OF exponent_low [OF E b(1) n(1), folded lo_def], of "of_nat :: nat \<Rightarrow> 32 word"] by simp
  have y: "y = modmult_shoup c p (no ! (lo * 2 * 2 ^ (hc_logN c - n))) (psi ! brev b ?hi) (sh ! brev b ?hi)"
    unfolding y_def middle_twiddle_def Let_def bits ffs_power br idx [symmetric]
    by (simp only: of_nat_mult [symmetric] lo_w exponent_high [OF E b(1) n(1)] diff_Suc_1)
  have "uint (no ! (lo * 2 * 2 ^ (hc_logN c - n))) = a * v ^ (lo * 2 * 2 ^ (hc_logN c - n)) mod iprime c p"
    using t i unfolding root_tables_def power_table_def by blast
  then have no: "uint (no ! (lo * 2 * 2 ^ (hc_logN c - n))) = a * ?w ^ (2 * lo) mod iprime c p"
    by (simp add: mult.commute [of _ "2 ^ (hc_logN c - n)"] mult.commute [of lo] power_mult)
  have hi: "?hi < 2 ^ b" by simp
  have kn: "b \<le> n" using b by simp
  note s = shoup_product [OF t brev_less kn b(2) no, of "?hi", unfolded brev_brev [OF hi]]
  have "2 * lo + 2 ^ (n - b) * ?hi = 2 * ?E"
  proof -
    have "(2::nat) ^ (n - b) = 2 * 2 ^ ?m" using b(1) by (simp flip: power_Suc add: Suc_diff_Suc)
    then have "2 * lo + 2 ^ (n - b) * ?hi = 2 * (lo + 2 ^ ?m * ?hi)" by (simp only: distrib_left mult.assoc)
    then show ?thesis using split by simp
  qed
  then have "a * ?w ^ (2 * lo) * ?w ^ (2 ^ (n - b) * ?hi) = a * ?w ^ (2 * ?E)"
    by (simp only: mult.assoc power_add [symmetric])
  then show "uint y = a * ?w ^ (2 * ?E) mod iprime c p" "unat y < dprime c p" using s unfolding y by (simp_all only:)
qed

section \<open>Storing\<close>

lemma store_block_set:
  "set (store_block B blk ts v) = {(2 * B * (4 * blk + i) + (2 * tid + k), v i (2 * tid + k)) | tid i k. tid \<in> set ts \<and> i < 4 \<and> k < 2}"
proof -
  define a where "a tid i k = (2 * B * (4 * blk + i) + (2 * tid + k), v i (2 * tid + k))" for tid i k
  have "2 * OFFSET_2T B blk i tid + k = 2 * B * (4 * blk + i) + (2 * tid + k)" for i tid k
    by (simp add: OFFSET_2T_def algebra_simps)
  then have "store_block B blk ts v = concat (map (\<lambda>tid. concat (map (\<lambda>i. map (a tid i) [0..<2]) [0..<4])) ts)"
    unfolding store_block_def a_def by (simp only:)
  then have "set (store_block B blk ts v) = (\<Union>tid \<in> set ts. \<Union>i \<in> {0..<4}. \<Union>k \<in> {0..<2}. {a tid i k})"
    by (simp add: UNION_singleton_eq_range)
  also have "\<dots> = {a tid i k | tid i k. tid \<in> set ts \<and> i < 4 \<and> k < 2}"
    unfolding atLeast0LessThan by blast
  finally have "set (store_block B blk ts v) = {a tid i k | tid i k. tid \<in> set ts \<and> i < 4 \<and> k < 2}" .
  then show ?thesis by (simp only: a_def)
qed

lemma store_block_map: "map (\<lambda>(q, x). (q, f x)) (store_block B blk ts v) = store_block B blk ts (\<lambda>i x. f (v i x))"
  by (simp add: store_block_def map_concat comp_def)

text \<open>All blocks together write the whole array.\<close>

lemma store_grid:
  assumes blocks: "set blocks = {..<grid}" and ts: "\<And>blk. blk < grid \<Longrightarrow> all_threads B (ts blk)" and len: "length res = 2 * B * (4 * grid)"
  shows "put_all (concat (map (\<lambda>blk. store_block B blk (ts blk) (v blk)) blocks)) res
    = map (\<lambda>j. v (j div (2 * B) div 4) (j div (2 * B) mod 4) (j mod (2 * B))) [0..<2 * B * (4 * grid)]"
proof -
  let ?ws = "concat (map (\<lambda>blk. store_block B blk (ts blk) (v blk)) blocks)" and ?C = "2 * B"
  let ?F = "\<lambda>j. v (j div ?C div 4) (j div ?C mod 4) (j mod ?C)"
  have w: "p < length res \<and> x = ?F p" if px: "(p, x) \<in> set ?ws" for p x
  proof -
    obtain blk i tid k where t: "blk < grid" "tid \<in> set (ts blk)" "i < 4" "k < 2"
        and p: "p = ?C * (4 * blk + i) + (2 * tid + k)" and x: "x = v blk i (2 * tid + k)"
      using px blocks by (auto simp: store_block_set)
    have "tid < B" using ts [OF t(1)] t(2) by (auto simp: all_threads_def)
    then have c: "2 * tid + k < ?C" using t(4) by linarith
    have "p div ?C = 4 * blk + i" "p mod ?C = 2 * tid + k" using c by (simp_all add: p)
    then have "x = ?F p" using t(3) by (simp add: x)
    moreover have "4 * blk + i < 4 * grid" using t(1,3) by linarith
    then have "p < length res" unfolding p len by (rule row_bound [OF c])
    ultimately show ?thesis by blast
  qed
  have "j \<in> fst ` set ?ws" if j: "j < length res" for j
  proof -
    define r c where "r = j div ?C" and "c = j mod ?C"
    have pos: "0 < ?C" using j len by (cases B) simp_all
    have r: "r < 4 * grid" using j len by (simp add: r_def less_mult_imp_div_less mult.commute)
    have c: "c < ?C" using pos by (simp add: c_def)
    have "c div 2 < B" using c by (simp add: less_mult_imp_div_less)
    moreover have "r div 4 < grid" using r by (simp add: less_mult_imp_div_less)
    ultimately have "c div 2 \<in> set (ts (r div 4))" "r div 4 \<in> set blocks"
      using ts blocks by (auto simp: all_threads_def)
    moreover have "?C * (4 * (r div 4) + r mod 4) + (2 * (c div 2) + c mod 2) = j"
      by (simp only: mult_div_mod_eq) (simp add: r_def c_def)
    moreover have "r mod 4 < 4" "c mod 2 < 2" by simp_all
    ultimately have "(j, v (r div 4) (r mod 4) (2 * (c div 2) + c mod 2)) \<in> set (store_block B (r div 4) (ts (r div 4)) (v (r div 4)))"
      unfolding store_block_set by blast
    with \<open>r div 4 \<in> set blocks\<close> show ?thesis by (force intro: rev_image_eqI)
  qed
  then have "{..<length res} \<subseteq> fst ` set ?ws" by blast
  from put_all_full [of ?ws res ?F, OF w this] show ?thesis unfolding len .
qed

end
