(* ===== verification/NttGridCorrect.thy ===== *)
theory NttGridCorrect
  imports NttGrid
begin

text \<open>
  The two kernels of \<^theory_text>\<open>NttGrid\<close> compute the same transform as the kernel for a single block: the values
  of the polynomial at the odd powers of the root, in reversed order, and the same fusions.
\<close>

section \<open>The setting\<close>

text \<open>\<open>2^n\<close> coefficients as a matrix of \<open>2 * 2^b1\<close> rows and \<open>2 * 2^b2\<close> columns.\<close>

definition grid_setting :: "Constants \<Rightarrow> nat \<Rightarrow> PsiTables \<Rightarrow> nat \<Rightarrow> nat \<Rightarrow> bool" where
  "grid_setting c p t b1 b2 \<longleftrightarrow> psi_ok c p t \<and> root_tables c p 1 (uint (ps_root t)) (ps_psi t) (ps_psi_shoup t) (ps_psi_no t)
     \<and> 0 < b1 \<and> 0 < b2 \<and> b1 + b2 + 2 \<le> hc_logN c"

definition blocks_ok :: "nat \<Rightarrow> nat \<Rightarrow> nat list \<Rightarrow> (nat \<Rightarrow> int \<Rightarrow> nat list) \<Rightarrow> bool" where
  "blocks_ok b grid blocks sched \<longleftrightarrow> all_threads grid blocks \<and> (\<forall>blk < grid. sched_ok b (sched blk))"

lemma sum_mod_cong: "(\<And>s. s < n \<Longrightarrow> f s mod p = g s mod p) \<Longrightarrow> (\<Sum>s<n. f s) mod p = (\<Sum>s<n. g s) mod p" for p :: int
  by (metis (mono_tags, lifting) lessThan_iff mod_sum_eq sum.cong)

lemma grid_size: "0 < b \<Longrightarrow> 2 ^ (b - 1) * 4 = 2 * (2::nat) ^ b" "0 < b \<Longrightarrow> 4 * 2 ^ (b - 1) = 2 * (2::nat) ^ b"
  by (cases b; simp)+

lemma sub_root_ring: "b < n \<Longrightarrow> n \<le> hc_logN c \<Longrightarrow> sub_root c t b = ring_root c (uint (ps_root t)) n ^ 2 ^ (n - Suc b)"
  using ring_root_power [of "Suc b" n c "uint (ps_root t)" 1] by (simp add: sub_root_def)

section \<open>The first kernel\<close>

lemma column_values:
  assumes t: "psi_ok c p t" "root_tables c p 1 (uint (ps_root t)) (ps_psi t) (ps_psi_shoup t) (ps_psi_no t)"
    and b: "0 < b" "b < n" "n \<le> hc_logN c" and grid: "grid * 4 = 2 ^ (n - Suc b)" and sch: "sched_ok b sched" and blk: "blk < grid"
    and rows: "rows_reduced c p (2 * 2 ^ b) rows"
    and Y: "\<And>i j. i < 4 \<Longrightarrow> j < 2 * 2 ^ b \<Longrightarrow> uint (rows ! i ! j) = Y (2 ^ (n - Suc b) * j + (4 * blk + i)) mod iprime c p"
    and i: "i < 4" and q: "q < 2 * 2 ^ b"
  defines "rows' \<equiv> rows_stages c p t (2 ^ b) sched (forward_negacyclic_scale_rows c p t (2 ^ b) grid blk n (sched 0) rows)"
    and "R \<equiv> 2 ^ (n - Suc b)" and "w \<equiv> ring_root c (uint (ps_root t)) n"
  shows "unat (rows' ! i ! q) < dprime c p"
    and "uint (modmult_barrett c p (rows' ! i ! q) (middle_twiddle c p (ps_psi t) (ps_psi_shoup t) (ps_psi_no t) (2 ^ b) (2 ^ n) (4 * blk + i) q))
      = (\<Sum>s<2 * 2 ^ b. Y (R * s + (4 * blk + i)) * w ^ ((R * s + (4 * blk + i)) * (1 + 2 * brev (Suc b) q))) mod iprime c p"
proof -
  let ?rows = "forward_negacyclic_scale_rows c p t (2 ^ b) grid blk n (sched 0) rows" and ?r = "4 * blk + i" and ?br = "brev (Suc b) q"
  have ts: "all_threads (2 ^ b) (sched 0)" using sch by (simp add: sched_ok_def)
  have e: "prime_entry c p" using t(1) by (simp add: psi_ok_def)
  have bL: "b < hc_logN c" using b by simp
  note f = forward_rows_values [OF t(2) b grid ts blk rows]
  have red: "reduced c p (2 * 2 ^ b) (?rows ! i)" "length ?rows = 4" using f(1) i by (simp_all add: rows_reduced_def)
  have r': "rows' ! i = ct_stages c p t (2 ^ b) sched (?rows ! i)" using i red(2) by (simp add: rows'_def rows_stages_map)
  note st = ct_stages_values [OF t(1) bL sch red(1)]
  show less: "unat (rows' ! i ! q) < dprime c p" using st(1) q by (simp add: r' reduced_def)
  have pos: "?r < R" unfolding R_def using blk i grid by linarith
  note tw = middle_twiddle_values [OF t(2) b(2,3) pos [unfolded R_def] q]
  have "uint (rows' ! i ! q) = (\<Sum>s<2 * 2 ^ b. Y (R * s + ?r) * w ^ (R * s + ?r) * w ^ (R * (2 * ?br * s))) mod iprime c p"
    unfolding r' st(2) [OF q] sub_root_ring [OF b(2,3)]
  proof (rule sum_mod_cong)
    fix s :: nat
    assume s: "s < 2 * 2 ^ b"
    have "uint (?rows ! i ! s) = Y (R * s + ?r) * w ^ (R * s + ?r) mod iprime c p"
      using f(2) [OF i s] Y [OF i s] by (simp add: R_def w_def mod_mult_left_eq)
    then show "uint (?rows ! i ! s) * (ring_root c (uint (ps_root t)) n ^ 2 ^ (n - Suc b)) ^ (2 * ?br * s) mod iprime c p
        = Y (R * s + ?r) * w ^ (R * s + ?r) * w ^ (R * (2 * ?br * s)) mod iprime c p"
      by (simp add: R_def w_def mod_mult_left_eq mult.assoc flip: power_mult)
  qed
  then have "uint (modmult_barrett c p (rows' ! i ! q) (middle_twiddle c p (ps_psi t) (ps_psi_shoup t) (ps_psi_no t) (2 ^ b) (2 ^ n) ?r q))
      = (\<Sum>s<2 * 2 ^ b. Y (R * s + ?r) * w ^ (R * s + ?r) * w ^ (R * (2 * ?br * s))) * w ^ (2 * (?r * ?br)) mod iprime c p"
    using uint_modmult_barrett [OF e less tw(2)] tw(1) by (simp add: w_def mod_mult_eq)
  also have "\<dots> = (\<Sum>s<2 * 2 ^ b. Y (R * s + ?r) * w ^ ((R * s + ?r) * (1 + 2 * ?br))) mod iprime c p"
  proof -
    have "Y (R * s + ?r) * w ^ (R * s + ?r) * w ^ (R * (2 * ?br * s)) * w ^ (2 * (?r * ?br))
        = Y (R * s + ?r) * w ^ ((R * s + ?r) * (1 + 2 * ?br))" for s
    proof -
      have "(R * s + ?r) + R * (2 * ?br * s) + 2 * (?r * ?br) = (R * s + ?r) * (1 + 2 * ?br)" by (simp add: algebra_simps)
      then show ?thesis by (simp only: mult.assoc power_add [symmetric])
    qed
    then show ?thesis by (simp only: sum_distrib_right)
  qed
  finally show "uint (modmult_barrett c p (rows' ! i ! q) (middle_twiddle c p (ps_psi t) (ps_psi_shoup t) (ps_psi_no t) (2 ^ b) (2 ^ n) (4 * blk + i) q))
      = (\<Sum>s<2 * 2 ^ b. Y (R * s + ?r) * w ^ ((R * s + ?r) * (1 + 2 * brev (Suc b) q))) mod iprime c p" .
qed

lemma grid_length: "2 * 2 ^ b1 * (2 * 2 ^ b2) = (2::nat) ^ (b1 + b2 + 2)"
  by (simp add: power_add)

lemma grid_split:
  assumes "j < 2 ^ (b1 + b2 + 2)"
  shows "j div (2 * 2 ^ b1) < 2 * 2 ^ b2" and "j mod (2 * 2 ^ b1) < (2::nat) * 2 ^ b1"
proof -
  have "j < 2 * 2 ^ b2 * (2 * 2 ^ b1)" using assms unfolding grid_length [symmetric] by (simp only: mult.commute)
  then show "j div (2 * 2 ^ b1) < 2 * 2 ^ b2" by (rule less_mult_imp_div_less)
qed simp

text \<open>The matrix after the first kernel: its row \<open>r\<close> holds the transform of the column \<open>r\<close> of the limb.\<close>

definition column_transform :: "Constants \<Rightarrow> nat \<Rightarrow> PsiTables \<Rightarrow> nat \<Rightarrow> nat \<Rightarrow> (nat \<Rightarrow> int) \<Rightarrow> nat \<Rightarrow> nat \<Rightarrow> int" where
  "column_transform c p t b1 b2 Y r q =
     (\<Sum>s<2 * 2 ^ b1. Y (2 * 2 ^ b2 * s + r) * ring_root c (uint (ps_root t)) (b1 + b2 + 2) ^ ((2 * 2 ^ b2 * s + r) * (1 + 2 * brev (Suc b1) q))) mod iprime c p"

lemma NTT_first_values:
  assumes g: "grid_setting c p t b1 b2" and bl: "blocks_ok b1 (2 ^ (b2 - 1)) blocks sched"
    and dat: "coeffs c p (2 ^ (b1 + b2 + 2)) Y (if mode = NTT_RESCALE \<or> mode = NTT_MULTPT then map (\<lambda>a. SwitchModulus c a (nat pr) p) dat else dat)"
    and pr: "mode = NTT_RESCALE \<or> mode = NTT_MULTPT \<Longrightarrow> 0 \<le> pr" and len: "length res = 2 ^ (b1 + b2 + 2)"
  shows "\<exists>A. NTT_first c p t (2 ^ b1) (2 ^ (b2 - 1)) blocks sched mode dat pr res = Inr A \<and> length A = 2 ^ (b1 + b2 + 2)
    \<and> (\<forall>r < 2 * 2 ^ b2. \<forall>q < 2 * 2 ^ b1. uint (A ! (2 * 2 ^ b1 * r + q)) = column_transform c p t b1 b2 Y r q)"
proof -
  let ?n = "b1 + b2 + 2" and ?C = "2 * 2 ^ b1 :: nat" and ?grid = "2 ^ (b2 - 1) :: nat" and ?resc = "mode = NTT_RESCALE \<or> mode = NTT_MULTPT"
  have psi: "psi_ok c p t" and tab: "root_tables c p 1 (uint (ps_root t)) (ps_psi t) (ps_psi_shoup t) (ps_psi_no t)"
    and b: "0 < b1" "0 < b2" "?n \<le> hc_logN c" using g by (simp_all add: grid_setting_def)
  have e: "prime_entry c p" using psi by (simp add: psi_ok_def)
  have bn: "b1 < ?n" and R: "2 ^ (?n - Suc b1) = 2 * (2::nat) ^ b2" by simp_all
  have grid: "?grid * 4 = 2 ^ (?n - Suc b1)" "4 * ?grid = 2 * 2 ^ b2" using grid_size [OF b(2)] by (simp_all add: R)
  have N: "2 * 4 * 2 ^ b1 * ?grid = 2 ^ ?n" using grid(1) by (simp add: power_add)
  have blocks: "set blocks = {..<?grid}" and sch: "sched_ok b1 (sched blk)" if "blk < ?grid" for blk
    using bl that by (auto simp: blocks_ok_def all_threads_def)
  have blocks: "set blocks = {..<?grid}" using bl by (simp add: blocks_ok_def all_threads_def)
  have ts: "all_threads (2 ^ b1) (sched blk k)" if "blk < ?grid" for blk k using sch [OF that] by (simp add: sched_ok_def)
  obtain B where B: "(2::nat) ^ b1 = 2 * B" using b(1) by (cases b1) auto
  then have B0: "0 < B" by (cases B) simp_all
  define rows0 where "rows0 blk = (let rows = load_block (2 ^ b1) ?grid blk dat (sched blk (-1))
      in if ?resc then map (map (\<lambda>a. SwitchModulus c a (nat pr) p)) rows else rows)" for blk
  have rows0: "rows_reduced c p ?C (rows0 blk)"
      "i < 4 \<Longrightarrow> j < ?C \<Longrightarrow> uint (rows0 blk ! i ! j) = Y (2 ^ (?n - Suc b1) * j + (4 * blk + i)) mod iprime c p"
    if blk: "blk < ?grid" for blk i j
  proof -
    let ?S = "\<lambda>a. if ?resc then SwitchModulus c a (nat pr) p else a"
    let ?L = "load_block (2 ^ b1) ?grid blk dat (sched blk (-1))"
    have ts': "all_threads (2 * B) (sched blk (-1))" using ts [OF blk] by (simp add: B)
    have L: "length ?L = 4" "i < 4 \<Longrightarrow> length (?L ! i) = ?C"
        "i < 4 \<Longrightarrow> j < ?C \<Longrightarrow> ?L ! i ! j = dat ! (2 ^ (?n - Suc b1) * j + (4 * blk + i))" for i j
      using load_block_values(1) [OF ts', of 0 0] load_block_values(2) [OF ts', of i 0] load_block_values(3) [OF ts', of i j ?grid blk dat] B0 B
      unfolding grid(2) R by (simp_all add: add.assoc)
    have rows: "rows0 blk = (if ?resc then map (map (\<lambda>a. SwitchModulus c a (nat pr) p)) ?L else ?L)" by (simp add: rows0_def)
    then have len4: "length (rows0 blk) = 4" using L(1) by simp
    have v: "length (rows0 blk ! i) = ?C \<and> (j < ?C \<longrightarrow> rows0 blk ! i ! j = ?S (dat ! (2 ^ (?n - Suc b1) * j + (4 * blk + i))))"
      if "i < 4" for i j
      unfolding rows using L that by (cases ?resc) simp_all
    have val: "uint (rows0 blk ! i ! j) = Y (2 ^ (?n - Suc b1) * j + (4 * blk + i)) mod iprime c p" if "i < 4" "j < ?C" for i j
    proof -
      have "4 * blk + i < 2 ^ (?n - Suc b1)" using blk that(1) grid by linarith
      then have "2 ^ (?n - Suc b1) * j + (4 * blk + i) < 2 ^ (?n - Suc b1) * ?C" using that(2) by (rule row_bound)
      also have "\<dots> = 2 ^ ?n" unfolding R by (simp add: power_add)
      finally have k: "2 ^ (?n - Suc b1) * j + (4 * blk + i) < 2 ^ ?n" .
      let ?D = "if ?resc then map (\<lambda>a. SwitchModulus c a (nat pr) p) dat else dat" and ?k = "2 ^ (?n - Suc b1) * j + (4 * blk + i)"
      have D: "length ?D = 2 ^ ?n" "uint (?D ! ?k) = Y ?k mod iprime c p" using dat k by (simp_all only: coeffs_def)
      have "length ?D = length dat" by simp
      with D(1) k have "?k < length dat" by linarith
      then have "?D ! ?k = ?S (dat ! ?k)" by (cases ?resc) simp_all
      with D(2) have "uint (?S (dat ! ?k)) = Y ?k mod iprime c p" by (simp only:)
      with v [OF that(1), of j] that(2) show ?thesis by (simp only:)
    qed
    then show "i < 4 \<Longrightarrow> j < ?C \<Longrightarrow> uint (rows0 blk ! i ! j) = Y (2 ^ (?n - Suc b1) * j + (4 * blk + i)) mod iprime c p" .
    have "uint (rows0 blk ! i ! j) < iprime c p" if "i < 4" "j < ?C" for i j
      unfolding val [OF that] using iprime_bounds(1) [OF e] by simp
    then show "rows_reduced c p ?C (rows0 blk)"
      using len4 v unfolding rows_reduced_def reduced_def uint_less_iff by blast
  qed
  define V where "V blk i x = modmult_barrett c p
      (rows_stages c p t (2 ^ b1) (sched blk) (forward_negacyclic_scale_rows c p t (2 ^ b1) ?grid blk ?n (sched blk 0) (rows0 blk)) ! i ! x)
      (middle_twiddle c p (ps_psi t) (ps_psi_shoup t) (ps_psi_no t) (2 ^ b1) (2 ^ ?n) (4 * blk + i) x)" for blk i x
  have "NTT_first_block c p t (2 ^ b1) ?grid (sched blk) ?resc (nat pr) dat blk = store_block (2 ^ b1) blk (sched blk (-2)) (V blk)" for blk
    unfolding NTT_first_block_def Let_def N ffs_power V_def [abs_def] rows0_def by (simp only: diff_Suc_1)
  moreover have "length res = 2 * 2 ^ b1 * (4 * ?grid)" unfolding len grid(2) by (rule grid_length [symmetric])
  moreover note store_grid [where ts = "\<lambda>blk. sched blk (-2)" and v = V and res = res, OF blocks ts]
  ultimately have A: "put_all (concat (map (\<lambda>blk. NTT_first_block c p t (2 ^ b1) ?grid (sched blk) ?resc (nat pr) dat blk) blocks)) res
      = map (\<lambda>j. V (j div ?C div 4) (j div ?C mod 4) (j mod ?C)) [0..<2 ^ ?n]" (is "?A = _")
    by (simp only: grid(2) grid_length)
  have "uint (?A ! (?C * r + q)) = column_transform c p t b1 b2 Y r q" if r: "r < 2 * 2 ^ b2" and q: "q < ?C" for r q
  proof -
    have blk: "r div 4 < ?grid" "r mod 4 < 4" using r grid(2) by (simp_all add: less_mult_imp_div_less mult.commute)
    have "?C * r + q < 2 ^ ?n" using row_bound [OF q r] unfolding grid_length .
    moreover have "(?C * r + q) div ?C = r" "(?C * r + q) mod ?C = q" using q by simp_all
    ultimately have "?A ! (?C * r + q) = V (r div 4) (r mod 4) q" unfolding A by simp
    moreover have "4 * (r div 4) + r mod 4 = r" by simp
    ultimately show ?thesis
      using column_values(2) [OF psi tab b(1) bn b(3) grid(1) sch [OF blk(1)] blk(1) rows0 [OF blk(1)] blk(2) q]
      by (simp only: V_def column_transform_def R)
  qed
  moreover have "length ?A = 2 ^ ?n" by (simp add: len)
  moreover have "NTT_first c p t (2 ^ b1) ?grid blocks sched mode dat pr res = Inr ?A"
    unfolding NTT_first_def Let_def N ffs_power using pr by simp
  ultimately show ?thesis by blast
qed

section \<open>The second kernel\<close>

lemma sum_add_lessThan: "(\<Sum>j<m + k. f j) = (\<Sum>j<m. f j) + (\<Sum>r<k. f (m + r))" for f :: "nat \<Rightarrow> int"
  by (induction k) (simp_all add: add.assoc)

lemma sum_matrix: "(\<Sum>j<R * C. f j) = (\<Sum>r<R. \<Sum>s<C. f (R * s + r))" for f :: "nat \<Rightarrow> int"
proof -
  have "(\<Sum>j<R * C. f j) = (\<Sum>s<C. \<Sum>r<R. f (R * s + r))"
    by (induction C) (simp_all add: sum_add_lessThan add.commute [of R])
  then show ?thesis by (simp only: sum.swap [of _ "{..<C}"])
qed

lemma brev_concat: "q < 2 ^ a \<Longrightarrow> x < 2 ^ b \<Longrightarrow> brev (a + b) (q * 2 ^ b + x) = brev b x * 2 ^ a + brev a q"
proof (induction b arbitrary: x)
  case (Suc b)
  have m: "(q * 2 ^ Suc b + x) mod 2 = x mod 2" "(q * 2 ^ Suc b + x) div 2 = q * 2 ^ b + x div 2"
    using mod_mult_self3 [of "q * 2 ^ b" 2 x] div_mult_self3 [of 2 "q * 2 ^ b" x] by (simp_all add: ac_simps)
  have "brev (a + Suc b) (q * 2 ^ Suc b + x) = (x mod 2) * 2 ^ (a + b) + brev (a + b) (q * 2 ^ b + x div 2)"
    by (simp only: add_Suc_right brev.simps(2) m)
  also have "brev (a + b) (q * 2 ^ b + x div 2) = brev b (x div 2) * 2 ^ a + brev a q"
    using Suc.prems by (intro Suc.IH) simp_all
  also have "(x mod 2) * 2 ^ (a + b) + (brev b (x div 2) * 2 ^ a + brev a q) = brev (Suc b) x * 2 ^ a + brev a q"
    by (simp only: brev.simps(2) power_add distrib_right) (simp only: ac_simps)
  finally show ?case .
qed simp

lemma ring_root_order:
  assumes "grid_setting c p t b1 b2"
  shows "ring_root c (uint (ps_root t)) (b1 + b2 + 2) ^ (2 ^ (b1 + b2 + 2) * (2 * m)) mod iprime c p = 1 mod iprime c p"
proof -
  let ?w = "ring_root c (uint (ps_root t)) (b1 + b2 + 2)"
  have b: "b1 + b2 + 1 < hc_logN c" "psi_ok c p t" using assms by (simp_all add: grid_setting_def)
  have "?w ^ 2 ^ (b1 + b2 + 2) mod iprime c p = -1 mod iprime c p"
    using sub_root_minus_one [OF b(2,1)] by (simp add: sub_root_def)
  then have "(?w ^ 2 ^ (b1 + b2 + 2)) ^ (2 * m) mod iprime c p = (-1) ^ (2 * m) mod iprime c p" by (metis power_mod)
  then show ?thesis by (simp only: power_mult) simp
qed

lemma matrix_transform:
  assumes g: "grid_setting c p t b1 b2" and q: "q < 2 * 2 ^ b1" and x: "x < 2 * 2 ^ b2"
  shows "(\<Sum>r<2 * 2 ^ b2. column_transform c p t b1 b2 Y r q * sub_root c t b2 ^ (2 * brev (Suc b2) x * r)) mod iprime c p
    = odd_power_values (iprime c p) (2 * 2 ^ (b1 + b2 + 1)) (sub_root c t (b1 + b2 + 1)) Y (brev (b1 + b2 + 2) (2 * 2 ^ b2 * q + x))"
proof -
  let ?p = "iprime c p" and ?R = "2 * 2 ^ b2 :: nat" and ?C = "2 * 2 ^ b1 :: nat" and ?n = "b1 + b2 + 2"
  define w where "w = ring_root c (uint (ps_root t)) ?n"
  define u v where "u = brev (Suc b1) q" and "v = brev (Suc b2) x"
  have b: "b2 < ?n" "?n \<le> hc_logN c" "?n - Suc b2 = Suc b1" using g by (simp_all add: grid_setting_def)
  have sr: "sub_root c t b2 = w ^ ?C" using sub_root_ring [OF b(1,2), of t] by (simp add: w_def b(3))
  have br: "brev ?n (?R * q + x) = v * ?C + u"
  proof -
    have "q < 2 ^ Suc b1" "x < 2 ^ Suc b2" using q x by simp_all
    from brev_concat [OF this] show ?thesis by (simp add: u_def v_def ac_simps)
  qed
  have step: "Y (?R * s + r) * w ^ ((?R * s + r) * (1 + 2 * u)) * w ^ (?C * (2 * v * r)) mod ?p
      = Y (?R * s + r) * w ^ ((2 * (v * ?C + u) + 1) * (?R * s + r)) mod ?p" for r s
  proof -
    let ?a = "(?R * s + r) * (1 + 2 * u) + ?C * (2 * v * r)"
    have "2 ^ ?n = ?C * ?R" by (simp add: power_add)
    then have e: "(2 * (v * ?C + u) + 1) * (?R * s + r) = ?a + 2 ^ ?n * (2 * (v * s))"
      by (simp add: algebra_simps)
    have "Y (?R * s + r) * w ^ ((2 * (v * ?C + u) + 1) * (?R * s + r)) mod ?p
        = Y (?R * s + r) * w ^ ?a * (w ^ (2 ^ ?n * (2 * (v * s))) mod ?p) mod ?p"
      unfolding e power_add [of w ?a] by (simp only: mult.assoc [symmetric] mod_mult_right_eq)
    also have "\<dots> = Y (?R * s + r) * w ^ ?a mod ?p"
      unfolding w_def ring_root_order [OF g] by (simp only: mod_mult_right_eq mult_1_right)
    finally show ?thesis by (simp only: power_add [of w "(?R * s + r) * (1 + 2 * u)"] mult.assoc [of "Y _"])
  qed
  have "(\<Sum>r<?R. column_transform c p t b1 b2 Y r q * sub_root c t b2 ^ (2 * v * r)) mod ?p
      = (\<Sum>r<?R. (\<Sum>s<?C. Y (?R * s + r) * w ^ ((?R * s + r) * (1 + 2 * u))) * w ^ (?C * (2 * v * r))) mod ?p"
    unfolding column_transform_def u_def [symmetric] w_def [symmetric] sr power_mult [symmetric]
    by (intro sum_mod_cong) (simp only: mod_mult_left_eq)
  also have "\<dots> = (\<Sum>r<?R. \<Sum>s<?C. Y (?R * s + r) * w ^ ((2 * (v * ?C + u) + 1) * (?R * s + r))) mod ?p"
    by (intro sum_mod_cong) (simp only: sum_distrib_right, intro sum_mod_cong step)
  also have "\<dots> = (\<Sum>j<?R * ?C. Y j * w ^ ((2 * (v * ?C + u) + 1) * j)) mod ?p" by (simp only: sum_matrix)
  also have "?R * ?C = 2 * 2 ^ (b1 + b2 + 1)" by (simp add: power_add)
  also have "w = sub_root c t (b1 + b2 + 1)" by (simp add: w_def sub_root_def)
  finally show ?thesis unfolding odd_power_values_def br v_def [symmetric] .
qed

text \<open>A fusion works on every coefficient alone, so the rows give what the whole limb would.\<close>

definition fused_sizes :: "NTT_MODE \<Rightarrow> nat \<Rightarrow> u64 list \<Rightarrow> u64 list \<Rightarrow> u64 list \<Rightarrow> u64 list \<Rightarrow> bool" where
  "fused_sizes mode m res pt res2 kskb \<longleftrightarrow> length res = m \<and> (mode = NTT_KSK_DOT \<or> mode = NTT_KSK_DOT_ACC \<longrightarrow>
     length pt = m \<and> length kskb = m \<and> length res2 = m)"

lemma length_fused_row:
  assumes "fused_sizes mode m res pt res2 kskb" and "off + length A \<le> m"
  shows "length (fst (fused_row c g p mode r s res pt res2 kskb off A)) = length A"
    and "mode = NTT_KSK_DOT \<or> mode = NTT_KSK_DOT_ACC \<Longrightarrow> length (snd (fused_row c g p mode r s res pt res2 kskb off A)) = length A"
  using assms
  by (cases mode; simp add: fused_row_def fused_sizes_def rescale_fusion_def moddown_fusion_def multpt_fusion_def ksk_dot_fusion_def ksk_dot_acc_fusion_def Let_def)+

lemma fused_row_nth:
  assumes sz: "fused_sizes mode m res pt res2 kskb" and off: "off + length A \<le> m" and D: "length D = m" and x: "x < length A" "A ! x = D ! (off + x)"
  shows "fst (fused_row c g p mode r s res pt res2 kskb off A) ! x = fst (fused_row c g p mode r s res pt res2 kskb 0 D) ! (off + x)"
    and "mode = NTT_KSK_DOT \<or> mode = NTT_KSK_DOT_ACC \<Longrightarrow>
      snd (fused_row c g p mode r s res pt res2 kskb off A) ! x = snd (fused_row c g p mode r s res pt res2 kskb 0 D) ! (off + x)"
  using assms
  by (cases mode; simp add: fused_row_def fused_sizes_def rescale_fusion_def moddown_fusion_def multpt_fusion_def ksk_dot_fusion_def ksk_dot_acc_fusion_def Let_def)+

lemma NTT_second_values:
  assumes g: "grid_setting c p t b1 b2" and bl: "blocks_ok b2 (2 ^ (b1 - 1)) blocks sched"
    and A: "length A = 2 ^ (b1 + b2 + 2)"
      "\<And>r q. r < 2 * 2 ^ b2 \<Longrightarrow> q < 2 * 2 ^ b1 \<Longrightarrow> uint (A ! (2 * 2 ^ b1 * r + q)) = column_transform c p t b1 b2 Y r q"
    and sz: "fused_sizes mode (2 ^ (b1 + b2 + 2)) res pt res2 kskb"
    and pr: "mode = NTT_RESCALE \<or> mode = NTT_MULTPT \<Longrightarrow> 0 \<le> pr"
    and e: "mode = NTT_MULTPT \<Longrightarrow> logstride (2 ^ (b1 + b2 + 2)) pt_elem = Inr s" "mode \<noteq> NTT_MULTPT \<Longrightarrow> s = 0"
  shows "\<exists>D. evals c p t (b1 + b2 + 1) Y D
    \<and> NTT_second c gl p t (2 ^ b2) (2 ^ (b1 - 1)) blocks sched mode A res pt pt_elem pr res2 kskb
      = (let F = fused_row c gl p mode (nat pr) s res pt res2 kskb 0 D
         in Inr (fst F, if mode = NTT_KSK_DOT \<or> mode = NTT_KSK_DOT_ACC then snd F else res2))"
proof -
  let ?n = "b1 + b2 + 2" and ?R = "2 * 2 ^ b2 :: nat" and ?C = "2 * 2 ^ b1 :: nat" and ?grid = "2 ^ (b1 - 1) :: nat"
  have psi: "psi_ok c p t" and b: "0 < b1" "0 < b2" "?n \<le> hc_logN c" using g by (simp_all add: grid_setting_def)
  have pe: "prime_entry c p" using psi by (simp add: psi_ok_def)
  have bn: "b2 < ?n" "b2 < hc_logN c" using b by simp_all
  have grid: "?grid * 4 = ?C" "4 * ?grid = ?C" using grid_size [OF b(1)] by simp_all
  have N: "2 * 4 * 2 ^ b2 * ?grid = 2 ^ ?n" using grid(1) by (simp add: power_add)
  have RC: "?R * ?C = 2 ^ ?n" using grid_length [of b1 b2] by (simp only: mult.commute)
  have sch: "sched_ok b2 (sched blk)" if "blk < ?grid" for blk using bl that by (auto simp: blocks_ok_def)
  have blocks: "set blocks = {..<?grid}" using bl by (simp add: blocks_ok_def all_threads_def)
  have ts: "all_threads (2 ^ b2) (sched blk k)" if "blk < ?grid" for blk k using sch [OF that] by (simp add: sched_ok_def)
  obtain B where B: "(2::nat) ^ b2 = 2 * B" using b(2) by (cases b2) auto
  then have B0: "0 < B" by (cases B) simp_all
  define rows where "rows blk = rows_stages c p t (2 ^ b2) (sched blk) (load_block (2 ^ b2) ?grid blk A (sched blk (-1)))" for blk
  have row: "reduced c p ?R (rows blk ! i)" "x < ?R \<Longrightarrow> uint (rows blk ! i ! x)
        = odd_power_values (iprime c p) (2 * 2 ^ (b1 + b2 + 1)) (sub_root c t (b1 + b2 + 1)) Y (brev ?n (?R * (4 * blk + i) + x))"
    if blk: "blk < ?grid" and i: "i < 4" for blk i x
  proof -
    let ?L = "load_block (2 ^ b2) ?grid blk A (sched blk (-1))" and ?q = "4 * blk + i"
    have ts': "all_threads (2 * B) (sched blk (-1))" using ts [OF blk] by (simp add: B)
    have q: "?q < ?C" using blk i grid by linarith
    have L: "length ?L = 4" "length (?L ! i) = ?R" "j < ?R \<Longrightarrow> ?L ! i ! j = A ! (?C * j + ?q)" for j
      using load_block_values(1) [OF ts', of 0 0] load_block_values(2) [OF ts', of i 0] load_block_values(3) [OF ts', of i j ?grid blk A] i B0 B
      unfolding grid(2) by (simp_all add: add.assoc)
    have v: "uint (?L ! i ! j) = column_transform c p t b1 b2 Y j ?q" if "j < ?R" for j
      using L(3) [OF that] A(2) [OF that q] by simp
    have "uint (?L ! i ! j) < iprime c p" if "j < ?R" for j
      unfolding v [OF that] column_transform_def using iprime_bounds(1) [OF pe] by simp
    then have red: "reduced c p ?R (?L ! i)" using L(2) unfolding reduced_def uint_less_iff by blast
    have r: "rows blk ! i = ct_stages c p t (2 ^ b2) (sched blk) (?L ! i)" using L(1) i by (simp add: rows_def rows_stages_map)
    note st = ct_stages_values [OF psi bn(2) sch [OF blk] red]
    show "reduced c p ?R (rows blk ! i)" unfolding r by (rule st(1))
    assume x: "x < ?R"
    have "uint (rows blk ! i ! x) = (\<Sum>j<?R. column_transform c p t b1 b2 Y j ?q * sub_root c t b2 ^ (2 * brev (Suc b2) x * j)) mod iprime c p"
      unfolding r st(2) [OF x] by (rule sum_mod_cong) (simp only: v)
    then show "uint (rows blk ! i ! x)
        = odd_power_values (iprime c p) (2 * 2 ^ (b1 + b2 + 1)) (sub_root c t (b1 + b2 + 1)) Y (brev ?n (?R * ?q + x))"
      unfolding matrix_transform [OF g q x] .
  qed
  define D where "D = map (\<lambda>j. rows (j div ?R div 4) ! (j div ?R mod 4) ! (j mod ?R)) [0..<2 ^ ?n]"
  have pos: "j div ?R div 4 < ?grid \<and> j div ?R mod 4 < 4 \<and> j mod ?R < ?R \<and> ?R * (4 * (j div ?R div 4) + j div ?R mod 4) + j mod ?R = j"
    if "j < 2 ^ ?n" for j
  proof -
    have "j < ?C * ?R" using that RC by (simp only: mult.commute)
    then have "j div ?R < 4 * ?grid" unfolding grid(2) by (rule less_mult_imp_div_less)
    then have "j div ?R div 4 < ?grid" by (simp add: less_mult_imp_div_less)
    then show ?thesis by (simp only: mult_div_mod_eq) simp
  qed
  have D: "length D = 2 ^ ?n" "j < 2 ^ ?n \<Longrightarrow> D ! j = rows (j div ?R div 4) ! (j div ?R mod 4) ! (j mod ?R)" for j
    by (simp_all add: D_def)
  have "uint (D ! j) = odd_power_values (iprime c p) (2 * 2 ^ (b1 + b2 + 1)) (sub_root c t (b1 + b2 + 1)) Y (brev ?n j)
      \<and> unat (D ! j) < dprime c p" if j: "j < 2 ^ ?n" for j
    using row(1) [of "j div ?R div 4" "j div ?R mod 4"] row(2) [of "j div ?R div 4" "j div ?R mod 4" "j mod ?R"] pos [OF j] D(2) [OF j] by (simp add: reduced_def)
  then have ev: "evals c p t (b1 + b2 + 1) Y D" using D(1) by (simp add: evals_def reduced_def)
  let ?F = "\<lambda>off A. fused_row c gl p mode (nat pr) s res pt res2 kskb off A"
  define out where "out blk = map (\<lambda>i. ?F (2 * OFFSET_2T (2 ^ b2) blk i 0) (rows blk ! i)) [0..<4]" for blk
  have off: "2 * OFFSET_2T (2 ^ b2) blk i 0 = ?R * (4 * blk + i)" for blk i by (simp add: OFFSET_2T_def algebra_simps)
  have o: "fst (out blk ! i) ! x = fst (?F 0 D) ! (?R * (4 * blk + i) + x)"
      "mode = NTT_KSK_DOT \<or> mode = NTT_KSK_DOT_ACC \<Longrightarrow> snd (out blk ! i) ! x = snd (?F 0 D) ! (?R * (4 * blk + i) + x)"
    if blk: "blk < ?grid" "i < 4" "x < ?R" for blk i x
  proof -
    have len: "length (rows blk ! i) = ?R" using row(1) [OF blk(1,2)] by (simp add: reduced_def)
    have q: "4 * blk + i < ?C" using blk grid by linarith
    then have "Suc (4 * blk + i) * ?R \<le> ?C * ?R" by (intro mult_le_mono1) simp
    then have le: "?R * (4 * blk + i) + length (rows blk ! i) \<le> 2 ^ ?n" unfolding len RC [symmetric] by (simp add: algebra_simps)
    have "?R * (4 * blk + i) + x < 2 ^ ?n" using le blk(3) len by linarith
    moreover have "(?R * (4 * blk + i) + x) div ?R = 4 * blk + i" "(?R * (4 * blk + i) + x) mod ?R = x" using blk(3) by simp_all
    ultimately have "rows blk ! i ! x = D ! (?R * (4 * blk + i) + x)" using D(2) blk(2) by simp
    moreover have "x < length (rows blk ! i)" using blk(3) len by simp
    moreover have "out blk ! i = ?F (?R * (4 * blk + i)) (rows blk ! i)" using blk(2) by (simp add: out_def off)
    ultimately show "fst (out blk ! i) ! x = fst (?F 0 D) ! (?R * (4 * blk + i) + x)"
      "mode = NTT_KSK_DOT \<or> mode = NTT_KSK_DOT_ACC \<Longrightarrow> snd (out blk ! i) ! x = snd (?F 0 D) ! (?R * (4 * blk + i) + x)"
      using fused_row_nth [OF sz le D(1)] by simp_all
  qed
  let ?ws = "concat (map (\<lambda>blk. store_block (2 ^ b2) blk (sched blk (-2)) (\<lambda>i x. (fst (out blk ! i) ! x, snd (out blk ! i) ! x))) blocks)"
  have ws: "concat (map (\<lambda>blk. NTT_second_block c gl p t (2 ^ b2) ?grid (sched blk) mode (nat pr) s A res pt res2 kskb blk) blocks) = ?ws"
    unfolding NTT_second_block_def Let_def out_def rows_def ..
  have put: "put_all (map (\<lambda>(q, x). (q, f x)) ?ws) xs = map (\<lambda>j. f (fst (out (j div ?R div 4) ! (j div ?R mod 4)) ! (j mod ?R), snd (out (j div ?R div 4) ! (j div ?R mod 4)) ! (j mod ?R))) [0..<2 ^ ?n]"
    if "length xs = 2 ^ ?n" for f :: "u64 \<times> u64 \<Rightarrow> u64" and xs
  proof -
    have "length xs = 2 * 2 ^ b2 * (4 * ?grid)" unfolding that grid(2) by (rule RC [symmetric])
    from store_grid [where ts = "\<lambda>blk. sched blk (-2)" and v = "\<lambda>blk i x. f (fst (out blk ! i) ! x, snd (out blk ! i) ! x)" and res = xs,
        OF blocks ts this] show ?thesis
      unfolding map_concat map_map comp_def store_block_map grid(2) RC by blast
  qed
  have len: "length res = 2 ^ ?n" using sz by (simp add: fused_sizes_def)
  have lF: "length (fst (?F 0 D)) = 2 ^ ?n" using length_fused_row(1) [OF sz, of 0 D] D(1) by simp
  have "put_all (map (\<lambda>(q, x). (q, fst x)) ?ws) res = fst (?F 0 D)"
    unfolding put [OF len] by (rule nth_equalityI) (use pos o(1) lF in simp_all)
  moreover have "put_all (map (\<lambda>(q, x). (q, snd x)) ?ws) res2 = snd (?F 0 D)" if k: "mode = NTT_KSK_DOT \<or> mode = NTT_KSK_DOT_ACC"
  proof -
    have len2: "length res2 = 2 ^ ?n" using sz k by (simp add: fused_sizes_def)
    have "length (snd (?F 0 D)) = 2 ^ ?n" using length_fused_row(2) [OF sz _ k, of 0 D] D(1) by simp
    then show ?thesis unfolding put [OF len2] by (intro nth_equalityI) (use pos o(2) [OF _ _ _ k] in simp_all)
  qed
  ultimately have "NTT_second c gl p t (2 ^ b2) ?grid blocks sched mode A res pt pt_elem pr res2 kskb
      = Inr (fst (?F 0 D), if mode = NTT_KSK_DOT \<or> mode = NTT_KSK_DOT_ACC then snd (?F 0 D) else res2)"
    unfolding NTT_second_def Let_def N ffs_power using pr e ws by (cases "mode = NTT_MULTPT") simp_all
  then show ?thesis using ev unfolding Let_def by blast
qed

end
