(* ===== verification/NttGridProps.thy ===== *)
theory NttGridProps
  imports NttGridCorrect
begin

text \<open>
  The two kernels of \<^theory_text>\<open>NttGrid\<close>, one after the other, do on the tables of \<open>SetupConstants\<close> what
  the kernel for one block does, in every mode and with the same errors.
\<close>

section \<open>The tables of the code\<close>

lemma setup_psi_chain:
  assumes p: "prime_entry c i" and t: "setup_psi c i rt = Inr t" and k: "k < 2 * hc_N c"
  shows "uint (ps_psi_no t ! k) = 1 * uint (ps_root t) ^ k mod uint (hc_primes c ! i)"
proof -
  let ?p = "hc_primes c ! i"
  have p1: "1 < unat ?p" using prime_entry_bounds(1) [OF p] .
  then have one: "unat (1::u64) < unat ?p" by simp
  from t have ch: "power_chain rt ?p 1 (2 * hc_N c) = Some (ps_psi_no t)" and r: "ps_root t = rt"
    unfolding setup_psi_def Let_def bindE_eq_Inr assert_eq_Inr or_undefined_Inr by auto
  from power_chain_unat [OF p1 one, of rt "2 * hc_N c"] obtain ys where
    "power_chain rt ?p 1 (2 * hc_N c) = Some ys" "\<And>j. j < 2 * hc_N c \<Longrightarrow> unat (ys ! j) = unat (1::u64) * unat rt ^ j mod unat ?p" by blast
  then have "unat (ps_psi_no t ! k) = 1 * unat rt ^ k mod unat ?p" using ch k by simp
  from uint_mod_eq [OF this] show ?thesis by (simp add: r)
qed

lemma setup_grid_setting:
  assumes "prime_entry c p" and "hc_N c = 2 ^ hc_logN c" and "hc_logN c \<le> 30" and "setup_psi c p rt = Inr t"
    and "0 < b1" and "0 < b2" and "b1 + b2 + 2 \<le> hc_logN c"
  shows "grid_setting c p t b1 b2"
proof -
  have psi: "psi_ok c p t" using assms(3) by (intro setup_psi_psi_ok [OF assms(1,2) _ assms(4)]) simp
  have "power_table (iprime c p) (2 * 2 ^ hc_logN c) 1 (uint (ps_root t)) (ps_psi_no t)"
    unfolding power_table_def using setup_psi_chain [OF assms(1,4)] assms(2) by simp
  with psi assms show ?thesis by (simp add: grid_setting_def root_tables_def psi_ok_def)
qed

section \<open>Equal to the one-block kernel\<close>

lemma evals_unique: "evals c i t b X A \<Longrightarrow> evals c i t b X B \<Longrightarrow> A = B"
proof (rule nth_equalityI)
  assume e: "evals c i t b X A" "evals c i t b X B"
  then show "length A = length B" by (simp add: evals_def reduced_def)
  fix q
  assume "q < length A"
  then have "q < 2 * 2 ^ b" using e by (simp add: evals_def reduced_def)
  then have "uint (A ! q) = uint (B ! q)" using e unfolding evals_def by metis
  then show "A ! q = B ! q" by (simp only: word_uint_eq_iff)
qed

lemma psi_ok_core_evals:
  assumes ok: "psi_ok c i t" and b: "b < hc_logN c" "b < 31" and sch: "sched_ok b sched" and A: "coeffs c i (2 * 2 ^ b) X A"
  shows "evals c i t b X (ntt_core c i t (2 ^ b) sched A)"
proof -
  have "prime_entry c i" using ok by (simp add: psi_ok_def)
  then have red: "reduced c i (2 * 2 ^ b) A" using A by (rule coeffs_reduced)
  have "uint (ntt_core c i t (2 ^ b) sched A ! q) = odd_power_values (iprime c i) (2 * 2 ^ b) (sub_root c t b) X (brev (Suc b) q)"
    if "q < 2 * 2 ^ b" for q
    unfolding ntt_core_values [OF ok b sch red that]
    using A by (intro odd_power_values_cong) (simp add: coeffs_def)
  then show ?thesis using ntt_core_stage(2) [OF ok b sch red] by (simp add: evals_def)
qed

text \<open>The coefficients of a limb to transform: of the prime itself, or of the prime it divides by.\<close>

definition divides_mode :: "NTT_MODE \<Rightarrow> bool" where
  "divides_mode mode \<longleftrightarrow> mode = NTT_RESCALE \<or> mode = NTT_MULTPT"

definition NTT_2D :: "Constants \<Rightarrow> Globals \<Rightarrow> nat \<Rightarrow> PsiTables \<Rightarrow> nat \<Rightarrow> nat \<Rightarrow> nat \<Rightarrow> nat \<Rightarrow> nat list \<times> nat list
    \<Rightarrow> (nat \<Rightarrow> int \<Rightarrow> nat list) \<times> (nat \<Rightarrow> int \<Rightarrow> nat list) \<Rightarrow> NTT_MODE \<Rightarrow> u64 list \<Rightarrow> u64 list \<Rightarrow> u64 list \<Rightarrow> u64 list \<Rightarrow> nat \<Rightarrow> int
    \<Rightarrow> u64 list \<Rightarrow> u64 list \<Rightarrow> cpp_error + u64 list \<times> u64 list" where
  "NTT_2D c g p t B1 grid1 B2 grid2 blocks scheds mode dat aux res pt pt_elem pr res2 kskb =
     bindE (NTT_first c p t B1 grid1 (fst blocks) (fst scheds) mode dat pr aux) (\<lambda>aux.
     NTT_second c g p t B2 grid2 (snd blocks) (snd scheds) mode aux res pt pt_elem pr res2 kskb)"

lemma NTT_2D_1D:
  assumes g: "grid_setting c p t b1 b2"
    and bl: "blocks_ok b1 (2 ^ (b2 - 1)) (fst blocks) (fst scheds)" "blocks_ok b2 (2 ^ (b1 - 1)) (snd blocks) (snd scheds)"
    and sch: "sched_ok (b1 + b2 + 1) sched"
    and dat: "if divides_mode mode then prime_entry c (nat pr) \<and> reduced c (nat pr) (2 ^ (b1 + b2 + 2)) dat else reduced c p (2 ^ (b1 + b2 + 2)) dat"
    and len: "length aux = 2 ^ (b1 + b2 + 2)" and sz: "fused_sizes mode (2 ^ (b1 + b2 + 2)) res pt res2 kskb"
  shows "NTT_2D c gl p t (2 ^ b1) (2 ^ (b2 - 1)) (2 ^ b2) (2 ^ (b1 - 1)) blocks scheds mode dat aux res pt pt_elem pr res2 kskb
    = NTT_1D_mode c gl p t (2 ^ (b1 + b2 + 1)) sched mode dat res pt pt_elem pr res2 kskb"
proof -
  let ?n = "b1 + b2 + 2" and ?b = "b1 + b2 + 1" and ?resc = "mode = NTT_RESCALE \<or> mode = NTT_MULTPT"
  let ?dat = "if ?resc then map (\<lambda>a. SwitchModulus c a (nat pr) p) dat else dat"
  have psi: "psi_ok c p t" and b: "0 < b1" "0 < b2" "?b < hc_logN c" "?b < 31"
    using g by (simp_all add: grid_setting_def root_tables_def)
  have pe: "prime_entry c p" using psi by (simp add: psi_ok_def)
  have n: "2 ^ ?n = 2 * (2::nat) ^ ?b" by simp
  have grid: "2 * 4 * 2 ^ b1 * 2 ^ (b2 - 1) = (2::nat) ^ ?n"
    using grid_size(1) [OF b(2)] by (simp add: power_add)
  have "\<exists>X. coeffs c p (2 ^ ?n) X ?dat"
  proof (cases ?resc)
    case True
    then have "prime_entry c (nat pr)" "reduced c (nat pr) (2 ^ ?n) dat" using dat by (simp_all add: divides_mode_def)
    from SwitchModulus_coeffs [OF this(1) pe reduced_coeffs [OF this(2)]] True show ?thesis by auto
  next
    case False
    then have "reduced c p (2 ^ ?n) dat" using dat by (simp add: divides_mode_def)
    from reduced_coeffs [OF this] False show ?thesis by auto
  qed
  then obtain X where X: "coeffs c p (2 ^ ?n) X ?dat" by blast
  note core = psi_ok_core_evals [OF psi b(3,4) sch X [unfolded n]]
  show ?thesis
  proof (cases "?resc \<and> pr < 0")
    case True
    then show ?thesis
      unfolding NTT_2D_def NTT_first_def NTT_1D_mode_def Let_def grid ffs_power block_guard by auto
  next
    case False
    then have pr: "?resc \<Longrightarrow> 0 \<le> pr" by auto
    obtain A where A: "NTT_first c p t (2 ^ b1) (2 ^ (b2 - 1)) (fst blocks) (fst scheds) mode dat pr aux = Inr A" "length A = 2 ^ ?n"
        "\<And>r q. r < 2 * 2 ^ b2 \<Longrightarrow> q < 2 * 2 ^ b1 \<Longrightarrow> uint (A ! (2 * 2 ^ b1 * r + q)) = column_transform c p t b1 b2 X r q"
      using NTT_first_values [OF g bl(1) X pr len] by blast
    show ?thesis
    proof (cases "mode = NTT_MULTPT \<and> (\<exists>e. logstride (2 ^ ?n) pt_elem = Inl e)")
      case True
      then obtain e where e: "mode = NTT_MULTPT" "logstride (2 ^ ?n) pt_elem = Inl e" by blast
      have grid2: "2 * 4 * 2 ^ b2 * 2 ^ (b1 - 1) = (2::nat) ^ ?n" using grid_size(1) [OF b(1)] by (simp add: power_add)
      show ?thesis using e pr
        unfolding NTT_2D_def A(1) NTT_second_def NTT_1D_mode_def Let_def grid2 ffs_power block_guard bindE.simps by simp
    next
      case False
      define s where "s = (case logstride (2 ^ ?n) pt_elem of Inr s \<Rightarrow> if mode = NTT_MULTPT then s else 0 | Inl _ \<Rightarrow> 0)"
      have s: "mode = NTT_MULTPT \<Longrightarrow> logstride (2 ^ ?n) pt_elem = Inr s" "mode \<noteq> NTT_MULTPT \<Longrightarrow> s = 0"
        using False by (auto simp: s_def split: sum.splits)
      obtain D where D: "evals c p t ?b X D"
          "NTT_second c gl p t (2 ^ b2) (2 ^ (b1 - 1)) (snd blocks) (snd scheds) mode A res pt pt_elem pr res2 kskb
            = (let F = fused_row c gl p mode (nat pr) s res pt res2 kskb 0 D
               in Inr (fst F, if mode = NTT_KSK_DOT \<or> mode = NTT_KSK_DOT_ACC then snd F else res2))"
        using NTT_second_values [OF g bl(2) A(2,3) sz pr s] by blast
      define D' where "D' = ntt_core c p t (2 ^ ?b) sched ?dat"
      have "D = D'" unfolding D'_def by (rule evals_unique [OF D(1) core])
      moreover have "length D = 2 ^ ?n" using D(1) by (simp add: evals_def reduced_def)
      moreover have "NTT_1D_mode c gl p t (2 ^ ?b) sched mode dat res pt pt_elem pr res2 kskb
          = (case mode of
               NTT_NONE \<Rightarrow> Inr (D', res2)
             | NTT_RESCALE \<Rightarrow> Inr (rescale_fusion c gl p (nat pr) res D', res2)
             | NTT_MULTPT \<Rightarrow> Inr (multpt_fusion c gl p (nat pr) res pt s 0 D', res2)
             | NTT_MODDOWN \<Rightarrow> Inr (moddown_fusion c p res D', res2)
             | NTT_KSK_DOT \<Rightarrow> Inr (ksk_dot_fusion c p pt kskb D')
             | NTT_KSK_DOT_ACC \<Rightarrow> Inr (ksk_dot_acc_fusion c p res res2 pt kskb D'))"
        unfolding NTT_1D_mode_def Let_def block_guard D'_def using pr s by (cases mode) simp_all
      ultimately show ?thesis
        using sz unfolding NTT_2D_def A(1) bindE.simps D(2) by (cases mode) (simp_all add: fused_row_def fused_sizes_def Let_def)
    qed
  qed
qed

section \<open>The property\<close>

text \<open>The constants of a ring of dimension 16 modulo 97, with the root of unity 19 of order 32.\<close>

definition grid_constants :: Constants where
  "grid_constants = (case SetupConstants [\<lparr>pr_p = 97, pr_type = Some U64, pr_bits = 7\<rparr>]
     [[\<lparr>lr_id = 0, lr_type = U64, lr_digit = 0\<rparr>]] [] [] [[0]] 16 of Inr c \<Rightarrow> c | Inl e \<Rightarrow> undefined)"

lemma grid_constants_eval:
  "(let c = grid_constants
    in (hc_primes c ! 0, hc_bits c ! 0, hc_N_inv c ! 0, hc_logN c, hc_N c, hc_mu c ! 0 = mu_new 97 7,
        hc_one_shoup c ! 0 = shoup_precomp 1 97,
        hc_r64_shoup c ! 0 = shoup_precomp (ucast (push_bit 64 (1::u128) mod ucast (97::u64))) 97,
        hc_N_inv_shoup c ! 0 = shoup_precomp 91 97, hc_N_shoup c ! 0 = shoup_precomp (of_nat 16) 97)) = (97, 7, 91, 4, 16, True, True, True, True, True)"
  by code_simp

lemma grid_constants_values [simp]:
  shows "hc_primes grid_constants ! 0 = 97" and "hc_bits grid_constants ! 0 = 7"
    and "hc_N_inv grid_constants ! 0 = 91" and "hc_logN grid_constants = 4" and "hc_N grid_constants = 16"
  using grid_constants_eval by (simp_all only: Let_def prod.inject)

lemma grid_constants_companions:
  shows "hc_mu grid_constants ! 0 = mu_new 97 7" and "hc_one_shoup grid_constants ! 0 = shoup_precomp 1 97"
    and "hc_r64_shoup grid_constants ! 0 = shoup_precomp (ucast (push_bit 64 (1::u128) mod ucast (97::u64))) 97"
    and "hc_N_inv_shoup grid_constants ! 0 = shoup_precomp 91 97" and "hc_N_shoup grid_constants ! 0 = shoup_precomp (of_nat 16) 97"
  using grid_constants_eval by (simp_all only: Let_def prod.inject simp_thms)

lemma grid_constants_entry: "prime_entry grid_constants 0"
  unfolding prime_entry_def grid_constants_values grid_constants_companions Let_def
proof (intro conjI)
  show "prime_nat (unat (97::u64))" "prime_bits (unat (97::u64)) 7" using prime_97 by (simp_all add: prime_bits_def)
  show "unat (91::u64) < unat (97::u64)" "16 mod 2 ^ 64 * unat (91::u64) mod unat (97::u64) = 1" by simp_all
  show "(0::nat) < MAXP" "(7::nat) \<le> 62" by (simp_all add: MAXP_def)
qed (rule refl)+

text \<open>Mod-down reads no global table.\<close>

definition grid_globals :: Globals where
  "grid_globals = \<lparr>gl_q_inv = (\<lambda>_. 0), gl_ModDown_pre_scale = (\<lambda>_. 0), gl_ModDown_pre_scale_shoup = (\<lambda>_. 0), gl_ModDown_matrix = (\<lambda>_. 0),
     gl_ExactModDown_alphaP = (\<lambda>_. 0), gl_ExactModDown_pInv = (\<lambda>_. 0), gl_ExactModUp_alphaQ = (\<lambda>_. 0), gl_ExactModUp_qInv = (\<lambda>_. 0),
     gl_DecompAndModUp_pre_scale = (\<lambda>_. 0), gl_DecompAndModUp_pre_scale_shoup = (\<lambda>_. 0), gl_DecompAndModUp_matrix = (\<lambda>_. 0)\<rparr>"

lemma grid_setup_psi: "\<exists>t. setup_psi grid_constants 0 19 = Inr t"
proof -
  have m: "modinv 19 97 = Some 46" "modpow 19 32 97 = Some 1" "modpow 19 16 97 = Some 96" "modpow 46 32 97 = Some 1"
    "modpow 46 16 97 = Some 96" "modprod 19 46 97 = Some 1" by (code_simp, code_simp, code_simp, code_simp, code_simp, code_simp)
  define xs ys :: "u64 list" where "xs = [1, 19, 70, 69, 50, 77, 8, 55, 75, 67, 12, 34, 64, 52, 18, 51, 96, 78, 27, 28, 47, 20, 89, 42, 22, 30, 85, 63, 33, 45, 79, 46]"
    and "ys = [1, 46, 79, 45, 33, 63, 85, 30, 22, 42, 89, 20, 47, 28, 27, 78, 96, 51, 18, 52, 64, 34, 12, 67, 75, 55, 8, 77, 50, 69, 70, 19]"
  have ch: "power_chain 19 97 1 32 = Some xs" unfolding xs_def by code_simp
  have chi: "power_chain 46 97 1 32 = Some ys" unfolding ys_def by code_simp
  have sc: "those (map (\<lambda>x. modprod x 91 97) ys) = Some [91, 15, 11, 21, 93, 10, 72, 14, 62, 39, 48, 74, 9, 26, 32, 17, 6, 82, 86, 76, 4, 87, 25, 83, 35, 58, 49, 23, 88, 71, 65, 80]" unfolding ys_def by code_simp
  have o: "assert_orders 97 (map (\<lambda>j. xs ! nat (bit_reverse (int j) 4)) [0..<16])
      (map (\<lambda>j. ys ! nat (bit_reverse (int j) 4)) [0..<16]) 16 = Inr ()" unfolding xs_def ys_def by code_simp
  have ms: "those (map (\<lambda>x. modprod x 91 97) (middle_scale ys 16 ((4 + 1) div 2))) = Some [91, 91, 91, 91, 91, 11, 15, 21, 91, 93, 11, 72, 91, 72, 21, 39]"
    unfolding ys_def by code_simp
  have n: "of_nat (2 * 16) = (32::u64)" "of_nat 32 = (32::u64)" "of_nat 16 = (16::u64)" "2 * 16 = (32::nat)" "(97::u64) - 1 = 96" by simp_all
  have a: "assert_eq (Some x) x = Inr ()" for x by (simp add: assert_eq_def)
  show ?thesis
    unfolding setup_psi_def Let_def grid_constants_values n m ch chi or_undefined_simps bindE.simps a sc o ms by blast
qed

lemma grid_reduced: "reduced grid_constants 0 16 (map of_nat [0..<16])"
  unfolding reduced_code grid_constants_values by code_simp

text \<open>C3: on the tables \<open>SetupConstants\<close> stores, the two kernels for large rings, with the limb as a matrix of
  any shape and blocks and threads in any order, return in every mode what the kernel for one block returns,
  errors included. What \<open>aux\<close> held before does not matter.\<close>

theorem NTT_2D_equals_1D:
  assumes "prime_entry c p" and "hc_N c = 2 ^ hc_logN c" and "hc_logN c \<le> 30" and "setup_psi c p rt = Inr t"
    and "0 < b1" and "0 < b2" and "b1 + b2 + 2 \<le> hc_logN c"
    and "blocks_ok b1 (2 ^ (b2 - 1)) (fst blocks) (fst scheds)" and "blocks_ok b2 (2 ^ (b1 - 1)) (snd blocks) (snd scheds)"
    and "sched_ok (b1 + b2 + 1) sched"
    and "if divides_mode mode then prime_entry c (nat pr) \<and> reduced c (nat pr) (2 ^ (b1 + b2 + 2)) dat else reduced c p (2 ^ (b1 + b2 + 2)) dat"
    and "length aux = 2 ^ (b1 + b2 + 2)" and "fused_sizes mode (2 ^ (b1 + b2 + 2)) res pt res2 kskb"
  shows "NTT_2D c gl p t (2 ^ b1) (2 ^ (b2 - 1)) (2 ^ b2) (2 ^ (b1 - 1)) blocks scheds mode dat aux res pt pt_elem pr res2 kskb
    = NTT_1D_mode c gl p t (2 ^ (b1 + b2 + 1)) sched mode dat res pt pt_elem pr res2 kskb"
  by (rule NTT_2D_1D [OF setup_grid_setting [OF assms(1-7)] assms(8-13)])

theorem NTT_2D_equals_1D_witness:
  "\<exists>t. setup_psi grid_constants 0 19 = Inr t \<and>
     NTT_2D grid_constants grid_globals 0 t 2 1 2 1 ([0], [0]) (\<lambda>_ _. [1, 0], \<lambda>_ _. [0, 1]) NTT_MODDOWN (map of_nat [0..<16]) (replicate 16 0)
       (replicate 16 3) [] 0 (- 1) [] []
     = NTT_1D_mode grid_constants grid_globals 0 t 8 (\<lambda>_. [0, 3, 1, 7, 5, 2, 4, 6]) NTT_MODDOWN (map of_nat [0..<16]) (replicate 16 3) [] 0 (- 1) [] []"
proof -
  obtain t where t: "setup_psi grid_constants 0 19 = Inr t" using grid_setup_psi by blast
  have "{..<2::nat} = {0, 1}" "{..<8::nat} = {0, 3, 1, 7, 5, 2, 4, 6}" "{..<1::nat} = {0}" by auto
  then have s: "sched_ok 1 (\<lambda>_. [1, 0])" "sched_ok 1 (\<lambda>_. [0, 1])" "sched_ok (1 + 1 + 1) (\<lambda>_. [0, 3, 1, 7, 5, 2, 4, 6])" "all_threads 1 [0]"
    by (auto simp: sched_ok_def all_threads_def)
  from NTT_2D_equals_1D [OF grid_constants_entry _ _ t, where ?b1.0 = 1 and ?b2.0 = 1 and blocks = "([0], [0])"
      and scheds = "(\<lambda>_ _. [1, 0], \<lambda>_ _. [0, 1])" and sched = "\<lambda>_. [0, 3, 1, 7, 5, 2, 4, 6]" and mode = NTT_MODDOWN
      and dat = "map of_nat [0..<16]" and aux = "replicate 16 0" and res = "replicate 16 3" and pt = "[]" and pt_elem = 0 and pr = "- 1"
      and ?res2.0 = "[]" and kskb = "[]" and gl = grid_globals]
  show ?thesis using t s grid_reduced by (auto simp: blocks_ok_def divides_mode_def fused_sizes_def)
qed

end
