(* ===== verification/InttGrid.thy ===== *)
theory InttGrid
  imports NttGridProps
begin

text \<open>
  The inverse transform of large rings, \<open>src/src/INTT.cu\<close>: a first kernel undoes the transform of the rows,
  four of them in the shared memory of every block, and stores the result transposed; a second kernel
  multiplies with powers of the inverse root, undoes the transform of the columns, scales and stores
  transposed again. The 64-bit instance for Shoup's algorithm is modelled, in the mode \<open>INTT_NONE\<close> that
  the launches of a partition use.
\<close>

unbundle bit_operations_syntax

section \<open>The code\<close>

definition load_rows_block :: "nat \<Rightarrow> nat \<Rightarrow> u64 list \<Rightarrow> nat list \<Rightarrow> u64 list list" where
  "load_rows_block B blk dat ts =
     map (\<lambda>i. put_all (concat (map (\<lambda>tid. map (\<lambda>k. (2 * tid + k, dat ! (2 * OFFSET_2T B blk i tid + k))) [0..<2]) ts)) (replicate (2 * B) 0)) [0..<4]"

definition inverse_middle_twiddle :: "Constants \<Rightarrow> nat \<Rightarrow> PsiTables \<Rightarrow> nat \<Rightarrow> nat \<Rightarrow> nat \<Rightarrow> nat \<Rightarrow> u64" where
  "inverse_middle_twiddle c p t B N block_pos x =
     (let logN = ffs N - 1;
          y = middle_twiddle c p (ps_inv_psi t) (ps_inv_psi_shoup t) (ps_inv_psi_no t) B N block_pos x
      in if hc_logN c - logN \<noteq> 0 then modmult_barrett c p y (push_bit (hc_logN c - logN) 1) else y)"

definition inverse_middle_rows :: "Constants \<Rightarrow> nat \<Rightarrow> PsiTables \<Rightarrow> nat \<Rightarrow> nat \<Rightarrow> nat \<Rightarrow> nat list \<Rightarrow> u64 list list \<Rightarrow> u64 list list" where
  "inverse_middle_rows c p t B N blk ts rows =
     rows_phase (\<lambda>tid. 2 * tid) (\<lambda>tid. 2 * tid + 1)
       (\<lambda>i tid a b. (modmult_barrett c p a (inverse_middle_twiddle c p t B N (4 * blk + i) (2 * tid)),
                     modmult_barrett c p b (inverse_middle_twiddle c p t B N (4 * blk + i) (2 * tid + 1)))) ts rows"

function rows_intt_loop :: "Constants \<Rightarrow> nat \<Rightarrow> PsiTables \<Rightarrow> int \<Rightarrow> (int \<Rightarrow> nat list) \<Rightarrow> int \<Rightarrow> int \<Rightarrow> int \<Rightarrow> u64 list list \<Rightarrow> u64 list list \<times> int" where
  "rows_intt_loop c i t B sched m maskPsi log_psi rows =
     (if 0 < m \<and> m < B
      then rows_intt_loop c i t B sched (push_bit 1 m) (maskPsi AND push_bit 1 maskPsi) (log_psi + 1)
             (rows_phase (\<lambda>t. nat (inv_lo_index m (int t))) (\<lambda>t. nat (inv_lo_index m (int t) OR m))
                (\<lambda>_ tid a b. let psiid = nat (psi_index maskPsi log_psi (int tid))
                             in GS_butterfly c i (ps_inv_psi t ! psiid) (ps_inv_psi_shoup t ! psiid) a b) (sched m) rows)
      else (rows, m))"
  by pat_completeness auto
termination
  by (relation "measure (\<lambda>(c, i, t, B, sched, m, maskPsi, log_psi, rows). nat (B - m))") (auto simp: push_bit_eq_mult)

declare rows_intt_loop.simps [simp del]

definition rows_inverse_stages :: "Constants \<Rightarrow> nat \<Rightarrow> PsiTables \<Rightarrow> nat \<Rightarrow> (int \<Rightarrow> nat list) \<Rightarrow> u64 list list \<Rightarrow> u64 list list" where
  "rows_inverse_stages c i t B sched rows =
     (let (rows, m) = rows_intt_loop c i t (int B) sched 1 (int B - 1) 0 rows
      in rows_phase (\<lambda>t. t) (\<lambda>t. t + nat m) (\<lambda>_ t a b. (dmodadd c i a b, dmodsub c i a b)) (sched m) rows)"

text \<open>The powers in natural order of the inverse root carry the inverse of \<open>N\<close>; here it is taken out.\<close>

definition backward_negacyclic_scale_rows :: "Constants \<Rightarrow> nat \<Rightarrow> PsiTables \<Rightarrow> nat \<Rightarrow> nat \<Rightarrow> nat \<Rightarrow> nat \<Rightarrow> nat list \<Rightarrow> u64 list list \<Rightarrow> u64 list list" where
  "backward_negacyclic_scale_rows c p t B grid blk logn ts rows =
     negacyclic_scale_rows c p (ps_inv_psi t) (ps_inv_psi_shoup t)
       (\<lambda>tid. modmult_shoup c p (ps_inv_psi_no t ! (((tid AND 1) * (grid * 4) + 4 * blk) * 2 ^ (hc_logN c - logn)))
                (of_nat (hc_N c)) (hc_N_shoup c ! p)) B logn ts rows"

definition store_transposed :: "nat \<Rightarrow> nat \<Rightarrow> nat \<Rightarrow> nat list \<Rightarrow> u64 list list \<Rightarrow> (nat \<times> u64) list" where
  "store_transposed B grid blk ts rows =
     concat (map (\<lambda>tid. let j = 2 * tid; h = j AND 2; col_init = nat (int j AND NOT 2)
       in concat (map (\<lambda>i. let pos_trasp = 4 * grid * (col_init + i) + 4 * blk + h; pos_res = col_init + i
            in [(pos_trasp, rows ! h ! pos_res), (pos_trasp + 1, rows ! (h + 1) ! pos_res)]) [0..<4])) ts)"

definition INTT_block :: "Constants \<Rightarrow> nat \<Rightarrow> PsiTables \<Rightarrow> nat \<Rightarrow> nat \<Rightarrow> bool \<Rightarrow> (int \<Rightarrow> nat list) \<Rightarrow> u64 list \<Rightarrow> nat \<Rightarrow> (nat \<times> u64) list" where
  "INTT_block c p t B grid second sched dat blk =
     (let N = 2 * 4 * B * grid; logN = ffs N - 1;
          rows = load_rows_block B blk dat (sched (-1));
          rows = (if second then inverse_middle_rows c p t B N blk (sched (-3)) rows else rows);
          rows = rows_inverse_stages c p t B sched rows;
          rows = (if second then backward_negacyclic_scale_rows c p t B grid blk logN (sched 0) rows else rows)
      in store_transposed B grid blk (sched (-2)) rows)"

definition INTT_pass :: "Constants \<Rightarrow> nat \<Rightarrow> PsiTables \<Rightarrow> nat \<Rightarrow> nat \<Rightarrow> bool \<Rightarrow> nat list \<Rightarrow> (nat \<Rightarrow> int \<Rightarrow> nat list) \<Rightarrow> u64 list \<Rightarrow> u64 list
    \<Rightarrow> cpp_error + u64 list" where
  "INTT_pass c p t B grid second blocks sched dat res =
     (let N = 2 * 4 * B * grid
      in bindE (guardE Assert_failed (2 ^ (ffs N - 1) = N)) (\<lambda>_.
         Inr (put_all (concat (map (\<lambda>blk. INTT_block c p t B grid second (sched blk) dat blk) blocks)) res)))"

definition INTT_2D :: "Constants \<Rightarrow> nat \<Rightarrow> PsiTables \<Rightarrow> nat \<Rightarrow> nat \<Rightarrow> nat \<Rightarrow> nat \<Rightarrow> nat list \<times> nat list
    \<Rightarrow> (nat \<Rightarrow> int \<Rightarrow> nat list) \<times> (nat \<Rightarrow> int \<Rightarrow> nat list) \<Rightarrow> u64 list \<Rightarrow> u64 list \<Rightarrow> cpp_error + u64 list" where
  "INTT_2D c p t B1 grid1 B2 grid2 blocks scheds dat aux =
     bindE (INTT_pass c p t B1 grid1 False (fst blocks) (fst scheds) dat aux) (\<lambda>aux.
     INTT_pass c p t B2 grid2 True (snd blocks) (snd scheds) aux dat)"

section \<open>Loading\<close>

lemma load_rows_values:
  assumes ts: "all_threads B ts" and i: "i < 4"
  shows "length (load_rows_block B blk dat ts) = 4" and "length (load_rows_block B blk dat ts ! i) = 2 * B"
    and "x < 2 * B \<Longrightarrow> load_rows_block B blk dat ts ! i ! x = dat ! (2 * B * (4 * blk + i) + x)"
proof -
  let ?F = "\<lambda>x. dat ! (2 * B * (4 * blk + i) + x)"
  have o: "2 * OFFSET_2T B blk i tid + k = 2 * B * (4 * blk + i) + (2 * tid + k)" for tid k
    by (simp add: OFFSET_2T_def algebra_simps)
  define a where "a tid k = (2 * tid + k, dat ! (2 * OFFSET_2T B blk i tid + k))" for tid k
  define ws where "ws = concat (map (\<lambda>tid. map (a tid) [0..<2]) ts)"
  have "set ws = (\<Union>tid \<in> set ts. \<Union>k \<in> {0..<2}. {a tid k})" by (simp add: ws_def UNION_singleton_eq_range)
  then have ws: "x \<in> set ws \<longleftrightarrow> (\<exists>tid < B. \<exists>k < 2. x = a tid k)" for x
    using ts unfolding all_threads_def atLeast0LessThan by auto
  have w: "p < length (replicate (2 * B) (0::u64)) \<and> v = ?F p" if pv: "(p, v) \<in> set ws" for p v
  proof -
    obtain tid k where tk: "tid < B" "k < 2" "p = 2 * tid + k" "v = dat ! (2 * OFFSET_2T B blk i tid + k)"
      using pv unfolding ws a_def by (simp only: prod.inject) blast
    then have "p < 2 * B" by linarith
    then show ?thesis unfolding tk(4) o tk(3) [symmetric] by simp
  qed
  have "{..<length (replicate (2 * B) (0::u64))} \<subseteq> fst ` set ws"
  proof
    fix x
    assume "x \<in> {..<length (replicate (2 * B) (0::u64))}"
    then have "x div 2 < B" by (simp add: less_mult_imp_div_less)
    moreover have "x mod 2 < 2" by simp
    ultimately have "a (x div 2) (x mod 2) \<in> set ws" unfolding ws by blast
    then show "x \<in> fst ` set ws" by (rule rev_image_eqI) (simp add: a_def)
  qed
  from put_all_full [OF w this] have "load_rows_block B blk dat ts ! i = map ?F [0..<2 * B]"
    using i by (simp add: load_rows_block_def ws_def a_def [abs_def])
  then show "length (load_rows_block B blk dat ts ! i) = 2 * B"
    and "x < 2 * B \<Longrightarrow> load_rows_block B blk dat ts ! i ! x = dat ! (2 * B * (4 * blk + i) + x)" by simp_all
  show "length (load_rows_block B blk dat ts) = 4" by (simp add: load_rows_block_def)
qed

section \<open>The stages\<close>

lemma intt_loop_snd:
  "snd (intt_loop c i t B sched m maskPsi log_psi A) = snd (intt_loop c i t B sched m maskPsi log_psi A')"
proof (induction c i t B sched m maskPsi log_psi A arbitrary: A' rule: intt_loop.induct)
  case (1 c i t B sched m maskPsi log_psi A)
  show ?case
  proof (cases "0 < m \<and> m < B")
    case True
    from 1 [OF this, of "intt_phase c i t m maskPsi log_psi (sched m) A'"] True show ?thesis
      by (subst (1 2) intt_loop.simps) (simp only: if_True simp_thms)
  next
    case False
    then show ?thesis by (subst (1 2) intt_loop.simps) (simp only: if_False snd_conv)
  qed
qed

lemma rows_intt_loop_map:
  "rows_intt_loop c i t B sched m maskPsi log_psi rows
    = (map (\<lambda>A. fst (intt_loop c i t B sched m maskPsi log_psi A)) rows, snd (intt_loop c i t B sched m maskPsi log_psi []))"
proof (induction c i t B sched m maskPsi log_psi rows rule: rows_intt_loop.induct)
  case (1 c i t B sched m maskPsi log_psi rows)
  show ?case
  proof (cases "0 < m \<and> m < B")
    case True
    have "rows_phase (\<lambda>t. nat (inv_lo_index m (int t))) (\<lambda>t. nat (inv_lo_index m (int t) OR m))
        (\<lambda>_ tid a b. let psiid = nat (psi_index maskPsi log_psi (int tid)) in GS_butterfly c i (ps_inv_psi t ! psiid) (ps_inv_psi_shoup t ! psiid) a b)
        (sched m) rows = map (intt_phase c i t m maskPsi log_psi (sched m)) rows"
      unfolding rows_phase_uniform by (simp add: intt_phase_def)
    moreover have "intt_loop c i t B sched m maskPsi log_psi A
        = intt_loop c i t B sched (push_bit 1 m) (maskPsi AND push_bit 1 maskPsi) (log_psi + 1) (intt_phase c i t m maskPsi log_psi (sched m) A)" for A
      using True by (subst intt_loop.simps) simp
    moreover have "snd (intt_loop c i t B sched (push_bit 1 m) (maskPsi AND push_bit 1 maskPsi) (log_psi + 1) (intt_phase c i t m maskPsi log_psi (sched m) []))
        = snd (intt_loop c i t B sched (push_bit 1 m) (maskPsi AND push_bit 1 maskPsi) (log_psi + 1) [])" by (rule intt_loop_snd)
    ultimately show ?thesis using 1 [OF True] True by (subst rows_intt_loop.simps) simp
  next
    case False
    then have "rows_intt_loop c i t B sched m maskPsi log_psi rows = (rows, m)"
      by (subst rows_intt_loop.simps) (simp only: if_False)
    moreover have "intt_loop c i t B sched m maskPsi log_psi A = (A, m)" for A
      using False by (subst intt_loop.simps) (simp only: if_False)
    ultimately show ?thesis by simp
  qed
qed

definition gs_stages :: "Constants \<Rightarrow> nat \<Rightarrow> PsiTables \<Rightarrow> nat \<Rightarrow> (int \<Rightarrow> nat list) \<Rightarrow> u64 list \<Rightarrow> u64 list" where
  "gs_stages c i t B sched A = (let m = snd (intt_loop c i t (int B) sched 1 (int B - 1) 0 [])
     in plain_phase c i (nat m) (sched m) (fst (intt_loop c i t (int B) sched 1 (int B - 1) 0 A)))"

lemma rows_inverse_stages_map: "rows_inverse_stages c i t B sched rows = map (gs_stages c i t B sched) rows"
  unfolding rows_inverse_stages_def rows_intt_loop_map by (simp add: gs_stages_def rows_phase_uniform plain_phase_def Let_def)

text \<open>A row of values at the even powers of its root becomes the coefficients, times their number.\<close>

lemma gs_stages_values:
  assumes ok: "psi_ok c i t" and b: "b < hc_logN c" and sch: "sched_ok b sched" and red: "reduced c i (2 * 2 ^ b) A"
    and A: "\<And>q. q < 2 * 2 ^ b \<Longrightarrow> uint (A ! q) = (\<Sum>s<2 * 2 ^ b. a s * sub_root c t b ^ (2 * brev (Suc b) q * s)) mod iprime c i"
  shows "reduced c i (2 * 2 ^ b) (gs_stages c i t (2 ^ b) sched A)"
    and "s < 2 * 2 ^ b \<Longrightarrow> uint (gs_stages c i t (2 ^ b) sched A ! s) = 2 * 2 ^ b * a s mod iprime c i"
proof -
  let ?p = "iprime c i"
  have inv: "stage_inv ?p b a (tw c t) 0 A"
  proof -
    have "uint (A ! q) = peval (2 * 2 ^ b) a ((tw c t q)\<^sup>2) mod ?p" if q: "q < 2 * 2 ^ b" for q
    proof -
      have "tw c t q = sub_root c t b ^ brev (Suc b) q" by (rule tw_sub_root [OF b]) (use q in simp)
      then show ?thesis unfolding A [OF q] by (simp add: peval_def mult.commute flip: power_mult)
    qed
    then show ?thesis by (simp add: stage_inv_def)
  qed
  obtain A1 where A1: "intt_loop c i t (2 ^ b) sched 1 (2 ^ b - 1) 0 A = (A1, 2 ^ b)" "reduced c i (2 * 2 ^ b) A1"
      "stage_inv ?p b ((twice ^^ b) a) (tw c t) b A1"
    using intt_loop_correct [OF ok b sch _ red inv, of b] by (auto simp: inv_mask_initial)
  have m: "snd (intt_loop c i t (2 ^ b) sched 1 (2 ^ b - 1) 0 []) = 2 ^ b" using A1(1) intt_loop_snd [of c i t "2 ^ b" sched 1 "2 ^ b - 1" 0 "[]" A] by simp
  have ts: "all_threads (2 ^ b) (sched (2 ^ b))" using sch by (simp add: sched_ok_def)
  have g: "gs_stages c i t (2 ^ b) sched A = plain_phase c i (2 ^ b) (sched (2 ^ b)) A1"
    by (simp add: gs_stages_def m A1(1) nat_power_eq)
  note s2 = plain_phase_undo [OF ok b ts A1(2,3) g]
  show "reduced c i (2 * 2 ^ b) (gs_stages c i t (2 ^ b) sched A)" by (rule s2(1))
  show "s < 2 * 2 ^ b \<Longrightarrow> uint (gs_stages c i t (2 ^ b) sched A ! s) = 2 * 2 ^ b * a s mod iprime c i"
    using s2(2) [of s] by (simp add: twice_power mult.assoc)
qed

end
