(* ===== verification/InttGridCorrect.thy ===== *)
theory InttGridCorrect
  imports InttGrid
begin

text \<open>
  The two kernels of \<^theory_text>\<open>InttGrid\<close> take the values of a polynomial back to its coefficients, as the
  kernel for a single block does.
\<close>

section \<open>Storing transposed\<close>

lemma store_transposed_set:
  "set (store_transposed B grid blk ts rows) =
     {(4 * grid * (4 * (tid div 2) + i) + 4 * blk + (2 * (tid mod 2) + h), rows ! (2 * (tid mod 2) + h) ! (4 * (tid div 2) + i))
       | tid h i. tid \<in> set ts \<and> h < 2 \<and> i < 4}"
proof -
  define a where "a tid h i = (4 * grid * (4 * (tid div 2) + i) + 4 * blk + (2 * (tid mod 2) + h),
      rows ! (2 * (tid mod 2) + h) ! (4 * (tid div 2) + i))" for tid h i
  have "set (store_transposed B grid blk ts rows) = (\<Union>tid \<in> set ts. \<Union>i\<in>{..<4}. {a tid 0 i, a tid 1 i})"
    unfolding store_transposed_def nat_and_masks Let_def a_def by (simp add: lessThan_atLeast0 ac_simps)
  also have "\<dots> = {a tid h i | tid h i. tid \<in> set ts \<and> h < 2 \<and> i < 4}" by (auto simp: less_2_cases_iff)
  finally show ?thesis by (simp only: a_def)
qed

lemma column_thread:
  fixes col e B :: nat
  assumes "col < 2 * (2 * B)" and "e < 4"
  defines "tid \<equiv> 2 * (col div 4) + e div 2"
  shows "tid < 2 * B" and "4 * (tid div 2) + col mod 4 = col" and "2 * (tid mod 2) + e mod 2 = e"
proof -
  have "col div 4 < B" using assms(1) by (simp add: less_mult_imp_div_less)
  moreover have e: "e div 2 < 2" using assms(2) by simp
  ultimately show "tid < 2 * B" unfolding tid_def by linarith
  have "tid div 2 = col div 4" "tid mod 2 = e div 2" using e by (simp_all add: tid_def)
  then show "4 * (tid div 2) + col mod 4 = col" "2 * (tid mod 2) + e mod 2 = e" by simp_all
qed

lemma store_transposed_grid:
  assumes blocks: "set blocks = {..<grid}" and ts: "\<And>blk. blk < grid \<Longrightarrow> all_threads (2 * B) (ts blk)"
    and len: "length res = 4 * grid * (2 * (2 * B))"
  shows "put_all (concat (map (\<lambda>blk. store_transposed (2 * B) grid blk (ts blk) (rows blk)) blocks)) res
    = map (\<lambda>j. rows (j mod (4 * grid) div 4) ! (j mod (4 * grid) mod 4) ! (j div (4 * grid))) [0..<4 * grid * (2 * (2 * B))]"
proof -
  let ?ws = "concat (map (\<lambda>blk. store_transposed (2 * B) grid blk (ts blk) (rows blk)) blocks)" and ?G = "4 * grid"
  let ?F = "\<lambda>j. rows (j mod ?G div 4) ! (j mod ?G mod 4) ! (j div ?G)"
  have w: "p < length res \<and> x = ?F p" if px: "(p, x) \<in> set ?ws" for p x
  proof -
    obtain blk tid h i where t: "blk < grid" "tid \<in> set (ts blk)" "h < 2" "i < 4"
        and p: "p = ?G * (4 * (tid div 2) + i) + 4 * blk + (2 * (tid mod 2) + h)"
        and x: "x = rows blk ! (2 * (tid mod 2) + h) ! (4 * (tid div 2) + i)"
      using px blocks by (auto simp: store_transposed_set)
    have "tid < 2 * B" using ts [OF t(1)] t(2) by (auto simp: all_threads_def)
    then have "tid div 2 < B" by (simp add: less_mult_imp_div_less)
    then have col: "4 * (tid div 2) + i < 2 * (2 * B)" using t(4) by linarith
    define e where "e = 2 * (tid mod 2) + h"
    have "tid mod 2 < 2" by simp
    then have e: "e < 4" using t(3) unfolding e_def by linarith
    then have r: "4 * blk + e < ?G" using t(1) by linarith
    have p': "p = ?G * (4 * (tid div 2) + i) + (4 * blk + e)" by (simp add: p e_def)
    have "p div ?G = 4 * (tid div 2) + i" "p mod ?G = 4 * blk + e" using r by (simp_all add: p')
    then have "x = ?F p" using e by (simp add: x e_def [symmetric])
    moreover have "p < length res" unfolding p' len by (rule row_bound [OF r col])
    ultimately show ?thesis by blast
  qed
  have "j \<in> fst ` set ?ws" if j: "j < length res" for j
  proof -
    define col r where "col = j div ?G" and "r = j mod ?G"
    have "0 < ?G" using j len by (cases grid) simp_all
    then have r: "r < ?G" by (simp add: r_def)
    have "j < 2 * (2 * B) * ?G" using j len by (simp add: mult.commute)
    then have col: "col < 2 * (2 * B)" unfolding col_def by (rule less_mult_imp_div_less)
    have blk: "r div 4 < grid" using r by (simp add: less_mult_imp_div_less)
    define e tid where "e = r mod 4" and "tid = 2 * (col div 4) + e div 2"
    have e: "e < 4" by (simp add: e_def)
    note tid = column_thread [OF col e, folded tid_def]
    have "tid \<in> set (ts (r div 4))" using ts [OF blk] tid(1) by (simp add: all_threads_def)
    moreover have "e mod 2 < 2" "col mod 4 < 4" by simp_all
    ultimately have "(?G * (4 * (tid div 2) + col mod 4) + 4 * (r div 4) + (2 * (tid mod 2) + e mod 2),
        rows (r div 4) ! (2 * (tid mod 2) + e mod 2) ! (4 * (tid div 2) + col mod 4)) \<in> set (store_transposed (2 * B) grid (r div 4) (ts (r div 4)) (rows (r div 4)))"
      unfolding store_transposed_set by blast
    moreover have "?G * col + 4 * (r div 4) + e = j" by (simp add: e_def col_def r_def)
    ultimately have "(j, rows (r div 4) ! e ! col) \<in> set (store_transposed (2 * B) grid (r div 4) (ts (r div 4)) (rows (r div 4)))"
      unfolding tid(2,3) by simp
    moreover have "r div 4 \<in> set blocks" using blocks blk by simp
    ultimately show ?thesis by (force intro: rev_image_eqI)
  qed
  then have "{..<length res} \<subseteq> fst ` set ?ws" by blast
  from put_all_full [of ?ws res ?F, OF w this] show ?thesis unfolding len .
qed

section \<open>The factors\<close>

definition inverse_setting :: "Constants \<Rightarrow> nat \<Rightarrow> PsiTables \<Rightarrow> nat \<Rightarrow> nat \<Rightarrow> bool" where
  "inverse_setting c p t b1 b2 \<longleftrightarrow> grid_setting c p t b1 b2 \<and> hc_N c < dprime c p
     \<and> root_tables c p (uint (hc_N_inv c ! p)) (uint (ps_inv_root t)) (ps_inv_psi t) (ps_inv_psi_shoup t) (ps_inv_psi_no t)"

lemma inverse_twiddle_values:
  assumes t: "root_tables c p a v (ps_inv_psi t) (ps_inv_psi_shoup t) (ps_inv_psi_no t)" and fits: "2 ^ hc_logN c < dprime c p"
    and b: "b < n" "n \<le> hc_logN c" and pos: "block_pos < 2 ^ (n - Suc b)" and x: "x < 2 * 2 ^ b"
  defines "y \<equiv> inverse_middle_twiddle c p t (2 ^ b) (2 ^ n) block_pos x"
  shows "uint y = a * 2 ^ (hc_logN c - n) * ring_root c v n ^ (2 * (block_pos * brev (Suc b) x)) mod iprime c p" and "unat y < dprime c p"
proof -
  let ?z = "middle_twiddle c p (ps_inv_psi t) (ps_inv_psi_shoup t) (ps_inv_psi_no t) (2 ^ b) (2 ^ n) block_pos x"
  let ?d = "hc_logN c - n"
  note z = middle_twiddle_values [OF t b pos x]
  have e: "prime_entry c p" using t by (simp add: root_tables_def)
  have "?d < 64" using t by (auto simp: root_tables_def)
  then have "(2::int) ^ ?d < 2 ^ 64" by (intro power_strict_increasing) simp_all
  then have "take_bit 64 ((2::int) ^ ?d) = 2 ^ ?d" by (intro take_bit_int_eq_self) simp_all
  then have s: "uint (push_bit ?d 1 :: u64) = 2 ^ ?d" unfolding unsigned_push_bit_eq by (simp add: push_bit_eq_mult)
  have "(2::nat) ^ ?d \<le> 2 ^ hc_logN c" by (intro power_increasing) simp_all
  then have "(2::nat) ^ ?d < dprime c p" using fits by linarith
  then have "int (2 ^ ?d) < int (dprime c p)" by (simp only: of_nat_less_iff)
  then have "uint (push_bit ?d 1 :: u64) < uint (hc_primes c ! p)" unfolding s by (simp only: uint_nat of_nat_power of_nat_numeral)
  then have l: "unat (push_bit ?d 1 :: u64) < dprime c p" by (simp only: uint_less_iff)
  have y: "y = (if ?d \<noteq> 0 then modmult_barrett c p ?z (push_bit ?d 1) else ?z)"
    by (simp add: y_def inverse_middle_twiddle_def ffs_power Let_def)
  show "uint y = a * 2 ^ ?d * ring_root c v n ^ (2 * (block_pos * brev (Suc b) x)) mod iprime c p"
  proof (cases "?d = 0")
    case False
    then have "uint y = uint ?z * 2 ^ ?d mod iprime c p" using y uint_modmult_barrett [OF e z(2) l] s by simp
    then show ?thesis unfolding z(1) by (simp only: mod_mult_left_eq) (simp only: ac_simps)
  qed (use y z(1) in simp)
  show "unat y < dprime c p" using y z(2) modmult_barrett_less [OF e z(2) l] by simp
qed

text \<open>A phase of the two neighbours of every thread.\<close>

lemma middle_rows_values:
  assumes t: "root_tables c p a v (ps_inv_psi t) (ps_inv_psi_shoup t) (ps_inv_psi_no t)" and fits: "2 ^ hc_logN c < dprime c p"
    and b: "b < n" "n \<le> hc_logN c" and blk': "\<forall>i < 4. 4 * blk + i < 2 ^ (n - Suc b)"
    and ts: "all_threads (2 ^ b) ts" and rows: "rows_reduced c p (2 * 2 ^ b) rows"
  defines "rows' \<equiv> inverse_middle_rows c p t (2 ^ b) (2 ^ n) blk ts rows"
  shows "rows_reduced c p (2 * 2 ^ b) rows'"
    and "i < 4 \<Longrightarrow> j < 2 * 2 ^ b \<Longrightarrow> uint (rows' ! i ! j)
      = uint (rows ! i ! j) * (a * 2 ^ (hc_logN c - n) * ring_root c v n ^ (2 * ((4 * blk + i) * brev (Suc b) j))) mod iprime c p"
proof -
  note blk = blk' [rule_format]
  let ?T = "\<lambda>i. inverse_middle_twiddle c p t (2 ^ b) (2 ^ n) (4 * blk + i)"
  let ?g = "\<lambda>i tid a b. (modmult_barrett c p a (?T i (2 * tid)), modmult_barrett c p b (?T i (2 * tid + 1)))"
  have e: "prime_entry c p" using t by (simp add: root_tables_def)
  have T: "i < 4 \<Longrightarrow> x < 2 * 2 ^ b \<Longrightarrow> unat (?T i x) < dprime c p" for i x
    using inverse_twiddle_values(2) [OF t fits b blk] .
  have len: "length (rows ! i) = 2 * 2 ^ b" and less: "j < 2 * 2 ^ b \<Longrightarrow> unat (rows ! i ! j) < dprime c p" if "i < 4" for i j
    using rows that by (auto simp: rows_reduced_def reduced_def)
  have row: "rows' ! i = block_phase 0 (?g i) ts (rows ! i)" if "i < 4" for i
  proof -
    have "rows' ! i = fold (pair_step (\<lambda>tid. 2 * tid) (\<lambda>tid. 2 * tid + 1) (?g i)) ts (rows ! i)"
      using rows that by (simp add: rows'_def inverse_middle_rows_def rows_phase_map rows_reduced_def)
    also have "\<dots> = block_phase 0 (?g i) ts (rows ! i)"
      unfolding block_phase_def by (intro pair_fold_cong) (simp only: block_zero simp_thms)
    finally show ?thesis .
  qed
  have "length rows' = 4" using rows by (simp add: rows'_def inverse_middle_rows_def rows_phase_map rows_reduced_def)
  moreover have "reduced c p (2 * 2 ^ b) (rows' ! i)" if i: "i < 4" for i
    unfolding row [OF i]
  proof (rule block_phase_reduced [OF ts le0])
    show "reduced c p (2 * 2 ^ b) (rows ! i)" using rows i by (simp add: rows_reduced_def)
  qed (use modmult_barrett_less [OF e] T [OF i] in auto)
  ultimately show "rows_reduced c p (2 * 2 ^ b) rows'" by (simp add: rows_reduced_def)
  assume i: "i < 4" and j: "j < 2 * 2 ^ b"
  have "uint (rows' ! i ! j) = uint (modmult_barrett c p (rows ! i ! j) (?T i j))"
  proof -
    consider (lo) s where "s < 2 ^ b" "j = block_lo 0 s" | (hi) s where "s < 2 ^ b" "j = block_hi 0 s"
      using block_cover [of j b 0] j by blast
    then show ?thesis
    proof cases
      case lo
      show ?thesis unfolding row [OF i] lo(2) block_phase_values(1) [OF ts le0 len [OF i] lo(1)] by (simp add: block_zero)
    next
      case hi
      show ?thesis unfolding row [OF i] hi(2) block_phase_values(2) [OF ts le0 len [OF i] hi(1)] by (simp add: block_zero)
    qed
  qed
  then show "uint (rows' ! i ! j)
      = uint (rows ! i ! j) * (a * 2 ^ (hc_logN c - n) * ring_root c v n ^ (2 * ((4 * blk + i) * brev (Suc b) j))) mod iprime c p"
    using uint_modmult_barrett [OF e less [OF i j] T [OF i j]] inverse_twiddle_values(1) [OF t fits b blk [OF i] j]
    by (simp add: mod_mult_right_eq)
qed

section \<open>The scaling\<close>

lemma roots_cancel:
  assumes "psi_ok c p t" and "\<alpha> mod iprime c p = x * ring_root c (uint (ps_root t)) n ^ m mod iprime c p"
  shows "\<alpha> * ring_root c (uint (ps_inv_root t)) n ^ m mod iprime c p = x mod iprime c p"
proof -
  let ?w = "ring_root c (uint (ps_root t)) n" and ?v = "ring_root c (uint (ps_inv_root t)) n"
  have one: "?w ^ m * ?v ^ m mod iprime c p = 1"
    using inverse_powers [OF assms(1), of "2 ^ (hc_logN c - n) * m"] by (simp add: power_mult)
  have "\<alpha> * ?v ^ m mod iprime c p = x * ?w ^ m * ?v ^ m mod iprime c p"
    using mod_mult_cong [OF assms(2) refl, of "?v ^ m"] .
  also have "\<dots> = x * (?w ^ m * ?v ^ m mod iprime c p) mod iprime c p" by (simp only: mult.assoc mod_mult_right_eq)
  finally show ?thesis unfolding one by simp
qed

lemma times_N_values:
  assumes e: "prime_entry c p" and fits: "hc_N c < dprime c p" and x: "uint x = uint (hc_N_inv c ! p) * y mod iprime c p"
  shows "uint (modmult_shoup c p x (of_nat (hc_N c)) (hc_N_shoup c ! p)) = 1 * y mod iprime c p"
proof -
  have "hc_N c < 2 ^ 64" using fits prime_entry_bounds(2) [OF e] by simp
  then have N: "unat (of_nat (hc_N c) :: u64) = hc_N c" "hc_N c mod 2 ^ 64 = hc_N c" by (simp_all add: unat_of_nat)
  then have u: "uint (of_nat (hc_N c) :: u64) = int (hc_N c)" by (simp only: uint_nat)
  have "hc_N c * unat (hc_N_inv c ! p) mod dprime c p = 1" and sh: "hc_N_shoup c ! p = shoup_precomp (of_nat (hc_N c)) (hc_primes c ! p)"
    using e unfolding prime_entry_def Let_def N(2) by blast+
  then have "int (hc_N c * unat (hc_N_inv c ! p) mod dprime c p) = 1" by (simp only: of_nat_1)
  then have one: "int (hc_N c) * uint (hc_N_inv c ! p) mod iprime c p = 1" by (simp only: zmod_int of_nat_mult uint_nat)
  have l: "unat (of_nat (hc_N c) :: u64) < dprime c p" using fits by (simp only: N(1))
  have "uint (modmult_shoup c p x (of_nat (hc_N c)) (hc_N_shoup c ! p)) = (uint (hc_N_inv c ! p) * y mod iprime c p) * int (hc_N c) mod iprime c p"
    unfolding uint_modmult_shoup [OF e l sh] u x ..
  also have "\<dots> = y * (int (hc_N c) * uint (hc_N_inv c ! p) mod iprime c p) mod iprime c p"
    by (simp only: mod_mult_left_eq mod_mult_right_eq) (simp only: ac_simps)
  finally show ?thesis unfolding one by simp
qed

lemma backward_rows_values:
  assumes s: "inverse_setting c p t b1 b2" and b: "0 < b" "b < n" "n \<le> hc_logN c"
    and grid: "grid * 4 = 2 ^ (n - Suc b)" and ts: "all_threads (2 ^ b) ts" and blk: "blk < grid" and rows: "rows_reduced c p (2 * 2 ^ b) rows"
  defines "rows' \<equiv> backward_negacyclic_scale_rows c p t (2 ^ b) grid blk n ts rows"
  shows "rows_reduced c p (2 * 2 ^ b) rows'"
    and "i < 4 \<Longrightarrow> j < 2 * 2 ^ b \<Longrightarrow>
      uint (rows' ! i ! j) = uint (rows ! i ! j) * ring_root c (uint (ps_inv_root t)) n ^ (2 ^ (n - Suc b) * j + (4 * blk + i)) mod iprime c p"
proof -
  have t: "root_tables c p (uint (hc_N_inv c ! p)) (uint (ps_inv_root t)) (ps_inv_psi t) (ps_inv_psi_shoup t) (ps_inv_psi_no t)"
    and fits: "hc_N c < dprime c p" using s by (simp_all add: inverse_setting_def)
  have e: "prime_entry c p" using t by (simp add: root_tables_def)
  note a3 = times_N_values [OF e fits natural_power [OF t b(2,3) grid blk]]
  show "rows_reduced c p (2 * 2 ^ b) rows'"
    and "i < 4 \<Longrightarrow> j < 2 * 2 ^ b \<Longrightarrow>
      uint (rows' ! i ! j) = uint (rows ! i ! j) * ring_root c (uint (ps_inv_root t)) n ^ (2 ^ (n - Suc b) * j + (4 * blk + i)) mod iprime c p"
    unfolding rows'_def backward_negacyclic_scale_rows_def using negacyclic_rows_values [OF t b ts rows a3] by simp_all
qed

section \<open>The first kernel\<close>

lemma INTT_first_values:
  assumes g: "grid_setting c p t b1 b2" and bl: "blocks_ok b2 (2 ^ (b1 - 1)) blocks sched"
    and A: "evals c p t (b1 + b2 + 1) Y A" and len: "length res = 2 ^ (b1 + b2 + 2)"
  shows "\<exists>M. INTT_pass c p t (2 ^ b2) (2 ^ (b1 - 1)) False blocks sched A res = Inr M \<and> length M = 2 ^ (b1 + b2 + 2)
    \<and> (\<forall>r < 2 * 2 ^ b2. \<forall>q < 2 * 2 ^ b1. uint (M ! (2 * 2 ^ b1 * r + q)) = 2 * 2 ^ b2 * column_transform c p t b1 b2 Y r q mod iprime c p)"
proof -
  let ?n = "b1 + b2 + 2" and ?R = "2 * 2 ^ b2 :: nat" and ?C = "2 * 2 ^ b1 :: nat" and ?grid = "2 ^ (b1 - 1) :: nat"
  have psi: "psi_ok c p t" and b: "0 < b1" "0 < b2" "?n \<le> hc_logN c" using g by (simp_all add: grid_setting_def)
  have bn: "b2 < hc_logN c" using b by simp
  have grid: "?grid * 4 = ?C" "4 * ?grid = ?C" using grid_size [OF b(1)] by simp_all
  have N: "2 * 4 * 2 ^ b2 * ?grid = 2 ^ ?n" using grid(1) by (simp add: power_add)
  have CR: "?C * ?R = 2 ^ ?n" by (rule grid_length)
  have sch: "sched_ok b2 (sched blk)" if "blk < ?grid" for blk using bl that by (auto simp: blocks_ok_def)
  have blocks: "set blocks = {..<?grid}" using bl by (simp add: blocks_ok_def all_threads_def)
  have ts: "all_threads (2 ^ b2) (sched blk k)" if "blk < ?grid" for blk k using sch [OF that] by (simp add: sched_ok_def)
  obtain B where B: "(2::nat) ^ b2 = 2 * B" using b(2) by (cases b2) auto
  define rows where "rows blk = rows_inverse_stages c p t (2 ^ b2) (sched blk) (load_rows_block (2 ^ b2) blk A (sched blk (-1)))" for blk
  have row: "uint (rows blk ! i ! r) = 2 * 2 ^ b2 * column_transform c p t b1 b2 Y r (4 * blk + i) mod iprime c p"
    if blk: "blk < ?grid" and i: "i < 4" and r: "r < ?R" for blk i r
  proof -
    let ?L = "load_rows_block (2 ^ b2) blk A (sched blk (-1))" and ?q = "4 * blk + i"
    have q: "?q < ?C" using blk i grid by linarith
    note L = load_rows_values [OF ts [OF blk, of "-1"] i, where blk = blk and dat = A]
    have A': "uint (A ! (?R * ?q + x)) = odd_power_values (iprime c p) (2 * 2 ^ (b1 + b2 + 1)) (sub_root c t (b1 + b2 + 1)) Y (brev ?n (?R * ?q + x))
        \<and> unat (A ! (?R * ?q + x)) < dprime c p" if "x < ?R" for x
    proof -
      have "?R * ?q + x < ?R * ?C" by (rule row_bound [OF that q])
      then have "?R * ?q + x < 2 ^ ?n" using CR by (simp only: mult.commute)
      then show ?thesis using A by (simp add: evals_def reduced_def)
    qed
    then have red: "reduced c p ?R (?L ! i)" using L(2,3) by (simp add: reduced_def)
    have v: "uint (?L ! i ! x) = (\<Sum>r<?R. column_transform c p t b1 b2 Y r ?q * sub_root c t b2 ^ (2 * brev (Suc b2) x * r)) mod iprime c p"
      if "x < ?R" for x
      unfolding matrix_transform [OF g q that] L(3) [OF that] using A' [OF that] by simp
    have "rows blk ! i = gs_stages c p t (2 ^ b2) (sched blk) (?L ! i)" using L(1) i by (simp add: rows_def rows_inverse_stages_map)
    then show ?thesis using gs_stages_values(2) [OF psi bn sch [OF blk] red v r] by simp
  qed
  let ?M = "put_all (concat (map (\<lambda>blk. INTT_block c p t (2 ^ b2) ?grid False (sched blk) A blk) blocks)) res"
  have blk: "INTT_block c p t (2 ^ b2) ?grid False (sched blk) A blk = store_transposed (2 ^ b2) ?grid blk (sched blk (-2)) (rows blk)" for blk
    unfolding INTT_block_def Let_def rows_def by (simp only: if_False)
  have "length res = 4 * ?grid * (2 * (2 * B))" unfolding len grid(2) B [symmetric] by (rule CR [symmetric])
  moreover have "all_threads (2 * B) (sched blk (-2))" if "blk < ?grid" for blk using ts [OF that] by (simp only: B)
  moreover note store_transposed_grid [OF blocks, where ts = "\<lambda>blk. sched blk (-2)" and res = res and B = B and rows = rows]
  ultimately have M: "?M = map (\<lambda>j. rows (j mod ?C div 4) ! (j mod ?C mod 4) ! (j div ?C)) [0..<2 ^ ?n]"
    unfolding blk by (simp only: B [symmetric] grid(2) CR)
  have "uint (?M ! (?C * r + q)) = 2 * 2 ^ b2 * column_transform c p t b1 b2 Y r q mod iprime c p" if r: "r < ?R" and q: "q < ?C" for r q
  proof -
    have "q div 4 < ?grid" "q mod 4 < 4" using q grid(2) by (simp_all add: less_mult_imp_div_less mult.commute)
    note v = row [OF this r]
    have "?C * r + q < 2 ^ ?n" using row_bound [OF q r] unfolding CR .
    moreover have "(?C * r + q) div ?C = r" "(?C * r + q) mod ?C = q" using q by simp_all
    ultimately have "?M ! (?C * r + q) = rows (q div 4) ! (q mod 4) ! r" unfolding M by simp
    then show ?thesis using v by simp
  qed
  moreover have "length ?M = 2 ^ ?n" by (simp add: len)
  moreover have "INTT_pass c p t (2 ^ b2) ?grid False blocks sched A res = Inr ?M"
    unfolding INTT_pass_def Let_def N ffs_power by simp
  ultimately show ?thesis by blast
qed

section \<open>The second kernel\<close>

text \<open>A row of the second kernel, before its stages: the transform of the scaled column.\<close>

lemma second_row:
  assumes s: "inverse_setting c p t b1 b2"
  defines "R \<equiv> 2 * 2 ^ b2 :: nat" and "w \<equiv> ring_root c (uint (ps_root t)) (b1 + b2 + 2)" and "K \<equiv> 2 * 2 ^ b2 * uint (hc_N_inv c ! p) * 2 ^ (hc_logN c - (b1 + b2 + 2))"
  shows "(2 * 2 ^ b2 * column_transform c p t b1 b2 Y r q mod iprime c p) * (uint (hc_N_inv c ! p) * 2 ^ (hc_logN c - (b1 + b2 + 2))
        * ring_root c (uint (ps_inv_root t)) (b1 + b2 + 2) ^ (2 * (r * brev (Suc b1) q))) mod iprime c p
    = (\<Sum>s<2 * 2 ^ b1. K * Y (R * s + r) * w ^ (R * s + r) * sub_root c t b1 ^ (2 * brev (Suc b1) q * s)) mod iprime c p"
proof -
  let ?p = "iprime c p" and ?n = "b1 + b2 + 2" and ?u = "brev (Suc b1) q" and ?d = "2 ^ (hc_logN c - (b1 + b2 + 2)) :: int"
  let ?v = "ring_root c (uint (ps_inv_root t)) ?n" and ?ni = "uint (hc_N_inv c ! p)" and ?two = "2 * 2 ^ b2 :: int"
  have psi: "psi_ok c p t" and b: "b1 < ?n" "?n \<le> hc_logN c" "?n - Suc b1 = Suc b2"
    using s by (simp_all add: inverse_setting_def grid_setting_def)
  have sr: "sub_root c t b1 = w ^ R" using sub_root_ring [OF b(1,2), of t] by (simp add: w_def R_def b(3))
  let ?S = "\<Sum>s<2 * 2 ^ b1. Y (R * s + r) * w ^ ((R * s + r) * (1 + 2 * ?u))"
  let ?T = "\<Sum>s<2 * 2 ^ b1. Y (R * s + r) * w ^ (R * s + r) * sub_root c t b1 ^ (2 * ?u * s)"
  have ST: "?S = ?T * w ^ (2 * (r * ?u))"
  proof -
    have "Y (R * s + r) * w ^ ((R * s + r) * (1 + 2 * ?u)) = Y (R * s + r) * w ^ (R * s + r) * sub_root c t b1 ^ (2 * ?u * s) * w ^ (2 * (r * ?u))" for s
    proof -
      have "(R * s + r) * (1 + 2 * ?u) = (R * s + r) + R * (2 * ?u * s) + 2 * (r * ?u)" by (simp add: algebra_simps)
      then show ?thesis unfolding sr by (simp only: power_add power_mult [symmetric] mult.assoc)
    qed
    then show ?thesis by (simp only: sum_distrib_right)
  qed
  have "column_transform c p t b1 b2 Y r q mod ?p = ?T * w ^ (2 * (r * ?u)) mod ?p"
    unfolding column_transform_def R_def [symmetric] w_def [symmetric] ST by simp
  then have cancel: "column_transform c p t b1 b2 Y r q * ?v ^ (2 * (r * ?u)) mod ?p = ?T mod ?p"
    unfolding w_def by (rule roots_cancel [OF psi])
  have "(?two * column_transform c p t b1 b2 Y r q mod ?p) * (?ni * ?d * ?v ^ (2 * (r * ?u))) mod ?p
      = K * (column_transform c p t b1 b2 Y r q * ?v ^ (2 * (r * ?u)) mod ?p) mod ?p"
    unfolding K_def by (simp only: mod_mult_left_eq mod_mult_right_eq) (simp only: ac_simps)
  also have "\<dots> = K * ?T mod ?p" unfolding cancel by (rule mod_mult_right_eq)
  also have "K * ?T = (\<Sum>s<2 * 2 ^ b1. K * Y (R * s + r) * w ^ (R * s + r) * sub_root c t b1 ^ (2 * ?u * s))"
    by (simp only: sum_distrib_left mult.assoc)
  finally show ?thesis .
qed

lemma INTT_second_values:
  assumes s: "inverse_setting c p t b1 b2" and bl: "blocks_ok b1 (2 ^ (b2 - 1)) blocks sched"
    and M: "length M = 2 ^ (b1 + b2 + 2)" "\<And>r q. r < 2 * 2 ^ b2 \<Longrightarrow> q < 2 * 2 ^ b1 \<Longrightarrow>
      uint (M ! (2 * 2 ^ b1 * r + q)) = 2 * 2 ^ b2 * column_transform c p t b1 b2 Y r q mod iprime c p"
    and len: "length res = 2 ^ (b1 + b2 + 2)"
  shows "\<exists>D. INTT_pass c p t (2 ^ b1) (2 ^ (b2 - 1)) True blocks sched M res = Inr D \<and> coeffs c p (2 ^ (b1 + b2 + 2)) Y D"
proof -
  let ?n = "b1 + b2 + 2" and ?R = "2 * 2 ^ b2 :: nat" and ?C = "2 * 2 ^ b1 :: nat" and ?grid = "2 ^ (b2 - 1) :: nat" and ?p = "iprime c p"
  let ?v = "ring_root c (uint (ps_inv_root t)) ?n" and ?w = "ring_root c (uint (ps_root t)) ?n"
  define K where "K = 2 * 2 ^ b2 * uint (hc_N_inv c ! p) * 2 ^ (hc_logN c - ?n)"
  have g: "grid_setting c p t b1 b2" and fits: "hc_N c < dprime c p"
    and tab: "root_tables c p (uint (hc_N_inv c ! p)) (uint (ps_inv_root t)) (ps_inv_psi t) (ps_inv_psi_shoup t) (ps_inv_psi_no t)"
    using s by (simp_all add: inverse_setting_def)
  have psi: "psi_ok c p t" and b: "0 < b1" "0 < b2" "?n \<le> hc_logN c" using g by (simp_all add: grid_setting_def)
  have L: "hc_logN c < 32" "2 ^ hc_logN c < dprime c p" using tab fits psi by (simp_all add: root_tables_def psi_ok_def)
  have pe: "prime_entry c p" using psi by (simp add: psi_ok_def)
  have bn: "b1 < hc_logN c" "b1 < ?n" using b by simp_all
  have R: "2 ^ (?n - Suc b1) = ?R" by simp
  have grid: "?grid * 4 = 2 ^ (?n - Suc b1)" "4 * ?grid = ?R" using grid_size [OF b(2)] by (simp_all add: R)
  have N: "2 * 4 * 2 ^ b1 * ?grid = 2 ^ ?n" using grid(1) by (simp add: power_add)
  have RC: "?R * ?C = 2 ^ ?n" using grid_length [of b1 b2] by (simp only: mult.commute)
  have sch: "sched_ok b1 (sched blk)" if "blk < ?grid" for blk using bl that by (auto simp: blocks_ok_def)
  have blocks: "set blocks = {..<?grid}" using bl by (simp add: blocks_ok_def all_threads_def)
  have ts: "all_threads (2 ^ b1) (sched blk k)" if "blk < ?grid" for blk k using sch [OF that] by (simp add: sched_ok_def)
  obtain B where B: "(2::nat) ^ b1 = 2 * B" using b(1) by (cases b1) auto
  have KC: "2 * 2 ^ b1 * K mod ?p = 1"
  proof -
    have "2 * 2 ^ (b1 + b2 + 1) * 2 ^ (hc_logN c - Suc (b1 + b2 + 1)) * uint (hc_N_inv c ! p) mod ?p = 1"
      by (rule N_inv_scale [OF psi _ L(1)]) (use b in simp)
    moreover have "2 * 2 ^ (b1 + b2 + 1) * 2 ^ (hc_logN c - Suc (b1 + b2 + 1)) * uint (hc_N_inv c ! p) = 2 * 2 ^ b1 * K"
      by (simp add: K_def power_add)
    ultimately show ?thesis by (simp only:)
  qed
  define rows1 where "rows1 blk = inverse_middle_rows c p t (2 ^ b1) (2 ^ ?n) blk (sched blk (-3)) (load_rows_block (2 ^ b1) blk M (sched blk (-1)))" for blk
  define rows where "rows blk = backward_negacyclic_scale_rows c p t (2 ^ b1) ?grid blk ?n (sched blk 0) (rows_inverse_stages c p t (2 ^ b1) (sched blk) (rows1 blk))" for blk
  have row: "uint (rows blk ! i ! j) = Y (?R * j + (4 * blk + i)) mod ?p" if blk: "blk < ?grid" and i: "i < 4" and j: "j < ?C" for blk i j
  proof -
    let ?L = "load_rows_block (2 ^ b1) blk M (sched blk (-1))" and ?G = "rows_inverse_stages c p t (2 ^ b1) (sched blk) (rows1 blk)"
    have r: "4 * blk + i < ?R" if "i < 4" for i using blk that grid(2) by linarith
    have Lv: "length ?L = 4" "length (?L ! i) = ?C" "q < ?C \<Longrightarrow> uint (?L ! i ! q) = 2 * 2 ^ b2 * column_transform c p t b1 b2 Y (4 * blk + i) q mod ?p"
      if i: "i < 4" for i q
      using load_rows_values [OF ts [OF blk, of "-1"] i, where blk = blk and dat = M] M(2) [OF r [OF i]] by simp_all
    have pos: "\<forall>i < 4. 4 * blk + i < 2 ^ (?n - Suc b1)" unfolding R using r by blast
    have "uint (?L ! i ! q) < ?p" if "i < 4" "q < ?C" for i q
      unfolding Lv(3) [OF that] using iprime_bounds(1) [OF pe] by simp
    then have "rows_reduced c p ?C ?L" using Lv(1) [of 0] Lv(2) unfolding rows_reduced_def reduced_def uint_less_iff by simp
    note m = middle_rows_values [OF tab L(2) bn(2) b(3) pos ts [OF blk, of "-3"] this, folded rows1_def]
    have a: "uint (rows1 blk ! i ! q) = (\<Sum>s<?C. K * Y (?R * s + (4 * blk + i)) * ?w ^ (?R * s + (4 * blk + i)) * sub_root c t b1 ^ (2 * brev (Suc b1) q * s)) mod ?p"
      if "i < 4" "q < ?C" for i q
      unfolding m(2) [OF that] Lv(3) [OF that] K_def by (rule second_row [OF s])
    have red: "length (rows1 blk) = 4" "reduced c p ?C (rows1 blk ! i)" if "i < 4" for i using m(1) that by (simp_all add: rows_reduced_def)
    have G: "?G ! i = gs_stages c p t (2 ^ b1) (sched blk) (rows1 blk ! i)" if "i < 4" for i
      using red(1) [OF that] that by (simp add: rows_inverse_stages_map)
    let ?a = "\<lambda>i s. K * Y (?R * s + (4 * blk + i)) * ?w ^ (?R * s + (4 * blk + i))"
    have gs: "reduced c p ?C (?G ! i)" "j < ?C \<Longrightarrow> uint (?G ! i ! j) = 2 * 2 ^ b1 * ?a i j mod ?p" if "i < 4" for i j
      unfolding G [OF that]
      by (rule gs_stages_values [OF psi bn(1) sch [OF blk] red(2) [OF that]], erule a [OF that], assumption?)+
    have "length ?G = 4" using red(1) [of 0] by (simp add: rows_inverse_stages_map)
    then have Gr: "rows_reduced c p ?C ?G" using gs(1) by (simp add: rows_reduced_def)
    note bw = backward_rows_values [OF s b(1) bn(2) b(3) grid(1) ts [OF blk] blk Gr]
    have "uint (rows blk ! i ! j) = uint (?G ! i ! j) * ?v ^ (?R * j + (4 * blk + i)) mod ?p"
      using bw(2) [OF i j] by (simp only: rows_def R)
    also have "\<dots> = 2 * 2 ^ b1 * (K * Y (?R * j + (4 * blk + i))) mod ?p"
    proof (rule roots_cancel [OF psi])
      show "uint (?G ! i ! j) mod ?p = 2 * 2 ^ b1 * (K * Y (?R * j + (4 * blk + i))) * ?w ^ (?R * j + (4 * blk + i)) mod ?p"
        unfolding gs(2) [OF i j] by (simp only: mod_mod_trivial mult.assoc)
    qed
    also have "\<dots> = (2 * 2 ^ b1 * K mod ?p) * Y (?R * j + (4 * blk + i)) mod ?p" by (simp only: mod_mult_left_eq mult.assoc)
    finally show ?thesis unfolding KC by simp
  qed
  let ?D = "put_all (concat (map (\<lambda>blk. INTT_block c p t (2 ^ b1) ?grid True (sched blk) M blk) blocks)) res"
  have blk: "INTT_block c p t (2 ^ b1) ?grid True (sched blk) M blk = store_transposed (2 ^ b1) ?grid blk (sched blk (-2)) (rows blk)" for blk
    unfolding INTT_block_def Let_def rows_def rows1_def N ffs_power by (simp only: if_True diff_Suc_1)
  have "length res = 4 * ?grid * (2 * (2 * B))" unfolding len grid(2) B [symmetric] by (rule RC [symmetric])
  moreover have "all_threads (2 * B) (sched blk (-2))" if "blk < ?grid" for blk using ts [OF that] by (simp only: B)
  moreover note store_transposed_grid [OF blocks, where ts = "\<lambda>blk. sched blk (-2)" and res = res and B = B and rows = rows]
  ultimately have D: "?D = map (\<lambda>j. rows (j mod ?R div 4) ! (j mod ?R mod 4) ! (j div ?R)) [0..<2 ^ ?n]"
    unfolding blk by (simp only: B [symmetric] grid(2) RC)
  have "uint (?D ! j) = Y j mod ?p" if j: "j < 2 ^ ?n" for j
  proof -
    have "j mod ?R < ?grid * 4" unfolding mult.commute [of ?grid] grid(2) by simp
    then have "j mod ?R div 4 < ?grid" by (rule less_mult_imp_div_less)
    moreover have "j mod ?R mod 4 < 4" by simp
    moreover have "j < ?C * ?R" using j RC by (simp only: mult.commute)
    then have "j div ?R < ?C" by (rule less_mult_imp_div_less)
    ultimately have "uint (rows (j mod ?R div 4) ! (j mod ?R mod 4) ! (j div ?R)) = Y (?R * (j div ?R) + (4 * (j mod ?R div 4) + j mod ?R mod 4)) mod ?p"
      by (rule row)
    then show ?thesis unfolding D using j by (simp only: mult_div_mod_eq nth_map length_upt nth_upt) simp
  qed
  then have "coeffs c p (2 ^ ?n) Y ?D" by (simp add: coeffs_def len)
  moreover have "INTT_pass c p t (2 ^ b1) ?grid True blocks sched M res = Inr ?D"
    unfolding INTT_pass_def Let_def N ffs_power by simp
  ultimately show ?thesis by blast
qed

end
