(* ===== verification/InttGridProps.thy ===== *)
theory InttGridProps
  imports InttGridCorrect
begin

text \<open>
  The two kernels of \<^theory_text>\<open>InttGrid\<close>, on the tables of \<open>SetupConstants\<close>, return what the kernel for
  one block returns.
\<close>

section \<open>The ring is smaller than the prime\<close>

lemma odd_part: "0 < d \<Longrightarrow> \<exists>k m. d = 2 ^ k * m \<and> odd m" for d :: nat
proof (induction d rule: less_induct)
  case (less d)
  show ?case
  proof (cases "odd d")
    case True
    then show ?thesis by (intro exI [of _ 0] exI [of _ d]) simp
  next
    case False
    then obtain e where e: "d = 2 * e" by blast
    then obtain k m where "e = 2 ^ k * m" "odd m" using less.IH [of e] less.prems by auto
    then show ?thesis using e by (intro exI [of _ "Suc k"] exI [of _ m]) simp
  qed
qed

lemma root_powers_not_one:
  fixes w p :: int
  assumes p: "2 < p" and w: "w ^ 2 ^ L mod p = -1 mod p" and d: "0 < d" "d < 2 * 2 ^ L"
  shows "w ^ d mod p \<noteq> 1"
proof
  assume one: "w ^ d mod p = 1"
  obtain k m where km: "d = 2 ^ k * m" "odd m" using odd_part [OF d(1)] by blast
  then have "2 ^ k \<le> d" by (cases m) simp_all
  then have "(2::nat) ^ k < 2 ^ Suc L" using d(2) by simp
  then have k: "k \<le> L" by (simp only: power_strict_increasing_iff less_Suc_eq_le)
  have "2 ^ L * m = d * 2 ^ (L - k)" unfolding km(1) using k by (simp add: ac_simps flip: power_add)
  then have "(w ^ 2 ^ L) ^ m mod p = (w ^ d) ^ 2 ^ (L - k) mod p" by (simp only: power_mult [symmetric])
  also have "\<dots> = 1" using power_mod [of "w ^ d" p "2 ^ (L - k)"] one p by simp
  finally have "(w ^ 2 ^ L) ^ m mod p = 1" .
  moreover have "(w ^ 2 ^ L) ^ m mod p = (-1) ^ m mod p" using power_mod [of "w ^ 2 ^ L" p m] power_mod [of "-1" p m] w by simp
  moreover have "(-1 :: int) ^ m = -1" using km(2) by simp
  ultimately show False using p by (simp add: zmod_minus1)
qed

lemma ring_below_prime:
  assumes ok: "psi_ok c i t" and L: "0 < hc_logN c" "hc_logN c < 64"
  shows "hc_N c < dprime c i"
proof -
  let ?p = "iprime c i" and ?w = "uint (ps_root t)" and ?v = "uint (ps_inv_root t)" and ?N = "2 ^ hc_logN c :: nat"
  have e: "prime_entry c i" and N: "hc_N c = ?N" and w: "?w ^ ?N mod ?p = -1 mod ?p"
    using ok by (simp_all add: psi_ok_def root_pair_def)
  have p1: "1 < ?p" by (rule uint_gt1 [OF prime_entry_bounds(1) [OF e]])
  have "?p \<noteq> 2"
  proof
    assume "?p = 2"
    then have "dprime c i = 2" unfolding uint_nat by linarith
    moreover have "?N < 2 ^ 64" using L(2) by (intro power_strict_increasing) simp_all
    moreover have "?N mod 2 ^ 64 * unat (hc_N_inv c ! i) mod dprime c i = 1" using e unfolding prime_entry_def Let_def N by blast
    ultimately have "?N * unat (hc_N_inv c ! i) mod 2 = 1" by (simp only: mod_less)
    then show False using L(1) by (cases "hc_logN c") simp_all
  qed
  then have p: "2 < ?p" using p1 by linarith
  have "inj_on (\<lambda>k. ?w ^ k mod ?p) {..<2 * ?N}"
  proof (rule linorder_inj_onI)
    fix x y
    assume xy: "x < y" "x \<in> {..<2 * ?N}" "y \<in> {..<2 * ?N}"
    show "?w ^ x mod ?p \<noteq> ?w ^ y mod ?p"
    proof
      assume eq: "?w ^ x mod ?p = ?w ^ y mod ?p"
      have "?w ^ y = ?w ^ (y - x) * ?w ^ x" using xy(1) by (simp flip: power_add)
      then have "?w ^ y * ?v ^ x = ?w ^ (y - x) * (?w ^ x * ?v ^ x)" by (simp only: mult.assoc)
      then have "?w ^ y * ?v ^ x mod ?p = ?w ^ (y - x) * (?w ^ x * ?v ^ x mod ?p) mod ?p" by (simp only: mod_mult_right_eq)
      moreover have "?w ^ y * ?v ^ x mod ?p = ?w ^ x * ?v ^ x mod ?p" by (rule mod_mult_cong [OF eq [symmetric] refl])
      ultimately have "?w ^ (y - x) mod ?p = 1" unfolding inverse_powers [OF ok] by simp
      moreover have "?w ^ (y - x) mod ?p \<noteq> 1" using xy by (intro root_powers_not_one [OF p w]) auto
      ultimately show False by blast
    qed
  qed auto
  moreover have "(\<lambda>k. ?w ^ k mod ?p) ` {..<2 * ?N} \<subseteq> {0..<?p}" using p1 by auto
  ultimately have "card {..<2 * ?N} \<le> card {0..<?p}" by (rule card_inj_on_le) simp
  then have "2 * ?N \<le> dprime c i" unfolding uint_nat by simp
  moreover have "0 < ?N" by simp
  ultimately show ?thesis unfolding N by linarith
qed

section \<open>The tables of the code\<close>

lemma those_nth: "those xs = Some ys \<Longrightarrow> length ys = length xs \<and> (\<forall>k < length xs. xs ! k = Some (ys ! k))"
proof (induction xs arbitrary: ys)
  case (Cons x xs)
  then obtain y zs where "x = Some y" "those xs = Some zs" "ys = y # zs" by (auto split: option.splits)
  with Cons.IH show ?case by (auto simp: nth_Cons split: nat.splits)
qed simp

lemma setup_inverse_chain:
  assumes p: "prime_entry c i" and t: "setup_psi c i rt = Inr t" and k: "k < 2 * hc_N c"
  shows "uint (ps_inv_psi_no t ! k) = uint (hc_N_inv c ! i) * uint (ps_inv_root t) ^ k mod uint (hc_primes c ! i)"
proof -
  let ?p = "hc_primes c ! i"
  have p1: "1 < unat ?p" using prime_entry_bounds(1) [OF p] .
  then have one: "unat (1::u64) < unat ?p" and p0: "?p \<noteq> 0" by auto
  from t obtain inv_root inv_no where ch: "power_chain inv_root ?p 1 (2 * hc_N c) = Some inv_no"
      "those (map (\<lambda>x. modprod x (hc_N_inv c ! i) ?p) inv_no) = Some (ps_inv_psi_no t)" and r: "ps_inv_root t = inv_root"
    unfolding setup_psi_def Let_def bindE_eq_Inr assert_eq_Inr or_undefined_Inr by auto
  from power_chain_unat [OF p1 one, of inv_root "2 * hc_N c"] obtain ys where
    "power_chain inv_root ?p 1 (2 * hc_N c) = Some ys" "length ys = 2 * hc_N c"
    "\<And>j. j < 2 * hc_N c \<Longrightarrow> unat (ys ! j) = unat (1::u64) * unat inv_root ^ j mod unat ?p" by blast
  then have v: "length inv_no = 2 * hc_N c" "unat (inv_no ! k) = unat inv_root ^ k mod unat ?p" using ch(1) k by simp_all
  have "modprod (inv_no ! k) (hc_N_inv c ! i) ?p = Some (ps_inv_psi_no t ! k)"
    using those_nth [OF ch(2)] v(1) k by simp
  then have "ps_inv_psi_no t ! k = mulmod128 (inv_no ! k) (hc_N_inv c ! i) ?p" using p0 by (simp add: modprod_mulmod128)
  then have "unat (ps_inv_psi_no t ! k) = (unat inv_root ^ k mod unat ?p) * unat (hc_N_inv c ! i) mod unat ?p"
    using p0 v(2) by (simp add: unat_mulmod128)
  then have "unat (ps_inv_psi_no t ! k) = unat (hc_N_inv c ! i) * unat inv_root ^ k mod unat ?p"
    unfolding mod_mult_left_eq by (simp only: mult.commute)
  from uint_mod_eq [OF this] show ?thesis by (simp add: r)
qed

lemma setup_inverse_setting:
  assumes "prime_entry c p" and "hc_N c = 2 ^ hc_logN c" and "hc_logN c \<le> 30" and "setup_psi c p rt = Inr t"
    and "0 < b1" and "0 < b2" and "b1 + b2 + 2 \<le> hc_logN c"
  shows "inverse_setting c p t b1 b2"
proof -
  note g = setup_grid_setting [OF assms]
  have psi: "psi_ok c p t" using g by (simp add: grid_setting_def)
  have "power_table (iprime c p) (2 * 2 ^ hc_logN c) (uint (hc_N_inv c ! p)) (uint (ps_inv_root t)) (ps_inv_psi_no t)"
    unfolding power_table_def using setup_inverse_chain [OF assms(1,4)] assms(2) by simp
  moreover have "hc_N c < dprime c p" using assms by (intro ring_below_prime [OF psi]) simp_all
  ultimately show ?thesis using g psi assms by (simp add: inverse_setting_def root_tables_def psi_ok_def)
qed

lemma inverse_setting_ntt: "inverse_setting c p t b1 b2 \<Longrightarrow> sched_ok (b1 + b2 + 1) sched \<Longrightarrow> ntt_setting c p t (b1 + b2 + 1) sched"
proof -
  assume s: "inverse_setting c p t b1 b2" and sch: "sched_ok (b1 + b2 + 1) sched"
  have p: "2 ^ hc_logN c < dprime c p" "psi_ok c p t" "b1 + b2 + 2 \<le> hc_logN c" "hc_logN c \<le> 30"
    using s by (simp_all add: inverse_setting_def grid_setting_def root_tables_def psi_ok_def)
  have "(2::nat) ^ (hc_logN c - Suc (b1 + b2 + 1)) \<le> 2 ^ hc_logN c" by (intro power_increasing) simp_all
  with p(1) have "(2::nat) ^ (hc_logN c - Suc (b1 + b2 + 1)) < dprime c p" by linarith
  with p(2-4) show ?thesis using sch by (simp add: ntt_setting_def)
qed

section \<open>Equal to the one-block kernel\<close>

lemma INTT_2D_coeffs:
  assumes s: "inverse_setting c p t b1 b2"
    and bl: "blocks_ok b2 (2 ^ (b1 - 1)) (fst blocks) (fst scheds)" "blocks_ok b1 (2 ^ (b2 - 1)) (snd blocks) (snd scheds)"
    and A: "evals c p t (b1 + b2 + 1) Y A" and len: "length aux = 2 ^ (b1 + b2 + 2)"
  shows "\<exists>D. INTT_2D c p t (2 ^ b2) (2 ^ (b1 - 1)) (2 ^ b1) (2 ^ (b2 - 1)) blocks scheds A aux = Inr D \<and> coeffs c p (2 ^ (b1 + b2 + 2)) Y D"
proof -
  have g: "grid_setting c p t b1 b2" using s by (simp add: inverse_setting_def)
  obtain M where M: "INTT_pass c p t (2 ^ b2) (2 ^ (b1 - 1)) False (fst blocks) (fst scheds) A aux = Inr M" "length M = 2 ^ (b1 + b2 + 2)"
      "\<And>r q. r < 2 * 2 ^ b2 \<Longrightarrow> q < 2 * 2 ^ b1 \<Longrightarrow> uint (M ! (2 * 2 ^ b1 * r + q)) = 2 * 2 ^ b2 * column_transform c p t b1 b2 Y r q mod iprime c p"
    using INTT_first_values [OF g bl(1) A len] by blast
  have "length A = 2 ^ (b1 + b2 + 2)" using A by (simp add: evals_def reduced_def)
  from INTT_second_values [OF s bl(2) M(2,3) this] show ?thesis unfolding INTT_2D_def M(1) bindE.simps .
qed

lemma coeffs_unique: "coeffs c i n X A \<Longrightarrow> coeffs c i n X B \<Longrightarrow> A = B"
  by (rule nth_equalityI) (simp_all add: coeffs_def word_uint_eq_iff)



end
