(* ===== verification/PartTransforms.thy ===== *)
theory PartTransforms
  imports InttGridProps LimbStore
begin

text \<open>
  The transforms of a partition and the operations of \<open>src/src/CKKS/LimbPartition.cu\<close> that divide by primes:
  \<open>ApplyNTT\<close>, \<open>ApplyINTT\<close>, \<open>NTT\<close>, \<open>INTT\<close>, \<open>rescale\<close>, \<open>multPt\<close>, \<open>moddown\<close> and \<open>exactModdown\<close>. Small rings take
  the kernel for one block, rings from \<open>2^NTT_1D_LOG_THRESHOLD\<close> on the two kernels of \<^theory_text>\<open>NttGrid\<close> and
  \<^theory_text>\<open>InttGrid\<close>. Limbs of 64-bit primes are modelled: a 32-bit limb is refused.
\<close>

section \<open>What a device holds\<close>

record Device =
  dv_globals :: Globals
  dv_layout :: KernelLayout
  dv_psi :: "nat \<Rightarrow> PsiTables"
  dv_partition :: nat
  dv_fp :: Doubles
  dv_exact_moddown :: bool

text \<open>The orders in which a device takes blocks and threads, and what the scratch memory of a limb holds.\<close>

record Orders =
  od_blocks :: "nat list \<times> nat list"
  od_scheds :: "(nat \<Rightarrow> int \<Rightarrow> nat list) \<times> (nat \<Rightarrow> int \<Rightarrow> nat list)"
  od_sched :: "int \<Rightarrow> nat list"
  od_aux :: "u64 list"

section \<open>The shape of a launch\<close>

definition NTT_1D_LOG_THRESHOLD :: nat where
  "NTT_1D_LOG_THRESHOLD = 11"

definition NTT_block_dim_X :: "bool \<Rightarrow> nat \<Rightarrow> nat" where
  "NTT_block_dim_X second logN = (if second then 2 ^ (logN div 2 - 1) else 2 ^ ((logN + 1) div 2 - 1))"

definition NTT_grid_dim_X :: "nat \<Rightarrow> bool \<Rightarrow> nat \<Rightarrow> nat" where
  "NTT_grid_dim_X M second logN = 2 ^ logN div NTT_block_dim_X second logN div 2 div M"

definition INTT_block_dim_X :: "bool \<Rightarrow> nat \<Rightarrow> nat" where
  "INTT_block_dim_X second logN = (if second then 2 ^ ((logN + 1) div 2 - 1) else 2 ^ (logN div 2 - 1))"

definition INTT_grid_dim_X :: "nat \<Rightarrow> bool \<Rightarrow> nat \<Rightarrow> nat" where
  "INTT_grid_dim_X M second logN = 2 ^ logN div INTT_block_dim_X second logN div 2 div M"

section \<open>The transforms of a limb\<close>

text \<open>The launches give the kernels no switching key.\<close>

definition limb_NTT :: "Constants \<Rightarrow> Device \<Rightarrow> Orders \<Rightarrow> nat \<Rightarrow> NTT_MODE \<Rightarrow> nat \<Rightarrow> u64 list \<Rightarrow> u64 list \<Rightarrow> u64 list \<Rightarrow> nat \<Rightarrow> int
    \<Rightarrow> cpp_error + u64 list" where
  "limb_NTT c dv od logN mode primeid dat res pt pt_elem pr =
     (let g = dv_globals dv; t = dv_psi dv primeid
      in bindE (guardE Undefined_behaviour (mode \<noteq> NTT_KSK_DOT \<and> mode \<noteq> NTT_KSK_DOT_ACC)) (\<lambda>_.
         bindE (if logN \<ge> NTT_1D_LOG_THRESHOLD
                then NTT_2D c g primeid t (NTT_block_dim_X False logN) (NTT_grid_dim_X 4 False logN) (NTT_block_dim_X True logN)
                       (NTT_grid_dim_X 4 True logN) (od_blocks od) (od_scheds od) mode dat (od_aux od) res pt pt_elem pr [] []
                else NTT_1D_mode c g primeid t (2 ^ (logN - 1)) (od_sched od) mode dat res pt pt_elem pr [] [])
           (\<lambda>r. Inr (fst r))))"

text \<open>\<open>Limb::INTT\<close>, and a row of \<open>ApplyINTT\<close>.\<close>

definition limb_INTT :: "Constants \<Rightarrow> Device \<Rightarrow> Orders \<Rightarrow> nat \<Rightarrow> nat \<Rightarrow> u64 list \<Rightarrow> cpp_error + u64 list" where
  "limb_INTT c dv od logN primeid dat =
     (let t = dv_psi dv primeid
      in if logN \<ge> NTT_1D_LOG_THRESHOLD
         then INTT_2D c primeid t (INTT_block_dim_X False logN) (INTT_grid_dim_X 4 False logN) (INTT_block_dim_X True logN)
                (INTT_grid_dim_X 4 True logN) (od_blocks od) (od_scheds od) dat (od_aux od)
         else if logN > 0 then INTT_1D c primeid t (2 ^ (logN - 1)) (od_sched od) dat
         else Inr dat)"

definition on64 :: "(u64 list \<Rightarrow> cpp_error + u64 list) \<Rightarrow> limb \<Rightarrow> cpp_error + limb" where
  "on64 f l = bindE (get64 l) (\<lambda>x. bindE (f x) (\<lambda>y. Inr (L64 y)))"

section \<open>The transforms of a partition\<close>

definition GetLogN :: "Partition \<Rightarrow> cpp_error + nat" where
  "GetLogN p = bindE (limb_at (lp_limb p) 0) (\<lambda>l. Inr (nat (bit_width_nat (limb_size l)) - 1))"

text \<open>The source of a row: the limb that is divided away, a limb of the second operand, or the limb itself.\<close>

definition ntt_source :: "NTT_MODE \<Rightarrow> limb list \<Rightarrow> nat \<Rightarrow> limb list \<Rightarrow> nat \<Rightarrow> limb \<Rightarrow> cpp_error + u64 list" where
  "ntt_source mode limbs sz op2 j l =
     (if divides_mode mode then bindE (limb_at limbs sz) get64
      else if mode = NTT_MODDOWN then bindE (limb_at op2 j) get64
      else get64 l)"

definition ntt_row :: "Constants \<Rightarrow> Device \<Rightarrow> (nat \<Rightarrow> Orders) \<Rightarrow> nat \<Rightarrow> NTT_MODE \<Rightarrow> limb list \<Rightarrow> nat \<Rightarrow> limb list \<Rightarrow> limb list \<Rightarrow> nat
    \<Rightarrow> (nat \<Rightarrow> nat) \<Rightarrow> nat \<Rightarrow> limb \<Rightarrow> cpp_error + limb" where
  "ntt_row c dv od logN mode limbs sz op2 pt pt_elem ids j l =
     bindE (ntt_source mode limbs sz op2 j l) (\<lambda>dat.
     bindE (if mode = NTT_MULTPT then bindE (limb_at pt j) get64 else Inr []) (\<lambda>m.
     on64 (\<lambda>res. limb_NTT c dv (od j) logN mode (ids j) dat res m pt_elem (if divides_mode mode then int (ids sz) else 0)) l))"

text \<open>No row writes the limb \<open>sz\<close> or the operands, so every row reads them as they were before the launches.\<close>

definition ApplyNTT :: "PartCtx \<Rightarrow> Device \<Rightarrow> (nat \<Rightarrow> Orders) \<Rightarrow> nat \<Rightarrow> NTT_MODE \<Rightarrow> limb list \<Rightarrow> limb list \<Rightarrow> nat \<Rightarrow> (nat \<Rightarrow> nat) \<Rightarrow> nat
    \<Rightarrow> limb list \<Rightarrow> (cpp_error + limb list) option" where
  "ApplyNTT ctx dv od logN mode op2 pt pt_elem ids limbsize limbs =
     (let sz = limbsize - (if divides_mode mode then 1 else 0)
      in if logN > 0
         then batch_loop (launch (\<lambda>j. modify_at j (ntt_row (pc_consts ctx) dv od logN mode limbs sz op2 pt pt_elem ids j)))
                sz (pc_batch ctx) 0 limbs
         else if mode \<noteq> NTT_NONE then Some (Inl Assert_failed) else Some (Inr limbs))"

definition ApplyINTT :: "PartCtx \<Rightarrow> Device \<Rightarrow> (nat \<Rightarrow> Orders) \<Rightarrow> nat \<Rightarrow> (nat \<Rightarrow> nat) \<Rightarrow> nat \<Rightarrow> limb list \<Rightarrow> (cpp_error + limb list) option" where
  "ApplyINTT ctx dv od logN ids limbsize limbs =
     (if logN > 0
      then batch_loop (launch (\<lambda>j. modify_at j (on64 (limb_INTT (pc_consts ctx) dv (od j) logN (ids j))))) limbsize (pc_batch ctx) 0 limbs
      else Some (Inr limbs))"

text \<open>At the level above the last, the first special limb is transformed too.\<close>

definition lp_NTT :: "PartCtx \<Rightarrow> Device \<Rightarrow> (nat \<Rightarrow> Orders) \<Rightarrow> NTT_MODE \<Rightarrow> limb list \<Rightarrow> limb list \<Rightarrow> nat \<Rightarrow> int \<Rightarrow> Partition
    \<Rightarrow> (cpp_error + Partition) option" where
  "lp_NTT ctx dv od mode op2 pt pt_elem lev p =
     (let limbsize = getLimbSize ctx lev;
          special = (lev = int (pc_L ctx) + 1 \<and> pc_smeta ctx \<noteq> [] \<and> sid ctx 0 = pc_L ctx + 1)
      in if limbsize > 0 \<or> special
         then thenO (Some (GetLogN p)) (\<lambda>logN.
              thenO (if limbsize > 0 then ApplyNTT ctx dv od logN mode op2 pt pt_elem (pid ctx) limbsize (lp_limb p) else Some (Inr (lp_limb p))) (\<lambda>limbs.
              thenO (if special then ApplyNTT ctx dv od logN mode op2 pt pt_elem (sid ctx) 1 (lp_special p) else Some (Inr (lp_special p))) (\<lambda>sp.
              Some (Inr (p\<lparr>lp_limb := limbs, lp_special := sp\<rparr>)))))
         else Some (Inr p))"

definition lp_INTT :: "PartCtx \<Rightarrow> Device \<Rightarrow> (nat \<Rightarrow> Orders) \<Rightarrow> int \<Rightarrow> Partition \<Rightarrow> (cpp_error + Partition) option" where
  "lp_INTT ctx dv od lev p =
     (let limbsize = getLimbSize ctx lev
      in if limbsize > 0
         then thenO (Some (GetLogN p)) (\<lambda>logN.
              thenO (ApplyINTT ctx dv od logN (pid ctx) limbsize (lp_limb p)) (\<lambda>limbs. Some (Inr (p\<lparr>lp_limb := limbs\<rparr>))))
         else Some (Inr p))"

section \<open>Dividing by the last prime\<close>

text \<open>The limb at the top goes back to coefficients; the others take it along in their transform. Large rings
  without scratch memory of their own use shared scratch and a single launch.\<close>

definition lp_rescale :: "PartCtx \<Rightarrow> Device \<Rightarrow> nat \<Rightarrow> bool \<Rightarrow> Orders \<Rightarrow> (nat \<Rightarrow> Orders) \<Rightarrow> nat \<Rightarrow> int \<Rightarrow> Partition \<Rightarrow> (cpp_error + Partition) option" where
  "lp_rescale ctx dv gpus own_aux od_top od slots lev p =
     (let limbsize = getLimbSize ctx lev; c = pc_consts ctx; top = limbsize - 1
      in assertO (gpus > 1 \<or> limbsize > 1)
         (if limbsize = 0 then Some (Inr p)
          else thenO (Some (limb_at (lp_limb p) top)) (\<lambda>_.
               thenO (Some (GetLogN p)) (\<lambda>logN.
               assertO (nat (bit_width_nat (2 * slots)) - 1 = logN)
               (thenO (Some (modify_at top (on64 (limb_INTT c dv od_top logN (pid ctx top))) (lp_limb p))) (\<lambda>limbs.
                if logN \<ge> NTT_1D_LOG_THRESHOLD \<and> \<not> own_aux
                then thenO (Some (launch (\<lambda>j. modify_at j (ntt_row c dv od logN NTT_RESCALE limbs top [] [] 0 (pid ctx) j)) 0 top limbs))
                       (\<lambda>limbs. Some (Inr (p\<lparr>lp_limb := limbs\<rparr>)))
                else lp_NTT ctx dv od NTT_RESCALE [] [] 0 lev (p\<lparr>lp_limb := limbs\<rparr>)))))))"

text \<open>The product with a plaintext, divided by the last prime: the top limb is multiplied first.\<close>

definition lp_multPt :: "PartCtx \<Rightarrow> Device \<Rightarrow> Orders \<Rightarrow> (nat \<Rightarrow> Orders) \<Rightarrow> int \<Rightarrow> Partition \<Rightarrow> nat \<Rightarrow> Partition \<Rightarrow> (cpp_error + Partition) option" where
  "lp_multPt ctx dv od_top od lev pt slots p =
     (let limbsize = getLimbSize ctx lev; c = pc_consts ctx; top = limbsize - 1
      in assertO (limbsize \<le> length (lp_limb pt))
        (assertO (limbsize > 1)
         (thenO (Some (modify_at top (\<lambda>l. bindE (limb_at (lp_limb pt) top) (\<lambda>m.
              bindE (Mult_k c (pid ctx top) (limb_size l) (2 * slots) l m) (\<lambda>l.
              on64 (limb_INTT c dv od_top (nat (bit_width_nat (limb_size l)) - 1) (pid ctx top)) l))) (lp_limb p))) (\<lambda>limbs.
          lp_NTT ctx dv od NTT_MULTPT [] (lp_limb pt) (2 * slots) lev (p\<lparr>lp_limb := limbs\<rparr>)))))"

section \<open>Dividing by the special primes\<close>

definition lp_moddown_from :: "bool \<Rightarrow> PartCtx \<Rightarrow> Device \<Rightarrow> (nat \<Rightarrow> Orders) \<Rightarrow> (nat \<Rightarrow> Orders) \<Rightarrow> bool \<Rightarrow> bool \<Rightarrow> int \<Rightarrow> Partition \<Rightarrow> Partition
    \<Rightarrow> (cpp_error + Partition \<times> Partition) option" where
  "lp_moddown_from exact ctx dv ods od ntt free_special_limbs lev auxLimbs p =
     (let c = pc_consts ctx; limbsize = nat (lev + 1); cols = 64 * (pc_N ctx div 64)
      in assertO (length (lp_special p) = length (pc_smeta ctx))
         (thenO (if ntt
                 then thenO (Some (GetLogN p)) (\<lambda>logN. ApplyINTT ctx dv ods logN (sid ctx) (length (lp_special p)) (lp_special p))
                 else Some (Inr (lp_special p))) (\<lambda>sp.
          if length sp < hc_K c then Some (Inl Runtime_error)
          else thenO (Some (if exact
                 then ExactModDown2 c (dv_layout dv) (dv_globals dv) (dv_fp dv) ALGO_SHOUP cols (lp_limb auxLimbs) limbsize sp (dv_partition dv)
                 else ModDown2 c (dv_layout dv) (dv_globals dv) ALGO_SHOUP cols (lp_limb auxLimbs) limbsize sp (dv_partition dv))) (\<lambda>auxs.
               thenO (if limbsize > 0 then lp_NTT ctx dv od NTT_MODDOWN auxs [] 0 lev (p\<lparr>lp_special := sp\<rparr>)
                      else Some (Inr (p\<lparr>lp_special := sp\<rparr>))) (\<lambda>q.
               Some (Inr (if free_special_limbs then lp_freeSpecialLimbs q else q, auxLimbs\<lparr>lp_limb := auxs\<rparr>)))))))"

definition lp_moddown :: "PartCtx \<Rightarrow> Device \<Rightarrow> (nat \<Rightarrow> Orders) \<Rightarrow> (nat \<Rightarrow> Orders) \<Rightarrow> bool \<Rightarrow> bool \<Rightarrow> int \<Rightarrow> Partition \<Rightarrow> Partition
    \<Rightarrow> (cpp_error + Partition \<times> Partition) option" where
  "lp_moddown ctx dv = lp_moddown_from (dv_exact_moddown dv) ctx dv"

definition lp_exactModdown :: "PartCtx \<Rightarrow> Device \<Rightarrow> (nat \<Rightarrow> Orders) \<Rightarrow> (nat \<Rightarrow> Orders) \<Rightarrow> bool \<Rightarrow> bool \<Rightarrow> int \<Rightarrow> Partition \<Rightarrow> Partition
    \<Rightarrow> (cpp_error + Partition \<times> Partition) option" where
  "lp_exactModdown = lp_moddown_from True"

end
