(* ===== verification/PartCorrect.thy ===== *)
theory PartCorrect
  imports PartTransforms
begin

text \<open>
  What the transforms of a partition and its divisions compute, for every ring size and every order of
  blocks and threads: the limbs hold the values of one polynomial with integer coefficients at the roots of
  their primes, and the divisions give the values of the rounded quotient.
\<close>

section \<open>The shape of a launch\<close>

definition lo_width :: "nat \<Rightarrow> nat" where
  "lo_width logN = (logN + 1) div 2 - 1"

definition hi_width :: "nat \<Rightarrow> nat" where
  "hi_width logN = logN div 2 - 1"

lemma widths:
  assumes "NTT_1D_LOG_THRESHOLD \<le> logN"
  shows "0 < lo_width logN" and "0 < hi_width logN" and "lo_width logN + hi_width logN + 2 = logN"
  using assms unfolding NTT_1D_LOG_THRESHOLD_def lo_width_def hi_width_def by linarith+

lemma grid_quotient: "a + b + 2 = n \<Longrightarrow> 0 < b \<Longrightarrow> (2::nat) ^ n div 2 ^ a div 2 div 4 = 2 ^ (b - 1)"
proof -
  assume n: "a + b + 2 = n" and b: "0 < b"
  have "(2::nat) ^ n = 2 ^ (b - 1) * 4 * 2 * 2 ^ a" using b unfolding n [symmetric] by (cases b) (simp_all add: power_add)
  then show ?thesis by simp
qed

lemma launch_shape:
  assumes "NTT_1D_LOG_THRESHOLD \<le> logN"
  shows "NTT_block_dim_X False logN = 2 ^ lo_width logN" and "NTT_block_dim_X True logN = 2 ^ hi_width logN"
    and "NTT_grid_dim_X 4 False logN = 2 ^ (hi_width logN - 1)" and "NTT_grid_dim_X 4 True logN = 2 ^ (lo_width logN - 1)"
    and "INTT_block_dim_X False logN = 2 ^ hi_width logN" and "INTT_block_dim_X True logN = 2 ^ lo_width logN"
    and "INTT_grid_dim_X 4 False logN = 2 ^ (lo_width logN - 1)" and "INTT_grid_dim_X 4 True logN = 2 ^ (hi_width logN - 1)"
proof -
  note w = widths [OF assms]
  have w': "hi_width logN + lo_width logN + 2 = logN" using w(3) by simp
  show b: "NTT_block_dim_X False logN = 2 ^ lo_width logN" "NTT_block_dim_X True logN = 2 ^ hi_width logN"
    "INTT_block_dim_X False logN = 2 ^ hi_width logN" "INTT_block_dim_X True logN = 2 ^ lo_width logN"
    by (simp_all add: NTT_block_dim_X_def INTT_block_dim_X_def lo_width_def hi_width_def)
  show "NTT_grid_dim_X 4 False logN = 2 ^ (hi_width logN - 1)" "NTT_grid_dim_X 4 True logN = 2 ^ (lo_width logN - 1)"
    "INTT_grid_dim_X 4 False logN = 2 ^ (lo_width logN - 1)" "INTT_grid_dim_X 4 True logN = 2 ^ (hi_width logN - 1)"
    unfolding NTT_grid_dim_X_def INTT_grid_dim_X_def b by (intro grid_quotient w w')+
qed

section \<open>The setting\<close>

definition tables_ready :: "Constants \<Rightarrow> nat \<Rightarrow> PsiTables \<Rightarrow> bool" where
  "tables_ready c i t \<longleftrightarrow> psi_ok c i t \<and> root_tables c i 1 (uint (ps_root t)) (ps_psi t) (ps_psi_shoup t) (ps_psi_no t)
     \<and> root_tables c i (uint (hc_N_inv c ! i)) (uint (ps_inv_root t)) (ps_inv_psi t) (ps_inv_psi_shoup t) (ps_inv_psi_no t)"

definition orders_ok :: "nat \<Rightarrow> Orders \<Rightarrow> bool" where
  "orders_ok logN od \<longleftrightarrow> sched_ok (logN - 1) (od_sched od)
     \<and> (NTT_1D_LOG_THRESHOLD \<le> logN \<longrightarrow> blocks_ok (lo_width logN) (2 ^ (hi_width logN - 1)) (fst (od_blocks od)) (fst (od_scheds od))
        \<and> blocks_ok (hi_width logN) (2 ^ (lo_width logN - 1)) (snd (od_blocks od)) (snd (od_scheds od)) \<and> length (od_aux od) = 2 ^ logN)"

definition inverse_orders_ok :: "nat \<Rightarrow> Orders \<Rightarrow> bool" where
  "inverse_orders_ok logN od \<longleftrightarrow> sched_ok (logN - 1) (od_sched od)
     \<and> (NTT_1D_LOG_THRESHOLD \<le> logN \<longrightarrow> blocks_ok (hi_width logN) (2 ^ (lo_width logN - 1)) (fst (od_blocks od)) (fst (od_scheds od))
        \<and> blocks_ok (lo_width logN) (2 ^ (hi_width logN - 1)) (snd (od_blocks od)) (snd (od_scheds od)) \<and> length (od_aux od) = 2 ^ logN)"

lemma tables_setting:
  assumes "tables_ready c i t" and "0 < b1" and "0 < b2" and "b1 + b2 + 2 \<le> hc_logN c"
  shows "inverse_setting c i t b1 b2"
proof -
  have "psi_ok c i t" "hc_logN c \<le> 30" using assms(1) by (simp_all add: tables_ready_def root_tables_def)
  then have "hc_N c < dprime c i" using assms(4) by (intro ring_below_prime) simp_all
  then show ?thesis using assms by (simp add: inverse_setting_def grid_setting_def tables_ready_def)
qed

lemma tables_ntt:
  assumes "tables_ready c i t" and "0 < logN" and "logN \<le> hc_logN c" and "sched_ok (logN - 1) sched"
  shows "ntt_setting c i t (logN - 1) sched"
proof -
  have p: "psi_ok c i t" "hc_logN c \<le> 30" using assms(1) by (simp_all add: tables_ready_def root_tables_def)
  then have "2 ^ hc_logN c < dprime c i" using ring_below_prime [OF p(1)] assms(2,3) by (simp add: psi_ok_def)
  moreover have "(2::nat) ^ (hc_logN c - Suc (logN - 1)) \<le> 2 ^ hc_logN c" by (intro power_increasing) simp_all
  ultimately have "(2::nat) ^ (hc_logN c - Suc (logN - 1)) < dprime c i" by linarith
  then show ?thesis using p assms by (simp add: ntt_setting_def)
qed

lemma setup_tables_ready:
  assumes "prime_entry c i" and "hc_N c = 2 ^ hc_logN c" and "hc_logN c \<le> 30" and "setup_psi c i rt = Inr t"
  shows "tables_ready c i t"
proof -
  have psi: "psi_ok c i t" using assms(3) by (intro setup_psi_psi_ok [OF assms(1,2) _ assms(4)]) simp
  have "power_table (iprime c i) (2 * 2 ^ hc_logN c) 1 (uint (ps_root t)) (ps_psi_no t)"
    "power_table (iprime c i) (2 * 2 ^ hc_logN c) (uint (hc_N_inv c ! i)) (uint (ps_inv_root t)) (ps_inv_psi_no t)"
    unfolding power_table_def using setup_psi_chain [OF assms(1,4)] setup_inverse_chain [OF assms(1,4)] assms(2) by simp_all
  with psi assms show ?thesis by (simp add: tables_ready_def root_tables_def psi_ok_def)
qed

section \<open>A limb\<close>

lemma exp_pred: "0 < n \<Longrightarrow> 2 * 2 ^ (n - 1) = (2::nat) ^ n"
  by (cases n) simp_all

lemma limb_NTT_1D:
  assumes t: "tables_ready c i (dv_psi dv i)" and n: "0 < logN" "logN \<le> hc_logN c" and od: "orders_ok logN od"
    and mode: "mode \<noteq> NTT_KSK_DOT" "mode \<noteq> NTT_KSK_DOT_ACC"
    and dat: "if divides_mode mode then prime_entry c (nat pr) \<and> reduced c (nat pr) (2 ^ logN) dat else reduced c i (2 ^ logN) dat"
    and res: "length res = 2 ^ logN"
  shows "limb_NTT c dv od logN mode i dat res pt e pr
    = bindE (NTT_1D_mode c (dv_globals dv) i (dv_psi dv i) (2 ^ (logN - 1)) (od_sched od) mode dat res pt e pr [] []) (\<lambda>r. Inr (fst r))"
proof (cases "NTT_1D_LOG_THRESHOLD \<le> logN")
  case True
  note w = widths [OF True]
  have g: "grid_setting c i (dv_psi dv i) (lo_width logN) (hi_width logN)"
    using tables_setting [OF t w(1,2)] w(3) n(2) by (simp add: inverse_setting_def)
  have pred: "logN - 1 = lo_width logN + hi_width logN + 1" using w(3) by linarith
  have sz: "fused_sizes mode (2 ^ logN) res pt [] []" using res mode by (simp add: fused_sizes_def)
  have o: "blocks_ok (lo_width logN) (2 ^ (hi_width logN - 1)) (fst (od_blocks od)) (fst (od_scheds od))"
      "blocks_ok (hi_width logN) (2 ^ (lo_width logN - 1)) (snd (od_blocks od)) (snd (od_scheds od))"
      "sched_ok (lo_width logN + hi_width logN + 1) (od_sched od)" "length (od_aux od) = 2 ^ logN"
    using od True unfolding orders_ok_def pred by blast+
  from NTT_2D_1D [OF g o(1-3), unfolded w(3), OF dat o(4) sz] show ?thesis
    unfolding limb_NTT_def Let_def launch_shape [OF True] pred using mode True by simp
next
  case False
  then show ?thesis using mode by (simp add: limb_NTT_def)
qed

lemma limb_INTT_ok:
  assumes t: "tables_ready c i (dv_psi dv i)" and n: "0 < logN" "logN \<le> hc_logN c" and od: "inverse_orders_ok logN od"
    and A: "evals c i (dv_psi dv i) (logN - 1) X A"
  shows "\<exists>r. limb_INTT c dv od logN i A = Inr r \<and> coeffs c i (2 ^ logN) X r"
proof (cases "NTT_1D_LOG_THRESHOLD \<le> logN")
  case True
  note w = widths [OF True]
  have pred: "logN - 1 = lo_width logN + hi_width logN + 1" using w(3) by linarith
  have s: "inverse_setting c i (dv_psi dv i) (lo_width logN) (hi_width logN)"
    using tables_setting [OF t w(1,2)] w(3) n(2) by simp
  have o: "blocks_ok (hi_width logN) (2 ^ (lo_width logN - 1)) (fst (od_blocks od)) (fst (od_scheds od))"
      "blocks_ok (lo_width logN) (2 ^ (hi_width logN - 1)) (snd (od_blocks od)) (snd (od_scheds od))" "length (od_aux od) = 2 ^ logN"
    using od True unfolding inverse_orders_ok_def by blast+
  from INTT_2D_coeffs [OF s o(1,2) A [unfolded pred], unfolded w(3), OF o(3)] show ?thesis
    unfolding limb_INTT_def Let_def launch_shape [OF True] using True by simp
next
  case False
  have "ntt_setting c i (dv_psi dv i) (logN - 1) (od_sched od)" using od by (intro tables_ntt [OF t n]) (simp add: inverse_orders_ok_def)
  from INTT_1D_coeffs [OF this A] show ?thesis using False n(1) unfolding exp_pred [OF n(1)] by (simp add: limb_INTT_def)
qed

lemma evals_length: "0 < logN \<Longrightarrow> evals c i t (logN - 1) X A \<Longrightarrow> length A = 2 ^ logN"
  unfolding evals_def reduced_def by (simp only: exp_pred)

lemma limb_NTT_rescale:
  assumes t: "tables_ready c i (dv_psi dv i)" and n: "0 < logN" "logN \<le> hc_logN c" and od: "orders_ok logN od"
    and l: "prime_entry c l" and v: "inverse_entry c i (gl_q_inv (dv_globals dv) (MAXP * l + i)) (iprime c l)"
    and dat: "coeffs c l (2 ^ logN) X dat" and res: "evals c i (dv_psi dv i) (logN - 1) X res"
  shows "\<exists>r. limb_NTT c dv od logN NTT_RESCALE i dat res pt e (int l) = Inr r
    \<and> evals c i (dv_psi dv i) (logN - 1) (\<lambda>j. round_div (iprime c l) (X j)) r"
proof -
  have "ntt_setting c i (dv_psi dv i) (logN - 1) (od_sched od)" using od by (intro tables_ntt [OF t n]) (simp add: orders_ok_def)
  note ok = NTT_RESCALE_ok [OF this l v _ res, unfolded exp_pred [OF n(1)], OF dat]
  have m: "NTT_RESCALE \<noteq> NTT_KSK_DOT" "NTT_RESCALE \<noteq> NTT_KSK_DOT_ACC" by simp_all
  have red: "if divides_mode NTT_RESCALE then prime_entry c (nat (int l)) \<and> reduced c (nat (int l)) (2 ^ logN) dat else reduced c i (2 ^ logN) dat"
    using l coeffs_reduced [OF l dat] by (simp add: divides_mode_def)
  show ?thesis unfolding limb_NTT_1D [OF t n od m red evals_length [OF n(1) res]]
    using ok [where pt = pt and e = e and ?res2.0 = "[]" and kskb = "[]"] by auto
qed

lemma limb_NTT_multpt:
  assumes t: "tables_ready c i (dv_psi dv i)" and n: "0 < logN" "logN \<le> hc_logN c" and od: "orders_ok logN od"
    and l: "prime_entry c l" and v: "inverse_entry c i (gl_q_inv (dv_globals dv) (MAXP * l + i)) (iprime c l)"
    and dat: "coeffs c l (2 ^ logN) X dat" and e: "logstride (2 ^ logN) e = Inr s"
    and res: "length res = 2 ^ logN" "evals c i (dv_psi dv i) (logN - 1) X (pt_product c i s res pt)"
  shows "\<exists>r. limb_NTT c dv od logN NTT_MULTPT i dat res pt e (int l) = Inr r
    \<and> evals c i (dv_psi dv i) (logN - 1) (\<lambda>j. round_div (iprime c l) (X j)) r"
proof -
  have "ntt_setting c i (dv_psi dv i) (logN - 1) (od_sched od)" using od by (intro tables_ntt [OF t n]) (simp add: orders_ok_def)
  note ok = NTT_MULTPT_ok [OF this l v _ _ _ res(2), unfolded exp_pred [OF n(1)], OF dat e res(1)]
  have m: "NTT_MULTPT \<noteq> NTT_KSK_DOT" "NTT_MULTPT \<noteq> NTT_KSK_DOT_ACC" by simp_all
  have red: "if divides_mode NTT_MULTPT then prime_entry c (nat (int l)) \<and> reduced c (nat (int l)) (2 ^ logN) dat else reduced c i (2 ^ logN) dat"
    using l coeffs_reduced [OF l dat] by (simp add: divides_mode_def)
  show ?thesis unfolding limb_NTT_1D [OF t n od m red res(1)]
    using ok [where ?res2.0 = "[]" and kskb = "[]"] by auto
qed

lemma limb_NTT_moddown:
  assumes t: "tables_ready c i (dv_psi dv i)" and n: "0 < logN" "logN \<le> hc_logN c" and od: "orders_ok logN od"
    and v: "inverse_entry c i (hc_P_inv c ! i) P" "hc_P_inv_shoup c ! i = shoup_precomp (hc_P_inv c ! i) (hc_primes c ! i)"
    and dat: "coeffs c i (2 ^ logN) Y dat" and res: "evals c i (dv_psi dv i) (logN - 1) X res" and w: "\<And>j. j < 2 ^ logN \<Longrightarrow> X j - Y j = P * W j"
  shows "\<exists>r. limb_NTT c dv od logN NTT_MODDOWN i dat res pt e pr = Inr r \<and> evals c i (dv_psi dv i) (logN - 1) W r"
proof -
  have p: "prime_entry c i" using t by (simp add: tables_ready_def psi_ok_def)
  have "ntt_setting c i (dv_psi dv i) (logN - 1) (od_sched od)" using od by (intro tables_ntt [OF t n]) (simp add: orders_ok_def)
  note ok = NTT_MODDOWN_ok [OF this v _ res, unfolded exp_pred [OF n(1)], OF dat w]
  have m: "NTT_MODDOWN \<noteq> NTT_KSK_DOT" "NTT_MODDOWN \<noteq> NTT_KSK_DOT_ACC" by simp_all
  have red: "if divides_mode NTT_MODDOWN then prime_entry c (nat pr) \<and> reduced c (nat pr) (2 ^ logN) dat else reduced c i (2 ^ logN) dat"
    using coeffs_reduced [OF p dat] by (simp add: divides_mode_def)
  show ?thesis unfolding limb_NTT_1D [OF t n od m red evals_length [OF n(1) res]]
    using ok [where g = "dv_globals dv" and pt = pt and e = e and pr = pr and ?res2.0 = "[]" and kskb = "[]"] by auto
qed

section \<open>The limbs of a partition\<close>

definition limb_evals :: "Constants \<Rightarrow> Device \<Rightarrow> nat \<Rightarrow> nat \<Rightarrow> (nat \<Rightarrow> int) \<Rightarrow> limb \<Rightarrow> bool" where
  "limb_evals c dv logN i X l \<longleftrightarrow> (case l of L64 x \<Rightarrow> evals c i (dv_psi dv i) (logN - 1) X x | L32 _ \<Rightarrow> False)"

definition rows_evals :: "Constants \<Rightarrow> Device \<Rightarrow> nat \<Rightarrow> (nat \<Rightarrow> nat) \<Rightarrow> nat \<Rightarrow> limb list \<Rightarrow> (nat \<Rightarrow> int) \<Rightarrow> bool" where
  "rows_evals c dv logN ids m xs X \<longleftrightarrow> m \<le> length xs \<and> (\<forall>j < m. limb_evals c dv logN (ids j) X (xs ! j))"

lemma limb_evalsE:
  assumes "limb_evals c dv logN i X l"
  obtains x where "l = L64 x" and "evals c i (dv_psi dv i) (logN - 1) X x"
  using assms by (cases l) (simp_all add: limb_evals_def)

lemma get64_simp [simp]: "get64 (L64 x) = Inr x"
  by (simp add: get64_def)

lemma GetLogN_evals:
  assumes "rows_evals c dv logN ids m (lp_limb p) X" and "0 < m" and "0 < logN"
  shows "GetLogN p = Inr logN"
proof -
  have "limb_evals c dv logN (ids 0) X (lp_limb p ! 0)" "0 < length (lp_limb p)" using assms by (auto simp: rows_evals_def)
  moreover from this(1) have "limb_size (lp_limb p ! 0) = 2 ^ logN"
    by (elim limb_evalsE) (simp add: limb_size_def evals_length [OF assms(3)])
  ultimately show ?thesis by (simp add: GetLogN_def limb_at_def bit_width_power)
qed

text \<open>Launches over rows that succeed.\<close>

lemma modify_rows_ok:
  assumes "stop \<le> length xs" and "\<And>j. j < stop \<Longrightarrow> \<exists>y. k j (xs ! j) = Inr y \<and> Q j y"
  shows "\<exists>ys. foldE (\<lambda>s j. modify_at j (k j) s) xs [0..<stop] = Inr ys \<and> length ys = length xs
    \<and> (\<forall>j < stop. Q j (ys ! j)) \<and> (\<forall>j < length xs. stop \<le> j \<longrightarrow> ys ! j = xs ! j)"
proof -
  obtain r where r: "\<And>j. j < stop \<Longrightarrow> k j (xs ! j) = Inr (r j) \<and> Q j (r j)" using assms(2) by metis
  have "foldE (\<lambda>s j. modify_at j (k j) s) xs [0..<stop] = Inr (map (\<lambda>j. if 0 \<le> j \<and> j < stop then r j else xs ! j) [0..<length xs])"
    using r by (intro modify_rows assms(1)) auto
  then show ?thesis using r assms(1) by auto
qed

section \<open>The rows of a launch\<close>

lemma ApplyNTT_ok:
  assumes "0 < pc_batch ctx" and "0 < logN" and sz: "sz = limbsize - (if divides_mode mode then 1 else 0)" and "sz \<le> length limbs"
    and "\<And>j. j < sz \<Longrightarrow> \<exists>y. ntt_row (pc_consts ctx) dv od logN mode limbs sz op2 pt e ids j (limbs ! j) = Inr y \<and> Q j y"
  shows "\<exists>ys. ApplyNTT ctx dv od logN mode op2 pt e ids limbsize limbs = Some (Inr ys) \<and> length ys = length limbs \<and> (\<forall>j < sz. Q j (ys ! j))"
  using modify_rows_ok [where k = "ntt_row (pc_consts ctx) dv od logN mode limbs sz op2 pt e ids" and xs = limbs and Q = Q, OF assms(4,5)] assms(2) unfolding ApplyNTT_def Let_def sz [symmetric] batch_loop_rows [OF assms(1)] by auto

lemma lp_NTT_ok:
  assumes "0 < pc_batch ctx" and lev: "lev \<le> int (pc_L ctx)" and sz: "sz = getLimbSize ctx lev - (if divides_mode mode then 1 else 0)"
    and limbs: "GetLogN p = Inr logN" "0 < logN" "sz \<le> length (lp_limb p)" "0 < getLimbSize ctx lev"
    and "\<And>j. j < sz \<Longrightarrow> \<exists>y. ntt_row (pc_consts ctx) dv od logN mode (lp_limb p) sz op2 pt e (pid ctx) j (lp_limb p ! j) = Inr y \<and> Q j y"
  shows "\<exists>ys. lp_NTT ctx dv od mode op2 pt e lev p = Some (Inr (p\<lparr>lp_limb := ys\<rparr>)) \<and> length ys = length (lp_limb p) \<and> (\<forall>j < sz. Q j (ys ! j))"
proof -
  obtain ys where ys: "ApplyNTT ctx dv od logN mode op2 pt e (pid ctx) (getLimbSize ctx lev) (lp_limb p) = Some (Inr ys)"
      "length ys = length (lp_limb p)" "\<forall>j < sz. Q j (ys ! j)"
    using ApplyNTT_ok [where ids = "pid ctx", OF assms(1) limbs(2) sz limbs(3) assms(8)] by blast
  have "p\<lparr>lp_limb := ys, lp_special := lp_special p\<rparr> = p\<lparr>lp_limb := ys\<rparr>" by simp
  then have "lp_NTT ctx dv od mode op2 pt e lev p = Some (Inr (p\<lparr>lp_limb := ys\<rparr>))"
    using ys(1) lev limbs(1,4) by (simp add: lp_NTT_def Let_def)
  then show ?thesis using ys(2,3) by blast
qed

lemma ApplyINTT_ok:
  assumes "0 < pc_batch ctx" and n: "0 < logN" "logN \<le> hc_logN (pc_consts ctx)"
    and t: "\<And>j. j < m \<Longrightarrow> tables_ready (pc_consts ctx) (ids j) (dv_psi dv (ids j)) \<and> inverse_orders_ok logN (od j)"
    and xs: "rows_evals (pc_consts ctx) dv logN ids m xs X"
  shows "\<exists>ys. ApplyINTT ctx dv od logN ids m xs = Some (Inr ys) \<and> length ys = length xs
    \<and> (\<forall>j < m. \<exists>y. ys ! j = L64 y \<and> coeffs (pc_consts ctx) (ids j) (2 ^ logN) X y)"
proof -
  have "\<exists>y. on64 (limb_INTT (pc_consts ctx) dv (od j) logN (ids j)) (xs ! j) = Inr y
      \<and> (\<exists>z. y = L64 z \<and> coeffs (pc_consts ctx) (ids j) (2 ^ logN) X z)" if j: "j < m" for j
  proof -
    from xs j have "limb_evals (pc_consts ctx) dv logN (ids j) X (xs ! j)" by (simp add: rows_evals_def)
    then obtain x where x: "xs ! j = L64 x" "evals (pc_consts ctx) (ids j) (dv_psi dv (ids j)) (logN - 1) X x" by (rule limb_evalsE)
    obtain r where "limb_INTT (pc_consts ctx) dv (od j) logN (ids j) x = Inr r" "coeffs (pc_consts ctx) (ids j) (2 ^ logN) X r"
      using limb_INTT_ok [OF _ n _ x(2)] t [OF j] by blast
    then show ?thesis using x(1) by (simp add: on64_def)
  qed
  note rows = modify_rows_ok [where k = "\<lambda>j. on64 (limb_INTT (pc_consts ctx) dv (od j) logN (ids j))" and xs = xs
      and Q = "\<lambda>j y. \<exists>z. y = L64 z \<and> coeffs (pc_consts ctx) (ids j) (2 ^ logN) X z" and stop = m, OF _ this]
  show ?thesis using rows xs n(1) unfolding ApplyINTT_def batch_loop_rows [OF assms(1)] rows_evals_def by auto
qed

lemma ntt_row_rescale:
  assumes t: "tables_ready c (ids j) (dv_psi dv (ids j))" and n: "0 < logN" "logN \<le> hc_logN c" and od: "orders_ok logN (od j)"
    and l: "prime_entry c (ids sz)" and v: "inverse_entry c (ids j) (gl_q_inv (dv_globals dv) (MAXP * ids sz + ids j)) (iprime c (ids sz))"
    and top: "sz < length limbs" "limbs ! sz = L64 d" "coeffs c (ids sz) (2 ^ logN) X d" and x: "limb_evals c dv logN (ids j) X x"
  shows "\<exists>y. ntt_row c dv od logN NTT_RESCALE limbs sz op2 pt e ids j x = Inr y
    \<and> limb_evals c dv logN (ids j) (\<lambda>k. round_div (iprime c (ids sz)) (X k)) y"
proof -
  obtain z where z: "x = L64 z" "evals c (ids j) (dv_psi dv (ids j)) (logN - 1) X z" using x by (rule limb_evalsE)
  from limb_NTT_rescale [OF t n od l v top(3) z(2), of "[]" e] show ?thesis
    using top z(1) by (auto simp: ntt_row_def ntt_source_def divides_mode_def limb_at_def on64_def limb_evals_def)
qed

lemma ntt_row_moddown:
  assumes t: "tables_ready c (ids j) (dv_psi dv (ids j))" and n: "0 < logN" "logN \<le> hc_logN c" and od: "orders_ok logN (od j)"
    and v: "inverse_entry c (ids j) (hc_P_inv c ! ids j) P" "hc_P_inv_shoup c ! ids j = shoup_precomp (hc_P_inv c ! ids j) (hc_primes c ! ids j)"
    and op2: "j < length op2" "op2 ! j = L64 d" "coeffs c (ids j) (2 ^ logN) Y d" and x: "limb_evals c dv logN (ids j) X x"
    and w: "\<And>k. k < 2 ^ logN \<Longrightarrow> X k - Y k = P * W k"
  shows "\<exists>y. ntt_row c dv od logN NTT_MODDOWN limbs sz op2 pt e ids j x = Inr y \<and> limb_evals c dv logN (ids j) W y"
proof -
  obtain z where z: "x = L64 z" "evals c (ids j) (dv_psi dv (ids j)) (logN - 1) X z" using x by (rule limb_evalsE)
  from limb_NTT_moddown [OF t n od v op2(3) z(2) w, of "[]" e 0] show ?thesis
    using op2 z(1) by (auto simp: ntt_row_def ntt_source_def divides_mode_def limb_at_def on64_def limb_evals_def)
qed

section \<open>Dividing by the last prime\<close>

text \<open>The device: the tables of its primes, the inverses of the last prime, and the orders of the launches.\<close>

definition rescale_ready :: "PartCtx \<Rightarrow> Device \<Rightarrow> nat \<Rightarrow> int \<Rightarrow> bool" where
  "rescale_ready ctx dv logN lev \<longleftrightarrow> (let c = pc_consts ctx; top = getLimbSize ctx lev - 1
     in 0 < pc_batch ctx \<and> 0 < logN \<and> logN \<le> hc_logN c \<and> lev \<le> int (pc_L ctx) \<and> 1 < getLimbSize ctx lev
        \<and> (\<forall>j \<le> top. tables_ready c (pid ctx j) (dv_psi dv (pid ctx j)))
        \<and> (\<forall>j < top. inverse_entry c (pid ctx j) (gl_q_inv (dv_globals dv) (MAXP * pid ctx top + pid ctx j)) (iprime c (pid ctx top))))"

lemma modify_at_top: "k < length xs \<Longrightarrow> f (xs ! k) = Inr y \<Longrightarrow> modify_at k f xs = Inr (xs[k := y])"
  by (simp add: modify_at_def limb_at_def)

lemma lp_rescale_ok:
  assumes r: "rescale_ready ctx dv logN lev" and od: "inverse_orders_ok logN od_top" "\<forall>j < getLimbSize ctx lev - 1. orders_ok logN (od j)"
    and slots: "2 * slots = 2 ^ logN" and x: "rows_evals (pc_consts ctx) dv logN (pid ctx) (getLimbSize ctx lev) (lp_limb p) X"
  shows "\<exists>ys. lp_rescale ctx dv gpus own_aux od_top od slots lev p = Some (Inr (p\<lparr>lp_limb := ys\<rparr>)) \<and> length ys = length (lp_limb p)
    \<and> rows_evals (pc_consts ctx) dv logN (pid ctx) (getLimbSize ctx lev - 1) ys
        (\<lambda>k. round_div (iprime (pc_consts ctx) (pid ctx (getLimbSize ctx lev - 1))) (X k))"
proof -
  let ?c = "pc_consts ctx"
  define top where "top = getLimbSize ctx lev - 1"
  have r': "0 < pc_batch ctx" "0 < logN" "logN \<le> hc_logN ?c" "lev \<le> int (pc_L ctx)" "1 < getLimbSize ctx lev"
    and tab: "j \<le> top \<Longrightarrow> tables_ready ?c (pid ctx j) (dv_psi dv (pid ctx j))"
    and inv: "j < top \<Longrightarrow> inverse_entry ?c (pid ctx j) (gl_q_inv (dv_globals dv) (MAXP * pid ctx top + pid ctx j)) (iprime ?c (pid ctx top))" for j
    using r by (simp_all add: rescale_ready_def Let_def top_def)
  have top: "top < length (lp_limb p)" "limb_evals ?c dv logN (pid ctx top) X (lp_limb p ! top)" "0 < getLimbSize ctx lev" "top < getLimbSize ctx lev"
    using x r'(5) by (auto simp: rows_evals_def top_def)
  obtain z where z: "lp_limb p ! top = L64 z" "evals ?c (pid ctx top) (dv_psi dv (pid ctx top)) (logN - 1) X z" using top(2) by (rule limb_evalsE)
  obtain d where d: "limb_INTT ?c dv od_top logN (pid ctx top) z = Inr d" "coeffs ?c (pid ctx top) (2 ^ logN) X d"
    using limb_INTT_ok [OF tab [OF le_refl] r'(2,3) od(1) z(2)] by blast
  define limbs where "limbs = (lp_limb p)[top := L64 d]"
  have m: "modify_at top (on64 (limb_INTT ?c dv od_top logN (pid ctx top))) (lp_limb p) = Inr limbs"
    unfolding limbs_def by (rule modify_at_top [OF top(1)]) (simp add: on64_def z(1) d(1))
  have pe: "prime_entry ?c (pid ctx top)" using tab [OF le_refl] by (simp add: tables_ready_def psi_ok_def)
  have len: "length limbs = length (lp_limb p)" "limbs ! top = L64 d" "top < length limbs" using top(1) by (simp_all add: limbs_def)
  let ?Q = "\<lambda>j y. limb_evals ?c dv logN (pid ctx j) (\<lambda>k. round_div (iprime ?c (pid ctx top)) (X k)) y"
  have row: "\<exists>y. ntt_row ?c dv od logN NTT_RESCALE limbs top [] [] 0 (pid ctx) j (limbs ! j) = Inr y \<and> ?Q j y" if j: "j < top" for j
  proof -
    have "limb_evals ?c dv logN (pid ctx j) X (limbs ! j)" using x j top(4) by (simp add: rows_evals_def limbs_def)
    moreover have "tables_ready ?c (pid ctx j) (dv_psi dv (pid ctx j))" "orders_ok logN (od j)" using j tab od(2) by (simp_all add: top_def)
    ultimately show ?thesis by (intro ntt_row_rescale [OF _ r'(2,3) _ pe inv [OF j] len(3,2) d(2)])
  qed
  have G: "GetLogN p = Inr logN" by (rule GetLogN_evals [OF x top(3) r'(2)])
  have bw: "nat (bit_width_nat (2 * slots)) - 1 = logN" by (simp add: slots bit_width_power)
  have G': "GetLogN (p\<lparr>lp_limb := limbs\<rparr>) = Inr logN"
  proof -
    have "limbs ! 0 = lp_limb p ! 0" using r'(5) by (simp add: limbs_def top_def)
    moreover have "lp_limb p \<noteq> []" using top(1) by auto
    ultimately show ?thesis using G len(1) by (simp add: GetLogN_def limb_at_def)
  qed
  have "\<exists>ys. (if logN \<ge> NTT_1D_LOG_THRESHOLD \<and> \<not> own_aux
                then thenO (Some (launch (\<lambda>j. modify_at j (ntt_row ?c dv od logN NTT_RESCALE limbs top [] [] 0 (pid ctx) j)) 0 top limbs))
                       (\<lambda>limbs. Some (Inr (p\<lparr>lp_limb := limbs\<rparr>)))
                else lp_NTT ctx dv od NTT_RESCALE [] [] 0 lev (p\<lparr>lp_limb := limbs\<rparr>)) = Some (Inr (p\<lparr>lp_limb := ys\<rparr>))
      \<and> length ys = length (lp_limb p) \<and> (\<forall>j < top. ?Q j (ys ! j))"
  proof (cases "logN \<ge> NTT_1D_LOG_THRESHOLD \<and> \<not> own_aux")
    case True
    from modify_rows_ok [where k = "ntt_row ?c dv od logN NTT_RESCALE limbs top [] [] 0 (pid ctx)" and xs = limbs and Q = ?Q and stop = top, OF _ row] len
    obtain ys where "launch (\<lambda>j. modify_at j (ntt_row ?c dv od logN NTT_RESCALE limbs top [] [] 0 (pid ctx) j)) 0 top limbs = Inr ys"
      "length ys = length (lp_limb p)" "\<forall>j < top. ?Q j (ys ! j)"
      unfolding launch_def by (auto simp only: add_0 less_imp_le)
    then show ?thesis using True by (intro exI [of _ ys]) simp
  next
    case False
    have sz: "top = getLimbSize ctx lev - (if divides_mode NTT_RESCALE then 1 else 0)" by (simp add: top_def divides_mode_def)
    from lp_NTT_ok [OF r'(1,4) sz G' r'(2), of dv od "[]" "[]" 0 ?Q] row len(1,3) top(3) show ?thesis using False by auto
  qed
  then obtain ys where ys: "(if logN \<ge> NTT_1D_LOG_THRESHOLD \<and> \<not> own_aux
                then thenO (Some (launch (\<lambda>j. modify_at j (ntt_row ?c dv od logN NTT_RESCALE limbs top [] [] 0 (pid ctx) j)) 0 top limbs))
                       (\<lambda>limbs. Some (Inr (p\<lparr>lp_limb := limbs\<rparr>)))
                else lp_NTT ctx dv od NTT_RESCALE [] [] 0 lev (p\<lparr>lp_limb := limbs\<rparr>)) = Some (Inr (p\<lparr>lp_limb := ys\<rparr>))"
      "length ys = length (lp_limb p)" "\<forall>j < top. ?Q j (ys ! j)" by blast
  have r: "lp_rescale ctx dv gpus own_aux od_top od slots lev p = Some (Inr (p\<lparr>lp_limb := ys\<rparr>))"
    unfolding lp_rescale_def Let_def top_def [symmetric] using r'(5) top(1) G bw m ys(1) by (simp add: assertO_def limb_at_def)
  have "top \<le> length ys" using ys(2) top(1) by simp
  then have "length ys = length (lp_limb p) \<and> rows_evals ?c dv logN (pid ctx) top ys (\<lambda>k. round_div (iprime ?c (pid ctx top)) (X k))"
    using ys(2,3) by (simp add: rows_evals_def)
  with r show ?thesis unfolding top_def by blast
qed

section \<open>The product with a plaintext\<close>

definition product_evals :: "Constants \<Rightarrow> Device \<Rightarrow> nat \<Rightarrow> nat \<Rightarrow> (nat \<Rightarrow> nat) \<Rightarrow> nat \<Rightarrow> limb list \<Rightarrow> limb list \<Rightarrow> (nat \<Rightarrow> int) \<Rightarrow> bool" where
  "product_evals c dv logN s ids m xs ms X \<longleftrightarrow> m \<le> length xs \<and> m \<le> length ms
     \<and> (\<forall>j < m. \<exists>x y. xs ! j = L64 x \<and> ms ! j = L64 y \<and> length x = 2 ^ logN \<and> 2 ^ logN \<le> length y * 2 ^ s
          \<and> evals c (ids j) (dv_psi dv (ids j)) (logN - 1) X (pt_product c (ids j) s x y))"

lemma Mult_pt_product:
  assumes "ISU64 c i" and "logstride n e = Inr s" and "length x = n" and "n \<le> length y * 2 ^ s"
  shows "Mult_k c i n e (L64 x) (L64 y) = Inr (L64 (pt_product c i s x y))"
proof -
  have "threads_run n (\<lambda>v. modmult_barrett c i (v ! 0) (v ! 1)) [(x, 0), (y, s)]
      = Inr (map (\<lambda>idx. modmult_barrett c i (x ! idx) (y ! (idx div 2 ^ s))) [0..<n])"
    using assms(3,4) by (subst threads_run_ok) (auto intro: less_mult_imp_div_less less_le_trans)
  then show ?thesis using assms by (simp add: Mult_k_def row64_def pt_product_def)
qed

lemma lp_multPt_ok:
  assumes r: "rescale_ready ctx dv logN lev" and od: "inverse_orders_ok logN od_top" "\<forall>j < getLimbSize ctx lev - 1. orders_ok logN (od j)"
    and s: "logstride (2 ^ logN) (2 * slots) = Inr s" and w: "ISU64 (pc_consts ctx) (pid ctx (getLimbSize ctx lev - 1))"
    and x: "product_evals (pc_consts ctx) dv logN s (pid ctx) (getLimbSize ctx lev) (lp_limb p) (lp_limb pt) X"
  shows "\<exists>ys. lp_multPt ctx dv od_top od lev pt slots p = Some (Inr (p\<lparr>lp_limb := ys\<rparr>)) \<and> length ys = length (lp_limb p)
    \<and> rows_evals (pc_consts ctx) dv logN (pid ctx) (getLimbSize ctx lev - 1) ys
        (\<lambda>k. round_div (iprime (pc_consts ctx) (pid ctx (getLimbSize ctx lev - 1))) (X k))"
proof -
  let ?c = "pc_consts ctx"
  define top where "top = getLimbSize ctx lev - 1"
  have r': "0 < pc_batch ctx" "0 < logN" "logN \<le> hc_logN ?c" "lev \<le> int (pc_L ctx)" "1 < getLimbSize ctx lev"
    and tab: "j \<le> top \<Longrightarrow> tables_ready ?c (pid ctx j) (dv_psi dv (pid ctx j))"
    and inv: "j < top \<Longrightarrow> inverse_entry ?c (pid ctx j) (gl_q_inv (dv_globals dv) (MAXP * pid ctx top + pid ctx j)) (iprime ?c (pid ctx top))" for j
    using r by (simp_all add: rescale_ready_def Let_def top_def)
  have x': "top < length (lp_limb p)" "top < length (lp_limb pt)" "getLimbSize ctx lev \<le> length (lp_limb pt)"
    and xy: "\<exists>x y. lp_limb p ! j = L64 x \<and> lp_limb pt ! j = L64 y \<and> length x = 2 ^ logN \<and> 2 ^ logN \<le> length y * 2 ^ s
          \<and> evals ?c (pid ctx j) (dv_psi dv (pid ctx j)) (logN - 1) X (pt_product ?c (pid ctx j) s x y)" if "j \<le> top" for j
    using x r'(5) that by (auto simp: product_evals_def top_def)
  obtain u v where uv: "lp_limb p ! top = L64 u" "lp_limb pt ! top = L64 v" "length u = 2 ^ logN" "2 ^ logN \<le> length v * 2 ^ s"
      "evals ?c (pid ctx top) (dv_psi dv (pid ctx top)) (logN - 1) X (pt_product ?c (pid ctx top) s u v)"
    using xy [OF le_refl] by blast
  obtain d where d: "limb_INTT ?c dv od_top logN (pid ctx top) (pt_product ?c (pid ctx top) s u v) = Inr d" "coeffs ?c (pid ctx top) (2 ^ logN) X d"
    using limb_INTT_ok [OF tab [OF le_refl] r'(2,3) od(1) uv(5)] by blast
  define limbs where "limbs = (lp_limb p)[top := L64 d]"
  have len: "length limbs = length (lp_limb p)" "limbs ! top = L64 d" "top < length limbs" using x'(1) [OF le_refl] by (simp_all add: limbs_def)
  have m: "modify_at top (\<lambda>l. bindE (limb_at (lp_limb pt) top) (\<lambda>m.
      bindE (Mult_k ?c (pid ctx top) (limb_size l) (2 * slots) l m) (\<lambda>l.
      on64 (limb_INTT ?c dv od_top (nat (bit_width_nat (limb_size l)) - 1) (pid ctx top)) l))) (lp_limb p) = Inr limbs"
    unfolding limbs_def
  proof (rule modify_at_top [OF x'(1) [OF le_refl]])
    have "limb_size (L64 u) = 2 ^ logN" "limb_size (L64 (pt_product ?c (pid ctx top) s u v)) = 2 ^ logN"
      using uv(3) by (simp_all add: limb_size_def pt_product_def)
    then show "bindE (limb_at (lp_limb pt) top) (\<lambda>m. bindE (Mult_k ?c (pid ctx top) (limb_size (lp_limb p ! top)) (2 * slots) (lp_limb p ! top) m) (\<lambda>l.
        on64 (limb_INTT ?c dv od_top (nat (bit_width_nat (limb_size l)) - 1) (pid ctx top)) l)) = Inr (L64 d)"
      using Mult_pt_product [OF w [folded top_def] s uv(3,4)] x'(2) [OF le_refl] uv(1,2) d(1)
      by (simp add: limb_at_def on64_def bit_width_power nat_add_distrib)
  qed
  have pe: "prime_entry ?c (pid ctx top)" using tab [OF le_refl] by (simp add: tables_ready_def psi_ok_def)
  let ?Q = "\<lambda>j y. limb_evals ?c dv logN (pid ctx j) (\<lambda>k. round_div (iprime ?c (pid ctx top)) (X k)) y"
  have row: "\<exists>y. ntt_row ?c dv od logN NTT_MULTPT limbs top [] (lp_limb pt) (2 * slots) (pid ctx) j (limbs ! j) = Inr y \<and> ?Q j y" if j: "j < top" for j
  proof -
    obtain a b where ab: "lp_limb p ! j = L64 a" "lp_limb pt ! j = L64 b" "length a = 2 ^ logN"
        "evals ?c (pid ctx j) (dv_psi dv (pid ctx j)) (logN - 1) X (pt_product ?c (pid ctx j) s a b)"
      using xy [of j] j by auto
    have t: "tables_ready ?c (pid ctx j) (dv_psi dv (pid ctx j))" "orders_ok logN (od j)" using j tab od(2) by (simp_all add: top_def)
    obtain r where "limb_NTT ?c dv (od j) logN NTT_MULTPT (pid ctx j) d a b (2 * slots) (int (pid ctx top)) = Inr r"
        "evals ?c (pid ctx j) (dv_psi dv (pid ctx j)) (logN - 1) (\<lambda>k. round_div (iprime ?c (pid ctx top)) (X k)) r"
      using limb_NTT_multpt [OF t(1) r'(2,3) t(2) pe inv [OF j] d(2) s ab(3,4)] by blast
    moreover have "limbs ! j = L64 a" using j ab(1) by (simp add: limbs_def)
    moreover have "j < length (lp_limb pt)" using j x'(2) [OF le_refl] by simp
    ultimately show ?thesis
      using ab(2) len(2,3) by (simp add: ntt_row_def ntt_source_def divides_mode_def limb_at_def on64_def limb_evals_def)
  qed
  have G: "GetLogN (p\<lparr>lp_limb := limbs\<rparr>) = Inr logN"
  proof -
    have "limbs ! 0 = lp_limb p ! 0" "lp_limb p \<noteq> []" using r'(5) x'(1) [OF le_refl] by (auto simp: limbs_def top_def)
    moreover obtain a where "lp_limb p ! 0 = L64 a" "length a = 2 ^ logN" using xy [of 0] by auto
    ultimately show ?thesis using len(1) by (simp add: GetLogN_def limb_at_def limb_size_def bit_width_power)
  qed
  have sz: "top = getLimbSize ctx lev - (if divides_mode NTT_MULTPT then 1 else 0)" by (simp add: top_def divides_mode_def)
  have pos: "top \<le> length limbs" "0 < getLimbSize ctx lev" using len(3) r'(5) by simp_all
  obtain ys where ys: "lp_NTT ctx dv od NTT_MULTPT [] (lp_limb pt) (2 * slots) lev (p\<lparr>lp_limb := limbs\<rparr>) = Some (Inr (p\<lparr>lp_limb := ys\<rparr>))"
      "length ys = length (lp_limb p)" "\<forall>j < top. ?Q j (ys ! j)"
    using lp_NTT_ok [where p = "p\<lparr>lp_limb := limbs\<rparr>" and Q = ?Q and dv = dv and od = od and ?op2.0 = "[]" and pt = "lp_limb pt" and e = "2 * slots",
        OF r'(1,4) sz G r'(2) _ pos(2)] row pos(1) len(1) by auto
  have e: "lp_multPt ctx dv od_top od lev pt slots p = Some (Inr (p\<lparr>lp_limb := ys\<rparr>))"
    unfolding lp_multPt_def Let_def top_def [symmetric] m using x'(3) [OF le_refl] r'(5) ys(1) by (simp add: assertO_def)
  have "top \<le> length ys" using ys(2) x'(1) [OF le_refl] by simp
  then have "length ys = length (lp_limb p) \<and> rows_evals ?c dv logN (pid ctx) top ys (\<lambda>k. round_div (iprime ?c (pid ctx top)) (X k))"
    using ys(2,3) by (simp add: rows_evals_def)
  with e show ?thesis unfolding top_def by blast
qed

end
