(* ===== verification/BaseConvProps.thy ===== *)
theory BaseConvProps
  imports BaseConvCorrect RnsDemo
begin

text \<open>
  The properties of the base conversions, and the contexts on which they are instantiated: the digit with the
  primes 17 and 97, converted to the special prime 41, and the way from 41 back to 17 and 97.
\<close>

section \<open>A digit of two primes\<close>

definition pair_layout :: KernelLayout where
  "pair_layout = \<lparr>kl_flattened = id, kl_num_from = (\<lambda>_ _. 2), kl_digit_from = (\<lambda>_ i. i), kl_num_to = (\<lambda>_ _. 1), kl_digit_to = (\<lambda>_ _. 2)\<rparr>"

text \<open>The inverses of 97 modulo 17 and of 17 modulo 97, the residues of both modulo 41, and the multiples of
  \<open>17 * 97\<close>; for the special prime, the residues of its multiples.\<close>

definition pair_globals :: Globals where
  "pair_globals = \<lparr>gl_q_inv = (\<lambda>_. 0),
     gl_ModDown_pre_scale = (\<lambda>_. 1), gl_ModDown_pre_scale_shoup = (\<lambda>_. shoup_precomp 1 41), gl_ModDown_matrix = (\<lambda>_. 1),
     gl_ExactModDown_alphaP = (\<lambda>k. if k = 64 then 7 else if k = 65 then 41 else 0), gl_ExactModDown_pInv = (\<lambda>_. 1 / 41),
     gl_ExactModUp_alphaQ = (\<lambda>k. if k = 66 then 9 else if k = 130 then 18 else 0), gl_ExactModUp_qInv = (\<lambda>i. if i = 0 then 1 / 17 else 1 / 97),
     gl_DecompAndModUp_pre_scale = (\<lambda>s. if s = 64 then 10 else 40),
     gl_DecompAndModUp_pre_scale_shoup = (\<lambda>s. if s = 64 then shoup_precomp 10 17 else shoup_precomp 40 97),
     gl_DecompAndModUp_matrix = (\<lambda>s. if s = 4098 then 15 else 17)\<rparr>"

definition exact_doubles :: Doubles where
  "exact_doubles = \<lparr>fp_of = (\<lambda>x. real (unat x)), fp_mac = (\<lambda>s x y. s + x * y)\<rparr>"

lemma exact_doubles_ok: "doubles_ok exact_doubles"
proof -
  have "0 \<le> real (unat x)" for x :: u64 by (rule of_nat_0_le_iff)
  then show ?thesis unfolding doubles_ok_def exact_doubles_def by simp
qed

lemma pair_ids: "digit_ids pair_layout 0 2 = [0, Suc 0]" "special_ids two_constants = [2]"
  by (simp_all add: digit_ids_def special_ids_def pair_layout_def two_constants_ok upt_rec)

lemma pair_primes: "src_primes two_constants [0, Suc 0] = [17, 97]" "src_primes two_constants [2] = [41]"
  using two_iprime by (simp_all add: src_primes_def)

lemma pair_hats: "base_hat [17, 97] 0 = 97" "base_hat [17, 97] (Suc 0) = 17" "base_hat [41] 0 = 1"
    "base_product [17, 97] = 1649" "base_product [41] = 41"
proof -
  have "{..<length [17, 97 :: int]} - {0} = {1}" "{..<length [17, 97 :: int]} - {Suc 0} = {0}" "{..<length [41 :: int]} - {0} = {}" by auto
  then show "base_hat [17, 97] 0 = 97" "base_hat [17, 97] (Suc 0) = 17" "base_hat [41] 0 = 1"
    unfolding base_hat_def by (simp_all only: prod.empty) simp_all
  show "base_product [17, 97] = 1649" "base_product [41] = 41" by (simp_all add: lessThan_Suc)
qed

lemma coprime_pair: "coprime_base [17, 97]" "coprime_base [41]"
proof -
  have "coprime (17::int) 97" "coprime (97::int) 17" by code_simp+
  then show "coprime_base [17, 97]" "coprime_base [41]" by (auto simp: coprime_base_def less_Suc_eq)
qed

lemma pair_source: "modup_source two_constants pair_layout pair_globals 0 2"
proof -
  have "prime_entry two_constants 0" "prime_entry two_constants (Suc 0)" by (simp_all add: two_constants_ok)
  then have "conv_source two_constants [0, Suc 0] (\<lambda>i. if i = 0 then 10 else 40) (\<lambda>i. if i = 0 then shoup_precomp 10 17 else shoup_precomp 40 97)"
    using coprime_pair(1) two_constants_ok(3,4) by (auto simp: conv_source_def pair_primes pair_hats less_Suc_eq)
  moreover have "modup_pre pair_layout pair_globals 0 2 = (\<lambda>i. if i = 0 then 10 else 40)"
    by (auto simp: modup_pre_def pair_layout_def pair_globals_def MODUPIDX_SCALE_def MAXP_def)
  moreover have "(\<lambda>i. gl_DecompAndModUp_pre_scale_shoup pair_globals (MODUPIDX_SCALE 0 (kl_num_from pair_layout 0 (2 - 1) - 1) (kl_digit_from pair_layout 0 i)))
      = (\<lambda>i. if i = 0 then shoup_precomp 10 17 else shoup_precomp 40 97)"
    by (auto simp: pair_layout_def pair_globals_def MODUPIDX_SCALE_def MAXP_def)
  ultimately show ?thesis by (simp only: modup_source_def pair_ids)
qed

lemma pair_target: "modup_target two_constants pair_layout pair_globals 0 2 2"
proof -
  have "(\<Sum>i<length [0, Suc 0]. iprime two_constants ([0, Suc 0] ! i)) * iprime two_constants 2 \<le> 2 ^ 128"
    using two_iprime by (simp add: lessThan_Suc)
  then have "conv_target two_constants [0, Suc 0] 2 (\<lambda>i. if i = 0 then 15 else 17)"
    using two_limb_prime [of 2] two_constants_ok(5) by (auto simp: conv_target_def pair_primes pair_hats less_Suc_eq)
  moreover have "(\<lambda>i. gl_DecompAndModUp_matrix pair_globals (MODUPIDX_MATRIX (2 - 1) 0 (kl_digit_from pair_layout 0 i) 2)) = (\<lambda>i. if i = 0 then 15 else 17)"
    by (auto simp: pair_layout_def pair_globals_def MODUPIDX_MATRIX_def MAXP_def)
  ultimately show ?thesis by (simp only: modup_target_def pair_ids two_constants_ok simp_thms order_refl)
qed

lemma special_source: "moddown_source two_constants pair_globals"
  using coprime_pair(2) two_constants_ok(1) [of 2] two_constants_ok(5)
  by (auto simp: moddown_source_def conv_source_def pair_ids pair_primes pair_hats pair_globals_def)

lemma special_target: "j < 2 \<Longrightarrow> moddown_target two_constants pair_globals j"
  using two_limb_prime [of j] two_iprime
  by (auto simp: moddown_target_def conv_target_def pair_ids pair_primes pair_hats pair_globals_def MODDOWN_MATRIX_def less_2_cases_iff)

text \<open>The limbs of a vector.\<close>

lemma demo_rows:
  "limbs_rep two_constants (kl_digit_from pair_layout 0) 0 2 4 [demo_limb 17 X, demo_limb 97 X] X"
  "limbs_rep two_constants (\<lambda>i. i + hc_L two_constants) 0 (hc_K two_constants) 4 [demo_limb 41 X] X"
proof -
  note l = demo_limb_ok [of 0 17 X] demo_limb_ok [of "Suc 0" 97 X] demo_limb_ok [of 2 41 X] two_iprime
  show "limbs_rep two_constants (kl_digit_from pair_layout 0) 0 2 4 [demo_limb 17 X, demo_limb 97 X] X"
    using l by (auto simp: limbs_rep_def pair_layout_def less_2_cases_iff)
  have "hc_K two_constants \<le> 1 \<and> (j < hc_K two_constants \<longrightarrow> j + hc_L two_constants = 2 \<and> [demo_limb 41 X] ! j = demo_limb 41 X)" for j
    by (simp add: two_constants_ok)
  with l(3,6) show "limbs_rep two_constants (\<lambda>i. i + hc_L two_constants) 0 (hc_K two_constants) 4 [demo_limb 41 X] X"
    unfolding limbs_rep_def by auto
qed

lemma demo_shaped: "i < 3 \<Longrightarrow> limb_shaped two_constants i 4 (demo_limb p X)"
  by (simp add: limb_shaped_def demo_limb_def two_constants_ok)

section \<open>Raising the modulus\<close>

text \<open>C9: The decomposition kernel takes the residues of a vector for the primes of a digit to the primes of the
  rest of the extended basis: it writes the residues of a vector that is congruent to the given one modulo
  the product of the digit and lies between zero and that product times the number of its primes. The
  variant that counts overflows on doubles writes the residues of a vector that exceeds half the product
  by at most a part in \<open>2^37\<close>, and of the given vector itself when this is within the range.\<close>

theorem modup_conversions:
  assumes "modup_source c t g d n" and "algo \<noteq> ALGO_NONE"
    and "limbs_rep c (kl_digit_from t d) 0 (kl_num_from t d (n - 1)) N a X"
    and "n \<le> MAXP" and "0 < kl_num_from t d (n - 1)" and "kl_num_from t d (n - 1) \<le> MAXP" and "kl_num_to t d (n - 1) \<le> length b"
    and "\<And>j. j < kl_num_to t d (n - 1) \<Longrightarrow> limb_shaped c (kl_digit_to t d j) N (b ! j) \<and> modup_target c t g d n (kl_digit_to t d j)
      \<and> conv_alpha c (digit_ids t d n) (kl_digit_to t d j) (\<lambda>a. gl_ExactModUp_alphaQ g (a * MAXP + kl_digit_to t d j))"
    and "doubles_ok fp" and "rcp_ok (src_primes c (digit_ids t d n)) (\<lambda>i. gl_ExactModUp_qInv g (kl_digit_from t d i))"
  defines "Q \<equiv> src_product c (digit_ids t d n)" and "k \<equiv> int (kl_num_from t d (n - 1))"
  shows "(\<exists>b' Y. DecompAndModUpConv c t g algo N a n b d = Inr b' \<and> limbs_rep c (kl_digit_to t d) 0 (kl_num_to t d (n - 1)) N b' Y
      \<and> (\<forall>u < N. Y u mod Q = X u mod Q \<and> 0 \<le> Y u \<and> Y u < k * Q))
    \<and> (\<exists>b' Y. ExactModUpConv c t g fp algo N a n b d = Inr b' \<and> limbs_rep c (kl_digit_to t d) 0 (kl_num_to t d (n - 1)) N b' Y
      \<and> (\<forall>u < N. Y u mod Q = X u mod Q \<and> \<bar>real_of_int (Y u)\<bar> \<le> (1 / 2 + 1 / 2 ^ 38) * Q
          \<and> (2 * \<bar>real_of_int (X u)\<bar> < (1 - 1 / 2 ^ 37) * Q \<longrightarrow> Y u = X u)))"
proof
  note s = assms(1) [unfolded modup_source_def]
  have ne: "digit_ids t d n \<noteq> []" using assms(5) by (simp add: digit_ids_def)
  have k64: "kl_num_from t d (n - 1) \<le> 64" using assms(6) by (simp add: MAXP_def)
  show "\<exists>b' Y. DecompAndModUpConv c t g algo N a n b d = Inr b' \<and> limbs_rep c (kl_digit_to t d) 0 (kl_num_to t d (n - 1)) N b' Y
      \<and> (\<forall>u < N. Y u mod Q = X u mod Q \<and> 0 \<le> Y u \<and> Y u < k * Q)"
  proof -
    obtain b' where "DecompAndModUpConv c t g algo N a n b d = Inr b'"
        "limbs_rep c (kl_digit_to t d) 0 (kl_num_to t d (n - 1)) N b' (\<lambda>u. column_sum c (digit_ids t d n) (modup_pre t g d n) (X u))"
      using DecompAndModUpConv_ok [OF assms(1-4,6,7)] assms(8) by blast
    moreover note column_sum_ok [OF s]
    ultimately show ?thesis using ne unfolding Q_def k_def digit_ids_simps(1) by blast
  qed
  have "column_of c (digit_ids t d n) (modup_pre t g d n) x (column_buff c (digit_ids t d n) (modup_pre t g d n) x)" for x
    by (rule column_of_buff_ok [OF s])
  with column_exact_ok [OF s assms(9,10), unfolded digit_ids_simps, OF k64]
  have Y: "column_exact c (digit_ids t d n) (modup_pre t g d n) fp (\<lambda>i. gl_ExactModUp_qInv g (kl_digit_from t d i)) x mod Q = x mod Q
      \<and> \<bar>real_of_int (column_exact c (digit_ids t d n) (modup_pre t g d n) fp (\<lambda>i. gl_ExactModUp_qInv g (kl_digit_from t d i)) x)\<bar> \<le> (1 / 2 + 1 / 2 ^ 38) * Q
      \<and> (2 * \<bar>real_of_int x\<bar> < (1 - 1 / 2 ^ 37) * Q
        \<longrightarrow> column_exact c (digit_ids t d n) (modup_pre t g d n) fp (\<lambda>i. gl_ExactModUp_qInv g (kl_digit_from t d i)) x = x)" for x
    unfolding Q_def by blast
  show "\<exists>b' Y. ExactModUpConv c t g fp algo N a n b d = Inr b' \<and> limbs_rep c (kl_digit_to t d) 0 (kl_num_to t d (n - 1)) N b' Y
      \<and> (\<forall>u < N. Y u mod Q = X u mod Q \<and> \<bar>real_of_int (Y u)\<bar> \<le> (1 / 2 + 1 / 2 ^ 38) * Q
          \<and> (2 * \<bar>real_of_int (X u)\<bar> < (1 - 1 / 2 ^ 37) * Q \<longrightarrow> Y u = X u))"
    using ExactModUpConv_ok [OF assms(1-3,9,10) k64 assms(7)] assms(8) Y by blast
qed

lemma modup_conversions_witness:
  "(\<exists>b' Y. DecompAndModUpConv two_constants pair_layout pair_globals ALGO_SHOUP 4
        [demo_limb 17 (\<lambda>u. 200 * int u - 300), demo_limb 97 (\<lambda>u. 200 * int u - 300)] 2 [demo_limb 41 (\<lambda>_. 0)] 0 = Inr b'
      \<and> limbs_rep two_constants (\<lambda>_. 2) 0 1 4 b' Y \<and> (\<forall>u < 4. Y u mod 1649 = (200 * int u - 300) mod 1649 \<and> 0 \<le> Y u \<and> Y u < 2 * 1649))
    \<and> (\<exists>b' Y. ExactModUpConv two_constants pair_layout pair_globals exact_doubles ALGO_SHOUP 4
        [demo_limb 17 (\<lambda>u. 200 * int u - 300), demo_limb 97 (\<lambda>u. 200 * int u - 300)] 2 [demo_limb 41 (\<lambda>_. 0)] 0 = Inr b'
      \<and> limbs_rep two_constants (\<lambda>_. 2) 0 1 4 b' Y \<and> (\<forall>u < 4. Y u = 200 * int u - 300))"
proof -
  let ?X = "\<lambda>u. 200 * int u - 300"
  have l: "kl_num_from pair_layout 0 (2 - 1) = 2" "kl_num_to pair_layout 0 (2 - 1) = 1" "kl_digit_to pair_layout 0 = (\<lambda>_. 2)"
      "kl_digit_from pair_layout 0 = (\<lambda>i. i)"
    by (simp_all add: pair_layout_def)
  have al: "conv_alpha two_constants (digit_ids pair_layout 0 2) 2 (\<lambda>a. gl_ExactModUp_alphaQ pair_globals (a * MAXP + 2))"
    using two_constants_ok(5) by (auto simp: conv_alpha_def pair_ids pair_primes pair_hats pair_globals_def MAXP_def le_Suc_eq)
  have rcp: "rcp_ok (src_primes two_constants (digit_ids pair_layout 0 2)) (\<lambda>i. gl_ExactModUp_qInv pair_globals (kl_digit_from pair_layout 0 i))"
    unfolding pair_ids pair_primes rcp_ok_def by (auto simp: pair_globals_def pair_layout_def less_Suc_eq)
  have Q: "src_product two_constants (digit_ids pair_layout 0 2) = 1649" by (simp only: pair_ids pair_primes pair_hats)
  have small: "2 * \<bar>real_of_int (?X u)\<bar> < (1 - 1 / 2 ^ 37) * real_of_int 1649" if "u < 4" for u
  proof -
    have "\<bar>real_of_int (?X u)\<bar> \<le> 300" using that by simp
    then show ?thesis by simp
  qed
  have alg: "ALGO_SHOUP \<noteq> ALGO_NONE" by simp
  have b: "kl_num_to pair_layout 0 (2 - 1) \<le> length [demo_limb 41 (\<lambda>_. 0)]" "(2::nat) \<le> MAXP" "0 < kl_num_from pair_layout 0 (2 - 1)"
      "kl_num_from pair_layout 0 (2 - 1) \<le> MAXP"
    unfolding l by (simp_all add: MAXP_def)
  have t: "limb_shaped two_constants (kl_digit_to pair_layout 0 j) 4 ([demo_limb 41 (\<lambda>_. 0)] ! j) \<and> modup_target two_constants pair_layout pair_globals 0 2 (kl_digit_to pair_layout 0 j)
      \<and> conv_alpha two_constants (digit_ids pair_layout 0 2) (kl_digit_to pair_layout 0 j) (\<lambda>a. gl_ExactModUp_alphaQ pair_globals (a * MAXP + kl_digit_to pair_layout 0 j))"
    if "j < kl_num_to pair_layout 0 (2 - 1)" for j
  proof -
    have "[demo_limb 41 (\<lambda>_. 0)] ! j = demo_limb 41 (\<lambda>_. 0)" using that unfolding l by simp
    then show ?thesis using pair_target al demo_shaped [of 2] unfolding l by simp
  qed
  have two: "int 2 = 2" by simp
  have rows: "limbs_rep two_constants (kl_digit_from pair_layout 0) 0 (kl_num_from pair_layout 0 (2 - 1)) 4 [demo_limb 17 ?X, demo_limb 97 ?X] ?X"
    unfolding l(1) by (rule demo_rows(1))
  from modup_conversions [OF pair_source alg rows b(2,3,4,1) t exact_doubles_ok rcp]
  show ?thesis unfolding Q l two using small by blast
qed

section \<open>Lowering the modulus\<close>

text \<open>C8: The conversion from the special primes to the primes of a device writes, for every limb, the residues of a
  vector that is congruent to the special limbs' vector modulo their product \<open>P\<close>: one between zero and
  \<open>K * P\<close> for \<open>K\<close> special primes, and with the count on doubles one that exceeds \<open>P / 2\<close> by at most a part
  in \<open>2^37\<close> and is the vector itself within the range.\<close>

theorem moddown_conversions:
  assumes "moddown_source c g" and "algo \<noteq> ALGO_NONE" and "limbs_rep c (\<lambda>i. i + hc_L c) 0 (hc_K c) N b X"
    and "0 < hc_K c" and "hc_K c \<le> 64" and "m \<le> length a"
    and "\<And>j. j < m \<Longrightarrow> limb_shaped c (kl_flattened t (init + j)) N (a ! j) \<and> moddown_target c g (kl_flattened t (init + j))
      \<and> conv_alpha c (special_ids c) (kl_flattened t (init + j)) (\<lambda>k. gl_ExactModDown_alphaP g (k * MAXP + kl_flattened t (init + j)))"
    and "doubles_ok fp" and "rcp_ok (src_primes c (special_ids c)) (\<lambda>i. gl_ExactModDown_pInv g (i + hc_L c))"
  defines "P \<equiv> src_product c (special_ids c)" and "k \<equiv> int (hc_K c)"
  shows "(\<exists>a' Y. ModDown2 c t g algo N a m b init = Inr a' \<and> limbs_rep c (\<lambda>j. kl_flattened t (init + j)) 0 m N a' Y
      \<and> (\<forall>u < N. Y u mod P = X u mod P \<and> 0 \<le> Y u \<and> Y u < k * P))
    \<and> (\<exists>a' Y. ExactModDown2 c t g fp algo N a m b init = Inr a' \<and> limbs_rep c (\<lambda>j. kl_flattened t (init + j)) 0 m N a' Y
      \<and> (\<forall>u < N. Y u mod P = X u mod P \<and> \<bar>real_of_int (Y u)\<bar> \<le> (1 / 2 + 1 / 2 ^ 38) * P
          \<and> (2 * \<bar>real_of_int (X u)\<bar> < (1 - 1 / 2 ^ 37) * P \<longrightarrow> Y u = X u)))"
proof
  note s = assms(1) [unfolded moddown_source_def]
  have ne: "special_ids c \<noteq> []" using assms(4) by (simp add: special_ids_def)
  show "\<exists>a' Y. ModDown2 c t g algo N a m b init = Inr a' \<and> limbs_rep c (\<lambda>j. kl_flattened t (init + j)) 0 m N a' Y
      \<and> (\<forall>u < N. Y u mod P = X u mod P \<and> 0 \<le> Y u \<and> Y u < k * P)"
  proof -
    obtain a' where "ModDown2 c t g algo N a m b init = Inr a'"
        "limbs_rep c (\<lambda>j. kl_flattened t (init + j)) 0 m N a' (\<lambda>u. column_sum c (special_ids c) (moddown_pre c g) (X u))"
      using ModDown2_ok [OF assms(1-3,6)] assms(7) by blast
    moreover note column_sum_ok [OF s]
    ultimately show ?thesis using ne unfolding P_def k_def special_ids_simps(1) by blast
  qed
  have Y: "column_exact c (special_ids c) (moddown_pre c g) fp (\<lambda>i. gl_ExactModDown_pInv g (i + hc_L c)) x mod P = x mod P
      \<and> \<bar>real_of_int (column_exact c (special_ids c) (moddown_pre c g) fp (\<lambda>i. gl_ExactModDown_pInv g (i + hc_L c)) x)\<bar> \<le> (1 / 2 + 1 / 2 ^ 38) * P
      \<and> (2 * \<bar>real_of_int x\<bar> < (1 - 1 / 2 ^ 37) * P
        \<longrightarrow> column_exact c (special_ids c) (moddown_pre c g) fp (\<lambda>i. gl_ExactModDown_pInv g (i + hc_L c)) x = x)" for x
    using column_exact_ok [OF s assms(8,9), unfolded special_ids_simps, OF assms(5) column_of_buff_ok [OF s]] unfolding P_def by blast
  show "\<exists>a' Y. ExactModDown2 c t g fp algo N a m b init = Inr a' \<and> limbs_rep c (\<lambda>j. kl_flattened t (init + j)) 0 m N a' Y
      \<and> (\<forall>u < N. Y u mod P = X u mod P \<and> \<bar>real_of_int (Y u)\<bar> \<le> (1 / 2 + 1 / 2 ^ 38) * P
          \<and> (2 * \<bar>real_of_int (X u)\<bar> < (1 - 1 / 2 ^ 37) * P \<longrightarrow> Y u = X u))"
    using ExactModDown2_ok [OF assms(1-3,8,9,5,6)] assms(7) Y by blast
qed

lemma moddown_conversions_witness:
  "(\<exists>a' Y. ModDown2 two_constants pair_layout pair_globals ALGO_BARRETT 4 [demo_limb 17 (\<lambda>_. 0), demo_limb 97 (\<lambda>_. 0)] 2
        [demo_limb 41 (\<lambda>u. 10 * int u - 15)] 0 = Inr a'
      \<and> limbs_rep two_constants (\<lambda>j. j) 0 2 4 a' Y \<and> (\<forall>u < 4. Y u mod 41 = (10 * int u - 15) mod 41 \<and> 0 \<le> Y u \<and> Y u < 41))
    \<and> (\<exists>a' Y. ExactModDown2 two_constants pair_layout pair_globals exact_doubles ALGO_BARRETT 4 [demo_limb 17 (\<lambda>_. 0), demo_limb 97 (\<lambda>_. 0)] 2
        [demo_limb 41 (\<lambda>u. 10 * int u - 15)] 0 = Inr a'
      \<and> limbs_rep two_constants (\<lambda>j. j) 0 2 4 a' Y \<and> (\<forall>u < 4. Y u = 10 * int u - 15))"
proof -
  let ?X = "\<lambda>u. 10 * int u - 15" and ?a = "[demo_limb 17 (\<lambda>_. 0), demo_limb 97 (\<lambda>_. 0)]"
  have l: "kl_flattened pair_layout (0 + j) = j" for j by (simp add: pair_layout_def)
  have al: "conv_alpha two_constants (special_ids two_constants) j (\<lambda>k. gl_ExactModDown_alphaP pair_globals (k * MAXP + j))" if "j < 2" for j
    using that two_iprime
    unfolding conv_alpha_def pair_ids pair_primes pair_hats by (auto simp: pair_globals_def MAXP_def le_Suc_eq less_2_cases_iff)
  have rcp: "rcp_ok (src_primes two_constants (special_ids two_constants)) (\<lambda>i. gl_ExactModDown_pInv pair_globals (i + hc_L two_constants))"
    unfolding pair_ids pair_primes rcp_ok_def by (simp add: pair_globals_def)
  have P: "src_product two_constants (special_ids two_constants) = 41" by (simp only: pair_ids pair_primes pair_hats)
  have small: "2 * \<bar>real_of_int (?X u)\<bar> < (1 - 1 / 2 ^ 37) * real_of_int 41" if "u < 4" for u
  proof -
    have "\<bar>real_of_int (?X u)\<bar> \<le> 15" using that by simp
    then show ?thesis by simp
  qed
  have alg: "ALGO_BARRETT \<noteq> ALGO_NONE" by simp
  have b: "0 < hc_K two_constants" "hc_K two_constants \<le> 64" "2 \<le> length ?a" "int (hc_K two_constants) * 41 = 41"
    by (simp_all add: two_constants_ok)
  have t: "limb_shaped two_constants (kl_flattened pair_layout (0 + j)) 4 (?a ! j) \<and> moddown_target two_constants pair_globals (kl_flattened pair_layout (0 + j))
      \<and> conv_alpha two_constants (special_ids two_constants) (kl_flattened pair_layout (0 + j)) (\<lambda>k. gl_ExactModDown_alphaP pair_globals (k * MAXP + kl_flattened pair_layout (0 + j)))"
    if "j < 2" for j
    unfolding l using that special_target [OF that] al [OF that] demo_shaped [of j] by (auto simp: less_2_cases_iff)
  from moddown_conversions [OF special_source alg demo_rows(2) b(1,2,3) t exact_doubles_ok rcp]
  show ?thesis unfolding P l b(4) using small by blast
qed

end
