(* ===== verification/PartModdown.thy ===== *)
theory PartModdown
  imports PartCorrect BaseConvProps
begin

text \<open>
  What \<open>moddown\<close> and \<open>exactModdown\<close> compute: a polynomial over the primes of the level and the special primes,
  given by its values, is divided by the product \<open>P\<close> of the special primes.
\<close>

section \<open>The device\<close>

text \<open>One device that holds every limb of the level: the tables of the primes and of the conversion, and the
  inverses of \<open>P\<close>. Every column of the conversion has a thread when the ring has 64 coefficients or more.\<close>

definition moddown_ready :: "PartCtx \<Rightarrow> Device \<Rightarrow> nat \<Rightarrow> int \<Rightarrow> bool" where
  "moddown_ready ctx dv logN lev \<longleftrightarrow> (let c = pc_consts ctx
     in 0 < pc_batch ctx \<and> 6 \<le> logN \<and> logN \<le> hc_logN c \<and> pc_N ctx = 2 ^ logN
        \<and> 0 \<le> lev \<and> lev \<le> int (pc_L ctx) \<and> getLimbSize ctx lev = nat (lev + 1)
        \<and> hc_K c = length (pc_smeta ctx) \<and> 0 < hc_K c \<and> hc_K c \<le> 64
        \<and> moddown_source c (dv_globals dv) \<and> doubles_ok (dv_fp dv)
        \<and> rcp_ok (src_primes c (special_ids c)) (\<lambda>i. gl_ExactModDown_pInv (dv_globals dv) (i + hc_L c))
        \<and> (\<forall>j < hc_K c. sid ctx j = j + hc_L c \<and> ISU64 c (sid ctx j) \<and> tables_ready c (sid ctx j) (dv_psi dv (sid ctx j)))
        \<and> (\<forall>j < nat (lev + 1). pid ctx j = kl_flattened (dv_layout dv) (dv_partition dv + j)
            \<and> ISU64 c (pid ctx j) \<and> tables_ready c (pid ctx j) (dv_psi dv (pid ctx j))
            \<and> moddown_target c (dv_globals dv) (pid ctx j)
            \<and> conv_alpha c (special_ids c) (pid ctx j) (\<lambda>k. gl_ExactModDown_alphaP (dv_globals dv) (k * MAXP + pid ctx j))
            \<and> inverse_entry c (pid ctx j) (hc_P_inv c ! pid ctx j) (src_product c (special_ids c))
            \<and> hc_P_inv_shoup c ! pid ctx j = shoup_precomp (hc_P_inv c ! pid ctx j) (hc_primes c ! pid ctx j)))"

text \<open>How far the quotient may lie from the exact one, times \<open>P\<close>.\<close>

definition moddown_within :: "bool \<Rightarrow> nat \<Rightarrow> int \<Rightarrow> int \<Rightarrow> bool" where
  "moddown_within exact K P r \<longleftrightarrow> (if exact then \<bar>real_of_int r\<bar> \<le> (1 / 2 + 1 / 2 ^ 38) * real_of_int P
     else 0 \<le> r \<and> r < int K * P)"

lemma coeffs_rep:
  assumes "ISU64 c i" and "prime_entry c i" and "coeffs c i n X x"
  shows "limb_ok c i n (L64 x) \<and> (\<forall>t < n. lval (L64 x) t = X t mod iprime c i)"
  using assms coeffs_reduced [OF assms(2,3)] by (auto simp: limb_ok_64 lval_def coeffs_def)

lemma rep_coeffs:
  assumes "ISU64 c i" and "limb_ok c i n l" and "\<forall>t < n. lval l t = X t mod iprime c i"
  shows "\<exists>x. l = L64 x \<and> coeffs c i n X x"
  using assms by (auto simp: limb_ok_64 lval_def coeffs_def reduced_def)

text \<open>The conversion of either kind.\<close>

lemma moddown_conversion:
  assumes r: "moddown_ready ctx dv logN lev" and sp: "limbs_rep (pc_consts ctx) (\<lambda>i. i + hc_L (pc_consts ctx)) 0 (hc_K (pc_consts ctx)) (2 ^ logN) sp X"
    and aux: "nat (lev + 1) \<le> length a" "\<And>j. j < nat (lev + 1) \<Longrightarrow> limb_shaped (pc_consts ctx) (pid ctx j) (2 ^ logN) (a ! j)"
  shows "\<exists>a' Y. (if exact then ExactModDown2 (pc_consts ctx) (dv_layout dv) (dv_globals dv) (dv_fp dv) ALGO_SHOUP (2 ^ logN) a (nat (lev + 1)) sp (dv_partition dv)
        else ModDown2 (pc_consts ctx) (dv_layout dv) (dv_globals dv) ALGO_SHOUP (2 ^ logN) a (nat (lev + 1)) sp (dv_partition dv)) = Inr a'
    \<and> nat (lev + 1) \<le> length a'
    \<and> (\<forall>j < nat (lev + 1). \<exists>y. a' ! j = L64 y \<and> coeffs (pc_consts ctx) (pid ctx j) (2 ^ logN) Y y)
    \<and> (\<forall>u. \<exists>w. X u - Y u = src_product (pc_consts ctx) (special_ids (pc_consts ctx)) * w
        \<and> moddown_within exact (hc_K (pc_consts ctx)) (src_product (pc_consts ctx) (special_ids (pc_consts ctx))) (Y u))"
proof -
  let ?c = "pc_consts ctx" and ?P = "src_product (pc_consts ctx) (special_ids (pc_consts ctx))" and ?m = "nat (lev + 1)"
  have s: "moddown_source ?c (dv_globals dv)" and fp: "doubles_ok (dv_fp dv)" and K: "0 < hc_K ?c" "hc_K ?c \<le> 64"
    and rc: "rcp_ok (src_primes ?c (special_ids ?c)) (\<lambda>i. gl_ExactModDown_pInv (dv_globals dv) (i + hc_L ?c))"
    using r unfolding moddown_ready_def Let_def by blast+
  have id: "kl_flattened (dv_layout dv) (dv_partition dv + j) = pid ctx j" and u64: "ISU64 ?c (pid ctx j)"
    and tg: "moddown_target ?c (dv_globals dv) (pid ctx j)"
    and al: "conv_alpha ?c (special_ids ?c) (pid ctx j) (\<lambda>k. gl_ExactModDown_alphaP (dv_globals dv) (k * MAXP + pid ctx j))" if "j < ?m" for j
    using r that unfolding moddown_ready_def Let_def by metis+
  note s' = s [unfolded moddown_source_def]
  have ne: "special_ids ?c \<noteq> []" using K(1) by (simp add: special_ids_def)
  have alg: "ALGO_SHOUP \<noteq> ALGO_NONE" by simp
  define Y where "Y = (\<lambda>u. if exact
      then column_exact ?c (special_ids ?c) (moddown_pre ?c (dv_globals dv)) (dv_fp dv) (\<lambda>i. gl_ExactModDown_pInv (dv_globals dv) (i + hc_L ?c)) (X u)
      else column_sum ?c (special_ids ?c) (moddown_pre ?c (dv_globals dv)) (X u))"
  have "\<exists>a'. (if exact then ExactModDown2 ?c (dv_layout dv) (dv_globals dv) (dv_fp dv) ALGO_SHOUP (2 ^ logN) a ?m sp (dv_partition dv)
        else ModDown2 ?c (dv_layout dv) (dv_globals dv) ALGO_SHOUP (2 ^ logN) a ?m sp (dv_partition dv)) = Inr a'
      \<and> limbs_rep ?c (\<lambda>j. kl_flattened (dv_layout dv) (dv_partition dv + j)) 0 ?m (2 ^ logN) a' Y"
  proof (cases exact)
    case True
    from ExactModDown2_ok [OF s alg sp fp rc K(2) aux(1), of "dv_layout dv" "dv_partition dv"] show ?thesis
      using True id aux(2) tg al by (auto simp: Y_def)
  next
    case False
    from ModDown2_ok [OF s alg sp aux(1), of "dv_layout dv" "dv_partition dv"] show ?thesis
      using False id aux(2) tg by (auto simp: Y_def)
  qed
  then obtain a' where a': "(if exact then ExactModDown2 ?c (dv_layout dv) (dv_globals dv) (dv_fp dv) ALGO_SHOUP (2 ^ logN) a ?m sp (dv_partition dv)
        else ModDown2 ?c (dv_layout dv) (dv_globals dv) ALGO_SHOUP (2 ^ logN) a ?m sp (dv_partition dv)) = Inr a'"
      "limbs_rep ?c (\<lambda>j. kl_flattened (dv_layout dv) (dv_partition dv + j)) 0 ?m (2 ^ logN) a' Y" by blast
  have rows: "\<exists>y. a' ! j = L64 y \<and> coeffs ?c (pid ctx j) (2 ^ logN) Y y" if j: "j < ?m" for j
    using limbs_rep_row [OF a'(2) le0 j] rep_coeffs [OF u64 [OF j]] unfolding id [OF j] by blast
  have len: "?m \<le> length a'" using a'(2) by (simp add: limbs_rep_def)
  have bound: "\<exists>w. X u - Y u = ?P * w \<and> moddown_within exact (hc_K ?c) ?P (Y u)" for u
  proof -
    have "Y u mod ?P = X u mod ?P \<and> moddown_within exact (hc_K ?c) ?P (Y u)"
    proof (cases exact)
      case True
      then show ?thesis
        using column_exact_ok(1,2) [OF s' fp rc [unfolded special_ids_simps] _ column_of_buff_ok [OF s'], of "X u"] K(2)
        by (simp add: Y_def moddown_within_def)
    next
      case False
      then show ?thesis using column_sum_ok [OF s', of "X u"] ne by (simp add: Y_def moddown_within_def)
    qed
    moreover from this have "?P dvd X u - Y u" by (metis mod_eq_dvd_iff)
    ultimately show ?thesis by (auto simp: dvd_def)
  qed
  from a'(1) len rows bound show ?thesis by blast
qed

section \<open>The division\<close>

lemma lp_moddown_from_ok:
  assumes r: "moddown_ready ctx dv logN lev"
    and od: "\<forall>j < hc_K (pc_consts ctx). inverse_orders_ok logN (ods j)" "\<forall>j < nat (lev + 1). orders_ok logN (od j)"
    and x: "rows_evals (pc_consts ctx) dv logN (pid ctx) (nat (lev + 1)) (lp_limb p) X"
    and sp: "length (lp_special p) = length (pc_smeta ctx)" "rows_evals (pc_consts ctx) dv logN (sid ctx) (hc_K (pc_consts ctx)) (lp_special p) X"
    and aux: "nat (lev + 1) \<le> length (lp_limb auxLimbs)"
      "\<And>j. j < nat (lev + 1) \<Longrightarrow> limb_shaped (pc_consts ctx) (pid ctx j) (2 ^ logN) (lp_limb auxLimbs ! j)"
  shows "\<exists>q auxs W. lp_moddown_from exact ctx dv ods od True free lev auxLimbs p = Some (Inr (q, auxLimbs\<lparr>lp_limb := auxs\<rparr>))
    \<and> (free \<longrightarrow> lp_special q = [] \<and> \<not> lp_bufferSPECIAL q) \<and> length (lp_limb q) = length (lp_limb p)
    \<and> rows_evals (pc_consts ctx) dv logN (pid ctx) (nat (lev + 1)) (lp_limb q) W
    \<and> (\<forall>u. moddown_within exact (hc_K (pc_consts ctx)) (src_product (pc_consts ctx) (special_ids (pc_consts ctx)))
          (X u - src_product (pc_consts ctx) (special_ids (pc_consts ctx)) * W u))"
proof -
  let ?c = "pc_consts ctx" and ?P = "src_product (pc_consts ctx) (special_ids (pc_consts ctx))" and ?m = "nat (lev + 1)"
  have b: "0 < pc_batch ctx" "6 \<le> logN" "logN \<le> hc_logN ?c" "pc_N ctx = 2 ^ logN" "0 \<le> lev" "lev \<le> int (pc_L ctx)" "getLimbSize ctx lev = ?m"
      "hc_K ?c = length (pc_smeta ctx)"
    using r unfolding moddown_ready_def Let_def by blast+
  have sids: "sid ctx j = j + hc_L ?c" "ISU64 ?c (sid ctx j)" "tables_ready ?c (sid ctx j) (dv_psi dv (sid ctx j))" if "j < hc_K ?c" for j
    using r that unfolding moddown_ready_def Let_def by metis+
  have pids: "tables_ready ?c (pid ctx j) (dv_psi dv (pid ctx j))" "inverse_entry ?c (pid ctx j) (hc_P_inv ?c ! pid ctx j) ?P"
      "hc_P_inv_shoup ?c ! pid ctx j = shoup_precomp (hc_P_inv ?c ! pid ctx j) (hc_primes ?c ! pid ctx j)" if "j < ?m" for j
    using r that unfolding moddown_ready_def Let_def by metis+
  have n0: "0 < logN" and m0: "0 < ?m" using b(2,5) by simp_all
  have cols: "64 * (pc_N ctx div 64) = 2 ^ logN"
  proof -
    have "(2::nat) ^ 6 dvd 2 ^ logN" using b(2) by (rule le_imp_power_dvd)
    then show ?thesis unfolding b(4) by simp
  qed
  obtain sp' where sp': "ApplyINTT ctx dv ods logN (sid ctx) (hc_K ?c) (lp_special p) = Some (Inr sp')" "length sp' = length (lp_special p)"
      "\<forall>j < hc_K ?c. \<exists>y. sp' ! j = L64 y \<and> coeffs ?c (sid ctx j) (2 ^ logN) X y"
    using ApplyINTT_ok [OF b(1) n0 b(3) _ sp(2)] sids(3) od(1) by blast
  have "limbs_rep ?c (\<lambda>i. i + hc_L ?c) 0 (hc_K ?c) (2 ^ logN) sp' X"
    unfolding limbs_rep_def
  proof (intro conjI allI impI)
    show "hc_K ?c \<le> length sp'" using sp'(2) sp(1) b(8) by simp
    fix j
    assume "0 \<le> j \<and> j < hc_K ?c"
    then have j: "j < hc_K ?c" by simp
    have pe: "prime_entry ?c (sid ctx j)" using sids(3) [OF j] by (simp add: tables_ready_def psi_ok_def)
    obtain y where y: "sp' ! j = L64 y" "coeffs ?c (sid ctx j) (2 ^ logN) X y" using sp'(3) j by blast
    note coeffs_rep [OF sids(2) [OF j] pe y(2), unfolded sids(1) [OF j]]
    then show "limb_ok ?c (j + hc_L ?c) (2 ^ logN) (sp' ! j)"
      "\<And>t. t < 2 ^ logN \<Longrightarrow> lval (sp' ! j) t = X t mod iprime ?c (j + hc_L ?c)" unfolding y(1) by blast+
  qed
  from moddown_conversion [OF r this aux, of exact] obtain auxs Y where conv:
    "(if exact then ExactModDown2 ?c (dv_layout dv) (dv_globals dv) (dv_fp dv) ALGO_SHOUP (2 ^ logN) (lp_limb auxLimbs) ?m sp' (dv_partition dv)
      else ModDown2 ?c (dv_layout dv) (dv_globals dv) ALGO_SHOUP (2 ^ logN) (lp_limb auxLimbs) ?m sp' (dv_partition dv)) = Inr auxs"
    "?m \<le> length auxs" "\<forall>j < ?m. \<exists>y. auxs ! j = L64 y \<and> coeffs ?c (pid ctx j) (2 ^ logN) Y y"
    "\<forall>u. \<exists>w. X u - Y u = ?P * w \<and> moddown_within exact (hc_K ?c) ?P (Y u)" by blast
  from conv(4) obtain W where W: "\<And>u. X u - Y u = ?P * W u" "\<And>u. moddown_within exact (hc_K ?c) ?P (Y u)" by metis
  let ?Q = "\<lambda>j y. limb_evals ?c dv logN (pid ctx j) W y"
  have row: "\<exists>y. ntt_row ?c dv od logN NTT_MODDOWN (lp_limb p) ?m auxs [] 0 (pid ctx) j (lp_limb p ! j) = Inr y \<and> ?Q j y" if j: "j < ?m" for j
  proof -
    obtain y where y: "auxs ! j = L64 y" "coeffs ?c (pid ctx j) (2 ^ logN) Y y" using conv(3) j by blast
    have l: "limb_evals ?c dv logN (pid ctx j) X (lp_limb p ! j)" using x j by (simp add: rows_evals_def)
    have o: "orders_ok logN (od j)" and ja: "j < length auxs" using od(2) j conv(2) by simp_all
    show ?thesis by (rule ntt_row_moddown [where ids = "pid ctx" and od = od and X = X and Y = Y and W = W and j = j, OF pids(1) [OF j] n0 b(3) o pids(2,3) [OF j] ja y l W(1)])
  qed
  have G: "GetLogN p = Inr logN" by (rule GetLogN_evals [OF x m0 n0])
  have G': "GetLogN (p\<lparr>lp_special := sp'\<rparr>) = Inr logN" using G by (simp add: GetLogN_def)
  have sz: "?m = getLimbSize ctx lev - (if divides_mode NTT_MODDOWN then 1 else 0)" using b(7) by (simp add: divides_mode_def)
  have len: "?m \<le> length (lp_limb p)" using x by (simp add: rows_evals_def)
  obtain ys where ys: "lp_NTT ctx dv od NTT_MODDOWN auxs [] 0 lev (p\<lparr>lp_special := sp'\<rparr>) = Some (Inr (p\<lparr>lp_special := sp', lp_limb := ys\<rparr>))"
      "length ys = length (lp_limb p)" "\<forall>j < ?m. ?Q j (ys ! j)"
    using lp_NTT_ok [where p = "p\<lparr>lp_special := sp'\<rparr>" and Q = ?Q and dv = dv and od = od and ?op2.0 = auxs and pt = "[]" and e = 0,
        OF b(1,6) sz G' n0 _ _] row len b(7) m0 by auto
  define q where "q = (if free then p\<lparr>lp_special := [], lp_limb := ys, lp_bufferSPECIAL := False\<rparr> else p\<lparr>lp_special := sp', lp_limb := ys\<rparr>)"
  have K: "\<not> length sp' < hc_K ?c" using sp'(2) sp(1) b(8) by simp
  have e: "lp_moddown_from exact ctx dv ods od True free lev auxLimbs p = Some (Inr (q, auxLimbs\<lparr>lp_limb := auxs\<rparr>))"
    unfolding lp_moddown_from_def Let_def cols using conv(1) ys(1) K sp sp'(1) b(8) G m0 by (simp add: assertO_def q_def lp_freeSpecialLimbs_def split: if_splits)
  have "rows_evals ?c dv logN (pid ctx) ?m (lp_limb q) W" "length (lp_limb q) = length (lp_limb p)" "free \<longrightarrow> lp_special q = [] \<and> \<not> lp_bufferSPECIAL q"
    using ys(2,3) len by (simp_all add: q_def rows_evals_def)
  moreover have "moddown_within exact (hc_K ?c) ?P (X u - ?P * W u)" for u
    using W(1) [of u] W(2) [of u] by (simp add: algebra_simps)
  ultimately show ?thesis using e by blast
qed

end
