(* ===== verification/PartDemo.thy ===== *)
theory PartDemo
  imports PartModdown
begin

text \<open>
  A device on which the properties of a partition are instantiated: a ring of dimension 64 with the primes
  257 and 641 and the special prime 769, its tables filled with the powers of a root of each prime.
\<close>

section \<open>Tables of powers\<close>

definition powers :: "int \<Rightarrow> int \<Rightarrow> int \<Rightarrow> nat list \<Rightarrow> u64 list" where
  "powers p a w es = map (\<lambda>e. word_of_int (a * w ^ e mod p)) es"

definition power_tables :: "Constants \<Rightarrow> nat \<Rightarrow> u64 \<Rightarrow> u64 \<Rightarrow> PsiTables" where
  "power_tables c i w v =
     (let p = iprime c i; L = hc_logN c; rev = map (brev L) [0..<2 ^ L]; all = [0..<2 * 2 ^ L];
          companions = map (\<lambda>x. shoup_precomp x (hc_primes c ! i))
      in \<lparr>ps_root = w, ps_inv_root = v, ps_psi = powers p 1 (uint w) rev, ps_inv_psi = powers p 1 (uint v) rev,
          ps_psi_shoup = companions (powers p 1 (uint w) rev), ps_inv_psi_shoup = companions (powers p 1 (uint v) rev),
          ps_psi_no = powers p 1 (uint w) all, ps_inv_psi_no = powers p (uint (hc_N_inv c ! i)) (uint v) all,
          ps_root_shoup = shoup_precomp w (hc_primes c ! i), ps_inv_root_shoup = shoup_precomp v (hc_primes c ! i),
          ps_psi_middle_scale = [], ps_inv_psi_middle_scale = []\<rparr>)"

lemma uint_powers:
  assumes "prime_entry c i" and "k < length es"
  shows "uint (powers (iprime c i) a w es ! k) = a * w ^ (es ! k) mod iprime c i"
proof -
  have "0 < iprime c i" "iprime c i < 2 ^ 64" using iprime_bounds [OF assms(1)] by simp_all
  then have "0 \<le> a * w ^ (es ! k) mod iprime c i" "a * w ^ (es ! k) mod iprime c i < 2 ^ 64"
    using pos_mod_bound [of "iprime c i" "a * w ^ (es ! k)"] less_trans by (simp, blast)
  then show ?thesis using assms(2) by (simp add: powers_def uint_word_of_int)
qed

lemma powers_psi_table:
  assumes "prime_entry c i"
  shows "psi_table (hc_primes c ! i) L w (powers (iprime c i) 1 w (map (brev L) [0..<2 ^ L]))
    (map (\<lambda>x. shoup_precomp x (hc_primes c ! i)) (powers (iprime c i) 1 w (map (brev L) [0..<2 ^ L])))"
proof -
  have len: "length (powers (iprime c i) 1 w (map (brev L) [0..<2 ^ L])) = 2 ^ L" by (simp add: powers_def)
  show ?thesis unfolding psi_table_def using uint_powers [OF assms, of _ "map (brev L) [0..<2 ^ L]" 1 w] len by simp
qed

lemma powers_table:
  "prime_entry c i \<Longrightarrow> power_table (iprime c i) n a w (powers (iprime c i) a w [0..<n])"
  using uint_powers [of c i _ "[0..<n]" a w] by (simp add: power_table_def)

lemma power_tables_ready:
  assumes p: "prime_entry c i" and "hc_N c = 2 ^ hc_logN c" and "hc_logN c \<le> 30"
    and "root_pair (iprime c i) (hc_logN c) (uint w) (uint v)"
  shows "tables_ready c i (power_tables c i w v)"
proof -
  note t = powers_psi_table [OF p, of "hc_logN c"] powers_table [OF p, of "2 * 2 ^ hc_logN c"]
  have psi: "psi_ok c i (power_tables c i w v)"
    unfolding psi_ok_def power_tables_def Let_def PsiTables.simps using assms t(1) by blast
  have "root_tables c i 1 (uint (ps_root (power_tables c i w v))) (ps_psi (power_tables c i w v)) (ps_psi_shoup (power_tables c i w v)) (ps_psi_no (power_tables c i w v))"
    "root_tables c i (uint (hc_N_inv c ! i)) (uint (ps_inv_root (power_tables c i w v))) (ps_inv_psi (power_tables c i w v)) (ps_inv_psi_shoup (power_tables c i w v))
      (ps_inv_psi_no (power_tables c i w v))"
    unfolding root_tables_def power_tables_def Let_def PsiTables.simps using assms t by blast+
  with psi show ?thesis by (simp add: tables_ready_def)
qed

text \<open>The limb that holds the values of a polynomial.\<close>

definition value_limb :: "Constants \<Rightarrow> nat \<Rightarrow> PsiTables \<Rightarrow> nat \<Rightarrow> (nat \<Rightarrow> int) \<Rightarrow> u64 list" where
  "value_limb c i t logN X = map (\<lambda>q. word_of_int (odd_power_values (iprime c i) (2 ^ logN) (sub_root c t (logN - 1)) X (brev logN q))) [0..<2 ^ logN]"

lemma value_limb_evals:
  assumes p: "prime_entry c i" and n: "0 < logN"
  shows "evals c i t (logN - 1) X (value_limb c i t logN X)"
proof -
  let ?v = "\<lambda>q. odd_power_values (iprime c i) (2 ^ logN) (sub_root c t (logN - 1)) X (brev logN q)"
  have b: "0 \<le> ?v q \<and> ?v q < iprime c i" for q
    using iprime_bounds(1) [OF p] by (simp add: odd_power_values_def)
  have u: "uint (value_limb c i t logN X ! q) = ?v q" if "q < 2 ^ logN" for q
  proof -
    have "?v q < 2 ^ 64" using b [of q] iprime_bounds(2) [OF p] by simp
    then show ?thesis using that b [of q] by (simp add: value_limb_def uint_word_of_int)
  qed
  have "Suc (logN - 1) = logN" using n by simp
  then show ?thesis
    unfolding evals_def exp_pred [OF n] reduced_def using u b by (simp add: uint_less_iff [symmetric]) (simp add: value_limb_def)
qed

section \<open>The ring\<close>

definition ring_constants :: Constants where
  "ring_constants = (case SetupConstants [\<lparr>pr_p = 257, pr_type = Some U64, pr_bits = 9\<rparr>, \<lparr>pr_p = 641, pr_type = Some U64, pr_bits = 10\<rparr>]
       [[demo_record 0 0, demo_record 1 0]] [\<lparr>pr_p = 769, pr_type = Some U64, pr_bits = 10\<rparr>] [demo_record 2 (-1)] [[0]] 64 of
     Inl e \<Rightarrow> undefined | Inr c \<Rightarrow> (case set_P [128, 636] c of Inl e \<Rightarrow> undefined | Inr c \<Rightarrow> c))"

text \<open>Divisors up to the square root decide whether a number is prime.\<close>

lemma prime_nat_sqrt:
  assumes "1 < p" and "p < k * k" and "\<forall>d \<in> set [2..<k]. p mod d \<noteq> 0"
  shows "prime_nat p"
  unfolding prime_nat_def
proof (intro conjI allI impI)
  fix d
  assume "d dvd p"
  then obtain e where e: "p = d * e" by (auto simp: dvd_def)
  have small: "x = 1" if "x < k" "x dvd p" for x
  proof (rule ccontr)
    assume "x \<noteq> 1"
    moreover have "x \<noteq> 0" using that(2) assms(1) by (metis dvd_0_left not_one_less_zero)
    ultimately have "x \<in> set [2..<k]" using that(1) by auto
    then show False using assms(3) that(2) by (auto simp: mod_eq_0_iff_dvd)
  qed
  have "d < k \<or> e < k" using e assms(2) by (metis mult_le_mono not_le)
  then show "d = 1 \<or> d = p" using small [of d] small [of e] e by auto
qed (rule assms(1))

lemma ring_primes: "prime_nat 257" "prime_nat 641" "prime_nat 769"
proof -
  have "\<forall>d \<in> set [2..<17]. 257 mod d \<noteq> (0::nat)" "\<forall>d \<in> set [2..<26]. 641 mod d \<noteq> (0::nat)" "\<forall>d \<in> set [2..<28]. 769 mod d \<noteq> (0::nat)"
    by (code_simp, code_simp, code_simp)
  then show "prime_nat 257" "prime_nat 641" "prime_nat 769"
    using prime_nat_sqrt [of 257 17] prime_nat_sqrt [of 641 26] prime_nat_sqrt [of 769 28] by simp_all
qed

lemma ring_types: "type_bits [demo_record 2 (-1)] (type_bits (concat [[demo_record 0 0, demo_record 1 0]]) 0) = 7"
  by (simp add: type_bits_def demo_record_def)

lemma ring_constants_ok:
  shows "i < 3 \<Longrightarrow> prime_entry ring_constants i" and "i < 3 \<Longrightarrow> ISU64 ring_constants i"
    and "hc_primes ring_constants ! 0 = 257" and "hc_primes ring_constants ! 1 = 641" and "hc_primes ring_constants ! 2 = 769"
    and "hc_N ring_constants = 64" and "hc_logN ring_constants = 6" and "hc_L ring_constants = 2" and "hc_K ring_constants = 1"
    and "i < 2 \<Longrightarrow> hc_P_inv ring_constants ! i = [128, 636] ! i
      \<and> hc_P_inv_shoup ring_constants ! i = shoup_precomp ([128, 636] ! i) (hc_primes ring_constants ! i)"
proof -
  let ?q = "[\<lparr>pr_p = 257, pr_type = Some U64, pr_bits = 9\<rparr>, \<lparr>pr_p = 641, pr_type = Some U64, pr_bits = 10\<rparr>]"
    and ?p = "[\<lparr>pr_p = 769, pr_type = Some U64, pr_bits = 10\<rparr>]"
    and ?m = "[[demo_record 0 0, demo_record 1 0]]" and ?s = "[demo_record 2 (-1)]"
  have a: "\<forall>r \<in> set (?q @ ?p). prime_record_ok 64 r" "length ?q + length ?p \<le> MAXP" "digits_fit ?m ?s [[0]]"
    using ring_primes by (simp_all add: prime_record_ok_def prime_bits_def MAXP_def digits_fit_def MAXD_def demo_record_def)
  from SetupConstants_ok [OF a] obtain c where c: "SetupConstants ?q ?m ?p ?s [[0]] 64 = Inr c" "tables_sized c" "hc_N c = 64"
      "hc_type c = 7" "hc_logN c = nat (bit_width_nat 64) - 1"
      "\<forall>i < length ?q + length ?p. hc_primes c ! i = pr_p ((?q @ ?p) ! i) \<and> prime_entry c i" "hc_L c = length ?q" "hc_K c = length ?p"
    unfolding ring_types by blast
  have pr: "hc_primes c ! 0 = 257" "hc_primes c ! 1 = 641" "hc_primes c ! 2 = 769" "prime_entry c 0" "prime_entry c 1" "prime_entry c 2"
    using c(6) [rule_format, of 0] c(6) [rule_format, of 1] c(6) [rule_format, of 2] by simp_all
  have "\<exists>c'. set_P [128, 636] c = Inr c' \<and> same_primes c c' \<and> length (hc_P c') = MAXP \<and> length (hc_P_shoup c') = MAXP
    \<and> length (hc_P_inv c') = MAXP \<and> length (hc_P_inv_shoup c') = MAXP
    \<and> (\<forall>i < length [128, 636 :: u64]. unat (hc_P c' ! i) = 769 mod dprime c i \<and> hc_P_shoup c' ! i = shoup_precomp (hc_P c' ! i) (hc_primes c ! i)
        \<and> hc_P_inv c' ! i = [128, 636] ! i \<and> hc_P_inv_shoup c' ! i = shoup_precomp ([128, 636] ! i) (hc_primes c ! i))"
  proof (rule set_P_ok)
    show "length (hc_P c) = MAXP" "length (hc_P_shoup c) = MAXP" "length (hc_P_inv c) = MAXP" "length (hc_P_inv_shoup c) = MAXP" using c(2) by (simp_all add: tables_sized_def)
    fix i
    assume "i < length [128, 636 :: u64]"
    then show "prime_entry c i \<and> unat ([128, 636 :: u64] ! i) * 769 mod dprime c i = 1"
      using pr by (auto simp: less_Suc_eq)
  qed (simp add: MAXP_def)
  then obtain c' where c': "set_P [128, 636] c = Inr c'" "same_primes c c'"
      "\<forall>i < 2. hc_P_inv c' ! i = [128, 636] ! i \<and> hc_P_inv_shoup c' ! i = shoup_precomp ([128, 636] ! i) (hc_primes c ! i)"
    by auto
  have e: "ring_constants = c'" using c(1) c'(1) by (simp add: ring_constants_def)
  have ps: "hc_primes c' = hc_primes c" using c'(2) by (simp add: same_primes_def)
  show "hc_primes ring_constants ! 0 = 257" "hc_primes ring_constants ! 1 = 641" "hc_primes ring_constants ! 2 = 769"
    using pr by (simp_all add: e ps)
  show "i < 3 \<Longrightarrow> prime_entry ring_constants i" for i
    using pr same_primes_entry(1) [OF c'(2)] by (auto simp: e less_Suc_eq numeral_3_eq_3 numeral_2_eq_2)
  show "i < 3 \<Longrightarrow> ISU64 ring_constants i" for i
    using c(4) c'(2) by (auto simp: e same_primes_def ISU64_def less_Suc_eq numeral_3_eq_3)
  show "hc_N ring_constants = 64" using c(3) c'(2) by (simp add: e same_primes_def)
  show "hc_L ring_constants = 2" "hc_K ring_constants = 1" using c(7,8) c'(2) by (simp_all add: e same_primes_def)
  show "i < 2 \<Longrightarrow> hc_P_inv ring_constants ! i = [128, 636] ! i
    \<and> hc_P_inv_shoup ring_constants ! i = shoup_precomp ([128, 636] ! i) (hc_primes ring_constants ! i)" for i
    using c'(3) by (simp add: e ps)
  have "hc_logN c = 6" unfolding c(5) by (simp add: bit_width_nat.simps)
  then show "hc_logN ring_constants = 6" using c'(2) by (simp add: e same_primes_def)
qed

lemma ring_iprime: "iprime ring_constants 0 = 257" "iprime ring_constants (Suc 0) = 641" "iprime ring_constants 2 = 769"
  using ring_constants_ok(3-5) by simp_all

section \<open>The device\<close>

text \<open>The inverse of 641 modulo 257, and the conversion from 769.\<close>

definition ring_globals :: Globals where
  "ring_globals = \<lparr>gl_q_inv = (\<lambda>_. 85),
     gl_ModDown_pre_scale = (\<lambda>_. 1), gl_ModDown_pre_scale_shoup = (\<lambda>_. shoup_precomp 1 769), gl_ModDown_matrix = (\<lambda>_. 1),
     gl_ExactModDown_alphaP = (\<lambda>k. if k = 64 then 255 else if k = 65 then 128 else 0), gl_ExactModDown_pInv = (\<lambda>_. 1 / 769),
     gl_ExactModUp_alphaQ = (\<lambda>_. 0), gl_ExactModUp_qInv = (\<lambda>_. 0), gl_DecompAndModUp_pre_scale = (\<lambda>_. 0),
     gl_DecompAndModUp_pre_scale_shoup = (\<lambda>_. 0), gl_DecompAndModUp_matrix = (\<lambda>_. 0)\<rparr>"

text \<open>The roots of order 128.\<close>

definition ring_psi :: "nat \<Rightarrow> PsiTables" where
  "ring_psi i = (if i = 0 then power_tables ring_constants 0 9 200 else if i = 1 then power_tables ring_constants 1 21 580
     else power_tables ring_constants 2 5 154)"

definition ring_device :: "bool \<Rightarrow> Device" where
  "ring_device exact = \<lparr>dv_globals = ring_globals, dv_layout = pair_layout, dv_psi = ring_psi, dv_partition = 0,
     dv_fp = exact_doubles, dv_exact_moddown = exact\<rparr>"

definition ring_ctx :: PartCtx where
  "ring_ctx = \<lparr>pc_consts = ring_constants, pc_batch = 2, pc_L = 1, pc_N = 64, pc_flexext = False,
     pc_meta = [demo_record 0 0, demo_record 1 0], pc_smeta = [demo_record 2 (-1)], pc_split = [demo_record 2 (-1)]\<rparr>"

definition ring_orders :: Orders where
  "ring_orders = \<lparr>od_blocks = ([], []), od_scheds = (\<lambda>_ _. [], \<lambda>_ _. []), od_sched = (\<lambda>_. rev [0..<32]), od_aux = []\<rparr>"

lemma ring_orders_ok: "orders_ok 6 ring_orders" "inverse_orders_ok 6 ring_orders"
  by (auto simp: orders_ok_def inverse_orders_ok_def ring_orders_def sched_ok_def all_threads_def NTT_1D_LOG_THRESHOLD_def)

lemma ring_tables: "i < 3 \<Longrightarrow> tables_ready ring_constants i (ring_psi i)"
proof -
  have r: "root_pair 257 6 9 200" "root_pair 641 6 21 580" "root_pair 769 6 5 154"
    unfolding root_pair_def by (simp_all)
  assume "i < 3"
  then consider "i = 0" | "i = 1" | "i = 2" by linarith
  then show "tables_ready ring_constants i (ring_psi i)"
  proof cases
    case 1
    then show ?thesis
      using r(1) ring_constants_ok(1) [of 0] ring_iprime ring_constants_ok(6,7) by (simp add: ring_psi_def power_tables_ready)
  next
    case 2
    then show ?thesis
      using r(2) ring_constants_ok(1) [of 1] ring_iprime ring_constants_ok(6,7) by (simp add: ring_psi_def power_tables_ready)
  next
    case 3
    then show ?thesis
      using r(3) ring_constants_ok(1) [of 2] ring_iprime ring_constants_ok(6,7) by (simp add: ring_psi_def power_tables_ready)
  qed
qed

end
