(* ===== verification/PartProduct.thy ===== *)
theory PartProduct
  imports PartModdown
begin

text \<open>
  Products of values are values of negacyclic products: the ring of the polynomials modulo \<open>X^n + 1\<close> that the
  limbs of a partition represent.
\<close>

section \<open>The product of the ring\<close>

definition negacyclic :: "nat \<Rightarrow> (nat \<Rightarrow> int) \<Rightarrow> (nat \<Rightarrow> int) \<Rightarrow> nat \<Rightarrow> int" where
  "negacyclic n a b k = (\<Sum>i<n. if i \<le> k then a i * b (k - i) else - (a i * b (n + k - i)))"

definition value_at :: "nat \<Rightarrow> (nat \<Rightarrow> int) \<Rightarrow> int \<Rightarrow> int" where
  "value_at n a r = (\<Sum>j<n. a j * r ^ j)"

lemma shift_bij: "i < n \<Longrightarrow> bij_betw (\<lambda>j. (i + j) mod n) {..<n} {..<(n::nat)}"
proof -
  assume i: "i < n"
  have "inj_on (\<lambda>j. (i + j) mod n) {..<n}"
  proof (rule inj_onI)
    fix x y
    assume "x \<in> {..<n}" "y \<in> {..<n}" "(i + x) mod n = (i + y) mod n"
    then show "x = y" using i by (cases "i + x < n"; cases "i + y < n") (simp_all add: le_mod_geq)
  qed
  moreover have "(\<lambda>j. (i + j) mod n) ` {..<n} \<subseteq> {..<n}" using i by auto
  ultimately show ?thesis by (simp add: bij_betw_def card_image endo_inj_surj)
qed

text \<open>One coefficient of the first operand.\<close>

lemma negacyclic_row:
  assumes i: "i < n" and r: "p dvd r ^ n + (1::int)"
  shows "p dvd (\<Sum>j<n. x * b j * r ^ (i + j)) - (\<Sum>k<n. (if i \<le> k then x * b (k - i) else - (x * b (n + k - i))) * r ^ k)"
proof -
  let ?f = "\<lambda>k. (if i \<le> k then x * b (k - i) else - (x * b (n + k - i))) * r ^ k"
  have "(\<Sum>k<n. ?f k) = (\<Sum>j<n. ?f ((i + j) mod n))" by (rule sum.reindex_bij_betw [OF shift_bij [OF i], symmetric])
  then have "(\<Sum>j<n. x * b j * r ^ (i + j)) - (\<Sum>k<n. ?f k) = (\<Sum>j<n. x * b j * r ^ (i + j) - ?f ((i + j) mod n))"
    by (simp add: sum_subtractf)
  moreover have "p dvd x * b j * r ^ (i + j) - ?f ((i + j) mod n)" if j: "j < n" for j
  proof (cases "i + j < n")
    case False
    then have m: "(i + j) mod n = i + j - n" and s: "n + (i + j - n) - i = j" and lt: "\<not> i \<le> i + j - n" and e: "i + j = i + j - n + n"
      using i j by (simp_all add: le_mod_geq)
    have "x * b j * r ^ (i + j) - ?f ((i + j) mod n) = x * b j * r ^ (i + j - n) * (r ^ n + 1)"
      unfolding m if_not_P [OF lt] s by (subst e, simp only: power_add) (simp add: algebra_simps)
    then show ?thesis using r by simp
  qed simp
  then have "p dvd (\<Sum>j<n. x * b j * r ^ (i + j) - ?f ((i + j) mod n))" by (intro dvd_sum) simp
  ultimately show ?thesis by presburger
qed

lemma negacyclic_value:
  assumes "p dvd r ^ n + (1::int)"
  shows "value_at n a r * value_at n b r mod p = value_at n (negacyclic n a b) r mod p"
proof -
  have "value_at n a r * value_at n b r = (\<Sum>i<n. \<Sum>j<n. a i * b j * r ^ (i + j))"
    unfolding value_at_def sum_product by (simp add: power_add algebra_simps)
  moreover have "value_at n (negacyclic n a b) r = (\<Sum>i<n. \<Sum>k<n. (if i \<le> k then a i * b (k - i) else - (a i * b (n + k - i))) * r ^ k)"
    unfolding value_at_def negacyclic_def sum_distrib_right by (rule sum.swap)
  ultimately have "value_at n a r * value_at n b r - value_at n (negacyclic n a b) r
      = (\<Sum>i<n. (\<Sum>j<n. a i * b j * r ^ (i + j)) - (\<Sum>k<n. (if i \<le> k then a i * b (k - i) else - (a i * b (n + k - i))) * r ^ k))"
    by (simp add: sum_subtractf)
  moreover have "p dvd (\<Sum>i<n. (\<Sum>j<n. a i * b j * r ^ (i + j)) - (\<Sum>k<n. (if i \<le> k then a i * b (k - i) else - (a i * b (n + k - i))) * r ^ k))"
    using negacyclic_row [OF _ assms] by (intro dvd_sum) simp
  ultimately have "p dvd value_at n a r * value_at n b r - value_at n (negacyclic n a b) r" by presburger
  then show ?thesis by (simp add: mod_eq_dvd_iff)
qed

section \<open>Products of limbs\<close>

lemma odd_power_value: "odd_power_values p n w a i = value_at n a (w ^ (2 * i + 1)) mod p"
  unfolding odd_power_values_def value_at_def power_mult ..

lemma sub_root_power:
  assumes "psi_ok c i t" and "b < hc_logN c"
  shows "iprime c i dvd (sub_root c t b ^ (2 * q + 1)) ^ (2 * 2 ^ b) + 1"
proof -
  have "(2::nat) ^ (hc_logN c - Suc b) * (2 * 2 ^ b) = 2 ^ hc_logN c"
    using assms(2) unfolding power_Suc [symmetric] power_add [symmetric] by simp
  then have w: "sub_root c t b ^ (2 * 2 ^ b) = uint (ps_root t) ^ 2 ^ hc_logN c"
    unfolding sub_root_def power_mult [symmetric] by simp
  have "uint (ps_root t) ^ 2 ^ hc_logN c mod iprime c i = (-1) mod iprime c i" using assms(1) by (simp add: psi_ok_def root_pair_def)
  then have "(uint (ps_root t) ^ 2 ^ hc_logN c) ^ (2 * q + 1) mod iprime c i = (-1) ^ (2 * q + 1) mod iprime c i" by (metis power_mod)
  moreover have "(sub_root c t b ^ (2 * q + 1)) ^ (2 * 2 ^ b) = (uint (ps_root t) ^ 2 ^ hc_logN c) ^ (2 * q + 1)"
    unfolding w [symmetric] power_mult [symmetric] by (simp only: mult.commute)
  moreover have "(-1 :: int) ^ (2 * q + 1) = -1" by simp
  ultimately have "(sub_root c t b ^ (2 * q + 1)) ^ (2 * 2 ^ b) mod iprime c i = (-1) mod iprime c i" by (simp only:)
  then show ?thesis unfolding mod_eq_dvd_iff by (simp only: diff_minus_eq_add)
qed

lemma evals_product:
  assumes t: "psi_ok c i t" and b: "b < hc_logN c" and x: "evals c i t b X x" and y: "evals c i t b Y y"
  shows "evals c i t b (negacyclic (2 * 2 ^ b) X Y) (pt_product c i 0 x y)"
proof -
  have p: "prime_entry c i" using t by (simp add: psi_ok_def)
  let ?w = "sub_root c t b"
  have len: "length (pt_product c i 0 x y) = 2 * 2 ^ b" using x by (simp add: pt_product_def evals_def reduced_def)
  have v: "uint (pt_product c i 0 x y ! q) = odd_power_values (iprime c i) (2 * 2 ^ b) ?w (negacyclic (2 * 2 ^ b) X Y) (brev (Suc b) q)"
    if q: "q < 2 * 2 ^ b" for q
  proof -
    have l: "length x = 2 * 2 ^ b" "unat (x ! q) < dprime c i" "unat (y ! q) < dprime c i" using x y q by (simp_all add: evals_def reduced_def)
    then have "uint (pt_product c i 0 x y ! q) = uint (x ! q) * uint (y ! q) mod iprime c i"
      using q by (simp add: pt_product_def uint_modmult_barrett [OF p])
    also have "\<dots> = value_at (2 * 2 ^ b) X (?w ^ (2 * brev (Suc b) q + 1)) * value_at (2 * 2 ^ b) Y (?w ^ (2 * brev (Suc b) q + 1)) mod iprime c i"
      using x y q unfolding evals_def odd_power_value by (simp add: mod_mult_eq)
    also have "\<dots> = odd_power_values (iprime c i) (2 * 2 ^ b) ?w (negacyclic (2 * 2 ^ b) X Y) (brev (Suc b) q)"
      unfolding odd_power_value by (rule negacyclic_value [OF sub_root_power [OF t b]])
    finally show ?thesis .
  qed
  have "uint (pt_product c i 0 x y ! q) < iprime c i" if "q < 2 * 2 ^ b" for q
    unfolding v [OF that] odd_power_values_def using iprime_bounds(1) [OF p] by simp
  then show ?thesis unfolding evals_def reduced_def using len v by (simp add: uint_less_iff [symmetric])
qed

end
