(* ===== verification/PartProps.thy ===== *)
theory PartProps
  imports PartDemo PartProduct
begin

text \<open>
  The properties of the operations of a partition that divide: by the last prime, with or without a plaintext
  product before it, and by the special primes. They are instantiated on the device of \<^theory_text>\<open>PartDemo\<close>.
\<close>

section \<open>A partition of the device\<close>

definition ring_limb :: "nat \<Rightarrow> (nat \<Rightarrow> int) \<Rightarrow> limb" where
  "ring_limb i X = L64 (value_limb ring_constants i (ring_psi i) 6 X)"

definition ring_part :: "(nat \<Rightarrow> int) \<Rightarrow> Partition" where
  "ring_part X = \<lparr>lp_limb = [ring_limb 0 X, ring_limb 1 X], lp_special = [ring_limb 2 X], lp_bufferLIMB = False, lp_bufferSPECIAL = True\<rparr>"

lemma ring_device_simps [simp]:
  "dv_psi (ring_device e) = ring_psi" "dv_globals (ring_device e) = ring_globals" "dv_layout (ring_device e) = pair_layout"
  "dv_partition (ring_device e) = 0" "dv_fp (ring_device e) = exact_doubles" "dv_exact_moddown (ring_device e) = e"
  by (simp_all add: ring_device_def)

lemma ring_ctx_simps [simp]:
  "pc_consts ring_ctx = ring_constants" "pc_batch ring_ctx = 2" "pc_L ring_ctx = 1" "pc_N ring_ctx = 64" "getLimbSize ring_ctx 1 = 2"
  "length (pc_smeta ring_ctx) = 1" "sid ring_ctx 0 = 2"
  by (simp_all add: ring_ctx_def getLimbSize_def demo_record_def)

lemma ring_ids: "j < 2 \<Longrightarrow> pid ring_ctx j = j"
  by (auto simp: ring_ctx_def demo_record_def less_2_cases_iff)

lemma ring_limb_evals: "i < 3 \<Longrightarrow> limb_evals ring_constants (ring_device e) 6 i X (ring_limb i X)"
  using value_limb_evals [OF ring_constants_ok(1), of i 6 "ring_psi i" X] by (simp add: limb_evals_def ring_limb_def)

lemma ring_part_simps [simp]:
  "lp_limb (ring_part X) = [ring_limb 0 X, ring_limb 1 X]" "lp_special (ring_part X) = [ring_limb 2 X]"
  by (simp_all add: ring_part_def)

lemma ring_rows:
  "rows_evals ring_constants (ring_device e) 6 (pid ring_ctx) 2 (lp_limb (ring_part X)) X"
  "rows_evals ring_constants (ring_device e) 6 (sid ring_ctx) 1 (lp_special (ring_part X)) X"
  using ring_limb_evals [of 0 e X] ring_limb_evals [of 1 e X] ring_limb_evals [of 2 e X] ring_ids [of 0] ring_ids [of 1]
  by (simp_all add: rows_evals_def less_2_cases_iff)

lemma ring_rescale_ready: "rescale_ready ring_ctx (ring_device e) 6 1"
proof -
  have "tables_ready ring_constants (pid ring_ctx j) (ring_psi (pid ring_ctx j))" if "j \<le> 1" for j
    using ring_tables [of j] ring_ids [of j] that by simp
  moreover have "inverse_entry ring_constants (pid ring_ctx 0) (gl_q_inv ring_globals k) (iprime ring_constants (pid ring_ctx 1))" for k
    using ring_constants_ok(3,4) ring_ids [of 0] ring_ids [of 1] by (simp add: inverse_entry_def ring_globals_def)
  ultimately show ?thesis unfolding rescale_ready_def Let_def by (simp add: ring_constants_ok)
qed

lemma ring_special: "special_ids ring_constants = [2]" "src_primes ring_constants [2] = [769]" "src_product ring_constants [2] = 769"
  "base_hat [769] 0 = 1" "coprime_base [769]"
proof -
  have e: "{..<length [769 :: int]} - {0} = {}" by auto
  show "base_hat [769] 0 = 1" unfolding base_hat_def by (simp only: e prod.empty)
  show s: "src_primes ring_constants [2] = [769]" using ring_iprime by (simp add: src_primes_def)
  show "src_product ring_constants [2] = 769" unfolding s by simp
qed (simp_all add: special_ids_def ring_constants_ok coprime_base_def)

lemma ring_moddown_ready: "moddown_ready ring_ctx (ring_device e) 6 1"
proof -
  have "conv_source ring_constants [2] (\<lambda>_. 1) (\<lambda>_. shoup_precomp 1 769)"
    using ring_constants_ok(1) [of 2] ring_constants_ok(5) by (simp add: conv_source_def ring_special)
  then have src: "moddown_source ring_constants ring_globals" by (simp add: moddown_source_def ring_special ring_globals_def)
  have rcp: "rcp_ok (src_primes ring_constants (special_ids ring_constants)) (\<lambda>i. gl_ExactModDown_pInv ring_globals (i + hc_L ring_constants))"
    unfolding ring_special rcp_ok_def by (simp add: ring_globals_def)
  have tgt: "moddown_target ring_constants ring_globals j"
    "conv_alpha ring_constants (special_ids ring_constants) j (\<lambda>k. gl_ExactModDown_alphaP ring_globals (k * MAXP + j))"
    "inverse_entry ring_constants j (hc_P_inv ring_constants ! j) (src_product ring_constants (special_ids ring_constants))"
    "hc_P_inv_shoup ring_constants ! j = shoup_precomp (hc_P_inv ring_constants ! j) (hc_primes ring_constants ! j)" if "j < 2" for j
  proof -
    have c: "j = 0 \<or> j = Suc 0" using that by linarith
    note pe = ring_constants_ok(1) [of j] ring_constants_ok(2) [of j] ring_constants_ok(10) [OF that]
    have "limb_prime ring_constants j" using pe that by (simp add: limb_prime_def)
    then show "moddown_target ring_constants ring_globals j"
      using c ring_iprime by (auto simp: moddown_target_def conv_target_def ring_special ring_globals_def)
    show "conv_alpha ring_constants (special_ids ring_constants) j (\<lambda>k. gl_ExactModDown_alphaP ring_globals (k * MAXP + j))"
      unfolding conv_alpha_def ring_special using c ring_iprime by (auto simp: ring_globals_def MAXP_def le_Suc_eq)
    show "inverse_entry ring_constants j (hc_P_inv ring_constants ! j) (src_product ring_constants (special_ids ring_constants))"
      unfolding inverse_entry_def ring_special using c ring_iprime pe(3) ring_constants_ok(3,4) by auto
    show "hc_P_inv_shoup ring_constants ! j = shoup_precomp (hc_P_inv ring_constants ! j) (hc_primes ring_constants ! j)"
      using pe(3) by simp
  qed
  have tab: "tables_ready ring_constants j (ring_psi j)" "ISU64 ring_constants j" if "j < 3" for j
    using ring_tables [OF that] ring_constants_ok(2) [OF that] by simp_all
  show ?thesis
    unfolding moddown_ready_def Let_def ring_ctx_simps ring_device_simps
    using src rcp tgt tab exact_doubles_ok ring_ids by (simp add: ring_constants_ok pair_layout_def del: One_nat_def)
qed

section \<open>Dividing by the last prime\<close>



section \<open>The product with a plaintext\<close>

lemma multPt_stride: "2 * slots = 2 ^ logN \<Longrightarrow> logstride (2 ^ logN) (2 * slots) = Inr 0"
  by (simp add: logstride_def ffs.simps [of "Suc 0"])

lemma products_evals:
  assumes r: "rescale_ready ctx dv logN lev"
    and x: "rows_evals (pc_consts ctx) dv logN (pid ctx) (getLimbSize ctx lev) xs X"
    and y: "rows_evals (pc_consts ctx) dv logN (pid ctx) (getLimbSize ctx lev) ms Y"
  shows "product_evals (pc_consts ctx) dv logN 0 (pid ctx) (getLimbSize ctx lev) xs ms (negacyclic (2 ^ logN) X Y)"
  unfolding product_evals_def
proof (intro conjI allI impI)
  let ?c = "pc_consts ctx"
  have n: "0 < logN" "logN \<le> hc_logN ?c" using r by (simp_all add: rescale_ready_def Let_def)
  fix j
  assume j: "j < getLimbSize ctx lev"
  then have t: "psi_ok ?c (pid ctx j) (dv_psi dv (pid ctx j))" using r by (simp add: rescale_ready_def Let_def tables_ready_def)
  from x y j obtain u v where uv: "xs ! j = L64 u" "evals ?c (pid ctx j) (dv_psi dv (pid ctx j)) (logN - 1) X u"
      "ms ! j = L64 v" "evals ?c (pid ctx j) (dv_psi dv (pid ctx j)) (logN - 1) Y v"
    unfolding rows_evals_def by (metis limb_evalsE)
  have "logN - 1 < hc_logN ?c" using n by simp
  from evals_product [OF t this uv(2,4)] show "\<exists>x y. xs ! j = L64 x \<and> ms ! j = L64 y \<and> length x = 2 ^ logN \<and> 2 ^ logN \<le> length y * 2 ^ 0
      \<and> evals ?c (pid ctx j) (dv_psi dv (pid ctx j)) (logN - 1) (negacyclic (2 ^ logN) X Y) (pt_product ?c (pid ctx j) 0 x y)"
    using uv evals_length [OF n(1)] unfolding exp_pred [OF n(1)] by auto
qed (use x y in \<open>simp_all add: rows_evals_def\<close>)



section \<open>Dividing by the special primes\<close>



end
