(* ===== verification/Spec2Isabelle.thy ===== *)
theory Spec2Isabelle
  imports CkksGroups CkksCorrect CkksProduct CkksSums KeyContext CrtTables ContextMeta BitReverse Intt1D RnsProps SeriesProps PartProps
begin

text \<open>
  A verification library of FIDESlib, an implementation of the approximate homomorphic encryption scheme CKKS
  on graphics processors. This theory imports all others; the properties stand at the top level of the
  theories named below, each after a text block with its number.

  \<^bold>\<open>The program.\<close> A polynomial over a product of primes is kept as one vector per prime, a \<^emph>\<open>limb\<close>
  (\<open>src/src/CKKS/Limb.cu\<close>). The limbs that live on one device form a \<open>LimbPartition\<close>, the partitions of all
  devices an \<open>RNSPoly\<close>, two of these a \<open>Ciphertext\<close>, and a \<open>Plaintext\<close> has one. \<open>ContextData\<close> decides which device
  holds which limb, keeps the keys and hands out auxiliary polynomials; \<open>SetupConstants\<close> fills the tables every
  kernel reads. Products are taken on vectors of values at roots of unity, so the transforms between values and
  coefficients are the core; dividing by a prime (\<open>rescale\<close>) and by the special primes (\<open>moddown\<close>) needs
  coefficients of one limb, or of the special limbs, and is fused into the transforms of the others.

  \<^bold>\<open>The data.\<close> A C++ class is a record with its fields, an enumeration a datatype, \<open>uint64_t\<close> and \<open>uint32_t\<close> words
  of 64 and 32 bits with products taken in words of 128 and 64 bits, an \<open>int\<close> of the host an \<open>int\<close>. A thrown
  exception, a failed assertion and undefined behaviour are values of \<open>cpp_error\<close> on the left of a sum. A function
  that calls itself on an adjusted copy is a \<open>partial_function\<close> on options, where \<open>None\<close> is not returning, and
  the theorems about it state that it returns. There is no fuel: loops are functions with a termination
  proof, apart from these.

  \<^bold>\<open>Arithmetic.\<close> \<^theory_text>\<open>FLPrelude\<close> has the words, the fact collections and the generic lemmas. \<^theory_text>\<open>HostMath\<close> and
  \<^theory_text>\<open>CrtTables\<close> model \<open>src/src/Math.cu\<close>: inverses and the tables of the Chinese remainder theorem. \<^theory_text>\<open>DeviceMod\<close>
  models the products of \<open>src/src/ModMult.cuh\<close> (Shoup and improved Barrett) and proves them exact for moduli of up
  to 62 bits; the locale \<open>mul_hi\<close> is the contract of the high half of a product, interpreted at both widths.

  \<^bold>\<open>Contexts.\<close> \<^theory_text>\<open>ContextMeta\<close> models the layout of limbs over devices and digits in \<open>src/src/CKKS/Context.cu\<close>, on the
  model of \<open>std::map\<close> and \<open>std::vector\<close> in \<^theory_text>\<open>StdMap\<close>. \<^theory_text>\<open>KeyCache\<close> and \<^theory_text>\<open>KeyContext\<close> model the rotation keys: the
  least-recently-used cache in device memory, its byte accounting and the eviction hold, as the step relation
  \<open>key_step\<close> with invariants of the reachable states; the locale \<open>rotation_key_store\<close> is what a client of the
  cache relies on. \<^theory_text>\<open>BitReverse\<close>, \<^theory_text>\<open>GpuTables\<close> and \<^theory_text>\<open>NttTables\<close> model \<open>src/src/ConstantsGPU.cu\<close>: the constants of
  each prime (\<open>prime_entry\<close> says when they are right) and the tables of powers of its root (\<open>psi_ok\<close>,
  \<open>tables_ready\<close>).

  \<^bold>\<open>Transforms.\<close> \<^theory_text>\<open>NttKernel\<close>, \<^theory_text>\<open>Ntt1D\<close> and \<^theory_text>\<open>Intt1D\<close> model the kernels of one thread block
  (\<open>src/src/NTT_1D.cu\<close>, \<open>src/src/INTT_1D.cu\<close>). Between two barriers the threads run in an arbitrary order, an argument
  \<open>sched\<close> of the definitions; the locale \<open>thread_pairs\<close> states that each owns two coefficients, from which the
  independence of the order follows. The forward kernel gives the values at the odd powers of the root in
  bit-reversed order (\<open>evals\<close>), the inverse one the coefficients (\<open>coeffs\<close>). \<^theory_text>\<open>NttModes\<close> adds the work fused to
  the kernels (\<open>src/src/NTTfusions.cuh\<close>). \<^theory_text>\<open>NttGrid\<close>, \<^theory_text>\<open>NttGridCorrect\<close>, \<^theory_text>\<open>NttGridProps\<close>, \<^theory_text>\<open>InttGrid\<close>, \<^theory_text>\<open>InttGridCorrect\<close>
  and \<^theory_text>\<open>InttGridProps\<close> model the pairs of kernels for large rings (\<open>src/src/NTT.cu\<close>, \<open>src/src/INTT.cu\<close>), with the
  blocks in any order too, and prove that they return what the kernel of one block returns, in every mode.

  \<^bold>\<open>Base conversion.\<close> \<^theory_text>\<open>SwitchMod\<close>, \<^theory_text>\<open>BaseConv\<close>, \<^theory_text>\<open>BaseCrt\<close>, \<^theory_text>\<open>BaseConvCorrect\<close> and \<^theory_text>\<open>BaseConvProps\<close> model
  \<open>src/src/CKKS/Conv.cu\<close> and \<open>src/src/CKKS/Rescale.cuh\<close>. The conversion that counts overflows on doubles takes their
  operations as the parameter \<open>Doubles\<close>, of which only a relative error of \<open>2^-51\<close> is assumed (\<open>doubles_ok\<close>); with
  up to 64 primes the vector then exceeds the centred range by at most a part in \<open>2^37\<close>.

  \<^bold>\<open>Polynomials.\<close> \<^theory_text>\<open>LimbKernels\<close> models \<open>src/src/AddSub.cu\<close> and the elementwise kernels, \<^theory_text>\<open>PartitionOps\<close> the
  operations of a partition launched in batches of rows, \<^theory_text>\<open>LimbStore\<close> its memory, whose former content is an
  argument, \<^theory_text>\<open>RnsPoly\<close> the polynomials. \<^theory_text>\<open>RnsCorrect\<close>, \<^theory_text>\<open>RnsStore\<close>, \<^theory_text>\<open>RnsDemo\<close> and \<^theory_text>\<open>RnsProps\<close> show the
  refinement: a polynomial denotes one vector of integers modulo the product of its primes (\<open>limbs_rep\<close>), and the
  operations on devices compute those on vectors. \<^theory_text>\<open>PartTransforms\<close> models the transforms of a partition and what
  divides: \<open>rescale\<close>, \<open>multPt\<close>, \<open>moddown\<close>, \<open>exactModdown\<close>. \<^theory_text>\<open>PartCorrect\<close>, \<^theory_text>\<open>PartModdown\<close>, \<^theory_text>\<open>PartProduct\<close>,
  \<^theory_text>\<open>PartDemo\<close> and \<^theory_text>\<open>PartProps\<close> show that they act on the polynomial of the limbs (\<open>rows_evals\<close>): division with
  rounding to the nearest integer, the negacyclic product, and division by \<open>P\<close> within the range of the conversion.

  \<^bold>\<open>Ciphertexts.\<close> \<^theory_text>\<open>CkksState\<close> models the tracked state of a ciphertext (level, degree of the scale, scale, slots, key)
  with the message it encrypts in place of its polynomials. \<^theory_text>\<open>CkksAdjust\<close> and \<^theory_text>\<open>CkksScale\<close> model rescaling and the
  alignment of operands, \<^theory_text>\<open>CkksPlain\<close> plaintexts, \<^theory_text>\<open>CkksArith\<close> and \<^theory_text>\<open>CkksCorrect\<close> sums, \<^theory_text>\<open>CkksMult\<close> and \<^theory_text>\<open>CkksProduct\<close>
  products, \<^theory_text>\<open>CkksSums\<close>, \<^theory_text>\<open>CkksGroups\<close> and \<^theory_text>\<open>CkksBatch\<close> the weighted sums and their batching (locale
  \<open>batched_sums\<close>, interpreted for real and complex weights); \<^theory_text>\<open>CkksDepth\<close> and \<^theory_text>\<open>CkksMutable\<close> are a calculus of
  multiplicative depth in which programs of these operations are proved to return.

  \<^bold>\<open>Series.\<close> \<^theory_text>\<open>PolyEval\<close> to \<^theory_text>\<open>PolyLinear\<close> model the evaluators in the power basis of
  \<open>src/src/CKKS/ApproxModEval.cu\<close>, \<^theory_text>\<open>PSRecord\<close> and \<^theory_text>\<open>ChebEval\<close> to \<^theory_text>\<open>SeriesProps\<close> the Chebyshev evaluator, the double-angle
  iterations and the modular reductions of bootstrapping. The overloads for real and complex coefficients are a
  record of operations whose laws are the locales \<open>scalar_arith\<close> and \<open>cheb_arith\<close>, both interpreted in
  \<^theory_text>\<open>SeriesArith\<close>. OpenFHE's divisions of polynomials are parameters with their documented equations.

  \<^bold>\<open>Bounds.\<close> Primes have at most 62 bits (30 for 32-bit limbs) and rings at most \<open>2^30\<close> coefficients; the code
  allocates 64 primes and 8 digits. \<open>moddown\<close> starts one thread per column in blocks of 64, so the theorems on it
  take rings of 64 coefficients or more.

  \<^bold>\<open>Not modelled.\<close> The operations across devices (\<open>LimbPartitionMGPU.cu\<close>, \<open>PeerUtils.cu\<close>, \<open>AccumulateBroadcast.cu\<close>):
  collectives of a communication library around the kernels that are modelled. \<open>modup\<close>, the fused key switching
  and the automorphisms of a partition, the pipelined conversions \<open>ModDown3\<close> and \<open>DecompAndModUpConv_spec\<close>, the 32-bit
  instances of the transforms, the fused polynomial evaluator. Linear transforms and bootstrapping, whose tables come
  from OpenFHE. Memory management, streams and graphs of the runtime; the public interface, serialization, benchmarks,
  tests and examples. Security, and the size of the noise, are outside: a ciphertext stands for its message.
\<close>

end
